(* ===== verification/Prelude.thy ===== *)
theory Prelude
  imports Main "HOL-Library.Word"
begin

text \<open>
  Shared vocabulary of the development: the machine types of the program as HOL types, the
  collections of rewrite rules the components extend, and generic lemmas on bit vectors, lists and
  folds with exclusive or that no component owns.
\<close>

unbundle bit_operations_syntax

section \<open>Types\<close>

text \<open>
  \<^verbatim>\<open>uint64_t\<close>, \<^verbatim>\<open>uint32_t\<close>, \<^verbatim>\<open>uint16_t\<close> and \<^verbatim>\<open>uint8_t\<close> are words of their width.
  The \<^verbatim>\<open>int8_t\<close> coordinates and cells are integers: every value the program computes with
  them lies between -17 and 127, so no arithmetic on them is ever truncated.
\<close>

type_synonym u8 = "8 word"
type_synonym u16 = "16 word"
type_synonym u32 = "32 word"
type_synonym u64 = "64 word"
type_synonym i16 = "16 word"
type_synonym bitboard = "64 word"

named_theorems coord_simps "arithmetic of coordinates between 0 and 63"
named_theorems bb_simps "membership of a square in a bitboard"
named_theorems geom_defs "definitions of the board geometry"

section \<open>Bits of words\<close>

lemma bit_word_lt [dest]: "bit (w :: 'a::len word) n \<Longrightarrow> n < LENGTH('a)"
  by (rule bit_imp_le_length)

lemma bit_u64_lt: "bit (w :: u64) n \<Longrightarrow> n < 64"
  using bit_imp_le_length [of w n] by simp

lemma u64_eqI: "(\<And>n. n < 64 \<Longrightarrow> bit (a :: u64) n = bit b n) \<Longrightarrow> a = b"
  by (rule bit_word_eqI) simp

lemma bit_push_one [bb_simps]: "bit (push_bit k (1 :: u64)) n \<longleftrightarrow> n = k \<and> k < 64"
  by (auto simp: bit_push_bit_iff bit_1_iff simp del: push_bit_of_1)

lemma finite_bits [simp, intro]: "finite {n. bit (w :: 'a::len word) n}"
  by (rule finite_subset [of _ "{..<LENGTH('a)}"]) auto

lemma u64_nonzero_iff: "(w :: u64) \<noteq> 0 \<longleftrightarrow> (\<exists>n. bit w n)"
  by (auto simp: bit_eq_iff dest: bit_u64_lt)

lemma and_nonzero_iff: "(a :: u64) AND b \<noteq> 0 \<longleftrightarrow> (\<exists>n. bit a n \<and> bit b n)"
  by (auto simp: u64_nonzero_iff bit_and_iff)

lemma and_zero_iff: "(a :: u64) AND b = 0 \<longleftrightarrow> (\<forall>n. \<not> (bit a n \<and> bit b n))"
  using and_nonzero_iff [of a b] by blast

lemmas bit_u64_simps [bb_simps] =
  bit_and_iff bit_or_iff bit_xor_iff bit_not_iff

lemma xor_self_cancel [simp]: "(a :: 'a::len word) XOR (a XOR b) = b" "(a XOR b) XOR b = a"
  "(b XOR a) XOR b = a" "b XOR (a XOR b) = a"
  by (auto intro!: bit_word_eqI simp: bit_xor_iff)

section \<open>Folding exclusive or over a list\<close>

text \<open>The board hash is the exclusive or of one table entry per square.\<close>

definition xor_list :: "'a::len word list \<Rightarrow> 'a word" where
  "xor_list ws = foldr (XOR) ws 0"

lemma xor_list_Nil [simp]: "xor_list [] = 0"
  by (simp add: xor_list_def)

lemma xor_list_Cons [simp]: "xor_list (w # ws) = w XOR xor_list ws"
  by (simp add: xor_list_def)

lemma xor_list_append: "xor_list (us @ vs) = xor_list us XOR xor_list vs"
  by (induction us) (simp_all add: ac_simps)

lemma foldl_xor: "foldl (\<lambda>h x. h XOR g x) h xs = h XOR xor_list (map g xs)"
  by (induction xs arbitrary: h) (simp_all add: ac_simps)

lemma xor_list_update:
  assumes "i < length ws"
  shows "xor_list (ws[i := w]) = xor_list ws XOR ws ! i XOR w"
proof -
  have "xor_list ws = xor_list (take i ws) XOR (ws ! i XOR xor_list (drop (Suc i) ws))"
    using assms by (subst id_take_nth_drop [of i ws]) (simp_all add: xor_list_append)
  moreover have "xor_list (ws[i := w]) = xor_list (take i ws) XOR (w XOR xor_list (drop (Suc i) ws))"
    using assms by (simp add: upd_conv_take_nth_drop xor_list_append)
  ultimately show ?thesis
    by (auto intro!: bit_word_eqI simp: bit_xor_iff)
qed

section \<open>Lists\<close>

lemma nth_map_upto: "0 \<le> i \<Longrightarrow> i < n \<Longrightarrow> map f [0..n - 1] ! nat i = f i"
  by (simp add: nth_upto)

lemma length_upto_64 [simp]: "length [0..63] = 64"
  by simp

lemma all_lt_upto:
  fixes n :: int
  shows "(\<forall>c. 0 \<le> c \<longrightarrow> c < n \<longrightarrow> P c) \<longleftrightarrow> list_all P [0..n - 1]"
  by (auto simp: list_all_iff)

lemma list_all_uptoD: "list_all P [0..n] \<Longrightarrow> 0 \<le> c \<Longrightarrow> c \<le> n \<Longrightarrow> P c"
  by (auto simp: list_all_iff)

lemma sorted_wrt_lt_distinct: "sorted_wrt (<) (xs :: int list) \<Longrightarrow> distinct xs"
  by (induction xs) auto

end
