(* ===== verification/Util_Bit.thy ===== *)
theory Util_Bit
  imports Prelude
begin

text \<open>
  Bit manipulation (\<^verbatim>\<open>src/util/bit.h\<close>). The portable branches of the header are modelled:
  the SWAR population count, the De Bruijn bit scan, the shift-and-mask byte swap and the loop that
  deposits bits. Each is proved equal to its specification on the set of bits, so a build that
  uses the compiler's builtins computes the same values.
\<close>

section \<open>The operations\<close>

definition popcount :: "u64 \<Rightarrow> nat" where
  "popcount x0 =
     (let x1 = x0 - ((drop_bit 1 x0) AND 0x5555555555555555);
          x2 = (x1 AND 0x3333333333333333) + ((drop_bit 2 x1) AND 0x3333333333333333);
          x3 = (x2 + drop_bit 4 x2) AND 0x0f0f0f0f0f0f0f0f
      in unat (drop_bit 56 (x3 * 0x0101010101010101)))"

definition hasZeroOrOneBit :: "u64 \<Rightarrow> bool" where
  "hasZeroOrOneBit x \<longleftrightarrow> x AND (x - 1) = 0"

definition clearLowest :: "u64 \<Rightarrow> u64" where
  "clearLowest x = x AND (x - 1)"

definition getLowest_INDEX :: "nat list" where
  "getLowest_INDEX =
     [0,  47, 1,  56, 48, 27, 2,  60,
      57, 49, 41, 37, 28, 16, 3,  61,
      54, 58, 35, 52, 50, 42, 21, 44,
      38, 32, 29, 23, 17, 11, 4,  62,
      46, 55, 26, 59, 40, 36, 15, 53,
      34, 51, 20, 43, 31, 22, 10, 45,
      25, 39, 14, 33, 19, 30, 9,  24,
      13, 18, 8,  12, 7,  6,  5,  63]"

definition getLowest :: "u64 \<Rightarrow> nat" where
  "getLowest x = getLowest_INDEX ! unat (drop_bit 58 ((x XOR (x - 1)) * 0x03f79d71b4cb0a89))"

text \<open>\<^verbatim>\<open>extractLowest\<close> takes its argument by reference: the model returns the new value too.\<close>

definition extractLowest :: "u64 \<Rightarrow> nat \<times> u64" where
  "extractLowest x = (getLowest x, clearLowest x)"

definition swapBytes :: "u64 \<Rightarrow> u64" where
  "swapBytes x0 =
     (let x1 = ((drop_bit 8 x0) AND 0x00ff00ff00ff00ff) OR push_bit 8 (x0 AND 0x00ff00ff00ff00ff);
          x2 = ((drop_bit 16 x1) AND 0x0000ffff0000ffff) OR push_bit 16 (x1 AND 0x0000ffff0000ffff)
      in drop_bit 32 x2 OR push_bit 32 x2)"

definition byteGather :: "u64 \<Rightarrow> u8" where
  "byteGather x0 =
     (let x1 = x0 OR drop_bit 32 x0;
          x2 = x1 OR drop_bit 16 x1;
          x3 = x2 OR drop_bit 8 x2
      in ucast x3)"

definition byteScatter :: "u8 \<Rightarrow> u64" where
  "byteScatter x = ucast x * 0x0101010101010101"

definition rotateLeft :: "u64 \<Rightarrow> nat \<Rightarrow> u64" where
  "rotateLeft x shift = (if shift = 0 then x else push_bit shift x OR drop_bit (64 - shift) x)"

definition rotateRight :: "u64 \<Rightarrow> nat \<Rightarrow> u64" where
  "rotateRight x shift = (if shift = 0 then x else drop_bit shift x OR push_bit (64 - shift) x)"

section \<open>The lowest bit\<close>

definition lowest :: "u64 \<Rightarrow> nat" where
  "lowest x = (LEAST n. bit x n)"

lemma bit_lowest: "x \<noteq> 0 \<Longrightarrow> bit x (lowest x)"
  unfolding lowest_def by (metis LeastI u64_nonzero_iff)

lemma lowest_le: "bit x n \<Longrightarrow> lowest x \<le> n"
  unfolding lowest_def by (rule Least_le)

lemma lowest_lt_64: "x \<noteq> 0 \<Longrightarrow> lowest x < 64"
  using bit_lowest bit_u64_lt by blast

lemma split_at_lowest:
  assumes "x \<noteq> 0"
  shows "x = push_bit (Suc (lowest x)) (drop_bit (Suc (lowest x)) x) + 2 ^ lowest x"
proof -
  let ?k = "lowest x"
  let ?hi = "push_bit (Suc ?k) (drop_bit (Suc ?k) x)"
  have k: "?k < 64" using assms by (rule lowest_lt_64)
  have "x = ?hi OR 2 ^ ?k"
  proof (rule u64_eqI)
    fix n :: nat assume "n < 64"
    then show "bit x n = bit (?hi OR 2 ^ ?k) n"
      using bit_lowest [OF assms] lowest_le [of x n] k
      by (auto simp: bit_or_iff bit_push_bit_iff bit_drop_bit_eq bit_exp_iff Suc_le_eq
            simp del: push_bit_Suc drop_bit_Suc dest: le_neq_implies_less)
  qed
  also have "\<dots> = ?hi + 2 ^ ?k"
    by (rule disjunctive_add [symmetric])
      (auto simp: bit_push_bit_iff bit_exp_iff simp del: push_bit_Suc drop_bit_Suc)
  finally show ?thesis .
qed

lemma bit_minus_one:
  assumes "x \<noteq> 0" "n < 64"
  shows "bit (x - 1) n \<longleftrightarrow> n < lowest x \<or> (lowest x < n \<and> bit x n)"
proof -
  let ?k = "lowest x"
  let ?hi = "push_bit (Suc ?k) (drop_bit (Suc ?k) x)"
  have k: "?k < 64" using assms(1) by (rule lowest_lt_64)
  have "x - 1 = ?hi + (2 ^ ?k - 1)"
    using split_at_lowest [OF assms(1)] by (metis add_diff_eq)
  also have "2 ^ ?k - 1 = (mask ?k :: u64)"
    by (simp add: mask_eq_exp_minus_1)
  also have "?hi + mask ?k = ?hi OR mask ?k"
    by (rule disjunctive_add)
      (auto simp: bit_push_bit_iff bit_mask_iff simp del: push_bit_Suc drop_bit_Suc)
  finally show ?thesis
    using assms(2) k
    by (auto simp: bit_or_iff bit_push_bit_iff bit_drop_bit_eq bit_mask_iff Suc_le_eq
          simp del: push_bit_Suc drop_bit_Suc)
qed

lemma bit_clearLowest:
  assumes "x \<noteq> 0"
  shows "bit (clearLowest x) n \<longleftrightarrow> bit x n \<and> n \<noteq> lowest x"
proof (cases "n < 64")
  case True
  with assms show ?thesis
    unfolding clearLowest_def bit_and_iff
    using bit_minus_one [OF assms True] lowest_le [of x n] by auto
next
  case False
  then show ?thesis by (auto dest: bit_u64_lt)
qed

lemma isolate_lowest:
  assumes "x \<noteq> 0"
  shows "x AND - x = 2 ^ lowest x"
proof (rule u64_eqI)
  fix n :: nat assume n: "n < 64"
  have "- x = NOT (x - 1)" by (rule minus_eq_not_minus_1)
  then show "bit (x AND - x) n = bit (2 ^ lowest x :: u64) n"
    using n bit_minus_one [OF assms n] lowest_le [of x n] bit_lowest [OF assms]
    by (auto simp: bit_and_iff bit_not_iff bit_exp_iff)
qed

lemma xor_minus_one:
  assumes "x \<noteq> 0"
  shows "x XOR (x - 1) = mask (Suc (lowest x))"
proof (rule u64_eqI)
  fix n :: nat assume n: "n < 64"
  show "bit (x XOR (x - 1)) n = bit (mask (Suc (lowest x)) :: u64) n"
    using n bit_minus_one [OF assms n] lowest_le [of x n] bit_lowest [OF assms]
    by (auto simp: bit_xor_iff bit_mask_iff less_Suc_eq)
qed

lemma de_bruijn_table:
  "list_all (\<lambda>k. getLowest_INDEX !
       unat (drop_bit 58 (mask (Suc (nat k)) * 0x03f79d71b4cb0a89 :: u64)) = nat k) [0..63]"
  by code_simp

lemma getLowest_eq_lowest: "x \<noteq> 0 \<Longrightarrow> getLowest x = lowest x"
  using list_all_uptoD [OF de_bruijn_table, of "int (lowest x)"] lowest_lt_64 [of x]
  by (simp add: getLowest_def xor_minus_one)

lemma hasZeroOrOneBit_iff: "hasZeroOrOneBit x \<longleftrightarrow> card {n. bit x n} \<le> 1"
proof (cases "x = 0")
  case True
  then show ?thesis by (simp add: hasZeroOrOneBit_def)
next
  case False
  have "hasZeroOrOneBit x \<longleftrightarrow> clearLowest x = 0"
    by (simp add: hasZeroOrOneBit_def clearLowest_def)
  also have "\<dots> \<longleftrightarrow> (\<forall>n. bit x n \<longrightarrow> n = lowest x)"
    using u64_nonzero_iff [of "clearLowest x"] bit_clearLowest [OF False] by blast
  also have "\<dots> \<longleftrightarrow> (\<forall>m\<in>{n. bit x n}. \<forall>n\<in>{n. bit x n}. m = n)"
    using bit_lowest [OF False] by blast
  also have "\<dots> \<longleftrightarrow> card {n. bit x n} \<le> Suc 0"
    by (rule card_le_Suc0_iff_eq [symmetric]) simp
  finally show ?thesis by simp
qed

section \<open>Loops over the set bits\<close>

text \<open>
  Every loop \<^verbatim>\<open>while (bb) { auto i = extractLowest(bb); ... }\<close> of the program visits the squares of
  \<open>bbList bb\<close> in this order.
\<close>

lemma unat_clearLowest_less: "x \<noteq> 0 \<Longrightarrow> unat (clearLowest x) < unat x"
proof -
  assume nz: "x \<noteq> 0"
  have "clearLowest x \<le> x" unfolding clearLowest_def by (rule word_and_le2)
  moreover have "clearLowest x \<noteq> x"
    using bit_clearLowest [OF nz, of "lowest x"] bit_lowest [OF nz] by auto
  ultimately show ?thesis by (simp add: word_less_nat_alt [symmetric])
qed

function bbList :: "u64 \<Rightarrow> int list" where
  "bbList bb = (if bb = 0 then [] else
     (let (i, rest) = extractLowest bb in int i # bbList rest))"
  by pat_completeness auto
termination
  by (relation "measure unat") (auto simp: extractLowest_def unat_clearLowest_less)

declare bbList.simps [simp del]

lemma bbList_0 [simp]: "bbList 0 = []"
  by (simp add: bbList.simps)

lemma bbList_nonzero: "x \<noteq> 0 \<Longrightarrow> bbList x = int (lowest x) # bbList (clearLowest x)"
  by (subst bbList.simps) (simp add: extractLowest_def getLowest_eq_lowest)

lemma set_bbList: "set (bbList bb) = {c. 0 \<le> c \<and> bit bb (nat c)}"
proof (induction bb rule: bbList.induct)
  case (1 bb)
  show ?case
  proof (cases "bb = 0")
    case False
    have IH: "set (bbList (clearLowest bb)) = {c. 0 \<le> c \<and> bit (clearLowest bb) (nat c)}"
      using 1 [OF False] by (simp add: extractLowest_def)
    show ?thesis
      using bit_lowest [OF False]
      by (auto simp: bbList_nonzero [OF False] IH bit_clearLowest [OF False])
  qed simp
qed

lemma in_bbList [bb_simps]: "c \<in> set (bbList bb) \<longleftrightarrow> 0 \<le> c \<and> bit bb (nat c)"
  by (simp add: set_bbList)

lemma bbList_range: "c \<in> set (bbList bb) \<Longrightarrow> 0 \<le> c \<and> c < 64"
  by (auto simp: in_bbList dest: bit_u64_lt)

lemma sorted_bbList: "sorted_wrt (<) (bbList bb)"
proof (induction bb rule: bbList.induct)
  case (1 bb)
  show ?case
  proof (cases "bb = 0")
    case False
    have "sorted_wrt (<) (bbList (clearLowest bb))"
      using 1 [OF False] by (simp add: extractLowest_def)
    moreover have "\<forall>c\<in>set (bbList (clearLowest bb)). int (lowest bb) < c"
    proof
      fix c assume "c \<in> set (bbList (clearLowest bb))"
      then have "0 \<le> c" "bit bb (nat c)" "nat c \<noteq> lowest bb"
        by (auto simp: in_bbList bit_clearLowest [OF False])
      with lowest_le [of bb "nat c"] show "int (lowest bb) < c" by linarith
    qed
    ultimately show ?thesis by (simp add: bbList_nonzero [OF False])
  qed simp
qed

lemma distinct_bbList: "distinct (bbList bb)"
  by (rule sorted_wrt_lt_distinct) (rule sorted_bbList)

section \<open>Depositing bits\<close>

function depositBits_loop :: "u64 \<Rightarrow> u64 \<Rightarrow> u64 \<Rightarrow> u64" where
  "depositBits_loop x msk res = (if msk = 0 then res else
     (let b = msk AND - msk
      in depositBits_loop (drop_bit 1 x) (msk XOR b) (if odd x then res OR b else res)))"
  by pat_completeness auto

lemma xor_isolated: "msk \<noteq> 0 \<Longrightarrow> msk XOR (msk AND - msk) = clearLowest msk"
  by (rule u64_eqI)
    (use bit_lowest [of msk] in \<open>auto simp: isolate_lowest bit_xor_iff bit_exp_iff bit_clearLowest\<close>)

termination depositBits_loop
  by (relation "measure (\<lambda>(x, msk, res). unat msk)") (auto simp: xor_isolated unat_clearLowest_less)

declare depositBits_loop.simps [simp del]

definition depositBits :: "u64 \<Rightarrow> u64 \<Rightarrow> u64" where
  "depositBits x msk = depositBits_loop x msk 0"

definition rank :: "u64 \<Rightarrow> nat \<Rightarrow> nat" where
  "rank m n = card {j. j < n \<and> bit m j}"

lemma rank_lt_Suc_lowest: "m \<noteq> 0 \<Longrightarrow> bit m n \<Longrightarrow> n \<noteq> lowest m \<Longrightarrow>
    rank m n = Suc (rank (clearLowest m) n)"
proof -
  assume m: "m \<noteq> 0" and n: "bit m n" "n \<noteq> lowest m"
  have "{j. j < n \<and> bit m j} = insert (lowest m) {j. j < n \<and> bit (clearLowest m) j}"
    using lowest_le [OF n(1)] n bit_lowest [OF m] by (auto simp: bit_clearLowest [OF m])
  then show ?thesis
    by (simp add: rank_def bit_clearLowest [OF m])
qed

lemma rank_lowest: "rank m (lowest m) = 0"
  using lowest_le [of m] by (auto simp: rank_def not_le [symmetric])

lemma bit_depositBits_loop:
  "bit (depositBits_loop x m res) n \<longleftrightarrow> bit res n \<or> (bit m n \<and> bit x (rank m n))"
proof (induction x m res rule: depositBits_loop.induct)
  case (1 x m res)
  show ?case
  proof (cases "m = 0")
    case True
    then show ?thesis by (simp add: depositBits_loop.simps)
  next
    case False
    let ?res = "if odd x then res OR 2 ^ lowest m else res"
    have step: "depositBits_loop x m res = depositBits_loop (drop_bit 1 x) (clearLowest m) ?res"
      using False xor_isolated [OF False]
      by (subst depositBits_loop.simps) (simp add: Let_def isolate_lowest)
    have "bit (depositBits_loop x m res) n \<longleftrightarrow>
        bit ?res n \<or> (bit (clearLowest m) n \<and> bit (drop_bit 1 x) (rank (clearLowest m) n))"
      unfolding step using 1 [OF False refl] xor_isolated [OF False]
      unfolding isolate_lowest [OF False] by simp
    also have "\<dots> \<longleftrightarrow> bit res n \<or> (bit m n \<and> bit x (rank m n))"
      using bit_lowest [OF False] rank_lt_Suc_lowest [OF False, of n] rank_lowest [of m]
        lowest_lt_64 [OF False]
      by (cases "n = lowest m")
        (auto simp: bit_clearLowest [OF False] bit_or_iff bit_exp_iff bit_drop_bit_eq bit_0)
    finally show ?thesis .
  qed
qed

lemma bit_depositBits: "bit (depositBits x m) n \<longleftrightarrow> bit m n \<and> bit x (rank m n)"
  by (simp add: depositBits_def bit_depositBits_loop)

section \<open>The SWAR population count\<close>

function ones :: "int \<Rightarrow> int" where
  "ones n = (if n \<le> 0 then 0 else n mod 2 + ones (n div 2))"
  by pat_completeness auto
termination
  by (relation "measure nat") auto

declare ones.simps [simp del]

lemma ones_0 [simp]: "ones 0 = 0"
  by (simp add: ones.simps)

lemma ones_step: "0 \<le> n \<Longrightarrow> ones n = n mod 2 + ones (n div 2)"
  by (cases "n = 0") (simp_all add: ones.simps [of n])

lemma ones_split: "0 \<le> n \<Longrightarrow> ones n = ones (n mod 2 ^ k) + ones (n div 2 ^ k)"
proof (induction k arbitrary: n)
  case (Suc k)
  have "n mod 2 ^ Suc k div 2 = n div 2 mod 2 ^ k"
    by (simp add: zmod_zmult2_eq)
  moreover have "n mod 2 ^ Suc k mod 2 = n mod 2"
    by (simp add: mod_mod_cancel)
  ultimately have "ones (n mod 2 ^ Suc k) = n mod 2 + ones (n div 2 mod 2 ^ k)"
    using ones_step [of "n mod 2 ^ Suc k"] by simp
  moreover have "n div 2 ^ Suc k = n div 2 div 2 ^ k"
    by (simp add: zdiv_zmult2_eq)
  ultimately show ?case
    using Suc.IH [of "n div 2"] Suc.prems ones_step [of n] by simp
qed simp

lemma ones_eq_card:
  fixes w :: u64
  shows "ones (uint w) = int (card {k. bit w k})"
proof -
  have "ones (take_bit m (uint w)) = int (card {k. k < m \<and> bit w k})" for m
  proof (induction m)
    case (Suc m)
    have "ones (take_bit (Suc m) (uint w))
        = ones (take_bit m (uint w)) + ones (take_bit (Suc m) (uint w) div 2 ^ m)"
      using ones_split [of "take_bit (Suc m) (uint w)" m]
      by (simp add: take_bit_eq_mod mod_mod_cancel)
    also have "take_bit (Suc m) (uint w) div 2 ^ m = of_bool (bit w m)"
    proof -
      have "drop_bit m (take_bit (Suc m) (uint w)) = take_bit 1 (drop_bit m (uint w))"
        by (simp add: drop_bit_take_bit)
      moreover have "take_bit 1 (drop_bit m (uint w)) = of_bool (bit (uint w) m)"
        by (simp add: take_bit_Suc bit_iff_odd drop_bit_eq_div mod_2_eq_odd)
      moreover have "bit (uint w) m = bit w m"
        by (auto simp: bit_uint_iff dest: bit_u64_lt)
      ultimately show ?thesis by (simp add: drop_bit_eq_div)
    qed
    also have "{k. k < Suc m \<and> bit w k} = {k. k < m \<and> bit w k} \<union> (if bit w m then {m} else {})"
      by (auto simp: less_Suc_eq)
    ultimately show ?case
      using Suc by (simp add: ones.simps)
  qed simp
  moreover have "{k. k < 64 \<and> bit w k} = {k. bit w k}"
    by (auto dest: bit_u64_lt)
  moreover have "take_bit 64 (uint w) = uint w"
    using uint_lt2p [of w] by (intro take_bit_int_eq_self) simp_all
  ultimately show ?thesis by metis
qed

text \<open>The three masking steps act on each byte separately.\<close>

definition swar1 :: "int \<Rightarrow> int \<Rightarrow> int" where
  "swar1 m x = x - (drop_bit 1 x AND m)"

definition swar2 :: "int \<Rightarrow> int \<Rightarrow> int" where
  "swar2 m x = (x AND m) + (drop_bit 2 x AND m)"

definition swar3 :: "int \<Rightarrow> int \<Rightarrow> int" where
  "swar3 m x = (x + drop_bit 4 x) AND m"

lemma and_byte:
  fixes x c m :: int
  assumes "0 \<le> c" "c < 256"
  shows "x AND (c + 256 * m) = ((x mod 256) AND c) + 256 * ((x div 256) AND m)"
proof -
  let ?y = "x AND (c + 256 * m)"
  have c: "(c + 256 * m) mod 256 = c" "(c + 256 * m) div 256 = m" using assms by auto
  have "?y mod 256 = (x mod 256) AND c"
    using take_bit_and [of 8 x "c + 256 * m"] c by (simp add: take_bit_eq_mod)
  moreover have "?y div 256 = (x div 256) AND m"
    using drop_bit_and [of 8 x "c + 256 * m"] c by (simp add: drop_bit_eq_div)
  ultimately show ?thesis
    by (metis add.commute mult_div_mod_eq)
qed

lemma and_shift_byte:
  fixes x c m :: int
  assumes "0 \<le> c" "c < 2 ^ (8 - s)" "s \<le> 8"
  shows "drop_bit s x AND (c + 256 * m) =
    (drop_bit s (x mod 256) AND c) + 256 * (drop_bit s (x div 256) AND m)"
proof -
  have "(2::int) ^ (8 - s) \<le> 2 ^ 8" by (rule power_increasing) simp_all
  with assms(2) have c: "c < 256" by simp
  have tc: "take_bit (8 - s) c = c" using assms(1,2) by (simp add: take_bit_eq_mod)
  have "take_bit 8 (drop_bit s x) AND take_bit (8 - s) c
      = take_bit (8 - s) (drop_bit s x) AND take_bit (8 - s) c"
    by (rule bit_eqI) (auto simp: bit_and_iff bit_take_bit_iff)
  then have "(drop_bit s x mod 256) AND c = take_bit (8 - s) (drop_bit s x) AND c"
    using tc by (simp add: take_bit_eq_mod)
  also have "take_bit (8 - s) (drop_bit s x) = drop_bit s (x mod 256)"
    using assms(3) take_bit_drop_bit [of "8 - s" s x] by (simp add: take_bit_eq_mod)
  finally have lo: "(drop_bit s x mod 256) AND c = drop_bit s (x mod 256) AND c" .
  have hi: "drop_bit s x div 256 = drop_bit s (x div 256)"
    by (simp add: drop_bit_eq_div zdiv_zmult2_eq [symmetric] mult.commute)
  show ?thesis using and_byte [OF assms(1) c, of "drop_bit s x" m] lo hi by simp
qed

lemma swar1_byte:
  "swar1 (0x55 + 256 * m) x = swar1 0x55 (x mod 256) + 256 * swar1 m (x div 256)"
proof -
  have "x = x mod 256 + 256 * (x div 256)" by simp
  then show ?thesis
    unfolding swar1_def
    using and_shift_byte [of "0x55" 1 x m] by simp
qed

lemma swar2_byte:
  "swar2 (0x33 + 256 * m) x = swar2 0x33 (x mod 256) + 256 * swar2 m (x div 256)"
  using and_shift_byte [of "0x33" 2 x m] and_byte [of "0x33" x m]
  by (simp add: swar2_def)

lemma swar3_byte:
  assumes "0 \<le> a" "a \<le> 0x44" "0 \<le> y" "y mod 16 \<le> 4"
  shows "swar3 (0x0f + 256 * m) (a + 256 * y) = swar3 0x0f a + 256 * swar3 m y"
proof -
  let ?lo = "a + a div 16 + 16 * (y mod 16)"
  define q r s where "q = y div 16" and "r = y mod 16" and "s = a div 16"
  have "(a + 256 * y) div 16 = a div 16 + 16 * y" by simp
  moreover have "y = 16 * q + r" by (simp add: q_def r_def)
  ultimately have sum: "a + 256 * y + (a + 256 * y) div 16 = ?lo + 256 * (y + y div 16)"
    unfolding q_def [symmetric] r_def [symmetric] s_def [symmetric] by simp
  have "a div 16 \<le> 4" using assms by auto
  then have lo: "0 \<le> ?lo" "?lo < 256" using assms by auto
  define t u where "t = ?lo" and "u = y + y div 16"
  have "swar3 (0x0f + 256 * m) (a + 256 * y) = (t + 256 * u) AND (0x0f + 256 * m)"
  proof -
    have "drop_bit 4 z = z div 16" for z :: int by (simp add: drop_bit_eq_div)
    then show ?thesis unfolding swar3_def by (simp only: sum t_def u_def)
  qed
  also have "\<dots> = (t AND 0x0f) + 256 * (u AND m)"
    using and_byte [of "0x0f" "t + 256 * u" m] lo unfolding t_def [symmetric] by simp
  also have "t AND 0x0f = (a + a div 16) AND 0x0f"
  proof -
    have "x AND 0x0f = take_bit 4 x" for x :: int
      by (simp add: take_bit_eq_mask mask_eq_exp_minus_1)
    then show ?thesis by (simp add: t_def take_bit_eq_mod)
  qed
  finally show ?thesis by (simp add: swar3_def drop_bit_eq_div u_def)
qed

lemma swar_table:
  "list_all (\<lambda>a. let x = swar1 0x55 a; y = swar2 0x33 x in
      0 \<le> x \<and> x < 256 \<and> 0 \<le> y \<and> y \<le> 0x44 \<and> y mod 16 \<le> 4 \<and> swar3 0x0f y = ones a) [0..255]"
  by code_simp

lemma swar_byte:
  assumes "0 \<le> a" "a < 256"
  shows "0 \<le> swar1 0x55 a" "swar1 0x55 a < 256"
    "0 \<le> swar2 0x33 (swar1 0x55 a)" "swar2 0x33 (swar1 0x55 a) \<le> 0x44"
    "swar2 0x33 (swar1 0x55 a) mod 16 \<le> 4" "swar3 0x0f (swar2 0x33 (swar1 0x55 a)) = ones a"
  using list_all_uptoD [OF swar_table, of a] assms by (simp_all add: Let_def)

primrec repeat_byte :: "int \<Rightarrow> nat \<Rightarrow> int" where
  "repeat_byte c 0 = 0"
| "repeat_byte c (Suc n) = c + 256 * repeat_byte c n"

primrec ones_bytes :: "nat \<Rightarrow> int \<Rightarrow> int" where
  "ones_bytes 0 x = 0"
| "ones_bytes (Suc n) x = ones (x mod 256) + 256 * ones_bytes n (x div 256)"

lemma swar_bytes:
  fixes x :: int and n :: nat
  defines "y \<equiv> swar2 (repeat_byte 0x33 n) (swar1 (repeat_byte 0x55 n) x)"
  assumes "0 \<le> x" "x < 256 ^ n"
  shows "0 \<le> y \<and> y mod 16 \<le> 4 \<and> swar3 (repeat_byte 0x0f n) y = ones_bytes n x"
  using assms(2,3) unfolding y_def
proof (induction n arbitrary: x)
  case 0
  then show ?case by (simp add: swar1_def swar2_def swar3_def)
next
  case (Suc n)
  let ?a = "x mod 256" and ?b = "x div 256"
  let ?y = "swar2 (repeat_byte 0x33 n) (swar1 (repeat_byte 0x55 n) ?b)"
  let ?z = "swar2 0x33 (swar1 0x55 ?a)"
  have a: "0 \<le> ?a" "?a < 256" by simp_all
  have "?b < 256 ^ n" using Suc.prems by (simp add: div_less_iff_less_mult [symmetric] mult.commute)
  then have IH: "0 \<le> ?y" "?y mod 16 \<le> 4" "swar3 (repeat_byte 0x0f n) ?y = ones_bytes n ?b"
    using Suc.IH [of ?b] Suc.prems by simp_all
  have 12: "swar2 (repeat_byte 0x33 (Suc n)) (swar1 (repeat_byte 0x55 (Suc n)) x) = ?z + 256 * ?y"
    using swar_byte(1,2) [OF a] by (simp add: swar1_byte swar2_byte)
  have "(?z + 256 * ?y) mod 16 = ?z mod 16"
    using mod_mult_self2 [of ?z 16 "16 * ?y"] by simp
  then show ?case
    unfolding 12 using IH swar_byte(3,4,5,6) [OF a] by (simp add: swar3_byte)
qed

lemma ones_bounds: "0 \<le> a \<Longrightarrow> a < 256 \<Longrightarrow> 0 \<le> ones a \<and> ones a \<le> 8"
  using list_all_uptoD [of "\<lambda>a. 0 \<le> ones a \<and> ones a \<le> 8" 255 a] 
  by (simp add: upto.simps ones.simps)


lemma ones_bytes_sum:
  "0 \<le> x \<Longrightarrow> ones_bytes n x = (\<Sum>i<n. 256 ^ i * ones (x div 256 ^ i mod 256))"
proof (induction n arbitrary: x)
  case (Suc n)
  have "x div 256 div 256 ^ i = x div 256 ^ Suc i" for i
    by (simp add: zdiv_zmult2_eq)
  then show ?case
    using Suc.IH [of "x div 256"] Suc.prems
    by (simp add: sum.lessThan_Suc_shift sum_distrib_left mult.assoc del: sum.lessThan_Suc)
qed simp

lemma horner_ones_bytes:
  assumes "0 \<le> x" "x < 2 ^ 64"
  shows "(ones_bytes 8 x * 0x0101010101010101) mod 2 ^ 64 div 2 ^ 56 = ones x"
proof -
  define d where "d i = ones (x div 256 ^ i mod 256)" for i
  have d: "0 \<le> d i \<and> d i \<le> 8" for i
    unfolding d_def by (rule ones_bounds) simp_all
  have split: "ones x = (\<Sum>i<n. d i) + ones (x div 256 ^ n)" for n
  proof (induction n)
    case (Suc n)
    have "x div 256 ^ n div 2 ^ 8 = x div 256 ^ Suc n"
      by (simp add: zdiv_zmult2_eq [symmetric] mult.commute)
    then have "ones (x div 256 ^ n) = d n + ones (x div 256 ^ Suc n)"
      using ones_split [of "x div 256 ^ n" 8] assms(1)
      by (simp add: d_def pos_imp_zdiv_nonneg_iff del: power_Suc)
    with Suc show ?case by simp
  qed simp
  have "x div 256 ^ 8 = 0" using assms by simp
  then have sum: "ones x = d 0 + d 1 + d 2 + d 3 + d 4 + d 5 + d 6 + d 7"
    using split [of 8] by (simp add: lessThan_nat_numeral)
  have ob: "ones_bytes 8 x = d 0 + 256 ^ 1 * d 1 + 256 ^ 2 * d 2 + 256 ^ 3 * d 3 + 256 ^ 4 * d 4
      + 256 ^ 5 * d 5 + 256 ^ 6 * d 6 + 256 ^ 7 * d 7"
    unfolding ones_bytes_sum [OF assms(1)] d_def by (simp add: lessThan_nat_numeral)
  define lo where "lo = 256 ^ 0 * (d 0) + 256 ^ 1 * (d 0 + d 1) + 256 ^ 2 * (d 0 + d 1 + d 2) + 256 ^ 3 * (d 0 + d 1 + d 2 + d 3) + 256 ^ 4 * (d 0 + d 1 + d 2 + d 3 + d 4) + 256 ^ 5 * (d 0 + d 1 + d 2 + d 3 + d 4 + d 5) + 256 ^ 6 * (d 0 + d 1 + d 2 + d 3 + d 4 + d 5 + d 6)"
  define hi where "hi = 256 ^ 0 * (d 1 + d 2 + d 3 + d 4 + d 5 + d 6 + d 7) + 256 ^ 1 * (d 2 + d 3 + d 4 + d 5 + d 6 + d 7) + 256 ^ 2 * (d 3 + d 4 + d 5 + d 6 + d 7) + 256 ^ 3 * (d 4 + d 5 + d 6 + d 7) + 256 ^ 4 * (d 5 + d 6 + d 7) + 256 ^ 5 * (d 6 + d 7) + 256 ^ 6 * (d 7)"
  have lo: "0 \<le> lo" "lo < 2 ^ 56"
    using d [of 0] d [of 1] d [of 2] d [of 3] d [of 4] d [of 5] d [of 6]
    unfolding lo_def by simp_all
  have "ones_bytes 8 x * 0x0101010101010101 = lo + 2 ^ 56 * ones x + 2 ^ 64 * hi"
    unfolding ob sum lo_def hi_def by (simp add: algebra_simps)
  moreover have "0 \<le> ones x \<and> ones x < 256"
    unfolding sum using d [of 0] d [of 1] d [of 2] d [of 3] d [of 4] d [of 5] d [of 6] d [of 7]
    by simp
  ultimately show ?thesis using lo by simp
qed

lemma popcount_eq_card: "popcount w = card {n. bit w n}"
proof -
  let ?x = "uint w" and ?k = "0x0101010101010101 :: int"
  define y where "y = swar2 (repeat_byte 0x33 8) (swar1 (repeat_byte 0x55 8) ?x)"
  define x1 where "x1 = w - ((drop_bit 1 w) AND 0x5555555555555555)"
  define x2 where "x2 = (x1 AND 0x3333333333333333) + ((drop_bit 2 x1) AND 0x3333333333333333)"
  define x3 where "x3 = (x2 + drop_bit 4 x2) AND 0x0f0f0f0f0f0f0f0f"
  have x: "0 \<le> ?x" "?x < 256 ^ 8" using uint_lt2p [of w] by simp_all
  have rep: "repeat_byte 0x55 8 = 0x5555555555555555" "repeat_byte 0x33 8 = 0x3333333333333333"
    "repeat_byte 0x0f 8 = 0x0f0f0f0f0f0f0f0f" by code_simp+
  have dr: "uint (drop_bit k v) = drop_bit k (uint v)" for k and v :: u64
    using take_bit_int_eq_self [of "uint v" 64] uint_lt2p [of v]
    by (simp add: unsigned_drop_bit_eq)
  have le: "0 \<le> a AND b" "a AND b \<le> b" if "0 \<le> b" for a b :: int
    using that by (simp_all add: AND_upper2)
  define h where "h = drop_bit 1 ?x AND 0x5555555555555555"
  have "0 \<le> h" unfolding h_def by (rule le) simp
  moreover have "h \<le> ?x"
    unfolding h_def using AND_upper1 [of "?x div 2" "0x5555555555555555"] x(1)
    by (simp only: drop_bit_eq_div power_one_right) linarith
  ultimately have "(?x - h) mod 2 ^ 64 = ?x - h" using x(2) by simp
  moreover have "uint x1 = (?x - h) mod 2 ^ 64"
    unfolding x1_def h_def by (simp add: uint_word_ariths(2) dr unsigned_and_eq)
  ultimately have "uint x1 = swar1 0x5555555555555555 ?x"
    by (simp add: swar1_def h_def)
  then have u2: "uint x2 = y mod 2 ^ 64"
    unfolding x2_def y_def rep swar2_def by (simp add: uint_word_ariths(1) dr unsigned_and_eq)
  have "0 \<le> y" "y \<le> 2 * 0x3333333333333333"
    unfolding y_def rep swar2_def
    using le(1) [of "0x3333333333333333" "swar1 0x5555555555555555 ?x"]
      le(1) [of "0x3333333333333333" "drop_bit 2 (swar1 0x5555555555555555 ?x)"]
      le(2) [of "0x3333333333333333" "swar1 0x5555555555555555 ?x"]
      le(2) [of "0x3333333333333333" "drop_bit 2 (swar1 0x5555555555555555 ?x)"] by linarith+
  with u2 have u2: "uint x2 = y" by simp
  have "y + drop_bit 4 y < 2 ^ 64"
    using \<open>0 \<le> y\<close> \<open>y \<le> _\<close> by (simp add: drop_bit_eq_div)
  moreover have "0 \<le> y + drop_bit 4 y" using \<open>0 \<le> y\<close> by simp
  ultimately have "uint x3 = swar3 (repeat_byte 0x0f 8) y"
    unfolding x3_def swar3_def rep unsigned_and_eq uint_word_ariths(1) dr u2 by simp
  also have "\<dots> = ones_bytes 8 ?x"
    unfolding y_def using swar_bytes [OF x] by simp
  finally have "uint (drop_bit 56 (x3 * 0x0101010101010101))
      = (ones_bytes 8 ?x * ?k) mod 2 ^ 64 div 2 ^ 56"
    unfolding dr uint_word_ariths(3) by (simp add: drop_bit_eq_div)
  also have "\<dots> = int (card {n. bit w n})"
    using horner_ones_bytes [OF x(1)] x(2) ones_eq_card [of w] by simp
  finally have "uint (drop_bit 56 (x3 * 0x0101010101010101)) = int (card {n. bit w n})" .
  then show ?thesis
    unfolding popcount_def Let_def x1_def [symmetric] x2_def [symmetric] x3_def [symmetric]
    by (metis nat_int unat_eq_nat_uint)
qed

section \<open>Bytes and rotations\<close>

lemma bit_byteGather: "bit (byteGather x) n \<longleftrightarrow> n < 8 \<and> (\<exists>k<8. bit x (n + 8 * k))"
proof -
  have "(\<exists>k<8. bit x (n + 8 * k)) \<longleftrightarrow> list_ex (\<lambda>k. bit x (n + 8 * k)) [0..<8]"
    by (auto simp: list_ex_iff)
  then have ex: "(\<exists>k<8. bit x (n + 8 * k)) \<longleftrightarrow> bit x n \<or> bit x (8 + n) \<or> bit x (16 + n) \<or>
      bit x (24 + n) \<or> bit x (32 + n) \<or> bit x (40 + n) \<or> bit x (48 + n) \<or> bit x (56 + n)"
    by (simp add: upt_rec ac_simps)
  show ?thesis
    unfolding ex by (auto simp: byteGather_def Let_def bit_ucast_iff bit_or_iff bit_drop_bit_eq)
qed

lemma byteScatter_digits: "byteScatter x = (\<Sum>k<8. push_bit (8 * k) (ucast x))"
  by (simp add: byteScatter_def lessThan_nat_numeral push_bit_eq_mult algebra_simps)

lemma bit_byteScatter: "bit (byteScatter x) n \<longleftrightarrow> n < 64 \<and> bit x (n mod 8)"
proof -
  let ?p = "\<lambda>k. push_bit (8 * k) (ucast x :: u64)"
  have sum: "bit (\<Sum>k<m. ?p k) n \<longleftrightarrow> n < 8 * m \<and> n < 64 \<and> bit x (n mod 8)" for m n
  proof (induction m arbitrary: n)
    case (Suc m)
    have "(\<Sum>k<m. ?p k) + ?p m = (\<Sum>k<m. ?p k) OR ?p m"
      by (rule disjunctive_add) (auto simp: Suc bit_push_bit_iff)
    moreover have "n < 64 \<Longrightarrow> 8 * m \<le> n \<Longrightarrow> bit x (n - 8 * m) \<longleftrightarrow> n < 8 * Suc m \<and> bit x (n mod 8)"
    proof -
      assume "8 * m \<le> n"
      then obtain r where n: "n = 8 * m + r" using le_Suc_ex by blast
      show "bit x (n - 8 * m) \<longleftrightarrow> n < 8 * Suc m \<and> bit x (n mod 8)"
        using bit_imp_le_length [of x r] by (auto simp: n mod_mult_self4)
    qed
    ultimately show ?case
      by (auto simp: Suc bit_or_iff bit_push_bit_iff bit_ucast_iff)
  qed simp
  show ?thesis unfolding byteScatter_digits sum by auto
qed

lemma bit_swapBytes: "bit (swapBytes x) n \<longleftrightarrow> n < 64 \<and> bit x (56 + n mod 8 - 8 * (n div 8))"
proof (cases "n < 64")
  case True
  have "list_all (\<lambda>n. bit (swapBytes x) (nat n) \<longleftrightarrow> bit x (nat (56 + n mod 8 - 8 * (n div 8)))) [0..63]"
    by (simp add: upto.simps swapBytes_def Let_def bit_or_iff bit_and_iff bit_push_bit_iff bit_drop_bit_eq)
  from list_all_uptoD [OF this, of "int n"] True
  have "bit (swapBytes x) n \<longleftrightarrow> bit x (nat (56 + int n mod 8 - 8 * (int n div 8)))" by simp
  moreover have "56 + int n mod 8 - 8 * (int n div 8) = int (56 + n mod 8 - 8 * (n div 8))"
  proof -
    have "n div 8 \<le> 7" using True by simp
    then have "8 * (n div 8) \<le> 56 + n mod 8" by linarith
    then show ?thesis by (simp add: of_nat_diff zmod_int zdiv_int)
  qed
  ultimately show ?thesis using True by simp
qed (auto dest: bit_u64_lt)

lemma swapBytes_swapBytes: "swapBytes (swapBytes x) = x"
proof (rule u64_eqI)
  fix n :: nat assume n: "n < 64"
  define q r where "q = n div 8" and "r = n mod 8"
  have nqr: "n = 8 * q + r" "r < 8" "q < 8" using n by (auto simp: q_def r_def)
  define m where "m = 56 + r - 8 * q"
  have "m = 8 * (7 - q) + r" using nqr by (simp add: m_def)
  then have "m div 8 = 7 - q" "m mod 8 = r" "m < 64" using nqr by simp_all
  then have "56 + m mod 8 - 8 * (m div 8) = n" using nqr by simp
  with n \<open>m < 64\<close> show "bit (swapBytes (swapBytes x)) n = bit x n"
    unfolding bit_swapBytes q_def [symmetric] r_def [symmetric] m_def [symmetric] by simp
qed

lemma rotateRight_rotateLeft:
  assumes "s < 64"
  shows "rotateRight (rotateLeft x s) s = x"
proof (rule u64_eqI)
  fix n :: nat assume n: "n < 64"
  show "bit (rotateRight (rotateLeft x s) s) n = bit x n"
  proof (cases "s + n < 64")
    case True
    then show ?thesis using n assms
      by (auto simp: rotateLeft_def rotateRight_def bit_or_iff bit_push_bit_iff bit_drop_bit_eq
          dest: bit_u64_lt)
  next
    case False
    then have "64 - s \<le> n" by simp
    then obtain d where "n = 64 - s + d" using le_Suc_ex by blast
    then show ?thesis using n assms False
      by (auto simp: rotateLeft_def rotateRight_def bit_or_iff bit_push_bit_iff bit_drop_bit_eq
          ac_simps dest: bit_u64_lt)
  qed
qed

end
