(* ===== verification/Core_Types.thy ===== *)
theory Core_Types
  imports Util_Bit
begin

text \<open>
  The basic vocabulary of the engine (\<^verbatim>\<open>src/core/types.h\<close>, \<^verbatim>\<open>src/core/bitboard.h\<close>,
  \<^verbatim>\<open>src/core/private/geometry.h\<close>, \<^verbatim>\<open>src/core/private/bitboard.h\<close>): colours, pieces, cells,
  coordinates and bitboards. Coordinates, subcoordinates and cells are integers, the castling flags
  are a byte. The lemmas read every bit trick back as arithmetic on rows and columns.
\<close>

section \<open>Colours and pieces\<close>

datatype color = White | Black

datatype piece = Pawn | King | Knight | Bishop | Rook | Queen

type_synonym coord = int
type_synonym subcoord = int
type_synonym cell = int

text \<open>The numeric values of the enumerations, as \<^verbatim>\<open>static_cast\<close> sees them.\<close>

fun colorVal :: "color \<Rightarrow> int" where
  "colorVal White = 0"
| "colorVal Black = 1"

fun pieceVal :: "piece \<Rightarrow> int" where
  "pieceVal Pawn = 0"
| "pieceVal King = 1"
| "pieceVal Knight = 2"
| "pieceVal Bishop = 3"
| "pieceVal Rook = 4"
| "pieceVal Queen = 5"

definition pieceOfVal :: "int \<Rightarrow> piece" where
  "pieceOfVal v = (if v = 0 then Pawn else if v = 1 then King else if v = 2 then Knight
     else if v = 3 then Bishop else if v = 4 then Rook else Queen)"

lemma pieceOfVal_pieceVal [simp]: "pieceOfVal (pieceVal p) = p"
  by (cases p) (simp_all add: pieceOfVal_def)

lemma pieceVal_range: "0 \<le> pieceVal p" "pieceVal p \<le> 5"
  by (cases p; simp)+

lemma pieceVal_inject [simp]: "pieceVal p = pieceVal q \<longleftrightarrow> p = q"
  by (metis pieceOfVal_pieceVal)

lemma color_UNIV: "(UNIV :: color set) = {White, Black}"
  using color.exhaust by auto

instantiation color :: enum
begin

definition "enum_color = [White, Black]"
definition "enum_all_color P \<longleftrightarrow> P White \<and> P Black"
definition "enum_ex_color P \<longleftrightarrow> P White \<or> P Black"

instance
  by standard (auto simp: color_UNIV enum_color_def enum_all_color_def enum_ex_color_def)

end

text \<open>The pieces are ordered by their numeric value, as the C++ enumeration is.\<close>

instantiation piece :: linorder
begin

definition less_eq_piece :: "piece \<Rightarrow> piece \<Rightarrow> bool" where
  "less_eq_piece p q \<longleftrightarrow> pieceVal p \<le> pieceVal q"

definition less_piece :: "piece \<Rightarrow> piece \<Rightarrow> bool" where
  "less_piece p q \<longleftrightarrow> pieceVal p < pieceVal q"

instance
  by standard (auto simp: less_eq_piece_def less_piece_def)

end

lemma piece_UNIV: "(UNIV :: piece set) = {Pawn, King, Knight, Bishop, Rook, Queen}"
  using piece.exhaust by auto

instantiation piece :: enum
begin

definition "enum_piece = [Pawn, King, Knight, Bishop, Rook, Queen]"
definition "enum_all_piece P \<longleftrightarrow> P Pawn \<and> P King \<and> P Knight \<and> P Bishop \<and> P Rook \<and> P Queen"
definition "enum_ex_piece P \<longleftrightarrow> P Pawn \<or> P King \<or> P Knight \<or> P Bishop \<or> P Rook \<or> P Queen"

instance
  by standard (auto simp: piece_UNIV enum_piece_def enum_all_piece_def enum_ex_piece_def)

end

definition invert :: "color \<Rightarrow> color" where
  "invert c = (if colorVal c XOR 1 = 0 then White else Black)"

lemma invert_simps [simp]: "invert White = Black" "invert Black = White"
  by (simp_all add: invert_def)

lemma invert_invert [simp]: "invert (invert c) = c"
  by (cases c) simp_all

lemma invert_neq [simp]: "invert c \<noteq> c" "c \<noteq> invert c"
  by (cases c; simp)+

lemma neq_color_iff: "c \<noteq> d \<longleftrightarrow> c = invert d"
  by (cases c; cases d) simp_all

section \<open>Cells\<close>

definition WHITE_OFFSET :: cell where "WHITE_OFFSET = 1"
definition BLACK_OFFSET :: cell where "BLACK_OFFSET = 9"
definition EMPTY_CELL :: cell where "EMPTY_CELL = 0"
definition INVALID_COORD :: coord where "INVALID_COORD = -1"

definition colorOffset :: "color \<Rightarrow> cell" where
  "colorOffset color = (if color = White then WHITE_OFFSET else BLACK_OFFSET)"

definition isCellValid :: "cell \<Rightarrow> bool" where
  "isCellValid c \<longleftrightarrow> c = EMPTY_CELL \<or> (WHITE_OFFSET \<le> c \<and> c \<le> WHITE_OFFSET + 5) \<or>
     (BLACK_OFFSET \<le> c \<and> c \<le> BLACK_OFFSET + 5)"

definition cellPieceColor :: "cell \<Rightarrow> color" where
  "cellPieceColor c = (if c < 8 then White else Black)"

definition isCellPieceColorEqualTo :: "cell \<Rightarrow> color \<Rightarrow> bool" where
  "isCellPieceColorEqualTo c color =
     (let validPieceSet = (if color = White then 0x7e else 0x7e00 :: u32)
      in (push_bit (nat c) (1 :: u32)) AND validPieceSet \<noteq> 0)"

definition cellPiece :: "cell \<Rightarrow> piece" where
  "cellPiece c = pieceOfVal ((c AND 7) - 1)"

definition makeCell :: "color \<Rightarrow> piece \<Rightarrow> cell" where
  "makeCell color piece = colorOffset color + pieceVal piece"

lemma makeCell_values [simp]:
  "makeCell White p = 1 + pieceVal p" "makeCell Black p = 9 + pieceVal p"
  by (simp_all add: makeCell_def colorOffset_def WHITE_OFFSET_def BLACK_OFFSET_def)

lemma makeCell_inject [simp]: "makeCell c p = makeCell d q \<longleftrightarrow> c = d \<and> p = q"
  using pieceVal_range [of p] pieceVal_range [of q] by (cases c; cases d) auto

lemma makeCell_neq_empty [simp]: "makeCell c p \<noteq> EMPTY_CELL" "EMPTY_CELL \<noteq> makeCell c p"
  using pieceVal_range [of p] by (cases c; simp add: EMPTY_CELL_def)+

lemma makeCell_range: "1 \<le> makeCell c p" "makeCell c p < 15"
  using pieceVal_range [of p] by (cases c; simp)+

lemma cellPieceColor_makeCell [simp]: "cellPieceColor (makeCell c p) = c"
  using pieceVal_range [of p] by (cases c) (auto simp: cellPieceColor_def)

lemma cellPiece_makeCell [simp]: "cellPiece (makeCell c p) = p"
  by (cases c; cases p) (simp_all add: cellPiece_def pieceOfVal_def)

lemma isCellValid_makeCell [simp]: "isCellValid (makeCell c p)"
  using pieceVal_range [of p]
  by (cases c) (simp_all add: isCellValid_def WHITE_OFFSET_def BLACK_OFFSET_def)

lemma isCellValid_empty [simp]: "isCellValid EMPTY_CELL"
  by (simp add: isCellValid_def)

lemma isCellValid_iff: "isCellValid c \<longleftrightarrow> c = EMPTY_CELL \<or> (\<exists>d p. c = makeCell d p)"
proof
  assume "isCellValid c"
  then have "c = EMPTY_CELL \<or> c \<in> {1 + 0, 1 + 1, 1 + 2, 1 + 3, 1 + 4, 1 + 5}
      \<or> c \<in> {9 + 0, 9 + 1, 9 + 2, 9 + 3, 9 + 4, 9 + 5}"
    by (auto simp: isCellValid_def WHITE_OFFSET_def BLACK_OFFSET_def)
  then show "c = EMPTY_CELL \<or> (\<exists>d p. c = makeCell d p)"
    unfolding insert_iff empty_iff
    by (metis makeCell_values pieceVal.simps)
qed auto

lemma isCellValid_cases [consumes 1, case_names empty cell]:
  assumes "isCellValid c"
  obtains "c = EMPTY_CELL" | d p where "c = makeCell d p"
  using assms isCellValid_iff by blast

lemma isCellValid_range: "isCellValid c \<Longrightarrow> 0 \<le> c \<and> c < 15"
  by (auto simp: isCellValid_def EMPTY_CELL_def WHITE_OFFSET_def BLACK_OFFSET_def)

lemma makeCell_cellPiece:
  "isCellValid c \<Longrightarrow> c \<noteq> EMPTY_CELL \<Longrightarrow> makeCell (cellPieceColor c) (cellPiece c) = c"
  by (auto simp: isCellValid_iff)

text \<open>The bit test of \<^verbatim>\<open>isCellPieceColorEqualTo\<close> is the comparison its comment promises.\<close>

lemma isCellPieceColorEqualTo_iff:
  assumes "isCellValid c"
  shows "isCellPieceColorEqualTo c d \<longleftrightarrow> c \<noteq> EMPTY_CELL \<and> cellPieceColor c = d"
proof -
  have "list_all (\<lambda>c. isCellValid c \<longrightarrow> (isCellPieceColorEqualTo c White \<longleftrightarrow> c \<noteq> EMPTY_CELL \<and> cellPieceColor c = White)
     \<and> (isCellPieceColorEqualTo c Black \<longleftrightarrow> c \<noteq> EMPTY_CELL \<and> cellPieceColor c = Black)) [0..14]"
    by code_simp
  from list_all_uptoD [OF this, of c] assms isCellValid_range [OF assms] show ?thesis
    by (cases d) simp_all
qed

section \<open>Castling flags\<close>

type_synonym castling = u8

definition Castling_None :: castling where "Castling_None = 0"
definition Castling_WhiteQueenside :: castling where "Castling_WhiteQueenside = 1"
definition Castling_WhiteKingside :: castling where "Castling_WhiteKingside = 2"
definition Castling_BlackQueenside :: castling where "Castling_BlackQueenside = 4"
definition Castling_BlackKingside :: castling where "Castling_BlackKingside = 8"
definition Castling_All :: castling where "Castling_All = 15"

lemmas castling_consts = Castling_None_def Castling_WhiteQueenside_def Castling_WhiteKingside_def
  Castling_BlackQueenside_def Castling_BlackKingside_def Castling_All_def

definition castlingQueenside :: "color \<Rightarrow> castling" where
  "castlingQueenside c = (if c = White then Castling_WhiteQueenside else Castling_BlackQueenside)"

definition castlingKingside :: "color \<Rightarrow> castling" where
  "castlingKingside c = (if c = White then Castling_WhiteKingside else Castling_BlackKingside)"

definition castling_has :: "castling \<Rightarrow> bool" where
  "castling_has c \<longleftrightarrow> c \<noteq> Castling_None"

section \<open>Coordinates\<close>

definition isCoord :: "coord \<Rightarrow> bool" where
  "isCoord c \<longleftrightarrow> 0 \<le> c \<and> c < 64"

definition makeCoord :: "subcoord \<Rightarrow> subcoord \<Rightarrow> coord" where
  "makeCoord x y = push_bit 3 x OR y"

definition coordX :: "coord \<Rightarrow> subcoord" where
  "coordX coord = drop_bit 3 coord"

definition coordY :: "coord \<Rightarrow> subcoord" where
  "coordY coord = coord AND 7"

definition coordDiag1 :: "coord \<Rightarrow> subcoord" where
  "coordDiag1 coord = coordX coord + coordY coord"

definition coordDiag2 :: "coord \<Rightarrow> subcoord" where
  "coordDiag2 coord = 7 - coordX coord + coordY coord"

definition coordFlipX :: "coord \<Rightarrow> coord" where
  "coordFlipX coord = coord XOR 56"

definition coordFlipY :: "coord \<Rightarrow> coord" where
  "coordFlipY coord = coord XOR 7"

definition coordToBitboard :: "coord \<Rightarrow> bitboard" where
  "coordToBitboard coord = push_bit (nat coord) 1"

definition bitboardHasBit :: "bitboard \<Rightarrow> coord \<Rightarrow> bool" where
  "bitboardHasBit bb coord \<longleftrightarrow> drop_bit (nat coord) bb AND 1 \<noteq> 0"

lemma isCoordI [intro]: "0 \<le> c \<Longrightarrow> c < 64 \<Longrightarrow> isCoord c"
  by (simp add: isCoord_def)

lemma coordX_eq [coord_simps]: "coordX c = c div 8"
  by (simp add: coordX_def drop_bit_eq_div)

lemma coordY_eq [coord_simps]: "coordY c = c mod 8"
  using take_bit_eq_mask [of 3 c] by (simp add: coordY_def take_bit_eq_mod mask_eq_exp_minus_1)

lemma makeCoord_eq [coord_simps]: "0 \<le> y \<Longrightarrow> y < 8 \<Longrightarrow> makeCoord x y = 8 * x + y"
proof -
  assume y: "0 \<le> y" "y < 8"
  have "\<not> bit y n" if "3 \<le> n" for n
  proof -
    have "(2::int) ^ 3 \<le> 2 ^ n" using that by (rule power_increasing) simp
    with y show ?thesis by (simp add: bit_iff_odd)
  qed
  then have "push_bit 3 x OR y = push_bit 3 x + y"
    by (intro disjunctive_add [symmetric]) (auto simp: bit_push_bit_iff)
  then show ?thesis by (simp add: makeCoord_def push_bit_eq_mult)
qed

lemma coordX_makeCoord [simp]: "0 \<le> y \<Longrightarrow> y < 8 \<Longrightarrow> coordX (makeCoord x y) = x"
  by (simp add: coord_simps)

lemma coordY_makeCoord [simp]: "0 \<le> y \<Longrightarrow> y < 8 \<Longrightarrow> coordY (makeCoord x y) = y"
  by (simp add: coord_simps)

lemma coordY_range [simp]: "0 \<le> coordY c" "coordY c < 8"
  by (simp_all add: coord_simps)

lemma coordX_range: "isCoord c \<Longrightarrow> 0 \<le> coordX c" "isCoord c \<Longrightarrow> coordX c < 8"
  by (auto simp: coord_simps isCoord_def div_less_iff_less_mult)

lemma makeCoord_coordXY [simp]: "makeCoord (coordX c) (coordY c) = c"
  by (simp add: coord_simps)

lemma isCoord_makeCoord [simp]:
  "0 \<le> x \<Longrightarrow> x < 8 \<Longrightarrow> 0 \<le> y \<Longrightarrow> y < 8 \<Longrightarrow> isCoord (makeCoord x y)"
  by (simp add: coord_simps isCoord_def)

lemma coord_eqI: "coordX c = coordX d \<Longrightarrow> coordY c = coordY d \<Longrightarrow> c = d"
  by (metis makeCoord_coordXY)

lemma all_coords: "(\<forall>c. isCoord c \<longrightarrow> P c) \<longleftrightarrow> list_all P [0..63]"
  by (auto simp: list_all_iff isCoord_def)

lemma list_all_coordD: "list_all P [0..63] \<Longrightarrow> isCoord c \<Longrightarrow> P c"
  using all_coords [of P] by blast

lemma nth_map_coords [simp]: "isCoord c \<Longrightarrow> map f [0..63] ! nat c = f c"
  using nth_map_upto [of c 64 f] by (simp add: isCoord_def)

lemma coordFlipX_eq: "isCoord c \<Longrightarrow> coordFlipX c = makeCoord (7 - coordX c) (coordY c)"
proof -
  have "list_all (\<lambda>c. coordFlipX c = makeCoord (7 - coordX c) (coordY c)) [0..63]" by code_simp
  then show "isCoord c \<Longrightarrow> ?thesis" by (rule list_all_coordD)
qed

lemma coordFlipY_eq: "isCoord c \<Longrightarrow> coordFlipY c = makeCoord (coordX c) (7 - coordY c)"
proof -
  have "list_all (\<lambda>c. coordFlipY c = makeCoord (coordX c) (7 - coordY c)) [0..63]" by code_simp
  then show "isCoord c \<Longrightarrow> ?thesis" by (rule list_all_coordD)
qed

section \<open>Squares of a bitboard\<close>

lemma bitboardHasBit_eq [bb_simps]: "bitboardHasBit bb c \<longleftrightarrow> bit bb (nat c)"
  by (simp add: bitboardHasBit_def bit_iff_odd_drop_bit and_one_eq odd_iff_mod_2_eq_one)

lemma bit_coordToBitboard [bb_simps]:
  "isCoord c \<Longrightarrow> bit (coordToBitboard c) n \<longleftrightarrow> n = nat c"
  by (auto simp: coordToBitboard_def bit_push_one isCoord_def simp del: push_bit_of_1)

lemma nat_coord_eq: "isCoord c \<Longrightarrow> isCoord d \<Longrightarrow> nat c = nat d \<longleftrightarrow> c = d"
  by (auto simp: isCoord_def)

lemma bit_coord_bb:
  "isCoord c \<Longrightarrow> isCoord d \<Longrightarrow> bit (coordToBitboard c) (nat d) \<longleftrightarrow> c = d"
  by (auto simp: bit_coordToBitboard isCoord_def)

lemma coordToBitboard_nonzero [simp]: "isCoord c \<Longrightarrow> coordToBitboard c \<noteq> 0"
  by (auto simp: u64_nonzero_iff bit_coordToBitboard)

lemma and_coordToBitboard_iff:
  "isCoord c \<Longrightarrow> bb AND coordToBitboard c \<noteq> 0 \<longleftrightarrow> bit bb (nat c)"
  "isCoord c \<Longrightarrow> coordToBitboard c AND bb \<noteq> 0 \<longleftrightarrow> bit bb (nat c)"
  by (auto simp: and_nonzero_iff bit_coordToBitboard)

lemma bitboard_eqI: "(\<And>c. isCoord c \<Longrightarrow> bit a (nat c) = bit b (nat c)) \<Longrightarrow> (a :: bitboard) = b"
proof (rule u64_eqI)
  fix n :: nat assume "\<And>c. isCoord c \<Longrightarrow> bit a (nat c) = bit b (nat c)" "n < 64"
  then show "bit a n = bit b n" using isCoordI [of "int n"] by force
qed

lemma bit_NOT_coord: "isCoord d \<Longrightarrow> bit (NOT (a :: bitboard)) (nat d) \<longleftrightarrow> \<not> bit a (nat d)"
  by (auto simp: bit_not_iff isCoord_def possible_bit_def)

definition squares :: "bitboard \<Rightarrow> coord set" where
  "squares bb = {c. isCoord c \<and> bit bb (nat c)}"

lemma squares_bbList: "squares bb = set (bbList bb)"
  using bbList_range [of _ bb] by (auto simp: squares_def in_bbList isCoord_def)

lemma in_squares [bb_simps]: "c \<in> squares bb \<longleftrightarrow> isCoord c \<and> bit bb (nat c)"
  by (simp add: squares_def)

lemma squares_inject: "squares a = squares b \<longleftrightarrow> a = b"
  by (auto simp: squares_def set_eq_iff intro: bitboard_eqI)

lemma squares_empty_iff: "bb = 0 \<longleftrightarrow> squares bb = {}"
  using squares_inject [of bb 0] by (simp add: squares_def)

lemma finite_squares [simp]: "finite (squares bb)"
  by (simp add: squares_bbList)

lemma popcount_squares: "popcount bb = card (squares bb)"
proof -
  have "bij_betw int {n. bit bb n} (squares bb)"
    by (rule bij_betw_byWitness [of _ nat])
      (auto simp: squares_def isCoord_def dest: bit_u64_lt)
  then show ?thesis unfolding popcount_eq_card by (rule bij_betw_same_card)
qed

lemma bbList_nth_lowest: "bb \<noteq> 0 \<Longrightarrow> int (getLowest bb) \<in> squares bb"
  using bit_lowest [of bb] lowest_lt_64 [of bb]
  by (simp add: squares_def isCoord_def getLowest_eq_lowest)

lemma getLowest_singleton: "isCoord c \<Longrightarrow> squares bb = {c} \<Longrightarrow> int (getLowest bb) = c"
  using bbList_nth_lowest [of bb] squares_empty_iff [of bb] by auto

end
