(* ===== verification/Geometry.thy ===== *)
theory Geometry
  imports Core_Types
begin

text \<open>
  Rows, columns and diagonals as bitboards (\<^verbatim>\<open>src/core/bitboard.h\<close>,
  \<^verbatim>\<open>src/core/private/bitboard.h\<close>) and the rows that pawns and castling use
  (\<^verbatim>\<open>src/core/private/geometry.h\<close>). Each table is proved to hold exactly the squares its
  comment names.
\<close>

section \<open>Tables\<close>

definition BB_EMPTY :: bitboard where "BB_EMPTY = 0"
definition BB_FULL :: bitboard where "BB_FULL = 0xffffffffffffffff"

definition BB_DIAG1 :: "bitboard list" where
  "BB_DIAG1 = [
    0x0000000000000001, 0x0000000000000102, 0x0000000000010204, 0x0000000001020408,
    0x0000000102040810, 0x0000010204081020, 0x0001020408102040, 0x0102040810204080,
    0x0204081020408000, 0x0408102040800000, 0x0810204080000000, 0x1020408000000000,
    0x2040800000000000, 0x4080000000000000, 0x8000000000000000]"

definition BB_DIAG2 :: "bitboard list" where
  "BB_DIAG2 = [
    0x0100000000000000, 0x0201000000000000, 0x0402010000000000, 0x0804020100000000,
    0x1008040201000000, 0x2010080402010000, 0x4020100804020100, 0x8040201008040201,
    0x0080402010080402, 0x0000804020100804, 0x0000008040201008, 0x0000000080402010,
    0x0000000000804020, 0x0000000000008040, 0x0000000000000080]"

definition BB_ROW :: "bitboard list" where
  "BB_ROW = [
    0x00000000000000ff, 0x000000000000ff00, 0x0000000000ff0000, 0x00000000ff000000,
    0x000000ff00000000, 0x0000ff0000000000, 0x00ff000000000000, 0xff00000000000000]"

definition BB_COL :: "bitboard list" where
  "BB_COL = [
    0x0101010101010101, 0x0202020202020202, 0x0404040404040404, 0x0808080808080808,
    0x1010101010101010, 0x2020202020202020, 0x4040404040404040, 0x8080808080808080]"

definition BB_CELLS_WHITE :: bitboard where "BB_CELLS_WHITE = 0xaa55aa55aa55aa55"
definition BB_CELLS_BLACK :: bitboard where "BB_CELLS_BLACK = 0x55aa55aa55aa55aa"

definition BB_ROW_FRAME :: bitboard where "BB_ROW_FRAME = 0x8181818181818181"
definition BB_COL_FRAME :: bitboard where "BB_COL_FRAME = 0xff000000000000ff"
definition BB_DIAG_FRAME :: bitboard where "BB_DIAG_FRAME = 0xff818181818181ff"

definition BB_CASTLING_KINGSIDE_PASS :: bitboard where "BB_CASTLING_KINGSIDE_PASS = 0x60"
definition BB_CASTLING_QUEENSIDE_PASS :: bitboard where "BB_CASTLING_QUEENSIDE_PASS = 0x0e"

definition BB_CASTLING_BLACK_KINGSIDE_SRCS :: bitboard where "BB_CASTLING_BLACK_KINGSIDE_SRCS = 0x90"
definition BB_CASTLING_BLACK_QUEENSIDE_SRCS :: bitboard where "BB_CASTLING_BLACK_QUEENSIDE_SRCS = 0x11"
definition BB_CASTLING_BLACK_ALL_SRCS :: bitboard where "BB_CASTLING_BLACK_ALL_SRCS = 0x91"

definition BB_CASTLING_WHITE_KINGSIDE_SRCS :: bitboard where
  "BB_CASTLING_WHITE_KINGSIDE_SRCS = push_bit 56 BB_CASTLING_BLACK_KINGSIDE_SRCS"
definition BB_CASTLING_WHITE_QUEENSIDE_SRCS :: bitboard where
  "BB_CASTLING_WHITE_QUEENSIDE_SRCS = push_bit 56 BB_CASTLING_BLACK_QUEENSIDE_SRCS"
definition BB_CASTLING_WHITE_ALL_SRCS :: bitboard where
  "BB_CASTLING_WHITE_ALL_SRCS = push_bit 56 BB_CASTLING_BLACK_ALL_SRCS"

definition BB_CASTLING_ALL_SRCS :: bitboard where
  "BB_CASTLING_ALL_SRCS = BB_CASTLING_WHITE_ALL_SRCS OR BB_CASTLING_BLACK_ALL_SRCS"

section \<open>Rows of pawns and of castling\<close>

definition enpassantSrcRow :: "color \<Rightarrow> subcoord" where
  "enpassantSrcRow c = (if c = White then 3 else 4)"

definition enpassantDstRow :: "color \<Rightarrow> subcoord" where
  "enpassantDstRow c = (if c = White then 2 else 5)"

definition promoteSrcRow :: "color \<Rightarrow> subcoord" where
  "promoteSrcRow c = (if c = White then 1 else 6)"

definition promoteDstRow :: "color \<Rightarrow> subcoord" where
  "promoteDstRow c = (if c = White then 0 else 7)"

definition doubleMoveSrcRow :: "color \<Rightarrow> subcoord" where
  "doubleMoveSrcRow c = (if c = White then 6 else 1)"

definition doubleMoveDstRow :: "color \<Rightarrow> subcoord" where
  "doubleMoveDstRow c = (if c = White then 4 else 3)"

definition castlingRow :: "color \<Rightarrow> subcoord" where
  "castlingRow c = (if c = White then 7 else 0)"

definition castlingOffset :: "color \<Rightarrow> coord" where
  "castlingOffset c = push_bit 3 (castlingRow c)"

definition pawnForwardDelta :: "color \<Rightarrow> coord" where
  "pawnForwardDelta c = (if c = White then -8 else 8)"

definition pawnLeftDelta :: "color \<Rightarrow> coord" where
  "pawnLeftDelta c = (if c = White then -9 else 7)"

definition pawnRightDelta :: "color \<Rightarrow> coord" where
  "pawnRightDelta c = (if c = White then -7 else 9)"

lemmas pawn_rows [geom_defs] = enpassantSrcRow_def enpassantDstRow_def promoteSrcRow_def
  promoteDstRow_def doubleMoveSrcRow_def doubleMoveDstRow_def castlingRow_def
  pawnForwardDelta_def pawnLeftDelta_def pawnRightDelta_def

lemma castlingOffset_simps [simp]: "castlingOffset White = 56" "castlingOffset Black = 0"
  by (simp_all add: castlingOffset_def castlingRow_def push_bit_eq_mult)

section \<open>The tables hold the squares they promise\<close>

lemma bb_row_table:
  "list_all (\<lambda>x. list_all (\<lambda>c. bit (BB_ROW ! nat x) (nat c) \<longleftrightarrow> coordX c = x) [0..63]) [0..7]"
  by code_simp

lemma bb_col_table:
  "list_all (\<lambda>y. list_all (\<lambda>c. bit (BB_COL ! nat y) (nat c) \<longleftrightarrow> coordY c = y) [0..63]) [0..7]"
  by code_simp

lemma bb_diag1_table:
  "list_all (\<lambda>d. list_all (\<lambda>c. bit (BB_DIAG1 ! nat d) (nat c) \<longleftrightarrow> coordDiag1 c = d) [0..63]) [0..14]"
  by code_simp

lemma bb_diag2_table:
  "list_all (\<lambda>d. list_all (\<lambda>c. bit (BB_DIAG2 ! nat d) (nat c) \<longleftrightarrow> coordDiag2 c = d) [0..63]) [0..14]"
  by code_simp

lemma table_row:
  assumes "list_all (\<lambda>x. list_all (\<lambda>c. bit (T ! nat x) (nat c) \<longleftrightarrow> f c = x) [0..63]) [0..k]"
    and "0 \<le> x" "x \<le> k" "isCoord c"
  shows "bit (T ! nat x) (nat c) \<longleftrightarrow> f c = x"
  using list_all_coordD [OF list_all_uptoD [OF assms(1-3)] assms(4)] .

lemma bit_BB_ROW [bb_simps]:
  "0 \<le> x \<Longrightarrow> x < 8 \<Longrightarrow> isCoord c \<Longrightarrow> bit (BB_ROW ! nat x) (nat c) \<longleftrightarrow> coordX c = x"
  by (rule table_row [OF bb_row_table]) simp_all

lemma bit_BB_COL [bb_simps]:
  "0 \<le> y \<Longrightarrow> y < 8 \<Longrightarrow> isCoord c \<Longrightarrow> bit (BB_COL ! nat y) (nat c) \<longleftrightarrow> coordY c = y"
  by (rule table_row [OF bb_col_table]) simp_all

lemma bit_BB_DIAG1 [bb_simps]:
  "0 \<le> d \<Longrightarrow> d \<le> 14 \<Longrightarrow> isCoord c \<Longrightarrow> bit (BB_DIAG1 ! nat d) (nat c) \<longleftrightarrow> coordDiag1 c = d"
  by (rule table_row [OF bb_diag1_table])

lemma bit_BB_DIAG2 [bb_simps]:
  "0 \<le> d \<Longrightarrow> d \<le> 14 \<Longrightarrow> isCoord c \<Longrightarrow> bit (BB_DIAG2 ! nat d) (nat c) \<longleftrightarrow> coordDiag2 c = d"
  by (rule table_row [OF bb_diag2_table])

lemma coordDiag_range:
  assumes "isCoord c"
  shows "0 \<le> coordDiag1 c" "coordDiag1 c \<le> 14" "0 \<le> coordDiag2 c" "coordDiag2 c \<le> 14"
  unfolding coordDiag1_def coordDiag2_def
  using coordX_range [OF assms] coordY_range [of c] by linarith+

lemma castling_src_values:
  "BB_CASTLING_WHITE_KINGSIDE_SRCS = 0x9000000000000000"
  "BB_CASTLING_WHITE_QUEENSIDE_SRCS = 0x1100000000000000"
  "BB_CASTLING_ALL_SRCS = 0x9100000000000091"
  by code_simp+

lemma castling_tables:
  "list_all (\<lambda>c. (bit (0x9100000000000091 :: bitboard) (nat c) \<longleftrightarrow> c = 0 \<or> c = 4 \<or> c = 7 \<or> c = 56 \<or> c = 60 \<or> c = 63) \<and>
     (bit BB_CASTLING_BLACK_KINGSIDE_SRCS (nat c) \<longleftrightarrow> c = 4 \<or> c = 7) \<and>
     (bit BB_CASTLING_BLACK_QUEENSIDE_SRCS (nat c) \<longleftrightarrow> c = 0 \<or> c = 4) \<and>
     (bit (0x9000000000000000 :: bitboard) (nat c) \<longleftrightarrow> c = 60 \<or> c = 63) \<and>
     (bit (0x1100000000000000 :: bitboard) (nat c) \<longleftrightarrow> c = 56 \<or> c = 60)) [0..63]"
  by code_simp

lemma bit_castling_srcs [bb_simps]:
  assumes "isCoord c"
  shows "bit BB_CASTLING_ALL_SRCS (nat c) \<longleftrightarrow> c \<in> {0, 4, 7, 56, 60, 63}"
    "bit BB_CASTLING_BLACK_KINGSIDE_SRCS (nat c) \<longleftrightarrow> c \<in> {4, 7}"
    "bit BB_CASTLING_BLACK_QUEENSIDE_SRCS (nat c) \<longleftrightarrow> c \<in> {0, 4}"
    "bit BB_CASTLING_WHITE_KINGSIDE_SRCS (nat c) \<longleftrightarrow> c \<in> {60, 63}"
    "bit BB_CASTLING_WHITE_QUEENSIDE_SRCS (nat c) \<longleftrightarrow> c \<in> {56, 60}"
  using list_all_coordD [OF castling_tables assms] unfolding castling_src_values by simp_all

lemma bit_BB_FULL [bb_simps]: "bit BB_FULL n \<longleftrightarrow> n < 64"
proof -
  have "BB_FULL = mask 64" unfolding BB_FULL_def by (simp add: mask_eq_exp_minus_1)
  then show ?thesis using bit_mask_iff [where 'a = u64, of 64 n] by (auto simp: possible_bit_def)
qed

lemma cell_colour_table:
  "list_all (\<lambda>c. (bit BB_CELLS_WHITE (nat c) \<longleftrightarrow> even (coordX c + coordY c)) \<and>
     (bit BB_CELLS_BLACK (nat c) \<longleftrightarrow> odd (coordX c + coordY c))) [0..63]"
  by code_simp

lemma bit_BB_CELLS [bb_simps]:
  assumes "isCoord c"
  shows "bit BB_CELLS_WHITE (nat c) \<longleftrightarrow> even (coordX c + coordY c)"
    "bit BB_CELLS_BLACK (nat c) \<longleftrightarrow> odd (coordX c + coordY c)"
  using list_all_coordD [OF cell_colour_table assms] by blast+

section \<open>Advancing pawns\<close>

definition advancePawnForward :: "color \<Rightarrow> bitboard \<Rightarrow> bitboard" where
  "advancePawnForward c bbPawns = (if c = White then drop_bit 8 bbPawns else push_bit 8 bbPawns)"

definition advancePawnLeft :: "color \<Rightarrow> bitboard \<Rightarrow> bitboard" where
  "advancePawnLeft c bbPawns =
     (let bbMovingPawns = bbPawns AND NOT (BB_COL ! 0)
      in if c = White then drop_bit 9 bbMovingPawns else push_bit 7 bbMovingPawns)"

definition advancePawnRight :: "color \<Rightarrow> bitboard \<Rightarrow> bitboard" where
  "advancePawnRight c bbPawns =
     (let bbMovingPawns = bbPawns AND NOT (BB_COL ! 7)
      in if c = White then drop_bit 7 bbMovingPawns else push_bit 9 bbMovingPawns)"

lemma bit_drop_coord:
  "isCoord c \<Longrightarrow> bit (drop_bit k (bb :: bitboard)) (nat c) \<longleftrightarrow>
     isCoord (c + int k) \<and> bit bb (nat (c + int k))"
  by (auto simp: bit_drop_bit_eq isCoord_def nat_add_distrib add.commute dest: bit_u64_lt)

lemma bit_push_coord:
  "isCoord c \<Longrightarrow> bit (push_bit k (bb :: bitboard)) (nat c) \<longleftrightarrow>
     isCoord (c - int k) \<and> bit bb (nat (c - int k))"
  by (auto simp: bit_push_bit_iff isCoord_def nat_diff_distrib')

lemma bit_advancePawnForward:
  assumes "isCoord c"
  shows "bit (advancePawnForward col bb) (nat c) \<longleftrightarrow>
    isCoord (c - pawnForwardDelta col) \<and> bit bb (nat (c - pawnForwardDelta col))"
  using bit_drop_coord [OF assms, of 8 bb] bit_push_coord [OF assms, of 8 bb]
  by (cases col) (simp_all add: advancePawnForward_def pawnForwardDelta_def)

lemma bit_advancePawnLeft:
  assumes "isCoord c"
  shows "bit (advancePawnLeft col bb) (nat c) \<longleftrightarrow>
    isCoord (c - pawnLeftDelta col) \<and> coordY (c - pawnLeftDelta col) \<noteq> 0 \<and>
    bit bb (nat (c - pawnLeftDelta col))"
  using bit_drop_coord [OF assms, of 9 "bb AND NOT (BB_COL ! 0)"]
    bit_push_coord [OF assms, of 7 "bb AND NOT (BB_COL ! 0)"] bit_BB_COL [of 0 "c - pawnLeftDelta col"]
  by (cases col) (auto simp: advancePawnLeft_def pawnLeftDelta_def Let_def bit_and_iff bit_not_iff
      isCoord_def)

lemma bit_advancePawnRight:
  assumes "isCoord c"
  shows "bit (advancePawnRight col bb) (nat c) \<longleftrightarrow>
    isCoord (c - pawnRightDelta col) \<and> coordY (c - pawnRightDelta col) \<noteq> 7 \<and>
    bit bb (nat (c - pawnRightDelta col))"
  using bit_drop_coord [OF assms, of 7 "bb AND NOT (BB_COL ! 7)"]
    bit_push_coord [OF assms, of 9 "bb AND NOT (BB_COL ! 7)"] bit_BB_COL [of 7 "c - pawnRightDelta col"]
  by (cases col) (auto simp: advancePawnRight_def pawnRightDelta_def Let_def bit_and_iff bit_not_iff
      isCoord_def)

end
