(* ===== verification/Near_Attacks.thy ===== *)
theory Near_Attacks
  imports Geometry
begin

text \<open>
  The tables written by the generators \<^verbatim>\<open>gen/core/near_attacks.cpp\<close> and
  \<^verbatim>\<open>gen/core/between_consts.cpp\<close> and the function \<^verbatim>\<open>between\<close> of
  \<^verbatim>\<open>src/core/private/between.h\<close>. The tables are defined by the generators' own loops; the lemmas
  state them by rows and columns.
\<close>

section \<open>Attacks of pawns, knights and kings\<close>

definition directed_step ::
    "int list \<Rightarrow> int list \<Rightarrow> subcoord \<Rightarrow> subcoord \<Rightarrow> bitboard \<Rightarrow> nat \<Rightarrow> bitboard" where
  "directed_step offX offY x y bb direction =
     (let nx = x + offX ! direction; ny = y + offY ! direction
      in if nx \<ge> 0 \<and> nx < 8 \<and> ny \<ge> 0 \<and> ny < 8 then bb OR coordToBitboard (makeCoord nx ny) else bb)"

definition generateDirected :: "int list \<Rightarrow> int list \<Rightarrow> nat \<Rightarrow> bitboard list" where
  "generateDirected offX offY cnt =
     map (\<lambda>c. foldl (directed_step offX offY (coordX c) (coordY c)) 0 [0..<cnt]) [0..63]"

definition generateKnightAttacks :: "bitboard list" where
  "generateKnightAttacks =
     generateDirected [-2, -2, -1, -1, 2, 2, 1, 1] [-1, 1, -2, 2, -1, 1, -2, 2] 8"

definition generateKingAttacks :: "bitboard list" where
  "generateKingAttacks =
     generateDirected [-1, -1, -1, 0, 0, 1, 1, 1] [-1, 0, 1, -1, 1, -1, 0, 1] 8"

definition generateWhitePawnAttacks :: "bitboard list" where
  "generateWhitePawnAttacks = generateDirected [-1, -1] [-1, 1] 2"

definition generateBlackPawnAttacks :: "bitboard list" where
  "generateBlackPawnAttacks = generateDirected [1, 1] [-1, 1] 2"

text \<open>The arrays of the generated header \<^verbatim>\<open>core/private/near_attacks.h\<close>.\<close>

definition KING_ATTACKS :: "coord \<Rightarrow> bitboard" where
  "KING_ATTACKS c = generateKingAttacks ! nat c"

definition KNIGHT_ATTACKS :: "coord \<Rightarrow> bitboard" where
  "KNIGHT_ATTACKS c = generateKnightAttacks ! nat c"

definition WHITE_PAWN_ATTACKS :: "coord \<Rightarrow> bitboard" where
  "WHITE_PAWN_ATTACKS c = generateWhitePawnAttacks ! nat c"

definition BLACK_PAWN_ATTACKS :: "coord \<Rightarrow> bitboard" where
  "BLACK_PAWN_ATTACKS c = generateBlackPawnAttacks ! nat c"

lemma coord_eq_makeCoord_iff:
  "isCoord d \<Longrightarrow> 0 \<le> y \<Longrightarrow> y < 8 \<Longrightarrow> d = makeCoord x y \<longleftrightarrow> coordX d = x \<and> coordY d = y"
  using coord_eqI [of d "makeCoord x y"] by auto

lemma bit_directed_step:
  assumes "isCoord d"
  shows "bit (directed_step offX offY x y bb k) (nat d) \<longleftrightarrow>
    bit bb (nat d) \<or> (coordX d = x + offX ! k \<and> coordY d = y + offY ! k)"
proof (cases "x + offX ! k \<ge> 0 \<and> x + offX ! k < 8 \<and> y + offY ! k \<ge> 0 \<and> y + offY ! k < 8")
  case True
  then show ?thesis
    using assms coord_eq_makeCoord_iff [OF assms, of "y + offY ! k" "x + offX ! k"]
    by (auto simp: directed_step_def Let_def bit_or_iff bit_coord_bb)
next
  case False
  then have "\<not> (coordX d = x + offX ! k \<and> coordY d = y + offY ! k)"
    using coordX_range [OF assms] coordY_range [of d] by metis
  with False show ?thesis by (simp only: directed_step_def Let_def if_False) simp
qed

lemma bit_generateDirected_loop:
  "isCoord d \<Longrightarrow> bit (foldl (directed_step offX offY x y) bb ks) (nat d) \<longleftrightarrow>
    bit bb (nat d) \<or> (\<exists>k\<in>set ks. coordX d = x + offX ! k \<and> coordY d = y + offY ! k)"
  by (induction ks arbitrary: bb) (simp_all add: bit_directed_step disj_assoc)

lemma bit_generateDirected:
  assumes "isCoord c" "isCoord d"
  shows "bit (generateDirected offX offY cnt ! nat c) (nat d) \<longleftrightarrow>
    (\<exists>k < cnt. coordX d = coordX c + offX ! k \<and> coordY d = coordY c + offY ! k)"
  using assms by (simp add: generateDirected_def bit_generateDirected_loop) auto

definition rowDist :: "coord \<Rightarrow> coord \<Rightarrow> int" where
  "rowDist c d = \<bar>coordX c - coordX d\<bar>"

definition colDist :: "coord \<Rightarrow> coord \<Rightarrow> int" where
  "colDist c d = \<bar>coordY c - coordY d\<bar>"

lemma ex_less_numerals:
  "(\<exists>k<2::nat. P k) \<longleftrightarrow> P 0 \<or> P 1"
  "(\<exists>k<8::nat. P k) \<longleftrightarrow> P 0 \<or> P 1 \<or> P 2 \<or> P 3 \<or> P 4 \<or> P 5 \<or> P 6 \<or> P 7"
proof -
  have "{..<2::nat} = {0, 1}" "{..<8::nat} = {0, 1, 2, 3, 4, 5, 6, 7}" by auto
  then show "(\<exists>k<2::nat. P k) \<longleftrightarrow> P 0 \<or> P 1"
    "(\<exists>k<8::nat. P k) \<longleftrightarrow> P 0 \<or> P 1 \<or> P 2 \<or> P 3 \<or> P 4 \<or> P 5 \<or> P 6 \<or> P 7"
    by (metis (no_types, lifting) insert_iff lessThan_iff empty_iff)+
qed

lemma bit_KING_ATTACKS:
  assumes "isCoord c" "isCoord d"
  shows "bit (KING_ATTACKS c) (nat d) \<longleftrightarrow> c \<noteq> d \<and> rowDist c d \<le> 1 \<and> colDist c d \<le> 1"
proof -
  have "c \<noteq> d \<longleftrightarrow> coordX c \<noteq> coordX d \<or> coordY c \<noteq> coordY d"
    using coord_eqI by auto
  then show ?thesis
    unfolding KING_ATTACKS_def generateKingAttacks_def bit_generateDirected [OF assms]
      ex_less_numerals rowDist_def colDist_def by simp arith
qed

lemma abs_diff_eq:
  fixes a b :: int
  shows "\<bar>a - b\<bar> = 1 \<longleftrightarrow> b = a + 1 \<or> b = a - 1" "\<bar>a - b\<bar> = 2 \<longleftrightarrow> b = a + 2 \<or> b = a - 2"
  by arith+

lemma bit_KNIGHT_ATTACKS:
  assumes "isCoord c" "isCoord d"
  shows "bit (KNIGHT_ATTACKS c) (nat d) \<longleftrightarrow>
    (rowDist c d = 1 \<and> colDist c d = 2) \<or> (rowDist c d = 2 \<and> colDist c d = 1)"
  unfolding KNIGHT_ATTACKS_def generateKnightAttacks_def bit_generateDirected [OF assms]
    ex_less_numerals rowDist_def colDist_def abs_diff_eq by auto

lemma bit_WHITE_PAWN_ATTACKS:
  assumes "isCoord c" "isCoord d"
  shows "bit (WHITE_PAWN_ATTACKS c) (nat d) \<longleftrightarrow> coordX d = coordX c - 1 \<and> colDist c d = 1"
  unfolding WHITE_PAWN_ATTACKS_def generateWhitePawnAttacks_def bit_generateDirected [OF assms]
    ex_less_numerals colDist_def abs_diff_eq by auto

lemma bit_BLACK_PAWN_ATTACKS:
  assumes "isCoord c" "isCoord d"
  shows "bit (BLACK_PAWN_ATTACKS c) (nat d) \<longleftrightarrow> coordX d = coordX c + 1 \<and> colDist c d = 1"
  unfolding BLACK_PAWN_ATTACKS_def generateBlackPawnAttacks_def bit_generateDirected [OF assms]
    ex_less_numerals colDist_def abs_diff_eq by auto

text \<open>The king and knight tables are symmetric, and the pawn tables are each other's converse.\<close>

lemma KING_ATTACKS_sym:
  "isCoord c \<Longrightarrow> isCoord d \<Longrightarrow> bit (KING_ATTACKS c) (nat d) \<longleftrightarrow> bit (KING_ATTACKS d) (nat c)"
  by (auto simp: bit_KING_ATTACKS rowDist_def colDist_def abs_minus_commute)

lemma KNIGHT_ATTACKS_sym:
  "isCoord c \<Longrightarrow> isCoord d \<Longrightarrow> bit (KNIGHT_ATTACKS c) (nat d) \<longleftrightarrow> bit (KNIGHT_ATTACKS d) (nat c)"
  by (auto simp: bit_KNIGHT_ATTACKS rowDist_def colDist_def abs_minus_commute)

lemma PAWN_ATTACKS_converse:
  "isCoord c \<Longrightarrow> isCoord d \<Longrightarrow>
    bit (BLACK_PAWN_ATTACKS c) (nat d) \<longleftrightarrow> bit (WHITE_PAWN_ATTACKS d) (nat c)"
  by (auto simp: bit_WHITE_PAWN_ATTACKS bit_BLACK_PAWN_ATTACKS colDist_def abs_minus_commute)

section \<open>Lines\<close>

definition rook_aligned :: "coord \<Rightarrow> coord \<Rightarrow> bool" where
  "rook_aligned c d \<longleftrightarrow> c \<noteq> d \<and> (coordX c = coordX d \<or> coordY c = coordY d)"

definition bishop_aligned :: "coord \<Rightarrow> coord \<Rightarrow> bool" where
  "bishop_aligned c d \<longleftrightarrow> c \<noteq> d \<and> (coordDiag1 c = coordDiag1 d \<or> coordDiag2 c = coordDiag2 d)"

lemma aligned_sym: "rook_aligned c d \<longleftrightarrow> rook_aligned d c" "bishop_aligned c d \<longleftrightarrow> bishop_aligned d c"
  by (auto simp: rook_aligned_def bishop_aligned_def)

definition ltMask :: "coord \<Rightarrow> bitboard" where
  "ltMask c = coordToBitboard c - 1"

definition gtMask :: "coord \<Rightarrow> bitboard" where
  "gtMask c = NOT (ltMask c OR coordToBitboard c)"

definition genBishopBetween :: "(coord \<Rightarrow> bitboard) \<Rightarrow> bitboard list" where
  "genBishopBetween msk = map (\<lambda>c.
     (BB_DIAG1 ! nat (coordDiag1 c) OR BB_DIAG2 ! nat (coordDiag2 c)) AND msk c) [0..63]"

definition genRookBetween :: "(coord \<Rightarrow> bitboard) \<Rightarrow> bitboard list" where
  "genRookBetween msk = map (\<lambda>c.
     (BB_ROW ! nat (coordX c) OR BB_COL ! nat (coordY c)) AND msk c) [0..63]"

text \<open>The arrays of the generated header \<^verbatim>\<open>core/private/between_consts.h\<close>.\<close>

definition BISHOP_LT :: "coord \<Rightarrow> bitboard" where "BISHOP_LT c = genBishopBetween ltMask ! nat c"
definition BISHOP_GT :: "coord \<Rightarrow> bitboard" where "BISHOP_GT c = genBishopBetween gtMask ! nat c"
definition ROOK_LT :: "coord \<Rightarrow> bitboard" where "ROOK_LT c = genRookBetween ltMask ! nat c"
definition ROOK_GT :: "coord \<Rightarrow> bitboard" where "ROOK_GT c = genRookBetween gtMask ! nat c"

definition between :: "coord \<Rightarrow> coord \<Rightarrow> bitboard" where
  "between src0 dst0 =
     (let (src, dst) = (if src0 > dst0 then (dst0, src0) else (src0, dst0));
          bbDst = coordToBitboard dst
      in if BISHOP_GT src AND bbDst \<noteq> 0 then BISHOP_GT src AND BISHOP_LT dst
         else if ROOK_GT src AND bbDst \<noteq> 0 then ROOK_GT src AND ROOK_LT dst
         else 0)"

lemma bit_ltMask:
  assumes "isCoord c" "isCoord d"
  shows "bit (ltMask c) (nat d) \<longleftrightarrow> d < c"
proof -
  have "ltMask c = mask (nat c)"
    by (simp add: ltMask_def coordToBitboard_def mask_eq_exp_minus_1)
  then show ?thesis using assms by (auto simp: bit_mask_iff isCoord_def)
qed

lemma bit_gtMask: "isCoord c \<Longrightarrow> isCoord d \<Longrightarrow> bit (gtMask c) (nat d) \<longleftrightarrow> c < d"
  using bit_u64_lt [of "coordToBitboard d" "nat d"]
  by (auto simp: gtMask_def bit_not_iff bit_or_iff bit_ltMask bit_coord_bb simp del: bit.de_Morgan_disj)

lemma bit_genBishopBetween:
  assumes "isCoord c" "isCoord d"
  shows "bit (genBishopBetween m ! nat c) (nat d) \<longleftrightarrow>
    (coordDiag1 d = coordDiag1 c \<or> coordDiag2 d = coordDiag2 c) \<and> bit (m c) (nat d)"
  using assms coordDiag_range [OF assms(1)]
  by (simp add: genBishopBetween_def bit_and_iff bit_or_iff bit_BB_DIAG1
      bit_BB_DIAG2)

lemma bit_genRookBetween:
  assumes "isCoord c" "isCoord d"
  shows "bit (genRookBetween m ! nat c) (nat d) \<longleftrightarrow>
    (coordX d = coordX c \<or> coordY d = coordY c) \<and> bit (m c) (nat d)"
  using assms coordX_range [OF assms(1)] coordY_range [of c]
  by (simp add: genRookBetween_def bit_and_iff bit_or_iff bit_BB_ROW bit_BB_COL)

lemma bit_between_tables:
  assumes "isCoord c" "isCoord d"
  shows "bit (BISHOP_LT c) (nat d) \<longleftrightarrow> bishop_aligned c d \<and> d < c"
    "bit (BISHOP_GT c) (nat d) \<longleftrightarrow> bishop_aligned c d \<and> c < d"
    "bit (ROOK_LT c) (nat d) \<longleftrightarrow> rook_aligned c d \<and> d < c"
    "bit (ROOK_GT c) (nat d) \<longleftrightarrow> rook_aligned c d \<and> c < d"
  using assms
  by (auto simp: BISHOP_LT_def BISHOP_GT_def ROOK_LT_def ROOK_GT_def bit_genBishopBetween
      bit_genRookBetween bit_ltMask bit_gtMask bishop_aligned_def rook_aligned_def)

lemma between_sym: "between c d = between d c"
  by (auto simp: between_def Let_def)

text \<open>
  The specification: \<open>e\<close> lies strictly inside the segment from \<open>c\<close> to \<open>d\<close> when both are reached from
  \<open>c\<close> in one of the eight directions, \<open>e\<close> in fewer steps.
\<close>

definition at_step :: "coord \<Rightarrow> int \<times> int \<Rightarrow> int \<Rightarrow> coord \<Rightarrow> bool" where
  "at_step c dir k e \<longleftrightarrow> coordX e = coordX c + k * fst dir \<and> coordY e = coordY c + k * snd dir"

definition rook_dirs :: "(int \<times> int) list" where
  "rook_dirs = [(-1, 0), (1, 0), (0, -1), (0, 1)]"

definition bishop_dirs :: "(int \<times> int) list" where
  "bishop_dirs = [(-1, -1), (1, -1), (-1, 1), (1, 1)]"

definition inside :: "coord \<Rightarrow> coord \<Rightarrow> coord \<Rightarrow> bool" where
  "inside c d e \<longleftrightarrow> (\<exists>dir\<in>set (rook_dirs @ bishop_dirs). \<exists>j k.
     0 < j \<and> j < k \<and> at_step c dir j e \<and> at_step c dir k d)"

lemma coord_less_iff:
  "isCoord c \<Longrightarrow> isCoord d \<Longrightarrow>
    c < d \<longleftrightarrow> coordX c < coordX d \<or> (coordX c = coordX d \<and> coordY c < coordY d)"
  unfolding coordX_eq coordY_eq by presburger

lemma coord_neq_iff: "c \<noteq> d \<longleftrightarrow> coordX c \<noteq> coordX d \<or> coordY c \<noteq> coordY d"
  using coord_eqI by auto

lemma inside_iff:
  assumes "isCoord c" "isCoord d" "isCoord e"
  shows "inside c d e \<longleftrightarrow>
    (coordX c = coordX d \<and> coordX e = coordX c \<and>
       (coordY c < coordY e \<and> coordY e < coordY d \<or> coordY d < coordY e \<and> coordY e < coordY c)) \<or>
    (coordY c = coordY d \<and> coordY e = coordY c \<and>
       (coordX c < coordX e \<and> coordX e < coordX d \<or> coordX d < coordX e \<and> coordX e < coordX c)) \<or>
    (coordDiag1 c = coordDiag1 d \<and> coordDiag1 e = coordDiag1 c \<and>
       (coordX c < coordX e \<and> coordX e < coordX d \<or> coordX d < coordX e \<and> coordX e < coordX c)) \<or>
    (coordDiag2 c = coordDiag2 d \<and> coordDiag2 e = coordDiag2 c \<and>
       (coordX c < coordX e \<and> coordX e < coordX d \<or> coordX d < coordX e \<and> coordX e < coordX c))"
    (is "_ \<longleftrightarrow> ?R")
proof
  assume "inside c d e"
  then obtain dir j k where dir: "dir \<in> set (rook_dirs @ bishop_dirs)"
    and jk: "0 < j" "j < k" and at: "at_step c dir j e" "at_step c dir k d"
    unfolding inside_def by blast
  from dir have "dir = (-1, 0) \<or> dir = (1, 0) \<or> dir = (0, -1) \<or> dir = (0, 1) \<or>
      dir = (-1, -1) \<or> dir = (1, -1) \<or> dir = (-1, 1) \<or> dir = (1, 1)"
    by (simp add: rook_dirs_def bishop_dirs_def)
  with jk at show ?R
    unfolding at_step_def coordDiag1_def coordDiag2_def by (elim disjE) simp_all
next
  have I: "inside c d e" if "dir \<in> set (rook_dirs @ bishop_dirs)" "0 < j" "j < k"
    "at_step c dir j e" "at_step c dir k d" for dir j k
    using that unfolding inside_def by blast
  note defs = rook_dirs_def bishop_dirs_def at_step_def coordDiag1_def coordDiag2_def
  assume ?R
  then show "inside c d e"
  proof (elim disjE conjE)
    assume "coordX c = coordX d" "coordX e = coordX c" "coordY c < coordY e" "coordY e < coordY d"
    then show ?thesis
      by (intro I [of "(0, 1)" "coordY e - coordY c" "coordY d - coordY c"]) (simp_all add: defs)
  next
    assume "coordX c = coordX d" "coordX e = coordX c" "coordY d < coordY e" "coordY e < coordY c"
    then show ?thesis
      by (intro I [of "(0, -1)" "coordY c - coordY e" "coordY c - coordY d"]) (simp_all add: defs)
  next
    assume "coordY c = coordY d" "coordY e = coordY c" "coordX c < coordX e" "coordX e < coordX d"
    then show ?thesis
      by (intro I [of "(1, 0)" "coordX e - coordX c" "coordX d - coordX c"]) (simp_all add: defs)
  next
    assume "coordY c = coordY d" "coordY e = coordY c" "coordX d < coordX e" "coordX e < coordX c"
    then show ?thesis
      by (intro I [of "(-1, 0)" "coordX c - coordX e" "coordX c - coordX d"]) (simp_all add: defs)
  next
    assume "coordDiag1 c = coordDiag1 d" "coordDiag1 e = coordDiag1 c"
      "coordX c < coordX e" "coordX e < coordX d"
    then show ?thesis
      by (intro I [of "(1, -1)" "coordX e - coordX c" "coordX d - coordX c"]) (simp_all add: defs)
  next
    assume "coordDiag1 c = coordDiag1 d" "coordDiag1 e = coordDiag1 c"
      "coordX d < coordX e" "coordX e < coordX c"
    then show ?thesis
      by (intro I [of "(-1, 1)" "coordX c - coordX e" "coordX c - coordX d"]) (simp_all add: defs)
  next
    assume "coordDiag2 c = coordDiag2 d" "coordDiag2 e = coordDiag2 c"
      "coordX c < coordX e" "coordX e < coordX d"
    then show ?thesis
      by (intro I [of "(1, 1)" "coordX e - coordX c" "coordX d - coordX c"]) (simp_all add: defs)
  next
    assume "coordDiag2 c = coordDiag2 d" "coordDiag2 e = coordDiag2 c"
      "coordX d < coordX e" "coordX e < coordX c"
    then show ?thesis
      by (intro I [of "(-1, -1)" "coordX c - coordX e" "coordX c - coordX d"]) (simp_all add: defs)
  qed
qed

lemma segment_arith:
  fixes x1 y1 x2 y2 x3 y3 :: int
  assumes "x1 < x2 \<or> (x1 = x2 \<and> y1 < y2)"
  defines "lt1 \<equiv> x1 < x3 \<or> (x1 = x3 \<and> y1 < y3)" and "lt2 \<equiv> x3 < x2 \<or> (x3 = x2 \<and> y3 < y2)"
    and "bish \<equiv> \<lambda>a b c (d::int). a + b = c + d \<or> 7 - a + b = 7 - c + d"
    and "rook \<equiv> \<lambda>(a::int) (b::int) c d. a = c \<or> b = d"
  shows "(if bish x1 y1 x2 y2 then bish x1 y1 x3 y3 \<and> lt1 \<and> bish x2 y2 x3 y3 \<and> lt2
       else if rook x1 y1 x2 y2 then rook x1 y1 x3 y3 \<and> lt1 \<and> rook x2 y2 x3 y3 \<and> lt2
       else False) \<longleftrightarrow>
    (x1 = x2 \<and> x3 = x1 \<and> (y1 < y3 \<and> y3 < y2 \<or> y2 < y3 \<and> y3 < y1)) \<or>
    (y1 = y2 \<and> y3 = y1 \<and> (x1 < x3 \<and> x3 < x2 \<or> x2 < x3 \<and> x3 < x1)) \<or>
    (x1 + y1 = x2 + y2 \<and> x3 + y3 = x1 + y1 \<and> (x1 < x3 \<and> x3 < x2 \<or> x2 < x3 \<and> x3 < x1)) \<or>
    (7 - x1 + y1 = 7 - x2 + y2 \<and> 7 - x3 + y3 = 7 - x1 + y1 \<and>
       (x1 < x3 \<and> x3 < x2 \<or> x2 < x3 \<and> x3 < x1))"
  using assms(1) unfolding lt1_def lt2_def bish_def rook_def by auto

lemma bit_between:
  assumes "isCoord c" "isCoord d" "isCoord e"
  shows "bit (between c d) (nat e) \<longleftrightarrow> inside c d e"
proof -
  have *: "bit (between c d) (nat e) \<longleftrightarrow> inside c d e"
    if "c \<le> d" "isCoord c" "isCoord d" for c d
  proof -
    have "bit (between c d) (nat e) \<longleftrightarrow>
      (if bishop_aligned c d \<and> c < d then bishop_aligned c e \<and> c < e \<and> bishop_aligned d e \<and> e < d
       else if rook_aligned c d \<and> c < d then rook_aligned c e \<and> c < e \<and> rook_aligned d e \<and> e < d
       else False)"
      using that assms(3)
      by (simp add: between_def and_coordToBitboard_iff bit_between_tables bit_and_iff)
    also have "\<dots> \<longleftrightarrow> inside c d e"
    proof (cases "c = d")
      case True
      then show ?thesis unfolding inside_iff [OF that(2,3) assms(3)] by auto
    next
      case False
      then have lt: "c < d" using that(1) by simp
      have b: "bishop_aligned p q \<longleftrightarrow> coordX p + coordY p = coordX q + coordY q \<or>
          7 - coordX p + coordY p = 7 - coordX q + coordY q"
        and r: "rook_aligned p q \<longleftrightarrow> coordX p = coordX q \<or> coordY p = coordY q" if "p \<noteq> q" for p q
        using that by (simp_all add: bishop_aligned_def rook_aligned_def coordDiag1_def coordDiag2_def)
      have eq: "bishop_aligned c e \<and> c < e \<and> bishop_aligned d e \<and> e < d \<longleftrightarrow>
          (coordX c + coordY c = coordX e + coordY e \<or> 7 - coordX c + coordY c = 7 - coordX e + coordY e)
          \<and> c < e \<and>
          (coordX d + coordY d = coordX e + coordY e \<or> 7 - coordX d + coordY d = 7 - coordX e + coordY e)
          \<and> e < d"
        "rook_aligned c e \<and> c < e \<and> rook_aligned d e \<and> e < d \<longleftrightarrow>
          (coordX c = coordX e \<or> coordY c = coordY e) \<and> c < e \<and>
          (coordX d = coordX e \<or> coordY d = coordY e) \<and> e < d"
        using b [of c e] b [of d e] r [of c e] r [of d e] by blast+
      have lt': "coordX c < coordX d \<or> (coordX c = coordX d \<and> coordY c < coordY d)"
        using lt coord_less_iff [OF that(2,3)] by blast
      have ct: "P \<and> c < d \<longleftrightarrow> P" for P
        using lt by simp
      show ?thesis
        unfolding eq unfolding ct b [OF False] r [OF False] inside_iff [OF that(2,3) assms(3)]
          coord_less_iff [OF that(2) assms(3)] coord_less_iff [OF assms(3) that(3)]
          coordDiag1_def coordDiag2_def
        by (rule segment_arith [OF lt'])
    qed
    finally show ?thesis .
  qed
  have sym: "inside c d e \<longleftrightarrow> inside d c e"
    unfolding inside_iff [OF assms] inside_iff [OF assms(2,1,3)]
    by (intro iffI; elim disjE conjE; simp)
  show ?thesis
  proof (cases "c \<le> d")
    case True
    then show ?thesis using assms(1,2) by (rule *)
  next
    case False
    then have "bit (between d c) (nat e) \<longleftrightarrow> inside d c e" using assms(1,2) by (intro *) simp_all
    then show ?thesis unfolding sym between_sym [of c d] .
  qed
qed

end
