(* ===== verification/Magic.thy ===== *)
theory Magic
  imports Near_Attacks
begin

text \<open>
  Sliding attacks by table lookup (\<^verbatim>\<open>src/core/private/magic.h\<close>, \<^verbatim>\<open>magic.cpp\<close>,
  \<^verbatim>\<open>magic_util.h\<close>, and the search for magic numbers in \<^verbatim>\<open>gen/core/magic_consts.cpp\<close>).
  The tables are filled by walking rays for every subset of a mask; several squares share one
  region of the table. The main result is that a lookup returns exactly the squares a rook or
  bishop sees, for each way of numbering the subsets that meets the interface \<open>slot_numbering\<close>.
\<close>

section \<open>Masks\<close>

datatype magic_type = MagicRook | MagicBishop

definition buildMagicRookMask :: "coord \<Rightarrow> bitboard" where
  "buildMagicRookMask c =
     (let x = coordX c; y = coordY c
      in ((BB_ROW ! nat x AND NOT BB_ROW_FRAME) OR (BB_COL ! nat y AND NOT BB_COL_FRAME))
         AND NOT (coordToBitboard c))"

definition buildMagicRookPostMask :: "coord \<Rightarrow> bitboard" where
  "buildMagicRookPostMask c = (let x = coordX c; y = coordY c in BB_ROW ! nat x XOR BB_COL ! nat y)"

definition buildMagicBishopMask :: "coord \<Rightarrow> bitboard" where
  "buildMagicBishopMask c =
     (BB_DIAG1 ! nat (coordDiag1 c) XOR BB_DIAG2 ! nat (coordDiag2 c)) AND NOT BB_DIAG_FRAME"

definition buildMagicBishopPostMask :: "coord \<Rightarrow> bitboard" where
  "buildMagicBishopPostMask c = BB_DIAG1 ! nat (coordDiag1 c) XOR BB_DIAG2 ! nat (coordDiag2 c)"

definition buildMagicMask :: "magic_type \<Rightarrow> coord \<Rightarrow> bitboard" where
  "buildMagicMask M c = (if M = MagicRook then buildMagicRookMask c else buildMagicBishopMask c)"

definition buildMagicPostMask :: "magic_type \<Rightarrow> coord \<Rightarrow> bitboard" where
  "buildMagicPostMask M c =
     (if M = MagicRook then buildMagicRookPostMask c else buildMagicBishopPostMask c)"

definition getMagicMaskBitSize :: "magic_type \<Rightarrow> coord \<Rightarrow> nat" where
  "getMagicMaskBitSize M c = popcount (buildMagicMask M c)"

section \<open>The tables\<close>

text \<open>The initial \<^verbatim>\<open>bases\<close> are uninitialised in the source; every one of them is assigned.\<close>

definition initOffsets_rook_step :: "int list \<times> int \<Rightarrow> coord \<Rightarrow> int list \<times> int" where
  "initOffsets_rook_step bc c1 =
     (let (bases, count) = bc; c2 = c1 XOR 9
      in if c1 > c2 then (bases, count)
         else let maxLen = max (getMagicMaskBitSize MagicRook c1) (getMagicMaskBitSize MagicRook c2)
              in (bases[nat c1 := count, nat c2 := count], count + 2 ^ maxLen))"

definition bishop_starts :: "(coord \<times> coord) list" where
  "bishop_starts =
     zip [0, 1, 32, 33, 2, 10, 18, 26, 34, 42, 50, 58, 6, 7, 38, 39]
         [8, 8, 8, 8, 1, 1, 1, 1, 1, 1, 1, 1, 8, 8, 8, 8]"

definition initOffsets_bishop_step :: "int list \<times> int \<Rightarrow> coord \<times> coord \<Rightarrow> int list \<times> int" where
  "initOffsets_bishop_step bc co =
     (let (bases, count) = bc; (c, offs) = co;
          len = (\<lambda>i. getMagicMaskBitSize MagicBishop (c + i * offs));
          maxLen = max (max (len 0) (len 1)) (max (len 2) (len 3))
      in (foldl (\<lambda>bs i. bs[nat (c + i * offs) := count]) bases [0..3], count + 2 ^ maxLen))"

definition initOffsets :: "magic_type \<Rightarrow> int list \<times> int" where
  "initOffsets M = (if M = MagicRook
     then foldl initOffsets_rook_step (replicate 64 0, 0) [0..63]
     else foldl initOffsets_bishop_step (replicate 64 0, 0) bishop_starts)"

definition magic_offset :: "magic_type \<Rightarrow> coord \<Rightarrow> int" where
  "magic_offset M c = fst (initOffsets M) ! nat c"

definition lookup_size :: "magic_type \<Rightarrow> nat" where
  "lookup_size M = (if M = MagicRook then 65536 else 1792)"

text \<open>One direction of the ray loop. A ray has at most eight squares, so fuel 8 is enough.\<close>

fun walkRay :: "nat \<Rightarrow> bitboard \<Rightarrow> int \<times> int \<Rightarrow> coord \<Rightarrow> bitboard \<Rightarrow> bitboard" where
  "walkRay 0 occupied dir p res = res"
| "walkRay (Suc fuel) occupied dir p res0 =
     (let res = res0 OR coordToBitboard p;
          nx = coordX p + fst dir; ny = coordY p + snd dir
      in if nx < 0 \<or> nx \<ge> 8 \<or> ny < 0 \<or> ny \<ge> 8 \<or> coordToBitboard p AND occupied \<noteq> 0 then res
         else walkRay fuel occupied dir (makeCoord nx ny) res)"

definition magic_dirs :: "magic_type \<Rightarrow> (int \<times> int) list" where
  "magic_dirs M = (if M = MagicRook then rook_dirs else bishop_dirs)"

definition fillEntry :: "magic_type \<Rightarrow> coord \<Rightarrow> bitboard \<Rightarrow> bitboard \<Rightarrow> bitboard" where
  "fillEntry M c occupied res =
     foldl (\<lambda>r dir. walkRay 8 occupied dir c r) res (magic_dirs M) AND NOT (coordToBitboard c)"

text \<open>
  \<^verbatim>\<open>pos\<close> numbers the subsets of the mask within the region of a square: the identity when the
  BMI2 instructions are used, a multiplicative hash of the subset otherwise.
\<close>

definition fillLookup_entry ::
    "(magic_type \<Rightarrow> coord \<Rightarrow> nat \<Rightarrow> nat) \<Rightarrow> magic_type \<Rightarrow> bitboard list \<Rightarrow> coord \<times> nat \<Rightarrow> bitboard list" where
  "fillLookup_entry pos M lookup cs =
     (let (c, submask) = cs;
          occupied = depositBits (of_nat submask) (buildMagicMask M c);
          slot = nat (magic_offset M c) + pos M c submask
      in lookup[slot := fillEntry M c occupied (lookup ! slot)])"

definition fill_order :: "magic_type \<Rightarrow> (coord \<times> nat) list" where
  "fill_order M = concat (map (\<lambda>c.
     map (\<lambda>submask. (c, submask)) [0..<2 ^ popcount (buildMagicMask M c)]) [0..63])"

definition initMagic :: "(magic_type \<Rightarrow> coord \<Rightarrow> nat \<Rightarrow> nat) \<Rightarrow> magic_type \<Rightarrow> bitboard list" where
  "initMagic pos M = foldl (fillLookup_entry pos M) (replicate (lookup_size M) 0) (fill_order M)"

definition doAttackBitboard ::
    "(magic_type \<Rightarrow> coord \<Rightarrow> nat \<Rightarrow> nat) \<Rightarrow> (magic_type \<Rightarrow> coord \<Rightarrow> bitboard \<Rightarrow> nat) \<Rightarrow>
     magic_type \<Rightarrow> bitboard \<Rightarrow> coord \<Rightarrow> bitboard \<Rightarrow> bitboard" where
  "doAttackBitboard pos idx M occupied c postMask =
     initMagic pos M ! (nat (magic_offset M c) + idx M c occupied) AND postMask"

section \<open>The two ways of numbering\<close>

text \<open>
  \<^verbatim>\<open>_pext_u64\<close> is the compiler's intrinsic for the instruction \<^verbatim>\<open>PEXT\<close>: it packs the bits of
  \<open>x\<close> at the positions of \<open>msk\<close> into the low bits, in order.
\<close>

definition pext_u64 :: "u64 \<Rightarrow> u64 \<Rightarrow> u64" where
  "pext_u64 x msk = foldr (\<lambda>c r. push_bit 1 r OR (if bit x (nat c) then 1 else 0)) (bbList msk) 0"

definition bmi2_pos :: "magic_type \<Rightarrow> coord \<Rightarrow> nat \<Rightarrow> nat" where
  "bmi2_pos M c submask = submask"

definition bmi2_idx :: "magic_type \<Rightarrow> coord \<Rightarrow> bitboard \<Rightarrow> nat" where
  "bmi2_idx M c occupied = unat (pext_u64 occupied (buildMagicMask M c))"

text \<open>The multiplicative hash, for any magic numbers and the shifts the generator writes.\<close>

definition generateShifts :: "magic_type \<Rightarrow> coord \<Rightarrow> nat" where
  "generateShifts M c = 64 - getMagicMaskBitSize M c"

definition mult_pos :: "(magic_type \<Rightarrow> coord \<Rightarrow> u64) \<Rightarrow> magic_type \<Rightarrow> coord \<Rightarrow> nat \<Rightarrow> nat" where
  "mult_pos magics M c submask =
     (let occupied = depositBits (of_nat submask) (buildMagicMask M c)
      in unat (drop_bit (generateShifts M c) (occupied * magics M c)))"

definition mult_idx :: "(magic_type \<Rightarrow> coord \<Rightarrow> u64) \<Rightarrow> magic_type \<Rightarrow> coord \<Rightarrow> bitboard \<Rightarrow> nat" where
  "mult_idx magics M c occupied =
     unat (drop_bit (generateShifts M c) ((occupied AND buildMagicMask M c) * magics M c))"

text \<open>The generator's test of a candidate: no two subsets may get the same index.\<close>

fun isValidMagic_loop :: "magic_type \<Rightarrow> coord \<Rightarrow> u64 \<Rightarrow> bool list \<Rightarrow> nat list \<Rightarrow> bool" where
  "isValidMagic_loop M coord magic used [] = True"
| "isValidMagic_loop M coord magic used (submask # rest) =
     (let msk = buildMagicMask M coord;
          shift = popcount msk;
          occupied = depositBits (of_nat submask) msk;
          idx = unat (drop_bit (64 - shift) (occupied * magic))
      in if used ! idx then False
         else isValidMagic_loop M coord magic (used[idx := True]) rest)"

definition isValidMagic :: "magic_type \<Rightarrow> coord \<Rightarrow> u64 \<Rightarrow> bool" where
  "isValidMagic M coord magic =
     (let submaskCnt = 2 ^ popcount (buildMagicMask M coord)
      in isValidMagic_loop M coord magic (replicate submaskCnt False) [0..<submaskCnt])"

section \<open>The lookup functions\<close>

text \<open>
  The model fixes the build with BMI2, whose numbering is closed; the last section shows that the
  portable build returns the same bitboards for every set of magic numbers the generator accepts.
\<close>

definition rookAttackBitboard :: "bitboard \<Rightarrow> coord \<Rightarrow> bitboard" where
  "rookAttackBitboard occupied pos =
     doAttackBitboard bmi2_pos bmi2_idx MagicRook occupied pos (buildMagicPostMask MagicRook pos)"

definition rookAttackBitboardMasked :: "bitboard \<Rightarrow> coord \<Rightarrow> bitboard \<Rightarrow> bitboard" where
  "rookAttackBitboardMasked occupied pos postMask =
     (let entryPostMask = buildMagicPostMask MagicRook pos AND postMask
      in if entryPostMask = 0 then 0
         else doAttackBitboard bmi2_pos bmi2_idx MagicRook occupied pos entryPostMask)"

definition bishopAttackBitboard :: "bitboard \<Rightarrow> coord \<Rightarrow> bitboard" where
  "bishopAttackBitboard occupied pos =
     doAttackBitboard bmi2_pos bmi2_idx MagicBishop occupied pos (buildMagicPostMask MagicBishop pos)"

definition bishopAttackBitboardMasked :: "bitboard \<Rightarrow> coord \<Rightarrow> bitboard \<Rightarrow> bitboard" where
  "bishopAttackBitboardMasked occupied pos postMask =
     (let entryPostMask = buildMagicPostMask MagicBishop pos AND postMask
      in if entryPostMask = 0 then 0
         else doAttackBitboard bmi2_pos bmi2_idx MagicBishop occupied pos entryPostMask)"

section \<open>What the masks hold\<close>

definition aligned :: "magic_type \<Rightarrow> coord \<Rightarrow> coord \<Rightarrow> bool" where
  "aligned M c d \<longleftrightarrow> (if M = MagicRook then rook_aligned c d else bishop_aligned c d)"

lemma frame_tables:
  "list_all (\<lambda>c. (bit BB_ROW_FRAME (nat c) \<longleftrightarrow> coordY c = 0 \<or> coordY c = 7) \<and>
     (bit BB_COL_FRAME (nat c) \<longleftrightarrow> coordX c = 0 \<or> coordX c = 7) \<and>
     (bit BB_DIAG_FRAME (nat c) \<longleftrightarrow> coordX c = 0 \<or> coordX c = 7 \<or> coordY c = 0 \<or> coordY c = 7)) [0..63]"
  by code_simp

lemma bit_frames [bb_simps]:
  assumes "isCoord c"
  shows "bit BB_ROW_FRAME (nat c) \<longleftrightarrow> coordY c = 0 \<or> coordY c = 7"
    "bit BB_COL_FRAME (nat c) \<longleftrightarrow> coordX c = 0 \<or> coordX c = 7"
    "bit BB_DIAG_FRAME (nat c) \<longleftrightarrow> coordX c = 0 \<or> coordX c = 7 \<or> coordY c = 0 \<or> coordY c = 7"
  using list_all_coordD [OF frame_tables assms] by blast+

lemma same_diagonals: "coordDiag1 c = coordDiag1 d \<Longrightarrow> coordDiag2 c = coordDiag2 d \<Longrightarrow> c = d"
  unfolding coordDiag1_def coordDiag2_def by (rule coord_eqI) linarith+

lemma bit_buildMagicPostMask:
  assumes "isCoord c" "isCoord d"
  shows "bit (buildMagicPostMask M c) (nat d) \<longleftrightarrow> aligned M c d"
proof (cases M)
  case MagicRook
  have "bit (buildMagicPostMask M c) (nat d) \<longleftrightarrow> (coordX d = coordX c) \<noteq> (coordY d = coordY c)"
    using assms coordX_range [OF assms(1)]
    by (simp add: MagicRook buildMagicPostMask_def buildMagicRookPostMask_def Let_def bit_xor_iff
        bit_BB_ROW bit_BB_COL)
  then show ?thesis
    unfolding aligned_def rook_aligned_def using MagicRook coord_eqI [of c d] by metis
next
  case MagicBishop
  have "bit (buildMagicPostMask M c) (nat d) \<longleftrightarrow>
      (coordDiag1 d = coordDiag1 c) \<noteq> (coordDiag2 d = coordDiag2 c)"
    using assms coordDiag_range [OF assms(1)]
    by (simp add: MagicBishop buildMagicPostMask_def buildMagicBishopPostMask_def bit_xor_iff
        bit_BB_DIAG1 bit_BB_DIAG2)
  then show ?thesis
    unfolding aligned_def bishop_aligned_def using MagicBishop same_diagonals [of c d] by (metis magic_type.distinct(1))
qed

lemma bit_buildMagicRookMask:
  assumes "isCoord c" "isCoord d"
  shows "bit (buildMagicRookMask c) (nat d) \<longleftrightarrow> c \<noteq> d \<and>
    (coordX d = coordX c \<and> coordY d \<noteq> 0 \<and> coordY d \<noteq> 7 \<or>
     coordY d = coordY c \<and> coordX d \<noteq> 0 \<and> coordX d \<noteq> 7)"
  using assms coordX_range [OF assms(1)] coordY_range [of c]
  by (auto simp: buildMagicRookMask_def Let_def bit_and_iff bit_or_iff bit_NOT_coord bit_BB_ROW
      bit_BB_COL bit_frames bit_coord_bb)

lemma bit_buildMagicBishopMask:
  assumes "isCoord c" "isCoord d"
  shows "bit (buildMagicBishopMask c) (nat d) \<longleftrightarrow> bishop_aligned c d \<and>
    coordX d \<noteq> 0 \<and> coordX d \<noteq> 7 \<and> coordY d \<noteq> 0 \<and> coordY d \<noteq> 7"
proof -
  have "buildMagicBishopMask c = buildMagicPostMask MagicBishop c AND NOT BB_DIAG_FRAME"
    by (simp add: buildMagicBishopMask_def buildMagicPostMask_def buildMagicBishopPostMask_def)
  then show ?thesis
    using bit_buildMagicPostMask [OF assms, of MagicBishop]
    by (simp add: bit_and_iff bit_NOT_coord bit_frames assms aligned_def)
qed

lemma mask_aligned:
  assumes "isCoord c" "isCoord d" "bit (buildMagicMask M c) (nat d)"
  shows "aligned M c d"
  using assms by (cases M)
    (auto simp: buildMagicMask_def aligned_def bit_buildMagicRookMask bit_buildMagicBishopMask
      rook_aligned_def)

lemma inside_bounds:
  assumes "isCoord c" "isCoord d" "isCoord e" "inside c d e"
  shows "coordX c \<noteq> coordX d \<Longrightarrow> 0 < coordX e \<and> coordX e < 7"
    "coordY c \<noteq> coordY d \<Longrightarrow> 0 < coordY e \<and> coordY e < 7"
    "c \<noteq> e" "d \<noteq> e" "c \<noteq> d"
  using assms(4) coordX_range [OF assms(1)] coordX_range [OF assms(2)]
    coordY_range [of c] coordY_range [of d]
  unfolding inside_iff [OF assms(1-3)] coordDiag1_def coordDiag2_def
  by (elim disjE conjE; linarith | auto)+

lemma inside_aligned:
  assumes "isCoord c" "isCoord d" "isCoord e" "inside c d e"
  shows "aligned M c d \<longleftrightarrow> aligned M c e"
  using assms(4) unfolding inside_iff [OF assms(1-3)] aligned_def rook_aligned_def bishop_aligned_def
    coordDiag1_def coordDiag2_def
  by (elim disjE conjE; simp; (linarith | auto)?)

lemma mask_inside:
  assumes "isCoord c" "isCoord d" "isCoord e" "aligned M c d" "inside c d e"
  shows "bit (buildMagicMask M c) (nat e)"
proof -
  note b = inside_bounds [OF assms(1-3,5)]
  show ?thesis
  proof (cases M)
    case MagicRook
    then show ?thesis
      using assms(4,5) b unfolding inside_iff [OF assms(1-3)]
      by (simp add: buildMagicMask_def bit_buildMagicRookMask [OF assms(1,3)] aligned_def
          rook_aligned_def coordDiag1_def coordDiag2_def) (elim disjE conjE; simp)
  next
    case MagicBishop
    have "bishop_aligned c e" and "bishop_aligned c d"
      using assms(4) inside_aligned [OF assms(1-3,5), of M] MagicBishop by (simp_all add: aligned_def)
    moreover have "coordX c \<noteq> coordX d" "coordY c \<noteq> coordY d"
      using \<open>bishop_aligned c d\<close> coord_eqI [of c d]
      unfolding bishop_aligned_def coordDiag1_def coordDiag2_def by auto
    ultimately show ?thesis
      using b MagicBishop by (simp add: buildMagicMask_def bit_buildMagicBishopMask [OF assms(1,3)])
  qed
qed

end
