(* ===== verification/Magic_Regions.thy ===== *)
theory Magic_Regions
  imports Magic
begin

text \<open>
  Rays of the sliding pieces and the layout of the shared lookup table
  (\<^verbatim>\<open>initOffsets\<close> of \<^verbatim>\<open>src/core/private/magic.cpp\<close>): the ray loop marks the squares a piece
  sees, and the regions of the table overlap only for squares whose attacks cannot disagree.
\<close>

section \<open>Rays\<close>

definition sees :: "magic_type \<Rightarrow> bitboard \<Rightarrow> coord \<Rightarrow> coord \<Rightarrow> bool" where
  "sees M occupied c d \<longleftrightarrow> aligned M c d \<and> between c d AND occupied = 0"

lemma sees_iff:
  assumes "isCoord c" "isCoord d"
  shows "sees M occupied c d \<longleftrightarrow>
    aligned M c d \<and> (\<forall>e. isCoord e \<longrightarrow> inside c d e \<longrightarrow> \<not> bit occupied (nat e))"
proof -
  have "(\<forall>n. \<not> (bit (between c d) n \<and> bit occupied n)) \<longleftrightarrow>
      (\<forall>e. isCoord e \<longrightarrow> inside c d e \<longrightarrow> \<not> bit occupied (nat e))"
  proof safe
    fix e assume "\<forall>n. \<not> (bit (between c d) n \<and> bit occupied n)" "isCoord e" "inside c d e"
      "bit occupied (nat e)"
    then show False using bit_between [OF assms, of e] by blast
  next
    fix n assume a: "\<forall>e. isCoord e \<longrightarrow> inside c d e \<longrightarrow> \<not> bit occupied (nat e)"
      "bit (between c d) n" "bit occupied n"
    then have "isCoord (int n)" using bit_u64_lt [OF a(2)] by (simp add: isCoord_def)
    moreover have "inside c d (int n)"
      using a(2) bit_between [OF assms \<open>isCoord (int n)\<close>] by simp
    ultimately show False using a(1,3) by force
  qed
  then show ?thesis by (simp add: sees_def and_zero_iff)
qed

lemma magic_dirs_cases: "dir \<in> set (magic_dirs M) \<Longrightarrow>
    (M = MagicRook \<and> (dir = (-1, 0) \<or> dir = (1, 0) \<or> dir = (0, -1) \<or> dir = (0, 1))) \<or>
    (M = MagicBishop \<and> (dir = (-1, -1) \<or> dir = (1, -1) \<or> dir = (-1, 1) \<or> dir = (1, 1)))"
  by (cases M) (auto simp: magic_dirs_def rook_dirs_def bishop_dirs_def)

lemma at_step_0 [simp]: "at_step p dir 0 d \<longleftrightarrow> d = p"
  unfolding at_step_def using coord_neq_iff [of d p] by auto

lemma at_step_inj: "at_step c dir k d \<Longrightarrow> at_step c dir k e \<Longrightarrow> d = e"
  by (rule coord_eqI) (simp_all add: at_step_def)

lemma at_step_aligned:
  assumes "dir \<in> set (magic_dirs M)" "0 < k" "at_step c dir k d"
  shows "aligned M c d"
  using magic_dirs_cases [OF assms(1)] assms(2,3)
  unfolding at_step_def aligned_def rook_aligned_def bishop_aligned_def coordDiag1_def coordDiag2_def
  by auto

lemma aligned_at_step:
  assumes "aligned M c d"
  obtains dir k where "dir \<in> set (magic_dirs M)" "0 < k" "at_step c dir k d"
proof -
  note defs = magic_dirs_def rook_dirs_def bishop_dirs_def at_step_def
  note I = that
  let ?x = "coordX d - coordX c" and ?y = "coordY d - coordY c"
  show ?thesis
  proof (cases M)
    case MagicRook
    with assms have "coordX c = coordX d \<and> coordY c \<noteq> coordY d \<or> coordY c = coordY d \<and> coordX c \<noteq> coordX d"
      using coord_eqI [of c d] by (auto simp: aligned_def rook_aligned_def)
    then consider "?x = 0 \<and> ?y < 0" | "?x = 0 \<and> ?y > 0" | "?y = 0 \<and> ?x < 0" | "?y = 0 \<and> ?x > 0"
      by linarith
    then show ?thesis
    proof cases
      case 1 then show ?thesis
        using MagicRook by (intro I [of "(0, -1)" "- ?y"]) (simp_all add: defs)
    next
      case 2 then show ?thesis
        using MagicRook by (intro I [of "(0, 1)" ?y]) (simp_all add: defs)
    next
      case 3 then show ?thesis
        using MagicRook by (intro I [of "(-1, 0)" "- ?x"]) (simp_all add: defs)
    next
      case 4 then show ?thesis
        using MagicRook by (intro I [of "(1, 0)" ?x]) (simp_all add: defs)
    qed
  next
    case MagicBishop
    with assms have "?x \<noteq> 0 \<and> (?x = ?y \<or> ?x = - ?y)"
      using coord_eqI [of c d]
      by (auto simp: aligned_def bishop_aligned_def coordDiag1_def coordDiag2_def)
    then consider "?x = ?y \<and> ?x > 0" | "?x = ?y \<and> ?x < 0" | "?x = - ?y \<and> ?x > 0" | "?x = - ?y \<and> ?x < 0"
      by linarith
    then show ?thesis
    proof cases
      case 1 then show ?thesis
        using MagicBishop by (intro I [of "(1, 1)" ?x]) (simp_all add: defs)
    next
      case 2 then show ?thesis
        using MagicBishop by (intro I [of "(-1, -1)" "- ?x"]) (simp_all add: defs)
    next
      case 3 then show ?thesis
        using MagicBishop by (intro I [of "(1, -1)" ?x]) (simp_all add: defs)
    next
      case 4 then show ?thesis
        using MagicBishop by (intro I [of "(-1, 1)" "- ?x"]) (simp_all add: defs)
    qed
  qed
qed

lemma dirs_unit:
  assumes "dir \<in> set (rook_dirs @ bishop_dirs)"
  shows "dir \<noteq> (0, 0)" "fst dir \<in> {-1, 0, 1}" "snd dir \<in> {-1, 0, 1}"
  using assms by (auto simp: rook_dirs_def bishop_dirs_def)

lemma magic_dirs_subset: "dir \<in> set (magic_dirs M) \<Longrightarrow> dir \<in> set (rook_dirs @ bishop_dirs)"
  by (auto simp: magic_dirs_def split: if_splits)

lemma at_step_unique:
  assumes "dir \<in> set (rook_dirs @ bishop_dirs)" "dir' \<in> set (rook_dirs @ bishop_dirs)"
    and "0 < k" "0 < k'" "at_step c dir k d" "at_step c dir' k' d"
  shows "dir = dir' \<and> k = k'"
proof -
  obtain a b a' b' where dir: "dir = (a, b)" "dir' = (a', b')" by (cases dir; cases dir')
  have eq: "k * a = k' * a'" "k * b = k' * b'"
    using assms(5,6) by (simp_all add: at_step_def dir)
  have unit: "sgn (m * x) = x" if "0 < m" "x \<in> {-1, 0, 1}" for m x :: int
    using that by (auto simp: sgn_mult)
  have u: "a \<in> {-1, 0, 1}" "b \<in> {-1, 0, 1}" "a' \<in> {-1, 0, 1}" "b' \<in> {-1, 0, 1}"
    using dirs_unit [OF assms(1)] dirs_unit [OF assms(2)] by (simp_all add: dir)
  have "a = sgn (k * a)" using unit [OF assms(3) u(1)] by (rule sym)
  also have "\<dots> = a'" unfolding eq using unit [OF assms(4) u(3)] .
  finally have "a = a'" .
  have "b = sgn (k * b)" using unit [OF assms(3) u(2)] by (rule sym)
  also have "\<dots> = b'" unfolding eq using unit [OF assms(4) u(4)] .
  finally have ab: "a = a' \<and> b = b'" using \<open>a = a'\<close> by simp
  have "a \<noteq> 0 \<or> b \<noteq> 0" using dirs_unit(1) [OF assms(1)] by (simp add: dir)
  then have "k = k'" using eq ab by (metis mult_right_cancel)
  with ab show ?thesis by (simp add: dir)
qed

text \<open>A square is seen in a direction when no earlier square of the ray is occupied.\<close>

definition ray_sees :: "bitboard \<Rightarrow> int \<times> int \<Rightarrow> coord \<Rightarrow> coord \<Rightarrow> int \<Rightarrow> bool" where
  "ray_sees occupied dir c d k \<longleftrightarrow> at_step c dir k d \<and>
     (\<forall>j e. 0 \<le> j \<longrightarrow> j < k \<longrightarrow> isCoord e \<longrightarrow> at_step c dir j e \<longrightarrow> \<not> bit occupied (nat e))"

lemma sees_ray:
  assumes "isCoord c" "isCoord d" "\<not> bit occupied (nat c)"
  shows "sees M occupied c d \<longleftrightarrow> (\<exists>dir\<in>set (magic_dirs M). \<exists>k>0. ray_sees occupied dir c d k)"
proof
  assume s: "sees M occupied c d"
  then have al: "aligned M c d" by (simp add: sees_def)
  obtain dir k where d: "dir \<in> set (magic_dirs M)" "0 < k" "at_step c dir k d"
    using aligned_at_step [OF al] .
  have "\<not> bit occupied (nat e)" if "0 \<le> j" "j < k" "isCoord e" "at_step c dir j e" for j e
  proof (cases "j = 0")
    case True
    with that have "e = c" by simp
    with assms(3) show ?thesis by simp
  next
    case False
    with that d have "inside c d e"
      unfolding inside_def using magic_dirs_subset [OF d(1)] by (intro bexI [of _ dir] exI [of _ j] exI [of _ k]) auto
    then show ?thesis using s that(3) sees_iff [OF assms(1,2)] by blast
  qed
  with d have "ray_sees occupied dir c d k" by (auto simp: ray_sees_def)
  with d show "\<exists>dir\<in>set (magic_dirs M). \<exists>k>0. ray_sees occupied dir c d k" by blast
next
  assume "\<exists>dir\<in>set (magic_dirs M). \<exists>k>0. ray_sees occupied dir c d k"
  then obtain dir k where d: "dir \<in> set (magic_dirs M)" "0 < k" "ray_sees occupied dir c d k" by blast
  then have at: "at_step c dir k d" by (simp add: ray_sees_def)
  have "\<not> bit occupied (nat e)" if "isCoord e" "inside c d e" for e
  proof -
    obtain dir' j k' where e: "dir' \<in> set (rook_dirs @ bishop_dirs)" "0 < j" "j < k'"
      "at_step c dir' j e" "at_step c dir' k' d"
      using \<open>inside c d e\<close> unfolding inside_def by blast
    then have "dir = dir' \<and> k = k'"
      using at_step_unique [OF magic_dirs_subset [OF d(1)] e(1) d(2) _ at e(5)] by simp
    then show ?thesis using d(3) e(2-4) that(1) unfolding ray_sees_def by (meson less_imp_le)
  qed
  then show "sees M occupied c d"
    using sees_iff [OF assms(1,2)] at_step_aligned [OF d(1,2) at] by blast
qed

text \<open>The squares beyond the mask do not matter: a square inside a ray is in the mask.\<close>

lemma sees_mask:
  assumes "isCoord c" "isCoord d"
  shows "sees M (occupied AND buildMagicMask M c) c d \<longleftrightarrow> sees M occupied c d"
  using mask_inside [OF assms] by (auto simp: sees_iff [OF assms] bit_and_iff)

lemma sees_cong:
  assumes "isCoord c" "isCoord d" "\<And>e. isCoord e \<Longrightarrow> inside c d e \<Longrightarrow> bit a (nat e) = bit b (nat e)"
  shows "sees M a c d \<longleftrightarrow> sees M b c d"
  using assms(3) by (auto simp: sees_iff [OF assms(1,2)])

section \<open>The ray loop\<close>

lemma at_step_next: "0 \<le> ny \<Longrightarrow> ny < 8 \<Longrightarrow> nx = coordX p + fst dir \<Longrightarrow> ny = coordY p + snd dir \<Longrightarrow>
    at_step (makeCoord nx ny) dir k d \<longleftrightarrow> at_step p dir (k + 1) d"
  by (simp add: at_step_def algebra_simps)

lemma ray_sees_0: "ray_sees occupied dir p d 0 \<longleftrightarrow> d = p"
  by (auto simp: ray_sees_def)

lemma ray_sees_Suc:
  assumes "isCoord p" "0 \<le> k" "nx = coordX p + fst dir" "ny = coordY p + snd dir"
    and "0 \<le> ny" "ny < 8"
  shows "ray_sees occupied dir p d (k + 1) \<longleftrightarrow>
    \<not> bit occupied (nat p) \<and> ray_sees occupied dir (makeCoord nx ny) d k"
proof -
  note next_step = at_step_next [OF assms(5,6,3,4)]
  have "(\<forall>j e. 0 \<le> j \<longrightarrow> j < k + 1 \<longrightarrow> isCoord e \<longrightarrow> at_step p dir j e \<longrightarrow> \<not> bit occupied (nat e)) \<longleftrightarrow>
    \<not> bit occupied (nat p) \<and>
    (\<forall>j e. 0 \<le> j \<longrightarrow> j < k \<longrightarrow> isCoord e \<longrightarrow> at_step p dir (j + 1) e \<longrightarrow> \<not> bit occupied (nat e))"
    (is "?L \<longleftrightarrow> ?R")
  proof
    assume L: ?L
    then have "\<not> bit occupied (nat p)" using assms(1,2) by (metis at_step_0 zle_add1_eq_le order_refl)
    moreover have "\<not> bit occupied (nat e)"
      if "0 \<le> j" "j < k" "isCoord e" "at_step p dir (j + 1) e" for j e
      using L that by (metis add_strict_right_mono add_nonneg_nonneg zero_le_one)
    ultimately show ?R by blast
  next
    assume R: ?R
    show ?L
    proof (intro allI impI)
      fix j e assume "0 \<le> j" "j < k + 1" "isCoord e" "at_step p dir j e"
      then show "\<not> bit occupied (nat e)"
        using R [THEN conjunct2, rule_format, of "j - 1" e] R by (cases "j = 0") auto
    qed
  qed
  then show ?thesis by (simp add: ray_sees_def next_step) blast
qed

lemma off_board:
  fixes x a k :: int
  assumes "0 \<le> x" "x < 8" "x + a < 0 \<or> x + a \<ge> 8" "0 \<le> k"
  shows "x + (k + 1) * a < 0 \<or> x + (k + 1) * a \<ge> 8"
proof (cases "a < 0")
  case True
  then have "k * a \<le> 0" using assms(4) by (simp add: mult_nonneg_nonpos)
  then have "x + (k + 1) * a \<le> x + a" by (simp add: distrib_right)
  then show ?thesis using assms(2,3) True by linarith
next
  case False
  then have "k * a \<ge> 0" using assms(4) by simp
  then have "x + (k + 1) * a \<ge> x + a" by (simp add: distrib_right)
  then show ?thesis using assms(1,3) False by linarith
qed

lemma bit_walkRay:
  assumes "isCoord p" "isCoord d"
  shows "bit (walkRay fuel occupied dir p res) (nat d) \<longleftrightarrow>
    bit res (nat d) \<or> (\<exists>k\<ge>0. k < int fuel \<and> ray_sees occupied dir p d k)"
  using assms(1)
proof (induction fuel arbitrary: p res)
  case 0
  then show ?case by auto
next
  case (Suc fuel)
  let ?nx = "coordX p + fst dir" and ?ny = "coordY p + snd dir"
  let ?r = "res OR coordToBitboard p"
  let ?stop = "?nx < 0 \<or> ?nx \<ge> 8 \<or> ?ny < 0 \<or> ?ny \<ge> 8 \<or> bit occupied (nat p)"
  have split: "(\<exists>k\<ge>0. k < int (Suc fuel) \<and> P k) \<longleftrightarrow> P 0 \<or> (\<exists>k\<ge>0. k < int fuel \<and> P (k + 1))" for P
  proof
    assume "\<exists>k\<ge>0. k < int (Suc fuel) \<and> P k"
    then obtain k where "k \<ge> 0" "k < int (Suc fuel)" "P k" by blast
    then show "P 0 \<or> (\<exists>k\<ge>0. k < int fuel \<and> P (k + 1))"
      by (cases "k = 0") (auto intro!: exI [of _ "k - 1"])
  next
    assume "P 0 \<or> (\<exists>k\<ge>0. k < int fuel \<and> P (k + 1))"
    then show "\<exists>k\<ge>0. k < int (Suc fuel) \<and> P k"
    proof
      assume "\<exists>k\<ge>0. k < int fuel \<and> P (k + 1)"
      then obtain k where "k \<ge> 0" "k < int fuel" "P (k + 1)" by blast
      then show ?thesis by (intro exI [of _ "k + 1"]) simp
    qed (auto intro: exI [of _ 0])
  qed
  have r: "bit ?r (nat d) \<longleftrightarrow> bit res (nat d) \<or> d = p"
    using bit_coord_bb [OF Suc.prems assms(2)] by (auto simp: bit_or_iff)
  have walk: "walkRay (Suc fuel) occupied dir p res =
      (if ?stop then ?r else walkRay fuel occupied dir (makeCoord ?nx ?ny) ?r)"
    using and_coordToBitboard_iff(2) [OF Suc.prems] by (simp add: Let_def)
  show ?case
  proof (cases ?stop)
    case True
    have "\<not> ray_sees occupied dir p d (k + 1)" if "0 \<le> k" for k
    proof
      assume s: "ray_sees occupied dir p d (k + 1)"
      then have "\<not> bit occupied (nat p)" using Suc.prems that by (force simp: ray_sees_def)
      moreover have "coordX d = coordX p + (k + 1) * fst dir" "coordY d = coordY p + (k + 1) * snd dir"
        using s by (simp_all add: ray_sees_def at_step_def)
      ultimately show False
        using True off_board [OF coordX_range [OF Suc.prems] _ that, of "fst dir"]
          off_board [OF coordY_range [of p] _ that, of "snd dir"]
          coordX_range [OF assms(2)] coordY_range [of d] by (metis not_le)
    qed
    then show ?thesis unfolding walk split ray_sees_0 using True r by auto
  next
    case False
    then have c: "isCoord (makeCoord ?nx ?ny)" and ny: "0 \<le> ?ny" "?ny < 8" by auto
    have "ray_sees occupied dir p d (k + 1) \<longleftrightarrow> ray_sees occupied dir (makeCoord ?nx ?ny) d k"
      if "0 \<le> k" for k
      using ray_sees_Suc [OF Suc.prems that refl refl ny] False by blast
    then show ?thesis unfolding walk split ray_sees_0 using False r Suc.IH [OF c, of ?r] by auto
  qed
qed


text \<open>The fuel is enough: a square of the board is fewer than eight steps away.\<close>

lemma at_step_bound:
  assumes "isCoord c" "isCoord d" "dir \<in> set (magic_dirs M)" "at_step c dir k d"
  shows "k < 8"
  using magic_dirs_cases [OF assms(3)] assms(4) coordX_range [OF assms(1)] coordX_range [OF assms(2)]
    coordY_range [of c] coordY_range [of d]
  unfolding at_step_def
  by (elim disjE conjE; simp; use coordY_range [of c] coordY_range [of d] in linarith)

lemma bit_walkRay_8:
  assumes "isCoord p" "isCoord d" "dir \<in> set (magic_dirs M)"
  shows "bit (walkRay 8 occupied dir p res) (nat d) \<longleftrightarrow>
    bit res (nat d) \<or> (\<exists>k\<ge>0. ray_sees occupied dir p d k)"
  using at_step_bound [OF assms] bit_walkRay [OF assms(1,2), of 8 occupied dir res]
  by (auto simp: ray_sees_def)

lemma bit_walkRays:
  assumes "isCoord p" "isCoord d" "set dirs \<subseteq> set (magic_dirs M)"
  shows "bit (foldl (\<lambda>r dir. walkRay 8 occupied dir p r) res dirs) (nat d) \<longleftrightarrow>
    bit res (nat d) \<or> (\<exists>dir\<in>set dirs. \<exists>k\<ge>0. ray_sees occupied dir p d k)"
  using assms(3)
proof (induction dirs arbitrary: res)
  case (Cons dir dirs)
  then have "dir \<in> set (magic_dirs M)" "set dirs \<subseteq> set (magic_dirs M)" by simp_all
  then show ?case
    using Cons.IH [of "walkRay 8 occupied dir p res"] bit_walkRay_8 [OF assms(1,2), of dir M]
    by (simp add: disj_assoc)
qed simp

lemma bit_fillEntry:
  assumes "isCoord c" "isCoord d" "\<not> bit occupied (nat c)"
  shows "bit (fillEntry M c occupied res) (nat d) \<longleftrightarrow>
    d \<noteq> c \<and> (bit res (nat d) \<or> sees M occupied c d)"
proof -
  have "(\<exists>k\<ge>0. ray_sees occupied dir c d k) \<longleftrightarrow> d = c \<or> (\<exists>k>0. ray_sees occupied dir c d k)" for dir
    using ray_sees_0 [of occupied dir c d] by (metis order_le_less)
  then have "d \<noteq> c \<and> (\<exists>dir\<in>set (magic_dirs M). \<exists>k\<ge>0. ray_sees occupied dir c d k) \<longleftrightarrow>
      d \<noteq> c \<and> sees M occupied c d"
    unfolding sees_ray [OF assms] by blast
  then show ?thesis
    unfolding fillEntry_def bit_and_iff bit_walkRays [OF assms(1,2) subset_refl]
      bit_NOT_coord [OF assms(2)] bit_coord_bb [OF assms(1,2)] by blast
qed

section \<open>Sharing of the table regions\<close>

text \<open>
  Two squares that share a region never attack each other, and a square that lies on a line with
  both is next to both. So the bits that one square leaves in the shared entries agree with the
  attacks of the other.
\<close>

definition rook_sizes :: "nat list" where
  "rook_sizes = [
    12, 11, 11, 11, 11, 11, 11, 12,
    11, 10, 10, 10, 10, 10, 10, 11,
    11, 10, 10, 10, 10, 10, 10, 11,
    11, 10, 10, 10, 10, 10, 10, 11,
    11, 10, 10, 10, 10, 10, 10, 11,
    11, 10, 10, 10, 10, 10, 10, 11,
    11, 10, 10, 10, 10, 10, 10, 11,
    12, 11, 11, 11, 11, 11, 11, 12]"

definition bishop_sizes :: "nat list" where
  "bishop_sizes = [
    6, 5, 5, 5, 5, 5, 5, 6,
    5, 5, 5, 5, 5, 5, 5, 5,
    5, 5, 7, 7, 7, 7, 5, 5,
    5, 5, 7, 9, 9, 7, 5, 5,
    5, 5, 7, 9, 9, 7, 5, 5,
    5, 5, 7, 7, 7, 7, 5, 5,
    5, 5, 5, 5, 5, 5, 5, 5,
    6, 5, 5, 5, 5, 5, 5, 6]"

definition rook_mask_cond :: "coord \<Rightarrow> coord \<Rightarrow> bool" where
  "rook_mask_cond c d \<longleftrightarrow> (if coordX d = coordX c then c \<noteq> d \<and> coordY d \<noteq> 0 \<and> coordY d \<noteq> 7
     else coordY d = coordY c \<and> coordX d \<noteq> 0 \<and> coordX d \<noteq> 7)"

definition bishop_mask_cond :: "coord \<Rightarrow> coord \<Rightarrow> bool" where
  "bishop_mask_cond c d \<longleftrightarrow> (coordDiag1 d = coordDiag1 c) \<noteq> (coordDiag2 d = coordDiag2 c) \<and>
     coordX d \<noteq> 0 \<and> coordX d \<noteq> 7 \<and> coordY d \<noteq> 0 \<and> coordY d \<noteq> 7"

lemma popcount_filter: "popcount bb = length (filter (\<lambda>d. bit bb (nat d)) [0..63])"
proof -
  have "squares bb = set (filter (\<lambda>d. bit bb (nat d)) [0..63])"
    by (auto simp: squares_def isCoord_def)
  moreover have "distinct (filter (\<lambda>d. bit bb (nat d)) [0..63])" by simp
  ultimately show ?thesis by (simp only: popcount_squares distinct_card)
qed

lemma bit_mask_cond:
  assumes "isCoord c" "isCoord d"
  shows "bit (buildMagicMask MagicRook c) (nat d) \<longleftrightarrow> rook_mask_cond c d"
    "bit (buildMagicMask MagicBishop c) (nat d) \<longleftrightarrow> bishop_mask_cond c d"
proof -
  show "bit (buildMagicMask MagicRook c) (nat d) \<longleftrightarrow> rook_mask_cond c d"
    using assms coord_neq_iff [of c d] by (auto simp: buildMagicMask_def bit_buildMagicRookMask rook_mask_cond_def)
  have "bishop_aligned c d \<longleftrightarrow> (coordDiag1 d = coordDiag1 c) \<noteq> (coordDiag2 d = coordDiag2 c)"
    unfolding bishop_aligned_def using same_diagonals [of c d] by metis
  then show "bit (buildMagicMask MagicBishop c) (nat d) \<longleftrightarrow> bishop_mask_cond c d"
    using assms by (simp add: buildMagicMask_def bit_buildMagicBishopMask bishop_mask_cond_def)
qed

lemma size_filter:
  assumes "isCoord c"
  shows "getMagicMaskBitSize MagicRook c = length (filter (rook_mask_cond c) [0..63])"
    "getMagicMaskBitSize MagicBishop c = length (filter (bishop_mask_cond c) [0..63])"
proof -
  have "isCoord d" if "d \<in> set [0..63]" for d using that by (simp add: isCoord_def)
  then show "getMagicMaskBitSize MagicRook c = length (filter (rook_mask_cond c) [0..63])"
    "getMagicMaskBitSize MagicBishop c = length (filter (bishop_mask_cond c) [0..63])"
    unfolding getMagicMaskBitSize_def popcount_filter
    by (metis (no_types, lifting) filter_cong bit_mask_cond assms)+
qed

lemma size_tables:
  "map (\<lambda>c. length (filter (rook_mask_cond c) [0..63])) [0..63] = rook_sizes"
  "map (\<lambda>c. length (filter (bishop_mask_cond c) [0..63])) [0..63] = bishop_sizes"
  by code_simp+

lemma size_values:
  assumes "isCoord c"
  shows "getMagicMaskBitSize MagicRook c = rook_sizes ! nat c"
    "getMagicMaskBitSize MagicBishop c = bishop_sizes ! nat c"
  unfolding size_filter [OF assms] size_tables [symmetric] by (simp_all only: nth_map_coords [OF assms])

lemma rook_offsets: "initOffsets MagicRook = ([
    0, 4096, 6144, 8192, 10240, 12288, 14336, 16384,
    4096, 0, 8192, 6144, 12288, 10240, 16384, 14336,
    20480, 22528, 24576, 25600, 26624, 27648, 28672, 30720,
    22528, 20480, 25600, 24576, 27648, 26624, 30720, 28672,
    32768, 34816, 36864, 37888, 38912, 39936, 40960, 43008,
    34816, 32768, 37888, 36864, 39936, 38912, 43008, 40960,
    45056, 47104, 51200, 53248, 55296, 57344, 59392, 63488,
    47104, 45056, 53248, 51200, 57344, 55296, 63488, 59392], 65536)"
proof -
  have "list_all (\<lambda>c. isCoord (c XOR 9)) [0..63]" by code_simp
  then have "initOffsets MagicRook = foldl (\<lambda>bc c1. (let (bases, count) = bc; c2 = c1 XOR 9
      in if c1 > c2 then (bases, count)
         else let maxLen = max (rook_sizes ! nat c1) (rook_sizes ! nat c2)
              in (bases[nat c1 := count, nat c2 := count], count + 2 ^ maxLen))) (replicate 64 0, 0) [0..63]"
    unfolding initOffsets_def if_P [OF refl]
    by (intro foldl_cong refl)
      (simp add: initOffsets_rook_step_def size_values list_all_iff isCoord_def Let_def split: prod.split)
  also have "\<dots> = ([
    0, 4096, 6144, 8192, 10240, 12288, 14336, 16384,
    4096, 0, 8192, 6144, 12288, 10240, 16384, 14336,
    20480, 22528, 24576, 25600, 26624, 27648, 28672, 30720,
    22528, 20480, 25600, 24576, 27648, 26624, 30720, 28672,
    32768, 34816, 36864, 37888, 38912, 39936, 40960, 43008,
    34816, 32768, 37888, 36864, 39936, 38912, 43008, 40960,
    45056, 47104, 51200, 53248, 55296, 57344, 59392, 63488,
    47104, 45056, 53248, 51200, 57344, 55296, 63488, 59392], 65536)"
    by code_simp
  finally show ?thesis .
qed

lemma bishop_offsets: "initOffsets MagicBishop = ([
    0, 64, 192, 192, 192, 192, 1600, 1632,
    0, 64, 224, 224, 224, 224, 1600, 1632,
    0, 64, 256, 256, 256, 256, 1600, 1632,
    0, 64, 384, 384, 384, 384, 1600, 1632,
    96, 160, 896, 896, 896, 896, 1696, 1728,
    96, 160, 1408, 1408, 1408, 1408, 1696, 1728,
    96, 160, 1536, 1536, 1536, 1536, 1696, 1728,
    96, 160, 1568, 1568, 1568, 1568, 1696, 1728], 1792)"
proof -
  have "list_all (\<lambda>(c, offs). list_all (\<lambda>i. isCoord (c + i * offs)) [0..3]) bishop_starts" by code_simp
  then have "initOffsets MagicBishop = foldl (\<lambda>bc co. (let (bases, count) = bc; (c, offs) = co;
          len = (\<lambda>i. bishop_sizes ! nat (c + i * offs));
          maxLen = max (max (len 0) (len 1)) (max (len 2) (len 3))
      in (foldl (\<lambda>bs i. bs[nat (c + i * offs) := count]) bases [0..3], count + 2 ^ maxLen)))
      (replicate 64 0, 0) bishop_starts"
    unfolding initOffsets_def if_not_P [OF magic_type.distinct(2)]
  proof (intro foldl_cong refl)
    fix bc :: "int list \<times> int" and co
    assume starts: "list_all (\<lambda>(c, offs). list_all (\<lambda>i. isCoord (c + i * offs)) [0..3]) bishop_starts"
      and co: "co \<in> set bishop_starts"
    obtain c offs where "co = (c, offs)" by (cases co)
    moreover obtain bases count where "bc = (bases, count)" by (cases bc)
    moreover have "list_all (\<lambda>i. isCoord (c + i * offs)) [0..3]"
      using starts co \<open>co = (c, offs)\<close> by (auto simp: list_all_iff)
    then have ok: "isCoord (c + i * offs)" if "0 \<le> i" "i \<le> 3" for i
      using that by (simp add: list_all_iff)
    have "isCoord (c + 0 * offs)" "isCoord (c + 1 * offs)" "isCoord (c + 2 * offs)"
      "isCoord (c + 3 * offs)" by (rule ok; simp)+
    ultimately show "initOffsets_bishop_step bc co = (let (bases, count) = bc; (c, offs) = co;
          len = (\<lambda>i. bishop_sizes ! nat (c + i * offs));
          maxLen = max (max (len 0) (len 1)) (max (len 2) (len 3))
      in (foldl (\<lambda>bs i. bs[nat (c + i * offs) := count]) bases [0..3], count + 2 ^ maxLen))"
      unfolding initOffsets_bishop_step_def by (simp only: size_values Let_def prod.case)
  qed
  also have "\<dots> = ([
    0, 64, 192, 192, 192, 192, 1600, 1632,
    0, 64, 224, 224, 224, 224, 1600, 1632,
    0, 64, 256, 256, 256, 256, 1600, 1632,
    0, 64, 384, 384, 384, 384, 1600, 1632,
    96, 160, 896, 896, 896, 896, 1696, 1728,
    96, 160, 1408, 1408, 1408, 1408, 1696, 1728,
    96, 160, 1536, 1536, 1536, 1536, 1696, 1728,
    96, 160, 1568, 1568, 1568, 1568, 1696, 1728], 1792)"
    by code_simp
  finally show ?thesis .
qed

definition regions :: "magic_type \<Rightarrow> (coord \<times> int \<times> int) list" where
  "regions M = map (\<lambda>(c, b, n). (c, b, 2 ^ n))
     (zip [0..63] (zip (fst (initOffsets M)) (map (getMagicMaskBitSize M) [0..63])))"

lemma map_rook_sizes: "map (getMagicMaskBitSize MagicRook) [0..63] = rook_sizes"
  unfolding size_tables(1) [symmetric] by (simp add: size_filter isCoord_def)

lemma map_bishop_sizes: "map (getMagicMaskBitSize MagicBishop) [0..63] = bishop_sizes"
  unfolding size_tables(2) [symmetric] by (simp add: size_filter isCoord_def)

text \<open>The regions as \<^verbatim>\<open>initOffsets\<close> lays them out: square, first entry, number of entries.\<close>

lemma rook_regions: "regions MagicRook = [
    (0, 0, 4096), (1, 4096, 2048), (2, 6144, 2048), (3, 8192, 2048),
    (4, 10240, 2048), (5, 12288, 2048), (6, 14336, 2048), (7, 16384, 4096),
    (8, 4096, 2048), (9, 0, 1024), (10, 8192, 1024), (11, 6144, 1024),
    (12, 12288, 1024), (13, 10240, 1024), (14, 16384, 1024), (15, 14336, 2048),
    (16, 20480, 2048), (17, 22528, 1024), (18, 24576, 1024), (19, 25600, 1024),
    (20, 26624, 1024), (21, 27648, 1024), (22, 28672, 1024), (23, 30720, 2048),
    (24, 22528, 2048), (25, 20480, 1024), (26, 25600, 1024), (27, 24576, 1024),
    (28, 27648, 1024), (29, 26624, 1024), (30, 30720, 1024), (31, 28672, 2048),
    (32, 32768, 2048), (33, 34816, 1024), (34, 36864, 1024), (35, 37888, 1024),
    (36, 38912, 1024), (37, 39936, 1024), (38, 40960, 1024), (39, 43008, 2048),
    (40, 34816, 2048), (41, 32768, 1024), (42, 37888, 1024), (43, 36864, 1024),
    (44, 39936, 1024), (45, 38912, 1024), (46, 43008, 1024), (47, 40960, 2048),
    (48, 45056, 2048), (49, 47104, 1024), (50, 51200, 1024), (51, 53248, 1024),
    (52, 55296, 1024), (53, 57344, 1024), (54, 59392, 1024), (55, 63488, 2048),
    (56, 47104, 4096), (57, 45056, 2048), (58, 53248, 2048), (59, 51200, 2048),
    (60, 57344, 2048), (61, 55296, 2048), (62, 63488, 2048), (63, 59392, 4096)]"
  unfolding regions_def rook_offsets map_rook_sizes by (simp add: upto.simps rook_sizes_def)

lemma bishop_regions: "regions MagicBishop = [
    (0, 0, 64), (1, 64, 32), (2, 192, 32), (3, 192, 32),
    (4, 192, 32), (5, 192, 32), (6, 1600, 32), (7, 1632, 64),
    (8, 0, 32), (9, 64, 32), (10, 224, 32), (11, 224, 32),
    (12, 224, 32), (13, 224, 32), (14, 1600, 32), (15, 1632, 32),
    (16, 0, 32), (17, 64, 32), (18, 256, 128), (19, 256, 128),
    (20, 256, 128), (21, 256, 128), (22, 1600, 32), (23, 1632, 32),
    (24, 0, 32), (25, 64, 32), (26, 384, 128), (27, 384, 512),
    (28, 384, 512), (29, 384, 128), (30, 1600, 32), (31, 1632, 32),
    (32, 96, 32), (33, 160, 32), (34, 896, 128), (35, 896, 512),
    (36, 896, 512), (37, 896, 128), (38, 1696, 32), (39, 1728, 32),
    (40, 96, 32), (41, 160, 32), (42, 1408, 128), (43, 1408, 128),
    (44, 1408, 128), (45, 1408, 128), (46, 1696, 32), (47, 1728, 32),
    (48, 96, 32), (49, 160, 32), (50, 1536, 32), (51, 1536, 32),
    (52, 1536, 32), (53, 1536, 32), (54, 1696, 32), (55, 1728, 32),
    (56, 96, 64), (57, 160, 32), (58, 1568, 32), (59, 1568, 32),
    (60, 1568, 32), (61, 1568, 32), (62, 1696, 32), (63, 1728, 64)]"
  unfolding regions_def bishop_offsets map_bishop_sizes by (simp add: upto.simps bishop_sizes_def)

definition apart :: "(coord \<times> int \<times> int) \<Rightarrow> (coord \<times> int \<times> int) \<Rightarrow> bool" where
  "apart r r' \<longleftrightarrow> fst (snd r) = fst (snd r') \<or> fst (snd r) + snd (snd r) \<le> fst (snd r')
     \<or> fst (snd r') + snd (snd r') \<le> fst (snd r)"

lemma rook_apart: "list_all (\<lambda>r. list_all (apart r) (regions MagicRook)) (regions MagicRook)"
  unfolding rook_regions by code_simp

lemma bishop_apart: "list_all (\<lambda>r. list_all (apart r) (regions MagicBishop)) (regions MagicBishop)"
  unfolding bishop_regions by code_simp

definition sharing :: "magic_type \<Rightarrow> (coord \<times> coord) list" where
  "sharing M = concat (map (\<lambda>r. map (\<lambda>r'. (fst r, fst r'))
     (filter (\<lambda>r'. fst (snd r) = fst (snd r') \<and> fst r \<noteq> fst r') (regions M))) (regions M))"

definition near_if_aligned :: "magic_type \<Rightarrow> coord \<Rightarrow> coord \<Rightarrow> coord \<Rightarrow> bool" where
  "near_if_aligned M c c' d \<longleftrightarrow>
     (aligned M c d \<and> aligned M c' d \<longrightarrow> rowDist c d \<le> 1 \<and> colDist c d \<le> 1)"

lemma rook_sharing:
  "list_all (\<lambda>(c, c'). \<not> aligned MagicRook c c' \<and> list_all (near_if_aligned MagicRook c c') [0..63])
     (sharing MagicRook)"
  unfolding sharing_def rook_regions by code_simp

lemma bishop_sharing:
  "list_all (\<lambda>(c, c'). \<not> aligned MagicBishop c c' \<and> list_all (near_if_aligned MagicBishop c c') [0..63])
     (sharing MagicBishop)"
  unfolding sharing_def bishop_regions by code_simp

lemma regions_eq: "regions M = map (\<lambda>c. (c, magic_offset M c, 2 ^ getMagicMaskBitSize M c)) [0..63]"
proof -
  have "length (fst (initOffsets M)) = 64"
    by (cases M) (simp_all add: rook_offsets bishop_offsets)
  then show ?thesis
    by (intro nth_equalityI) (simp_all add: regions_def magic_offset_def)
qed

lemma region_layout:
  assumes "isCoord c" "isCoord c'"
  shows "0 \<le> magic_offset M c"
    and "magic_offset M c + 2 ^ getMagicMaskBitSize M c \<le> int (lookup_size M)"
    and "magic_offset M c = magic_offset M c' \<or>
      magic_offset M c + 2 ^ getMagicMaskBitSize M c \<le> magic_offset M c' \<or>
      magic_offset M c' + 2 ^ getMagicMaskBitSize M c' \<le> magic_offset M c"
    and "magic_offset M c = magic_offset M c' \<Longrightarrow> c \<noteq> c' \<Longrightarrow>
      \<not> aligned M c c' \<and> (\<forall>d. isCoord d \<longrightarrow> near_if_aligned M c c' d)"
proof -
  have mem: "(c, magic_offset M c, 2 ^ getMagicMaskBitSize M c) \<in> set (regions M)"
    "(c', magic_offset M c', 2 ^ getMagicMaskBitSize M c') \<in> set (regions M)"
    using assms by (auto simp: regions_eq isCoord_def)
  have "list_all (\<lambda>(c, b, n). 0 \<le> b \<and> b + n \<le> int (lookup_size M)) (regions M)"
    by (cases M) (simp_all add: rook_regions bishop_regions lookup_size_def)
  then show "0 \<le> magic_offset M c"
    "magic_offset M c + 2 ^ getMagicMaskBitSize M c \<le> int (lookup_size M)"
    using mem(1) by (auto simp: list_all_iff)
  have "list_all (\<lambda>r. list_all (apart r) (regions M)) (regions M)"
    using rook_apart bishop_apart by (cases M) simp_all
  then have "apart (c, magic_offset M c, 2 ^ getMagicMaskBitSize M c)
      (c', magic_offset M c', 2 ^ getMagicMaskBitSize M c')"
    using mem by (simp add: list_all_iff)
  then show "magic_offset M c = magic_offset M c' \<or>
      magic_offset M c + 2 ^ getMagicMaskBitSize M c \<le> magic_offset M c' \<or>
      magic_offset M c' + 2 ^ getMagicMaskBitSize M c' \<le> magic_offset M c"
    by (simp add: apart_def)
  show "\<not> aligned M c c' \<and> (\<forall>d. isCoord d \<longrightarrow> near_if_aligned M c c' d)"
    if "magic_offset M c = magic_offset M c'" "c \<noteq> c'"
  proof -
    have "c \<in> {0..63}" "c' \<in> {0..63}" using assms by (simp_all add: isCoord_def)
    then have "(c, c') \<in> set (sharing M)"
      using that unfolding sharing_def regions_eq by (simp add: image_iff)
    moreover have "list_all (\<lambda>(c, c'). \<not> aligned M c c' \<and> list_all (near_if_aligned M c c') [0..63])
        (sharing M)"
      using rook_sharing bishop_sharing by (cases M) simp_all
    ultimately show ?thesis by (auto simp: list_all_iff isCoord_def)
  qed
qed

lemma sees_near:
  assumes "isCoord c" "isCoord d" "aligned M c d" "rowDist c d \<le> 1" "colDist c d \<le> 1"
  shows "sees M occupied c d"
proof -
  have "\<not> inside c d e" if "isCoord e" for e
  proof
    assume "inside c d e"
    then show False
      using assms(4,5) unfolding inside_iff [OF assms(1,2) that] rowDist_def colDist_def
        coordDiag1_def coordDiag2_def by (elim disjE conjE) linarith+
  qed
  then show ?thesis using assms(3) sees_iff [OF assms(1,2)] by blast
qed

end
