(* ===== verification/Magic_Lookup.thy ===== *)
theory Magic_Lookup
  imports Magic_Regions
begin

text \<open>
  The lookup table is right: for every numbering of the subsets of a mask that meets the interface
  \<open>slot_numbering\<close>, a lookup returns the squares the piece sees. The interface is discharged for the
  build with BMI2 and for the portable build with any magic numbers the generator accepts.
\<close>

section \<open>Packing and depositing bits\<close>

lemma bit_pext_list:
  "length ps \<le> 64 \<Longrightarrow>
    bit (foldr (\<lambda>c r. push_bit 1 r OR (if bit x (nat c) then 1 else 0)) ps (0 :: u64)) k \<longleftrightarrow>
    k < length ps \<and> bit x (nat (ps ! k))"
proof (induction ps arbitrary: k)
  case (Cons p ps)
  have "length ps \<le> 64" using Cons.prems by simp
  note IH = Cons.IH [OF this]
  show ?case
  proof (cases k)
    case 0
    have "\<not> bit (push_bit 1 r) 0" for r :: u64 by (simp only: bit_push_bit_iff) simp
    with 0 show ?thesis by (simp add: bit_or_iff del: push_bit_Suc)
  next
    case (Suc j)
    have "bit (push_bit 1 r) (Suc j) \<longleftrightarrow> Suc j < 64 \<and> bit r j" for r :: u64
      using bit_push_bit_iff [of 1 r "Suc j"] bit_u64_lt [of r j] by auto
    then show ?thesis
      using IH [of j] Cons.prems by (simp add: Suc bit_or_iff bit_1_iff del: push_bit_Suc) auto
  qed
qed simp

lemma length_bbList: "length (bbList m) = popcount m"
  using distinct_card [OF distinct_bbList, of m] by (simp add: popcount_squares squares_bbList)

lemma popcount_le_64: "popcount m \<le> 64"
proof -
  have "{n. bit m n} \<subseteq> {..<64}" by (auto dest: bit_u64_lt)
  then show ?thesis using card_mono [of "{..<64::nat}" "{n. bit m n}"] by (simp add: popcount_eq_card)
qed

lemma bit_pext: "bit (pext_u64 x m) k \<longleftrightarrow> k < popcount m \<and> bit x (nat (bbList m ! k))"
  unfolding pext_u64_def using bit_pext_list [of "bbList m" x k] popcount_le_64 [of m]
  by (simp add: length_bbList)

lemma rank_bbList:
  assumes "k < popcount m"
  shows "rank m (nat (bbList m ! k)) = k"
proof -
  let ?xs = "bbList m"
  have k: "k < length ?xs" using assms by (simp add: length_bbList)
  have lt: "?xs ! i < ?xs ! j \<longleftrightarrow> i < j" if "i < length ?xs" "j < length ?xs" for i j
    using sorted_bbList [of m] that by (metis linorder_neqE_nat order_less_asym sorted_wrt_iff_nth_less less_irrefl)
  have nonneg: "0 \<le> ?xs ! i" if "i < length ?xs" for i
    using bbList_range nth_mem [OF that] by blast
  have "{j. j < nat (?xs ! k) \<and> bit m j} = (\<lambda>i. nat (?xs ! i)) ` {..<k}"
  proof (intro equalityI subsetI)
    fix j assume j: "j \<in> {j. j < nat (?xs ! k) \<and> bit m j}"
    then have "int j \<in> set ?xs" by (simp add: in_bbList)
    then obtain i where i: "i < length ?xs" "?xs ! i = int j" by (auto simp: in_set_conv_nth)
    then have "i < k" using j lt [OF i(1) k] by (simp add: zless_nat_eq_int_zless)
    then show "j \<in> (\<lambda>i. nat (?xs ! i)) ` {..<k}" using i by (auto intro: image_eqI [of _ _ i])
  next
    fix j assume "j \<in> (\<lambda>i. nat (?xs ! i)) ` {..<k}"
    then obtain i where i: "i < k" "j = nat (?xs ! i)" by auto
    then have "i < length ?xs" using k by simp
    then have "?xs ! i \<in> set ?xs" by (rule nth_mem)
    then show "j \<in> {j. j < nat (?xs ! k) \<and> bit m j}"
      using i lt [of i k] k nonneg [of i] by (auto simp: in_bbList)
  qed
  moreover have "inj_on (\<lambda>i. nat (?xs ! i)) {..<k}"
  proof (rule inj_onI)
    fix i j assume i: "i \<in> {..<k}" "j \<in> {..<k}" and eq: "nat (?xs ! i) = nat (?xs ! j)"
    then have l: "i < length ?xs" "j < length ?xs" using k by auto
    then have "?xs ! i = ?xs ! j" using nonneg eq by (simp add: eq_nat_nat_iff)
    then show "i = j" using l nth_eq_iff_index_eq [OF distinct_bbList] by blast
  qed
  ultimately show ?thesis by (simp add: rank_def card_image)
qed

lemma bbList_in: "k < popcount m \<Longrightarrow> bit m (nat (bbList m ! k))"
  using nth_mem [of k "bbList m"] by (simp add: length_bbList in_bbList)

lemma bit_less_popcount: "n < 2 ^ popcount m \<Longrightarrow> bit (of_nat n :: u64) k \<Longrightarrow> k < popcount m"
proof -
  assume n: "n < 2 ^ popcount m" and "bit (of_nat n :: u64) k"
  then have "bit n k" by (simp add: bit_of_nat_iff)
  then have "2 ^ k \<le> n" by (metis bit_iff_odd div_less even_zero not_le)
  then have "(2::nat) ^ k < 2 ^ popcount m" using n by (rule le_less_trans)
  then show ?thesis by simp
qed

lemma pext_depositBits:
  assumes "x AND m = depositBits (of_nat n) m" "n < 2 ^ popcount m"
  shows "unat (pext_u64 x m) = n"
proof -
  have "bit (pext_u64 x m) k \<longleftrightarrow> bit (of_nat n :: u64) k" for k
  proof (cases "k < popcount m")
    case True
    then have "bit x (nat (bbList m ! k)) \<longleftrightarrow> bit (x AND m) (nat (bbList m ! k))"
      using bbList_in [OF True] by (simp add: bit_and_iff)
    then show ?thesis
      using True bbList_in [OF True] rank_bbList [OF True]
      by (simp add: bit_pext assms(1) bit_depositBits)
  next
    case False
    then show ?thesis using bit_less_popcount [OF assms(2)] by (auto simp: bit_pext)
  qed
  then have "pext_u64 x m = of_nat n" by (simp add: bit_eq_iff)
  moreover have "n < 2 ^ 64"
    using assms(2) power_increasing [OF popcount_le_64 [of m], of "2::nat"] by simp
  ultimately show ?thesis by (simp add: unat_of_nat)
qed

lemma bbList_rank: "bit m j \<Longrightarrow> rank m j < popcount m \<and> nat (bbList m ! rank m j) = j"
proof -
  assume "bit m j"
  then have "int j \<in> set (bbList m)" by (simp add: in_bbList)
  then obtain k where k: "k < popcount m" "bbList m ! k = int j"
    by (auto simp: in_set_conv_nth length_bbList)
  then have "rank m j = k" using rank_bbList [OF k(1)] by simp
  with k show ?thesis by simp
qed

lemma depositBits_surj:
  obtains n where "n < 2 ^ popcount m" "x AND m = depositBits (of_nat n) m"
proof
  let ?n = "unat (pext_u64 x m)"
  show "x AND m = depositBits (of_nat ?n) m"
    by (rule u64_eqI) (auto simp: bit_and_iff bit_depositBits bit_pext bbList_rank)
  have "take_bit (popcount m) (pext_u64 x m) = pext_u64 x m"
    by (rule u64_eqI) (auto simp: bit_take_bit_iff bit_pext)
  then have "take_bit (popcount m) ?n = ?n"
    by (metis unsigned_take_bit_eq)
  then show "?n < 2 ^ popcount m" by (metis take_bit_nat_less_exp)
qed

section \<open>Numberings of the subsets of a mask\<close>

text \<open>
  What the table construction asks of a numbering: within the region of its square, injective on
  the subsets of the mask, and found again at lookup from any occupancy.
\<close>

locale slot_numbering =
  fixes pos :: "magic_type \<Rightarrow> coord \<Rightarrow> nat \<Rightarrow> nat"
    and idx :: "magic_type \<Rightarrow> coord \<Rightarrow> bitboard \<Rightarrow> nat"
  assumes pos_bound: "isCoord c \<Longrightarrow> n < 2 ^ getMagicMaskBitSize M c \<Longrightarrow> pos M c n < 2 ^ getMagicMaskBitSize M c"
    and pos_inj: "isCoord c \<Longrightarrow> n < 2 ^ getMagicMaskBitSize M c \<Longrightarrow> n' < 2 ^ getMagicMaskBitSize M c \<Longrightarrow>
      pos M c n = pos M c n' \<Longrightarrow> n = n'"
    and idx_pos: "isCoord c \<Longrightarrow> n < 2 ^ getMagicMaskBitSize M c \<Longrightarrow>
      occupied AND buildMagicMask M c = depositBits (of_nat n) (buildMagicMask M c) \<Longrightarrow>
      idx M c occupied = pos M c n"
begin

definition slot :: "magic_type \<Rightarrow> coord \<times> nat \<Rightarrow> nat" where
  "slot M e = nat (magic_offset M (fst e)) + pos M (fst e) (snd e)"

definition entry :: "magic_type \<Rightarrow> coord \<times> nat \<Rightarrow> bool" where
  "entry M e \<longleftrightarrow> isCoord (fst e) \<and> snd e < 2 ^ getMagicMaskBitSize M (fst e)"

definition occ :: "magic_type \<Rightarrow> coord \<times> nat \<Rightarrow> bitboard" where
  "occ M e = depositBits (of_nat (snd e)) (buildMagicMask M (fst e))"

lemma slot_bound: "entry M e \<Longrightarrow> slot M e < lookup_size M"
proof -
  assume e: "entry M e"
  then have c: "isCoord (fst e)" by (simp add: entry_def)
  have "int (pos M (fst e) (snd e)) < 2 ^ getMagicMaskBitSize M (fst e)"
    using pos_bound e unfolding entry_def by (simp flip: of_nat_less_iff)
  then show "slot M e < lookup_size M"
    unfolding slot_def using region_layout(1,2) [OF c c, of M] by linarith
qed

lemma slot_eq_offset:
  assumes "entry M e" "entry M e'" "slot M e = slot M e'"
  shows "magic_offset M (fst e) = magic_offset M (fst e')"
proof -
  have c: "isCoord (fst e)" "isCoord (fst e')" using assms(1,2) by (simp_all add: entry_def)
  have p: "int (pos M (fst e) (snd e)) < 2 ^ getMagicMaskBitSize M (fst e)"
    "int (pos M (fst e') (snd e')) < 2 ^ getMagicMaskBitSize M (fst e')"
    using pos_bound assms(1,2) unfolding entry_def by (simp_all flip: of_nat_less_iff)
  have "magic_offset M (fst e) + int (pos M (fst e) (snd e)) =
      magic_offset M (fst e') + int (pos M (fst e') (snd e'))"
    using assms(3) region_layout(1) [OF c(1,1), of M] region_layout(1) [OF c(2,2), of M]
    unfolding slot_def by linarith
  then show ?thesis
    using region_layout(3) [OF c, of M] p by linarith
qed

lemma occ_not_self: "entry M e \<Longrightarrow> \<not> bit (occ M e) (nat (fst e))"
  using mask_aligned [of "fst e" "fst e" M]
  by (auto simp: occ_def entry_def bit_depositBits aligned_def rook_aligned_def bishop_aligned_def
      split: if_splits)

definition table_inv :: "magic_type \<Rightarrow> (coord \<times> nat) set \<Rightarrow> bitboard list \<Rightarrow> bool" where
  "table_inv M done L \<longleftrightarrow> length L = lookup_size M \<and>
     (\<forall>s d. isCoord d \<longrightarrow> s < lookup_size M \<longrightarrow> bit (L ! s) (nat d) \<longrightarrow>
        (\<exists>e\<in>done. slot M e = s \<and> sees M (occ M e) (fst e) d)) \<and>
     (\<forall>e\<in>done. \<forall>d. isCoord d \<longrightarrow> sees M (occ M e) (fst e) d \<longrightarrow> bit (L ! slot M e) (nat d))"

lemma table_inv_step:
  assumes "table_inv M done L" "entry M e" "\<forall>e\<in>done. entry M e"
  shows "table_inv M (insert e done) (fillLookup_entry pos M L e)"
proof -
  let ?c = "fst e"
  have c: "isCoord ?c" using assms(2) by (simp add: entry_def)
  have len: "length L = lookup_size M" using assms(1) by (simp add: table_inv_def)
  have s: "slot M e < length L" using slot_bound [OF assms(2)] len by simp
  have L': "fillLookup_entry pos M L e =
      L[slot M e := fillEntry M ?c (occ M e) (L ! slot M e)]"
    by (simp add: fillLookup_entry_def slot_def occ_def Let_def split_beta)
  have new: "bit (fillLookup_entry pos M L e ! slot M e) (nat d) \<longleftrightarrow>
      d \<noteq> ?c \<and> (bit (L ! slot M e) (nat d) \<or> sees M (occ M e) ?c d)" if "isCoord d" for d
    unfolding L' using bit_fillEntry [OF c that occ_not_self [OF assms(2)]] s by simp
  have old: "fillLookup_entry pos M L e ! k = L ! k" if "k \<noteq> slot M e" for k
    unfolding L' using that by simp
  have upper: "\<exists>e'\<in>insert e done. slot M e' = k \<and> sees M (occ M e') (fst e') d"
    if "isCoord d" "k < lookup_size M" "bit (fillLookup_entry pos M L e ! k) (nat d)" for k d
  proof (cases "k = slot M e \<and> sees M (occ M e) ?c d")
    case False
    then have "bit (L ! k) (nat d)"
      using that(3) new [OF that(1)] old [of k] by (cases "k = slot M e") simp_all
    then show ?thesis using assms(1) that(1,2) unfolding table_inv_def by blast
  qed auto
  have lower: "bit (fillLookup_entry pos M L e ! slot M e') (nat d)"
    if e': "e' \<in> insert e done" and "isCoord d" "sees M (occ M e') (fst e') d" for e' d
  proof (cases "slot M e' = slot M e")
    case True
    have ent: "entry M e'" using e' assms(2,3) by auto
    then have c': "isCoord (fst e')" by (simp add: entry_def)
    have al: "aligned M (fst e') d" using that(3) by (simp add: sees_def)
    have "d \<noteq> ?c"
    proof (cases "fst e' = ?c")
      case True
      then show ?thesis using al by (auto simp: aligned_def rook_aligned_def bishop_aligned_def split: if_splits)
    next
      case False
      then show ?thesis
        using region_layout(4) [OF c' c slot_eq_offset [OF ent assms(2) True] False] al by auto
    qed
    moreover have "bit (L ! slot M e) (nat d) \<or> sees M (occ M e) ?c d"
      using assms(1) e' that(2,3) True unfolding table_inv_def by auto
    ultimately show ?thesis using new [OF that(2)] True by simp
  next
    case False
    then show ?thesis using assms(1) that old [OF False] unfolding table_inv_def by auto
  qed
  show ?thesis
    unfolding table_inv_def using upper lower len by (simp add: L')
qed

lemma table_inv_fill:
  assumes "\<forall>e\<in>set xs. entry M e" "table_inv M done L" "\<forall>e\<in>done. entry M e"
  shows "table_inv M (done \<union> set xs) (foldl (fillLookup_entry pos M) L xs)"
  using assms
proof (induction xs arbitrary: L "done")
  case (Cons e xs)
  then have "table_inv M (insert e done) (fillLookup_entry pos M L e)"
    by (intro table_inv_step) simp_all
  then show ?case
    using Cons.IH [of "insert e done"] Cons.prems by simp
qed simp

lemma fill_order_entries: "set (fill_order M) = {e. entry M e}"
proof -
  have "(c, n) \<in> set (fill_order M) \<longleftrightarrow> entry M (c, n)" for c n
    unfolding fill_order_def entry_def isCoord_def getMagicMaskBitSize_def
    by (simp add: image_iff) (auto simp: atLeastAtMost_iff)
  then show ?thesis by auto
qed

lemma table_inv_initMagic: "table_inv M {e. entry M e} (initMagic pos M)"
proof -
  have "table_inv M {} (replicate (lookup_size M) 0)"
    by (simp add: table_inv_def)
  then show ?thesis
    using table_inv_fill [of "fill_order M" M "{}" "replicate (lookup_size M) 0"]
    by (simp add: initMagic_def fill_order_entries)
qed

lemma lookup_entry:
  assumes "entry M e" "isCoord d" "aligned M (fst e) d"
  shows "bit (initMagic pos M ! slot M e) (nat d) \<longleftrightarrow> sees M (occ M e) (fst e) d"
proof
  assume "bit (initMagic pos M ! slot M e) (nat d)"
  then obtain e' where e': "entry M e'" "slot M e' = slot M e" "sees M (occ M e') (fst e') d"
    using table_inv_initMagic [of M] slot_bound [OF assms(1)] assms(2) unfolding table_inv_def by blast
  have c: "isCoord (fst e)" "isCoord (fst e')" using assms(1) e'(1) by (simp_all add: entry_def)
  show "sees M (occ M e) (fst e) d"
  proof (cases "fst e = fst e'")
    case True
    then have "pos M (fst e) (snd e) = pos M (fst e) (snd e')" using e'(2) by (simp add: slot_def)
    then have "snd e = snd e'"
      using pos_inj [OF c(1), of "snd e" M "snd e'"] assms(1) e'(1) True by (simp add: entry_def)
    then have "e = e'" using True by (simp add: prod_eq_iff)
    then show ?thesis using e'(3) by simp
  next
    case False
    then have "near_if_aligned M (fst e) (fst e') d"
      using region_layout(4) [OF c slot_eq_offset [OF assms(1) e'(1)]] e'(2) assms(2) by simp
    moreover have "aligned M (fst e') d" using e'(3) by (simp add: sees_def)
    ultimately show ?thesis
      using sees_near [OF c(1) assms(2,3)] assms(3) by (simp add: near_if_aligned_def)
  qed
next
  assume "sees M (occ M e) (fst e) d"
  then show "bit (initMagic pos M ! slot M e) (nat d)"
    using table_inv_initMagic [of M] assms(1,2) unfolding table_inv_def by blast
qed

lemma doAttack_bit:
  assumes "isCoord c" "isCoord d" "aligned M c d"
  shows "bit (doAttackBitboard pos idx M occupied c post) (nat d) \<longleftrightarrow>
    bit post (nat d) \<and> sees M occupied c d"
proof -
  obtain n where n: "n < 2 ^ getMagicMaskBitSize M c"
    "occupied AND buildMagicMask M c = depositBits (of_nat n) (buildMagicMask M c)"
    using depositBits_surj [of "buildMagicMask M c" occupied] by (auto simp: getMagicMaskBitSize_def)
  have e: "entry M (c, n)" using n(1) assms(1) by (simp add: entry_def)
  have "initMagic pos M ! (nat (magic_offset M c) + idx M c occupied) = initMagic pos M ! slot M (c, n)"
    using idx_pos [OF assms(1) n] by (simp add: slot_def)
  moreover have "sees M (occ M (c, n)) c d \<longleftrightarrow> sees M occupied c d"
    using sees_mask [OF assms(1,2), of M occupied] n(2) by (simp add: occ_def)
  ultimately show ?thesis
    using lookup_entry [OF e assms(2)] assms(3) by (simp add: doAttackBitboard_def bit_and_iff conj_commute)
qed

text \<open>The lookup is right wherever the post mask is a set of squares on the lines of \<open>c\<close>.\<close>

lemma bit_doAttackBitboard:
  assumes "isCoord c" "isCoord d" "bit post (nat d) \<Longrightarrow> aligned M c d"
  shows "bit (doAttackBitboard pos idx M occupied c post) (nat d) \<longleftrightarrow>
    bit post (nat d) \<and> sees M occupied c d"
proof (cases "bit post (nat d)")
  case True
  then show ?thesis using doAttack_bit [OF assms(1,2)] assms(3) by simp
qed (simp add: doAttackBitboard_def bit_and_iff)

end

section \<open>The numbering of the BMI2 build\<close>

interpretation bmi2: slot_numbering bmi2_pos bmi2_idx
proof
  fix c :: coord and n n' M and occupied :: bitboard
  show "bmi2_pos M c n < 2 ^ getMagicMaskBitSize M c" if "n < 2 ^ getMagicMaskBitSize M c"
    using that by (simp only: bmi2_pos_def)
  show "n = n'" if "bmi2_pos M c n = bmi2_pos M c n'"
    using that by (simp only: bmi2_pos_def)
  show "bmi2_idx M c occupied = bmi2_pos M c n"
    if "n < 2 ^ getMagicMaskBitSize M c"
      "occupied AND buildMagicMask M c = depositBits (of_nat n) (buildMagicMask M c)"
    using pext_depositBits [OF that(2)] that(1)
    by (simp only: bmi2_idx_def bmi2_pos_def getMagicMaskBitSize_def)
qed


lemma bit_masked_attack:
  assumes "isCoord c" "isCoord d"
  shows "bit (let p = buildMagicPostMask M c AND post
      in if p = 0 then 0 else doAttackBitboard bmi2_pos bmi2_idx M occupied c p) (nat d) \<longleftrightarrow>
    bit post (nat d) \<and> sees M occupied c d"
proof -
  have "bit (buildMagicPostMask M c AND post) (nat d) \<longleftrightarrow> aligned M c d \<and> bit post (nat d)"
    using bit_buildMagicPostMask [OF assms] by (simp add: bit_and_iff)
  moreover from this have "bit (doAttackBitboard bmi2_pos bmi2_idx M occupied c
      (buildMagicPostMask M c AND post)) (nat d) \<longleftrightarrow> bit post (nat d) \<and> sees M occupied c d"
    using bmi2.bit_doAttackBitboard [OF assms] by (auto simp: sees_def)
  ultimately show ?thesis
    by (auto simp: Let_def sees_def dest: arg_cong [where f = "\<lambda>w. bit w (nat d)"])
qed

definition rook_sees :: "bitboard \<Rightarrow> coord \<Rightarrow> coord \<Rightarrow> bool" where
  "rook_sees occupied c d \<longleftrightarrow> rook_aligned c d \<and> between c d AND occupied = 0"

definition bishop_sees :: "bitboard \<Rightarrow> coord \<Rightarrow> coord \<Rightarrow> bool" where
  "bishop_sees occupied c d \<longleftrightarrow> bishop_aligned c d \<and> between c d AND occupied = 0"

lemma sees_simps: "sees MagicRook = rook_sees" "sees MagicBishop = bishop_sees"
  by (auto simp: fun_eq_iff sees_def rook_sees_def bishop_sees_def aligned_def)

lemma bit_attackBitboards:
  assumes "isCoord c" "isCoord d"
  shows bit_rookAttackBitboard: "bit (rookAttackBitboard occupied c) (nat d) \<longleftrightarrow> rook_sees occupied c d"
    and bit_bishopAttackBitboard: "bit (bishopAttackBitboard occupied c) (nat d) \<longleftrightarrow> bishop_sees occupied c d"
    and bit_rookAttackBitboardMasked: "bit (rookAttackBitboardMasked occupied c post) (nat d) \<longleftrightarrow>
      bit post (nat d) \<and> rook_sees occupied c d"
    and bit_bishopAttackBitboardMasked: "bit (bishopAttackBitboardMasked occupied c post) (nat d) \<longleftrightarrow>
      bit post (nat d) \<and> bishop_sees occupied c d"
  using bmi2.bit_doAttackBitboard [OF assms, of "buildMagicPostMask MagicRook c" MagicRook occupied]
    bmi2.bit_doAttackBitboard [OF assms, of "buildMagicPostMask MagicBishop c" MagicBishop occupied]
    bit_masked_attack [OF assms, of MagicRook post occupied]
    bit_masked_attack [OF assms, of MagicBishop post occupied]
    bit_buildMagicPostMask [OF assms]
  by (simp_all add: rookAttackBitboard_def bishopAttackBitboard_def rookAttackBitboardMasked_def
      bishopAttackBitboardMasked_def sees_simps [symmetric] sees_def)

section \<open>The numbering of the portable build\<close>

lemma isValidMagic_loop_sound:
  assumes "isValidMagic_loop M c magic used ns" "distinct ns"
    and "\<forall>n\<in>set ns. h n < length used" "\<And>n. h n =
      unat (drop_bit (64 - popcount (buildMagicMask M c))
        (depositBits (of_nat n) (buildMagicMask M c) * magic))"
  shows "inj_on h (set ns) \<and> (\<forall>n\<in>set ns. \<not> used ! h n)"
  using assms
proof (induction ns arbitrary: used)
  case (Cons n ns)
  have n: "\<not> used ! h n" and rest: "isValidMagic_loop M c magic (used[h n := True]) ns"
    using Cons.prems(1) by (simp_all add: Let_def Cons.prems(4) [symmetric] split: if_splits)
  have IH: "inj_on h (set ns) \<and> (\<forall>k\<in>set ns. \<not> used[h n := True] ! h k)"
    using Cons.IH [OF rest _ _ Cons.prems(4)] Cons.prems(2,3) by simp
  have "h n < length used" using Cons.prems(3) by simp
  then have "h k \<noteq> h n \<and> \<not> used ! h k" if "k \<in> set ns" for k
    using IH that by (metis nth_list_update_eq nth_list_update_neq)
  note ne = this
  then have "h n \<notin> h ` set ns" by force
  then show ?case using IH n ne by (simp add: inj_on_insert) blast
qed simp

lemma drop_bit_bound: "k \<le> 64 \<Longrightarrow> unat (drop_bit (64 - k) (w :: u64)) < 2 ^ k"
proof -
  assume k: "k \<le> 64"
  have "unat w < 2 ^ k * 2 ^ (64 - k)"
    using k unsigned_less [of w] by (simp flip: power_add)
  then show ?thesis
    unfolding unat_drop_bit_eq unfolding drop_bit_eq_div by (simp add: div_less_iff_less_mult)
qed

lemma isValidMagic_inj:
  assumes "isValidMagic M c (magics M c)" "isCoord c"
  shows "inj_on (mult_pos magics M c) {..<2 ^ getMagicMaskBitSize M c}"
    and "mult_pos magics M c n < 2 ^ getMagicMaskBitSize M c"
proof -
  let ?k = "popcount (buildMagicMask M c)"
  show b: "mult_pos magics M c n < 2 ^ getMagicMaskBitSize M c" for n
    using drop_bit_bound [OF popcount_le_64]
    by (simp add: mult_pos_def generateShifts_def getMagicMaskBitSize_def Let_def)
  have "inj_on (mult_pos magics M c) (set [0..<2 ^ ?k])"
    using isValidMagic_loop_sound [of M c "magics M c" "replicate (2 ^ ?k) False" "[0..<2 ^ ?k]"
        "mult_pos magics M c"] assms(1) b
    by (simp add: isValidMagic_def Let_def mult_pos_def generateShifts_def getMagicMaskBitSize_def)
  then show "inj_on (mult_pos magics M c) {..<2 ^ getMagicMaskBitSize M c}"
    by (simp add: getMagicMaskBitSize_def atLeast0LessThan)
qed

text \<open>Every set of magic numbers that passes the generator's test meets the interface.\<close>

lemma portable_numbering:
  assumes "\<And>M c. isCoord c \<Longrightarrow> isValidMagic M c (magics M c)"
  shows "slot_numbering (mult_pos magics) (mult_idx magics)"
proof
  fix c :: coord and n n' M and occupied :: bitboard
  assume c: "isCoord c"
  note v = isValidMagic_inj [where magics = magics, OF assms [OF c] c]
  show "mult_pos magics M c n < 2 ^ getMagicMaskBitSize M c" by (rule v)
  show "n = n'" if "n < 2 ^ getMagicMaskBitSize M c" "n' < 2 ^ getMagicMaskBitSize M c"
    "mult_pos magics M c n = mult_pos magics M c n'"
    using inj_onD [OF v(1) that(3)] that(1,2) by simp
  show "mult_idx magics M c occupied = mult_pos magics M c n"
    if "occupied AND buildMagicMask M c = depositBits (of_nat n) (buildMagicMask M c)"
    using that by (simp add: mult_idx_def mult_pos_def)
qed

lemma portable_attack:
  assumes "\<And>M c. isCoord c \<Longrightarrow> isValidMagic M c (magics M c)"
    and "isCoord c" "\<And>d. isCoord d \<Longrightarrow> bit post (nat d) \<Longrightarrow> aligned M c d"
  shows "doAttackBitboard (mult_pos magics) (mult_idx magics) M occupied c post =
    doAttackBitboard bmi2_pos bmi2_idx M occupied c post"
proof (rule bitboard_eqI)
  fix d assume d: "isCoord d"
  show "bit (doAttackBitboard (mult_pos magics) (mult_idx magics) M occupied c post) (nat d) =
      bit (doAttackBitboard bmi2_pos bmi2_idx M occupied c post) (nat d)"
    using slot_numbering.bit_doAttackBitboard [OF portable_numbering [OF assms(1)] assms(2) d assms(3)]
      bmi2.bit_doAttackBitboard [OF assms(2) d assms(3)] d by blast
qed

end
