(* ===== verification/Board.thy ===== *)
theory Board
  imports Near_Attacks
begin

text \<open>
  The board (\<^verbatim>\<open>src/core/board.h\<close>, \<^verbatim>\<open>src/core/board.cpp\<close>) and the hash tables
  (\<^verbatim>\<open>src/core/private/zobrist.cpp\<close>). The essential fields are the position; bitboards and hash
  are derived from them by \<^verbatim>\<open>update\<close>. The lemmas characterise the derived fields and show
  that \<^verbatim>\<open>update\<close> establishes, and then leaves alone, a consistent board.
\<close>

section \<open>Zobrist tables\<close>

text \<open>
  The tables are filled from the program's random generator. The generator is a parameter: \<open>rnd k\<close>
  is the result of its \<open>k\<close>-th call.
\<close>

record zobrist =
  zobristPieces :: "u64 list list"
  zobristMoveSide :: u64
  zobristCastling :: "u64 list"
  zobristEnpassant :: "u64 list"
  zobristPieceCastlingKingside :: "u64 list"
  zobristPieceCastlingQueenside :: "u64 list"

definition initZobrist :: "(nat \<Rightarrow> u64) \<Rightarrow> zobrist" where
  "initZobrist rnd =
     (let pieces = replicate 64 0 # map (\<lambda>i. map (\<lambda>j. rnd (64 * (i - 1) + j)) [0..<64]) [1..<16];
          base = 15 * 64;
          moveSide = rnd base;
          castlings = map (\<lambda>k. rnd (base + 1 + k)) [0..<16];
          enpassants = map (\<lambda>k. rnd (base + 17 + k)) [0..<64];
          at = (\<lambda>cell c. pieces ! nat cell ! nat c);
          kingside = map (\<lambda>c. at (makeCell c King) (castlingOffset c + 4) XOR
              at (makeCell c Rook) (castlingOffset c + 5) XOR
              at (makeCell c King) (castlingOffset c + 6) XOR
              at (makeCell c Rook) (castlingOffset c + 7)) [White, Black];
          queenside = map (\<lambda>c. at (makeCell c Rook) (castlingOffset c + 0) XOR
              at (makeCell c King) (castlingOffset c + 2) XOR
              at (makeCell c Rook) (castlingOffset c + 3) XOR
              at (makeCell c King) (castlingOffset c + 4)) [White, Black]
      in \<lparr>zobristPieces = pieces, zobristMoveSide = moveSide, zobristCastling = castlings,
          zobristEnpassant = enpassants, zobristPieceCastlingKingside = kingside,
          zobristPieceCastlingQueenside = queenside\<rparr>)"

definition zPiece :: "zobrist \<Rightarrow> cell \<Rightarrow> coord \<Rightarrow> u64" where
  "zPiece z cell c = zobristPieces z ! nat cell ! nat c"

definition zEnpassant :: "zobrist \<Rightarrow> coord \<Rightarrow> u64" where
  "zEnpassant z c = zobristEnpassant z ! nat c"

definition zCastling :: "zobrist \<Rightarrow> castling \<Rightarrow> u64" where
  "zCastling z f = zobristCastling z ! unat f"

definition zCastlingKingside :: "zobrist \<Rightarrow> color \<Rightarrow> u64" where
  "zCastlingKingside z c = zobristPieceCastlingKingside z ! nat (colorVal c)"

definition zCastlingQueenside :: "zobrist \<Rightarrow> color \<Rightarrow> u64" where
  "zCastlingQueenside z c = zobristPieceCastlingQueenside z ! nat (colorVal c)"

definition zobrist_ok :: "zobrist \<Rightarrow> bool" where
  "zobrist_ok z \<longleftrightarrow> (\<forall>c. isCoord c \<longrightarrow> zPiece z EMPTY_CELL c = 0) \<and>
     (\<forall>c. zCastlingKingside z c = zPiece z (makeCell c King) (castlingOffset c + 4) XOR
        zPiece z (makeCell c Rook) (castlingOffset c + 5) XOR
        zPiece z (makeCell c King) (castlingOffset c + 6) XOR
        zPiece z (makeCell c Rook) (castlingOffset c + 7)) \<and>
     (\<forall>c. zCastlingQueenside z c = zPiece z (makeCell c Rook) (castlingOffset c + 0) XOR
        zPiece z (makeCell c King) (castlingOffset c + 2) XOR
        zPiece z (makeCell c Rook) (castlingOffset c + 3) XOR
        zPiece z (makeCell c King) (castlingOffset c + 4))"

lemma zobrist_ok_init: "zobrist_ok (initZobrist rnd)"
proof -
  have empty: "zPiece (initZobrist rnd) EMPTY_CELL c = 0" if "isCoord c" for c
  proof -
    have "nat c < 64" using that by (auto simp: isCoord_def)
    then show ?thesis by (simp add: zPiece_def initZobrist_def Let_def EMPTY_CELL_def)
  qed
  have zp: "zobristPieces (initZobrist rnd) ! nat v ! nat c = zPiece (initZobrist rnd) v c" for v c
    by (simp add: zPiece_def)
  have pieces: "zobristPieces (initZobrist rnd) =
      replicate 64 0 # map (\<lambda>i. map (\<lambda>j. rnd (64 * (i - 1) + j)) [0..<64]) [1..<16]"
    by (simp add: initZobrist_def Let_def)
  have side: "zCastlingKingside (initZobrist rnd) c =
        zPiece (initZobrist rnd) (makeCell c King) (castlingOffset c + 4) XOR
        zPiece (initZobrist rnd) (makeCell c Rook) (castlingOffset c + 5) XOR
        zPiece (initZobrist rnd) (makeCell c King) (castlingOffset c + 6) XOR
        zPiece (initZobrist rnd) (makeCell c Rook) (castlingOffset c + 7)"
    "zCastlingQueenside (initZobrist rnd) c =
        zPiece (initZobrist rnd) (makeCell c Rook) (castlingOffset c + 0) XOR
        zPiece (initZobrist rnd) (makeCell c King) (castlingOffset c + 2) XOR
        zPiece (initZobrist rnd) (makeCell c Rook) (castlingOffset c + 3) XOR
        zPiece (initZobrist rnd) (makeCell c King) (castlingOffset c + 4)" for c
    unfolding zPiece_def pieces zCastlingKingside_def zCastlingQueenside_def
    by (cases c; simp add: initZobrist_def Let_def del: upt_Suc makeCell_values)+
  show ?thesis unfolding zobrist_ok_def using empty side by blast
qed

section \<open>The board\<close>

datatype FenParseResult =
    Fen_Ok | ExpectedSpace | ExpectedUint16 | UnexpectedCharacter | BoardRowOverflow
  | BoardRowUnderflow | BoardNotEnoughRows | BoardTooManyRows | CastlingDuplicate
  | CastlingFieldMissing | EnpassantInvalidCell | RedundantData

datatype ValidateResult =
    Validate_Ok | BadData | TooManyPieces | NoKing | TooManyKings | InvalidEnpassantRow
  | InvalidPawnPosition | OpponentKingAttacked

record board =
  cells :: "cell list"
  unused :: u8
  side :: color
  castling :: castling
  enpassantCoord :: coord
  moveCounter :: u16
  moveNumber :: u16
  hash :: u64
  bbWhite :: bitboard
  bbBlack :: bitboard
  bbAll :: bitboard
  bbPieces :: "bitboard list"

definition BB_PIECES_SZ :: nat where "BB_PIECES_SZ = 15"

definition cellAt :: "board \<Rightarrow> coord \<Rightarrow> cell" where
  "cellAt b c = cells b ! nat c"

definition pieceBB :: "board \<Rightarrow> cell \<Rightarrow> bitboard" where
  "pieceBB b cell = bbPieces b ! nat cell"

text \<open>\<^verbatim>\<open>operator==\<close> compares the essential fields only.\<close>

definition board_eq :: "board \<Rightarrow> board \<Rightarrow> bool" where
  "board_eq a b \<longleftrightarrow> cells a = cells b \<and> side a = side b \<and> castling a = castling b \<and>
     enpassantCoord a = enpassantCoord b \<and> moveCounter a = moveCounter b \<and>
     moveNumber a = moveNumber b"

definition bbColor :: "board \<Rightarrow> color \<Rightarrow> bitboard" where
  "bbColor b c = (if c = White then bbWhite b else bbBlack b)"

definition kingPos :: "board \<Rightarrow> color \<Rightarrow> coord" where
  "kingPos b c = int (getLowest (pieceBB b (makeCell c King)))"

definition clearCastling :: "board \<Rightarrow> board" where
  "clearCastling b = b\<lparr>castling := Castling_None\<rparr>"

definition setAllCastling :: "board \<Rightarrow> board" where
  "setAllCastling b = b\<lparr>castling := Castling_All\<rparr>"

definition isAnyCastling :: "board \<Rightarrow> bool" where
  "isAnyCastling b \<longleftrightarrow> castling_has (castling b)"

definition isKingsideCastling :: "board \<Rightarrow> color \<Rightarrow> bool" where
  "isKingsideCastling b c \<longleftrightarrow> castling_has (castling b AND castlingKingside c)"

definition isQueensideCastling :: "board \<Rightarrow> color \<Rightarrow> bool" where
  "isQueensideCastling b c \<longleftrightarrow> castling_has (castling b AND castlingQueenside c)"

definition setKingsideCastling :: "board \<Rightarrow> color \<Rightarrow> board" where
  "setKingsideCastling b c = b\<lparr>castling := castling b OR castlingKingside c\<rparr>"

definition setQueensideCastling :: "board \<Rightarrow> color \<Rightarrow> board" where
  "setQueensideCastling b c = b\<lparr>castling := castling b OR castlingQueenside c\<rparr>"

definition clearKingsideCastling :: "board \<Rightarrow> color \<Rightarrow> board" where
  "clearKingsideCastling b c = b\<lparr>castling := castling b AND NOT (castlingKingside c)\<rparr>"

definition clearQueensideCastling :: "board \<Rightarrow> color \<Rightarrow> board" where
  "clearQueensideCastling b c = b\<lparr>castling := castling b AND NOT (castlingQueenside c)\<rparr>"

definition clearColorCastling :: "board \<Rightarrow> color \<Rightarrow> board" where
  "clearColorCastling b c =
     b\<lparr>castling := castling b AND (NOT (castlingKingside c) AND NOT (castlingQueenside c))\<rparr>"

definition flipKingsideCastling :: "board \<Rightarrow> color \<Rightarrow> board" where
  "flipKingsideCastling b c = b\<lparr>castling := castling b XOR castlingKingside c\<rparr>"

definition flipQueensideCastling :: "board \<Rightarrow> color \<Rightarrow> board" where
  "flipQueensideCastling b c = b\<lparr>castling := castling b XOR castlingQueenside c\<rparr>"

section \<open>Recomputing the derived fields\<close>

definition update_enpassant :: "board \<Rightarrow> board" where
  "update_enpassant b =
     (if enpassantCoord b \<noteq> INVALID_COORD then
        let enpassantPreCoord = enpassantCoord b + pawnForwardDelta (side b)
        in if cellAt b (enpassantCoord b) \<noteq> makeCell (invert (side b)) Pawn \<or>
              cellAt b enpassantPreCoord \<noteq> EMPTY_CELL
           then b\<lparr>enpassantCoord := INVALID_COORD\<rparr> else b
      else b)"

definition update_castling_color :: "board \<Rightarrow> color \<Rightarrow> board" where
  "update_castling_color b0 color =
     (let x = castlingRow color;
          b1 = if cellAt b0 (makeCoord x 4) \<noteq> makeCell color King then clearColorCastling b0 color else b0;
          b2 = if cellAt b1 (makeCoord x 0) \<noteq> makeCell color Rook then clearQueensideCastling b1 color else b1
      in if cellAt b2 (makeCoord x 7) \<noteq> makeCell color Rook then clearKingsideCastling b2 color else b2)"

definition update_bb_step :: "board \<Rightarrow> coord \<Rightarrow> board" where
  "update_bb_step b i =
     (let cell = cellAt b i
      in if cell = EMPTY_CELL then b
         else let bbAdd = coordToBitboard i;
                  b1 = (if cellPieceColor cell = White then b\<lparr>bbWhite := bbWhite b OR bbAdd\<rparr>
                        else b\<lparr>bbBlack := bbBlack b OR bbAdd\<rparr>)
              in b1\<lparr>bbPieces := (bbPieces b1)[nat cell := bbPieces b1 ! nat cell OR bbAdd]\<rparr>)"

definition update_bitboards :: "board \<Rightarrow> board" where
  "update_bitboards b0 =
     (let b1 = b0\<lparr>bbWhite := 0, bbBlack := 0, bbPieces := replicate BB_PIECES_SZ 0\<rparr>;
          b2 = foldl update_bb_step b1 [0..63]
      in b2\<lparr>bbAll := bbWhite b2 OR bbBlack b2\<rparr>)"

definition update_hash :: "zobrist \<Rightarrow> board \<Rightarrow> board" where
  "update_hash z b =
     (let h0 = (if side b = White then 0 else zobristMoveSide z);
          h1 = (if enpassantCoord b \<noteq> INVALID_COORD then h0 XOR zEnpassant z (enpassantCoord b) else h0);
          h2 = h1 XOR zCastling z (castling b);
          h3 = foldl (\<lambda>h i. let cell = cellAt b i in if cell = EMPTY_CELL then h else h XOR zPiece z cell i)
                 h2 [0..63]
      in b\<lparr>hash := h3\<rparr>)"

definition update :: "zobrist \<Rightarrow> board \<Rightarrow> board" where
  "update z b = update_hash z (update_bitboards
     (foldl update_castling_color (update_enpassant b) [White, Black]))"

section \<open>The initial position\<close>

definition setCell :: "board \<Rightarrow> coord \<Rightarrow> cell \<Rightarrow> board" where
  "setCell b c v = b\<lparr>cells := (cells b)[nat c := v]\<rparr>"

definition back_rank :: "piece list" where
  "back_rank = [Rook, Knight, Bishop, Queen, King, Bishop, Knight, Rook]"

definition setInitialPosition :: "zobrist \<Rightarrow> board \<Rightarrow> board" where
  "setInitialPosition z b0 =
     (let b1 = b0\<lparr>cells := replicate 64 EMPTY_CELL\<rparr>;
          b2 = foldl (\<lambda>b i. setCell b (makeCoord 1 i) (makeCell Black Pawn)) b1 [0..7];
          b3 = foldl (\<lambda>b (i, p). setCell b (makeCoord 0 i) (makeCell Black p)) b2 (zip [0..7] back_rank);
          b4 = foldl (\<lambda>b i. setCell b (makeCoord 6 i) (makeCell White Pawn)) b3 [0..7];
          b5 = foldl (\<lambda>b (i, p). setCell b (makeCoord 7 i) (makeCell White p)) b4 (zip [0..7] back_rank);
          b6 = setAllCastling b5
      in update z (b6\<lparr>side := White, enpassantCoord := INVALID_COORD, moveCounter := 0,
           moveNumber := 1, unused := 0\<rparr>))"

section \<open>Insufficient material\<close>

definition isBoardDrawInsufficientMaterial :: "board \<Rightarrow> bool" where
  "isBoardDrawInsufficientMaterial b =
     (let bbNoKings = bbAll b XOR (pieceBB b (makeCell White King) OR pieceBB b (makeCell Black King))
      in if bbNoKings AND BB_CELLS_WHITE \<noteq> 0 \<and> bbNoKings AND BB_CELLS_BLACK \<noteq> 0 then False
         else if bbNoKings = 0 then True
         else let bbKnights = pieceBB b (makeCell White Knight) OR pieceBB b (makeCell Black Knight)
              in if bbNoKings = bbKnights \<and> popcount bbKnights = 1 then True
                 else let bbBishops = pieceBB b (makeCell White Bishop) OR pieceBB b (makeCell Black Bishop)
                      in bbNoKings = bbBishops)"


section \<open>Castling flags as bits\<close>

definition kbit :: "color \<Rightarrow> nat" where "kbit c = (if c = White then 1 else 3)"
definition qbit :: "color \<Rightarrow> nat" where "qbit c = (if c = White then 0 else 2)"

lemma flag_bits:
  "bit (castlingKingside c) n \<longleftrightarrow> n = kbit c"
  "bit (castlingQueenside c) n \<longleftrightarrow> n = qbit c"
proof -
  have "castlingKingside c = 2 ^ kbit c" "castlingQueenside c = 2 ^ qbit c"
    by (cases c; simp add: castlingKingside_def castlingQueenside_def castling_consts kbit_def qbit_def)+
  moreover have "bit (2 ^ k :: u8) n \<longleftrightarrow> n = k" if "k < 8" for k
    using that by (auto simp: bit_exp_iff)
  ultimately show "bit (castlingKingside c) n \<longleftrightarrow> n = kbit c" "bit (castlingQueenside c) n \<longleftrightarrow> n = qbit c"
    by (simp_all add: kbit_def qbit_def)
qed

lemma bit_All: "bit Castling_All n \<longleftrightarrow> n < 4"
proof -
  have "Castling_All = mask 4" unfolding Castling_All_def by (simp add: mask_eq_exp_minus_1)
  then show ?thesis using bit_mask_iff [where 'a = u8, of 4 n] by auto
qed

lemma bits_distinct [simp]:
  "kbit c = kbit d \<longleftrightarrow> c = d" "qbit c = qbit d \<longleftrightarrow> c = d" "kbit c \<noteq> qbit d" "qbit c \<noteq> kbit d"
  by (cases c; cases d; simp add: kbit_def qbit_def)+

lemma has_flag:
  "castling_has (f AND castlingKingside c) \<longleftrightarrow> bit f (kbit c)"
  "castling_has (f AND castlingQueenside c) \<longleftrightarrow> bit f (qbit c)"
proof -
  have nz: "w \<noteq> 0 \<longleftrightarrow> (\<exists>n. bit w n)" for w :: u8
    using bit_eq_iff [of w 0] by auto
  show "castling_has (f AND castlingKingside c) \<longleftrightarrow> bit f (kbit c)"
    "castling_has (f AND castlingQueenside c) \<longleftrightarrow> bit f (qbit c)"
    unfolding castling_has_def Castling_None_def nz by (auto simp: bit_and_iff flag_bits)
qed

lemma isCastling_bits [simp]:
  "isKingsideCastling b c \<longleftrightarrow> bit (castling b) (kbit c)"
  "isQueensideCastling b c \<longleftrightarrow> bit (castling b) (qbit c)"
  by (simp_all add: isKingsideCastling_def isQueensideCastling_def has_flag)

lemma bits_small: "n < 4 \<longleftrightarrow> n = kbit White \<or> n = kbit Black \<or> n = qbit White \<or> n = qbit Black"
  by (auto simp: kbit_def qbit_def)

lemma bits_lt [simp]: "kbit c < 8" "qbit c < 8" "kbit c < 4" "qbit c < 4"
  by (cases c; simp add: kbit_def qbit_def)+

lemma castling_eqI:
  assumes "f AND Castling_All = f" "g AND Castling_All = g"
    and "\<And>c. bit f (kbit c) = bit g (kbit c)" "\<And>c. bit f (qbit c) = bit g (qbit c)"
  shows "f = g"
proof (rule bit_word_eqI)
  fix n
  have "bit f n \<longleftrightarrow> bit f n \<and> n < 4" "bit g n \<longleftrightarrow> bit g n \<and> n < 4"
    using assms(1,2) by (metis bit_and_iff bit_All)+
  then show "bit f n = bit g n" using assms(3,4) bits_small [of n] by metis
qed

section \<open>Consistent boards\<close>

definition castlingSquares :: "color \<Rightarrow> coord \<times> coord \<times> coord" where
  "castlingSquares c = (castlingOffset c, castlingOffset c + 4, castlingOffset c + 7)"

definition board_shape :: "board \<Rightarrow> bool" where
  "board_shape b \<longleftrightarrow> length (cells b) = 64 \<and> (\<forall>c. isCoord c \<longrightarrow> isCellValid (cellAt b c)) \<and>
     castling b AND Castling_All = castling b \<and>
     (enpassantCoord b = INVALID_COORD \<or>
      isCoord (enpassantCoord b) \<and> coordX (enpassantCoord b) = enpassantSrcRow (side b))"

definition ep_ok :: "board \<Rightarrow> bool" where
  "ep_ok b \<longleftrightarrow> enpassantCoord b = INVALID_COORD \<or>
     (cellAt b (enpassantCoord b) = makeCell (invert (side b)) Pawn \<and>
      cellAt b (enpassantCoord b + pawnForwardDelta (side b)) = EMPTY_CELL)"

definition castling_ok :: "board \<Rightarrow> bool" where
  "castling_ok b \<longleftrightarrow> (\<forall>c.
     (isKingsideCastling b c \<longrightarrow> cellAt b (castlingOffset c + 4) = makeCell c King \<and>
        cellAt b (castlingOffset c + 7) = makeCell c Rook) \<and>
     (isQueensideCastling b c \<longrightarrow> cellAt b (castlingOffset c + 4) = makeCell c King \<and>
        cellAt b (castlingOffset c) = makeCell c Rook))"

definition bb_ok :: "board \<Rightarrow> bool" where
  "bb_ok b \<longleftrightarrow> length (bbPieces b) = BB_PIECES_SZ \<and> bbAll b = bbWhite b OR bbBlack b \<and>
     (\<forall>c. isCoord c \<longrightarrow>
        (bit (bbWhite b) (nat c) \<longleftrightarrow> cellAt b c \<noteq> EMPTY_CELL \<and> cellPieceColor (cellAt b c) = White) \<and>
        (bit (bbBlack b) (nat c) \<longleftrightarrow> cellAt b c \<noteq> EMPTY_CELL \<and> cellPieceColor (cellAt b c) = Black) \<and>
        (\<forall>p. 0 \<le> p \<longrightarrow> p < 15 \<longrightarrow> (bit (pieceBB b p) (nat c) \<longleftrightarrow> cellAt b c = p \<and> p \<noteq> EMPTY_CELL)))"

definition cellHash :: "zobrist \<Rightarrow> cell list \<Rightarrow> u64" where
  "cellHash z cs = xor_list (map (\<lambda>i. if cs ! nat i = EMPTY_CELL then 0 else zPiece z (cs ! nat i) i) [0..63])"

definition fullHash :: "zobrist \<Rightarrow> board \<Rightarrow> u64" where
  "fullHash z b = (if side b = White then 0 else zobristMoveSide z) XOR
     (if enpassantCoord b = INVALID_COORD then 0 else zEnpassant z (enpassantCoord b)) XOR
     zCastling z (castling b) XOR cellHash z (cells b)"

definition consistent :: "zobrist \<Rightarrow> board \<Rightarrow> bool" where
  "consistent z b \<longleftrightarrow> board_shape b \<and> ep_ok b \<and> castling_ok b \<and> bb_ok b \<and> hash b = fullHash z b"

lemma castling_makeCoord [simp]:
  "makeCoord (castlingRow c) 4 = castlingOffset c + 4" "makeCoord (castlingRow c) 0 = castlingOffset c"
  "makeCoord (castlingRow c) 7 = castlingOffset c + 7"
  by (cases c; simp add: coord_simps castlingRow_def)+

subsection \<open>What each step of update does\<close>

lemma update_enpassant_simps [simp]:
  "cells (update_enpassant b) = cells b" "side (update_enpassant b) = side b"
  "castling (update_enpassant b) = castling b" "moveCounter (update_enpassant b) = moveCounter b"
  "moveNumber (update_enpassant b) = moveNumber b" "unused (update_enpassant b) = unused b"
  by (simp_all add: update_enpassant_def Let_def)

lemma update_enpassant_ok: "ep_ok (update_enpassant b)"
  by (auto simp: update_enpassant_def ep_ok_def Let_def cellAt_def)

lemma update_enpassant_id: "ep_ok b \<Longrightarrow> update_enpassant b = b"
  by (auto simp: update_enpassant_def ep_ok_def Let_def)

lemma update_enpassant_shape: "board_shape b \<Longrightarrow> board_shape (update_enpassant b)"
  by (auto simp: update_enpassant_def board_shape_def Let_def cellAt_def)

lemma cellAt_simps [simp]:
  "cellAt (b\<lparr>castling := f\<rparr>) c = cellAt b c" "cellAt (b\<lparr>enpassantCoord := e\<rparr>) c = cellAt b c"
  "cellAt (b\<lparr>hash := h\<rparr>) c = cellAt b c" "cellAt (b\<lparr>bbWhite := w\<rparr>) c = cellAt b c"
  "cellAt (b\<lparr>bbBlack := w\<rparr>) c = cellAt b c" "cellAt (b\<lparr>bbAll := w\<rparr>) c = cellAt b c"
  "cellAt (b\<lparr>bbPieces := ps\<rparr>) c = cellAt b c" "cellAt (b\<lparr>side := s\<rparr>) c = cellAt b c"
  "cellAt (b\<lparr>moveCounter := n\<rparr>) c = cellAt b c" "cellAt (b\<lparr>moveNumber := n\<rparr>) c = cellAt b c"
  "cellAt (b\<lparr>unused := u\<rparr>) c = cellAt b c"
  by (simp_all add: cellAt_def)

lemma update_castling_color_eq:
  "update_castling_color b c = b\<lparr>castling := castling (update_castling_color b c)\<rparr>"
  by (simp add: update_castling_color_def Let_def clearColorCastling_def
      clearQueensideCastling_def clearKingsideCastling_def)

lemma update_castling_color_bits:
  "bit (castling (update_castling_color b c)) n \<longleftrightarrow> bit (castling b) n \<and>
     (n = kbit c \<longrightarrow> cellAt b (castlingOffset c + 4) = makeCell c King \<and>
        cellAt b (castlingOffset c + 7) = makeCell c Rook) \<and>
     (n = qbit c \<longrightarrow> cellAt b (castlingOffset c + 4) = makeCell c King \<and>
        cellAt b (castlingOffset c) = makeCell c Rook)"
proof -
  have n: "bit (castling b) n \<Longrightarrow> n < 8" using bit_imp_le_length [of "castling b" n] by simp
  show ?thesis
    unfolding update_castling_color_def Let_def castling_makeCoord clearColorCastling_def
      clearQueensideCastling_def clearKingsideCastling_def
    using n by (simp add: bit_and_iff bit_not_iff flag_bits) blast
qed

definition update_castling :: "board \<Rightarrow> board" where
  "update_castling b = foldl update_castling_color b [White, Black]"

lemma update_castling_color_cellAt [simp]: "cellAt (update_castling_color b c) d = cellAt b d"
  by (subst update_castling_color_eq) simp

lemma update_castling_eq: "update_castling b = b\<lparr>castling := castling (update_castling b)\<rparr>"
proof -
  have "foldl update_castling_color b [White, Black] =
      (update_castling_color b White)\<lparr>castling := castling (update_castling b)\<rparr>"
    using update_castling_color_eq [of "update_castling_color b White" Black]
    by (simp add: update_castling_def)
  also have "\<dots> = b\<lparr>castling := castling (update_castling b)\<rparr>"
    by (subst update_castling_color_eq) simp
  finally show ?thesis by (simp add: update_castling_def)
qed

lemma update_castling_bits:
  "bit (castling (update_castling b)) (kbit c) \<longleftrightarrow> bit (castling b) (kbit c) \<and>
     cellAt b (castlingOffset c + 4) = makeCell c King \<and> cellAt b (castlingOffset c + 7) = makeCell c Rook"
  "bit (castling (update_castling b)) (qbit c) \<longleftrightarrow> bit (castling b) (qbit c) \<and>
     cellAt b (castlingOffset c + 4) = makeCell c King \<and> cellAt b (castlingOffset c) = makeCell c Rook"
  "bit (castling (update_castling b)) n \<Longrightarrow> bit (castling b) n"
  by (cases c; auto simp: update_castling_def update_castling_color_bits)+

lemma update_castling_ok: "castling_ok (update_castling b)"
proof -
  have "cellAt (update_castling b) d = cellAt b d" for d by (subst update_castling_eq) simp
  then show ?thesis by (auto simp: castling_ok_def update_castling_bits(1,2))
qed

lemma castling_All_iff: "f AND Castling_All = f \<longleftrightarrow> (\<forall>n. bit f n \<longrightarrow> n < 4)"
  using bit_imp_le_length [of f] by (auto simp: bit_eq_iff bit_and_iff bit_All)

lemma update_castling_simps [simp]:
  "cells (update_castling b) = cells b" "side (update_castling b) = side b"
  "enpassantCoord (update_castling b) = enpassantCoord b"
  "moveCounter (update_castling b) = moveCounter b" "moveNumber (update_castling b) = moveNumber b"
  "cellAt (update_castling b) d = cellAt b d"
  by (subst update_castling_eq, simp)+

lemma update_castling_shape: "board_shape b \<Longrightarrow> board_shape (update_castling b)"
  using update_castling_bits(3) [of b]
  by (subst update_castling_eq) (auto simp: board_shape_def castling_All_iff)

lemma update_castling_id: "board_shape b \<Longrightarrow> castling_ok b \<Longrightarrow> update_castling b = b"
proof -
  assume s: "board_shape b" and ok: "castling_ok b"
  have "castling (update_castling b) = castling b"
  proof (rule castling_eqI)
    show "castling (update_castling b) AND Castling_All = castling (update_castling b)"
      "castling b AND Castling_All = castling b"
      using s update_castling_shape [OF s] unfolding board_shape_def by blast+
    show "bit (castling (update_castling b)) (kbit c) = bit (castling b) (kbit c)" for c
      using ok by (auto simp: castling_ok_def update_castling_bits(1,2))
    show "bit (castling (update_castling b)) (qbit c) = bit (castling b) (qbit c)" for c
      using ok by (auto simp: castling_ok_def update_castling_bits(1,2))
  qed
  then show ?thesis by (subst update_castling_eq) simp
qed

text \<open>The invariants of the essential fields depend on these fields alone.\<close>

lemma essential_cong:
  assumes "cells a = cells b" "castling a = castling b" "side a = side b"
    "enpassantCoord a = enpassantCoord b"
  shows "board_shape a = board_shape b" "ep_ok a = ep_ok b" "castling_ok a = castling_ok b"
    "fullHash z a = fullHash z b"
  using assms by (simp_all add: board_shape_def ep_ok_def castling_ok_def fullHash_def cellAt_def)

subsection \<open>The bitboard loop\<close>

definition bb_upto :: "board \<Rightarrow> coord set \<Rightarrow> board \<Rightarrow> bool" where
  "bb_upto b0 done b \<longleftrightarrow> b = b0\<lparr>bbWhite := bbWhite b, bbBlack := bbBlack b, bbPieces := bbPieces b\<rparr> \<and>
     length (bbPieces b) = BB_PIECES_SZ \<and>
     (\<forall>c. isCoord c \<longrightarrow>
        (bit (bbWhite b) (nat c) \<longleftrightarrow>
           c \<in> done \<and> cellAt b0 c \<noteq> EMPTY_CELL \<and> cellPieceColor (cellAt b0 c) = White) \<and>
        (bit (bbBlack b) (nat c) \<longleftrightarrow>
           c \<in> done \<and> cellAt b0 c \<noteq> EMPTY_CELL \<and> cellPieceColor (cellAt b0 c) = Black) \<and>
        (\<forall>p. 0 \<le> p \<longrightarrow> p < 15 \<longrightarrow> (bit (pieceBB b p) (nat c) \<longleftrightarrow>
           c \<in> done \<and> cellAt b0 c = p \<and> p \<noteq> EMPTY_CELL)))"

lemma bb_upto_step:
  assumes "bb_upto b0 done b" "isCoord i" "isCellValid (cellAt b0 i)"
  shows "bb_upto b0 (insert i done) (update_bb_step b i)"
proof -
  have b: "b = b0\<lparr>bbWhite := bbWhite b, bbBlack := bbBlack b, bbPieces := bbPieces b\<rparr>"
    and len: "length (bbPieces b) = BB_PIECES_SZ"
    using assms(1) by (simp_all add: bb_upto_def)
  have cell: "cellAt b i = cellAt b0 i" by (subst b) simp
  show ?thesis
  proof (cases "cellAt b0 i = EMPTY_CELL")
    case True
    then have "update_bb_step b i = b" using cell by (simp add: update_bb_step_def)
    then show ?thesis using assms(1) True by (auto simp: bb_upto_def)
  next
    case False
    let ?v = "cellAt b0 i"
    have v: "0 \<le> ?v" "?v < 15" using isCellValid_range [OF assms(3)] by auto
    let ?b = "update_bb_step b i"
    have eq: "?b = (if cellPieceColor ?v = White then b\<lparr>bbWhite := bbWhite b OR coordToBitboard i\<rparr>
          else b\<lparr>bbBlack := bbBlack b OR coordToBitboard i\<rparr>)
        \<lparr>bbPieces := (bbPieces b)[nat ?v := bbPieces b ! nat ?v OR coordToBitboard i]\<rparr>"
      using False by (simp add: update_bb_step_def cell Let_def)
    have bits: "bit (w OR coordToBitboard i) (nat c) \<longleftrightarrow> bit w (nat c) \<or> c = i"
      if "isCoord c" for w c
      using bit_coord_bb [OF assms(2) that] by (auto simp: bit_or_iff)
    have old: "bit (bbWhite b) (nat c) \<longleftrightarrow>
           c \<in> done \<and> cellAt b0 c \<noteq> EMPTY_CELL \<and> cellPieceColor (cellAt b0 c) = White"
      "bit (bbBlack b) (nat c) \<longleftrightarrow>
           c \<in> done \<and> cellAt b0 c \<noteq> EMPTY_CELL \<and> cellPieceColor (cellAt b0 c) = Black"
      "0 \<le> p \<Longrightarrow> p < 15 \<Longrightarrow> bit (pieceBB b p) (nat c) \<longleftrightarrow>
           c \<in> done \<and> cellAt b0 c = p \<and> p \<noteq> EMPTY_CELL"
      if "isCoord c" for c p
      using assms(1) that unfolding bb_upto_def by blast+
    have colour: "cellPieceColor ?v = Black" if "cellPieceColor ?v \<noteq> White"
      using that by (cases "cellPieceColor ?v") simp_all
    have frame: "?b = b0\<lparr>bbWhite := bbWhite ?b, bbBlack := bbBlack ?b, bbPieces := bbPieces ?b\<rparr>"
      unfolding eq by (subst (1 2) b) simp
    have white: "bit (bbWhite ?b) (nat c) \<longleftrightarrow> c \<in> insert i done \<and> cellAt b0 c \<noteq> EMPTY_CELL \<and>
        cellPieceColor (cellAt b0 c) = White" if "isCoord c" for c
      using bits [OF that] old [OF that] False unfolding eq by auto
    have black: "bit (bbBlack ?b) (nat c) \<longleftrightarrow> c \<in> insert i done \<and> cellAt b0 c \<noteq> EMPTY_CELL \<and>
        cellPieceColor (cellAt b0 c) = Black" if "isCoord c" for c
      using bits [OF that] old [OF that] False colour unfolding eq by auto
    have pieces: "bit (pieceBB ?b p) (nat c) \<longleftrightarrow> c \<in> insert i done \<and> cellAt b0 c = p \<and> p \<noteq> EMPTY_CELL"
      if "isCoord c" "0 \<le> p" "p < 15" for c p
    proof (cases "p = ?v")
      case True
      have "nat ?v < length (bbPieces b)" using v by (simp add: len BB_PIECES_SZ_def)
      then have "pieceBB ?b p = pieceBB b p OR coordToBitboard i"
        unfolding eq True pieceBB_def by simp
      then show ?thesis using bits [OF that(1)] old(3) [OF that] True False by auto
    next
      case p: False
      then have "nat p \<noteq> nat ?v" using v that by simp
      then have "pieceBB ?b p = pieceBB b p" unfolding eq pieceBB_def by simp
      then show ?thesis using old(3) [OF that] p by auto
    qed
    have "length (bbPieces ?b) = BB_PIECES_SZ" unfolding eq using len by simp
    then show ?thesis unfolding bb_upto_def using frame white black pieces by blast
  qed
qed

lemma bb_upto_loop:
  assumes "bb_upto b0 done b" "\<forall>i\<in>set is. isCoord i \<and> isCellValid (cellAt b0 i)"
  shows "bb_upto b0 (done \<union> set is) (foldl update_bb_step b is)"
  using assms
proof (induction "is" arbitrary: b "done")
  case (Cons i "is")
  then have "bb_upto b0 (insert i done) (update_bb_step b i)" by (intro bb_upto_step) simp_all
  then show ?case using Cons.IH [of "insert i done"] Cons.prems by simp
qed simp

lemma update_bitboards_eq:
  assumes "board_shape b"
  shows "bb_ok (update_bitboards b)"
    and "update_bitboards b = b\<lparr>bbWhite := bbWhite (update_bitboards b),
      bbBlack := bbBlack (update_bitboards b), bbAll := bbAll (update_bitboards b),
      bbPieces := bbPieces (update_bitboards b)\<rparr>"
proof -
  let ?b1 = "b\<lparr>bbWhite := 0, bbBlack := 0, bbPieces := replicate BB_PIECES_SZ 0\<rparr>"
  let ?b2 = "foldl update_bb_step ?b1 [0..63]"
  have "bb_upto b {} ?b1" by (simp add: bb_upto_def pieceBB_def BB_PIECES_SZ_def)
  then have inv: "bb_upto b (set [0..63]) ?b2"
    using bb_upto_loop [of b "{}" ?b1 "[0..63]"] assms by (auto simp: board_shape_def isCoord_def)
  have u: "update_bitboards b = ?b2\<lparr>bbAll := bbWhite ?b2 OR bbBlack ?b2\<rparr>"
    by (simp add: update_bitboards_def Let_def)
  have b2: "?b2 = b\<lparr>bbWhite := bbWhite ?b2, bbBlack := bbBlack ?b2, bbPieces := bbPieces ?b2\<rparr>"
    using inv unfolding bb_upto_def by (rule conjunct1)
  have cell: "cellAt ?b2 c = cellAt b c" for c by (subst b2) simp
  have all: "isCoord c \<longleftrightarrow> c \<in> set [0..63]" for c by (auto simp: isCoord_def)
  show "bb_ok (update_bitboards b)"
    unfolding u using inv unfolding bb_ok_def bb_upto_def
    by (simp add: cell pieceBB_def all [symmetric] del: set_upto)
  show "update_bitboards b = b\<lparr>bbWhite := bbWhite (update_bitboards b),
      bbBlack := bbBlack (update_bitboards b), bbAll := bbAll (update_bitboards b),
      bbPieces := bbPieces (update_bitboards b)\<rparr>"
    unfolding u by (subst (1) b2) simp
qed

lemma bb_ok_unique:
  assumes "bb_ok a" "bb_ok b" "cells a = cells b"
  shows "bbWhite a = bbWhite b \<and> bbBlack a = bbBlack b \<and> bbAll a = bbAll b \<and> bbPieces a = bbPieces b"
proof -
  have cell: "cellAt a c = cellAt b c" for c using assms(3) by (simp add: cellAt_def)
  have W: "bbWhite a = bbWhite b"
    using assms(1,2) cell by (intro bitboard_eqI) (simp add: bb_ok_def)
  have B: "bbBlack a = bbBlack b"
    using assms(1,2) cell by (intro bitboard_eqI) (simp add: bb_ok_def)
  have "pieceBB a p = pieceBB b p" if "0 \<le> p" "p < 15" for p
    using assms(1,2) cell that by (intro bitboard_eqI) (simp add: bb_ok_def)
  then have "bbPieces a ! k = bbPieces b ! k" if "k < 15" for k
    using that by (metis pieceBB_def nat_int of_nat_0_le_iff of_nat_less_iff of_nat_numeral)
  then have "bbPieces a = bbPieces b"
    using assms(1,2) by (intro nth_equalityI) (simp_all add: bb_ok_def BB_PIECES_SZ_def)
  then show ?thesis using W B assms(1,2) by (simp add: bb_ok_def)
qed

subsection \<open>The hash loop\<close>

lemma update_hash_eq: "update_hash z b = b\<lparr>hash := fullHash z b\<rparr>"
proof -
  let ?g = "\<lambda>i. if cells b ! nat i = EMPTY_CELL then 0 else zPiece z (cells b ! nat i) i"
  have "(\<lambda>h i. let cell = cellAt b i in if cell = EMPTY_CELL then h else h XOR zPiece z cell i) =
      (\<lambda>h i. h XOR ?g i)"
    by (auto simp: fun_eq_iff cellAt_def)
  then show ?thesis
    unfolding update_hash_def Let_def fullHash_def cellHash_def
    by (simp only: foldl_xor) (simp add: xor.assoc)
qed

subsection \<open>Update as a whole\<close>

lemma update_eq: "update z b = update_hash z (update_bitboards (update_castling (update_enpassant b)))"
  by (simp add: update_def update_castling_def)

lemma update_bitboards_simps:
  assumes "board_shape b"
  shows "cells (update_bitboards b) = cells b" "side (update_bitboards b) = side b"
    "castling (update_bitboards b) = castling b"
    "enpassantCoord (update_bitboards b) = enpassantCoord b"
    "moveCounter (update_bitboards b) = moveCounter b"
    "moveNumber (update_bitboards b) = moveNumber b"
  by (subst update_bitboards_eq(2) [OF assms], simp)+

lemma update_consistent:
  assumes "board_shape b"
  shows "consistent z (update z b)"
proof -
  let ?a = "update_castling (update_enpassant b)"
  let ?c = "update_bitboards ?a"
  let ?d = "?c\<lparr>hash := fullHash z ?c\<rparr>"
  have sa: "board_shape ?a" using assms by (intro update_castling_shape update_enpassant_shape)
  have ca: "castling_ok ?a" by (rule update_castling_ok)
  have ea: "ep_ok ?a" using update_enpassant_ok [of b] by (simp add: ep_ok_def)
  note f = update_bitboards_simps [OF sa]
  have "board_shape ?d \<and> ep_ok ?d \<and> castling_ok ?d"
    using sa ca ea essential_cong [of ?d ?a] f by simp
  moreover have "bb_ok ?d"
    using update_bitboards_eq(1) [OF sa] by (simp add: bb_ok_def pieceBB_def)
  moreover have "hash ?d = fullHash z ?d"
    using essential_cong(4) [of ?d ?c z] by simp
  moreover have "update z b = ?d" by (simp add: update_eq update_hash_eq)
  ultimately show ?thesis by (simp only: consistent_def)
qed

lemma update_id:
  assumes "consistent z b"
  shows "update z b = b"
proof -
  have b: "board_shape b" "ep_ok b" "castling_ok b" "bb_ok b" "hash b = fullHash z b"
    using assms by (simp_all add: consistent_def)
  have 1: "update_castling (update_enpassant b) = b"
    using update_castling_id [OF b(1,3)] update_enpassant_id [OF b(2)] by simp
  note u = update_bitboards_eq [OF b(1)]
  have "cells (update_bitboards b) = cells b" by (subst u(2)) simp
  from bb_ok_unique [OF u(1) b(4) this] have 2: "update_bitboards b = b"
    by (subst u(2)) simp
  show ?thesis unfolding update_eq 1 2 update_hash_eq using b(5) by simp
qed

lemma update_essential:
  assumes "board_shape b"
  shows "cells (update z b) = cells b" "side (update z b) = side b"
    "moveCounter (update z b) = moveCounter b" "moveNumber (update z b) = moveNumber b"
    "enpassantCoord (update z b) = (if ep_ok b then enpassantCoord b else INVALID_COORD)"
    "isKingsideCastling (update z b) c \<longleftrightarrow> isKingsideCastling b c \<and>
       cellAt b (castlingOffset c + 4) = makeCell c King \<and> cellAt b (castlingOffset c + 7) = makeCell c Rook"
    "isQueensideCastling (update z b) c \<longleftrightarrow> isQueensideCastling b c \<and>
       cellAt b (castlingOffset c + 4) = makeCell c King \<and> cellAt b (castlingOffset c) = makeCell c Rook"
proof -
  let ?e = "update_enpassant b"
  let ?a = "update_castling ?e"
  have sa: "board_shape ?a" using assms by (intro update_castling_shape update_enpassant_shape)
  have u: "update z b = (update_bitboards ?a)\<lparr>hash := fullHash z (update_bitboards ?a)\<rparr>"
    by (simp add: update_eq update_hash_eq)
  note f = update_bitboards_simps [OF sa]
  show "cells (update z b) = cells b" "side (update z b) = side b"
    "moveCounter (update z b) = moveCounter b" "moveNumber (update z b) = moveNumber b"
    by (simp_all add: u f)
  have "enpassantCoord (update z b) = enpassantCoord ?e" by (simp add: u f)
  then show "enpassantCoord (update z b) = (if ep_ok b then enpassantCoord b else INVALID_COORD)"
    by (auto simp: update_enpassant_def ep_ok_def Let_def)
  show "isKingsideCastling (update z b) c \<longleftrightarrow> isKingsideCastling b c \<and>
       cellAt b (castlingOffset c + 4) = makeCell c King \<and> cellAt b (castlingOffset c + 7) = makeCell c Rook"
    "isQueensideCastling (update z b) c \<longleftrightarrow> isQueensideCastling b c \<and>
       cellAt b (castlingOffset c + 4) = makeCell c King \<and> cellAt b (castlingOffset c) = makeCell c Rook"
    by (simp_all add: u f update_castling_bits(1,2) cellAt_def)
qed

end
