(* ===== verification/Move.thy ===== *)
theory Move
  imports Board
begin

text \<open>
  Moves and their effect on the board (\<^verbatim>\<open>src/core/move.h\<close>, \<^verbatim>\<open>src/core/move.cpp\<close>). The template
  parameters of the source (\<^verbatim>\<open>Color C\<close>, \<^verbatim>\<open>bool Inverse\<close>) are ordinary arguments. The moving side is
  an argument as in the source, and every update of bitboards and hash is the incremental one the code does.
\<close>

section \<open>Moves\<close>

datatype MoveKind =
    Null | Simple | PawnDoubleMove | Enpassant | CastlingKingside | CastlingQueenside
  | PromoteKnight | PromoteBishop | PromoteRook | PromoteQueen | Invalid

fun kindVal :: "MoveKind \<Rightarrow> int" where
  "kindVal Null = 0"
| "kindVal Simple = 1"
| "kindVal PawnDoubleMove = 2"
| "kindVal Enpassant = 3"
| "kindVal CastlingKingside = 4"
| "kindVal CastlingQueenside = 5"
| "kindVal PromoteKnight = 6"
| "kindVal PromoteBishop = 7"
| "kindVal PromoteRook = 8"
| "kindVal PromoteQueen = 9"
| "kindVal Invalid = 10"

definition isMoveKindPromote :: "MoveKind \<Rightarrow> bool" where
  "isMoveKindPromote kind \<longleftrightarrow> kind = PromoteKnight \<or> kind = PromoteBishop \<or>
     kind = PromoteRook \<or> kind = PromoteQueen"

definition moveKindPromotePiece :: "MoveKind \<Rightarrow> piece" where
  "moveKindPromotePiece kind = pieceOfVal (kindVal kind - kindVal PromoteKnight + pieceVal Knight)"

record move =
  kind :: MoveKind
  src :: coord
  dst :: coord
  tag :: u8

definition mkMove :: "MoveKind \<Rightarrow> coord \<Rightarrow> coord \<Rightarrow> u8 \<Rightarrow> move" where
  "mkMove k s d t = \<lparr>kind = k, src = s, dst = d, tag = t\<rparr>"

definition move_null :: move where "move_null = mkMove Null 0 0 0"
definition move_invalid :: move where "move_invalid = mkMove Invalid 0 0 0"

definition asUint :: "move \<Rightarrow> u32" where
  "asUint m =
     (let uintKind = (word_of_int (kindVal (kind m)) :: u8);
          uintSrc = (word_of_int (src m) :: u8);
          uintDst = (word_of_int (dst m) :: u8)
      in ucast uintKind OR push_bit 8 (ucast uintSrc) OR push_bit 16 (ucast uintDst)
         OR push_bit 24 (ucast (tag m)))"

definition move_eq :: "move \<Rightarrow> move \<Rightarrow> bool" where
  "move_eq a b \<longleftrightarrow> asUint a = asUint b"

definition enpassantPawnPos :: "color \<Rightarrow> coord \<Rightarrow> coord" where
  "enpassantPawnPos color d = (if color = White then d + 8 else d - 8)"

definition isWellFormed :: "move \<Rightarrow> color \<Rightarrow> bool" where
  "isWellFormed m c =
     (if src m < 0 \<or> src m \<ge> 64 \<or> dst m < 0 \<or> dst m \<ge> 64 then False
      else if kind m \<noteq> Null \<and> src m = dst m then False
      else let srcY = coordY (src m); dstY = coordY (dst m); x = castlingRow c in
        (case kind m of
           Simple \<Rightarrow> True
         | PawnDoubleMove \<Rightarrow>
             \<not> (coordX (src m) \<noteq> doubleMoveSrcRow c \<or> coordX (dst m) \<noteq> doubleMoveDstRow c \<or> srcY \<noteq> dstY)
         | PromoteKnight \<Rightarrow> \<not> (coordX (src m) \<noteq> promoteSrcRow c \<or> coordX (dst m) \<noteq> promoteDstRow c) \<and>
             \<not> (srcY + 1 \<noteq> dstY \<and> srcY \<noteq> dstY \<and> srcY - 1 \<noteq> dstY)
         | PromoteBishop \<Rightarrow> \<not> (coordX (src m) \<noteq> promoteSrcRow c \<or> coordX (dst m) \<noteq> promoteDstRow c) \<and>
             \<not> (srcY + 1 \<noteq> dstY \<and> srcY \<noteq> dstY \<and> srcY - 1 \<noteq> dstY)
         | PromoteRook \<Rightarrow> \<not> (coordX (src m) \<noteq> promoteSrcRow c \<or> coordX (dst m) \<noteq> promoteDstRow c) \<and>
             \<not> (srcY + 1 \<noteq> dstY \<and> srcY \<noteq> dstY \<and> srcY - 1 \<noteq> dstY)
         | PromoteQueen \<Rightarrow> \<not> (coordX (src m) \<noteq> promoteSrcRow c \<or> coordX (dst m) \<noteq> promoteDstRow c) \<and>
             \<not> (srcY + 1 \<noteq> dstY \<and> srcY \<noteq> dstY \<and> srcY - 1 \<noteq> dstY)
         | CastlingKingside \<Rightarrow> \<not> (src m \<noteq> makeCoord x 4 \<or> dst m \<noteq> makeCoord x 6)
         | CastlingQueenside \<Rightarrow> \<not> (src m \<noteq> makeCoord x 4 \<or> dst m \<noteq> makeCoord x 2)
         | Null \<Rightarrow> \<not> (src m \<noteq> 0 \<or> dst m \<noteq> 0)
         | Enpassant \<Rightarrow>
             \<not> (coordX (src m) \<noteq> enpassantSrcRow c \<or> coordX (dst m) \<noteq> enpassantDstRow c) \<and>
             \<not> (srcY + 1 \<noteq> dstY \<and> srcY - 1 \<noteq> dstY)
         | Invalid \<Rightarrow> False))"

record MovePersistence =
  p_hash :: u64
  p_castling :: castling
  p_enpassantCoord :: coord
  p_moveCounter :: u16
  p_dstCell :: cell
  padding1 :: u8
  padding2 :: u16

section \<open>Updates of single fields\<close>

text \<open>The compound assignments of the source, one each.\<close>

definition xorHash :: "board \<Rightarrow> u64 \<Rightarrow> board" where
  "xorHash b w = b\<lparr>hash := hash b XOR w\<rparr>"

definition setBBColor :: "board \<Rightarrow> color \<Rightarrow> bitboard \<Rightarrow> board" where
  "setBBColor b c w = (if c = White then b\<lparr>bbWhite := w\<rparr> else b\<lparr>bbBlack := w\<rparr>)"

definition setBBPiece :: "board \<Rightarrow> cell \<Rightarrow> bitboard \<Rightarrow> board" where
  "setBBPiece b cell w = b\<lparr>bbPieces := (bbPieces b)[nat cell := w]\<rparr>"

definition xorColor :: "board \<Rightarrow> color \<Rightarrow> bitboard \<Rightarrow> board" where
  "xorColor b c w = setBBColor b c (bbColor b c XOR w)"

definition xorPiece :: "board \<Rightarrow> cell \<Rightarrow> bitboard \<Rightarrow> board" where
  "xorPiece b cell w = setBBPiece b cell (pieceBB b cell XOR w)"

definition clearColor :: "board \<Rightarrow> color \<Rightarrow> bitboard \<Rightarrow> board" where
  "clearColor b c w = setBBColor b c (bbColor b c AND NOT w)"

definition clearPiece :: "board \<Rightarrow> cell \<Rightarrow> bitboard \<Rightarrow> board" where
  "clearPiece b cell w = setBBPiece b cell (pieceBB b cell AND NOT w)"

definition orColor :: "board \<Rightarrow> color \<Rightarrow> bitboard \<Rightarrow> board" where
  "orColor b c w = setBBColor b c (bbColor b c OR w)"

definition orPiece :: "board \<Rightarrow> cell \<Rightarrow> bitboard \<Rightarrow> board" where
  "orPiece b cell w = setBBPiece b cell (pieceBB b cell OR w)"

section \<open>Making and unmaking moves\<close>

definition updateCastling :: "zobrist \<Rightarrow> board \<Rightarrow> bitboard \<Rightarrow> board" where
  "updateCastling z b bbChange =
     (if bbChange AND BB_CASTLING_ALL_SRCS = 0 then b
      else let flag = (\<lambda>srcs t. if bbChange AND srcs \<noteq> 0 then t else Castling_None);
               m0 = Castling_All;
               m1 = m0 XOR flag BB_CASTLING_BLACK_KINGSIDE_SRCS Castling_BlackKingside;
               m2 = m1 XOR flag BB_CASTLING_BLACK_QUEENSIDE_SRCS Castling_BlackQueenside;
               m3 = m2 XOR flag BB_CASTLING_WHITE_KINGSIDE_SRCS Castling_WhiteKingside;
               castlingMask = m3 XOR flag BB_CASTLING_WHITE_QUEENSIDE_SRCS Castling_WhiteQueenside;
               newCastling = castling b AND castlingMask
           in if newCastling \<noteq> castling b then
                let b1 = xorHash b (zCastling z (castling b));
                    b2 = b1\<lparr>castling := newCastling\<rparr>
                in xorHash b2 (zCastling z (castling b2))
              else b)"

definition makeKingsideCastling :: "color \<Rightarrow> bool \<Rightarrow> zobrist \<Rightarrow> board \<Rightarrow> board" where
  "makeKingsideCastling C Inverse z b =
     (let offset = castlingOffset C; king = makeCell C King; rook = makeCell C Rook;
          b1 = (if Inverse then
                  setCell (setCell (setCell (setCell b (offset + 4) king) (offset + 5) EMPTY_CELL)
                    (offset + 6) EMPTY_CELL) (offset + 7) rook
                else
                  xorHash (setCell (setCell (setCell (setCell b (offset + 4) EMPTY_CELL) (offset + 5) rook)
                    (offset + 6) king) (offset + 7) EMPTY_CELL) (zCastlingKingside z C));
          b2 = xorColor b1 C (push_bit (nat offset) 0xf0);
          b3 = xorPiece b2 rook (push_bit (nat offset) 0xa0);
          b4 = xorPiece b3 king (push_bit (nat offset) 0x50)
      in if Inverse then b4
         else let b5 = xorHash b4 (zCastling z (castling b4));
                  b6 = clearColorCastling b5 C
              in xorHash b6 (zCastling z (castling b6)))"

definition makeQueensideCastling :: "color \<Rightarrow> bool \<Rightarrow> zobrist \<Rightarrow> board \<Rightarrow> board" where
  "makeQueensideCastling C Inverse z b =
     (let offset = castlingOffset C; king = makeCell C King; rook = makeCell C Rook;
          b1 = (if Inverse then
                  setCell (setCell (setCell (setCell b (offset + 0) rook) (offset + 2) EMPTY_CELL)
                    (offset + 3) EMPTY_CELL) (offset + 4) king
                else
                  xorHash (setCell (setCell (setCell (setCell b (offset + 0) EMPTY_CELL) (offset + 2) king)
                    (offset + 3) rook) (offset + 4) EMPTY_CELL) (zCastlingQueenside z C));
          b2 = xorColor b1 C (push_bit (nat offset) 0x1d);
          b3 = xorPiece b2 rook (push_bit (nat offset) 0x09);
          b4 = xorPiece b3 king (push_bit (nat offset) 0x14)
      in if Inverse then b4
         else let b5 = xorHash b4 (zCastling z (castling b4));
                  b6 = clearColorCastling b5 C
              in xorHash b6 (zCastling z (castling b6)))"

definition makeEnpassant :: "color \<Rightarrow> bool \<Rightarrow> zobrist \<Rightarrow> board \<Rightarrow> move \<Rightarrow> bitboard \<Rightarrow> board" where
  "makeEnpassant C Inverse z b m bbChange =
     (let taken = enpassantPawnPos C (dst m); bbTaken = coordToBitboard taken;
          ourPawn = makeCell C Pawn; enemyPawn = makeCell (invert C) Pawn;
          b1 = (if Inverse then
                  setCell (setCell (setCell b (src m) ourPawn) (dst m) EMPTY_CELL) taken enemyPawn
                else
                  xorHash (setCell (setCell (setCell b (src m) EMPTY_CELL) (dst m) ourPawn) taken EMPTY_CELL)
                    (zPiece z ourPawn (src m) XOR zPiece z ourPawn (dst m) XOR zPiece z enemyPawn taken));
          b2 = xorColor b1 C bbChange;
          b3 = xorPiece b2 ourPawn bbChange;
          b4 = xorColor b3 (invert C) bbTaken
      in xorPiece b4 enemyPawn bbTaken)"

definition makePawnDoubleMove :: "color \<Rightarrow> bool \<Rightarrow> zobrist \<Rightarrow> board \<Rightarrow> move \<Rightarrow> bitboard \<Rightarrow> board" where
  "makePawnDoubleMove C Inverse z b m bbChange =
     (let pawn = makeCell C Pawn;
          b1 = (if Inverse then setCell (setCell b (src m) pawn) (dst m) EMPTY_CELL
                else xorHash (setCell (setCell b (src m) EMPTY_CELL) (dst m) pawn)
                       (zPiece z pawn (src m) XOR zPiece z pawn (dst m)));
          b2 = xorColor b1 C bbChange;
          b3 = xorPiece b2 pawn bbChange
      in if Inverse then b3
         else xorHash (b3\<lparr>enpassantCoord := dst m\<rparr>) (zEnpassant z (dst m)))"

definition makeSimple :: "color \<Rightarrow> zobrist \<Rightarrow> board \<Rightarrow> move \<Rightarrow> cell \<Rightarrow> cell \<Rightarrow> board" where
  "makeSimple C z b m srcCell dstCell =
     (let bbDst = coordToBitboard (dst m); bbChange = coordToBitboard (src m) OR bbDst;
          b1 = setCell (setCell b (src m) EMPTY_CELL) (dst m) srcCell;
          b2 = xorHash b1 (zPiece z srcCell (src m) XOR zPiece z srcCell (dst m) XOR zPiece z dstCell (dst m));
          b3 = xorColor b2 C bbChange;
          b4 = xorPiece b3 srcCell bbChange;
          b5 = clearColor b4 (invert C) bbDst;
          b6 = clearPiece b5 dstCell bbDst
      in updateCastling z b6 bbChange)"

definition makePromote :: "color \<Rightarrow> zobrist \<Rightarrow> board \<Rightarrow> move \<Rightarrow> cell \<Rightarrow> cell \<Rightarrow> board" where
  "makePromote C z b m srcCell dstCell =
     (let bbSrc = coordToBitboard (src m); bbDst = coordToBitboard (dst m); bbChange = bbSrc OR bbDst;
          promote = makeCell C (moveKindPromotePiece (kind m));
          b1 = setCell (setCell b (src m) EMPTY_CELL) (dst m) promote;
          b2 = xorHash b1 (zPiece z srcCell (src m) XOR zPiece z promote (dst m) XOR zPiece z dstCell (dst m));
          b3 = xorColor b2 C bbChange;
          b4 = xorPiece b3 (makeCell C Pawn) bbSrc;
          b5 = xorPiece b4 promote bbDst;
          b6 = clearColor b5 (invert C) bbDst;
          b7 = clearPiece b6 dstCell bbDst
      in updateCastling z b7 bbChange)"

text \<open>\<^verbatim>\<open>MoveKind::Invalid\<close> is \<^verbatim>\<open>SOF_UNREACHABLE\<close>; no theorem applies to it.\<close>

definition moveMakeImpl :: "color \<Rightarrow> zobrist \<Rightarrow> board \<Rightarrow> move \<Rightarrow> board \<times> MovePersistence" where
  "moveMakeImpl C z b m =
     (let srcCell = cellAt b (src m); dstCell = cellAt b (dst m);
          p = \<lparr>p_hash = hash b, p_castling = castling b, p_enpassantCoord = enpassantCoord b,
               p_moveCounter = moveCounter b, p_dstCell = dstCell, padding1 = 0, padding2 = 0\<rparr>;
          bbChange = coordToBitboard (src m) OR coordToBitboard (dst m);
          b1 = (if enpassantCoord b \<noteq> INVALID_COORD
                then (xorHash b (zEnpassant z (enpassantCoord b)))\<lparr>enpassantCoord := INVALID_COORD\<rparr> else b);
          b2 = (case kind m of
                  Simple \<Rightarrow> makeSimple C z b1 m srcCell dstCell
                | PawnDoubleMove \<Rightarrow> makePawnDoubleMove C False z b1 m bbChange
                | PromoteKnight \<Rightarrow> makePromote C z b1 m srcCell dstCell
                | PromoteBishop \<Rightarrow> makePromote C z b1 m srcCell dstCell
                | PromoteRook \<Rightarrow> makePromote C z b1 m srcCell dstCell
                | PromoteQueen \<Rightarrow> makePromote C z b1 m srcCell dstCell
                | CastlingKingside \<Rightarrow> makeKingsideCastling C False z b1
                | CastlingQueenside \<Rightarrow> makeQueensideCastling C False z b1
                | Null \<Rightarrow> b1
                | Enpassant \<Rightarrow> makeEnpassant C False z b1 m bbChange
                | Invalid \<Rightarrow> b1);
          resetMoveCounter = (dstCell \<noteq> EMPTY_CELL \<or> srcCell = makeCell C Pawn);
          b3 = (if resetMoveCounter then b2\<lparr>moveCounter := 0\<rparr> else b2\<lparr>moveCounter := moveCounter b2 + 1\<rparr>);
          b4 = xorHash (b3\<lparr>side := invert C\<rparr>) (zobristMoveSide z);
          b5 = (if C = Black then b4\<lparr>moveNumber := moveNumber b4 + 1\<rparr> else b4)
      in (b5\<lparr>bbAll := bbWhite b5 OR bbBlack b5\<rparr>, p))"

definition moveMake :: "zobrist \<Rightarrow> board \<Rightarrow> move \<Rightarrow> board \<times> MovePersistence" where
  "moveMake z b m = (if side b = White then moveMakeImpl White z b m else moveMakeImpl Black z b m)"

definition unmakeSimple :: "color \<Rightarrow> board \<Rightarrow> move \<Rightarrow> cell \<Rightarrow> cell \<Rightarrow> board" where
  "unmakeSimple C b m srcCell dstCell =
     (let bbDst = coordToBitboard (dst m); bbChange = coordToBitboard (src m) OR bbDst;
          b1 = setCell (setCell b (src m) srcCell) (dst m) dstCell;
          b2 = xorColor b1 C bbChange;
          b3 = xorPiece b2 srcCell bbChange
      in if dstCell \<noteq> EMPTY_CELL then orPiece (orColor b3 (invert C) bbDst) dstCell bbDst else b3)"

definition unmakePromote :: "color \<Rightarrow> board \<Rightarrow> move \<Rightarrow> cell \<Rightarrow> board" where
  "unmakePromote C b m dstCell =
     (let bbSrc = coordToBitboard (src m); bbDst = coordToBitboard (dst m); bbChange = bbSrc OR bbDst;
          promote = makeCell C (moveKindPromotePiece (kind m));
          b1 = setCell (setCell b (src m) (makeCell C Pawn)) (dst m) dstCell;
          b2 = xorColor b1 C bbChange;
          b3 = xorPiece b2 (makeCell C Pawn) bbSrc;
          b4 = xorPiece b3 promote bbDst
      in if dstCell \<noteq> EMPTY_CELL then orPiece (orColor b4 (invert C) bbDst) dstCell bbDst else b4)"

definition moveUnmakeImpl :: "color \<Rightarrow> zobrist \<Rightarrow> board \<Rightarrow> move \<Rightarrow> MovePersistence \<Rightarrow> board" where
  "moveUnmakeImpl C z b m p =
     (let bbChange = coordToBitboard (src m) OR coordToBitboard (dst m);
          srcCell = cellAt b (dst m); dstCell = p_dstCell p;
          b1 = (case kind m of
                  Simple \<Rightarrow> unmakeSimple C b m srcCell dstCell
                | PawnDoubleMove \<Rightarrow> makePawnDoubleMove C True z b m bbChange
                | PromoteKnight \<Rightarrow> unmakePromote C b m dstCell
                | PromoteBishop \<Rightarrow> unmakePromote C b m dstCell
                | PromoteRook \<Rightarrow> unmakePromote C b m dstCell
                | PromoteQueen \<Rightarrow> unmakePromote C b m dstCell
                | CastlingKingside \<Rightarrow> makeKingsideCastling C True z b
                | CastlingQueenside \<Rightarrow> makeQueensideCastling C True z b
                | Null \<Rightarrow> b
                | Enpassant \<Rightarrow> makeEnpassant C True z b m bbChange
                | Invalid \<Rightarrow> b);
          b2 = b1\<lparr>hash := p_hash p, castling := p_castling p, enpassantCoord := p_enpassantCoord p,
                moveCounter := p_moveCounter p, side := C\<rparr>;
          b3 = (if C = Black then b2\<lparr>moveNumber := moveNumber b2 - 1\<rparr> else b2)
      in b3\<lparr>bbAll := bbWhite b3 OR bbBlack b3\<rparr>)"

definition moveUnmake :: "zobrist \<Rightarrow> board \<Rightarrow> move \<Rightarrow> MovePersistence \<Rightarrow> board" where
  "moveUnmake z b m p =
     (if side b = Black then moveUnmakeImpl White z b m p else moveUnmakeImpl Black z b m p)"

end
