(* ===== verification/Move_Lemmas.thy ===== *)
theory Move_Lemmas
  imports Move
begin

text \<open>
  How the single assignments of \<^verbatim>\<open>move.cpp\<close> act on the views of a board, and the defect of its
  hash: the exclusive or of the stored hash and the hash of the position. The moves are proved
  correct by following the defect through their assignments.
\<close>

section \<open>Views of an updated board\<close>

lemmas op_defs = xorHash_def setBBColor_def setBBPiece_def xorColor_def xorPiece_def clearColor_def
  clearPiece_def orColor_def orPiece_def setCell_def

lemma cells_ops [simp]:
  "cells (setCell b i v) = (cells b)[nat i := v]" "cells (xorHash b w) = cells b"
  "cells (xorColor b C w) = cells b" "cells (xorPiece b p w) = cells b"
  "cells (clearColor b C w) = cells b" "cells (clearPiece b p w) = cells b"
  "cells (orColor b C w) = cells b" "cells (orPiece b p w) = cells b"
  by (simp_all add: op_defs)

lemma castling_ops [simp]:
  "castling (setCell b i v) = castling b" "castling (xorHash b w) = castling b"
  "castling (xorColor b C w) = castling b" "castling (xorPiece b p w) = castling b"
  "castling (clearColor b C w) = castling b" "castling (clearPiece b p w) = castling b"
  "castling (orColor b C w) = castling b" "castling (orPiece b p w) = castling b"
  by (simp_all add: op_defs)

lemma enpassant_ops [simp]:
  "enpassantCoord (setCell b i v) = enpassantCoord b" "enpassantCoord (xorHash b w) = enpassantCoord b"
  "enpassantCoord (xorColor b C w) = enpassantCoord b" "enpassantCoord (xorPiece b p w) = enpassantCoord b"
  "enpassantCoord (clearColor b C w) = enpassantCoord b" "enpassantCoord (clearPiece b p w) = enpassantCoord b"
  "enpassantCoord (orColor b C w) = enpassantCoord b" "enpassantCoord (orPiece b p w) = enpassantCoord b"
  by (simp_all add: op_defs)

lemma side_ops [simp]:
  "side (setCell b i v) = side b" "side (xorHash b w) = side b"
  "side (xorColor b C w) = side b" "side (xorPiece b p w) = side b"
  "side (clearColor b C w) = side b" "side (clearPiece b p w) = side b"
  "side (orColor b C w) = side b" "side (orPiece b p w) = side b"
  by (simp_all add: op_defs)

lemma counter_ops [simp]:
  "moveCounter (setCell b i v) = moveCounter b" "moveCounter (xorHash b w) = moveCounter b"
  "moveCounter (xorColor b C w) = moveCounter b" "moveCounter (xorPiece b p w) = moveCounter b"
  "moveCounter (clearColor b C w) = moveCounter b" "moveCounter (clearPiece b p w) = moveCounter b"
  "moveCounter (orColor b C w) = moveCounter b" "moveCounter (orPiece b p w) = moveCounter b"
  "moveNumber (setCell b i v) = moveNumber b" "moveNumber (xorHash b w) = moveNumber b"
  "moveNumber (xorColor b C w) = moveNumber b" "moveNumber (xorPiece b p w) = moveNumber b"
  "moveNumber (clearColor b C w) = moveNumber b" "moveNumber (clearPiece b p w) = moveNumber b"
  "moveNumber (orColor b C w) = moveNumber b" "moveNumber (orPiece b p w) = moveNumber b"
  "unused (setCell b i v) = unused b" "unused (xorHash b w) = unused b"
  "unused (xorColor b C w) = unused b" "unused (xorPiece b p w) = unused b"
  "unused (clearColor b C w) = unused b" "unused (clearPiece b p w) = unused b"
  "unused (orColor b C w) = unused b" "unused (orPiece b p w) = unused b"
  by (simp_all add: op_defs)

lemma bbColor_ops [simp]:
  "bbColor (setCell b i v) D = bbColor b D" "bbColor (xorHash b w) D = bbColor b D"
  "bbColor (xorPiece b p w) D = bbColor b D" "bbColor (clearPiece b p w) D = bbColor b D"
  "bbColor (orPiece b p w) D = bbColor b D"
  "bbColor (xorColor b C w) D = (if D = C then bbColor b C XOR w else bbColor b D)"
  "bbColor (clearColor b C w) D = (if D = C then bbColor b C AND NOT w else bbColor b D)"
  "bbColor (orColor b C w) D = (if D = C then bbColor b C OR w else bbColor b D)"
  by (cases C; cases D; simp add: op_defs bbColor_def)+

lemma bbPieces_length_ops [simp]:
  "length (bbPieces (setCell b i v)) = length (bbPieces b)"
  "length (bbPieces (xorHash b w)) = length (bbPieces b)"
  "length (bbPieces (xorColor b C w)) = length (bbPieces b)"
  "length (bbPieces (xorPiece b p w)) = length (bbPieces b)"
  "length (bbPieces (clearColor b C w)) = length (bbPieces b)"
  "length (bbPieces (clearPiece b p w)) = length (bbPieces b)"
  "length (bbPieces (orColor b C w)) = length (bbPieces b)"
  "length (bbPieces (orPiece b p w)) = length (bbPieces b)"
  by (simp_all add: op_defs)

lemma pieceBB_ops [simp]:
  "pieceBB (setCell b i v) p = pieceBB b p" "pieceBB (xorHash b w) p = pieceBB b p"
  "pieceBB (xorColor b C w) p = pieceBB b p" "pieceBB (clearColor b C w) p = pieceBB b p"
  "pieceBB (orColor b C w) p = pieceBB b p"
  by (simp_all add: op_defs pieceBB_def)

lemma pieceBB_upd:
  assumes "length (bbPieces b) = BB_PIECES_SZ" "0 \<le> p" "p < 15" "0 \<le> q" "q < 15"
  shows "pieceBB (xorPiece b q w) p = (if p = q then pieceBB b q XOR w else pieceBB b p)"
    "pieceBB (clearPiece b q w) p = (if p = q then pieceBB b q AND NOT w else pieceBB b p)"
    "pieceBB (orPiece b q w) p = (if p = q then pieceBB b q OR w else pieceBB b p)"
  using assms by (auto simp: op_defs pieceBB_def BB_PIECES_SZ_def nth_list_update eq_nat_nat_iff)

lemma views_update [simp]:
  "bbColor (b\<lparr>castling := f\<rparr>) D = bbColor b D" "bbColor (b\<lparr>enpassantCoord := e\<rparr>) D = bbColor b D"
  "bbColor (b\<lparr>hash := h\<rparr>) D = bbColor b D" "bbColor (b\<lparr>side := s\<rparr>) D = bbColor b D"
  "bbColor (b\<lparr>moveCounter := n\<rparr>) D = bbColor b D" "bbColor (b\<lparr>moveNumber := n\<rparr>) D = bbColor b D"
  "bbColor (b\<lparr>bbAll := w\<rparr>) D = bbColor b D"
  "pieceBB (b\<lparr>castling := f\<rparr>) p = pieceBB b p" "pieceBB (b\<lparr>enpassantCoord := e\<rparr>) p = pieceBB b p"
  "pieceBB (b\<lparr>hash := h\<rparr>) p = pieceBB b p" "pieceBB (b\<lparr>side := s\<rparr>) p = pieceBB b p"
  "pieceBB (b\<lparr>moveCounter := n\<rparr>) p = pieceBB b p" "pieceBB (b\<lparr>moveNumber := n\<rparr>) p = pieceBB b p"
  "pieceBB (b\<lparr>bbAll := w\<rparr>) p = pieceBB b p"
  by (simp_all add: bbColor_def pieceBB_def)

lemma cellAt_ops [simp]:
  "cellAt (xorHash b w) c = cellAt b c"
  "cellAt (xorColor b C w) c = cellAt b c" "cellAt (xorPiece b p w) c = cellAt b c"
  "cellAt (clearColor b C w) c = cellAt b c" "cellAt (clearPiece b p w) c = cellAt b c"
  "cellAt (orColor b C w) c = cellAt b c" "cellAt (orPiece b p w) c = cellAt b c"
  by (simp_all add: cellAt_def)

lemma cellAt_setCell:
  assumes "length (cells b) = 64" "isCoord i" "isCoord c"
  shows "cellAt (setCell b i v) c = (if c = i then v else cellAt b c)"
  using assms by (auto simp: cellAt_def isCoord_def nth_list_update eq_nat_nat_iff)

section \<open>Agreement of bitboards and cells\<close>

definition bbs_ok :: "board \<Rightarrow> bool" where
  "bbs_ok b \<longleftrightarrow> length (bbPieces b) = BB_PIECES_SZ \<and> (\<forall>c. isCoord c \<longrightarrow>
     (\<forall>C. bit (bbColor b C) (nat c) \<longleftrightarrow> cellAt b c \<noteq> EMPTY_CELL \<and> cellPieceColor (cellAt b c) = C) \<and>
     (\<forall>p. 0 \<le> p \<longrightarrow> p < 15 \<longrightarrow> (bit (pieceBB b p) (nat c) \<longleftrightarrow> cellAt b c = p \<and> p \<noteq> EMPTY_CELL)))"

lemma bb_ok_iff: "bb_ok b \<longleftrightarrow> bbs_ok b \<and> bbAll b = bbWhite b OR bbBlack b"
proof -
  have "(\<forall>C. bit (bbColor b C) n \<longleftrightarrow> P \<and> f = C) \<longleftrightarrow>
      (bit (bbWhite b) n \<longleftrightarrow> P \<and> f = White) \<and> (bit (bbBlack b) n \<longleftrightarrow> P \<and> f = Black)" for n P f
    by (auto simp: bbColor_def) (metis color.exhaust)+
  then show ?thesis by (auto simp: bb_ok_def bbs_ok_def)
qed

lemma bbs_okD:
  assumes "bbs_ok b" "isCoord c"
  shows "bit (bbColor b C) (nat c) \<longleftrightarrow> cellAt b c \<noteq> EMPTY_CELL \<and> cellPieceColor (cellAt b c) = C"
    "0 \<le> p \<Longrightarrow> p < 15 \<Longrightarrow> bit (pieceBB b p) (nat c) \<longleftrightarrow> cellAt b c = p \<and> p \<noteq> EMPTY_CELL"
  using assms unfolding bbs_ok_def by blast+

lemma bit_bbAll:
  assumes "bb_ok b" "isCoord c"
  shows "bit (bbAll b) (nat c) \<longleftrightarrow> cellAt b c \<noteq> EMPTY_CELL"
  using assms by (cases "cellPieceColor (cellAt b c)") (auto simp: bb_ok_def bit_or_iff)

lemma bit_pieceBB:
  assumes "bb_ok b" "isCoord c"
  shows "bit (pieceBB b (makeCell C p)) (nat c) \<longleftrightarrow> cellAt b c = makeCell C p"
proof -
  have "0 \<le> makeCell C p" "makeCell C p < 15" using makeCell_range [of C p] by linarith+
  then show ?thesis using assms makeCell_neq_empty(1) [of C p] unfolding bb_ok_def by blast
qed

lemma bit_bbColor:
  assumes "bb_ok b" "isCoord c"
  shows "bit (bbColor b C) (nat c) \<longleftrightarrow> cellAt b c \<noteq> EMPTY_CELL \<and> cellPieceColor (cellAt b c) = C"
  using assms bbs_okD(1) [of b c C] by (simp add: bb_ok_iff)

section \<open>The defect of the hash\<close>

definition defect :: "zobrist \<Rightarrow> board \<Rightarrow> u64" where
  "defect z b = hash b XOR fullHash z b"

lemma defect_0: "defect z b = 0 \<longleftrightarrow> hash b = fullHash z b"
  by (auto simp: defect_def) (metis xor_self_cancel(1) xor.right_neutral)

lemma zPiece_empty: "zobrist_ok z \<Longrightarrow> isCoord c \<Longrightarrow> zPiece z EMPTY_CELL c = 0"
  by (simp add: zobrist_ok_def)

lemma cellHash_update:
  assumes "zobrist_ok z" "length cs = 64" "isCoord i"
  shows "cellHash z (cs[nat i := v]) = cellHash z cs XOR zPiece z (cs ! nat i) i XOR zPiece z v i"
proof -
  let ?h = "\<lambda>cs. map (\<lambda>i. if cs ! nat i = EMPTY_CELL then 0 else zPiece z (cs ! nat i) i) [0..63]"
  have zp: "(if w = EMPTY_CELL then 0 else zPiece z w i) = zPiece z w i" for w
    using zPiece_empty [OF assms(1,3)] by simp
  have "?h (cs[nat i := v]) = (?h cs)[nat i := zPiece z v i]"
  proof (rule nth_equalityI)
    fix k assume "k < length (?h (cs[nat i := v]))"
    then have k: "k < 64" by simp
    have "?h xs ! k = (if xs ! k = EMPTY_CELL then 0 else zPiece z (xs ! k) (int k))" for xs
      using k nth_map_coords [of "int k" "\<lambda>i. if xs ! nat i = EMPTY_CELL then 0 else zPiece z (xs ! nat i) i"]
      by (simp add: isCoord_def)
    then show "?h (cs[nat i := v]) ! k = (?h cs)[nat i := zPiece z v i] ! k"
      using k assms(2,3) zp [of v] by (auto simp: isCoord_def nth_list_update)
  qed simp
  moreover have "?h cs ! nat i = zPiece z (cs ! nat i) i"
    using nth_map_coords [OF assms(3), of "\<lambda>i. if cs ! nat i = EMPTY_CELL then 0 else zPiece z (cs ! nat i) i"]
      zp [of "cs ! nat i"] by simp
  moreover have "nat i < length (?h cs)" using assms(3) by (auto simp: isCoord_def)
  ultimately show ?thesis unfolding cellHash_def by (simp only: xor_list_update)
qed

lemma defect_setCell:
  assumes "zobrist_ok z" "length (cells b) = 64" "isCoord i"
  shows "defect z (setCell b i v) = defect z b XOR zPiece z (cellAt b i) i XOR zPiece z v i"
proof -
  have "hash (setCell b i v) = hash b" by (simp add: setCell_def)
  then show ?thesis
    using cellHash_update [OF assms(1,2,3), of v]
    by (simp add: defect_def fullHash_def cellAt_def ac_simps)
qed

lemma defect_xorHash [simp]: "defect z (xorHash b w) = defect z b XOR w"
  by (simp add: defect_def fullHash_def xorHash_def ac_simps)

lemma hash_ops [simp]:
  "hash (xorColor b C w) = hash b" "hash (xorPiece b p w) = hash b"
  "hash (clearColor b C w) = hash b" "hash (clearPiece b p w) = hash b"
  "hash (orColor b C w) = hash b" "hash (orPiece b p w) = hash b" "hash (setCell b i v) = hash b"
  "hash (xorHash b w) = hash b XOR w"
  by (simp_all add: op_defs)

lemma defect_ops [simp]:
  "defect z (xorColor b C w) = defect z b" "defect z (xorPiece b p w) = defect z b"
  "defect z (clearColor b C w) = defect z b" "defect z (clearPiece b p w) = defect z b"
  "defect z (b\<lparr>moveCounter := n\<rparr>) = defect z b" "defect z (b\<lparr>moveNumber := n\<rparr>) = defect z b"
  "defect z (b\<lparr>bbAll := w\<rparr>) = defect z b"
  by (simp_all add: defect_def fullHash_def)

lemma defect_castling:
  "defect z (b\<lparr>castling := f\<rparr>) = defect z b XOR zCastling z (castling b) XOR zCastling z f"
  by (simp add: defect_def fullHash_def ac_simps)

lemma defect_clearColorCastling:
  "defect z (clearColorCastling b C) = defect z b XOR zCastling z (castling b) XOR
     zCastling z (castling (clearColorCastling b C))"
  by (simp add: clearColorCastling_def defect_castling)

lemma defect_enpassant:
  "defect z (b\<lparr>enpassantCoord := e\<rparr>) = defect z b XOR
     (if enpassantCoord b = INVALID_COORD then 0 else zEnpassant z (enpassantCoord b)) XOR
     (if e = INVALID_COORD then 0 else zEnpassant z e)"
  by (simp add: defect_def fullHash_def ac_simps)

lemma defect_side:
  "defect z (b\<lparr>side := invert (side b)\<rparr>) = defect z b XOR zobristMoveSide z"
  by (cases "side b") (simp_all add: defect_def fullHash_def ac_simps)

section \<open>Comparing moves\<close>

lemma u8_of_asUint:
  "ucast (asUint m) = (word_of_int (kindVal (kind m)) :: u8)"
  "ucast (drop_bit 8 (asUint m)) = (word_of_int (src m) :: u8)"
  "ucast (drop_bit 16 (asUint m)) = (word_of_int (dst m) :: u8)"
  "ucast (drop_bit 24 (asUint m)) = tag m"
  unfolding asUint_def Let_def
  by (rule bit_eqI, auto simp: bit_simps)+

lemma move_eq_iff:
  assumes "isCoord (src a)" "isCoord (dst a)" "isCoord (src b)" "isCoord (dst b)"
  shows "move_eq a b \<longleftrightarrow> a = b"
proof -
  have r: "x = y" if "(word_of_int x :: u8) = word_of_int y" "0 \<le> x" "x < 64" "0 \<le> y" "y < 64" for x y
    using that by (simp add: word_of_int_eq_iff take_bit_int_eq_self)
  have k: "kindVal j = kindVal k \<Longrightarrow> j = k" "0 \<le> kindVal k" "kindVal k < 64" for j k
    by (cases j; cases k; simp) (cases k; simp)+
  show ?thesis
    unfolding move_eq_def using u8_of_asUint [of a] u8_of_asUint [of b] r k assms
    unfolding isCoord_def by (metis move.equality old.unit.exhaust)
qed

end
