(* ===== verification/Move_Make.thy ===== *)
theory Move_Make
  imports Move_Lemmas
begin

text \<open>
  Making a move keeps the board consistent: the incremental bitboards and hash of
  \<^verbatim>\<open>moveMake\<close> are those \<^verbatim>\<open>update\<close> would recompute.
\<close>

section \<open>The invariant between the steps of a move\<close>

definition good :: "zobrist \<Rightarrow> board \<Rightarrow> bool" where
  "good z b \<longleftrightarrow> length (cells b) = 64 \<and> (\<forall>c. isCoord c \<longrightarrow> isCellValid (cellAt b c)) \<and>
     castling b AND Castling_All = castling b \<and> castling_ok b \<and> bbs_ok b \<and> defect z b = 0"

lemma goodD:
  assumes "good z b"
  shows "length (cells b) = 64" "castling b AND Castling_All = castling b" "castling_ok b" "bbs_ok b"
    "defect z b = 0" "length (bbPieces b) = BB_PIECES_SZ" "isCoord c \<Longrightarrow> isCellValid (cellAt b c)"
  using assms by (simp_all add: good_def bbs_ok_def)

lemma consistent_iff:
  "consistent z b \<longleftrightarrow> good z b \<and> bbAll b = bbWhite b OR bbBlack b \<and> ep_ok b \<and>
     (enpassantCoord b = INVALID_COORD \<or>
      isCoord (enpassantCoord b) \<and> coordX (enpassantCoord b) = enpassantSrcRow (side b))"
  unfolding consistent_def good_def board_shape_def bb_ok_iff defect_0 by blast

lemma good_cong:
  assumes "cells a = cells b" "castling a = castling b" "bbPieces a = bbPieces b"
    "bbWhite a = bbWhite b" "bbBlack a = bbBlack b" "defect z a = defect z b" "good z b"
  shows "good z a"
proof -
  have "cellAt a = cellAt b" "bbColor a = bbColor b" "pieceBB a = pieceBB b"
    using assms by (simp_all add: fun_eq_iff cellAt_def bbColor_def pieceBB_def)
  then show ?thesis
    using assms(7) unfolding good_def castling_ok_def bbs_ok_def isKingsideCastling_def
      isQueensideCastling_def assms(1-3,6) by simp
qed

lemma bit_change:
  "isCoord s \<Longrightarrow> isCoord d \<Longrightarrow> isCoord c \<Longrightarrow>
    bit (coordToBitboard s OR coordToBitboard d) (nat c) \<longleftrightarrow> c = s \<or> c = d"
  by (auto simp: bit_or_iff bit_coord_bb)

lemma valid_range: "isCellValid v \<Longrightarrow> 0 \<le> v" "isCellValid v \<Longrightarrow> v < 15"
  using isCellValid_range [of v] by auto

lemma castlingOffset_coords [simp]:
  "isCoord (castlingOffset c + 4)" "isCoord (castlingOffset c + 7)" "isCoord (castlingOffset c)"
  "isCoord (castlingOffset c + 5)" "isCoord (castlingOffset c + 6)" "isCoord (castlingOffset c + 2)"
  "isCoord (castlingOffset c + 3)"
  by (cases c; simp add: isCoord_def)+

section \<open>Castling flags after a move\<close>

lemma bit_and_change:
  assumes "isCoord s" "isCoord d"
  shows "(coordToBitboard s OR coordToBitboard d) AND w \<noteq> 0 \<longleftrightarrow> bit w (nat s) \<or> bit w (nat d)"
  using assms by (auto simp: and_nonzero_iff bit_or_iff bit_coordToBitboard)

definition castling_after :: "castling \<Rightarrow> coord \<Rightarrow> coord \<Rightarrow> castling \<Rightarrow> bool" where
  "castling_after f s d g \<longleftrightarrow> g AND Castling_All = g \<and> (\<forall>c.
     (bit g (kbit c) \<longleftrightarrow> bit f (kbit c) \<and> s \<notin> {castlingOffset c + 4, castlingOffset c + 7} \<and>
        d \<notin> {castlingOffset c + 4, castlingOffset c + 7}) \<and>
     (bit g (qbit c) \<longleftrightarrow> bit f (qbit c) \<and> s \<notin> {castlingOffset c, castlingOffset c + 4} \<and>
        d \<notin> {castlingOffset c, castlingOffset c + 4}))"

lemma castlingMask_bits:
  fixes k1 k2 k3 k4 :: bool
  defines "m \<equiv> Castling_All XOR (if k1 then Castling_BlackKingside else Castling_None)
      XOR (if k2 then Castling_BlackQueenside else Castling_None)
      XOR (if k3 then Castling_WhiteKingside else Castling_None)
      XOR (if k4 then Castling_WhiteQueenside else Castling_None)"
  shows "bit m (kbit Black) \<longleftrightarrow> \<not> k1" "bit m (qbit Black) \<longleftrightarrow> \<not> k2"
    "bit m (kbit White) \<longleftrightarrow> \<not> k3" "bit m (qbit White) \<longleftrightarrow> \<not> k4"
  unfolding m_def by (cases k1; cases k2; cases k3; cases k4; simp add: castling_consts kbit_def qbit_def; code_simp)+

lemma castling_after_mask:
  fixes k1 k2 k3 k4 :: bool
  defines "m \<equiv> Castling_All XOR (if k1 then Castling_BlackKingside else Castling_None)
      XOR (if k2 then Castling_BlackQueenside else Castling_None)
      XOR (if k3 then Castling_WhiteKingside else Castling_None)
      XOR (if k4 then Castling_WhiteQueenside else Castling_None)"
  assumes "f AND Castling_All = f"
    and "k1 \<longleftrightarrow> s \<in> {4, 7} \<or> d \<in> {4, 7}" "k2 \<longleftrightarrow> s \<in> {0, 4} \<or> d \<in> {0, 4}"
      "k3 \<longleftrightarrow> s \<in> {60, 63} \<or> d \<in> {60, 63}" "k4 \<longleftrightarrow> s \<in> {56, 60} \<or> d \<in> {56, 60}"
  shows "castling_after f s d (f AND m)"
proof -
  have "(f AND m) AND Castling_All = f AND m" using assms(2) by (metis and.assoc and.commute)
  moreover have "bit (f AND m) (kbit c) \<longleftrightarrow> bit f (kbit c) \<and>
      s \<notin> {castlingOffset c + 4, castlingOffset c + 7} \<and> d \<notin> {castlingOffset c + 4, castlingOffset c + 7}" for c
    using castlingMask_bits(1,3) [of k1 k2 k3 k4, folded m_def] assms(3,5)
    by (cases c) (simp_all add: bit_and_iff)
  moreover have "bit (f AND m) (qbit c) \<longleftrightarrow> bit f (qbit c) \<and>
      s \<notin> {castlingOffset c, castlingOffset c + 4} \<and> d \<notin> {castlingOffset c, castlingOffset c + 4}" for c
    using castlingMask_bits(2,4) [of k1 k2 k3 k4, folded m_def] assms(4,6)
    by (cases c) (simp_all add: bit_and_iff)
  ultimately show ?thesis unfolding castling_after_def by blast
qed

lemma castling_of_update: "castling (b\<lparr>castling := g\<rparr>) = g"
  by simp

lemma updateCastling_cases:
  fixes Q :: "board \<Rightarrow> bool"
  defines "flag \<equiv> (\<lambda>ch srcs t. if ch AND srcs \<noteq> 0 then t else Castling_None)"
  assumes "ch AND BB_CASTLING_ALL_SRCS = 0 \<Longrightarrow> Q b"
    and "\<And>g. g = castling b AND (Castling_All XOR flag ch BB_CASTLING_BLACK_KINGSIDE_SRCS Castling_BlackKingside
       XOR flag ch BB_CASTLING_BLACK_QUEENSIDE_SRCS Castling_BlackQueenside
       XOR flag ch BB_CASTLING_WHITE_KINGSIDE_SRCS Castling_WhiteKingside
       XOR flag ch BB_CASTLING_WHITE_QUEENSIDE_SRCS Castling_WhiteQueenside) \<Longrightarrow>
       Q (if g \<noteq> castling b
          then xorHash ((xorHash b (zCastling z (castling b)))\<lparr>castling := g\<rparr>) (zCastling z g) else b)"
  shows "Q (updateCastling z b ch)"
proof (cases "ch AND BB_CASTLING_ALL_SRCS = 0")
  case True
  from assms(2) [OF True] show ?thesis unfolding updateCastling_def if_P [OF True] .
next
  case False
  show ?thesis
    using assms(3) [OF refl] unfolding updateCastling_def if_not_P [OF False] Let_def flag_def xor.assoc
      castling_of_update .
qed

lemma updateCastling_defect: "defect z (updateCastling z b ch) = defect z b"
  by (rule updateCastling_cases [where Q = "\<lambda>b'. defect z b' = defect z b"])
    (simp_all add: defect_castling xor.assoc)

lemma updateCastling_frame:
  "updateCastling z b ch = b\<lparr>castling := castling (updateCastling z b ch), hash := hash (updateCastling z b ch)\<rparr>"
  by (rule updateCastling_cases
      [where Q = "\<lambda>b'. b' = b\<lparr>castling := castling b', hash := hash b'\<rparr>"])
    (simp_all add: xorHash_def)

lemma updateCastling_castling:
  assumes "isCoord s" "isCoord d" "castling b AND Castling_All = castling b"
  shows "castling_after (castling b) s d
    (castling (updateCastling z b (coordToBitboard s OR coordToBitboard d)))"
proof (rule updateCastling_cases [where Q = "\<lambda>b'. castling_after (castling b) s d (castling b')"])
  let ?ch = "coordToBitboard s OR coordToBitboard d"
  assume "?ch AND BB_CASTLING_ALL_SRCS = 0"
  then have "s \<notin> {0, 4, 7, 56, 60, 63}" "d \<notin> {0, 4, 7, 56, 60, 63}"
    using bit_and_change [OF assms(1,2), of BB_CASTLING_ALL_SRCS] bit_castling_srcs(1) assms(1,2)
    by blast+
  then show "castling_after (castling b) s d (castling b)"
    using assms(3) unfolding castling_after_def by (auto simp: castlingOffset_def castlingRow_def)
next
  let ?ch = "coordToBitboard s OR coordToBitboard d"
  fix g assume g: "g = castling b AND (Castling_All
      XOR (if ?ch AND BB_CASTLING_BLACK_KINGSIDE_SRCS \<noteq> 0 then Castling_BlackKingside else Castling_None)
      XOR (if ?ch AND BB_CASTLING_BLACK_QUEENSIDE_SRCS \<noteq> 0 then Castling_BlackQueenside else Castling_None)
      XOR (if ?ch AND BB_CASTLING_WHITE_KINGSIDE_SRCS \<noteq> 0 then Castling_WhiteKingside else Castling_None)
      XOR (if ?ch AND BB_CASTLING_WHITE_QUEENSIDE_SRCS \<noteq> 0 then Castling_WhiteQueenside else Castling_None))"
  have "castling_after (castling b) s d g"
    unfolding g bit_and_change [OF assms(1,2)]
    by (rule castling_after_mask [OF assms(3)])
      (simp_all add: bit_castling_srcs [OF assms(1)] bit_castling_srcs [OF assms(2)])
  then show "castling_after (castling b) s d (castling (if g \<noteq> castling b
      then xorHash ((xorHash b (zCastling z (castling b)))\<lparr>castling := g\<rparr>) (zCastling z g) else b))"
    by (cases "g = castling b") simp_all
qed

lemma castling_after_ok:
  assumes "castling_ok b" "castling_after (castling b) s d g"
    and "\<And>c. isCoord c \<Longrightarrow> c \<noteq> s \<Longrightarrow> c \<noteq> d \<Longrightarrow> cellAt b' c = cellAt b c" "castling b' = g"
  shows "castling_ok b'"
  unfolding castling_ok_def isCastling_bits assms(4)
proof (intro allI conjI impI)
  fix c
  assume "bit g (kbit c)"
  then have a: "bit (castling b) (kbit c)" "s \<notin> {castlingOffset c + 4, castlingOffset c + 7}"
    "d \<notin> {castlingOffset c + 4, castlingOffset c + 7}"
    using assms(2) unfolding castling_after_def by blast+
  then have "cellAt b (castlingOffset c + 4) = makeCell c King" "cellAt b (castlingOffset c + 7) = makeCell c Rook"
    using assms(1) by (auto simp: castling_ok_def)
  then show "cellAt b' (castlingOffset c + 4) = makeCell c King" "cellAt b' (castlingOffset c + 7) = makeCell c Rook"
    using a assms(3) by auto
next
  fix c
  assume "bit g (qbit c)"
  then have a: "bit (castling b) (qbit c)" "s \<notin> {castlingOffset c, castlingOffset c + 4}"
    "d \<notin> {castlingOffset c, castlingOffset c + 4}"
    using assms(2) unfolding castling_after_def by blast+
  then have "cellAt b (castlingOffset c + 4) = makeCell c King" "cellAt b (castlingOffset c) = makeCell c Rook"
    using assms(1) by (auto simp: castling_ok_def)
  then show "cellAt b' (castlingOffset c + 4) = makeCell c King" "cellAt b' (castlingOffset c) = makeCell c Rook"
    using a assms(3) by auto
qed

section \<open>The kinds of moves\<close>

text \<open>
  What a simple move or a promotion of side \<open>C\<close> does: \<open>v\<close> leaves \<open>s\<close>, \<open>u\<close> arrives at \<open>d\<close>, \<open>w\<close> is taken.
\<close>

definition piece_moved ::
    "zobrist \<Rightarrow> color \<Rightarrow> board \<Rightarrow> coord \<Rightarrow> coord \<Rightarrow> cell \<Rightarrow> cell \<Rightarrow> cell \<Rightarrow> board \<Rightarrow> bool" where
  "piece_moved z C b s d v u w b' \<longleftrightarrow> cells b' = (cells b)[nat s := EMPTY_CELL, nat d := u] \<and>
     castling b' = castling b \<and> side b' = side b \<and> enpassantCoord b' = enpassantCoord b \<and>
     hash b' = hash b XOR (zPiece z v s XOR zPiece z u d XOR zPiece z w d) \<and>
     length (bbPieces b') = BB_PIECES_SZ \<and>
     (\<forall>c D. isCoord c \<longrightarrow> (bit (bbColor b' D) (nat c) \<longleftrightarrow> (if D = C
        then bit (bbColor b C) (nat c) \<noteq> (c = s \<or> c = d) else bit (bbColor b D) (nat c) \<and> c \<noteq> d))) \<and>
     (\<forall>c p. isCoord c \<longrightarrow> 0 \<le> p \<longrightarrow> p < 15 \<longrightarrow> (bit (pieceBB b' p) (nat c) \<longleftrightarrow>
        (((bit (pieceBB b p) (nat c) \<noteq> (p = v \<and> c = s)) \<noteq> (p = u \<and> c = d)) \<and> \<not> (p = w \<and> c = d))))"

definition can_move :: "color \<Rightarrow> board \<Rightarrow> coord \<Rightarrow> coord \<Rightarrow> cell \<Rightarrow> cell \<Rightarrow> bool" where
  "can_move C b s d v w \<longleftrightarrow> isCoord s \<and> isCoord d \<and> s \<noteq> d \<and> cellAt b s = v \<and> v \<noteq> EMPTY_CELL \<and>
     cellPieceColor v = C \<and> cellAt b d = w \<and> (w \<noteq> EMPTY_CELL \<longrightarrow> cellPieceColor w = invert C)"

lemma can_moveD:
  assumes "can_move C b s d v w"
  shows "isCoord s" "isCoord d" "s \<noteq> d" "cellAt b s = v" "v \<noteq> EMPTY_CELL" "cellPieceColor v = C"
    "cellAt b d = w" "w \<noteq> EMPTY_CELL \<Longrightarrow> cellPieceColor w = invert C"
  using assms by (simp_all add: can_move_def)

lemma good_move_piece:
  assumes z: "zobrist_ok z" and g: "good z b" and cm: "can_move C b s d v w"
    and u: "isCellValid u" "u \<noteq> EMPTY_CELL" "cellPieceColor u = C"
    and pm: "piece_moved z C b s d v u w b'"
  shows "length (cells b') = 64" "\<And>c. isCoord c \<Longrightarrow> isCellValid (cellAt b' c)" "bbs_ok b'"
    "defect z b' = 0" "\<And>c. isCoord c \<Longrightarrow> cellAt b' c = (if c = d then u else if c = s then EMPTY_CELL else cellAt b c)"
proof -
  note G = goodD [OF g] and m = can_moveD [OF cm]
  have b': "cells b' = (cells b)[nat s := EMPTY_CELL, nat d := u]"
    "castling b' = castling b" "side b' = side b" "enpassantCoord b' = enpassantCoord b"
    "hash b' = hash b XOR (zPiece z v s XOR zPiece z u d XOR zPiece z w d)"
    "length (bbPieces b') = BB_PIECES_SZ"
    and colours: "isCoord c \<Longrightarrow> bit (bbColor b' D) (nat c) \<longleftrightarrow> (if D = C
        then bit (bbColor b C) (nat c) \<noteq> (c = s \<or> c = d) else bit (bbColor b D) (nat c) \<and> c \<noteq> d)"
    and pieces: "isCoord c \<Longrightarrow> 0 \<le> p \<Longrightarrow> p < 15 \<Longrightarrow> bit (pieceBB b' p) (nat c) \<longleftrightarrow>
        (((bit (pieceBB b p) (nat c) \<noteq> (p = v \<and> c = s)) \<noteq> (p = u \<and> c = d)) \<and> \<not> (p = w \<and> c = d))" for c D p
    using pm unfolding piece_moved_def by blast+
  show cell: "cellAt b' c = (if c = d then u else if c = s then EMPTY_CELL else cellAt b c)" if "isCoord c" for c
    using that m(1,2) G(1) by (auto simp: cellAt_def b'(1) isCoord_def nth_list_update eq_nat_nat_iff)
  show "length (cells b') = 64" using G(1) by (simp add: b'(1))
  show "isCellValid (cellAt b' c)" if "isCoord c" for c
    using cell [OF that] G(7) [OF that] u(1) by auto
  have uw: "u \<noteq> w" using u m(8) by (cases "w = EMPTY_CELL") auto
  have "bit (bbColor b' D) (nat c) \<longleftrightarrow> cellAt b' c \<noteq> EMPTY_CELL \<and> cellPieceColor (cellAt b' c) = D"
    if "isCoord c" for c D
    unfolding colours [OF that] bbs_okD(1) [OF G(4) that] cell [OF that]
    using m u by (auto simp: neq_color_iff)
  moreover have "bit (pieceBB b' p) (nat c) \<longleftrightarrow> cellAt b' c = p \<and> p \<noteq> EMPTY_CELL"
    if "isCoord c" "0 \<le> p" "p < 15" for c p
    unfolding pieces [OF that] bbs_okD(2) [OF G(4) that] cell [OF that(1)]
    using m u uw by auto
  ultimately show "bbs_ok b'" unfolding bbs_ok_def using b'(6) by blast
  have len1: "length ((cells b)[nat s := EMPTY_CELL]) = 64" using G(1) by simp
  have c: "cells b ! nat s = v" "(cells b)[nat s := EMPTY_CELL] ! nat d = w"
    using m by (auto simp: cellAt_def isCoord_def)
  have "cellHash z (cells b') = cellHash z (cells b) XOR zPiece z v s XOR zPiece z w d XOR zPiece z u d"
    unfolding b'(1) cellHash_update [OF z len1 m(2)] cellHash_update [OF z G(1) m(1)] c
    using zPiece_empty [OF z m(1)] by (simp add: xor.assoc)
  then have "fullHash z b' = fullHash z b XOR (zPiece z v s XOR zPiece z u d XOR zPiece z w d)"
    by (simp add: fullHash_def b' ac_simps)
  moreover have "hash b = fullHash z b" using G(5) by (simp add: defect_0)
  ultimately show "defect z b' = 0" by (simp add: defect_0 b'(5))
qed

lemma good_after_castling_update:
  assumes z: "zobrist_ok z" and g: "good z b" and cm: "can_move C b s d v w"
    and u: "isCellValid u" "u \<noteq> EMPTY_CELL" "cellPieceColor u = C"
    and pm: "piece_moved z C b s d v u w b'"
  shows "good z (updateCastling z b' (coordToBitboard s OR coordToBitboard d))"
    (is "good z ?r")
proof -
  note G = goodD [OF g] and m = can_moveD [OF cm] and M = good_move_piece [OF assms]
  have cb: "castling b' = castling b" using pm by (simp add: piece_moved_def)
  have after: "castling_after (castling b) s d (castling ?r)"
    using updateCastling_castling [OF m(1,2), of b' z] G(2) cb by simp
  have cell: "cellAt ?r c = cellAt b' c" for c
    by (subst updateCastling_frame) simp
  have ok: "castling_ok ?r"
    using castling_after_ok [OF G(3) after _ refl] M(5) cell by simp
  have views: "cells ?r = cells b'" "bbPieces ?r = bbPieces b'" "bbColor ?r D = bbColor b' D"
    "pieceBB ?r p = pieceBB b' p" for D p
    by (subst updateCastling_frame, simp)+
  have "bbs_ok ?r" using M(3) unfolding bbs_ok_def views cell .
  then show ?thesis
    using M(1,2) ok after updateCastling_defect [of z b'] M(4)
    unfolding good_def views cell castling_after_def by simp
qed

lemma makeSimple_good:
  assumes z: "zobrist_ok z" and g: "good z b" and cm: "can_move C b (src m) (dst m) v w"
  shows "good z (makeSimple C z b m v w)"
proof -
  note G = goodD [OF g] and m = can_moveD [OF cm]
  let ?ch = "coordToBitboard (src m) OR coordToBitboard (dst m)"
  let ?b = "clearPiece (clearColor (xorPiece (xorColor (xorHash (setCell (setCell b (src m) EMPTY_CELL) (dst m) v)
      (zPiece z v (src m) XOR zPiece z v (dst m) XOR zPiece z w (dst m))) C ?ch) v ?ch)
      (invert C) (coordToBitboard (dst m))) w (coordToBitboard (dst m))"
  have valid: "isCellValid v" "isCellValid w" using G(7) m(1,2,4,7) by auto
  note r = valid_range [OF valid(1)] valid_range [OF valid(2)]
  have "bit (bbColor ?b D) (nat c) \<longleftrightarrow> (if D = C
          then bit (bbColor b C) (nat c) \<noteq> (c = src m \<or> c = dst m) else bit (bbColor b D) (nat c) \<and> c \<noteq> dst m)"
    if c: "isCoord c" for c D
    using neq_color_iff [of D C]
    by (auto simp: bit_xor_iff bit_and_iff bit_NOT_coord [OF c] bit_change [OF m(1,2) c] bit_coord_bb [OF m(2) c])
  moreover have "bit (pieceBB ?b p) (nat c) \<longleftrightarrow>
      (((bit (pieceBB b p) (nat c) \<noteq> (p = v \<and> c = src m)) \<noteq> (p = v \<and> c = dst m)) \<and> \<not> (p = w \<and> c = dst m))"
    if c: "isCoord c" and p: "0 \<le> p" "p < 15" for c p
    using m(3) by (auto simp: pieceBB_upd G(6) p r bit_xor_iff bit_and_iff bit_NOT_coord [OF c]
        bit_change [OF m(1,2) c] bit_coord_bb [OF m(2) c])
  ultimately have "piece_moved z C b (src m) (dst m) v v w ?b"
    unfolding piece_moved_def using G(6) by simp
  from good_after_castling_update [OF z g cm valid(1) m(5,6) this]
  show ?thesis unfolding makeSimple_def Let_def .
qed

lemma makePromote_good:
  assumes z: "zobrist_ok z" and g: "good z b"
    and cm: "can_move C b (src m) (dst m) (makeCell C Pawn) w"
    and k: "isMoveKindPromote (kind m)"
  shows "good z (makePromote C z b m (makeCell C Pawn) w)"
proof -
  note G = goodD [OF g] and m = can_moveD [OF cm]
  let ?u = "makeCell C (moveKindPromotePiece (kind m))" and ?v = "makeCell C Pawn"
  let ?s = "coordToBitboard (src m)" and ?d = "coordToBitboard (dst m)"
  let ?b = "clearPiece (clearColor (xorPiece (xorPiece (xorColor (xorHash (setCell (setCell b (src m) EMPTY_CELL) (dst m) ?u)
      (zPiece z ?v (src m) XOR zPiece z ?u (dst m) XOR zPiece z w (dst m))) C (?s OR ?d)) ?v ?s) ?u ?d)
      (invert C) ?d) w ?d"
  have valid: "isCellValid ?v" "isCellValid ?u" "isCellValid w" using G(7) m(1,2,4,7) by auto
  note r = valid_range [OF valid(1)] valid_range [OF valid(2)] valid_range [OF valid(3)]
  have "bit (bbColor ?b D) (nat c) \<longleftrightarrow> (if D = C
          then bit (bbColor b C) (nat c) \<noteq> (c = src m \<or> c = dst m) else bit (bbColor b D) (nat c) \<and> c \<noteq> dst m)"
    if c: "isCoord c" for c D
    using neq_color_iff [of D C]
    by (auto simp: bit_xor_iff bit_and_iff bit_NOT_coord [OF c] bit_change [OF m(1,2) c] bit_coord_bb [OF m(2) c])
  moreover have "bit (pieceBB ?b p) (nat c) \<longleftrightarrow>
      (((bit (pieceBB b p) (nat c) \<noteq> (p = ?v \<and> c = src m)) \<noteq> (p = ?u \<and> c = dst m)) \<and> \<not> (p = w \<and> c = dst m))"
    if c: "isCoord c" and p: "0 \<le> p" "p < 15" for c p
    using m(3) by (auto simp: pieceBB_upd G(6) p r bit_xor_iff bit_and_iff bit_NOT_coord [OF c]
        bit_coord_bb [OF m(1) c] bit_coord_bb [OF m(2) c] simp del: makeCell_values)
  ultimately have "piece_moved z C b (src m) (dst m) ?v ?u w ?b"
    unfolding piece_moved_def using G(6) by simp
  from good_after_castling_update [OF z g cm valid(2) _ _ this]
  show ?thesis unfolding makePromote_def Let_def by simp
qed

end
