(* ===== verification/Move_Correct.thy ===== *)
theory Move_Correct
  imports Move_Make
begin

text \<open>The kinds of move with more than one piece or a side effect on the flags (double moves, en passant,
  castling), and \<^verbatim>\<open>moveMake\<close> of \<^verbatim>\<open>src/src/core/move.cpp\<close> as a whole, split into its
  stages: drop the en passant square, move the pieces, bookkeeping.\<close>

lemma castling_ok_keep:
  assumes "castling_ok b" "castling b' = castling b"
    and "\<And>c C. isCoord c \<Longrightarrow> cellAt b c = makeCell C King \<or> cellAt b c = makeCell C Rook \<Longrightarrow>
      cellAt b' c = cellAt b c"
  shows "castling_ok b'"
  using assms(1,3) unfolding castling_ok_def isCastling_bits assms(2)
  by (metis castlingOffset_coords(1-3))

lemma goodI:
  assumes "length (cells b) = 64" "\<And>c. isCoord c \<Longrightarrow> isCellValid (cellAt b c)"
    "castling b AND Castling_All = castling b" "castling_ok b" "bbs_ok b" "defect z b = 0"
  shows "good z b"
  using assms by (simp add: good_def)

lemma makePawnDoubleMove_good:
  assumes z: "zobrist_ok z" and g: "good z b"
    and cm: "can_move C b (src m) (dst m) (makeCell C Pawn) EMPTY_CELL"
    and ep: "enpassantCoord b = INVALID_COORD"
  defines "ch \<equiv> coordToBitboard (src m) OR coordToBitboard (dst m)"
  shows "good z (makePawnDoubleMove C False z b m ch)"
    and "\<And>c. isCoord c \<Longrightarrow> cellAt (makePawnDoubleMove C False z b m ch) c =
      (if c = dst m then makeCell C Pawn else if c = src m then EMPTY_CELL else cellAt b c)"
proof -
  note G = goodD [OF g] and m = can_moveD [OF cm]
  let ?v = "makeCell C Pawn"
  let ?b = "xorPiece (xorColor (xorHash (setCell (setCell b (src m) EMPTY_CELL) (dst m) ?v)
      (zPiece z ?v (src m) XOR zPiece z ?v (dst m))) C ch) ?v ch"
  let ?r = "makePawnDoubleMove C False z b m ch"
  note r = valid_range [OF isCellValid_makeCell [of C Pawn]]
  have "bit (bbColor ?b D) (nat c) \<longleftrightarrow> (if D = C
          then bit (bbColor b C) (nat c) \<noteq> (c = src m \<or> c = dst m) else bit (bbColor b D) (nat c) \<and> c \<noteq> dst m)"
    if c: "isCoord c" for c D
    using bbs_okD(1) [OF G(4) m(2), of D] m(7)
    by (auto simp: ch_def bit_xor_iff bit_change [OF m(1,2) c])
  moreover have "bit (pieceBB ?b p) (nat c) \<longleftrightarrow>
      (((bit (pieceBB b p) (nat c) \<noteq> (p = ?v \<and> c = src m)) \<noteq> (p = ?v \<and> c = dst m)) \<and> \<not> (p = EMPTY_CELL \<and> c = dst m))"
    if c: "isCoord c" and p: "0 \<le> p" "p < 15" for c p
    using bbs_okD(2) [OF G(4) m(2) p] m(3,7)
    by (auto simp: ch_def pieceBB_upd G(6) p r bit_xor_iff bit_change [OF m(1,2) c] simp del: makeCell_values)
  ultimately have pm: "piece_moved z C b (src m) (dst m) ?v ?v EMPTY_CELL ?b"
    unfolding piece_moved_def using G(6) zPiece_empty [OF z m(2)] by simp
  note M = good_move_piece [OF z g cm isCellValid_makeCell m(5,6) pm]
  have r': "?r = xorHash (?b\<lparr>enpassantCoord := dst m\<rparr>) (zEnpassant z (dst m))"
    by (simp add: makePawnDoubleMove_def Let_def)
  have cell: "cellAt ?r c = cellAt ?b c" for c unfolding r' by (simp only: cellAt_ops cellAt_simps)
  then show "isCoord c \<Longrightarrow> cellAt ?r c =
      (if c = dst m then makeCell C Pawn else if c = src m then EMPTY_CELL else cellAt b c)" for c
    using M(5) by simp
  have "dst m \<noteq> INVALID_COORD" using m(2) by (auto simp: isCoord_def INVALID_COORD_def)
  then have "defect z ?r = 0"
    using M(4) ep unfolding r' by (simp add: defect_enpassant)
  moreover have "castling_ok ?r"
  proof (rule castling_ok_keep [OF G(3)])
    show "castling ?r = castling b" unfolding r' by simp
    show "cellAt ?r c = cellAt b c"
      if "isCoord c" "cellAt b c = makeCell D King \<or> cellAt b c = makeCell D Rook" for c D
      using that M(5) [OF that(1)] m(4,7) unfolding cell by auto
  qed
  moreover have "bbs_ok ?r"
    using M(3) unfolding bbs_ok_def cell unfolding r' by simp
  moreover have "length (cells ?r) = 64" "castling ?r = castling b" using M(1) unfolding r' by simp_all
  ultimately show "good z ?r" using M(2) G(2) cell by (intro goodI) simp_all
qed

lemma makeEnpassant_good:
  assumes z: "zobrist_ok z" and g: "good z b"
    and cm: "can_move C b (src m) (dst m) (makeCell C Pawn) EMPTY_CELL"
    and t: "isCoord (enpassantPawnPos C (dst m))" "enpassantPawnPos C (dst m) \<noteq> src m"
      "cellAt b (enpassantPawnPos C (dst m)) = makeCell (invert C) Pawn"
  defines "ch \<equiv> coordToBitboard (src m) OR coordToBitboard (dst m)"
  shows "good z (makeEnpassant C False z b m ch)"
    and "\<And>c. isCoord c \<Longrightarrow> cellAt (makeEnpassant C False z b m ch) c =
      (if c = enpassantPawnPos C (dst m) then EMPTY_CELL else if c = dst m then makeCell C Pawn
       else if c = src m then EMPTY_CELL else cellAt b c)"
proof -
  note G = goodD [OF g] and m = can_moveD [OF cm]
  let ?v = "makeCell C Pawn" and ?w = "makeCell (invert C) Pawn" and ?t = "enpassantPawnPos C (dst m)"
  let ?r = "makeEnpassant C False z b m ch"
  have td: "?t \<noteq> dst m" by (simp add: enpassantPawnPos_def)
  have r': "?r = xorPiece (xorColor (xorPiece (xorColor (xorHash
      (setCell (setCell (setCell b (src m) EMPTY_CELL) (dst m) ?v) ?t EMPTY_CELL)
      (zPiece z ?v (src m) XOR zPiece z ?v (dst m) XOR zPiece z ?w ?t)) C ch) ?v ch)
      (invert C) (coordToBitboard ?t)) ?w (coordToBitboard ?t)"
    by (simp add: makeEnpassant_def Let_def)
  note r = valid_range [OF isCellValid_makeCell [of C Pawn]] valid_range [OF isCellValid_makeCell [of "invert C" Pawn]]
  show cell: "cellAt ?r c = (if c = ?t then EMPTY_CELL else if c = dst m then makeCell C Pawn
       else if c = src m then EMPTY_CELL else cellAt b c)" if "isCoord c" for c
    unfolding r' using that G(1) m(1,2) t(1) by (simp add: cellAt_setCell)
  have colour: "bit (bbColor ?r D) (nat c) \<longleftrightarrow> cellAt ?r c \<noteq> EMPTY_CELL \<and> cellPieceColor (cellAt ?r c) = D"
    if c: "isCoord c" for c D
  proof -
    have "bit (bbColor ?r D) (nat c) \<longleftrightarrow> ((bit (bbColor b D) (nat c) \<noteq> (D = C \<and> (c = src m \<or> c = dst m))) \<noteq>
        (D = invert C \<and> c = ?t))"
      unfolding r' by (auto simp: ch_def bit_xor_iff bit_change [OF m(1,2) c] bit_coord_bb [OF t(1) c])
    then show ?thesis
      unfolding cell [OF c] bbs_okD(1) [OF G(4) c]
      using m(3-7) t(2,3) td neq_color_iff [of D C]
      by (cases "c = ?t"; cases "c = src m"; cases "c = dst m"; simp del: makeCell_values; metis invert_invert)
  qed
  have piece: "bit (pieceBB ?r p) (nat c) \<longleftrightarrow> cellAt ?r c = p \<and> p \<noteq> EMPTY_CELL"
    if c: "isCoord c" and p: "0 \<le> p" "p < 15" for c p
    unfolding cell [OF c] unfolding r'
    using bbs_okD(2) [OF G(4) c p] m t td
    by (auto simp: ch_def pieceBB_upd G(6) p r bit_xor_iff bit_change [OF m(1,2) c] bit_coord_bb [OF t(1) c]
        simp del: makeCell_values)
  have "bbs_ok ?r" unfolding bbs_ok_def using colour piece G(6) unfolding r' by simp
  moreover have "defect z ?r = 0"
    unfolding r' using m t td G(1,5) zPiece_empty [OF z]
    by (simp add: defect_setCell [OF z] cellAt_setCell ac_simps)
  moreover have "castling_ok ?r"
  proof (rule castling_ok_keep [OF G(3)])
    show "castling ?r = castling b" unfolding r' by simp
    show "cellAt ?r c = cellAt b c"
      if "isCoord c" "cellAt b c = makeCell D King \<or> cellAt b c = makeCell D Rook" for c D
      using that m(4,7) t(3) unfolding cell [OF that(1)] by (auto simp del: makeCell_values)
  qed
  moreover have "length (cells ?r) = 64" "castling ?r = castling b" using G(1) unfolding r' by simp_all
  moreover have "isCellValid (cellAt ?r c)" if "isCoord c" for c
    using cell [OF that] G(7) [OF that] by auto
  ultimately show "good z ?r" using G(2) by (intro goodI) simp_all
qed

lemma castling_bits_table:
  "list_all (\<lambda>c. (bit (0xf0 :: bitboard) (nat c) \<longleftrightarrow> c = 4 \<or> c = 5 \<or> c = 6 \<or> c = 7) \<and>
     (bit (0xa0 :: bitboard) (nat c) \<longleftrightarrow> c = 5 \<or> c = 7) \<and> (bit (0x50 :: bitboard) (nat c) \<longleftrightarrow> c = 4 \<or> c = 6) \<and>
     (bit (0x1d :: bitboard) (nat c) \<longleftrightarrow> c = 0 \<or> c = 2 \<or> c = 3 \<or> c = 4) \<and>
     (bit (0x09 :: bitboard) (nat c) \<longleftrightarrow> c = 0 \<or> c = 3) \<and> (bit (0x14 :: bitboard) (nat c) \<longleftrightarrow> c = 2 \<or> c = 4))
   [0..63]"
  by code_simp

lemma bit_castling_move:
  fixes C :: color
  assumes "isCoord c"
  defines "k \<equiv> castlingOffset C"
  shows "bit (push_bit (nat k) (0xf0 :: bitboard)) (nat c) \<longleftrightarrow> c = k + 4 \<or> c = k + 5 \<or> c = k + 6 \<or> c = k + 7"
    "bit (push_bit (nat k) (0xa0 :: bitboard)) (nat c) \<longleftrightarrow> c = k + 5 \<or> c = k + 7"
    "bit (push_bit (nat k) (0x50 :: bitboard)) (nat c) \<longleftrightarrow> c = k + 4 \<or> c = k + 6"
    "bit (push_bit (nat k) (0x1d :: bitboard)) (nat c) \<longleftrightarrow> c = k \<or> c = k + 2 \<or> c = k + 3 \<or> c = k + 4"
    "bit (push_bit (nat k) (0x09 :: bitboard)) (nat c) \<longleftrightarrow> c = k \<or> c = k + 3"
    "bit (push_bit (nat k) (0x14 :: bitboard)) (nat c) \<longleftrightarrow> c = k + 2 \<or> c = k + 4"
proof -
  have "0 \<le> k" by (cases C) (simp_all add: k_def)
  then have eq: "bit (push_bit (nat k) (w :: bitboard)) (nat c) \<longleftrightarrow> isCoord (c - k) \<and> bit w (nat (c - k))" for w
    using bit_push_coord [OF assms(1), of "nat k" w] by simp
  show "bit (push_bit (nat k) (0xf0 :: bitboard)) (nat c) \<longleftrightarrow> c = k + 4 \<or> c = k + 5 \<or> c = k + 6 \<or> c = k + 7"
    "bit (push_bit (nat k) (0xa0 :: bitboard)) (nat c) \<longleftrightarrow> c = k + 5 \<or> c = k + 7"
    "bit (push_bit (nat k) (0x50 :: bitboard)) (nat c) \<longleftrightarrow> c = k + 4 \<or> c = k + 6"
    "bit (push_bit (nat k) (0x1d :: bitboard)) (nat c) \<longleftrightarrow> c = k \<or> c = k + 2 \<or> c = k + 3 \<or> c = k + 4"
    "bit (push_bit (nat k) (0x09 :: bitboard)) (nat c) \<longleftrightarrow> c = k \<or> c = k + 3"
    "bit (push_bit (nat k) (0x14 :: bitboard)) (nat c) \<longleftrightarrow> c = k + 2 \<or> c = k + 4"
    unfolding eq using list_all_coordD [OF castling_bits_table, of "c - k"]
    by (auto simp: isCoord_def)
qed

lemma clearColorCastling_bits:
  "bit (castling (clearColorCastling b C)) n \<longleftrightarrow> bit (castling b) n \<and> n \<noteq> kbit C \<and> n \<noteq> qbit C"
  using bit_imp_le_length [of "castling b" n]
  by (auto simp: clearColorCastling_def bit_and_iff bit_not_iff flag_bits)

lemma castling_offset_distinct [simp]:
  "castlingOffset C + 4 \<noteq> castlingOffset (invert C) + 4" "castlingOffset C \<noteq> castlingOffset (invert C)"
  by (cases C; simp)+

text \<open>
  Both castlings at once: the king goes from \<open>k0\<close> to \<open>k1\<close> and the rook from \<open>r0\<close> to \<open>r1\<close>.
\<close>

definition castled ::
    "zobrist \<Rightarrow> color \<Rightarrow> board \<Rightarrow> coord \<Rightarrow> coord \<Rightarrow> coord \<Rightarrow> coord \<Rightarrow> board \<Rightarrow> bool" where
  "castled z C b k0 k1 r0 r1 b' \<longleftrightarrow> length (cells b') = 64 \<and> length (bbPieces b') = BB_PIECES_SZ \<and>
     (\<forall>c. isCoord c \<longrightarrow> cellAt b' c = (if c = k0 \<or> c = r0 then EMPTY_CELL else if c = k1 then makeCell C King
        else if c = r1 then makeCell C Rook else cellAt b c)) \<and>
     (\<forall>c D. isCoord c \<longrightarrow> (bit (bbColor b' D) (nat c) \<longleftrightarrow>
        (bit (bbColor b D) (nat c) \<noteq> (D = C \<and> c \<in> {k0, k1, r0, r1})))) \<and>
     (\<forall>c p. isCoord c \<longrightarrow> 0 \<le> p \<longrightarrow> p < 15 \<longrightarrow> (bit (pieceBB b' p) (nat c) \<longleftrightarrow>
        ((bit (pieceBB b p) (nat c) \<noteq> (p = makeCell C Rook \<and> c \<in> {r0, r1})) \<noteq>
          (p = makeCell C King \<and> c \<in> {k0, k1})))) \<and>
     (\<forall>n. bit (castling b') n \<longleftrightarrow> bit (castling b) n \<and> n \<noteq> kbit C \<and> n \<noteq> qbit C) \<and>
     defect z b' = defect z b"

lemma castled_cells:
  fixes f :: "int \<Rightarrow> int"
  assumes "distinct [k0, k1, r0, r1]" "K \<noteq> R" "K \<noteq> E" "R \<noteq> E" "f k0 = K" "f r0 = R" "f k1 = E" "f r1 = E"
  shows "(((f c = p \<and> p \<noteq> E) \<noteq> (p = R \<and> c \<in> {r0, r1})) \<noteq> (p = K \<and> c \<in> {k0, k1})) \<longleftrightarrow>
    (if c = k0 \<or> c = r0 then E else if c = k1 then K else if c = r1 then R else f c) = p \<and> p \<noteq> E"
  using assms by (cases "c = k0"; cases "c = k1"; cases "c = r0"; cases "c = r1"; simp; blast)

lemma castled_good:
  assumes g: "good z b" and c: "castled z C b k0 k1 r0 r1 b'"
    and d: "isCoord k0" "isCoord k1" "isCoord r0" "isCoord r1" "distinct [k0, k1, r0, r1]"
    and cells: "cellAt b k0 = makeCell C King" "cellAt b r0 = makeCell C Rook"
      "cellAt b k1 = EMPTY_CELL" "cellAt b r1 = EMPTY_CELL"
    and row: "\<forall>x \<in> {k0, k1, r0, r1}. castlingOffset C \<le> x \<and> x < castlingOffset C + 8"
  shows "good z b'"
proof (rule goodI)
  note G = goodD [OF g]
  have cell: "isCoord c \<Longrightarrow> cellAt b' c = (if c = k0 \<or> c = r0 then EMPTY_CELL else if c = k1 then makeCell C King
        else if c = r1 then makeCell C Rook else cellAt b c)" for c
    using c unfolding castled_def by blast
  have cb: "bit (castling b') n \<longleftrightarrow> bit (castling b) n \<and> n \<noteq> kbit C \<and> n \<noteq> qbit C" for n
    using c unfolding castled_def by blast
  show "length (cells b') = 64" "defect z b' = 0" using c G(5) by (simp_all add: castled_def)
  show "isCellValid (cellAt b' c)" if "isCoord c" for c using cell [OF that] G(7) [OF that] by auto
  show "castling b' AND Castling_All = castling b'"
    using G(2) unfolding castling_All_iff cb by blast
  have K: "makeCell C King \<noteq> makeCell C Rook" "makeCell C King \<noteq> EMPTY_CELL" "makeCell C Rook \<noteq> EMPTY_CELL"
    by simp_all
  have colour: "bit (bbColor b' D) (nat c) \<longleftrightarrow> cellAt b' c \<noteq> EMPTY_CELL \<and> cellPieceColor (cellAt b' c) = D"
    if x: "isCoord c" for c D
  proof -
    have "bit (bbColor b' D) (nat c) \<longleftrightarrow> (bit (bbColor b D) (nat c) \<noteq> (D = C \<and> c \<in> {k0, k1, r0, r1}))"
      using c x unfolding castled_def by blast
    then show ?thesis
      using cells d(5) unfolding cell [OF x] bbs_okD(1) [OF G(4) x]
      by (cases "c = k0"; cases "c = k1"; cases "c = r0"; cases "c = r1"; simp del: makeCell_values; blast)
  qed
  have piece: "bit (pieceBB b' p) (nat c) \<longleftrightarrow> cellAt b' c = p \<and> p \<noteq> EMPTY_CELL"
    if x: "isCoord c" "0 \<le> p" "p < 15" for c p
  proof -
    have "bit (pieceBB b' p) (nat c) \<longleftrightarrow> ((bit (pieceBB b p) (nat c) \<noteq> (p = makeCell C Rook \<and> c \<in> {r0, r1})) \<noteq>
          (p = makeCell C King \<and> c \<in> {k0, k1}))"
      using c x unfolding castled_def by blast
    then show ?thesis
      unfolding cell [OF x(1)] bbs_okD(2) [OF G(4) x] using castled_cells [OF d(5) K cells] by simp
  qed
  show "bbs_ok b'" unfolding bbs_ok_def using colour piece c by (simp add: castled_def)
  show "castling_ok b'"
    unfolding castling_ok_def isCastling_bits cb
  proof (intro allI)
    fix D
    show "(bit (castling b) (kbit D) \<and> kbit D \<noteq> kbit C \<and> kbit D \<noteq> qbit C \<longrightarrow>
          cellAt b' (castlingOffset D + 4) = makeCell D King \<and> cellAt b' (castlingOffset D + 7) = makeCell D Rook) \<and>
        (bit (castling b) (qbit D) \<and> qbit D \<noteq> kbit C \<and> qbit D \<noteq> qbit C \<longrightarrow>
          cellAt b' (castlingOffset D + 4) = makeCell D King \<and> cellAt b' (castlingOffset D) = makeCell D Rook)"
    proof (cases "D = C")
      case False
      have "x \<notin> {k0, k1, r0, r1}" if "x = castlingOffset D \<or> x = castlingOffset D + 4 \<or> x = castlingOffset D + 7" for x
        using bspec [OF row, of x] that False by (cases C; cases D) auto
      then have "cellAt b' x = cellAt b x"
        if "isCoord x" "x = castlingOffset D \<or> x = castlingOffset D + 4 \<or> x = castlingOffset D + 7" for x
        using cell [OF that(1)] that(2) by auto
      then show ?thesis using G(3) unfolding castling_ok_def by simp
    qed simp
  qed
qed

lemma makeKingsideCastling_castled:
  assumes z: "zobrist_ok z" and g: "good z b"
    and cells: "cellAt b (castlingOffset C + 4) = makeCell C King" "cellAt b (castlingOffset C + 7) = makeCell C Rook"
      "cellAt b (castlingOffset C + 6) = EMPTY_CELL" "cellAt b (castlingOffset C + 5) = EMPTY_CELL"
  shows "castled z C b (castlingOffset C + 4) (castlingOffset C + 6) (castlingOffset C + 7) (castlingOffset C + 5)
    (makeKingsideCastling C False z b)"
proof -
  note G = goodD [OF g]
  let ?k = "castlingOffset C" and ?r = "makeKingsideCastling C False z b"
  let ?K = "makeCell C King" and ?R = "makeCell C Rook"
  let ?b = "xorPiece (xorPiece (xorColor (xorHash (setCell (setCell (setCell (setCell b (?k + 4) EMPTY_CELL)
      (?k + 5) ?R) (?k + 6) ?K) (?k + 7) EMPTY_CELL) (zCastlingKingside z C)) C (push_bit (nat ?k) 0xf0))
      ?R (push_bit (nat ?k) 0xa0)) ?K (push_bit (nat ?k) 0x50)"
  have r': "?r = xorHash (clearColorCastling (xorHash ?b (zCastling z (castling ?b))) C)
      (zCastling z (castling (clearColorCastling (xorHash ?b (zCastling z (castling ?b))) C)))"
    by (simp add: makeKingsideCastling_def Let_def)
  note r = valid_range [OF isCellValid_makeCell [of C King]] valid_range [OF isCellValid_makeCell [of C Rook]]
  have views: "cellAt ?r c = cellAt ?b c" "bbColor ?r D = bbColor ?b D" "pieceBB ?r p = pieceBB ?b p"
    "cells ?r = cells ?b" "length (bbPieces ?r) = length (bbPieces ?b)" for c D p
    unfolding r' clearColorCastling_def by simp_all
  have "defect z ?r = defect z ?b"
    unfolding r' by (simp add: defect_clearColorCastling ac_simps)
  also have "\<dots> = defect z b"
  proof -
    have "zCastlingKingside z C = zPiece z ?K (?k + 4) XOR zPiece z ?R (?k + 5) XOR zPiece z ?K (?k + 6)
        XOR zPiece z ?R (?k + 7)" using z by (simp add: zobrist_ok_def)
    then show ?thesis
      using cells G(1) zPiece_empty [OF z] by (simp add: defect_setCell [OF z] cellAt_setCell ac_simps)
  qed
  finally have "defect z ?r = defect z b" .
  moreover have "bit (castling ?r) n \<longleftrightarrow> bit (castling b) n \<and> n \<noteq> kbit C \<and> n \<noteq> qbit C" for n
    unfolding r' by (simp add: clearColorCastling_bits)
  moreover have "cellAt ?r c = (if c = ?k + 4 \<or> c = ?k + 7 then EMPTY_CELL else if c = ?k + 6 then ?K
        else if c = ?k + 5 then ?R else cellAt b c)" if "isCoord c" for c
    unfolding views using that G(1) by (simp add: cellAt_setCell)
  moreover have "bit (bbColor ?r D) (nat c) \<longleftrightarrow>
      (bit (bbColor b D) (nat c) \<noteq> (D = C \<and> c \<in> {?k + 4, ?k + 6, ?k + 7, ?k + 5}))" if "isCoord c" for c D
    unfolding views using bit_castling_move [OF that, of C] by (auto simp: bit_xor_iff)
  moreover have "bit (pieceBB ?r p) (nat c) \<longleftrightarrow> ((bit (pieceBB b p) (nat c) \<noteq> (p = ?R \<and> c \<in> {?k + 7, ?k + 5})) \<noteq>
          (p = ?K \<and> c \<in> {?k + 4, ?k + 6}))" if "isCoord c" "0 \<le> p" "p < 15" for c p
    unfolding views using bit_castling_move [OF that(1), of C]
    by (auto simp: pieceBB_upd G(6) that r bit_xor_iff simp del: makeCell_values)
  ultimately show ?thesis unfolding castled_def using G(1,6) by (simp add: views)
qed

lemma makeQueensideCastling_castled:
  assumes z: "zobrist_ok z" and g: "good z b"
    and cells: "cellAt b (castlingOffset C + 4) = makeCell C King" "cellAt b (castlingOffset C) = makeCell C Rook"
      "cellAt b (castlingOffset C + 2) = EMPTY_CELL" "cellAt b (castlingOffset C + 3) = EMPTY_CELL"
  shows "castled z C b (castlingOffset C + 4) (castlingOffset C + 2) (castlingOffset C) (castlingOffset C + 3)
    (makeQueensideCastling C False z b)"
proof -
  note G = goodD [OF g]
  let ?k = "castlingOffset C" and ?r = "makeQueensideCastling C False z b"
  let ?K = "makeCell C King" and ?R = "makeCell C Rook"
  let ?b = "xorPiece (xorPiece (xorColor (xorHash (setCell (setCell (setCell (setCell b ?k EMPTY_CELL)
      (?k + 2) ?K) (?k + 3) ?R) (?k + 4) EMPTY_CELL) (zCastlingQueenside z C)) C (push_bit (nat ?k) 0x1d))
      ?R (push_bit (nat ?k) 0x09)) ?K (push_bit (nat ?k) 0x14)"
  have r': "?r = xorHash (clearColorCastling (xorHash ?b (zCastling z (castling ?b))) C)
      (zCastling z (castling (clearColorCastling (xorHash ?b (zCastling z (castling ?b))) C)))"
    by (simp add: makeQueensideCastling_def Let_def)
  note r = valid_range [OF isCellValid_makeCell [of C King]] valid_range [OF isCellValid_makeCell [of C Rook]]
  have views: "cellAt ?r c = cellAt ?b c" "bbColor ?r D = bbColor ?b D" "pieceBB ?r p = pieceBB ?b p"
    "cells ?r = cells ?b" "length (bbPieces ?r) = length (bbPieces ?b)" for c D p
    unfolding r' clearColorCastling_def by simp_all
  have "defect z ?r = defect z ?b"
    unfolding r' by (simp add: defect_clearColorCastling ac_simps)
  also have "\<dots> = defect z b"
  proof -
    have "zCastlingQueenside z C = zPiece z ?R ?k XOR zPiece z ?K (?k + 2) XOR zPiece z ?R (?k + 3)
        XOR zPiece z ?K (?k + 4)" using z by (simp add: zobrist_ok_def)
    then show ?thesis
      using cells G(1) zPiece_empty [OF z] by (simp add: defect_setCell [OF z] cellAt_setCell ac_simps)
  qed
  finally have "defect z ?r = defect z b" .
  moreover have "bit (castling ?r) n \<longleftrightarrow> bit (castling b) n \<and> n \<noteq> kbit C \<and> n \<noteq> qbit C" for n
    unfolding r' by (simp add: clearColorCastling_bits)
  moreover have "cellAt ?r c = (if c = ?k + 4 \<or> c = ?k then EMPTY_CELL else if c = ?k + 2 then ?K
        else if c = ?k + 3 then ?R else cellAt b c)" if "isCoord c" for c
    unfolding views using that G(1) by (simp add: cellAt_setCell)
  moreover have "bit (bbColor ?r D) (nat c) \<longleftrightarrow>
      (bit (bbColor b D) (nat c) \<noteq> (D = C \<and> c \<in> {?k + 4, ?k + 2, ?k, ?k + 3}))" if "isCoord c" for c D
    unfolding views using bit_castling_move [OF that, of C] by (auto simp: bit_xor_iff)
  moreover have "bit (pieceBB ?r p) (nat c) \<longleftrightarrow> ((bit (pieceBB b p) (nat c) \<noteq> (p = ?R \<and> c \<in> {?k, ?k + 3})) \<noteq>
          (p = ?K \<and> c \<in> {?k + 4, ?k + 2}))" if "isCoord c" "0 \<le> p" "p < 15" for c p
    unfolding views using bit_castling_move [OF that(1), of C]
    by (auto simp: pieceBB_upd G(6) that r bit_xor_iff simp del: makeCell_values)
  ultimately show ?thesis unfolding castled_def using G(1,6) by (simp add: views)
qed


section \<open>Making a move\<close>

text \<open>What \<^verbatim>\<open>moveMake\<close> needs of a move: the part of pseudo-legality that keeps the board consistent.\<close>

definition makeable :: "board \<Rightarrow> move \<Rightarrow> bool" where
  "makeable b m \<longleftrightarrow> (let C = side b; k = castlingOffset C in
     isCoord (src m) \<and> isCoord (dst m) \<and>
     (case kind m of
        Null \<Rightarrow> True
      | Invalid \<Rightarrow> False
      | Simple \<Rightarrow> can_move C b (src m) (dst m) (cellAt b (src m)) (cellAt b (dst m))
      | PawnDoubleMove \<Rightarrow> can_move C b (src m) (dst m) (makeCell C Pawn) EMPTY_CELL \<and>
          coordX (dst m) = doubleMoveDstRow C \<and> cellAt b (dst m - pawnForwardDelta C) = EMPTY_CELL \<and>
          dst m - pawnForwardDelta C \<noteq> src m \<and> isCoord (dst m - pawnForwardDelta C)
      | Enpassant \<Rightarrow> can_move C b (src m) (dst m) (makeCell C Pawn) EMPTY_CELL \<and>
          isCoord (enpassantPawnPos C (dst m)) \<and>
          cellAt b (enpassantPawnPos C (dst m)) = makeCell (invert C) Pawn
      | CastlingKingside \<Rightarrow> src m = k + 4 \<and> dst m = k + 6 \<and> isKingsideCastling b C \<and>
          cellAt b (k + 5) = EMPTY_CELL \<and> cellAt b (k + 6) = EMPTY_CELL
      | CastlingQueenside \<Rightarrow> src m = k + 4 \<and> dst m = k + 2 \<and> isQueensideCastling b C \<and>
          cellAt b (k + 1) = EMPTY_CELL \<and> cellAt b (k + 2) = EMPTY_CELL \<and> cellAt b (k + 3) = EMPTY_CELL
      | _ \<Rightarrow> can_move C b (src m) (dst m) (makeCell C Pawn) (cellAt b (dst m))))"

definition clear_enpassant :: "zobrist \<Rightarrow> board \<Rightarrow> board" where
  "clear_enpassant z b = (if enpassantCoord b \<noteq> INVALID_COORD
     then (xorHash b (zEnpassant z (enpassantCoord b)))\<lparr>enpassantCoord := INVALID_COORD\<rparr> else b)"

definition move_body :: "zobrist \<Rightarrow> board \<Rightarrow> board \<Rightarrow> move \<Rightarrow> board" where
  "move_body z b b1 m = (let C = side b; srcCell = cellAt b (src m); dstCell = cellAt b (dst m);
     bbChange = coordToBitboard (src m) OR coordToBitboard (dst m) in
     case kind m of
       Simple \<Rightarrow> makeSimple C z b1 m srcCell dstCell
     | PawnDoubleMove \<Rightarrow> makePawnDoubleMove C False z b1 m bbChange
     | PromoteKnight \<Rightarrow> makePromote C z b1 m srcCell dstCell
     | PromoteBishop \<Rightarrow> makePromote C z b1 m srcCell dstCell
     | PromoteRook \<Rightarrow> makePromote C z b1 m srcCell dstCell
     | PromoteQueen \<Rightarrow> makePromote C z b1 m srcCell dstCell
     | CastlingKingside \<Rightarrow> makeKingsideCastling C False z b1
     | CastlingQueenside \<Rightarrow> makeQueensideCastling C False z b1
     | Null \<Rightarrow> b1
     | Enpassant \<Rightarrow> makeEnpassant C False z b1 m bbChange
     | Invalid \<Rightarrow> b1)"

definition move_finish :: "zobrist \<Rightarrow> board \<Rightarrow> move \<Rightarrow> board \<Rightarrow> board" where
  "move_finish z b m b2 =
     (let b3 = (if cellAt b (dst m) \<noteq> EMPTY_CELL \<or> cellAt b (src m) = makeCell (side b) Pawn
                then b2\<lparr>moveCounter := 0\<rparr> else b2\<lparr>moveCounter := moveCounter b2 + 1\<rparr>);
          b4 = xorHash (b3\<lparr>side := invert (side b)\<rparr>) (zobristMoveSide z);
          b5 = (if side b = Black then b4\<lparr>moveNumber := moveNumber b4 + 1\<rparr> else b4)
      in b5\<lparr>bbAll := bbWhite b5 OR bbBlack b5\<rparr>)"

lemma moveMake_stages:
  "fst (moveMake z b m) = move_finish z b m (move_body z b (clear_enpassant z b) m)"
  by (cases "side b") (simp_all add: moveMake_def moveMakeImpl_def move_finish_def move_body_def
      clear_enpassant_def Let_def)

lemma clear_enpassant_views [simp]:
  "cells (clear_enpassant z b) = cells b" "side (clear_enpassant z b) = side b"
  "castling (clear_enpassant z b) = castling b" "enpassantCoord (clear_enpassant z b) = INVALID_COORD"
  "bbWhite (clear_enpassant z b) = bbWhite b" "bbBlack (clear_enpassant z b) = bbBlack b"
  "bbPieces (clear_enpassant z b) = bbPieces b" "cellAt (clear_enpassant z b) c = cellAt b c"
  "defect z (clear_enpassant z b) = defect z b"
  "moveCounter (clear_enpassant z b) = moveCounter b" "moveNumber (clear_enpassant z b) = moveNumber b"
  "unused (clear_enpassant z b) = unused b"
  by (simp_all add: clear_enpassant_def defect_enpassant xorHash_def)
    (simp add: defect_enpassant xorHash_def [symmetric])

lemma clear_enpassant_good: "good z b \<Longrightarrow> good z (clear_enpassant z b)"
  by (rule good_cong [of _ b]) simp_all

section \<open>Making a move keeps the board consistent\<close>

lemma can_move_cong: "(\<And>c. cellAt a c = cellAt b c) \<Longrightarrow> can_move C a = can_move C b"
  by (simp add: can_move_def fun_eq_iff)

lemma updateCastling_views [simp]:
  "side (updateCastling z b ch) = side b" "enpassantCoord (updateCastling z b ch) = enpassantCoord b"
  "moveCounter (updateCastling z b ch) = moveCounter b" "moveNumber (updateCastling z b ch) = moveNumber b"
  "unused (updateCastling z b ch) = unused b" "cells (updateCastling z b ch) = cells b"
  "bbWhite (updateCastling z b ch) = bbWhite b" "bbBlack (updateCastling z b ch) = bbBlack b"
  "bbPieces (updateCastling z b ch) = bbPieces b"
  by (subst updateCastling_frame, simp)+

lemma clearColorCastling_views [simp]:
  "cells (clearColorCastling b C) = cells b" "side (clearColorCastling b C) = side b"
  "enpassantCoord (clearColorCastling b C) = enpassantCoord b"
  "moveCounter (clearColorCastling b C) = moveCounter b" "moveNumber (clearColorCastling b C) = moveNumber b"
  "unused (clearColorCastling b C) = unused b" "bbWhite (clearColorCastling b C) = bbWhite b"
  "bbBlack (clearColorCastling b C) = bbBlack b" "bbPieces (clearColorCastling b C) = bbPieces b"
  by (simp_all add: clearColorCastling_def)

lemmas make_defs = makeSimple_def makePromote_def makeKingsideCastling_def makeQueensideCastling_def
  makeEnpassant_def makePawnDoubleMove_def

lemma move_body_views:
  "side (move_body z b b1 m) = side b1"
  "enpassantCoord (move_body z b b1 m) = (if kind m = PawnDoubleMove then dst m else enpassantCoord b1)"
  "moveCounter (move_body z b b1 m) = moveCounter b1" "moveNumber (move_body z b b1 m) = moveNumber b1"
  "unused (move_body z b b1 m) = unused b1"
  by (cases "kind m"; simp add: move_body_def make_defs Let_def)+

lemma move_body_good:
  assumes z: "zobrist_ok z" and g: "good z b" and mk: "makeable b m"
  shows "good z (move_body z b (clear_enpassant z b) m)"
proof -
  let ?C = "side b" and ?a = "clear_enpassant z b"
  have ga: "good z ?a" by (rule clear_enpassant_good [OF g])
  have cm: "can_move ?C ?a = can_move ?C b" by (rule can_move_cong) simp
  note defs = move_body_def makeable_def Let_def
  have pr: "good z (makePromote ?C z ?a m (cellAt b (src m)) (cellAt b (dst m)))"
    if "isMoveKindPromote (kind m)" "can_move ?C b (src m) (dst m) (makeCell ?C Pawn) (cellAt b (dst m))"
    using makePromote_good [OF z ga _ that(1)] that(2) can_moveD(4) [OF that(2)] cm by simp
  have off: "isCoord (castlingOffset ?C + n)" if "0 \<le> n" "n < 8" for n
    using that by (cases ?C) (simp_all add: castlingOffset_def castlingRow_def isCoord_def)
  have ca: "castling_ok ?a" using goodD(3) [OF ga] .
  show ?thesis
  proof (cases "kind m")
    case Simple
    then show ?thesis using mk makeSimple_good [OF z ga] by (simp add: defs cm)
  next
    case PawnDoubleMove
    then show ?thesis using mk makePawnDoubleMove_good(1) [OF z ga] by (simp add: defs cm)
  next
    case Enpassant
    have "enpassantPawnPos ?C (dst m) \<noteq> src m"
    proof
      assume e: "enpassantPawnPos ?C (dst m) = src m"
      with mk Enpassant have "makeCell (invert ?C) Pawn = makeCell ?C Pawn"
        by (auto simp: defs can_move_def simp del: makeCell_values)
      then show False by simp
    qed
    then show ?thesis
      using Enpassant mk makeEnpassant_good(1) [OF z ga, of ?C m] by (simp add: defs cm del: makeCell_values)
  next
    case CastlingKingside
    have k: "cellAt b (castlingOffset ?C + 4) = makeCell ?C King" "cellAt b (castlingOffset ?C + 7) = makeCell ?C Rook"
      using mk CastlingKingside goodD(3) [OF g] unfolding defs castling_ok_def by auto
    have "castled z ?C ?a (castlingOffset ?C + 4) (castlingOffset ?C + 6) (castlingOffset ?C + 7)
        (castlingOffset ?C + 5) (makeKingsideCastling ?C False z ?a)"
      using k mk CastlingKingside by (intro makeKingsideCastling_castled [OF z ga]) (simp_all add: defs)
    from castled_good [OF ga this] k mk CastlingKingside off have "good z (makeKingsideCastling ?C False z ?a)"
      by (simp_all add: defs insert_commute) (auto simp: less_diff_conv)?
    then show ?thesis using CastlingKingside by (simp add: defs)
  next
    case CastlingQueenside
    have k: "cellAt b (castlingOffset ?C + 4) = makeCell ?C King" "cellAt b (castlingOffset ?C) = makeCell ?C Rook"
      using mk CastlingQueenside goodD(3) [OF g] unfolding defs castling_ok_def by auto
    have "castled z ?C ?a (castlingOffset ?C + 4) (castlingOffset ?C + 2) (castlingOffset ?C)
        (castlingOffset ?C + 3) (makeQueensideCastling ?C False z ?a)"
      using k mk CastlingQueenside by (intro makeQueensideCastling_castled [OF z ga]) (simp_all add: defs)
    from castled_good [OF ga this] k mk CastlingQueenside off have "good z (makeQueensideCastling ?C False z ?a)"
      by (simp_all add: defs insert_commute) (auto simp: less_diff_conv)?
    then show ?thesis using CastlingQueenside by (simp add: defs)
  next
    case Null
    then show ?thesis using ga by (simp add: defs)
  next
    case Invalid
    then show ?thesis using mk by (simp add: defs)
  qed (use mk pr in \<open>simp_all add: defs isMoveKindPromote_def\<close>)
qed

lemma move_finish_views [simp]:
  "cells (move_finish z b m a) = cells a" "castling (move_finish z b m a) = castling a"
  "enpassantCoord (move_finish z b m a) = enpassantCoord a" "side (move_finish z b m a) = invert (side b)"
  "bbPieces (move_finish z b m a) = bbPieces a" "bbWhite (move_finish z b m a) = bbWhite a"
  "bbBlack (move_finish z b m a) = bbBlack a" "cellAt (move_finish z b m a) c = cellAt a c"
  "bbAll (move_finish z b m a) = bbWhite a OR bbBlack a" "unused (move_finish z b m a) = unused a"
  by (simp_all add: move_finish_def Let_def cellAt_def xorHash_def)

lemma defect_set_side:
  "defect z (a\<lparr>moveCounter := n, side := invert (side a)\<rparr>) = defect z a XOR zobristMoveSide z"
  by (cases "side a") (simp_all add: defect_def fullHash_def ac_simps)

lemma move_finish_defect:
  assumes "side a = side b"
  shows "defect z (move_finish z b m a) = defect z a"
  using defect_set_side [of z a] assms by (cases "side b") (simp_all add: move_finish_def Let_def xor.assoc)

lemma moveMake_good:
  assumes "zobrist_ok z" "good z b" "makeable b m"
  shows "good z (fst (moveMake z b m))"
  unfolding moveMake_stages
  by (rule good_cong [OF _ _ _ _ _ _ move_body_good [OF assms]])
    (simp_all add: move_finish_defect move_body_views)

theorem moveMake_keeps_consistent:
  assumes z: "zobrist_ok z" and c: "consistent z b" and mk: "makeable b m"
  shows "consistent z (fst (moveMake z b m))"
proof -
  let ?r = "fst (moveMake z b m)" and ?a = "clear_enpassant z b"
  have g: "good z b" using c by (simp add: consistent_iff)
  have views: "enpassantCoord ?r = (if kind m = PawnDoubleMove then dst m else INVALID_COORD)"
    "side ?r = invert (side b)" "bbAll ?r = bbWhite ?r OR bbBlack ?r"
    by (simp_all add: moveMake_stages move_body_views)
  have ep: "ep_ok ?r \<and> isCoord (dst m) \<and> coordX (dst m) = enpassantSrcRow (side ?r)"
    if k: "kind m = PawnDoubleMove"
  proof -
    have mk': "can_move (side b) b (src m) (dst m) (makeCell (side b) Pawn) EMPTY_CELL"
      "coordX (dst m) = doubleMoveDstRow (side b)" "cellAt b (dst m - pawnForwardDelta (side b)) = EMPTY_CELL"
      "dst m - pawnForwardDelta (side b) \<noteq> src m" "isCoord (dst m - pawnForwardDelta (side b))" "isCoord (dst m)"
      using mk k by (simp_all add: makeable_def Let_def)
    have cm: "can_move (side b) ?a (src m) (dst m) (makeCell (side b) Pawn) EMPTY_CELL"
      using mk'(1) can_move_cong [of ?a b] by simp
    have cell: "cellAt ?r c = (if c = dst m then makeCell (side b) Pawn else if c = src m then EMPTY_CELL else cellAt b c)"
      if "isCoord c" for c
      using makePawnDoubleMove_good(2) [OF z clear_enpassant_good [OF g] cm _ that] k
      by (simp add: moveMake_stages move_body_def Let_def)
    have "pawnForwardDelta (invert (side b)) = - pawnForwardDelta (side b)"
      by (cases "side b") (simp_all add: pawnForwardDelta_def)
    then have "ep_ok ?r"
      using cell [OF mk'(6)] cell [OF mk'(5)] mk'(3,4)
      by (simp add: ep_ok_def views k pawnForwardDelta_def split: if_splits)
    moreover have "coordX (dst m) = enpassantSrcRow (side ?r)"
      using mk'(2) by (cases "side b") (simp_all add: views doubleMoveDstRow_def enpassantSrcRow_def)
    ultimately show ?thesis using mk'(6) by blast
  qed
  show ?thesis
    unfolding consistent_iff
    using moveMake_good [OF z g mk] ep views by (auto simp: ep_ok_def)
qed

end
