(* ===== verification/Move_Unmake.thy ===== *)
theory Move_Unmake
  imports Move_Correct
begin

text \<open>\<^verbatim>\<open>moveUnmake\<close> of \<^verbatim>\<open>src/src/core/move.cpp\<close>: for each kind of move the inverse updates give back
  the cells and the bitboards, and the saved data gives back the rest.\<close>

section \<open>Unmaking a move\<close>

lemma moveUnmake_make:
  "moveUnmake z (fst (moveMake z b m)) m (snd (moveMake z b m)) =
     moveUnmakeImpl (side b) z (fst (moveMake z b m)) m (snd (moveMake z b m))"
proof -
  have "side (fst (moveMake z b m)) = invert (side b)" by (simp add: moveMake_stages)
  then show ?thesis by (cases "side b") (simp_all add: moveUnmake_def)
qed

text \<open>What unmaking has to restore by itself; the rest it copies from the saved data.\<close>

definition restored :: "board \<Rightarrow> board \<Rightarrow> bool" where
  "restored b r \<longleftrightarrow> cells r = cells b \<and> (\<forall>D. bbColor r D = bbColor b D) \<and> bbPieces r = bbPieces b \<and>
     unused r = unused b"

lemma restoredI:
  assumes "cells r = cells b" "\<And>D. bbColor r D = bbColor b D" "unused r = unused b"
    "length (bbPieces r) = BB_PIECES_SZ" "length (bbPieces b) = BB_PIECES_SZ"
    "\<And>p. 0 \<le> p \<Longrightarrow> p < 15 \<Longrightarrow> pieceBB r p = pieceBB b p"
  shows "restored b r"
proof -
  have "bbPieces r ! k = bbPieces b ! k" if "k < 15" for k
    using assms(6) [of "int k"] that by (simp add: pieceBB_def)
  then have "bbPieces r = bbPieces b"
    using assms(4,5) by (auto intro: nth_equalityI simp: BB_PIECES_SZ_def)
  then show ?thesis using assms(1-3) by (simp add: restored_def)
qed

lemma clear_then_set:
  assumes "isCoord d"
  shows "bit x (nat d) \<Longrightarrow> (x AND NOT (coordToBitboard d)) OR coordToBitboard d = (x :: bitboard)"
    "\<not> bit x (nat d) \<Longrightarrow> x AND NOT (coordToBitboard d) = x"
  using assms by (auto intro!: bitboard_eqI simp: bit_or_iff bit_and_iff bit_NOT_coord bit_coord_bb)

lemma undo_cells:
  assumes "length cs = 64" "cs ! nat s = v" "cs ! nat d = w" "nat s \<noteq> nat d"
  shows "cs[nat s := a, nat d := u, nat s := v, nat d := w] = cs"
  using assms by (metis list_update_id list_update_overwrite list_update_swap)

lemma unmakeSimple_restores:
  assumes g: "good z b" and cm: "can_move C b (src m) (dst m) v w"
    and r: "cells r = cells a" "\<And>D. bbColor r D = bbColor a D" "bbPieces r = bbPieces a" "unused r = unused a"
    and a: "a = makeSimple C z b m v w"
  shows "restored b (unmakeSimple C r m v w)"
proof (rule restoredI)
  note G = goodD [OF g] and M = can_moveD [OF cm]
  let ?ch = "coordToBitboard (src m) OR coordToBitboard (dst m)"
  let ?b = "clearPiece (clearColor (xorPiece (xorColor (xorHash (setCell (setCell b (src m) EMPTY_CELL) (dst m) v)
      (zPiece z v (src m) XOR zPiece z v (dst m) XOR zPiece z w (dst m))) C ?ch) v ?ch)
      (invert C) (coordToBitboard (dst m))) w (coordToBitboard (dst m))"
  have a': "a = updateCastling z ?b ?ch" by (simp add: a makeSimple_def Let_def)
  have vw: "v \<noteq> w" using M(5,6,8) by (cases C) auto
  have rng: "0 \<le> v" "v < 15" "0 \<le> w" "w < 15"
    using valid_range [OF G(7)] M(1,2,4,7) by blast+
  have A: "cells a = (cells b)[nat (src m) := EMPTY_CELL, nat (dst m) := v]"
    "bbPieces a = bbPieces ?b" "unused a = unused b" "bbColor a D = bbColor ?b D" for D
    unfolding a' by (simp_all add: bbColor_def)
  have sd: "nat (src m) \<noteq> nat (dst m)" using M(1-3) by (auto simp: isCoord_def eq_nat_nat_iff)
  show "cells (unmakeSimple C r m v w) = cells b"
    using undo_cells [OF G(1) _ _ sd] M(4,7) by (simp add: unmakeSimple_def Let_def r A cellAt_def)
  show "unused (unmakeSimple C r m v w) = unused b"
    by (simp add: unmakeSimple_def Let_def r A)
  have lr: "length (bbPieces r) = BB_PIECES_SZ" using G(6) by (simp add: r A)
  show "length (bbPieces (unmakeSimple C r m v w)) = BB_PIECES_SZ" "length (bbPieces b) = BB_PIECES_SZ"
    using lr G(6) by (simp_all add: unmakeSimple_def Let_def)
  have rp: "pieceBB r p = (if p = w then pieceBB b w AND NOT (coordToBitboard (dst m))
      else if p = v then pieceBB b v XOR ?ch else pieceBB b p)" if "0 \<le> p" "p < 15" for p
    using vw by (simp add: pieceBB_def [of r] r A(2)) (simp add: pieceBB_def [symmetric] pieceBB_upd G(6) rng that)
  show "bbColor (unmakeSimple C r m v w) D = bbColor b D" for D
    using bbs_okD(1) [OF G(4) M(2), of D] M(7,8) clear_then_set [OF M(2), of "bbColor b D"]
    by (cases "D = C") (auto simp: unmakeSimple_def Let_def r A xor.assoc)
  show "pieceBB (unmakeSimple C r m v w) p = pieceBB b p" if "0 \<le> p" "p < 15" for p
  proof -
    have "unmakeSimple C r m v w = (let r3 = xorPiece (xorColor (setCell (setCell r (src m) v) (dst m) w) C ?ch) v ?ch
        in if w \<noteq> EMPTY_CELL then orPiece (orColor r3 (invert C) (coordToBitboard (dst m))) w (coordToBitboard (dst m))
           else r3)" by (simp add: unmakeSimple_def Let_def)
    then have *: "pieceBB (unmakeSimple C r m v w) p = (if p = v then pieceBB r v XOR ?ch
        else if p = w \<and> w \<noteq> EMPTY_CELL then pieceBB r w OR coordToBitboard (dst m) else pieceBB r p)"
      using vw by (simp add: Let_def pieceBB_upd lr rng that)
    show ?thesis
      unfolding * rp [OF that] rp [OF rng(1,2)] rp [OF rng(3,4)]
      using bbs_okD(2) [OF G(4) M(2) that] M(7) vw clear_then_set [OF M(2), of "pieceBB b p"]
      by (auto simp: xor.assoc)
  qed
qed


lemma unmakePromote_restores:
  assumes g: "good z b" and cm: "can_move C b (src m) (dst m) (makeCell C Pawn) w"
    and k: "isMoveKindPromote (kind m)"
    and r: "cells r = cells a" "\<And>D. bbColor r D = bbColor a D" "bbPieces r = bbPieces a" "unused r = unused a"
    and a: "a = makePromote C z b m (makeCell C Pawn) w"
  shows "restored b (unmakePromote C r m w)"
proof (rule restoredI)
  note G = goodD [OF g] and M = can_moveD [OF cm]
  let ?s = "coordToBitboard (src m)" and ?d = "coordToBitboard (dst m)"
  let ?v = "makeCell C Pawn" and ?u = "makeCell C (moveKindPromotePiece (kind m))"
  let ?b = "clearPiece (clearColor (xorPiece (xorPiece (xorColor (xorHash (setCell (setCell b (src m) EMPTY_CELL)
      (dst m) ?u) (zPiece z ?v (src m) XOR zPiece z ?u (dst m) XOR zPiece z w (dst m))) C (?s OR ?d))
      ?v ?s) ?u ?d) (invert C) ?d) w ?d"
  have a': "a = updateCastling z ?b (?s OR ?d)" by (simp add: a makePromote_def Let_def)
  have vw: "?v \<noteq> w" "?u \<noteq> w" "?u \<noteq> ?v"
    using M(8) k by (auto simp: isMoveKindPromote_def moveKindPromotePiece_def pieceOfVal_def simp del: makeCell_values)
  have rng: "0 \<le> ?v" "?v < 15" "0 \<le> ?u" "?u < 15" "0 \<le> w" "w < 15"
    using valid_range [OF isCellValid_makeCell [of C Pawn]] valid_range [OF isCellValid_makeCell [of C "moveKindPromotePiece (kind m)"]]
      valid_range [OF G(7)] M(2,7) by blast+
  have A: "cells a = (cells b)[nat (src m) := EMPTY_CELL, nat (dst m) := ?u]"
    "bbPieces a = bbPieces ?b" "unused a = unused b" "bbColor a D = bbColor ?b D" for D
    unfolding a' by (simp_all add: bbColor_def)
  have sd: "nat (src m) \<noteq> nat (dst m)" using M(1-3) by (auto simp: isCoord_def eq_nat_nat_iff)
  show "cells (unmakePromote C r m w) = cells b"
    using undo_cells [OF G(1) _ _ sd] M(4,7) by (simp add: unmakePromote_def Let_def r A cellAt_def)
  show "unused (unmakePromote C r m w) = unused b"
    by (simp add: unmakePromote_def Let_def r A)
  have lr: "length (bbPieces r) = BB_PIECES_SZ" using G(6) by (simp add: r A)
  show "length (bbPieces (unmakePromote C r m w)) = BB_PIECES_SZ" "length (bbPieces b) = BB_PIECES_SZ"
    using lr G(6) by (simp_all add: unmakePromote_def Let_def)
  have rp: "pieceBB r p = (if p = w then pieceBB b w AND NOT ?d
      else if p = ?u then pieceBB b ?u XOR ?d else if p = ?v then pieceBB b ?v XOR ?s else pieceBB b p)"
    if "0 \<le> p" "p < 15" for p
    using vw by (simp add: pieceBB_def [of r] r A(2) del: makeCell_values)
      (simp add: pieceBB_def [symmetric] pieceBB_upd G(6) rng that del: makeCell_values)
  show "bbColor (unmakePromote C r m w) D = bbColor b D" for D
    using bbs_okD(1) [OF G(4) M(2), of D] M(7,8) clear_then_set [OF M(2), of "bbColor b D"]
    by (cases "D = C") (auto simp: unmakePromote_def Let_def r A xor.assoc)
  show "pieceBB (unmakePromote C r m w) p = pieceBB b p" if "0 \<le> p" "p < 15" for p
  proof -
    have "unmakePromote C r m w = (let r3 = xorPiece (xorPiece (xorColor (setCell (setCell r (src m) ?v) (dst m) w)
          C (?s OR ?d)) ?v ?s) ?u ?d
        in if w \<noteq> EMPTY_CELL then orPiece (orColor r3 (invert C) ?d) w ?d else r3)"
      by (simp add: unmakePromote_def Let_def)
    then have *: "pieceBB (unmakePromote C r m w) p = (if p = ?v then pieceBB r ?v XOR ?s
        else if p = ?u then pieceBB r ?u XOR ?d
        else if p = w \<and> w \<noteq> EMPTY_CELL then pieceBB r w OR ?d else pieceBB r p)"
      using vw by (simp add: Let_def pieceBB_upd lr rng that del: makeCell_values)
    show ?thesis
      unfolding * rp [OF that] rp [OF rng(1,2)] rp [OF rng(3,4)] rp [OF rng(5,6)]
      using bbs_okD(2) [OF G(4) M(2) that] M(7) vw clear_then_set [OF M(2), of "pieceBB b p"]
      by (auto simp: xor.assoc simp del: makeCell_values)
  qed
qed

lemma double_restores:
  assumes g: "good z b" and cm: "can_move C b (src m) (dst m) (makeCell C Pawn) EMPTY_CELL"
    and r: "cells r = cells a" "\<And>D. bbColor r D = bbColor a D" "bbPieces r = bbPieces a" "unused r = unused a"
    and a: "a = makePawnDoubleMove C False z b m ch"
  shows "restored b (makePawnDoubleMove C True z r m ch)"
proof (rule restoredI)
  note G = goodD [OF g] and M = can_moveD [OF cm]
  note rng = valid_range [OF isCellValid_makeCell [of C Pawn]]
  let ?b = "xorPiece (xorColor b C ch) (makeCell C Pawn) ch"
  have A: "cells a = (cells b)[nat (src m) := EMPTY_CELL, nat (dst m) := makeCell C Pawn]"
    "bbPieces a = bbPieces ?b" "unused a = unused b" "bbColor a D = bbColor ?b D" for D
    unfolding a by (simp_all add: makePawnDoubleMove_def Let_def op_defs bbColor_def pieceBB_def)
  let ?r = "makePawnDoubleMove C True z r m ch"
  have R: "?r = xorPiece (xorColor (setCell (setCell r (src m) (makeCell C Pawn)) (dst m) EMPTY_CELL) C ch)
      (makeCell C Pawn) ch" by (simp add: makePawnDoubleMove_def Let_def)
  have sd: "nat (src m) \<noteq> nat (dst m)" using M(1-3) by (auto simp: isCoord_def eq_nat_nat_iff)
  show "cells ?r = cells b"
    using undo_cells [OF G(1) _ _ sd] M(4,7) by (simp add: R r A cellAt_def)
  show "unused ?r = unused b" by (simp add: R r A)
  have lr: "length (bbPieces r) = BB_PIECES_SZ" using G(6) by (simp add: r A)
  show "length (bbPieces ?r) = BB_PIECES_SZ" "length (bbPieces b) = BB_PIECES_SZ" using lr G(6) by (simp_all add: R)
  show "bbColor ?r D = bbColor b D" for D by (simp add: R r A xor.assoc)
  have "pieceBB r p = pieceBB ?b p" for p by (simp add: pieceBB_def r A(2))
  then show "pieceBB ?r p = pieceBB b p" if "0 \<le> p" "p < 15" for p
    by (simp add: R pieceBB_upd lr G(6) rng that xor.assoc del: makeCell_values)
qed

lemma enpassant_restores:
  assumes g: "good z b" and cm: "can_move C b (src m) (dst m) (makeCell C Pawn) EMPTY_CELL"
    and t: "isCoord (enpassantPawnPos C (dst m))" "cellAt b (enpassantPawnPos C (dst m)) = makeCell (invert C) Pawn"
    and r: "cells r = cells a" "\<And>D. bbColor r D = bbColor a D" "bbPieces r = bbPieces a" "unused r = unused a"
    and a: "a = makeEnpassant C False z b m ch"
  shows "restored b (makeEnpassant C True z r m ch)"
proof (rule restoredI)
  note G = goodD [OF g] and M = can_moveD [OF cm]
  note rng = valid_range [OF isCellValid_makeCell [of C Pawn]] valid_range [OF isCellValid_makeCell [of "invert C" Pawn]]
  let ?t = "enpassantPawnPos C (dst m)" and ?v = "makeCell C Pawn" and ?w = "makeCell (invert C) Pawn"
  let ?T = "coordToBitboard ?t"
  let ?b = "xorPiece (xorColor (xorPiece (xorColor b C ch) ?v ch) (invert C) ?T) ?w ?T"
  have A: "cells a = (cells b)[nat (src m) := EMPTY_CELL, nat (dst m) := ?v, nat ?t := EMPTY_CELL]"
    "bbPieces a = bbPieces ?b" "unused a = unused b" "bbColor a D = bbColor ?b D" for D
    unfolding a by (simp_all add: makeEnpassant_def Let_def op_defs bbColor_def pieceBB_def del: makeCell_values)
  let ?r = "makeEnpassant C True z r m ch"
  have R: "?r = xorPiece (xorColor (xorPiece (xorColor (setCell (setCell (setCell r (src m) ?v) (dst m) EMPTY_CELL)
      ?t ?w) C ch) ?v ch) (invert C) ?T) ?w ?T" by (simp add: makeEnpassant_def Let_def)
  have ts: "?t \<noteq> src m" "?t \<noteq> dst m" "?v \<noteq> ?w" using t(2) M(4,7) by auto
  have n: "nat (src m) \<noteq> nat (dst m)" "nat ?t \<noteq> nat (src m)" "nat ?t \<noteq> nat (dst m)"
    using M(1-3) ts t(1) by (auto simp: isCoord_def eq_nat_nat_iff)
  have lt: "nat (src m) < 64" "nat (dst m) < 64" "nat ?t < 64" using M(1,2) t(1) by (auto simp: isCoord_def)
  show "cells ?r = cells b"
  proof (rule nth_equalityI)
    fix i assume "i < length (cells ?r)"
    then show "cells ?r ! i = cells b ! i"
      using n t(2) M(4,7) G(1) lt by (auto simp: R r A nth_list_update cellAt_def simp del: makeCell_values)
  qed (simp add: R r A)
  show "unused ?r = unused b" by (simp add: R r A)
  have lr: "length (bbPieces r) = BB_PIECES_SZ" using G(6) by (simp add: r A)
  show "length (bbPieces ?r) = BB_PIECES_SZ" "length (bbPieces b) = BB_PIECES_SZ" using lr G(6) by (simp_all add: R)
  show "bbColor ?r D = bbColor b D" for D by (cases "D = C") (auto simp: R r A xor.assoc)
  have "pieceBB r p = pieceBB ?b p" for p by (simp add: pieceBB_def r A(2))
  then show "pieceBB ?r p = pieceBB b p" if "0 \<le> p" "p < 15" for p
    using ts(3) by (auto simp: R pieceBB_upd lr G(6) rng that xor.assoc simp del: makeCell_values)
qed


lemma kingside_restores:
  assumes g: "good z b"
    and c: "cellAt b (castlingOffset C + 4) = makeCell C King" "cellAt b (castlingOffset C + 5) = EMPTY_CELL"
      "cellAt b (castlingOffset C + 6) = EMPTY_CELL" "cellAt b (castlingOffset C + 7) = makeCell C Rook"
    and r: "cells r = cells a" "\<And>D. bbColor r D = bbColor a D" "bbPieces r = bbPieces a" "unused r = unused a"
    and a: "a = makeKingsideCastling C False z b"
  shows "restored b (makeKingsideCastling C True z r)"
proof (rule restoredI)
  note G = goodD [OF g]
  let ?k = "castlingOffset C" and ?K = "makeCell C King" and ?R = "makeCell C Rook"
  note rng = valid_range [OF isCellValid_makeCell [of C King]] valid_range [OF isCellValid_makeCell [of C Rook]]
  let ?p1 = "push_bit (nat ?k) 0xf0" and ?p2 = "push_bit (nat ?k) 0xa0" and ?p3 = "push_bit (nat ?k) 0x50"
  let ?b = "xorPiece (xorPiece (xorColor b C ?p1) ?R ?p2) ?K ?p3"
  have A: "cells a = (cells b)[nat (?k + 4) := EMPTY_CELL, nat (?k + 5) := ?R, nat (?k + 6) := ?K, nat (?k + 7) := EMPTY_CELL]"
    "bbPieces a = bbPieces ?b" "unused a = unused b" "bbColor a D = bbColor ?b D" for D
    unfolding a by (simp_all add: makeKingsideCastling_def Let_def op_defs bbColor_def pieceBB_def clearColorCastling_def
        del: makeCell_values)
  let ?r = "makeKingsideCastling C True z r"
  have R: "?r = xorPiece (xorPiece (xorColor (setCell (setCell (setCell (setCell r (?k + 4) ?K) (?k + 5) EMPTY_CELL)
      (?k + 6) EMPTY_CELL) (?k + 7) ?R) C ?p1) ?R ?p2) ?K ?p3" by (simp add: makeKingsideCastling_def Let_def)
  have off: "0 \<le> ?k" "?k \<le> 56" by (cases C; simp)+
  show "cells ?r = cells b"
  proof (rule nth_equalityI)
    fix i assume "i < length (cells ?r)"
    then show "cells ?r ! i = cells b ! i"
      using c G(1) off by (auto simp: R r A nth_list_update cellAt_def eq_nat_nat_iff simp del: makeCell_values)
  qed (simp add: R r A)
  show "unused ?r = unused b" by (simp add: R r A)
  have lr: "length (bbPieces r) = BB_PIECES_SZ" using G(6) by (simp add: r A)
  show "length (bbPieces ?r) = BB_PIECES_SZ" "length (bbPieces b) = BB_PIECES_SZ" using lr G(6) by (simp_all add: R)
  show "bbColor ?r D = bbColor b D" for D by (cases "D = C") (auto simp: R r A xor.assoc)
  have "pieceBB r p = pieceBB ?b p" for p by (simp add: pieceBB_def r A(2))
  then show "pieceBB ?r p = pieceBB b p" if "0 \<le> p" "p < 15" for p
    by (auto simp: R pieceBB_upd lr G(6) rng that xor.assoc simp del: makeCell_values)
qed

lemma queenside_restores:
  assumes g: "good z b"
    and c: "cellAt b (castlingOffset C + 4) = makeCell C King" "cellAt b (castlingOffset C + 3) = EMPTY_CELL"
      "cellAt b (castlingOffset C + 2) = EMPTY_CELL" "cellAt b (castlingOffset C) = makeCell C Rook"
    and r: "cells r = cells a" "\<And>D. bbColor r D = bbColor a D" "bbPieces r = bbPieces a" "unused r = unused a"
    and a: "a = makeQueensideCastling C False z b"
  shows "restored b (makeQueensideCastling C True z r)"
proof (rule restoredI)
  note G = goodD [OF g]
  let ?k = "castlingOffset C" and ?K = "makeCell C King" and ?R = "makeCell C Rook"
  note rng = valid_range [OF isCellValid_makeCell [of C King]] valid_range [OF isCellValid_makeCell [of C Rook]]
  let ?p1 = "push_bit (nat ?k) 0x1d" and ?p2 = "push_bit (nat ?k) 0x09" and ?p3 = "push_bit (nat ?k) 0x14"
  let ?b = "xorPiece (xorPiece (xorColor b C ?p1) ?R ?p2) ?K ?p3"
  have A: "cells a = (cells b)[nat ?k := EMPTY_CELL, nat (?k + 2) := ?K, nat (?k + 3) := ?R, nat (?k + 4) := EMPTY_CELL]"
    "bbPieces a = bbPieces ?b" "unused a = unused b" "bbColor a D = bbColor ?b D" for D
    unfolding a by (simp_all add: makeQueensideCastling_def Let_def op_defs bbColor_def pieceBB_def clearColorCastling_def
        del: makeCell_values)
  let ?r = "makeQueensideCastling C True z r"
  have R: "?r = xorPiece (xorPiece (xorColor (setCell (setCell (setCell (setCell r ?k ?R) (?k + 2) EMPTY_CELL)
      (?k + 3) EMPTY_CELL) (?k + 4) ?K) C ?p1) ?R ?p2) ?K ?p3" by (simp add: makeQueensideCastling_def Let_def)
  have off: "0 \<le> ?k" "?k \<le> 56" by (cases C; simp)+
  show "cells ?r = cells b"
  proof (rule nth_equalityI)
    fix i assume "i < length (cells ?r)"
    then show "cells ?r ! i = cells b ! i"
      using c G(1) off by (auto simp: R r A nth_list_update cellAt_def eq_nat_nat_iff simp del: makeCell_values)
  qed (simp add: R r A)
  show "unused ?r = unused b" by (simp add: R r A)
  have lr: "length (bbPieces r) = BB_PIECES_SZ" using G(6) by (simp add: r A)
  show "length (bbPieces ?r) = BB_PIECES_SZ" "length (bbPieces b) = BB_PIECES_SZ" using lr G(6) by (simp_all add: R)
  show "bbColor ?r D = bbColor b D" for D by (cases "D = C") (auto simp: R r A xor.assoc)
  have "pieceBB r p = pieceBB ?b p" for p by (simp add: pieceBB_def r A(2))
  then show "pieceBB ?r p = pieceBB b p" if "0 \<le> p" "p < 15" for p
    by (auto simp: R pieceBB_upd lr G(6) rng that xor.assoc simp del: makeCell_values)
qed

section \<open>Unmaking undoes making\<close>

definition unmake_body :: "zobrist \<Rightarrow> color \<Rightarrow> board \<Rightarrow> move \<Rightarrow> cell \<Rightarrow> board" where
  "unmake_body z C r m w = (let bbChange = coordToBitboard (src m) OR coordToBitboard (dst m) in
     case kind m of
       Simple \<Rightarrow> unmakeSimple C r m (cellAt r (dst m)) w
     | PawnDoubleMove \<Rightarrow> makePawnDoubleMove C True z r m bbChange
     | PromoteKnight \<Rightarrow> unmakePromote C r m w
     | PromoteBishop \<Rightarrow> unmakePromote C r m w
     | PromoteRook \<Rightarrow> unmakePromote C r m w
     | PromoteQueen \<Rightarrow> unmakePromote C r m w
     | CastlingKingside \<Rightarrow> makeKingsideCastling C True z r
     | CastlingQueenside \<Rightarrow> makeQueensideCastling C True z r
     | Null \<Rightarrow> r
     | Enpassant \<Rightarrow> makeEnpassant C True z r m bbChange
     | Invalid \<Rightarrow> r)"

lemma unmake_body_restores:
  assumes z: "zobrist_ok z" and g: "good z b" and mk: "makeable b m"
    and r: "cells r = cells (move_body z b (clear_enpassant z b) m)"
      "\<And>D. bbColor r D = bbColor (move_body z b (clear_enpassant z b) m) D"
      "bbPieces r = bbPieces (move_body z b (clear_enpassant z b) m)" "unused r = unused b"
  shows "restored b (unmake_body z (side b) r m (cellAt b (dst m)))"
proof -
  let ?C = "side b" and ?a = "clear_enpassant z b"
  have ga: "good z ?a" by (rule clear_enpassant_good [OF g])
  have cm: "can_move ?C ?a = can_move ?C b" by (rule can_move_cong) simp
  have eq: "restored ?a = restored b"
    by (simp add: restored_def fun_eq_iff bbColor_def)
  have u: "unused r = unused (move_body z b ?a m)" using r(4) by (simp add: move_body_views)
  note ra = r(1-3) u
  note defs = move_body_def makeable_def unmake_body_def Let_def
  have pr: ?thesis if k: "isMoveKindPromote (kind m)"
      and cm': "can_move ?C b (src m) (dst m) (makeCell ?C Pawn) (cellAt b (dst m))"
      and body: "move_body z b ?a m = makePromote ?C z ?a m (makeCell ?C Pawn) (cellAt b (dst m))"
      and ub: "unmake_body z ?C r m (cellAt b (dst m)) = unmakePromote ?C r m (cellAt b (dst m))"
    using unmakePromote_restores [OF ga _ k ra body] cm' unfolding cm eq ub by blast
  show ?thesis
  proof (cases "kind m")
    case Simple
    then have body: "move_body z b ?a m = makeSimple ?C z ?a m (cellAt b (src m)) (cellAt b (dst m))"
      and cm': "can_move ?C b (src m) (dst m) (cellAt b (src m)) (cellAt b (dst m))"
      using mk by (simp_all add: defs)
    have "cellAt r (dst m) = cellAt b (src m)"
      using can_moveD(1,2) [OF cm'] goodD(1) [OF g]
      by (auto simp: cellAt_def r(1) body makeSimple_def Let_def isCoord_def)
    then show ?thesis
      using unmakeSimple_restores [OF ga _ ra body] cm' Simple unfolding cm eq by (simp add: unmake_body_def)
  next
    case PawnDoubleMove
    then have body: "move_body z b ?a m = makePawnDoubleMove ?C False z ?a m (coordToBitboard (src m) OR coordToBitboard (dst m))"
      by (simp add: defs)
    show ?thesis
      using PawnDoubleMove mk double_restores [OF ga _ ra body] unfolding cm eq by (simp add: defs del: makeCell_values)
  next
    case Enpassant
    then have body: "move_body z b ?a m = makeEnpassant ?C False z ?a m (coordToBitboard (src m) OR coordToBitboard (dst m))"
      by (simp add: defs)
    show ?thesis
      using Enpassant mk enpassant_restores [OF ga _ _ _ ra body] unfolding cm eq by (simp add: defs del: makeCell_values)
  next
    case CastlingKingside
    then have body: "move_body z b ?a m = makeKingsideCastling ?C False z ?a"
      by (simp add: defs)
    have "cellAt b (castlingOffset ?C + 4) = makeCell ?C King" "cellAt b (castlingOffset ?C + 7) = makeCell ?C Rook"
      using mk CastlingKingside goodD(3) [OF g] unfolding defs castling_ok_def by auto
    then show ?thesis
      using CastlingKingside mk kingside_restores [OF ga _ _ _ _ ra body] unfolding cm eq by (simp add: defs del: makeCell_values)
  next
    case CastlingQueenside
    then have body: "move_body z b ?a m = makeQueensideCastling ?C False z ?a"
      by (simp add: defs)
    have "cellAt b (castlingOffset ?C + 4) = makeCell ?C King" "cellAt b (castlingOffset ?C) = makeCell ?C Rook"
      using mk CastlingQueenside goodD(3) [OF g] unfolding defs castling_ok_def by auto
    then show ?thesis
      using CastlingQueenside mk queenside_restores [OF ga _ _ _ _ ra body] unfolding cm eq by (simp add: defs del: makeCell_values)
  next
    case Null
    then show ?thesis using ra by (simp add: defs restored_def bbColor_def)
  next
    case Invalid
    then show ?thesis using mk by (simp add: defs)
  qed (rule pr; use mk in \<open>auto simp: defs isMoveKindPromote_def dest: can_moveD(4)\<close>)+
qed

lemma unmake_make:
  assumes z: "zobrist_ok z" and c: "consistent z b" and mk: "makeable b m"
  shows "moveUnmake z (fst (moveMake z b m)) m (snd (moveMake z b m)) = b"
proof -
  let ?r = "fst (moveMake z b m)" and ?a = "move_body z b (clear_enpassant z b) m"
  have g: "good z b" and all: "bbAll b = bbWhite b OR bbBlack b"
    using c by (simp_all add: consistent_iff)
  have p: "snd (moveMake z b m) = \<lparr>p_hash = hash b, p_castling = castling b, p_enpassantCoord = enpassantCoord b,
      p_moveCounter = moveCounter b, p_dstCell = cellAt b (dst m), padding1 = 0, padding2 = 0\<rparr>"
    by (cases "side b") (simp_all add: moveMake_def moveMakeImpl_def Let_def)
  define u where "u = unmake_body z (side b) ?r m (cellAt b (dst m))"
  have rs: "restored b u"
    unfolding u_def
    by (rule unmake_body_restores [OF z g mk]) (simp_all add: moveMake_stages bbColor_def move_body_views)
  have w: "bbWhite u = bbWhite b" "bbBlack u = bbBlack b"
    using rs unfolding restored_def bbColor_def by (metis, metis color.distinct(1))
  have n: "moveNumber u = (if side b = Black then moveNumber b + 1 else moveNumber b)"
    unfolding u_def unmake_body_def moveMake_stages
    by (cases "kind m") (simp_all add: make_defs unmakeSimple_def unmakePromote_def Let_def move_finish_def
        move_body_views)
  have "moveUnmake z ?r m (snd (moveMake z b m)) =
      (let b2 = u\<lparr>hash := hash b, castling := castling b, enpassantCoord := enpassantCoord b,
            moveCounter := moveCounter b, side := side b\<rparr>;
          b3 = (if side b = Black then b2\<lparr>moveNumber := moveNumber b2 - 1\<rparr> else b2)
       in b3\<lparr>bbAll := bbWhite b3 OR bbBlack b3\<rparr>)"
    by (subst moveUnmake_make) (simp add: moveUnmakeImpl_def p u_def unmake_body_def Let_def)
  also have "\<dots> = b"
    using rs w n all by (intro board.equality) (simp_all add: Let_def restored_def)
  finally show ?thesis .
qed

end
