(* ===== verification/Initial_Position.thy ===== *)
theory Initial_Position
  imports Move_Unmake
begin

text \<open>The position \<^verbatim>\<open>setInitialPosition\<close> of \<^verbatim>\<open>src/src/core/board.cpp\<close> builds, as a list of
  cells, and a concrete table of hash keys and a concrete board on which theorems are applied.\<close>

section \<open>The initial position\<close>

definition initial_cells :: "cell list" where
  "initial_cells = [13, 11, 12, 14, 10, 12, 11, 13] @ replicate 8 9 @ replicate 32 0 @ replicate 8 1 @
     [5, 3, 4, 6, 2, 4, 3, 5]"

lemma initial_update:
  "setInitialPosition z b0 = update z (b0\<lparr>cells := initial_cells, castling := Castling_All, side := White,
     enpassantCoord := INVALID_COORD, moveCounter := 0, moveNumber := 1, unused := 0\<rparr>)"
proof -
  have z: "zip [0..7] back_rank = [(0 :: int, Rook), (1, Knight), (2, Bishop), (3, Queen), (4, King), (5, Bishop), (6, Knight), (7, Rook)]"
    by (simp add: upto.simps back_rank_def)
  have r: "replicate 64 EMPTY_CELL = (replicate 64 0 :: cell list)" by (simp add: EMPTY_CELL_def)
  have m: "makeCoord 0 i = 0 OR i" "makeCoord 1 i = 8 OR i" "makeCoord 6 i = 48 OR i" "makeCoord 7 i = 56 OR i" for i
    by (simp_all add: makeCoord_def push_bit_eq_mult)
  show ?thesis
    unfolding setInitialPosition_def z r m Let_def setAllCastling_def initial_cells_def
    by (simp add: upto.simps setCell_def numeral_eq_Suc)
qed

lemma initial_shape:
  "board_shape (b0\<lparr>cells := initial_cells, castling := Castling_All, side := White,
     enpassantCoord := INVALID_COORD, moveCounter := 0, moveNumber := 1, unused := 0\<rparr>)"
proof -
  have "list_all (\<lambda>i. isCellValid (initial_cells ! nat i)) [0..63]" by code_simp
  then show ?thesis
    by (auto simp: board_shape_def cellAt_def Castling_All_def INVALID_COORD_def initial_cells_def list_all_iff isCoord_def)
qed

lemma initial_consistent: "consistent z (setInitialPosition z b0)"
  unfolding initial_update by (rule update_consistent [OF initial_shape])

lemma initial_essential:
  "cells (setInitialPosition z b0) = initial_cells" "side (setInitialPosition z b0) = White"
  "enpassantCoord (setInitialPosition z b0) = INVALID_COORD"
  unfolding initial_update by (simp_all add: update_essential [OF initial_shape])


definition blank_board :: board where
  "blank_board = \<lparr>cells = replicate 64 EMPTY_CELL, unused = 0, side = White, castling = Castling_None,
     enpassantCoord = INVALID_COORD, moveCounter = 0, moveNumber = 1, hash = 0, bbWhite = 0, bbBlack = 0,
     bbAll = 0, bbPieces = replicate 15 0\<rparr>"

definition sample_zobrist :: zobrist where
  "sample_zobrist = initZobrist of_nat"

definition sample_board :: board where
  "sample_board = setInitialPosition sample_zobrist blank_board"

lemma sample_ok: "zobrist_ok sample_zobrist" "consistent sample_zobrist sample_board"
  by (simp_all add: sample_zobrist_def sample_board_def zobrist_ok_init initial_consistent)

lemma sample_views:
  "cells sample_board = initial_cells" "side sample_board = White" "enpassantCoord sample_board = INVALID_COORD"
  by (simp_all add: sample_board_def initial_essential)

end
