(* ===== verification/Core_Properties.thy ===== *)
theory Core_Properties
  imports Magic_Lookup Initial_Position
begin

text \<open>The properties of the board core: bit tricks, attack tables, hashing, making and unmaking moves.\<close>

section \<open>Bits, tables and sliding pieces\<close>

text \<open>The SWAR bit count of the portable build returns the number of set bits.\<close>

theorem popcount_counts_bits: "popcount x = card {n. bit x n}"
  by (rule popcount_eq_card)

text \<open>The De Bruijn multiplication of \<^verbatim>\<open>getLowest\<close> finds the least set bit.\<close>

theorem getLowest_is_least:
  assumes "x \<noteq> 0"
  shows "bit x (getLowest x) \<and> (\<forall>n. bit x n \<longrightarrow> getLowest x \<le> n)"
  using bit_lowest [OF assms] by (simp add: getLowest_eq_lowest [OF assms] lowest_def Least_le)

theorem getLowest_witness: "bit (40 :: u64) (getLowest 40) \<and> getLowest 40 = 3"
proof -
  have "getLowest 40 \<le> 3" "bit (40 :: u64) (getLowest 40)"
    using getLowest_is_least [of 40] by (auto simp: bit_simps)
  moreover have "\<not> bit (40 :: u64) 0" "\<not> bit (40 :: u64) 1" "\<not> bit (40 :: u64) 2" by simp_all
  ultimately show ?thesis by (metis One_nat_def Suc_1 le_Suc_eq le_zero_eq numeral_3_eq_3)
qed

text \<open>\<^verbatim>\<open>depositBits\<close> moves bit number \<open>k\<close> of its argument to the \<open>k\<close>-th set bit of the mask, as PDEP does.\<close>

theorem depositBits_is_pdep: "bit (depositBits x m) n \<longleftrightarrow> bit m n \<and> bit x (card {j. j < n \<and> bit m j})"
  by (simp add: bit_depositBits rank_def)

text \<open>\<open>between c d\<close> is the set of squares strictly inside the segment from \<open>c\<close> to \<open>d\<close> along one of
  the eight directions, and empty for squares that share no line.\<close>

theorem between_is_open_segment:
  assumes "isCoord c" "isCoord d" "isCoord e"
  shows "bit (between c d) (nat e) \<longleftrightarrow>
    (\<exists>dir\<in>set (rook_dirs @ bishop_dirs). \<exists>j k. 0 < j \<and> j < k \<and> at_step c dir j e \<and> at_step c dir k d)"
  using bit_between [OF assms] by (simp add: inside_def)

theorem between_witness: "bit (between 0 63) 27"
proof -
  have "\<exists>dir\<in>set (rook_dirs @ bishop_dirs). \<exists>j k. 0 < j \<and> j < k \<and> at_step 0 dir j 27 \<and> at_step 0 dir k 63"
  proof (rule bexI [of _ "(1, 1)"])
    have "at_step 0 (1, 1) 3 27 \<and> at_step 0 (1, 1) 7 63" by (simp add: at_step_def coordX_def coordY_def)
    then show "\<exists>j k. 0 < j \<and> j < k \<and> at_step 0 (1, 1) j 27 \<and> at_step 0 (1, 1) k 63"
      by (intro exI [of _ 3] exI [of _ 7]) simp
  qed (simp add: bishop_dirs_def)
  then show ?thesis using between_is_open_segment [of 0 63 27] by (simp add: isCoord_def)
qed

text \<open>C8: looking a rook up in the magic tables, after they were filled with the shared, overlapping
  offsets, gives exactly the squares it attacks through the occupancy.\<close>

theorem rook_lookup_correct:
  assumes "isCoord c" "isCoord d"
  shows "bit (rookAttackBitboard occupied c) (nat d) \<longleftrightarrow>
    c \<noteq> d \<and> (coordX c = coordX d \<or> coordY c = coordY d) \<and> between c d AND occupied = 0"
  using bit_rookAttackBitboard [OF assms] by (auto simp: rook_sees_def rook_aligned_def)

text \<open>The same for bishops, whose tables share four squares each.\<close>

theorem bishop_lookup_correct:
  assumes "isCoord c" "isCoord d"
  shows "bit (bishopAttackBitboard occupied c) (nat d) \<longleftrightarrow>
    c \<noteq> d \<and> (coordDiag1 c = coordDiag1 d \<or> coordDiag2 c = coordDiag2 d) \<and> between c d AND occupied = 0"
  using bit_bishopAttackBitboard [OF assms] by (auto simp: bishop_sees_def bishop_aligned_def)

theorem rook_lookup_witness: "bit (rookAttackBitboard 0 0) 7"
proof -
  have "between 0 7 AND 0 = 0" by simp
  then show ?thesis using rook_lookup_correct [of 0 7 0] by (simp add: isCoord_def coordX_def coordY_def)
qed

theorem bishop_lookup_witness: "bit (bishopAttackBitboard 0 0) 63"
  using bishop_lookup_correct [of 0 63 0] by (simp add: isCoord_def coordX_def coordY_def coordDiag1_def coordDiag2_def)

section \<open>Moves\<close>

text \<open>C28: two moves on the board are equal for \<^verbatim>\<open>operator==\<close>, which compares their 32-bit encodings,
  exactly when all their fields agree.\<close>

theorem asUint_injective:
  assumes "isCoord (src a)" "isCoord (dst a)" "isCoord (src b)" "isCoord (dst b)"
  shows "move_eq a b \<longleftrightarrow> a = b"
  by (rule move_eq_iff [OF assms])

theorem asUint_witness: "\<not> move_eq (mkMove Simple 52 44 0) (mkMove Simple 52 36 0)"
  using asUint_injective [of "mkMove Simple 52 44 0" "mkMove Simple 52 36 0"] by (simp add: mkMove_def isCoord_def)

lemma initial_double_move: "makeable sample_board (mkMove PawnDoubleMove 52 36 0)"
  by (simp add: makeable_def can_move_def mkMove_def cellAt_def sample_views initial_cells_def isCoord_def
      doubleMoveDstRow_def pawnForwardDelta_def coordX_def cellPieceColor_def EMPTY_CELL_def nth_append nth_Cons')

text \<open>\<^verbatim>\<open>update\<close> turns any well-shaped board into a consistent one with the same cells, and
  is idempotent.\<close>

theorem update_establishes_consistency:
  assumes "board_shape b"
  shows "consistent z (update z b) \<and> cells (update z b) = cells b \<and> update z (update z b) = update z b"
  using update_consistent [OF assms] update_essential(1) [OF assms] update_id by blast

theorem update_witness: "consistent sample_zobrist (update sample_zobrist (blank_board\<lparr>cells := initial_cells\<rparr>))"
proof -
  have "list_all (\<lambda>i. isCellValid (initial_cells ! nat i)) [0..63]" by code_simp
  then have "board_shape (blank_board\<lparr>cells := initial_cells\<rparr>)"
    by (simp add: board_shape_def cellAt_def blank_board_def Castling_None_def initial_cells_def list_all_iff isCoord_def)
  then show ?thesis using update_establishes_consistency by blast
qed

text \<open>C3: making a pseudo-legal move keeps the board consistent: the incrementally updated
  bitboards, hash, castling flags and en passant square are what \<^verbatim>\<open>update\<close> computes from scratch.\<close>

theorem moveMake_incremental_is_recomputed:
  assumes "zobrist_ok z" "consistent z b" "makeable b m"
  shows "consistent z (fst (moveMake z b m)) \<and> update z (fst (moveMake z b m)) = fst (moveMake z b m)"
  using moveMake_keeps_consistent [OF assms] update_id by blast

theorem moveMake_witness: "consistent sample_zobrist (fst (moveMake sample_zobrist sample_board (mkMove PawnDoubleMove 52 36 0)))"
  using moveMake_incremental_is_recomputed [OF sample_ok initial_double_move] by blast

text \<open>C4: \<^verbatim>\<open>moveUnmake\<close> with the saved data gives back the whole board, derived fields included.\<close>

theorem moveUnmake_undoes_moveMake:
  assumes "zobrist_ok z" "consistent z b" "makeable b m"
  shows "(let (b', p) = moveMake z b m in moveUnmake z b' m p) = b"
  using unmake_make [OF assms] by (simp add: split_beta)

theorem moveUnmake_witness:
  "(let (b', p) = moveMake sample_zobrist sample_board (mkMove PawnDoubleMove 52 36 0)
    in moveUnmake sample_zobrist b' (mkMove PawnDoubleMove 52 36 0) p) = sample_board"
  by (rule moveUnmake_undoes_moveMake [OF sample_ok initial_double_move])
end
