(* ===== verification/Movegen.thy ===== *)
theory Movegen
  imports Move_Unmake Magic_Lookup
begin

text \<open>
  The move generator (\<^verbatim>\<open>src/src/core/movegen.h\<close>, \<^verbatim>\<open>src/src/core/movegen.cpp\<close>). The buffer
  \<^verbatim>\<open>Move *list\<close> with its running size is a list; every loop
  \<^verbatim>\<open>while (bb) { c = extractLowest(bb); ... }\<close> is a map over \<open>bbList bb\<close>, the squares in the order the
  loop visits them. Template parameters are ordinary arguments.
\<close>

section \<open>Attacks\<close>

definition bbDiagPieces :: "color \<Rightarrow> board \<Rightarrow> bitboard" where
  "bbDiagPieces C b = pieceBB b (makeCell C Bishop) OR pieceBB b (makeCell C Queen)"

definition bbLinePieces :: "color \<Rightarrow> board \<Rightarrow> bitboard" where
  "bbLinePieces C b = pieceBB b (makeCell C Rook) OR pieceBB b (makeCell C Queen)"

definition isCellAttacked :: "board \<Rightarrow> coord \<Rightarrow> color \<Rightarrow> bool" where
  "isCellAttacked b coord C =
     (let pawnAttacks = (if C = White then BLACK_PAWN_ATTACKS else WHITE_PAWN_ATTACKS)
      in if pieceBB b (makeCell C Pawn) AND pawnAttacks coord \<noteq> 0 \<or>
            pieceBB b (makeCell C King) AND KING_ATTACKS coord \<noteq> 0 \<or>
            pieceBB b (makeCell C Knight) AND KNIGHT_ATTACKS coord \<noteq> 0
         then True
         else bishopAttackBitboardMasked (bbAll b) coord (bbDiagPieces C b) \<noteq> 0 \<or>
           rookAttackBitboardMasked (bbAll b) coord (bbLinePieces C b) \<noteq> 0)"

definition cellAttackers :: "board \<Rightarrow> coord \<Rightarrow> color \<Rightarrow> bitboard" where
  "cellAttackers b coord C =
     (let pawnAttacks = (if C = White then BLACK_PAWN_ATTACKS else WHITE_PAWN_ATTACKS)
      in (pieceBB b (makeCell C Pawn) AND pawnAttacks coord) OR
         (pieceBB b (makeCell C King) AND KING_ATTACKS coord) OR
         (pieceBB b (makeCell C Knight) AND KNIGHT_ATTACKS coord) OR
         bishopAttackBitboardMasked (bbAll b) coord (bbDiagPieces C b) OR
         rookAttackBitboardMasked (bbAll b) coord (bbLinePieces C b))"

definition isCheck :: "board \<Rightarrow> bool" where
  "isCheck b = (let c = side b in isCellAttacked b (kingPos b c) (invert c))"

definition wasMoveLegal :: "board \<Rightarrow> bool" where
  "wasMoveLegal b = (let c = side b in \<not> isCellAttacked b (kingPos b (invert c)) c)"

section \<open>Generating moves\<close>

datatype PromoteGenPolicy = PromoteAll | PromoteOnly | NoPromote

datatype GenFilter = SimpleGenFilter | CheckGenFilter bitboard

fun filterDst :: "GenFilter \<Rightarrow> bitboard \<Rightarrow> bitboard" where
  "filterDst SimpleGenFilter bbDst = bbDst"
| "filterDst (CheckGenFilter bbDstMask) bbDst = bbDst AND bbDstMask"

fun GEN_CASTLING :: "GenFilter \<Rightarrow> bool" where
  "GEN_CASTLING SimpleGenFilter = True"
| "GEN_CASTLING (CheckGenFilter _) = False"

definition addPawnWithPromote :: "bool \<Rightarrow> coord \<Rightarrow> coord \<Rightarrow> move list" where
  "addPawnWithPromote IsPromote s d =
     (if IsPromote then [mkMove PromoteKnight s d 0, mkMove PromoteBishop s d 0,
        mkMove PromoteRook s d 0, mkMove PromoteQueen s d 0]
      else [mkMove Simple s d 0])"

definition doGenPawnSingle :: "color \<Rightarrow> bool \<Rightarrow> board \<Rightarrow> bitboard \<Rightarrow> GenFilter \<Rightarrow> move list" where
  "doGenPawnSingle C IsPromote b bbPawns flt =
     (let bbPawnDsts = filterDst flt (advancePawnForward C bbPawns AND NOT (bbAll b))
      in concat (map (\<lambda>d. addPawnWithPromote IsPromote (d - pawnForwardDelta C) d) (bbList bbPawnDsts)))"

definition doGenPawnDouble :: "color \<Rightarrow> board \<Rightarrow> bitboard \<Rightarrow> GenFilter \<Rightarrow> move list" where
  "doGenPawnDouble C b bbPawns flt =
     (let bbPawnTmps = advancePawnForward C bbPawns AND NOT (bbAll b);
          bbPawnDsts = filterDst flt (advancePawnForward C bbPawnTmps AND NOT (bbAll b))
      in map (\<lambda>d. mkMove PawnDoubleMove (d - 2 * pawnForwardDelta C) d 0) (bbList bbPawnDsts))"

definition doGenPawnCapture :: "color \<Rightarrow> bool \<Rightarrow> board \<Rightarrow> bitboard \<Rightarrow> GenFilter \<Rightarrow> move list" where
  "doGenPawnCapture C IsPromote b bbPawns flt =
     (let bbAllowed = bbColor b (invert C);
          leftDsts = filterDst flt (advancePawnLeft C bbPawns AND bbAllowed);
          rightDsts = filterDst flt (advancePawnRight C bbPawns AND bbAllowed)
      in concat (map (\<lambda>d. addPawnWithPromote IsPromote (d - pawnLeftDelta C) d) (bbList leftDsts)) @
         concat (map (\<lambda>d. addPawnWithPromote IsPromote (d - pawnRightDelta C) d) (bbList rightDsts)))"

definition genPawnSimple :: "color \<Rightarrow> PromoteGenPolicy \<Rightarrow> board \<Rightarrow> GenFilter \<Rightarrow> move list" where
  "genPawnSimple C P b flt =
     (let bbPromote = BB_ROW ! nat (promoteSrcRow C); bbDouble = BB_ROW ! nat (doubleMoveSrcRow C);
          bbPawns = pieceBB b (makeCell C Pawn)
      in (if P = PromoteAll \<or> P = NoPromote
          then doGenPawnSingle C False b (bbPawns AND NOT bbPromote) flt @
               doGenPawnDouble C b (bbPawns AND bbDouble) flt
          else []) @
         (if P = PromoteAll \<or> P = PromoteOnly
          then doGenPawnSingle C True b (bbPawns AND bbPromote) flt else []))"

definition genPawnCapture :: "color \<Rightarrow> board \<Rightarrow> GenFilter \<Rightarrow> move list" where
  "genPawnCapture C b flt =
     (let bbPromote = BB_ROW ! nat (promoteSrcRow C); bbPawns = pieceBB b (makeCell C Pawn)
      in doGenPawnCapture C False b (bbPawns AND NOT bbPromote) flt @
         doGenPawnCapture C True b (bbPawns AND bbPromote) flt)"

definition genPawnEnpassant :: "color \<Rightarrow> board \<Rightarrow> move list" where
  "genPawnEnpassant C b =
     (let ep = enpassantCoord b
      in if ep = INVALID_COORD then []
         else let y = coordY ep; d = ep + pawnForwardDelta C; leftPawn = ep - 1; rightPawn = ep + 1
              in (if y \<noteq> 0 \<and> cellAt b leftPawn = makeCell C Pawn
                  then [mkMove Enpassant leftPawn d 0] else []) @
                 (if y \<noteq> 7 \<and> cellAt b rightPawn = makeCell C Pawn
                  then [mkMove Enpassant rightPawn d 0] else []))"

definition getAllowedMask :: "color \<Rightarrow> bool \<Rightarrow> bool \<Rightarrow> board \<Rightarrow> bitboard" where
  "getAllowedMask C GenSimple GenCaptures b =
     (if GenSimple then (if GenCaptures then NOT (bbColor b C) else NOT (bbAll b))
      else bbColor b (invert C))"

definition genKnightOrKing :: "color \<Rightarrow> piece \<Rightarrow> bool \<Rightarrow> bool \<Rightarrow> board \<Rightarrow> GenFilter \<Rightarrow> move list" where
  "genKnightOrKing C P GenSimple GenCaptures b flt =
     (let bbAllowed = getAllowedMask C GenSimple GenCaptures b;
          attacks = (if P = Knight then KNIGHT_ATTACKS else KING_ATTACKS);
          bbSrc = pieceBB b (makeCell C P)
      in concat (map (\<lambda>s. map (\<lambda>d. mkMove Simple s d 0) (bbList (filterDst flt (attacks s AND bbAllowed))))
           (bbList bbSrc)))"

definition genKnight :: "color \<Rightarrow> bool \<Rightarrow> bool \<Rightarrow> board \<Rightarrow> GenFilter \<Rightarrow> move list" where
  "genKnight C GenSimple GenCaptures b flt = genKnightOrKing C Knight GenSimple GenCaptures b flt"

definition genKing :: "color \<Rightarrow> bool \<Rightarrow> bool \<Rightarrow> board \<Rightarrow> move list" where
  "genKing C GenSimple GenCaptures b = genKnightOrKing C King GenSimple GenCaptures b SimpleGenFilter"

definition genBishopOrRook ::
    "color \<Rightarrow> piece \<Rightarrow> bool \<Rightarrow> bool \<Rightarrow> board \<Rightarrow> bitboard \<Rightarrow> GenFilter \<Rightarrow> move list" where
  "genBishopOrRook C P GenSimple GenCaptures b bbSrc flt =
     (let bbAllowed = getAllowedMask C GenSimple GenCaptures b
      in concat (map (\<lambda>s. let bbDst = (if P = Bishop then bishopAttackBitboard (bbAll b) s
                                        else rookAttackBitboard (bbAll b) s)
                          in map (\<lambda>d. mkMove Simple s d 0) (bbList (filterDst flt (bbDst AND bbAllowed))))
           (bbList bbSrc)))"

definition genBishop :: "color \<Rightarrow> bool \<Rightarrow> bool \<Rightarrow> board \<Rightarrow> bitboard \<Rightarrow> GenFilter \<Rightarrow> move list" where
  "genBishop C GenSimple GenCaptures b bbSrc flt = genBishopOrRook C Bishop GenSimple GenCaptures b bbSrc flt"

definition genRook :: "color \<Rightarrow> bool \<Rightarrow> bool \<Rightarrow> board \<Rightarrow> bitboard \<Rightarrow> GenFilter \<Rightarrow> move list" where
  "genRook C GenSimple GenCaptures b bbSrc flt = genBishopOrRook C Rook GenSimple GenCaptures b bbSrc flt"

definition genCastling :: "color \<Rightarrow> board \<Rightarrow> move list" where
  "genCastling C b =
     (let x = castlingRow C; offset = castlingOffset C
      in (if isKingsideCastling b C then
            let castlingPass = push_bit (nat offset) BB_CASTLING_KINGSIDE_PASS;
                s = makeCoord x 4; t = makeCoord x 5; d = makeCoord x 6
            in if castlingPass AND bbAll b = 0 \<and> \<not> isCellAttacked b t (invert C)
               then [mkMove CastlingKingside s d 0] else []
          else []) @
         (if isQueensideCastling b C then
            let castlingPass = push_bit (nat offset) BB_CASTLING_QUEENSIDE_PASS;
                s = makeCoord x 4; t = makeCoord x 3; d = makeCoord x 2
            in if castlingPass AND bbAll b = 0 \<and> \<not> isCellAttacked b t (invert C)
               then [mkMove CastlingQueenside s d 0] else []
          else []))"

definition genImplInner :: "color \<Rightarrow> bool \<Rightarrow> bool \<Rightarrow> bool \<Rightarrow> board \<Rightarrow> GenFilter \<Rightarrow> move list" where
  "genImplInner C GenSimple GenCaptures GenSimplePromote b flt =
     (if GenSimple then genPawnSimple C (if GenSimplePromote then PromoteAll else NoPromote) b flt else []) @
     (if GenCaptures then genPawnCapture C b flt @ genPawnEnpassant C b else []) @
     genKing C GenSimple GenCaptures b @
     genKnight C GenSimple GenCaptures b flt @
     genBishop C GenSimple GenCaptures b (bbDiagPieces C b) flt @
     genRook C GenSimple GenCaptures b (bbLinePieces C b) flt @
     (if GenSimple \<and> GEN_CASTLING flt then genCastling C b else [])"

datatype CheckKind = CheckNone | CheckSingle | CheckDouble

record MoveGen =
  genBoard :: board
  checkMask :: bitboard
  checkKind :: CheckKind
  genSide :: color

definition newMoveGen :: "board \<Rightarrow> MoveGen" where
  "newMoveGen b =
     (let king = kingPos b (side b); kingAttackers = cellAttackers b king (invert (side b))
      in if kingAttackers = 0 then \<lparr>genBoard = b, checkMask = 0, checkKind = CheckNone, genSide = side b\<rparr>
         else if \<not> hasZeroOrOneBit kingAttackers
         then \<lparr>genBoard = b, checkMask = 0, checkKind = CheckDouble, genSide = side b\<rparr>
         else let checker = int (getLowest kingAttackers)
              in \<lparr>genBoard = b, checkMask = between checker king OR kingAttackers, checkKind = CheckSingle, genSide = side b\<rparr>)"

definition genImpl :: "color \<Rightarrow> bool \<Rightarrow> bool \<Rightarrow> bool \<Rightarrow> MoveGen \<Rightarrow> move list" where
  "genImpl C GenSimple GenCaptures GenSimplePromote g =
     (case checkKind g of
        CheckNone \<Rightarrow> genImplInner C GenSimple GenCaptures GenSimplePromote (genBoard g) SimpleGenFilter
      | CheckSingle \<Rightarrow> genImplInner C GenSimple GenCaptures GenSimplePromote (genBoard g) (CheckGenFilter (checkMask g))
      | CheckDouble \<Rightarrow> genKing C GenSimple GenCaptures (genBoard g))"

definition genSimplePromotesImpl :: "color \<Rightarrow> MoveGen \<Rightarrow> move list" where
  "genSimplePromotesImpl C g =
     (case checkKind g of
        CheckNone \<Rightarrow> genPawnSimple C PromoteOnly (genBoard g) SimpleGenFilter
      | CheckSingle \<Rightarrow> genPawnSimple C PromoteOnly (genBoard g) (CheckGenFilter (checkMask g))
      | CheckDouble \<Rightarrow> [])"

definition genCaptures :: "MoveGen \<Rightarrow> move list" where
  "genCaptures g = (if genSide g = White then genImpl White False True False g else genImpl Black False True False g)"

definition genAllMoves :: "MoveGen \<Rightarrow> move list" where
  "genAllMoves g = (if genSide g = White then genImpl White True True True g else genImpl Black True True True g)"

definition genSimpleMoves :: "MoveGen \<Rightarrow> move list" where
  "genSimpleMoves g = (if genSide g = White then genImpl White True False True g else genImpl Black True False True g)"

definition genSimpleMovesNoPromote :: "MoveGen \<Rightarrow> move list" where
  "genSimpleMovesNoPromote g =
     (if genSide g = White then genImpl White True False False g else genImpl Black True False False g)"

definition genSimplePromotes :: "MoveGen \<Rightarrow> move list" where
  "genSimplePromotes g = (if genSide g = White then genSimplePromotesImpl White g else genSimplePromotesImpl Black g)"

section \<open>Validity and legality of a single move\<close>

definition isMoveValidImpl :: "color \<Rightarrow> board \<Rightarrow> move \<Rightarrow> bool" where
  "isMoveValidImpl C b m =
     (let s = src m; d = dst m; offset = castlingOffset C
      in if kind m = Null then False
         else if kind m = CastlingKingside then
           let castlingPass = push_bit (nat offset) BB_CASTLING_KINGSIDE_PASS
           in isKingsideCastling b C \<and> castlingPass AND bbAll b = 0 \<and>
              \<not> isCellAttacked b s (invert C) \<and> \<not> isCellAttacked b (s + 1) (invert C)
         else if kind m = CastlingQueenside then
           let castlingPass = push_bit (nat offset) BB_CASTLING_QUEENSIDE_PASS
           in isQueensideCastling b C \<and> castlingPass AND bbAll b = 0 \<and>
              \<not> isCellAttacked b s (invert C) \<and> \<not> isCellAttacked b (s - 1) (invert C)
         else let srcCell = cellAt b s; dstCell = cellAt b d; bbDst = coordToBitboard d
           in if srcCell = makeCell C Pawn then
                if kind m = PawnDoubleMove then
                  let bbMustEmpty = (if C = White then push_bit (nat (s - 16)) 0x0101 else push_bit (nat s) 0x010100)
                  in bbAll b AND bbMustEmpty = 0
                else if kind m = Enpassant then
                  (s + 1 = enpassantCoord b \<or> s - 1 = enpassantCoord b) \<and>
                  d = enpassantCoord b + pawnForwardDelta C
                else if \<not> isMoveKindPromote (kind m) \<and> coordX s = promoteSrcRow C then False
                else if dstCell = EMPTY_CELL then d = s + pawnForwardDelta C
                else if cellPieceColor dstCell \<noteq> C then
                  (if C = White then WHITE_PAWN_ATTACKS else BLACK_PAWN_ATTACKS) s AND bbDst \<noteq> 0
                else False
              else if kind m \<noteq> Simple then False
              else if bbDst AND bbColor b C \<noteq> 0 then False
              else if srcCell = makeCell C King then KING_ATTACKS s AND bbDst \<noteq> 0
              else if srcCell = makeCell C Knight then KNIGHT_ATTACKS s AND bbDst \<noteq> 0
              else if srcCell = makeCell C Bishop then bishopAttackBitboardMasked (bbAll b) s bbDst \<noteq> 0
              else if srcCell = makeCell C Rook then rookAttackBitboardMasked (bbAll b) s bbDst \<noteq> 0
              else if srcCell = makeCell C Queen then
                bishopAttackBitboardMasked (bbAll b) s bbDst \<noteq> 0 \<or> rookAttackBitboardMasked (bbAll b) s bbDst \<noteq> 0
              else False)"

definition isMoveValid :: "board \<Rightarrow> move \<Rightarrow> bool" where
  "isMoveValid b m = (if side b = White then isMoveValidImpl White b m else isMoveValidImpl Black b m)"

definition isAttackedMaskedImpl :: "color \<Rightarrow> board \<Rightarrow> coord \<Rightarrow> bitboard \<Rightarrow> bitboard \<Rightarrow> bool" where
  "isAttackedMaskedImpl C b kingpos bball bbOursMask =
     (let pawnAttacks = (if C = White then BLACK_PAWN_ATTACKS else WHITE_PAWN_ATTACKS)
      in if ((pieceBB b (makeCell C Pawn) AND pawnAttacks kingpos) OR
             (pieceBB b (makeCell C King) AND KING_ATTACKS kingpos) OR
             (pieceBB b (makeCell C Knight) AND KNIGHT_ATTACKS kingpos)) AND bbOursMask \<noteq> 0
         then True
         else bishopAttackBitboardMasked bball kingpos (bbDiagPieces C b AND bbOursMask) \<noteq> 0 \<or>
           rookAttackBitboardMasked bball kingpos (bbLinePieces C b AND bbOursMask) \<noteq> 0)"

definition isMoveLegalImpl :: "color \<Rightarrow> board \<Rightarrow> move \<Rightarrow> bool" where
  "isMoveLegalImpl C b m =
     (if kind m = Null then \<not> isCheck b
      else let s = src m; d = dst m; bbSrc = coordToBitboard s; bbDst = coordToBitboard d;
               srcCell = cellAt b s
        in if srcCell = makeCell C King
           then \<not> isAttackedMaskedImpl (invert C) b d (bbAll b XOR bbSrc) BB_FULL
           else let king = kingPos b C;
                    all0 = (bbAll b XOR bbSrc) OR bbDst;
                    mask0 = NOT bbDst;
                    bbTmp = advancePawnForward (invert C) bbDst;
                    all1 = (if kind m = Enpassant then all0 XOR bbTmp else all0);
                    mask1 = (if kind m = Enpassant then mask0 XOR bbTmp else mask0)
                in \<not> isAttackedMaskedImpl (invert C) b king all1 mask1)"

definition isMoveLegal :: "board \<Rightarrow> move \<Rightarrow> bool" where
  "isMoveLegal b m = (if side b = White then isMoveLegalImpl White b m else isMoveLegalImpl Black b m)"

definition isMoveCapture :: "board \<Rightarrow> move \<Rightarrow> bool" where
  "isMoveCapture b m \<longleftrightarrow> cellAt b (dst m) \<noteq> EMPTY_CELL \<or> kind m = Enpassant"

end
