(* ===== verification/Movegen_Attacks.thy ===== *)
theory Movegen_Attacks
  imports Movegen
begin

text \<open>
  What the attack functions of \<^verbatim>\<open>src/src/core/movegen.cpp\<close> compute, said on squares and pieces: which
  piece attacks which square through which occupancy.
\<close>

section \<open>The attack relation\<close>

fun piece_attacks :: "bitboard \<Rightarrow> color \<Rightarrow> piece \<Rightarrow> coord \<Rightarrow> coord \<Rightarrow> bool" where
  "piece_attacks occ C Pawn s c \<longleftrightarrow> coordX c = coordX s + (if C = White then -1 else 1) \<and> colDist s c = 1"
| "piece_attacks occ C King s c \<longleftrightarrow> s \<noteq> c \<and> rowDist s c \<le> 1 \<and> colDist s c \<le> 1"
| "piece_attacks occ C Knight s c \<longleftrightarrow>
     (rowDist s c = 1 \<and> colDist s c = 2) \<or> (rowDist s c = 2 \<and> colDist s c = 1)"
| "piece_attacks occ C Bishop s c \<longleftrightarrow> bishop_sees occ s c"
| "piece_attacks occ C Rook s c \<longleftrightarrow> rook_sees occ s c"
| "piece_attacks occ C Queen s c \<longleftrightarrow> bishop_sees occ s c \<or> rook_sees occ s c"

definition attacker :: "bitboard \<Rightarrow> board \<Rightarrow> color \<Rightarrow> coord \<Rightarrow> coord \<Rightarrow> bool" where
  "attacker occ b C s c \<longleftrightarrow> (\<exists>P. cellAt b s = makeCell C P \<and> piece_attacks occ C P s c)"

lemma sees_sym: "rook_sees occ c d \<longleftrightarrow> rook_sees occ d c" "bishop_sees occ c d \<longleftrightarrow> bishop_sees occ d c"
  using aligned_sym [of c d] between_sym [of c d] by (simp_all add: rook_sees_def bishop_sees_def)

lemma dist_sym: "rowDist c d = rowDist d c" "colDist c d = colDist d c"
  by (simp_all add: rowDist_def colDist_def abs_minus_commute)

lemma piece_attacks_irrefl [simp]: "\<not> piece_attacks occ C P s s"
  by (cases P) (auto simp: rook_sees_def bishop_sees_def rook_aligned_def bishop_aligned_def rowDist_def colDist_def)

lemma slider_sees_cong:
  assumes "\<And>e. isCoord e \<Longrightarrow> bit (between c d) (nat e) \<Longrightarrow> bit occ (nat e) = bit occ' (nat e)"
  shows "rook_sees occ c d = rook_sees occ' c d" "bishop_sees occ c d = bishop_sees occ' c d"
proof -
  have "between c d AND occ = between c d AND occ'"
    using assms by (intro bitboard_eqI) (auto simp: bit_and_iff)
  then show "rook_sees occ c d = rook_sees occ' c d" "bishop_sees occ c d = bishop_sees occ' c d"
    by (simp_all add: rook_sees_def bishop_sees_def)
qed

lemma piece_attacks_cong:
  assumes "\<And>e. isCoord e \<Longrightarrow> bit (between s c) (nat e) \<Longrightarrow> bit occ (nat e) = bit occ' (nat e)"
  shows "piece_attacks occ C P s c = piece_attacks occ' C P s c"
  using slider_sees_cong [of s c occ occ'] assms by (cases P) simp_all

lemma between_irrefl:
  assumes "isCoord c" "isCoord d"
  shows "\<not> bit (between c d) (nat c)" "\<not> bit (between c d) (nat d)"
  using assms by (auto simp: bit_between inside_iff)

lemma nat_coord_lt [simp]: "isCoord c \<Longrightarrow> nat c < 64"
  by (auto simp: isCoord_def)

section \<open>The attack functions\<close>

lemma pawn_table:
  assumes "isCoord c" "isCoord s"
  shows "bit ((if C = White then BLACK_PAWN_ATTACKS else WHITE_PAWN_ATTACKS) c) (nat s) \<longleftrightarrow>
    piece_attacks occ C Pawn s c"
    "bit ((if C = White then WHITE_PAWN_ATTACKS else BLACK_PAWN_ATTACKS) s) (nat c) \<longleftrightarrow>
    piece_attacks occ C Pawn s c"
  using assms by (cases C; auto simp: bit_WHITE_PAWN_ATTACKS bit_BLACK_PAWN_ATTACKS colDist_def abs_minus_commute)+

lemma bit_pieces:
  assumes "bb_ok b" "isCoord s"
  shows "bit (bbDiagPieces C b) (nat s) \<longleftrightarrow> cellAt b s = makeCell C Bishop \<or> cellAt b s = makeCell C Queen"
    "bit (bbLinePieces C b) (nat s) \<longleftrightarrow> cellAt b s = makeCell C Rook \<or> cellAt b s = makeCell C Queen"
  by (simp_all add: bbDiagPieces_def bbLinePieces_def bit_or_iff bit_pieceBB [OF assms])

definition attackersMasked :: "color \<Rightarrow> board \<Rightarrow> coord \<Rightarrow> bitboard \<Rightarrow> bitboard \<Rightarrow> bitboard" where
  "attackersMasked C b c occ msk =
     (((pieceBB b (makeCell C Pawn) AND (if C = White then BLACK_PAWN_ATTACKS else WHITE_PAWN_ATTACKS) c) OR
       (pieceBB b (makeCell C King) AND KING_ATTACKS c) OR
       (pieceBB b (makeCell C Knight) AND KNIGHT_ATTACKS c)) AND msk) OR
     bishopAttackBitboardMasked occ c (bbDiagPieces C b AND msk) OR
     rookAttackBitboardMasked occ c (bbLinePieces C b AND msk)"

lemma ex_piece: "(\<exists>P. Q P) \<longleftrightarrow> Q Pawn \<or> Q King \<or> Q Knight \<or> Q Bishop \<or> Q Rook \<or> Q Queen"
  by (metis piece.exhaust)

lemma bit_attackersMasked:
  assumes b: "bb_ok b" and c: "isCoord c" and s: "isCoord s"
  shows "bit (attackersMasked C b c occ msk) (nat s) \<longleftrightarrow> bit msk (nat s) \<and> attacker occ b C s c"
proof -
  have "attacker occ b C s c \<longleftrightarrow>
      cellAt b s = makeCell C Pawn \<and> piece_attacks occ C Pawn s c \<or>
      cellAt b s = makeCell C King \<and> piece_attacks occ C King s c \<or>
      cellAt b s = makeCell C Knight \<and> piece_attacks occ C Knight s c \<or>
      (cellAt b s = makeCell C Bishop \<or> cellAt b s = makeCell C Queen) \<and> bishop_sees occ s c \<or>
      (cellAt b s = makeCell C Rook \<or> cellAt b s = makeCell C Queen) \<and> rook_sees occ s c"
    unfolding attacker_def ex_piece piece_attacks.simps(4-6) by blast
  then show ?thesis
    unfolding attackersMasked_def bit_or_iff bit_and_iff bit_pieceBB [OF b s] pawn_table(1) [OF c s, of C occ]
      bit_KING_ATTACKS [OF c s] bit_KNIGHT_ATTACKS [OF c s] bit_rookAttackBitboardMasked [OF c s]
      bit_bishopAttackBitboardMasked [OF c s] bit_pieces [OF b s]
    unfolding sees_sym [of occ c s] dist_sym [of c s] piece_attacks.simps by blast
qed

lemma attackersMasked_nonzero:
  assumes "bb_ok b" "isCoord c"
  shows "attackersMasked C b c occ msk \<noteq> 0 \<longleftrightarrow> (\<exists>s. isCoord s \<and> bit msk (nat s) \<and> attacker occ b C s c)"
proof -
  have "attackersMasked C b c occ msk \<noteq> 0 \<longleftrightarrow> (\<exists>s. isCoord s \<and> bit (attackersMasked C b c occ msk) (nat s))"
    using bitboard_eqI [of "attackersMasked C b c occ msk" 0] by auto
  then show ?thesis using bit_attackersMasked [OF assms] by blast
qed

lemma cellAttackers_eq: "cellAttackers b c C = attackersMasked C b c (bbAll b) BB_FULL"
proof -
  have *: "x AND BB_FULL = x" for x :: bitboard
    by (rule bitboard_eqI) (auto simp: bit_and_iff bit_BB_FULL)
  show ?thesis by (simp add: cellAttackers_def attackersMasked_def Let_def * or.assoc)
qed

lemma isAttackedMaskedImpl_eq:
  "isAttackedMaskedImpl C b c occ msk \<longleftrightarrow> attackersMasked C b c occ msk \<noteq> 0"
  by (simp add: isAttackedMaskedImpl_def attackersMasked_def Let_def or_eq_0_iff)

lemma isCellAttacked_eq: "isCellAttacked b c C \<longleftrightarrow> cellAttackers b c C \<noteq> 0"
  by (auto simp: isCellAttacked_def cellAttackers_def Let_def or_eq_0_iff)

lemma bit_cellAttackers:
  assumes "bb_ok b" "isCoord c" "isCoord s"
  shows "bit (cellAttackers b c C) (nat s) \<longleftrightarrow> attacker (bbAll b) b C s c"
  using bit_attackersMasked [OF assms] assms(3) by (simp add: cellAttackers_eq bit_BB_FULL)

lemma isCellAttacked_iff:
  assumes "bb_ok b" "isCoord c"
  shows "isCellAttacked b c C \<longleftrightarrow> (\<exists>s. isCoord s \<and> attacker (bbAll b) b C s c)"
  using attackersMasked_nonzero [OF assms] by (auto simp: isCellAttacked_eq cellAttackers_eq bit_BB_FULL)

section \<open>The king\<close>

definition one_king :: "board \<Rightarrow> color \<Rightarrow> coord \<Rightarrow> bool" where
  "one_king b C k \<longleftrightarrow> isCoord k \<and> (\<forall>c. isCoord c \<longrightarrow> (cellAt b c = makeCell C King \<longleftrightarrow> c = k))"

lemma one_king_pos:
  assumes "bb_ok b" "one_king b C k"
  shows "kingPos b C = k"
proof -
  have "pieceBB b (makeCell C King) = coordToBitboard k"
    using assms by (intro bitboard_eqI) (auto simp: bit_pieceBB one_king_def bit_coord_bb)
  moreover have "squares (coordToBitboard k) = {k}" using assms(2) by (auto simp: squares_def one_king_def bit_coord_bb)
  ultimately show ?thesis using assms(2) by (simp add: kingPos_def one_king_def getLowest_singleton)
qed

end
