(* ===== verification/Movegen_Rules.thy ===== *)
theory Movegen_Rules
  imports Movegen_Attacks
begin

text \<open>
  The rules of pseudo-legal chess moves, stated on squares and pieces, and the proof that
  \<^verbatim>\<open>isWellFormed\<close> with \<^verbatim>\<open>isMoveValid\<close> accepts exactly them.
\<close>

section \<open>Pawn steps on coordinates\<close>

lemma coord_div_mod: "c = 8 * coordX c + coordY c"
  by (simp add: coord_simps)

lemma shift_aux:
  "(d :: int) = 8 * X + Y \<Longrightarrow> s = 8 * x + y \<Longrightarrow> 0 \<le> Y \<Longrightarrow> Y < 8 \<Longrightarrow> 0 \<le> y \<Longrightarrow> y < 8 \<Longrightarrow>
    d = s + (8 * j + k) \<and> 0 \<le> y + k \<and> y + k < 8 \<longleftrightarrow> X = x + j \<and> Y = y + k"
proof (intro iffI)
  assume d: "d = 8 * X + Y" "s = 8 * x + y" "0 \<le> Y" "Y < 8" "0 \<le> y" "y < 8"
    and *: "d = s + (8 * j + k) \<and> 0 \<le> y + k \<and> y + k < 8"
  define t where "t = X - x - j"
  have "8 * t = y + k - Y" using d(1,2) * by (simp add: t_def)
  then have "t = 0" using d(3,4) * by linarith
  then show "X = x + j \<and> Y = y + k" using \<open>8 * t = y + k - Y\<close> by (simp add: t_def)
qed auto

lemma coord_shift:
  "d = s + (8 * j + k) \<and> 0 \<le> coordY s + k \<and> coordY s + k < 8 \<longleftrightarrow> coordX d = coordX s + j \<and> coordY d = coordY s + k"
  by (rule shift_aux [OF coord_div_mod coord_div_mod]) simp_all

definition pawnDir :: "color \<Rightarrow> int" where
  "pawnDir C = (if C = White then -1 else 1)"

lemma pawn_deltas:
  "pawnForwardDelta C = 8 * pawnDir C" "pawnLeftDelta C = 8 * pawnDir C - 1" "pawnRightDelta C = 8 * pawnDir C + 1"
  by (cases C; simp add: pawnDir_def pawnForwardDelta_def pawnLeftDelta_def pawnRightDelta_def)+

lemma pawn_left_iff:
  "d = s + pawnLeftDelta C \<and> coordY s \<noteq> 0 \<longleftrightarrow> coordX d = coordX s + pawnDir C \<and> coordY d = coordY s - 1"
proof -
  have "coordY s \<noteq> 0 \<longleftrightarrow> 0 \<le> coordY s + - 1 \<and> coordY s + - 1 < 8" using coordY_range [of s] by presburger
  then show ?thesis using coord_shift [of d s "pawnDir C" "-1"] by (simp add: pawn_deltas)
qed

lemma pawn_right_iff:
  "d = s + pawnRightDelta C \<and> coordY s \<noteq> 7 \<longleftrightarrow> coordX d = coordX s + pawnDir C \<and> coordY d = coordY s + 1"
proof -
  have "coordY s \<noteq> 7 \<longleftrightarrow> 0 \<le> coordY s + 1 \<and> coordY s + 1 < 8" using coordY_range [of s] by presburger
  then show ?thesis using coord_shift [of d s "pawnDir C" 1] by (simp add: pawn_deltas)
qed

lemma pawn_forward_iff:
  "d = s + pawnForwardDelta C \<longleftrightarrow> coordX d = coordX s + pawnDir C \<and> coordY d = coordY s"
  using coord_shift [of d s "pawnDir C" 0] by (simp add: pawn_deltas)

lemma pawn_attacks_iff:
  "piece_attacks occ C Pawn s d \<longleftrightarrow>
    (d = s + pawnLeftDelta C \<and> coordY s \<noteq> 0) \<or> (d = s + pawnRightDelta C \<and> coordY s \<noteq> 7)"
proof -
  have "\<bar>coordY s - coordY d\<bar> = 1 \<longleftrightarrow> coordY d = coordY s - 1 \<or> coordY d = coordY s + 1" by arith
  then show ?thesis unfolding pawn_left_iff pawn_right_iff by (auto simp: colDist_def pawnDir_def)
qed

section \<open>The rules\<close>

definition pawn_step :: "board \<Rightarrow> color \<Rightarrow> coord \<Rightarrow> coord \<Rightarrow> bool" where
  "pawn_step b C s d \<longleftrightarrow>
     (if cellAt b d = EMPTY_CELL then d = s + pawnForwardDelta C
      else cellPieceColor (cellAt b d) \<noteq> C \<and> piece_attacks (bbAll b) C Pawn s d)"

text \<open>Pseudo-legal moves: the rules of chess without the duty to leave the king out of check.\<close>

definition pseudo_legal :: "board \<Rightarrow> move \<Rightarrow> bool" where
  "pseudo_legal b m \<longleftrightarrow> (let C = side b; s = src m; d = dst m; k = castlingOffset C in
     isCoord s \<and> isCoord d \<and>
     (case kind m of
        Null \<Rightarrow> False
      | Invalid \<Rightarrow> False
      | Simple \<Rightarrow> (\<exists>P. cellAt b s = makeCell C P \<and>
          (if P = Pawn then coordX s \<noteq> promoteSrcRow C \<and> pawn_step b C s d
           else (cellAt b d = EMPTY_CELL \<or> cellPieceColor (cellAt b d) \<noteq> C) \<and> piece_attacks (bbAll b) C P s d))
      | PawnDoubleMove \<Rightarrow> cellAt b s = makeCell C Pawn \<and> coordX s = doubleMoveSrcRow C \<and>
          d = s + 2 * pawnForwardDelta C \<and> cellAt b (s + pawnForwardDelta C) = EMPTY_CELL \<and> cellAt b d = EMPTY_CELL
      | Enpassant \<Rightarrow> cellAt b s = makeCell C Pawn \<and> enpassantCoord b \<noteq> INVALID_COORD \<and>
          coordX s = coordX (enpassantCoord b) \<and> colDist s (enpassantCoord b) = 1 \<and>
          d = enpassantCoord b + pawnForwardDelta C
      | CastlingKingside \<Rightarrow> s = k + 4 \<and> d = k + 6 \<and> isKingsideCastling b C \<and>
          cellAt b (k + 5) = EMPTY_CELL \<and> cellAt b (k + 6) = EMPTY_CELL \<and>
          \<not> isCellAttacked b s (invert C) \<and> \<not> isCellAttacked b (k + 5) (invert C)
      | CastlingQueenside \<Rightarrow> s = k + 4 \<and> d = k + 2 \<and> isQueensideCastling b C \<and>
          cellAt b (k + 1) = EMPTY_CELL \<and> cellAt b (k + 2) = EMPTY_CELL \<and> cellAt b (k + 3) = EMPTY_CELL \<and>
          \<not> isCellAttacked b s (invert C) \<and> \<not> isCellAttacked b (k + 3) (invert C)
      | _ \<Rightarrow> cellAt b s = makeCell C Pawn \<and> coordX s = promoteSrcRow C \<and> pawn_step b C s d))"

lemma castling_pass_empty:
  assumes "bb_ok b"
  shows "push_bit (nat (castlingOffset C)) BB_CASTLING_KINGSIDE_PASS AND bbAll b = 0 \<longleftrightarrow>
      cellAt b (castlingOffset C + 5) = EMPTY_CELL \<and> cellAt b (castlingOffset C + 6) = EMPTY_CELL"
    "push_bit (nat (castlingOffset C)) BB_CASTLING_QUEENSIDE_PASS AND bbAll b = 0 \<longleftrightarrow>
      cellAt b (castlingOffset C + 1) = EMPTY_CELL \<and> cellAt b (castlingOffset C + 2) = EMPTY_CELL \<and>
      cellAt b (castlingOffset C + 3) = EMPTY_CELL"
proof -
  have K: "bit (push_bit (nat (castlingOffset C)) BB_CASTLING_KINGSIDE_PASS) (nat c) \<longleftrightarrow>
      c = castlingOffset C + 5 \<or> c = castlingOffset C + 6" if "isCoord c" for c
  proof -
    have "list_all (\<lambda>c. bit (push_bit 56 BB_CASTLING_KINGSIDE_PASS) (nat c) \<longleftrightarrow> c = 61 \<or> c = 62) [0..63]"
      "list_all (\<lambda>c. bit (push_bit 0 BB_CASTLING_KINGSIDE_PASS) (nat c) \<longleftrightarrow> c = 5 \<or> c = 6) [0..63]" by code_simp+
    from list_all_coordD [OF this(1) that] list_all_coordD [OF this(2) that] show ?thesis by (cases C) simp_all
  qed
  have Q: "bit (push_bit (nat (castlingOffset C)) BB_CASTLING_QUEENSIDE_PASS) (nat c) \<longleftrightarrow>
      c = castlingOffset C + 1 \<or> c = castlingOffset C + 2 \<or> c = castlingOffset C + 3" if "isCoord c" for c
  proof -
    have "list_all (\<lambda>c. bit (push_bit 56 BB_CASTLING_QUEENSIDE_PASS) (nat c) \<longleftrightarrow> c = 57 \<or> c = 58 \<or> c = 59) [0..63]"
      "list_all (\<lambda>c. bit (push_bit 0 BB_CASTLING_QUEENSIDE_PASS) (nat c) \<longleftrightarrow> c = 1 \<or> c = 2 \<or> c = 3) [0..63]" by code_simp+
    from list_all_coordD [OF this(1) that] list_all_coordD [OF this(2) that] show ?thesis by (cases C) simp_all
  qed
  have z: "w AND bbAll b = 0 \<longleftrightarrow> (\<forall>c. isCoord c \<longrightarrow> bit w (nat c) \<longrightarrow> cellAt b c = EMPTY_CELL)" for w
  proof -
    have "w AND bbAll b = 0 \<longleftrightarrow> (\<forall>c. isCoord c \<longrightarrow> \<not> bit (w AND bbAll b) (nat c))"
      using bitboard_eqI [of "w AND bbAll b" 0] by auto
    then show ?thesis using bit_bbAll [OF assms] by (auto simp: bit_and_iff)
  qed
  have "isCoord (castlingOffset C + 1)" by (cases C) (simp_all add: isCoord_def)
  then show "push_bit (nat (castlingOffset C)) BB_CASTLING_KINGSIDE_PASS AND bbAll b = 0 \<longleftrightarrow>
      cellAt b (castlingOffset C + 5) = EMPTY_CELL \<and> cellAt b (castlingOffset C + 6) = EMPTY_CELL"
    "push_bit (nat (castlingOffset C)) BB_CASTLING_QUEENSIDE_PASS AND bbAll b = 0 \<longleftrightarrow>
      cellAt b (castlingOffset C + 1) = EMPTY_CELL \<and> cellAt b (castlingOffset C + 2) = EMPTY_CELL \<and>
      cellAt b (castlingOffset C + 3) = EMPTY_CELL"
    unfolding z using K Q castlingOffset_coords [of C] by (blast, blast)
qed

definition position_ok :: "board \<Rightarrow> bool" where
  "position_ok b \<longleftrightarrow> board_shape b \<and> ep_ok b \<and> castling_ok b \<and> bb_ok b"

lemma position_okD:
  assumes "position_ok b"
  shows "bb_ok b" "isCoord c \<Longrightarrow> isCellValid (cellAt b c)"
    "enpassantCoord b \<noteq> INVALID_COORD \<Longrightarrow> isCoord (enpassantCoord b) \<and> coordX (enpassantCoord b) = enpassantSrcRow (side b)
      \<and> cellAt b (enpassantCoord b) = makeCell (invert (side b)) Pawn
      \<and> cellAt b (enpassantCoord b + pawnForwardDelta (side b)) = EMPTY_CELL"
    "castling_ok b"
  using assms by (auto simp: position_ok_def board_shape_def ep_ok_def)

lemma consistent_position: "consistent z b \<Longrightarrow> position_ok b"
  by (simp add: consistent_def position_ok_def)

lemma isMoveValid_side: "isMoveValid b m = isMoveValidImpl (side b) b m"
  by (cases "side b") (simp_all add: isMoveValid_def)

lemma isMoveLegal_side: "isMoveLegal b m = isMoveLegalImpl (side b) b m"
  by (cases "side b") (simp_all add: isMoveLegal_def)

text \<open>The two squares in front of a pawn on its first row.\<close>

lemma row_range: "8 * coordX s \<le> s" "s \<le> 8 * coordX s + 7"
  using coord_div_mod [of s] coordY_range [of s] by linarith+

lemma must_empty_bits:
  "isCoord s \<Longrightarrow> coordX s = 6 \<Longrightarrow> isCoord c \<Longrightarrow> bit (push_bit (nat (s - 16)) 0x0101 :: bitboard) (nat c) \<longleftrightarrow> c = s - 16 \<or> c = s - 8"
  "isCoord s \<Longrightarrow> coordX s = 1 \<Longrightarrow> isCoord c \<Longrightarrow> bit (push_bit (nat s) 0x010100 :: bitboard) (nat c) \<longleftrightarrow> c = s + 8 \<or> c = s + 16"
proof -
  have W: "list_all (\<lambda>s. list_all (\<lambda>c. bit (push_bit (nat (s - 16)) 0x0101 :: bitboard) (nat c) \<longleftrightarrow> c = s - 16 \<or> c = s - 8)
      [0..63]) [48..55]" by code_simp
  have B: "list_all (\<lambda>s. list_all (\<lambda>c. bit (push_bit (nat s) 0x010100 :: bitboard) (nat c) \<longleftrightarrow> c = s + 8 \<or> c = s + 16)
      [0..63]) [8..15]" by code_simp
  have r: "coordX s = 6 \<Longrightarrow> s \<in> set [48..55]" "coordX s = 1 \<Longrightarrow> s \<in> set [8..15]"
    using row_range [of s] unfolding set_upto atLeastAtMost_iff by simp_all
  show "bit (push_bit (nat (s - 16)) 0x0101 :: bitboard) (nat c) \<longleftrightarrow> c = s - 16 \<or> c = s - 8" if "coordX s = 6" "isCoord c"
    using W r(1) [OF that(1)] list_all_coordD [OF _ that(2)] unfolding list_all_iff [of _ "[48..55]"] by blast
  show "bit (push_bit (nat s) 0x010100 :: bitboard) (nat c) \<longleftrightarrow> c = s + 8 \<or> c = s + 16" if "coordX s = 1" "isCoord c"
    using B r(2) [OF that(1)] list_all_coordD [OF _ that(2)] unfolding list_all_iff [of _ "[8..15]"] by blast
qed

lemma and_bbAll_0:
  assumes "bb_ok b"
  shows "bbAll b AND w = 0 \<longleftrightarrow> (\<forall>c. isCoord c \<longrightarrow> bit w (nat c) \<longrightarrow> cellAt b c = EMPTY_CELL)"
proof -
  have "bbAll b AND w = 0 \<longleftrightarrow> (\<forall>c. isCoord c \<longrightarrow> \<not> bit (bbAll b AND w) (nat c))"
    using bitboard_eqI [of "bbAll b AND w" 0] by auto
  then show ?thesis using bit_bbAll [OF assms] by (auto simp: bit_and_iff)
qed

lemma double_valid:
  assumes b: "bb_ok b" and s: "isCoord s" "coordX s = doubleMoveSrcRow C"
  shows "bbAll b AND (if C = White then push_bit (nat (s - 16)) 0x0101 else push_bit (nat s) 0x010100) = 0 \<longleftrightarrow>
    cellAt b (s + pawnForwardDelta C) = EMPTY_CELL \<and> cellAt b (s + 2 * pawnForwardDelta C) = EMPTY_CELL"
proof (cases C)
  case White
  have "isCoord (s - 16)" "isCoord (s - 8)"
    using s White row_range [of s] by (auto simp: doubleMoveSrcRow_def isCoord_def)
  then show ?thesis
    using must_empty_bits(1) [OF s(1)] s(2) White unfolding and_bbAll_0 [OF b]
    by (auto simp: doubleMoveSrcRow_def pawnForwardDelta_def)
next
  case Black
  have "isCoord (s + 16)" "isCoord (s + 8)"
    using s Black row_range [of s] by (auto simp: doubleMoveSrcRow_def isCoord_def)
  then show ?thesis
    using must_empty_bits(2) [OF s(1)] s(2) Black unfolding and_bbAll_0 [OF b]
    by (auto simp: doubleMoveSrcRow_def pawnForwardDelta_def)
qed

lemma same_row_neighbour:
  assumes "coordX s = coordX e"
  shows "colDist s e = 1 \<longleftrightarrow> s + 1 = e \<or> s - 1 = e"
  using coord_div_mod [of s] coord_div_mod [of e] assms unfolding colDist_def by arith

lemma enpassant_valid:
  assumes p: "position_ok b" and s: "isCoord s" "isCoord d"
  shows "(coordX s = enpassantSrcRow (side b) \<and> coordX d = enpassantDstRow (side b) \<and>
      (coordY s + 1 = coordY d \<or> coordY s - 1 = coordY d) \<and>
      (s + 1 = enpassantCoord b \<or> s - 1 = enpassantCoord b) \<and> d = enpassantCoord b + pawnForwardDelta (side b)) \<longleftrightarrow>
    enpassantCoord b \<noteq> INVALID_COORD \<and> coordX s = coordX (enpassantCoord b) \<and> colDist s (enpassantCoord b) = 1 \<and>
      d = enpassantCoord b + pawnForwardDelta (side b)" (is "?l \<longleftrightarrow> ?r")
proof
  assume l: ?l
  have "enpassantCoord b \<noteq> INVALID_COORD"
  proof
    assume "enpassantCoord b = INVALID_COORD"
    then have "s = 0" using l s by (auto simp: INVALID_COORD_def isCoord_def)
    then show False using l by (cases "side b") (simp_all add: enpassantSrcRow_def coordX_def)
  qed
  moreover from position_okD(3) [OF p this] have "coordX s = coordX (enpassantCoord b)" using l by simp
  ultimately show ?r using l same_row_neighbour by blast
next
  assume r: ?r
  let ?e = "enpassantCoord b"
  have e: "coordX ?e = enpassantSrcRow (side b)" using position_okD(3) [OF p] r by blast
  have "coordX d = coordX ?e + pawnDir (side b)" "coordY d = coordY ?e"
    using r pawn_forward_iff [of d ?e "side b"] by blast+
  moreover have "coordX ?e + pawnDir (side b) = enpassantDstRow (side b)"
    using e by (cases "side b") (simp_all add: enpassantSrcRow_def enpassantDstRow_def pawnDir_def)
  moreover have "coordY s + 1 = coordY ?e \<or> coordY s - 1 = coordY ?e" using r unfolding colDist_def by arith
  ultimately show ?l using r e same_row_neighbour by auto
qed


section \<open>The validator accepts exactly the pseudo-legal moves\<close>

lemma attack_tables:
  assumes "isCoord s" "isCoord d"
  shows "KING_ATTACKS s AND coordToBitboard d \<noteq> 0 \<longleftrightarrow> piece_attacks occ C King s d"
    "KNIGHT_ATTACKS s AND coordToBitboard d \<noteq> 0 \<longleftrightarrow> piece_attacks occ C Knight s d"
    "bishopAttackBitboardMasked occ s (coordToBitboard d) \<noteq> 0 \<longleftrightarrow> bishop_sees occ s d"
    "rookAttackBitboardMasked occ s (coordToBitboard d) \<noteq> 0 \<longleftrightarrow> rook_sees occ s d"
    "(if C = White then WHITE_PAWN_ATTACKS else BLACK_PAWN_ATTACKS) s AND coordToBitboard d \<noteq> 0 \<longleftrightarrow>
      piece_attacks occ C Pawn s d"
proof -
  have nz: "w \<noteq> 0 \<longleftrightarrow> (\<exists>e. isCoord e \<and> bit w (nat e))" for w :: bitboard
    using bitboard_eqI [of w 0] by auto
  show "bishopAttackBitboardMasked occ s (coordToBitboard d) \<noteq> 0 \<longleftrightarrow> bishop_sees occ s d"
    "rookAttackBitboardMasked occ s (coordToBitboard d) \<noteq> 0 \<longleftrightarrow> rook_sees occ s d"
    unfolding nz using bit_bishopAttackBitboardMasked [OF assms(1)] bit_rookAttackBitboardMasked [OF assms(1)]
      bit_coord_bb [OF assms(2)] assms(2) by auto
qed (use assms and_coordToBitboard_iff(1) [OF assms(2)] bit_KING_ATTACKS [OF assms] bit_KNIGHT_ATTACKS [OF assms]
      pawn_table(2) [OF assms(2,1), of C occ] in \<open>simp_all del: piece_attacks.simps(1)\<close>)

lemma own_piece_bit:
  assumes "bb_ok b" "isCoord d"
  shows "coordToBitboard d AND bbColor b C \<noteq> 0 \<longleftrightarrow> cellAt b d \<noteq> EMPTY_CELL \<and> cellPieceColor (cellAt b d) = C"
  using and_coordToBitboard_iff(2) [OF assms(2)] bit_bbColor [OF assms] by simp

lemma pawn_step_valid:
  assumes p: "position_ok b" and s: "isCoord s" "isCoord d"
  shows "(if cellAt b d = EMPTY_CELL then d = s + pawnForwardDelta C
      else if cellPieceColor (cellAt b d) \<noteq> C
      then (if C = White then WHITE_PAWN_ATTACKS else BLACK_PAWN_ATTACKS) s AND coordToBitboard d \<noteq> 0
      else False) \<longleftrightarrow> pawn_step b C s d"
  unfolding pawn_step_def attack_tables(5) [OF s, of C "bbAll b"] by auto

lemma pawn_step_rows:
  assumes "isCoord s" "isCoord d" "pawn_step b C s d"
  shows "coordX d = coordX s + pawnDir C \<and> (coordY s + 1 = coordY d \<or> coordY s = coordY d \<or> coordY s - 1 = coordY d)"
  using assms(3) pawn_forward_iff [of d s C] unfolding pawn_step_def
  by (auto simp: colDist_def pawnDir_def split: if_splits)


lemma wellFormed_coords: "isWellFormed m C \<Longrightarrow> isCoord (src m) \<and> isCoord (dst m)"
  by (auto simp: isWellFormed_def isCoord_def split: if_splits)

lemma castling_coords:
  "makeCoord (castlingRow C) 4 = castlingOffset C + 4" "makeCoord (castlingRow C) 5 = castlingOffset C + 5"
  "makeCoord (castlingRow C) 6 = castlingOffset C + 6" "makeCoord (castlingRow C) 2 = castlingOffset C + 2"
  "makeCoord (castlingRow C) 3 = castlingOffset C + 3"
  by (cases C; simp add: coord_simps castlingRow_def)+

text \<open>Moves of pieces and single steps of pawns.\<close>

lemma valid_simple:
  assumes p: "position_ok b" and k: "kind m = Simple" and s: "isCoord (src m)" "isCoord (dst m)"
  shows "src m \<noteq> dst m \<and> isMoveValidImpl C b m \<longleftrightarrow>
    (\<exists>P. cellAt b (src m) = makeCell C P \<and>
       (if P = Pawn then coordX (src m) \<noteq> promoteSrcRow C \<and> pawn_step b C (src m) (dst m)
        else (cellAt b (dst m) = EMPTY_CELL \<or> cellPieceColor (cellAt b (dst m)) \<noteq> C) \<and>
          piece_attacks (bbAll b) C P (src m) (dst m)))"
proof -
  note B = position_okD(1) [OF p]
  let ?s = "src m" and ?d = "dst m"
  have ne: "?s \<noteq> ?d" if "pawn_step b C ?s ?d"
    using that by (auto simp: pawn_step_def pawnForwardDelta_def colDist_def split: if_splits)
  have v: "isMoveValidImpl C b m \<longleftrightarrow>
      (if cellAt b ?s = makeCell C Pawn then coordX ?s \<noteq> promoteSrcRow C \<and> pawn_step b C ?s ?d
       else if cellAt b ?d \<noteq> EMPTY_CELL \<and> cellPieceColor (cellAt b ?d) = C then False
       else if cellAt b ?s = makeCell C King then piece_attacks (bbAll b) C King ?s ?d
       else if cellAt b ?s = makeCell C Knight then piece_attacks (bbAll b) C Knight ?s ?d
       else if cellAt b ?s = makeCell C Bishop then bishop_sees (bbAll b) ?s ?d
       else if cellAt b ?s = makeCell C Rook then rook_sees (bbAll b) ?s ?d
       else if cellAt b ?s = makeCell C Queen then bishop_sees (bbAll b) ?s ?d \<or> rook_sees (bbAll b) ?s ?d
       else False)"
    unfolding isMoveValidImpl_def Let_def k own_piece_bit [OF B s(2)] attack_tables(1,2) [OF s, of "bbAll b" C] attack_tables(3,4) [OF s]
      pawn_step_valid [OF p s, symmetric] by (simp add: isMoveKindPromote_def del: piece_attacks.simps)
  show ?thesis
  proof (cases "\<exists>P. cellAt b ?s = makeCell C P")
    case True
    then obtain P where P: "cellAt b ?s = makeCell C P" by blast
    then have "(\<exists>Q. cellAt b ?s = makeCell C Q \<and> R Q) \<longleftrightarrow> R P" for R by auto
    then show ?thesis
      unfolding v using ne piece_attacks_irrefl [of "bbAll b" C P ?s] P
      by (cases P) (auto simp del: makeCell_values piece_attacks.simps(1-3))
  next
    case False
    then show ?thesis unfolding v by (auto simp del: makeCell_values)
  qed
qed


lemma valid_promote:
  assumes p: "position_ok b" and k: "isMoveKindPromote (kind m)"
  shows "isWellFormed m C \<and> isMoveValidImpl C b m \<longleftrightarrow> isCoord (src m) \<and> isCoord (dst m) \<and>
    cellAt b (src m) = makeCell C Pawn \<and> coordX (src m) = promoteSrcRow C \<and> pawn_step b C (src m) (dst m)"
proof (cases "isCoord (src m) \<and> isCoord (dst m)")
  case True
  let ?s = "src m" and ?d = "dst m"
  have kk: "kind m \<noteq> Null" "kind m \<noteq> Simple" "kind m \<noteq> PawnDoubleMove" "kind m \<noteq> Enpassant"
    "kind m \<noteq> CastlingKingside" "kind m \<noteq> CastlingQueenside"
    using k by (auto simp: isMoveKindPromote_def)
  have v: "isMoveValidImpl C b m \<longleftrightarrow> cellAt b ?s = makeCell C Pawn \<and> pawn_step b C ?s ?d"
    unfolding isMoveValidImpl_def Let_def pawn_step_valid [OF p, of ?s ?d C, symmetric, OF True [THEN conjunct1] True [THEN conjunct2]]
    using k kk by simp
  have w: "isWellFormed m C \<longleftrightarrow> ?s \<noteq> ?d \<and> coordX ?s = promoteSrcRow C \<and> coordX ?d = promoteDstRow C \<and>
      (coordY ?s + 1 = coordY ?d \<or> coordY ?s = coordY ?d \<or> coordY ?s - 1 = coordY ?d)"
    using k kk True unfolding isMoveKindPromote_def isWellFormed_def isCoord_def Let_def by (elim disjE) auto
  have "promoteDstRow C = promoteSrcRow C + pawnDir C"
    by (cases C) (simp_all add: promoteSrcRow_def promoteDstRow_def pawnDir_def)
  then show ?thesis
    unfolding v w using True pawn_step_rows [of ?s ?d b C] by (auto simp: pawnDir_def split: if_splits)
qed (use wellFormed_coords in blast)

lemma valid_double:
  assumes p: "position_ok b" and k: "kind m = PawnDoubleMove"
  shows "isWellFormed m C \<and> isMoveValidImpl C b m \<longleftrightarrow> isCoord (src m) \<and> isCoord (dst m) \<and>
    cellAt b (src m) = makeCell C Pawn \<and> coordX (src m) = doubleMoveSrcRow C \<and> dst m = src m + 2 * pawnForwardDelta C \<and>
    cellAt b (src m + pawnForwardDelta C) = EMPTY_CELL \<and> cellAt b (dst m) = EMPTY_CELL"
proof (cases "isCoord (src m) \<and> isCoord (dst m)")
  case True
  let ?s = "src m" and ?d = "dst m"
  have "?d = ?s + 2 * pawnForwardDelta C \<longleftrightarrow> coordX ?d = coordX ?s + 2 * pawnDir C \<and> coordY ?d = coordY ?s"
    using coord_shift [of ?d ?s "2 * pawnDir C" 0] by (simp add: pawn_deltas)
  moreover have "doubleMoveDstRow C = doubleMoveSrcRow C + 2 * pawnDir C"
    by (cases C) (simp_all add: doubleMoveSrcRow_def doubleMoveDstRow_def pawnDir_def)
  ultimately have w: "isWellFormed m C \<longleftrightarrow> coordX ?s = doubleMoveSrcRow C \<and> ?d = ?s + 2 * pawnForwardDelta C"
    using True k by (auto simp: isWellFormed_def isCoord_def pawnDir_def split: if_splits)
  have v: "isMoveValidImpl C b m \<longleftrightarrow> cellAt b ?s = makeCell C Pawn \<and>
      bbAll b AND (if C = White then push_bit (nat (?s - 16)) 0x0101 else push_bit (nat ?s) 0x010100) = 0"
    using k by (simp add: isMoveValidImpl_def Let_def)
  show ?thesis
    unfolding w v using True double_valid [OF position_okD(1) [OF p], of ?s C] by auto
qed (use wellFormed_coords in blast)

lemma valid_castling:
  assumes p: "position_ok b"
  shows "kind m = CastlingKingside \<Longrightarrow> isWellFormed m C \<and> isMoveValidImpl C b m \<longleftrightarrow>
      src m = castlingOffset C + 4 \<and> dst m = castlingOffset C + 6 \<and> isKingsideCastling b C \<and>
      cellAt b (castlingOffset C + 5) = EMPTY_CELL \<and> cellAt b (castlingOffset C + 6) = EMPTY_CELL \<and>
      \<not> isCellAttacked b (src m) (invert C) \<and> \<not> isCellAttacked b (castlingOffset C + 5) (invert C)"
    and "kind m = CastlingQueenside \<Longrightarrow> isWellFormed m C \<and> isMoveValidImpl C b m \<longleftrightarrow>
      src m = castlingOffset C + 4 \<and> dst m = castlingOffset C + 2 \<and> isQueensideCastling b C \<and>
      cellAt b (castlingOffset C + 1) = EMPTY_CELL \<and> cellAt b (castlingOffset C + 2) = EMPTY_CELL \<and>
      cellAt b (castlingOffset C + 3) = EMPTY_CELL \<and>
      \<not> isCellAttacked b (src m) (invert C) \<and> \<not> isCellAttacked b (castlingOffset C + 3) (invert C)"
proof -
  note e = castling_pass_empty [OF position_okD(1) [OF p]]
  have o: "isCoord (castlingOffset C + 4)" "isCoord (castlingOffset C + 6)" "isCoord (castlingOffset C + 2)" by simp_all
  show "kind m = CastlingKingside \<Longrightarrow> isWellFormed m C \<and> isMoveValidImpl C b m \<longleftrightarrow>
      src m = castlingOffset C + 4 \<and> dst m = castlingOffset C + 6 \<and> isKingsideCastling b C \<and>
      cellAt b (castlingOffset C + 5) = EMPTY_CELL \<and> cellAt b (castlingOffset C + 6) = EMPTY_CELL \<and>
      \<not> isCellAttacked b (src m) (invert C) \<and> \<not> isCellAttacked b (castlingOffset C + 5) (invert C)"
    using o unfolding isMoveValidImpl_def Let_def e isWellFormed_def castling_coords isCoord_def by (cases C) auto
  show "kind m = CastlingQueenside \<Longrightarrow> isWellFormed m C \<and> isMoveValidImpl C b m \<longleftrightarrow>
      src m = castlingOffset C + 4 \<and> dst m = castlingOffset C + 2 \<and> isQueensideCastling b C \<and>
      cellAt b (castlingOffset C + 1) = EMPTY_CELL \<and> cellAt b (castlingOffset C + 2) = EMPTY_CELL \<and>
      cellAt b (castlingOffset C + 3) = EMPTY_CELL \<and>
      \<not> isCellAttacked b (src m) (invert C) \<and> \<not> isCellAttacked b (castlingOffset C + 3) (invert C)"
    using o unfolding isMoveValidImpl_def Let_def e isWellFormed_def castling_coords isCoord_def by (cases C) auto
qed

lemma valid_enpassant:
  assumes p: "position_ok b" and k: "kind m = Enpassant" and C: "C = side b"
  shows "isWellFormed m C \<and> isMoveValidImpl C b m \<longleftrightarrow> isCoord (src m) \<and> isCoord (dst m) \<and>
    cellAt b (src m) = makeCell C Pawn \<and> enpassantCoord b \<noteq> INVALID_COORD \<and>
    coordX (src m) = coordX (enpassantCoord b) \<and> colDist (src m) (enpassantCoord b) = 1 \<and>
    dst m = enpassantCoord b + pawnForwardDelta C"
proof (cases "isCoord (src m) \<and> isCoord (dst m)")
  case True
  let ?s = "src m" and ?d = "dst m"
  have "coordX ?s \<noteq> coordX ?d" if "coordX ?s = enpassantSrcRow C" "coordX ?d = enpassantDstRow C"
    using that by (cases C) (simp_all add: enpassantSrcRow_def enpassantDstRow_def)
  then have w: "isWellFormed m C \<longleftrightarrow> coordX ?s = enpassantSrcRow C \<and> coordX ?d = enpassantDstRow C \<and>
      (coordY ?s + 1 = coordY ?d \<or> coordY ?s - 1 = coordY ?d)"
    using True k by (auto simp: isWellFormed_def isCoord_def Let_def)
  have v: "isMoveValidImpl C b m \<longleftrightarrow> cellAt b ?s = makeCell C Pawn \<and>
      (?s + 1 = enpassantCoord b \<or> ?s - 1 = enpassantCoord b) \<and> ?d = enpassantCoord b + pawnForwardDelta C"
    using k by (simp add: isMoveValidImpl_def Let_def)
  show ?thesis
    unfolding w v using True enpassant_valid [OF p, of ?s ?d] unfolding C by blast
qed (use wellFormed_coords in blast)

lemma valid_iff_pseudo_legal:
  assumes p: "position_ok b"
  shows "isWellFormed m (side b) \<and> isMoveValid b m \<longleftrightarrow> pseudo_legal b m"
proof (cases "kind m")
  case Simple
  have w: "isWellFormed m C \<longleftrightarrow> isCoord (src m) \<and> isCoord (dst m) \<and> src m \<noteq> dst m" for C
    using Simple by (auto simp: isWellFormed_def isCoord_def Let_def)
  show ?thesis
  proof (cases "isCoord (src m) \<and> isCoord (dst m)")
    case True
    then show ?thesis
      using valid_simple [OF p Simple, of "side b"] Simple w by (simp add: isMoveValid_side pseudo_legal_def Let_def)
  next
    case False
    then show ?thesis using w by (auto simp: pseudo_legal_def Let_def)
  qed
next
  case PawnDoubleMove
  then show ?thesis using valid_double [OF p] unfolding isMoveValid_side pseudo_legal_def Let_def by auto
next
  case Enpassant
  then show ?thesis
    using valid_enpassant [OF p Enpassant refl] unfolding isMoveValid_side pseudo_legal_def Let_def by auto
next
  case CastlingKingside
  then show ?thesis
    using valid_castling(1) [OF p CastlingKingside] unfolding isMoveValid_side pseudo_legal_def Let_def by auto
next
  case CastlingQueenside
  then show ?thesis
    using valid_castling(2) [OF p CastlingQueenside] unfolding isMoveValid_side pseudo_legal_def Let_def by auto
next
  case Null
  then show ?thesis by (simp add: isMoveValid_side isMoveValidImpl_def pseudo_legal_def Let_def)
next
  case Invalid
  then show ?thesis by (simp add: isWellFormed_def pseudo_legal_def Let_def)
qed (use valid_promote [OF p, of m "side b"] in \<open>auto simp: isMoveValid_side pseudo_legal_def Let_def isMoveKindPromote_def\<close>)

end
