(* ===== verification/Movegen_Lists.thy ===== *)
theory Movegen_Lists
  imports Movegen_Rules
begin

text \<open>
  What each part of the move generator produces, and that \<^verbatim>\<open>genImplInner\<close> produces exactly the
  pseudo-legal moves that its template parameters and its filter ask for.
\<close>

section \<open>What the parts of the generator produce\<close>

definition flt_ok :: "GenFilter \<Rightarrow> coord \<Rightarrow> bool" where
  "flt_ok flt d \<longleftrightarrow> (case flt of SimpleGenFilter \<Rightarrow> True | CheckGenFilter w \<Rightarrow> bit w (nat d))"

lemma bit_filterDst: "bit (filterDst flt w) (nat d) \<longleftrightarrow> bit w (nat d) \<and> flt_ok flt d"
  by (cases flt) (simp_all add: flt_ok_def bit_and_iff)

lemma in_bbList_coord: "c \<in> set (bbList w) \<longleftrightarrow> isCoord c \<and> bit w (nat c)"
  using bbList_range [of c w] by (auto simp: in_bbList isCoord_def)

lemma mkMove_eq: "m = mkMove k s d t \<longleftrightarrow> kind m = k \<and> src m = s \<and> dst m = d \<and> tag m = t"
  by (auto simp: mkMove_def)

lemma mkMove_sel [simp]:
  "kind (mkMove k s d t) = k" "src (mkMove k s d t) = s" "dst (mkMove k s d t) = d" "tag (mkMove k s d t) = t"
  by (simp_all add: mkMove_def)

lemma in_addPawn:
  "m \<in> set (addPawnWithPromote pr s d) \<longleftrightarrow> src m = s \<and> dst m = d \<and> tag m = 0 \<and>
     (if pr then isMoveKindPromote (kind m) else kind m = Simple)"
  by (auto simp: addPawnWithPromote_def mkMove_eq isMoveKindPromote_def)

lemma not_bbAll:
  assumes "bb_ok b" "isCoord d"
  shows "bit (w AND NOT (bbAll b)) (nat d) \<longleftrightarrow> bit w (nat d) \<and> cellAt b d = EMPTY_CELL"
  using bit_bbAll [OF assms] bit_NOT_coord [OF assms(2)] by (auto simp: bit_and_iff)

lemma in_doGenPawnSingle:
  assumes b: "bb_ok b"
  shows "m \<in> set (doGenPawnSingle C pr b pawns flt) \<longleftrightarrow> tag m = 0 \<and>
    (if pr then isMoveKindPromote (kind m) else kind m = Simple) \<and> isCoord (src m) \<and> isCoord (dst m) \<and>
    bit pawns (nat (src m)) \<and> dst m = src m + pawnForwardDelta C \<and> cellAt b (dst m) = EMPTY_CELL \<and> flt_ok flt (dst m)"
  unfolding doGenPawnSingle_def Let_def
  by (auto simp: in_bbList_coord bit_filterDst not_bbAll [OF b] bit_advancePawnForward in_addPawn)

lemma in_doGenPawnCapture:
  assumes b: "bb_ok b"
  shows "m \<in> set (doGenPawnCapture C pr b pawns flt) \<longleftrightarrow> tag m = 0 \<and>
    (if pr then isMoveKindPromote (kind m) else kind m = Simple) \<and> isCoord (src m) \<and> isCoord (dst m) \<and>
    bit pawns (nat (src m)) \<and> piece_attacks occ C Pawn (src m) (dst m) \<and>
    cellAt b (dst m) \<noteq> EMPTY_CELL \<and> cellPieceColor (cellAt b (dst m)) = invert C \<and> flt_ok flt (dst m)"
  unfolding doGenPawnCapture_def Let_def pawn_attacks_iff
  by (auto simp: in_bbList_coord bit_filterDst bit_and_iff bit_bbColor [OF b] bit_advancePawnLeft
      bit_advancePawnRight in_addPawn)

lemma in_doGenPawnDouble:
  assumes b: "bb_ok b"
  shows "m \<in> set (doGenPawnDouble C b pawns flt) \<longleftrightarrow> tag m = 0 \<and> kind m = PawnDoubleMove \<and>
    isCoord (src m) \<and> isCoord (dst m) \<and> isCoord (src m + pawnForwardDelta C) \<and>
    bit pawns (nat (src m)) \<and> dst m = src m + 2 * pawnForwardDelta C \<and>
    cellAt b (src m + pawnForwardDelta C) = EMPTY_CELL \<and> cellAt b (dst m) = EMPTY_CELL \<and> flt_ok flt (dst m)"
proof -
  have e: "d - pawnForwardDelta C - pawnForwardDelta C = d - 2 * pawnForwardDelta C" for d by simp
  have "m \<in> set (doGenPawnDouble C b pawns flt) \<longleftrightarrow> (\<exists>d. isCoord d \<and> isCoord (d - pawnForwardDelta C) \<and>
      isCoord (d - 2 * pawnForwardDelta C) \<and> bit pawns (nat (d - 2 * pawnForwardDelta C)) \<and>
      cellAt b (d - pawnForwardDelta C) = EMPTY_CELL \<and> cellAt b d = EMPTY_CELL \<and> flt_ok flt d \<and>
      kind m = PawnDoubleMove \<and> src m = d - 2 * pawnForwardDelta C \<and> dst m = d \<and> tag m = 0)"
    unfolding doGenPawnDouble_def Let_def
    by (auto simp: in_bbList_coord bit_filterDst not_bbAll [OF b] bit_advancePawnForward mkMove_eq e)
  then show ?thesis by (auto simp: add.commute [of "pawnForwardDelta C" "src m"])
qed

lemma row_bits:
  assumes "bb_ok b" "isCoord s" "0 \<le> r" "r < 8"
  shows "bit (pieceBB b (makeCell C p) AND NOT (BB_ROW ! nat r)) (nat s) \<longleftrightarrow> cellAt b s = makeCell C p \<and> coordX s \<noteq> r"
    "bit (pieceBB b (makeCell C p) AND (BB_ROW ! nat r)) (nat s) \<longleftrightarrow> cellAt b s = makeCell C p \<and> coordX s = r"
  using bit_pieceBB [OF assms(1,2)] bit_BB_ROW [of r s] assms bit_NOT_coord [OF assms(2)]
  by (auto simp: bit_and_iff simp del: makeCell_values)

lemma rows_range: "0 \<le> promoteSrcRow C" "promoteSrcRow C < 8" "0 \<le> doubleMoveSrcRow C" "doubleMoveSrcRow C < 8"
  by (cases C; simp add: promoteSrcRow_def doubleMoveSrcRow_def)+


lemma in_genPawnSimple:
  assumes b: "bb_ok b"
  shows "m \<in> set (genPawnSimple C P b flt) \<longleftrightarrow> tag m = 0 \<and> isCoord (src m) \<and> isCoord (dst m) \<and>
    cellAt b (src m) = makeCell C Pawn \<and> cellAt b (dst m) = EMPTY_CELL \<and> flt_ok flt (dst m) \<and>
    (kind m = Simple \<and> P \<noteq> PromoteOnly \<and> coordX (src m) \<noteq> promoteSrcRow C \<and> dst m = src m + pawnForwardDelta C \<or>
     kind m = PawnDoubleMove \<and> P \<noteq> PromoteOnly \<and> coordX (src m) = doubleMoveSrcRow C \<and>
       isCoord (src m + pawnForwardDelta C) \<and> dst m = src m + 2 * pawnForwardDelta C \<and>
       cellAt b (src m + pawnForwardDelta C) = EMPTY_CELL \<or>
     isMoveKindPromote (kind m) \<and> P \<noteq> NoPromote \<and> coordX (src m) = promoteSrcRow C \<and>
       dst m = src m + pawnForwardDelta C)"
proof -
  let ?p = "pieceBB b (makeCell C Pawn)"
  note r = row_bits [OF b] rows_range
  have 1: "m \<in> set (doGenPawnSingle C False b (?p AND NOT (BB_ROW ! nat (promoteSrcRow C))) flt) \<longleftrightarrow> tag m = 0 \<and>
      kind m = Simple \<and> isCoord (src m) \<and> isCoord (dst m) \<and> cellAt b (src m) = makeCell C Pawn \<and>
      coordX (src m) \<noteq> promoteSrcRow C \<and> dst m = src m + pawnForwardDelta C \<and> cellAt b (dst m) = EMPTY_CELL \<and> flt_ok flt (dst m)"
    unfolding in_doGenPawnSingle [OF b] using r by auto
  have 2: "m \<in> set (doGenPawnSingle C True b (?p AND (BB_ROW ! nat (promoteSrcRow C))) flt) \<longleftrightarrow> tag m = 0 \<and>
      isMoveKindPromote (kind m) \<and> isCoord (src m) \<and> isCoord (dst m) \<and> cellAt b (src m) = makeCell C Pawn \<and>
      coordX (src m) = promoteSrcRow C \<and> dst m = src m + pawnForwardDelta C \<and> cellAt b (dst m) = EMPTY_CELL \<and> flt_ok flt (dst m)"
    unfolding in_doGenPawnSingle [OF b] using r by auto
  have 3: "m \<in> set (doGenPawnDouble C b (?p AND (BB_ROW ! nat (doubleMoveSrcRow C))) flt) \<longleftrightarrow> tag m = 0 \<and>
      kind m = PawnDoubleMove \<and> isCoord (src m) \<and> isCoord (dst m) \<and> isCoord (src m + pawnForwardDelta C) \<and>
      cellAt b (src m) = makeCell C Pawn \<and> coordX (src m) = doubleMoveSrcRow C \<and>
      dst m = src m + 2 * pawnForwardDelta C \<and>
      cellAt b (src m + pawnForwardDelta C) = EMPTY_CELL \<and> cellAt b (dst m) = EMPTY_CELL \<and> flt_ok flt (dst m)"
    unfolding in_doGenPawnDouble [OF b] using r by auto
  have k: "\<not> isMoveKindPromote Simple" "\<not> isMoveKindPromote PawnDoubleMove" by (simp_all add: isMoveKindPromote_def)
  show ?thesis
    unfolding genPawnSimple_def Let_def
    by (cases P; simp add: 1 2 3 k del: makeCell_values; blast)
qed

lemma in_genPawnCapture:
  assumes b: "bb_ok b"
  shows "m \<in> set (genPawnCapture C b flt) \<longleftrightarrow> tag m = 0 \<and> isCoord (src m) \<and> isCoord (dst m) \<and>
    cellAt b (src m) = makeCell C Pawn \<and> cellAt b (dst m) \<noteq> EMPTY_CELL \<and> cellPieceColor (cellAt b (dst m)) = invert C \<and>
    flt_ok flt (dst m) \<and> piece_attacks (bbAll b) C Pawn (src m) (dst m) \<and>
    (kind m = Simple \<and> coordX (src m) \<noteq> promoteSrcRow C \<or>
     isMoveKindPromote (kind m) \<and> coordX (src m) = promoteSrcRow C)"
  unfolding genPawnCapture_def Let_def set_append Un_iff in_doGenPawnCapture [OF b, of _ _ _ _ _ "bbAll b"]
  using row_bits [OF b] rows_range by (auto simp del: makeCell_values piece_attacks.simps)

text \<open>The target squares of a generator: empty ones when it makes simple moves, enemies when it makes captures.\<close>

definition free_for :: "bool \<Rightarrow> bool \<Rightarrow> color \<Rightarrow> board \<Rightarrow> coord \<Rightarrow> bool" where
  "free_for S Cp C b d \<longleftrightarrow> (cellAt b d = EMPTY_CELL \<and> S) \<or>
    (cellAt b d \<noteq> EMPTY_CELL \<and> cellPieceColor (cellAt b d) = invert C \<and> Cp)"

lemma bit_getAllowedMask:
  assumes b: "bb_ok b" and g: "S \<or> Cp" and d: "isCoord d"
  shows "bit (getAllowedMask C S Cp b) (nat d) \<longleftrightarrow> free_for S Cp C b d"
  using g bit_bbColor [OF b d] bit_bbAll [OF b d] bit_NOT_coord [OF d]
  by (cases "cellPieceColor (cellAt b d)"; cases C; auto simp: getAllowedMask_def free_for_def)

lemma in_move_list:
  "m \<in> set (concat (map (\<lambda>s. map (\<lambda>d. mkMove k s d 0) (f s)) xs)) \<longleftrightarrow>
    kind m = k \<and> tag m = 0 \<and> src m \<in> set xs \<and> dst m \<in> set (f (src m))"
  by (auto simp: image_iff mkMove_eq)

lemma in_genKnightOrKing:
  assumes b: "bb_ok b" and g: "S \<or> Cp" and P: "P = Knight \<or> P = King"
  shows "m \<in> set (genKnightOrKing C P S Cp b flt) \<longleftrightarrow> tag m = 0 \<and> kind m = Simple \<and> isCoord (src m) \<and> isCoord (dst m) \<and>
    cellAt b (src m) = makeCell C P \<and> free_for S Cp C b (dst m) \<and> flt_ok flt (dst m) \<and>
    piece_attacks (bbAll b) C P (src m) (dst m)"
proof -
  have a: "bit (KNIGHT_ATTACKS s) (nat d) \<longleftrightarrow> piece_attacks (bbAll b) C Knight s d"
    "bit (KING_ATTACKS s) (nat d) \<longleftrightarrow> piece_attacks (bbAll b) C King s d" if "isCoord s" "isCoord d" for s d
    using bit_KING_ATTACKS [OF that] bit_KNIGHT_ATTACKS [OF that] by auto
  from P show ?thesis
    unfolding genKnightOrKing_def Let_def in_move_list
    by (elim disjE) (auto simp: in_bbList_coord bit_filterDst bit_and_iff a bit_getAllowedMask [OF b g]
        bit_pieceBB [OF b] mkMove_eq simp del: makeCell_values piece_attacks.simps)
qed

lemma in_genBishopOrRook:
  assumes b: "bb_ok b" and g: "S \<or> Cp"
  shows "m \<in> set (genBishopOrRook C P S Cp b bbSrc flt) \<longleftrightarrow> tag m = 0 \<and> kind m = Simple \<and> isCoord (src m) \<and>
    isCoord (dst m) \<and> bit bbSrc (nat (src m)) \<and> free_for S Cp C b (dst m) \<and> flt_ok flt (dst m) \<and>
    (if P = Bishop then bishop_sees (bbAll b) (src m) (dst m) else rook_sees (bbAll b) (src m) (dst m))"
  unfolding genBishopOrRook_def Let_def in_move_list
  by (cases "P = Bishop") (auto simp: in_bbList_coord bit_filterDst bit_and_iff bit_rookAttackBitboard
      bit_bishopAttackBitboard bit_getAllowedMask [OF b g] mkMove_eq)

lemma in_genPawnEnpassant:
  assumes p: "position_ok b"
  shows "m \<in> set (genPawnEnpassant (side b) b) \<longleftrightarrow> tag m = 0 \<and> kind m = Enpassant \<and> isCoord (src m) \<and> isCoord (dst m) \<and>
    cellAt b (src m) = makeCell (side b) Pawn \<and> enpassantCoord b \<noteq> INVALID_COORD \<and>
    coordX (src m) = coordX (enpassantCoord b) \<and> colDist (src m) (enpassantCoord b) = 1 \<and>
    dst m = enpassantCoord b + pawnForwardDelta (side b)"
proof (cases "enpassantCoord b = INVALID_COORD")
  case False
  let ?e = "enpassantCoord b" and ?C = "side b"
  have e: "isCoord ?e" "coordX ?e = enpassantSrcRow ?C" using position_okD(3) [OF p False] by auto
  have n: "isCoord s \<and> coordX s = coordX ?e \<and> colDist s ?e = 1 \<longleftrightarrow> s = ?e - 1 \<and> coordY ?e \<noteq> 0 \<or> s = ?e + 1 \<and> coordY ?e \<noteq> 7" for s
  proof -
    have y: "0 \<le> coordY ?e + - 1 \<and> coordY ?e + - 1 < 8 \<longleftrightarrow> coordY ?e \<noteq> 0"
      "0 \<le> coordY ?e + 1 \<and> coordY ?e + 1 < 8 \<longleftrightarrow> coordY ?e \<noteq> 7" using coordY_range [of ?e] by presburger+
    have i: "isCoord s" if "coordX s = coordX ?e"
      using that coordX_range [OF e(1)] row_range [of s] unfolding isCoord_def by linarith
    have "colDist s ?e = 1 \<longleftrightarrow> coordY s = coordY ?e + - 1 \<or> coordY s = coordY ?e + 1" unfolding colDist_def by arith
    then show ?thesis
      using coord_shift [of s ?e 0 "-1"] coord_shift [of s ?e 0 1] y i by auto
  qed
  have "isCoord (?e + pawnForwardDelta ?C)"
    using e row_range [of ?e] by (cases ?C) (auto simp: enpassantSrcRow_def pawnForwardDelta_def isCoord_def)
  moreover have "m \<in> set (genPawnEnpassant ?C b) \<longleftrightarrow> tag m = 0 \<and> kind m = Enpassant \<and>
      cellAt b (src m) = makeCell ?C Pawn \<and> dst m = ?e + pawnForwardDelta ?C \<and>
      (src m = ?e - 1 \<and> coordY ?e \<noteq> 0 \<or> src m = ?e + 1 \<and> coordY ?e \<noteq> 7)"
    using False by (auto simp: genPawnEnpassant_def Let_def mkMove_eq simp del: makeCell_values)
  ultimately show ?thesis using False n [of "src m"] by auto
qed (simp add: genPawnEnpassant_def)

lemma in_genCastling:
  assumes p: "position_ok b"
  shows "m \<in> set (genCastling C b) \<longleftrightarrow> tag m = 0 \<and>
    (kind m = CastlingKingside \<and> src m = castlingOffset C + 4 \<and> dst m = castlingOffset C + 6 \<and> isKingsideCastling b C \<and>
       cellAt b (castlingOffset C + 5) = EMPTY_CELL \<and> cellAt b (castlingOffset C + 6) = EMPTY_CELL \<and>
       \<not> isCellAttacked b (castlingOffset C + 5) (invert C) \<or>
     kind m = CastlingQueenside \<and> src m = castlingOffset C + 4 \<and> dst m = castlingOffset C + 2 \<and> isQueensideCastling b C \<and>
       cellAt b (castlingOffset C + 1) = EMPTY_CELL \<and> cellAt b (castlingOffset C + 2) = EMPTY_CELL \<and>
       cellAt b (castlingOffset C + 3) = EMPTY_CELL \<and> \<not> isCellAttacked b (castlingOffset C + 3) (invert C))"
  unfolding genCastling_def Let_def castling_coords castling_pass_empty [OF position_okD(1) [OF p]]
  by (auto simp: mkMove_eq)

section \<open>The whole generator\<close>

definition wanted :: "bool \<Rightarrow> bool \<Rightarrow> bool \<Rightarrow> board \<Rightarrow> move \<Rightarrow> bool" where
  "wanted S Cp SP b m \<longleftrightarrow> (if isMoveCapture b m then Cp else S \<and> (isMoveKindPromote (kind m) \<longrightarrow> SP))"

definition passes :: "GenFilter \<Rightarrow> board \<Rightarrow> move \<Rightarrow> bool" where
  "passes flt b m \<longleftrightarrow> (if kind m = CastlingKingside \<or> kind m = CastlingQueenside then GEN_CASTLING flt
     else kind m = Enpassant \<or> cellAt b (src m) = makeCell (side b) King \<or> flt_ok flt (dst m))"

lemma color_neq_iff: "x \<noteq> C \<longleftrightarrow> x = invert C"
  by (cases x; cases C; simp)

lemma free_for_iff:
  "free_for S Cp C b d \<longleftrightarrow> (cellAt b d = EMPTY_CELL \<or> cellPieceColor (cellAt b d) \<noteq> C) \<and>
     (if cellAt b d \<noteq> EMPTY_CELL then Cp else S)"
  unfolding color_neq_iff by (auto simp: free_for_def)

lemma flt_ok_Simple [simp]: "flt_ok SimpleGenFilter d"
  by (simp add: flt_ok_def)

lemma kind_promote [simp]:
  "\<not> isMoveKindPromote Simple" "\<not> isMoveKindPromote PawnDoubleMove" "\<not> isMoveKindPromote Enpassant"
  "\<not> isMoveKindPromote CastlingKingside" "\<not> isMoveKindPromote CastlingQueenside" "\<not> isMoveKindPromote Null"
  "\<not> isMoveKindPromote Invalid" "isMoveKindPromote PromoteKnight" "isMoveKindPromote PromoteBishop"
  "isMoveKindPromote PromoteRook" "isMoveKindPromote PromoteQueen"
  by (simp_all add: isMoveKindPromote_def)

lemma in_if: "x \<in> set (if c then xs else []) \<longleftrightarrow> c \<and> x \<in> set xs"
  by simp

lemma genImplInner_parts:
  "m \<in> set (genImplInner C S Cp SP b flt) \<longleftrightarrow>
     S \<and> m \<in> set (genPawnSimple C (if SP then PromoteAll else NoPromote) b flt) \<or>
     Cp \<and> (m \<in> set (genPawnCapture C b flt) \<or> m \<in> set (genPawnEnpassant C b)) \<or>
     m \<in> set (genKnightOrKing C King S Cp b SimpleGenFilter) \<or>
     m \<in> set (genKnightOrKing C Knight S Cp b flt) \<or>
     m \<in> set (genBishopOrRook C Bishop S Cp b (bbDiagPieces C b) flt) \<or>
     m \<in> set (genBishopOrRook C Rook S Cp b (bbLinePieces C b) flt) \<or>
     (S \<and> GEN_CASTLING flt) \<and> m \<in> set (genCastling C b)"
  unfolding genImplInner_def set_append Un_iff in_if genKing_def genKnight_def genBishop_def genRook_def by blast

lemma in_genImplInner:
  assumes p: "position_ok b" and g: "S \<or> Cp"
    and nc: "\<And>k. GEN_CASTLING flt \<Longrightarrow> isCoord k \<Longrightarrow> cellAt b k = makeCell (side b) King \<Longrightarrow>
      \<not> isCellAttacked b k (invert (side b))"
  shows "m \<in> set (genImplInner (side b) S Cp SP b flt) \<longleftrightarrow>
    tag m = 0 \<and> pseudo_legal b m \<and> wanted S Cp SP b m \<and> passes flt b m" (is "?l \<longleftrightarrow> ?r")
proof -
  note B = position_okD(1) [OF p]
  let ?C = "side b" and ?s = "src m" and ?d = "dst m"
  note ins = in_genPawnSimple [OF B] in_genPawnCapture [OF B] in_genPawnEnpassant [OF p]
    in_genKnightOrKing [OF B g] in_genBishopOrRook [OF B g] in_genCastling [OF p]
  have parts: "?l \<longleftrightarrow> (S \<and> m \<in> set (genPawnSimple ?C (if SP then PromoteAll else NoPromote) b flt) \<or>
     Cp \<and> (m \<in> set (genPawnCapture ?C b flt) \<or> m \<in> set (genPawnEnpassant ?C b)) \<or>
     m \<in> set (genKnightOrKing ?C King S Cp b SimpleGenFilter) \<or>
     m \<in> set (genKnightOrKing ?C Knight S Cp b flt) \<or>
     m \<in> set (genBishopOrRook ?C Bishop S Cp b (bbDiagPieces ?C b) flt) \<or>
     m \<in> set (genBishopOrRook ?C Rook S Cp b (bbLinePieces ?C b) flt) \<or>
     (S \<and> GEN_CASTLING flt) \<and> m \<in> set (genCastling ?C b))" by (rule genImplInner_parts)
  have pol: "(if SP then PromoteAll else NoPromote) \<noteq> PromoteOnly"
    "(if SP then PromoteAll else NoPromote) = NoPromote \<longleftrightarrow> \<not> SP" by simp_all
  have pr: ?thesis if k: "isMoveKindPromote (kind m)"
  proof -
    have kk: "kind m \<noteq> Simple" "kind m \<noteq> PawnDoubleMove" "kind m \<noteq> Enpassant" "kind m \<noteq> CastlingKingside"
      "kind m \<noteq> CastlingQueenside" using k by (auto simp: isMoveKindPromote_def)
    have l: "?l \<longleftrightarrow> S \<and> m \<in> set (genPawnSimple ?C (if SP then PromoteAll else NoPromote) b flt) \<or>
        Cp \<and> m \<in> set (genPawnCapture ?C b flt)"
      unfolding parts by (auto simp: ins kk)
    have r: "pseudo_legal b m \<longleftrightarrow> isCoord ?s \<and> isCoord ?d \<and> cellAt b ?s = makeCell ?C Pawn \<and>
        coordX ?s = promoteSrcRow ?C \<and> pawn_step b ?C ?s ?d"
      using k by (auto simp: pseudo_legal_def Let_def isMoveKindPromote_def)
    show ?thesis
      unfolding l r ins(1,2) pol using k kk
      by (auto simp: wanted_def passes_def isMoveCapture_def pawn_step_def color_neq_iff pol
          simp del: makeCell_values piece_attacks.simps)
  qed
  show ?thesis
  proof (cases "kind m")
    case Simple
    show ?thesis
    proof (cases "isCoord ?s \<and> isCoord ?d \<and> (\<exists>P. cellAt b ?s = makeCell ?C P)")
      case True
      then obtain P where P: "cellAt b ?s = makeCell ?C P" and c: "isCoord ?s" "isCoord ?d" by blast
      have "pseudo_legal b m \<longleftrightarrow> (if P = Pawn then coordX ?s \<noteq> promoteSrcRow ?C \<and> pawn_step b ?C ?s ?d
         else (cellAt b ?d = EMPTY_CELL \<or> cellPieceColor (cellAt b ?d) \<noteq> ?C) \<and> piece_attacks (bbAll b) ?C P ?s ?d)"
        using P c Simple by (auto simp: pseudo_legal_def Let_def)
      moreover have "?l \<longleftrightarrow> tag m = 0 \<and> (if P = Pawn then coordX ?s \<noteq> promoteSrcRow ?C \<and>
            (if cellAt b ?d = EMPTY_CELL then S \<and> ?d = ?s + pawnForwardDelta ?C
             else Cp \<and> cellPieceColor (cellAt b ?d) = invert ?C \<and> piece_attacks (bbAll b) ?C Pawn ?s ?d) \<and> flt_ok flt ?d
          else free_for S Cp ?C b ?d \<and> piece_attacks (bbAll b) ?C P ?s ?d \<and> (P \<noteq> King \<longrightarrow> flt_ok flt ?d))"
        unfolding parts ins(1-3,6) ins(4) [where P = King] ins(4) [where P = Knight] ins(5) bit_pieces [OF B c(1)] P pol
        using c Simple by (cases P) (auto simp: ins(4) bit_pieces [OF B c(1)] P pol simp del: makeCell_values piece_attacks.simps(1-3))
      moreover have "isMoveCapture b m \<longleftrightarrow> cellAt b ?d \<noteq> EMPTY_CELL" using Simple by (simp add: isMoveCapture_def)
      ultimately show ?thesis
        using Simple P unfolding free_for_iff wanted_def passes_def pawn_step_def color_neq_iff
        by (auto simp del: makeCell_values piece_attacks.simps)
    next
      case False
      then have "\<not> pseudo_legal b m" using Simple by (auto simp: pseudo_legal_def Let_def)
      moreover have "\<not> ?l"
        unfolding parts using False Simple by (auto simp: ins bit_pieces [OF B] simp del: makeCell_values piece_attacks.simps)
      ultimately show ?thesis by blast
    qed
  next
    case PawnDoubleMove
    have mid: "isCoord (?s + pawnForwardDelta ?C)" if "isCoord ?s" "isCoord ?d" "?d = ?s + 2 * pawnForwardDelta ?C"
      using that by (cases ?C) (auto simp: isCoord_def pawnForwardDelta_def)
    have l: "?l \<longleftrightarrow> S \<and> m \<in> set (genPawnSimple ?C (if SP then PromoteAll else NoPromote) b flt)"
      unfolding parts by (auto simp: ins PawnDoubleMove)
    show ?thesis
      unfolding l ins(1) pol using PawnDoubleMove mid
      by (auto simp: pseudo_legal_def Let_def wanted_def passes_def isMoveCapture_def pol simp del: makeCell_values)
  next
    case Enpassant
    have l: "?l \<longleftrightarrow> Cp \<and> m \<in> set (genPawnEnpassant ?C b)"
      unfolding parts by (auto simp: ins Enpassant)
    show ?thesis
      unfolding l ins(3) using Enpassant
      by (auto simp: pseudo_legal_def Let_def wanted_def passes_def isMoveCapture_def simp del: makeCell_values)
  next
    case CastlingKingside
    have l: "?l \<longleftrightarrow> S \<and> GEN_CASTLING flt \<and> m \<in> set (genCastling ?C b)"
      unfolding parts by (auto simp: ins CastlingKingside)
    have k: "cellAt b (castlingOffset ?C + 4) = makeCell ?C King" if "isKingsideCastling b ?C"
      using position_okD(4) [OF p] that by (auto simp: castling_ok_def)
    show ?thesis
      unfolding l ins(6) using CastlingKingside nc [OF _ _ k]
      by (auto simp: pseudo_legal_def Let_def wanted_def passes_def isMoveCapture_def simp del: makeCell_values)
  next
    case CastlingQueenside
    have l: "?l \<longleftrightarrow> S \<and> GEN_CASTLING flt \<and> m \<in> set (genCastling ?C b)"
      unfolding parts by (auto simp: ins CastlingQueenside)
    have k: "cellAt b (castlingOffset ?C + 4) = makeCell ?C King" if "isQueensideCastling b ?C"
      using position_okD(4) [OF p] that by (auto simp: castling_ok_def)
    show ?thesis
      unfolding l ins(6) using CastlingQueenside nc [OF _ _ k]
      by (auto simp: pseudo_legal_def Let_def wanted_def passes_def isMoveCapture_def simp del: makeCell_values)
  next
    case Null
    then show ?thesis unfolding parts by (auto simp: ins pseudo_legal_def Let_def)
  next
    case Invalid
    then show ?thesis unfolding parts by (auto simp: ins pseudo_legal_def Let_def)
  qed (rule pr; simp)+
qed

end
