(* ===== verification/Movegen_Legal.thy ===== *)
theory Movegen_Legal
  imports Movegen_Lists
begin

text \<open>
  \<^verbatim>\<open>isMoveLegal\<close> decides legality by masks, without making the move. For every pseudo-legal move
  of a consistent board it agrees with \<^verbatim>\<open>wasMoveLegal\<close> on the board after \<^verbatim>\<open>moveMake\<close>.
\<close>

section \<open>Cells after a move\<close>

definition move_cells :: "board \<Rightarrow> move \<Rightarrow> cell list" where
  "move_cells b m = (let C = side b; cs = (cells b)[nat (src m) := EMPTY_CELL]; k = castlingOffset C in
     case kind m of
       Simple \<Rightarrow> cs[nat (dst m) := cellAt b (src m)]
     | PawnDoubleMove \<Rightarrow> cs[nat (dst m) := makeCell C Pawn]
     | Enpassant \<Rightarrow> cs[nat (dst m) := makeCell C Pawn, nat (enpassantPawnPos C (dst m)) := EMPTY_CELL]
     | CastlingKingside \<Rightarrow> (cells b)[nat (k + 4) := EMPTY_CELL, nat (k + 5) := makeCell C Rook,
         nat (k + 6) := makeCell C King, nat (k + 7) := EMPTY_CELL]
     | CastlingQueenside \<Rightarrow> (cells b)[nat k := EMPTY_CELL, nat (k + 2) := makeCell C King,
         nat (k + 3) := makeCell C Rook, nat (k + 4) := EMPTY_CELL]
     | Null \<Rightarrow> cells b
     | Invalid \<Rightarrow> cells b
     | _ \<Rightarrow> cs[nat (dst m) := makeCell C (moveKindPromotePiece (kind m))])"

lemma cells_moveMake: "cells (fst (moveMake z b m)) = move_cells b m"
  unfolding moveMake_stages
  by (cases "kind m") (simp_all add: move_body_def make_defs Let_def move_cells_def clearColorCastling_def del: makeCell_values)

lemma pseudo_makeable:
  assumes p: "position_ok b" and m: "pseudo_legal b m"
  shows "makeable b m"
proof -
  let ?C = "side b" and ?s = "src m" and ?d = "dst m"
  have c: "isCoord ?s" "isCoord ?d" using m by (simp_all add: pseudo_legal_def Let_def)
  have step: "can_move ?C b ?s ?d (makeCell ?C Pawn) (cellAt b ?d)"
    if "cellAt b ?s = makeCell ?C Pawn" "pawn_step b ?C ?s ?d"
  proof -
    have "?s \<noteq> ?d" using that(2) by (auto simp: pawn_step_def pawnForwardDelta_def colDist_def split: if_splits)
    then show ?thesis using that c by (auto simp: can_move_def pawn_step_def color_neq_iff simp del: piece_attacks.simps makeCell_values)
  qed
  have pr: ?thesis if "isMoveKindPromote (kind m)"
    using that m c step by (auto simp: isMoveKindPromote_def pseudo_legal_def makeable_def Let_def)
  show ?thesis
  proof (cases "kind m")
    case Simple
    then obtain P where P: "cellAt b ?s = makeCell ?C P" and
      r: "if P = Pawn then coordX ?s \<noteq> promoteSrcRow ?C \<and> pawn_step b ?C ?s ?d
        else (cellAt b ?d = EMPTY_CELL \<or> cellPieceColor (cellAt b ?d) \<noteq> ?C) \<and> piece_attacks (bbAll b) ?C P ?s ?d"
      using m by (auto simp: pseudo_legal_def Let_def)
    show ?thesis
    proof (cases "P = Pawn")
      case True
      then show ?thesis using Simple c P r step by (simp add: makeable_def Let_def)
    next
      case False
      then have "?s \<noteq> ?d" using r piece_attacks_irrefl [of "bbAll b" ?C P ?s] by auto
      then show ?thesis using False Simple c P r by (auto simp: makeable_def Let_def can_move_def color_neq_iff)
    qed
  next
    case PawnDoubleMove
    let ?f = "pawnForwardDelta ?C"
    have r: "cellAt b ?s = makeCell ?C Pawn" "coordX ?s = doubleMoveSrcRow ?C" "?d = ?s + 2 * ?f"
      "cellAt b (?s + ?f) = EMPTY_CELL" "cellAt b ?d = EMPTY_CELL"
      using m unfolding pseudo_legal_def Let_def PawnDoubleMove MoveKind.case by blast+
    have f: "?f \<noteq> 0" by (cases ?C) (simp_all add: pawnForwardDelta_def)
    have "coordX ?d = doubleMoveDstRow ?C"
      using r(2,3) coord_shift [of ?d ?s "2 * pawnDir ?C" 0]
      by (cases ?C) (auto simp: pawn_deltas pawnDir_def doubleMoveSrcRow_def doubleMoveDstRow_def)
    moreover have "isCoord (?s + ?f)" using c r(3) by (cases ?C) (auto simp: isCoord_def pawnForwardDelta_def)
    moreover have "?d - ?f = ?s + ?f" using r(3) by simp
    ultimately show ?thesis
      using PawnDoubleMove c r f
      by (simp add: makeable_def Let_def can_move_def add.commute [of "pawnForwardDelta ?C" ?s])
  next
    case Enpassant
    let ?e = "enpassantCoord b"
    have r: "cellAt b ?s = makeCell ?C Pawn" "?e \<noteq> INVALID_COORD" "coordX ?s = coordX ?e" "colDist ?s ?e = 1"
      "?d = ?e + pawnForwardDelta ?C" using m unfolding pseudo_legal_def Let_def Enpassant MoveKind.case by blast+
    have "enpassantPawnPos ?C ?d = ?e" using r(5) by (cases ?C) (simp_all add: enpassantPawnPos_def pawnForwardDelta_def)
    moreover note position_okD(3) [OF p r(2)]
    moreover from this have "?s \<noteq> ?d" using r(1,5) by (auto simp del: makeCell_values)
    ultimately show ?thesis
      using Enpassant c r by (simp add: makeable_def Let_def can_move_def del: makeCell_values)
  next
    case CastlingKingside
    then show ?thesis using m by (simp add: makeable_def pseudo_legal_def Let_def)
  next
    case CastlingQueenside
    then show ?thesis using m by (simp add: makeable_def pseudo_legal_def Let_def)
  qed (use m pr in \<open>simp_all add: pseudo_legal_def Let_def\<close>)
qed


section \<open>Legality without making the move\<close>

text \<open>After a pseudo-legal move the enemy pieces are those on the squares the move leaves alone, and the
  occupancy, as far as they see it, is the one \<^verbatim>\<open>isMoveLegal\<close> computes with masks.\<close>


lemma attacked_after:
  assumes b: "bb_ok b" and b': "bb_ok b'" and k: "isCoord k"
    and enemy: "\<And>s P. isCoord s \<Longrightarrow> s \<noteq> k \<Longrightarrow>
      cellAt b' s = makeCell D P \<longleftrightarrow> cellAt b s = makeCell D P \<and> bit msk (nat s)"
    and occ: "\<And>s P. isCoord s \<Longrightarrow> s \<noteq> k \<Longrightarrow> cellAt b' s = makeCell D P \<Longrightarrow>
      piece_attacks (bbAll b') D P s k \<longleftrightarrow> piece_attacks occ D P s k"
  shows "isCellAttacked b' k D \<longleftrightarrow> isAttackedMaskedImpl D b k occ msk"
proof -
  have "attacker (bbAll b') b' D s k \<longleftrightarrow> bit msk (nat s) \<and> attacker occ b D s k" if "isCoord s" for s
  proof (cases "s = k")
    case False
    then show ?thesis using enemy [OF that False] occ [OF that False] unfolding attacker_def by blast
  qed (simp add: attacker_def)
  then show ?thesis
    unfolding isCellAttacked_iff [OF b' k] isAttackedMaskedImpl_eq attackersMasked_nonzero [OF b k] by blast
qed

lemma occ_after:
  assumes b': "bb_ok b'" and k: "isCoord k" and s: "isCoord s"
    and occ: "\<And>e. isCoord e \<Longrightarrow> e \<noteq> k \<Longrightarrow> cellAt b' e \<noteq> EMPTY_CELL \<longleftrightarrow> bit occ (nat e)"
  shows "piece_attacks (bbAll b') D P s k \<longleftrightarrow> piece_attacks occ D P s k"
proof (rule piece_attacks_cong)
  fix e assume e: "isCoord e" "bit (between s k) (nat e)"
  then have "e \<noteq> k" using between_irrefl(2) [OF s k] by blast
  then show "bit (bbAll b') (nat e) = bit occ (nat e)" using occ [OF e(1)] bit_bbAll [OF b' e(1)] by simp
qed

lemma inside_row:
  assumes "isCoord c" "isCoord d" "isCoord e" "coordX d = coordX e"
  shows "inside c d e \<longleftrightarrow> coordX c = coordX d \<and>
    (coordY c < coordY e \<and> coordY e < coordY d \<or> coordY d < coordY e \<and> coordY e < coordY c)"
  unfolding inside_iff [OF assms(1-3)] coordDiag1_def coordDiag2_def using assms(4) by auto

lemma row_blocked:
  assumes "isCoord s" "isCoord d" "isCoord r" "coordX d = coordX r" "inside s d r" "bit occ (nat r)"
  shows "\<not> piece_attacks occ D P s d"
proof -
  have "coordX s = coordX d" "coordY s < coordY r \<and> coordY r < coordY d \<or> coordY d < coordY r \<and> coordY r < coordY s"
    using inside_row [OF assms(1-4)] assms(5) by auto
  then have "2 \<le> colDist s d" "rowDist s d = 0" by (auto simp: colDist_def rowDist_def)
  moreover have "bit (between s d AND occ) (nat r)"
    using assms bit_between [OF assms(1-3)] by (simp add: bit_and_iff)
  then have "between s d AND occ \<noteq> 0" by auto
  then have "\<not> rook_sees occ s d" "\<not> bishop_sees occ s d" by (simp_all add: rook_sees_def bishop_sees_def)
  ultimately show ?thesis by (cases P) auto
qed

text \<open>A castling rook is met only by pieces that already give check along the back row.\<close>

lemma castling_shield:
  assumes b: "bb_ok b" and c: "isCoord s" "isCoord d" "isCoord r" "isCoord t"
    and row: "coordX d = coordX t" "coordX r = coordX t"
    and order: "coordY d = coordY r + 1 \<and> coordY r = coordY t + 1 \<or> coordY d = coordY r - 1 \<and> coordY r = coordY t - 1"
    and st: "s \<noteq> t" and cell: "cellAt b s = makeCell D P"
    and na: "\<not> isCellAttacked b t D"
    and occ: "\<And>e. isCoord e \<Longrightarrow> e \<noteq> t \<Longrightarrow> bit occ (nat e) \<longleftrightarrow> cellAt b e \<noteq> EMPTY_CELL"
    and i: "inside s d r"
  shows "\<not> piece_attacks occ D P s d"
proof
  assume a: "piece_attacks occ D P s d"
  have sx: "coordX s = coordX d" and sy: "coordY s < coordY r \<and> coordY r < coordY d \<or> coordY d < coordY r \<and> coordY r < coordY s"
    using i inside_row [OF c(1-3)] row by auto
  have "\<not> bishop_aligned s d" using sx sy unfolding bishop_aligned_def coordDiag1_def coordDiag2_def by auto
  then have nb: "\<not> bishop_sees occ s d" by (simp add: bishop_sees_def)
  have "2 \<le> colDist s d" "rowDist s d = 0" using sx sy by (auto simp: colDist_def rowDist_def)
  with a nb have P: "P = Rook \<or> P = Queen" and r: "rook_sees occ s d"
    by (cases P; auto)+
  have ty: "coordY s < coordY t \<and> coordY t < coordY d \<or> coordY d < coordY t \<and> coordY t < coordY s"
  proof -
    have "coordY s \<noteq> coordY t" using st sx row coord_eqI [of s t] by auto
    then show ?thesis using sy order by arith
  qed
  have "between s t AND bbAll b = 0"
  proof (rule bitboard_eqI)
    fix e assume e: "isCoord e"
    have "\<not> (bit (between s t) (nat e) \<and> bit (bbAll b) (nat e))"
    proof
      assume h: "bit (between s t) (nat e) \<and> bit (bbAll b) (nat e)"
      then have "inside s t e" using bit_between [OF c(1,4) e] by simp
      then have ex: "coordX e = coordX s" and ey: "coordY s < coordY e \<and> coordY e < coordY t \<or> coordY t < coordY e \<and> coordY e < coordY s"
        using sx row ty unfolding inside_iff [OF c(1,4) e] coordDiag1_def coordDiag2_def by auto
      then have "inside s d e" "e \<noteq> t" using inside_row [OF c(1,2) e] sx ty by auto
      then have "bit (between s d AND occ) (nat e)"
        using bit_between [OF c(1,2) e] occ [OF e] bit_bbAll [OF b e] h by (simp add: bit_and_iff)
      then show False using r by (simp add: rook_sees_def)
    qed
    then show "bit (between s t AND bbAll b) (nat e) = bit 0 (nat e)" by (simp add: bit_and_iff)
  qed
  then have "rook_sees (bbAll b) s t" using sx row st by (simp add: rook_sees_def rook_aligned_def)
  then have "attacker (bbAll b) b D s t" using P cell unfolding attacker_def by auto
  then show False using na c(1) isCellAttacked_iff [OF b c(4)] by blast
qed


lemma wasMoveLegal_after:
  assumes b': "bb_ok b'" and s: "side b' = invert C" and k: "one_king b' C k"
  shows "wasMoveLegal b' \<longleftrightarrow> \<not> isCellAttacked b' k (invert C)"
  using one_king_pos [OF b' k] s by (simp add: wasMoveLegal_def Let_def)

text \<open>Moves that put one piece on a new square: simple moves, promotions, double steps.\<close>

lemma legal_single:
  assumes b: "position_ok b" and b': "bb_ok b'" "side b' = invert (side b)" and k: "one_king b (side b) k"
    and m: "isCoord (src m)" "isCoord (dst m)" "src m \<noteq> dst m" and kd: "kind m \<noteq> Null" "kind m \<noteq> Enpassant"
    and v: "cellAt b (src m) = makeCell (side b) P"
    and w: "cellAt b (dst m) = EMPTY_CELL \<or> cellPieceColor (cellAt b (dst m)) \<noteq> side b"
    and u: "u = makeCell (side b) Q" "P = King \<Longrightarrow> Q = King" "P \<noteq> King \<Longrightarrow> Q \<noteq> King"
    and cells: "\<And>c. isCoord c \<Longrightarrow> cellAt b' c = (if c = dst m then u else if c = src m then EMPTY_CELL else cellAt b c)"
  shows "isMoveLegal b m \<longleftrightarrow> wasMoveLegal b'"
proof -
  let ?C = "side b" and ?D = "invert (side b)" and ?s = "src m" and ?d = "dst m"
  note B = position_okD(1) [OF b]
  have enemy: "cellAt b' s = makeCell ?D R \<longleftrightarrow> cellAt b s = makeCell ?D R \<and> s \<noteq> ?d" if "isCoord s" for s R
    using cells [OF that] u(1) v by (auto simp del: makeCell_values)
  have occ: "cellAt b' e \<noteq> EMPTY_CELL \<longleftrightarrow> e = ?d \<or> e \<noteq> ?s \<and> cellAt b e \<noteq> EMPTY_CELL" if "isCoord e" for e
    using cells [OF that] u(1) by auto
  have xs: "bit (bbAll b XOR coordToBitboard ?s) (nat e) \<longleftrightarrow> e \<noteq> ?s \<and> cellAt b e \<noteq> EMPTY_CELL" if "isCoord e" for e
    using bit_bbAll [OF B that] bit_coord_bb [OF m(1) that] v by (auto simp: bit_xor_iff)
  show ?thesis
  proof (cases "P = King")
    case True
    then have ks: "k = ?s" using k v m(1) unfolding one_king_def by blast
    have "one_king b' ?C ?d"
      unfolding one_king_def using cells k m(2) u True ks by (auto simp: one_king_def simp del: makeCell_values)
    note W = wasMoveLegal_after [OF b' this]
    have "isCellAttacked b' ?d ?D \<longleftrightarrow> isAttackedMaskedImpl ?D b ?d (bbAll b XOR coordToBitboard ?s) BB_FULL"
    proof (rule attacked_after [OF B b'(1) m(2)])
      show "cellAt b' s = makeCell ?D R \<longleftrightarrow> cellAt b s = makeCell ?D R \<and> bit BB_FULL (nat s)"
        if "isCoord s" "s \<noteq> ?d" for s R using enemy that by (simp add: bit_BB_FULL)
      show "piece_attacks (bbAll b') ?D R s ?d \<longleftrightarrow> piece_attacks (bbAll b XOR coordToBitboard ?s) ?D R s ?d"
        if "isCoord s" for s R
        by (rule occ_after [OF b'(1) m(2) that]) (simp add: occ xs)
    qed
    then show ?thesis
      unfolding W isMoveLegal_side isMoveLegalImpl_def Let_def using kd v True by simp
  next
    case False
    have "one_king b' ?C k"
      unfolding one_king_def
    proof (intro conjI allI impI)
      show "isCoord k" using k by (simp add: one_king_def)
      fix c assume c: "isCoord c"
      show "cellAt b' c = makeCell ?C King \<longleftrightarrow> c = k"
        using cells [OF c] k c u(1) u(3) [OF False] v w False unfolding one_king_def
        by (auto simp del: makeCell_values)
    qed
    note W = wasMoveLegal_after [OF b' this]
    let ?all = "(bbAll b XOR coordToBitboard ?s) OR coordToBitboard ?d"
    have kc: "isCoord k" using k by (simp add: one_king_def)
    have "isCellAttacked b' k ?D \<longleftrightarrow> isAttackedMaskedImpl ?D b k ?all (NOT (coordToBitboard ?d))"
    proof (rule attacked_after [OF B b'(1) kc])
      show "cellAt b' s = makeCell ?D R \<longleftrightarrow> cellAt b s = makeCell ?D R \<and> bit (NOT (coordToBitboard ?d)) (nat s)"
        if "isCoord s" for s R using enemy [OF that] bit_NOT_coord [OF that] bit_coord_bb [OF m(2) that] by auto
      show "piece_attacks (bbAll b') ?D R s k \<longleftrightarrow> piece_attacks ?all ?D R s k" if "isCoord s" for s R
        by (rule occ_after [OF b'(1) kc that]) (auto simp: occ xs bit_or_iff bit_coord_bb [OF m(2)])
    qed
    moreover have "cellAt b ?s \<noteq> makeCell ?C King" using v False by simp
    ultimately show ?thesis
      unfolding W isMoveLegal_side isMoveLegalImpl_def Let_def using kd one_king_pos [OF B k] by simp
  qed
qed


lemma cellAt_after:
  assumes "length (cells b) = 64" "isCoord c"
  shows "cellAt (fst (moveMake z b m)) c = move_cells b m ! nat c"
  by (simp add: cellAt_def cells_moveMake)

lemma legal_enpassant:
  assumes b: "position_ok b" and b': "bb_ok b'" "side b' = invert (side b)" and k: "one_king b (side b) k"
    and kd: "kind m = Enpassant" and m: "pseudo_legal b m"
    and cells: "\<And>c. isCoord c \<Longrightarrow> cellAt b' c = (if c = enpassantPawnPos (side b) (dst m) then EMPTY_CELL
      else if c = dst m then makeCell (side b) Pawn else if c = src m then EMPTY_CELL else cellAt b c)"
  shows "isMoveLegal b m \<longleftrightarrow> wasMoveLegal b'"
proof -
  let ?C = "side b" and ?D = "invert (side b)" and ?s = "src m" and ?d = "dst m"
  let ?e = "enpassantCoord b"
  note B = position_okD(1) [OF b]
  have r: "isCoord ?s" "isCoord ?d" "cellAt b ?s = makeCell ?C Pawn" "?e \<noteq> INVALID_COORD" "?d = ?e + pawnForwardDelta ?C"
    using m unfolding pseudo_legal_def Let_def kd MoveKind.case by blast+
  note e = position_okD(3) [OF b r(4)]
  have t: "enpassantPawnPos ?C ?d = ?e" using r(5) by (cases ?C) (simp_all add: enpassantPawnPos_def pawnForwardDelta_def)
  have de: "cellAt b ?d = EMPTY_CELL" using e r(5) by simp
  have ne: "?s \<noteq> ?d" "?e \<noteq> ?d" "?s \<noteq> ?e" using e r(3) de by (auto simp del: makeCell_values)
  have ec: "isCoord ?e" using e by blast
  have tmp: "bit (advancePawnForward ?D (coordToBitboard ?d)) (nat c) \<longleftrightarrow> c = ?e" if "isCoord c" for c
  proof -
    have "pawnForwardDelta ?D = - pawnForwardDelta ?C" by (cases ?C) (simp_all add: pawnForwardDelta_def)
    then show ?thesis
      using bit_advancePawnForward [OF that, of ?D "coordToBitboard ?d"] bit_coord_bb [OF r(2)] r(2,5) by auto
  qed
  have kc: "isCoord k" using k by (simp add: one_king_def)
  have "one_king b' ?C k"
    unfolding one_king_def
  proof (intro conjI allI impI)
    fix c assume c: "isCoord c"
    show "cellAt b' c = makeCell ?C King \<longleftrightarrow> c = k"
      using cells [OF c] k c e de r(2,3) ec unfolding one_king_def t by (auto simp del: makeCell_values)
  qed (rule kc)
  note W = wasMoveLegal_after [OF b' this]
  have enemy: "cellAt b' s = makeCell ?D R \<longleftrightarrow> cellAt b s = makeCell ?D R \<and> s \<noteq> ?d \<and> s \<noteq> ?e" if "isCoord s" for s R
    using cells [OF that] r(3) de unfolding t by (auto simp del: makeCell_values)
  have occ: "cellAt b' c \<noteq> EMPTY_CELL \<longleftrightarrow> c = ?d \<or> c \<noteq> ?s \<and> c \<noteq> ?e \<and> cellAt b c \<noteq> EMPTY_CELL" if "isCoord c" for c
    using cells [OF that] ne unfolding t by auto
  let ?tmp = "advancePawnForward ?D (coordToBitboard ?d)"
  let ?all = "((bbAll b XOR coordToBitboard ?s) OR coordToBitboard ?d) XOR ?tmp"
  let ?msk = "NOT (coordToBitboard ?d) XOR ?tmp"
  have "isCellAttacked b' k ?D \<longleftrightarrow> isAttackedMaskedImpl ?D b k ?all ?msk"
  proof (rule attacked_after [OF B b'(1) kc])
    show "cellAt b' s = makeCell ?D R \<longleftrightarrow> cellAt b s = makeCell ?D R \<and> bit ?msk (nat s)" if "isCoord s" for s R
      using enemy [OF that] bit_NOT_coord [OF that] bit_coord_bb [OF r(2) that] tmp [OF that] ne(2) by (auto simp: bit_xor_iff)
    show "piece_attacks (bbAll b') ?D R s k \<longleftrightarrow> piece_attacks ?all ?D R s k" if "isCoord s" for s R
    proof (rule occ_after [OF b'(1) kc that])
      fix c assume c: "isCoord c"
      have "cellAt b ?e \<noteq> EMPTY_CELL" "cellAt b ?s \<noteq> EMPTY_CELL" using e r(3) by simp_all
      then show "cellAt b' c \<noteq> EMPTY_CELL \<longleftrightarrow> bit ?all (nat c)"
        unfolding occ [OF c] bit_xor_iff bit_or_iff bit_coord_bb [OF r(2) c] bit_coord_bb [OF r(1) c] tmp [OF c] bit_bbAll [OF B c]
        using ne by auto
    qed
  qed
  moreover have "cellAt b ?s \<noteq> makeCell ?C King" using r(3) by simp
  ultimately show ?thesis
    unfolding W isMoveLegal_side isMoveLegalImpl_def Let_def using kd one_king_pos [OF B k] by simp
qed

lemma legal_castling:
  assumes b: "position_ok b" and b': "bb_ok b'" "side b' = invert (side b)" and k: "one_king b (side b) k"
    and kd: "kind m \<noteq> Null" and ks: "cellAt b (src m) = makeCell (side b) King"
    and c: "isCoord (src m)" "isCoord (dst m)" "isCoord r" "isCoord f"
    and row: "coordX (dst m) = coordX (src m)" "coordX r = coordX (src m)" "coordX f = coordX (src m)"
    and order: "coordY (dst m) = coordY r + 1 \<and> coordY r = coordY (src m) + 1 \<and> coordY f = 7 \<or>
      coordY (dst m) = coordY r - 1 \<and> coordY r = coordY (src m) - 1 \<and> coordY f = 0"
    and f: "cellAt b f = makeCell (side b) Rook" and e: "cellAt b r = EMPTY_CELL" "cellAt b (dst m) = EMPTY_CELL"
    and na: "\<not> isCellAttacked b (src m) (invert (side b))"
    and cells: "\<And>c. isCoord c \<Longrightarrow> cellAt b' c = (if c = src m \<or> c = f then EMPTY_CELL
      else if c = dst m then makeCell (side b) King else if c = r then makeCell (side b) Rook else cellAt b c)"
  shows "isMoveLegal b m \<longleftrightarrow> wasMoveLegal b'"
proof -
  let ?C = "side b" and ?D = "invert (side b)" and ?s = "src m" and ?d = "dst m"
  note B = position_okD(1) [OF b]
  have kk: "k = ?s" using k ks c(1) unfolding one_king_def by blast
  have ne: "?d \<noteq> ?s" "?d \<noteq> r" "r \<noteq> ?s" "f \<noteq> r" "f \<noteq> ?d" "f \<noteq> ?s" using ks f e order by auto
  have "one_king b' ?C ?d"
    unfolding one_king_def using cells k c(2) ne f kk by (auto simp: one_king_def simp del: makeCell_values)
  note W = wasMoveLegal_after [OF b' this]
  have enemy: "cellAt b' s = makeCell ?D R \<longleftrightarrow> cellAt b s = makeCell ?D R" if "isCoord s" for s R
    using cells [OF that] ks f e by (auto simp del: makeCell_values)
  have occ: "cellAt b' x \<noteq> EMPTY_CELL \<longleftrightarrow> x = ?d \<or> x = r \<or> x \<noteq> ?s \<and> x \<noteq> f \<and> cellAt b x \<noteq> EMPTY_CELL" if "isCoord x" for x
    using cells [OF that] ne by auto
  let ?all = "bbAll b XOR coordToBitboard ?s"
  have xs: "bit ?all (nat x) \<longleftrightarrow> x \<noteq> ?s \<and> cellAt b x \<noteq> EMPTY_CELL" if "isCoord x" for x
    using bit_bbAll [OF B that] bit_coord_bb [OF c(1) that] ks by (auto simp: bit_xor_iff)
  have "isCellAttacked b' ?d ?D \<longleftrightarrow> isAttackedMaskedImpl ?D b ?d ?all BB_FULL"
  proof (rule attacked_after [OF B b'(1) c(2)])
    show "cellAt b' s = makeCell ?D R \<longleftrightarrow> cellAt b s = makeCell ?D R \<and> bit BB_FULL (nat s)" if "isCoord s" for s R
      using enemy [OF that] that by (simp add: bit_BB_FULL)
    show "piece_attacks (bbAll b') ?D R s ?d \<longleftrightarrow> piece_attacks ?all ?D R s ?d"
      if s: "isCoord s" and cell: "cellAt b' s = makeCell ?D R" for s R
    proof (cases "inside s ?d r")
      case True
      have cb: "cellAt b s = makeCell ?D R" using cell enemy [OF s] by simp
      have st: "s \<noteq> ?s" using cb ks by (auto simp del: makeCell_values)
      have od: "coordY ?d = coordY r + 1 \<and> coordY r = coordY ?s + 1 \<or> coordY ?d = coordY r - 1 \<and> coordY r = coordY ?s - 1"
        using order by blast
      have "\<not> piece_attacks ?all ?D R s ?d"
        by (rule castling_shield [OF B s c(2,3,1) row(1,2) od st cb na _ True]) (simp add: xs)
      moreover have "\<not> piece_attacks (bbAll b') ?D R s ?d"
        using row_blocked [OF s c(2,3) _ True] row(1,2) occ [OF c(3)] bit_bbAll [OF b'(1) c(3)] by simp
      ultimately show ?thesis by blast
    next
      case False
      show ?thesis
      proof (rule piece_attacks_cong)
        fix x assume x: "isCoord x" "bit (between s ?d) (nat x)"
        have i: "inside s ?d x" using x bit_between [OF s c(2)] by simp
        have "x \<noteq> f"
        proof
          assume "x = f"
          then have "coordY s < coordY f \<and> coordY f < coordY ?d \<or> coordY ?d < coordY f \<and> coordY f < coordY s"
            using i inside_row [OF s c(2,4)] row by simp
          then show False
            using order coordY_range [of s] coordY_range [of ?d] by (elim disjE conjE; linarith)
        qed
        moreover have "x \<noteq> r" "x \<noteq> ?d" using i False x between_irrefl(2) [OF s c(2)] by auto
        ultimately show "bit (bbAll b') (nat x) = bit ?all (nat x)"
          using bit_bbAll [OF b'(1) x(1)] occ [OF x(1)] xs [OF x(1)] by simp
      qed
    qed
  qed
  then show ?thesis
    unfolding W isMoveLegal_side isMoveLegalImpl_def Let_def using kd ks by simp
qed


section \<open>All kinds of moves\<close>

lemma pseudo_single:
  assumes p: "position_ok b" and m: "pseudo_legal b m" and k: "kind m = Simple \<or> kind m = PawnDoubleMove \<or> isMoveKindPromote (kind m)"
  obtains P Q where "cellAt b (src m) = makeCell (side b) P" "P = King \<longrightarrow> Q = King" "P \<noteq> King \<longrightarrow> Q \<noteq> King"
    "cellAt b (dst m) = EMPTY_CELL \<or> cellPieceColor (cellAt b (dst m)) \<noteq> side b" "src m \<noteq> dst m"
    "move_cells b m = (cells b)[nat (src m) := EMPTY_CELL, nat (dst m) := makeCell (side b) Q]"
proof -
  let ?C = "side b" and ?s = "src m" and ?d = "dst m"
  have mk: "makeable b m" by (rule pseudo_makeable [OF p m])
  have cm: "\<exists>v. can_move ?C b ?s ?d v (cellAt b ?d)"
    using mk k by (auto simp: makeable_def Let_def isMoveKindPromote_def can_move_def)
  then have dst: "cellAt b ?d = EMPTY_CELL \<or> cellPieceColor (cellAt b ?d) \<noteq> ?C" "?s \<noteq> ?d"
    by (auto simp: can_move_def color_neq_iff)
  show ?thesis
  proof (cases "kind m = Simple")
    case True
    then obtain P where P: "cellAt b ?s = makeCell ?C P" using m by (auto simp: pseudo_legal_def Let_def)
    show ?thesis
      by (rule that [of P P]) (use P dst True in \<open>simp_all add: move_cells_def Let_def\<close>)
  next
    case False
    have P: "cellAt b ?s = makeCell ?C Pawn"
      using m k False by (auto simp: pseudo_legal_def Let_def isMoveKindPromote_def)
    let ?Q = "if kind m = PawnDoubleMove then Pawn else moveKindPromotePiece (kind m)"
    have "?Q \<noteq> King" using k False by (auto simp: isMoveKindPromote_def moveKindPromotePiece_def pieceOfVal_def)
    moreover have "move_cells b m = (cells b)[nat ?s := EMPTY_CELL, nat ?d := makeCell ?C ?Q]"
      using k False by (auto simp: move_cells_def Let_def isMoveKindPromote_def simp del: makeCell_values)
    ultimately show ?thesis by (intro that [of Pawn ?Q]) (use P dst in simp_all)
  qed
qed

lemma legal_iff_wasMoveLegal:
  assumes z: "zobrist_ok z" and c: "consistent z b" and k: "one_king b (side b) k" and m: "pseudo_legal b m"
  shows "isMoveLegal b m \<longleftrightarrow> wasMoveLegal (fst (moveMake z b m))"
proof -
  let ?b' = "fst (moveMake z b m)" and ?C = "side b" and ?s = "src m" and ?d = "dst m" and ?k = "castlingOffset (side b)"
  have p: "position_ok b" by (rule consistent_position [OF c])
  have len: "length (cells b) = 64" using p by (simp add: position_ok_def board_shape_def)
  have c': "consistent z ?b'" by (rule moveMake_keeps_consistent [OF z c pseudo_makeable [OF p m]])
  then have b': "bb_ok ?b'" "side ?b' = invert ?C" by (simp_all add: consistent_def moveMake_stages)
  have co: "isCoord ?s" "isCoord ?d" using m by (simp_all add: pseudo_legal_def Let_def)
  note at = cellAt_after [OF len, of _ z m]
  have single: ?thesis if kd: "kind m = Simple \<or> kind m = PawnDoubleMove \<or> isMoveKindPromote (kind m)"
  proof -
    obtain P Q where q: "cellAt b ?s = makeCell ?C P" "P = King \<longrightarrow> Q = King" "P \<noteq> King \<longrightarrow> Q \<noteq> King"
      "cellAt b ?d = EMPTY_CELL \<or> cellPieceColor (cellAt b ?d) \<noteq> ?C" "?s \<noteq> ?d"
      "move_cells b m = (cells b)[nat ?s := EMPTY_CELL, nat ?d := makeCell ?C Q]"
      using pseudo_single [OF p m kd] by blast
    show ?thesis
    proof (rule legal_single [OF p b' k co q(5) _ _ q(1,4) refl])
      show "cellAt ?b' x = (if x = ?d then makeCell ?C Q else if x = ?s then EMPTY_CELL else cellAt b x)" if "isCoord x" for x
        unfolding at [OF that] q(6) using len co that q(5)
        by (auto simp: nth_list_update nat_coord_eq cellAt_def simp del: makeCell_values)
    qed (use kd q in \<open>auto simp: isMoveKindPromote_def\<close>)
  qed
  show ?thesis
  proof (cases "kind m")
    case Enpassant
    show ?thesis
    proof (rule legal_enpassant [OF p b' k Enpassant m])
      fix x assume x: "isCoord x"
      have e: "isCoord (enpassantPawnPos ?C ?d)"
        using pseudo_makeable [OF p m] Enpassant by (simp add: makeable_def Let_def)
      show "cellAt ?b' x = (if x = enpassantPawnPos ?C ?d then EMPTY_CELL else if x = ?d then makeCell ?C Pawn
          else if x = ?s then EMPTY_CELL else cellAt b x)"
        unfolding at [OF x] using len co x e Enpassant
        by (auto simp: move_cells_def Let_def nth_list_update nat_coord_eq cellAt_def simp del: makeCell_values)
    qed
  next
    case CastlingKingside
    have r: "?s = ?k + 4" "?d = ?k + 6" "isKingsideCastling b ?C" "cellAt b (?k + 5) = EMPTY_CELL" "cellAt b (?k + 6) = EMPTY_CELL"
      "\<not> isCellAttacked b ?s (invert ?C)"
      using m unfolding pseudo_legal_def Let_def CastlingKingside MoveKind.case by blast+
    have kr: "cellAt b (?k + 4) = makeCell ?C King" "cellAt b (?k + 7) = makeCell ?C Rook"
      using position_okD(4) [OF p] r(3) by (auto simp: castling_ok_def)
    have y: "coordX (?k + n) = castlingRow ?C \<and> coordY (?k + n) = n" if "0 \<le> n" "n < 8" for n
    proof -
      have "?k + n = makeCoord (castlingRow ?C) n" using that by (cases ?C) (simp_all add: makeCoord_eq castlingRow_def)
      then show ?thesis using that by simp
    qed
    show ?thesis
    proof (rule legal_castling [OF p b' k, of m "?k + 5" "?k + 7"])
      fix x assume x: "isCoord x"
      show "cellAt ?b' x = (if x = ?s \<or> x = ?k + 7 then EMPTY_CELL else if x = ?d then makeCell ?C King
          else if x = ?k + 5 then makeCell ?C Rook else cellAt b x)"
        unfolding at [OF x] r(1,2) using len x CastlingKingside
        by (auto simp: move_cells_def Let_def nth_list_update nat_coord_eq cellAt_def simp del: makeCell_values)
    qed (use r kr y [of 4] y [of 5] y [of 6] y [of 7] CastlingKingside in simp_all)
  next
    case CastlingQueenside
    have r: "?s = ?k + 4" "?d = ?k + 2" "isQueensideCastling b ?C" "cellAt b (?k + 2) = EMPTY_CELL" "cellAt b (?k + 3) = EMPTY_CELL"
      "\<not> isCellAttacked b ?s (invert ?C)"
      using m unfolding pseudo_legal_def Let_def CastlingQueenside MoveKind.case by blast+
    have kr: "cellAt b (?k + 4) = makeCell ?C King" "cellAt b ?k = makeCell ?C Rook"
      using position_okD(4) [OF p] r(3) by (auto simp: castling_ok_def)
    have y: "coordX (?k + n) = castlingRow ?C \<and> coordY (?k + n) = n" if "0 \<le> n" "n < 8" for n
    proof -
      have "?k + n = makeCoord (castlingRow ?C) n" using that by (cases ?C) (simp_all add: makeCoord_eq castlingRow_def)
      then show ?thesis using that by simp
    qed
    show ?thesis
    proof (rule legal_castling [OF p b' k, of m "?k + 3" ?k])
      fix x assume x: "isCoord x"
      show "cellAt ?b' x = (if x = ?s \<or> x = ?k then EMPTY_CELL else if x = ?d then makeCell ?C King
          else if x = ?k + 3 then makeCell ?C Rook else cellAt b x)"
        unfolding at [OF x] r(1,2) using len x CastlingQueenside
        by (auto simp: move_cells_def Let_def nth_list_update nat_coord_eq cellAt_def simp del: makeCell_values)
    qed (use r kr y [of 4] y [of 3] y [of 2] y [of 0] CastlingQueenside in simp_all)
  next
    case Null
    then show ?thesis using m by (simp add: pseudo_legal_def Let_def)
  next
    case Invalid
    then show ?thesis using m by (simp add: pseudo_legal_def Let_def)
  qed (rule single; simp)+
qed

end
