(* ===== verification/Movegen_Complete.thy ===== *)
theory Movegen_Complete
  imports Movegen_Legal
begin

text \<open>
  The move generator against the rules: how a legal move meets a check, that every legal move is
  generated and that every generated move is pseudo-legal, for all five entry points of
  \<^verbatim>\<open>MoveGen\<close>.
\<close>

section \<open>Checks and how to meet them\<close>

lemma attacks_mono:
  assumes "piece_attacks occ D P s c" "isCoord s" "isCoord c"
    and "\<And>e. isCoord e \<Longrightarrow> inside s c e \<Longrightarrow> bit occ' (nat e) \<Longrightarrow> bit occ (nat e)"
  shows "piece_attacks occ' D P s c"
proof -
  have "between s c AND occ' = 0" if z: "between s c AND occ = 0"
  proof (rule bitboard_eqI)
    fix e assume e: "isCoord e"
    have "bit (between s c AND occ) (nat e) \<longleftrightarrow> False" using z by simp
    then show "bit (between s c AND occ') (nat e) = bit 0 (nat e)"
      using assms(4) [OF e] bit_between [OF assms(2,3) e] by (auto simp: bit_and_iff)
  qed
  then show ?thesis using assms(1) by (cases P) (auto simp: rook_sees_def bishop_sees_def)
qed

lemma inside_far:
  assumes "isCoord s" "isCoord c" "isCoord e" "inside s c e"
  shows "rowDist s c = 0 \<and> 2 \<le> colDist s c \<or> colDist s c = 0 \<and> 2 \<le> rowDist s c \<or>
    rowDist s c = colDist s c \<and> 2 \<le> rowDist s c"
  using assms(4) unfolding inside_iff [OF assms(1-3)] rowDist_def colDist_def coordDiag1_def coordDiag2_def abs_if
  by (elim disjE conjE; simp; linarith?)

lemma attack_clear:
  assumes "piece_attacks occ D P s c" "isCoord s" "isCoord c" "isCoord e" "inside s c e"
  shows "\<not> bit occ (nat e)"
proof
  assume "bit occ (nat e)"
  then have "bit (between s c AND occ) (nat e)" using assms bit_between [OF assms(2-4)] by (simp add: bit_and_iff)
  then have "between s c AND occ \<noteq> 0" by auto
  then show False
    using assms(1) inside_far [OF assms(2-5)]
    by (cases P) (auto simp: rook_sees_def bishop_sees_def rowDist_def split: if_splits)
qed

lemma unit_steps:
  assumes "dir \<in> set (rook_dirs @ bishop_dirs)" "dir' \<in> set (rook_dirs @ bishop_dirs)"
    and "0 < j" "0 < j'" "at_step k dir j e" "at_step k dir' j' e"
  shows "dir = dir' \<and> j = j'"
proof -
  obtain a c a' c' where d: "dir = (a, c)" "dir' = (a', c')" by (metis surj_pair)
  have eq: "j * a = j' * a'" "j * c = j' * c'" using assms(5,6) d by (simp_all add: at_step_def)
  have r: "(a, c) \<in> {(-1, 0), (1, 0), (0, -1), (0, 1), (-1, -1), (-1, 1), (1, -1), (1, 1)}"
    "(a', c') \<in> {(-1, 0), (1, 0), (0, -1), (0, 1), (-1, -1), (-1, 1), (1, -1), (1, 1)}"
    using assms(1,2) d by (auto simp: rook_dirs_def bishop_dirs_def)
  then show ?thesis using eq assms(3,4) unfolding d insert_iff empty_iff prod.inject by (elim disjE conjE) simp_all
qed

lemma same_ray:
  assumes "isCoord c" "isCoord d" "isCoord k" "isCoord e" "inside c k e" "inside d k e" "c \<noteq> d"
  shows "inside c k d \<or> inside d k c"
proof -
  have sym: "inside x k y = inside k x y" if "isCoord x" "isCoord y" for x y
    using bit_between [OF that(1) assms(3) that(2)] bit_between [OF assms(3) that] between_sym [of x k] by simp
  obtain dir j n where a: "dir \<in> set (rook_dirs @ bishop_dirs)" "0 < j" "j < n" "at_step k dir j e" "at_step k dir n c"
    using assms(5) unfolding sym [OF assms(1,4)] unfolding inside_def by blast
  obtain dir' j' n' where b: "dir' \<in> set (rook_dirs @ bishop_dirs)" "0 < j'" "j' < n'" "at_step k dir' j' e" "at_step k dir' n' d"
    using assms(6) unfolding sym [OF assms(2,4)] unfolding inside_def by blast
  have e: "dir = dir'" using unit_steps [OF a(1) b(1) a(2) b(2) a(4) b(4)] by blast
  have "n \<noteq> n'"
  proof
    assume "n = n'"
    then have "coordX c = coordX d" "coordY c = coordY d" using a(5) b(5) e by (simp_all add: at_step_def)
    then have "c = d" by (rule coord_eqI)
    then show False using assms(7) by blast
  qed
  then consider "n < n'" | "n' < n" by linarith
  then show ?thesis
  proof cases
    case 1
    then have "inside k d c"
      unfolding inside_def using \<open>dir \<in> _\<close> a b e by (intro bexI [of _ dir] exI [of _ n] exI [of _ n']) auto
    then show ?thesis using sym [OF assms(2,1)] by blast
  next
    case 2
    then have "inside k c d"
      unfolding inside_def using \<open>dir \<in> _\<close> a b e by (intro bexI [of _ dir] exI [of _ n'] exI [of _ n]) auto
    then show ?thesis using sym [OF assms(1,2)] by blast
  qed
qed

lemma still_attacked:
  assumes b: "bb_ok b" and c: "isCoord s" "isCoord k" and a: "attacker (bbAll b) b D s k" and m: "bit msk (nat s)"
    and occ: "\<And>e. isCoord e \<Longrightarrow> inside s k e \<Longrightarrow> bit occ (nat e) \<Longrightarrow> bit (bbAll b) (nat e)"
  shows "isAttackedMaskedImpl D b k occ msk"
proof -
  have "attacker occ b D s k" using a attacks_mono [OF _ c occ] unfolding attacker_def by blast
  then show ?thesis unfolding isAttackedMaskedImpl_eq attackersMasked_nonzero [OF b c(2)] using c m by blast
qed

lemma pseudo_src:
  assumes p: "position_ok b" and m: "pseudo_legal b m"
  shows "\<exists>P. cellAt b (src m) = makeCell (side b) P"
    and "kind m = CastlingKingside \<or> kind m = CastlingQueenside \<Longrightarrow> cellAt b (src m) = makeCell (side b) King"
proof -
  show c: "kind m = CastlingKingside \<or> kind m = CastlingQueenside \<Longrightarrow> cellAt b (src m) = makeCell (side b) King"
    using m position_okD(4) [OF p] by (auto simp: pseudo_legal_def Let_def castling_ok_def simp del: makeCell_values)
  show "\<exists>P. cellAt b (src m) = makeCell (side b) P"
    using m c by (cases "kind m") (auto simp: pseudo_legal_def Let_def simp del: makeCell_values)
qed

text \<open>A legal move of a piece other than the king meets every check: it captures the checking piece or
  lands between it and the king, or captures it en passant.\<close>

lemma legal_meets_check:
  assumes p: "position_ok b" and k: "one_king b (side b) k" and m: "pseudo_legal b m" and l: "isMoveLegal b m"
    and nk: "cellAt b (src m) \<noteq> makeCell (side b) King"
    and c: "isCoord c" "attacker (bbAll b) b (invert (side b)) c k"
  shows "c = dst m \<or> inside c k (dst m) \<or> kind m = Enpassant \<and> c = enpassantCoord b"
proof (rule ccontr)
  assume n: "\<not> ?thesis"
  let ?C = "side b" and ?D = "invert (side b)" and ?s = "src m" and ?d = "dst m"
  note B = position_okD(1) [OF p]
  have kd: "kind m \<noteq> Null" using m by (auto simp: pseudo_legal_def Let_def)
  have kc: "isCoord k" using k by (simp add: one_king_def)
  have co: "isCoord ?s" "isCoord ?d" using m by (simp_all add: pseudo_legal_def Let_def)
  have own: "cellAt b ?s \<noteq> EMPTY_CELL"
    using pseudo_src [OF p m] by auto
  let ?tmp = "advancePawnForward ?D (coordToBitboard ?d)"
  define occ where "occ = (if kind m = Enpassant then ((bbAll b XOR coordToBitboard ?s) OR coordToBitboard ?d) XOR ?tmp
      else (bbAll b XOR coordToBitboard ?s) OR coordToBitboard ?d)"
  define msk where "msk = (if kind m = Enpassant then NOT (coordToBitboard ?d) XOR ?tmp else NOT (coordToBitboard ?d))"
  have tmp: "bit ?tmp (nat e) \<longleftrightarrow> e = enpassantCoord b" if "isCoord e" "kind m = Enpassant" for e
  proof -
    have "pawnForwardDelta ?D = - pawnForwardDelta ?C" by (cases ?C) (simp_all add: pawnForwardDelta_def)
    moreover have "?d = enpassantCoord b + pawnForwardDelta ?C"
      using m unfolding pseudo_legal_def Let_def that(2) MoveKind.case by blast
    ultimately show ?thesis
      using bit_advancePawnForward [OF that(1), of ?D "coordToBitboard ?d"] bit_coord_bb [OF co(2)] co(2) by auto
  qed
  have ep: "cellAt b (enpassantCoord b) \<noteq> EMPTY_CELL" if "kind m = Enpassant"
    using m position_okD(3) [OF p] that unfolding pseudo_legal_def Let_def that MoveKind.case by auto
  have "isAttackedMaskedImpl ?D b k occ msk"
  proof (rule still_attacked [OF B c(1) kc c(2)])
    show "bit msk (nat c)"
      using n bit_NOT_coord [OF c(1)] bit_coord_bb [OF co(2) c(1)] tmp [OF c(1)] by (auto simp: msk_def bit_xor_iff)
    fix e assume e: "isCoord e" "inside c k e" "bit occ (nat e)"
    then have "e \<noteq> ?d" using n by auto
    then show "bit (bbAll b) (nat e)"
      using e(3) bit_coord_bb [OF co(1) e(1)] bit_coord_bb [OF co(2) e(1)] bit_bbAll [OF B e(1)] own tmp [OF e(1)] ep
      by (auto simp: occ_def bit_xor_iff bit_or_iff split: if_splits)
  qed
  then have "\<not> isMoveLegal b m"
    unfolding isMoveLegal_side isMoveLegalImpl_def Let_def one_king_pos [OF B k] using kd nk
    by (simp add: occ_def msk_def split: if_splits)
  then show False using l by blast
qed


text \<open>Two checks at once can only be met by the king.\<close>

lemma double_check_king:
  assumes p: "position_ok b" and k: "one_king b (side b) k" and m: "pseudo_legal b m" and l: "isMoveLegal b m"
    and c: "isCoord c" "attacker (bbAll b) b (invert (side b)) c k"
    and d: "isCoord d" "attacker (bbAll b) b (invert (side b)) d k" "c \<noteq> d"
  shows "cellAt b (src m) = makeCell (side b) King"
proof (rule ccontr)
  assume nk: "cellAt b (src m) \<noteq> makeCell (side b) King"
  let ?C = "side b" and ?D = "invert (side b)" and ?d = "dst m" and ?e = "enpassantCoord b"
  note B = position_okD(1) [OF p]
  note C = legal_meets_check [OF p k m l nk c] and D = legal_meets_check [OF p k m l nk d(1,2)]
  have kc: "isCoord k" using k by (simp add: one_king_def)
  have dc: "isCoord ?d" using m by (simp add: pseudo_legal_def Let_def)
  have clear: "\<not> bit (bbAll b) (nat y)" if "attacker (bbAll b) b ?D x k" "isCoord x" "isCoord y" "inside x k y" for x y
    using that attack_clear [OF _ that(2) kc that(3,4)] unfolding attacker_def by blast
  have occ: "bit (bbAll b) (nat x)" if "attacker (bbAll b) b ?D x k" "isCoord x" for x
    using that bit_bbAll [OF B that(2)] unfolding attacker_def by auto
  have ep: False if e: "kind m = Enpassant" and x: "isCoord x" "inside x k ?d" and a: "attacker (bbAll b) b ?D ?e k" for x
  proof -
    have r: "?e \<noteq> INVALID_COORD" "?d = ?e + pawnForwardDelta ?C"
      using m unfolding pseudo_legal_def Let_def e MoveKind.case by blast+
    note E = position_okD(3) [OF p r(1)]
    then have "piece_attacks (bbAll b) ?D Pawn ?e k" using a unfolding attacker_def by auto
    then have kx: "coordX k = coordX ?e - pawnDir ?C" "colDist ?e k = 1"
      by (cases ?C; simp add: pawnDir_def)+
    have dx: "coordX ?d = coordX ?e + pawnDir ?C" "coordY ?d = coordY ?e"
      using r(2) pawn_forward_iff [of ?d ?e ?C] by blast+
    have "rowDist ?d k = 2" "colDist ?d k = 1"
      using kx dx by (cases ?C; simp add: rowDist_def colDist_def pawnDir_def)+
    moreover have "rook_aligned ?d k \<or> bishop_aligned ?d k"
      using x(2) unfolding inside_iff [OF x(1) kc dc] rook_aligned_def bishop_aligned_def by auto
    ultimately show False
      unfolding rook_aligned_def bishop_aligned_def rowDist_def colDist_def coordDiag1_def coordDiag2_def by arith
  qed
  have ray: False if "inside c k ?d" "inside d k ?d"
    using same_ray [OF c(1) d(1) kc dc that d(3)] clear [OF c(2,1) d(1)] clear [OF d(2,1) c(1)]
      occ [OF c(2,1)] occ [OF d(2,1)] by blast
  have cap: False if "kind m \<noteq> Enpassant \<or> True" "x = ?d" "inside y k ?d" "attacker (bbAll b) b ?D x k"
      "attacker (bbAll b) b ?D y k" "isCoord x" "isCoord y" for x y
    using clear [OF that(5,7) dc that(3)] occ [OF that(4,6)] that(2) by simp
  have epd: "?e \<noteq> ?d" if "kind m = Enpassant"
  proof -
    have "?d = ?e + pawnForwardDelta ?C" using m unfolding pseudo_legal_def Let_def that MoveKind.case by blast
    then show ?thesis by (cases ?C) (simp_all add: pawnForwardDelta_def)
  qed
  have epe: False if e: "kind m = Enpassant" and x: "x = ?d" "isCoord x" "attacker (bbAll b) b ?D x k" for x
  proof -
    have r: "?e \<noteq> INVALID_COORD" "?d = ?e + pawnForwardDelta ?C"
      using m unfolding pseudo_legal_def Let_def e MoveKind.case by blast+
    then have "cellAt b ?d = EMPTY_CELL" using position_okD(3) [OF p r(1)] by simp
    then show False using occ [OF x(3,2)] bit_bbAll [OF B dc] x(1) by simp
  qed
  show False
    using C D d(3) c d ray cap ep epe by blast
qed

section \<open>The move generator against the rules\<close>

lemma all_side: "genAllMoves (newMoveGen b) = genImpl (side b) True True True (newMoveGen b)"
  and captures_side: "genCaptures (newMoveGen b) = genImpl (side b) False True False (newMoveGen b)"
  and simple_side: "genSimpleMoves (newMoveGen b) = genImpl (side b) True False True (newMoveGen b)"
  and noPromote_side: "genSimpleMovesNoPromote (newMoveGen b) = genImpl (side b) True False False (newMoveGen b)"
  and promotes_side: "genSimplePromotes (newMoveGen b) = genSimplePromotesImpl (side b) (newMoveGen b)"
  by (cases "side b"; simp add: genAllMoves_def genCaptures_def genSimpleMoves_def genSimpleMovesNoPromote_def
      genSimplePromotes_def newMoveGen_def Let_def)+

definition checkers :: "board \<Rightarrow> coord \<Rightarrow> coord set" where
  "checkers b k = {c. isCoord c \<and> attacker (bbAll b) b (invert (side b)) c k}"

lemma checkers_squares:
  assumes "bb_ok b" "isCoord k"
  shows "checkers b k = squares (cellAttackers b k (invert (side b)))"
  using bit_cellAttackers [OF assms] by (auto simp: checkers_def squares_def)

text \<open>The filter a generator works with, and which moves it lets through.\<close>

definition gen_allows :: "board \<Rightarrow> coord \<Rightarrow> move \<Rightarrow> bool" where
  "gen_allows b k m \<longleftrightarrow>
     (if checkers b k = {} then True
      else if card (checkers b k) = 1 then
        kind m = Enpassant \<or> cellAt b (src m) = makeCell (side b) King \<or>
        (\<exists>c. checkers b k = {c} \<and> (dst m = c \<or> inside c k (dst m)))
      else cellAt b (src m) = makeCell (side b) King)"

lemma newMoveGen_cases:
  assumes p: "position_ok b" and k: "one_king b (side b) k"
  shows "genBoard (newMoveGen b) = b"
    "checkers b k = {} \<Longrightarrow> checkKind (newMoveGen b) = CheckNone"
    "card (checkers b k) \<ge> 2 \<Longrightarrow> checkKind (newMoveGen b) = CheckDouble"
    "checkers b k = {c} \<Longrightarrow> checkKind (newMoveGen b) = CheckSingle \<and>
       checkMask (newMoveGen b) = between c k OR coordToBitboard c"
proof -
  note B = position_okD(1) [OF p]
  have kc: "isCoord k" using k by (simp add: one_king_def)
  let ?A = "cellAttackers b k (invert (side b))"
  have sq: "checkers b k = squares ?A" by (rule checkers_squares [OF B kc])
  note kp = one_king_pos [OF B k]
  have bits: "hasZeroOrOneBit ?A \<longleftrightarrow> card (squares ?A) \<le> 1"
    unfolding hasZeroOrOneBit_iff using popcount_squares [of ?A] by (simp add: popcount_eq_card)
  show "genBoard (newMoveGen b) = b" by (simp add: newMoveGen_def Let_def)
  show "checkKind (newMoveGen b) = CheckNone" if "checkers b k = {}"
    using that squares_empty_iff [of ?A] by (simp add: newMoveGen_def Let_def kp sq)
  show "checkKind (newMoveGen b) = CheckDouble" if "card (checkers b k) \<ge> 2"
  proof -
    have "?A \<noteq> 0" using that squares_empty_iff [of ?A] unfolding sq by auto
    then show ?thesis using that bits by (simp add: newMoveGen_def Let_def kp sq)
  qed
  show "checkKind (newMoveGen b) = CheckSingle \<and> checkMask (newMoveGen b) = between c k OR coordToBitboard c"
    if c: "checkers b k = {c}"
  proof -
    have cc: "isCoord c" using c by (auto simp: checkers_def)
    have "?A \<noteq> 0" using c squares_empty_iff [of ?A] unfolding sq by auto
    moreover have "int (getLowest ?A) = c" using getLowest_singleton [OF cc] c sq by simp
    moreover have "?A = coordToBitboard c"
      using c sq squares_inject [of ?A "coordToBitboard c"] bit_coord_bb [OF cc] cc by (auto simp: squares_def)
    ultimately show ?thesis using c bits by (simp add: newMoveGen_def Let_def kp sq)
  qed
qed


lemma no_castling_in_check:
  assumes p: "position_ok b" and k: "one_king b (side b) k" and m: "pseudo_legal b m" and c: "checkers b k \<noteq> {}"
  shows "kind m \<noteq> CastlingKingside" "kind m \<noteq> CastlingQueenside"
proof -
  have "isCoord k" using k by (simp add: one_king_def)
  then have a: "isCellAttacked b k (invert (side b))"
    using c isCellAttacked_iff [OF position_okD(1) [OF p]] by (auto simp: checkers_def)
  have co: "isCoord (src m)" using m by (simp add: pseudo_legal_def Let_def)
  show "kind m \<noteq> CastlingKingside"
  proof
    assume e: "kind m = CastlingKingside"
    then have "src m = k" using pseudo_src(2) [OF p m] k co unfolding one_king_def by blast
    then show False using m a unfolding pseudo_legal_def Let_def e MoveKind.case by blast
  qed
  show "kind m \<noteq> CastlingQueenside"
  proof
    assume e: "kind m = CastlingQueenside"
    then have "src m = k" using pseudo_src(2) [OF p m] k co unfolding one_king_def by blast
    then show False using m a unfolding pseudo_legal_def Let_def e MoveKind.case by blast
  qed
qed

lemma finite_checkers: "finite (checkers b k)"
proof -
  have "checkers b k \<subseteq> {0..63}" by (auto simp: checkers_def isCoord_def)
  then show ?thesis by (rule finite_subset) simp
qed

lemma king_moves_only:
  assumes p: "position_ok b" and g: "S \<or> Cp" and k: "one_king b (side b) k" and c: "checkers b k \<noteq> {}"
  shows "m \<in> set (genKing (side b) S Cp b) \<longleftrightarrow>
    tag m = 0 \<and> pseudo_legal b m \<and> wanted S Cp SP b m \<and> cellAt b (src m) = makeCell (side b) King"
proof (cases "kind m = Simple")
  case True
  let ?K = "cellAt b (src m) = makeCell (side b) King" and ?A = "piece_attacks (bbAll b) (side b) King (src m) (dst m)"
  let ?F = "cellAt b (dst m) = EMPTY_CELL \<or> cellPieceColor (cellAt b (dst m)) \<noteq> side b"
  have w: "wanted S Cp SP b m \<longleftrightarrow> (if cellAt b (dst m) \<noteq> EMPTY_CELL then Cp else S)"
    using True by (simp add: wanted_def isMoveCapture_def)
  have ps: "pseudo_legal b m \<and> ?K \<longleftrightarrow> isCoord (src m) \<and> isCoord (dst m) \<and> ?K \<and> ?F \<and> ?A"
    using True by (auto simp: pseudo_legal_def Let_def simp del: makeCell_values piece_attacks.simps)
  have "tag m = 0 \<and> pseudo_legal b m \<and> wanted S Cp SP b m \<and> ?K \<longleftrightarrow>
      tag m = 0 \<and> (pseudo_legal b m \<and> ?K) \<and> wanted S Cp SP b m"
    by (simp only: conj_ac)
  then show ?thesis
    unfolding genKing_def in_genKnightOrKing [OF position_okD(1) [OF p] g disjI2 [OF refl]] free_for_iff ps w
    by (simp only: True flt_ok_Simple simp_thms conj_ac)
next
  case False
  have "\<not> (pseudo_legal b m \<and> cellAt b (src m) = makeCell (side b) King)"
  proof
    assume h: "pseudo_legal b m \<and> cellAt b (src m) = makeCell (side b) King"
    with no_castling_in_check [OF p k _ c] have "kind m \<noteq> CastlingKingside" "kind m \<noteq> CastlingQueenside" by blast+
    then show False using h False
      by (cases "kind m") (auto simp: pseudo_legal_def Let_def simp del: makeCell_values)
  qed
  then show ?thesis
    unfolding genKing_def in_genKnightOrKing [OF position_okD(1) [OF p] g disjI2 [OF refl]] using False by blast
qed

lemma in_genImpl:
  assumes p: "position_ok b" and g: "S \<or> Cp" and k: "one_king b (side b) k"
  shows "m \<in> set (genImpl (side b) S Cp SP (newMoveGen b)) \<longleftrightarrow>
    tag m = 0 \<and> pseudo_legal b m \<and> wanted S Cp SP b m \<and> gen_allows b k m"
proof -
  note N = newMoveGen_cases [OF p k]
  have kc: "isCoord k" using k by (simp add: one_king_def)
  consider "checkers b k = {}" | c where "checkers b k = {c}" | "card (checkers b k) \<ge> 2"
  proof -
    have "card (checkers b k) = 0 \<or> card (checkers b k) = 1 \<or> card (checkers b k) \<ge> 2" by arith
    then show ?thesis using that finite_checkers [of b k] card_1_singletonE by (metis card_eq_0_iff)
  qed
  then show ?thesis
  proof cases
    case 1
    have "\<not> isCellAttacked b x (invert (side b))" if "isCoord x" "cellAt b x = makeCell (side b) King" for x
      using that k 1 isCellAttacked_iff [OF position_okD(1) [OF p] kc] unfolding one_king_def checkers_def by blast
    then have I: "m \<in> set (genImplInner (side b) S Cp SP b SimpleGenFilter) \<longleftrightarrow>
        tag m = 0 \<and> pseudo_legal b m \<and> wanted S Cp SP b m \<and> passes SimpleGenFilter b m"
      by (intro in_genImplInner [OF p g])
    have "passes SimpleGenFilter b m" "gen_allows b k m" using 1 by (simp_all add: passes_def gen_allows_def)
    then show ?thesis using I N(1) N(2) [OF 1] by (simp add: genImpl_def)
  next
    case 2
    have cc: "isCoord c" using 2 by (auto simp: checkers_def)
    let ?f = "CheckGenFilter (between c k OR coordToBitboard c)"
    have I: "m \<in> set (genImplInner (side b) S Cp SP b ?f) \<longleftrightarrow> tag m = 0 \<and> pseudo_legal b m \<and> wanted S Cp SP b m \<and> passes ?f b m"
      by (rule in_genImplInner [OF p g]) simp
    have "passes ?f b m \<longleftrightarrow> gen_allows b k m" if m: "pseudo_legal b m"
    proof -
      have d: "isCoord (dst m)" using m by (simp add: pseudo_legal_def Let_def)
      have "flt_ok ?f (dst m) \<longleftrightarrow> dst m = c \<or> inside c k (dst m)"
        using bit_between [OF cc kc d] bit_coord_bb [OF cc d] by (auto simp: flt_ok_def bit_or_iff)
      then show ?thesis
        using no_castling_in_check [OF p k m] 2 by (auto simp: passes_def gen_allows_def)
    qed
    then show ?thesis using I N(1) N(4) [OF 2] by (auto simp: genImpl_def)
  next
    case 3
    then have "checkers b k \<noteq> {}" "card (checkers b k) \<noteq> 1" by auto
    then show ?thesis
      using king_moves_only [OF p g k, of m SP] N(1) N(3) [OF 3] by (simp add: genImpl_def gen_allows_def)
  qed
qed

lemma legal_allowed:
  assumes p: "position_ok b" and k: "one_king b (side b) k" and m: "pseudo_legal b m" and l: "isMoveLegal b m"
  shows "gen_allows b k m"
proof (cases "cellAt b (src m) = makeCell (side b) King")
  case False
  have one: "x = y" if "x \<in> checkers b k" "y \<in> checkers b k" for x y
    using double_check_king [OF p k m l] that False unfolding checkers_def by blast
  then have "checkers b k = {} \<or> (\<exists>c. checkers b k = {c})" by blast
  moreover have "c = dst m \<or> inside c k (dst m) \<or> kind m = Enpassant" if "c \<in> checkers b k" for c
    using legal_meets_check [OF p k m l False] that unfolding checkers_def by blast
  ultimately show ?thesis by (auto simp: gen_allows_def)
next
  case True
  have "checkers b k = {} \<or> card (checkers b k) = 1 \<or> card (checkers b k) \<noteq> 1" by blast
  then show ?thesis using True by (simp add: gen_allows_def)
qed

lemma genAllMoves_bounds:
  assumes p: "position_ok b" and k: "one_king b (side b) k"
  shows "m \<in> set (genAllMoves (newMoveGen b)) \<Longrightarrow> tag m = 0 \<and> pseudo_legal b m"
    and "tag m = 0 \<Longrightarrow> pseudo_legal b m \<Longrightarrow> isMoveLegal b m \<Longrightarrow> m \<in> set (genAllMoves (newMoveGen b))"
    and "\<not> isCheck b \<Longrightarrow> m \<in> set (genAllMoves (newMoveGen b)) \<longleftrightarrow> tag m = 0 \<and> pseudo_legal b m"
proof -
  have kc: "isCoord k" using k by (simp add: one_king_def)
  have g: "True \<or> True" by simp
  note I = in_genImpl [OF p g k, of m True, folded all_side]
  have w: "wanted True True True b m" by (simp add: wanted_def)
  show "m \<in> set (genAllMoves (newMoveGen b)) \<Longrightarrow> tag m = 0 \<and> pseudo_legal b m" using I by blast
  show "tag m = 0 \<Longrightarrow> pseudo_legal b m \<Longrightarrow> isMoveLegal b m \<Longrightarrow> m \<in> set (genAllMoves (newMoveGen b))"
    using I w legal_allowed [OF p k] by blast
  have "checkers b k = {}" if "\<not> isCheck b"
    using that one_king_pos [OF position_okD(1) [OF p] k] isCellAttacked_iff [OF position_okD(1) [OF p] kc]
    by (auto simp: isCheck_def Let_def checkers_def)
  then show "\<not> isCheck b \<Longrightarrow> m \<in> set (genAllMoves (newMoveGen b)) \<longleftrightarrow> tag m = 0 \<and> pseudo_legal b m"
    using I w by (simp add: gen_allows_def)
qed

lemma genSimplePromotes_eq:
  assumes p: "position_ok b" and k: "one_king b (side b) k"
  shows "m \<in> set (genSimplePromotes (newMoveGen b)) \<longleftrightarrow>
    m \<in> set (genSimpleMoves (newMoveGen b)) \<and> isMoveKindPromote (kind m)"
proof -
  note N = newMoveGen_cases [OF p k]
  note B = position_okD(1) [OF p]
  have parts: "m \<in> set (genPawnSimple C PromoteOnly b flt) \<longleftrightarrow>
      m \<in> set (genPawnSimple C PromoteAll b flt) \<and> isMoveKindPromote (kind m)" for C flt
    unfolding in_genPawnSimple [OF B] by auto
  have inner: "m \<in> set (genImplInner C True False True b flt) \<and> isMoveKindPromote (kind m) \<longleftrightarrow>
      m \<in> set (genPawnSimple C PromoteOnly b flt)" for C flt
    unfolding parts genImplInner_parts
    by (auto simp: in_genKnightOrKing [OF B] in_genBishopOrRook [OF B] in_genCastling [OF p])
  have king: "m \<in> set (genKing C True False b) \<Longrightarrow> \<not> isMoveKindPromote (kind m)" for C
    by (auto simp: genKing_def in_genKnightOrKing [OF B])
  show ?thesis
    unfolding promotes_side simple_side genSimplePromotesImpl_def genImpl_def N(1)
    using inner king by (cases "checkKind (newMoveGen b)") auto
qed

text \<open>The four generators split the moves by capture and promotion.\<close>

lemma generators_split:
  assumes p: "position_ok b" and k: "one_king b (side b) k"
  shows "set (genCaptures (newMoveGen b)) = {m \<in> set (genAllMoves (newMoveGen b)). isMoveCapture b m} \<and>
    set (genSimpleMoves (newMoveGen b)) = {m \<in> set (genAllMoves (newMoveGen b)). \<not> isMoveCapture b m} \<and>
    set (genSimplePromotes (newMoveGen b)) = {m \<in> set (genSimpleMoves (newMoveGen b)). isMoveKindPromote (kind m)} \<and>
    set (genSimpleMovesNoPromote (newMoveGen b)) = {m \<in> set (genSimpleMoves (newMoveGen b)). \<not> isMoveKindPromote (kind m)}"
proof -
  have I: "m \<in> set (genImpl (side b) S Cp SP (newMoveGen b)) \<longleftrightarrow>
      tag m = 0 \<and> pseudo_legal b m \<and> wanted S Cp SP b m \<and> gen_allows b k m" if "S \<or> Cp" for m S Cp SP
    by (rule in_genImpl [OF p that k])
  have g: "False \<or> True" "True \<or> False" "True \<or> True" by simp_all
  have a: "m \<in> set (genAllMoves (newMoveGen b)) \<longleftrightarrow> tag m = 0 \<and> pseudo_legal b m \<and> gen_allows b k m" for m
    unfolding all_side I [OF g(3)] by (simp add: wanted_def)
  have c: "m \<in> set (genCaptures (newMoveGen b)) \<longleftrightarrow>
      tag m = 0 \<and> pseudo_legal b m \<and> isMoveCapture b m \<and> gen_allows b k m" for m
    unfolding captures_side I [OF g(1)] by (simp add: wanted_def)
  have s: "m \<in> set (genSimpleMoves (newMoveGen b)) \<longleftrightarrow>
      tag m = 0 \<and> pseudo_legal b m \<and> \<not> isMoveCapture b m \<and> gen_allows b k m" for m
    unfolding simple_side I [OF g(2)] by (simp add: wanted_def)
  have n: "m \<in> set (genSimpleMovesNoPromote (newMoveGen b)) \<longleftrightarrow> tag m = 0 \<and> pseudo_legal b m \<and>
      \<not> isMoveCapture b m \<and> \<not> isMoveKindPromote (kind m) \<and> gen_allows b k m" for m
    unfolding noPromote_side I [OF g(2)] by (simp add: wanted_def)
  note pr = genSimplePromotes_eq [OF p k]
  show ?thesis
    by (intro conjI set_eqI; simp only: a c s n pr mem_Collect_eq; blast)
qed

end
