(* ===== verification/Movegen_Properties.thy ===== *)
theory Movegen_Properties
  imports Movegen_Complete Initial_Position
begin

text \<open>
  The properties of the move generator, the validator and the legality test.
\<close>

lemma sample_position: "position_ok sample_board" "one_king sample_board White 60"
proof -
  show "position_ok sample_board" by (rule consistent_position [OF sample_ok(2)])
  have "list_all (\<lambda>c. initial_cells ! nat c = makeCell White King \<longleftrightarrow> c = 60) [0..63]" by code_simp
  then have "cellAt sample_board c = makeCell White King \<longleftrightarrow> c = 60" if "isCoord c" for c
    using list_all_coordD [OF _ that] by (simp add: cellAt_def sample_views del: makeCell_values)
  then show "one_king sample_board White 60" by (simp add: one_king_def isCoord_def)
qed

lemma sample_king: "one_king sample_board (side sample_board) 60"
  using sample_position(2) by (simp only: sample_views)

lemma sample_no_check: "\<not> isCheck sample_board"
proof -
  have B: "bb_ok sample_board" using position_okD(1) [OF sample_position(1)] .
  have i: "isCoord 60" by (simp add: isCoord_def)
  have at: "cellAt sample_board s = initial_cells ! nat s" for s by (simp add: cellAt_def sample_views)
  have "list_all (\<lambda>P. list_all (\<lambda>s. initial_cells ! nat s = makeCell Black P \<longrightarrow> \<not> (case P of
      Pawn \<Rightarrow> coordX 60 = coordX s + 1 | King \<Rightarrow> rowDist s 60 \<le> 1 | Knight \<Rightarrow> rowDist s 60 \<le> 2
    | Bishop \<Rightarrow> bishop_aligned s 60 | Rook \<Rightarrow> rook_aligned s 60
    | Queen \<Rightarrow> bishop_aligned s 60 \<or> rook_aligned s 60)) [0..63]) [Pawn, King, Knight, Bishop, Rook, Queen]"
    by code_simp
  then have L: "list_all (\<lambda>s. initial_cells ! nat s = makeCell Black P \<longrightarrow> \<not> (case P of
      Pawn \<Rightarrow> coordX 60 = coordX s + 1 | King \<Rightarrow> rowDist s 60 \<le> 1 | Knight \<Rightarrow> rowDist s 60 \<le> 2
    | Bishop \<Rightarrow> bishop_aligned s 60 | Rook \<Rightarrow> rook_aligned s 60
    | Queen \<Rightarrow> bishop_aligned s 60 \<or> rook_aligned s 60)) [0..63]" for P
    by (cases P) (simp_all only: list.pred_inject(2))
  have "\<not> attacker (bbAll sample_board) sample_board Black s 60" if "isCoord s" for s
  proof
    assume "attacker (bbAll sample_board) sample_board Black s 60"
    then obtain P where "initial_cells ! nat s = makeCell Black P" "piece_attacks (bbAll sample_board) Black P s 60"
      unfolding attacker_def at by blast
    then show False
      using list_all_coordD [OF L that, of P] by (cases P) (auto simp: bishop_sees_def rook_sees_def simp del: makeCell_values)
  qed
  then have "\<not> isCellAttacked sample_board 60 Black" using isCellAttacked_iff [OF B i] by blast
  then show ?thesis using one_king_pos [OF B sample_king] by (simp add: isCheck_def Let_def sample_views)
qed

lemma sample_pseudo: "pseudo_legal sample_board (mkMove PawnDoubleMove 52 36 0)"
  by (simp add: pseudo_legal_def mkMove_def cellAt_def sample_views initial_cells_def isCoord_def
      doubleMoveSrcRow_def pawnForwardDelta_def coordX_def EMPTY_CELL_def nth_append nth_Cons')

text \<open>C29: \<^verbatim>\<open>isWellFormed\<close> and \<^verbatim>\<open>isMoveValid\<close> together accept exactly the pseudo-legal moves of chess.\<close>

theorem isMoveValid_accepts_the_rules:
  assumes "consistent z b"
  shows "isWellFormed m (side b) \<and> isMoveValid b m \<longleftrightarrow> pseudo_legal b m"
  by (rule valid_iff_pseudo_legal [OF consistent_position [OF assms]])

theorem isMoveValid_witness: "isMoveValid sample_board (mkMove PawnDoubleMove 52 36 0)"
  using isMoveValid_accepts_the_rules [OF sample_ok(2)] sample_pseudo by blast

text \<open>C1: \<^verbatim>\<open>isMoveLegal\<close>, which works on masks and does not touch the board, agrees with making the move
  and asking \<^verbatim>\<open>wasMoveLegal\<close>, for every pseudo-legal move including en passant and castling.\<close>

theorem isMoveLegal_is_wasMoveLegal_after:
  assumes "zobrist_ok z" "consistent z b" "one_king b (side b) k" "isWellFormed m (side b)" "isMoveValid b m"
  shows "isMoveLegal b m \<longleftrightarrow> wasMoveLegal (fst (moveMake z b m))"
  using legal_iff_wasMoveLegal [OF assms(1-3)] valid_iff_pseudo_legal [OF consistent_position [OF assms(2)]] assms(4,5)
  by blast

theorem isMoveLegal_witness:
  "isMoveLegal sample_board (mkMove PawnDoubleMove 52 36 0) \<longleftrightarrow>
    wasMoveLegal (fst (moveMake sample_zobrist sample_board (mkMove PawnDoubleMove 52 36 0)))"
proof -
  let ?m = "mkMove PawnDoubleMove 52 36 0"
  have "isWellFormed ?m White" "isMoveValid sample_board ?m"
    using valid_iff_pseudo_legal [OF sample_position(1), of ?m] sample_pseudo sample_views(2) by simp_all
  then show ?thesis
    using isMoveLegal_is_wasMoveLegal_after [OF sample_ok sample_king, of ?m] sample_views(2) by metis
qed

text \<open>C2: the generator is sound and complete: every move it lists is pseudo-legal, and every legal move
  is listed, in check and double check too.\<close>

theorem genAllMoves_sound_and_complete:
  assumes "consistent z b" "one_king b (side b) k"
  shows "(\<forall>m. m \<in> set (genAllMoves (newMoveGen b)) \<longrightarrow> tag m = 0 \<and> isWellFormed m (side b) \<and> isMoveValid b m) \<and>
    (\<forall>m. tag m = 0 \<and> isWellFormed m (side b) \<and> isMoveValid b m \<and> isMoveLegal b m \<longrightarrow>
      m \<in> set (genAllMoves (newMoveGen b)))"
  using genAllMoves_bounds(1,2) [OF consistent_position [OF assms(1)] assms(2)]
    valid_iff_pseudo_legal [OF consistent_position [OF assms(1)]] by blast

theorem genAllMoves_witness:
  "set (genAllMoves (newMoveGen sample_board)) \<subseteq> {m. isMoveValid sample_board m}"
  using genAllMoves_sound_and_complete [OF sample_ok(2) sample_king] by blast

text \<open>Out of check the generator lists exactly the moves the validator accepts.\<close>

theorem genAllMoves_is_isMoveValid:
  assumes "consistent z b" "one_king b (side b) k" "\<not> isCheck b"
  shows "set (genAllMoves (newMoveGen b)) = {m. tag m = 0 \<and> isWellFormed m (side b) \<and> isMoveValid b m}"
  using genAllMoves_bounds(3) [OF consistent_position [OF assms(1)] assms(2,3)]
    valid_iff_pseudo_legal [OF consistent_position [OF assms(1)]] by blast

theorem genAllMoves_is_isMoveValid_witness:
  "mkMove PawnDoubleMove 52 36 0 \<in> set (genAllMoves (newMoveGen sample_board))"
proof -
  have "isWellFormed (mkMove PawnDoubleMove 52 36 0) (side sample_board)" "isMoveValid sample_board (mkMove PawnDoubleMove 52 36 0)"
    using valid_iff_pseudo_legal [OF sample_position(1)] sample_pseudo by blast+
  then show ?thesis
    unfolding genAllMoves_is_isMoveValid [OF sample_ok(2) sample_king sample_no_check] by (simp add: mkMove_def)
qed

text \<open>Captures and simple moves split the generated moves by \<^verbatim>\<open>isMoveCapture\<close>, and the simple moves
  split into promotions and the rest.\<close>

theorem generators_partition:
  assumes "consistent z b" "one_king b (side b) k"
  shows "set (genCaptures (newMoveGen b)) = {m \<in> set (genAllMoves (newMoveGen b)). isMoveCapture b m} \<and>
    set (genSimpleMoves (newMoveGen b)) = {m \<in> set (genAllMoves (newMoveGen b)). \<not> isMoveCapture b m} \<and>
    set (genSimplePromotes (newMoveGen b)) = {m \<in> set (genSimpleMoves (newMoveGen b)). isMoveKindPromote (kind m)} \<and>
    set (genSimpleMovesNoPromote (newMoveGen b)) = {m \<in> set (genSimpleMoves (newMoveGen b)). \<not> isMoveKindPromote (kind m)}"
  by (rule generators_split [OF consistent_position [OF assms(1)] assms(2)])

theorem generators_partition_witness:
  "set (genCaptures (newMoveGen sample_board)) = {m \<in> set (genAllMoves (newMoveGen sample_board)). isMoveCapture sample_board m}"
  using generators_partition [OF sample_ok(2) sample_king] by blast

text \<open>C35: a square is attacked for \<^verbatim>\<open>isCellAttacked\<close> exactly when some piece of that colour attacks it
  through the pieces on the board.\<close>

theorem isCellAttacked_iff_piece_attacks:
  assumes "consistent z b" "isCoord c"
  shows "isCellAttacked b c C \<longleftrightarrow>
    (\<exists>s P. isCoord s \<and> cellAt b s = makeCell C P \<and> piece_attacks (bbAll b) C P s c)"
  using isCellAttacked_iff [of b c C] assms by (auto simp: consistent_def attacker_def)

theorem isCellAttacked_witness: "isCellAttacked sample_board 44 White"
proof -
  have "cellAt sample_board 51 = makeCell White Pawn" by (simp add: cellAt_def sample_views initial_cells_def nth_append)
  moreover have "piece_attacks (bbAll sample_board) White Pawn 51 44" by (simp add: coordX_def coordY_eq colDist_def)
  moreover have "isCoord 51" "isCoord 44" by (simp_all add: isCoord_def)
  ultimately show ?thesis
    using isCellAttacked_iff_piece_attacks [OF sample_ok(2), of 44 White] by blast
qed

end
