(* ===== verification/Str_Util.thy ===== *)
theory Str_Util
  imports Prelude
begin

text \<open>
  Strings and decimal numbers (\<^verbatim>\<open>src/src/util/strutil.h\<close>, \<^verbatim>\<open>src/src/util/strutil.cpp\<close>,
  \<^verbatim>\<open>src/src/util/math.h\<close>). A string and a string view are lists of characters. A pointer into a
  zero-terminated string is the list of the characters that are left, \<open>[]\<close> when it points to the
  terminator. The type \<^verbatim>\<open>char\<close> is the signed byte of the supported platforms, so characters are
  compared through \<open>charVal\<close>.
\<close>

section \<open>Characters\<close>

definition charVal :: "char \<Rightarrow> int" where
  "charVal c = (let n = of_char c in if n < 128 then n else n - 256)"

definition charOf :: "int \<Rightarrow> char" where
  "charOf v = char_of v"

definition asciiToLower :: "char \<Rightarrow> char" where
  "asciiToLower c = (if charVal (CHR ''A'') \<le> charVal c \<and> charVal c \<le> charVal (CHR ''Z'')
     then charOf (charVal c - charVal (CHR ''A'') + charVal (CHR ''a'')) else c)"

definition asciiToUpper :: "char \<Rightarrow> char" where
  "asciiToUpper c = (if charVal (CHR ''a'') \<le> charVal c \<and> charVal c \<le> charVal (CHR ''z'')
     then charOf (charVal c - charVal (CHR ''a'') + charVal (CHR ''A'')) else c)"

definition isSpace :: "char \<Rightarrow> bool" where
  "isSpace ch \<longleftrightarrow> ch = CHR 0x0A \<or> ch = CHR 0x09 \<or> ch = CHR 0x0D \<or> ch = CHR '' ''"

definition asciiToLower_string :: "string \<Rightarrow> string" where
  "asciiToLower_string s = map asciiToLower s"

definition asciiToUpper_string :: "string \<Rightarrow> string" where
  "asciiToUpper_string s = map asciiToUpper s"

definition replace :: "string \<Rightarrow> char \<Rightarrow> char \<Rightarrow> string" where
  "replace s source dest = map (\<lambda>ch. if ch = source then dest else ch) s"

definition sanitizeEol :: "string \<Rightarrow> string" where
  "sanitizeEol str = map (\<lambda>c. if charVal c < charVal (CHR '' '') \<and> c \<noteq> CHR 0x09 then CHR '' '' else c) str"

section \<open>Scanning\<close>

fun scanTokenEnd :: "string \<Rightarrow> string" where
  "scanTokenEnd [] = []"
| "scanTokenEnd (c # str) = (if isSpace c then c # str else scanTokenEnd str)"

fun scanTokenStart :: "string \<Rightarrow> string" where
  "scanTokenStart [] = []"
| "scanTokenStart (c # str) = (if isSpace c then scanTokenStart str else c # str)"

text \<open>The terminator is not removed: the predicates passed are false on it.\<close>

fun trimLeft :: "(char \<Rightarrow> bool) \<Rightarrow> string \<Rightarrow> string" where
  "trimLeft pred [] = []"
| "trimLeft pred (c # str) = (if pred c then trimLeft pred str else c # str)"

definition trimSpaceLeft :: "string \<Rightarrow> string" where
  "trimSpaceLeft str = trimLeft isSpace str"

definition trimEolLeft :: "string \<Rightarrow> string" where
  "trimEolLeft str = trimLeft (\<lambda>c. c = CHR 0x0A \<or> c = CHR 0x0D) str"

definition startsWith :: "string \<Rightarrow> string \<Rightarrow> bool" where
  "startsWith s t \<longleftrightarrow> length s \<ge> length t \<and> take (length t) s = t"

text \<open>The part of a string between two pointers into it.\<close>

definition token :: "string \<Rightarrow> string \<Rightarrow> string" where
  "token start stop = take (length start - length stop) start"

lemma length_scanTokenEnd: "length (scanTokenEnd s) \<le> length s"
  by (induction s rule: scanTokenEnd.induct) auto

lemma length_scanTokenStart: "length (scanTokenStart s) \<le> length s"
  by (induction s rule: scanTokenStart.induct) auto

lemma scanTokenStart_hd: "scanTokenStart s = c # t \<Longrightarrow> \<not> isSpace c"
  by (induction s rule: scanTokenStart.induct) (auto split: if_splits)

lemma scanTokenStart_idem [simp]: "scanTokenStart (scanTokenStart s) = scanTokenStart s"
  by (induction s rule: scanTokenStart.induct) auto

function split_loop :: "string \<Rightarrow> string list" where
  "split_loop str =
     (case scanTokenStart str of
        [] \<Rightarrow> []
      | c # rest \<Rightarrow> (let next = scanTokenEnd (c # rest) in token (c # rest) next # split_loop next))"
  by auto

text \<open>One turn of the loop consumes at least the first character of the token.\<close>

termination
proof (relation "measure length")
  fix str c rest "next"
  assume s: "scanTokenStart str = c # rest" and n: "next = scanTokenEnd (c # rest)"
  have "length next \<le> length rest"
    using scanTokenStart_hd [OF s] length_scanTokenEnd [of rest] by (simp add: n)
  then show "(next, str) \<in> measure length" using length_scanTokenStart [of str] by (simp add: s)
qed simp

declare split_loop.simps [simp del]

definition split :: "string \<Rightarrow> string list" where
  "split str = split_loop str"

definition trim_left_pos :: "string \<Rightarrow> nat" where
  "trim_left_pos str = length (takeWhile isSpace str)"

fun trim_right_pos :: "string \<Rightarrow> nat \<Rightarrow> nat" where
  "trim_right_pos str 0 = 0"
| "trim_right_pos str (Suc r) = (if isSpace (str ! r) then trim_right_pos str r else Suc r)"

definition trim :: "string \<Rightarrow> string" where
  "trim str =
     (let left = trim_left_pos str
      in if left = length str then []
         else let right = trim_right_pos str (length str) in take (right - left) (drop left str))"

definition trimmed :: "string \<Rightarrow> string" where
  "trimmed str = trim str"

section \<open>Decimal numbers\<close>

text \<open>
  \<^verbatim>\<open>std::to_chars\<close> and \<^verbatim>\<open>std::from_chars\<close> of the standard library in base ten: no sign, no
  leading space, the longest prefix of digits is read, and a value that does not fit leaves an error.
\<close>

definition digitChar :: "nat \<Rightarrow> char" where
  "digitChar d = charOf (charVal (CHR ''0'') + int d)"

definition isDigit :: "char \<Rightarrow> bool" where
  "isDigit c \<longleftrightarrow> charVal (CHR ''0'') \<le> charVal c \<and> charVal c \<le> charVal (CHR ''9'')"

definition digitVal :: "char \<Rightarrow> nat" where
  "digitVal c = nat (charVal c - charVal (CHR ''0''))"

fun to_chars :: "nat \<Rightarrow> string" where
  "to_chars n = (if n < 10 then [digitChar n] else to_chars (n div 10) @ [digitChar (n mod 10)])"

declare to_chars.simps [simp del]

definition digits_value :: "string \<Rightarrow> nat" where
  "digits_value ds = foldl (\<lambda>v c. 10 * v + digitVal c) 0 ds"

definition from_chars :: "nat \<Rightarrow> string \<Rightarrow> nat option \<times> string" where
  "from_chars bound str =
     (let ds = takeWhile isDigit str; rest = dropWhile isDigit str
      in if ds = [] then (None, str)
         else if digits_value ds < bound then (Some (digits_value ds), rest) else (None, rest))"

text \<open>\<open>valueFromStr bound str\<close> reads an unsigned integer below \<open>bound\<close> from the whole of \<open>str\<close>.\<close>

definition valueFromStr :: "nat \<Rightarrow> string \<Rightarrow> nat option" where
  "valueFromStr bound str = (case from_chars bound str of
     (Some v, []) \<Rightarrow> Some v
   | _ \<Rightarrow> None)"

text \<open>\<^verbatim>\<open>log10\<close> with \<^verbatim>\<open>size_t\<close> as a 64-bit word; \<open>None\<close> would be a loop that never ends.\<close>

partial_function (option) log10_loop :: "u64 \<Rightarrow> u64 \<Rightarrow> u64 \<Rightarrow> u64 option" where
  "log10_loop val res pow =
     (if pow \<le> val then log10_loop val (res + 1) (pow * 10) else Some (res - 1))"

definition log10 :: "u64 \<Rightarrow> u64 option" where
  "log10 val = (if val \<ge> 10000000000000000000 then Some 19 else log10_loop val 0 1)"

definition uintStrLen :: "u64 \<Rightarrow> u64 option" where
  "uintStrLen value = (if value = 0 then Some 1 else map_option (\<lambda>l. 1 + l) (log10 value))"

text \<open>An \<^verbatim>\<open>int64_t\<close> is a 64-bit word read with \<^term>\<open>sint\<close>; \<^verbatim>\<open>std::abs\<close> wraps around on the least value.\<close>

definition intStrLen :: "u64 \<Rightarrow> u64 option" where
  "intStrLen value = map_option (\<lambda>l. l + (if sint value < 0 then 1 else 0))
     (uintStrLen (if sint value < 0 then - value else value))"

definition absDiff :: "'a::{linorder,minus} \<Rightarrow> 'a \<Rightarrow> 'a" where
  "absDiff x y = (if x > y then x - y else y - x)"

section \<open>Word wrapping\<close>

definition substr :: "string \<Rightarrow> nat \<Rightarrow> nat \<Rightarrow> string" where
  "substr s pos len = take len (drop pos s)"

fun right_space_pos :: "string \<Rightarrow> nat \<Rightarrow> nat" where
  "right_space_pos line 0 = 0"
| "right_space_pos line (Suc r) = (if line ! r = CHR '' '' then right_space_pos line r else Suc r)"

function skip_spaces :: "string \<Rightarrow> nat \<Rightarrow> nat" where
  "skip_spaces line pos =
     (if pos < length line \<and> line ! pos = CHR '' '' then skip_spaces line (pos + 1) else pos)"
  by auto
termination by (relation "measure (\<lambda>(line, pos). length line - pos)") auto

function scan_word :: "string \<Rightarrow> nat \<Rightarrow> nat \<Rightarrow> nat \<Rightarrow> nat" where
  "scan_word line lineStartPos width pos =
     (if pos < length line \<and> pos - lineStartPos \<le> width \<and> line ! pos \<noteq> CHR '' ''
      then scan_word line lineStartPos width (pos + 1) else pos)"
  by auto
termination by (relation "measure (\<lambda>(line, _, _, pos). length line - pos)") auto

declare skip_spaces.simps [simp del] scan_word.simps [simp del]

partial_function (option) wrap_loop ::
    "string \<Rightarrow> nat \<Rightarrow> nat \<Rightarrow> nat \<Rightarrow> bool \<Rightarrow> string list \<Rightarrow> string list option" where
  "wrap_loop line width lineStartPos lineEndPos isFirstWord result =
     (if lineStartPos < length line then
        let wordStartPos = skip_spaces line lineEndPos
        in if wordStartPos = length line \<or> wordStartPos - lineStartPos \<ge> width then
             wrap_loop line width wordStartPos wordStartPos True
               (result @ [substr line lineStartPos (lineEndPos - lineStartPos)])
           else
             let wordEndPos = scan_word line lineStartPos width wordStartPos
             in if wordEndPos - lineStartPos > width then
                  if isFirstWord then
                    wrap_loop line width (lineStartPos + width) (lineStartPos + width) True
                      (result @ [substr line lineStartPos width])
                  else
                    wrap_loop line width wordStartPos wordStartPos True
                      (result @ [substr line lineStartPos (lineEndPos - lineStartPos)])
                else wrap_loop line width lineStartPos wordEndPos False result
      else Some result)"

definition processLine :: "nat \<Rightarrow> string list \<Rightarrow> string \<Rightarrow> string list option" where
  "processLine width result line0 =
     (let line = substr line0 0 (right_space_pos line0 (length line0))
      in if line = [] then Some (result @ [line])
         else let leftSpacePos = skip_spaces line 0;
                  lineStartPos = (if leftSpacePos \<ge> width then leftSpacePos else 0)
              in wrap_loop line width lineStartPos lineStartPos True result)"

text \<open>The lines of the input: the text up to the next line feed, which is dropped.\<close>

function source_lines :: "string \<Rightarrow> string list" where
  "source_lines s =
     (if s = [] then []
      else takeWhile (\<lambda>c. c \<noteq> CHR 0x0A) s # source_lines (drop 1 (dropWhile (\<lambda>c. c \<noteq> CHR 0x0A) s)))"
  by auto
termination
proof (relation "measure length")
  fix s :: string assume "s \<noteq> []"
  then show "(drop 1 (dropWhile (\<lambda>c. c \<noteq> CHR 0x0A) s), s) \<in> measure length"
    using length_dropWhile_le [of "\<lambda>c. c \<noteq> CHR 0x0A" s] by (cases s) (auto simp: le_imp_less_Suc diff_less_Suc)
qed simp

declare source_lines.simps [simp del]

definition wordWrap :: "string \<Rightarrow> nat \<Rightarrow> string list option" where
  "wordWrap s width =
     (if s = [] then Some [s]
      else foldl (\<lambda>r line. Option.bind r (\<lambda>result. processLine width result line)) (Some []) (source_lines s))"

end
