(* ===== verification/Str_Lemmas.thy ===== *)
theory Str_Lemmas
  imports Str_Util
begin

text \<open>
  What the string routines compute: decimal numbers are written and read back, tokens are the
  maximal runs without a space, wrapped lines fit the width and lose nothing but spaces.
\<close>

section \<open>Characters\<close>

lemma charVal_charOf [simp]: "0 \<le> v \<Longrightarrow> v < 128 \<Longrightarrow> charVal (charOf v) = v"
  by (simp add: charVal_def charOf_def Let_def)

lemma charVal_inject: "charVal c = charVal d \<longleftrightarrow> c = d"
proof
  assume "charVal c = charVal d"
  moreover have "of_char c < (256 :: int)" "of_char d < (256 :: int)" "0 \<le> (of_char c :: int)" "0 \<le> (of_char d :: int)"
    by (cases c; simp; fail | cases d; simp; fail)+
  ultimately have "(of_char c :: int) = of_char d"
    by (auto simp: charVal_def Let_def split: if_splits)
  then show "c = d" by simp
qed simp

definition all_chars :: "char list" where
  "all_chars = map (\<lambda>n. char_of (n :: nat)) [0..<256]"

lemma in_all_chars: "c \<in> set all_chars"
proof -
  have "c = char_of (of_char c :: nat)" by simp
  moreover have "of_char c < (256 :: nat)" by simp
  ultimately show ?thesis unfolding all_chars_def set_map set_upt by (metis atLeastLessThan_iff image_eqI zero_le)
qed

lemma all_charsD: "list_all P all_chars \<Longrightarrow> P c"
  using in_all_chars [of c] by (simp add: list_all_iff)

lemma upto_10: "n < 10 \<Longrightarrow> n \<in> set [0, 1, 2, 3, 4, 5, 6, 7, 8, 9 :: nat]"
  by auto

lemma digitChar_props:
  assumes "d < 10"
  shows "isDigit (digitChar d)" "digitVal (digitChar d) = d" "\<not> isSpace (digitChar d)" "digitChar d \<noteq> CHR ''-''"
proof -
  have "list_all (\<lambda>d. isDigit (digitChar d) \<and> digitVal (digitChar d) = d \<and> \<not> isSpace (digitChar d) \<and> digitChar d \<noteq> CHR ''-'')
      [0, 1, 2, 3, 4, 5, 6, 7, 8, 9]" by code_simp
  then have "isDigit (digitChar d) \<and> digitVal (digitChar d) = d \<and> \<not> isSpace (digitChar d) \<and> digitChar d \<noteq> CHR ''-''"
    using upto_10 [OF assms] unfolding list_all_iff by blast
  then show "isDigit (digitChar d)" "digitVal (digitChar d) = d" "\<not> isSpace (digitChar d)" "digitChar d \<noteq> CHR ''-''"
    by simp_all
qed

section \<open>Decimal numbers\<close>

lemma to_chars_nonempty [simp]: "to_chars n \<noteq> []"
  by (subst to_chars.simps) simp

lemma to_chars_digits: "list_all (\<lambda>c. isDigit c \<and> \<not> isSpace c \<and> c \<noteq> CHR ''-'') (to_chars n)"
proof (induction n rule: to_chars.induct)
  case (1 n)
  then show ?case by (subst to_chars.simps) (auto simp: digitChar_props)
qed

lemma digits_value_snoc: "digits_value (ds @ [c]) = 10 * digits_value ds + digitVal c"
  by (simp add: digits_value_def)

lemma digits_value_to_chars [simp]: "digits_value (to_chars n) = n"
proof (induction n rule: to_chars.induct)
  case (1 n)
  show ?case
  proof (cases "n < 10")
    case True
    then show ?thesis by (subst to_chars.simps) (simp add: digits_value_def digitChar_props)
  next
    case False
    then show ?thesis using 1 by (subst to_chars.simps) (simp add: digits_value_snoc digitChar_props)
  qed
qed

lemma valueFromStr_to_chars: "n < bound \<Longrightarrow> valueFromStr bound (to_chars n) = Some n"
  using to_chars_digits [of n]
  by (auto simp: valueFromStr_def from_chars_def Let_def list_all_iff takeWhile_eq_all_conv [THEN iffD2]
      dropWhile_eq_Nil_conv [THEN iffD2])

lemma valueFromStr_iff:
  "valueFromStr bound s = Some v \<longleftrightarrow> s \<noteq> [] \<and> list_all isDigit s \<and> digits_value s = v \<and> v < bound"
proof (cases "list_all isDigit s")
  case True
  then have "takeWhile isDigit s = s" "dropWhile isDigit s = []" by (auto simp: list_all_iff)
  then show ?thesis using True unfolding valueFromStr_def from_chars_def by (auto simp: Let_def simp del: takeWhile_eq_all_conv dropWhile_eq_Nil_conv)
next
  case False
  then have "dropWhile isDigit s \<noteq> []" by (auto simp: list_all_iff)
  then show ?thesis using False by (auto simp: valueFromStr_def from_chars_def Let_def split: list.splits)
qed

lemma length_to_chars: "n \<noteq> 0 \<Longrightarrow> 10 ^ (length (to_chars n) - 1) \<le> n \<and> n < 10 ^ length (to_chars n)"
proof (induction n rule: to_chars.induct)
  case (1 n)
  show ?case
  proof (cases "n < 10")
    case True
    then show ?thesis using 1 by (subst (1 2) to_chars.simps) simp
  next
    case False
    let ?l = "length (to_chars (n div 10))"
    have "0 < ?l" by simp
    then have p: "(10 :: nat) ^ ?l = 10 * 10 ^ (?l - 1)" by (metis power_eq_if not_less_zero)
    have "10 ^ (?l - 1) \<le> n div 10" "n div 10 < 10 ^ ?l" using 1 False by auto
    then have "10 ^ ?l \<le> n" "n < 10 * 10 ^ ?l" unfolding p by linarith+
    moreover have "to_chars n = to_chars (n div 10) @ [digitChar (n mod 10)]"
      using False by (subst to_chars.simps) simp
    ultimately show ?thesis by simp
  qed
qed

lemma unat_u64_lt: "unat (v :: u64) < 2 ^ 64"
  using unsigned_less [of v] by simp

lemma uint_u64_lt: "uint (v :: u64) < 2 ^ 64"
  using unsigned_less [of v] by simp

lemma pow10_lessD: "(10 :: nat) ^ m < 10 ^ n \<Longrightarrow> m < n"
  by (rule power_less_imp_less_exp [of 10]) simp_all

section \<open>Logarithms and the length of numbers\<close>

lemma unat_pow10: "k \<le> 19 \<Longrightarrow> unat ((10 :: u64) ^ k) = 10 ^ k"
proof -
  assume "k \<le> 19"
  then have "(10 :: nat) ^ k \<le> 10 ^ 19" by (intro power_increasing) simp_all
  moreover have "(10 :: nat) ^ 19 < 2 ^ 64" by simp
  ultimately have "(10 :: nat) ^ k < 2 ^ 64" by linarith
  then have "unat (of_nat (10 ^ k) :: u64) = 10 ^ k"
    unfolding unsigned_of_nat by (simp add: take_bit_nat_eq_self)
  then show ?thesis by simp
qed

lemma log10_loop_correct:
  assumes "unat val < 10 ^ 19" "val \<noteq> 0"
  shows "k \<le> 19 \<Longrightarrow> 0 < k \<longrightarrow> 10 ^ (k - 1) \<le> unat val \<Longrightarrow>
    \<exists>r. log10_loop val (of_nat k) (10 ^ k) = Some r \<and> r + 1 = of_nat (length (to_chars (unat val)))"
proof (induction "19 - k" arbitrary: k rule: less_induct)
  case less
  have u: "10 ^ k \<le> val \<longleftrightarrow> 10 ^ k \<le> unat val" using unat_pow10 [OF less.prems(1)] by (simp only: word_le_nat_alt)
  have v0: "unat val \<noteq> 0" using assms(2) by (simp add: unat_eq_0)
  show ?case
  proof (cases "10 ^ k \<le> unat val")
    case True
    then have k: "k < 19" using less.prems(1) assms(1) by (cases "k = 19") auto
    have "log10_loop val (of_nat k) (10 ^ k) = log10_loop val (of_nat (Suc k)) (10 ^ Suc k)"
      using True u by (subst log10_loop.simps) (simp only: if_True of_nat_Suc power_Suc mult.commute add.commute)
    then show ?thesis using less.hyps [of "Suc k"] k True by simp
  next
    case False
    let ?l = "length (to_chars (unat val))"
    note L = length_to_chars [OF v0]
    have "(10 :: nat) ^ (?l - 1) < 10 ^ k" using L False by linarith
    then have "?l - 1 < k" by (rule pow10_lessD)
    moreover have "k \<le> ?l"
    proof (cases k)
      case (Suc j)
      then have "(10 :: nat) ^ j < 10 ^ ?l" using less.prems(2) L by (simp only: diff_Suc_1 zero_less_Suc simp_thms) linarith
      then have "j < ?l" by (rule pow10_lessD)
      then show ?thesis using Suc by simp
    qed simp
    ultimately have "k = ?l" by (cases ?l) auto
    then show ?thesis using False u by (subst log10_loop.simps) (simp only: if_False, simp)
  qed
qed

lemma uintStrLen_correct: "uintStrLen v = Some (of_nat (length (to_chars (unat v))))"
proof (cases "v = 0")
  case True
  then show ?thesis by (simp add: uintStrLen_def to_chars.simps)
next
  case nz: False
  then have v0: "unat v \<noteq> 0" by (simp add: unat_eq_0)
  show ?thesis
  proof (cases "v \<ge> 10000000000000000000")
    case True
    let ?l = "length (to_chars (unat v))"
    have lo: "10 ^ 19 \<le> unat v" using True by (simp add: word_le_nat_alt)
    have hi: "unat v < 10 ^ 20" using unat_u64_lt [of v] by simp
    have "(10 :: nat) ^ 19 < 10 ^ ?l" "(10 :: nat) ^ (?l - 1) < 10 ^ 20"
      using length_to_chars [OF v0] lo hi by linarith+
    then have "19 < ?l" "?l - 1 < 20" by (blast dest: pow10_lessD)+
    then have "?l = 20" by simp
    then show ?thesis using nz True by (simp add: uintStrLen_def log10_def)
  next
    case False
    then have "unat v < 10 ^ 19" by (simp add: word_le_nat_alt)
    then obtain r where r: "log10_loop v (of_nat 0) (10 ^ 0) = Some r" "r + 1 = of_nat (length (to_chars (unat v)))"
      using log10_loop_correct [of v 0] nz by auto
    then show ?thesis using nz False by (simp add: uintStrLen_def log10_def add.commute)
  qed
qed

text \<open>The decimal representation of a signed value.\<close>

definition int_chars :: "int \<Rightarrow> string" where
  "int_chars v = (if v < 0 then CHR ''-'' # to_chars (nat (- v)) else to_chars (nat v))"

lemma wrap_int:
  fixes x M H :: int
  assumes "0 \<le> x" "x < M" "M = H + H"
  shows "(x + H) mod M - H = (if x < H then x else x - M)"
proof (cases "x < H")
  case True
  then show ?thesis using assms by (simp add: mod_pos_pos_trivial)
next
  case False
  then have "(x - H + M) mod M = x - H" using assms by (simp only: mod_add_self2) (rule mod_pos_pos_trivial; simp)
  moreover have "x - H + M = x + H" using assms by simp
  ultimately show ?thesis using False assms by (simp add: add.commute)
qed

lemma sint_u64: "sint (v :: u64) = (if uint v < 2 ^ 63 then uint v else uint v - 2 ^ 64)"
proof -
  have "sint v = (uint v + 2 ^ 63) mod 2 ^ 64 - 2 ^ 63"
    by (simp add: sint_uint signed_take_bit_eq_take_bit_shift take_bit_eq_mod)
  also have "\<dots> = (if uint v < 2 ^ 63 then uint v else uint v - 2 ^ 64)"
    by (rule wrap_int) (simp_all add: uint_u64_lt [simplified])
  finally show ?thesis .
qed

lemma unat_minus_u64: "v \<noteq> 0 \<Longrightarrow> unat (- v :: u64) = nat (2 ^ 64 - uint v)"
proof -
  assume "v \<noteq> 0"
  then have r: "0 < uint v" "uint v < 2 ^ 64"
    using uint_u64_lt [of v] unsigned_greater_eq [of v, where 'a = int] unsigned_eq_0_iff [of v] by (simp_all add: less_le)
  have "uint (- v) = (- uint v) mod 2 ^ 64" by (simp add: uint_word_ariths)
  also have "\<dots> = (- uint v + 2 ^ 64) mod 2 ^ 64" by (rule mod_add_self2 [symmetric])
  also have "\<dots> = 2 ^ 64 - uint v" using r by (subst mod_pos_pos_trivial) simp_all
  finally show ?thesis by (simp add: unat_eq_nat_uint)
qed

lemma intStrLen_correct: "intStrLen v = Some (of_nat (length (int_chars (sint v))))"
proof (cases "sint v < 0")
  case True
  then have s: "sint v = uint v - 2 ^ 64" by (simp add: sint_u64 split: if_splits)
  have "v \<noteq> 0" using True by auto
  then have "unat (- v) = nat (- sint v)" unfolding s minus_diff_eq by (rule unat_minus_u64)
  then show ?thesis unfolding intStrLen_def uintStrLen_correct int_chars_def if_P [OF True]
    by (simp only: option.map list.size) (simp add: add.commute)
next
  case False
  then have "sint v = uint v" unfolding sint_u64 using uint_u64_lt [of v] by (simp split: if_splits)
  then have "unat v = nat (sint v)" by (simp only: unat_eq_nat_uint)
  then show ?thesis unfolding intStrLen_def uintStrLen_correct int_chars_def if_not_P [OF False]
    by (simp only: option.map add_0_right)
qed

end
