(* ===== verification/Str_Words.thy ===== *)
theory Str_Words
  imports Str_Lemmas
begin

text \<open>
  Tokens and wrapped lines: \<^verbatim>\<open>split\<close> yields the maximal runs of non-space characters, \<^verbatim>\<open>wordWrap\<close>
  returns for every positive width, with lines that fit it and contain the same visible characters.
\<close>

section \<open>Splitting into tokens\<close>

lemma scanTokenEnd_eq: "scanTokenEnd s = dropWhile (\<lambda>c. \<not> isSpace c) s"
  by (induction s) auto

lemma scanTokenStart_eq: "scanTokenStart s = dropWhile isSpace s"
  by (induction s) auto

lemma token_scanTokenEnd: "token s (scanTokenEnd s) = takeWhile (\<lambda>c. \<not> isSpace c) s"
proof -
  have "s = takeWhile (\<lambda>c. \<not> isSpace c) s @ scanTokenEnd s" by (simp add: scanTokenEnd_eq)
  then show ?thesis unfolding token_def by (metis add_diff_cancel_right' append_eq_conv_conj length_append)
qed

lemma split_loop_Nil: "list_all isSpace s \<Longrightarrow> split_loop s = []"
  by (subst split_loop.simps) (auto simp: scanTokenStart_eq list_all_iff split: list.split simp: dropWhile_eq_Nil_conv [THEN iffD2])

lemma split_loop_space: "split_loop (scanTokenStart s) = split_loop s"
  by (subst (1 2) split_loop.simps) simp

definition word_ok :: "string \<Rightarrow> bool" where
  "word_ok w \<longleftrightarrow> w \<noteq> [] \<and> list_all (\<lambda>c. \<not> isSpace c) w"

lemma split_loop_Cons:
  assumes "\<not> isSpace c"
  shows "split_loop (c # s) = takeWhile (\<lambda>c. \<not> isSpace c) (c # s) # split_loop (dropWhile (\<lambda>c. \<not> isSpace c) s)"
  using assms token_scanTokenEnd [of "c # s"]
  by (subst split_loop.simps) (simp add: Let_def scanTokenEnd_eq)

lemma split_loop_tokens:
  "list_all word_ok (split_loop s) \<and> concat (split_loop s) = filter (\<lambda>c. \<not> isSpace c) s"
proof (induction s rule: length_induct)
  case (1 s)
  show ?case
  proof (cases "scanTokenStart s")
    case Nil
    then have "list_all isSpace s" by (simp add: scanTokenStart_eq list_all_iff)
    then show ?thesis using split_loop_Nil [of s] by (auto simp: list_all_iff filter_empty_conv)
  next
    case (Cons c rest)
    note c = scanTokenStart_hd [OF Cons]
    let ?d = "dropWhile (\<lambda>c. \<not> isSpace c) rest"
    have l: "length ?d < length s"
      using length_scanTokenStart [of s] length_dropWhile_le [of "\<lambda>c. \<not> isSpace c" rest] by (simp add: Cons)
    have "split_loop s = takeWhile (\<lambda>c. \<not> isSpace c) (c # rest) # split_loop ?d"
      using split_loop_space [of s] split_loop_Cons [OF c, of rest] by (simp only: Cons)
    moreover have "filter (\<lambda>c. \<not> isSpace c) s = filter (\<lambda>c. \<not> isSpace c) (c # rest)"
      using Cons by (metis (mono_tags, lifting) scanTokenStart_eq takeWhile_dropWhile_id filter_append append_Nil
          filter_empty_conv set_takeWhileD)
    moreover have "filter (\<lambda>c. \<not> isSpace c) rest = takeWhile (\<lambda>c. \<not> isSpace c) rest @ filter (\<lambda>c. \<not> isSpace c) ?d"
      by (subst takeWhile_dropWhile_id [of "\<lambda>c. \<not> isSpace c" rest, symmetric])
        (simp only: filter_append, metis (mono_tags, lifting) filter_True set_takeWhileD)
    moreover have "list_all word_ok (split_loop ?d) \<and> concat (split_loop ?d) = filter (\<lambda>c. \<not> isSpace c) ?d"
      using 1 l by blast
    moreover have "word_ok (takeWhile (\<lambda>c. \<not> isSpace c) (c # rest))"
      using c by (auto simp: word_ok_def list_all_iff dest: set_takeWhileD)
    ultimately show ?thesis using c by simp
  qed
qed

definition blank :: "string \<Rightarrow> bool" where
  "blank s \<longleftrightarrow> s \<noteq> [] \<and> list_all isSpace s"

lemma split_loop_word:
  assumes "word_ok w" "blank sep"
  shows "split_loop (w @ sep @ s) = w # split_loop s"
proof -
  obtain c w' where w: "w = c # w'" "\<not> isSpace c" using assms(1) by (cases w) (auto simp: word_ok_def)
  have w': "\<forall>c\<in>set w'. \<not> isSpace c" using assms(1) by (simp add: word_ok_def list_all_iff w)
  obtain d sep' where s: "sep = d # sep'" "isSpace d" using assms(2) by (cases sep) (auto simp: blank_def)
  have "takeWhile (\<lambda>c. \<not> isSpace c) (w @ sep @ s) = w" "dropWhile (\<lambda>c. \<not> isSpace c) (w' @ sep @ s) = sep @ s"
    using w w' s by (simp_all add: takeWhile_append2 dropWhile_append2)
  then have "split_loop (w @ sep @ s) = w # split_loop (sep @ s)"
    using split_loop_Cons [OF w(2), of "w' @ sep @ s"] by (simp add: w(1))
  moreover have "scanTokenStart (sep @ s) = scanTokenStart s"
    using assms(2) by (simp add: scanTokenStart_eq blank_def list_all_iff dropWhile_append2)
  ultimately show ?thesis using split_loop_space [of "sep @ s"] split_loop_space [of s] by simp
qed

lemma split_loop_spaced:
  assumes "list_all (\<lambda>(w, sep). word_ok w \<and> blank sep) ws"
  shows "split_loop (concat (map (\<lambda>(w, sep). w @ sep) ws)) = map fst ws"
  using assms
proof (induction ws)
  case Nil
  then show ?case by (simp add: split_loop_Nil)
next
  case (Cons x ws)
  then show ?case by (cases x) (simp add: split_loop_word)
qed

section \<open>Trimming\<close>

lemma trim_right_pos_eq: "r \<le> length s \<Longrightarrow> take (trim_right_pos s r) s = rev (dropWhile isSpace (rev (take r s)))"
proof (induction r)
  case (Suc r)
  then have "take (Suc r) s = take r s @ [s ! r]" by (simp add: take_Suc_conv_app_nth)
  then show ?case using Suc by simp
qed simp

lemma trim_right_pos_le: "trim_right_pos s r \<le> r"
  by (induction r) auto

lemma trim_eq: "trim s = rev (dropWhile isSpace (rev (dropWhile isSpace s)))"
proof -
  let ?l = "length (takeWhile isSpace s)"
  have d: "drop ?l s = dropWhile isSpace s" by (metis append_eq_conv_conj takeWhile_dropWhile_id)
  show ?thesis
  proof (cases "?l = length s")
    case True
    then have "dropWhile isSpace s = []" using d by (metis drop_all order_refl)
    then show ?thesis using True unfolding trim_def trim_left_pos_def by (simp only: Let_def if_True dropWhile.simps rev.simps refl)
  next
    case False
    let ?r = "trim_right_pos s (length s)"
    have "dropWhile isSpace s \<noteq> []" using False d by (metis append.right_neutral takeWhile_dropWhile_id)
    then obtain c t where ct: "dropWhile isSpace s = c # t" "\<not> isSpace c" by (cases "dropWhile isSpace s") (auto simp: dropWhile_eq_Cons_conv)
    have s: "s = takeWhile isSpace s @ c # t" by (metis ct(1) takeWhile_dropWhile_id)
    let ?x = "rev (dropWhile isSpace (rev (c # t)))"
    have "dropWhile isSpace (rev s) = dropWhile isSpace (rev (c # t)) @ rev (takeWhile isSpace s)"
      by (subst s, simp only: rev_append, subst dropWhile_append1 [of c]) (use ct in auto)
    then have "take ?r s = takeWhile isSpace s @ ?x"
      using trim_right_pos_eq [of "length s" s] by simp
    then have "drop ?l (take ?r s) = ?x" by simp
    then show ?thesis using False by (simp add: trim_def trim_left_pos_def Let_def ct(1) drop_take)
  qed
qed

section \<open>Wrapping lines\<close>

lemma right_space_pos_le: "right_space_pos s r \<le> r"
  by (induction r) auto

lemma right_space_pos_last: "right_space_pos s r = Suc n \<Longrightarrow> s ! n \<noteq> CHR '' ''"
  by (induction r) (auto split: if_splits)

lemma right_space_pos_filter:
  "r \<le> length s \<Longrightarrow> filter (\<lambda>c. c \<noteq> CHR '' '') (take (right_space_pos s r) s) = filter (\<lambda>c. c \<noteq> CHR '' '') (take r s)"
  by (induction r) (auto simp: take_Suc_conv_app_nth)

lemma skip_spaces_props:
  "pos \<le> length s \<Longrightarrow> pos \<le> skip_spaces s pos \<and> skip_spaces s pos \<le> length s \<and>
     (skip_spaces s pos < length s \<longrightarrow> s ! skip_spaces s pos \<noteq> CHR '' '') \<and>
     filter (\<lambda>c. c \<noteq> CHR '' '') (drop (skip_spaces s pos) s) = filter (\<lambda>c. c \<noteq> CHR '' '') (drop pos s)"
proof (induction s pos rule: skip_spaces.induct)
  case (1 s pos)
  show ?case
  proof (cases "pos < length s \<and> s ! pos = CHR '' ''")
    case True
    then have "drop pos s = CHR '' '' # drop (pos + 1) s" by (simp add: Cons_nth_drop_Suc [symmetric])
    then show ?thesis using True 1 by (subst (1 2 3 4 5) skip_spaces.simps) simp
  next
    case False
    then show ?thesis using 1(2) by (subst (1 2 3 4 5) skip_spaces.simps) auto
  qed
qed

lemma scan_word_props:
  "pos \<le> length s \<Longrightarrow> pos \<le> scan_word s st width pos \<and> scan_word s st width pos \<le> length s"
proof (induction s st width pos rule: scan_word.induct)
  case (1 s st width pos)
  show ?case
  proof (cases "pos < length s \<and> pos - st \<le> width \<and> s ! pos \<noteq> CHR '' ''")
    case True
    then show ?thesis using 1 by (subst (1 2) scan_word.simps) simp
  next
    case False
    then show ?thesis using 1(2) by (subst (1 2) scan_word.simps) auto
  qed
qed

lemma scan_word_progress:
  "pos < length s \<Longrightarrow> pos - st \<le> width \<Longrightarrow> s ! pos \<noteq> CHR '' '' \<Longrightarrow> pos < scan_word s st width pos"
  using scan_word_props [of "pos + 1" s st width] by (subst scan_word.simps) simp

abbreviation visible :: "string \<Rightarrow> string" where
  "visible s \<equiv> filter (\<lambda>c. c \<noteq> CHR '' '') s"

lemma substr_drop: "st \<le> e \<Longrightarrow> e \<le> length s \<Longrightarrow> substr s st (e - st) @ drop e s = drop st s"
  by (metis add_diff_inverse_nat append_take_drop_id drop_drop le_add_diff_inverse2 not_less substr_def)

lemma length_substr: "length (substr s p n) \<le> n"
  by (simp add: substr_def)

text \<open>The lines that the loop adds to \<open>result\<close>.\<close>

definition wrapped :: "nat \<Rightarrow> string list \<Rightarrow> string \<Rightarrow> string list option \<Rightarrow> bool" where
  "wrapped width result s r \<longleftrightarrow> (\<exists>ls. r = Some (result @ ls) \<and> list_all (\<lambda>l. length l \<le> width) ls \<and>
     visible (concat ls) = visible s)"

lemma wrapped_push:
  assumes "wrapped width (result @ [l]) s r" "length l \<le> width" "visible t = visible (l @ s)"
  shows "wrapped width result t r"
proof -
  obtain ls where "r = Some ((result @ [l]) @ ls)" "list_all (\<lambda>l. length l \<le> width) ls" "visible (concat ls) = visible s"
    using assms(1) by (auto simp: wrapped_def)
  then show ?thesis unfolding wrapped_def using assms(2,3) by (intro exI [of _ "l # ls"]) simp
qed

lemma wrap_loop_correct:
  assumes "0 < width"
  shows "st \<le> e \<Longrightarrow> e \<le> length s \<Longrightarrow> e - st \<le> width \<Longrightarrow> (\<not> first \<longrightarrow> st < e) \<Longrightarrow>
    wrapped width result (drop st s) (wrap_loop s width st e first result)"
proof (induction "(length s - st, length s - e)" arbitrary: st e first result
    rule: wf_induct [OF wf_lex_prod [OF wf_less_than wf_less_than]])
  case (1 st e first result)
  have IH: "wrapped width result' (drop st' s) (wrap_loop s width st' e' first' result')"
    if "st < st' \<and> st' \<le> length s \<or> st' = st \<and> e < e'" "st' \<le> e'" "e' \<le> length s" "e' - st' \<le> width" "\<not> first' \<longrightarrow> st' < e'"
    for st' e' first' result'
  proof -
    have "((length s - st', length s - e'), (length s - st, length s - e)) \<in> less_than <*lex*> less_than"
      using that(1-3) 1(2,3) by auto
    then show ?thesis using 1(1) that(2-5) by blast
  qed
  show ?case
  proof (cases "st < length s")
    case False
    then show ?thesis by (subst wrap_loop.simps) (simp add: wrapped_def)
  next
    case st: True
    let ?w = "skip_spaces s e"
    let ?we = "scan_word s st width ?w"
    note w = skip_spaces_props [OF 1(3)]
    have push: "wrapped width result (drop st s) r"
      if "wrapped width (result @ [substr s st (e - st)]) (drop ?w s) r" for r
      by (rule wrapped_push [OF that]) (use length_substr [of s st "e - st"] 1 substr_drop [OF 1(2,3)] w in
          \<open>simp_all, metis filter_append\<close>)
    show ?thesis
    proof (cases "?w = length s \<or> ?w - st \<ge> width")
      case True
      then have "st < ?w" using st assms by auto
      then have "wrapped width (result @ [substr s st (e - st)]) (drop ?w s)
          (wrap_loop s width ?w ?w True (result @ [substr s st (e - st)]))"
        using w by (intro IH) auto
      then show ?thesis using push st True by (subst wrap_loop.simps) (simp add: Let_def)
    next
      case False
      then have f: "?w < length s" "?w - st < width" using w by auto
      then have p: "?w < ?we" "?we \<le> length s"
        using scan_word_progress [of ?w s st width] scan_word_props [of ?w s st width] w by auto
      show ?thesis
      proof (cases "?we - st > width")
        case long: True
        show ?thesis
        proof (cases first)
          case True
          have l: "st + width \<le> length s" using long p by linarith
          have "wrapped width (result @ [substr s st width]) (drop (st + width) s)
             (wrap_loop s width (st + width) (st + width) True (result @ [substr s st width]))"
            using assms l by (intro IH) auto
          then have "wrapped width result (drop st s)
             (wrap_loop s width (st + width) (st + width) True (result @ [substr s st width]))"
            by (rule wrapped_push) (use l length_substr [of s st width] substr_drop [of st "st + width" s] in simp_all)
          then show ?thesis using st False long True by (subst wrap_loop.simps) (simp add: Let_def)
        next
          case nf: False
          then have "st < ?w" using 1(5) w by auto
          then have "wrapped width (result @ [substr s st (e - st)]) (drop ?w s)
              (wrap_loop s width ?w ?w True (result @ [substr s st (e - st)]))"
            using w by (intro IH) auto
          then show ?thesis using push st False long nf by (subst wrap_loop.simps) (simp add: Let_def)
        qed
      next
        case short: False
        have "wrapped width result (drop st s) (wrap_loop s width st ?we False result)"
          using p w 1 short by (intro IH) auto
        then show ?thesis using st False short by (subst wrap_loop.simps) (simp add: Let_def)
      qed
    qed
  qed
qed

lemma processLine_correct:
  assumes "0 < width"
  shows "wrapped width result line (processLine width result line)"
proof -
  let ?l = "substr line 0 (right_space_pos line (length line))"
  have v: "visible ?l = visible line"
    using right_space_pos_filter [of "length line" line] by (simp add: substr_def)
  show ?thesis
  proof (cases "?l = []")
    case True
    then show ?thesis using v unfolding processLine_def Let_def wrapped_def
      by (intro exI [of _ "[[]]"]) (simp add: v [symmetric])
  next
    case False
    let ?s = "if skip_spaces ?l 0 \<ge> width then skip_spaces ?l 0 else 0"
    note sk = skip_spaces_props [of 0 ?l, simplified]
    have "wrapped width result (drop ?s ?l) (wrap_loop ?l width ?s ?s True result)"
      using sk by (intro wrap_loop_correct [OF assms]) auto
    moreover have "visible (drop ?s ?l) = visible line" using sk v by auto
    ultimately have "wrapped width result line (wrap_loop ?l width ?s ?s True result)"
      unfolding wrapped_def by simp
    then show ?thesis using False unfolding processLine_def Let_def by simp
  qed
qed

lemma wrapped_lines:
  assumes "0 < width"
  shows "wrapped width result (concat ls)
    (foldl (\<lambda>r line. Option.bind r (\<lambda>result. processLine width result line)) (Some result) ls)"
proof (induction ls arbitrary: result)
  case Nil
  then show ?case by (simp add: wrapped_def)
next
  case (Cons l ls)
  obtain ps where p: "processLine width result l = Some (result @ ps)" "list_all (\<lambda>l. length l \<le> width) ps"
      "visible (concat ps) = visible l"
    using processLine_correct [OF assms, of result l] by (auto simp: wrapped_def)
  then show ?case using Cons [of "result @ ps"] by (auto simp: wrapped_def)
qed

lemma visible_source_lines:
  "filter (\<lambda>c. c \<noteq> CHR '' '') (concat (source_lines s)) = filter (\<lambda>c. c \<noteq> CHR '' '' \<and> c \<noteq> CHR 0x0A) s"
proof (induction s rule: source_lines.induct)
  case (1 s)
  let ?nl = "\<lambda>c :: char. c \<noteq> CHR 0x0A"
  show ?case
  proof (cases "s = []")
    case False
    have d: "filter (\<lambda>c. c \<noteq> CHR '' '' \<and> ?nl c) (dropWhile ?nl s) = filter (\<lambda>c. c \<noteq> CHR '' '' \<and> ?nl c) (drop 1 (dropWhile ?nl s))"
    proof (cases "dropWhile ?nl s")
      case (Cons a u)
      then have "a = CHR 0x0A" using hd_dropWhile [of ?nl s] by simp
      then show ?thesis by (simp add: Cons)
    next
      case Nil
      then show ?thesis by (simp only: drop_Nil)
    qed
    have t: "filter (\<lambda>c. c \<noteq> CHR '' '' \<and> ?nl c) (takeWhile ?nl s) = visible (takeWhile ?nl s)"
      by (rule filter_cong) (auto dest: set_takeWhileD)
    have "filter (\<lambda>c. c \<noteq> CHR '' '' \<and> ?nl c) s =
        filter (\<lambda>c. c \<noteq> CHR '' '' \<and> ?nl c) (takeWhile ?nl s) @ filter (\<lambda>c. c \<noteq> CHR '' '' \<and> ?nl c) (dropWhile ?nl s)"
      by (simp only: filter_append [symmetric] takeWhile_dropWhile_id)
    moreover have "concat (source_lines s) = takeWhile ?nl s @ concat (source_lines (drop 1 (dropWhile ?nl s)))"
      using False by (subst source_lines.simps) simp
    ultimately show ?thesis unfolding t d using 1 [OF False] by (simp only: filter_append)
  qed (simp add: source_lines.simps)
qed

lemma wordWrap_correct:
  assumes "0 < width"
  shows "\<exists>ls. wordWrap s width = Some ls \<and> list_all (\<lambda>l. length l \<le> width) ls \<and>
    filter (\<lambda>c. c \<noteq> CHR '' '') (concat ls) = filter (\<lambda>c. c \<noteq> CHR '' '' \<and> c \<noteq> CHR 0x0A) s"
  using wrapped_lines [OF assms, of "[]" "source_lines s"] visible_source_lines [of s]
  by (cases "s = []") (auto simp: wordWrap_def wrapped_def)

subsection \<open>Width zero\<close>

text \<open>With width zero the loop pushes empty lines for ever.\<close>

lemma wrap_loop_zero:
  "wrap_loop s w0 st e first result = Some r \<Longrightarrow>
   w0 = 0 \<longrightarrow> st < length s \<longrightarrow> e < length s \<longrightarrow> s ! (length s - 1) \<noteq> CHR '' '' \<longrightarrow> False"
proof (erule wrap_loop.raw_induct [rotated], intro impI)
  fix loop s w0 st e first result r
  assume IH: "\<And>s w0 st e first result r. loop s w0 st e first result = Some r \<Longrightarrow>
      w0 = 0 \<longrightarrow> st < length s \<longrightarrow> e < length s \<longrightarrow> s ! (length s - 1) \<noteq> CHR '' '' \<longrightarrow> False"
    and p: "w0 = 0" "st < length s" "e < length s" "s ! (length s - 1) \<noteq> CHR '' ''"
    and eq: "(if st < length s
        then let w = skip_spaces s e
             in if w = length s \<or> w0 \<le> w - st
                then loop s w0 w w True (result @ [substr s st (e - st)])
                else let we = scan_word s st w0 w
                     in if w0 < we - st
                        then if first then loop s w0 (st + w0) (st + w0) True (result @ [substr s st w0])
                             else loop s w0 w w True (result @ [substr s st (e - st)])
                        else loop s w0 st we False result
        else Some result) = Some r"
  have w: "skip_spaces s e < length s"
  proof (rule ccontr)
    assume "\<not> ?thesis"
    then have "visible (drop e s) = []" using skip_spaces_props [of e s] p(3) by simp
    moreover have "last (drop e s) = s ! (length s - 1)" "drop e s \<noteq> []" using p(3) by (simp_all add: last_drop last_conv_nth)
    ultimately show False using p(4) last_in_set [of "drop e s"] by (auto simp: filter_empty_conv)
  qed
  show False using IH [OF _ ] eq p w by (auto simp: Let_def)
qed

lemma processLine_zero:
  assumes "visible line \<noteq> []"
  shows "processLine 0 result line = None"
proof -
  let ?l = "substr line 0 (right_space_pos line (length line))"
  have v: "visible ?l = visible line"
    using right_space_pos_filter [of "length line" line] by (simp add: substr_def)
  then have ne: "?l \<noteq> []" using assms by auto
  then obtain n where n: "right_space_pos line (length line) = Suc n" "n < length line"
    using right_space_pos_le [of line "length line"] by (cases "right_space_pos line (length line)") (auto simp: substr_def)
  then have last: "?l ! (length ?l - 1) \<noteq> CHR '' ''"
    using right_space_pos_last [OF n(1)] by (simp add: substr_def)
  have "skip_spaces ?l 0 < length ?l"
  proof (rule ccontr)
    assume "\<not> ?thesis"
    then have "visible ?l = []" using skip_spaces_props [of 0 ?l] by simp
    then show False using assms v by simp
  qed
  then have "wrap_loop ?l 0 (skip_spaces ?l 0) (skip_spaces ?l 0) True result = None"
    using wrap_loop_zero last by (metis option.exhaust)
  then show ?thesis using ne by (simp add: processLine_def Let_def)
qed

lemma foldl_bind_None: "foldl (\<lambda>r line. Option.bind r (\<lambda>result. f result line)) None ls = None"
  by (induction ls) simp_all

lemma wordWrap_zero:
  assumes "c \<in> set s" "c \<noteq> CHR '' ''" "c \<noteq> CHR 0x0A"
  shows "wordWrap s 0 = None"
proof -
  have "visible (concat (source_lines s)) \<noteq> []"
    unfolding visible_source_lines using assms by (auto simp: filter_empty_conv)
  then obtain l where l: "l \<in> set (source_lines s)" "visible l \<noteq> []" by (auto simp: filter_empty_conv)
  have "foldl (\<lambda>r line. Option.bind r (\<lambda>result. processLine 0 result line)) (Some res) ls = None"
    if "l \<in> set ls" for res ls
    using that
  proof (induction ls arbitrary: res)
    case (Cons a ls)
    then show ?case using processLine_zero [OF l(2)]
      by (cases "processLine 0 res a") (auto simp: foldl_bind_None)
  qed simp
  then show ?thesis using l(1) assms(1) by (auto simp: wordWrap_def)
qed

end
