(* ===== verification/Core_Str.thy ===== *)
theory Core_Str
  imports Move Str_Words
begin

text \<open>
  Characters and strings of squares, cells and moves (\<^verbatim>\<open>src/src/core/strutil.h\<close>,
  \<^verbatim>\<open>src/src/core/strutil.cpp\<close>), and the parser of moves in the notation of the protocol
  (\<^verbatim>\<open>src/src/core/move_parser.h\<close>, \<^verbatim>\<open>src/src/core/move_parser.cpp\<close>).
\<close>

section \<open>Cells and coordinates\<close>

definition cellToChar :: "cell \<Rightarrow> char" where
  "cellToChar cell = (if cell < 0 \<or> cell \<ge> 16 then CHR ''?'' else ''.PKNBRQ??pknbrq?'' ! nat cell)"

text \<open>The bytes of the UTF-8 encoding of the chess symbols U+2654 to U+265F.\<close>

definition chessSymbol :: "char \<Rightarrow> string" where
  "chessSymbol c = [CHR 0xE2, CHR 0x99, c]"

definition cellToUtf8 :: "cell \<Rightarrow> string" where
  "cellToUtf8 cell =
     (if cell < 0 \<or> cell \<ge> 16 then ''?''
      else [''.'', chessSymbol (CHR 0x99), chessSymbol (CHR 0x94), chessSymbol (CHR 0x98),
            chessSymbol (CHR 0x97), chessSymbol (CHR 0x96), chessSymbol (CHR 0x95), ''?'',
            ''?'', chessSymbol (CHR 0x9F), chessSymbol (CHR 0x9A), chessSymbol (CHR 0x9E),
            chessSymbol (CHR 0x9D), chessSymbol (CHR 0x9C), chessSymbol (CHR 0x9B), ''?''] ! nat cell)"

definition isXCharValid :: "char \<Rightarrow> bool" where
  "isXCharValid c \<longleftrightarrow> charVal (CHR ''1'') \<le> charVal c \<and> charVal c \<le> charVal (CHR ''8'')"

definition isYCharValid :: "char \<Rightarrow> bool" where
  "isYCharValid c \<longleftrightarrow> charVal (CHR ''a'') \<le> charVal c \<and> charVal c \<le> charVal (CHR ''h'')"

definition xSubToChar :: "subcoord \<Rightarrow> char" where
  "xSubToChar x = charOf (charVal (CHR ''8'') - x)"

definition ySubToChar :: "subcoord \<Rightarrow> char" where
  "ySubToChar y = charOf (charVal (CHR ''a'') + y)"

definition charToSubX :: "char \<Rightarrow> subcoord" where
  "charToSubX c = charVal (CHR ''8'') - charVal c"

definition charToSubY :: "char \<Rightarrow> subcoord" where
  "charToSubY c = charVal c - charVal (CHR ''a'')"

definition charsToCoord :: "char \<Rightarrow> char \<Rightarrow> coord" where
  "charsToCoord cy cx = makeCoord (charToSubX cx) (charToSubY cy)"

section \<open>Moves as strings\<close>

definition moveToStr :: "move \<Rightarrow> string" where
  "moveToStr m =
     (if kind m = Null then ''0000''
      else [ySubToChar (coordY (src m)), xSubToChar (coordX (src m)),
            ySubToChar (coordY (dst m)), xSubToChar (coordX (dst m))] @
        (if isMoveKindPromote (kind m)
         then [''pknbrq'' ! nat (pieceVal (moveKindPromotePiece (kind m)))] else []))"

fun fenParseResultToStr :: "FenParseResult \<Rightarrow> string" where
  "fenParseResultToStr Fen_Ok = ''Ok''"
| "fenParseResultToStr ExpectedSpace = ''Expected space''"
| "fenParseResultToStr ExpectedUint16 = ''Expected uint16''"
| "fenParseResultToStr UnexpectedCharacter = ''Unexpected character''"
| "fenParseResultToStr BoardRowOverflow = ''Too many cells in a row''"
| "fenParseResultToStr BoardRowUnderflow = ''Too little cells in a row''"
| "fenParseResultToStr BoardNotEnoughRows = ''Too little rows on a board''"
| "fenParseResultToStr BoardTooManyRows = ''Too many rows on a board''"
| "fenParseResultToStr CastlingDuplicate = ''The same castling type is encountered twice''"
| "fenParseResultToStr CastlingFieldMissing = ''Expected castling type, space found''"
| "fenParseResultToStr EnpassantInvalidCell = ''Invalid enpassant cell''"
| "fenParseResultToStr RedundantData = ''Redundant data in the string''"

fun validateResultToStr :: "ValidateResult \<Rightarrow> string" where
  "validateResultToStr Validate_Ok = ''Ok''"
| "validateResultToStr BadData = ''Bad data in the board''"
| "validateResultToStr TooManyPieces = ''Board must have no more than 16 pieces on each side''"
| "validateResultToStr NoKing = ''One of the sides doesn'' @ [CHR 0x27] @ ''t have a king''"
| "validateResultToStr TooManyKings = ''One of the sides has more than one king''"
| "validateResultToStr InvalidEnpassantRow = ''Invalid enpassant row''"
| "validateResultToStr InvalidPawnPosition = ''Pawns cannot stay on the first and the last line''"
| "validateResultToStr OpponentKingAttacked = ''The opponent king is under attack''"

section \<open>Parsed moves\<close>

datatype PromotePiece = Promote_None | Promote_Knight | Promote_Bishop | Promote_Rook | Promote_Queen

fun promoteVal :: "PromotePiece \<Rightarrow> int" where
  "promoteVal Promote_None = 0"
| "promoteVal Promote_Knight = 1"
| "promoteVal Promote_Bishop = 2"
| "promoteVal Promote_Rook = 3"
| "promoteVal Promote_Queen = 4"

record parsed_move =
  pm_promote :: PromotePiece
  pm_src :: coord
  pm_dst :: coord
  pm_unused :: u8

definition ParsedMove :: "PromotePiece \<Rightarrow> coord \<Rightarrow> coord \<Rightarrow> parsed_move" where
  "ParsedMove p s d = \<lparr>pm_promote = p, pm_src = s, pm_dst = d, pm_unused = 0\<rparr>"

definition INVALID_PARSED_MOVE :: parsed_move where
  "INVALID_PARSED_MOVE = ParsedMove Promote_None INVALID_COORD INVALID_COORD"

definition parsed_asUint :: "parsed_move \<Rightarrow> u32" where
  "parsed_asUint m =
     (let uintPromote = (word_of_int (promoteVal (pm_promote m)) :: u8);
          uintSrc = (word_of_int (pm_src m) :: u8);
          uintDst = (word_of_int (pm_dst m) :: u8)
      in ucast uintPromote OR push_bit 8 (ucast uintSrc) OR push_bit 16 (ucast uintDst)
         OR push_bit 24 (ucast (pm_unused m)))"

definition parsed_eq :: "parsed_move \<Rightarrow> parsed_move \<Rightarrow> bool" where
  "parsed_eq a b \<longleftrightarrow> parsed_asUint a = parsed_asUint b"

definition fromStr :: "string \<Rightarrow> parsed_move" where
  "fromStr s =
     (if length s \<noteq> 4 \<and> length s \<noteq> 5 then INVALID_PARSED_MOVE
      else if length s = 4 \<and> s = ''0000'' then ParsedMove Promote_None 0 0
      else if \<not> isYCharValid (s ! 0) \<or> \<not> isXCharValid (s ! 1) \<or> \<not> isYCharValid (s ! 2) \<or>
              \<not> isXCharValid (s ! 3) then INVALID_PARSED_MOVE
      else let result = ParsedMove Promote_None (charsToCoord (s ! 0) (s ! 1)) (charsToCoord (s ! 2) (s ! 3))
           in if length s = 5 then
                if s ! 4 = CHR ''n'' then result\<lparr>pm_promote := Promote_Knight\<rparr>
                else if s ! 4 = CHR ''b'' then result\<lparr>pm_promote := Promote_Bishop\<rparr>
                else if s ! 4 = CHR ''r'' then result\<lparr>pm_promote := Promote_Rook\<rparr>
                else if s ! 4 = CHR ''q'' then result\<lparr>pm_promote := Promote_Queen\<rparr>
                else INVALID_PARSED_MOVE
              else result)"

definition kindOfVal :: "int \<Rightarrow> MoveKind" where
  "kindOfVal v = (if v = 6 then PromoteKnight else if v = 7 then PromoteBishop
     else if v = 8 then PromoteRook else PromoteQueen)"

definition moveFromParsedImpl :: "color \<Rightarrow> parsed_move \<Rightarrow> board \<Rightarrow> move" where
  "moveFromParsedImpl C p b =
     (if parsed_eq p INVALID_PARSED_MOVE then move_invalid
      else if parsed_eq p (ParsedMove Promote_None 0 0) then move_null
      else if pm_promote p \<noteq> Promote_None then
        mkMove (kindOfVal (promoteVal (pm_promote p) - promoteVal Promote_Knight + kindVal PromoteKnight))
          (pm_src p) (pm_dst p) 0
      else
        let result = mkMove Simple (pm_src p) (pm_dst p) 0
        in if cellAt b (pm_src p) = makeCell C Pawn \<and>
              coordX (pm_src p) = doubleMoveSrcRow C \<and> coordX (pm_dst p) = doubleMoveDstRow C
           then result\<lparr>kind := PawnDoubleMove\<rparr>
           else if cellAt b (pm_src p) = makeCell C Pawn \<and>
              coordY (pm_src p) \<noteq> coordY (pm_dst p) \<and> cellAt b (pm_dst p) = EMPTY_CELL
           then result\<lparr>kind := Enpassant\<rparr>
           else if cellAt b (pm_src p) = makeCell C King \<and>
              pm_src p = makeCoord (castlingRow C) 4 \<and> pm_dst p = makeCoord (castlingRow C) 6
           then result\<lparr>kind := CastlingKingside\<rparr>
           else if cellAt b (pm_src p) = makeCell C King \<and>
              pm_src p = makeCoord (castlingRow C) 4 \<and> pm_dst p = makeCoord (castlingRow C) 2
           then result\<lparr>kind := CastlingQueenside\<rparr>
           else result)"

definition moveFromParsed :: "parsed_move \<Rightarrow> board \<Rightarrow> move" where
  "moveFromParsed parsedMove b =
     (if side b = White then moveFromParsedImpl White parsedMove b else moveFromParsedImpl Black parsedMove b)"

definition moveParse :: "string \<Rightarrow> board \<Rightarrow> move" where
  "moveParse s b = moveFromParsed (fromStr s) b"

end
