(* ===== verification/Board_Text.thy ===== *)
theory Board_Text
  imports Core_Str Movegen
begin

text \<open>
  The board as text: writing and reading the Forsyth-Edwards notation, the printed board, and the
  validation of a board (\<^verbatim>\<open>src/src/core/board.cpp\<close>). The parser reads a zero-terminated
  string; a read of \<open>[]\<close> is a read of the terminator, on which every branch returns. The cells are
  an array of 64 entries: a write outside it, and the failure of an assertion, is \<open>None\<close>.
\<close>

section \<open>Writing a position\<close>

definition fen_digit :: "subcoord \<Rightarrow> char" where
  "fen_digit emptyCnt = charOf (charVal (CHR ''0'') + emptyCnt)"

definition fen_cell :: "board \<Rightarrow> subcoord \<Rightarrow> string \<times> subcoord \<Rightarrow> subcoord \<Rightarrow> string \<times> subcoord" where
  "fen_cell b i st j =
     (let (fen, emptyCnt) = st; cur = cellAt b (makeCoord i j)
      in if cur = EMPTY_CELL then (fen, emptyCnt + 1)
         else if emptyCnt \<noteq> 0 then (fen @ [fen_digit emptyCnt] @ [cellToChar cur], 0)
         else (fen @ [cellToChar cur], emptyCnt))"

definition fen_row :: "board \<Rightarrow> string \<Rightarrow> subcoord \<Rightarrow> string" where
  "fen_row b fen0 i =
     (let fen1 = (if i \<noteq> 0 then fen0 @ ''/'' else fen0);
          (fen2, emptyCnt) = foldl (fen_cell b i) (fen1, 0) [0..7]
      in if emptyCnt \<noteq> 0 then fen2 @ [fen_digit emptyCnt] else fen2)"

definition fen_castling :: "board \<Rightarrow> string" where
  "fen_castling b =
     (if \<not> isAnyCastling b then ''-''
      else (if isKingsideCastling b White then ''K'' else []) @
        (if isQueensideCastling b White then ''Q'' else []) @
        (if isKingsideCastling b Black then ''k'' else []) @
        (if isQueensideCastling b Black then ''q'' else []))"

definition fen_enpassant :: "board \<Rightarrow> string" where
  "fen_enpassant b =
     (if enpassantCoord b = INVALID_COORD then ''-''
      else [ySubToChar (coordY (enpassantCoord b)), if side b = White then CHR ''6'' else CHR ''3''])"

definition asFen :: "board \<Rightarrow> string" where
  "asFen b = foldl (fen_row b) [] [0..7] @ '' '' @ (if side b = White then ''w'' else ''b'') @ '' '' @
     fen_castling b @ '' '' @ fen_enpassant b @ '' '' @ to_chars (unat (moveCounter b)) @ '' '' @
     to_chars (unat (moveNumber b))"

datatype BoardPrettyStyle = Ascii | Utf8

definition pretty_char :: "BoardPrettyStyle \<Rightarrow> char \<Rightarrow> string \<Rightarrow> string" where
  "pretty_char style ascii utf8 = (case style of Ascii \<Rightarrow> [ascii] | Utf8 \<Rightarrow> utf8)"

definition horz_line :: "BoardPrettyStyle \<Rightarrow> string" where
  "horz_line style = pretty_char style (CHR ''-'') [CHR 0xE2, CHR 0x94, CHR 0x80]"

definition vert_line :: "BoardPrettyStyle \<Rightarrow> string" where
  "vert_line style = pretty_char style (CHR ''|'') [CHR 0xE2, CHR 0x94, CHR 0x82]"

definition boardAsPrettyImpl :: "BoardPrettyStyle \<Rightarrow> board \<Rightarrow> string" where
  "boardAsPrettyImpl style b =
     concat (map (\<lambda>i. [xSubToChar i] @ vert_line style @
         concat (map (\<lambda>j. let cell = cellAt b (makeCoord i j)
           in case style of Ascii \<Rightarrow> [cellToChar cell] | Utf8 \<Rightarrow> cellToUtf8 cell) [0..7]) @ [CHR 0x0A]) [0..7]) @
     horz_line style @ pretty_char style (CHR ''+'') [CHR 0xE2, CHR 0x94, CHR 0xBC] @
     concat (map (\<lambda>_. horz_line style) [0..7]) @ [CHR 0x0A] @
     (case style of Ascii \<Rightarrow> [if side b = White then CHR ''W'' else CHR ''B'']
      | Utf8 \<Rightarrow> (if side b = White then [CHR 0xE2, CHR 0x97, CHR 0x8B] else [CHR 0xE2, CHR 0x97, CHR 0x8F])) @
     vert_line style @ map ySubToChar [0..7] @ [CHR 0x0A]"

definition asPretty :: "board \<Rightarrow> BoardPrettyStyle \<Rightarrow> string" where
  "asPretty b style = (case style of Ascii \<Rightarrow> boardAsPrettyImpl Ascii b | Utf8 \<Rightarrow> boardAsPrettyImpl Utf8 b)"

section \<open>Reading a position\<close>

type_synonym parse_result = "(FenParseResult + string) \<times> board"

definition put_cell :: "board \<Rightarrow> coord \<Rightarrow> cell \<Rightarrow> board option" where
  "put_cell b cur v = (if 0 \<le> cur \<and> cur < 64 then Some (setCell b cur v) else None)"

fun put_empty :: "nat \<Rightarrow> board \<Rightarrow> coord \<Rightarrow> board option" where
  "put_empty 0 b cur = Some b"
| "put_empty (Suc k) b cur = Option.bind (put_cell b cur EMPTY_CELL) (\<lambda>b'. put_empty k b' (cur + 1))"

definition fen_piece :: "char \<Rightarrow> piece option" where
  "fen_piece lowC =
     (if lowC = CHR ''p'' then Some Pawn else if lowC = CHR ''k'' then Some King
      else if lowC = CHR ''n'' then Some Knight else if lowC = CHR ''b'' then Some Bishop
      else if lowC = CHR ''r'' then Some Rook else if lowC = CHR ''q'' then Some Queen else None)"

fun parse_cells :: "board \<Rightarrow> subcoord \<Rightarrow> subcoord \<Rightarrow> coord \<Rightarrow> string \<Rightarrow> parse_result option" where
  "parse_cells b x y cur [] =
     (if \<not> y < 8 then Some (Inl BoardRowOverflow, b) else Some (Inl UnexpectedCharacter, b))"
| "parse_cells b x y cur (c # fen) =
     (if charVal (CHR ''1'') \<le> charVal c \<and> charVal c \<le> charVal (CHR ''8'') then
        let add = charVal c - charVal (CHR ''0'')
        in if \<not> y + add \<le> 8 then Some (Inl BoardRowOverflow, b)
           else Option.bind (put_empty (nat add) b cur) (\<lambda>b'. parse_cells b' x (y + add) (cur + add) fen)
      else if c = CHR ''/'' then
        if y \<noteq> 8 then Some (Inl BoardRowUnderflow, b)
        else if \<not> x + 1 < 8 then Some (Inl BoardTooManyRows, b)
        else parse_cells b (x + 1) 0 cur fen
      else if c = CHR '' '' then
        if y \<noteq> 8 then Some (Inl BoardRowUnderflow, b)
        else if x \<noteq> 7 then Some (Inl BoardNotEnoughRows, b)
        else if cur \<noteq> 64 then None
        else Some (Inr fen, b)
      else if \<not> y < 8 then Some (Inl BoardRowOverflow, b)
      else let lowC = asciiToLower c
           in case fen_piece lowC of
                None \<Rightarrow> Some (Inl UnexpectedCharacter, b)
              | Some piece \<Rightarrow>
                  let color = (if c = lowC then Black else White)
                  in Option.bind (put_cell b cur (makeCell color piece)) (\<lambda>b'. parse_cells b' x (y + 1) (cur + 1) fen))"

definition consume_space :: "board \<Rightarrow> string \<Rightarrow> parse_result" where
  "consume_space b fen = (case fen of
     c # rest \<Rightarrow> if c = CHR '' '' then (Inr rest, b) else (Inl ExpectedSpace, b)
   | [] \<Rightarrow> (Inl ExpectedSpace, b))"

text \<open>The next stage of the parser, unless an earlier one has returned an error.\<close>

definition and_then :: "parse_result \<Rightarrow> (board \<Rightarrow> string \<Rightarrow> parse_result) \<Rightarrow> parse_result" where
  "and_then r f = (case r of (Inl e, b) \<Rightarrow> (Inl e, b) | (Inr rest, b) \<Rightarrow> f b rest)"

definition parse_side :: "board \<Rightarrow> string \<Rightarrow> parse_result" where
  "parse_side b fen = (case fen of
     c # rest \<Rightarrow> if c = CHR ''w'' then consume_space (b\<lparr>side := White\<rparr>) rest
       else if c = CHR ''b'' then consume_space (b\<lparr>side := Black\<rparr>) rest
       else (Inl UnexpectedCharacter, b)
   | [] \<Rightarrow> (Inl UnexpectedCharacter, b))"

fun parse_castling_loop :: "board \<Rightarrow> bool \<Rightarrow> string \<Rightarrow> parse_result" where
  "parse_castling_loop b hasCastling [] = (Inl UnexpectedCharacter, b)"
| "parse_castling_loop b hasCastling (c # fen) =
     (if c = CHR ''K'' then
        if isKingsideCastling b White then (Inl CastlingDuplicate, b)
        else parse_castling_loop (setKingsideCastling b White) True fen
      else if c = CHR ''Q'' then
        if isQueensideCastling b White then (Inl CastlingDuplicate, b)
        else parse_castling_loop (setQueensideCastling b White) True fen
      else if c = CHR ''k'' then
        if isKingsideCastling b Black then (Inl CastlingDuplicate, b)
        else parse_castling_loop (setKingsideCastling b Black) True fen
      else if c = CHR ''q'' then
        if isQueensideCastling b Black then (Inl CastlingDuplicate, b)
        else parse_castling_loop (setQueensideCastling b Black) True fen
      else if c = CHR '' '' then
        if \<not> hasCastling then (Inl CastlingFieldMissing, b) else (Inr fen, b)
      else (Inl UnexpectedCharacter, b))"

definition parse_castling :: "board \<Rightarrow> string \<Rightarrow> parse_result" where
  "parse_castling b0 fen =
     (let b = clearCastling b0
      in case fen of
           c # rest \<Rightarrow> if c = CHR ''-'' then consume_space b rest else parse_castling_loop b False fen
         | [] \<Rightarrow> parse_castling_loop b False fen)"

definition parse_enpassant :: "board \<Rightarrow> string \<Rightarrow> parse_result" where
  "parse_enpassant b fen = (case fen of
     [] \<Rightarrow> (Inl UnexpectedCharacter, b)
   | letter # rest \<Rightarrow>
       if letter = CHR ''-'' then consume_space (b\<lparr>enpassantCoord := INVALID_COORD\<rparr>) rest
       else if \<not> isYCharValid letter then (Inl UnexpectedCharacter, b)
       else (case rest of
           [] \<Rightarrow> (Inl UnexpectedCharacter, b)
         | number # rest' \<Rightarrow>
             if \<not> isXCharValid number then (Inl UnexpectedCharacter, b)
             else let enpassantX = enpassantSrcRow (side b)
                  in if charToSubX number \<noteq> enpassantDstRow (side b) then (Inl EnpassantInvalidCell, b)
                     else consume_space (b\<lparr>enpassantCoord := makeCoord enpassantX (charToSubY letter)\<rparr>) rest'))"

definition uint16_token :: "string \<Rightarrow> u16 option" where
  "uint16_token fen = map_option of_nat (valueFromStr (2 ^ 16) (token fen (scanTokenEnd fen)))"

definition parse_move_counter :: "board \<Rightarrow> string \<Rightarrow> parse_result" where
  "parse_move_counter b fen = (case uint16_token fen of
     None \<Rightarrow> (Inl ExpectedUint16, b)
   | Some v \<Rightarrow> consume_space (b\<lparr>moveCounter := v\<rparr>) (scanTokenEnd fen))"

definition parse_move_number :: "board \<Rightarrow> string \<Rightarrow> parse_result" where
  "parse_move_number b fen = (case uint16_token fen of
     None \<Rightarrow> (Inl ExpectedUint16, b)
   | Some v \<Rightarrow>
       let b' = b\<lparr>moveNumber := v\<rparr>; rest = scanTokenStart (scanTokenEnd fen)
       in if rest = [] then (Inr rest, b') else (Inl RedundantData, b'))"

definition parse_fields :: "parse_result \<Rightarrow> parse_result" where
  "parse_fields r = and_then (and_then (and_then (and_then (and_then r parse_side) parse_castling) parse_enpassant)
     parse_move_counter) parse_move_number"

definition setFromFen :: "zobrist \<Rightarrow> board \<Rightarrow> string \<Rightarrow> (FenParseResult \<times> board) option" where
  "setFromFen z b0 fen = map_option (\<lambda>r. case parse_fields r of
       (Inl e, b) \<Rightarrow> (e, b)
     | (Inr rest, b) \<Rightarrow> (Fen_Ok, update z b)) (parse_cells (b0\<lparr>unused := 0\<rparr>) 0 0 0 fen)"

text \<open>The board that \<^verbatim>\<open>fromFen\<close> starts from is uninitialised: any value \<open>b0\<close>.\<close>

definition fromFen :: "zobrist \<Rightarrow> board \<Rightarrow> string \<Rightarrow> (FenParseResult + board) option" where
  "fromFen z b0 fen = map_option (\<lambda>(result, b). if result = Fen_Ok then Inr b else Inl result) (setFromFen z b0 fen)"

definition initialPosition :: "zobrist \<Rightarrow> board \<Rightarrow> board" where
  "initialPosition z b0 = setInitialPosition z b0"

section \<open>Validation\<close>

definition validate_data :: "board \<Rightarrow> ValidateResult" where
  "validate_data b =
     (if \<not> list_all isCellValid (cells b) then BadData
      else if castling b AND Castling_All \<noteq> castling b then BadData
      else if enpassantCoord b \<noteq> INVALID_COORD \<and> (enpassantCoord b < 0 \<or> enpassantCoord b \<ge> 64) then BadData
      else if enpassantCoord b \<noteq> INVALID_COORD \<and> coordX (enpassantCoord b) \<noteq> enpassantSrcRow (side b)
        then InvalidEnpassantRow
      else Validate_Ok)"

definition validate_position :: "board \<Rightarrow> ValidateResult" where
  "validate_position b =
     (if popcount (bbWhite b) > 16 \<or> popcount (bbBlack b) > 16 then TooManyPieces
      else let bbWhiteKing = pieceBB b (makeCell White King); bbBlackKing = pieceBB b (makeCell Black King)
      in if bbWhiteKing = 0 \<or> bbBlackKing = 0 then NoKing
      else if popcount bbWhiteKing \<noteq> 1 \<or> popcount bbBlackKing \<noteq> 1 then TooManyKings
      else if (pieceBB b (makeCell White Pawn) OR pieceBB b (makeCell Black Pawn)) AND 0xff000000000000ff \<noteq> 0
        then InvalidPawnPosition
      else if \<not> wasMoveLegal b then OpponentKingAttacked
      else Validate_Ok)"

definition validate :: "zobrist \<Rightarrow> board \<Rightarrow> ValidateResult \<times> board" where
  "validate z b =
     (if validate_data b \<noteq> Validate_Ok then (validate_data b, b)
      else let b' = update z b in (validate_position b', b'))"

end
