(* ===== verification/Fen_Roundtrip.thy ===== *)
theory Fen_Roundtrip
  imports Board_Text
begin

text \<open>
  The notation is read back as it was written: the cells by an induction along each row with the
  pending run of empty squares, the other fields stage by stage. For arbitrary input the parser
  neither writes outside the array of cells nor fails its assertion.
\<close>

section \<open>Restoring the derived fields\<close>

lemma update_restores:
  assumes "consistent z b" "cells a = cells b" "side a = side b" "castling a = castling b"
    "enpassantCoord a = enpassantCoord b" "moveCounter a = moveCounter b" "moveNumber a = moveNumber b"
    "unused a = unused b"
  shows "update z a = b"
proof -
  note e = essential_cong [OF assms(2,4,3,5)]
  have ok: "board_shape a" "ep_ok a" "castling_ok a" using assms(1) e by (simp_all add: consistent_def)
  have 1: "update_castling (update_enpassant a) = a"
    using update_castling_id [OF ok(1,3)] update_enpassant_id [OF ok(2)] by simp
  note u = update_bitboards_eq [OF ok(1)]
  have bb: "bb_ok b" "hash b = fullHash z b" using assms(1) by (simp_all add: consistent_def)
  have c: "cells (update_bitboards a) = cells b" by (subst u(2)) (simp add: assms)
  note d = bb_ok_unique [OF u(1) bb(1) c]
  have h: "fullHash z (update_bitboards a) = hash b"
    unfolding bb(2) by (rule essential_cong(4)) (subst u(2), simp add: assms)+
  show ?thesis unfolding update_eq 1 update_hash_eq h
    by (subst u(2), rule board.equality) (simp_all add: assms d)
qed

section \<open>Characters of cells\<close>

lemma cell_char:
  assumes "isCellValid v" "v \<noteq> EMPTY_CELL"
  shows "fen_piece (asciiToLower (cellToChar v)) = Some (cellPiece v)"
    "(if cellToChar v = asciiToLower (cellToChar v) then Black else White) = cellPieceColor v"
    "\<not> (charVal (CHR ''1'') \<le> charVal (cellToChar v) \<and> charVal (cellToChar v) \<le> charVal (CHR ''8''))"
    "cellToChar v \<noteq> CHR ''/''" "cellToChar v \<noteq> CHR '' ''"
proof -
  have "list_all (\<lambda>v. isCellValid v \<longrightarrow> v \<noteq> EMPTY_CELL \<longrightarrow>
     fen_piece (asciiToLower (cellToChar v)) = Some (cellPiece v) \<and>
     (if cellToChar v = asciiToLower (cellToChar v) then Black else White) = cellPieceColor v \<and>
     \<not> (charVal (CHR ''1'') \<le> charVal (cellToChar v) \<and> charVal (cellToChar v) \<le> charVal (CHR ''8'')) \<and>
     cellToChar v \<noteq> CHR ''/'' \<and> cellToChar v \<noteq> CHR '' '') [0..14]"
    by code_simp
  moreover have "v \<in> set [0..14]" using isCellValid_range [OF assms(1)] by simp
  ultimately have "fen_piece (asciiToLower (cellToChar v)) = Some (cellPiece v) \<and>
     (if cellToChar v = asciiToLower (cellToChar v) then Black else White) = cellPieceColor v \<and>
     \<not> (charVal (CHR ''1'') \<le> charVal (cellToChar v) \<and> charVal (cellToChar v) \<le> charVal (CHR ''8'')) \<and>
     cellToChar v \<noteq> CHR ''/'' \<and> cellToChar v \<noteq> CHR '' ''"
    using assms unfolding list_all_iff by blast
  then show "fen_piece (asciiToLower (cellToChar v)) = Some (cellPiece v)"
    "(if cellToChar v = asciiToLower (cellToChar v) then Black else White) = cellPieceColor v"
    "\<not> (charVal (CHR ''1'') \<le> charVal (cellToChar v) \<and> charVal (cellToChar v) \<le> charVal (CHR ''8''))"
    "cellToChar v \<noteq> CHR ''/''" "cellToChar v \<noteq> CHR '' ''" by blast+
qed

lemma fen_digit_val:
  assumes "1 \<le> e" "e \<le> 8"
  shows "charVal (CHR ''1'') \<le> charVal (fen_digit e)" "charVal (fen_digit e) \<le> charVal (CHR ''8'')"
    "charVal (fen_digit e) - charVal (CHR ''0'') = e"
proof -
  have v: "charVal (CHR ''0'') = 48" "charVal (CHR ''1'') = 49" "charVal (CHR ''8'') = 56"
    by code_simp+
  have "charVal (fen_digit e) = 48 + e" unfolding fen_digit_def v using assms by simp
  then show "charVal (CHR ''1'') \<le> charVal (fen_digit e)" "charVal (fen_digit e) \<le> charVal (CHR ''8'')"
    "charVal (fen_digit e) - charVal (CHR ''0'') = e" using assms by (simp_all add: v)
qed

section \<open>Writing cells\<close>

lemma setCell_simps: "cells (setCell b c v) = (cells b)[nat c := v]" "setCell b c v = b\<lparr>cells := cells (setCell b c v)\<rparr>"
  by (simp_all add: setCell_def)

lemma put_empty_eq:
  "0 \<le> cur \<Longrightarrow> cur + int k \<le> 64 \<Longrightarrow> length (cells b) = 64 \<Longrightarrow>
    \<exists>cs. put_empty k b cur = Some (b\<lparr>cells := cs\<rparr>) \<and> length cs = 64 \<and>
      (\<forall>n < 64. cs ! n = (if cur \<le> int n \<and> int n < cur + int k then EMPTY_CELL else cells b ! n))"
proof (induction k arbitrary: b cur)
  case 0
  then show ?case by (intro exI [of _ "cells b"]) auto
next
  case (Suc k)
  have "\<exists>cs. put_empty k (setCell b cur EMPTY_CELL) (cur + 1) = Some ((setCell b cur EMPTY_CELL)\<lparr>cells := cs\<rparr>) \<and> length cs = 64 \<and>
      (\<forall>n < 64. cs ! n = (if cur + 1 \<le> int n \<and> int n < cur + 1 + int k then EMPTY_CELL else cells (setCell b cur EMPTY_CELL) ! n))"
    using Suc.prems by (intro Suc.IH) (simp_all add: setCell_simps(1))
  then obtain cs where cs: "put_empty k (setCell b cur EMPTY_CELL) (cur + 1) = Some ((setCell b cur EMPTY_CELL)\<lparr>cells := cs\<rparr>)"
      "length cs = 64"
      "\<And>n. n < 64 \<Longrightarrow> cs ! n = (if cur + 1 \<le> int n \<and> int n < cur + 1 + int k then EMPTY_CELL else (cells b)[nat cur := EMPTY_CELL] ! n)"
    unfolding setCell_simps(1) by blast
  have "cs ! n = (if cur \<le> int n \<and> int n < cur + int (Suc k) then EMPTY_CELL else cells b ! n)" if "n < 64" for n
    using cs(3) [OF that] Suc.prems that by (cases "n = nat cur") (auto simp: nth_list_update)
  then show ?case using Suc.prems cs(1,2) by (intro exI [of _ cs]) (simp add: put_cell_def setCell_def)
qed

section \<open>The parser is safe\<close>

lemma parse_cells_safe:
  "length (cells b) = 64 \<Longrightarrow> 0 \<le> x \<Longrightarrow> x < 8 \<Longrightarrow> 0 \<le> y \<Longrightarrow> y \<le> 8 \<Longrightarrow> cur = 8 * x + y \<Longrightarrow>
    \<exists>r cs. parse_cells b x y cur fen = Some (r, b\<lparr>cells := cs\<rparr>) \<and> length cs = 64"
proof (induction b x y cur fen rule: parse_cells.induct)
  case (1 b x y cur)
  then show ?case by (auto intro: exI [of _ "cells b"])
next
  case (2 b x y cur c fen)
  have stay: "\<exists>cs. b = b\<lparr>cells := cs\<rparr> \<and> length cs = 64" using 2(4) by (intro exI [of _ "cells b"]) simp
  consider (digit) "charVal (CHR ''1'') \<le> charVal c \<and> charVal c \<le> charVal (CHR ''8'')"
    | (slash) "\<not> (charVal (CHR ''1'') \<le> charVal c \<and> charVal c \<le> charVal (CHR ''8''))" "c = CHR ''/''"
    | (space) "\<not> (charVal (CHR ''1'') \<le> charVal c \<and> charVal c \<le> charVal (CHR ''8''))" "c \<noteq> CHR ''/''" "c = CHR '' ''"
    | (piece) "\<not> (charVal (CHR ''1'') \<le> charVal c \<and> charVal c \<le> charVal (CHR ''8''))" "c \<noteq> CHR ''/''" "c \<noteq> CHR '' ''"
    by blast
  then show ?case
  proof cases
    case digit
    have v: "charVal (CHR ''0'') = 48" "charVal (CHR ''1'') = 49" by code_simp+
    let ?a = "charVal c - charVal (CHR ''0'')"
    show ?thesis
    proof (cases "y + ?a \<le> 8")
      case True
      have a: "0 \<le> ?a" using digit unfolding v by linarith
      obtain cs where cs: "put_empty (nat ?a) b cur = Some (b\<lparr>cells := cs\<rparr>)" "length cs = 64"
        using put_empty_eq [of cur "nat ?a" b] 2(4-) True a by auto
      have "\<exists>r cs'. parse_cells (b\<lparr>cells := cs\<rparr>) x (y + ?a) (cur + ?a) fen = Some (r, (b\<lparr>cells := cs\<rparr>)\<lparr>cells := cs'\<rparr>) \<and> length cs' = 64"
        using 2(1) [OF digit refl] True 2(4-) a cs by simp
      then show ?thesis using digit True cs by (simp add: Let_def)
    next
      case False
      then show ?thesis using digit stay by (auto simp: Let_def)
    qed
  next
    case slash
    then show ?thesis
    proof (cases "y \<noteq> 8 \<or> \<not> x + 1 < 8")
      case True
      then show ?thesis using slash stay by auto
    next
      case False
      then show ?thesis using 2(2) [OF slash] slash 2(4-) by auto
    qed
  next
    case space
    then show ?thesis using 2(4-) stay by auto
  next
    case piece
    show ?thesis
    proof (cases "y < 8")
      case True
      show ?thesis
      proof (cases "fen_piece (asciiToLower c)")
        case None
        then show ?thesis using piece True stay by (auto simp: Let_def)
      next
        case (Some p)
        let ?col = "if c = asciiToLower c then Black else White"
        have pc: "put_cell b cur (makeCell ?col p) = Some (setCell b cur (makeCell ?col p))"
          using 2(4-) True by (simp add: put_cell_def)
        have "\<exists>r cs. parse_cells (setCell b cur (makeCell ?col p)) x (y + 1) (cur + 1) fen =
            Some (r, (setCell b cur (makeCell ?col p))\<lparr>cells := cs\<rparr>) \<and> length cs = 64"
          using 2(3) [OF piece _ refl Some refl pc] True 2(4-) by (simp add: setCell_simps(1) del: makeCell_values)
        then show ?thesis using piece True Some pc by (auto simp: Let_def setCell_def simp del: makeCell_values)
      qed
    next
      case False
      then show ?thesis using piece stay by (auto simp: Let_def)
    qed
  qed
qed

lemma setFromFen_total: "length (cells b0) = 64 \<Longrightarrow> setFromFen z b0 fen \<noteq> None"
  using parse_cells_safe [of "b0\<lparr>unused := 0\<rparr>" 0 0 0 fen] by (auto simp: setFromFen_def)

section \<open>Reading back the cells\<close>

text \<open>The characters of row \<open>i\<close> from column \<open>j\<close> on, when the \<open>e\<close> squares before it are empty and pending.\<close>

function row_chars :: "board \<Rightarrow> subcoord \<Rightarrow> subcoord \<Rightarrow> subcoord \<Rightarrow> string" where
  "row_chars b i j e =
     (if j \<ge> 8 then (if e \<noteq> 0 then [fen_digit e] else [])
      else if cellAt b (makeCoord i j) = EMPTY_CELL then row_chars b i (j + 1) (e + 1)
      else (if e \<noteq> 0 then [fen_digit e] else []) @ cellToChar (cellAt b (makeCoord i j)) # row_chars b i (j + 1) 0)"
  by auto
termination by (relation "measure (\<lambda>(b, i, j, e). nat (8 - j))") auto

declare row_chars.simps [simp del]

lemma foldl_fen_cell:
  "0 \<le> j \<Longrightarrow> j \<le> 8 \<Longrightarrow>
    (case foldl (fen_cell b i) (out, e) [j..7] of (out', e') \<Rightarrow> if e' \<noteq> 0 then out' @ [fen_digit e'] else out')
      = out @ row_chars b i j e"
proof (induction "nat (8 - j)" arbitrary: j out e)
  case 0
  then show ?case by (subst row_chars.simps) simp
next
  case (Suc n)
  have l: "[j..7] = j # [j + 1..7]" using Suc by (simp add: upto_rec1)
  have IH: "(case foldl (fen_cell b i) (out', e') [j + 1..7] of (out'', e'') \<Rightarrow> if e'' \<noteq> 0 then out'' @ [fen_digit e''] else out'')
      = out' @ row_chars b i (j + 1) e'" for out' e'
    using Suc by (intro Suc(1)) auto
  have j: "\<not> j \<ge> 8" using Suc by linarith
  show ?case
  proof (cases "cellAt b (makeCoord i j) = EMPTY_CELL")
    case True
    then show ?thesis unfolding l foldl_Cons
      by (subst row_chars.simps) (simp only: fen_cell_def Let_def IH j prod.case if_True if_False simp_thms)
  next
    case False
    then show ?thesis unfolding l foldl_Cons
      by (subst row_chars.simps, cases "e = 0")
        (simp_all only: fen_cell_def Let_def IH j prod.case if_True if_False simp_thms append_assoc append_Cons append_Nil)
  qed
qed

lemma fen_row_eq: "fen_row b fen i = fen @ (if i \<noteq> 0 then ''/'' else []) @ row_chars b i 0 0"
  using foldl_fen_cell [of 0 b i _ 0] by (simp add: fen_row_def Let_def)

text \<open>Both boards have the same first \<open>n\<close> cells.\<close>

definition agree :: "nat \<Rightarrow> board \<Rightarrow> board \<Rightarrow> bool" where
  "agree n b bb \<longleftrightarrow> length (cells bb) = 64 \<and> (\<forall>k < n. cells bb ! k = cells b ! k)"

definition same_rest :: "board \<Rightarrow> board \<Rightarrow> bool" where
  "same_rest a b \<longleftrightarrow> (\<exists>cs. b = a\<lparr>cells := cs\<rparr>)"

lemma same_rest_trans: "same_rest a b \<Longrightarrow> same_rest b c \<Longrightarrow> same_rest a c"
  by (auto simp: same_rest_def)

lemma same_rest_refl [simp]: "same_rest a a"
  unfolding same_rest_def by (intro exI [of _ "cells a"]) simp

lemma parse_digit:
  assumes "1 \<le> e" "y + e \<le> 8" "0 \<le> y" "0 \<le> x" "x < 8"
    and "agree (nat (8 * x + y)) b bb" "\<And>k. y \<le> k \<Longrightarrow> k < y + e \<Longrightarrow> cells b ! nat (8 * x + k) = EMPTY_CELL"
  shows "\<exists>bb'. parse_cells bb x y (8 * x + y) (fen_digit e # rest) = parse_cells bb' x (y + e) (8 * x + (y + e)) rest \<and>
    agree (nat (8 * x + (y + e))) b bb' \<and> same_rest bb bb'"
proof -
  have e8: "e \<le> 8" using assms by linarith
  note d = fen_digit_val [OF assms(1) e8]
  obtain cs where cs: "put_empty (nat e) bb (8 * x + y) = Some (bb\<lparr>cells := cs\<rparr>)" "length cs = 64"
      "\<And>n. n < 64 \<Longrightarrow> cs ! n = (if 8 * x + y \<le> int n \<and> int n < 8 * x + y + e then EMPTY_CELL else cells bb ! n)"
    using put_empty_eq [of "8 * x + y" "nat e" bb] assms by (auto simp: agree_def)
  have "agree (nat (8 * x + (y + e))) b (bb\<lparr>cells := cs\<rparr>)"
    unfolding agree_def
  proof (intro conjI allI impI)
    fix k assume k: "k < nat (8 * x + (y + e))"
    then have k64: "k < 64" using assms by linarith
    show "cells (bb\<lparr>cells := cs\<rparr>) ! k = cells b ! k"
    proof (cases "8 * x + y \<le> int k")
      case True
      have "cells b ! nat (8 * x + (int k - 8 * x)) = EMPTY_CELL" using True k assms by (intro assms(7)) linarith+
      moreover have "int k < 8 * x + y + e" using k by linarith
      ultimately show ?thesis using cs(3) [OF k64] True by simp
    next
      case False
      then have "k < nat (8 * x + y)" by linarith
      then show ?thesis using cs(3) [OF k64] False assms(6) by (simp add: agree_def)
    qed
  qed (simp add: cs(2))
  moreover have "parse_cells bb x y (8 * x + y) (fen_digit e # rest) =
      parse_cells (bb\<lparr>cells := cs\<rparr>) x (y + e) (8 * x + (y + e)) rest"
    using d assms cs(1) by (simp add: Let_def add.assoc)
  moreover have "same_rest bb (bb\<lparr>cells := cs\<rparr>)" by (auto simp: same_rest_def)
  ultimately show ?thesis by blast
qed

lemma parse_cells_piece:
  assumes "\<not> (charVal (CHR ''1'') \<le> charVal c \<and> charVal c \<le> charVal (CHR ''8''))" "c \<noteq> CHR ''/''" "c \<noteq> CHR '' ''"
    "y < 8" "fen_piece (asciiToLower c) = Some p" "0 \<le> cur" "cur < 64"
  shows "parse_cells b x y cur (c # fen) =
    parse_cells (setCell b cur (makeCell (if c = asciiToLower c then Black else White) p)) x (y + 1) (cur + 1) fen"
  using assms by (subst parse_cells.simps(2)) (simp only: if_False simp_thms Let_def option.case put_cell_def if_True bind.bind_lunit)

lemma parse_piece:
  assumes "y < 8" "0 \<le> y" "0 \<le> x" "x < 8" "agree (nat (8 * x + y)) b bb"
    and "isCellValid (cells b ! nat (8 * x + y))" "cells b ! nat (8 * x + y) \<noteq> EMPTY_CELL"
  shows "\<exists>bb'. parse_cells bb x y (8 * x + y) (cellToChar (cells b ! nat (8 * x + y)) # rest) =
      parse_cells bb' x (y + 1) (8 * x + (y + 1)) rest \<and> agree (nat (8 * x + (y + 1))) b bb' \<and> same_rest bb bb'"
proof -
  let ?v = "cells b ! nat (8 * x + y)"
  let ?bb = "setCell bb (8 * x + y) ?v"
  note c = cell_char [OF assms(6,7)]
  have v: "makeCell (cellPieceColor ?v) (cellPiece ?v) = ?v" by (rule makeCell_cellPiece [OF assms(6,7)])
  have "parse_cells bb x y (8 * x + y) (cellToChar ?v # rest) = parse_cells ?bb x (y + 1) (8 * x + (y + 1)) rest"
    using parse_cells_piece [OF c(3-5) assms(1) c(1), of "8 * x + y" bb x rest] assms by (simp only: c(2) v add.assoc)
  moreover have "agree (nat (8 * x + (y + 1))) b ?bb"
    using assms by (auto simp: agree_def setCell_simps(1) nth_list_update)
  moreover have "same_rest bb ?bb" by (auto simp: same_rest_def setCell_def)
  ultimately show ?thesis by blast
qed

lemma parse_row_chars:
  assumes "0 \<le> x" "x < 8" "\<forall>k < 64. isCellValid (cells b ! k)"
  shows "0 \<le> e \<Longrightarrow> e \<le> j \<Longrightarrow> j \<le> 8 \<Longrightarrow> agree (nat (8 * x + (j - e))) b bb \<Longrightarrow>
    (\<forall>k. j - e \<le> k \<longrightarrow> k < j \<longrightarrow> cells b ! nat (8 * x + k) = EMPTY_CELL) \<Longrightarrow>
    \<exists>bb'. parse_cells bb x (j - e) (8 * x + (j - e)) (row_chars b x j e @ rest) = parse_cells bb' x 8 (8 * x + 8) rest \<and>
      agree (nat (8 * x + 8)) b bb' \<and> same_rest bb bb'"
proof (induction "nat (8 - j)" arbitrary: j e bb)
  case 0
  then have j: "j = 8" by simp
  show ?case
  proof (cases "e = 0")
    case True
    then show ?thesis using 0 j by (subst row_chars.simps) (auto intro: exI [of _ bb])
  next
    case False
    then show ?thesis using parse_digit [of e "8 - e" x b bb rest] 0 j assms
      by (subst row_chars.simps) (simp add: j)
  qed
next
  case (Suc n)
  have j: "\<not> j \<ge> 8" using Suc by linarith
  have at: "cellAt b (makeCoord x j) = cells b ! nat (8 * x + j)"
    using Suc j by (simp add: cellAt_def coord_simps)
  show ?case
  proof (cases "cells b ! nat (8 * x + j) = EMPTY_CELL")
    case True
    have r: "row_chars b x j e = row_chars b x (j + 1) (e + 1)"
      using j True at by (subst row_chars.simps) simp
    have "\<exists>bb'. parse_cells bb x (j + 1 - (e + 1)) (8 * x + (j + 1 - (e + 1))) (row_chars b x (j + 1) (e + 1) @ rest) =
        parse_cells bb' x 8 (8 * x + 8) rest \<and> agree (nat (8 * x + 8)) b bb' \<and> same_rest bb bb'"
      using Suc j True by (intro Suc(1)) (auto simp: zless_add1_eq order_le_less)
    then show ?thesis unfolding r by simp
  next
    case False
    have pre: "\<exists>bb1. parse_cells bb x (j - e) (8 * x + (j - e)) ((if e \<noteq> 0 then [fen_digit e] else []) @ s) =
        parse_cells bb1 x j (8 * x + j) s \<and> agree (nat (8 * x + j)) b bb1 \<and> same_rest bb bb1" for s
    proof (cases "e = 0")
      case True
      then show ?thesis using Suc by auto
    next
      case False
      then show ?thesis using parse_digit [of e "j - e" x b bb s] Suc j assms by simp
    qed
    obtain bb1 where 1: "parse_cells bb x (j - e) (8 * x + (j - e)) ((if e \<noteq> 0 then [fen_digit e] else []) @
          cellToChar (cells b ! nat (8 * x + j)) # row_chars b x (j + 1) 0 @ rest) =
        parse_cells bb1 x j (8 * x + j) (cellToChar (cells b ! nat (8 * x + j)) # row_chars b x (j + 1) 0 @ rest)"
      "agree (nat (8 * x + j)) b bb1" "same_rest bb bb1"
      using pre by blast
    have "isCellValid (cells b ! nat (8 * x + j))" using assms Suc j by auto
    then obtain bb2 where 2: "parse_cells bb1 x j (8 * x + j) (cellToChar (cells b ! nat (8 * x + j)) # row_chars b x (j + 1) 0 @ rest) =
        parse_cells bb2 x (j + 1) (8 * x + (j + 1)) (row_chars b x (j + 1) 0 @ rest)"
      "agree (nat (8 * x + (j + 1))) b bb2" "same_rest bb1 bb2"
      using parse_piece [of j x b bb1 "row_chars b x (j + 1) 0 @ rest"] j Suc 1(2) assms False by auto
    have "\<exists>bb'. parse_cells bb2 x (j + 1 - 0) (8 * x + (j + 1 - 0)) (row_chars b x (j + 1) 0 @ rest) =
        parse_cells bb' x 8 (8 * x + 8) rest \<and> agree (nat (8 * x + 8)) b bb' \<and> same_rest bb2 bb'"
      using Suc j 2(2) by (intro Suc(1)) auto
    then obtain bb3 where 3: "parse_cells bb2 x (j + 1) (8 * x + (j + 1)) (row_chars b x (j + 1) 0 @ rest) =
        parse_cells bb3 x 8 (8 * x + 8) rest" "agree (nat (8 * x + 8)) b bb3" "same_rest bb2 bb3"
      by auto
    have r: "row_chars b x j e @ rest = (if e \<noteq> 0 then [fen_digit e] else []) @
          cellToChar (cells b ! nat (8 * x + j)) # row_chars b x (j + 1) 0 @ rest"
      using j False at by (subst row_chars.simps) simp
    show ?thesis unfolding r 1(1) 2(1) 3(1)
      using 3(2) 1(3) 2(3) 3(3) by (blast intro: same_rest_trans)
  qed
qed

lemma parse_row:
  assumes "0 \<le> x" "x < 8" "\<forall>k < 64. isCellValid (cells b ! k)" "agree (nat (8 * x)) b bb"
  shows "\<exists>bb'. parse_cells bb x 0 (8 * x) (row_chars b x 0 0 @ rest) = parse_cells bb' x 8 (8 * x + 8) rest \<and>
    agree (nat (8 * x + 8)) b bb' \<and> same_rest bb bb'"
  using parse_row_chars [OF assms(1-3), of 0 0 bb rest] assms(4) by simp

lemma parse_slash: "x + 1 < 8 \<Longrightarrow> parse_cells bb x 8 cur (CHR ''/'' # s) = parse_cells bb (x + 1) 0 cur s"
proof -
  assume x: "x + 1 < 8"
  have "charVal (CHR ''/'') = 47" "charVal (CHR ''1'') = 49" by code_simp+
  then show ?thesis using x by simp
qed

lemma parse_end: "parse_cells bb 7 8 64 (CHR '' '' # s) = Some (Inr s, bb)"
proof -
  have "charVal (CHR '' '') = 32" "charVal (CHR ''1'') = 49" by code_simp+
  then show ?thesis by simp
qed

lemma parse_rows:
  assumes "\<forall>k < 64. isCellValid (cells b ! k)"
  shows "0 \<le> x \<Longrightarrow> x < 8 \<Longrightarrow> agree (nat (8 * x)) b bb \<Longrightarrow>
    \<exists>bb'. parse_cells bb x 0 (8 * x) (row_chars b x 0 0 @ concat (map (\<lambda>i. ''/'' @ row_chars b i 0 0) [x + 1..7]) @ CHR '' '' # rest) =
      Some (Inr rest, bb') \<and> agree 64 b bb' \<and> same_rest bb bb'"
proof (induction "nat (7 - x)" arbitrary: x bb)
  case 0
  then have x: "x = 7" by simp
  show ?case using parse_row [of 7 b bb "CHR '' '' # rest"] assms 0(4) parse_end unfolding x by auto
next
  case (Suc n)
  have l: "[x + 1..7] = (x + 1) # [x + 1 + 1..7]" using Suc by (simp add: upto_rec1)
  let ?rest = "row_chars b (x + 1) 0 0 @ concat (map (\<lambda>i. ''/'' @ row_chars b i 0 0) [x + 1 + 1..7]) @ CHR '' '' # rest"
  obtain bb1 where 1: "parse_cells bb x 0 (8 * x) (row_chars b x 0 0 @ CHR ''/'' # ?rest) =
      parse_cells bb1 x 8 (8 * x + 8) (CHR ''/'' # ?rest)" "agree (nat (8 * x + 8)) b bb1" "same_rest bb bb1"
    using parse_row [OF Suc(3,4) assms Suc(5)] by blast
  have e: "8 * x + 8 = 8 * (x + 1)" by simp
  have "\<exists>bb'. parse_cells bb1 (x + 1) 0 (8 * (x + 1)) ?rest = Some (Inr rest, bb') \<and> agree 64 b bb' \<and> same_rest bb1 bb'"
    using Suc 1(2) unfolding e by (intro Suc(1)) auto
  then obtain bb2 where 2: "parse_cells bb1 (x + 1) 0 (8 * (x + 1)) ?rest = Some (Inr rest, bb2)" "agree 64 b bb2" "same_rest bb1 bb2"
    by blast
  have x: "x + 1 < 8" using Suc by linarith
  have "parse_cells bb x 0 (8 * x) (row_chars b x 0 0 @ concat (map (\<lambda>i. ''/'' @ row_chars b i 0 0) [x + 1..7]) @ CHR '' '' # rest) =
      Some (Inr rest, bb2)"
    using 1(1) 2(1) parse_slash [OF x, of bb1 "8 * x + 8" ?rest] unfolding l e by simp
  then show ?case using 2(2,3) 1(3) same_rest_trans by blast
qed

lemma foldl_fen_row:
  "foldl (fen_row b) out is = out @ concat (map (\<lambda>i. (if i \<noteq> 0 then ''/'' else []) @ row_chars b i 0 0) is)"
  by (induction "is" arbitrary: out) (simp_all add: fen_row_eq)

lemma fen_rows: "foldl (fen_row b) [] [0..7] = row_chars b 0 0 0 @ concat (map (\<lambda>i. ''/'' @ row_chars b i 0 0) [1..7])"
proof -
  have l: "[0..7] = (0 :: int) # [1..7]" by (simp add: upto_rec1)
  have "map (\<lambda>i. (if i \<noteq> 0 then ''/'' else []) @ row_chars b i 0 0) [1..7] = map (\<lambda>i. ''/'' @ row_chars b i 0 0) [1..7]"
    by (rule map_cong) auto
  then show ?thesis
    by (simp only: foldl_fen_row l list.map(2) concat.simps append_Nil if_False simp_thms)
qed

section \<open>Reading back the other fields\<close>

lemma consume_space_eq: "consume_space b (CHR '' '' # rest) = (Inr rest, b)"
  by (simp add: consume_space_def)

lemma parse_side_eq:
  "parse_side b ((if s = White then ''w'' else ''b'') @ '' '' @ rest) = (Inr rest, b\<lparr>side := s\<rparr>)"
  by (cases s) (simp_all add: parse_side_def consume_space_eq)

lemma castling_flag_simps:
  "isKingsideCastling (setKingsideCastling b c) d \<longleftrightarrow> isKingsideCastling b d \<or> c = d"
  "isKingsideCastling (setQueensideCastling b c) d \<longleftrightarrow> isKingsideCastling b d"
  "isQueensideCastling (setQueensideCastling b c) d \<longleftrightarrow> isQueensideCastling b d \<or> c = d"
  "isQueensideCastling (setKingsideCastling b c) d \<longleftrightarrow> isQueensideCastling b d"
  "isKingsideCastling (clearCastling b) d \<longleftrightarrow> False" "isQueensideCastling (clearCastling b) d \<longleftrightarrow> False"
  by (auto simp: setKingsideCastling_def setQueensideCastling_def clearCastling_def Castling_None_def bit_or_iff flag_bits)

lemma castling_All_or:
  "f AND Castling_All = f \<Longrightarrow> (f OR castlingKingside c) AND Castling_All = f OR castlingKingside c"
  "f AND Castling_All = f \<Longrightarrow> (f OR castlingQueenside c) AND Castling_All = f OR castlingQueenside c"
  by (auto simp: castling_All_iff bit_or_iff flag_bits)

lemma set_castling_All:
  "castling b AND Castling_All = castling b \<Longrightarrow> castling (setKingsideCastling b c) AND Castling_All = castling (setKingsideCastling b c)"
  "castling b AND Castling_All = castling b \<Longrightarrow> castling (setQueensideCastling b c) AND Castling_All = castling (setQueensideCastling b c)"
  "castling (clearCastling b) AND Castling_All = castling (clearCastling b)"
  by (simp_all add: setKingsideCastling_def setQueensideCastling_def clearCastling_def Castling_None_def castling_All_or)

lemma set_castling_rest:
  "setKingsideCastling b c = b\<lparr>castling := castling (setKingsideCastling b c)\<rparr>"
  "setQueensideCastling b c = b\<lparr>castling := castling (setQueensideCastling b c)\<rparr>"
  "clearCastling b = b\<lparr>castling := castling (clearCastling b)\<rparr>"
  by (simp_all add: setKingsideCastling_def setQueensideCastling_def clearCastling_def)

text \<open>The castling loop adds the flags it reads, each at most once.\<close>

definition add_flags :: "board \<Rightarrow> bool \<Rightarrow> bool \<Rightarrow> bool \<Rightarrow> bool \<Rightarrow> board" where
  "add_flags b K Q k q =
     (let b1 = (if K then setKingsideCastling b White else b); b2 = (if Q then setQueensideCastling b1 White else b1);
          b3 = (if k then setKingsideCastling b2 Black else b2)
      in if q then setQueensideCastling b3 Black else b3)"

lemma add_flags_props:
  "castling b AND Castling_All = castling b \<Longrightarrow>
    castling (add_flags b K Q k q) AND Castling_All = castling (add_flags b K Q k q)"
  "add_flags b K Q k q = b\<lparr>castling := castling (add_flags b K Q k q)\<rparr>"
  "isKingsideCastling (add_flags b K Q k q) c \<longleftrightarrow> isKingsideCastling b c \<or> (if c = White then K else k)"
  "isQueensideCastling (add_flags b K Q k q) c \<longleftrightarrow> isQueensideCastling b c \<or> (if c = White then Q else q)"
  subgoal by (auto simp: add_flags_def Let_def set_castling_All)
  subgoal by (auto simp: add_flags_def Let_def setKingsideCastling_def setQueensideCastling_def)
  subgoal by (cases c) (simp_all add: add_flags_def Let_def castling_flag_simps del: isCastling_bits)
  subgoal by (cases c) (simp_all add: add_flags_def Let_def castling_flag_simps del: isCastling_bits)
  done

lemma parse_castling_loop_eq:
  assumes "K \<or> Q \<or> k \<or> q"
  shows "parse_castling_loop (clearCastling b) False ((if K then ''K'' else []) @ (if Q then ''Q'' else []) @
      (if k then ''k'' else []) @ (if q then ''q'' else []) @ '' '' @ rest) =
    (Inr rest, add_flags (clearCastling b) K Q k q)"
  using assms
  by (cases K; cases Q; cases k; cases q)
    (simp_all add: castling_flag_simps add_flags_def Let_def del: isCastling_bits)

lemma parse_castling_eq:
  assumes "castling b AND Castling_All = castling b"
  shows "parse_castling a (fen_castling b @ '' '' @ rest) = (Inr rest, a\<lparr>castling := castling b\<rparr>)"
proof (cases "isAnyCastling b")
  case False
  then show ?thesis
    by (simp add: fen_castling_def parse_castling_def Let_def clearCastling_def isAnyCastling_def castling_has_def
        Castling_None_def consume_space_eq)
next
  case True
  let ?K = "isKingsideCastling b White" and ?Q = "isQueensideCastling b White"
    and ?k = "isKingsideCastling b Black" and ?q = "isQueensideCastling b Black"
  have any: "?K \<or> ?Q \<or> ?k \<or> ?q"
  proof (rule ccontr)
    assume n: "\<not> ?thesis"
    have "castling b = 0"
    proof (rule castling_eqI [OF assms])
      show "bit (castling b) (kbit c) = bit 0 (kbit c)" for c using n by (cases c) simp_all
      show "bit (castling b) (qbit c) = bit 0 (qbit c)" for c using n by (cases c) simp_all
    qed simp
    then show False using True by (simp add: isAnyCastling_def castling_has_def Castling_None_def)
  qed
  let ?r = "add_flags (clearCastling a) ?K ?Q ?k ?q"
  have "castling ?r = castling b"
  proof (rule castling_eqI [OF _ assms])
    show "castling ?r AND Castling_All = castling ?r" by (rule add_flags_props(1) [OF set_castling_All(3)])
    show "bit (castling ?r) (kbit c) = bit (castling b) (kbit c)" for c
      using add_flags_props(3) [of "clearCastling a" ?K ?Q ?k ?q c] by (cases c) (auto simp: clearCastling_def Castling_None_def)
    show "bit (castling ?r) (qbit c) = bit (castling b) (qbit c)" for c
      using add_flags_props(4) [of "clearCastling a" ?K ?Q ?k ?q c] by (cases c) (auto simp: clearCastling_def Castling_None_def)
  qed
  then have r: "?r = a\<lparr>castling := castling b\<rparr>"
    using add_flags_props(2) [of "clearCastling a" ?K ?Q ?k ?q] by (simp add: clearCastling_def)
  let ?s = "(if ?K then ''K'' else []) @ (if ?Q then ''Q'' else []) @ (if ?k then ''k'' else []) @ (if ?q then ''q'' else []) @ '' '' @ rest"
  obtain c t where s: "?s = c # t" "c \<noteq> CHR ''-''" using any by (cases ?K; cases ?Q; cases ?k; cases ?q) auto
  have "fen_castling b @ '' '' @ rest = ?s" using True by (simp add: fen_castling_def)
  then show ?thesis
    using parse_castling_loop_eq [OF any, of a rest] s unfolding r by (simp add: parse_castling_def Let_def)
qed

lemma ySub_char:
  assumes "0 \<le> y" "y < 8"
  shows "isYCharValid (ySubToChar y)" "charToSubY (ySubToChar y) = y" "ySubToChar y \<noteq> CHR ''-''" "ySubToChar y \<noteq> CHR ''0''"
proof -
  have v: "charVal (CHR ''a'') = 97" "charVal (CHR ''h'') = 104" "charVal (CHR ''-'') = 45" "charVal (CHR ''0'') = 48" by code_simp+
  have c: "charVal (ySubToChar y) = 97 + y" unfolding ySubToChar_def v using assms by simp
  then show "isYCharValid (ySubToChar y)" "charToSubY (ySubToChar y) = y"
    using assms by (simp_all add: isYCharValid_def charToSubY_def v)
  have "charVal (ySubToChar y) \<noteq> charVal (CHR ''-'')" "charVal (ySubToChar y) \<noteq> charVal (CHR ''0'')"
    unfolding c v using assms by linarith+
  then show "ySubToChar y \<noteq> CHR ''-''" "ySubToChar y \<noteq> CHR ''0''" by metis+
qed

lemma xSub_char:
  assumes "0 \<le> x" "x < 8"
  shows "isXCharValid (xSubToChar x)" "charToSubX (xSubToChar x) = x"
proof -
  have v: "charVal (CHR ''1'') = 49" "charVal (CHR ''8'') = 56" by code_simp+
  have c: "charVal (xSubToChar x) = 56 - x" unfolding xSubToChar_def v using assms by simp
  then show "isXCharValid (xSubToChar x)" "charToSubX (xSubToChar x) = x"
    using assms by (simp_all add: isXCharValid_def charToSubX_def v)
qed

lemma parse_enpassant_eq:
  assumes "enpassantCoord b = INVALID_COORD \<or> isCoord (enpassantCoord b) \<and> coordX (enpassantCoord b) = enpassantSrcRow (side b)"
    "side a = side b"
  shows "parse_enpassant a (fen_enpassant b @ '' '' @ rest) = (Inr rest, a\<lparr>enpassantCoord := enpassantCoord b\<rparr>)"
proof (cases "enpassantCoord b = INVALID_COORD")
  case True
  then show ?thesis by (simp add: fen_enpassant_def parse_enpassant_def consume_space_eq)
next
  case False
  then have ep: "isCoord (enpassantCoord b)" "coordX (enpassantCoord b) = enpassantSrcRow (side b)" using assms by auto
  let ?y = "coordY (enpassantCoord b)"
  have y: "0 \<le> ?y" "?y < 8" by simp_all
  note yc = ySub_char [OF y]
  have n: "isXCharValid (CHR ''6'')" "isXCharValid (CHR ''3'')" "charToSubX (CHR ''6'') = 2" "charToSubX (CHR ''3'') = 5"
    by code_simp+
  have "makeCoord (enpassantSrcRow (side b)) ?y = enpassantCoord b" using ep by (metis makeCoord_coordXY)
  then show ?thesis using False yc n assms(2)
    by (cases "side b") (simp_all add: fen_enpassant_def parse_enpassant_def Let_def consume_space_eq enpassantDstRow_def)
qed

lemma uint16_token_eq:
  "isSpace c \<Longrightarrow> uint16_token (to_chars (unat v) @ c # rest) = Some v"
  "isSpace c \<Longrightarrow> scanTokenEnd (to_chars (unat v) @ c # rest) = c # rest"
  "uint16_token (to_chars (unat v)) = Some v" "scanTokenEnd (to_chars (unat v)) = []"
proof -
  have d: "\<forall>c\<in>set (to_chars (unat v)). \<not> isSpace c" using to_chars_digits [of "unat v"] by (auto simp: list_all_iff)
  have v: "unat v < 2 ^ 16" using unsigned_less [of v] by simp
  show e: "isSpace c \<Longrightarrow> scanTokenEnd (to_chars (unat v) @ c # rest) = c # rest" "scanTokenEnd (to_chars (unat v)) = []"
    using d by (simp_all add: scanTokenEnd_eq)
  show "isSpace c \<Longrightarrow> uint16_token (to_chars (unat v) @ c # rest) = Some v" "uint16_token (to_chars (unat v)) = Some v"
    using valueFromStr_to_chars [OF v] e by (simp_all add: uint16_token_def token_def)
qed

lemma isSpace_space [simp]: "isSpace (CHR '' '')"
  by (simp add: isSpace_def)

lemma parse_fields_eq:
  assumes "board_shape b"
  shows "parse_fields (Inr ((if side b = White then ''w'' else ''b'') @ '' '' @ fen_castling b @ '' '' @ fen_enpassant b @ '' '' @
      to_chars (unat (moveCounter b)) @ '' '' @ to_chars (unat (moveNumber b))), a) =
    (Inr [], a\<lparr>side := side b, castling := castling b, enpassantCoord := enpassantCoord b,
       moveCounter := moveCounter b, moveNumber := moveNumber b\<rparr>)"
proof -
  have s: "castling b AND Castling_All = castling b"
    "enpassantCoord b = INVALID_COORD \<or> isCoord (enpassantCoord b) \<and> coordX (enpassantCoord b) = enpassantSrcRow (side b)"
    using assms by (simp_all add: board_shape_def)
  have at: "and_then (Inr r, x) f = f x r" for r x f by (simp add: and_then_def)
  have c: "parse_move_counter x (to_chars (unat v) @ '' '' @ rest) = (Inr rest, x\<lparr>moveCounter := v\<rparr>)" for x v rest
    by (simp add: parse_move_counter_def uint16_token_eq consume_space_eq)
  have n: "parse_move_number x (to_chars (unat v)) = (Inr [], x\<lparr>moveNumber := v\<rparr>)" for x v
    by (simp add: parse_move_number_def uint16_token_eq)
  show ?thesis unfolding parse_fields_def at parse_side_eq parse_castling_eq [OF s(1)]
    by (subst parse_enpassant_eq [OF s(2)]) (simp_all only: at c n, simp_all)
qed

lemma setFromFen_asFen_eq:
  assumes "consistent z b" "unused b = 0" "length (cells b0) = 64"
  shows "setFromFen z b0 (asFen b) = Some (Fen_Ok, b)"
proof -
  have shape: "board_shape b" using assms(1) by (simp add: consistent_def)
  then have len: "length (cells b) = 64" and valid: "\<And>c. isCoord c \<Longrightarrow> isCellValid (cells b ! nat c)"
    unfolding board_shape_def cellAt_def by blast+
  have "isCellValid (cells b ! k)" if "k < 64" for k using valid [of "int k"] that by (simp add: isCoord_def)
  then have cells: "length (cells b) = 64" "\<forall>k < 64. isCellValid (cells b ! k)" using len by blast+
  let ?f = "(if side b = White then ''w'' else ''b'') @ '' '' @ fen_castling b @ '' '' @ fen_enpassant b @ '' '' @
      to_chars (unat (moveCounter b)) @ '' '' @ to_chars (unat (moveNumber b))"
  have "agree (nat (8 * 0)) b (b0\<lparr>unused := 0\<rparr>)" using assms(3) by (simp add: agree_def)
  then obtain bb where bb: "parse_cells (b0\<lparr>unused := 0\<rparr>) 0 0 (8 * 0) (row_chars b 0 0 0 @
      concat (map (\<lambda>i. ''/'' @ row_chars b i 0 0) [0 + 1..7]) @ CHR '' '' # ?f) = Some (Inr ?f, bb)"
      "agree 64 b bb" "same_rest (b0\<lparr>unused := 0\<rparr>) bb"
    using parse_rows [OF cells(2), of 0 "b0\<lparr>unused := 0\<rparr>" ?f] by auto
  have cs: "cells bb = cells b" using bb(2) cells(1) by (intro nth_equalityI) (simp_all add: agree_def)
  have un: "unused bb = 0" using bb(3) by (auto simp: same_rest_def)
  have p: "parse_cells (b0\<lparr>unused := 0\<rparr>) 0 0 0 (asFen b) = Some (Inr ?f, bb)"
    using bb(1) by (simp add: asFen_def fen_rows)
  show ?thesis unfolding setFromFen_def p option.map parse_fields_eq [OF shape] prod.case sum.case option.inject prod.inject
    by (intro conjI refl, rule update_restores [OF assms(1)]) (simp_all add: cs un assms(2))
qed

end
