(* ===== verification/Move_Text.thy ===== *)
theory Move_Text
  imports Fen_Roundtrip Movegen_Rules
begin

text \<open>
  Moves written in the notation of the protocol are read back on the board they belong to; the
  texts of a move, a position and a printed board fit the buffers the program reserves for them.
\<close>

section \<open>Reading back moves\<close>

lemma u8_of_parsed_asUint:
  "ucast (parsed_asUint m) = (word_of_int (promoteVal (pm_promote m)) :: u8)"
  "ucast (drop_bit 8 (parsed_asUint m)) = (word_of_int (pm_src m) :: u8)"
  "ucast (drop_bit 16 (parsed_asUint m)) = (word_of_int (pm_dst m) :: u8)"
  unfolding parsed_asUint_def Let_def
  by (rule bit_eqI, auto simp: bit_simps)+

lemma parsed_eq_src:
  assumes "parsed_eq (ParsedMove p s d) (ParsedMove p' s' d')"
  shows "(word_of_int s :: u8) = word_of_int s'" "(word_of_int d :: u8) = word_of_int d'"
  using assms u8_of_parsed_asUint [of "ParsedMove p s d"] u8_of_parsed_asUint [of "ParsedMove p' s' d'"]
  by (simp_all add: parsed_eq_def) (simp_all add: ParsedMove_def)

lemma u8_coord_eq: "isCoord s \<Longrightarrow> isCoord d \<Longrightarrow> (word_of_int s :: u8) = word_of_int d \<longleftrightarrow> s = d"
  by (auto simp: isCoord_def word_of_int_eq_iff take_bit_int_eq_self)

lemma not_invalid_parsed: "isCoord s \<Longrightarrow> \<not> parsed_eq (ParsedMove p s d) INVALID_PARSED_MOVE"
proof
  assume s: "isCoord s" and "parsed_eq (ParsedMove p s d) INVALID_PARSED_MOVE"
  then have "(word_of_int s :: u8) = word_of_int (- 1)"
    unfolding INVALID_PARSED_MOVE_def INVALID_COORD_def by (blast intro: parsed_eq_src)
  then have "take_bit 8 s = take_bit 8 (- 1)" unfolding word_of_int_eq_iff by simp
  then have "s mod 256 = 255" by (simp add: take_bit_eq_mod)
  then show False using s by (simp add: isCoord_def mod_pos_pos_trivial)
qed

lemma not_null_parsed: "isCoord s \<Longrightarrow> isCoord d \<Longrightarrow> s \<noteq> d \<Longrightarrow> \<not> parsed_eq (ParsedMove p s d) (ParsedMove q 0 0)"
  using parsed_eq_src [of p s d q 0 0] u8_coord_eq [of s 0] u8_coord_eq [of d 0] by (auto simp: isCoord_def)

lemma charsToCoord_eq: "isCoord c \<Longrightarrow> charsToCoord (ySubToChar (coordY c)) (xSubToChar (coordX c)) = c"
  using xSub_char(2) [of "coordX c"] ySub_char(2) [of "coordY c"] coordX_range [of c] by (simp add: charsToCoord_def)

fun kindPromote :: "MoveKind \<Rightarrow> PromotePiece" where
  "kindPromote PromoteKnight = Promote_Knight"
| "kindPromote PromoteBishop = Promote_Bishop"
| "kindPromote PromoteRook = Promote_Rook"
| "kindPromote PromoteQueen = Promote_Queen"
| "kindPromote _ = Promote_None"

lemma fromStr_moveToStr:
  assumes "isCoord (src m)" "isCoord (dst m)" "kind m \<noteq> Null"
  shows "fromStr (moveToStr m) = ParsedMove (kindPromote (kind m)) (src m) (dst m)"
proof -
  note c = ySub_char [of "coordY (src m)"] ySub_char [of "coordY (dst m)"] xSub_char [of "coordX (src m)"]
    xSub_char [of "coordX (dst m)"] coordX_range [OF assms(1)] coordX_range [OF assms(2)]
    charsToCoord_eq [OF assms(1)] charsToCoord_eq [OF assms(2)]
  show ?thesis using c assms(3)
    by (cases "kind m")
      (simp_all add: moveToStr_def fromStr_def isMoveKindPromote_def moveKindPromotePiece_def pieceOfVal_def ParsedMove_def)
qed

lemma promote_kind:
  "isMoveKindPromote k \<Longrightarrow> kindPromote k \<noteq> Promote_None \<and>
     kindOfVal (promoteVal (kindPromote k) - promoteVal Promote_Knight + kindVal PromoteKnight) = k"
  by (cases k) (simp_all add: isMoveKindPromote_def kindOfVal_def)

lemma pawn_step_coords:
  assumes "pawn_step b C s d"
  shows "coordX d = coordX s + pawnDir C" "cellAt b d = EMPTY_CELL \<Longrightarrow> coordY d = coordY s"
proof -
  have "coordX d = coordX s + pawnDir C \<and> (cellAt b d = EMPTY_CELL \<longrightarrow> coordY d = coordY s)"
  proof (cases "cellAt b d = EMPTY_CELL")
    case True
    then show ?thesis using assms pawn_forward_iff [of d s C] by (simp add: pawn_step_def)
  next
    case False
    then show ?thesis using assms pawn_left_iff [of d s C] pawn_right_iff [of d s C]
      unfolding pawn_step_def pawn_attacks_iff by auto
  qed
  then show "coordX d = coordX s + pawnDir C" "cellAt b d = EMPTY_CELL \<Longrightarrow> coordY d = coordY s" by blast+
qed

lemma double_rows: "coordX s = doubleMoveSrcRow C \<Longrightarrow> coordX d = doubleMoveDstRow C \<Longrightarrow> coordX d = coordX s + 2 * pawnDir C"
  by (cases C) (simp_all add: doubleMoveSrcRow_def doubleMoveDstRow_def pawnDir_def)

lemma pawnDir_nonzero: "pawnDir C \<noteq> 0"
  by (cases C) (simp_all add: pawnDir_def)

lemma castling_kings:
  "makeCoord (castlingRow C) 4 = castlingOffset C + 4" "makeCoord (castlingRow C) 6 = castlingOffset C + 6"
  "makeCoord (castlingRow C) 2 = castlingOffset C + 2"
  by (cases C; simp add: castlingRow_def castlingOffset_def makeCoord_def push_bit_eq_mult)+

text \<open>What the conversion returns for a move that is no promotion, by the piece on its source.\<close>

lemma moveFromParsed_plain:
  assumes "isCoord s" "isCoord d" "s \<noteq> d" "cellAt b s = makeCell C P"
  shows "moveFromParsedImpl C (ParsedMove Promote_None s d) b = mkMove
    (if P = Pawn \<and> coordX s = doubleMoveSrcRow C \<and> coordX d = doubleMoveDstRow C then PawnDoubleMove
     else if P = Pawn \<and> coordY s \<noteq> coordY d \<and> cellAt b d = EMPTY_CELL then Enpassant
     else if P = King \<and> s = castlingOffset C + 4 \<and> d = castlingOffset C + 6 then CastlingKingside
     else if P = King \<and> s = castlingOffset C + 4 \<and> d = castlingOffset C + 2 then CastlingQueenside
     else Simple) s d 0"
proof -
  have f: "pm_promote (ParsedMove p s d) = p" "pm_src (ParsedMove p s d) = s" "pm_dst (ParsedMove p s d) = d" for p
    by (simp_all add: ParsedMove_def)
  show ?thesis
    using not_invalid_parsed [OF assms(1), of Promote_None d] not_null_parsed [OF assms(1-3), of Promote_None Promote_None] assms(4)
    unfolding moveFromParsedImpl_def f castling_kings
    by (simp add: Let_def mkMove_def del: makeCell_values)
qed

lemma moveFromParsed_promote:
  assumes "isCoord s" "isCoord d" "s \<noteq> d" "isMoveKindPromote k"
  shows "moveFromParsedImpl C (ParsedMove (kindPromote k) s d) b = mkMove k s d 0"
proof -
  have f: "pm_promote (ParsedMove p s d) = p" "pm_src (ParsedMove p s d) = s" "pm_dst (ParsedMove p s d) = d" for p
    by (simp_all add: ParsedMove_def)
  show ?thesis
    using not_invalid_parsed [OF assms(1), of "kindPromote k" d] not_null_parsed [OF assms(1-3), of "kindPromote k" Promote_None]
      promote_kind [OF assms(4)]
    unfolding moveFromParsedImpl_def f by simp
qed

lemma moveParse_moveToStr_eq:
  assumes "consistent z b" "pseudo_legal b m" "tag m = 0"
  shows "moveParse (moveToStr m) b = m"
proof -
  let ?C = "side b" and ?s = "src m" and ?d = "dst m"
  have sd: "isCoord ?s" "isCoord ?d" "kind m \<noteq> Null"
    using assms(2) unfolding pseudo_legal_def Let_def by auto
  have m: "m = mkMove (kind m) ?s ?d 0" using assms(3) by (simp add: mkMove_def)
  have mp: "moveParse (moveToStr m) b = moveFromParsedImpl ?C (ParsedMove (kindPromote (kind m)) ?s ?d) b"
    unfolding moveParse_def fromStr_moveToStr [OF sd] by (cases ?C) (simp_all add: moveFromParsed_def)
  have "moveFromParsedImpl ?C (ParsedMove (kindPromote (kind m)) ?s ?d) b = mkMove (kind m) ?s ?d 0"
  proof (cases "isMoveKindPromote (kind m)")
    case True
    then have "pawn_step b ?C ?s ?d"
      using assms(2) unfolding pseudo_legal_def Let_def isMoveKindPromote_def by auto
    then have "?s \<noteq> ?d" using pawn_step_coords(1) pawnDir_nonzero [of ?C] by fastforce
    then show ?thesis using moveFromParsed_promote sd True by blast
  next
    case np: False
    then have kp: "kindPromote (kind m) = Promote_None" by (cases "kind m") (simp_all add: isMoveKindPromote_def)
    show ?thesis
    proof (cases "kind m")
      case Simple
      then obtain P where P: "cellAt b ?s = makeCell ?C P"
        "if P = Pawn then coordX ?s \<noteq> promoteSrcRow ?C \<and> pawn_step b ?C ?s ?d
         else (cellAt b ?d = EMPTY_CELL \<or> cellPieceColor (cellAt b ?d) \<noteq> ?C) \<and> piece_attacks (bbAll b) ?C P ?s ?d"
        using assms(2) unfolding pseudo_legal_def Let_def Simple MoveKind.case by blast
      show ?thesis
      proof (cases "P = Pawn")
        case True
        then have st: "pawn_step b ?C ?s ?d" using P(2) by simp
        note r = pawn_step_coords [OF st]
        have ne: "?s \<noteq> ?d" using r(1) pawnDir_nonzero [of ?C] by fastforce
        have "\<not> (coordX ?s = doubleMoveSrcRow ?C \<and> coordX ?d = doubleMoveDstRow ?C)"
          using double_rows [of ?s ?C ?d] r(1) pawnDir_nonzero [of ?C] by linarith
        moreover have "\<not> (coordY ?s \<noteq> coordY ?d \<and> cellAt b ?d = EMPTY_CELL)" using r(2) by metis
        ultimately show ?thesis unfolding kp moveFromParsed_plain [OF sd(1,2) ne P(1)] unfolding True Simple by auto
      next
        case False
        then have at: "piece_attacks (bbAll b) ?C P ?s ?d" using P(2) by simp
        then have ne: "?s \<noteq> ?d" by auto
        have "\<not> (P = King \<and> ?s = castlingOffset ?C + 4 \<and> (?d = castlingOffset ?C + 6 \<or> ?d = castlingOffset ?C + 2))"
        proof
          assume k: "P = King \<and> ?s = castlingOffset ?C + 4 \<and> (?d = castlingOffset ?C + 6 \<or> ?d = castlingOffset ?C + 2)"
          then have "colDist ?s ?d = 2"
            by (cases ?C) (auto simp: colDist_def coordY_eq castlingOffset_def castlingRow_def push_bit_eq_mult)
          then show False using at k by simp
        qed
        then show ?thesis unfolding kp moveFromParsed_plain [OF sd(1,2) ne P(1)] using False Simple by auto
      qed
    next
      case PawnDoubleMove
      then have p: "cellAt b ?s = makeCell ?C Pawn" "coordX ?s = doubleMoveSrcRow ?C" "?d = ?s + 2 * pawnForwardDelta ?C"
        using assms(2) unfolding pseudo_legal_def Let_def PawnDoubleMove MoveKind.case by blast+
      then have "?s \<noteq> ?d" "coordX ?d = doubleMoveDstRow ?C"
        by (cases ?C; simp add: pawnForwardDelta_def coordX_eq doubleMoveSrcRow_def doubleMoveDstRow_def)+
      then show ?thesis unfolding kp using moveFromParsed_plain [OF sd(1,2) _ p(1)] p(2) PawnDoubleMove by simp
    next
      case Enpassant
      let ?e = "enpassantCoord b"
      have p: "cellAt b ?s = makeCell ?C Pawn" "?e \<noteq> INVALID_COORD" "coordX ?s = coordX ?e" "colDist ?s ?e = 1"
          "?d = ?e + pawnForwardDelta ?C"
        using assms(2) unfolding pseudo_legal_def Let_def Enpassant MoveKind.case by blast+
      have e: "coordX ?e = enpassantSrcRow ?C" "cellAt b ?d = EMPTY_CELL"
        using assms(1) p(2) unfolding consistent_def board_shape_def ep_ok_def p(5) by blast+
      have y: "coordY ?d = coordY ?e" using pawn_forward_iff [of ?d ?e ?C] p(5) by blast
      then have "coordY ?s \<noteq> coordY ?d" "?s \<noteq> ?d" using p(4) by (auto simp: colDist_def)
      moreover have "coordX ?s \<noteq> doubleMoveSrcRow ?C" unfolding p(3) e(1)
        by (cases ?C) (simp_all add: enpassantSrcRow_def doubleMoveSrcRow_def)
      ultimately show ?thesis unfolding kp using moveFromParsed_plain [OF sd(1,2) _ p(1)] e(2) Enpassant by simp
    next
      case CastlingKingside
      have p: "?s = castlingOffset ?C + 4" "?d = castlingOffset ?C + 6" "isKingsideCastling b ?C"
        using assms(2) unfolding pseudo_legal_def Let_def CastlingKingside MoveKind.case by blast+
      have "castling_ok b" using assms(1) unfolding consistent_def by blast
      then have K: "cellAt b ?s = makeCell ?C King" using p(3) unfolding p(1) castling_ok_def by blast
      have ne: "?s \<noteq> ?d" unfolding p(1,2) by simp
      show ?thesis unfolding kp moveFromParsed_plain [OF sd(1,2) ne K] unfolding CastlingKingside p(1,2) by simp
    next
      case CastlingQueenside
      have p: "?s = castlingOffset ?C + 4" "?d = castlingOffset ?C + 2" "isQueensideCastling b ?C"
        using assms(2) unfolding pseudo_legal_def Let_def CastlingQueenside MoveKind.case by blast+
      have "castling_ok b" using assms(1) unfolding consistent_def by blast
      then have K: "cellAt b ?s = makeCell ?C King" using p(3) unfolding p(1) castling_ok_def by blast
      have ne: "?s \<noteq> ?d" unfolding p(1,2) by simp
      show ?thesis unfolding kp moveFromParsed_plain [OF sd(1,2) ne K] unfolding CastlingQueenside p(1,2) by simp
    qed (use np assms(2) in \<open>simp_all add: isMoveKindPromote_def pseudo_legal_def Let_def\<close>)
  qed
  then show ?thesis using mp m by simp
qed

section \<open>Buffers\<close>

lemma length_to_chars_u16: "length (to_chars (unat (v :: u16))) \<le> 5"
proof (cases "unat v = 0")
  case False
  have "unat v < 2 ^ 16" using unsigned_less [of v] by simp
  then have "unat v < 10 ^ 5" by simp
  then have "(10 :: nat) ^ (length (to_chars (unat v)) - 1) < 10 ^ 5" using length_to_chars [OF False] by linarith
  then have "length (to_chars (unat v)) - 1 < 5" by (rule pow10_lessD)
  then show ?thesis by simp
qed (simp add: to_chars.simps)

lemma length_row_chars: "0 \<le> e \<Longrightarrow> e \<le> j \<Longrightarrow> j \<le> 8 \<Longrightarrow> int (length (row_chars b i j e)) \<le> 8 - j + (if e = 0 then 0 else 1)"
proof (induction "nat (8 - j)" arbitrary: j e)
  case 0
  then show ?case by (subst row_chars.simps) auto
next
  case (Suc n)
  have "int (length (row_chars b i (j + 1) (e + 1))) \<le> 8 - (j + 1) + 1"
    "int (length (row_chars b i (j + 1) 0)) \<le> 8 - (j + 1)"
    using Suc(1) [of "j + 1" "e + 1"] Suc(1) [of "j + 1" 0] Suc(2-) by auto
  then show ?case using Suc(2-) by (subst row_chars.simps) auto
qed

lemma length_fen_cells: "length (foldl (fen_row b) [] [0..7]) \<le> 71"
proof -
  have r: "length (row_chars b i 0 0) \<le> 8" for i using length_row_chars [of 0 0 b i] by simp
  have l: "[1..7] = [1, 2, 3, 4, 5, 6, 7 :: int]" by (simp add: upto_rec1)
  show ?thesis unfolding fen_rows l
    using r [of 0] r [of 1] r [of 2] r [of 3] r [of 4] r [of 5] r [of 6] r [of 7] by simp
qed

lemma length_asFen: "length (asFen b) < 120"
proof -
  have "length (fen_castling b) \<le> 4" "length (fen_enpassant b) \<le> 2"
    by (simp_all add: fen_castling_def fen_enpassant_def)
  then show ?thesis
    using length_fen_cells [of b] length_to_chars_u16 [of "moveCounter b"] length_to_chars_u16 [of "moveNumber b"]
    by (simp add: asFen_def)
qed

lemma length_cellToUtf8: "length (cellToUtf8 c) \<le> 3"
proof -
  have "list_all (\<lambda>c. length (cellToUtf8 c) \<le> 3) [0..15]" by code_simp
  then have "0 \<le> c \<Longrightarrow> c \<le> 15 \<Longrightarrow> ?thesis" by (rule list_all_uptoD)
  then show ?thesis by (cases "0 \<le> c \<and> c \<le> 15") (auto simp: cellToUtf8_def)
qed

lemma length_concat_le: "(\<And>x. x \<in> set xs \<Longrightarrow> length (f x) \<le> n) \<Longrightarrow> length (concat (map f xs)) \<le> n * length xs"
proof (induction xs)
  case (Cons a xs)
  then have "length (f a) \<le> n" "length (concat (map f xs)) \<le> n * length xs" by auto
  then show ?case by simp
qed simp

lemma length_asPretty:
  "length (asPretty b Ascii) < 120" "length (asPretty b Utf8) < 300"
proof -
  have a: "length (concat (map (\<lambda>i. [xSubToChar i] @ vert_line Ascii @
         concat (map (\<lambda>j. let cell = cellAt b (makeCoord i j)
           in case Ascii of Ascii \<Rightarrow> [cellToChar cell] | Utf8 \<Rightarrow> cellToUtf8 cell) [0..7]) @ [CHR 0x0A]) [0..7])) \<le> 11 * length [0..7]"
    by (rule length_concat_le) (simp add: vert_line_def pretty_char_def length_concat Let_def comp_def sum_list_triv)
  show "length (asPretty b Ascii) < 120"
    using a by (simp add: asPretty_def boardAsPrettyImpl_def vert_line_def horz_line_def pretty_char_def length_concat comp_def sum_list_triv)
  have u: "length (concat (map (\<lambda>j. let cell = cellAt b (makeCoord i j)
      in case Utf8 of Ascii \<Rightarrow> [cellToChar cell] | Utf8 \<Rightarrow> cellToUtf8 cell) [0..7])) \<le> 3 * length [0..7]" for i
    by (rule length_concat_le) (simp add: length_cellToUtf8)
  have "length (concat (map (\<lambda>i. [xSubToChar i] @ vert_line Utf8 @
         concat (map (\<lambda>j. let cell = cellAt b (makeCoord i j)
           in case Utf8 of Ascii \<Rightarrow> [cellToChar cell] | Utf8 \<Rightarrow> cellToUtf8 cell) [0..7]) @ [CHR 0x0A]) [0..7])) \<le> 29 * length [0..7]"
    by (rule length_concat_le) (use u in \<open>simp add: vert_line_def pretty_char_def\<close>)
  then show "length (asPretty b Utf8) < 300"
    by (simp add: asPretty_def boardAsPrettyImpl_def vert_line_def horz_line_def pretty_char_def length_concat comp_def sum_list_triv)
qed

lemma length_moveToStr: "length (moveToStr m) < 6"
  by (simp add: moveToStr_def)

end
