(* ===== verification/Fen_Valid.thy ===== *)
theory Fen_Valid
  imports Fen_Roundtrip Movegen_Attacks
begin

text \<open>
  Every board the parser accepts is consistent, and \<^verbatim>\<open>validate\<close> accepts exactly the boards with the
  right shape and the right pieces.
\<close>

section \<open>Accepted boards are consistent\<close>

lemma parse_cells_valid:
  "length (cells b) = 64 \<Longrightarrow> 0 \<le> x \<Longrightarrow> x < 8 \<Longrightarrow> 0 \<le> y \<Longrightarrow> y \<le> 8 \<Longrightarrow> cur = 8 * x + y \<Longrightarrow>
    \<forall>k. 0 \<le> k \<longrightarrow> k < cur \<longrightarrow> isCellValid (cells b ! nat k) \<Longrightarrow>
    parse_cells b x y cur fen = Some (Inr rest, b') \<Longrightarrow>
    length (cells b') = 64 \<and> (\<forall>k. 0 \<le> k \<longrightarrow> k < 64 \<longrightarrow> isCellValid (cells b' ! nat k))"
proof (induction b x y cur fen rule: parse_cells.induct)
  case (1 b x y cur)
  then show ?case by (simp split: if_splits)
next
  case (2 b x y cur c fen)
  let ?dig = "charVal (CHR ''1'') \<le> charVal c \<and> charVal c \<le> charVal (CHR ''8'')"
  let ?a = "charVal c - charVal (CHR ''0'')"
  consider (digit) "?dig" "y + ?a \<le> 8"
    | (slash) "\<not> ?dig" "c = CHR ''/''" "\<not> y \<noteq> 8" "\<not> \<not> x + 1 < 8"
    | (space) "\<not> ?dig" "c \<noteq> CHR ''/''" "c = CHR '' ''" "\<not> y \<noteq> 8" "\<not> x \<noteq> 7"
    | (piece) p where "\<not> ?dig" "c \<noteq> CHR ''/''" "c \<noteq> CHR '' ''" "y < 8" "fen_piece (asciiToLower c) = Some p"
    using 2(11) by (simp add: Let_def split: if_splits option.splits)
  then show ?case
  proof cases
    case digit
    have v: "charVal (CHR ''0'') = 48" "charVal (CHR ''1'') = 49" by code_simp+
    have a: "0 \<le> ?a" using digit unfolding v by linarith
    obtain cs where cs: "put_empty (nat ?a) b cur = Some (b\<lparr>cells := cs\<rparr>)" "length cs = 64"
        "\<And>n. n < 64 \<Longrightarrow> cs ! n = (if cur \<le> int n \<and> int n < cur + int (nat ?a) then EMPTY_CELL else cells b ! n)"
      using put_empty_eq [of cur "nat ?a" b] 2(4-9) digit(2) a by auto
    have val: "\<forall>k. 0 \<le> k \<longrightarrow> k < cur + ?a \<longrightarrow> isCellValid (cells (b\<lparr>cells := cs\<rparr>) ! nat k)"
    proof (intro allI impI)
      fix k assume k: "0 \<le> k" "k < cur + ?a"
      then have n: "nat k < 64" using 2(4-9) digit(2) by linarith
      show "isCellValid (cells (b\<lparr>cells := cs\<rparr>) ! nat k)"
        using cs(3) [OF n] k a 2(10) by (cases "k < cur") simp_all
    qed
    have p: "parse_cells (b\<lparr>cells := cs\<rparr>) x (y + ?a) (cur + ?a) fen = Some (Inr rest, b')"
      using 2(11) digit cs(1) by (simp add: Let_def)
    show ?thesis using 2(1) [OF digit(1) refl _ cs(1) _ 2(5,6) _ _ _ val p] digit(2) a cs(2) 2(7,9) by simp
  next
    case slash
    have p: "parse_cells b (x + 1) 0 cur fen = Some (Inr rest, b')"
      using 2(11) slash by (simp split: if_splits)
    show ?thesis using 2(2) [OF slash 2(4) _ _ _ _ _ 2(10) p] slash 2(5-9) by simp
  next
    case space
    then show ?thesis using 2(4-11) by (simp split: if_splits)
  next
    case (piece p)
    let ?col = "if c = asciiToLower c then Black else White"
    let ?b = "setCell b cur (makeCell ?col p)"
    have cur: "0 \<le> cur" "cur < 64" using 2(5-9) piece(4) by linarith+
    have pc: "put_cell b cur (makeCell ?col p) = Some ?b" using cur by (simp add: put_cell_def)
    have q: "parse_cells ?b x (y + 1) (cur + 1) fen = Some (Inr rest, b')"
      using 2(11) unfolding parse_cells_piece [OF piece cur] .
    have val: "\<forall>k. 0 \<le> k \<longrightarrow> k < cur + 1 \<longrightarrow> isCellValid (cells ?b ! nat k)"
    proof (intro allI impI)
      fix k assume k: "0 \<le> k" "k < cur + 1"
      show "isCellValid (cells ?b ! nat k)"
        using k 2(10) 2(4) cur by (cases "k = cur") (auto simp: setCell_simps(1) nth_list_update nat_eq_iff simp del: makeCell_values)
    qed
    have l: "length (cells ?b) = 64" using 2(4) by (simp add: setCell_simps(1))
    show ?thesis using 2(3) [OF piece(1-3) _ refl piece(5) refl pc l 2(5,6) _ _ _ val q] piece(4) 2(7,9) by simp
  qed
qed

lemma consume_space_cases: "consume_space b fen = (Inr rest, b') \<Longrightarrow> b' = b"
  by (auto simp: consume_space_def split: list.splits if_splits)

lemma parse_castling_loop_flags:
  "castling b AND Castling_All = castling b \<Longrightarrow> parse_castling_loop b h fen = (Inr rest, b') \<Longrightarrow>
    castling b' AND Castling_All = castling b' \<and> b' = b\<lparr>castling := castling b'\<rparr>"
proof (induction b h fen rule: parse_castling_loop.induct)
  case (2 b h c fen)
  have step: "castling (setKingsideCastling b col) AND Castling_All = castling (setKingsideCastling b col)"
    "castling (setQueensideCastling b col) AND Castling_All = castling (setQueensideCastling b col)" for col
    using set_castling_All 2(5) by blast+
  have rest: "(setKingsideCastling b col)\<lparr>castling := f\<rparr> = b\<lparr>castling := f\<rparr>"
    "(setQueensideCastling b col)\<lparr>castling := f\<rparr> = b\<lparr>castling := f\<rparr>" for col f
    by (simp_all add: setKingsideCastling_def setQueensideCastling_def)
  show ?case using 2 step by (simp add: rest split: if_split_asm del: isCastling_bits)
qed simp

lemma parse_castling_flags:
  assumes "parse_castling b fen = (Inr rest, b')"
  shows "castling b' AND Castling_All = castling b' \<and> b' = b\<lparr>castling := castling b'\<rparr>"
proof -
  have "castling b' AND Castling_All = castling b' \<and> b' = (clearCastling b)\<lparr>castling := castling b'\<rparr>"
    using assms parse_castling_loop_flags [OF set_castling_All(3) [of b], of False fen rest b'] set_castling_All(3) [of b]
      consume_space_cases [of "clearCastling b"]
    by (fastforce simp: parse_castling_def Let_def split: list.splits if_splits)
  then show ?thesis by (simp add: clearCastling_def)
qed

lemma ySub_range: "isYCharValid c \<Longrightarrow> 0 \<le> charToSubY c \<and> charToSubY c < 8"
proof -
  have "charVal (CHR ''a'') = 97" "charVal (CHR ''h'') = 104" by code_simp+
  then show "isYCharValid c \<Longrightarrow> ?thesis" by (simp add: isYCharValid_def charToSubY_def)
qed

lemma parse_enpassant_shape:
  assumes "parse_enpassant b fen = (Inr rest, b')"
  shows "(enpassantCoord b' = INVALID_COORD \<or>
      isCoord (enpassantCoord b') \<and> coordX (enpassantCoord b') = enpassantSrcRow (side b)) \<and>
    b' = b\<lparr>enpassantCoord := enpassantCoord b'\<rparr>"
proof -
  have e: "isCoord (makeCoord (enpassantSrcRow C) (charToSubY l))" "coordX (makeCoord (enpassantSrcRow C) (charToSubY l)) = enpassantSrcRow C"
    if "isYCharValid l" for C l
    using ySub_range [OF that] by (simp_all, cases C) (simp_all add: enpassantSrcRow_def)
  show ?thesis
    using assms e
    by (auto simp: parse_enpassant_def Let_def consume_space_def split: list.splits if_splits)
qed

lemma and_then_Inr:
  "and_then r f = (Inr rest, b') \<Longrightarrow> \<exists>rest0 b0. r = (Inr rest0, b0) \<and> f b0 rest0 = (Inr rest, b')"
  by (auto simp: and_then_def split: prod.splits sum.splits)

lemma parse_fields_shape:
  assumes "parse_fields (Inr s, a) = (Inr rest, b')"
  shows "cells b' = cells a \<and> castling b' AND Castling_All = castling b' \<and>
    (enpassantCoord b' = INVALID_COORD \<or>
      isCoord (enpassantCoord b') \<and> coordX (enpassantCoord b') = enpassantSrcRow (side b'))"
proof -
  obtain r1 b1 r2 b2 r3 b3 r4 b4 where s: "parse_side a s = (Inr r1, b1)" "parse_castling b1 r1 = (Inr r2, b2)"
      "parse_enpassant b2 r2 = (Inr r3, b3)" "parse_move_counter b3 r3 = (Inr r4, b4)" "parse_move_number b4 r4 = (Inr rest, b')"
    using assms unfolding parse_fields_def by (auto dest!: and_then_Inr)
  have 1: "cells b1 = cells a"
    using s(1) by (auto simp: parse_side_def consume_space_def split: list.splits if_splits)
  note 2 = parse_castling_flags [OF s(2)]
  note 3 = parse_enpassant_shape [OF s(3)]
  have 4: "b4 = b3\<lparr>moveCounter := moveCounter b4\<rparr>"
    using s(4) by (auto simp: parse_move_counter_def consume_space_def split: option.splits list.splits if_splits)
  have 5: "b' = b4\<lparr>moveNumber := moveNumber b'\<rparr>"
    using s(5) by (auto simp: parse_move_number_def Let_def split: option.splits if_splits)
  have cells: "cells b' = cells a" by (subst 5, simp, subst 4, simp, subst 3 [THEN conjunct2], simp, subst 2 [THEN conjunct2], simp add: 1)
  have eq: "castling b' = castling b2" "enpassantCoord b' = enpassantCoord b3" "side b' = side b2"
    by (subst 5, simp, subst 4, simp, subst 3 [THEN conjunct2], simp, (subst 5, simp, subst 4, simp),
        subst 5, simp, subst 4, simp, subst 3 [THEN conjunct2], simp)
  show ?thesis using cells 2 3 unfolding eq by blast
qed

text \<open>No stage reports success as an error.\<close>

definition err_ok :: "parse_result \<Rightarrow> bool" where
  "err_ok r \<longleftrightarrow> fst r \<noteq> Inl Fen_Ok"

lemma err_ok_pair: "err_ok (Inl e, b) \<longleftrightarrow> e \<noteq> Fen_Ok" "err_ok (Inr s, b)"
  by (simp_all add: err_ok_def)

lemma err_ok_and_then: "err_ok r \<Longrightarrow> (\<And>b s. err_ok (f b s)) \<Longrightarrow> err_ok (and_then r f)"
  by (auto simp: err_ok_def and_then_def split: prod.splits sum.splits)

lemma err_ok_castling_loop: "err_ok (parse_castling_loop b h s)"
  by (induction b h s rule: parse_castling_loop.induct) (auto simp: err_ok_def simp del: isCastling_bits)

lemma err_ok_consume: "err_ok (consume_space b s)"
  by (simp add: err_ok_def consume_space_def split: list.splits)

lemma err_ok_stages:
  "err_ok (parse_side b s)" "err_ok (parse_castling b s)" "err_ok (parse_enpassant b s)"
  "err_ok (parse_move_counter b s)" "err_ok (parse_move_number b s)"
  by (simp_all add: parse_side_def parse_castling_def parse_enpassant_def parse_move_counter_def parse_move_number_def Let_def
      err_ok_consume err_ok_castling_loop err_ok_pair split: list.split option.split)

lemma err_ok_fields: "err_ok r \<Longrightarrow> err_ok (parse_fields r)"
  unfolding parse_fields_def by (intro err_ok_and_then err_ok_stages)

lemma err_ok_cells: "parse_cells b x y cur s = Some r \<Longrightarrow> err_ok r"
proof (induction b x y cur s rule: parse_cells.induct)
  case (2 b x y cur c fen)
  note p = 2(4)
  show ?case
  proof (cases "charVal (CHR ''1'') \<le> charVal c \<and> charVal c \<le> charVal (CHR ''8'')")
    case True
    show ?thesis
    proof (cases "y + (charVal c - charVal (CHR ''0'')) \<le> 8")
      case le: True
      then obtain b1 where "put_empty (nat (charVal c - charVal (CHR ''0''))) b cur = Some b1"
          "parse_cells b1 x (y + (charVal c - charVal (CHR ''0''))) (cur + (charVal c - charVal (CHR ''0''))) fen = Some r"
        using p True by (auto simp: Let_def bind_eq_Some_conv)
      then show ?thesis using 2(1) [OF True refl] le by blast
    next
      case False
      then show ?thesis using p True by (auto simp: Let_def err_ok_def)
    qed
  next
    case nd: False
    show ?thesis
    proof (cases "c = CHR ''/'' \<or> c = CHR '' '' \<or> \<not> y < 8")
      case True
      then show ?thesis using p nd 2(2) [OF nd] by (auto simp: err_ok_def split: if_splits)
    next
      case False
      then show ?thesis
        using p nd 2(3) [OF nd _ _ _ refl _ refl] by (auto simp: err_ok_def Let_def bind_eq_Some_conv split: option.splits)
    qed
  qed
qed (auto simp: err_ok_def split: if_splits)

lemma setFromFen_consistent_eq:
  assumes "length (cells b0) = 64" "setFromFen z b0 fen = Some (Fen_Ok, b)"
  shows "consistent z b"
proof -
  obtain r a where p: "parse_cells (b0\<lparr>unused := 0\<rparr>) 0 0 0 fen = Some (r, a)"
      "(case parse_fields (r, a) of (Inl e, b) \<Rightarrow> (e, b) | (Inr rest, b) \<Rightarrow> (Fen_Ok, update z b)) = (Fen_Ok, b)"
    using assms(2) by (auto simp: setFromFen_def)
  have "err_ok (parse_fields (r, a))" by (rule err_ok_fields [OF err_ok_cells [OF p(1)]])
  then obtain rest b1 where f: "parse_fields (r, a) = (Inr rest, b1)" "b = update z b1"
    using p(2) by (auto simp: err_ok_def split: prod.splits sum.splits)
  then obtain s where r: "r = Inr s" by (cases r) (simp_all add: parse_fields_def and_then_def)
  have c: "length (cells a) = 64" "\<forall>k. 0 \<le> k \<longrightarrow> k < 64 \<longrightarrow> isCellValid (cells a ! nat k)"
    using parse_cells_valid [OF _ _ _ _ _ _ _ p(1) [unfolded r]] assms(1) by simp_all
  have "board_shape b1"
    using parse_fields_shape [OF f(1) [unfolded r]] c by (simp add: board_shape_def cellAt_def isCoord_def)
  then show ?thesis unfolding f(2) by (rule update_consistent)
qed

section \<open>Validation\<close>

lemma validate_data_iff: "length (cells b) = 64 \<Longrightarrow> validate_data b = Validate_Ok \<longleftrightarrow> board_shape b"
proof -
  assume l: "length (cells b) = 64"
  have "list_all isCellValid (cells b) \<longleftrightarrow> (\<forall>c. isCoord c \<longrightarrow> isCellValid (cellAt b c))"
  proof
    assume "list_all isCellValid (cells b)"
    then show "\<forall>c. isCoord c \<longrightarrow> isCellValid (cellAt b c)"
      using l by (auto simp: list_all_length cellAt_def isCoord_def)
  next
    assume r: "\<forall>c. isCoord c \<longrightarrow> isCellValid (cellAt b c)"
    have "isCellValid (cells b ! n)" if "n < 64" for n
      using r [rule_format, of "int n"] that by (simp add: cellAt_def isCoord_def)
    then show "list_all isCellValid (cells b)" using l by (simp add: list_all_length)
  qed
  then show ?thesis using l by (auto simp: validate_data_def board_shape_def isCoord_def)
qed

definition pieces_of :: "board \<Rightarrow> color \<Rightarrow> coord set" where
  "pieces_of b C = {c. isCoord c \<and> (\<exists>P. cellAt b c = makeCell C P)}"

lemma squares_color:
  assumes "board_shape b" "bb_ok b"
  shows "squares (bbWhite b) = pieces_of b White" "squares (bbBlack b) = pieces_of b Black"
proof -
  have c: "(cellAt b c \<noteq> EMPTY_CELL \<and> cellPieceColor (cellAt b c) = C) = (\<exists>P. cellAt b c = makeCell C P)" if "isCoord c" for c C
  proof -
    have "isCellValid (cellAt b c)" using assms(1) that unfolding board_shape_def by blast
    then show ?thesis unfolding isCellValid_iff by (auto simp del: makeCell_values)
  qed
  show "squares (bbWhite b) = pieces_of b White" "squares (bbBlack b) = pieces_of b Black"
    using assms(2) c by (auto simp: squares_def pieces_of_def bb_ok_def)
qed

lemma king_bb: "bb_ok b \<Longrightarrow> squares (pieceBB b (makeCell C P)) = {c. isCoord c \<and> cellAt b c = makeCell C P}"
  by (auto simp: squares_def bit_pieceBB)

lemma one_king_iff:
  assumes "bb_ok b"
  shows "(\<exists>k. one_king b C k) \<longleftrightarrow> popcount (pieceBB b (makeCell C King)) = 1"
proof -
  have "popcount (pieceBB b (makeCell C King)) = 1 \<longleftrightarrow> (\<exists>k. {c. isCoord c \<and> cellAt b c = makeCell C King} = {k})"
    unfolding popcount_squares king_bb [OF assms] One_nat_def card_1_singleton_iff ..
  also have "\<dots> \<longleftrightarrow> (\<exists>k. one_king b C k)" unfolding one_king_def set_eq_iff by blast
  finally show ?thesis by simp
qed

definition edge_rows :: bitboard where "edge_rows = 0xff000000000000ff"

lemma bit_edge_rows: "isCoord c \<Longrightarrow> bit edge_rows (nat c) \<longleftrightarrow> coordX c = 0 \<or> coordX c = 7"
proof -
  have "list_all (\<lambda>c. bit edge_rows (nat c) \<longleftrightarrow> coordX c = 0 \<or> coordX c = 7) [0..63]" by code_simp
  then show "isCoord c \<Longrightarrow> ?thesis" by (rule list_all_coordD)
qed

lemma all_colors: "(\<forall>C. P C) \<longleftrightarrow> P White \<and> P Black"
  by (metis color.exhaust)

lemma pawns_iff:
  assumes "bb_ok b"
  shows "(pieceBB b (makeCell White Pawn) OR pieceBB b (makeCell Black Pawn)) AND 0xff000000000000ff = 0 \<longleftrightarrow>
    (\<forall>c C. isCoord c \<longrightarrow> cellAt b c = makeCell C Pawn \<longrightarrow> coordX c \<noteq> 0 \<and> coordX c \<noteq> 7)"
proof -
  have "(pieceBB b (makeCell White Pawn) OR pieceBB b (makeCell Black Pawn)) AND edge_rows = 0 \<longleftrightarrow>
      (\<forall>c. isCoord c \<longrightarrow> \<not> (bit (pieceBB b (makeCell White Pawn) OR pieceBB b (makeCell Black Pawn)) (nat c) \<and> bit edge_rows (nat c)))"
    unfolding squares_empty_iff by (auto simp: squares_def bit_and_iff)
  also have "\<dots> \<longleftrightarrow> (\<forall>c. isCoord c \<longrightarrow> (cellAt b c = makeCell White Pawn \<or> cellAt b c = makeCell Black Pawn) \<longrightarrow>
      coordX c \<noteq> 0 \<and> coordX c \<noteq> 7)"
    using bit_edge_rows bit_pieceBB [OF assms] by (simp add: bit_or_iff del: makeCell_values) blast
  also have "\<dots> \<longleftrightarrow> (\<forall>c C. isCoord c \<longrightarrow> cellAt b c = makeCell C Pawn \<longrightarrow> coordX c \<noteq> 0 \<and> coordX c \<noteq> 7)"
  proof -
    have "(isCoord c \<longrightarrow> (cellAt b c = makeCell White Pawn \<or> cellAt b c = makeCell Black Pawn) \<longrightarrow> R) \<longleftrightarrow>
        (\<forall>C. isCoord c \<longrightarrow> cellAt b c = makeCell C Pawn \<longrightarrow> R)" for c R
      unfolding all_colors [of "\<lambda>C. isCoord c \<longrightarrow> cellAt b c = makeCell C Pawn \<longrightarrow> R"] by blast
    then show ?thesis by (simp only:)
  qed
  finally show ?thesis by (simp only: edge_rows_def)
qed

text \<open>The contract of \<^verbatim>\<open>validate\<close>, on the cells alone except for the check of the opponent's king.\<close>

definition valid_position :: "board \<Rightarrow> bool" where
  "valid_position b \<longleftrightarrow> (\<forall>C. card (pieces_of b C) \<le> 16) \<and> (\<forall>C. \<exists>k. one_king b C k) \<and>
     (\<forall>c C. isCoord c \<longrightarrow> cellAt b c = makeCell C Pawn \<longrightarrow> coordX c \<noteq> 0 \<and> coordX c \<noteq> 7) \<and>
     (\<forall>k s. one_king b (invert (side b)) k \<longrightarrow> isCoord s \<longrightarrow> \<not> attacker (bbAll b) b (side b) s k)"

lemma wasMoveLegal_kings:
  assumes "bb_ok b" "\<forall>C. \<exists>k. one_king b C k"
  shows "wasMoveLegal b \<longleftrightarrow> (\<forall>k s. one_king b (invert (side b)) k \<longrightarrow> isCoord s \<longrightarrow> \<not> attacker (bbAll b) b (side b) s k)"
proof -
  obtain k where k: "one_king b (invert (side b)) k" using assms(2) by blast
  then have kc: "isCoord k" by (simp add: one_king_def)
  have u: "one_king b (invert (side b)) k' \<longleftrightarrow> k' = k" for k'
    using k unfolding one_king_def by blast
  show ?thesis
    unfolding wasMoveLegal_def Let_def one_king_pos [OF assms(1) k] isCellAttacked_iff [OF assms(1) kc] u by blast
qed

lemma validate_position_iff:
  assumes "consistent z b"
  shows "validate_position b = Validate_Ok \<longleftrightarrow> valid_position b"
proof -
  have sh: "board_shape b" "bb_ok b" using assms by (simp_all add: consistent_def)
  have pc: "popcount (bbWhite b) = card (pieces_of b White)" "popcount (bbBlack b) = card (pieces_of b Black)"
    by (simp_all add: popcount_squares squares_color [OF sh])
  let ?K = "\<lambda>C. pieceBB b (makeCell C King)"
  have z: "popcount (0 :: bitboard) = 0" by (simp add: popcount_squares squares_def)
  have "validate_position b = Validate_Ok \<longleftrightarrow> card (pieces_of b White) \<le> 16 \<and> card (pieces_of b Black) \<le> 16 \<and>
      popcount (?K White) = 1 \<and> popcount (?K Black) = 1 \<and>
      (pieceBB b (makeCell White Pawn) OR pieceBB b (makeCell Black Pawn)) AND 0xff000000000000ff = 0 \<and> wasMoveLegal b"
    unfolding validate_position_def Let_def pc by (auto simp: z)
  also have "\<dots> \<longleftrightarrow> (\<forall>C. card (pieces_of b C) \<le> 16) \<and> (\<forall>C. \<exists>k. one_king b C k) \<and>
      (\<forall>c C. isCoord c \<longrightarrow> cellAt b c = makeCell C Pawn \<longrightarrow> coordX c \<noteq> 0 \<and> coordX c \<noteq> 7) \<and> wasMoveLegal b"
    unfolding pawns_iff [OF sh(2)] all_colors [of "\<lambda>C. card (pieces_of b C) \<le> 16"]
      one_king_iff [OF sh(2)] unfolding all_colors [of "\<lambda>C. popcount (?K C) = 1"] by blast
  also have "\<dots> \<longleftrightarrow> valid_position b"
    unfolding valid_position_def using wasMoveLegal_kings [OF sh(2)] by blast
  finally show ?thesis .
qed

lemma validate_iff:
  assumes "length (cells b) = 64"
  shows "fst (validate z b) = Validate_Ok \<longleftrightarrow> board_shape b \<and> valid_position (update z b)"
  using validate_data_iff [OF assms] validate_position_iff [OF update_consistent [of b z]]
  by (auto simp: validate_def Let_def)

end
