(* ===== verification/Text_Properties.thy ===== *)
theory Text_Properties
  imports Move_Text Fen_Valid Initial_Position
begin

text \<open>The properties of the text formats: strings, numbers, moves, positions, and of the validation of a board.\<close>

text \<open>C5: reading the notation that \<^verbatim>\<open>asFen\<close> wrote gives back the whole board, derived fields
  included, whatever the board held before.\<close>

theorem setFromFen_asFen:
  assumes "consistent z b" "unused b = 0" "length (cells b0) = 64"
  shows "setFromFen z b0 (asFen b) = Some (Fen_Ok, b) \<and> fromFen z b0 (asFen b) = Some (Inr b)"
  using setFromFen_asFen_eq [OF assms] by (simp add: fromFen_def)

lemma blank_length: "length (cells blank_board) = 64"
  by (simp add: blank_board_def)

lemma sample_unused: "unused sample_board = 0"
proof -
  have "unused (update z b) = unused b" if "board_shape b" for z b
  proof -
    have sa: "board_shape (update_castling (update_enpassant b))" using that by (intro update_castling_shape update_enpassant_shape)
    show ?thesis unfolding update_eq update_hash_eq
      by (simp, subst update_bitboards_eq(2) [OF sa], simp, subst update_castling_eq, simp)
  qed
  from this [OF initial_shape] show ?thesis unfolding sample_board_def initial_update by simp
qed

theorem setFromFen_asFen_witness: "setFromFen sample_zobrist blank_board (asFen sample_board) = Some (Fen_Ok, sample_board)"
  using setFromFen_asFen [OF sample_ok(2) sample_unused blank_length] by blast

text \<open>C6: for every input string the parser returns a result (no write outside the 64 cells, no
  failed assertion), and a board it accepts is consistent.\<close>

theorem setFromFen_safe:
  assumes "length (cells b0) = 64"
  shows "\<exists>r b. setFromFen z b0 fen = Some (r, b) \<and> (r = Fen_Ok \<longrightarrow> consistent z b)"
  using setFromFen_total [OF assms, of z fen] setFromFen_consistent_eq [OF assms, of z fen] by auto

theorem setFromFen_safe_witness:
  "setFromFen sample_zobrist blank_board ''8/8/8 w - - 0 1'' \<noteq> None"
  using setFromFen_safe [OF blank_length, of sample_zobrist "''8/8/8 w - - 0 1''"] by auto

text \<open>C7: \<^verbatim>\<open>validate\<close> accepts exactly the boards of the right shape with at most sixteen pieces and one
  king a side, no pawn on an edge row and the opponent's king not under attack; the board is then updated.\<close>

theorem validate_accepts_valid_positions:
  assumes "length (cells b) = 64"
  shows "(fst (validate z b) = Validate_Ok \<longleftrightarrow> board_shape b \<and> valid_position (update z b)) \<and>
    (fst (validate z b) = Validate_Ok \<longrightarrow> snd (validate z b) = update z b \<and> consistent z (update z b))"
proof -
  have "fst (validate z b) = Validate_Ok \<Longrightarrow> snd (validate z b) = update z b"
    by (simp add: validate_def Let_def split: if_splits)
  then show ?thesis using validate_iff [OF assms] update_consistent by blast
qed

theorem validate_witness:
  "fst (validate sample_zobrist blank_board) = Validate_Ok \<longleftrightarrow>
     board_shape blank_board \<and> valid_position (update sample_zobrist blank_board)"
  using validate_accepts_valid_positions [OF blank_length] by blast

text \<open>A pseudo-legal move written in the notation of the protocol is parsed back on its board,
  with its kind recovered from the position.\<close>

theorem moveParse_moveToStr:
  assumes "consistent z b" "pseudo_legal b m" "tag m = 0"
  shows "moveParse (moveToStr m) b = m"
  by (rule moveParse_moveToStr_eq [OF assms])

lemma sample_double: "pseudo_legal sample_board (mkMove PawnDoubleMove 52 36 0)"
  by (simp add: pseudo_legal_def mkMove_def cellAt_def sample_views initial_cells_def isCoord_def
      doubleMoveSrcRow_def pawnForwardDelta_def coordX_def EMPTY_CELL_def nth_append nth_Cons')

theorem moveParse_witness: "moveParse ''e2e4'' sample_board = mkMove PawnDoubleMove 52 36 0"
proof -
  have "tag (mkMove PawnDoubleMove 52 36 0) = 0" by (simp add: mkMove_def)
  then have "moveParse (moveToStr (mkMove PawnDoubleMove 52 36 0)) sample_board = mkMove PawnDoubleMove 52 36 0"
    by (rule moveParse_moveToStr [OF sample_ok(2) sample_double])
  moreover have "moveToStr (mkMove PawnDoubleMove 52 36 0) = ''e2e4''" by code_simp
  ultimately show ?thesis by simp
qed

text \<open>The texts fit the buffers reserved for them, terminator included: 120 bytes for the
  notation and the plain board, 300 for the board in UTF-8, 6 for a move.\<close>

theorem text_buffers_suffice:
  "length (asFen b) + 1 \<le> 120 \<and> length (asPretty b Ascii) + 1 \<le> 120 \<and> length (asPretty b Utf8) + 1 \<le> 300 \<and>
   length (moveToStr m) + 1 \<le> 6"
  using length_asFen [of b] length_asPretty [of b] length_moveToStr [of m] by simp

text \<open>\<^verbatim>\<open>wordWrap\<close> returns for every positive width; each line fits it and no visible character is lost
  or moved. For width zero and a text with a visible character it never returns.\<close>

theorem wordWrap_wraps:
  "(0 < width \<longrightarrow> (\<exists>ls. wordWrap s width = Some ls \<and> list_all (\<lambda>l. length l \<le> width) ls \<and>
      filter (\<lambda>c. c \<noteq> CHR '' '') (concat ls) = filter (\<lambda>c. c \<noteq> CHR '' '' \<and> c \<noteq> CHR 0x0A) s)) \<and>
   ((\<exists>c\<in>set s. c \<noteq> CHR '' '' \<and> c \<noteq> CHR 0x0A) \<longrightarrow> wordWrap s 0 = None)"
  using wordWrap_correct [of width s] wordWrap_zero [of _ s] by blast

theorem wordWrap_witness:
  "(\<exists>ls. wordWrap ''a bc'' 2 = Some ls \<and> list_all (\<lambda>l. length l \<le> 2) ls) \<and> wordWrap ''a'' 0 = None"
  using wordWrap_wraps [of 2 "''a bc''"] wordWrap_wraps [of 0 "''a''"] by auto

text \<open>Words separated by blanks are what \<^verbatim>\<open>split\<close> returns, and in general its tokens are non-empty,
  free of spaces and contain all other characters in order.\<close>

theorem split_tokens:
  "list_all word_ok (split s) \<and> concat (split s) = filter (\<lambda>c. \<not> isSpace c) s \<and>
   (list_all (\<lambda>(w, sep). word_ok w \<and> blank sep) ws \<longrightarrow> split (concat (map (\<lambda>(w, sep). w @ sep) ws)) = map fst ws)"
  using split_loop_tokens [of s] split_loop_spaced [of ws] by (simp add: split_def)

theorem split_tokens_witness: "split ''go  depth 3 '' = [''go'', ''depth'', ''3'']"
proof -
  have l: "list_all (\<lambda>(w, sep). word_ok w \<and> blank sep) [(''go'', ''  ''), (''depth'', '' ''), (''3'', '' '')]"
    by (simp add: word_ok_def blank_def isSpace_def)
  have "split (concat (map (\<lambda>(w, sep). w @ sep) [(''go'', ''  ''), (''depth'', '' ''), (''3'', '' '')])) =
      map fst [(''go'', ''  ''), (''depth'', '' ''), (''3'', '' '')]"
    using split_tokens [of _ "[(''go'', ''  ''), (''depth'', '' ''), (''3'', '' '')]"] l by blast
  then show ?thesis by simp
qed

text \<open>\<^verbatim>\<open>uintStrLen\<close> and \<^verbatim>\<open>intStrLen\<close> return for every 64-bit value the length of its decimal representation,
  and reading an unsigned representation below the bound gives the value back.\<close>

theorem decimal_lengths:
  "uintStrLen v = Some (of_nat (length (to_chars (unat v)))) \<and>
   intStrLen v = Some (of_nat (length (int_chars (sint v)))) \<and>
   valueFromStr (2 ^ 64) (to_chars (unat v)) = Some (unat v)"
  using uintStrLen_correct [of v] intStrLen_correct [of v] valueFromStr_to_chars [OF unat_u64_lt [of v]] by blast

end
