(* ===== verification/Move_Picker.thy ===== *)
theory Move_Picker
  imports Movegen_Complete Initial_Position "HOL-Library.Multiset"
begin

text \<open>
  The order in which the search tries moves (\<^verbatim>\<open>src/src/search/private/move_picker.h\<close>,
  \<^verbatim>\<open>move_picker.cpp\<close>) and the heuristics it consults (\<^verbatim>\<open>KillerLine\<close> and \<^verbatim>\<open>HistoryTable\<close> of
  \<^verbatim>\<open>util.h\<close>). The array of moves with its counter is a list. \<^verbatim>\<open>std::sort\<close> may order equal
  elements in any way, so it is an argument, known only to be a \<open>sorter\<close>.
\<close>

section \<open>Sorting\<close>

type_synonym move_sort = "(move \<Rightarrow> move \<Rightarrow> bool) \<Rightarrow> move list \<Rightarrow> move list"

text \<open>What the standard promises of \<^verbatim>\<open>std::sort\<close>: a permutation in which no element is less than an earlier one.\<close>

locale sorter =
  fixes srt :: "(move \<Rightarrow> move \<Rightarrow> bool) \<Rightarrow> move list \<Rightarrow> move list"
  assumes mset_srt: "mset (srt lt xs) = mset xs"
    and sorted_srt: "irreflp lt \<Longrightarrow> transp lt \<Longrightarrow> (\<And>x y z. lt x z \<Longrightarrow> lt x y \<or> lt y z) \<Longrightarrow>
      sorted_wrt (\<lambda>x y. \<not> lt y x) (srt lt xs)"
begin

lemma set_srt: "set (srt lt xs) = set xs"
  using mset_srt [of lt xs] by (metis set_mset_mset)

lemma length_srt: "length (srt lt xs) = length xs"
  using mset_srt [of lt xs] by (metis size_mset)

lemma srt_Nil: "srt lt [] = []"
  using length_srt [of lt "[]"] by simp

lemma distinct_srt: "distinct (srt lt xs) \<longleftrightarrow> distinct xs"
  using mset_srt [of lt xs] by (metis mset_eq_imp_distinct_iff)

text \<open>Sorting by a decreasing key.\<close>

lemma sorted_key:
  fixes f :: "move \<Rightarrow> 'b::linorder"
  shows "sorted_wrt (\<lambda>x y. f y \<le> f x) (srt (\<lambda>m1 m2. f m1 > f m2) xs)"
proof -
  have "sorted_wrt (\<lambda>x y. \<not> f y > f x) (srt (\<lambda>m1 m2. f m1 > f m2) xs)"
    by (rule sorted_srt) (auto simp: irreflp_def transp_def)
  then show ?thesis by (simp add: not_less)
qed

end

text \<open>Insertion sort is a sorter.\<close>

fun insert_by :: "(move \<Rightarrow> move \<Rightarrow> bool) \<Rightarrow> move \<Rightarrow> move list \<Rightarrow> move list" where
  "insert_by lt x [] = [x]"
| "insert_by lt x (y # ys) = (if lt y x then y # insert_by lt x ys else x # y # ys)"

definition insertion_sort :: "(move \<Rightarrow> move \<Rightarrow> bool) \<Rightarrow> move list \<Rightarrow> move list" where
  "insertion_sort lt xs = foldr (insert_by lt) xs []"

lemma mset_insert_by: "mset (insert_by lt x ys) = add_mset x (mset ys)"
  by (induction ys) auto

lemma set_insert_by: "set (insert_by lt x ys) = insert x (set ys)"
  by (induction ys) auto

lemma sorted_insert_by:
  assumes "irreflp lt" "transp lt" "\<And>x y z. lt x z \<Longrightarrow> lt x y \<or> lt y z"
  shows "sorted_wrt (\<lambda>x y. \<not> lt y x) ys \<Longrightarrow> sorted_wrt (\<lambda>x y. \<not> lt y x) (insert_by lt x ys)"
proof (induction ys)
  case (Cons y ys)
  show ?case
  proof (cases "lt y x")
    case True
    then have "\<not> lt x y" using assms(1,2) by (metis irreflpD transpD)
    then show ?thesis using True Cons by (simp add: set_insert_by)
  next
    case False
    have "\<not> lt z x" if "z \<in> set ys" for z
      using that Cons(2) assms(3) [of z x y] False by auto
    then show ?thesis using False Cons(2) by simp
  qed
qed simp

interpretation ins: sorter insertion_sort
proof unfold_locales
  show "mset (insertion_sort lt xs) = mset xs" for lt xs
    unfolding insertion_sort_def by (induction xs) (simp_all add: mset_insert_by)
  show "sorted_wrt (\<lambda>x y. \<not> lt y x) (insertion_sort lt xs)"
    if "irreflp lt" "transp lt" "\<And>x y z. lt x z \<Longrightarrow> lt x y \<or> lt y z" for lt xs
    unfolding insertion_sort_def by (induction xs) (simp_all add: sorted_insert_by that)
qed

section \<open>Killers and history\<close>

record killer_line =
  kl_first :: move
  kl_second :: move

definition no_killers :: killer_line where
  "no_killers = \<lparr>kl_first = move_null, kl_second = move_null\<rparr>"

definition killer_add :: "killer_line \<Rightarrow> move \<Rightarrow> killer_line" where
  "killer_add k m = (if move_eq m (kl_first k) then k else k\<lparr>kl_second := kl_first k, kl_first := m\<rparr>)"

type_synonym history_table = "u64 list"

definition TAB_SIZE :: nat where "TAB_SIZE = 64 * 64"

definition no_history :: history_table where
  "no_history = replicate TAB_SIZE 0"

definition indexOf :: "move \<Rightarrow> nat" where
  "indexOf m = nat (push_bit 6 (src m) OR dst m)"

definition history_get :: "history_table \<Rightarrow> move \<Rightarrow> u64" where
  "history_get tab m = tab ! indexOf m"

definition history_add :: "history_table \<Rightarrow> move \<Rightarrow> int \<Rightarrow> history_table" where
  "history_add tab m v = tab[indexOf m := history_get tab m + word_of_int v]"

section \<open>Most valuable victim, least valuable attacker\<close>

definition victimOrd :: "u8 list" where
  "victimOrd = [8, 8, 0, 16, 24, 32, 40, 0, 8, 8, 0, 16, 24, 32, 40, 0]"

definition attackerOrd :: "u8 list" where
  "attackerOrd = [0, 6, 1, 5, 4, 3, 2, 0, 0, 6, 1, 5, 4, 3, 2, 0]"

definition mvv_tag :: "board \<Rightarrow> move \<Rightarrow> u8" where
  "mvv_tag b m = victimOrd ! nat (cellAt b (dst m)) + attackerOrd ! nat (cellAt b (src m))"

definition sortMvvLva :: "move_sort \<Rightarrow> board \<Rightarrow> move list \<Rightarrow> move list" where
  "sortMvvLva srt b moves =
     map (\<lambda>m. m\<lparr>tag := 0\<rparr>) (srt (\<lambda>m1 m2. tag m1 > tag m2) (map (\<lambda>m. m\<lparr>tag := mvv_tag b m\<rparr>) moves))"

definition sort_promotes :: "move_sort \<Rightarrow> move list \<Rightarrow> move list" where
  "sort_promotes srt moves = srt (\<lambda>m1 m2. kindVal (kind m1) > kindVal (kind m2)) moves"

section \<open>The picker\<close>

datatype MovePickerStage = PStart | PHashMove | PCapture | PSimplePromote | PKiller | PHistory | PEnd

fun stageVal :: "MovePickerStage \<Rightarrow> nat" where
  "stageVal PStart = 0"
| "stageVal PHashMove = 1"
| "stageVal PCapture = 2"
| "stageVal PSimplePromote = 3"
| "stageVal PKiller = 4"
| "stageVal PHistory = 5"
| "stageVal PEnd = 6"

text \<open>The enumeration is ordered by its values, as \<^verbatim>\<open>SOF_ENUM_COMPARE\<close> makes it.\<close>

instantiation MovePickerStage :: linorder
begin

definition less_eq_MovePickerStage :: "MovePickerStage \<Rightarrow> MovePickerStage \<Rightarrow> bool" where
  "less_eq_MovePickerStage s t \<longleftrightarrow> stageVal s \<le> stageVal t"

definition less_MovePickerStage :: "MovePickerStage \<Rightarrow> MovePickerStage \<Rightarrow> bool" where
  "less_MovePickerStage s t \<longleftrightarrow> stageVal s < stageVal t"

instance
proof
  show "s \<le> t \<Longrightarrow> t \<le> s \<Longrightarrow> s = t" for s t :: MovePickerStage
    by (cases s; cases t) (simp_all add: less_eq_MovePickerStage_def)
qed (auto simp: less_eq_MovePickerStage_def less_MovePickerStage_def)

end

fun nextStageVal :: "MovePickerStage \<Rightarrow> MovePickerStage" where
  "nextStageVal PStart = PHashMove"
| "nextStageVal PHashMove = PCapture"
| "nextStageVal PCapture = PSimplePromote"
| "nextStageVal PSimplePromote = PKiller"
| "nextStageVal PKiller = PHistory"
| "nextStageVal PHistory = PEnd"
| "nextStageVal PEnd = PEnd"

record picker =
  pk_stage :: MovePickerStage
  pk_hash :: move
  pk_gen :: MoveGen
  pk_moves :: "move list"
  pk_saved :: "move \<times> move"
  pk_position :: nat

definition newMovePicker :: "board \<Rightarrow> move \<Rightarrow> picker" where
  "newMovePicker b hashMove =
     \<lparr>pk_stage = PStart, pk_hash = hashMove, pk_gen = newMoveGen b, pk_moves = [],
      pk_saved = (move_null, move_null), pk_position = 0\<rparr>"

definition isValidKiller :: "board \<Rightarrow> move \<Rightarrow> bool" where
  "isValidKiller b m \<longleftrightarrow> \<not> isMoveCapture b m \<and> \<not> isMoveKindPromote (kind m) \<and> isMoveValid b m"

text \<open>
  The killers and the history are references in the source: they are passed to each call, since the
  search below a move changes the history before the next move is asked for.
\<close>

definition stage_killers :: "killer_line \<Rightarrow> picker \<Rightarrow> move list" where
  "stage_killers k p = filter (isValidKiller (genBoard (pk_gen p))) [kl_first k, kl_second k]"

definition stage_history :: "move_sort \<Rightarrow> history_table \<Rightarrow> picker \<Rightarrow> move list" where
  "stage_history srt h p =
     map (\<lambda>m. if move_eq m (fst (pk_saved p)) \<or> move_eq m (snd (pk_saved p)) then move_null else m)
       (srt (\<lambda>m1 m2. history_get h m1 > history_get h m2) (genSimpleMovesNoPromote (pk_gen p)))"

text \<open>The body of the loop of \<^verbatim>\<open>nextStage\<close>, for the stage just entered.\<close>

definition fill_stage :: "move_sort \<Rightarrow> killer_line \<Rightarrow> history_table \<Rightarrow> picker \<Rightarrow> picker" where
  "fill_stage srt k h p =
     (case pk_stage p of
        PStart \<Rightarrow> p
      | PHashMove \<Rightarrow> if \<not> move_eq (pk_hash p) move_null then p\<lparr>pk_moves := [pk_hash p]\<rparr> else p
      | PCapture \<Rightarrow> p\<lparr>pk_moves := sortMvvLva srt (genBoard (pk_gen p)) (genCaptures (pk_gen p))\<rparr>
      | PSimplePromote \<Rightarrow> p\<lparr>pk_moves := sort_promotes srt (genSimplePromotes (pk_gen p))\<rparr>
      | PKiller \<Rightarrow> p\<lparr>pk_moves := stage_killers k p, pk_saved := (kl_first k, kl_second k)\<rparr>
      | PHistory \<Rightarrow> p\<lparr>pk_moves := stage_history srt h p\<rparr>
      | PEnd \<Rightarrow> p\<lparr>pk_moves := [move_invalid]\<rparr>)"

function nextStage_loop :: "move_sort \<Rightarrow> killer_line \<Rightarrow> history_table \<Rightarrow> picker \<Rightarrow> picker" where
  "nextStage_loop srt k h p =
     (let p' = fill_stage srt k h (p\<lparr>pk_stage := nextStageVal (pk_stage p)\<rparr>)
      in if pk_moves p' = [] then nextStage_loop srt k h p' else p')"
  by auto
termination
proof (relation "measure (\<lambda>(_, _, _, p). 6 - stageVal (pk_stage p))")
  fix srt k h p p' assume p: "p' = fill_stage srt k h (p\<lparr>pk_stage := nextStageVal (pk_stage p)\<rparr>)" "pk_moves p' = []"
  have "pk_stage p' = nextStageVal (pk_stage p)" unfolding p(1)
    by (auto simp: fill_stage_def split: MovePickerStage.splits)
  moreover have "pk_stage p' \<noteq> PEnd" using p by (auto simp: fill_stage_def split: MovePickerStage.splits if_splits)
  ultimately show "((srt, k, h, p'), srt, k, h, p) \<in> measure (\<lambda>(_, _, _, p). 6 - stageVal (pk_stage p))"
    by (cases "pk_stage p") auto
qed simp

declare nextStage_loop.simps [simp del]

definition nextStage :: "move_sort \<Rightarrow> killer_line \<Rightarrow> history_table \<Rightarrow> picker \<Rightarrow> picker" where
  "nextStage srt k h p = nextStage_loop srt k h (p\<lparr>pk_position := 0, pk_moves := []\<rparr>)"

definition next_move :: "move_sort \<Rightarrow> killer_line \<Rightarrow> history_table \<Rightarrow> picker \<Rightarrow> move \<times> picker" where
  "next_move srt k h p0 =
     (let p = (if pk_position p0 = length (pk_moves p0) then nextStage srt k h p0 else p0);
          m = pk_moves p ! pk_position p
      in (if pk_stage p \<noteq> PHashMove \<and> move_eq m (pk_hash p) then move_null else m,
          p\<lparr>pk_position := pk_position p + 1\<rparr>))"

section \<open>The picker of the quiescence search\<close>

datatype QStage = QCapture | QSimplePromote

record qpicker =
  qp_gen :: MoveGen
  qp_moves :: "move list"
  qp_position :: nat
  qp_stage :: QStage

definition newQuiescenseMovePicker :: "move_sort \<Rightarrow> board \<Rightarrow> qpicker" where
  "newQuiescenseMovePicker srt b =
     \<lparr>qp_gen = newMoveGen b, qp_moves = sortMvvLva srt b (genCaptures (newMoveGen b)), qp_position = 0, qp_stage = QCapture\<rparr>"

definition addSimplePromotes :: "move_sort \<Rightarrow> qpicker \<Rightarrow> qpicker" where
  "addSimplePromotes srt p = p\<lparr>qp_moves := sort_promotes srt (genSimplePromotes (qp_gen p)), qp_position := 0\<rparr>"

definition qnext_move :: "move_sort \<Rightarrow> qpicker \<Rightarrow> move \<times> qpicker" where
  "qnext_move srt p0 =
     (if qp_position p0 = length (qp_moves p0) then
        let p = (if qp_stage p0 = QCapture then addSimplePromotes srt (p0\<lparr>qp_stage := QSimplePromote\<rparr>) else p0)
        in if qp_position p = length (qp_moves p) then (move_invalid, p)
           else (qp_moves p ! qp_position p, p\<lparr>qp_position := qp_position p + 1\<rparr>)
      else (qp_moves p0 ! qp_position p0, p0\<lparr>qp_position := qp_position p0 + 1\<rparr>))"

section \<open>The picker of the root\<close>

text \<open>
  The moves the picker yields until \<^verbatim>\<open>Move::invalid()\<close>, null moves skipped; the first thread tries them in this
  order, another one reverses a prefix or, with more threads than moves, shuffles them. The shuffle draws
  random numbers: it is an argument.
\<close>

partial_function (option) collect_moves :: "move_sort \<Rightarrow> killer_line \<Rightarrow> history_table \<Rightarrow> picker \<Rightarrow> move list \<Rightarrow> move list option" where
  "collect_moves srt k h p moves =
     (let (m, p') = next_move srt k h p
      in if move_eq m move_invalid then Some moves
         else if move_eq m move_null then collect_moves srt k h p' moves
         else collect_moves srt k h p' (moves @ [m]))"

definition root_order :: "(move list \<Rightarrow> move list) \<Rightarrow> nat \<Rightarrow> move list \<Rightarrow> move list" where
  "root_order shuffle jobId moves =
     (if jobId = 0 then moves
      else if jobId < length moves then rev (take (jobId + 1) moves) @ drop (jobId + 1) moves
      else shuffle moves)"

definition newRootNodeMovePicker :: "move_sort \<Rightarrow> (move list \<Rightarrow> move list) \<Rightarrow> nat \<Rightarrow> killer_line \<Rightarrow> history_table \<Rightarrow> picker \<Rightarrow> move list option" where
  "newRootNodeMovePicker srt shuffle jobId k h p = map_option (root_order shuffle jobId) (collect_moves srt k h p [])"

end
