(* ===== verification/Movegen_Distinct.thy ===== *)
theory Movegen_Distinct
  imports Movegen_Complete
begin

text \<open>The move generator lists no move twice.\<close>

lemma distinct_concat_map:
  "distinct xs \<Longrightarrow> (\<And>x. x \<in> set xs \<Longrightarrow> distinct (f x)) \<Longrightarrow>
   (\<And>x y m. x \<in> set xs \<Longrightarrow> y \<in> set xs \<Longrightarrow> m \<in> set (f x) \<Longrightarrow> m \<in> set (f y) \<Longrightarrow> x = y) \<Longrightarrow> distinct (concat (map f xs))"
proof (induction xs)
  case (Cons x xs)
  have "set (f x) \<inter> set (concat (map f xs)) = {}" using Cons.prems(1) Cons.prems(3) [of x] by fastforce
  moreover have "distinct (concat (map f xs))" by (rule Cons.IH) (use Cons.prems in \<open>auto\<close>)
  ultimately show ?case using Cons.prems(2) [of x] by simp
qed simp

lemma distinct_append_part:
  fixes g :: "'a \<Rightarrow> nat"
  assumes "distinct xs" "\<forall>m \<in> set xs. g m = i" "distinct ys" "\<forall>m \<in> set ys. i < g m"
  shows "distinct (xs @ ys)"
  using assms by fastforce

lemma distinct_addPawn: "distinct (addPawnWithPromote pr s d)"
  by (simp add: addPawnWithPromote_def mkMove_def)

lemma distinct_pawn_moves: "distinct (concat (map (\<lambda>d. addPawnWithPromote pr (f d) d) (bbList w)))"
  by (rule distinct_concat_map [OF distinct_bbList distinct_addPawn]) (simp add: in_addPawn)

lemma distinct_move_list: "distinct (concat (map (\<lambda>s. map (\<lambda>d. mkMove k s d 0) (bbList (f s))) (bbList w)))"
  by (rule distinct_concat_map [OF distinct_bbList]) (auto simp: distinct_map inj_on_def mkMove_def distinct_bbList)

lemma sees_disjoint: "rook_sees occ s d \<Longrightarrow> bishop_sees occ s d \<Longrightarrow> False"
proof -
  assume "rook_sees occ s d" "bishop_sees occ s d"
  then have "s \<noteq> d" "coordX s = coordX d \<or> coordY s = coordY d" "coordDiag1 s = coordDiag1 d \<or> coordDiag2 s = coordDiag2 d"
    by (auto simp: rook_sees_def bishop_sees_def rook_aligned_def bishop_aligned_def)
  then show False using coord_eqI [of s d] by (auto simp: coordDiag1_def coordDiag2_def)
qed

lemma distinct_genPawnSimple:
  assumes b: "bb_ok b"
  shows "distinct (genPawnSimple C P b flt)"
proof -
  have k: "\<not> isMoveKindPromote Simple" "\<not> isMoveKindPromote PawnDoubleMove" by (simp_all add: isMoveKindPromote_def)
  have 1: "distinct (doGenPawnSingle C pr b w flt)" for pr w
    unfolding doGenPawnSingle_def Let_def by (rule distinct_pawn_moves)
  have 2: "distinct (doGenPawnDouble C b w flt)" for w
    unfolding doGenPawnDouble_def Let_def by (simp add: distinct_map inj_on_def mkMove_def distinct_bbList)
  have 3: "set (doGenPawnSingle C False b w flt) \<inter> set (doGenPawnDouble C b w' flt) = {}" for w w'
    by (auto simp: in_doGenPawnSingle [OF b] in_doGenPawnDouble [OF b])
  have 4: "set (doGenPawnSingle C False b w flt) \<inter> set (doGenPawnSingle C True b w' flt) = {}"
    "set (doGenPawnDouble C b w'' flt) \<inter> set (doGenPawnSingle C True b w' flt) = {}" for w w' w''
    using k by (auto simp: in_doGenPawnSingle [OF b] in_doGenPawnDouble [OF b])
  show ?thesis unfolding genPawnSimple_def Let_def using 3 4 by (cases P) (simp_all add: 1 2, blast)
qed

lemma distinct_doGenPawnCapture: "distinct (doGenPawnCapture C pr b w flt)"
proof -
  have "pawnLeftDelta C \<noteq> pawnRightDelta C" by (cases C) (simp_all add: pawnLeftDelta_def pawnRightDelta_def)
  then show ?thesis unfolding doGenPawnCapture_def Let_def distinct_append
    using distinct_pawn_moves by (auto simp: in_addPawn)
qed

lemma distinct_genPawnCapture:
  assumes b: "bb_ok b"
  shows "distinct (genPawnCapture C b flt)"
proof -
  have "\<not> isMoveKindPromote Simple" by (simp add: isMoveKindPromote_def)
  then have "set (doGenPawnCapture C False b w flt) \<inter> set (doGenPawnCapture C True b w' flt) = {}" for w w'
    by (auto simp: in_doGenPawnCapture [OF b, of _ _ _ _ _ 0] simp del: piece_attacks.simps)
  then show ?thesis unfolding genPawnCapture_def Let_def distinct_append using distinct_doGenPawnCapture by blast
qed

lemma distinct_genPawnEnpassant: "distinct (genPawnEnpassant C b)"
  by (simp add: genPawnEnpassant_def Let_def mkMove_def)

lemma distinct_genCastling: "distinct (genCastling C b)"
  by (auto simp: genCastling_def Let_def mkMove_def)

lemma distinct_pieces:
  "distinct (genKnightOrKing C P S Cp b flt)" "distinct (genBishopOrRook C P S Cp b w flt)"
  unfolding genKnightOrKing_def genBishopOrRook_def Let_def by (rule distinct_move_list)+

lemma distinct_genImplInner:
  assumes p: "position_ok b" and gen: "S \<or> Cp"
  shows "distinct (genImplInner (side b) S Cp SP b flt)"
proof -
  note B = position_okD(1) [OF p]
  let ?C = "side b"
  define PS PC PE KI KN BI RO CA where d:
    "PS = (if S then genPawnSimple ?C (if SP then PromoteAll else NoPromote) b flt else [])"
    "PC = (if Cp then genPawnCapture ?C b flt else [])" "PE = (if Cp then genPawnEnpassant ?C b else [])"
    "KI = genKnightOrKing ?C King S Cp b SimpleGenFilter" "KN = genKnightOrKing ?C Knight S Cp b flt"
    "BI = genBishopOrRook ?C Bishop S Cp b (bbDiagPieces ?C b) flt"
    "RO = genBishopOrRook ?C Rook S Cp b (bbLinePieces ?C b) flt"
    "CA = (if S \<and> GEN_CASTLING flt then genCastling ?C b else [])"
  have e: "genImplInner ?C S Cp SP b flt = PS @ PC @ PE @ KI @ KN @ BI @ RO @ CA"
    by (simp add: genImplInner_def d genKing_def genKnight_def genBishop_def genRook_def)
  define g where "g (m :: move) = (if kind m = Enpassant then 2 else if kind m = CastlingKingside \<or> kind m = CastlingQueenside then 7
    else if cellAt b (src m) = makeCell ?C Pawn then (if cellAt b (dst m) = EMPTY_CELL then 0 else 1)
    else if cellAt b (src m) = makeCell ?C King then 3 else if cellAt b (src m) = makeCell ?C Knight then 4
    else if rook_sees (bbAll b) (src m) (dst m) then 6 else (5 :: nat))" for m :: move
  have pr: "\<not> isMoveKindPromote Enpassant" "\<not> isMoveKindPromote CastlingKingside" "\<not> isMoveKindPromote CastlingQueenside"
    by (simp_all add: isMoveKindPromote_def)
  have G: "\<forall>m \<in> set PS. g m = 0" "\<forall>m \<in> set PC. g m = 1"
    using pr by (auto simp: d g_def in_genPawnSimple [OF B] in_genPawnCapture [OF B] simp del: makeCell_values piece_attacks.simps split: if_splits)
  have H: "\<forall>m \<in> set PE. g m = 2" "\<forall>m \<in> set CA. g m = 7"
    using in_genPawnEnpassant [OF p] in_genCastling [OF p] by (auto simp: d g_def split: if_splits)
  have I: "\<forall>m \<in> set KI. g m = 3" "\<forall>m \<in> set KN. g m = 4"
    by (auto simp: d g_def in_genKnightOrKing [OF B gen] simp del: makeCell_values piece_attacks.simps)
  have J: "\<forall>m \<in> set RO. g m = 6" "\<forall>m \<in> set BI. g m = 5"
    using sees_disjoint by (auto simp: d g_def in_genBishopOrRook [OF B gen] bit_pieces [OF B] simp del: makeCell_values)
  have "distinct PS" "distinct PC" "distinct PE" "distinct KI" "distinct KN" "distinct BI" "distinct RO" "distinct CA"
    using distinct_genPawnSimple [OF B] distinct_genPawnCapture [OF B] distinct_genPawnEnpassant distinct_pieces distinct_genCastling
    by (simp_all add: d)
  then show ?thesis unfolding e
    by (intro
        distinct_append_part [where g = g and xs = PS and i = 0]
        distinct_append_part [where g = g and xs = PC and i = 1]
        distinct_append_part [where g = g and xs = PE and i = 2]
        distinct_append_part [where g = g and xs = KI and i = 3]
        distinct_append_part [where g = g and xs = KN and i = 4]
        distinct_append_part [where g = g and xs = BI and i = 5]
        distinct_append_part [where g = g and xs = RO and i = 6])
      (simp_all add: ball_Un G H I J)
qed

lemma generators_distinct:
  assumes p: "position_ok b" and k: "one_king b (side b) kc"
  shows "distinct (genAllMoves (newMoveGen b))" "distinct (genCaptures (newMoveGen b))"
    "distinct (genSimplePromotes (newMoveGen b))" "distinct (genSimpleMovesNoPromote (newMoveGen b))"
    "distinct (genSimpleMoves (newMoveGen b))"
proof -
  note g = newMoveGen_cases(1) [OF p k]
  have s: "genSide (newMoveGen b) = side b" by (simp add: newMoveGen_def Let_def)
  have i: "distinct (genImpl (side b) S Cp SP (newMoveGen b))" if "S \<or> Cp" for S Cp SP
    using distinct_genImplInner [OF p that] distinct_pieces(1) unfolding genImpl_def g genKing_def by (simp split: CheckKind.split)
  have pr: "distinct (genSimplePromotesImpl (side b) (newMoveGen b))"
    using distinct_genPawnSimple [OF position_okD(1) [OF p]] unfolding genSimplePromotesImpl_def g by (simp split: CheckKind.split)
  have c: "(if side b = White then f White else f Black) = f (side b)" for f :: "color \<Rightarrow> move list" by (cases "side b") simp_all
  show "distinct (genAllMoves (newMoveGen b))" "distinct (genCaptures (newMoveGen b))"
    "distinct (genSimpleMovesNoPromote (newMoveGen b))" "distinct (genSimpleMoves (newMoveGen b))"
    unfolding genAllMoves_def genCaptures_def genSimpleMovesNoPromote_def genSimpleMoves_def s
    using i by (cases "side b"; simp)+
  show "distinct (genSimplePromotes (newMoveGen b))"
    unfolding genSimplePromotes_def s using pr by (cases "side b"; simp)
qed

end
