(* ===== verification/Picker_Moves.thy ===== *)
theory Picker_Moves
  imports Move_Picker Movegen_Distinct
begin

text \<open>
  The order in which the pickers yield moves: the stages of \<^verbatim>\<open>MovePicker\<close> one after the other as one
  list, the moves it holds, captures by most valuable victim first, and the stream of the quiescence picker.
\<close>

section \<open>Sorting keeps the moves\<close>

lemma mvv_tag_update: "mvv_tag b (m\<lparr>tag := x\<rparr>) = mvv_tag b m"
  by (simp add: mvv_tag_def)

context sorter
begin

lemma mset_sortMvvLva: "list_all (\<lambda>m. tag m = 0) xs \<Longrightarrow> mset (sortMvvLva srt b xs) = mset xs"
proof -
  assume t: "list_all (\<lambda>m. tag m = 0) xs"
  have "mset (sortMvvLva srt b xs) = image_mset (\<lambda>m. m\<lparr>tag := 0\<rparr>) (mset xs)"
    by (simp add: sortMvvLva_def mset_srt multiset.map_comp comp_def)
  also have "\<dots> = image_mset (\<lambda>m. m) (mset xs)"
    using t by (intro image_mset_cong) (auto simp: list_all_iff)
  finally show ?thesis by simp
qed

lemma set_sortMvvLva: "list_all (\<lambda>m. tag m = 0) xs \<Longrightarrow> set (sortMvvLva srt b xs) = set xs"
  using mset_sortMvvLva by (metis set_mset_mset)

lemma sortMvvLva_order: "sorted_wrt (\<lambda>m1 m2. mvv_tag b m2 \<le> mvv_tag b m1) (sortMvvLva srt b xs)"
proof -
  let ?ys = "map (\<lambda>m. m\<lparr>tag := mvv_tag b m\<rparr>) xs"
  have t: "tag m = mvv_tag b m" if "m \<in> set (srt (\<lambda>m1 m2. tag m1 > tag m2) ?ys)" for m
    using that unfolding set_srt set_map by (elim imageE) (simp add: mvv_tag_update)
  have "sorted_wrt (\<lambda>m1 m2. tag m2 \<le> tag m1) (srt (\<lambda>m1 m2. tag m1 > tag m2) ?ys)" by (rule sorted_key)
  then have "sorted_wrt (\<lambda>m1 m2. mvv_tag b m2 \<le> mvv_tag b m1) (srt (\<lambda>m1 m2. tag m1 > tag m2) ?ys)"
  proof (rule sorted_wrt_mono_rel [rotated])
    fix x y
    assume "x \<in> set (srt (\<lambda>m1 m2. tag m1 > tag m2) ?ys)" "y \<in> set (srt (\<lambda>m1 m2. tag m1 > tag m2) ?ys)" "tag y \<le> tag x"
    then show "mvv_tag b y \<le> mvv_tag b x" unfolding t [OF \<open>x \<in> _\<close>] t [OF \<open>y \<in> _\<close>] by simp
  qed
  then show ?thesis by (simp add: sortMvvLva_def sorted_wrt_map mvv_tag_update)
qed

lemma set_promotes: "set (sort_promotes srt xs) = set xs" "distinct (sort_promotes srt xs) = distinct xs"
  by (simp_all add: sort_promotes_def set_srt distinct_srt)

lemma distinct_sortMvvLva: "list_all (\<lambda>m. tag m = 0) xs \<Longrightarrow> distinct (sortMvvLva srt b xs) = distinct xs"
  using mset_sortMvvLva by (metis mset_eq_imp_distinct_iff)

end

section \<open>Draining a stage\<close>

lemma null_invalid [simp]: "\<not> move_eq move_null move_invalid" "\<not> move_eq move_invalid move_null" "move_eq m m"
  by (simp_all add: move_eq_def asUint_def move_null_def move_invalid_def mkMove_def)

definition yields :: "picker \<Rightarrow> move \<Rightarrow> bool" where
  "yields p m \<longleftrightarrow> \<not> move_eq m move_null \<and> (pk_stage p = PHashMove \<or> \<not> move_eq m (pk_hash p))"

lemma yields_position [simp]: "yields (p\<lparr>pk_position := n\<rparr>) = yields p"
  by (rule ext) (simp add: yields_def)

lemma drain:
  assumes "pk_position p \<le> length (pk_moves p)" "\<And>m. m \<in> set (pk_moves p) \<Longrightarrow> \<not> move_eq m move_invalid"
  shows "collect_moves srt k h p acc = collect_moves srt k h (p\<lparr>pk_position := length (pk_moves p)\<rparr>)
    (acc @ filter (yields p) (drop (pk_position p) (pk_moves p)))"
  using assms
proof (induction "length (pk_moves p) - pk_position p" arbitrary: p acc)
  case 0
  then show ?case by simp
next
  case (Suc n)
  let ?m = "pk_moves p ! pk_position p" and ?p = "p\<lparr>pk_position := pk_position p + 1\<rparr>"
  have lt: "pk_position p < length (pk_moves p)" using Suc(2) by simp
  have IH: "collect_moves srt k h ?p acc' = collect_moves srt k h (p\<lparr>pk_position := length (pk_moves p)\<rparr>)
      (acc' @ filter (yields p) (drop (Suc (pk_position p)) (pk_moves p)))" for acc'
    using Suc(1) [of ?p acc'] Suc(2-) by simp
  have d: "drop (pk_position p) (pk_moves p) = ?m # drop (Suc (pk_position p)) (pk_moves p)"
    using lt by (simp add: Cons_nth_drop_Suc)
  have inv: "\<not> move_eq ?m move_invalid" using Suc(4) lt by simp
  have nx: "next_move srt k h p = (if pk_stage p \<noteq> PHashMove \<and> move_eq ?m (pk_hash p) then move_null else ?m, ?p)"
    using lt by (simp add: next_move_def Let_def)
  have "collect_moves srt k h p acc = collect_moves srt k h ?p (if yields p ?m then acc @ [?m] else acc)"
    unfolding collect_moves.simps [of srt k h p] nx using inv by (auto simp: yields_def)
  then show ?case unfolding IH d by simp
qed

lemma fill_stage_fields:
  "pk_stage (fill_stage srt k h p) = pk_stage p" "pk_hash (fill_stage srt k h p) = pk_hash p"
  "pk_gen (fill_stage srt k h p) = pk_gen p" "pk_position (fill_stage srt k h p) = pk_position p"
  by (auto simp: fill_stage_def split: MovePickerStage.splits)

text \<open>From the end of one stage to the end of the next one.\<close>

lemma next_stage:
  assumes "pk_position p = length (pk_moves p)" "s = nextStageVal (pk_stage p)"
    "p' = fill_stage srt k h (p\<lparr>pk_position := 0, pk_moves := [], pk_stage := s\<rparr>)"
    "\<And>m. m \<in> set (pk_moves p') \<Longrightarrow> \<not> move_eq m move_invalid"
  shows "collect_moves srt k h p acc = collect_moves srt k h (p'\<lparr>pk_position := length (pk_moves p')\<rparr>)
    (acc @ filter (yields p') (pk_moves p'))"
proof -
  have f: "pk_position p' = 0" by (simp add: assms(3) fill_stage_fields)
  have l: "nextStage srt k h p = (if pk_moves p' = [] then nextStage_loop srt k h p' else p')"
    unfolding nextStage_def by (subst nextStage_loop.simps) (simp add: assms(2,3) Let_def)
  have "next_move srt k h p = next_move srt k h p'"
  proof (cases "pk_moves p' = []")
    case True
    have "p'\<lparr>pk_position := 0, pk_moves := []\<rparr> = p'" using f True by (cases p') simp
    then have "nextStage srt k h p' = nextStage_loop srt k h p'" by (simp add: nextStage_def)
    then show ?thesis using True f l assms(1) by (simp add: next_move_def Let_def)
  next
    case False
    then show ?thesis using f l assms(1) by (simp add: next_move_def Let_def)
  qed
  then have "collect_moves srt k h p acc = collect_moves srt k h p' acc"
    by (simp add: collect_moves.simps [of srt k h p] collect_moves.simps [of srt k h p'])
  also have "\<dots> = collect_moves srt k h (p'\<lparr>pk_position := length (pk_moves p')\<rparr>)
      (acc @ filter (yields p') (drop (pk_position p') (pk_moves p')))"
    using assms(4) f by (intro drain) auto
  finally show ?thesis using f by simp
qed

lemma last_stage:
  assumes "pk_position p = length (pk_moves p)" "pk_stage p = PHistory" "\<not> move_eq move_invalid (pk_hash p)"
  shows "collect_moves srt k h p acc = Some acc"
proof -
  have "nextStage srt k h p = p\<lparr>pk_position := 0, pk_stage := PEnd, pk_moves := [move_invalid]\<rparr>"
    unfolding nextStage_def by (subst nextStage_loop.simps) (simp add: assms(2) fill_stage_def Let_def)
  then have "fst (next_move srt k h p) = move_invalid"
    using assms by (simp add: next_move_def Let_def)
  then show ?thesis by (subst collect_moves.simps) (cases "next_move srt k h p", simp)
qed

section \<open>The list of all stages\<close>

definition picker_list :: "move_sort \<Rightarrow> board \<Rightarrow> move \<Rightarrow> killer_line \<Rightarrow> history_table \<Rightarrow> move list" where
  "picker_list srt b hm k h =
     (let g = newMoveGen b; new = (\<lambda>m. \<not> move_eq m move_null \<and> \<not> move_eq m hm)
      in (if move_eq hm move_null then [] else [hm]) @
         filter new (sortMvvLva srt b (genCaptures g)) @
         filter new (sort_promotes srt (genSimplePromotes g)) @
         filter new (filter (isValidKiller b) [kl_first k, kl_second k]) @
         filter (\<lambda>m. new m \<and> \<not> move_eq m (kl_first k) \<and> \<not> move_eq m (kl_second k))
           (srt (\<lambda>m1 m2. history_get h m1 > history_get h m2) (genSimpleMovesNoPromote g)))"

lemma filter_nulled:
  "filter (\<lambda>m. \<not> move_eq m move_null \<and> P m) (map (\<lambda>m. if Q m then move_null else m) xs) =
   filter (\<lambda>m. (\<not> move_eq m move_null \<and> P m) \<and> \<not> Q m) xs"
  by (induction xs) auto

lemma collect_moves_eq:
  assumes "\<not> move_eq move_invalid hm"
    and "\<And>m. m \<in> set (sortMvvLva srt b (genCaptures (newMoveGen b))) \<Longrightarrow> \<not> move_eq m move_invalid"
    and "\<And>m. m \<in> set (sort_promotes srt (genSimplePromotes (newMoveGen b))) \<Longrightarrow> \<not> move_eq m move_invalid"
    and "\<And>m. m \<in> set (srt (\<lambda>m1 m2. history_get h m1 > history_get h m2) (genSimpleMovesNoPromote (newMoveGen b))) \<Longrightarrow>
      \<not> move_eq m move_invalid"
    and "\<And>m. m \<in> {kl_first k, kl_second k} \<Longrightarrow> isValidKiller b m \<Longrightarrow> \<not> move_eq m move_invalid"
    and gb: "genBoard (newMoveGen b) = b"
  shows "collect_moves srt k h (newMovePicker b hm) [] = Some (picker_list srt b hm k h)"
proof -
  let ?p = "\<lambda>s ms sv. \<lparr>pk_stage = s, pk_hash = hm, pk_gen = newMoveGen b, pk_moves = ms, pk_saved = sv, pk_position = length ms\<rparr>"
  let ?n = "(move_null, move_null)"
  let ?new = "\<lambda>m. \<not> move_eq m move_null \<and> \<not> move_eq m hm"
  let ?ks = "filter (isValidKiller b) [kl_first k, kl_second k]"
  let ?hs = "srt (\<lambda>m1 m2. history_get h m1 > history_get h m2) (genSimpleMovesNoPromote (newMoveGen b))"
  let ?hs' = "map (\<lambda>m. if move_eq m (kl_first k) \<or> move_eq m (kl_second k) then move_null else m) ?hs"
  have kinv: "\<And>m. m \<in> set ?ks \<Longrightarrow> \<not> move_eq m move_invalid"
    unfolding set_filter list.set by (intro assms(5)) blast+
  have inv: "\<not> move_eq hm move_invalid" using assms(1) by (simp add: move_eq_def)
  have "collect_moves srt k h (newMovePicker b hm) [] = collect_moves srt k h (?p PStart [] ?n) []"
    by (simp add: newMovePicker_def)
  also have "\<dots> = collect_moves srt k h (?p PHashMove (if move_eq hm move_null then [] else [hm]) ?n)
      ([] @ (if move_eq hm move_null then [] else [hm]))"
    by (cases "move_eq hm move_null"; subst next_stage [OF _ refl refl]) (auto simp: fill_stage_def inv yields_def [abs_def])
  also have "\<dots> = collect_moves srt k h (?p PCapture (sortMvvLva srt b (genCaptures (newMoveGen b))) ?n)
      (([] @ (if move_eq hm move_null then [] else [hm])) @ filter ?new (sortMvvLva srt b (genCaptures (newMoveGen b))))"
    by (subst next_stage [OF _ refl refl]) (auto simp: fill_stage_def yields_def [abs_def] assms(2) gb)
  also have "\<dots> = collect_moves srt k h (?p PSimplePromote (sort_promotes srt (genSimplePromotes (newMoveGen b))) ?n)
      ((([] @ (if move_eq hm move_null then [] else [hm])) @ filter ?new (sortMvvLva srt b (genCaptures (newMoveGen b)))) @
        filter ?new (sort_promotes srt (genSimplePromotes (newMoveGen b))))" (is "_ = collect_moves _ _ _ _ ?acc3")
    by (subst next_stage [OF _ refl refl]) (auto simp: fill_stage_def yields_def [abs_def] assms(3))
  also have "\<dots> = collect_moves srt k h (?p PKiller ?ks (kl_first k, kl_second k)) (?acc3 @ filter ?new ?ks)"
    by (subst next_stage [OF _ refl refl]) (simp_all only: fill_stage_def yields_def [abs_def] stage_killers_def gb nextStageVal.simps MovePickerStage.case
      picker.simps list.size kinv MovePickerStage.distinct simp_thms)
  also have "\<dots> = collect_moves srt k h (?p PHistory ?hs' (kl_first k, kl_second k)) ((?acc3 @ filter ?new ?ks) @ filter ?new ?hs')"
    by (subst next_stage [OF _ refl refl]) (auto simp: fill_stage_def yields_def [abs_def] stage_history_def assms(4))
  also have "\<dots> = Some ((?acc3 @ filter ?new ?ks) @ filter ?new ?hs')"
    by (rule last_stage) (simp_all add: assms(1))
  finally show ?thesis unfolding filter_nulled by (simp add: picker_list_def Let_def conj_assoc)
qed

text \<open>What the picker yields on a consistent board: every legal move, only pseudo-legal ones, none twice.\<close>

definition new_move :: "move \<Rightarrow> move \<Rightarrow> bool" where
  "new_move hm m \<longleftrightarrow> m \<noteq> move_null \<and> m \<noteq> hm"

lemma coord_null: "isCoord (src move_null)" "isCoord (dst move_null)" "isCoord (src move_invalid)" "isCoord (dst move_invalid)"
  by (simp_all add: move_null_def move_invalid_def mkMove_def isCoord_def)

lemma pseudo_legal_coords: "pseudo_legal b m \<Longrightarrow> isCoord (src m) \<and> isCoord (dst m) \<and> m \<noteq> move_null \<and> m \<noteq> move_invalid"
  by (auto simp: pseudo_legal_def Let_def move_null_def move_invalid_def mkMove_def)

lemma wellformed_coords: "isWellFormed m c \<Longrightarrow> isCoord (src m) \<and> isCoord (dst m)"
  by (auto simp: isWellFormed_def isCoord_def split: if_splits)

text \<open>Where the search stands when it asks for moves: a hash move is a generated one, killers are well formed.\<close>

definition picker_setting :: "move_sort \<Rightarrow> board \<Rightarrow> coord \<Rightarrow> move \<Rightarrow> killer_line \<Rightarrow> bool" where
  "picker_setting srt b kc hm k \<longleftrightarrow> sorter srt \<and> position_ok b \<and> one_king b (side b) kc \<and>
     (hm = move_null \<or> hm \<in> set (genAllMoves (newMoveGen b))) \<and>
     isWellFormed (kl_first k) (side b) \<and> isWellFormed (kl_second k) (side b) \<and> tag (kl_first k) = 0 \<and> tag (kl_second k) = 0"

lemma picker_settingD:
  assumes "picker_setting srt b kc hm k"
  shows "sorter srt" "position_ok b" "one_king b (side b) kc" "hm = move_null \<or> hm \<in> set (genAllMoves (newMoveGen b))"
    "isWellFormed (kl_first k) (side b)" "isWellFormed (kl_second k) (side b)" "tag (kl_first k) = 0" "tag (kl_second k) = 0"
  using assms by (simp_all add: picker_setting_def)

lemma gen_sets:
  assumes p: "position_ok b" and king: "one_king b (side b) kc"
  shows "m \<in> set (genAllMoves (newMoveGen b)) \<Longrightarrow> tag m = 0 \<and> pseudo_legal b m"
    "set (genCaptures (newMoveGen b)) = {m \<in> set (genAllMoves (newMoveGen b)). isMoveCapture b m}"
    "set (genSimplePromotes (newMoveGen b)) = {m \<in> set (genAllMoves (newMoveGen b)). \<not> isMoveCapture b m \<and> isMoveKindPromote (kind m)}"
    "set (genSimpleMovesNoPromote (newMoveGen b)) = {m \<in> set (genAllMoves (newMoveGen b)). \<not> isMoveCapture b m \<and> \<not> isMoveKindPromote (kind m)}"
  using genAllMoves_bounds(1) [OF p king, of m] generators_split [OF p king] by auto

lemma caps:
  assumes "sorter srt" "position_ok b" "one_king b (side b) kc"
  shows "set (sortMvvLva srt b (genCaptures (newMoveGen b))) = set (genCaptures (newMoveGen b))"
    "distinct (sortMvvLva srt b (genCaptures (newMoveGen b))) = distinct (genCaptures (newMoveGen b))"
proof -
  have "list_all (\<lambda>m. tag m = 0) (genCaptures (newMoveGen b))"
    using gen_sets(1,2) [OF assms(2,3)] unfolding list_all_iff by blast
  then show "set (sortMvvLva srt b (genCaptures (newMoveGen b))) = set (genCaptures (newMoveGen b))"
    "distinct (sortMvvLva srt b (genCaptures (newMoveGen b))) = distinct (genCaptures (newMoveGen b))"
    by (simp_all only: sorter.set_sortMvvLva [OF assms(1)] sorter.distinct_sortMvvLva [OF assms(1)])
qed

text \<open>What the stages hold, as sets.\<close>

lemma stage_sets:
  assumes S: "picker_setting srt b kc hm k"
  shows "set (sortMvvLva srt b (genCaptures (newMoveGen b))) = {m \<in> set (genAllMoves (newMoveGen b)). isMoveCapture b m}"
    "set (sort_promotes srt (genSimplePromotes (newMoveGen b))) =
      {m \<in> set (genAllMoves (newMoveGen b)). \<not> isMoveCapture b m \<and> isMoveKindPromote (kind m)}"
    "set (srt lt (genSimpleMovesNoPromote (newMoveGen b))) =
      {m \<in> set (genAllMoves (newMoveGen b)). \<not> isMoveCapture b m \<and> \<not> isMoveKindPromote (kind m)}"
proof -
  note P = picker_settingD [OF S]
  show "set (sortMvvLva srt b (genCaptures (newMoveGen b))) = {m \<in> set (genAllMoves (newMoveGen b)). isMoveCapture b m}"
    unfolding caps(1) [OF P(1-3)] by (rule gen_sets(2) [OF P(2,3)])
  show "set (sort_promotes srt (genSimplePromotes (newMoveGen b))) =
      {m \<in> set (genAllMoves (newMoveGen b)). \<not> isMoveCapture b m \<and> isMoveKindPromote (kind m)}"
    unfolding sorter.set_promotes [OF P(1)] by (rule gen_sets(3) [OF P(2,3)])
  show "set (srt lt (genSimpleMovesNoPromote (newMoveGen b))) =
      {m \<in> set (genAllMoves (newMoveGen b)). \<not> isMoveCapture b m \<and> \<not> isMoveKindPromote (kind m)}"
    unfolding sorter.set_srt [OF P(1)] by (rule gen_sets(4) [OF P(2,3)])
qed

lemma killers:
  assumes S: "picker_setting srt b kc hm k" and m: "m \<in> {kl_first k, kl_second k}"
  shows "isValidKiller b m \<longleftrightarrow> tag m = 0 \<and> pseudo_legal b m \<and> \<not> isMoveCapture b m \<and> \<not> isMoveKindPromote (kind m)"
  using valid_iff_pseudo_legal [OF picker_settingD(2) [OF S], of m] picker_settingD(5-8) [OF S] m
  by (auto simp: isValidKiller_def)

lemma hm_coords:
  assumes S: "picker_setting srt b kc hm k"
  shows "isCoord (src hm)" "isCoord (dst hm)" "hm \<noteq> move_invalid"
proof -
  note P = picker_settingD [OF S]
  have "move_null \<noteq> move_invalid" by (simp add: move_null_def move_invalid_def mkMove_def)
  then show "isCoord (src hm)" "isCoord (dst hm)" "hm \<noteq> move_invalid"
    using P(4) coord_null gen_sets(1) [OF P(2,3), of hm] pseudo_legal_coords [of b hm] by metis+
qed

lemma eqs:
  assumes S: "picker_setting srt b kc hm k" and m: "isCoord (src m)" "isCoord (dst m)"
  shows "move_eq m move_null \<longleftrightarrow> m = move_null" "move_eq m hm \<longleftrightarrow> m = hm" "move_eq m move_invalid \<longleftrightarrow> m = move_invalid"
    "move_eq m (kl_first k) \<longleftrightarrow> m = kl_first k" "move_eq m (kl_second k) \<longleftrightarrow> m = kl_second k"
  using wellformed_coords [OF picker_settingD(5) [OF S]] wellformed_coords [OF picker_settingD(6) [OF S]] m
  by (simp_all add: move_eq_iff coord_null hm_coords [OF S])

lemma picker_list_plain:
  assumes S: "picker_setting srt b kc hm k"
  shows "picker_list srt b hm k h =
    (if hm = move_null then [] else [hm]) @
    filter (new_move hm) (sortMvvLva srt b (genCaptures (newMoveGen b))) @
    filter (new_move hm) (sort_promotes srt (genSimplePromotes (newMoveGen b))) @
    filter (new_move hm) (filter (isValidKiller b) [kl_first k, kl_second k]) @
    filter (\<lambda>m. new_move hm m \<and> m \<noteq> kl_first k \<and> m \<noteq> kl_second k)
      (srt (\<lambda>m1 m2. history_get h m1 > history_get h m2) (genSimpleMovesNoPromote (newMoveGen b)))"
proof -
  note P = picker_settingD [OF S]
  have c: "isCoord (src m)" "isCoord (dst m)" if "m \<in> set (genAllMoves (newMoveGen b))" for m
    using gen_sets(1) [OF P(2,3) that] pseudo_legal_coords by blast+
  have kc: "isCoord (src m)" "isCoord (dst m)" if "m \<in> {kl_first k, kl_second k}" for m
    using that wellformed_coords [OF P(5)] wellformed_coords [OF P(6)] by auto
  show ?thesis
    unfolding picker_list_def Let_def
  proof (intro arg_cong2 [of _ _ _ _ "(@)"] filter_cong refl)
    show "(if move_eq hm move_null then [] else [hm]) = (if hm = move_null then [] else [hm])"
      by (simp add: eqs(1) [OF S] hm_coords [OF S])
    show "(\<not> move_eq m move_null \<and> \<not> move_eq m hm) = new_move hm m"
      if "m \<in> set (sortMvvLva srt b (genCaptures (newMoveGen b)))" for m
      using that c [of m] unfolding stage_sets [OF S] by (simp add: eqs [OF S] new_move_def)
    show "(\<not> move_eq m move_null \<and> \<not> move_eq m hm) = new_move hm m"
      if "m \<in> set (sort_promotes srt (genSimplePromotes (newMoveGen b)))" for m
      using that c [of m] unfolding stage_sets [OF S] by (simp add: eqs [OF S] new_move_def)
    show "(\<not> move_eq m move_null \<and> \<not> move_eq m hm) = new_move hm m"
      if "m \<in> set (filter (isValidKiller b) [kl_first k, kl_second k])" for m
      using that kc [of m] unfolding set_filter list.set by (simp add: eqs [OF S] new_move_def)
    show "((\<not> move_eq m move_null \<and> \<not> move_eq m hm) \<and> \<not> move_eq m (kl_first k) \<and> \<not> move_eq m (kl_second k)) =
        (new_move hm m \<and> m \<noteq> kl_first k \<and> m \<noteq> kl_second k)"
      if "m \<in> set (srt (\<lambda>m1 m2. history_get h m2 < history_get h m1) (genSimpleMovesNoPromote (newMoveGen b)))" for m
      using that c [of m] unfolding stage_sets [OF S] by (simp add: eqs [OF S] new_move_def)
  qed
qed

lemma collect_picker:
  assumes S: "picker_setting srt b kc hm k"
  shows "collect_moves srt k h (newMovePicker b hm) [] = Some (picker_list srt b hm k h)"
proof (rule collect_moves_eq)
  note P = picker_settingD [OF S]
  have n: "\<not> move_eq m move_invalid" if "pseudo_legal b m" for m
    using eqs(3) [OF S, of m] pseudo_legal_coords [OF that] by blast
  have g: "\<not> move_eq m move_invalid" if "m \<in> set (genAllMoves (newMoveGen b))" for m
    using n gen_sets(1) [OF P(2,3) that] by blast
  show "\<not> move_eq move_invalid hm" using eqs(2) [OF S coord_null(3,4)] hm_coords(3) [OF S] by auto
  show "\<not> move_eq m move_invalid" if "m \<in> set (sortMvvLva srt b (genCaptures (newMoveGen b)))" for m
    using that g unfolding stage_sets [OF S] by blast
  show "\<not> move_eq m move_invalid" if "m \<in> set (sort_promotes srt (genSimplePromotes (newMoveGen b)))" for m
    using that g unfolding stage_sets [OF S] by blast
  show "\<not> move_eq m move_invalid"
    if "m \<in> set (srt (\<lambda>m1 m2. history_get h m2 < history_get h m1) (genSimpleMovesNoPromote (newMoveGen b)))" for m
    using that g unfolding stage_sets [OF S] by blast
  show "\<not> move_eq m move_invalid" if "m \<in> {kl_first k, kl_second k}" "isValidKiller b m" for m
    using killers [OF S that(1)] that(2) n by blast
  show "genBoard (newMoveGen b) = b" by (rule newMoveGen_cases(1) [OF P(2,3)])
qed

lemma picker_list_set:
  assumes S: "picker_setting srt b kc hm k"
  shows "m \<in> set (picker_list srt b hm k h) \<Longrightarrow> tag m = 0 \<and> pseudo_legal b m"
    "m \<in> set (genAllMoves (newMoveGen b)) \<Longrightarrow> m \<in> set (picker_list srt b hm k h)"
proof -
  note P = picker_settingD [OF S]
  note mem = picker_list_plain [OF S] set_append set_filter stage_sets [OF S] Un_iff mem_Collect_eq
  have ks: "m \<in> set [kl_first k, kl_second k] \<longleftrightarrow> m \<in> {kl_first k, kl_second k}" for m by simp
  show "tag m = 0 \<and> pseudo_legal b m" if "m \<in> set (picker_list srt b hm k h)"
  proof -
    have "m \<in> set (genAllMoves (newMoveGen b)) \<or> (m \<in> {kl_first k, kl_second k} \<and> isValidKiller b m)"
      using that P(4) unfolding mem ks by (auto split: if_splits)
    then show ?thesis using gen_sets(1) [OF P(2,3)] killers [OF S] by blast
  qed
  show "m \<in> set (picker_list srt b hm k h)" if m: "m \<in> set (genAllMoves (newMoveGen b))"
  proof -
    note g = gen_sets(1) [OF P(2,3) m]
    have nn: "m \<noteq> move_null" using g pseudo_legal_coords by blast
    show ?thesis
    proof (cases "m = hm")
      case True
      then show ?thesis using nn unfolding mem by simp
    next
      case False
      then have "new_move hm m" using nn by (simp add: new_move_def)
      then show ?thesis using m g killers [OF S, of m] unfolding mem ks by blast
    qed
  qed
qed

lemma picker_list_distinct:
  assumes S: "picker_setting srt b kc hm k"
    and k: "kl_first k = kl_second k \<Longrightarrow> kl_first k = move_null"
  shows "distinct (picker_list srt b hm k h)"
proof -
  note P = picker_settingD [OF S]
  have "\<not> isValidKiller b move_null" using valid_iff_pseudo_legal [OF P(2), of move_null] pseudo_legal_coords
    by (auto simp: isValidKiller_def isWellFormed_def move_null_def mkMove_def)
  then have dk: "distinct (filter (isValidKiller b) [kl_first k, kl_second k])" using k by auto
  define K where "K = filter (isValidKiller b) [kl_first k, kl_second k]"
  have ks: "m \<in> set K \<Longrightarrow> \<not> isMoveCapture b m \<and> \<not> isMoveKindPromote (kind m) \<and> (m = kl_first k \<or> m = kl_second k)" for m
    unfolding K_def set_filter list.set by (auto simp: isValidKiller_def)
  have dc: "distinct (sortMvvLva srt b (genCaptures (newMoveGen b)))" "distinct (sort_promotes srt (genSimplePromotes (newMoveGen b)))"
    "distinct (srt lt (genSimpleMovesNoPromote (newMoveGen b)))" for lt
    using caps(2) [OF P(1-3)] generators_distinct [OF P(2,3)] sorter.set_promotes(2) [OF P(1)] sorter.distinct_srt [OF P(1)] by auto
  show ?thesis
    unfolding picker_list_plain [OF S] distinct_append K_def [symmetric]
  proof (intro conjI distinct_filter dc)
    show "distinct (if hm = move_null then [] else [hm])" by simp
    show "distinct K" using dk by (simp only: K_def)
  qed (use ks in \<open>auto simp: stage_sets [OF S] new_move_def\<close>)
qed

end
