(* ===== verification/Playable.thy ===== *)
theory Playable
  imports Movegen_Complete Fen_Valid
begin

text \<open>
  Positions that can occur in a game: consistent boards with one king a side on which the side that is
  not to move is not in check. Making a pseudo-legal move after which the mover is not in check gives
  such a position again, and captures and promotions reduce the material on the board.
\<close>

section \<open>What a move does to the cells\<close>

definition playable :: "zobrist \<Rightarrow> board \<Rightarrow> bool" where
  "playable z b \<longleftrightarrow> consistent z b \<and> (\<forall>C. \<exists>k. one_king b C k) \<and> wasMoveLegal b"

lemma playableD:
  assumes "playable z b"
  shows "consistent z b" "position_ok b" "bb_ok b" "length (cells b) = 64" "\<exists>k. one_king b C k" "wasMoveLegal b"
  using assms consistent_position [of z b] by (auto simp: playable_def position_ok_def board_shape_def)

lemma pseudo_coords: "pseudo_legal b m \<Longrightarrow> isCoord (src m) \<and> isCoord (dst m)"
  by (simp add: pseudo_legal_def Let_def)

lemma single_cells:
  assumes p: "position_ok b" and m: "pseudo_legal b m" and kd: "kind m = Simple \<or> kind m = PawnDoubleMove \<or> isMoveKindPromote (kind m)"
  obtains P Q where "cellAt b (src m) = makeCell (side b) P" "P = King \<longleftrightarrow> Q = King"
    "cellAt b (dst m) = EMPTY_CELL \<or> cellPieceColor (cellAt b (dst m)) \<noteq> side b" "src m \<noteq> dst m"
    "\<And>x. isCoord x \<Longrightarrow> cellAt (fst (moveMake z b m)) x =
      (if x = dst m then makeCell (side b) Q else if x = src m then EMPTY_CELL else cellAt b x)"
proof -
  obtain P Q where q: "cellAt b (src m) = makeCell (side b) P" "P = King \<longrightarrow> Q = King" "P \<noteq> King \<longrightarrow> Q \<noteq> King"
    "cellAt b (dst m) = EMPTY_CELL \<or> cellPieceColor (cellAt b (dst m)) \<noteq> side b" "src m \<noteq> dst m"
    "move_cells b m = (cells b)[nat (src m) := EMPTY_CELL, nat (dst m) := makeCell (side b) Q]"
    using pseudo_single [OF p m kd] by blast
  have len: "length (cells b) = 64" using p by (simp add: position_ok_def board_shape_def)
  have "cellAt (fst (moveMake z b m)) x =
      (if x = dst m then makeCell (side b) Q else if x = src m then EMPTY_CELL else cellAt b x)" if "isCoord x" for x
    unfolding cellAt_after [OF len that] q(6) using len pseudo_coords [OF m] that q(5)
    by (auto simp: nth_list_update nat_coord_eq cellAt_def simp del: makeCell_values)
  then show thesis using that q by blast
qed

lemma enpassant_cells:
  assumes p: "position_ok b" and m: "pseudo_legal b m" and kd: "kind m = Enpassant"
  shows "cellAt b (src m) = makeCell (side b) Pawn" "cellAt b (dst m) = EMPTY_CELL"
    "isCoord (enpassantPawnPos (side b) (dst m))"
    "cellAt b (enpassantPawnPos (side b) (dst m)) = makeCell (invert (side b)) Pawn"
    "isCoord x \<Longrightarrow> cellAt (fst (moveMake z b m)) x = (if x = enpassantPawnPos (side b) (dst m) then EMPTY_CELL
      else if x = dst m then makeCell (side b) Pawn else if x = src m then EMPTY_CELL else cellAt b x)"
proof -
  let ?C = "side b"
  have len: "length (cells b) = 64" using p by (simp add: position_ok_def board_shape_def)
  have r: "cellAt b (src m) = makeCell ?C Pawn" "enpassantCoord b \<noteq> INVALID_COORD" "dst m = enpassantCoord b + pawnForwardDelta ?C"
    using m unfolding pseudo_legal_def Let_def kd MoveKind.case by blast+
  note e = position_okD(3) [OF p r(2)]
  have t: "enpassantPawnPos ?C (dst m) = enpassantCoord b" using r(3) by (cases ?C) (simp_all add: enpassantPawnPos_def pawnForwardDelta_def)
  show "cellAt b (src m) = makeCell ?C Pawn" "cellAt b (dst m) = EMPTY_CELL" using r e by simp_all
  show ec: "isCoord (enpassantPawnPos ?C (dst m))" "cellAt b (enpassantPawnPos ?C (dst m)) = makeCell (invert ?C) Pawn"
    using e by (simp_all add: t)
  show "isCoord x \<Longrightarrow> cellAt (fst (moveMake z b m)) x = (if x = enpassantPawnPos ?C (dst m) then EMPTY_CELL
      else if x = dst m then makeCell ?C Pawn else if x = src m then EMPTY_CELL else cellAt b x)"
    using len pseudo_coords [OF m] ec(1) kd cellAt_after [OF len, of x z m]
    by (auto simp: move_cells_def Let_def nth_list_update nat_coord_eq cellAt_def simp del: makeCell_values)
qed

text \<open>Castling: the king at \<open>src m\<close>, a rook at \<open>r\<close>, two empty cells between them.\<close>

lemma castling_cells:
  assumes p: "position_ok b" and m: "pseudo_legal b m" and kd: "kind m = CastlingKingside \<or> kind m = CastlingQueenside"
  obtains r t where "isCoord r" "isCoord t" "distinct [src m, dst m, r, t]" "cellAt b (src m) = makeCell (side b) King"
    "cellAt b r = makeCell (side b) Rook" "cellAt b (dst m) = EMPTY_CELL" "cellAt b t = EMPTY_CELL"
    "\<And>x. isCoord x \<Longrightarrow> cellAt (fst (moveMake z b m)) x = (if x = src m \<or> x = r then EMPTY_CELL
      else if x = dst m then makeCell (side b) King else if x = t then makeCell (side b) Rook else cellAt b x)"
proof -
  let ?C = "side b" and ?k = "castlingOffset (side b)"
  have len: "length (cells b) = 64" using p by (simp add: position_ok_def board_shape_def)
  have co: "isCoord (?k + n)" if "0 \<le> n" "n < 8" for n using that by (cases ?C) (simp_all add: isCoord_def castlingOffset_def castlingRow_def)
  show thesis
  proof (cases "kind m = CastlingKingside")
    case True
    have r: "src m = ?k + 4" "dst m = ?k + 6" "isKingsideCastling b ?C" "cellAt b (?k + 5) = EMPTY_CELL" "cellAt b (?k + 6) = EMPTY_CELL"
      using m unfolding pseudo_legal_def Let_def True MoveKind.case by blast+
    have kr: "cellAt b (?k + 4) = makeCell ?C King" "cellAt b (?k + 7) = makeCell ?C Rook"
      using position_okD(4) [OF p] r(3) by (auto simp: castling_ok_def)
    show thesis
    proof (rule that [of "?k + 7" "?k + 5"])
      fix x assume x: "isCoord x"
      show "cellAt (fst (moveMake z b m)) x = (if x = src m \<or> x = ?k + 7 then EMPTY_CELL
          else if x = dst m then makeCell ?C King else if x = ?k + 5 then makeCell ?C Rook else cellAt b x)"
        unfolding cellAt_after [OF len x] r(1,2) using len x True co [of 4] co [of 5] co [of 6] co [of 7]
        by (auto simp: move_cells_def Let_def nth_list_update nat_coord_eq cellAt_def simp del: makeCell_values)
    qed (use r kr co [of 5] co [of 7] in simp_all)
  next
    case False
    then have kd': "kind m = CastlingQueenside" using kd by simp
    have r: "src m = ?k + 4" "dst m = ?k + 2" "isQueensideCastling b ?C" "cellAt b (?k + 2) = EMPTY_CELL" "cellAt b (?k + 3) = EMPTY_CELL"
      using m unfolding pseudo_legal_def Let_def kd' MoveKind.case by blast+
    have kr: "cellAt b (?k + 4) = makeCell ?C King" "cellAt b ?k = makeCell ?C Rook"
      using position_okD(4) [OF p] r(3) by (auto simp: castling_ok_def)
    show thesis
    proof (rule that [of ?k "?k + 3"])
      fix x assume x: "isCoord x"
      show "cellAt (fst (moveMake z b m)) x = (if x = src m \<or> x = ?k then EMPTY_CELL
          else if x = dst m then makeCell ?C King else if x = ?k + 3 then makeCell ?C Rook else cellAt b x)"
        unfolding cellAt_after [OF len x] r(1,2) using len x kd' co [of 0] co [of 2] co [of 3] co [of 4]
        by (auto simp: move_cells_def Let_def nth_list_update nat_coord_eq cellAt_def simp del: makeCell_values)
    qed (use r kr co [of 0] co [of 3] in simp_all)
  qed
qed

lemma pseudo_kinds:
  assumes "pseudo_legal b m"
  obtains (single) "kind m = Simple \<or> kind m = PawnDoubleMove \<or> isMoveKindPromote (kind m)"
    | (enpassant) "kind m = Enpassant" | (castling) "kind m = CastlingKingside \<or> kind m = CastlingQueenside"
  using assms by (cases "kind m") (auto simp: pseudo_legal_def Let_def isMoveKindPromote_def)

section \<open>Kings\<close>

text \<open>A pseudo-legal move onto a piece attacks it.\<close>

lemma capture_attacks:
  assumes p: "position_ok b" and m: "pseudo_legal b m" and d: "cellAt b (dst m) \<noteq> EMPTY_CELL"
  shows "attacker (bbAll b) b (side b) (src m) (dst m)"
proof -
  have pawn: "attacker (bbAll b) b (side b) (src m) (dst m)"
    if "cellAt b (src m) = makeCell (side b) Pawn" "pawn_step b (side b) (src m) (dst m)"
    using that d unfolding pawn_step_def attacker_def by (intro exI [of _ Pawn]) (auto split: if_splits)
  show ?thesis
  proof (cases "kind m = Simple")
    case True
    then obtain P where P: "cellAt b (src m) = makeCell (side b) P"
      "if P = Pawn then coordX (src m) \<noteq> promoteSrcRow (side b) \<and> pawn_step b (side b) (src m) (dst m)
        else piece_attacks (bbAll b) (side b) P (src m) (dst m)"
      using m unfolding pseudo_legal_def Let_def True MoveKind.case by (metis (full_types))
    then show ?thesis using pawn by (cases "P = Pawn") (auto simp: attacker_def simp del: makeCell_values piece_attacks.simps)
  next
    case False
    then have "cellAt b (src m) = makeCell (side b) Pawn \<and> pawn_step b (side b) (src m) (dst m) \<or> cellAt b (dst m) = EMPTY_CELL"
      using m enpassant_cells(2) [OF p m] castling_cells [OF p m] 
      by (cases "kind m") (auto simp: pseudo_legal_def Let_def simp del: makeCell_values)
    then show ?thesis using pawn d by blast
  qed
qed

lemma enemy_king_stays:
  assumes "playable z b" and m: "pseudo_legal b m" and k: "one_king b (invert (side b)) k"
  shows "one_king (fst (moveMake z b m)) (invert (side b)) k"
proof -
  let ?C = "side b" and ?b' = "fst (moveMake z b m)"
  note p = playableD [OF assms(1)]
  have kc: "isCoord k" and kk: "cellAt b k = makeCell (invert ?C) King" using k by (simp_all add: one_king_def)
  have nd: "k \<noteq> dst m"
  proof
    assume "k = dst m"
    then have "attacker (bbAll b) b ?C (src m) k" using capture_attacks [OF p(2) m] kk by auto
    moreover have "\<not> attacker (bbAll b) b ?C (src m) k"
      using p(6) wasMoveLegal_kings [OF p(3)] assms(1) k pseudo_coords [OF m] unfolding playable_def by blast
    ultimately show False by blast
  qed
  show ?thesis
    unfolding one_king_def
  proof (intro conjI allI impI kc)
    fix c assume c: "isCoord c"
    have kb: "cellAt b c = makeCell (invert ?C) King \<longleftrightarrow> c = k" using k c by (simp add: one_king_def)
    show "cellAt ?b' c = makeCell (invert ?C) King \<longleftrightarrow> c = k"
    proof (cases rule: pseudo_kinds [OF m])
      case 1
      obtain P Q where q: "cellAt b (src m) = makeCell ?C P" "P = King \<longleftrightarrow> Q = King"
        "cellAt b (dst m) = EMPTY_CELL \<or> cellPieceColor (cellAt b (dst m)) \<noteq> ?C" "src m \<noteq> dst m"
        "\<And>x. isCoord x \<Longrightarrow> cellAt ?b' x = (if x = dst m then makeCell ?C Q else if x = src m then EMPTY_CELL else cellAt b x)"
        by (rule single_cells [OF p(2) m 1, of z]) (rule that)
      show ?thesis unfolding q(5) [OF c] using q(1) kb kk nd by (auto simp del: makeCell_values)
    next
      case 2
      note e = enpassant_cells [OF p(2) m 2]
      have "k \<noteq> src m" "k \<noteq> enpassantPawnPos ?C (dst m)" using kk e(1,4) by (auto simp del: makeCell_values)
      then show ?thesis unfolding e(5) [OF c] using kb nd by (simp del: makeCell_values)
    next
      case 3
      obtain r t where q: "isCoord r" "isCoord t" "distinct [src m, dst m, r, t]" "cellAt b (src m) = makeCell ?C King"
        "cellAt b r = makeCell ?C Rook" "cellAt b (dst m) = EMPTY_CELL" "cellAt b t = EMPTY_CELL"
        "\<And>x. isCoord x \<Longrightarrow> cellAt ?b' x = (if x = src m \<or> x = r then EMPTY_CELL
          else if x = dst m then makeCell ?C King else if x = t then makeCell ?C Rook else cellAt b x)"
        by (rule castling_cells [OF p(2) m 3, of z]) (rule that)
      show ?thesis unfolding q(8) [OF c] using q(4-7) kb kk nd by (auto simp del: makeCell_values)
    qed
  qed
qed

lemma own_king_moves:
  assumes "playable z b" and m: "pseudo_legal b m" and k: "one_king b (side b) k"
  shows "\<exists>k'. one_king (fst (moveMake z b m)) (side b) k'"
proof -
  let ?C = "side b" and ?b' = "fst (moveMake z b m)"
  note p = playableD [OF assms(1)]
  have kb: "isCoord c \<Longrightarrow> cellAt b c = makeCell ?C King \<longleftrightarrow> c = k" for c using k by (simp add: one_king_def)
  have co: "isCoord (src m)" "isCoord (dst m)" "isCoord k" using pseudo_coords [OF m] k by (simp_all add: one_king_def)
  show ?thesis
  proof (cases rule: pseudo_kinds [OF m])
    case 1
      obtain P Q where q: "cellAt b (src m) = makeCell ?C P" "P = King \<longleftrightarrow> Q = King"
        "cellAt b (dst m) = EMPTY_CELL \<or> cellPieceColor (cellAt b (dst m)) \<noteq> ?C" "src m \<noteq> dst m"
        "\<And>x. isCoord x \<Longrightarrow> cellAt ?b' x = (if x = dst m then makeCell ?C Q else if x = src m then EMPTY_CELL else cellAt b x)"
        by (rule single_cells [OF p(2) m 1, of z]) (rule that)
    have nd: "k \<noteq> dst m" using q(3) kb [OF co(2)] by auto
    have "one_king ?b' ?C (if P = King then dst m else k)"
      unfolding one_king_def
    proof (intro conjI allI impI)
      show "isCoord (if P = King then dst m else k)" using co by simp
      fix c assume c: "isCoord c"
      show "cellAt ?b' c = makeCell ?C King \<longleftrightarrow> c = (if P = King then dst m else k)"
        unfolding q(5) [OF c] using kb [OF c] kb [OF co(1)] q(1,2) nd by (auto simp del: makeCell_values)
    qed
    then show ?thesis by blast
  next
    case 2
    note e = enpassant_cells [OF p(2) m 2]
    have "one_king ?b' ?C k"
      unfolding one_king_def
    proof (intro conjI allI impI co(3))
      fix c assume c: "isCoord c"
      show "cellAt ?b' c = makeCell ?C King \<longleftrightarrow> c = k"
        unfolding e(5) [OF c] using kb [OF c] kb [OF co(1)] kb [OF co(2)] kb [OF e(3)] e(1-4) by (auto simp del: makeCell_values)
    qed
    then show ?thesis by blast
  next
    case 3
      obtain r t where q: "isCoord r" "isCoord t" "distinct [src m, dst m, r, t]" "cellAt b (src m) = makeCell ?C King"
        "cellAt b r = makeCell ?C Rook" "cellAt b (dst m) = EMPTY_CELL" "cellAt b t = EMPTY_CELL"
        "\<And>x. isCoord x \<Longrightarrow> cellAt ?b' x = (if x = src m \<or> x = r then EMPTY_CELL
          else if x = dst m then makeCell ?C King else if x = t then makeCell ?C Rook else cellAt b x)"
        by (rule castling_cells [OF p(2) m 3, of z]) (rule that)
    have "one_king ?b' ?C (dst m)"
      unfolding one_king_def
    proof (intro conjI allI impI co(2))
      fix c assume c: "isCoord c"
      show "cellAt ?b' c = makeCell ?C King \<longleftrightarrow> c = dst m"
        unfolding q(8) [OF c] using kb [OF c] kb [OF co(1)] q(3-7) by (auto simp del: makeCell_values)
    qed
    then show ?thesis by blast
  qed
qed

lemma moveMake_side: "side (fst (moveMake z b m)) = invert (side b)"
  by (simp add: moveMake_stages)

lemma playable_make:
  assumes "zobrist_ok z" "playable z b" "pseudo_legal b m" "wasMoveLegal (fst (moveMake z b m))"
  shows "playable z (fst (moveMake z b m))"
proof -
  note p = playableD [OF assms(2)]
  obtain k where k: "one_king b (side b) k" using p(5) by blast
  obtain k' where k': "one_king b (invert (side b)) k'" using p(5) by blast
  have "\<exists>k. one_king (fst (moveMake z b m)) C k" for C
    using own_king_moves [OF assms(2,3) k] enemy_king_stays [OF assms(2,3) k']
    by (cases "C = side b") (auto simp: color_neq_iff)
  then show ?thesis
    using moveMake_keeps_consistent [OF assms(1) p(1) pseudo_makeable [OF p(2) assms(3)]] assms(4)
    by (simp add: playable_def)
qed

section \<open>Material\<close>

definition cell_weight :: "cell \<Rightarrow> nat" where
  "cell_weight v = (if v = EMPTY_CELL then 0 else if v = makeCell White Pawn \<or> v = makeCell Black Pawn then 2 else 1)"

text \<open>Pieces count once, pawns twice: a capture and a promotion both make it smaller.\<close>

definition material :: "board \<Rightarrow> nat" where
  "material b = sum_list (map cell_weight (cells b))"

lemma cell_weight_make: "cell_weight (makeCell C P) = (if P = Pawn then 2 else 1)"
  by (cases C; cases P) (simp_all add: cell_weight_def EMPTY_CELL_def)

lemma cell_weight_empty [simp]: "cell_weight EMPTY_CELL = 0"
  by (simp add: cell_weight_def)

lemma cell_weight_pos: "v \<noteq> EMPTY_CELL \<Longrightarrow> 0 < cell_weight v"
  by (simp add: cell_weight_def)

lemma sum_list_upd: "i < length xs \<Longrightarrow> sum_list (xs[i := n]) + xs ! i = sum_list xs + (n :: nat)"
  by (induction xs arbitrary: i) (auto split: nat.split)

lemma weight_upd:
  assumes "isCoord c" "length cs = 64"
  shows "sum_list (map cell_weight (cs[nat c := v])) + cell_weight (cs ! nat c) = sum_list (map cell_weight cs) + cell_weight v"
  using sum_list_upd [of "nat c" "map cell_weight cs" "cell_weight v"] assms by (simp add: map_update isCoord_def)

lemma capture_reduces_material:
  assumes p: "position_ok b" and m: "pseudo_legal b m" and c: "isMoveCapture b m \<or> isMoveKindPromote (kind m)"
  shows "material (fst (moveMake z b m)) < material b"
proof -
  let ?C = "side b" and ?s = "src m" and ?d = "dst m"
  have len: "length (cells b) = 64" using p by (simp add: position_ok_def board_shape_def)
  have co: "isCoord ?s" "isCoord ?d" using pseudo_coords [OF m] by simp_all
  have two: "material (fst (moveMake z b m)) + cell_weight (cellAt b ?s) + cell_weight (cellAt b ?d) = material b + cell_weight v"
    if "?s \<noteq> ?d" "move_cells b m = (cells b)[nat ?s := EMPTY_CELL, nat ?d := v]" for v
    using weight_upd [OF co(1) len, of EMPTY_CELL] weight_upd [OF co(2), of "(cells b)[nat ?s := EMPTY_CELL]" v] that len co
    by (simp add: material_def cells_moveMake cellAt_def nat_coord_eq)
  have ne: "?s \<noteq> ?d" if "kind m = Simple \<or> kind m = PawnDoubleMove \<or> isMoveKindPromote (kind m)"
    using pseudo_single [OF p m that] by metis
  consider (simple) "kind m = Simple" | (promote) "isMoveKindPromote (kind m)" | (enpassant) "kind m = Enpassant"
    | (other) "kind m = PawnDoubleMove \<or> kind m = CastlingKingside \<or> kind m = CastlingQueenside"
    using m by (cases "kind m") (auto simp: pseudo_legal_def Let_def isMoveKindPromote_def)
  then show ?thesis
  proof cases
    case simple
    then have "move_cells b m = (cells b)[nat ?s := EMPTY_CELL, nat ?d := cellAt b ?s]" by (simp add: move_cells_def Let_def)
    moreover have "cellAt b ?d \<noteq> EMPTY_CELL" using c simple by (simp add: isMoveCapture_def isMoveKindPromote_def)
    ultimately show ?thesis using two ne simple cell_weight_pos [of "cellAt b ?d"] by fastforce
  next
    case promote
    then have "move_cells b m = (cells b)[nat ?s := EMPTY_CELL, nat ?d := makeCell ?C (moveKindPromotePiece (kind m))]"
      "cellAt b ?s = makeCell ?C Pawn" "moveKindPromotePiece (kind m) \<noteq> Pawn"
      using m by (auto simp: move_cells_def Let_def isMoveKindPromote_def pseudo_legal_def moveKindPromotePiece_def pieceOfVal_def
        simp del: makeCell_values)
    then show ?thesis using two [of "makeCell ?C (moveKindPromotePiece (kind m))"] ne promote by (simp add: cell_weight_make)
  next
    case enpassant
    let ?e = "enpassantPawnPos ?C ?d" and ?cs = "(cells b)[nat ?s := EMPTY_CELL, nat ?d := makeCell ?C Pawn]"
    note e = enpassant_cells [OF p m enpassant]
    have d: "?s \<noteq> ?d" "?e \<noteq> ?d" "?s \<noteq> ?e" using e(1,2,4) by (auto simp del: makeCell_values)
    have "?cs ! nat ?e = makeCell (invert ?C) Pawn" using e(3,4) d len co by (simp add: cellAt_def nat_coord_eq)
    then have "sum_list (map cell_weight (?cs[nat ?e := EMPTY_CELL])) + 2 = sum_list (map cell_weight ?cs)"
      using weight_upd [OF e(3), of ?cs EMPTY_CELL] len by (simp add: cell_weight_make)
    moreover have "sum_list (map cell_weight ?cs) + 2 = material b + 2"
      using weight_upd [OF co(1) len, of EMPTY_CELL] weight_upd [OF co(2), of "(cells b)[nat ?s := EMPTY_CELL]" "makeCell ?C Pawn"]
        len co d e(1,2) by (simp add: material_def cellAt_def nat_coord_eq cell_weight_make)
    moreover have "move_cells b m = ?cs[nat ?e := EMPTY_CELL]" by (simp add: move_cells_def Let_def enpassant)
    ultimately show ?thesis by (simp add: material_def cells_moveMake)
  next
    case other
    have "cellAt b ?d = EMPTY_CELL"
    proof (cases "kind m = PawnDoubleMove")
      case True
      then show ?thesis using m unfolding pseudo_legal_def Let_def True MoveKind.case by blast
    next
      case False
      then have "kind m = CastlingKingside \<or> kind m = CastlingQueenside" using other by blast
      then show ?thesis using castling_cells [OF p m] by metis
    qed
    then show ?thesis using c other by (auto simp: isMoveCapture_def isMoveKindPromote_def)
  qed
qed

end
