(* ===== verification/Score.thy ===== *)
theory Score
  imports Prelude
begin

text \<open>
  Scores (\<^verbatim>\<open>src/src/eval/score.h\<close>) and the position costs shown to the user
  (\<^verbatim>\<open>src/src/bot_api/types.h\<close>). A score is the value of an \<^verbatim>\<open>int16_t\<close>, a cost that of an
  \<^verbatim>\<open>int32_t\<close>; \<open>to_i16\<close> is the conversion that wraps around. A pair of scores is one 32-bit word.
\<close>

section \<open>Scores\<close>

type_synonym score = int

definition to_i16 :: "int \<Rightarrow> int" where
  "to_i16 v = sint (word_of_int v :: 16 word)"

definition SCORE_INF :: score where "SCORE_INF = 32767"
definition SCORE_CHECKMATE_THRESHOLD :: score where "SCORE_CHECKMATE_THRESHOLD = 28000"
definition SCORE_CHECKMATE :: score where "SCORE_CHECKMATE = 30000"

lemmas score_consts = SCORE_INF_def SCORE_CHECKMATE_THRESHOLD_def SCORE_CHECKMATE_def

definition scoreCheckmateLose :: "int \<Rightarrow> score" where
  "scoreCheckmateLose plies = to_i16 (plies - SCORE_CHECKMATE)"

definition scoreCheckmateWin :: "int \<Rightarrow> score" where
  "scoreCheckmateWin plies = to_i16 (SCORE_CHECKMATE - plies)"

definition isScoreCheckmate :: "score \<Rightarrow> bool" where
  "isScoreCheckmate score \<longleftrightarrow> score \<le> - SCORE_CHECKMATE_THRESHOLD \<or> score \<ge> SCORE_CHECKMATE_THRESHOLD"

definition isScoreValid :: "score \<Rightarrow> bool" where
  "isScoreValid score =
     (if score > SCORE_CHECKMATE \<or> score < - SCORE_CHECKMATE then False
      else if score \<le> - SCORE_CHECKMATE_THRESHOLD then (score + SCORE_CHECKMATE) mod 2 = 0
      else if score \<ge> SCORE_CHECKMATE_THRESHOLD then (SCORE_CHECKMATE - score) mod 2 \<noteq> 0
      else True)"

definition adjustCheckmate :: "score \<Rightarrow> int \<Rightarrow> score" where
  "adjustCheckmate score delta0 =
     (let delta = (if score \<ge> SCORE_CHECKMATE_THRESHOLD then to_i16 (delta0 * -1)
        else if score > - SCORE_CHECKMATE_THRESHOLD then 0 else delta0)
      in to_i16 (score + delta))"

lemma to_i16_id: "- 32768 \<le> v \<Longrightarrow> v \<le> 32767 \<Longrightarrow> to_i16 v = v"
proof -
  assume v: "- 32768 \<le> v" "v \<le> 32767"
  have "to_i16 v = signed_take_bit 15 v" unfolding to_i16_def by (simp only: signed_of_int len_num0 len_bit0) simp
  also have "\<dots> = v" using v by (intro signed_take_bit_int_eq_self) simp_all
  finally show ?thesis .
qed

section \<open>Position costs\<close>

datatype PositionCostBound = Exact | Lowerbound | Upperbound

datatype PositionCostType = Centipawns | Checkmate

definition MIN_POSITION_COST :: int where "MIN_POSITION_COST = -2000000000"
definition MAX_POSITION_COST :: int where "MAX_POSITION_COST = 2000000000"
definition VALUE_MIN :: int where "VALUE_MIN = -2147483648"
definition VALUE_MAX :: int where "VALUE_MAX = 2147483647"

lemmas cost_consts = MIN_POSITION_COST_def MAX_POSITION_COST_def VALUE_MIN_def VALUE_MAX_def

type_synonym position_cost = int

definition cost_type :: "position_cost \<Rightarrow> PositionCostType" where
  "cost_type v = (if MIN_POSITION_COST \<le> v \<and> v \<le> MAX_POSITION_COST then Centipawns else Checkmate)"

definition cost_centipawns :: "int \<Rightarrow> position_cost" where
  "cost_centipawns cp = cp"

definition cost_checkMate :: "int \<Rightarrow> position_cost" where
  "cost_checkMate moves = (if moves \<le> 0 then VALUE_MIN - moves else VALUE_MAX - (moves - 1))"

definition cost_get_checkMate :: "position_cost \<Rightarrow> int" where
  "cost_get_checkMate v = to_i16 (if v < 0 then VALUE_MIN - v else VALUE_MAX - v + 1)"

definition scoreToPositionCost :: "score \<Rightarrow> position_cost" where
  "scoreToPositionCost score =
     (if score \<le> - SCORE_CHECKMATE_THRESHOLD then
        cost_checkMate (- (drop_bit 1 (score + SCORE_CHECKMATE)))
      else if score \<ge> SCORE_CHECKMATE_THRESHOLD then
        cost_checkMate (drop_bit 1 (SCORE_CHECKMATE - score + 1))
      else cost_centipawns score)"

section \<open>Pairs of scores\<close>

type_synonym score_pair = "32 word"

definition pair_from :: "score \<Rightarrow> score \<Rightarrow> score_pair" where
  "pair_from fst_score snd_score = word_of_int (snd_score * 0x10000 + fst_score)"

definition pair_first :: "score_pair \<Rightarrow> score" where
  "pair_first value = sint (ucast value :: 16 word)"

definition pair_second :: "score_pair \<Rightarrow> score" where
  "pair_second value =
     (let unsignedRes = (ucast (drop_bit 16 value) :: 16 word);
          unsignedRes' = (if pair_first value < 0 then unsignedRes + 1 else unsignedRes)
      in sint unsignedRes')"

definition pair_add :: "score_pair \<Rightarrow> score_pair \<Rightarrow> score_pair" where
  "pair_add a b = a + b"

definition pair_sub :: "score_pair \<Rightarrow> score_pair \<Rightarrow> score_pair" where
  "pair_sub a b = a - b"

definition pair_scale :: "score_pair \<Rightarrow> int \<Rightarrow> score_pair" where
  "pair_scale a k = a * word_of_int k"

definition pair_neg :: "score_pair \<Rightarrow> score_pair" where
  "pair_neg a = - a"

section \<open>What they satisfy\<close>

lemma pair_first_from: "- 32768 \<le> a \<Longrightarrow> a \<le> 32767 \<Longrightarrow> pair_first (pair_from a b) = a"
proof -
  assume a: "- 32768 \<le> a" "a \<le> 32767"
  have "(ucast (word_of_int x :: 32 word) :: 16 word) = word_of_int x" for x
    by (rule bit_word_eqI) (simp add: bit_simps)
  moreover have "(word_of_int (b * 0x10000 + a) :: 16 word) = word_of_int a"
    unfolding word_of_int_eq_iff by (simp add: take_bit_eq_mod)
  ultimately have "(ucast (pair_from a b) :: 16 word) = word_of_int a" by (simp only: pair_from_def)
  then show ?thesis using to_i16_id [OF a] by (simp add: pair_first_def to_i16_def)
qed

lemma pair_second_from:
  assumes "- 32768 \<le> a" "a \<le> 32767" "- 32768 \<le> b" "b \<le> 32767"
  shows "pair_second (pair_from a b) = b"
proof -
  let ?c = "if a < 0 then - 1 else 0 :: int"
  have "(b * 0x10000 + a) div 0x10000 = b + ?c" using assms(1,2) by auto
  then have d: "drop_bit 16 (b * 0x10000 + a) = b + ?c" by (simp only: drop_bit_eq_div) simp
  have "(ucast (drop_bit 16 (word_of_int x :: 32 word)) :: 16 word) = word_of_int (drop_bit 16 x)" for x
    by (rule bit_word_eqI) (simp add: bit_simps)
  from this [of "b * 0x10000 + a"] have "(ucast (drop_bit 16 (pair_from a b)) :: 16 word) = word_of_int (b + ?c)"
    unfolding d pair_from_def .
  then have "pair_second (pair_from a b) = sint (word_of_int b :: 16 word)"
    using pair_first_from [OF assms(1,2), of b] by (simp add: pair_second_def Let_def)
  then show ?thesis using to_i16_id [OF assms(3,4)] by (simp add: to_i16_def)
qed

lemma pair_arith:
  "pair_add (pair_from a b) (pair_from c d) = pair_from (a + c) (b + d)"
  "pair_sub (pair_from a b) (pair_from c d) = pair_from (a - c) (b - d)"
  "pair_scale (pair_from a b) k = pair_from (a * k) (b * k)"
  "pair_neg (pair_from a b) = pair_from (- a) (- b)"
  by (simp_all add: pair_from_def pair_add_def pair_sub_def pair_scale_def pair_neg_def algebra_simps
      flip: wi_hom_add wi_hom_sub wi_hom_mult wi_hom_neg)

lemma cost_checkMate_roundtrip:
  "- 32768 \<le> m \<Longrightarrow> m \<le> 32767 \<Longrightarrow> cost_get_checkMate (cost_checkMate m) = m \<and> cost_type (cost_checkMate m) = Checkmate"
  by (auto simp: cost_get_checkMate_def cost_checkMate_def cost_type_def cost_consts to_i16_id)

lemma scoreToPositionCost_values:
  "isScoreValid s \<Longrightarrow> s \<le> - 28000 \<Longrightarrow> 2 * (scoreToPositionCost s - VALUE_MIN) = s + 30000 \<and> 0 \<le> s + 30000"
  "isScoreValid s \<Longrightarrow> s \<ge> 28000 \<Longrightarrow> 2 * (VALUE_MAX - scoreToPositionCost s) = 30000 - s - 1 \<and> 0 \<le> 30000 - s"
  "- 28000 < s \<Longrightarrow> s < 28000 \<Longrightarrow> scoreToPositionCost s = s"
proof -
  have half: "2 * drop_bit 1 x = x - x mod 2" for x :: int by (simp add: drop_bit_eq_div minus_mod_eq_mult_div)
  show "isScoreValid s \<Longrightarrow> s \<le> - 28000 \<Longrightarrow> 2 * (scoreToPositionCost s - VALUE_MIN) = s + 30000 \<and> 0 \<le> s + 30000"
    using half [of "s + 30000"]
    by (auto simp: scoreToPositionCost_def isScoreValid_def cost_checkMate_def score_consts drop_bit_eq_div split: if_splits)
  show "isScoreValid s \<Longrightarrow> s \<ge> 28000 \<Longrightarrow> 2 * (VALUE_MAX - scoreToPositionCost s) = 30000 - s - 1 \<and> 0 \<le> 30000 - s"
  proof -
    assume v: "isScoreValid s" "s \<ge> 28000"
    then have r: "s \<le> 30000" "(30000 - s) mod 2 = 1" by (auto simp: isScoreValid_def score_consts split: if_splits)
    then have m: "(30000 - s + 1) mod 2 = 0" by presburger
    have p: "0 < drop_bit 1 (30000 - s + 1)" using half [of "30000 - s + 1"] m r by linarith
    have "scoreToPositionCost s = VALUE_MAX - (drop_bit 1 (30000 - s + 1) - 1)"
      using v(2) p by (simp add: scoreToPositionCost_def cost_checkMate_def score_consts)
    then show ?thesis using half [of "30000 - s + 1"] m r by simp
  qed
  show "- 28000 < s \<Longrightarrow> s < 28000 \<Longrightarrow> scoreToPositionCost s = s"
    by (simp add: scoreToPositionCost_def cost_centipawns_def score_consts)
qed

lemma scoreToPositionCost_mono:
  assumes "isScoreValid a" "isScoreValid b" "a < b"
  shows "scoreToPositionCost a < scoreToPositionCost b"
proof -
  note v = scoreToPositionCost_values [of a] scoreToPositionCost_values [of b]
  consider "a \<le> - 28000" | "- 28000 < a" "a < 28000" | "28000 \<le> a" by linarith
  then show ?thesis
    by cases (use v assms in \<open>cases "b \<le> - 28000"; cases "b < 28000"; simp add: cost_consts; linarith\<close>)+
qed

lemma adjustCheckmate_roundtrip:
  assumes "isScoreValid s" "0 \<le> ply" "ply \<le> 264"
  shows "adjustCheckmate (adjustCheckmate s (- ply)) ply = s"
proof -
  have s: "- 30000 \<le> s" "s \<le> 30000" using assms(1) by (auto simp: isScoreValid_def score_consts split: if_splits)
  consider "s \<ge> 28000" | "- 28000 < s" "s < 28000" | "s \<le> - 28000" by linarith
  then show ?thesis using assms(2,3) s
    by cases (simp_all add: adjustCheckmate_def Let_def score_consts to_i16_id)
qed

end
