(* ===== verification/Trans_Table.thy ===== *)
theory Trans_Table
  imports Move_Lemmas Score
begin

text \<open>
  The transposition table (\<^verbatim>\<open>src/src/search/private/transposition_table.h\<close>,
  \<^verbatim>\<open>transposition_table.cpp\<close>) and the splitting of a range among threads
  (\<^verbatim>\<open>src/src/util/parallel.cpp\<close>). An entry is a pair of words that other threads may write between two
  reads; the key is stored in exclusive or with the data, so that a torn entry is noticed.
  Operations on a table no other thread uses are functions; single reads and writes are steps.
\<close>

section \<open>Data of an entry\<close>

fun boundVal :: "PositionCostBound \<Rightarrow> u8" where
  "boundVal Exact = 0"
| "boundVal Lowerbound = 1"
| "boundVal Upperbound = 2"

record tt_data =
  td_move_raw :: move
  td_score_raw :: i16
  td_flags :: u8
  td_epoch :: u8

definition FLAG_IS_VALID :: u8 where "FLAG_IS_VALID = 8"

definition td_move :: "tt_data \<Rightarrow> move" where
  "td_move d = (td_move_raw d)\<lparr>tag := 0\<rparr>"

definition td_score :: "tt_data \<Rightarrow> score" where
  "td_score d = sint (td_score_raw d)"

definition td_depth :: "tt_data \<Rightarrow> int" where
  "td_depth d = uint (tag (td_move_raw d))"

definition td_isValid :: "tt_data \<Rightarrow> bool" where
  "td_isValid d \<longleftrightarrow> td_flags d AND FLAG_IS_VALID \<noteq> 0"

text \<open>The bound as its numeric value: nothing forbids 3 in an entry that was not written by the program.\<close>

definition td_bound :: "tt_data \<Rightarrow> u8" where
  "td_bound d = td_flags d AND 3"

definition tt_Data :: "move \<Rightarrow> score \<Rightarrow> int \<Rightarrow> PositionCostBound \<Rightarrow> tt_data" where
  "tt_Data m score depth bound =
     \<lparr>td_move_raw = m\<lparr>tag := word_of_int depth\<rparr>, td_score_raw = word_of_int score,
      td_flags = boundVal bound OR FLAG_IS_VALID, td_epoch = 0\<rparr>"

definition td_zero :: tt_data where
  "td_zero = \<lparr>td_move_raw = move_null, td_score_raw = 0, td_flags = 0, td_epoch = 0\<rparr>"

definition td_asUint :: "tt_data \<Rightarrow> u64" where
  "td_asUint d = ucast (asUint (td_move_raw d)) OR push_bit 32 (ucast (td_score_raw d)) OR
     push_bit 48 (ucast (td_flags d)) OR push_bit 56 (ucast (td_epoch d))"

definition td_equal :: "tt_data \<Rightarrow> tt_data \<Rightarrow> bool" where
  "td_equal d1 d2 \<longleftrightarrow> td_asUint d1 = td_asUint d2"

text \<open>\<^verbatim>\<open>operator!=\<close> as the source has it.\<close>

definition td_not_equal :: "tt_data \<Rightarrow> tt_data \<Rightarrow> bool" where
  "td_not_equal d1 d2 \<longleftrightarrow> td_asUint d1 = td_asUint d2"

definition td_weight :: "tt_data \<Rightarrow> u8 \<Rightarrow> int" where
  "td_weight d curEpoch =
     (if \<not> td_isValid d then - (2 ^ 31)
      else let age = curEpoch - td_epoch d; result = td_depth d - 2 * uint age
           in if td_bound d = boundVal Exact then result + 3 else result)"

section \<open>The table\<close>

record tt_entry =
  ent_value :: tt_data
  ent_key :: u64

record trans_table =
  tt_size :: nat
  tt_table :: "tt_entry list"
  tt_epoch :: u8

definition ent_zero :: tt_entry where
  "ent_zero = \<lparr>ent_value = td_zero, ent_key = 0\<rparr>"

definition ENTRY_BYTES :: nat where "ENTRY_BYTES = 16"
definition DEFAULT_SIZE :: nat where "DEFAULT_SIZE = 2 ^ 25"

definition tt_index :: "nat \<Rightarrow> u64 \<Rightarrow> nat" where
  "tt_index n key = unat (key AND (of_nat n - 1))"

text \<open>What a load makes of the two words it has read.\<close>

definition load_check :: "u64 \<Rightarrow> tt_data \<Rightarrow> u64 \<Rightarrow> tt_data" where
  "load_check key entryData keyWord =
     (let entryKey = keyWord XOR td_asUint entryData in if entryKey \<noteq> key then td_zero else entryData)"

definition tt_load :: "trans_table \<Rightarrow> u64 \<Rightarrow> tt_data" where
  "tt_load t key =
     (let entry = tt_table t ! tt_index (tt_size t) key in load_check key (ent_value entry) (ent_key entry))"

definition tt_store :: "trans_table \<Rightarrow> u64 \<Rightarrow> tt_data \<Rightarrow> trans_table" where
  "tt_store t key value0 =
     (let idx = tt_index (tt_size t) key; epoch = tt_epoch t; entry = tt_table t ! idx;
          value = value0\<lparr>td_epoch := epoch\<rparr>
      in if td_weight (ent_value entry) epoch > td_weight value epoch then t
         else t\<lparr>tt_table := (tt_table t)[idx := \<lparr>ent_value = value, ent_key = key XOR td_asUint value\<rparr>]\<rparr>)"

definition growEpoch :: "trans_table \<Rightarrow> u8 \<Rightarrow> trans_table" where
  "growEpoch t amount = t\<lparr>tt_epoch := tt_epoch t + amount\<rparr>"

definition resetEpoch :: "trans_table \<Rightarrow> trans_table" where
  "resetEpoch t = t\<lparr>tt_epoch := tt_epoch t + 19\<rparr>"

definition sizeBytes :: "trans_table \<Rightarrow> nat" where
  "sizeBytes t = tt_size t * ENTRY_BYTES"

definition isCurrentEpoch :: "trans_table \<Rightarrow> tt_data \<Rightarrow> bool" where
  "isCurrentEpoch t d \<longleftrightarrow> td_epoch d = tt_epoch t"

section \<open>Splitting a range\<close>

text \<open>
  The segments \<^verbatim>\<open>processSegmentParallel\<close> hands to its threads; for zero jobs the division is undefined
  in the source, \<open>None\<close> here.
\<close>

fun cut_segments :: "nat \<Rightarrow> nat \<Rightarrow> nat \<Rightarrow> nat \<Rightarrow> nat \<Rightarrow> (nat \<times> nat) list" where
  "cut_segments blockSize blockRemainder i 0 curLeft = []"
| "cut_segments blockSize blockRemainder i (Suc n) curLeft =
     (let curSize = (if i < blockRemainder then blockSize + 1 else blockSize); curRight = curLeft + curSize
      in (curLeft, curRight) # cut_segments blockSize blockRemainder (i + 1) n curRight)"

definition segments :: "nat \<Rightarrow> nat \<Rightarrow> nat \<Rightarrow> (nat \<times> nat) list option" where
  "segments left right jobs0 =
     (if left \<ge> right then Some []
      else let distance = right - left; jobs = min jobs0 distance
      in if jobs = 1 then Some [(left, right)]
      else if jobs = 0 then None
      else Some (cut_segments (distance div jobs) (distance mod jobs) 0 jobs left))"

text \<open>
  The threads run in the order of the segments. They work on disjoint parts of the array everywhere
  but in \<open>resize_grow\<close>, where two threads may write the same entry and the last write stays.
\<close>

definition processSegmentParallel :: "nat \<Rightarrow> nat \<Rightarrow> nat \<Rightarrow> (nat \<Rightarrow> nat \<Rightarrow> 's \<Rightarrow> 's) \<Rightarrow> 's \<Rightarrow> 's option" where
  "processSegmentParallel left right jobs func s =
     map_option (\<lambda>segs. fold (\<lambda>(l, r). func l r) segs s) (segments left right jobs)"

section \<open>Clearing and resizing\<close>

definition clear_range :: "nat \<Rightarrow> nat \<Rightarrow> tt_entry list \<Rightarrow> tt_entry list" where
  "clear_range left right tab = fold (\<lambda>i tab. tab[i := ent_zero]) [left..<right] tab"

definition doClear :: "tt_entry list \<Rightarrow> nat \<Rightarrow> nat \<Rightarrow> tt_entry list option" where
  "doClear tab n jobs = processSegmentParallel 0 n jobs clear_range tab"

definition tt_clear :: "trans_table \<Rightarrow> nat \<Rightarrow> trans_table option" where
  "tt_clear t jobs = map_option (\<lambda>tab. t\<lparr>tt_table := tab\<rparr>) (doClear (tt_table t) (tt_size t) jobs)"

text \<open>The first power of two above \<open>maxSize\<close>: from \<open>2 ^ 63\<close> on the shift yields zero and the loop goes on.\<close>

partial_function (option) new_size_loop :: "u64 \<Rightarrow> u64 \<Rightarrow> u64 option" where
  "new_size_loop maxSize newSize =
     (if newSize \<le> maxSize then new_size_loop maxSize (push_bit 1 newSize) else Some newSize)"

definition new_size :: "u64 \<Rightarrow> nat option" where
  "new_size maxSize0 = (let maxSize = max maxSize0 (2 ^ 20)
     in map_option (\<lambda>s. unat (drop_bit 1 s) div ENTRY_BYTES) (new_size_loop maxSize 1))"

definition grow_range :: "tt_entry list \<Rightarrow> nat \<Rightarrow> nat \<Rightarrow> nat \<Rightarrow> tt_entry list \<Rightarrow> tt_entry list" where
  "grow_range tab newSize left right newData =
     fold (\<lambda>i newTab. let value = ent_value (tab ! i); key = ent_key (tab ! i);
         idx = unat ((key XOR td_asUint value) AND (of_nat newSize - 1))
       in newTab[idx := \<lparr>ent_value = value, ent_key = key\<rparr>]) [left..<right] newData"

definition replace_if_heavier :: "u8 \<Rightarrow> tt_entry list \<Rightarrow> nat \<Rightarrow> nat \<Rightarrow> tt_entry list \<Rightarrow> tt_entry list" where
  "replace_if_heavier epoch tab offset i newTab =
     (if td_weight (ent_value (tab ! (i + offset))) epoch > td_weight (ent_value (newTab ! i)) epoch
      then newTab[i := tab ! (i + offset)] else newTab)"

text \<open>The loop \<open>for (offset = newSize; offset < size_; offset += newSize)\<close>.\<close>

definition shrink_offsets :: "nat \<Rightarrow> nat \<Rightarrow> nat list" where
  "shrink_offsets oldSize newSize = takeWhile (\<lambda>offset. offset < oldSize) (map (\<lambda>k. k * newSize) [1..<oldSize + 1])"

definition shrink_range :: "u8 \<Rightarrow> tt_entry list \<Rightarrow> nat \<Rightarrow> nat \<Rightarrow> nat \<Rightarrow> nat \<Rightarrow> tt_entry list \<Rightarrow> tt_entry list" where
  "shrink_range epoch tab oldSize newSize left right newData =
     fold (\<lambda>offset. fold (replace_if_heavier epoch tab offset) [left..<right]) (shrink_offsets oldSize newSize)
       (fold (\<lambda>i newTab. newTab[i := tab ! i]) [left..<right] newData)"

text \<open>\<open>uninit\<close> is what the memory of the new array holds before it is written.\<close>

definition resize_data :: "tt_entry list \<Rightarrow> trans_table \<Rightarrow> nat \<Rightarrow> bool \<Rightarrow> nat \<Rightarrow> tt_entry list option" where
  "resize_data uninit t newSize clearTable jobs =
     (let newData = take newSize uninit
      in if clearTable then doClear newData newSize jobs
      else if newSize > tt_size t
      then Option.bind (doClear newData newSize jobs)
        (processSegmentParallel 0 (tt_size t) jobs (grow_range (tt_table t) newSize))
      else processSegmentParallel 0 newSize jobs (shrink_range (tt_epoch t) (tt_table t) (tt_size t) newSize) newData)"

definition tt_resize :: "tt_entry list \<Rightarrow> trans_table \<Rightarrow> u64 \<Rightarrow> bool \<Rightarrow> nat \<Rightarrow> trans_table option" where
  "tt_resize uninit t maxSize clearTable jobs =
     Option.bind (new_size maxSize) (\<lambda>newSize.
       if newSize = tt_size t then (if clearTable then tt_clear t jobs else Some t)
       else map_option (\<lambda>data. t\<lparr>tt_table := data, tt_size := newSize\<rparr>) (resize_data uninit t newSize clearTable jobs))"

definition newTranspositionTable :: "tt_entry list \<Rightarrow> trans_table option" where
  "newTranspositionTable uninit =
     (let n = DEFAULT_SIZE div ENTRY_BYTES
      in tt_clear \<lparr>tt_size = n, tt_table = take n uninit, tt_epoch = 0\<rparr> 1)"

end
