(* ===== verification/Trans_Lemmas.thy ===== *)
theory Trans_Lemmas
  imports Trans_Table
begin

text \<open>
  What the transposition table promises: a store is seen by the loads of its key and of no other one,
  the segments given to the threads partition the range, clearing and resizing act on every index
  whatever the number of threads, and what is read from an entry that other threads are writing.
\<close>

section \<open>Indices\<close>

definition tt_ok :: "trans_table \<Rightarrow> bool" where
  "tt_ok t \<longleftrightarrow> length (tt_table t) = tt_size t \<and> (\<exists>k < 64. tt_size t = 2 ^ k)"

lemma index_mod:
  assumes "n = 2 ^ k" "k < 64"
  shows "tt_index n key = unat key mod n"
proof -
  have "(of_nat n - 1 :: u64) = mask k" using assms by (simp add: mask_eq_exp_minus_1)
  then have "tt_index n key = unat (take_bit k key)" by (simp add: tt_index_def take_bit_eq_mask)
  then have "tt_index n key = take_bit k (unat key)" by (simp only: unsigned_take_bit_eq)
  then show ?thesis using assms(1) by (simp add: take_bit_eq_mod)
qed

lemma index_lt: "tt_ok t \<Longrightarrow> tt_index (tt_size t) key < length (tt_table t)"
  by (auto simp: tt_ok_def index_mod)

section \<open>Load and store\<close>

lemma td_zero_values [simp]: "td_asUint td_zero = 0" "td_isValid td_zero = False"
  by (simp_all add: td_zero_def td_asUint_def asUint_def move_null_def mkMove_def td_isValid_def FLAG_IS_VALID_def)

definition store_rejected :: "trans_table \<Rightarrow> u64 \<Rightarrow> tt_data \<Rightarrow> bool" where
  "store_rejected t key d \<longleftrightarrow>
     td_weight (ent_value (tt_table t ! tt_index (tt_size t) key)) (tt_epoch t) > td_weight (d\<lparr>td_epoch := tt_epoch t\<rparr>) (tt_epoch t)"

lemma store_rejected_eq: "store_rejected t key d \<Longrightarrow> tt_store t key d = t"
  by (simp add: tt_store_def store_rejected_def Let_def)

lemma store_accepted_eq: "\<not> store_rejected t key d \<Longrightarrow>
  tt_store t key d = t\<lparr>tt_table := (tt_table t)[tt_index (tt_size t) key :=
    \<lparr>ent_value = d\<lparr>td_epoch := tt_epoch t\<rparr>, ent_key = key XOR td_asUint (d\<lparr>td_epoch := tt_epoch t\<rparr>)\<rparr>]\<rparr>"
  by (simp add: tt_store_def store_rejected_def Let_def)

lemma load_entry: "tt_load t key =
  (if ent_key (tt_table t ! tt_index (tt_size t) key) XOR td_asUint (ent_value (tt_table t ! tt_index (tt_size t) key)) = key
   then ent_value (tt_table t ! tt_index (tt_size t) key) else td_zero)"
  by (simp add: tt_load_def load_check_def Let_def)

lemma store_ok: "tt_ok t \<Longrightarrow> tt_ok (tt_store t key d)"
  by (cases "store_rejected t key d") (simp_all add: store_rejected_eq store_accepted_eq tt_ok_def)

lemma load_store_cases:
  assumes "tt_ok t"
  shows "tt_load (tt_store t key d) key' =
    (if store_rejected t key d \<or> tt_index (tt_size t) key' \<noteq> tt_index (tt_size t) key then tt_load t key'
     else if key' = key then d\<lparr>td_epoch := tt_epoch t\<rparr> else td_zero)"
  using index_lt [OF assms, of key]
  by (cases "store_rejected t key d") (auto simp: store_rejected_eq store_accepted_eq load_entry)

lemma weight_invalid: "\<not> td_isValid d \<Longrightarrow> td_weight d e = - (2 ^ 31)"
  by (simp add: td_weight_def)

lemma weight_ge: "- (2 ^ 31) \<le> td_weight d e"
proof (cases "td_isValid d")
  case True
  have "0 \<le> td_depth d" by (simp add: td_depth_def)
  moreover have "uint (e - td_epoch d) < 2 ^ 8" using uint_lt2p [of "e - td_epoch d"] by simp
  ultimately show ?thesis using True by (simp add: td_weight_def Let_def)
qed (simp add: td_weight_def)

section \<open>Segments\<close>

fun covers :: "nat \<Rightarrow> (nat \<times> nat) list \<Rightarrow> nat \<Rightarrow> bool" where
  "covers l [] r \<longleftrightarrow> l = r"
| "covers l ((a, b) # segs) r \<longleftrightarrow> a = l \<and> a \<le> b \<and> covers b segs r"

lemma covers_le: "covers l segs r \<Longrightarrow> l \<le> r"
  by (induction l segs r rule: covers.induct) auto

lemma cut_segments_covers:
  "covers l (cut_segments bs rm i n l) (l + n * bs + (min (i + n) rm - min i rm))"
proof (induction n arbitrary: i l)
  case (Suc n)
  let ?c = "if i < rm then bs + 1 else bs"
  have "l + ?c + n * bs + (min (Suc i + n) rm - min (Suc i) rm) = l + Suc n * bs + (min (i + Suc n) rm - min i rm)"
    by (auto simp: min_def)
  then show ?case using Suc [of "l + ?c" "Suc i"] by (simp add: Let_def)
qed simp

lemma segments_ok:
  assumes "0 < jobs" "left \<le> right"
  obtains segs where "segments left right jobs = Some segs" "covers left segs right" "length segs \<le> jobs"
    "\<forall>(a, b) \<in> set segs. a < b"
proof -
  have len: "length (cut_segments bs rm i n l) = n" for bs rm i n l
    by (induction n arbitrary: i l) (simp_all add: Let_def)
  have pos: "\<forall>(a, b) \<in> set (cut_segments bs rm i n l). a < b" if "0 < bs" for bs rm i n l
    using that by (induction n arbitrary: i l) (auto simp: Let_def)
  let ?d = "right - left" and ?j = "min jobs (right - left)"
  show thesis
  proof (cases "right \<le> left")
    case True
    then show thesis using that [of "[]"] assms by (simp add: segments_def)
  next
    case False
    then have j: "0 < ?j" "?j \<le> jobs" "0 < ?d div ?j" using assms by (auto simp: div_greater_zero_iff)
    have "left + ?j * (?d div ?j) + (min (0 + ?j) (?d mod ?j) - min 0 (?d mod ?j)) = right"
      using False mod_less_divisor [OF j(1), of ?d] by (simp add: min_absorb2 less_imp_le mult_div_mod_eq)
    then have "covers left (cut_segments (?d div ?j) (?d mod ?j) 0 ?j left) right"
      using cut_segments_covers [of left "?d div ?j" "?d mod ?j" 0 ?j] by (simp only:)
    then show thesis using that [of "[(left, right)]"] that [of "cut_segments (?d div ?j) (?d mod ?j) 0 ?j left"]
        False j len pos [OF j(3)] assms by (auto simp: segments_def Let_def)
  qed
qed

lemma covers_concat: "covers l segs r \<Longrightarrow> concat (map (\<lambda>(a, b). [a..<b]) segs) = [l..<r]"
proof (induction l segs r rule: covers.induct)
  case (2 l a b segs r)
  then have "l \<le> b" "b \<le> r" using covers_le by auto
  then have "[l..<r] = [l..<b] @ [b..<r]" using upt_add_eq_append [of l b "r - b"] by simp
  then show ?case using 2 by simp
qed simp

lemma fold_segments: "fold (\<lambda>(l, r). fold h [l..<r]) segs s = fold h (concat (map (\<lambda>(a, b). [a..<b]) segs)) s"
  by (induction segs arbitrary: s) auto

text \<open>A range processed element by element is processed in order, whatever the number of jobs.\<close>

lemma process_fold:
  assumes "0 < jobs" "left \<le> right" "\<And>l r. func l r = fold h [l..<r]"
  shows "processSegmentParallel left right jobs func s = Some (fold h [left..<right] s)"
  using segments_ok [OF assms(1,2)] fold_segments [of h _ s] covers_concat
  unfolding processSegmentParallel_def assms(3) by (metis option.map(2))

text \<open>A function that sets the entries of its range and reads no others sets the whole range.\<close>

definition sets_range :: "nat \<Rightarrow> (nat \<Rightarrow> 'a) \<Rightarrow> (nat \<Rightarrow> nat \<Rightarrow> 'a list \<Rightarrow> 'a list) \<Rightarrow> bool" where
  "sets_range n F func \<longleftrightarrow> (\<forall>l r tab. l \<le> r \<longrightarrow> r \<le> n \<longrightarrow> length tab = n \<longrightarrow>
     func l r tab = map (\<lambda>i. if l \<le> i \<and> i < r then F i else tab ! i) [0..<n])"

lemma process_sets_range:
  assumes "0 < jobs" "sets_range n F func" "length tab = n"
  shows "processSegmentParallel 0 n jobs func tab = Some (map F [0..<n])"
proof -
  have "fold (\<lambda>(l, r). func l r) segs tab = map (\<lambda>i. if l \<le> i \<and> i < r then F i else tab ! i) [0..<n]"
    if "covers l segs r" "r \<le> n" "length tab = n" for l segs r tab
    using that
  proof (induction l segs r arbitrary: tab rule: covers.induct)
    case (1 l r)
    then show ?case by (auto intro!: nth_equalityI)
  next
    case (2 l a b segs r)
    have le: "l \<le> b" "b \<le> r" using 2(2) covers_le by auto
    then have "b \<le> n" using 2(3) by simp
    have "func l b tab = map (\<lambda>i. if l \<le> i \<and> i < b then F i else tab ! i) [0..<n]"
      using assms(2) le \<open>b \<le> n\<close> 2(4) by (simp add: sets_range_def)
    then show ?case using 2(1) [of "func l b tab"] 2(2,3) le by (auto intro!: map_cong)
  qed
  note f = this
  obtain segs where s: "segments 0 n jobs = Some segs" "covers 0 segs n" using segments_ok [OF assms(1), of 0 n] by auto
  have "fold (\<lambda>(l, r). func l r) segs tab = map F [0..<n]" unfolding f [OF s(2) order_refl assms(3)] by auto
  then show ?thesis by (simp add: processSegmentParallel_def s(1))
qed

lemma fold_pointwise:
  assumes "l \<le> r" "r \<le> length tab" "\<And>i T. i < length tab \<Longrightarrow> length T = length tab \<Longrightarrow> h i T = T[i := f i (T ! i)]"
  shows "fold h [l..<r] tab = map (\<lambda>i. if l \<le> i \<and> i < r then f i (tab ! i) else tab ! i) [0..<length tab]"
  using assms(1,2)
proof (induction r)
  case 0
  then show ?case by (auto intro!: nth_equalityI)
next
  case (Suc r)
  show ?case
  proof (cases "l = Suc r")
    case True
    then show ?thesis by (auto intro!: nth_equalityI)
  next
    case False
    then have le: "l \<le> r" "r < length tab" using Suc(2,3) by auto
    have "fold h [l..<Suc r] tab = h r (fold h [l..<r] tab)" using le by simp
    also have "\<dots> = h r (map (\<lambda>i. if l \<le> i \<and> i < r then f i (tab ! i) else tab ! i) [0..<length tab])"
      using Suc le by simp
    also have "\<dots> = map (\<lambda>i. if l \<le> i \<and> i < Suc r then f i (tab ! i) else tab ! i) [0..<length tab]"
      using le by (auto intro!: nth_equalityI simp: assms(3) nth_list_update)
    finally show ?thesis .
  qed
qed

lemma clear_sets_range: "sets_range n (\<lambda>_. ent_zero) clear_range"
  unfolding sets_range_def clear_range_def by (auto simp: fold_pointwise [where f = "\<lambda>_ _. ent_zero"])

lemma doClear_eq: "0 < jobs \<Longrightarrow> length tab = n \<Longrightarrow> doClear tab n jobs = Some (replicate n ent_zero)"
  using process_sets_range [OF _ clear_sets_range] by (simp add: doClear_def map_replicate_const)

section \<open>The size of a resized table\<close>

lemma unat_shift_one: "i < 64 \<Longrightarrow> unat (push_bit i 1 :: u64) = 2 ^ i"
proof -
  assume i: "i < 64"
  have "push_bit i 1 = (of_nat (2 ^ i) :: u64)" by simp
  moreover have "unat (of_nat (2 ^ i) :: u64) = 2 ^ i"
    unfolding unat_of_nat by (rule mod_less) (use i in \<open>simp only: len_num0 len_bit0, intro power_strict_increasing, auto\<close>)
  ultimately show ?thesis by (simp only:)
qed

lemma new_size_loop_pow:
  assumes "i \<le> j" "j < 64" "2 ^ (j - 1) \<le> unat m" "0 < j" "unat m < 2 ^ j"
  shows "new_size_loop m (push_bit i 1) = Some (push_bit j 1)"
  using assms(1)
proof (induction "j - i" arbitrary: i)
  case 0
  then have "unat (push_bit i (1 :: u64)) = 2 ^ j" using assms(2) unat_shift_one [of j] by simp
  then show ?case using assms(5) 0 by (subst new_size_loop.simps) (simp add: word_le_nat_alt)
next
  case (Suc d)
  have "(2::nat) ^ i \<le> 2 ^ (j - 1)" using Suc(2) by (intro power_increasing) auto
  then have "push_bit i 1 \<le> m" unfolding word_le_nat_alt using assms(2,3) Suc(2) unat_shift_one [of i] by linarith
  moreover have "push_bit 1 (push_bit i 1 :: u64) = push_bit (Suc i) 1" by (simp add: push_bit_double)
  ultimately show ?case using Suc(1) [of "Suc i"] Suc(2)
    by (subst new_size_loop.simps) (simp del: push_bit_of_1)
qed

lemma new_size_loop_stuck:
  "new_size_loop m s = Some r \<Longrightarrow> 2 ^ 63 \<le> unat m \<longrightarrow> s = 0 \<or> (\<exists>i < 64. s = push_bit i 1) \<longrightarrow> False"
proof (erule new_size_loop.raw_induct [rotated], intro impI)
  fix loop m s r
  assume IH: "\<And>m s r. loop m s = Some r \<Longrightarrow> 2 ^ 63 \<le> unat m \<longrightarrow> s = 0 \<or> (\<exists>i < 64. s = push_bit i 1) \<longrightarrow> False"
    and eq: "(if s \<le> m then loop m (push_bit 1 s) else Some s) = Some r"
    and m: "2 ^ 63 \<le> unat m" and s: "s = (0 :: u64) \<or> (\<exists>i < 64. s = push_bit i 1)"
  have next_s: "push_bit 1 s = 0 \<or> (\<exists>i < 64. push_bit 1 s = push_bit i 1)"
  proof (cases "s = 0")
    case False
    then obtain i where i: "i < 64" "s = push_bit i 1" using s by blast
    have e: "push_bit 1 s = push_bit (i + 1) 1" by (simp add: i(2) push_bit_push_bit ac_simps)
    show ?thesis
    proof (cases "i = 63")
      case True
      have "push_bit 64 (1 :: u64) = 0" by (rule bit_word_eqI) (simp only: bit_push_bit_iff, simp)
      then show ?thesis using e True by simp
    next
      case False
      then show ?thesis using e i(1) by (intro disjI2 exI [of _ "i + 1"]) simp
    qed
  qed simp
  have "s \<le> m"
  proof (cases "s = 0")
    case False
    then obtain i where i: "i < 64" "s = push_bit i 1" using s by blast
    have "(2::nat) ^ i \<le> 2 ^ 63" using i(1) by (intro power_increasing) auto
    then show ?thesis unfolding word_le_nat_alt i(2) using m unat_shift_one [OF i(1)] by linarith
  qed simp
  then have "loop m (push_bit 1 s) = Some r" using eq by (simp only: if_True)
  then show False using IH m next_s by blast
qed

lemma new_size_power:
  assumes "unat m < 2 ^ 63"
  obtains k where "new_size m = Some (2 ^ k)" "k < 60" "2 ^ k * 16 \<le> max (unat m) (2 ^ 20)" "max (unat m) (2 ^ 20) < 2 ^ (k + 1) * 16"
proof -
  let ?M = "max m (2 ^ 20)"
  have M: "unat ?M = max (unat m) (2 ^ 20)" by (simp add: max_def word_le_nat_alt)
  obtain n where n: "2 ^ n \<le> unat ?M" "unat ?M < 2 ^ (n + 1)"
    using ex_power_ivl1 [of 2 "unat ?M"] unfolding M by (metis le_max_iff_disj one_le_numeral one_le_power order_refl)
  have "unat ?M < 2 ^ 63" unfolding M using assms by simp
  then have "(2::nat) ^ n < 2 ^ 63" using n(1) by linarith
  then have n63: "n < 63" by (rule power_less_imp_less_exp [rotated]) simp
  have "(2::nat) ^ 20 < 2 ^ (n + 1)" using n(2) unfolding M by simp
  then have n20: "20 \<le> n" by (metis less_Suc_eq_le Suc_eq_plus1 power_less_imp_less_exp one_less_numeral_iff semiring_norm(76))
  have "new_size_loop ?M (push_bit 0 1) = Some (push_bit (n + 1) 1)"
    using n n63 by (intro new_size_loop_pow) auto
  moreover have "drop_bit 1 (push_bit (n + 1) 1 :: u64) = push_bit n 1"
    using n63 by (intro bit_word_eqI) (auto simp: bit_simps)
  ultimately have "new_size m = Some (2 ^ n div 16)"
    using n63 unat_shift_one [of n] by (simp add: new_size_def Let_def ENTRY_BYTES_def del: push_bit_of_1)
  moreover have e: "(2::nat) ^ n = 2 ^ (n - 4) * 16" using n20 power_add [of "2::nat" "n - 4" 4] by simp
  ultimately show thesis using that [of "n - 4"] n n63 n20 unfolding M by simp
qed

lemma new_size_diverges: "2 ^ 63 \<le> unat m \<Longrightarrow> new_size m = None"
proof -
  assume m: "2 ^ 63 \<le> unat m"
  then have "2 ^ 63 \<le> unat (max m (2 ^ 20))" by (simp add: max_def word_le_nat_alt)
  moreover have "\<exists>i < 64. (1 :: u64) = push_bit i 1" by (intro exI [of _ 0]) simp
  ultimately have "new_size_loop (max m (2 ^ 20)) 1 = None"
    using new_size_loop_stuck [of "max m (2 ^ 20)" 1] by (cases "new_size_loop (max m (2 ^ 20)) 1") blast+
  then show ?thesis by (simp add: new_size_def Let_def)
qed

end
