(* ===== verification/Trans_Resize.thy ===== *)
theory Trans_Resize
  imports Trans_Lemmas
begin

text \<open>
  Resizing the transposition table: every entry stays at the index of its key, no key gets the data of
  another one, a shrunk table keeps the heaviest entries and a grown table keeps all of them, except for
  what lies at index 0, which the empty entries of the old table overwrite.
\<close>

section \<open>Entries at the index of their key\<close>

definition ent_hash :: "tt_entry \<Rightarrow> u64" where
  "ent_hash e = ent_key e XOR td_asUint (ent_value e)"

definition tt_wf :: "trans_table \<Rightarrow> bool" where
  "tt_wf t \<longleftrightarrow> tt_ok t \<and> (\<forall>i < tt_size t. tt_table t ! i = ent_zero \<or> tt_index (tt_size t) (ent_hash (tt_table t ! i)) = i)"

lemma ent_hash_zero [simp]: "ent_hash ent_zero = 0"
  by (simp add: ent_hash_def ent_zero_def)

lemma load_hash: "tt_load t key = (let e = tt_table t ! tt_index (tt_size t) key in if ent_hash e = key then ent_value e else td_zero)"
  by (simp add: load_entry ent_hash_def Let_def)

lemma ent_value_zero [simp]: "ent_value ent_zero = td_zero"
  by (simp add: ent_zero_def)

lemma store_wf:
  assumes "tt_wf t"
  shows "tt_wf (tt_store t key d)"
proof (cases "store_rejected t key d")
  case True
  then show ?thesis using assms by (simp add: store_rejected_eq)
next
  case False
  let ?d = "d\<lparr>td_epoch := tt_epoch t\<rparr>"
  have h: "ent_hash \<lparr>ent_value = ?d, ent_key = key XOR td_asUint ?d\<rparr> = key" by (simp add: ent_hash_def)
  have "tt_ok (tt_store t key d)" using assms store_ok by (simp add: tt_wf_def)
  moreover have "tt_index (tt_size t) key < length (tt_table t)" using assms index_lt by (simp add: tt_wf_def)
  ultimately show ?thesis using assms h unfolding tt_wf_def store_accepted_eq [OF False]
    by (auto simp: nth_list_update)
qed

lemma epoch_wf: "tt_wf (growEpoch t n) = tt_wf t" "tt_wf (resetEpoch t) = tt_wf t"
  by (simp_all add: tt_wf_def tt_ok_def growEpoch_def resetEpoch_def)

lemma replicate_wf: "tt_size t = 2 ^ k \<Longrightarrow> k < 64 \<Longrightarrow> tt_wf (t\<lparr>tt_table := replicate (tt_size t) ent_zero\<rparr>)"
  by (auto simp: tt_wf_def tt_ok_def)

lemma clear_wf: "0 < jobs \<Longrightarrow> tt_ok t \<Longrightarrow> \<exists>t'. tt_clear t jobs = Some t' \<and> tt_wf t' \<and> tt_size t' = tt_size t \<and>
    tt_table t' = replicate (tt_size t) ent_zero"
  using doClear_eq [of jobs "tt_table t" "tt_size t"] replicate_wf [of t] by (auto simp: tt_clear_def tt_ok_def)

lemma load_replicate: "tt_ok t \<Longrightarrow> tt_table t = replicate (tt_size t) ent_zero \<Longrightarrow> tt_load t key = td_zero"
  using index_lt [of t key] by (simp add: load_hash)

lemma new_table_wf: "2 ^ 21 \<le> length uninit \<Longrightarrow> \<exists>t. newTranspositionTable uninit = Some t \<and> tt_wf t \<and> (\<forall>key. tt_load t key = td_zero)"
proof -
  assume l: "2 ^ 21 \<le> length uninit"
  let ?t = "\<lparr>tt_size = 2 ^ 21, tt_table = take (2 ^ 21) uninit, tt_epoch = 0\<rparr>"
  have "tt_ok ?t" using l unfolding tt_ok_def by (intro conjI exI [of _ 21]) auto
  from clear_wf [OF _ this, of 1] obtain t where t: "tt_clear ?t 1 = Some t" "tt_wf t" "tt_size t = 2 ^ 21"
    "tt_table t = replicate (2 ^ 21) ent_zero" by auto
  moreover have "newTranspositionTable uninit = tt_clear ?t 1"
    by (simp add: newTranspositionTable_def DEFAULT_SIZE_def ENTRY_BYTES_def)
  ultimately show ?thesis using load_replicate [of t] by (auto simp: tt_wf_def)
qed

text \<open>A well-formed table made of entries of another one gives a key its own data or none.\<close>

lemma load_subset:
  assumes "tt_wf t" "tt_ok t'" "set (tt_table t') \<subseteq> insert ent_zero (set (tt_table t))"
  shows "tt_load t' key = tt_load t key \<or> tt_load t' key = td_zero"
proof (cases "ent_hash (tt_table t' ! tt_index (tt_size t') key) = key \<and> tt_table t' ! tt_index (tt_size t') key \<noteq> ent_zero")
  case True
  let ?e = "tt_table t' ! tt_index (tt_size t') key"
  have "?e \<in> set (tt_table t)" using assms(3) nth_mem [OF index_lt [OF assms(2)], of key] True by auto
  then obtain i where "i < tt_size t" "tt_table t ! i = ?e"
    using assms(1) by (auto simp: in_set_conv_nth tt_wf_def tt_ok_def)
  then have "tt_index (tt_size t) key = i" "tt_table t ! i = ?e" using assms(1) True by (auto simp: tt_wf_def)
  then show ?thesis using True by (simp add: load_hash)
next
  case False
  then show ?thesis by (auto simp: load_hash Let_def)
qed

section \<open>Shrinking\<close>

lemma set_shrink_offsets:
  assumes "0 < n"
  shows "set (shrink_offsets m n) = {k * n | k. 1 \<le> k \<and> k * n < m}"
proof -
  have "set (takeWhile (\<lambda>x. x < m) (map (\<lambda>k. k * n) [1..<j])) = {k * n | k. 1 \<le> k \<and> k < j \<and> k * n < m}" for j
  proof (induction j)
    case (Suc j)
    show ?case
    proof (cases "1 \<le> j \<and> j * n < m")
      case True
      have a: "k * n < m" if "k \<le> j" for k using True mult_le_mono1 [OF that, of n] by linarith
      have tw: "takeWhile (\<lambda>x. x < m) (map (\<lambda>k. k * n) [1..<Suc j]) = map (\<lambda>k. k * n) [1..<Suc j]"
        unfolding takeWhile_eq_all_conv set_map set_upt by (simp only: ball_simps) (metis a atLeastLessThan_iff less_Suc_eq_le)
      have "set (map (\<lambda>k. k * n) [1..<Suc j]) = {k * n | k. 1 \<le> k \<and> k < Suc j}" unfolding set_map set_upt image_def by (simp only: atLeastLessThan_iff Bex_def) blast
      also have "\<dots> = {k * n | k. 1 \<le> k \<and> k < Suc j \<and> k * n < m}" unfolding less_Suc_eq_le using a by blast
      finally show ?thesis by (simp only: tw)
    next
      case False
      then have "takeWhile (\<lambda>x. x < m) (map (\<lambda>k. k * n) [1..<Suc j]) = takeWhile (\<lambda>x. x < m) (map (\<lambda>k. k * n) [1..<j])"
        by (cases "1 \<le> j") (simp_all add: takeWhile_tail)
      then show ?thesis using Suc False by (auto simp: less_Suc_eq)
    qed
  qed simp
  then have "set (shrink_offsets m n) = {k * n | k. 1 \<le> k \<and> k < m + 1 \<and> k * n < m}" by (simp only: shrink_offsets_def)
  moreover have "k < m + 1" if "k * n < m" for k
  proof -
    have "k * 1 \<le> k * n" using assms by (intro mult_le_mono2) simp
    then show ?thesis using that by linarith
  qed
  ultimately show ?thesis by blast
qed

definition heaviest :: "u8 \<Rightarrow> tt_entry list \<Rightarrow> nat list \<Rightarrow> nat \<Rightarrow> tt_entry" where
  "heaviest epoch tab offs i = fold (\<lambda>off e.
     if td_weight (ent_value (tab ! (i + off))) epoch > td_weight (ent_value e) epoch then tab ! (i + off) else e) offs (tab ! i)"

lemma heaviest_props:
  "heaviest epoch tab offs i \<in> (\<lambda>off. tab ! (i + off)) ` (insert 0 (set offs))"
  "off \<in> insert 0 (set offs) \<Longrightarrow> td_weight (ent_value (tab ! (i + off))) epoch \<le> td_weight (ent_value (heaviest epoch tab offs i)) epoch"
proof -
  have "heaviest epoch tab offs i \<in> (\<lambda>off. tab ! (i + off)) ` (insert 0 (set offs)) \<and>
    (\<forall>off \<in> insert 0 (set offs). td_weight (ent_value (tab ! (i + off))) epoch \<le> td_weight (ent_value (heaviest epoch tab offs i)) epoch)"
  proof (induction offs rule: rev_induct)
    case (snoc off offs)
    have "heaviest epoch tab (offs @ [off]) i = (if td_weight (ent_value (tab ! (i + off))) epoch >
      td_weight (ent_value (heaviest epoch tab offs i)) epoch then tab ! (i + off) else heaviest epoch tab offs i)"
      by (simp add: heaviest_def)
    then show ?case using snoc by (auto intro: order_trans)
  qed (simp add: heaviest_def)
  then show "heaviest epoch tab offs i \<in> (\<lambda>off. tab ! (i + off)) ` (insert 0 (set offs))"
    "off \<in> insert 0 (set offs) \<Longrightarrow> td_weight (ent_value (tab ! (i + off))) epoch \<le> td_weight (ent_value (heaviest epoch tab offs i)) epoch"
    by blast+
qed

lemma shrink_sets_range: "sets_range n (heaviest epoch tab (shrink_offsets m n)) (shrink_range epoch tab m n)"
  unfolding sets_range_def
proof (intro allI impI)
  fix l r and newTab :: "tt_entry list"
  assume lr: "l \<le> r" "r \<le> n" "length newTab = n"
  have "fold (\<lambda>offset. fold (replace_if_heavier epoch tab offset) [l..<r]) offs
      (fold (\<lambda>i newTab. newTab[i := tab ! i]) [l..<r] newTab) =
    map (\<lambda>i. if l \<le> i \<and> i < r then heaviest epoch tab offs i else newTab ! i) [0..<n]" for offs
  proof (induction offs rule: rev_induct)
    case Nil
    show ?case using lr by (simp add: fold_pointwise [where f = "\<lambda>i _. tab ! i"] heaviest_def)
  next
    case (snoc off offs)
    let ?f = "\<lambda>i e. if td_weight (ent_value (tab ! (i + off))) epoch > td_weight (ent_value e) epoch then tab ! (i + off) else e"
    have "replace_if_heavier epoch tab off i T = T[i := ?f i (T ! i)]" for i T by (simp add: replace_if_heavier_def)
    from fold_pointwise [OF lr(1) _ this] snoc lr show ?case by (auto simp: heaviest_def intro!: map_cong)
  qed
  then show "shrink_range epoch tab m n l r newTab =
      map (\<lambda>i. if l \<le> i \<and> i < r then heaviest epoch tab (shrink_offsets m n) i else newTab ! i) [0..<n]"
    by (simp add: shrink_range_def)
qed

text \<open>Index \<open>i\<close> of the shrunk table takes the heaviest of the entries \<open>i\<close>, \<open>i + n\<close>, \<open>i + 2 n\<close> and so on.\<close>

lemma resize_data_shrink:
  assumes "0 < jobs" "n \<le> length uninit" "n \<le> tt_size t"
  shows "resize_data uninit t n False jobs = Some (map (heaviest (tt_epoch t) (tt_table t) (shrink_offsets (tt_size t) n)) [0..<n])"
  using process_sets_range [OF assms(1) shrink_sets_range, of "take n uninit" n] assms(2,3)
  by (simp add: resize_data_def Let_def)

section \<open>Growing\<close>

lemma fold_scatter:
  assumes "\<And>i. i \<in> set js \<Longrightarrow> g i < length T"
  shows "length (fold (\<lambda>i T. T[g i := e i]) js T) = length T \<and>
    (j < length T \<longrightarrow> fold (\<lambda>i T. T[g i := e i]) js T ! j =
      (if \<exists>i \<in> set js. g i = j then e (last (filter (\<lambda>i. g i = j) js)) else T ! j))"
  using assms
proof (induction js rule: rev_induct)
  case (snoc i js)
  then show ?case by (auto simp: nth_list_update)
qed simp

lemma grow_range_fold: "grow_range tab n l r = fold (\<lambda>i T. T[tt_index n (ent_hash (tab ! i)) := tab ! i]) [l..<r]"
proof -
  have e: "\<lparr>ent_value = ent_value x, ent_key = ent_key x\<rparr> = x" for x :: tt_entry by simp
  show ?thesis by (rule ext) (simp add: grow_range_def Let_def tt_index_def ent_hash_def e)
qed

lemma resize_data_grow:
  assumes "0 < jobs" "n \<le> length uninit" "tt_size t < n"
  shows "resize_data uninit t n False jobs = Some (grow_range (tt_table t) n 0 (tt_size t) (replicate n ent_zero))"
proof -
  have "processSegmentParallel 0 (tt_size t) jobs (grow_range (tt_table t) n) T = Some (grow_range (tt_table t) n 0 (tt_size t) T)" for T
    unfolding grow_range_fold by (rule process_fold [OF assms(1)]) auto
  then show ?thesis using doClear_eq [OF assms(1), of "take n uninit" n] assms(2,3) by (simp add: resize_data_def)
qed

text \<open>What a grown table holds at index \<open>j\<close>.\<close>

lemma grow_range_nth:
  assumes "tt_ok t" "n = 2 ^ k" "k < 64"
  shows "length (grow_range (tt_table t) n 0 (tt_size t) (replicate n ent_zero)) = n"
    and "j < n \<Longrightarrow> grow_range (tt_table t) n 0 (tt_size t) (replicate n ent_zero) ! j =
      (if \<exists>i < tt_size t. tt_index n (ent_hash (tt_table t ! i)) = j
       then tt_table t ! last (filter (\<lambda>i. tt_index n (ent_hash (tt_table t ! i)) = j) [0..<tt_size t]) else ent_zero)"
proof -
  have "tt_index n h < length (replicate n ent_zero)" for h using assms by (simp add: index_mod)
  from fold_scatter [where js = "[0..<tt_size t]" and g = "\<lambda>i. tt_index n (ent_hash (tt_table t ! i))"
    and e = "\<lambda>i. tt_table t ! i", OF this]
  show "length (grow_range (tt_table t) n 0 (tt_size t) (replicate n ent_zero)) = n"
    and "j < n \<Longrightarrow> grow_range (tt_table t) n 0 (tt_size t) (replicate n ent_zero) ! j =
      (if \<exists>i < tt_size t. tt_index n (ent_hash (tt_table t ! i)) = j
       then tt_table t ! last (filter (\<lambda>i. tt_index n (ent_hash (tt_table t ! i)) = j) [0..<tt_size t]) else ent_zero)"
    unfolding grow_range_fold by (auto simp: Bex_def)
qed

section \<open>What a resize keeps\<close>

lemma hash_index: "tt_wf t \<Longrightarrow> i < tt_size t \<Longrightarrow> tt_table t ! i \<noteq> ent_zero \<Longrightarrow> tt_index (tt_size t) (ent_hash (tt_table t ! i)) = i"
  by (auto simp: tt_wf_def)

lemma index_index:
  assumes "m = 2 ^ k" "n = 2 ^ l" "k < 64" "l < 64" "m \<le> n"
  shows "tt_index n h mod m = tt_index m h"
proof -
  have "k \<le> l" using assms by (metis power_le_imp_le_exp one_less_numeral_iff semiring_norm(76))
  then have "m dvd n" using assms by (simp add: le_imp_power_dvd)
  then show ?thesis using assms by (simp add: index_mod mod_mod_cancel)
qed

text \<open>An entry away from index 0 of a grown table is the entry its key had.\<close>

lemma grown_nth:
  assumes "tt_wf t" "n = 2 ^ l" "l < 64" "tt_size t \<le> n" "0 < j" "j < n"
  shows "grow_range (tt_table t) n 0 (tt_size t) (replicate n ent_zero) ! j =
    (let e = tt_table t ! (j mod tt_size t) in if tt_index n (ent_hash e) = j then e else ent_zero)"
proof -
  obtain k where k: "tt_size t = 2 ^ k" "k < 64" using assms(1) by (auto simp: tt_wf_def tt_ok_def)
  have ok: "tt_ok t" using assms(1) by (simp add: tt_wf_def)
  let ?g = "\<lambda>i. tt_index n (ent_hash (tt_table t ! i))"
  let ?i = "j mod tt_size t"
  have i: "?i < tt_size t" using k(1) by simp
  have only: "i = ?i" if "i < tt_size t" "?g i = j" for i
  proof -
    have "tt_table t ! i \<noteq> ent_zero" using that(2) assms(2,3,5) by (auto simp: index_mod)
    then have "tt_index (tt_size t) (ent_hash (tt_table t ! i)) = i" using hash_index [OF assms(1) that(1)] by simp
    then show ?thesis using index_index [OF k(1) assms(2) k(2) assms(3,4), of "ent_hash (tt_table t ! i)"] that(2) by simp
  qed
  show ?thesis
  proof (cases "?g ?i = j")
    case True
    then have "\<exists>i < tt_size t. ?g i = j" using i by blast
    moreover have "last (filter (\<lambda>i. ?g i = j) [0..<tt_size t]) = ?i"
    proof -
      have "last (filter (\<lambda>i. ?g i = j) [0..<tt_size t]) \<in> set (filter (\<lambda>i. ?g i = j) [0..<tt_size t])"
        using True i by (intro last_in_set) (auto simp: filter_empty_conv)
      then show ?thesis using only by simp
    qed
    ultimately have "grow_range (tt_table t) n 0 (tt_size t) (replicate n ent_zero) ! j = tt_table t ! ?i"
      using grow_range_nth(2) [OF ok assms(2,3,6)] by (simp only: if_True)
    then show ?thesis using True by (simp only: Let_def simp_thms if_True)
  next
    case False
    then have "\<not> (\<exists>i < tt_size t. ?g i = j)" using only by (metis (no_types))
    then have "grow_range (tt_table t) n 0 (tt_size t) (replicate n ent_zero) ! j = ent_zero"
      unfolding grow_range_nth(2) [OF ok assms(2,3,6)] by (rule if_not_P)
    then show ?thesis unfolding Let_def if_not_P [OF False] .
  qed
qed

lemma grown_subset:
  assumes "tt_wf t" "n = 2 ^ l" "l < 64" "j < n"
  shows "grow_range (tt_table t) n 0 (tt_size t) (replicate n ent_zero) ! j \<in> insert ent_zero
    {tt_table t ! i | i. i < tt_size t \<and> tt_index n (ent_hash (tt_table t ! i)) = j}"
proof (cases "\<exists>i < tt_size t. tt_index n (ent_hash (tt_table t ! i)) = j")
  case True
  then have "last (filter (\<lambda>i. tt_index n (ent_hash (tt_table t ! i)) = j) [0..<tt_size t]) \<in>
    set (filter (\<lambda>i. tt_index n (ent_hash (tt_table t ! i)) = j) [0..<tt_size t])"
    by (intro last_in_set) (auto simp: filter_empty_conv)
  then show ?thesis using grow_range_nth(2) [OF _ assms(2-4), of t] True assms(1) by (auto simp: tt_wf_def)
next
  case False
  then show ?thesis using grow_range_nth(2) [OF _ assms(2-4), of t] assms(1) by (auto simp: tt_wf_def)
qed

text \<open>Each of the three ways to fill the new array gives a well-formed table made of old entries.\<close>

lemma resize_data_ok:
  assumes "tt_wf t" "0 < jobs" "n = 2 ^ l" "l < 64" "n \<noteq> tt_size t" "n \<le> length uninit"
  obtains data where "resize_data uninit t n cl jobs = Some data"
    "tt_wf (t\<lparr>tt_table := data, tt_size := n\<rparr>)" "set data \<subseteq> insert ent_zero (set (tt_table t))"
    "cl \<Longrightarrow> data = replicate n ent_zero"
    "\<not> cl \<Longrightarrow> tt_size t < n \<Longrightarrow> data = grow_range (tt_table t) n 0 (tt_size t) (replicate n ent_zero)"
    "\<not> cl \<Longrightarrow> n < tt_size t \<Longrightarrow> data = map (heaviest (tt_epoch t) (tt_table t) (shrink_offsets (tt_size t) n)) [0..<n]"
proof -
  obtain k where k: "tt_size t = 2 ^ k" "k < 64" "length (tt_table t) = tt_size t"
    using assms(1) by (auto simp: tt_wf_def tt_ok_def)
  consider (clear) "cl" | (grow) "\<not> cl" "tt_size t < n" | (shrink) "\<not> cl" "n < tt_size t"
    using assms(5) by linarith
  then show thesis
  proof cases
    case clear
    have "resize_data uninit t n cl jobs = Some (replicate n ent_zero)"
      using doClear_eq [OF assms(2), of "take n uninit" n] clear assms(6) by (simp add: resize_data_def)
    moreover have "tt_wf (t\<lparr>tt_table := replicate n ent_zero, tt_size := n\<rparr>)"
      using assms(3,4) by (auto simp: tt_wf_def tt_ok_def)
    moreover have "set (replicate n ent_zero) \<subseteq> insert ent_zero (set (tt_table t))" by auto
    ultimately show thesis using that clear by blast
  next
    case grow
    let ?d = "grow_range (tt_table t) n 0 (tt_size t) (replicate n ent_zero)"
    have len: "length ?d = n" using grow_range_nth(1) [OF _ assms(3,4)] assms(1) by (simp add: tt_wf_def)
    note sub = grown_subset [OF assms(1,3,4)]
    have "tt_wf (t\<lparr>tt_table := ?d, tt_size := n\<rparr>)" using len assms(3,4) sub by (fastforce simp: tt_wf_def tt_ok_def)
    moreover have "set ?d \<subseteq> insert ent_zero (set (tt_table t))"
      using sub k(3) unfolding set_conv_nth len by fastforce
    ultimately show thesis using that resize_data_grow [OF assms(2,6) grow(2)] grow by auto
  next
    case shrink
    let ?off = "shrink_offsets (tt_size t) n"
    let ?d = "map (heaviest (tt_epoch t) (tt_table t) ?off) [0..<n]"
    have n: "0 < n" using assms(3) by simp
    have h: "\<exists>i' < tt_size t. heaviest (tt_epoch t) (tt_table t) ?off i = tt_table t ! i' \<and> i' mod n = i" if i: "i < n" for i
    proof -
      obtain off where off: "heaviest (tt_epoch t) (tt_table t) ?off i = tt_table t ! (i + off)" "off = 0 \<or> off \<in> set ?off"
        using heaviest_props(1) [of "tt_epoch t" "tt_table t" ?off i] by blast
      have "0 * n < tt_size t" using k(1) by simp
      then obtain q where q: "off = q * n" "q * n < tt_size t"
        using off(2) unfolding set_shrink_offsets [OF n, of "tt_size t"] mem_Collect_eq by (metis mult_0)
      have "l \<le> k" using shrink(2) k(1) assms(3) by (metis less_imp_le power_le_imp_le_exp one_less_numeral_iff semiring_norm(76))
      then obtain r where r: "tt_size t = r * n" using k(1) assms(3) by (metis dvd_def le_imp_power_dvd mult.commute)
      then have "q + 1 \<le> r" using q n by simp
      then have "(q + 1) * n \<le> r * n" by (rule mult_le_mono1)
      then have "i + q * n < tt_size t" using i r by simp
      then show ?thesis using off(1) q(1) i by auto
    qed
    have "tt_wf (t\<lparr>tt_table := ?d, tt_size := n\<rparr>)"
    proof -
      have "heaviest (tt_epoch t) (tt_table t) ?off i = ent_zero \<or>
        tt_index n (ent_hash (heaviest (tt_epoch t) (tt_table t) ?off i)) = i" if i: "i < n" for i
      proof -
        obtain i' where i': "i' < tt_size t" "heaviest (tt_epoch t) (tt_table t) ?off i = tt_table t ! i'" "i' mod n = i"
          using h [OF i] by blast
        show ?thesis using hash_index [OF assms(1) i'(1)] i'(2,3)
            index_index [OF assms(3) k(1) assms(4) k(2), of "ent_hash (tt_table t ! i')"] shrink(2) by (cases "tt_table t ! i' = ent_zero") simp_all
      qed
      then show ?thesis using assms(3,4) by (auto simp: tt_wf_def tt_ok_def)
    qed
    moreover have "set ?d \<subseteq> insert ent_zero (set (tt_table t))" using h k(3) by fastforce
    ultimately show thesis using that resize_data_shrink [OF assms(2,6)] shrink by auto
  qed
qed

lemma new_size_shape: "new_size m = Some n \<Longrightarrow> \<exists>k < 64. n = 2 ^ k"
proof -
  assume n: "new_size m = Some n"
  then have "unat m < 2 ^ 63" using new_size_diverges [of m] by (metis not_le_imp_less option.distinct(1))
  then obtain k where "new_size m = Some (2 ^ k)" "k < 60" by (rule new_size_power)
  then show ?thesis using n by (intro exI [of _ k]) auto
qed

lemma resize_spec:
  assumes "tt_wf t" "0 < jobs" "new_size maxSize = Some n" "n \<le> length uninit"
  shows "\<exists>t'. tt_resize uninit t maxSize cl jobs = Some t' \<and> tt_wf t' \<and> tt_size t' = n \<and>
    (\<forall>key. tt_load t' key = tt_load t key \<or> tt_load t' key = td_zero) \<and>
    (cl \<longrightarrow> (\<forall>key. tt_load t' key = td_zero)) \<and>
    (\<not> cl \<and> tt_size t \<le> n \<longrightarrow> (\<forall>key. tt_index n key \<noteq> 0 \<longrightarrow> tt_load t' key = tt_load t key)) \<and>
    (\<not> cl \<and> n \<le> tt_size t \<longrightarrow> (\<forall>i k. i < n \<and> i + k * n < tt_size t \<longrightarrow>
      td_weight (ent_value (tt_table t ! (i + k * n))) (tt_epoch t) \<le> td_weight (ent_value (tt_table t' ! i)) (tt_epoch t)))"
proof (cases "n = tt_size t")
  case True
  have ok: "tt_ok t" using assms(1) by (simp add: tt_wf_def)
  show ?thesis
  proof (cases "cl")
    case c: True
    obtain t' where t': "tt_clear t jobs = Some t'" "tt_wf t'" "tt_size t' = n" "tt_table t' = replicate n ent_zero"
      using clear_wf [OF assms(2) ok] True by auto
    have "tt_load t' key = td_zero" for key using load_replicate [of t' key] t' by (simp add: tt_wf_def)
    then show ?thesis using t' c True assms(3) by (simp add: tt_resize_def)
  next
    case False
    have "k = 0" if "i + k * n < n" for i k using that by (cases k) auto
    then have "k = 0" if "i + k * tt_size t < tt_size t" for i k using that True by blast
    then show ?thesis using False True assms(1,3) by (force simp: tt_resize_def)
  qed
next
  case ne: False
  obtain l where l: "l < 64" "n = 2 ^ l" using new_size_shape [OF assms(3)] by blast
  obtain data where d: "resize_data uninit t n cl jobs = Some data"
    "tt_wf (t\<lparr>tt_table := data, tt_size := n\<rparr>)" "set data \<subseteq> insert ent_zero (set (tt_table t))"
    "cl \<Longrightarrow> data = replicate n ent_zero"
    "\<not> cl \<Longrightarrow> tt_size t < n \<Longrightarrow> data = grow_range (tt_table t) n 0 (tt_size t) (replicate n ent_zero)"
    "\<not> cl \<Longrightarrow> n < tt_size t \<Longrightarrow> data = map (heaviest (tt_epoch t) (tt_table t) (shrink_offsets (tt_size t) n)) [0..<n]"
    using resize_data_ok [OF assms(1,2) l(2,1) ne assms(4), of "cl"] by metis
  let ?t = "t\<lparr>tt_table := data, tt_size := n\<rparr>"
  have r: "tt_resize uninit t maxSize cl jobs = Some ?t" using assms(3) ne d(1) by (simp add: tt_resize_def)
  have sub: "tt_load ?t key = tt_load t key \<or> tt_load ?t key = td_zero" for key
    using load_subset [OF assms(1), of ?t key] d(2,3) by (simp add: tt_wf_def)
  have clear: "tt_load ?t key = td_zero" if "cl" for key
    using load_replicate [of ?t key] d(2,4) that by (simp add: tt_wf_def)
  have grow: "tt_load ?t key = tt_load t key" if c: "\<not> cl" "tt_size t < n" "tt_index n key \<noteq> 0" for key
  proof -
    obtain k where k: "tt_size t = 2 ^ k" "k < 64" using assms(1) by (auto simp: tt_wf_def tt_ok_def)
    have j: "0 < tt_index n key" "tt_index n key < n" using c(3) l by (simp_all add: index_mod)
    have le: "tt_size t \<le> n" using c(2) by simp
    note g = grown_nth [OF assms(1) l(2,1) le j, unfolded index_index [OF k(1) l(2) k(2) l(1) le]]
    have "key \<noteq> 0" using c(3) l by (auto simp: index_mod)
    then show ?thesis using g unfolding load_hash d(5) [OF c(1,2)]
      by (auto simp: Let_def d(5) [OF c(1,2)])
  qed
  have shrink: "td_weight (ent_value (tt_table t ! (i + k * n))) (tt_epoch t) \<le> td_weight (ent_value (tt_table ?t ! i)) (tt_epoch t)"
    if c: "\<not> cl" "n < tt_size t" "i < n" "i + k * n < tt_size t" for i k
  proof -
    have "0 < n" using l by simp
    have "k * n \<in> insert 0 (set (shrink_offsets (tt_size t) n))"
      unfolding set_shrink_offsets [OF \<open>0 < n\<close>] using c(4) by (cases "k = 0") auto
    from heaviest_props(2) [OF this] show ?thesis using d(6) [OF c(1,2)] c(3) by simp
  qed
  show ?thesis
    using r d(2) sub clear grow shrink ne by (intro exI [of _ ?t] conjI) auto
qed

end
