(* ===== verification/Trans_Threads.thy ===== *)
theory Trans_Threads
  imports Trans_Resize
begin

text \<open>
  The transposition table while several threads use it. The two words of an entry are read and
  written one at a time and, being relaxed, in any order; a step of the relation is one such access
  of one thread. The record of the stores that have begun is kept beside the state to state what a
  load may return.
\<close>

section \<open>Steps\<close>

datatype tt_thread =
    Idle
  | Storing nat u64 tt_data bool bool
  | Loading u64 "tt_data option" "u64 option"
  | Loaded u64 tt_data

record tt_shared =
  sh_table :: trans_table
  sh_threads :: "nat \<Rightarrow> tt_thread"
  sh_stored :: "(u64 \<times> tt_data) set"

definition write_value :: "nat \<Rightarrow> tt_data \<Rightarrow> trans_table \<Rightarrow> trans_table" where
  "write_value idx newValue t = t\<lparr>tt_table := (tt_table t)[idx := (tt_table t ! idx)\<lparr>ent_value := newValue\<rparr>]\<rparr>"

definition write_key :: "nat \<Rightarrow> u64 \<Rightarrow> trans_table \<Rightarrow> trans_table" where
  "write_key idx newKey t = t\<lparr>tt_table := (tt_table t)[idx := (tt_table t ! idx)\<lparr>ent_key := newKey\<rparr>]\<rparr>"

abbreviation set_thread :: "tt_shared \<Rightarrow> nat \<Rightarrow> tt_thread \<Rightarrow> tt_shared" where
  "set_thread s i th \<equiv> s\<lparr>sh_threads := (sh_threads s)(i := th)\<rparr>"

abbreviation sh_entry :: "tt_shared \<Rightarrow> u64 \<Rightarrow> tt_entry" where
  "sh_entry s key \<equiv> tt_table (sh_table s) ! tt_index (tt_size (sh_table s)) key"

inductive tt_step :: "tt_shared \<Rightarrow> tt_shared \<Rightarrow> bool" for s where
  Store_skip: "sh_threads s i = Idle \<Longrightarrow> store_rejected (sh_table s) key d \<Longrightarrow> tt_step s s"
| Store_begin: "sh_threads s i = Idle \<Longrightarrow> \<not> store_rejected (sh_table s) key d \<Longrightarrow>
    value = d\<lparr>td_epoch := tt_epoch (sh_table s)\<rparr> \<Longrightarrow>
    tt_step s ((set_thread s i (Storing (tt_index (tt_size (sh_table s)) key) (key XOR td_asUint value) value False False))
      \<lparr>sh_stored := insert (key, value) (sh_stored s)\<rparr>)"
| Write_value: "sh_threads s i = Storing idx kw d False b \<Longrightarrow>
    tt_step s ((set_thread s i (Storing idx kw d True b))\<lparr>sh_table := write_value idx d (sh_table s)\<rparr>)"
| Write_key: "sh_threads s i = Storing idx kw d b False \<Longrightarrow>
    tt_step s ((set_thread s i (Storing idx kw d b True))\<lparr>sh_table := write_key idx kw (sh_table s)\<rparr>)"
| Store_end: "sh_threads s i = Storing idx kw d True True \<Longrightarrow> tt_step s (set_thread s i Idle)"
| Load_begin: "sh_threads s i = Idle \<Longrightarrow> tt_step s (set_thread s i (Loading key None None))"
| Read_value: "sh_threads s i = Loading key None kw \<Longrightarrow>
    tt_step s (set_thread s i (Loading key (Some (ent_value (sh_entry s key))) kw))"
| Read_key: "sh_threads s i = Loading key d None \<Longrightarrow>
    tt_step s (set_thread s i (Loading key d (Some (ent_key (sh_entry s key)))))"
| Load_end: "sh_threads s i = Loading key (Some d) (Some kw) \<Longrightarrow>
    tt_step s (set_thread s i (Loaded key (load_check key d kw)))"
| Load_return: "sh_threads s i = Loaded key d \<Longrightarrow> tt_step s (set_thread s i Idle)"

definition tt_start :: "trans_table \<Rightarrow> tt_shared" where
  "tt_start t = \<lparr>sh_table = t, sh_threads = (\<lambda>_. Idle),
     sh_stored = (\<lambda>e. (ent_hash e, ent_value e)) ` set (tt_table t)\<rparr>"

inductive tt_reachable :: "trans_table \<Rightarrow> tt_shared \<Rightarrow> bool" for t where
  Start: "tt_reachable t (tt_start t)"
| Step: "tt_reachable t s \<Longrightarrow> tt_step s s' \<Longrightarrow> tt_reachable t s'"

text \<open>A store and a load that nothing interrupts are the functions of the table.\<close>

lemma ent_update: "(e :: tt_entry)\<lparr>ent_value := d, ent_key := k\<rparr> = \<lparr>ent_value = d, ent_key = k\<rparr>"
  by (cases e) simp

lemma store_uninterrupted:
  assumes "tt_ok t" "\<not> store_rejected t key d" "value = d\<lparr>td_epoch := tt_epoch t\<rparr>"
  shows "write_key (tt_index (tt_size t) key) (key XOR td_asUint value)
    (write_value (tt_index (tt_size t) key) value t) = tt_store t key d"
  using index_lt [OF assms(1), of key] assms(2,3)
  by (simp add: store_accepted_eq write_key_def write_value_def ent_update)

lemma load_uninterrupted: "load_check key (ent_value (sh_entry s key)) (ent_key (sh_entry s key)) = tt_load (sh_table s) key"
  by (simp add: tt_load_def Let_def)

section \<open>Where words come from\<close>

definition values_of :: "tt_shared \<Rightarrow> tt_data set" where
  "values_of s = snd ` sh_stored s"

definition keys_of :: "tt_shared \<Rightarrow> u64 set" where
  "keys_of s = (\<lambda>(key, d). key XOR td_asUint d) ` sh_stored s"

fun thread_ok :: "tt_shared \<Rightarrow> tt_thread \<Rightarrow> bool" where
  "thread_ok s Idle \<longleftrightarrow> True"
| "thread_ok s (Storing idx kw d b1 b2) \<longleftrightarrow> idx < tt_size (sh_table s) \<and> d \<in> values_of s \<and> kw \<in> keys_of s"
| "thread_ok s (Loading key d kw) \<longleftrightarrow> set_option d \<subseteq> values_of s \<and> set_option kw \<subseteq> keys_of s"
| "thread_ok s (Loaded key d) \<longleftrightarrow> d = td_zero \<or> (d \<in> values_of s \<and> key XOR td_asUint d \<in> keys_of s)"

definition shared_inv :: "tt_shared \<Rightarrow> bool" where
  "shared_inv s \<longleftrightarrow> tt_ok (sh_table s) \<and> (\<forall>e \<in> set (tt_table (sh_table s)). ent_value e \<in> values_of s \<and> ent_key e \<in> keys_of s) \<and>
     (\<forall>i. thread_ok s (sh_threads s i))"

lemma thread_ok_mono:
  assumes "thread_ok s th" "sh_stored s \<subseteq> sh_stored s'" "tt_size (sh_table s') = tt_size (sh_table s)"
  shows "thread_ok s' th"
proof -
  have "values_of s \<subseteq> values_of s'" "keys_of s \<subseteq> keys_of s'"
    using assms(2) by (auto simp: values_of_def keys_of_def)
  then show ?thesis using assms(1,3) by (cases th) auto
qed

text \<open>A step of one thread that keeps the stores and the size: what is left to check is that thread and the entries.\<close>

lemma shared_inv_step:
  assumes "shared_inv s" "sh_stored s \<subseteq> sh_stored s'" "tt_size (sh_table s') = tt_size (sh_table s)"
    "sh_threads s' = (sh_threads s)(i := th)" "thread_ok s' th" "tt_ok (sh_table s')"
    "\<And>e. e \<in> set (tt_table (sh_table s')) \<Longrightarrow> ent_value e \<in> values_of s' \<and> ent_key e \<in> keys_of s'"
  shows "shared_inv s'"
  using assms thread_ok_mono [of s _ s'] by (auto simp: shared_inv_def)

lemma entry_words:
  assumes "shared_inv s"
  shows "ent_value (sh_entry s key) \<in> values_of s" "ent_key (sh_entry s key) \<in> keys_of s"
  using assms nth_mem [OF index_lt, of "sh_table s" key] by (auto simp: shared_inv_def)

lemma shared_inv_writes:
  assumes "shared_inv s" "thread_ok s (Storing idx kw d b1 b2)" "e \<in> set ((tt_table (sh_table s))[idx := e'])"
    "e' = (tt_table (sh_table s) ! idx)\<lparr>ent_value := d\<rparr> \<or> e' = (tt_table (sh_table s) ! idx)\<lparr>ent_key := kw\<rparr>"
  shows "ent_value e \<in> values_of s \<and> ent_key e \<in> keys_of s"
proof -
  have "idx < length (tt_table (sh_table s))" using assms(1,2) by (auto simp: shared_inv_def tt_ok_def)
  then have "tt_table (sh_table s) ! idx \<in> set (tt_table (sh_table s))" by simp
  then have "ent_value e' \<in> values_of s \<and> ent_key e' \<in> keys_of s"
    using assms(1,2,4) by (auto simp: shared_inv_def)
  moreover have "e = e' \<or> e \<in> set (tt_table (sh_table s))" using assms(3) set_update_subset_insert by fastforce
  ultimately show ?thesis using assms(1) by (auto simp: shared_inv_def)
qed

lemma words_cong: "sh_stored s' = sh_stored s \<Longrightarrow> values_of s' = values_of s \<and> keys_of s' = keys_of s"
  by (simp add: values_of_def keys_of_def)

lemma shared_inv_thread:
  assumes "shared_inv s" "thread_ok s th"
  shows "shared_inv (set_thread s i th)"
proof (rule shared_inv_step [OF assms(1)])
  show "thread_ok (set_thread s i th) th" using assms(2) by (rule thread_ok_mono) simp_all
  show "tt_ok (sh_table (set_thread s i th))" using assms(1) by (simp add: shared_inv_def)
  show "ent_value e \<in> values_of (set_thread s i th) \<and> ent_key e \<in> keys_of (set_thread s i th)"
    if "e \<in> set (tt_table (sh_table (set_thread s i th)))" for e
    using that assms(1) by (simp add: shared_inv_def values_of_def keys_of_def)
qed simp_all

lemma tt_step_inv:
  assumes "tt_step s s'" "shared_inv s"
  shows "shared_inv s'"
  using assms(1)
proof (cases rule: tt_step.cases)
  case (Store_begin i key d "value")
  have "thread_ok s' (Storing (tt_index (tt_size (sh_table s)) key) (key XOR td_asUint value) value False False)"
    using Store_begin index_lt [of "sh_table s" key] assms(2) by (auto simp: values_of_def keys_of_def shared_inv_def tt_ok_def)
  then show ?thesis using Store_begin assms(2)
    by (intro shared_inv_step [OF assms(2), of s' i]) (auto simp: shared_inv_def values_of_def keys_of_def)
next
  case (Write_value i idx kw d b)
  have t: "thread_ok s (Storing idx kw d False b)" using Write_value assms(2) unfolding shared_inv_def by metis
  have w: "values_of s' = values_of s" "keys_of s' = keys_of s" using words_cong [of s' s] Write_value(1) by simp_all
  show ?thesis
  proof (rule shared_inv_step [OF assms(2)])
    show "sh_threads s' = (sh_threads s)(i := Storing idx kw d True b)" "sh_stored s \<subseteq> sh_stored s'"
      "tt_size (sh_table s') = tt_size (sh_table s)" using Write_value(1) by (simp_all add: write_value_def)
    show "thread_ok s' (Storing idx kw d True b)" using t w Write_value(1) by (simp add: write_value_def)
    show "tt_ok (sh_table s')" using assms(2) Write_value(1) by (simp add: write_value_def shared_inv_def tt_ok_def)
    show "ent_value e \<in> values_of s' \<and> ent_key e \<in> keys_of s'" if "e \<in> set (tt_table (sh_table s'))" for e
      unfolding w using shared_inv_writes [OF assms(2) t, of e] that Write_value(1) by (simp add: write_value_def)
  qed
next
  case (Write_key i idx kw d b)
  have t: "thread_ok s (Storing idx kw d b False)" using Write_key assms(2) unfolding shared_inv_def by metis
  have w: "values_of s' = values_of s" "keys_of s' = keys_of s" using words_cong [of s' s] Write_key(1) by simp_all
  show ?thesis
  proof (rule shared_inv_step [OF assms(2)])
    show "sh_threads s' = (sh_threads s)(i := Storing idx kw d b True)" "sh_stored s \<subseteq> sh_stored s'"
      "tt_size (sh_table s') = tt_size (sh_table s)" using Write_key(1) by (simp_all add: write_key_def)
    show "thread_ok s' (Storing idx kw d b True)" using t w Write_key(1) by (simp add: write_key_def)
    show "tt_ok (sh_table s')" using assms(2) Write_key(1) by (simp add: write_key_def shared_inv_def tt_ok_def)
    show "ent_value e \<in> values_of s' \<and> ent_key e \<in> keys_of s'" if "e \<in> set (tt_table (sh_table s'))" for e
      unfolding w using shared_inv_writes [OF assms(2) t, of e] that Write_key(1) by (simp add: write_key_def)
  qed
next
  case (Read_value i key kw)
  have "thread_ok s (Loading key None kw)" using Read_value assms(2) unfolding shared_inv_def by metis
  then show ?thesis using Read_value(1) entry_words(1) [OF assms(2), of key] shared_inv_thread [OF assms(2)] by simp
next
  case (Read_key i key d)
  have "thread_ok s (Loading key d None)" using Read_key assms(2) unfolding shared_inv_def by metis
  then show ?thesis using Read_key(1) entry_words(2) [OF assms(2), of key] shared_inv_thread [OF assms(2)] by simp
next
  case (Load_end i key d kw)
  have "thread_ok s (Loading key (Some d) (Some kw))" using Load_end assms(2) unfolding shared_inv_def by metis
  then have "thread_ok s (Loaded key (load_check key d kw))" by (auto simp: load_check_def Let_def)
  then show ?thesis using Load_end(1) shared_inv_thread [OF assms(2)] by simp
qed (use assms(2) in \<open>simp_all add: shared_inv_thread\<close>)

lemma tt_start_inv: "tt_ok t \<Longrightarrow> shared_inv (tt_start t)"
  by (auto simp: shared_inv_def tt_start_def values_of_def keys_of_def ent_hash_def image_image)

lemma tt_reachable_inv: "tt_reachable t s \<Longrightarrow> tt_ok t \<Longrightarrow> shared_inv s"
  by (induction rule: tt_reachable.induct) (auto simp: tt_start_inv tt_step_inv)

lemma loaded_origin:
  assumes "tt_reachable t s" "tt_ok t" "sh_threads s i = Loaded key d" "d \<noteq> td_zero"
  shows "(key, d) \<in> sh_stored s \<or> (\<exists>key1 key2 d2. (key1, d) \<in> sh_stored s \<and> (key2, d2) \<in> sh_stored s \<and>
    d2 \<noteq> d \<and> key1 \<noteq> key \<and> key XOR td_asUint d = key2 XOR td_asUint d2)"
proof -
  have "thread_ok s (Loaded key d)" using tt_reachable_inv [OF assms(1,2)] assms(3) unfolding shared_inv_def by metis
  then obtain key1 key2 d2 where k: "(key1, d) \<in> sh_stored s" "(key2, d2) \<in> sh_stored s"
    "key XOR td_asUint d = key2 XOR td_asUint d2"
    using assms(4) by (auto simp: values_of_def keys_of_def)
  show ?thesis
  proof (cases "d2 = d \<or> key1 = key")
    case True
    then have "key1 = key \<or> key2 = key" using k(3) xor_self_cancel(2) by metis
    then show ?thesis using k True xor_self_cancel(2) by metis
  next
    case False
    then show ?thesis using k by blast
  qed
qed

end
