(* ===== verification/Repetition.thy ===== *)
theory Repetition
  imports Prelude
begin

text \<open>
  The table of repeated positions (\<^verbatim>\<open>RepetitionTable\<close> of \<^verbatim>\<open>src/src/search/private/util.h\<close> and
  \<^verbatim>\<open>util.cpp\<close>): buckets of four hashes, zero for a free slot, doubled when a bucket is full. Under
  its invariant it is a set of non-zero hashes, and no hash is lost when the table grows.
\<close>

section \<open>The table\<close>

definition INITIAL_BUCKET_COUNT :: nat where "INITIAL_BUCKET_COUNT = 32"
definition BUCKET_SIZE :: nat where "BUCKET_SIZE = 4"

record rep_table =
  rep_tab :: "u64 list"
  rep_buckets :: nat
  rep_mask :: u64

definition rep_empty :: rep_table where
  "rep_empty = \<lparr>rep_tab = replicate (INITIAL_BUCKET_COUNT * BUCKET_SIZE) 0, rep_buckets = INITIAL_BUCKET_COUNT,
     rep_mask = of_nat ((INITIAL_BUCKET_COUNT - 1) * BUCKET_SIZE)\<rparr>"

definition rep_has :: "rep_table \<Rightarrow> u64 \<Rightarrow> bool" where
  "rep_has t h = (let idx = unat (h AND rep_mask t)
     in list_ex (\<lambda>i. rep_tab t ! (idx + i) = h) [0..<BUCKET_SIZE])"

text \<open>Store \<open>v\<close> in the first free slot of the bucket that starts at \<open>idx\<close>.\<close>

definition put_slot :: "u64 list \<Rightarrow> nat \<Rightarrow> u64 \<Rightarrow> u64 list option" where
  "put_slot tab idx v = (case find (\<lambda>i. tab ! (idx + i) = 0) [0..<BUCKET_SIZE] of
     Some i \<Rightarrow> Some (tab[idx + i := v])
   | None \<Rightarrow> None)"

definition grow_item :: "u64 \<Rightarrow> u64 list \<Rightarrow> u64 \<Rightarrow> u64 list" where
  "grow_item newMask newTab item =
     (if item = 0 then newTab
      else case put_slot newTab (unat (item AND newMask)) item of Some tab \<Rightarrow> tab | None \<Rightarrow> newTab)"

definition rep_grow :: "rep_table \<Rightarrow> rep_table" where
  "rep_grow t =
     (let newBucketCount = rep_buckets t * 2;
          newMask = of_nat ((newBucketCount - 1) * BUCKET_SIZE);
          newTab = foldl (\<lambda>tab i. grow_item newMask tab (rep_tab t ! i))
            (replicate (newBucketCount * BUCKET_SIZE) 0) [0..<rep_buckets t * BUCKET_SIZE]
      in \<lparr>rep_tab = newTab, rep_buckets = newBucketCount, rep_mask = newMask\<rparr>)"

partial_function (option) rep_insert_loop :: "rep_table \<Rightarrow> u64 \<Rightarrow> rep_table option" where
  "rep_insert_loop t h = (case put_slot (rep_tab t) (unat (h AND rep_mask t)) h of
     Some tab \<Rightarrow> Some (t\<lparr>rep_tab := tab\<rparr>)
   | None \<Rightarrow> rep_insert_loop (rep_grow t) h)"

definition rep_insert :: "rep_table \<Rightarrow> u64 \<Rightarrow> (bool \<times> rep_table) option" where
  "rep_insert t h = (if rep_has t h then Some (False, t) else map_option (Pair True) (rep_insert_loop t h))"

definition rep_erase :: "rep_table \<Rightarrow> u64 \<Rightarrow> rep_table" where
  "rep_erase t h = (let idx = unat (h AND rep_mask t)
     in case find (\<lambda>i. rep_tab t ! (idx + i) = h) [0..<BUCKET_SIZE] of
          Some i \<Rightarrow> t\<lparr>rep_tab := (rep_tab t)[idx + i := 0]\<rparr>
        | None \<Rightarrow> t)"

section \<open>The interface of a set of hashes\<close>

text \<open>What the search relies on: membership, an insertion that tells whether the hash was new, removal.\<close>

locale hash_set =
  fixes inv :: "'t \<Rightarrow> bool" and elems :: "'t \<Rightarrow> u64 set" and has :: "'t \<Rightarrow> u64 \<Rightarrow> bool"
    and ins :: "'t \<Rightarrow> u64 \<Rightarrow> (bool \<times> 't) option" and del :: "'t \<Rightarrow> u64 \<Rightarrow> 't"
  assumes has_iff: "inv t \<Longrightarrow> h \<noteq> 0 \<Longrightarrow> has t h \<longleftrightarrow> h \<in> elems t"
    and ins_new: "inv t \<Longrightarrow> h \<noteq> 0 \<Longrightarrow> h \<notin> elems t \<Longrightarrow>
      \<exists>t'. ins t h = Some (True, t') \<and> inv t' \<and> elems t' = insert h (elems t)"
    and ins_old: "inv t \<Longrightarrow> h \<noteq> 0 \<Longrightarrow> h \<in> elems t \<Longrightarrow> ins t h = Some (False, t)"
    and del_inv: "inv t \<Longrightarrow> h \<noteq> 0 \<Longrightarrow> inv (del t h)"
    and del_elems: "inv t \<Longrightarrow> h \<noteq> 0 \<Longrightarrow> elems (del t h) = elems t - {h}"
begin

lemma ins_total: "inv t \<Longrightarrow> h \<noteq> 0 \<Longrightarrow> \<exists>fresh t'. ins t h = Some (fresh, t') \<and> inv t' \<and>
    (fresh \<longleftrightarrow> h \<notin> elems t) \<and> elems t' = insert h (elems t)"
  using ins_new [of t h] ins_old [of t h] by (cases "h \<in> elems t") auto

text \<open>A fresh hash that is inserted, kept by whatever runs in between and removed leaves the set as it was.\<close>

lemma scoped:
  assumes "inv t" "h \<noteq> 0" "ins t h = Some (True, t1)" "inv t2" "elems t2 = elems t1"
  shows "inv (del t2 h) \<and> elems (del t2 h) = elems t"
  using ins_total [OF assms(1,2)] assms(3-5) del_inv [OF assms(4,2)] del_elems [OF assms(4,2)] by auto

end

section \<open>The invariant\<close>

definition bucket_of :: "nat \<Rightarrow> u64 \<Rightarrow> nat" where
  "bucket_of k h = unat h div 4 mod 2 ^ k"

definition tab_ok :: "nat \<Rightarrow> u64 list \<Rightarrow> bool" where
  "tab_ok k tab \<longleftrightarrow> length tab = 2 ^ k * 4 \<and>
     (\<forall>i < length tab. tab ! i \<noteq> 0 \<longrightarrow> bucket_of k (tab ! i) = i div 4) \<and>
     (\<forall>i < length tab. \<forall>j < length tab. tab ! i \<noteq> 0 \<longrightarrow> tab ! i = tab ! j \<longrightarrow> i = j)"

lemma tab_okD:
  "tab_ok k tab \<Longrightarrow> i < length tab \<Longrightarrow> tab ! i \<noteq> 0 \<Longrightarrow> bucket_of k (tab ! i) = i div 4"
  "tab_ok k tab \<Longrightarrow> i < length tab \<Longrightarrow> j < length tab \<Longrightarrow> tab ! i \<noteq> 0 \<Longrightarrow> tab ! i = tab ! j \<Longrightarrow> i = j"
  unfolding tab_ok_def by blast+

definition rep_inv :: "rep_table \<Rightarrow> bool" where
  "rep_inv t \<longleftrightarrow> (\<exists>k \<le> 62. rep_buckets t = 2 ^ k \<and> rep_mask t = of_nat ((2 ^ k - 1) * 4) \<and> tab_ok k (rep_tab t))"

definition rep_set :: "rep_table \<Rightarrow> u64 set" where
  "rep_set t = set (rep_tab t) - {0}"

lemma index_bucket:
  assumes "k \<le> 62"
  shows "unat (h AND of_nat ((2 ^ k - 1) * 4)) = bucket_of k h * 4"
proof -
  have lt: "unat h mod 18446744073709551616 = unat h"
  proof -
    have "unat h < 2 ^ 64" using unsigned_less [of h] by simp
    then show ?thesis by simp
  qed
  have m: "(of_nat ((2 ^ k - 1) * 4) :: u64) = push_bit 2 (mask k)"
    by (simp add: push_bit_eq_mult mask_eq_exp_minus_1 of_nat_diff)
  have "h AND push_bit 2 (mask k) = push_bit 2 (take_bit k (drop_bit 2 h))"
    by (rule bit_word_eqI) (auto simp: bit_simps simp flip: add_2_eq_Suc')
  moreover have "unat (push_bit 2 (take_bit k (drop_bit 2 h))) = (unat h div 4 mod 2 ^ k * 4) mod 2 ^ 64"
    unfolding unsigned_push_bit_eq unsigned_take_bit_eq unsigned_drop_bit_eq
    using lt by (simp add: take_bit_eq_mod push_bit_eq_mult drop_bit_eq_div)
  moreover have "unat h div 4 mod 2 ^ k * 4 < 2 ^ 64"
  proof -
    have "unat h < 2 ^ 64" using unsigned_less [of h] by simp
    then have "unat h div 4 * 4 < 2 ^ 64" by linarith
    moreover have "unat h div 4 mod 2 ^ k \<le> unat h div 4" by simp
    ultimately show ?thesis by linarith
  qed
  ultimately show ?thesis unfolding m bucket_of_def by simp
qed

lemma bucket_lt: "bucket_of k h < 2 ^ k"
  by (simp add: bucket_of_def)

lemma bucket_Suc: "bucket_of (Suc k) h mod 2 ^ k = bucket_of k h"
  by (simp add: bucket_of_def mod_mod_cancel)

lemma find_range: "find P [0..<n] = Some i \<longleftrightarrow> i < n \<and> P i \<and> (\<forall>j < i. \<not> P j)"
  by (auto simp: find_Some_iff)

lemma find_range_None: "find P [0..<n] = None \<longleftrightarrow> (\<forall>j < n. \<not> P j)"
  by (auto simp: find_None_iff)

text \<open>Looking a hash up in its bucket is looking it up in the table.\<close>

lemma in_bucket_iff:
  assumes "tab_ok k tab" "h \<noteq> 0"
  shows "(\<exists>i < 4. tab ! (bucket_of k h * 4 + i) = h) \<longleftrightarrow> h \<in> set tab"
proof
  assume "\<exists>i < 4. tab ! (bucket_of k h * 4 + i) = h"
  then obtain i where i: "i < 4" "tab ! (bucket_of k h * 4 + i) = h" by blast
  have "bucket_of k h + 1 \<le> 2 ^ k" using bucket_lt [of k h] by simp
  then have "bucket_of k h * 4 + i < 2 ^ k * 4" using i(1) by linarith
  then show "h \<in> set tab" using assms(1) i(2) by (auto simp: tab_ok_def in_set_conv_nth)
next
  assume "h \<in> set tab"
  then obtain p where p: "p < length tab" "tab ! p = h" by (auto simp: in_set_conv_nth)
  then have "bucket_of k h = p div 4" using assms by (auto simp: tab_ok_def)
  then show "\<exists>i < 4. tab ! (bucket_of k h * 4 + i) = h"
    using p(2) by (intro exI [of _ "p mod 4"]) simp
qed

lemma put_slot_ok:
  assumes "tab_ok k tab" "v \<noteq> 0" "v \<notin> set tab" "put_slot tab (bucket_of k v * 4) v = Some tab'"
  shows "tab_ok k tab' \<and> set tab' - {0} = insert v (set tab - {0})"
proof -
  obtain i where i: "i < 4" "tab ! (bucket_of k v * 4 + i) = 0" "tab' = tab[bucket_of k v * 4 + i := v]"
    using assms(4) by (auto simp: put_slot_def BUCKET_SIZE_def find_range split: option.splits)
  let ?p = "bucket_of k v * 4 + i"
  have "bucket_of k v + 1 \<le> 2 ^ k" using bucket_lt [of k v] by simp
  then have p: "?p < length tab" "?p div 4 = bucket_of k v" using i(1) assms(1) by (auto simp: tab_ok_def)
  have nv: "tab ! j \<noteq> v" if "j < length tab" for j using assms(3) that by (metis nth_mem)
  have nth: "tab' ! j = (if j = ?p then v else tab ! j)" if "j < length tab" for j
    using that p(1) by (simp add: i(3) nth_list_update)
  have "tab_ok k tab'"
    unfolding tab_ok_def
  proof (intro conjI allI impI)
    show "length tab' = 2 ^ k * 4" using assms(1) by (simp add: i(3) tab_ok_def)
    show "bucket_of k (tab' ! j) = j div 4" if "j < length tab'" "tab' ! j \<noteq> 0" for j
      using that assms(1) p nth [of j] by (auto simp: i(3) tab_ok_def split: if_splits)
    show "j = l" if "j < length tab'" "l < length tab'" "tab' ! j \<noteq> 0" "tab' ! j = tab' ! l" for j l
      using that assms(1) nth [of j] nth [of l] nv [of j] nv [of l] by (auto simp: i(3) tab_ok_def split: if_splits)
  qed
  moreover have "set tab' - {0} = insert v (set tab - {0})"
  proof (intro set_eqI iffI)
    fix x assume "x \<in> set tab' - {0}"
    then obtain j where "j < length tab" "tab' ! j = x" "x \<noteq> 0" by (auto simp: in_set_conv_nth i(3))
    then show "x \<in> insert v (set tab - {0})" using nth [of j] nth_mem [of j tab] by (cases "j = ?p") auto
  next
    fix x assume "x \<in> insert v (set tab - {0})"
    then consider "x = v" | j where "j < length tab" "tab ! j = x" "x \<noteq> 0" by (auto simp: in_set_conv_nth)
    then show "x \<in> set tab' - {0}"
    proof cases
      case 1
      then show ?thesis using nth [OF p(1)] p(1) assms(2) nth_mem [of ?p tab'] by (simp add: i(3))
    next
      case 2
      then have "j \<noteq> ?p" using i(2) by auto
      then show ?thesis using 2 nth [of j] nth_mem [of j tab'] by (simp add: i(3))
    qed
  qed
  ultimately show ?thesis by blast
qed

lemma put_slot_None:
  "put_slot tab (b * 4) v = None \<longleftrightarrow> (\<forall>i < 4. tab ! (b * 4 + i) \<noteq> 0)"
  unfolding put_slot_def BUCKET_SIZE_def by (simp add: find_range_None [symmetric] split: option.split)

text \<open>A full bucket holds four different hashes.\<close>

lemma full_bucket_card:
  assumes "tab_ok k tab" "b < 2 ^ k" "\<forall>i < 4. tab ! (b * 4 + i) \<noteq> 0"
  shows "card {v \<in> set tab. v \<noteq> 0 \<and> bucket_of k v = b} \<ge> 4"
proof -
  have l: "b * 4 + i < length tab" if "i < 4" for i
  proof -
    have "b + 1 \<le> 2 ^ k" using assms(2) by simp
    then show ?thesis using that assms(1) by (simp add: tab_ok_def)
  qed
  have "inj_on (\<lambda>i. tab ! (b * 4 + i)) {..<4}"
  proof (rule inj_onI)
    fix i j assume "i \<in> {..<4}" "j \<in> {..<4}" "tab ! (b * 4 + i) = tab ! (b * 4 + j)"
    then have "b * 4 + i = b * 4 + j" using assms(1,3) l unfolding tab_ok_def lessThan_iff by metis
    then show "i = j" by simp
  qed
  then have "card ((\<lambda>i. tab ! (b * 4 + i)) ` {..<4}) = 4" by (simp add: card_image)
  moreover have "(\<lambda>i. tab ! (b * 4 + i)) ` {..<4} \<subseteq> {v \<in> set tab. v \<noteq> 0 \<and> bucket_of k v = b}"
    using assms l by (auto simp: tab_ok_def)
  ultimately show ?thesis using card_mono [of "{v \<in> set tab. v \<noteq> 0 \<and> bucket_of k v = b}"] by (metis (no_types, lifting) finite_set finite_subset mem_Collect_eq subsetI)
qed

section \<open>Growing\<close>

lemma tab_ok_empty: "tab_ok k (replicate (2 ^ k * 4) 0)"
  by (simp add: tab_ok_def)

text \<open>After the items of the first \<open>n\<close> slots have been moved, the new table holds exactly these.\<close>

lemma grow_prefix:
  assumes "tab_ok k tab" "k < 62"
  shows "n \<le> length tab \<Longrightarrow>
    (let new = foldl (\<lambda>t i. grow_item (of_nat ((2 ^ Suc k - 1) * 4)) t (tab ! i)) (replicate (2 ^ Suc k * 4) 0) [0..<n]
     in tab_ok (Suc k) new \<and> set new - {0} = set (take n tab) - {0})"
proof (induction n)
  case 0
  then show ?case using tab_ok_empty [of "Suc k"] by simp
next
  case (Suc n)
  let ?f = "\<lambda>t i. grow_item (of_nat ((2 ^ Suc k - 1) * 4)) t (tab ! i)"
  let ?new = "foldl ?f (replicate (2 ^ Suc k * 4) 0) [0..<n]"
  let ?v = "tab ! n"
  have IH: "tab_ok (Suc k) ?new" "set ?new - {0} = set (take n tab) - {0}" using Suc by (simp_all add: Let_def)
  have n: "n < length tab" using Suc by simp
  have step: "foldl ?f (replicate (2 ^ Suc k * 4) 0) [0..<Suc n] = ?f ?new n" by simp
  have take: "set (take (Suc n) tab) = insert ?v (set (take n tab))" using n by (simp add: take_Suc_conv_app_nth)
  show ?case
  proof (cases "?v = 0")
    case True
    then show ?thesis unfolding step take using IH by (simp add: grow_item_def Let_def)
  next
    case False
    have idx: "unat (?v AND of_nat ((2 ^ Suc k - 1) * 4)) = bucket_of (Suc k) ?v * 4"
      using assms(2) by (intro index_bucket) simp
    have fresh: "?v \<notin> set (take n tab)"
    proof
      assume "?v \<in> set (take n tab)"
      then obtain j where j: "j < n" "tab ! j = ?v" by (auto simp: in_set_conv_nth)
      then have "j = n" using tab_okD(2) [OF assms(1), of j n] n False by simp
      then show False using j(1) by simp
    qed
    then have nin: "?v \<notin> set ?new" using IH(2) False by auto
    have "put_slot ?new (bucket_of (Suc k) ?v * 4) ?v \<noteq> None"
    proof
      assume "put_slot ?new (bucket_of (Suc k) ?v * 4) ?v = None"
      then have four: "4 \<le> card {v \<in> set ?new. v \<noteq> 0 \<and> bucket_of (Suc k) v = bucket_of (Suc k) ?v}"
        using full_bucket_card [OF IH(1) bucket_lt] unfolding put_slot_None by blast
      have "{v \<in> set ?new. v \<noteq> 0 \<and> bucket_of (Suc k) v = bucket_of (Suc k) ?v} \<subseteq> (!) tab ` {n div 4 * 4..<n}"
      proof
        fix v assume "v \<in> {v \<in> set ?new. v \<noteq> 0 \<and> bucket_of (Suc k) v = bucket_of (Suc k) ?v}"
        then have w: "v \<in> set ?new - {0}" "bucket_of (Suc k) v = bucket_of (Suc k) ?v" by blast+
        have v: "v \<in> set (take n tab)" "v \<noteq> 0" using w(1) unfolding IH(2) by blast+
        have b: "bucket_of k v = bucket_of k ?v" using bucket_Suc [of k v] bucket_Suc [of k ?v] w(2) by simp
        obtain j where j: "j < n" "tab ! j = v" using v(1) by (auto simp: in_set_conv_nth)
        then have "j div 4 = n div 4"
          using tab_okD(1) [OF assms(1), of j] tab_okD(1) [OF assms(1) n False] n v b by simp
        then have "n div 4 * 4 \<le> j" by (metis div_times_less_eq_dividend)
        then show "v \<in> (!) tab ` {n div 4 * 4..<n}" using j by auto
      qed
      then have "4 \<le> card ((!) tab ` {n div 4 * 4..<n})" using four by (meson card_mono finite_atLeastLessThan finite_imageI le_trans)
      also have "\<dots> \<le> n - n div 4 * 4" using card_image_le [of "{n div 4 * 4..<n}" "(!) tab"] by simp
      also have "\<dots> < 4" by (simp add: minus_div_mult_eq_mod)
      finally show False by simp
    qed
    then obtain tab' where t: "put_slot ?new (bucket_of (Suc k) ?v * 4) ?v = Some tab'" by blast
    note ok = put_slot_ok [OF IH(1) False nin t]
    have "?f ?new n = tab'" using False t by (simp only: grow_item_def idx option.case if_False)
    have "set tab' - {0} = insert ?v (set (take n tab)) - {0}" using ok IH(2) False by (simp only: insert_Diff_if) simp
    then show ?thesis unfolding step take Let_def \<open>?f ?new n = tab'\<close> using ok by blast
  qed
qed

lemma rep_grow_ok:
  assumes "rep_inv t" "rep_buckets t < 2 ^ 62"
  shows "rep_inv (rep_grow t) \<and> rep_set (rep_grow t) = rep_set t \<and> rep_buckets (rep_grow t) = 2 * rep_buckets t"
proof -
  obtain k where k: "k \<le> 62" "rep_buckets t = 2 ^ k" "rep_mask t = of_nat ((2 ^ k - 1) * 4)" "tab_ok k (rep_tab t)"
    using assms(1) by (auto simp: rep_inv_def)
  then have "(2 :: nat) ^ k < 2 ^ 62" using assms(2) by simp
  then have k62: "k < 62" by (rule power_less_imp_less_exp [rotated]) simp
  have l: "length (rep_tab t) = 2 ^ k * 4" using k(4) by (simp add: tab_ok_def)
  let ?new = "foldl (\<lambda>tab i. grow_item (of_nat ((2 ^ Suc k - 1) * 4)) tab (rep_tab t ! i)) (replicate (2 ^ Suc k * 4) 0) [0..<2 ^ k * 4]"
  have new: "tab_ok (Suc k) ?new" "set ?new - {0} = set (rep_tab t) - {0}"
    using grow_prefix [OF k(4) k62, of "2 ^ k * 4"] l by (simp_all add: Let_def)
  have e: "(2 :: nat) ^ k * 2 = 2 ^ Suc k" by simp
  have g: "rep_grow t = \<lparr>rep_tab = ?new, rep_buckets = 2 ^ Suc k, rep_mask = of_nat ((2 ^ Suc k - 1) * 4)\<rparr>"
    unfolding rep_grow_def Let_def k(2) BUCKET_SIZE_def e ..
  have "rep_inv (rep_grow t)" unfolding rep_inv_def
    by (rule exI [of _ "Suc k"]) (use k62 in \<open>simp only: g rep_table.simps new(1) simp_thms Suc_leI\<close>)
  moreover have "rep_set (rep_grow t) = rep_set t" by (simp only: rep_set_def g rep_table.simps new(2))
  moreover have "rep_buckets (rep_grow t) = 2 * rep_buckets t" by (simp only: g rep_table.simps k(2) power_Suc)
  ultimately show ?thesis by blast
qed

section \<open>The operations\<close>

lemma rep_has_iff: "rep_inv t \<Longrightarrow> h \<noteq> 0 \<Longrightarrow> rep_has t h \<longleftrightarrow> h \<in> rep_set t"
proof -
  assume "rep_inv t" and h: "h \<noteq> 0"
  then obtain k where k: "k \<le> 62" "rep_mask t = of_nat ((2 ^ k - 1) * 4)" "tab_ok k (rep_tab t)" by (auto simp: rep_inv_def)
  have "rep_has t h \<longleftrightarrow> (\<exists>i < 4. rep_tab t ! (bucket_of k h * 4 + i) = h)"
    unfolding rep_has_def Let_def k(2) index_bucket [OF k(1)] by (auto simp: list_ex_iff BUCKET_SIZE_def)
  then show ?thesis using in_bucket_iff [OF k(3) h] h by (simp add: rep_set_def)
qed

lemma put_slot_zero: "put_slot tab idx 0 = Some tab' \<Longrightarrow> tab' = tab"
  by (auto simp: put_slot_def BUCKET_SIZE_def find_range split: option.splits intro: list_update_same_conv [THEN iffD2])
    (metis list_update_beyond list_update_id not_le)

text \<open>Three hashes are left beside \<open>h\<close> for its bucket of the largest table.\<close>

lemma put_slot_top:
  assumes t: "tab_ok 62 tab" and h: "h = 0 \<or> h \<notin> set tab"
  shows "put_slot tab (bucket_of 62 h * 4) h \<noteq> None"
proof
  assume None: "put_slot tab (bucket_of 62 h * 4) h = None"
  let ?S = "{v \<in> set tab. v \<noteq> 0 \<and> bucket_of 62 v = bucket_of 62 h}"
  have "insert h ?S \<subseteq> of_nat ` {unat h div 4 * 4..<unat h div 4 * 4 + 4}"
  proof
    fix v assume "v \<in> insert h ?S"
    then have "bucket_of 62 v = bucket_of 62 h" by auto
    moreover have "unat w div 4 < 2 ^ 62" for w :: u64
    proof -
      have "unat w < 2 ^ 64" using unsigned_less [of w] by simp
      then show ?thesis by (simp add: div_less_iff_less_mult)
    qed
    ultimately have "unat v div 4 = unat h div 4" by (simp add: bucket_of_def)
    then have "unat v \<in> {unat h div 4 * 4..<unat h div 4 * 4 + 4}"
      using div_mult_mod_eq [of "unat v" 4] mod_less_divisor [of 4 "unat v"] by (simp only: atLeastLessThan_iff) linarith
    then show "v \<in> of_nat ` {unat h div 4 * 4..<unat h div 4 * 4 + 4}" by (intro image_eqI [of _ _ "unat v"]) simp_all
  qed
  then have "card (insert h ?S) \<le> card ((of_nat :: nat \<Rightarrow> u64) ` {unat h div 4 * 4..<unat h div 4 * 4 + 4})" by (intro card_mono) auto
  also have "\<dots> \<le> 4" using card_image_le [of "{unat h div 4 * 4..<unat h div 4 * 4 + 4}" "of_nat :: nat \<Rightarrow> u64"] by simp
  finally have "card ?S < 4" using h by (auto simp: card_insert_if split: if_splits)
  then show False using full_bucket_card [OF t bucket_lt] None unfolding put_slot_None by (metis (lifting) not_less)
qed

text \<open>The loop ends for any hash; only for zero, the mark of a free slot, it may have nothing to store.\<close>

lemma rep_insert_loop_any:
  "rep_inv t \<Longrightarrow> h = 0 \<or> h \<notin> rep_set t \<Longrightarrow>
    \<exists>t'. rep_insert_loop t h = Some t' \<and> rep_inv t' \<and> rep_set t' = insert h (rep_set t) - {0} \<and> rep_buckets t \<le> rep_buckets t' \<and>
      (put_slot (rep_tab t) (unat (h AND rep_mask t)) h = None \<longrightarrow> rep_buckets t < rep_buckets t')"
proof (induction "2 ^ 62 - rep_buckets t" arbitrary: t rule: less_induct)
  case less
  obtain k where k: "k \<le> 62" "rep_buckets t = 2 ^ k" "rep_mask t = of_nat ((2 ^ k - 1) * 4)" "tab_ok k (rep_tab t)"
    using less.prems(1) by (auto simp: rep_inv_def)
  note idx = index_bucket [OF k(1), of h]
  have nin: "h = 0 \<or> h \<notin> set (rep_tab t)" using less.prems(2) by (auto simp: rep_set_def)
  show ?case
  proof (cases "put_slot (rep_tab t) (bucket_of k h * 4) h")
    case (Some tab)
    have l: "rep_insert_loop t h = Some (t\<lparr>rep_tab := tab\<rparr>)"
      by (subst rep_insert_loop.simps) (simp only: k(3) idx Some option.case)
    have "tab_ok k tab \<and> set tab - {0} = insert h (set (rep_tab t)) - {0}"
    proof (cases "h = 0")
      case True
      then show ?thesis using put_slot_zero Some k(4) by auto
    next
      case False
      then show ?thesis using put_slot_ok [OF k(4) False _ Some] nin by auto
    qed
    moreover have "put_slot (rep_tab t) (unat (h AND rep_mask t)) h \<noteq> None" unfolding k(3) idx Some by simp
    ultimately show ?thesis unfolding l using k by (auto simp: rep_inv_def rep_set_def)
  next
    case None
    have "k \<noteq> 62" using put_slot_top [of "rep_tab t" h] nin None k(4) by auto
    then have lt: "rep_buckets t < 2 ^ 62" unfolding k(2) by (intro power_strict_increasing) (use k(1) in auto)
    note g = rep_grow_ok [OF less.prems(1) lt]
    have l: "rep_insert_loop t h = rep_insert_loop (rep_grow t) h"
      by (subst rep_insert_loop.simps) (simp only: k(3) idx None option.case)
    have "0 < rep_buckets t" using k(2) by simp
    moreover have "2 ^ 62 - rep_buckets (rep_grow t) < 2 ^ 62 - rep_buckets t" using g lt calculation by linarith
    ultimately show ?thesis unfolding l using less.hyps [of "rep_grow t"] g less.prems(2) by fastforce
  qed
qed

lemma rep_insert_loop_ok:
  assumes "h \<noteq> 0" "rep_inv t" "h \<notin> rep_set t"
  shows "\<exists>t'. rep_insert_loop t h = Some t' \<and> rep_inv t' \<and> rep_set t' = insert h (rep_set t)"
  using rep_insert_loop_any [of t h] assms by (auto simp: rep_set_def insert_Diff_if)

text \<open>An insertion ends, and one that reports a new hash made the set or the table larger.\<close>

lemma rep_insert_any:
  assumes "rep_inv t"
  shows "\<exists>fresh t'. rep_insert t h = Some (fresh, t') \<and> rep_inv t' \<and> rep_set t \<subseteq> rep_set t' \<and> rep_buckets t \<le> rep_buckets t' \<and>
    (fresh \<longrightarrow> rep_set t' \<noteq> rep_set t \<or> rep_buckets t < rep_buckets t')"
proof (cases "rep_has t h")
  case True
  then show ?thesis using assms by (intro exI [of _ False] exI [of _ t]) (simp add: rep_insert_def)
next
  case False
  have n: "h = 0 \<or> h \<notin> rep_set t" using rep_has_iff [OF assms, of h] False by auto
  have "put_slot (rep_tab t) (unat (h AND rep_mask t)) h = None" if "h = 0"
  proof -
    have "find (\<lambda>i. rep_tab t ! (0 + i) = 0) [0..<BUCKET_SIZE] = None"
      using False that by (simp add: rep_has_def list_ex_iff find_None_iff)
    then show ?thesis using that by (simp add: put_slot_def)
  qed
  then have full: "h = 0 \<Longrightarrow> put_slot (rep_tab t) (unat (h AND rep_mask t)) h = None" .
  obtain t' where t': "rep_insert_loop t h = Some t'" "rep_inv t'" "rep_set t' = insert h (rep_set t) - {0}"
      "rep_buckets t \<le> rep_buckets t'" "put_slot (rep_tab t) (unat (h AND rep_mask t)) h = None \<longrightarrow> rep_buckets t < rep_buckets t'"
    using rep_insert_loop_any [OF assms n] by (elim exE conjE) (rule that)
  have "rep_set t' \<noteq> rep_set t \<or> rep_buckets t < rep_buckets t'"
  proof (cases "h = 0")
    case True
    then show ?thesis using t'(5) full by simp
  next
    case False
    then have "h \<in> rep_set t'" "h \<notin> rep_set t" using t'(3) n by simp_all
    then show ?thesis by blast
  qed
  moreover have "rep_set t \<subseteq> rep_set t'" unfolding t'(3) by (auto simp: rep_set_def)
  ultimately show ?thesis using t' False by (intro exI [of _ True] exI [of _ t']) (simp add: rep_insert_def)
qed

lemma rep_erase_ok:
  assumes "rep_inv t" "h \<noteq> 0"
  shows "rep_inv (rep_erase t h) \<and> rep_set (rep_erase t h) = rep_set t - {h}"
proof -
  obtain k where k: "k \<le> 62" "rep_buckets t = 2 ^ k" "rep_mask t = of_nat ((2 ^ k - 1) * 4)" "tab_ok k (rep_tab t)"
    using assms(1) by (auto simp: rep_inv_def)
  show ?thesis
  proof (cases "find (\<lambda>i. rep_tab t ! (bucket_of k h * 4 + i) = h) [0..<4]")
    case None
    then have "h \<notin> set (rep_tab t)" using in_bucket_iff [OF k(4) assms(2)] by (auto simp: find_range_None)
    moreover have "rep_erase t h = t"
      unfolding rep_erase_def Let_def k(3) index_bucket [OF k(1)] BUCKET_SIZE_def None by simp
    ultimately show ?thesis using assms by (auto simp: rep_set_def)
  next
    case (Some i)
    let ?p = "bucket_of k h * 4 + i"
    let ?tab = "(rep_tab t)[?p := 0]"
    have i: "i < 4" "rep_tab t ! ?p = h" using Some by (auto simp: find_range)
    have "bucket_of k h + 1 \<le> 2 ^ k" using bucket_lt [of k h] by simp
    then have p: "?p < length (rep_tab t)" using i(1) k(4) by (simp add: tab_ok_def)
    have e: "rep_erase t h = t\<lparr>rep_tab := ?tab\<rparr>"
      unfolding rep_erase_def Let_def k(3) index_bucket [OF k(1)] BUCKET_SIZE_def Some by simp
    have nth: "?tab ! j = (if j = ?p then 0 else rep_tab t ! j)" if "j < length (rep_tab t)" for j
      using that p by (simp add: nth_list_update)
    have "tab_ok k ?tab"
      unfolding tab_ok_def length_list_update
    proof (intro conjI allI impI)
      show "length (rep_tab t) = 2 ^ k * 4" using k(4) by (simp add: tab_ok_def)
      show "bucket_of k (?tab ! j) = j div 4" if "j < length (rep_tab t)" "?tab ! j \<noteq> 0" for j
        using that k(4) nth [of j] by (auto simp: tab_ok_def split: if_splits)
      show "j = l" if "j < length (rep_tab t)" "l < length (rep_tab t)" "?tab ! j \<noteq> 0" "?tab ! j = ?tab ! l" for j l
        using that k(4) nth [of j] nth [of l] by (auto simp: tab_ok_def split: if_splits)
    qed
    moreover have "set ?tab - {0} = set (rep_tab t) - {0} - {h}"
    proof (intro set_eqI iffI)
      fix x assume "x \<in> set ?tab - {0}"
      then obtain j where "j < length (rep_tab t)" "?tab ! j = x" "x \<noteq> 0" by (auto simp: in_set_conv_nth)
      then show "x \<in> set (rep_tab t) - {0} - {h}"
        using nth [of j] tab_okD(2) [OF k(4) _ p, of j] i(2) by (auto split: if_splits)
    next
      fix x assume "x \<in> set (rep_tab t) - {0} - {h}"
      then obtain j where j: "j < length (rep_tab t)" "rep_tab t ! j = x" "x \<noteq> 0" "x \<noteq> h" by (auto simp: in_set_conv_nth)
      then have "?tab ! j = x" using nth [of j] i(2) by auto
      then show "x \<in> set ?tab - {0}" using j nth_mem [of j ?tab] by simp
    qed
    ultimately show ?thesis unfolding e using k by (auto simp: rep_inv_def rep_set_def)
  qed
qed

lemma rep_empty_ok: "rep_inv rep_empty \<and> rep_set rep_empty = {}"
  using tab_ok_empty [of 5] unfolding rep_inv_def rep_set_def rep_empty_def INITIAL_BUCKET_COUNT_def BUCKET_SIZE_def
  by (auto intro!: exI [of _ 5])

interpretation rep: hash_set rep_inv rep_set rep_has rep_insert rep_erase
proof unfold_locales
  fix t :: rep_table and h :: u64 assume t: "rep_inv t" "h \<noteq> 0"
  show "rep_has t h = (h \<in> rep_set t)" by (rule rep_has_iff [OF t])
  show "\<exists>t'. rep_insert t h = Some (True, t') \<and> rep_inv t' \<and> rep_set t' = insert h (rep_set t)" if "h \<notin> rep_set t"
    using rep_insert_loop_ok [OF t(2,1) that] that by (auto simp: rep_insert_def rep_has_iff [OF t])
  show "rep_insert t h = Some (False, t)" if "h \<in> rep_set t"
    using that by (simp add: rep_insert_def rep_has_iff [OF t])
  show "rep_inv (rep_erase t h)" "rep_set (rep_erase t h) = rep_set t - {h}" using rep_erase_ok [OF t] by blast+
qed

text \<open>The hash zero stands for a free slot: it counts as present in every bucket with one.\<close>

lemma rep_has_zero: "rep_has rep_empty 0"
  by code_simp

end
