(* ===== verification/Table_Properties.thy ===== *)
theory Table_Properties
  imports Trans_Threads Repetition
begin

text \<open>The properties of the tables the search keeps: transposition table, repetition table, and of scores.\<close>

text \<open>What a load returns after a store, for the key of the store and for every other key: the new
  data replaces the entry at its index unless that entry weighs more, and no other index changes.\<close>

theorem table_load_store:
  assumes "tt_wf t"
  shows "tt_wf (tt_store t key d) \<and> tt_load (tt_store t key d) key' =
    (if store_rejected t key d \<or> tt_index (tt_size t) key' \<noteq> tt_index (tt_size t) key then tt_load t key'
     else if key' = key then d\<lparr>td_epoch := tt_epoch t\<rparr> else td_zero)"
  using load_store_cases [of t key d key'] store_wf [OF assms] assms by (simp add: tt_wf_def)

lemma small_table_wf: "tt_wf \<lparr>tt_size = 1, tt_table = [ent_zero], tt_epoch = 7\<rparr>"
  unfolding tt_wf_def tt_ok_def by (auto intro: exI [of _ 0])

theorem table_load_store_witness:
  "tt_load (tt_store \<lparr>tt_size = 1, tt_table = [ent_zero], tt_epoch = 7\<rparr> 5 (tt_Data move_null 10 3 Exact)) 5 =
    (tt_Data move_null 10 3 Exact)\<lparr>td_epoch := 7\<rparr>"
proof -
  have "\<not> store_rejected \<lparr>tt_size = 1, tt_table = [ent_zero], tt_epoch = 7\<rparr> 5 (tt_Data move_null 10 3 Exact)"
    using weight_ge [of "(tt_Data move_null 10 3 Exact)\<lparr>td_epoch := 7\<rparr>" 7]
    by (simp add: store_rejected_def tt_index_def td_weight_def)
  then show ?thesis using table_load_store [OF small_table_wf, of 5 "tt_Data move_null 10 3 Exact" 5] by simp
qed

text \<open>C25: while other threads write, what a load returns for a key was stored for that key, or it mixes the
  data of one store with the key word of a different store of other data, and the two keys and data happen
  to cancel in the exclusive or: entries torn in any other way are noticed.\<close>

theorem table_loads_stored_data:
  assumes "tt_wf t" "tt_reachable t s" "sh_threads s i = Loaded key d" "d \<noteq> td_zero"
  shows "(key, d) \<in> sh_stored s \<or> (\<exists>key1 key2 d2. (key1, d) \<in> sh_stored s \<and> (key2, d2) \<in> sh_stored s \<and>
    d2 \<noteq> d \<and> key1 \<noteq> key \<and> key XOR td_asUint d = key2 XOR td_asUint d2)"
  using loaded_origin [OF assms(2) _ assms(3,4)] assms(1) by (simp add: tt_wf_def)

definition one_entry :: trans_table where
  "one_entry = \<lparr>tt_size = 1, tt_table = [\<lparr>ent_value = tt_Data move_null 10 3 Exact, ent_key = 5 XOR td_asUint (tt_Data move_null 10 3 Exact)\<rparr>],
     tt_epoch = 0\<rparr>"

theorem table_loads_witness:
  "\<exists>s d. tt_reachable one_entry s \<and> sh_threads s 2 = Loaded 5 d \<and> td_score d = 10 \<and> ((5, d) \<in> sh_stored s \<or>
    (\<exists>key1 key2 d2. (key1, d) \<in> sh_stored s \<and> (key2, d2) \<in> sh_stored s \<and>
      d2 \<noteq> d \<and> key1 \<noteq> 5 \<and> 5 XOR td_asUint d = key2 XOR td_asUint d2))"
proof -
  let ?d = "tt_Data move_null 10 3 Exact"
  let ?kw = "5 XOR td_asUint ?d"
  have wf: "tt_wf one_entry"
    unfolding tt_wf_def tt_ok_def one_entry_def by (auto intro: exI [of _ 0] simp: tt_index_def)
  let ?s0 = "tt_start one_entry"
  let ?s1 = "set_thread ?s0 2 (Loading 5 None None)"
  let ?s2 = "set_thread ?s1 2 (Loading 5 (Some (ent_value (sh_entry ?s1 5))) None)"
  let ?s3 = "set_thread ?s2 2 (Loading 5 (Some (ent_value (sh_entry ?s1 5))) (Some (ent_key (sh_entry ?s2 5))))"
  let ?s4 = "set_thread ?s3 2 (Loaded 5 (load_check 5 (ent_value (sh_entry ?s1 5)) (ent_key (sh_entry ?s2 5))))"
  have "tt_step ?s0 ?s1" by (rule tt_step.Load_begin) (simp add: tt_start_def)
  with tt_reachable.Start have "tt_reachable one_entry ?s1" by (rule tt_reachable.Step)
  moreover have "tt_step ?s1 ?s2" by (rule tt_step.Read_value) simp
  ultimately have "tt_reachable one_entry ?s2" by (rule tt_reachable.Step)
  moreover have "tt_step ?s2 ?s3" by (rule tt_step.Read_key) simp
  ultimately have "tt_reachable one_entry ?s3" by (rule tt_reachable.Step)
  moreover have "tt_step ?s3 ?s4" by (rule tt_step.Load_end) simp
  ultimately have r: "tt_reachable one_entry ?s4" by (rule tt_reachable.Step)
  have l: "sh_threads ?s4 2 = Loaded 5 ?d"
    by (simp add: tt_start_def one_entry_def tt_index_def load_check_def Let_def)
  have s: "td_score ?d = 10" by (simp add: td_score_def tt_Data_def)
  then have "?d \<noteq> td_zero" by (auto simp: td_score_def td_zero_def)
  from table_loads_stored_data [OF wf r l this] show ?thesis using r l s by blast
qed



text \<open>The number of entries is the largest power of two whose bytes do not exceed the requested size and
  at least a mebibyte; a request of \<open>2 ^ 63\<close> bytes or more never returns.\<close>

theorem table_size_is_floor_power:
  "(unat maxSize < 2 ^ 63 \<longrightarrow> (\<exists>k. new_size maxSize = Some (2 ^ k) \<and> 2 ^ k * ENTRY_BYTES \<le> max (unat maxSize) (2 ^ 20) \<and>
      max (unat maxSize) (2 ^ 20) < 2 ^ (k + 1) * ENTRY_BYTES)) \<and>
    (2 ^ 63 \<le> unat maxSize \<longrightarrow> new_size maxSize = None)"
proof -
  have "\<exists>k. new_size maxSize = Some (2 ^ k) \<and> 2 ^ k * ENTRY_BYTES \<le> max (unat maxSize) (2 ^ 20) \<and>
      max (unat maxSize) (2 ^ 20) < 2 ^ (k + 1) * ENTRY_BYTES" if "unat maxSize < 2 ^ 63"
    using new_size_power [OF that] unfolding ENTRY_BYTES_def by metis
  then show ?thesis using new_size_diverges [of maxSize] by blast
qed

theorem table_size_witness: "new_size (2 ^ 63) = None \<and> (\<exists>k. new_size 0 = Some (2 ^ k))"
proof -
  have "2 ^ 63 \<le> unat (2 ^ 63 :: u64)" "unat (0 :: u64) < 2 ^ 63" by simp_all
  then show ?thesis
    using table_size_is_floor_power [of "2 ^ 63"] table_size_is_floor_power [of 0] by blast
qed

text \<open>For any number of jobs but zero the segments of \<^verbatim>\<open>processSegmentParallel\<close> are nonempty and, put one after
  the other, are the range; so clearing with any number of threads clears every entry.\<close>

theorem segments_partition_range:
  assumes "0 < jobs" "left \<le> right"
  shows "(\<exists>segs. segments left right jobs = Some segs \<and> concat (map (\<lambda>(a, b). [a..<b]) segs) = [left..<right] \<and>
      length segs \<le> jobs \<and> (\<forall>(a, b) \<in> set segs. a < b)) \<and>
    doClear tab (length tab) jobs = Some (replicate (length tab) ent_zero)"
  using segments_ok [OF assms] covers_concat doClear_eq [OF assms(1) refl, of tab] by metis

theorem segments_witness:
  "\<exists>segs. segments 3 13 4 = Some segs \<and> concat (map (\<lambda>(a, b). [a..<b]) segs) = [3..<13] \<and> segs = [(3, 6), (6, 9), (9, 11), (11, 13)]"
proof -
  have "segments 3 13 4 = Some [(3, 6), (6, 9), (9, 11), (11, 13)]" by code_simp
  then show ?thesis using segments_partition_range [of 4 3 13 "[]"] by auto
qed

text \<open>A pair of scores packed into one 32-bit word unpacks into the same two scores, whatever their signs,
  and sums, differences and multiples of packed pairs are those of both scores.\<close>

theorem score_pair_packs:
  assumes "- 32768 \<le> a" "a \<le> 32767" "- 32768 \<le> b" "b \<le> 32767"
  shows "pair_first (pair_from a b) = a \<and> pair_second (pair_from a b) = b \<and>
    pair_add (pair_from a b) (pair_from c d) = pair_from (a + c) (b + d) \<and>
    pair_sub (pair_from a b) (pair_from c d) = pair_from (a - c) (b - d) \<and>
    pair_scale (pair_from a b) k = pair_from (a * k) (b * k)"
  using pair_first_from [OF assms(1,2)] pair_second_from [OF assms] pair_arith by blast

theorem score_pair_witness: "pair_second (pair_from (- 7) 12) = 12 \<and> pair_first (pair_from (- 7) 12) = - 7"
  using score_pair_packs [of "- 7" 12] by simp

text \<open>The cost shown for a valid score grows strictly with the score, mates included; a distance to mate of
  any 16-bit length survives the encoding; and the mate distance that is shifted by the ply when a score is
  stored in the table is shifted back when it is loaded.\<close>

theorem score_costs:
  assumes "isScoreValid s1" "isScoreValid s2" "0 \<le> ply" "ply \<le> 264"
  shows "(s1 < s2 \<longleftrightarrow> scoreToPositionCost s1 < scoreToPositionCost s2) \<and>
    adjustCheckmate (adjustCheckmate s1 (- ply)) ply = s1 \<and>
    (- 32768 \<le> m \<and> m \<le> 32767 \<longrightarrow> cost_get_checkMate (cost_checkMate m) = m)"
proof -
  have "s1 < s2 \<longleftrightarrow> scoreToPositionCost s1 < scoreToPositionCost s2"
    using scoreToPositionCost_mono [OF assms(1,2)] scoreToPositionCost_mono [OF assms(2,1)]
    by (metis less_asym linorder_neqE_linordered_idom)
  then show ?thesis using adjustCheckmate_roundtrip assms cost_checkMate_roundtrip by blast
qed

theorem score_costs_witness:
  "scoreToPositionCost 28001 < scoreToPositionCost 29999 \<and> adjustCheckmate (adjustCheckmate 28001 (- 5)) 5 = 28001"
proof -
  have "isScoreValid 29999" by code_simp
  moreover have "isScoreValid 28001" by code_simp
  ultimately show ?thesis using score_costs [of 28001 29999 5] by simp
qed

text \<open>C27: the repetition table is a set of non-zero hashes: an insertion succeeds, growing the table as often as
  needed, and tells whether the hash was new; a removal removes that hash only; and a hash inserted for the
  time of a search and removed afterwards leaves the set as it was.\<close>

theorem repetition_table_is_a_set:
  assumes "rep_inv t" "h \<noteq> 0"
  shows "(\<exists>fresh t'. rep_insert t h = Some (fresh, t') \<and> rep_inv t' \<and> (fresh \<longleftrightarrow> h \<notin> rep_set t) \<and>
      rep_set t' = insert h (rep_set t) \<and> (fresh \<longrightarrow> rep_set (rep_erase t' h) = rep_set t)) \<and>
    (rep_has t h \<longleftrightarrow> h \<in> rep_set t) \<and>
    rep_inv (rep_erase t h) \<and> rep_set (rep_erase t h) = rep_set t - {h}"
  using rep.ins_total [OF assms] rep.has_iff [OF assms] rep.del_inv [OF assms] rep.del_elems [OF assms]
    rep.scoped [OF assms] by metis

theorem repetition_table_witness: "rep_inv rep_empty \<and> (\<exists>t'. rep_insert rep_empty 42 = Some (True, t') \<and> rep_set t' = {42})"
proof -
  have "rep_inv rep_empty" "rep_set rep_empty = {}" using rep_empty_ok by simp_all
  then show ?thesis using repetition_table_is_a_set [of rep_empty 42] by auto
qed

end
