(* ===== verification/Search.thy ===== *)
theory Search
  imports Picker_Moves Playable Table_Properties
begin

text \<open>
  The search of one job (\<^verbatim>\<open>src/src/search/private/job.cpp\<close>, constants of \<^verbatim>\<open>consts.h\<close>): quiescence
  search, the main alpha-beta search with its table, null move, futility, razoring and late move
  reduction, and iterative deepening. The searcher's fields are a record that is passed along; the
  board in it is changed by making moves and unmaking them, as in the source.
\<close>

section \<open>What the searcher works with\<close>

text \<open>
  What comes from outside a job is an argument, indexed by the number of the call where other threads
  or the clock may change the answer: whether the search was stopped, whether the time is over, the depth
  the jobs work on, what a load from the shared transposition table returns. The evaluation function
  and its tag, the order of \<^verbatim>\<open>std::sort\<close> and the random shuffle are arguments too.
\<close>

record 'tag search_env =
  env_zobrist :: zobrist
  env_sort :: move_sort
  env_shuffle :: "move list \<Rightarrow> move list"
  env_tagFrom :: "board \<Rightarrow> 'tag"
  env_tagUpdated :: "'tag \<Rightarrow> board \<Rightarrow> move \<Rightarrow> 'tag"
  env_evalForCur :: "board \<Rightarrow> 'tag \<Rightarrow> score"
  env_isStopped :: "nat \<Rightarrow> bool"
  env_checkTimeout :: "nat \<Rightarrow> bool"
  env_depth :: "nat \<Rightarrow> nat"
  env_load :: "nat \<Rightarrow> u64 \<Rightarrow> tt_data"
  env_epoch :: u8
  env_jobId :: nat

datatype JobStat = Nodes | TtHits | TtCutoffHits | PvNodes | NonPvNodes | PvInternalNodes | NonPvInternalNodes
  | PPEdges | PNEdges | NNEdges

record frame =
  fr_killers :: killer_line
  fr_bestMove :: move

text \<open>\<open>se_clock\<close> and \<open>se_loads\<close> count the calls that ask the outside; \<open>se_stores\<close> lists the stores to the table.\<close>

record searcher =
  se_board :: board
  se_repetitions :: rep_table
  se_stack :: "frame list"
  se_history :: history_table
  se_depth :: nat
  se_counter :: nat
  se_clock :: nat
  se_loads :: nat
  se_stores :: "(u64 \<times> tt_data) list"
  se_stats :: "JobStat \<Rightarrow> u64"

definition MAX_DEPTH :: nat where "MAX_DEPTH = 255"
definition MAX_STACK_DEPTH :: nat where "MAX_STACK_DEPTH = MAX_DEPTH + 10"
definition NullMove_MIN_DEPTH :: int where "NullMove_MIN_DEPTH = 5"
definition NullMove_DEPTH_DEC :: int where "NullMove_DEPTH_DEC = 3"
definition NullMove_REDUCTION_DEC :: int where "NullMove_REDUCTION_DEC = 4"
definition Futility_MAX_DEPTH :: int where "Futility_MAX_DEPTH = 4"
definition Futility_MARGINS :: "score list" where "Futility_MARGINS = [0, 50, 150, 250, 350]"
definition Razoring_MAX_DEPTH :: int where "Razoring_MAX_DEPTH = 4"
definition Razoring_MARGINS :: "score list" where "Razoring_MARGINS = [0, 100, 200, 300, 400]"
definition LateMove_MIN_DEPTH :: int where "LateMove_MIN_DEPTH = 3"
definition LateMove_REDUCE_DEPTH :: int where "LateMove_REDUCE_DEPTH = 1"
definition LateMove_MOVES_NO_REDUCE :: nat where "LateMove_MOVES_NO_REDUCE = 2"

datatype NodeKind = NkRoot | NkPv | NkSimple

definition isNodeKindPv :: "NodeKind \<Rightarrow> bool" where
  "isNodeKindPv nk \<longleftrightarrow> nk = NkRoot \<or> nk = NkPv"

type_synonym flags = u64

definition Flags_None :: flags where "Flags_None = 0"
definition Flags_Capture :: flags where "Flags_Capture = 1"
definition Flags_NullMove :: flags where "Flags_NullMove = 2"
definition Flags_NullMoveReduction :: flags where "Flags_NullMoveReduction = 4"
definition Flags_LateMoveReduction :: flags where "Flags_LateMoveReduction = 8"
definition Flags_Default :: flags where "Flags_Default = 0"

definition Flags_Inherit :: flags where
  "Flags_Inherit = Flags_NullMove OR Flags_NullMoveReduction OR Flags_LateMoveReduction"

definition Flags_NullMoveDisable :: flags where
  "Flags_NullMoveDisable = Flags_NullMove OR Flags_NullMoveReduction OR Flags_Capture"

definition stat_inc :: "JobStat \<Rightarrow> searcher \<Rightarrow> searcher" where
  "stat_inc st s = s\<lparr>se_stats := (se_stats s)(st := se_stats s st + 1)\<rparr>"

text \<open>Negation as the conversion to \<^verbatim>\<open>score_t\<close> leaves it.\<close>

definition neg_score :: "score \<Rightarrow> score" where
  "neg_score v = to_i16 (- v)"

section \<open>Making moves, stopping\<close>

text \<open>The constructor of \<open>MoveMakeGuard\<close>: the new tag, and what \<open>release\<close> needs.\<close>

definition guard_make :: "('tag, 'e) search_env_scheme \<Rightarrow> searcher \<Rightarrow> move \<Rightarrow> 'tag \<Rightarrow> 'tag \<times> MovePersistence \<times> searcher" where
  "guard_make env s m tg =
     (let tg' = env_tagUpdated env tg (se_board s) m; (b, p) = moveMake (env_zobrist env) (se_board s) m
      in (tg', p, s\<lparr>se_board := b\<rparr>))"

definition guard_release :: "('tag, 'e) search_env_scheme \<Rightarrow> searcher \<Rightarrow> move \<Rightarrow> MovePersistence \<Rightarrow> searcher" where
  "guard_release env s m p = s\<lparr>se_board := moveUnmake (env_zobrist env) (se_board s) m p\<rparr>"

definition mustStop :: "('tag, 'e) search_env_scheme \<Rightarrow> searcher \<Rightarrow> bool \<times> searcher" where
  "mustStop env s0 =
     (let n = se_clock s0; s = s0\<lparr>se_clock := n + 1\<rparr>
      in if env_isStopped env n then (True, s)
         else let c = se_counter s + 1; s' = s\<lparr>se_counter := c\<rparr>
              in if c mod 1024 = 0 then (env_checkTimeout env n, s') else (env_depth env n \<noteq> se_depth s', s'))"

section \<open>Quiescence search\<close>

type_synonym 'tag qsearch = "score \<Rightarrow> score \<Rightarrow> 'tag \<Rightarrow> searcher \<Rightarrow> (score \<times> searcher) option"

text \<open>The loop over the moves; \<open>srch\<close> is the recursive call, the number bounds the calls of the picker.\<close>

primrec q_loop :: "('tag, 'e) search_env_scheme \<Rightarrow> 'tag qsearch \<Rightarrow> nat \<Rightarrow> qpicker \<Rightarrow> score \<Rightarrow> score \<Rightarrow> 'tag \<Rightarrow> searcher \<Rightarrow>
    (score \<times> searcher) option" where
  "q_loop env srch 0 picker alpha beta tg s = None"
| "q_loop env srch (Suc n) picker0 alpha beta tg s =
     (let (m, picker) = qnext_move (env_sort env) picker0
      in if move_eq m move_invalid then Some (alpha, s)
         else if move_eq m move_null then q_loop env srch n picker alpha beta tg s
         else let (tg', p, s1) = guard_make env s m tg
              in if \<not> wasMoveLegal (se_board s1) then q_loop env srch n picker alpha beta tg (guard_release env s1 m p)
                 else Option.bind (srch (neg_score beta) (neg_score alpha) tg' s1) (\<lambda>(r, s2).
                   let score = neg_score r; (stop, s3) = mustStop env s2; s4 = guard_release env s3 m p
                   in if stop then Some (0, s4)
                      else let alpha' = max alpha score
                           in if alpha' \<ge> beta then Some (beta, s4) else q_loop env srch n picker alpha' beta tg s4))"

definition q_body :: "('tag, 'e) search_env_scheme \<Rightarrow> 'tag qsearch \<Rightarrow> nat \<Rightarrow> 'tag qsearch" where
  "q_body env srch n alpha0 beta tg s0 =
     (if isBoardDrawInsufficientMaterial (se_board s0) then Some (0, s0)
      else let s = stat_inc Nodes s0; evalScore = env_evalForCur env (se_board s) tg; alpha = max alpha0 evalScore
           in if alpha \<ge> beta then Some (beta, s)
              else q_loop env srch n (newQuiescenseMovePicker (env_sort env) (se_board s)) alpha beta tg s)"

primrec quiescenseSearch :: "('tag, 'e) search_env_scheme \<Rightarrow> nat \<Rightarrow> 'tag qsearch" where
  "quiescenseSearch env 0 alpha beta tg s = None"
| "quiescenseSearch env (Suc n) alpha beta tg s = q_body env (quiescenseSearch env n) n alpha beta tg s"

section \<open>The main search\<close>

type_synonym 'tag search = "NodeKind \<Rightarrow> int \<Rightarrow> nat \<Rightarrow> score \<Rightarrow> score \<Rightarrow> 'tag \<Rightarrow> flags \<Rightarrow> searcher \<Rightarrow> (score \<times> searcher) option"

definition set_bestMove :: "nat \<Rightarrow> move \<Rightarrow> searcher \<Rightarrow> searcher" where
  "set_bestMove idepth m s = s\<lparr>se_stack := (se_stack s)[idepth := (se_stack s ! idepth)\<lparr>fr_bestMove := m\<rparr>]\<rparr>"

definition add_killer :: "nat \<Rightarrow> move \<Rightarrow> searcher \<Rightarrow> searcher" where
  "add_killer idepth m s = s\<lparr>se_stack := (se_stack s)[idepth :=
     (se_stack s ! idepth)\<lparr>fr_killers := killer_add (fr_killers (se_stack s ! idepth)) m\<rparr>]\<rparr>"

text \<open>The lambda \<open>ttStore\<close>, with \<open>origAlpha\<close> and \<open>origBeta\<close>.\<close>

definition ttStore :: "score \<Rightarrow> score \<Rightarrow> int \<Rightarrow> nat \<Rightarrow> score \<Rightarrow> searcher \<Rightarrow> searcher" where
  "ttStore origAlpha origBeta depth idepth score0 s =
     (let (score1, bound1) = (if score0 \<le> origAlpha then (origAlpha, Upperbound) else (score0, Exact));
          (score2, bound2) = (if score1 \<ge> origBeta then (origBeta, Lowerbound) else (score1, bound1));
          score = adjustCheckmate score2 (to_i16 (- to_i16 (int idepth)));
          bestMove = fr_bestMove (se_stack s ! idepth)
      in if \<not> move_eq bestMove move_null
         then s\<lparr>se_stores := se_stores s @ [(hash (se_board s), tt_Data bestMove score depth bound2)]\<rparr> else s)"

text \<open>The table is probed: a score that cuts the node off, or the hash move.\<close>

definition probe_table :: "('tag, 'e) search_env_scheme \<Rightarrow> NodeKind \<Rightarrow> int \<Rightarrow> nat \<Rightarrow> score \<Rightarrow> score \<Rightarrow> searcher \<Rightarrow> (score + move) \<times> searcher" where
  "probe_table env node depth idepth alpha beta s0 =
     (let data = env_load env (se_loads s0) (hash (se_board s0)); s = s0\<lparr>se_loads := se_loads s0 + 1\<rparr>
      in if \<not> td_isValid data then (Inr move_null, s)
         else let s1 = stat_inc TtHits s; hashMove = td_move data;
                  allowCutoff = (node \<noteq> NkRoot \<and> td_depth data \<ge> depth \<and> moveCounter (se_board s) < 90 \<and>
                    (\<not> isNodeKindPv node \<or> td_epoch data = env_epoch env))
              in if \<not> allowCutoff then (Inr hashMove, s1)
                 else let score = adjustCheckmate (td_score data) (to_i16 (int idepth)); bound = td_bound data
                      in if bound = boundVal Exact \<or> (bound = boundVal Lowerbound \<and> score \<ge> beta) \<or>
                            (bound = boundVal Upperbound \<and> alpha \<ge> score)
                         then (Inl score, stat_inc TtCutoffHits (set_bestMove idepth hashMove s1))
                         else (Inr hashMove, s1))"

definition isMateBounds :: "score \<Rightarrow> score \<Rightarrow> bool" where
  "isMateBounds alpha beta \<longleftrightarrow> alpha \<le> - SCORE_CHECKMATE_THRESHOLD \<or> beta \<ge> SCORE_CHECKMATE_THRESHOLD"

text \<open>Futility pruning, then razoring: \<open>Some\<close> score when the node is pruned.\<close>

definition try_prune :: "('tag, 'e) search_env_scheme \<Rightarrow> 'tag qsearch \<Rightarrow> NodeKind \<Rightarrow> bool \<Rightarrow> int \<Rightarrow> score \<Rightarrow> score \<Rightarrow> 'tag \<Rightarrow> searcher \<Rightarrow>
    (score option \<times> searcher) option" where
  "try_prune env qs node isInCheck depth alpha beta tg s =
     (if isNodeKindPv node \<or> isInCheck \<or> isMateBounds alpha beta then Some (None, s)
      else let evalScore = env_evalForCur env (se_board s) tg
      in if depth \<le> Futility_MAX_DEPTH \<and> evalScore \<ge> to_i16 (beta + Futility_MARGINS ! nat depth) then Some (Some beta, s)
      else if depth \<le> Razoring_MAX_DEPTH
      then let threshold = to_i16 (alpha - Razoring_MARGINS ! nat depth)
           in if evalScore \<le> threshold
              then map_option (\<lambda>(r, s'). (if r \<le> threshold then Some alpha else None, s'))
                (qs threshold (to_i16 (threshold + 1)) tg s)
              else Some (None, s)
      else Some (None, s))"

text \<open>The null move: the score 0 on a stop, or the depth and flags to go on with.\<close>

definition try_nullMove :: "('tag, 'e) search_env_scheme \<Rightarrow> 'tag search \<Rightarrow> NodeKind \<Rightarrow> bool \<Rightarrow> int \<Rightarrow> nat \<Rightarrow> score \<Rightarrow> score \<Rightarrow> 'tag \<Rightarrow> flags \<Rightarrow>
    searcher \<Rightarrow> ((int \<times> flags) option \<times> searcher) option" where
  "try_nullMove env srch node isInCheck depth idepth alpha beta tg flags s =
     (if \<not> isNodeKindPv node \<and> depth \<ge> NullMove_MIN_DEPTH \<and> \<not> isInCheck \<and> \<not> isMateBounds alpha beta \<and>
         flags AND Flags_NullMoveDisable = Flags_None
      then let (tg', p, s1) = guard_make env s move_null tg;
               newFlags = (flags AND Flags_Inherit) OR Flags_NullMove
           in map_option (\<lambda>(r, s2). let score = neg_score r; (stop, s3) = mustStop env s2; s4 = guard_release env s3 move_null p
                in if stop then (None, s4)
                   else if score \<ge> beta then (Some (depth - NullMove_REDUCTION_DEC, flags OR Flags_NullMoveReduction), s4)
                   else (Some (depth, flags), s4))
             (srch NkSimple (depth - NullMove_DEPTH_DEC) (idepth + 1) (neg_score beta) (to_i16 (- beta + 1)) tg' newFlags s1)
      else Some (Some (depth, flags), s))"

datatype any_picker = RootPicker "move list" | NodePicker picker

fun any_next :: "('tag, 'e) search_env_scheme \<Rightarrow> killer_line \<Rightarrow> history_table \<Rightarrow> any_picker \<Rightarrow> move \<times> any_picker" where
  "any_next env k h (RootPicker []) = (move_invalid, RootPicker [])"
| "any_next env k h (RootPicker (m # ms)) = (m, RootPicker ms)"
| "any_next env k h (NodePicker p) = (let (m, p') = next_move (env_sort env) k h p in (m, NodePicker p'))"

fun any_stage :: "any_picker \<Rightarrow> MovePickerStage" where
  "any_stage (RootPicker ms) = PStart"
| "any_stage (NodePicker p) = pk_stage p"

definition MovePickerFactory_create :: "('tag, 'e) search_env_scheme \<Rightarrow> NodeKind \<Rightarrow> board \<Rightarrow> move \<Rightarrow> killer_line \<Rightarrow> history_table \<Rightarrow> any_picker option" where
  "MovePickerFactory_create env node b hashMove k h =
     (if node = NkRoot
      then map_option RootPicker (newRootNodeMovePicker (env_sort env) (env_shuffle env) (env_jobId env) k h (newMovePicker b hashMove))
      else Some (NodePicker (newMovePicker b hashMove)))"

text \<open>What the search of one move gives: the job must stop, the move is skipped, or its score.\<close>

datatype move_outcome = OutStopped | OutSkipped | OutScored score

definition lateMoveReduction :: "('tag, 'e) search_env_scheme \<Rightarrow> 'tag search \<Rightarrow> NodeKind \<Rightarrow> int \<Rightarrow> nat \<Rightarrow> score \<Rightarrow> bool \<Rightarrow> nat \<Rightarrow>
    MovePickerStage \<Rightarrow> 'tag \<Rightarrow> flags \<Rightarrow> searcher \<Rightarrow> (move_outcome option \<times> searcher) option" where
  "lateMoveReduction env srch node depth idepth alpha isFirstMove numHistoryMoves stage tg newFlags s =
     (if node \<noteq> NkRoot \<and> \<not> isFirstMove \<and> \<not> isNodeKindPv node \<and> depth \<ge> LateMove_MIN_DEPTH \<and> stage = PHistory \<and>
         numHistoryMoves > LateMove_MOVES_NO_REDUCE \<and> \<not> isCheck (se_board s)
      then map_option (\<lambda>(r, s2). let score = neg_score r; (stop, s3) = mustStop env s2
             in if stop then (Some OutStopped, s3) else if score \<le> alpha then (Some OutSkipped, s3) else (None, s3))
           (srch NkSimple (depth - 1 - LateMove_REDUCE_DEPTH) (idepth + 1) (to_i16 (- alpha - 1)) (neg_score alpha) tg
             (newFlags OR Flags_LateMoveReduction) s)
      else Some (None, s))"

definition zeroWindow :: "('tag, 'e) search_env_scheme \<Rightarrow> 'tag search \<Rightarrow> bool \<Rightarrow> int \<Rightarrow> nat \<Rightarrow> score \<Rightarrow> 'tag \<Rightarrow> flags \<Rightarrow> searcher \<Rightarrow>
    (score option \<times> searcher) option" where
  "zeroWindow env srch doZeroWindowSearch depth idepth alpha tg newFlags s =
     (if doZeroWindowSearch
      then map_option (\<lambda>(r, s2). let score = (if neg_score r \<le> alpha then alpha else to_i16 (alpha + 1)); (stop, s3) = mustStop env s2
             in (if stop then None else Some score, s3))
           (srch NkSimple (depth - 1) (idepth + 1) (to_i16 (- alpha - 1)) (neg_score alpha) tg newFlags (stat_inc PNEdges s))
      else Some (Some alpha, s))"

definition fullWindow :: "('tag, 'e) search_env_scheme \<Rightarrow> 'tag search \<Rightarrow> NodeKind \<Rightarrow> int \<Rightarrow> nat \<Rightarrow> score \<Rightarrow> score \<Rightarrow> 'tag \<Rightarrow> flags \<Rightarrow> searcher \<Rightarrow>
    (move_outcome \<times> searcher) option" where
  "fullWindow env srch node depth idepth alpha beta tg newFlags s =
     map_option (\<lambda>(r, s2). let (stop, s3) = mustStop env s2 in (if stop then OutStopped else OutScored (neg_score r), s3))
       (srch (if isNodeKindPv node then NkPv else NkSimple) (depth - 1) (idepth + 1) (neg_score beta) (neg_score alpha) tg newFlags
         (stat_inc (if isNodeKindPv node then PPEdges else NNEdges) s))"

definition searchMove :: "('tag, 'e) search_env_scheme \<Rightarrow> 'tag search \<Rightarrow> NodeKind \<Rightarrow> int \<Rightarrow> nat \<Rightarrow> score \<Rightarrow> score \<Rightarrow> bool \<Rightarrow> nat \<Rightarrow>
    MovePickerStage \<Rightarrow> 'tag \<Rightarrow> flags \<Rightarrow> searcher \<Rightarrow> (move_outcome \<times> searcher) option" where
  "searchMove env srch node depth idepth alpha beta isFirstMove numHistoryMoves stage tg newFlags s =
     Option.bind (lateMoveReduction env srch node depth idepth alpha isFirstMove numHistoryMoves stage tg newFlags s) (\<lambda>(out, s1).
       case out of Some o1 \<Rightarrow> Some (o1, s1)
       | None \<Rightarrow> let doZeroWindowSearch = (isNodeKindPv node \<and> \<not> isFirstMove)
           in Option.bind (zeroWindow env srch doZeroWindowSearch depth idepth alpha tg newFlags s1) (\<lambda>(r, s2).
             case r of None \<Rightarrow> Some (OutStopped, s2)
             | Some score \<Rightarrow> if \<not> doZeroWindowSearch \<or> (alpha < score \<and> (node = NkRoot \<or> score < beta))
                 then fullWindow env srch node depth idepth alpha beta tg newFlags s2
                 else Some (OutScored score, s2)))"

text \<open>A cutoff by a quiet move feeds the killers and the history.\<close>

definition reward :: "NodeKind \<Rightarrow> MovePickerStage \<Rightarrow> int \<Rightarrow> nat \<Rightarrow> move \<Rightarrow> searcher \<Rightarrow> searcher" where
  "reward node stage depth idepth m s =
     (if node \<noteq> NkRoot \<and> stage \<ge> PKiller
      then (add_killer idepth m s)\<lparr>se_history := history_add (se_history s) m (depth * depth)\<rparr> else s)"

text \<open>The fixed data of the loop over the moves of a node.\<close>

record 'tag node_ctx =
  nc_node :: NodeKind
  nc_depth :: int
  nc_idepth :: nat
  nc_origAlpha :: score
  nc_beta :: score
  nc_tag :: 'tag
  nc_flags :: flags
  nc_inCheck :: bool

definition end_of_moves :: "'tag node_ctx \<Rightarrow> bool \<Rightarrow> score \<Rightarrow> searcher \<Rightarrow> score \<times> searcher" where
  "end_of_moves c hasMove alpha s =
     (if \<not> hasMove then (if nc_inCheck c then scoreCheckmateLose (to_i16 (int (nc_idepth c))) else 0, s)
      else (alpha, ttStore (nc_origAlpha c) (nc_beta c) (nc_depth c) (nc_idepth c) alpha s))"

primrec move_loop :: "('tag, 'e) search_env_scheme \<Rightarrow> 'tag search \<Rightarrow> 'tag node_ctx \<Rightarrow> nat \<Rightarrow> any_picker \<Rightarrow> bool \<Rightarrow> nat \<Rightarrow> score \<Rightarrow> searcher \<Rightarrow>
    (score \<times> searcher) option" where
  "move_loop env srch c 0 picker hasMove numHistoryMoves alpha s = None"
| "move_loop env srch c (Suc n) picker0 hasMove numHistoryMoves0 alpha s =
     (let (m, picker) = any_next env (fr_killers (se_stack s ! nc_idepth c)) (se_history s) picker0
      in if move_eq m move_invalid then Some (end_of_moves c hasMove alpha s)
         else if move_eq m move_null then move_loop env srch c n picker hasMove numHistoryMoves0 alpha s
         else let (tg, p, s1) = guard_make env s m (nc_tag c)
         in if \<not> wasMoveLegal (se_board s1) then move_loop env srch c n picker hasMove numHistoryMoves0 alpha (guard_release env s1 m p)
         else let numHistoryMoves = (if nc_node c \<noteq> NkRoot \<and> any_stage picker = PHistory then numHistoryMoves0 + 1 else numHistoryMoves0);
                  isCapture = isMoveCapture (se_board s1) m;
                  newFlags = (nc_flags c AND Flags_Inherit) OR (if isCapture then Flags_Capture else Flags_None)
         in Option.bind (searchMove env srch (nc_node c) (nc_depth c) (nc_idepth c) alpha (nc_beta c) (\<not> hasMove) numHistoryMoves
              (any_stage picker) tg newFlags s1) (\<lambda>(out, s2). let s3 = guard_release env s2 m p
              in case out of OutStopped \<Rightarrow> Some (0, s3)
                 | OutSkipped \<Rightarrow> move_loop env srch c n picker True numHistoryMoves alpha s3
                 | OutScored score \<Rightarrow>
                     let (alpha', s4) = (if score > alpha then (score, set_bestMove (nc_idepth c) m s3) else (alpha, s3))
                     in if alpha' \<ge> nc_beta c
                        then Some (nc_beta c, ttStore (nc_origAlpha c) (nc_beta c) (nc_depth c) (nc_idepth c) (nc_beta c)
                          (reward (nc_node c) (any_stage picker) (nc_depth c) (nc_idepth c) m s4))
                        else move_loop env srch c n picker True numHistoryMoves alpha' s4))"

text \<open>The part of \<open>doSearch\<close> after the draw and leaf tests.\<close>

definition doSearch_inner :: "('tag, 'e) search_env_scheme \<Rightarrow> 'tag search \<Rightarrow> 'tag qsearch \<Rightarrow> nat \<Rightarrow> 'tag search" where
  "doSearch_inner env srch qs n node depth idepth alpha beta tg flags s0 =
     (let s1 = stat_inc (if isNodeKindPv node then PvNodes else NonPvNodes) (stat_inc Nodes s0);
          (probe, s2) = probe_table env node depth idepth alpha beta s1
      in case probe of Inl score \<Rightarrow> Some (score, s2)
      | Inr hashMove \<Rightarrow> let isInCheck = isCheck (se_board s2)
      in Option.bind (try_prune env qs node isInCheck depth alpha beta tg s2) (\<lambda>(pruned, s3).
        case pruned of Some score \<Rightarrow> Some (score, s3)
        | None \<Rightarrow> Option.bind (try_nullMove env srch node isInCheck depth idepth alpha beta tg flags s3) (\<lambda>(next_depth, s4).
          case next_depth of None \<Rightarrow> Some (0, s4)
          | Some (depth', flags') \<Rightarrow>
              Option.bind (MovePickerFactory_create env node (se_board s4) hashMove (fr_killers (se_stack s4 ! idepth)) (se_history s4)) (\<lambda>picker.
                move_loop env srch \<lparr>nc_node = node, nc_depth = depth', nc_idepth = idepth, nc_origAlpha = alpha, nc_beta = beta,
                    nc_tag = tg, nc_flags = flags', nc_inCheck = isInCheck\<rparr> n picker False 0 alpha
                  (stat_inc (if isNodeKindPv node then PvInternalNodes else NonPvInternalNodes) s4)))))"

definition doSearch :: "('tag, 'e) search_env_scheme \<Rightarrow> 'tag search \<Rightarrow> 'tag qsearch \<Rightarrow> nat \<Rightarrow> 'tag search" where
  "doSearch env srch qs n node depth idepth alpha beta tg flags s0 =
     (let s = set_bestMove idepth move_null s0
      in if node \<noteq> NkRoot \<and> moveCounter (se_board s) \<ge> 100 then Some (0, s)
         else if node \<noteq> NkRoot \<and> isBoardDrawInsufficientMaterial (se_board s) then Some (0, s)
         else if depth \<le> 0 \<or> idepth + 1 = MAX_STACK_DEPTH
         then if alpha \<ge> SCORE_CHECKMATE_THRESHOLD then Some (alpha, s)
              else if beta \<le> - SCORE_CHECKMATE_THRESHOLD then Some (beta, s)
              else qs alpha beta tg s
         else doSearch_inner env srch qs n node depth idepth alpha beta tg flags s)"

primrec search :: "('tag, 'e) search_env_scheme \<Rightarrow> nat \<Rightarrow> 'tag search" where
  "search env 0 node depth idepth alpha beta tg flags s = None"
| "search env (Suc n) node depth idepth alpha beta tg flags s =
     Option.bind (rep_insert (se_repetitions s) (hash (se_board s))) (\<lambda>(fresh, reps).
       let s1 = s\<lparr>se_repetitions := reps\<rparr>
       in if \<not> fresh then Some (0, s1)
          else map_option (\<lambda>(score, s2). (score, s2\<lparr>se_repetitions := rep_erase (se_repetitions s2) (hash (se_board s2))\<rparr>))
            (doSearch env (search env n) (quiescenseSearch env n) n node depth idepth alpha beta tg flags s1))"

section \<open>Iterative deepening\<close>

definition searcher_run :: "('tag, 'e) search_env_scheme \<Rightarrow> nat \<Rightarrow> nat \<Rightarrow> searcher \<Rightarrow> (score \<times> move \<times> searcher) option" where
  "searcher_run env n depth s0 =
     (let s = s0\<lparr>se_depth := depth\<rparr>
      in map_option (\<lambda>(score, s'). (score, fr_bestMove (se_stack s' ! 0), s'))
        (search env n NkRoot (int depth) 0 (- SCORE_INF) SCORE_INF (env_tagFrom env (se_board s)) Flags_Default s))"

definition new_searcher :: "board \<Rightarrow> rep_table \<Rightarrow> searcher" where
  "new_searcher b reps = \<lparr>se_board = b, se_repetitions = reps,
     se_stack = replicate MAX_STACK_DEPTH \<lparr>fr_killers = no_killers, fr_bestMove = move_null\<rparr>,
     se_history = no_history, se_depth = 0, se_counter = 0, se_clock = 0, se_loads = 0, se_stores = [], se_stats = (\<lambda>_. 0)\<rparr>"

text \<open>The principal variation, read back from the table; the number bounds its length.\<close>

primrec unwind_loop :: "zobrist \<Rightarrow> (u64 \<Rightarrow> tt_data) \<Rightarrow> nat \<Rightarrow> board \<Rightarrow> rep_table \<Rightarrow> move list \<Rightarrow> move list option" where
  "unwind_loop z ld 0 b reps pv = None"
| "unwind_loop z ld (Suc n) b reps pv =
     (let data = ld (hash b)
      in if \<not> td_isValid data \<or> move_eq (td_move data) move_null \<or> td_bound data \<noteq> boundVal Exact then Some pv
         else let m = td_move data; b' = fst (moveMake z b m)
              in Option.bind (rep_insert reps (hash b')) (\<lambda>(fresh, reps').
                   if \<not> fresh then Some pv else unwind_loop z ld n b' reps' (pv @ [m])))"

definition unwindPv :: "zobrist \<Rightarrow> (u64 \<Rightarrow> tt_data) \<Rightarrow> nat \<Rightarrow> board \<Rightarrow> move \<Rightarrow> move list option" where
  "unwindPv z ld n b bestMove =
     Option.bind (rep_insert rep_empty (hash b)) (\<lambda>(_, reps). let b' = fst (moveMake z b bestMove)
       in Option.bind (rep_insert reps (hash b')) (\<lambda>(_, reps'). unwind_loop z ld n b' reps' [bestMove]))"

text \<open>The moves that lead to the position: a hash seen twice is remembered.\<close>

fun replay :: "zobrist \<Rightarrow> board \<Rightarrow> rep_table \<Rightarrow> rep_table \<Rightarrow> move list \<Rightarrow> (board \<times> rep_table) option" where
  "replay z b singleRepeat doubleRepeat [] = Some (b, doubleRepeat)"
| "replay z b singleRepeat doubleRepeat (m # ms) =
     Option.bind (rep_insert singleRepeat (hash b)) (\<lambda>(fresh, singleRepeat').
       Option.bind (if fresh then Some doubleRepeat else map_option snd (rep_insert doubleRepeat (hash b))) (\<lambda>doubleRepeat'.
         replay z (fst (moveMake z b m)) singleRepeat' doubleRepeat' ms))"

end
