(* ===== verification/Quiescence.thy ===== *)
theory Quiescence
  imports Search
begin

text \<open>
  The quiescence search returns, on every playable position and whatever the order of the moves; it
  leaves the board and the rest of the searcher as they were, also when it is stopped in the middle; and
  when it is not stopped its score is, inside the window, the negamax value over captures and promotions.
\<close>

section \<open>The stream of the picker\<close>

definition qstream :: "move_sort \<Rightarrow> qpicker \<Rightarrow> move list" where
  "qstream srt p = drop (qp_position p) (qp_moves p) @
     (if qp_stage p = QCapture then sort_promotes srt (genSimplePromotes (qp_gen p)) else [])"

lemma qnext_stream:
  assumes "qp_position p \<le> length (qp_moves p)"
  shows "case qstream srt p of [] \<Rightarrow> fst (qnext_move srt p) = move_invalid
    | m # ms \<Rightarrow> fst (qnext_move srt p) = m \<and> qstream srt (snd (qnext_move srt p)) = ms \<and>
        qp_position (snd (qnext_move srt p)) \<le> length (qp_moves (snd (qnext_move srt p)))"
proof (cases "qp_position p = length (qp_moves p)")
  case False
  then have "drop (qp_position p) (qp_moves p) = qp_moves p ! qp_position p # drop (Suc (qp_position p)) (qp_moves p)"
    using assms by (intro Cons_nth_drop_Suc [symmetric]) simp
  then show ?thesis using False assms by (simp add: qstream_def qnext_move_def)
next
  case True
  show ?thesis
  proof (cases "qp_stage p = QCapture \<and> sort_promotes srt (genSimplePromotes (qp_gen p)) \<noteq> []")
    case c: True
    then obtain m ms where "sort_promotes srt (genSimplePromotes (qp_gen p)) = m # ms" by (auto simp: neq_Nil_conv)
    then show ?thesis using True c by (simp add: qstream_def qnext_move_def addSimplePromotes_def Let_def)
  next
    case c: False
    then have "qstream srt p = []" using True by (auto simp: qstream_def)
    then show ?thesis using True c by (auto simp: qnext_move_def addSimplePromotes_def Let_def)
  qed
qed

text \<open>The loop over a list of moves.\<close>

fun q_list :: "('tag, 'e) search_env_scheme \<Rightarrow> 'tag qsearch \<Rightarrow> move list \<Rightarrow> score \<Rightarrow> score \<Rightarrow> 'tag \<Rightarrow> searcher \<Rightarrow>
    (score \<times> searcher) option" where
  "q_list env srch [] alpha beta tg s = Some (alpha, s)"
| "q_list env srch (m # ms) alpha beta tg s =
     (let (tg', p, s1) = guard_make env s m tg
      in if \<not> wasMoveLegal (se_board s1) then q_list env srch ms alpha beta tg (guard_release env s1 m p)
         else Option.bind (srch (neg_score beta) (neg_score alpha) tg' s1) (\<lambda>(r, s2).
           let score = neg_score r; (stop, s3) = mustStop env s2; s4 = guard_release env s3 m p
           in if stop then Some (0, s4)
              else let alpha' = max alpha score
                   in if alpha' \<ge> beta then Some (beta, s4) else q_list env srch ms alpha' beta tg s4))"

lemma q_loop_list:
  assumes "qp_position p \<le> length (qp_moves p)" "length (qstream (env_sort env) p) < n"
    "\<And>m. m \<in> set (qstream (env_sort env) p) \<Longrightarrow> \<not> move_eq m move_invalid \<and> \<not> move_eq m move_null"
  shows "q_loop env srch n p alpha beta tg s = q_list env srch (qstream (env_sort env) p) alpha beta tg s"
  using assms
proof (induction n arbitrary: p alpha s)
  case (Suc n)
  note st = qnext_stream [OF Suc(2), of "env_sort env"]
  obtain m p' where mp: "qnext_move (env_sort env) p = (m, p')" by (metis surj_pair)
  show ?case
  proof (cases "qstream (env_sort env) p")
    case Nil
    then show ?thesis using st mp by simp
  next
    case (Cons a ms)
    then have a: "m = a" "qstream (env_sort env) p' = ms" "qp_position p' \<le> length (qp_moves p')" using st mp by simp_all
    have "\<not> move_eq m move_invalid" "\<not> move_eq m move_null" using Suc(4) Cons a(1) by auto
    moreover have L: "q_loop env srch n p' alpha' beta tg s' = q_list env srch ms alpha' beta tg s'" for alpha' s'
      using Suc(1) [OF a(3)] Suc(3,4) Cons a(2) by simp
    ultimately show ?thesis unfolding Cons by (simp only: q_loop.simps q_list.simps mp a(1) Let_def prod.case if_False L)
  qed
qed simp

lemma new_qpicker_stream: "qstream srt (newQuiescenseMovePicker srt b) =
    sortMvvLva srt b (genCaptures (newMoveGen b)) @ sort_promotes srt (genSimplePromotes (newMoveGen b))"
  by (simp add: qstream_def newQuiescenseMovePicker_def)

section \<open>What the search keeps\<close>

definition q_same :: "searcher \<Rightarrow> searcher \<Rightarrow> bool" where
  "q_same s s' \<longleftrightarrow> (\<exists>c k st. s' = s\<lparr>se_counter := c, se_clock := k, se_stats := st\<rparr>)"

lemma q_same_refl [simp, intro]: "q_same s s"
  by (cases s) (auto simp: q_same_def)

lemma q_sameD:
  assumes "q_same s s'"
  shows "se_board s' = se_board s" "se_repetitions s' = se_repetitions s" "se_stack s' = se_stack s"
    "se_history s' = se_history s" "se_depth s' = se_depth s" "se_loads s' = se_loads s" "se_stores s' = se_stores s"
  using assms by (auto simp: q_same_def)

lemma q_same_iff: "q_same s s' \<longleftrightarrow> se_board s' = se_board s \<and> se_repetitions s' = se_repetitions s \<and> se_stack s' = se_stack s \<and>
    se_history s' = se_history s \<and> se_depth s' = se_depth s \<and> se_loads s' = se_loads s \<and> se_stores s' = se_stores s"
proof
  show "q_same s s' \<Longrightarrow> se_board s' = se_board s \<and> se_repetitions s' = se_repetitions s \<and> se_stack s' = se_stack s \<and>
    se_history s' = se_history s \<and> se_depth s' = se_depth s \<and> se_loads s' = se_loads s \<and> se_stores s' = se_stores s"
    using q_sameD by blast
  assume "se_board s' = se_board s \<and> se_repetitions s' = se_repetitions s \<and> se_stack s' = se_stack s \<and>
    se_history s' = se_history s \<and> se_depth s' = se_depth s \<and> se_loads s' = se_loads s \<and> se_stores s' = se_stores s"
  then have "s' = s\<lparr>se_counter := se_counter s', se_clock := se_clock s', se_stats := se_stats s'\<rparr>"
    by (cases s; cases s') simp
  then show "q_same s s'" unfolding q_same_def by blast
qed

lemma q_same_trans: "q_same s s' \<Longrightarrow> q_same s' s'' \<Longrightarrow> q_same s s''"
  by (simp add: q_same_iff)

lemma mustStop_same: "q_same s (snd (mustStop env s))"
  by (auto simp: q_same_iff mustStop_def Let_def)

definition never_stops :: "('tag, 'e) search_env_scheme \<Rightarrow> nat \<Rightarrow> bool" where
  "never_stops env d \<longleftrightarrow> (\<forall>n. \<not> env_isStopped env n \<and> \<not> env_checkTimeout env n \<and> env_depth env n = d)"

lemma mustStop_never: "never_stops env (se_depth s) \<Longrightarrow> \<not> fst (mustStop env s)"
  by (auto simp: never_stops_def mustStop_def Let_def)

section \<open>The specification\<close>

definition child :: "('tag, 'e) search_env_scheme \<Rightarrow> board \<Rightarrow> move \<Rightarrow> board" where
  "child env b m = fst (moveMake (env_zobrist env) b m)"

text \<open>The legal captures and promotions, as a set.\<close>

definition quiet_set :: "('tag, 'e) search_env_scheme \<Rightarrow> board \<Rightarrow> move set" where
  "quiet_set env b = {m \<in> set (genCaptures (newMoveGen b)) \<union> set (genSimplePromotes (newMoveGen b)). wasMoveLegal (child env b m)}"

text \<open>Negamax over them, standing pat included; \<open>n\<close> bounds the depth.\<close>

primrec qvalue :: "('tag, 'e) search_env_scheme \<Rightarrow> nat \<Rightarrow> board \<Rightarrow> 'tag \<Rightarrow> score" where
  "qvalue env 0 b tg = 0"
| "qvalue env (Suc n) b tg = (if isBoardDrawInsufficientMaterial b then 0
     else Max (insert (env_evalForCur env b tg)
       ((\<lambda>m. - qvalue env n (child env b m) (env_tagUpdated env tg b m)) ` quiet_set env b)))"

definition squash :: "score \<Rightarrow> score \<Rightarrow> score \<Rightarrow> score" where
  "squash alpha beta v = max alpha (min beta v)"

definition score_range :: "score \<Rightarrow> bool" where
  "score_range v \<longleftrightarrow> - 32767 \<le> v \<and> v \<le> 32767"

definition eval_ok :: "('tag, 'e) search_env_scheme \<Rightarrow> bool" where
  "eval_ok env \<longleftrightarrow> (\<forall>b tg. score_range (env_evalForCur env b tg))"

lemma neg_score_eq: "score_range v \<Longrightarrow> neg_score v = - v \<and> score_range (- v)"
  by (simp add: neg_score_def to_i16_id score_range_def)

text \<open>What a search of the children must do, for the loop to be right.\<close>

definition q_spec :: "('tag, 'e) search_env_scheme \<Rightarrow> 'tag qsearch \<Rightarrow> (board \<Rightarrow> 'tag \<Rightarrow> score) \<Rightarrow> board \<Rightarrow> bool" where
  "q_spec env srch val b \<longleftrightarrow> (\<forall>alpha beta tg s. se_board s = b \<longrightarrow> score_range alpha \<longrightarrow> score_range beta \<longrightarrow> alpha < beta \<longrightarrow>
     (\<exists>r s'. srch alpha beta tg s = Some (r, s') \<and> q_same s s' \<and> score_range r \<and>
       (never_stops env (se_depth s) \<longrightarrow> squash alpha beta r = squash alpha beta (val b tg))))"

definition best_of :: "('tag, 'e) search_env_scheme \<Rightarrow> (board \<Rightarrow> 'tag \<Rightarrow> score) \<Rightarrow> board \<Rightarrow> 'tag \<Rightarrow> move list \<Rightarrow> score \<Rightarrow> score" where
  "best_of env val b tg ms a = fold (\<lambda>m a. if wasMoveLegal (child env b m)
     then max a (- val (child env b m) (env_tagUpdated env tg b m)) else a) ms a"

lemma best_of_ge: "a \<le> best_of env val b tg ms a"
proof (induction ms arbitrary: a)
  case (Cons m ms)
  show ?case using Cons [of "max a (- val (child env b m) (env_tagUpdated env tg b m))"] Cons [of a]
    by (auto simp: best_of_def)
qed (simp add: best_of_def)

lemma Max_insert_max: "finite X \<Longrightarrow> Max (insert (max a v) X) = Max (insert a (insert (v :: score) X))"
  by (cases "X = {}") (simp_all add: max.assoc)

lemma best_of_Max: "best_of env val b tg ms a =
    Max (insert a ((\<lambda>m. - val (child env b m) (env_tagUpdated env tg b m)) ` {m \<in> set ms. wasMoveLegal (child env b m)}))"
proof (induction ms arbitrary: a)
  case (Cons m ms)
  have s: "{x \<in> set (m # ms). wasMoveLegal (child env b x)} =
      (if wasMoveLegal (child env b m) then insert m {x \<in> set ms. wasMoveLegal (child env b x)} else {x \<in> set ms. wasMoveLegal (child env b x)})"
    by auto
  have "best_of env val b tg (m # ms) a = best_of env val b tg ms (if wasMoveLegal (child env b m)
     then max a (- val (child env b m) (env_tagUpdated env tg b m)) else a)" by (simp add: best_of_def)
  then show ?case unfolding Cons s by (simp add: Max_insert_max)
qed (simp add: best_of_def)

lemma q_list_spec:
  assumes z: "zobrist_ok (env_zobrist env)" and b: "playable (env_zobrist env) (se_board s)"
    and ms: "\<And>m. m \<in> set ms \<Longrightarrow> pseudo_legal (se_board s) m"
    and ch: "\<And>m. m \<in> set ms \<Longrightarrow> wasMoveLegal (child env (se_board s) m) \<Longrightarrow> q_spec env srch val (child env (se_board s) m)"
    and ab: "score_range alpha" "score_range beta" "alpha < beta"
  shows "\<exists>r s'. q_list env srch ms alpha beta tg s = Some (r, s') \<and> q_same s s' \<and> score_range r \<and>
    (never_stops env (se_depth s) \<longrightarrow> r = min beta (best_of env val (se_board s) tg ms alpha))"
  using b ms ch ab
proof (induction ms arbitrary: s alpha)
  case Nil
  then show ?case by (auto simp: best_of_def)
next
  case (Cons m ms)
  let ?b = "se_board s" and ?c = "child env (se_board s) m" and ?tg = "env_tagUpdated env tg (se_board s) m"
  obtain p where mm: "moveMake (env_zobrist env) ?b m = (?c, p)" unfolding child_def by (metis surjective_pairing)
  let ?s1 = "s\<lparr>se_board := ?c\<rparr>"
  have gm: "guard_make env s m tg = (?tg, p, ?s1)" by (simp add: guard_make_def mm Let_def)
  have "makeable ?b m" using Cons(2,3) pseudo_makeable playableD(2) by auto
  from unmake_make [OF z playableD(1) [OF Cons(2)] this] have um: "moveUnmake (env_zobrist env) ?c m p = ?b"
    unfolding mm by simp
  have rel: "q_same s (guard_release env s' m p)" if "q_same ?s1 s'" for s'
    using q_sameD [OF that] um by (simp add: q_same_iff guard_release_def)
  have next_step: "\<exists>r s''. q_list env srch ms alpha' beta tg s' = Some (r, s'') \<and> q_same s s'' \<and> score_range r \<and>
      (never_stops env (se_depth s) \<longrightarrow> r = min beta (best_of env val ?b tg ms alpha'))"
    if "q_same s s'" "score_range alpha'" "alpha' < beta" for s' alpha'
    using Cons(1) [of s' alpha'] Cons(2-4) Cons(6) that q_sameD [OF that(1)] q_same_trans [OF that(1)]
    by (metis list.set_intros(2))
  have bo: "best_of env val ?b tg (m # ms) alpha = best_of env val ?b tg ms (if wasMoveLegal ?c then max alpha (- val ?c ?tg) else alpha)"
    by (simp add: best_of_def)
  show ?case
  proof (cases "wasMoveLegal ?c")
    case False
    then have "q_list env srch (m # ms) alpha beta tg s = q_list env srch ms alpha beta tg (guard_release env ?s1 m p)"
      by (simp add: gm)
    then show ?thesis using next_step [OF rel [OF q_same_refl] Cons(5,7)] False bo by simp
  next
    case True
    have na: "neg_score beta = - beta" "neg_score alpha = - alpha" "score_range (- beta)" "score_range (- alpha)"
      using neg_score_eq Cons(5,6) by simp_all
    obtain r s2 where r: "srch (- beta) (- alpha) ?tg ?s1 = Some (r, s2)" "q_same ?s1 s2" "score_range r"
      "never_stops env (se_depth s) \<longrightarrow> squash (- beta) (- alpha) r = squash (- beta) (- alpha) (val ?c ?tg)"
      using Cons(4) [of m] True na(3,4) Cons(7) unfolding q_spec_def
      by (smt (verit) list.set_intros(1) searcher.select_convs(1) searcher.select_convs(5) searcher.update_convs(1) searcher.surjective)
    let ?sc = "- r" and ?s3 = "snd (mustStop env s2)"
    have sc: "neg_score r = ?sc" "score_range ?sc" using neg_score_eq [OF r(3)] by simp_all
    have s3: "q_same ?s1 ?s3" using q_same_trans [OF r(2) mustStop_same] .
    note s4 = rel [OF s3]
    have step: "q_list env srch (m # ms) alpha beta tg s =
      (if fst (mustStop env s2) then Some (0, guard_release env ?s3 m p)
       else if max alpha ?sc \<ge> beta then Some (beta, guard_release env ?s3 m p)
       else q_list env srch ms (max alpha ?sc) beta tg (guard_release env ?s3 m p))"
      using True by (simp add: gm na r(1) sc(1) split_beta Let_def)
    have ns: "\<not> fst (mustStop env s2)" "max alpha ?sc \<ge> beta \<longleftrightarrow> max alpha (- val ?c ?tg) \<ge> beta"
      "max alpha ?sc < beta \<Longrightarrow> max alpha ?sc = max alpha (- val ?c ?tg)" if "never_stops env (se_depth s)"
    proof -
      show "\<not> fst (mustStop env s2)" using mustStop_never [of env s2] that q_sameD(5) [OF r(2)] by simp
      show "max alpha ?sc \<ge> beta \<longleftrightarrow> max alpha (- val ?c ?tg) \<ge> beta"
        "max alpha ?sc < beta \<Longrightarrow> max alpha ?sc = max alpha (- val ?c ?tg)"
        using r(4) that Cons(7) unfolding squash_def by (auto simp: min_def max_def split: if_splits)
    qed
    consider (stop) "fst (mustStop env s2)" | (cut) "\<not> fst (mustStop env s2)" "max alpha ?sc \<ge> beta"
      | (go) "\<not> fst (mustStop env s2)" "max alpha ?sc < beta" by linarith
    then show ?thesis
    proof cases
      case stop
      then show ?thesis unfolding step using s4 ns(1) by (auto simp: score_range_def)
    next
      case cut
      then show ?thesis unfolding step bo using s4 ns(2) Cons(6) True
          best_of_ge [of "max alpha (- val ?c ?tg)" env val ?b tg ms] by (auto simp: min_def)
    next
      case go
      have "score_range (max alpha ?sc)" using sc(2) Cons(5) by (simp add: score_range_def max_def)
      from next_step [OF s4 this go(2)] show ?thesis unfolding step bo using go ns(3) True by auto
    qed
  qed
qed

section \<open>One level and all levels\<close>

lemma quiet_moves:
  assumes s: "sorter srt" and b: "playable z b"
  shows "set (qstream srt (newQuiescenseMovePicker srt b)) = set (genCaptures (newMoveGen b)) \<union> set (genSimplePromotes (newMoveGen b))"
    and "m \<in> set (genCaptures (newMoveGen b)) \<union> set (genSimplePromotes (newMoveGen b)) \<Longrightarrow>
      pseudo_legal b m \<and> (isMoveCapture b m \<or> isMoveKindPromote (kind m)) \<and> \<not> move_eq m move_invalid \<and> \<not> move_eq m move_null"
proof -
  obtain k where k: "one_king b (side b) k" using playableD(5) [OF b] by blast
  note p = playableD(2) [OF b]
  show "set (qstream srt (newQuiescenseMovePicker srt b)) = set (genCaptures (newMoveGen b)) \<union> set (genSimplePromotes (newMoveGen b))"
    by (simp add: new_qpicker_stream caps(1) [OF s p k] sorter.set_promotes [OF s])
  assume m: "m \<in> set (genCaptures (newMoveGen b)) \<union> set (genSimplePromotes (newMoveGen b))"
  then have "m \<in> set (genAllMoves (newMoveGen b))" "isMoveCapture b m \<or> isMoveKindPromote (kind m)"
    using gen_sets(2,3) [OF p k] by auto
  moreover from this have "pseudo_legal b m" using gen_sets(1) [OF p k] by blast
  moreover note c = pseudo_legal_coords [OF this]
  ultimately show "pseudo_legal b m \<and> (isMoveCapture b m \<or> isMoveKindPromote (kind m)) \<and> \<not> move_eq m move_invalid \<and> \<not> move_eq m move_null"
    using move_eq_iff [of m move_invalid] move_eq_iff [of m move_null] coord_null by auto
qed

lemma q_body_spec:
  assumes z: "zobrist_ok (env_zobrist env)" and s: "sorter (env_sort env)" and e: "eval_ok env"
    and b: "playable (env_zobrist env) b"
    and ch: "\<And>m. m \<in> quiet_set env b \<Longrightarrow> q_spec env srch val (child env b m)"
    and n: "length (qstream (env_sort env) (newQuiescenseMovePicker (env_sort env) b)) < n"
  shows "q_spec env (q_body env srch n) (\<lambda>b tg. if isBoardDrawInsufficientMaterial b then 0
     else Max (insert (env_evalForCur env b tg) ((\<lambda>m. - val (child env b m) (env_tagUpdated env tg b m)) ` quiet_set env b))) b"
  unfolding q_spec_def
proof (intro allI impI)
  fix alpha beta tg and s0 :: searcher
  assume s0: "se_board s0 = b" and ab: "score_range alpha" "score_range beta" "alpha < beta"
  let ?val = "\<lambda>b tg. if isBoardDrawInsufficientMaterial b then 0
     else Max (insert (env_evalForCur env b tg) ((\<lambda>m. - val (child env b m) (env_tagUpdated env tg b m)) ` quiet_set env b))"
  let ?p = "newQuiescenseMovePicker (env_sort env) b"
  let ?ms = "qstream (env_sort env) ?p" and ?V = "(\<lambda>m. - val (child env b m) (env_tagUpdated env tg b m)) ` quiet_set env b"
  let ?e = "env_evalForCur env b tg"
  note Q = quiet_moves [OF s b]
  have qs: "quiet_set env b = {m \<in> set ?ms. wasMoveLegal (child env b m)}" unfolding Q(1) by (simp add: quiet_set_def)
  have fin: "finite ?V" by (simp add: qs)
  show "\<exists>r s'. q_body env srch n alpha beta tg s0 = Some (r, s') \<and> q_same s0 s' \<and> score_range r \<and>
    (never_stops env (se_depth s0) \<longrightarrow> squash alpha beta r = squash alpha beta (?val b tg))"
  proof (cases "isBoardDrawInsufficientMaterial b")
    case True
    then show ?thesis using s0 by (simp add: q_body_def score_range_def)
  next
    case False
    let ?s = "stat_inc Nodes s0" and ?a = "max alpha ?e"
    have same: "q_same s0 ?s" by (simp add: q_same_iff stat_inc_def)
    have sb: "se_board ?s = b" using s0 by (simp add: stat_inc_def)
    have ra: "score_range ?a" using ab(1) e by (auto simp: eval_ok_def score_range_def max_def)
    have body: "q_body env srch n alpha beta tg s0 = (if ?a \<ge> beta then Some (beta, ?s) else q_loop env srch n ?p ?a beta tg ?s)"
      using False s0 by (simp add: q_body_def Let_def sb)
    show ?thesis
    proof (cases "?a \<ge> beta")
      case c: True
      have "?e \<le> Max (insert ?e ?V)" using fin by (intro Max_ge) simp_all
      moreover have ce: "beta \<le> ?e" using c ab(3) by (simp add: max_def split: if_splits)
      ultimately have "beta \<le> Max (insert ?e ?V)" by linarith
      then show ?thesis using ce body same ab False by (simp add: squash_def)
    next
      case c: False
      have L: "q_loop env srch n ?p ?a beta tg ?s = q_list env srch ?ms ?a beta tg ?s"
        using Q n by (intro q_loop_list) (auto simp: newQuiescenseMovePicker_def)
      have "\<exists>r s'. q_list env srch ?ms ?a beta tg ?s = Some (r, s') \<and> q_same ?s s' \<and> score_range r \<and>
          (never_stops env (se_depth ?s) \<longrightarrow> r = min beta (best_of env val (se_board ?s) tg ?ms ?a))"
      proof (rule q_list_spec [OF z])
        show "?a < beta" using c by linarith
        show "pseudo_legal (se_board ?s) m" if "m \<in> set ?ms" for m using Q(2) that unfolding Q(1) sb by blast
        show "q_spec env srch val (child env (se_board ?s) m)" if "m \<in> set ?ms" "wasMoveLegal (child env (se_board ?s) m)" for m
          using ch [of m] that unfolding qs sb by blast
      qed (use b sb ra ab(2) in simp_all)
      then obtain r s' where r: "q_list env srch ?ms ?a beta tg ?s = Some (r, s')" "q_same ?s s'" "score_range r"
        "never_stops env (se_depth ?s) \<longrightarrow> r = min beta (best_of env val b tg ?ms ?a)"
        unfolding sb by blast
      have "best_of env val b tg ?ms ?a = max alpha (Max (insert ?e ?V))"
        unfolding best_of_Max qs [symmetric] using fin by (cases "?V = {}") (simp_all add: max.assoc)
      then have "never_stops env (se_depth s0) \<longrightarrow> squash alpha beta r = squash alpha beta (Max (insert ?e ?V))"
        using r(4) ab(3) by (auto simp: stat_inc_def squash_def max_def min_def)
      then show ?thesis using c body L r q_same_trans [OF same] False s0 by simp
    qed
  qed
qed

lemma qsearch_spec:
  assumes z: "zobrist_ok (env_zobrist env)" and s: "sorter (env_sort env)" and e: "eval_ok env"
  shows "playable (env_zobrist env) b \<Longrightarrow> \<exists>N. \<forall>n \<ge> N. \<forall>k > material b. q_spec env (quiescenseSearch env n) (qvalue env k) b"
proof (induction "material b" arbitrary: b rule: less_induct)
  case less
  note Q = quiet_moves [OF s less(2)]
  have "\<exists>N. \<forall>n \<ge> N. \<forall>k > material (child env b m). q_spec env (quiescenseSearch env n) (qvalue env k) (child env b m)"
    if m: "m \<in> quiet_set env b" for m
  proof (rule less(1))
    have q: "pseudo_legal b m" "isMoveCapture b m \<or> isMoveKindPromote (kind m)" "wasMoveLegal (child env b m)"
      using m Q(2) by (auto simp: quiet_set_def)
    show "material (child env b m) < material b"
      unfolding child_def by (rule capture_reduces_material [OF playableD(2) [OF less(2)] q(1,2)])
    show "playable (env_zobrist env) (child env b m)"
      using playable_make [OF z less(2) q(1)] q(3) by (simp add: child_def)
  qed
  then obtain f where f: "\<And>m n k. m \<in> quiet_set env b \<Longrightarrow> f m \<le> n \<Longrightarrow> material (child env b m) < k \<Longrightarrow>
      q_spec env (quiescenseSearch env n) (qvalue env k) (child env b m)" by metis
  have red: "material (child env b m) < material b" if "m \<in> quiet_set env b" for m
    using that Q(2) capture_reduces_material [OF playableD(2) [OF less(2)]] by (auto simp: quiet_set_def child_def)
  let ?len = "length (qstream (env_sort env) (newQuiescenseMovePicker (env_sort env) b))"
  let ?N = "Suc (max (Max (insert 0 (f ` quiet_set env b))) (Suc ?len))"
  have fin: "finite (quiet_set env b)" by (simp add: quiet_set_def)
  have "q_spec env (quiescenseSearch env n) (qvalue env k) b" if n: "?N \<le> n" and k: "material b < k" for n k
  proof -
    obtain n' where n': "n = Suc n'" using n by (cases n) auto
    obtain k' where k': "k = Suc k'" using k by (cases k) auto
    have "q_spec env (q_body env (quiescenseSearch env n') n') (\<lambda>b tg. if isBoardDrawInsufficientMaterial b then 0
       else Max (insert (env_evalForCur env b tg) ((\<lambda>m. - qvalue env k' (child env b m) (env_tagUpdated env tg b m)) ` quiet_set env b))) b"
    proof (rule q_body_spec [OF z s e less(2)])
      show "?len < n'" using n n' by simp
      fix m assume m: "m \<in> quiet_set env b"
      have "f m \<le> Max (insert 0 (f ` quiet_set env b))" using m fin by (intro Max_ge) auto
      then have "f m \<le> n'" using n n' by simp
      moreover have "material (child env b m) < k'" using red [OF m] k k' by simp
      ultimately show "q_spec env (quiescenseSearch env n') (qvalue env k') (child env b m)" using f [OF m] by blast
    qed
    moreover have "quiescenseSearch env n = q_body env (quiescenseSearch env n') n'"
      by (intro ext) (simp add: n')
    moreover have "qvalue env k = (\<lambda>b tg. if isBoardDrawInsufficientMaterial b then 0
       else Max (insert (env_evalForCur env b tg) ((\<lambda>m. - qvalue env k' (child env b m) (env_tagUpdated env tg b m)) ` quiet_set env b)))"
      by (intro ext) (simp add: k')
    ultimately show ?thesis by simp
  qed
  then show ?case by blast
qed

end
