(* ===== verification/Search_Properties.thy ===== *)
theory Search_Properties
  imports Quiescence Movegen_Properties
begin

text \<open>The properties of move ordering, of the positions of a game and of the search.\<close>

section \<open>A position and an environment to apply them to\<close>

lemma sample_black_king: "one_king sample_board Black 4"
proof -
  have "list_all (\<lambda>c. initial_cells ! nat c = makeCell Black King \<longleftrightarrow> c = 4) [0..63]" by code_simp
  then have "cellAt sample_board c = makeCell Black King \<longleftrightarrow> c = 4" if "isCoord c" for c
    using list_all_coordD [OF _ that] by (simp add: cellAt_def sample_views del: makeCell_values)
  then show ?thesis by (simp add: one_king_def isCoord_def)
qed

lemma sample_black_safe: "\<not> isCellAttacked sample_board 4 White"
proof -
  have at: "cellAt sample_board s = initial_cells ! nat s" for s by (simp add: cellAt_def sample_views)
  have "list_all (\<lambda>P. list_all (\<lambda>s. initial_cells ! nat s = makeCell White P \<longrightarrow> \<not> (case P of
      Pawn \<Rightarrow> coordX 4 = coordX s - 1 | King \<Rightarrow> rowDist s 4 \<le> 1 | Knight \<Rightarrow> rowDist s 4 \<le> 2
    | Bishop \<Rightarrow> bishop_aligned s 4 | Rook \<Rightarrow> rook_aligned s 4
    | Queen \<Rightarrow> bishop_aligned s 4 \<or> rook_aligned s 4)) [0..63]) [Pawn, King, Knight, Bishop, Rook, Queen]"
    by code_simp
  then have L: "list_all (\<lambda>s. initial_cells ! nat s = makeCell White P \<longrightarrow> \<not> (case P of
      Pawn \<Rightarrow> coordX 4 = coordX s - 1 | King \<Rightarrow> rowDist s 4 \<le> 1 | Knight \<Rightarrow> rowDist s 4 \<le> 2
    | Bishop \<Rightarrow> bishop_aligned s 4 | Rook \<Rightarrow> rook_aligned s 4
    | Queen \<Rightarrow> bishop_aligned s 4 \<or> rook_aligned s 4)) [0..63]" for P
    by (cases P) (simp_all only: list.pred_inject(2))
  have "\<not> attacker (bbAll sample_board) sample_board White s 4" if "isCoord s" for s
  proof
    assume "attacker (bbAll sample_board) sample_board White s 4"
    then obtain P where "initial_cells ! nat s = makeCell White P" "piece_attacks (bbAll sample_board) White P s 4"
      unfolding attacker_def at by blast
    then show False
      using list_all_coordD [OF L that, of P] by (cases P) (auto simp: bishop_sees_def rook_sees_def simp del: makeCell_values)
  qed
  moreover have "isCoord 4" by (simp add: isCoord_def)
  ultimately show ?thesis using isCellAttacked_iff [OF position_okD(1) [OF sample_position(1)]] by blast
qed

lemma sample_playable: "playable sample_zobrist sample_board"
proof -
  have B: "bb_ok sample_board" using position_okD(1) [OF sample_position(1)] .
  have "wasMoveLegal sample_board"
    using sample_black_safe one_king_pos [OF B sample_black_king] by (simp add: wasMoveLegal_def Let_def sample_views)
  moreover have "\<exists>k. one_king sample_board C k" for C using sample_position(2) sample_black_king by (cases C) auto
  ultimately show ?thesis using sample_ok(2) by (simp add: playable_def)
qed

definition sample_env :: "unit search_env" where
  "sample_env = \<lparr>env_zobrist = sample_zobrist, env_sort = insertion_sort, env_shuffle = rev, env_tagFrom = (\<lambda>_. ()),
     env_tagUpdated = (\<lambda>_ _ _. ()), env_evalForCur = (\<lambda>_ _. 25), env_isStopped = (\<lambda>_. False), env_checkTimeout = (\<lambda>_. False),
     env_depth = (\<lambda>_. 1), env_load = (\<lambda>_ _. td_zero), env_epoch = 0, env_jobId = 0\<rparr>"

lemma sample_env_ok: "zobrist_ok (env_zobrist sample_env)" "sorter (env_sort sample_env)" "eval_ok sample_env"
    "never_stops sample_env 1" "env_zobrist sample_env = sample_zobrist"
  using sample_ok(1) ins.sorter_axioms by (simp_all add: sample_env_def eval_ok_def score_range_def never_stops_def)

section \<open>Properties\<close>



text \<open>C23: a pseudo-legal move after which the mover is not in check leads from a position of a game (consistent
  board, one king a side, the side that has just moved not in check) to another one: no king is ever
  captured. Captures and promotions reduce the material, which bounds their number.\<close>

theorem legal_moves_keep_positions:
  assumes "zobrist_ok z" "playable z b" "isWellFormed m (side b)" "isMoveValid b m" "wasMoveLegal (fst (moveMake z b m))"
  shows "playable z (fst (moveMake z b m)) \<and> side (fst (moveMake z b m)) = invert (side b) \<and>
    (isMoveCapture b m \<or> isMoveKindPromote (kind m) \<longrightarrow> material (fst (moveMake z b m)) < material b)"
proof -
  have m: "pseudo_legal b m" using valid_iff_pseudo_legal [OF playableD(2) [OF assms(2)]] assms(3,4) by blast
  show ?thesis
    using playable_make [OF assms(1,2) m assms(5)] moveMake_side capture_reduces_material [OF playableD(2) [OF assms(2)] m] by blast
qed

definition double_cells :: "cell list" where
  "double_cells = initial_cells[52 := 0, 36 := 1]"

lemma sample_double_legal: "wasMoveLegal (fst (moveMake sample_zobrist sample_board (mkMove PawnDoubleMove 52 36 0)))"
proof -
  let ?m = "mkMove PawnDoubleMove 52 36 0" and ?b = "fst (moveMake sample_zobrist sample_board (mkMove PawnDoubleMove 52 36 0))"
  have "consistent sample_zobrist ?b"
    by (rule moveMake_keeps_consistent [OF sample_ok pseudo_makeable [OF sample_position(1) sample_pseudo]])
  then have B: "bb_ok ?b" by (simp add: consistent_def)
  have i: "isCoord 60" by (simp add: isCoord_def)
  have "cells ?b = double_cells"
    unfolding cells_moveMake move_cells_def Let_def double_cells_def by (simp add: mkMove_def sample_views EMPTY_CELL_def)
  then have at: "cellAt ?b s = double_cells ! nat s" for s by (simp add: cellAt_def)
  have sd: "side ?b = Black" by (simp add: moveMake_side sample_views)
  have "list_all (\<lambda>c. double_cells ! nat c = makeCell White King \<longleftrightarrow> c = 60) [0..63]" by code_simp
  then have k: "one_king ?b White 60"
    using list_all_coordD [of "\<lambda>c. double_cells ! nat c = makeCell White King \<longleftrightarrow> c = 60"] i by (simp add: one_king_def at del: makeCell_values)
  have "list_all (\<lambda>P. list_all (\<lambda>s. double_cells ! nat s = makeCell Black P \<longrightarrow> \<not> (case P of
      Pawn \<Rightarrow> coordX 60 = coordX s + 1 | King \<Rightarrow> rowDist s 60 \<le> 1 | Knight \<Rightarrow> rowDist s 60 \<le> 2
    | Bishop \<Rightarrow> bishop_aligned s 60 | Rook \<Rightarrow> rook_aligned s 60
    | Queen \<Rightarrow> bishop_aligned s 60 \<or> rook_aligned s 60)) [0..63]) [Pawn, King, Knight, Bishop, Rook, Queen]"
    by code_simp
  then have L: "list_all (\<lambda>s. double_cells ! nat s = makeCell Black P \<longrightarrow> \<not> (case P of
      Pawn \<Rightarrow> coordX 60 = coordX s + 1 | King \<Rightarrow> rowDist s 60 \<le> 1 | Knight \<Rightarrow> rowDist s 60 \<le> 2
    | Bishop \<Rightarrow> bishop_aligned s 60 | Rook \<Rightarrow> rook_aligned s 60
    | Queen \<Rightarrow> bishop_aligned s 60 \<or> rook_aligned s 60)) [0..63]" for P
    by (cases P) (simp_all only: list.pred_inject(2))
  have "\<not> attacker (bbAll ?b) ?b Black s 60" if "isCoord s" for s
  proof
    assume "attacker (bbAll ?b) ?b Black s 60"
    then obtain P where "double_cells ! nat s = makeCell Black P" "piece_attacks (bbAll ?b) Black P s 60"
      unfolding attacker_def at by blast
    then show False
      using list_all_coordD [OF L that, of P] by (cases P) (auto simp: bishop_sees_def rook_sees_def simp del: makeCell_values)
  qed
  then have "\<not> isCellAttacked ?b 60 Black" using isCellAttacked_iff [OF B i] by blast
  then show ?thesis using one_king_pos [OF B k] sd by (simp add: wasMoveLegal_def Let_def)
qed

theorem legal_moves_keep_positions_witness:
  "playable sample_zobrist (fst (moveMake sample_zobrist sample_board (mkMove PawnDoubleMove 52 36 0)))"
proof -
  have "isWellFormed (mkMove PawnDoubleMove 52 36 0) (side sample_board)" "isMoveValid sample_board (mkMove PawnDoubleMove 52 36 0)"
    using valid_iff_pseudo_legal [OF sample_position(1)] sample_pseudo by blast+
  then show ?thesis using legal_moves_keep_positions [OF sample_ok(1) sample_playable _ _ sample_double_legal] by blast
qed

lemma q_specD: "q_spec env srch val b \<Longrightarrow> se_board s = b \<Longrightarrow> score_range alpha \<Longrightarrow> score_range beta \<Longrightarrow> alpha < beta \<Longrightarrow>
    \<exists>r s'. srch alpha beta tg s = Some (r, s') \<and> q_same s s' \<and> score_range r \<and>
      (never_stops env (se_depth s) \<longrightarrow> squash alpha beta r = squash alpha beta (val b tg))"
  unfolding q_spec_def by blast

text \<open>C9: the quiescence search returns on every position of a game, whatever the order of the moves and
  whenever it is told to stop; it leaves board, repetitions, killers and history as they were; and if it
  is not stopped its score is, inside the window, the negamax value over captures and promotions.\<close>

theorem quiescence_is_negamax:
  assumes "zobrist_ok (env_zobrist env)" "sorter (env_sort env)" "eval_ok env" "playable (env_zobrist env) (se_board s)"
    "score_range alpha" "score_range beta" "alpha < beta"
  shows "\<exists>N. \<forall>n \<ge> N. \<exists>r s'. quiescenseSearch env n alpha beta tg s = Some (r, s') \<and> q_same s s' \<and>
    (never_stops env (se_depth s) \<longrightarrow>
      squash alpha beta r = squash alpha beta (qvalue env (material (se_board s) + 1) (se_board s) tg))"
proof -
  obtain N where N: "\<And>n k. N \<le> n \<Longrightarrow> material (se_board s) < k \<Longrightarrow> q_spec env (quiescenseSearch env n) (qvalue env k) (se_board s)"
    using qsearch_spec [OF assms(1-4)] by blast
  have "\<exists>r s'. quiescenseSearch env n alpha beta tg s = Some (r, s') \<and> q_same s s' \<and>
    (never_stops env (se_depth s) \<longrightarrow>
      squash alpha beta r = squash alpha beta (qvalue env (material (se_board s) + 1) (se_board s) tg))" if "N \<le> n" for n
    using q_specD [OF N [OF that less_add_one] refl assms(5-7), of tg] by blast
  then show ?thesis by blast
qed

theorem quiescence_witness:
  "\<exists>n r s'. quiescenseSearch sample_env n (- 100) 100 () (new_searcher sample_board rep_empty) = Some (r, s') \<and> se_board s' = sample_board"
proof -
  let ?s = "new_searcher sample_board rep_empty"
  have b: "se_board ?s = sample_board" by (simp add: new_searcher_def)
  have p: "playable (env_zobrist sample_env) (se_board ?s)" using sample_playable by (simp add: b sample_env_ok(5))
  have r: "score_range (- 100)" "score_range 100" by (simp_all add: score_range_def)
  obtain N where "\<forall>n \<ge> N. \<exists>r s'. quiescenseSearch sample_env n (- 100) 100 () ?s = Some (r, s') \<and> q_same ?s s' \<and>
    (never_stops sample_env (se_depth ?s) \<longrightarrow>
      squash (- 100) 100 r = squash (- 100) 100 (qvalue sample_env (material (se_board ?s) + 1) (se_board ?s) ()))"
    using quiescence_is_negamax [OF sample_env_ok(1-3) p r, of "()"] by auto
  then obtain r s' where "quiescenseSearch sample_env N (- 100) 100 () ?s = Some (r, s')" "q_same ?s s'" by blast
  then show ?thesis using q_sameD(1) [of ?s s'] b by metis
qed

end
