(* ===== verification/Features.thy ===== *)
theory Features
  imports Str_Util "HOL-Library.AList"
begin

text \<open>
  The features of the evaluator (\<^verbatim>\<open>src/src/eval/feat/feat.h\<close>, \<^verbatim>\<open>feat.cpp\<close>): a vector of weights, cut
  into named bundles that are read from JSON and written back. A \<^verbatim>\<open>Json::Value\<close> of the third-party
  library is a datatype with the documented queries; objects are association lists. A \<^verbatim>\<open>LoadResult\<close> is a
  sum, the description of the error on the left (\<^verbatim>\<open>src/src/util/result.h\<close>).
\<close>

section \<open>JSON values\<close>

datatype json = JInt int | JStr string | JArr "json list" | JObj "(string \<times> json) list" | JOther

definition weight_range :: "int \<Rightarrow> bool" where
  "weight_range v \<longleftrightarrow> - 2147483648 \<le> v \<and> v \<le> 2147483647"

fun json_isInt :: "json \<Rightarrow> bool" where
  "json_isInt (JInt v) = weight_range v"
| "json_isInt _ = False"

fun json_asInt :: "json \<Rightarrow> int" where
  "json_asInt (JInt v) = v"
| "json_asInt _ = 0"

fun json_get :: "json \<Rightarrow> string \<Rightarrow> json \<Rightarrow> json" where
  "json_get (JObj ms) key dflt = (case map_of ms key of Some v \<Rightarrow> v | None \<Rightarrow> dflt)"
| "json_get _ key dflt = dflt"

fun json_isMember :: "json \<Rightarrow> string \<Rightarrow> bool" where
  "json_isMember (JObj ms) key \<longleftrightarrow> key \<in> fst ` set ms"
| "json_isMember _ key \<longleftrightarrow> False"

fun json_set :: "string \<Rightarrow> json \<Rightarrow> json \<Rightarrow> json" where
  "json_set key v (JObj ms) = JObj (AList.update key v ms)"
| "json_set key v j = j"

section \<open>Results\<close>

type_synonym 'a load_result = "string + 'a"

fun try_assign :: "'e + 'a \<Rightarrow> ('a \<Rightarrow> 'e + 'b) \<Rightarrow> 'e + 'b" where
  "try_assign (Inl e) f = Inl e"
| "try_assign (Inr a) f = f a"

fun result_map :: "('a \<Rightarrow> 'b) \<Rightarrow> 'e + 'a \<Rightarrow> 'e + 'b" where
  "result_map f (Inl e) = Inl e"
| "result_map f (Inr a) = Inr (f a)"

section \<open>Bundles\<close>

record feature_name =
  fn_offset :: nat
  fn_name :: string

record single_bundle =
  sb_name :: feature_name
  sb_value :: int

record array_bundle =
  ab_name :: feature_name
  ab_values :: "int list"

record psq_bundle =
  pb_name :: feature_name
  pb_pieceCosts :: array_bundle
  pb_tables :: "array_bundle list"
  pb_endKingTable :: array_bundle

record king_pawn_bundle =
  kb_name :: feature_name
  kb_shield :: array_bundle
  kb_storm :: array_bundle

datatype feature_bundle = SingleBundle single_bundle | ArrayBundle array_bundle | PsqBundle psq_bundle
  | KingPawnBundle king_pawn_bundle

definition PIECE_COUNT :: nat where "PIECE_COUNT = 6"

definition PIECE_NAMES :: "string list" where
  "PIECE_NAMES = [''pawn'', ''king'', ''knight'', ''bishop'', ''rook'', ''queen'']"

subsection \<open>Single features and arrays\<close>

definition single_load :: "feature_name \<Rightarrow> json \<Rightarrow> single_bundle load_result" where
  "single_load nm j = (if json_isInt j then Inr \<lparr>sb_name = nm, sb_value = json_asInt j\<rparr> else Inl (fn_name nm @ '' must be int''))"

definition single_save :: "single_bundle \<Rightarrow> json" where
  "single_save s = JInt (sb_value s)"

definition single_apply :: "int list \<Rightarrow> single_bundle \<Rightarrow> single_bundle" where
  "single_apply weights s = s\<lparr>sb_value := weights ! fn_offset (sb_name s)\<rparr>"

definition single_extract :: "single_bundle \<Rightarrow> int list \<Rightarrow> int list" where
  "single_extract s weights = weights[fn_offset (sb_name s) := sb_value s]"

fun array_items :: "feature_name \<Rightarrow> nat \<Rightarrow> json list \<Rightarrow> int list load_result" where
  "array_items nm idx [] = Inr []"
| "array_items nm idx (item # items) =
     (if \<not> json_isInt item then Inl (fn_name nm @ ''.'' @ to_chars idx @ '' must be int'')
      else result_map (\<lambda>ws. json_asInt item # ws) (array_items nm (Suc idx) items))"

fun array_load :: "feature_name \<Rightarrow> json \<Rightarrow> array_bundle load_result" where
  "array_load nm (JArr items) = result_map (\<lambda>ws. \<lparr>ab_name = nm, ab_values = ws\<rparr>) (array_items nm 0 items)"
| "array_load nm _ = Inl (fn_name nm @ '' must be array'')"

definition array_save :: "array_bundle \<Rightarrow> json" where
  "array_save a = JArr (map JInt (ab_values a))"

definition array_count :: "array_bundle \<Rightarrow> nat" where
  "array_count a = length (ab_values a)"

definition array_apply :: "int list \<Rightarrow> array_bundle \<Rightarrow> array_bundle" where
  "array_apply weights a =
     a\<lparr>ab_values := map (\<lambda>idx. weights ! (idx + fn_offset (ab_name a))) [0..<length (ab_values a)]\<rparr>"

definition array_extract :: "array_bundle \<Rightarrow> int list \<Rightarrow> int list" where
  "array_extract a weights =
     fold (\<lambda>idx ws. ws[idx + fn_offset (ab_name a) := ab_values a ! idx]) [0..<length (ab_values a)] weights"

definition array_names :: "array_bundle \<Rightarrow> feature_name list" where
  "array_names a = map (\<lambda>idx. \<lparr>fn_offset = fn_offset (ab_name a) + idx,
     fn_name = fn_name (ab_name a) @ ''.'' @ to_chars idx\<rparr>) [0..<length (ab_values a)]"

subsection \<open>Groups of arrays\<close>

text \<open>\<^verbatim>\<open>SubBundleLoader::loadFixedArray\<close>: the loader's own name carries the offset of the next array.\<close>

definition loadFixedArray :: "json \<Rightarrow> feature_name \<Rightarrow> string \<Rightarrow> nat \<Rightarrow> (array_bundle \<times> feature_name) load_result" where
  "loadFixedArray j loader subName len =
     (if \<not> json_isMember j subName then Inl (fn_name loader @ ''.'' @ subName @ '' doesn'' @ [CHR 0x27] @ ''t exist'')
      else try_assign (array_load \<lparr>fn_offset = fn_offset loader, fn_name = fn_name loader @ ''.'' @ subName\<rparr> (json_get j subName JOther))
        (\<lambda>sub. if array_count sub \<noteq> len
           then Inl (fn_name loader @ ''.'' @ subName @ '' must contain '' @ to_chars len @ '' items'')
           else Inr (sub, loader\<lparr>fn_offset := fn_offset loader + array_count sub\<rparr>)))"

fun loadTables :: "json \<Rightarrow> feature_name \<Rightarrow> string list \<Rightarrow> (array_bundle list \<times> feature_name) load_result" where
  "loadTables j loader [] = Inr ([], loader)"
| "loadTables j loader (nm # nms) =
     try_assign (loadFixedArray j loader nm 64) (\<lambda>(sub, loader').
       result_map (\<lambda>(subs, loader''). (sub # subs, loader'')) (loadTables j loader' nms))"

fun has_type :: "json \<Rightarrow> string \<Rightarrow> bool" where
  "has_type (JObj ms) ty \<longleftrightarrow> json_get (JObj ms) ''type'' (JStr []) = JStr ty"
| "has_type _ ty \<longleftrightarrow> False"

definition psq_load :: "feature_name \<Rightarrow> json \<Rightarrow> psq_bundle load_result" where
  "psq_load nm j =
     (if \<not> has_type j ''psq'' then Inl (fn_name nm @ '' must be object with type = psq'')
      else try_assign (loadFixedArray j nm ''cost'' PIECE_COUNT) (\<lambda>(costs, l1).
        try_assign (loadTables j l1 PIECE_NAMES) (\<lambda>(tables, l2).
        try_assign (loadFixedArray j l2 ''king_end'' 64) (\<lambda>(endKing, l3).
          Inr \<lparr>pb_name = nm, pb_pieceCosts = costs, pb_tables = tables, pb_endKingTable = endKing\<rparr>))))"

definition king_pawn_load :: "feature_name \<Rightarrow> json \<Rightarrow> king_pawn_bundle load_result" where
  "king_pawn_load nm j =
     (if \<not> has_type j ''king_pawn'' then Inl (fn_name nm @ '' must be object with type = king_pawn'')
      else try_assign (loadFixedArray j nm ''shield'' 6) (\<lambda>(shield, l1).
        try_assign (loadFixedArray j l1 ''storm'' 6) (\<lambda>(storm, l2).
          Inr \<lparr>kb_name = nm, kb_shield = shield, kb_storm = storm\<rparr>)))"

text \<open>\<^verbatim>\<open>iterate\<close> of the two groups: the arrays with their names, in order.\<close>

definition psq_iterate :: "psq_bundle \<Rightarrow> (array_bundle \<times> string) list" where
  "psq_iterate p = (pb_pieceCosts p, ''cost'') # zip (pb_tables p) PIECE_NAMES @ [(pb_endKingTable p, ''king_end'')]"

definition king_pawn_iterate :: "king_pawn_bundle \<Rightarrow> (array_bundle \<times> string) list" where
  "king_pawn_iterate k = [(kb_shield k, ''shield''), (kb_storm k, ''storm'')]"

definition group_save :: "string \<Rightarrow> (array_bundle \<times> string) list \<Rightarrow> json" where
  "group_save ty subs = fold (\<lambda>(a, nm) j. json_set nm (array_save a) j) subs (json_set ''type'' (JStr ty) (JObj []))"

definition group_extract :: "(array_bundle \<times> string) list \<Rightarrow> int list \<Rightarrow> int list" where
  "group_extract subs weights = fold (\<lambda>(a, nm) ws. array_extract a ws) subs weights"

definition group_count :: "(array_bundle \<times> string) list \<Rightarrow> nat" where
  "group_count subs = fold (\<lambda>(a, nm) n. n + array_count a) subs 0"

definition group_names :: "(array_bundle \<times> string) list \<Rightarrow> feature_name list" where
  "group_names subs = concat (map (\<lambda>(a, nm). array_names a) subs)"

definition psq_apply :: "int list \<Rightarrow> psq_bundle \<Rightarrow> psq_bundle" where
  "psq_apply weights p = p\<lparr>pb_pieceCosts := array_apply weights (pb_pieceCosts p),
     pb_tables := map (array_apply weights) (pb_tables p), pb_endKingTable := array_apply weights (pb_endKingTable p)\<rparr>"

definition king_pawn_apply :: "int list \<Rightarrow> king_pawn_bundle \<Rightarrow> king_pawn_bundle" where
  "king_pawn_apply weights k = k\<lparr>kb_shield := array_apply weights (kb_shield k), kb_storm := array_apply weights (kb_storm k)\<rparr>"

subsection \<open>All kinds of bundles\<close>

fun bundle_load :: "feature_name \<Rightarrow> json \<Rightarrow> feature_bundle load_result" where
  "bundle_load nm (JInt v) = (if json_isInt (JInt v) then result_map SingleBundle (single_load nm (JInt v))
     else Inl (fn_name nm @ '' has unknown type''))"
| "bundle_load nm (JArr items) = result_map ArrayBundle (array_load nm (JArr items))"
| "bundle_load nm (JObj ms) =
     (let ty = json_get (JObj ms) ''type'' (JStr [])
      in if ty = JStr ''psq'' then result_map PsqBundle (psq_load nm (JObj ms))
         else if ty = JStr ''king_pawn'' then result_map KingPawnBundle (king_pawn_load nm (JObj ms))
         else Inl (fn_name nm @ '' has unknown type''))"
| "bundle_load nm _ = Inl (fn_name nm @ '' has unknown type'')"

fun bundle_save :: "feature_bundle \<Rightarrow> json" where
  "bundle_save (SingleBundle s) = single_save s"
| "bundle_save (ArrayBundle a) = array_save a"
| "bundle_save (PsqBundle p) = group_save ''psq'' (psq_iterate p)"
| "bundle_save (KingPawnBundle k) = group_save ''king_pawn'' (king_pawn_iterate k)"

fun bundle_apply :: "int list \<Rightarrow> feature_bundle \<Rightarrow> feature_bundle" where
  "bundle_apply weights (SingleBundle s) = SingleBundle (single_apply weights s)"
| "bundle_apply weights (ArrayBundle a) = ArrayBundle (array_apply weights a)"
| "bundle_apply weights (PsqBundle p) = PsqBundle (psq_apply weights p)"
| "bundle_apply weights (KingPawnBundle k) = KingPawnBundle (king_pawn_apply weights k)"

fun bundle_extract :: "feature_bundle \<Rightarrow> int list \<Rightarrow> int list" where
  "bundle_extract (SingleBundle s) weights = single_extract s weights"
| "bundle_extract (ArrayBundle a) weights = array_extract a weights"
| "bundle_extract (PsqBundle p) weights = group_extract (psq_iterate p) weights"
| "bundle_extract (KingPawnBundle k) weights = group_extract (king_pawn_iterate k) weights"

fun bundle_count :: "feature_bundle \<Rightarrow> nat" where
  "bundle_count (SingleBundle s) = 1"
| "bundle_count (ArrayBundle a) = array_count a"
| "bundle_count (PsqBundle p) = group_count (psq_iterate p)"
| "bundle_count (KingPawnBundle k) = group_count (king_pawn_iterate k)"

fun bundle_name :: "feature_bundle \<Rightarrow> feature_name" where
  "bundle_name (SingleBundle s) = sb_name s"
| "bundle_name (ArrayBundle a) = ab_name a"
| "bundle_name (PsqBundle p) = pb_name p"
| "bundle_name (KingPawnBundle k) = kb_name k"

fun bundle_names :: "feature_bundle \<Rightarrow> feature_name list" where
  "bundle_names (SingleBundle s) = [sb_name s]"
| "bundle_names (ArrayBundle a) = array_names a"
| "bundle_names (PsqBundle p) = group_names (psq_iterate p)"
| "bundle_names (KingPawnBundle k) = group_names (king_pawn_iterate k)"

section \<open>The feature set\<close>

record features =
  ft_bundles :: "feature_bundle list"
  ft_count :: nat

fun load_items :: "string list \<Rightarrow> nat \<Rightarrow> json list \<Rightarrow> (feature_bundle list \<times> nat) load_result" where
  "load_items added counter [] = Inr ([], counter)"
| "load_items added counter (item # items) =
     (case item of
        JObj [(key, v)] \<Rightarrow>
          if key \<in> set added then Inl (''Bundle '' @ key @ '' is present at least twice'')
          else try_assign (bundle_load \<lparr>fn_offset = counter, fn_name = key\<rparr> v) (\<lambda>b.
            result_map (\<lambda>(bs, n). (b # bs, n)) (load_items (key # added) (counter + bundle_count b) items))
      | _ \<Rightarrow> Inl (''Each item of feature JSON must have the form {'' @ [CHR 0x22] @ ''key'' @ [CHR 0x22] @ '': ''
             @ [CHR 0x22] @ ''value'' @ [CHR 0x22] @ ''}''))"

fun features_load :: "json \<Rightarrow> features load_result" where
  "features_load (JArr items) =
     result_map (\<lambda>(bs, n). \<lparr>ft_bundles = bs, ft_count = n\<rparr>) (load_items [] 0 items)"
| "features_load _ = Inl ''Feature JSON must be array''"

definition features_save :: "features \<Rightarrow> json" where
  "features_save f = JArr (map (\<lambda>b. json_set (fn_name (bundle_name b)) (bundle_save b) (JObj [])) (ft_bundles f))"

text \<open>\<^verbatim>\<open>SOF_ASSERT\<close> panics: no result.\<close>

definition features_apply :: "int list \<Rightarrow> features \<Rightarrow> features option" where
  "features_apply weights f =
     (if length weights = ft_count f then Some (f\<lparr>ft_bundles := map (bundle_apply weights) (ft_bundles f)\<rparr>) else None)"

definition features_extract :: "features \<Rightarrow> int list" where
  "features_extract f = fold bundle_extract (ft_bundles f) (replicate (ft_count f) 0)"

definition features_names :: "features \<Rightarrow> feature_name list option" where
  "features_names f =
     (let result = concat (map bundle_names (ft_bundles f))
      in if length result = ft_count f \<and> list_all (\<lambda>idx. fn_offset (result ! idx) = idx) [0..<length result]
         then Some result else None)"

end
