(* ===== verification/Feature_Lemmas.thy ===== *)
theory Feature_Lemmas
  imports Features
begin

text \<open>
  A feature set is laid out when its bundles take consecutive offsets, groups have their arrays in order and at
  their sizes, the names differ and the weights fit in 32 bits. Loading gives such a set.
\<close>

section \<open>The layout\<close>

definition array_at :: "string \<Rightarrow> nat \<Rightarrow> array_bundle \<Rightarrow> bool" where
  "array_at nm off a \<longleftrightarrow> ab_name a = \<lparr>fn_offset = off, fn_name = nm\<rparr> \<and> list_all weight_range (ab_values a)"

fun group_at :: "string \<Rightarrow> nat \<Rightarrow> (array_bundle \<times> string) list \<Rightarrow> bool" where
  "group_at nm off [] \<longleftrightarrow> True"
| "group_at nm off ((a, sub) # rest) \<longleftrightarrow> array_at (nm @ ''.'' @ sub) off a \<and> group_at nm (off + array_count a) rest"

definition psq_ok :: "psq_bundle \<Rightarrow> bool" where
  "psq_ok p \<longleftrightarrow> length (pb_tables p) = 6 \<and> group_at (fn_name (pb_name p)) (fn_offset (pb_name p)) (psq_iterate p) \<and>
     array_count (pb_pieceCosts p) = 6 \<and> list_all (\<lambda>a. array_count a = 64) (pb_tables p) \<and> array_count (pb_endKingTable p) = 64"

definition king_pawn_ok :: "king_pawn_bundle \<Rightarrow> bool" where
  "king_pawn_ok k \<longleftrightarrow> group_at (fn_name (kb_name k)) (fn_offset (kb_name k)) (king_pawn_iterate k) \<and>
     array_count (kb_shield k) = 6 \<and> array_count (kb_storm k) = 6"

fun bundle_ok :: "feature_bundle \<Rightarrow> bool" where
  "bundle_ok (SingleBundle s) \<longleftrightarrow> weight_range (sb_value s)"
| "bundle_ok (ArrayBundle a) \<longleftrightarrow> list_all weight_range (ab_values a)"
| "bundle_ok (PsqBundle p) \<longleftrightarrow> psq_ok p"
| "bundle_ok (KingPawnBundle k) \<longleftrightarrow> king_pawn_ok k"

fun bundles_at :: "string list \<Rightarrow> nat \<Rightarrow> feature_bundle list \<Rightarrow> bool" where
  "bundles_at added off [] \<longleftrightarrow> True"
| "bundles_at added off (b # bs) \<longleftrightarrow> bundle_ok b \<and> fn_offset (bundle_name b) = off \<and> fn_name (bundle_name b) \<notin> set added \<and>
     bundles_at (fn_name (bundle_name b) # added) (off + bundle_count b) bs"

definition features_ok :: "features \<Rightarrow> bool" where
  "features_ok f \<longleftrightarrow> bundles_at [] 0 (ft_bundles f) \<and> ft_count f = sum_list (map bundle_count (ft_bundles f))"

section \<open>Results\<close>

lemma try_assign_Inr [simp]: "try_assign r f = Inr y \<longleftrightarrow> (\<exists>x. r = Inr x \<and> f x = Inr y)"
  by (cases r) auto

lemma result_map_Inr [simp]: "result_map f r = Inr y \<longleftrightarrow> (\<exists>x. r = Inr x \<and> y = f x)"
  by (cases r) auto

section \<open>Loading gives a laid-out set\<close>

lemma json_asInt_range: "json_isInt j \<Longrightarrow> weight_range (json_asInt j)"
  by (cases j) simp_all

lemma array_items_ok: "array_items nm idx js = Inr ws \<Longrightarrow> list_all weight_range ws \<and> length ws = length js"
  by (induction nm idx js arbitrary: ws rule: array_items.induct) (auto simp: json_asInt_range split: if_splits)

lemma array_load_ok: "array_load nm j = Inr a \<Longrightarrow> ab_name a = nm \<and> list_all weight_range (ab_values a)"
  by (cases j) (auto dest: array_items_ok)

lemma loadFixedArray_ok:
  assumes "loadFixedArray j l sub n = Inr (a, l')"
  shows "array_at (fn_name l @ ''.'' @ sub) (fn_offset l) a \<and> array_count a = n \<and>
    fn_name l' = fn_name l \<and> fn_offset l' = fn_offset l + n"
  using assms by (auto simp: loadFixedArray_def array_at_def dest: array_load_ok split: if_splits)

lemma group_at_append:
  "group_at nm off (xs @ ys) \<longleftrightarrow> group_at nm off xs \<and> group_at nm (off + sum_list (map (array_count \<circ> fst) xs)) ys"
  by (induction nm off xs rule: group_at.induct) (auto simp: add.assoc)

lemma loadTables_ok:
  "loadTables j l nms = Inr (as, l') \<Longrightarrow> length as = length nms \<and> group_at (fn_name l) (fn_offset l) (zip as nms) \<and>
     list_all (\<lambda>a. array_count a = 64) as \<and> fn_name l' = fn_name l \<and> fn_offset l' = fn_offset l + 64 * length nms"
proof (induction j l nms arbitrary: as l' rule: loadTables.induct)
  case (2 j l nm nms)
  then obtain a l1 as' where s: "loadFixedArray j l nm 64 = Inr (a, l1)" "loadTables j l1 nms = Inr (as', l')" "as = a # as'" by auto
  show ?case using loadFixedArray_ok [OF s(1)] "2.IH" [OF s(2)] s(3) by auto
qed simp

lemma fold_count: "fold (\<lambda>(a, nm) n. n + array_count a) subs c = c + sum_list (map (array_count \<circ> fst) subs)"
  by (induction subs arbitrary: c) auto

lemma group_count_eq: "group_count subs = sum_list (map (array_count \<circ> fst) subs)"
  by (simp add: group_count_def fold_count)

lemma sum_count_zip: "list_all (\<lambda>a. array_count a = n) as \<Longrightarrow> length nms = length as \<Longrightarrow> sum_list (map (array_count \<circ> fst) (zip as nms)) = n * length as"
  by (induction as arbitrary: nms) (auto simp: length_Suc_conv)

lemma psq_load_ok:
  assumes "psq_load nm j = Inr p"
  shows "psq_ok p \<and> pb_name p = nm"
proof -
  from assms obtain c l1 t l2 e l3 where s: "loadFixedArray j nm ''cost'' PIECE_COUNT = Inr (c, l1)"
      "loadTables j l1 PIECE_NAMES = Inr (t, l2)" "loadFixedArray j l2 ''king_end'' 64 = Inr (e, l3)"
      "p = \<lparr>pb_name = nm, pb_pieceCosts = c, pb_tables = t, pb_endKingTable = e\<rparr>"
    by (auto simp: psq_load_def split: if_splits)
  have n: "length PIECE_NAMES = 6" by (simp add: PIECE_NAMES_def)
  note 1 = loadFixedArray_ok [OF s(1)] and 2 = loadTables_ok [OF s(2)] and 3 = loadFixedArray_ok [OF s(3)]
  have "sum_list (map (array_count \<circ> fst) (zip t PIECE_NAMES)) = 64 * length t" by (rule sum_count_zip) (use 2 in simp_all)
  then show ?thesis
    using 1 2 3 n by (simp add: s(4) psq_ok_def psq_iterate_def group_at_append PIECE_COUNT_def)
qed

lemma king_pawn_load_ok:
  assumes "king_pawn_load nm j = Inr k"
  shows "king_pawn_ok k \<and> kb_name k = nm"
proof -
  from assms obtain a l1 b l2 where s: "loadFixedArray j nm ''shield'' 6 = Inr (a, l1)"
      "loadFixedArray j l1 ''storm'' 6 = Inr (b, l2)" "k = \<lparr>kb_name = nm, kb_shield = a, kb_storm = b\<rparr>"
    by (auto simp: king_pawn_load_def split: if_splits)
  show ?thesis using loadFixedArray_ok [OF s(1)] loadFixedArray_ok [OF s(2)] by (simp add: s(3) king_pawn_ok_def king_pawn_iterate_def)
qed

lemma bundle_load_ok: "bundle_load nm j = Inr b \<Longrightarrow> bundle_ok b \<and> bundle_name b = nm"
  by (cases j) (auto simp: single_load_def Let_def dest: array_load_ok psq_load_ok king_pawn_load_ok array_items_ok split: if_splits)

lemma load_items_ok: "load_items added c js = Inr (bs, n) \<Longrightarrow> bundles_at added c bs \<and> n = c + sum_list (map bundle_count bs)"
proof (induction added c js arbitrary: bs n rule: load_items.induct)
  case (2 added c item items)
  obtain key v where i: "item = JObj [(key, v)]"
    using 2(2) by (auto split: json.splits list.splits prod.splits)
  with 2(2) obtain b bs' n' where s: "key \<notin> set added" "bundle_load \<lparr>fn_offset = c, fn_name = key\<rparr> v = Inr b"
      "load_items (key # added) (c + bundle_count b) items = Inr (bs', n')" "bs = b # bs'" "n = n'"
    by (auto split: if_splits)
  show ?case using "2.IH" [OF i refl refl refl s(1,3)] bundle_load_ok [OF s(2)] s by simp
qed simp

lemma features_load_ok: "features_load j = Inr f \<Longrightarrow> features_ok f"
  by (cases j) (auto simp: features_ok_def dest: load_items_ok)

text \<open>Saving a laid-out set and loading it again; applying weights and extracting them again.\<close>

section \<open>Saving and loading\<close>

lemma array_items_save: "list_all weight_range ws \<Longrightarrow> array_items nm i (map JInt ws) = Inr ws"
  by (induction ws arbitrary: i) simp_all

lemma array_load_save: "list_all weight_range (ab_values a) \<Longrightarrow> array_load (ab_name a) (array_save a) = Inr a"
  by (simp add: array_save_def array_items_save)

lemma is_member_map: "json_isMember (JObj ms) key \<longleftrightarrow> map_of ms key \<noteq> None"
  by (simp add: map_of_eq_None_iff)

lemma loadFixedArray_save:
  assumes "map_of ms sub = Some (array_save a)" "array_at (fn_name l @ ''.'' @ sub) (fn_offset l) a" "array_count a = n"
  shows "loadFixedArray (JObj ms) l sub n = Inr (a, l\<lparr>fn_offset := fn_offset l + n\<rparr>)"
proof -
  have "array_load \<lparr>fn_offset = fn_offset l, fn_name = fn_name l @ ''.'' @ sub\<rparr> (array_save a) = Inr a"
    using array_load_save [of a] assms(2) by (simp add: array_at_def)
  then show ?thesis
    unfolding loadFixedArray_def is_member_map using assms(1,3) by simp
qed

lemma group_save_map:
  "\<exists>ms. fold (\<lambda>(a, nm) j. json_set nm (array_save a) j) subs (JObj ms0) = JObj ms \<and>
     map_of ms = fold (\<lambda>(a, nm) m. m(nm \<mapsto> array_save a)) subs (map_of ms0)"
proof (induction subs arbitrary: ms0)
  case (Cons x subs)
  obtain a nm where x: "x = (a, nm)" by (cases x)
  show ?case using Cons.IH [of "AList.update nm (array_save a) ms0"] by (simp add: x update_conv')
qed simp

lemma loadTables_save:
  "list_all2 (\<lambda>a nm. map_of ms nm = Some (array_save a)) as nms \<Longrightarrow> group_at (fn_name l) (fn_offset l) (zip as nms) \<Longrightarrow>
   list_all (\<lambda>a. array_count a = 64) as \<Longrightarrow>
   loadTables (JObj ms) l nms = Inr (as, l\<lparr>fn_offset := fn_offset l + 64 * length nms\<rparr>)"
proof (induction as nms arbitrary: l rule: list_all2_induct)
  case (Cons a as nm nms)
  have "loadFixedArray (JObj ms) l nm 64 = Inr (a, l\<lparr>fn_offset := fn_offset l + 64\<rparr>)"
    by (rule loadFixedArray_save) (use Cons in simp_all)
  then show ?case using Cons by simp
qed simp

lemma psq_load_save:
  assumes "psq_ok p"
  shows "\<exists>ms. group_save ''psq'' (psq_iterate p) = JObj ms \<and> map_of ms ''type'' = Some (JStr ''psq'') \<and>
    psq_load (pb_name p) (JObj ms) = Inr p"
proof -
  let ?nm = "pb_name p"
  from assms have len: "length (pb_tables p) = 6" and g: "group_at (fn_name ?nm) (fn_offset ?nm) (psq_iterate p)"
    and c: "array_count (pb_pieceCosts p) = 6" "list_all (\<lambda>a. array_count a = 64) (pb_tables p)" "array_count (pb_endKingTable p) = 64"
    by (simp_all add: psq_ok_def)
  obtain t0 t1 t2 t3 t4 t5 where t: "pb_tables p = [t0, t1, t2, t3, t4, t5]"
    using len by (auto simp: length_Suc_conv eval_nat_numeral)
  obtain ms where s: "group_save ''psq'' (psq_iterate p) = JObj ms"
    and m: "map_of ms = fold (\<lambda>(a, nm) m. m(nm \<mapsto> array_save a)) (psq_iterate p) [''type'' \<mapsto> JStr ''psq'']"
    using group_save_map [of "psq_iterate p" "[(''type'', JStr ''psq'')]"] by (auto simp: group_save_def)
  have look: "map_of ms ''type'' = Some (JStr ''psq'')" "map_of ms ''cost'' = Some (array_save (pb_pieceCosts p))"
    "map_of ms ''king_end'' = Some (array_save (pb_endKingTable p))"
    "list_all2 (\<lambda>a nm. map_of ms nm = Some (array_save a)) (pb_tables p) PIECE_NAMES"
    by (simp_all add: m psq_iterate_def PIECE_NAMES_def t)
  have sum: "sum_list (map (array_count \<circ> fst) (zip (pb_tables p) PIECE_NAMES)) = 64 * 6"
    using sum_count_zip [OF c(2), of PIECE_NAMES] len by (simp add: PIECE_NAMES_def)
  have at: "array_at (fn_name ?nm @ ''.cost'') (fn_offset ?nm) (pb_pieceCosts p)"
    "group_at (fn_name ?nm) (fn_offset ?nm + 6) (zip (pb_tables p) PIECE_NAMES)"
    "array_at (fn_name ?nm @ ''.king_end'') (fn_offset ?nm + 6 + 64 * 6) (pb_endKingTable p)"
    using g c(1) sum by (simp_all add: psq_iterate_def group_at_append)
  have 1: "loadFixedArray (JObj ms) ?nm ''cost'' PIECE_COUNT = Inr (pb_pieceCosts p, ?nm\<lparr>fn_offset := fn_offset ?nm + 6\<rparr>)"
    using loadFixedArray_save [OF look(2), of ?nm 6] at(1) c(1) by (simp add: PIECE_COUNT_def)
  have 2: "loadTables (JObj ms) (?nm\<lparr>fn_offset := fn_offset ?nm + 6\<rparr>) PIECE_NAMES =
      Inr (pb_tables p, ?nm\<lparr>fn_offset := fn_offset ?nm + 6 + 64 * 6\<rparr>)"
    using loadTables_save [OF look(4), of "?nm\<lparr>fn_offset := fn_offset ?nm + 6\<rparr>"] at(2) c(2) by (simp add: PIECE_NAMES_def)
  have 3: "loadFixedArray (JObj ms) (?nm\<lparr>fn_offset := fn_offset ?nm + 6 + 64 * 6\<rparr>) ''king_end'' 64 =
      Inr (pb_endKingTable p, ?nm\<lparr>fn_offset := fn_offset ?nm + 6 + 64 * 6 + 64\<rparr>)"
    using loadFixedArray_save [OF look(3), of "?nm\<lparr>fn_offset := fn_offset ?nm + 6 + 64 * 6\<rparr>" 64] at(3) c(3) by simp
  have "psq_load ?nm (JObj ms) = Inr p"
    unfolding psq_load_def using look(1) by (simp add: 1 2 [simplified] 3 [simplified])
  then show ?thesis using s look(1) by blast
qed

lemma king_pawn_load_save:
  assumes "king_pawn_ok k"
  shows "\<exists>ms. group_save ''king_pawn'' (king_pawn_iterate k) = JObj ms \<and> map_of ms ''type'' = Some (JStr ''king_pawn'') \<and>
    king_pawn_load (kb_name k) (JObj ms) = Inr k"
proof -
  let ?nm = "kb_name k"
  from assms have at: "array_at (fn_name ?nm @ ''.shield'') (fn_offset ?nm) (kb_shield k)"
      "array_at (fn_name ?nm @ ''.storm'') (fn_offset ?nm + 6) (kb_storm k)"
    and c: "array_count (kb_shield k) = 6" "array_count (kb_storm k) = 6"
    by (auto simp: king_pawn_ok_def king_pawn_iterate_def)
  obtain ms where s: "group_save ''king_pawn'' (king_pawn_iterate k) = JObj ms"
    and m: "map_of ms = fold (\<lambda>(a, nm) m. m(nm \<mapsto> array_save a)) (king_pawn_iterate k) [''type'' \<mapsto> JStr ''king_pawn'']"
    using group_save_map [of "king_pawn_iterate k" "[(''type'', JStr ''king_pawn'')]"] by (auto simp: group_save_def)
  have look: "map_of ms ''type'' = Some (JStr ''king_pawn'')" "map_of ms ''shield'' = Some (array_save (kb_shield k))"
    "map_of ms ''storm'' = Some (array_save (kb_storm k))"
    by (simp_all add: m king_pawn_iterate_def)
  have 1: "loadFixedArray (JObj ms) ?nm ''shield'' 6 = Inr (kb_shield k, ?nm\<lparr>fn_offset := fn_offset ?nm + 6\<rparr>)"
    using loadFixedArray_save [OF look(2), of ?nm 6] at(1) c(1) by simp
  have 2: "loadFixedArray (JObj ms) (?nm\<lparr>fn_offset := fn_offset ?nm + 6\<rparr>) ''storm'' 6 =
      Inr (kb_storm k, ?nm\<lparr>fn_offset := fn_offset ?nm + 6 + 6\<rparr>)"
    using loadFixedArray_save [OF look(3), of "?nm\<lparr>fn_offset := fn_offset ?nm + 6\<rparr>" 6] at(2) c(2) by simp
  have "king_pawn_load ?nm (JObj ms) = Inr k"
    unfolding king_pawn_load_def using look(1) by (simp add: 1 2)
  then show ?thesis using s look(1) by blast
qed

lemma bundle_load_save: "bundle_ok b \<Longrightarrow> bundle_load (bundle_name b) (bundle_save b) = Inr b"
proof (induction b)
  case (SingleBundle s)
  then show ?case by (simp add: single_save_def single_load_def)
next
  case (ArrayBundle a)
  then show ?case using array_load_save [of a] by (simp add: array_save_def)
next
  case (PsqBundle p)
  then obtain ms where "group_save ''psq'' (psq_iterate p) = JObj ms" "map_of ms ''type'' = Some (JStr ''psq'')"
    "psq_load (pb_name p) (JObj ms) = Inr p" using psq_load_save [of p] by auto
  then show ?case by simp
next
  case (KingPawnBundle k)
  then obtain ms where "group_save ''king_pawn'' (king_pawn_iterate k) = JObj ms" "map_of ms ''type'' = Some (JStr ''king_pawn'')"
    "king_pawn_load (kb_name k) (JObj ms) = Inr k" using king_pawn_load_save [of k] by auto
  then show ?case by simp
qed

lemma load_items_save:
  "bundles_at added c bs \<Longrightarrow>
   load_items added c (map (\<lambda>b. json_set (fn_name (bundle_name b)) (bundle_save b) (JObj [])) bs) = Inr (bs, c + sum_list (map bundle_count bs))"
proof (induction added c bs rule: bundles_at.induct)
  case (2 added c b bs)
  have n: "\<lparr>fn_offset = c, fn_name = fn_name (bundle_name b)\<rparr> = bundle_name b" using 2 by simp
  show ?case using 2 bundle_load_save [of b] by (simp add: n add.assoc)
qed simp

lemma features_load_save:
  assumes "features_ok f"
  shows "features_load (features_save f) = Inr f"
  using load_items_save [of "[]" 0 "ft_bundles f"] assms by (simp add: features_save_def features_ok_def)

section \<open>Weights\<close>

definition write_at :: "nat \<Rightarrow> int list \<Rightarrow> int list \<Rightarrow> int list" where
  "write_at off vs ws = take off ws @ vs @ drop (off + length vs) ws"

lemma fold_write:
  "off + length vs \<le> length ws \<Longrightarrow> n \<le> length vs \<Longrightarrow>
   fold (\<lambda>idx ws. ws[idx + off := vs ! idx]) [0..<n] ws = take off ws @ take n vs @ drop (off + n) ws"
proof (induction n)
  case (Suc n)
  have l: "length (take off ws @ take n vs) = n + off" using Suc by simp
  have d: "drop (off + n) ws = ws ! (off + n) # drop (Suc (off + n)) ws" using Suc by (simp add: Cons_nth_drop_Suc)
  have "fold (\<lambda>idx ws. ws[idx + off := vs ! idx]) [0..<Suc n] ws = ((take off ws @ take n vs) @ drop (off + n) ws)[n + off := vs ! n]"
    using Suc by simp
  also have "\<dots> = (take off ws @ take n vs) @ vs ! n # drop (Suc (off + n)) ws"
    unfolding d list_update_append using l by simp
  finally show ?case using Suc.prems by (simp add: take_Suc_conv_app_nth)
qed simp

lemma array_extract_write:
  "array_at nm off a \<Longrightarrow> off + array_count a \<le> length ws \<Longrightarrow> array_extract a ws = write_at off (ab_values a) ws"
  using fold_write [of off "ab_values a" ws "length (ab_values a)"]
  by (simp add: array_extract_def array_at_def array_count_def write_at_def)

lemma length_write_at: "off + length vs \<le> length ws \<Longrightarrow> length (write_at off vs ws) = length ws"
  by (simp add: write_at_def)

lemma write_write: "off + length vs + length vs' \<le> length ws \<Longrightarrow> write_at (off + length vs) vs' (write_at off vs ws) = write_at off (vs @ vs') ws"
  by (simp add: write_at_def ac_simps)

definition group_values :: "(array_bundle \<times> string) list \<Rightarrow> int list" where
  "group_values subs = concat (map (ab_values \<circ> fst) subs)"

lemma length_group_values: "length (group_values subs) = group_count subs"
  by (simp add: group_values_def group_count_eq length_concat array_count_def comp_def)

lemma group_extract_write:
  "group_at nm off subs \<Longrightarrow> off + group_count subs \<le> length ws \<Longrightarrow> group_extract subs ws = write_at off (group_values subs) ws"
proof (induction nm off subs arbitrary: ws rule: group_at.induct)
  case (2 nm off a sub rest)
  have c: "group_count ((a, sub) # rest) = array_count a + group_count rest" by (simp add: group_count_eq)
  have v: "length (ab_values a) = array_count a" "group_values ((a, sub) # rest) = ab_values a @ group_values rest"
    by (simp_all add: array_count_def group_values_def)
  have "group_extract ((a, sub) # rest) ws = group_extract rest (write_at off (ab_values a) ws)"
    using 2 c array_extract_write [of "nm @ ''.'' @ sub" off a ws] by (simp add: group_extract_def)
  also have "\<dots> = write_at (off + array_count a) (group_values rest) (write_at off (ab_values a) ws)"
    using 2 c v by (intro "2.IH") (simp_all add: length_write_at)
  finally show ?case using write_write [of off "ab_values a" "group_values rest" ws] 2 c v length_group_values by simp
qed (simp add: group_extract_def group_values_def write_at_def)

fun bundle_values :: "feature_bundle \<Rightarrow> int list" where
  "bundle_values (SingleBundle s) = [sb_value s]"
| "bundle_values (ArrayBundle a) = ab_values a"
| "bundle_values (PsqBundle p) = group_values (psq_iterate p)"
| "bundle_values (KingPawnBundle k) = group_values (king_pawn_iterate k)"

lemma length_bundle_values: "length (bundle_values b) = bundle_count b"
  by (cases b) (simp_all add: length_group_values array_count_def)

lemma bundle_extract_write:
  assumes "bundle_ok b" "fn_offset (bundle_name b) + bundle_count b \<le> length ws"
  shows "bundle_extract b ws = write_at (fn_offset (bundle_name b)) (bundle_values b) ws"
proof (cases b)
  case (SingleBundle s)
  then show ?thesis using assms(2) by (simp add: single_extract_def write_at_def upd_conv_take_nth_drop)
next
  case (ArrayBundle a)
  then show ?thesis using assms array_extract_write [of "fn_name (ab_name a)" "fn_offset (ab_name a)" a ws] by (simp add: array_at_def)
next
  case (PsqBundle p)
  then show ?thesis using assms group_extract_write [of "fn_name (pb_name p)" "fn_offset (pb_name p)"] by (simp add: psq_ok_def)
next
  case (KingPawnBundle k)
  then show ?thesis using assms group_extract_write [of "fn_name (kb_name k)" "fn_offset (kb_name k)"] by (simp add: king_pawn_ok_def)
qed

lemma bundles_extract:
  "bundles_at added off bs \<Longrightarrow> off + sum_list (map bundle_count bs) \<le> length ws \<Longrightarrow>
   fold bundle_extract bs ws = write_at off (concat (map bundle_values bs)) ws"
proof (induction added off bs arbitrary: ws rule: bundles_at.induct)
  case (2 added off b bs)
  have w: "bundle_extract b ws = write_at off (bundle_values b) ws" using bundle_extract_write [of b ws] 2 by simp
  have "fold bundle_extract bs (write_at off (bundle_values b) ws) =
      write_at (off + bundle_count b) (concat (map bundle_values bs)) (write_at off (bundle_values b) ws)"
    using 2 by (intro "2.IH") (simp_all add: length_write_at length_bundle_values)
  moreover have "length (concat (map bundle_values bs)) = sum_list (map bundle_count bs)"
    by (simp add: length_concat comp_def length_bundle_values)
  ultimately show ?case
    using write_write [of off "bundle_values b" "concat (map bundle_values bs)" ws] 2 by (simp add: w length_bundle_values)
qed (simp add: write_at_def)

lemma features_extract_values:
  assumes "features_ok f"
  shows "features_extract f = concat (map bundle_values (ft_bundles f))"
proof -
  have l: "length (concat (map bundle_values (ft_bundles f))) = ft_count f"
    using assms by (simp add: features_ok_def length_concat comp_def length_bundle_values)
  have "features_extract f = write_at 0 (concat (map bundle_values (ft_bundles f))) (replicate (ft_count f) 0)"
    unfolding features_extract_def using assms by (intro bundles_extract [of "[]"]) (simp_all add: features_ok_def)
  then show ?thesis using l by (simp add: write_at_def)
qed

text \<open>What \<open>apply\<close> writes into the bundles is the weight_slice of the weights at their offsets.\<close>

definition weight_slice :: "nat \<Rightarrow> nat \<Rightarrow> int list \<Rightarrow> int list" where
  "weight_slice off n ws = take n (drop off ws)"

lemma slice_add: "weight_slice off (m + n) ws = weight_slice off m ws @ weight_slice (off + m) n ws"
  by (simp add: weight_slice_def take_add ac_simps)

lemma length_slice: "off + n \<le> length ws \<Longrightarrow> length (weight_slice off n ws) = n"
  by (simp add: weight_slice_def)

lemma slice_range: "list_all weight_range ws \<Longrightarrow> list_all weight_range (weight_slice off n ws)"
  unfolding weight_slice_def list_all_iff by (meson in_set_dropD in_set_takeD)

lemma slice_split:
  assumes "weight_slice off (length xs + n) ws = xs @ ys" "off + length xs + n \<le> length ws"
  shows "weight_slice off (length xs) ws = xs" "weight_slice (off + length xs) n ws = ys"
  using assms by (simp_all add: slice_add append_eq_append_conv length_slice)

lemma array_apply_slice:
  "fn_offset (ab_name a) + array_count a \<le> length ws \<Longrightarrow>
   array_apply ws a = a\<lparr>ab_values := weight_slice (fn_offset (ab_name a)) (array_count a) ws\<rparr>"
  unfolding array_apply_def weight_slice_def array_count_def
  by (intro arg_cong [where f = "\<lambda>v. a\<lparr>ab_values := v\<rparr>"] nth_equalityI) (simp_all add: add.commute)

definition group_apply :: "int list \<Rightarrow> (array_bundle \<times> string) list \<Rightarrow> (array_bundle \<times> string) list" where
  "group_apply ws subs = map (\<lambda>(a, nm). (array_apply ws a, nm)) subs"

lemma iterate_apply:
  "psq_iterate (psq_apply ws p) = group_apply ws (psq_iterate p)"
  "king_pawn_iterate (king_pawn_apply ws k) = group_apply ws (king_pawn_iterate k)"
  by (simp_all add: psq_iterate_def king_pawn_iterate_def psq_apply_def king_pawn_apply_def group_apply_def zip_map1)

lemma group_apply_values:
  "group_at nm off subs \<Longrightarrow> off + group_count subs \<le> length ws \<Longrightarrow> list_all weight_range ws \<Longrightarrow>
   group_at nm off (group_apply ws subs) \<and> group_values (group_apply ws subs) = weight_slice off (group_count subs) ws"
proof (induction nm off subs rule: group_at.induct)
  case (2 nm off a sub rest)
  have c: "group_count ((a, sub) # rest) = array_count a + group_count rest" by (simp add: group_count_eq)
  have o: "fn_offset (ab_name a) = off" using 2 by (simp add: array_at_def)
  have a: "array_apply ws a = a\<lparr>ab_values := weight_slice off (array_count a) ws\<rparr>"
    using array_apply_slice [of a ws] 2 c o by simp
  have l: "array_count (array_apply ws a) = array_count a" using 2 c by (simp add: a array_count_def length_slice)
  have "array_at (nm @ ''.'' @ sub) off (array_apply ws a)"
    using 2 slice_range [of ws] by (simp add: a array_at_def)
  moreover have "group_at nm (off + array_count a) (group_apply ws rest) \<and>
      group_values (group_apply ws rest) = weight_slice (off + array_count a) (group_count rest) ws"
    using 2 c by simp
  ultimately show ?case using l by (simp add: group_apply_def group_values_def c slice_add a)
qed (simp add: group_apply_def group_values_def group_count_def weight_slice_def)

lemma group_apply_id:
  "group_at nm off subs \<Longrightarrow> off + group_count subs \<le> length ws \<Longrightarrow> weight_slice off (group_count subs) ws = group_values subs \<Longrightarrow>
   group_apply ws subs = subs"
proof (induction nm off subs rule: group_at.induct)
  case (2 nm off a sub rest)
  have c: "group_count ((a, sub) # rest) = length (ab_values a) + group_count rest" by (simp add: group_count_eq array_count_def)
  have s: "weight_slice off (length (ab_values a) + group_count rest) ws = ab_values a @ group_values rest"
    using 2 c by (simp add: group_values_def)
  have l: "off + length (ab_values a) + group_count rest \<le> length ws" using 2 c by simp
  have "array_apply ws a = a"
    using array_apply_slice [of a ws] 2 c slice_split(1) [OF s l] by (simp add: array_at_def array_count_def)
  moreover have "group_apply ws rest = rest" using 2 l slice_split(2) [OF s l] by (simp add: array_count_def)
  ultimately show ?case by (simp add: group_apply_def)
qed (simp add: group_apply_def)

lemma apply_counts:
  assumes "group_at nm off subs" "off + group_count subs \<le> length ws" "a \<in> fst ` set subs"
  shows "array_count (array_apply ws a) = array_count a"
  by (simp add: array_count_def array_apply_def)

lemma bundle_apply_ok:
  assumes "bundle_ok b" "fn_offset (bundle_name b) + bundle_count b \<le> length ws" "list_all weight_range ws"
  shows "bundle_ok (bundle_apply ws b) \<and> bundle_name (bundle_apply ws b) = bundle_name b \<and>
    bundle_count (bundle_apply ws b) = bundle_count b \<and>
    bundle_values (bundle_apply ws b) = weight_slice (fn_offset (bundle_name b)) (bundle_count b) ws"
proof -
  have cnt: "array_count (array_apply ws a) = array_count a" for a by (simp add: array_count_def array_apply_def)
  have nm: "group_count (group_apply ws subs) = group_count subs" for subs
    by (induction subs) (auto simp: group_count_eq group_apply_def cnt)
  show ?thesis
  proof (cases b)
    case (SingleBundle s)
    then have "weight_slice (fn_offset (sb_name s)) 1 ws = [ws ! fn_offset (sb_name s)]" "weight_range (ws ! fn_offset (sb_name s))"
      using assms(2,3) by (simp_all add: weight_slice_def take_Suc_conv_app_nth list_all_length hd_drop_conv_nth take_Suc)
    then show ?thesis using SingleBundle by (simp add: single_apply_def)
  next
    case (ArrayBundle a)
    then show ?thesis
      using assms array_apply_slice [of a ws] slice_range [of ws] by (simp add: array_count_def length_slice)
  next
    case (PsqBundle p)
    have a: "list_all (\<lambda>a. array_count a = 64) (map (array_apply ws) as) = list_all (\<lambda>a. array_count a = 64) as" for as
      by (simp add: list.pred_map cnt comp_def)
    show ?thesis
      using assms group_apply_values [of "fn_name (pb_name p)" "fn_offset (pb_name p)" "psq_iterate p" ws]
      by (simp add: PsqBundle psq_ok_def iterate_apply nm) (simp add: psq_apply_def cnt a)
  next
    case (KingPawnBundle k)
    show ?thesis
      using assms group_apply_values [of "fn_name (kb_name k)" "fn_offset (kb_name k)" "king_pawn_iterate k" ws]
      by (simp add: KingPawnBundle king_pawn_ok_def iterate_apply nm) (simp add: king_pawn_apply_def cnt)
  qed
qed

lemma bundles_apply:
  "bundles_at added off bs \<Longrightarrow> off + sum_list (map bundle_count bs) \<le> length ws \<Longrightarrow> list_all weight_range ws \<Longrightarrow>
   bundles_at added off (map (bundle_apply ws) bs) \<and> map bundle_count (map (bundle_apply ws) bs) = map bundle_count bs \<and>
   concat (map bundle_values (map (bundle_apply ws) bs)) = weight_slice off (sum_list (map bundle_count bs)) ws"
proof (induction added off bs rule: bundles_at.induct)
  case (2 added off b bs)
  have b: "bundle_ok (bundle_apply ws b) \<and> bundle_name (bundle_apply ws b) = bundle_name b \<and>
    bundle_count (bundle_apply ws b) = bundle_count b \<and>
    bundle_values (bundle_apply ws b) = weight_slice off (bundle_count b) ws"
    using bundle_apply_ok [of b ws] 2 by simp
  show ?case using b 2 by (simp add: slice_add)
qed (simp add: weight_slice_def)

lemma bundle_apply_id:
  assumes "bundle_ok b" "fn_offset (bundle_name b) + bundle_count b \<le> length ws"
    "weight_slice (fn_offset (bundle_name b)) (bundle_count b) ws = bundle_values b"
  shows "bundle_apply ws b = b"
proof (cases b)
  case (SingleBundle s)
  then have "ws ! fn_offset (sb_name s) = sb_value s"
    using assms(2,3) by (simp add: weight_slice_def take_Suc hd_drop_conv_nth)
  then show ?thesis using SingleBundle by (simp add: single_apply_def)
next
  case (ArrayBundle a)
  then show ?thesis using assms array_apply_slice [of a ws] by simp
next
  case (PsqBundle p)
  have "psq_iterate (psq_apply ws p) = psq_iterate p"
    unfolding iterate_apply using assms group_apply_id [of "fn_name (pb_name p)" "fn_offset (pb_name p)"] PsqBundle by (simp add: psq_ok_def)
  then have e: "array_apply ws (pb_pieceCosts p) = pb_pieceCosts p" "array_apply ws (pb_endKingTable p) = pb_endKingTable p"
      "zip (map (array_apply ws) (pb_tables p)) PIECE_NAMES = zip (pb_tables p) PIECE_NAMES"
    by (simp_all add: psq_iterate_def psq_apply_def)
  have "length (pb_tables p) = length PIECE_NAMES" using assms(1) PsqBundle by (simp add: psq_ok_def PIECE_NAMES_def)
  then have "map (array_apply ws) (pb_tables p) = pb_tables p" using e(3) by (metis length_map map_fst_zip)
  then have "psq_apply ws p = p" using e(1,2) by (cases p) (simp add: psq_apply_def)
  then show ?thesis using PsqBundle by simp
next
  case (KingPawnBundle k)
  have "king_pawn_iterate (king_pawn_apply ws k) = king_pawn_iterate k"
    unfolding iterate_apply using assms group_apply_id [of "fn_name (kb_name k)" "fn_offset (kb_name k)"] KingPawnBundle by (simp add: king_pawn_ok_def)
  then have "king_pawn_apply ws k = k" by (cases k) (simp add: king_pawn_iterate_def king_pawn_apply_def)
  then show ?thesis using KingPawnBundle by simp
qed

lemma bundles_apply_id:
  "bundles_at added off bs \<Longrightarrow> off + sum_list (map bundle_count bs) \<le> length ws \<Longrightarrow>
   weight_slice off (sum_list (map bundle_count bs)) ws = concat (map bundle_values bs) \<Longrightarrow> map (bundle_apply ws) bs = bs"
proof (induction added off bs rule: bundles_at.induct)
  case (2 added off b bs)
  have s: "weight_slice off (length (bundle_values b) + sum_list (map bundle_count bs)) ws = bundle_values b @ concat (map bundle_values bs)"
    and l: "off + length (bundle_values b) + sum_list (map bundle_count bs) \<le> length ws"
    using 2 by (simp_all add: length_bundle_values)
  have "bundle_apply ws b = b"
    using bundle_apply_id [of b ws] slice_split(1) [OF s l] 2 by (simp add: length_bundle_values)
  moreover have "map (bundle_apply ws) bs = bs"
    using "2.IH" slice_split(2) [OF s l] 2 by (simp add: length_bundle_values)
  ultimately show ?case by simp
qed simp

lemma features_apply_ok:
  assumes f: "features_ok f" and ws: "length ws = ft_count f" "list_all weight_range ws"
  shows "\<exists>f'. features_apply ws f = Some f' \<and> features_ok f' \<and> features_extract f' = ws"
proof -
  let ?f = "f\<lparr>ft_bundles := map (bundle_apply ws) (ft_bundles f)\<rparr>"
  have b: "bundles_at [] 0 (map (bundle_apply ws) (ft_bundles f)) \<and>
      map bundle_count (map (bundle_apply ws) (ft_bundles f)) = map bundle_count (ft_bundles f) \<and>
      concat (map bundle_values (map (bundle_apply ws) (ft_bundles f))) = weight_slice 0 (ft_count f) ws"
    using bundles_apply [of "[]" 0 "ft_bundles f" ws] f ws by (simp add: features_ok_def)
  have o: "features_ok ?f" using b f by (simp add: features_ok_def del: map_map)
  then have "features_extract ?f = ws" using features_extract_values [OF o] b ws by (simp add: weight_slice_def)
  then show ?thesis using o ws by (simp add: features_apply_def)
qed

lemma features_apply_extract:
  assumes f: "features_ok f"
  shows "features_apply (features_extract f) f = Some f"
proof -
  have l: "length (features_extract f) = ft_count f"
    using features_extract_values [OF f] f by (simp add: features_ok_def length_concat comp_def length_bundle_values)
  have "map (bundle_apply (features_extract f)) (ft_bundles f) = ft_bundles f"
    using bundles_apply_id [of "[]" 0 "ft_bundles f" "features_extract f"] f l features_extract_values [OF f]
    by (simp add: features_ok_def weight_slice_def)
  then show ?thesis using l by (simp add: features_apply_def)
qed

section \<open>Names\<close>

lemma array_names_offsets: "map fn_offset (array_names a) = [fn_offset (ab_name a)..<fn_offset (ab_name a) + array_count a]"
  by (rule nth_equalityI) (simp_all add: array_names_def array_count_def)

lemma group_names_offsets: "group_at nm off subs \<Longrightarrow> map fn_offset (group_names subs) = [off..<off + group_count subs]"
proof (induction nm off subs rule: group_at.induct)
  case (2 nm off a sub rest)
  have c: "group_count ((a, sub) # rest) = array_count a + group_count rest" by (simp add: group_count_eq)
  have "map fn_offset (group_names ((a, sub) # rest)) = [off..<off + array_count a] @ [off + array_count a..<off + array_count a + group_count rest]"
    using 2 array_names_offsets [of a] by (simp add: group_names_def array_at_def)
  then show ?case using upt_add_eq_append [of off "off + array_count a" "group_count rest"] by (simp add: c add.assoc)
qed (simp add: group_names_def group_count_def)

lemma bundle_names_offsets:
  "bundle_ok b \<Longrightarrow> map fn_offset (bundle_names b) = [fn_offset (bundle_name b)..<fn_offset (bundle_name b) + bundle_count b]"
  using array_names_offsets group_names_offsets by (cases b) (auto simp: psq_ok_def king_pawn_ok_def)

lemma bundles_names_offsets:
  "bundles_at added off bs \<Longrightarrow> map fn_offset (concat (map bundle_names bs)) = [off..<off + sum_list (map bundle_count bs)]"
proof (induction added off bs rule: bundles_at.induct)
  case (2 added off b bs)
  then show ?case using bundle_names_offsets [of b] upt_add_eq_append [of off "off + bundle_count b" "sum_list (map bundle_count bs)"]
    by (simp add: add.assoc)
qed simp

lemma features_names_ok:
  assumes "features_ok f"
  shows "\<exists>ns. features_names f = Some ns \<and> map fn_offset ns = [0..<ft_count f]"
proof -
  let ?ns = "concat (map bundle_names (ft_bundles f))"
  have o: "map fn_offset ?ns = [0..<ft_count f]"
    using bundles_names_offsets [of "[]" 0 "ft_bundles f"] assms by (simp add: features_ok_def)
  then have l: "length ?ns = ft_count f" by (metis length_map length_upt diff_zero)
  have "fn_offset (?ns ! i) = i" if "i < length ?ns" for i
    using arg_cong [OF o, of "\<lambda>xs. xs ! i"] that l by (metis add_0 nth_map nth_upt)
  then have "features_names f = Some ?ns" by (simp only: features_names_def Let_def l list_all_iff) (simp add: l [symmetric])
  then show ?thesis using o by blast
qed

end
