(* ===== verification/Eval_Tables.thy ===== *)
theory Eval_Tables
  imports Score Near_Attacks Str_Util Feature_Lemmas
begin

unbundle bit_operations_syntax

text \<open>
  The constants of the evaluator: the bitboards of \<^verbatim>\<open>gen/eval/bitboard.cpp\<close>, the weights that
  \<^verbatim>\<open>gen/eval/weights.cpp\<close> and \<^verbatim>\<open>weight_values.cpp\<close> make from a feature set, for the score type
  \<^verbatim>\<open>score_t\<close> (\<^verbatim>\<open>src/src/eval/private/weight_traits.h\<close>), and \<^verbatim>\<open>src/src/eval/private/consts.h\<close>.
\<close>

section \<open>Bitboards\<close>

definition or_where :: "(coord \<Rightarrow> bool) \<Rightarrow> bitboard" where
  "or_where P = foldl (\<lambda>r j. if P j then r OR coordToBitboard j else r) 0 [0..63]"

definition kingDistance :: "coord \<Rightarrow> coord \<Rightarrow> int" where
  "kingDistance i j = max (absDiff (coordX i) (coordX j)) (absDiff (coordY i) (coordY j))"

definition generateKingMetricRings :: "bitboard list list" where
  "generateKingMetricRings = map (\<lambda>i. foldl (\<lambda>row j.
     let d = nat (kingDistance i j) in row[d := row ! d OR coordToBitboard j]) (replicate 8 0) [0..63]) [0..63]"

definition generateDoublePawns :: "bitboard list" where
  "generateDoublePawns = map (\<lambda>i. BB_COL ! nat (coordY i) XOR coordToBitboard i) [0..63]"

definition generateIsolatedPawns :: "bitboard list" where
  "generateIsolatedPawns = map (\<lambda>i. let y = coordY i
     in (if y \<noteq> 0 then BB_COL ! nat (y - 1) else 0) OR (if y \<noteq> 7 then BB_COL ! nat (y + 1) else 0)) [0..63]"

datatype PassedPawnKind = Passed | Open

definition ahead :: "color \<Rightarrow> coord \<Rightarrow> coord \<Rightarrow> bool" where
  "ahead c i j \<longleftrightarrow> (c = White \<and> coordX i > coordX j) \<or> (c = Black \<and> coordX i < coordX j)"

definition generatePassedOrOpenPawns :: "color \<Rightarrow> PassedPawnKind \<Rightarrow> bitboard list" where
  "generatePassedOrOpenPawns c pk = map (\<lambda>i. or_where (\<lambda>j. let yi = coordY i; yj = coordY j
     in \<not> ((pk = Passed \<and> yi \<noteq> yj \<and> yi + 1 \<noteq> yj \<and> yi \<noteq> yj + 1) \<or> (pk = Open \<and> yi \<noteq> yj)) \<and> ahead c i j)) [0..63]"

definition generateAttackFrontspans :: "color \<Rightarrow> bitboard list" where
  "generateAttackFrontspans c = map (\<lambda>i. or_where (\<lambda>j. let yi = coordY i; yj = coordY j
     in \<not> (yi + 1 \<noteq> yj \<and> yi \<noteq> yj + 1) \<and> ahead c i j)) [0..63]"

definition BB_KING_METRIC_RING :: "coord \<Rightarrow> nat \<Rightarrow> bitboard" where
  "BB_KING_METRIC_RING i d = generateKingMetricRings ! nat i ! d"

definition BB_DOUBLE_PAWN :: "coord \<Rightarrow> bitboard" where "BB_DOUBLE_PAWN i = generateDoublePawns ! nat i"
definition BB_ISOLATED_PAWN :: "coord \<Rightarrow> bitboard" where "BB_ISOLATED_PAWN i = generateIsolatedPawns ! nat i"

definition BB_PASSED_PAWN :: "color \<Rightarrow> coord \<Rightarrow> bitboard" where
  "BB_PASSED_PAWN c i = generatePassedOrOpenPawns c Passed ! nat i"

definition BB_OPEN_PAWN :: "color \<Rightarrow> coord \<Rightarrow> bitboard" where
  "BB_OPEN_PAWN c i = generatePassedOrOpenPawns c Open ! nat i"

definition BB_ATTACK_FRONTSPANS :: "color \<Rightarrow> coord \<Rightarrow> bitboard" where
  "BB_ATTACK_FRONTSPANS c i = generateAttackFrontspans c ! nat i"

definition BB_SHIELDED_KING :: "color \<Rightarrow> bitboard" where
  "BB_SHIELDED_KING c = (if c = White then 0xc300000000000000 else 0x00000000000000c3)"

section \<open>Constants\<close>

definition COEF_UNIT_SHIFT :: nat where "COEF_UNIT_SHIFT = 8"
definition COEF_UNIT :: int where "COEF_UNIT = push_bit COEF_UNIT_SHIFT 1"

definition STAGE_PAWN :: u32 where "STAGE_PAWN = 0"
definition STAGE_KNIGHT :: u32 where "STAGE_KNIGHT = 1"
definition STAGE_BISHOP :: u32 where "STAGE_BISHOP = 1"
definition STAGE_ROOK :: u32 where "STAGE_ROOK = 2"
definition STAGE_QUEEN :: u32 where "STAGE_QUEEN = 4"

definition STAGE_TOTAL :: u32 where
  "STAGE_TOTAL = 16 * STAGE_PAWN + 4 * STAGE_KNIGHT + 4 * STAGE_BISHOP + 4 * STAGE_ROOK + 2 * STAGE_QUEEN"

definition STAGES :: "u32 list" where
  "STAGES = [0, STAGE_PAWN, 0, STAGE_KNIGHT, STAGE_BISHOP, STAGE_ROOK, STAGE_QUEEN, 0,
     0, STAGE_PAWN, 0, STAGE_KNIGHT, STAGE_BISHOP, STAGE_ROOK, STAGE_QUEEN]"

definition KING_ZONE_COST1 :: int where "KING_ZONE_COST1 = 5"
definition KING_ZONE_COST2 :: int where "KING_ZONE_COST2 = 4"
definition KING_ZONE_COST3 :: int where "KING_ZONE_COST3 = 1"

section \<open>Weights\<close>

text \<open>\<open>WEIGHT_VALUES\<close> is the vector of the weights, each an \<^verbatim>\<open>int16_t\<close>; \<open>wv\<close> stands for it below.\<close>

definition number1 :: "int list \<Rightarrow> nat \<Rightarrow> score" where
  "number1 wv n = to_i16 (wv ! n)"

definition number2 :: "int list \<Rightarrow> nat \<Rightarrow> nat \<Rightarrow> score" where
  "number2 wv n1 n2 = to_i16 (wv ! n1 + wv ! n2)"

definition negNumber2 :: "int list \<Rightarrow> nat \<Rightarrow> nat \<Rightarrow> score" where
  "negNumber2 wv n1 n2 = to_i16 (- (wv ! n1 + wv ! n2))"

text \<open>The cost of a piece on square \<open>i\<close>, seen from white: \<^verbatim>\<open>Pair::from\<close> of the numbers \<open>psqFromBundle\<close> prints.\<close>

definition psq_cost :: "int list \<Rightarrow> psq_bundle \<Rightarrow> color \<Rightarrow> piece \<Rightarrow> coord \<Rightarrow> score_pair" where
  "psq_cost wv p color piece i =
     (let num2 = (if color = White then number2 wv else negNumber2 wv);
          pieceIdx = nat (pieceVal piece);
          pieceFeat = fn_offset (ab_name (pb_pieceCosts p)) + pieceIdx;
          cellFeat = fn_offset (ab_name (pb_tables p ! pieceIdx)) + nat i
      in if piece = King
         then let kingFeat = fn_offset (ab_name (pb_endKingTable p)) + nat i
              in pair_from (num2 pieceFeat cellFeat) (num2 pieceFeat kingFeat)
         else pair_from (num2 pieceFeat cellFeat) (num2 pieceFeat cellFeat))"

definition set_cost :: "int list \<Rightarrow> psq_bundle \<Rightarrow> piece \<times> color \<times> coord \<Rightarrow> score_pair list list \<Rightarrow> score_pair list list" where
  "set_cost wv p x data = (case x of (piece, color, i) \<Rightarrow>
     let pos = (if color = White then i else coordFlipX i); cell = nat (makeCell color piece)
     in data[cell := (data ! cell)[nat pos := psq_cost wv p color piece i]])"

definition psq_data :: "int list \<Rightarrow> psq_bundle \<Rightarrow> score_pair list list" where
  "psq_data wv p = fold (set_cost wv p)
     [(piece, color, i). piece \<leftarrow> [Pawn, King, Knight, Bishop, Rook, Queen], color \<leftarrow> [White, Black], i \<leftarrow> [0..63]]
     (replicate 16 (replicate 64 (pair_from 0 0)))"

definition castling_cost :: "score_pair list list \<Rightarrow> subcoord \<Rightarrow> subcoord \<Rightarrow> subcoord \<Rightarrow> color \<Rightarrow> score_pair" where
  "castling_cost data kingTo rookTo rookFrom color =
     (let at = (\<lambda>piece y. data ! nat (makeCell White piece) ! nat (makeCoord 7 y));
          white = pair_sub (pair_add (pair_sub (at King kingTo) (at King 4)) (at Rook rookTo)) (at Rook rookFrom)
      in if color = White then white else pair_neg white)"

definition kingsideCastling_cost :: "score_pair list list \<Rightarrow> color \<Rightarrow> score_pair" where
  "kingsideCastling_cost data color = castling_cost data 6 5 7 color"

definition queensideCastling_cost :: "score_pair list list \<Rightarrow> color \<Rightarrow> score_pair" where
  "queensideCastling_cost data color = castling_cost data 2 3 0 color"

definition applyInv :: "bool \<Rightarrow> nat \<Rightarrow> nat" where
  "applyInv inverted x = (if inverted then drop_bit 2 (x AND 4) OR (x AND 2) OR push_bit 2 (x AND 1) else x)"

fun sum_pairs :: "int list \<Rightarrow> nat list \<Rightarrow> int" where
  "sum_pairs wv [] = 0"
| "sum_pairs wv [n] = number1 wv n"
| "sum_pairs wv (n1 # n2 # ns) = number2 wv n1 n2 + sum_pairs wv ns"

definition maskToWeightSum :: "int list \<Rightarrow> nat \<Rightarrow> nat \<Rightarrow> nat \<Rightarrow> score_pair" where
  "maskToWeightSum wv msk cnt off =
     (let offsets = map (\<lambda>idx. off + idx) (filter (\<lambda>idx. drop_bit idx msk AND 1 \<noteq> 0) [0..<cnt])
      in pair_from (to_i16 (sum_pairs wv offsets)) 0)"

definition king_pawn_table :: "int list \<Rightarrow> array_bundle \<Rightarrow> bool \<Rightarrow> nat \<Rightarrow> nat \<Rightarrow> score_pair" where
  "king_pawn_table wv a inverted mask1 mask2 =
     maskToWeightSum wv (applyInv inverted mask1 OR push_bit 3 (applyInv inverted mask2)) 6 (fn_offset (ab_name a))"

definition formatName :: "feature_name \<Rightarrow> string" where
  "formatName nm = replace (asciiToUpper_string (fn_name nm)) CHR ''.'' CHR ''_''"

text \<open>The members of \<^verbatim>\<open>Weights<score_t>\<close> that the evaluator names. Without one of them it does not compile.\<close>

record score_weights =
  PSQ :: "score_pair list list"
  KING_PAWN_SHIELD :: "bool \<Rightarrow> nat \<Rightarrow> nat \<Rightarrow> score_pair"
  KING_PAWN_STORM :: "bool \<Rightarrow> nat \<Rightarrow> nat \<Rightarrow> score_pair"
  weight_item :: "string \<Rightarrow> score"

definition ITEM_NAMES :: "string list" where
  "ITEM_NAMES = [''QUEEN_NEAR_TO_KING'', ''ROOK_NEAR_TO_KING'', ''TWO_BISHOPS'', ''PAWN_ISOLATED'', ''PAWN_DOUBLE'',
     ''PAWN_PASSED'', ''PAWN_CANDIDATE'', ''PAWN_OPEN'', ''PAWN_PROTECTED'', ''PAWN_BACKWARD'', ''ROOK_OPEN_COL'',
     ''ROOK_SEMI_OPEN_COL'', ''QUEEN_OPEN_COL'', ''QUEEN_SEMI_OPEN_COL'']"

definition find_bundle :: "features \<Rightarrow> string \<Rightarrow> feature_bundle option" where
  "find_bundle f nm = find (\<lambda>b. formatName (bundle_name b) = nm) (ft_bundles f)"

definition single_item :: "int list \<Rightarrow> features \<Rightarrow> string \<Rightarrow> score option" where
  "single_item wv f nm = (case find_bundle f nm of Some (SingleBundle s) \<Rightarrow> Some (number1 wv (fn_offset (sb_name s))) | _ \<Rightarrow> None)"

definition fillWeights :: "features \<Rightarrow> score_weights option" where
  "fillWeights f =
     (let wv = features_extract f
      in case (find_bundle f ''PSQ'', find_bundle f ''KING_PAWN'') of
           (Some (PsqBundle p), Some (KingPawnBundle k)) \<Rightarrow>
             if list_all (\<lambda>nm. single_item wv f nm \<noteq> None) ITEM_NAMES
             then Some \<lparr>PSQ = psq_data wv p, KING_PAWN_SHIELD = king_pawn_table wv (kb_shield k),
               KING_PAWN_STORM = king_pawn_table wv (kb_storm k), weight_item = (\<lambda>nm. the (single_item wv f nm))\<rparr>
             else None
         | _ \<Rightarrow> None)"

end
