(* ===== verification/Evaluate.thy ===== *)
theory Evaluate
  imports Eval_Tables Move
begin

unbundle bit_operations_syntax

text \<open>
  The evaluator for the score type \<^verbatim>\<open>score_t\<close> (\<^verbatim>\<open>src/src/eval/evaluate.h\<close>, \<^verbatim>\<open>evaluate.cpp\<close>), with its
  tag, which is updated move by move, and its pawn cache (\<^verbatim>\<open>src/src/eval/private/cache.h\<close>).
\<close>

section \<open>Tags\<close>

record eval_tag =
  tag_psqCost :: score_pair
  tag_stage :: u32

definition psq_at :: "score_weights \<Rightarrow> cell \<Rightarrow> coord \<Rightarrow> score_pair" where
  "psq_at w c i = PSQ w ! nat c ! nat i"

definition stage_of :: "cell \<Rightarrow> u32" where
  "stage_of c = STAGES ! nat c"

definition PSQ_KINGSIDE_UPD :: "score_weights \<Rightarrow> color \<Rightarrow> score_pair" where
  "PSQ_KINGSIDE_UPD w c = kingsideCastling_cost (PSQ w) c"

definition PSQ_QUEENSIDE_UPD :: "score_weights \<Rightarrow> color \<Rightarrow> score_pair" where
  "PSQ_QUEENSIDE_UPD w c = queensideCastling_cost (PSQ w) c"

definition tag_from :: "score_weights \<Rightarrow> board \<Rightarrow> eval_tag" where
  "tag_from w b =
     (let (psq, stage) = foldl (\<lambda>(psq, stage) i. (pair_add psq (psq_at w (cellAt b i) i), stage + stage_of (cellAt b i)))
            (pair_from 0 0, 0) [0..63]
      in \<lparr>tag_psqCost = psq, tag_stage = stage\<rparr>)"

definition tag_updated :: "score_weights \<Rightarrow> eval_tag \<Rightarrow> board \<Rightarrow> move \<Rightarrow> eval_tag" where
  "tag_updated w tg b m =
     (if kind m = Null then tg
      else let color = side b
      in if kind m = CastlingKingside then tg\<lparr>tag_psqCost := pair_add (tag_psqCost tg) (PSQ_KINGSIDE_UPD w color)\<rparr>
      else if kind m = CastlingQueenside then tg\<lparr>tag_psqCost := pair_add (tag_psqCost tg) (PSQ_QUEENSIDE_UPD w color)\<rparr>
      else let srcCell = cellAt b (src m); dstCell = cellAt b (dst m);
               psq1 = pair_sub (tag_psqCost tg) (pair_add (psq_at w srcCell (src m)) (psq_at w dstCell (dst m)));
               stage1 = tag_stage tg - stage_of dstCell
      in if isMoveKindPromote (kind m)
         then let promoteCell = makeCell color (moveKindPromotePiece (kind m))
              in \<lparr>tag_psqCost = pair_add psq1 (psq_at w promoteCell (dst m)),
                  tag_stage = stage1 + (stage_of promoteCell - STAGE_PAWN)\<rparr>
         else let psq2 = pair_add psq1 (psq_at w srcCell (dst m))
              in if kind m = Enpassant
                 then let pawnPos = enpassantPawnPos color (dst m); enemyPawn = makeCell (invert color) Pawn
                      in \<lparr>tag_psqCost = pair_sub psq2 (psq_at w enemyPawn pawnPos), tag_stage = stage1 - STAGE_PAWN\<rparr>
                 else \<lparr>tag_psqCost = psq2, tag_stage = stage1\<rparr>)"

definition tag_isValid :: "score_weights \<Rightarrow> eval_tag \<Rightarrow> board \<Rightarrow> bool" where
  "tag_isValid w tg b \<longleftrightarrow> (let other = tag_from w b in tag_psqCost tg = tag_psqCost other \<and> tag_stage tg = tag_stage other)"

section \<open>The pawn cache\<close>

record pawn_value =
  pv_openCols :: u8
  pv_whiteOnlyCols :: u8
  pv_blackOnlyCols :: u8
  pv_flags :: u8
  pv_score :: score

definition PV_FLAG_IS_VALID :: u8 where "PV_FLAG_IS_VALID = 1"

definition pv_isValid :: "pawn_value \<Rightarrow> bool" where
  "pv_isValid v \<longleftrightarrow> pv_flags v AND PV_FLAG_IS_VALID \<noteq> 0"

definition pv_invalid :: pawn_value where
  "pv_invalid = \<lparr>pv_openCols = 0, pv_whiteOnlyCols = 0, pv_blackOnlyCols = 0, pv_flags = 0, pv_score = 0\<rparr>"

definition pv_from :: "u8 \<Rightarrow> u8 \<Rightarrow> u8 \<Rightarrow> score \<Rightarrow> pawn_value" where
  "pv_from bbOpenCols bbWhiteOnlyCols bbBlackOnlyCols sc =
     \<lparr>pv_openCols = bbOpenCols, pv_whiteOnlyCols = bbWhiteOnlyCols, pv_blackOnlyCols = bbBlackOnlyCols,
      pv_flags = PV_FLAG_IS_VALID, pv_score = sc\<rparr>"

text \<open>The cache: keys and values, as many as a power of two (2 to the 18 in the program).\<close>

type_synonym pawn_cache = "(u64 \<times> pawn_value) list"

definition PAWN_CACHE_SIZE :: nat where "PAWN_CACHE_SIZE = 2 ^ 18"

definition newPawnCache :: "nat \<Rightarrow> pawn_cache" where
  "newPawnCache n = replicate n (0, pv_invalid)"

definition indexFromKey :: "nat \<Rightarrow> u64 \<Rightarrow> nat" where
  "indexFromKey n key = unat (key AND (of_nat n - 1))"

definition cache_get :: "pawn_cache \<Rightarrow> u64 \<Rightarrow> pawn_value \<Rightarrow> pawn_value \<times> pawn_cache" where
  "cache_get entries key computed =
     (let index = indexFromKey (length entries) key; (ekey, evalue) = entries ! index
      in if ekey = key \<and> pv_isValid evalue then (evalue, entries)
         else (computed, entries[index := (key, computed)]))"

section \<open>Hash of the pawns\<close>

definition HASH_K2 :: u64 where "HASH_K2 = 0x9ae16a3b2f90404f"

definition hashFinalize :: "u64 \<Rightarrow> u64 \<Rightarrow> u64 \<Rightarrow> u64" where
  "hashFinalize u v mul =
     (let a0 = (u XOR v) * mul; a = a0 XOR drop_bit 47 a0; b0 = (v XOR a) * mul; b = b0 XOR drop_bit 47 b0 in b * mul)"

definition hash16 :: "u64 \<Rightarrow> u64 \<Rightarrow> u64" where
  "hash16 v0 v1 =
     (let len = 16; mul = HASH_K2 + len * 2; a = v0 + HASH_K2; b = v1; c = rotateRight b 37 * mul + a;
          d = (rotateRight a 25 + b) * mul
      in hashFinalize c d mul)"

definition calcPawnHash :: "board \<Rightarrow> u64" where
  "calcPawnHash b = hash16 (pieceBB b (makeCell White Pawn)) (pieceBB b (makeCell Black Pawn))"

section \<open>The parts of the evaluation\<close>

definition calcStage :: "eval_tag \<Rightarrow> int" where
  "calcStage tg =
     (let rawStage = sint (((push_bit COEF_UNIT_SHIFT (tag_stage tg) + drop_bit 1 STAGE_TOTAL) div STAGE_TOTAL) :: u32)
      in min rawStage COEF_UNIT)"

definition mix_pair :: "int \<Rightarrow> score_pair \<Rightarrow> score" where
  "mix_pair stage pair =
     to_i16 (drop_bit COEF_UNIT_SHIFT (pair_first pair * stage + pair_second pair * (COEF_UNIT - stage)))"

definition addWithCoef :: "score \<Rightarrow> score \<Rightarrow> int \<Rightarrow> score" where
  "addWithCoef result weight coef = to_i16 (result + to_i16 (weight * coef))"

text \<open>The counters of the loop over the pawns of one side.\<close>

record pawn_counts =
  pc_isolated :: int
  pc_double :: int
  pc_passed :: int
  pc_open :: int
  pc_candidate :: int
  pc_frontspans :: bitboard

definition count_pawn :: "color \<Rightarrow> bitboard \<Rightarrow> bitboard \<Rightarrow> bitboard \<Rightarrow> bitboard \<Rightarrow> bitboard \<Rightarrow> pawn_counts \<Rightarrow> coord \<Rightarrow> pawn_counts" where
  "count_pawn c bbPawns bbEnemyPawns bbAllPawns bbAttacks bbEnemyAttacks k0 s =
     (let k1 = (if bbPawns AND BB_ISOLATED_PAWN s = 0 then k0\<lparr>pc_isolated := pc_isolated k0 + 1\<rparr> else k0);
          k2 = (if bbPawns AND BB_DOUBLE_PAWN s \<noteq> 0 then k1\<lparr>pc_double := pc_double k1 + 1\<rparr> else k1);
          k3 = (if bbAllPawns AND BB_OPEN_PAWN c s = 0
                then let k = k2\<lparr>pc_open := pc_open k2 + 1\<rparr>
                     in if bbEnemyPawns AND BB_PASSED_PAWN c s = 0 then k\<lparr>pc_passed := pc_passed k + 1\<rparr>
                        else if bbEnemyAttacks AND NOT bbAttacks AND BB_OPEN_PAWN c s = 0
                        then k\<lparr>pc_candidate := pc_candidate k + 1\<rparr> else k
                else k2)
      in k3\<lparr>pc_frontspans := pc_frontspans k3 OR BB_ATTACK_FRONTSPANS c s\<rparr>)"

definition pawnAttacksOf :: "color \<Rightarrow> bitboard \<Rightarrow> bitboard" where
  "pawnAttacksOf c bb = advancePawnLeft c bb OR advancePawnRight c bb"

definition count_pawns :: "color \<Rightarrow> bitboard \<Rightarrow> bitboard \<Rightarrow> pawn_counts" where
  "count_pawns c bbPawns bbEnemyPawns =
     foldl (count_pawn c bbPawns bbEnemyPawns (bbPawns OR bbEnemyPawns) (pawnAttacksOf c bbPawns) (pawnAttacksOf (invert c) bbEnemyPawns))
       \<lparr>pc_isolated = 0, pc_double = 0, pc_passed = 0, pc_open = 0, pc_candidate = 0, pc_frontspans = 0\<rparr> (bbList bbPawns)"

definition doEvalPawns :: "score_weights \<Rightarrow> color \<Rightarrow> bitboard \<Rightarrow> bitboard \<Rightarrow> score" where
  "doEvalPawns w c bbPawns bbEnemyPawns =
     (let bbAttacks = pawnAttacksOf c bbPawns; bbEnemyAttacks = pawnAttacksOf (invert c) bbEnemyPawns;
          k = count_pawns c bbPawns bbEnemyPawns; openPawns = pc_open k - pc_candidate k - pc_passed k;
          protectedPawns = int (popcount (bbPawns AND bbAttacks));
          backwardPawns = int (popcount (advancePawnForward c bbPawns AND bbEnemyAttacks AND NOT (pc_frontspans k)));
          r1 = addWithCoef 0 (weight_item w ''PAWN_ISOLATED'') (pc_isolated k);
          r2 = addWithCoef r1 (weight_item w ''PAWN_DOUBLE'') (pc_double k);
          r3 = addWithCoef r2 (weight_item w ''PAWN_PASSED'') (pc_passed k);
          r4 = addWithCoef r3 (weight_item w ''PAWN_OPEN'') openPawns;
          r5 = addWithCoef r4 (weight_item w ''PAWN_CANDIDATE'') (pc_candidate k);
          r6 = addWithCoef r5 (weight_item w ''PAWN_PROTECTED'') protectedPawns
      in addWithCoef r6 (weight_item w ''PAWN_BACKWARD'') backwardPawns)"

definition evalPawns :: "score_weights \<Rightarrow> board \<Rightarrow> pawn_value" where
  "evalPawns w b =
     (let bbWhitePawns = pieceBB b (makeCell White Pawn); bbBlackPawns = pieceBB b (makeCell Black Pawn);
          sc = to_i16 (doEvalPawns w White bbWhitePawns bbBlackPawns - doEvalPawns w Black bbBlackPawns bbWhitePawns);
          bbWhiteCols = byteGather bbWhitePawns; bbBlackCols = byteGather bbBlackPawns
      in pv_from (NOT bbWhiteCols AND NOT bbBlackCols) (bbWhiteCols AND NOT bbBlackCols) (NOT bbWhiteCols AND bbBlackCols) sc)"

definition nearCount :: "coord \<Rightarrow> bitboard \<Rightarrow> int" where
  "nearCount kingpos bb =
     (let countAtDistance = (\<lambda>dist. int (popcount (BB_KING_METRIC_RING kingpos dist AND bb)))
      in KING_ZONE_COST1 * countAtDistance 1 + KING_ZONE_COST2 * countAtDistance 2 + KING_ZONE_COST3 * countAtDistance 3)"

definition evalKingSafety :: "score_weights \<Rightarrow> int \<Rightarrow> board \<Rightarrow> color \<Rightarrow> score" where
  "evalKingSafety w stage b c =
     (let bbKing = pieceBB b (makeCell c King); kingpos = int (getLowest bbKing);
          r1 = addWithCoef 0 (weight_item w ''QUEEN_NEAR_TO_KING'') (nearCount kingpos (pieceBB b (makeCell (invert c) Queen)));
          r2 = addWithCoef r1 (weight_item w ''ROOK_NEAR_TO_KING'') (nearCount kingpos (pieceBB b (makeCell (invert c) Rook)))
      in if bbKing AND BB_SHIELDED_KING c \<noteq> 0
         then let bbPawns = pieceBB b (makeCell c Pawn); bbEnemyPawns = pieceBB b (makeCell (invert c) Pawn);
                  kingY = nat (coordY kingpos);
                  shift1 = (if c = White then kingY + 47 else kingY + 7);
                  shift2 = (if c = White then kingY + 39 else kingY + 15);
                  shift3 = (if c = White then kingY + 31 else kingY + 23);
                  row1 = BB_ROW ! (if c = White then 6 else 1);
                  row2 = BB_ROW ! (if c = White then 5 else 2);
                  row3 = BB_ROW ! (if c = White then 4 else 3);
                  shieldMask1 = unat (drop_bit shift1 (bbPawns AND row1) AND 7);
                  shieldMask2 = unat (drop_bit shift2 (bbPawns AND row2) AND 7);
                  stormMask2 = unat (drop_bit shift2 (bbEnemyPawns AND row2) AND 7);
                  stormMask3 = unat (drop_bit shift3 (bbEnemyPawns AND row3) AND 7);
                  inverted = (kingY \<ge> 4);
                  kingPawnResult = pair_add (KING_PAWN_SHIELD w inverted shieldMask1 shieldMask2)
                    (KING_PAWN_STORM w inverted stormMask2 stormMask3)
              in to_i16 (r2 + mix_pair stage kingPawnResult)
         else r2)"

definition evalMaterial :: "score_weights \<Rightarrow> board \<Rightarrow> color \<Rightarrow> score" where
  "evalMaterial w b c =
     (if popcount (pieceBB b (makeCell c Bishop)) \<ge> 2 then to_i16 (0 + weight_item w ''TWO_BISHOPS'') else 0)"

definition evalOpenLines :: "score_weights \<Rightarrow> board \<Rightarrow> color \<Rightarrow> pawn_value \<Rightarrow> score" where
  "evalOpenLines w b c pawnValue =
     (let bbOpenCols = byteScatter (pv_openCols pawnValue);
          bbSemiOpenCols = byteScatter (if c = White then pv_blackOnlyCols pawnValue else pv_whiteOnlyCols pawnValue);
          bbRooks = pieceBB b (makeCell c Rook); bbQueens = pieceBB b (makeCell c Queen);
          r1 = addWithCoef 0 (weight_item w ''ROOK_OPEN_COL'') (int (popcount (bbOpenCols AND bbRooks)));
          r2 = addWithCoef r1 (weight_item w ''ROOK_SEMI_OPEN_COL'') (int (popcount (bbSemiOpenCols AND bbRooks)));
          r3 = addWithCoef r2 (weight_item w ''QUEEN_OPEN_COL'') (int (popcount (bbOpenCols AND bbQueens)))
      in addWithCoef r3 (weight_item w ''QUEEN_SEMI_OPEN_COL'') (int (popcount (bbSemiOpenCols AND bbQueens))))"

section \<open>The evaluation\<close>

definition evalForWhite :: "score_weights \<Rightarrow> pawn_cache \<Rightarrow> board \<Rightarrow> eval_tag \<Rightarrow> score \<times> pawn_cache" where
  "evalForWhite w pawnCache b tg =
     (let stage = calcStage tg; r1 = mix_pair stage (tag_psqCost tg); pawnHash = calcPawnHash b;
          r2 = to_i16 (r1 + (evalKingSafety w stage b White - evalKingSafety w stage b Black));
          r3 = to_i16 (r2 + (evalMaterial w b White - evalMaterial w b Black));
          (pawnValue, pawnCache') = cache_get pawnCache pawnHash (evalPawns w b);
          r4 = to_i16 (r3 + pv_score pawnValue)
      in (to_i16 (r4 + (evalOpenLines w b White pawnValue - evalOpenLines w b Black pawnValue)), pawnCache'))"

definition applyColor :: "score \<Rightarrow> color \<Rightarrow> score" where
  "applyColor result c = (if c = White then result else to_i16 (- result))"

definition evalForCur :: "score_weights \<Rightarrow> pawn_cache \<Rightarrow> board \<Rightarrow> eval_tag \<Rightarrow> score \<times> pawn_cache" where
  "evalForCur w pawnCache b tg = (case evalForWhite w pawnCache b tg of (r, pawnCache') \<Rightarrow> (applyColor r (side b), pawnCache'))"

definition evalMaterialForWhite :: "eval_tag \<Rightarrow> score" where
  "evalMaterialForWhite tg = pair_first (tag_psqCost tg)"

definition evalMaterialForCur :: "board \<Rightarrow> eval_tag \<Rightarrow> score" where
  "evalMaterialForCur b tg = applyColor (evalMaterialForWhite tg) (side b)"

end
