(* ===== verification/Eval_Lemmas.thy ===== *)
theory Eval_Lemmas
  imports Evaluate Feature_Lemmas Playable
begin

text \<open>The tag as a sum over the squares, the piece-square table the generator fills, and the pawn cache.\<close>

section \<open>Sums over the board\<close>

definition board_sum :: "(cell \<Rightarrow> coord \<Rightarrow> 'a::ab_group_add) \<Rightarrow> cell list \<Rightarrow> 'a" where
  "board_sum f cs = sum_list (map (\<lambda>i. f (cs ! nat i) i) [0..63])"

lemma sum_list_update:
  fixes g h :: "'b \<Rightarrow> 'a::ab_group_add"
  assumes "distinct xs" "x \<in> set xs" "\<And>y. y \<noteq> x \<Longrightarrow> h y = g y"
  shows "sum_list (map h xs) = sum_list (map g xs) - g x + h x"
  using assms
proof (induction xs)
  case (Cons y xs)
  show ?case
  proof (cases "y = x")
    case True
    then have "h z = g z" if "z \<in> set xs" for z using Cons.prems(1,3) that by (metis distinct.simps(2))
    then have m: "sum_list (map h xs) = sum_list (map g xs)" by (metis map_cong)
    show ?thesis by (simp add: True m)
  qed (use Cons in \<open>auto simp: algebra_simps\<close>)
qed simp

lemma board_sum_upd:
  assumes "isCoord c" "length cs = 64"
  shows "board_sum f (cs[nat c := v]) = board_sum f cs - f (cs ! nat c) c + f v c"
proof -
  have c: "c \<in> set [0..63]" "nat c < length cs" using assms by (auto simp: isCoord_def)
  have "sum_list (map (\<lambda>i. f (cs[nat c := v] ! nat i) i) [0..63]) =
      sum_list (map (\<lambda>i. if i \<in> set [0..63] then f (cs[nat c := v] ! nat i) i else f (cs ! nat i) i) [0..63])"
    by (intro arg_cong [where f = sum_list] map_cong) simp_all
  also have "\<dots> = sum_list (map (\<lambda>i. f (cs ! nat i) i) [0..63]) - f (cs ! nat c) c +
      (if c \<in> set [0..63] then f (cs[nat c := v] ! nat c) c else f (cs ! nat c) c)"
    using c by (intro sum_list_update) (auto simp: nth_list_update)
  finally show ?thesis using c by (simp add: board_sum_def)
qed

lemma board_sum_four:
  assumes "isCoord c1" "isCoord c2" "isCoord c3" "isCoord c4" "distinct [c1, c2, c3, c4]" "length cs = 64"
  shows "board_sum f (cs[nat c1 := v1, nat c2 := v2, nat c3 := v3, nat c4 := v4]) = board_sum f cs
    - f (cs ! nat c1) c1 + f v1 c1 - f (cs ! nat c2) c2 + f v2 c2 - f (cs ! nat c3) c3 + f v3 c3 - f (cs ! nat c4) c4 + f v4 c4"
  using assms by (simp add: board_sum_upd nat_coord_eq)

lemma foldl_pair_sum:
  fixes g :: "'b \<Rightarrow> 'a::comm_monoid_add" and h :: "'b \<Rightarrow> 'c::comm_monoid_add"
  shows "foldl (\<lambda>(p, s) i. (p + g i, s + h i)) (p0, s0) xs = (p0 + sum_list (map g xs), s0 + sum_list (map h xs))"
  by (induction xs arbitrary: p0 s0) (simp_all add: add.assoc)

lemma pair_from_0: "pair_from 0 0 = 0"
  by (simp add: pair_from_def)

lemmas pair_ops = pair_add_def pair_sub_def pair_neg_def

lemma tag_from_sum:
  "tag_from w b = \<lparr>tag_psqCost = board_sum (psq_at w) (cells b), tag_stage = board_sum (\<lambda>c i. stage_of c) (cells b)\<rparr>"
  unfolding tag_from_def pair_ops pair_from_0 foldl_pair_sum board_sum_def cellAt_def by simp

section \<open>The tag of the next position\<close>

definition weights_ok :: "score_weights \<Rightarrow> bool" where
  "weights_ok w \<longleftrightarrow> (\<forall>i. isCoord i \<longrightarrow> psq_at w EMPTY_CELL i = 0) \<and>
     (\<forall>C. let k = castlingOffset C; K = psq_at w (makeCell C King); R = psq_at w (makeCell C Rook) in
        PSQ_KINGSIDE_UPD w C = K (k + 6) - K (k + 4) + R (k + 5) - R (k + 7) \<and>
        PSQ_QUEENSIDE_UPD w C = K (k + 2) - K (k + 4) + R (k + 3) - R k)"

lemma stage_values [simp]:
  "stage_of EMPTY_CELL = 0" "stage_of (makeCell C Pawn) = STAGE_PAWN" "stage_of (makeCell C King) = 0"
  by (cases C; simp add: stage_of_def STAGES_def EMPTY_CELL_def)+

lemma tag_updated_next:
  assumes w: "weights_ok w" and p: "position_ok b" and m: "pseudo_legal b m"
  shows "tag_updated w (tag_from w b) b m = tag_from w (fst (moveMake z b m))"
proof -
  let ?C = "side b" and ?s = "src m" and ?d = "dst m"
  note mk = pseudo_makeable [OF p m]
  have len: "length (cells b) = 64" using p by (simp add: position_ok_def board_shape_def)
  have c: "isCoord ?s" "isCoord ?d" using mk by (simp_all add: makeable_def Let_def)
  have co: "isCoord (castlingOffset ?C + n)" if "0 \<le> n" "n < 8" for n
    using that by (cases ?C) (simp_all add: isCoord_def castlingOffset_def castlingRow_def)
  note wc = w [unfolded weights_ok_def Let_def]
  have e: "psq_at w EMPTY_CELL i = 0" if "isCoord i" for i using w that by (simp add: weights_ok_def)
  have two: "board_sum f ((cells b)[nat ?s := EMPTY_CELL, nat ?d := v]) =
      board_sum f (cells b) - (f (cellAt b ?s) ?s + f (cellAt b ?d) ?d) + f EMPTY_CELL ?s + f v ?d"
    if "?s \<noteq> ?d" for v and f :: "cell \<Rightarrow> coord \<Rightarrow> u32"
  proof -
    have "board_sum f ((cells b)[nat ?s := EMPTY_CELL, nat ?d := v]) =
        board_sum f (cells b) - f (cellAt b ?s) ?s + f EMPTY_CELL ?s - f (cellAt b ?d) ?d + f v ?d"
      using len c that by (simp add: board_sum_upd cellAt_def nat_coord_eq)
    then show ?thesis by (simp add: algebra_simps)
  qed
  have goal: ?thesis
    if "board_sum (psq_at w) (move_cells b m) = tag_psqCost (tag_updated w (tag_from w b) b m)"
      "board_sum (\<lambda>c i. stage_of c) (move_cells b m) = tag_stage (tag_updated w (tag_from w b) b m)"
    using that by (cases "tag_updated w (tag_from w b) b m") (simp add: tag_from_sum cells_moveMake)
  show ?thesis
  proof (cases "kind m = Simple \<or> kind m = PawnDoubleMove \<or> isMoveKindPromote (kind m)")
    case True
    then have ne: "?s \<noteq> ?d" using pseudo_single [OF p m] by metis
    have src_pawn: "cellAt b ?s = makeCell ?C Pawn" if "kind m \<noteq> Simple" using m that True
      by (auto simp: pseudo_legal_def Let_def isMoveKindPromote_def simp del: makeCell_values)
    show ?thesis
    proof (cases "isMoveKindPromote (kind m)")
      case pr: True
      have k: "kind m \<noteq> Null" "kind m \<noteq> CastlingKingside" "kind m \<noteq> CastlingQueenside" "kind m \<noteq> Simple"
        using pr by (auto simp: isMoveKindPromote_def)
      have mc: "move_cells b m = (cells b)[nat ?s := EMPTY_CELL, nat ?d := makeCell ?C (moveKindPromotePiece (kind m))]"
        using pr by (auto simp: move_cells_def Let_def isMoveKindPromote_def simp del: makeCell_values)
      show ?thesis
        using k pr two [OF ne] src_pawn e c
        by (intro goal) (simp_all add: mc tag_updated_def Let_def tag_from_sum pair_ops STAGE_PAWN_def del: makeCell_values)
    next
      case False
      have k: "kind m = Simple \<or> kind m = PawnDoubleMove" using False True by blast
      have mc: "move_cells b m = (cells b)[nat ?s := EMPTY_CELL, nat ?d := cellAt b ?s]"
        using k src_pawn by (auto simp: move_cells_def Let_def simp del: makeCell_values)
      show ?thesis
        using k False two [OF ne] e c
        by (intro goal) (auto simp: mc tag_updated_def Let_def tag_from_sum pair_ops simp del: makeCell_values)
    qed
  next
    case False
    then consider (enpassant) "kind m = Enpassant" | (king) "kind m = CastlingKingside" | (queen) "kind m = CastlingQueenside"
      using m by (cases "kind m") (auto simp: pseudo_legal_def Let_def isMoveKindPromote_def)
    then show ?thesis
    proof cases
      case enpassant
      let ?e = "enpassantPawnPos ?C ?d"
      note x = enpassant_cells [OF p m enpassant]
      have d: "?s \<noteq> ?d" "?e \<noteq> ?d" "?s \<noteq> ?e" using x(1,2,4) by (auto simp del: makeCell_values)
      have mc: "move_cells b m = ((cells b)[nat ?s := EMPTY_CELL, nat ?d := makeCell ?C Pawn])[nat ?e := EMPTY_CELL]"
        using enpassant by (simp add: move_cells_def Let_def)
      have at: "(cells b)[nat ?s := EMPTY_CELL, nat ?d := makeCell ?C Pawn] ! nat ?e = makeCell (invert ?C) Pawn"
        using x(3,4) d len c by (simp add: cellAt_def nat_coord_eq)
      have three: "board_sum f (move_cells b m) =
          board_sum f (cells b) - (f (cellAt b ?s) ?s + f (cellAt b ?d) ?d) + f EMPTY_CELL ?s + f (makeCell ?C Pawn) ?d
            - f (makeCell (invert ?C) Pawn) ?e + f EMPTY_CELL ?e" for f :: "cell \<Rightarrow> coord \<Rightarrow> u32"
        unfolding mc using board_sum_upd [OF x(3), of "(cells b)[nat ?s := EMPTY_CELL, nat ?d := makeCell ?C Pawn]" f EMPTY_CELL]
          two [OF d(1), of f "makeCell ?C Pawn"] at len by simp
      have np: "\<not> isMoveKindPromote (kind m)" using enpassant by (simp add: isMoveKindPromote_def)
      show ?thesis
        using enpassant np three x(1,2) e c x(3)
        by (intro goal) (simp_all add: tag_updated_def Let_def tag_from_sum pair_ops STAGE_PAWN_def del: makeCell_values)
    next
      case king
      let ?k = "castlingOffset ?C"
      have x: "isKingsideCastling b ?C" "cellAt b (?k + 5) = EMPTY_CELL" "cellAt b (?k + 6) = EMPTY_CELL"
        using mk king by (simp_all add: makeable_def Let_def)
      have y: "cellAt b (?k + 4) = makeCell ?C King" "cellAt b (?k + 7) = makeCell ?C Rook"
        using position_okD(4) [OF p] x(1) unfolding castling_ok_def by blast+
      have four: "board_sum f (move_cells b m) = board_sum f (cells b) - f (makeCell ?C King) (?k + 4) + f EMPTY_CELL (?k + 4)
          - f EMPTY_CELL (?k + 5) + f (makeCell ?C Rook) (?k + 5) - f EMPTY_CELL (?k + 6) + f (makeCell ?C King) (?k + 6)
          - f (makeCell ?C Rook) (?k + 7) + f EMPTY_CELL (?k + 7)" for f :: "cell \<Rightarrow> coord \<Rightarrow> u32"
        using board_sum_four [of "?k + 4" "?k + 5" "?k + 6" "?k + 7" "cells b" f] co len x y king
        by (simp add: move_cells_def Let_def cellAt_def)
      show ?thesis
        using king four e co wc
        by (intro goal) (simp_all add: tag_updated_def Let_def tag_from_sum pair_ops del: makeCell_values)
    next
      case queen
      let ?k = "castlingOffset ?C"
      have x: "isQueensideCastling b ?C" "cellAt b (?k + 2) = EMPTY_CELL" "cellAt b (?k + 3) = EMPTY_CELL"
        using mk queen by (simp_all add: makeable_def Let_def)
      have y: "cellAt b (?k + 4) = makeCell ?C King" "cellAt b ?k = makeCell ?C Rook"
        using position_okD(4) [OF p] x(1) unfolding castling_ok_def by blast+
      have four: "board_sum f (move_cells b m) = board_sum f (cells b) - f (makeCell ?C Rook) ?k + f EMPTY_CELL ?k
          - f EMPTY_CELL (?k + 2) + f (makeCell ?C King) (?k + 2) - f EMPTY_CELL (?k + 3) + f (makeCell ?C Rook) (?k + 3)
          - f (makeCell ?C King) (?k + 4) + f EMPTY_CELL (?k + 4)" for f :: "cell \<Rightarrow> coord \<Rightarrow> u32"
        using board_sum_four [of ?k "?k + 2" "?k + 3" "?k + 4" "cells b" f] co [of 0] co len x y queen
        by (simp add: move_cells_def Let_def cellAt_def)
      show ?thesis
        using queen four e co [of 0] co wc
        by (intro goal) (simp_all add: tag_updated_def Let_def tag_from_sum pair_ops del: makeCell_values)
    qed
  qed
qed

section \<open>The piece-square table of the generator\<close>

definition put2 :: "('x \<Rightarrow> nat \<times> nat) \<Rightarrow> ('x \<Rightarrow> 'v) \<Rightarrow> 'x \<Rightarrow> 'v list list \<Rightarrow> 'v list list" where
  "put2 tgt val x d = d[fst (tgt x) := (d ! fst (tgt x))[snd (tgt x) := val x]]"

definition table_shape :: "'v list list \<Rightarrow> nat \<Rightarrow> nat \<Rightarrow> bool" where
  "table_shape d n k \<longleftrightarrow> length d = n \<and> (\<forall>i < n. length (d ! i) = k)"

lemma put2_shape:
  assumes "table_shape d n k"
  shows "table_shape (put2 tgt val x d) n k"
proof -
  have "length (put2 tgt val x d ! i) = k" if "i < n" for i
    using assms that by (cases "fst (tgt x) = i") (simp_all add: table_shape_def put2_def)
  then show ?thesis using assms by (simp add: table_shape_def put2_def)
qed

lemma put2_nth:
  assumes "table_shape d n k" "fst (tgt x) < n" "snd (tgt x) < k" "i < n" "j < k"
  shows "put2 tgt val x d ! i ! j = (if tgt x = (i, j) then val x else d ! i ! j)"
  using assms by (auto simp: table_shape_def put2_def nth_list_update)

lemma fold_put2:
  "table_shape d n k \<Longrightarrow> (\<And>x. x \<in> set xs \<Longrightarrow> fst (tgt x) < n \<and> snd (tgt x) < k) \<Longrightarrow> inj_on tgt (set xs) \<Longrightarrow> distinct xs \<Longrightarrow>
   i < n \<Longrightarrow> j < k \<Longrightarrow>
   (\<forall>x \<in> set xs. tgt x = (i, j) \<longrightarrow> fold (put2 tgt val) xs d ! i ! j = val x) \<and>
   ((i, j) \<notin> tgt ` set xs \<longrightarrow> fold (put2 tgt val) xs d ! i ! j = d ! i ! j)"
proof (induction xs arbitrary: d)
  case (Cons x xs)
  let ?d = "put2 tgt val x d"
  have s: "table_shape ?d n k" by (rule put2_shape [OF Cons.prems(1)])
  have IH: "(\<forall>x \<in> set xs. tgt x = (i, j) \<longrightarrow> fold (put2 tgt val) xs ?d ! i ! j = val x) \<and>
      ((i, j) \<notin> tgt ` set xs \<longrightarrow> fold (put2 tgt val) xs ?d ! i ! j = ?d ! i ! j)"
    by (rule Cons.IH [OF s]) (use Cons.prems in \<open>auto simp: inj_on_def\<close>)
  have n: "?d ! i ! j = (if tgt x = (i, j) then val x else d ! i ! j)"
    by (rule put2_nth [OF Cons.prems(1)]) (use Cons.prems in auto)
  have "(i, j) \<notin> tgt ` set xs" if "tgt x = (i, j)"
    using that Cons.prems(3,4) by (auto simp: inj_on_def)
  then show ?case using IH n by auto
qed simp

definition psq_target :: "piece \<times> color \<times> coord \<Rightarrow> nat \<times> nat" where
  "psq_target x = (case x of (piece, color, i) \<Rightarrow> (nat (makeCell color piece), nat (if color = White then i else coordFlipX i)))"

lemma coordFlipX_coord: "isCoord i \<Longrightarrow> isCoord (coordFlipX i)" "coordFlipX (coordFlipX i) = i"
proof -
  have "list_all (\<lambda>i. isCoord (coordFlipX i)) [0..63]" by code_simp
  then show "isCoord i \<Longrightarrow> isCoord (coordFlipX i)" using list_all_coordD by blast
  show "coordFlipX (coordFlipX i) = i" by (simp add: coordFlipX_def xor.assoc)
qed

definition psq_triples :: "(piece \<times> color \<times> coord) list" where
  "psq_triples = [(piece, color, i). piece \<leftarrow> [Pawn, King, Knight, Bishop, Rook, Queen], color \<leftarrow> [White, Black], i \<leftarrow> [0..63]]"

lemma triples_product: "[(x, y, z). x \<leftarrow> xs, y \<leftarrow> ys, z \<leftarrow> zs] = List.product xs (List.product ys zs)"
  by (simp add: product_concat_map map_concat comp_def)

lemma psq_triples: "distinct psq_triples" "(piece, color, i) \<in> set psq_triples \<longleftrightarrow> isCoord i"
proof -
  show "distinct psq_triples"
    unfolding psq_triples_def triples_product by (intro distinct_product distinct_upto) simp_all
  show "(piece, color, i) \<in> set psq_triples \<longleftrightarrow> isCoord i"
    unfolding psq_triples_def triples_product set_product set_upto by (cases piece; cases color) (auto simp: isCoord_def)
qed

lemma psq_target_inj: "inj_on psq_target (set psq_triples)"
proof (rule inj_onI)
  fix x y :: "piece \<times> color \<times> coord"
  assume m: "x \<in> set psq_triples" "y \<in> set psq_triples" and e: "psq_target x = psq_target y"
  obtain p c i q d j where x: "x = (p, c, i)" "y = (q, d, j)" by (cases x; cases y) auto
  have i: "isCoord i" "isCoord j" using m by (simp_all only: x psq_triples(2))
  have "nat (makeCell c p) = nat (makeCell d q)" using e by (simp add: psq_target_def x)
  then have "makeCell c p = makeCell d q" using makeCell_range(1) [of c p] makeCell_range(1) [of d q] by (simp only: eq_nat_nat_iff)
  then have cp: "c = d" "p = q" by (simp_all only: makeCell_inject)
  then have "nat (if c = White then i else coordFlipX i) = nat (if c = White then j else coordFlipX j)" using e by (simp add: psq_target_def x)
  then have "(if c = White then i else coordFlipX i) = (if c = White then j else coordFlipX j)"
    using i coordFlipX_coord(1) [of i] coordFlipX_coord(1) [of j] by (cases "c = White") (simp_all add: isCoord_def eq_nat_nat_iff)
  then have "i = j" using coordFlipX_coord(2) [of i] coordFlipX_coord(2) [of j] by (metis (full_types))
  then show "x = y" by (simp add: x cp)
qed

lemma psq_data_fold: "psq_data wv p = fold (put2 psq_target (\<lambda>(piece, color, i). psq_cost wv p color piece i)) psq_triples
    (replicate 16 (replicate 64 0))"
proof -
  have "set_cost wv p = put2 psq_target (\<lambda>(piece, color, i). psq_cost wv p color piece i)"
    by (intro ext) (simp add: set_cost_def put2_def psq_target_def Let_def split: prod.split)
  then show ?thesis by (simp add: psq_data_def psq_triples_def pair_from_0)
qed

lemma psq_data_at:
  assumes "isCoord i"
  shows "psq_data wv p ! nat (makeCell C P) ! nat i = psq_cost wv p C P (if C = White then i else coordFlipX i)"
    "psq_data wv p ! nat EMPTY_CELL ! nat i = 0"
proof -
  let ?x = "(P, C, if C = White then i else coordFlipX i)"
  have sh: "table_shape (replicate 16 (replicate 64 (0 :: score_pair))) 16 64" by (simp add: table_shape_def)
  have bound: "fst (psq_target x) < 16 \<and> snd (psq_target x) < 64" if "x \<in> set psq_triples" for x
  proof -
    obtain p c i where x: "x = (p, c, i)" by (cases x) auto
    have "isCoord i" using that by (simp only: x psq_triples(2))
    then show ?thesis using makeCell_range [of c p] coordFlipX_coord(1) [of i]
      by (auto simp: psq_target_def x isCoord_def simp del: makeCell_values)
  qed
  have F: "(\<forall>x \<in> set psq_triples. psq_target x = (i, j) \<longrightarrow> fold (put2 psq_target val) psq_triples (replicate 16 (replicate 64 0)) ! i ! j = val x) \<and>
      ((i, j) \<notin> psq_target ` set psq_triples \<longrightarrow>
        fold (put2 psq_target val) psq_triples (replicate 16 (replicate 64 0)) ! i ! j = replicate 16 (replicate 64 0) ! i ! j)"
    if "i < 16" "j < 64" for i j and val :: "piece \<times> color \<times> coord \<Rightarrow> score_pair"
    by (rule fold_put2 [OF sh _ psq_target_inj psq_triples(1) that]) (rule bound)
  have x: "?x \<in> set psq_triples" using assms coordFlipX_coord(1) by (simp only: psq_triples(2)) simp
  have t: "psq_target ?x = (nat (makeCell C P), nat i)" using coordFlipX_coord(2) by (simp add: psq_target_def del: makeCell_values)
  have b: "nat (makeCell C P) < 16" "nat i < 64" using bound [OF x] t by simp_all
  have "fold (put2 psq_target (\<lambda>(piece, color, i). psq_cost wv p color piece i)) psq_triples
      (replicate 16 (replicate 64 0)) ! nat (makeCell C P) ! nat i = (case ?x of (piece, color, i) \<Rightarrow> psq_cost wv p color piece i)"
    using F [OF b] x t by blast
  then show "psq_data wv p ! nat (makeCell C P) ! nat i = psq_cost wv p C P (if C = White then i else coordFlipX i)"
    by (simp add: psq_data_fold)
  have "(nat EMPTY_CELL, nat i) \<notin> psq_target ` set psq_triples"
  proof
    assume "(nat EMPTY_CELL, nat i) \<in> psq_target ` set psq_triples"
    then obtain p c j where "nat EMPTY_CELL = nat (makeCell c p)" by (auto simp: psq_target_def)
    then show False using makeCell_range(1) [of c p] by (simp add: EMPTY_CELL_def)
  qed
  moreover have "nat EMPTY_CELL < 16" by (simp add: EMPTY_CELL_def)
  ultimately have "fold (put2 psq_target (\<lambda>(piece, color, i). psq_cost wv p color piece i)) psq_triples
      (replicate 16 (replicate 64 0)) ! nat EMPTY_CELL ! nat i = replicate 16 (replicate 64 0) ! nat EMPTY_CELL ! nat i"
    using F [of "nat EMPTY_CELL" "nat i"] b(2) by blast
  then show "psq_data wv p ! nat EMPTY_CELL ! nat i = 0" using b(2) by (simp add: psq_data_fold EMPTY_CELL_def)
qed

end
