(* ===== verification/Eval_Correct.thy ===== *)
theory Eval_Correct
  imports Eval_Lemmas
begin

text \<open>The weights of a loaded feature set have the laws the tag needs; the pawn cache does not change a score.\<close>

section \<open>Weights of a feature set\<close>

definition small_weights :: "features \<Rightarrow> bool" where
  "small_weights f \<longleftrightarrow> list_all (\<lambda>v. - 16383 \<le> v \<and> v \<le> 16383) (features_extract f)"

lemma bundles_at_mem:
  "bundles_at added off bs \<Longrightarrow> b \<in> set bs \<Longrightarrow>
   bundle_ok b \<and> fn_offset (bundle_name b) + bundle_count b \<le> off + sum_list (map bundle_count bs)"
  by (induction added off bs rule: bundles_at.induct) auto

lemma find_bundle_mem:
  assumes "features_ok f" "find_bundle f nm = Some b"
  shows "bundle_ok b" "fn_offset (bundle_name b) + bundle_count b \<le> length (features_extract f)"
proof -
  have m: "b \<in> set (ft_bundles f)" using assms(2) by (auto simp: find_bundle_def find_Some_iff)
  have l: "length (features_extract f) = sum_list (map bundle_count (ft_bundles f))"
    using features_extract_values [OF assms(1)] by (simp add: length_concat comp_def length_bundle_values)
  show "bundle_ok b" "fn_offset (bundle_name b) + bundle_count b \<le> length (features_extract f)"
    using bundles_at_mem [of "[]" 0 "ft_bundles f" b] m assms(1) l by (simp_all add: features_ok_def)
qed

lemma psq_offsets:
  assumes "psq_ok p"
  shows "fn_offset (ab_name (pb_pieceCosts p)) = fn_offset (pb_name p)"
    "fn_offset (ab_name (pb_tables p ! nat (pieceVal P))) = fn_offset (pb_name p) + 6 + 64 * nat (pieceVal P)"
    "fn_offset (ab_name (pb_endKingTable p)) = fn_offset (pb_name p) + 390" "bundle_count (PsqBundle p) = 454"
proof -
  from assms have len: "length (pb_tables p) = 6" and g: "group_at (fn_name (pb_name p)) (fn_offset (pb_name p)) (psq_iterate p)"
    and c: "array_count (pb_pieceCosts p) = 6" "list_all (\<lambda>a. array_count a = 64) (pb_tables p)" "array_count (pb_endKingTable p) = 64"
    by (simp_all add: psq_ok_def)
  obtain t0 t1 t2 t3 t4 t5 where t: "pb_tables p = [t0, t1, t2, t3, t4, t5]"
    using len by (auto simp: length_Suc_conv eval_nat_numeral)
  have cs: "array_count t0 = 64" "array_count t1 = 64" "array_count t2 = 64" "array_count t3 = 64" "array_count t4 = 64" "array_count t5 = 64"
    using c(2) by (simp_all add: t)
  note G = g [unfolded psq_iterate_def t PIECE_NAMES_def, simplified, unfolded c(1) cs]
  show "fn_offset (ab_name (pb_pieceCosts p)) = fn_offset (pb_name p)" "fn_offset (ab_name (pb_endKingTable p)) = fn_offset (pb_name p) + 390"
    using G by (simp_all add: array_at_def)
  show "fn_offset (ab_name (pb_tables p ! nat (pieceVal P))) = fn_offset (pb_name p) + 6 + 64 * nat (pieceVal P)"
    using G by (cases P) (simp_all add: array_at_def t)
  show "bundle_count (PsqBundle p) = 454"
    by (simp add: group_count_eq psq_iterate_def t PIECE_NAMES_def c cs)
qed

lemma number2_small:
  assumes "list_all (\<lambda>v. - 16383 \<le> v \<and> v \<le> 16383) wv" "i < length wv" "j < length wv"
  shows "negNumber2 wv i j = - number2 wv i j"
proof -
  have "- 16383 \<le> wv ! i" "wv ! i \<le> 16383" "- 16383 \<le> wv ! j" "wv ! j \<le> 16383"
    using assms by (simp_all add: list_all_length)
  then show ?thesis by (simp add: negNumber2_def number2_def to_i16_id)
qed

lemma pair_from_neg: "pair_from (- a) (- b) = - pair_from a b"
proof -
  have "- b * 65536 + - a = - (b * 65536 + a)" by simp
  then show ?thesis unfolding pair_from_def by (simp only: wi_hom_neg)
qed

lemma psq_cost_black:
  assumes f: "features_ok f" "small_weights f" and p: "find_bundle f nm = Some (PsqBundle p)" and i: "isCoord i"
  shows "psq_cost (features_extract f) p Black P i = - psq_cost (features_extract f) p White P i"
proof -
  note m = find_bundle_mem [OF f(1) p]
  have ok: "psq_ok p" using m(1) by simp
  note o = psq_offsets [OF ok]
  have l: "fn_offset (pb_name p) + 454 \<le> length (features_extract f)" using m(2) o(4) by simp
  have pv: "nat (pieceVal P) < 6" by (cases P) simp_all
  have n: "nat i < 64" using i by (simp add: isCoord_def)
  have a: "negNumber2 (features_extract f) (fn_offset (pb_name p) + nat (pieceVal P)) k =
      - number2 (features_extract f) (fn_offset (pb_name p) + nat (pieceVal P)) k" if "k < fn_offset (pb_name p) + 454" for k
    using number2_small f(2) l pv that by (simp add: small_weights_def)
  have b: "fn_offset (pb_name p) + 6 + 64 * nat (pieceVal P) + nat i < fn_offset (pb_name p) + 454"
    "fn_offset (pb_name p) + 390 + nat i < fn_offset (pb_name p) + 454" using pv n by simp_all
  show ?thesis
    unfolding psq_cost_def Let_def o
    by (simp only: a [OF b(1)] a [OF b(2)] pair_from_neg if_distrib [of uminus] color.distinct simp_thms if_True if_False)
qed

lemma fillWeights_ok:
  assumes f: "features_ok f" "small_weights f" and w: "fillWeights f = Some w"
  shows "weights_ok w"
proof -
  obtain p where p: "find_bundle f ''PSQ'' = Some (PsqBundle p)" and d: "PSQ w = psq_data (features_extract f) p"
    using w by (auto simp: fillWeights_def Let_def split: option.splits feature_bundle.splits if_splits)
  have at: "psq_at w (makeCell C P) i = (if C = White then psq_cost (features_extract f) p White P i
      else - psq_cost (features_extract f) p White P (coordFlipX i))" if "isCoord i" for C P i
    using psq_data_at(1) [OF that] psq_cost_black [OF f p coordFlipX_coord(1) [OF that]]
    by (cases C) (simp_all add: psq_at_def d del: makeCell_values)
  have co: "isCoord (castlingOffset C + n)" if "0 \<le> n" "n < 8" for C n
    using that by (cases C) (simp_all add: isCoord_def castlingOffset_def castlingRow_def)
  have flip: "coordFlipX (castlingOffset Black + n) = castlingOffset White + n" if "n \<in> {0, 2, 3, 4, 5, 6, 7}" for n
    using that by (auto simp: castlingOffset_def castlingRow_def coordFlipX_def makeCoord_def)
  have row: "makeCoord 7 n = castlingOffset White + n" if "n \<in> {0, 2, 3, 4, 5, 6, 7}" for n
    using that by (auto simp: castlingOffset_def castlingRow_def makeCoord_def)
  have cost: "PSQ w ! nat (makeCell White P) ! nat (makeCoord 7 n) = psq_at w (makeCell White P) (castlingOffset White + n)"
    if "n \<in> {0, 2, 3, 4, 5, 6, 7}" for P n using row [OF that] by (simp add: psq_at_def)
  have black: "psq_at w (makeCell Black P) (castlingOffset Black + n) = - psq_at w (makeCell White P) (castlingOffset White + n)"
    if "n \<in> {0, 2, 3, 4, 5, 6, 7}" for P n
    using at [OF co, of n Black P Black] at [OF co, of n White P White] flip [OF that] that by auto
  have "PSQ_KINGSIDE_UPD w C = psq_at w (makeCell C King) (castlingOffset C + 6) - psq_at w (makeCell C King) (castlingOffset C + 4) +
      psq_at w (makeCell C Rook) (castlingOffset C + 5) - psq_at w (makeCell C Rook) (castlingOffset C + 7) \<and>
      PSQ_QUEENSIDE_UPD w C = psq_at w (makeCell C King) (castlingOffset C + 2) - psq_at w (makeCell C King) (castlingOffset C + 4) +
      psq_at w (makeCell C Rook) (castlingOffset C + 3) - psq_at w (makeCell C Rook) (castlingOffset C + 0)" for C
    using cost black unfolding PSQ_KINGSIDE_UPD_def PSQ_QUEENSIDE_UPD_def kingsideCastling_cost_def queensideCastling_cost_def
      castling_cost_def Let_def pair_ops by (cases C) (simp_all del: makeCell_values)
  moreover have "psq_at w EMPTY_CELL i = 0" if "isCoord i" for i using psq_data_at(2) [OF that] by (simp add: psq_at_def d)
  ultimately show ?thesis by (simp add: weights_ok_def Let_def)
qed

section \<open>The pawn cache\<close>

text \<open>Boards whose pawns are told apart by the hash.\<close>

definition same_pawns :: "board \<Rightarrow> board \<Rightarrow> bool" where
  "same_pawns b1 b2 \<longleftrightarrow> pieceBB b1 (makeCell White Pawn) = pieceBB b2 (makeCell White Pawn) \<and>
     pieceBB b1 (makeCell Black Pawn) = pieceBB b2 (makeCell Black Pawn)"

definition hash_separates :: "board set \<Rightarrow> bool" where
  "hash_separates B \<longleftrightarrow> (\<forall>b1 \<in> B. \<forall>b2 \<in> B. calcPawnHash b1 = calcPawnHash b2 \<longrightarrow> same_pawns b1 b2)"

definition cache_ok :: "score_weights \<Rightarrow> board set \<Rightarrow> pawn_cache \<Rightarrow> bool" where
  "cache_ok w B c \<longleftrightarrow> (\<exists>k. length c = 2 ^ k \<and> k \<le> 63) \<and>
     (\<forall>key v. (key, v) \<in> set c \<and> pv_isValid v \<longrightarrow> (\<exists>b \<in> B. calcPawnHash b = key \<and> v = evalPawns w b))"

definition evalUncached :: "score_weights \<Rightarrow> board \<Rightarrow> eval_tag \<Rightarrow> score" where
  "evalUncached w b tg = fst (evalForWhite w (newPawnCache 1) b tg)"

lemma evalPawns_same: "same_pawns b1 b2 \<Longrightarrow> evalPawns w b1 = evalPawns w b2"
  by (simp add: evalPawns_def same_pawns_def del: makeCell_values)

lemma pv_from_valid: "pv_isValid (pv_from x y z sc)" "\<not> pv_isValid pv_invalid"
  by (simp_all add: pv_isValid_def pv_from_def PV_FLAG_IS_VALID_def pv_invalid_def)

lemma index_bound:
  assumes "length c = 2 ^ k" "k \<le> 63"
  shows "indexFromKey (length c) key < length c"
proof -
  have "unat (take_bit k key) < 2 ^ k" by (simp add: unsigned_take_bit_eq)
  then show ?thesis by (simp add: indexFromKey_def assms(1) take_bit_eq_mask mask_eq_decr_exp)
qed

lemma cache_get_ok:
  assumes c: "cache_ok w B c" and B: "hash_separates B" "b \<in> B"
  shows "fst (cache_get c (calcPawnHash b) (evalPawns w b)) = evalPawns w b"
    "cache_ok w B (snd (cache_get c (calcPawnHash b) (evalPawns w b)))"
proof -
  let ?i = "indexFromKey (length c) (calcPawnHash b)"
  obtain k where k: "length c = 2 ^ k" "k \<le> 63" using c by (auto simp: cache_ok_def)
  have i: "?i < length c" by (rule index_bound [OF k])
  obtain ek ev where e: "c ! ?i = (ek, ev)" by (cases "c ! ?i")
  have hit: "ev = evalPawns w b" if h: "ek = calcPawnHash b" "pv_isValid ev"
  proof -
    have "(ek, ev) \<in> set c" using i e by (metis nth_mem)
    then obtain b' where "b' \<in> B" "calcPawnHash b' = ek" "ev = evalPawns w b'" using c h(2) unfolding cache_ok_def by blast
    then show ?thesis using B h(1) evalPawns_same unfolding hash_separates_def by metis
  qed
  show "fst (cache_get c (calcPawnHash b) (evalPawns w b)) = evalPawns w b"
    using hit by (simp add: cache_get_def Let_def e)
  have "cache_ok w B (c[?i := (calcPawnHash b, evalPawns w b)])"
    using c B(2) unfolding cache_ok_def by (auto dest!: set_update_subset_insert [THEN subsetD])
  then show "cache_ok w B (snd (cache_get c (calcPawnHash b) (evalPawns w b)))"
    using c by (simp add: cache_get_def Let_def e)
qed

lemma evalForWhite_cached:
  assumes "cache_ok w B c" "hash_separates B" "b \<in> B"
  shows "fst (evalForWhite w c b tg) = evalUncached w b tg" "cache_ok w B (snd (evalForWhite w c b tg))"
proof -
  have "fst (cache_get (newPawnCache 1) (calcPawnHash b) (evalPawns w b)) = evalPawns w b"
    by (simp add: cache_get_def newPawnCache_def indexFromKey_def pv_from_valid)
  then show "fst (evalForWhite w c b tg) = evalUncached w b tg"
    using cache_get_ok(1) [OF assms] by (simp add: evalUncached_def evalForWhite_def Let_def split_beta)
  show "cache_ok w B (snd (evalForWhite w c b tg))"
    using cache_get_ok(2) [OF assms] by (simp add: evalForWhite_def Let_def split_beta)
qed

lemma newPawnCache_ok: "k \<le> 63 \<Longrightarrow> cache_ok w B (newPawnCache (2 ^ k))"
  by (auto simp: cache_ok_def newPawnCache_def pv_from_valid)

end
