(* ===== verification/Eval_Pawns.thy ===== *)
theory Eval_Pawns
  imports Eval_Correct
begin

unbundle bit_operations_syntax

text \<open>What the bitboards of the evaluator hold, and what its pawn and king counters count.\<close>

section \<open>Bits of the tables\<close>

lemma bit_foldl_or:
  assumes "isCoord j" "\<forall>i \<in> set xs. isCoord i"
  shows "bit (foldl (\<lambda>r i. if P i then r OR coordToBitboard i else r) r0 xs) (nat j) \<longleftrightarrow> bit r0 (nat j) \<or> (j \<in> set xs \<and> P j)"
  using assms(2)
proof (induction xs arbitrary: r0)
  case (Cons i xs)
  then show ?case using assms(1) by (auto simp: bit_or_iff bit_coordToBitboard nat_coord_eq)
qed simp

lemma coords_all: "\<forall>i \<in> set [0..63]. isCoord i" "isCoord j \<Longrightarrow> j \<in> set [0..63]"
  by (simp_all only: set_upto atLeastAtMost_iff isCoord_def) auto

lemma bit_or_where: "isCoord j \<Longrightarrow> bit (or_where P) (nat j) \<longleftrightarrow> P j"
  unfolding or_where_def using coords_all(2) by (subst bit_foldl_or [OF _ coords_all(1)]) auto

lemma table_at: "isCoord i \<Longrightarrow> map f [0..63] ! nat i = f i"
  by (subst nth_map) (auto simp: isCoord_def nth_upto)

lemma bit_pawn_tables:
  assumes i: "isCoord i" and j: "isCoord j"
  shows "bit (BB_ISOLATED_PAWN i) (nat j) \<longleftrightarrow> colDist i j = 1"
    "bit (BB_DOUBLE_PAWN i) (nat j) \<longleftrightarrow> coordY i = coordY j \<and> i \<noteq> j"
    "bit (BB_PASSED_PAWN c i) (nat j) \<longleftrightarrow> colDist i j \<le> 1 \<and> ahead c i j"
    "bit (BB_OPEN_PAWN c i) (nat j) \<longleftrightarrow> coordY i = coordY j \<and> ahead c i j"
    "bit (BB_ATTACK_FRONTSPANS c i) (nat j) \<longleftrightarrow> colDist i j = 1 \<and> ahead c i j"
proof -
  note y = coordY_range [of i] coordY_range [of j]
  have c1: "bit (BB_COL ! nat (coordY i - 1)) (nat j) \<longleftrightarrow> coordY j = coordY i - 1" if "coordY i \<noteq> 0"
    by (rule bit_BB_COL [OF _ _ j]) (use y that in linarith)+
  have c2: "bit (BB_COL ! nat (coordY i + 1)) (nat j) \<longleftrightarrow> coordY j = coordY i + 1" if "coordY i \<noteq> 7"
    by (rule bit_BB_COL [OF _ _ j]) (use y that in linarith)+
  have cd: "colDist i j = 1 \<longleftrightarrow> (coordY i \<noteq> 0 \<and> coordY j = coordY i - 1) \<or> (coordY i \<noteq> 7 \<and> coordY j = coordY i + 1)"
    using y unfolding colDist_def by arith
  show "bit (BB_ISOLATED_PAWN i) (nat j) \<longleftrightarrow> colDist i j = 1"
    unfolding BB_ISOLATED_PAWN_def generateIsolatedPawns_def table_at [OF i] Let_def
    unfolding bit_or_iff cd using c1 c2 by (cases "coordY i = 7") simp_all
  show "bit (BB_DOUBLE_PAWN i) (nat j) \<longleftrightarrow> coordY i = coordY j \<and> i \<noteq> j"
    unfolding BB_DOUBLE_PAWN_def generateDoublePawns_def table_at [OF i]
    using y bit_BB_COL [of "coordY i" j] j i by (auto simp: bit_xor_iff bit_coordToBitboard nat_coord_eq)
  show "bit (BB_PASSED_PAWN c i) (nat j) \<longleftrightarrow> colDist i j \<le> 1 \<and> ahead c i j"
    unfolding BB_PASSED_PAWN_def generatePassedOrOpenPawns_def table_at [OF i] bit_or_where [OF j] Let_def
    by (auto simp: colDist_def)
  show "bit (BB_OPEN_PAWN c i) (nat j) \<longleftrightarrow> coordY i = coordY j \<and> ahead c i j"
    unfolding BB_OPEN_PAWN_def generatePassedOrOpenPawns_def table_at [OF i] bit_or_where [OF j] Let_def by auto
  show "bit (BB_ATTACK_FRONTSPANS c i) (nat j) \<longleftrightarrow> colDist i j = 1 \<and> ahead c i j"
    unfolding BB_ATTACK_FRONTSPANS_def generateAttackFrontspans_def table_at [OF i] bit_or_where [OF j] Let_def
    by (auto simp: colDist_def)
qed

lemma bit_foldl_row:
  fixes f :: "coord \<Rightarrow> nat"
  assumes "isCoord j" "d < 8" "length row = 8" "\<forall>i \<in> set xs. isCoord i \<and> f i < 8"
  shows "bit (foldl (\<lambda>row i. row[f i := row ! f i OR coordToBitboard i]) row xs ! d) (nat j) \<longleftrightarrow>
    bit (row ! d) (nat j) \<or> (j \<in> set xs \<and> f j = d)"
  using assms(3,4)
proof (induction xs arbitrary: row)
  case (Cons i xs)
  let ?row = "row[f i := row ! f i OR coordToBitboard i]"
  have "bit (?row ! d) (nat j) \<longleftrightarrow> bit (row ! d) (nat j) \<or> (j = i \<and> f j = d)"
    using Cons.prems assms(1,2) by (cases "f i = d") (auto simp: bit_or_iff bit_coordToBitboard nat_coord_eq)
  moreover have "bit (foldl (\<lambda>row i. row[f i := row ! f i OR coordToBitboard i]) ?row xs ! d) (nat j) \<longleftrightarrow>
      bit (?row ! d) (nat j) \<or> (j \<in> set xs \<and> f j = d)"
    by (rule Cons.IH) (use Cons.prems in simp_all)
  ultimately show ?case by auto
qed simp

lemma kingDistance_range:
  assumes "isCoord i" "isCoord j"
  shows "0 \<le> kingDistance i j \<and> kingDistance i j < 8"
proof -
  have d: "0 \<le> absDiff x y \<and> absDiff x y < 8" if "0 \<le> x" "x < 8" "0 \<le> y" "y < 8" for x y :: int
    using that by (simp add: absDiff_def)
  show ?thesis
    using d [OF coordX_range [OF assms(1)] coordX_range [OF assms(2)]] d [OF coordY_range coordY_range, of i j] by (simp add: kingDistance_def le_max_iff_disj)
qed

lemma bit_ring:
  assumes i: "isCoord i" and j: "isCoord j" and d: "d < 8"
  shows "bit (BB_KING_METRIC_RING i d) (nat j) \<longleftrightarrow> kingDistance i j = int d"
proof -
  have r: "nat (kingDistance i k) < 8" if "isCoord k" for k using kingDistance_range [OF i that] by linarith
  have "bit (BB_KING_METRIC_RING i d) (nat j) \<longleftrightarrow> bit (replicate 8 (0 :: bitboard) ! d) (nat j) \<or> (j \<in> set [0..63] \<and> nat (kingDistance i j) = d)"
    unfolding BB_KING_METRIC_RING_def generateKingMetricRings_def table_at [OF i] Let_def
    by (rule bit_foldl_row [OF j d]) (use r coords_all(1) in auto)
  then show ?thesis using d coords_all(2) [OF j] kingDistance_range [OF i j] by auto
qed

section \<open>The counters\<close>

definition pawns_of :: "board \<Rightarrow> color \<Rightarrow> coord set" where
  "pawns_of b C = {s. isCoord s \<and> cellAt b s = makeCell C Pawn}"

definition pawn_covers :: "board \<Rightarrow> color \<Rightarrow> coord \<Rightarrow> bool" where
  "pawn_covers b C t \<longleftrightarrow> (\<exists>s \<in> pawns_of b C. piece_attacks 0 C Pawn s t)"

definition is_isolated :: "board \<Rightarrow> color \<Rightarrow> coord \<Rightarrow> bool" where
  "is_isolated b C s \<longleftrightarrow> (\<forall>t \<in> pawns_of b C. colDist s t \<noteq> 1)"

definition is_doubled :: "board \<Rightarrow> color \<Rightarrow> coord \<Rightarrow> bool" where
  "is_doubled b C s \<longleftrightarrow> (\<exists>t \<in> pawns_of b C. t \<noteq> s \<and> coordY t = coordY s)"

definition is_open :: "board \<Rightarrow> color \<Rightarrow> coord \<Rightarrow> bool" where
  "is_open b C s \<longleftrightarrow> (\<forall>t \<in> pawns_of b White \<union> pawns_of b Black. coordY t = coordY s \<longrightarrow> \<not> ahead C s t)"

definition is_passed :: "board \<Rightarrow> color \<Rightarrow> coord \<Rightarrow> bool" where
  "is_passed b C s \<longleftrightarrow> is_open b C s \<and> (\<forall>t \<in> pawns_of b (invert C). colDist s t \<le> 1 \<longrightarrow> \<not> ahead C s t)"

definition is_candidate :: "board \<Rightarrow> color \<Rightarrow> coord \<Rightarrow> bool" where
  "is_candidate b C s \<longleftrightarrow> is_open b C s \<and> \<not> is_passed b C s \<and>
     (\<forall>t. isCoord t \<and> coordY t = coordY s \<and> ahead C s t \<and> pawn_covers b (invert C) t \<longrightarrow> pawn_covers b C t)"

lemma bb_disjoint_iff: "(a AND b = (0 :: bitboard)) \<longleftrightarrow> (\<forall>j. isCoord j \<longrightarrow> \<not> (bit a (nat j) \<and> bit b (nat j)))"
  unfolding squares_empty_iff by (auto simp: in_squares bit_and_iff)

lemma bit_pawns: "bb_ok b \<Longrightarrow> isCoord j \<Longrightarrow> bit (pieceBB b (makeCell C Pawn)) (nat j) \<longleftrightarrow> j \<in> pawns_of b C"
  using bit_pieceBB by (simp add: pawns_of_def del: makeCell_values)

lemma bit_pawnAttacksOf:
  assumes "bb_ok b" "isCoord j"
  shows "bit (pawnAttacksOf C (pieceBB b (makeCell C Pawn))) (nat j) \<longleftrightarrow> pawn_covers b C j"
proof -
  let ?p = "pieceBB b (makeCell C Pawn)"
  have p: "isCoord s \<and> bit ?p (nat s) \<longleftrightarrow> s \<in> pawns_of b C" for s
    using bit_pawns [OF assms(1)] by (auto simp: pawns_of_def simp del: makeCell_values)
  have e: "(\<exists>s \<in> pawns_of b C. j = s + d \<and> Q s) \<longleftrightarrow> j - d \<in> pawns_of b C \<and> Q (j - d)" for d Q
    by (metis add_diff_cancel_right' diff_add_cancel)
  show ?thesis
    unfolding pawnAttacksOf_def bit_or_iff bit_advancePawnLeft [OF assms(2)] bit_advancePawnRight [OF assms(2)] pawn_covers_def
      pawn_attacks_iff bex_disj_distrib e p [symmetric] by blast
qed

lemma counts_foldl:
  fixes P E A F G :: bitboard and C :: color
  defines "k \<equiv> foldl (count_pawn C P E A F G)"
  shows "pc_isolated (k k0 xs) = pc_isolated k0 + int (length (filter (\<lambda>s. P AND BB_ISOLATED_PAWN s = 0) xs))"
    "pc_double (k k0 xs) = pc_double k0 + int (length (filter (\<lambda>s. P AND BB_DOUBLE_PAWN s \<noteq> 0) xs))"
    "pc_open (k k0 xs) = pc_open k0 + int (length (filter (\<lambda>s. A AND BB_OPEN_PAWN C s = 0) xs))"
    "pc_passed (k k0 xs) = pc_passed k0 + int (length (filter (\<lambda>s. A AND BB_OPEN_PAWN C s = 0 \<and> E AND BB_PASSED_PAWN C s = 0) xs))"
    "pc_candidate (k k0 xs) = pc_candidate k0 + int (length (filter (\<lambda>s. A AND BB_OPEN_PAWN C s = 0 \<and>
       E AND BB_PASSED_PAWN C s \<noteq> 0 \<and> G AND NOT F AND BB_OPEN_PAWN C s = 0) xs))"
  unfolding k_def by (induction xs arbitrary: k0) (simp_all add: count_pawn_def Let_def)

lemma count_squares: "length (filter Q (bbList w)) = card {s \<in> squares w. Q s}"
  using distinct_card [OF distinct_filter [OF distinct_bbList], of Q w] by (simp add: squares_bbList)

lemma count_pawns_correct:
  fixes C :: color
  assumes b: "bb_ok b"
  defines "k \<equiv> count_pawns C (pieceBB b (makeCell C Pawn)) (pieceBB b (makeCell (invert C) Pawn))"
  shows "pc_isolated k = int (card {s \<in> pawns_of b C. is_isolated b C s})" "pc_double k = int (card {s \<in> pawns_of b C. is_doubled b C s})"
    "pc_open k = int (card {s \<in> pawns_of b C. is_open b C s})" "pc_passed k = int (card {s \<in> pawns_of b C. is_passed b C s})"
    "pc_candidate k = int (card {s \<in> pawns_of b C. is_candidate b C s})"
proof -
  let ?P = "pieceBB b (makeCell C Pawn)" and ?E = "pieceBB b (makeCell (invert C) Pawn)"
  have sq: "squares ?P = pawns_of b C" using bit_pawns [OF b] by (auto simp: squares_def pawns_of_def simp del: makeCell_values)
  have c: "isCoord s" if "s \<in> pawns_of b D" for s D using that by (simp add: pawns_of_def)
  have both: "pawns_of b White \<union> pawns_of b Black = pawns_of b C \<union> pawns_of b (invert C)" by (cases C) auto
  have 1: "?P AND BB_ISOLATED_PAWN s = 0 \<longleftrightarrow> is_isolated b C s" if "isCoord s" for s
    unfolding bb_disjoint_iff is_isolated_def using bit_pawns [OF b] bit_pawn_tables(1) [OF that] c by blast
  have 2: "?P AND BB_DOUBLE_PAWN s \<noteq> 0 \<longleftrightarrow> is_doubled b C s" if "isCoord s" for s
    unfolding bb_disjoint_iff is_doubled_def using bit_pawns [OF b] bit_pawn_tables(2) [OF that] c by metis
  have 3: "(?P OR ?E) AND BB_OPEN_PAWN C s = 0 \<longleftrightarrow> is_open b C s" if "isCoord s" for s
    unfolding bb_disjoint_iff is_open_def both bit_or_iff using bit_pawns [OF b] bit_pawn_tables(4) [OF that] c by (metis UnE UnI1 UnI2)
  have 4: "?E AND BB_PASSED_PAWN C s = 0 \<longleftrightarrow> (\<forall>t \<in> pawns_of b (invert C). colDist s t \<le> 1 \<longrightarrow> \<not> ahead C s t)" if "isCoord s" for s
    unfolding bb_disjoint_iff using bit_pawns [OF b] bit_pawn_tables(3) [OF that] c by blast
  have 5: "pawnAttacksOf (invert C) ?E AND NOT (pawnAttacksOf C ?P) AND BB_OPEN_PAWN C s = 0 \<longleftrightarrow>
      (\<forall>t. isCoord t \<and> coordY t = coordY s \<and> ahead C s t \<and> pawn_covers b (invert C) t \<longrightarrow> pawn_covers b C t)" if "isCoord s" for s
    unfolding bb_disjoint_iff bit_and_iff
    using bit_pawnAttacksOf [OF b] bit_pawn_tables(4) [OF that] bit_NOT_coord by metis
  note k = k_def count_pawns_def
  show "pc_isolated k = int (card {s \<in> pawns_of b C. is_isolated b C s})"
    unfolding k counts_foldl count_squares sq using 1 c by (simp cong: conj_cong)
  show "pc_double k = int (card {s \<in> pawns_of b C. is_doubled b C s})"
    unfolding k counts_foldl count_squares sq using 2 c by (simp cong: conj_cong)
  show "pc_open k = int (card {s \<in> pawns_of b C. is_open b C s})"
    unfolding k counts_foldl count_squares sq using 3 c by (simp cong: conj_cong)
  show "pc_passed k = int (card {s \<in> pawns_of b C. is_passed b C s})"
    unfolding k counts_foldl count_squares sq is_passed_def using 3 4 c by (simp cong: conj_cong)
  show "pc_candidate k = int (card {s \<in> pawns_of b C. is_candidate b C s})"
    unfolding k counts_foldl count_squares sq is_candidate_def is_passed_def using 3 4 5 c by (auto intro!: arg_cong [where f = card])
qed

section \<open>Pieces near the king\<close>

definition zone_cost :: "int \<Rightarrow> int" where
  "zone_cost d = (if d = 1 then 5 else if d = 2 then 4 else if d = 3 then 1 else 0)"

lemma nearCount_sum:
  assumes i: "isCoord i"
  shows "nearCount i bb = (\<Sum>s \<in> squares bb. zone_cost (kingDistance i s))"
proof -
  have ring: "squares (BB_KING_METRIC_RING i d AND bb) = {s \<in> squares bb. kingDistance i s = int d}" if "d < 8" for d
    using bit_ring [OF i _ that] by (auto simp: squares_def bit_and_iff)
  have z: "zone_cost (kingDistance i s) = 5 * (if kingDistance i s = 1 then 1 else 0) + 4 * (if kingDistance i s = 2 then 1 else 0)
      + (if kingDistance i s = 3 then 1 else 0)" for s by (simp add: zone_cost_def)
  have "(\<Sum>s \<in> squares bb. (if kingDistance i s = n then 1 else 0 :: int)) = int (card {s \<in> squares bb. kingDistance i s = n})" for n
    by (simp add: sum.If_cases Int_def)
  then show ?thesis
    unfolding z sum.distrib sum_distrib_left [symmetric]
    by (simp add: nearCount_def Let_def popcount_squares ring KING_ZONE_COST1_def KING_ZONE_COST2_def KING_ZONE_COST3_def)
qed

end
