(* ===== verification/Eval_Properties.thy ===== *)
theory Eval_Properties
  imports Eval_Pawns Movegen_Properties
begin

text \<open>The properties of feature sets and of the evaluator.\<close>

section \<open>A feature set to apply them to\<close>

definition sample_array :: "nat \<Rightarrow> string \<Rightarrow> int list \<Rightarrow> array_bundle" where
  "sample_array off nm ws = \<lparr>ab_name = \<lparr>fn_offset = off, fn_name = nm\<rparr>, ab_values = ws\<rparr>"

definition sample_psq :: psq_bundle where
  "sample_psq = \<lparr>pb_name = \<lparr>fn_offset = 0, fn_name = ''psq''\<rparr>,
     pb_pieceCosts = sample_array 0 ''psq.cost'' [100, 0, 325, 352, 531, 1012],
     pb_tables = [sample_array 6 ''psq.pawn'' (replicate 64 2), sample_array 70 ''psq.king'' (replicate 64 (-3)),
       sample_array 134 ''psq.knight'' (replicate 64 5), sample_array 198 ''psq.bishop'' (replicate 64 0),
       sample_array 262 ''psq.rook'' (replicate 64 7), sample_array 326 ''psq.queen'' (replicate 64 1)],
     pb_endKingTable = sample_array 390 ''psq.king_end'' (replicate 64 (-9))\<rparr>"

definition sample_single :: "nat \<Rightarrow> string \<Rightarrow> int \<Rightarrow> feature_bundle" where
  "sample_single off nm v = SingleBundle \<lparr>sb_name = \<lparr>fn_offset = off, fn_name = nm\<rparr>, sb_value = v\<rparr>"

definition sample_features :: features where
  "sample_features = \<lparr>ft_bundles = [PsqBundle sample_psq,
     sample_single 454 ''queen_near_to_king'' (-17), sample_single 455 ''rook_near_to_king'' (-1),
     sample_single 456 ''two_bishops'' 34, sample_single 457 ''pawn_isolated'' (-10),
     sample_single 458 ''pawn_double'' (-6), sample_single 459 ''pawn_passed'' 40, sample_single 460 ''pawn_candidate'' 14,
     sample_single 461 ''pawn_open'' 4, sample_single 462 ''pawn_protected'' 6, sample_single 463 ''pawn_backward'' (-4),
     KingPawnBundle \<lparr>kb_name = \<lparr>fn_offset = 464, fn_name = ''king_pawn''\<rparr>,
       kb_shield = sample_array 464 ''king_pawn.shield'' [9, 65, 7, 24, 56, -15],
       kb_storm = sample_array 470 ''king_pawn.storm'' [-78, -23, 49, 22, 2, 7]\<rparr>,
     sample_single 476 ''rook_open_col'' 40, sample_single 477 ''rook_semi_open_col'' 36,
     sample_single 478 ''queen_open_col'' 8, sample_single 479 ''queen_semi_open_col'' 16], ft_count = 480\<rparr>"

lemma list_all_replicate: "list_all P (replicate n x) \<longleftrightarrow> n = 0 \<or> P x"
  by (auto simp: list_all_iff)

lemma sample_features_ok: "features_ok sample_features"
  by (simp add: features_ok_def sample_features_def sample_single_def psq_ok_def king_pawn_ok_def sample_psq_def sample_array_def
      psq_iterate_def king_pawn_iterate_def PIECE_NAMES_def array_at_def array_count_def group_count_eq weight_range_def list_all_replicate)

lemma sample_features_small: "small_weights sample_features"
  unfolding small_weights_def features_extract_values [OF sample_features_ok]
  by (simp add: sample_features_def sample_single_def sample_psq_def sample_array_def
      psq_iterate_def king_pawn_iterate_def PIECE_NAMES_def group_values_def list_all_replicate)

lemma sample_load: "features_load (features_save sample_features) = Inr sample_features"
  by (rule features_load_save [OF sample_features_ok])

lemma sample_names: "map (\<lambda>b. formatName (bundle_name b)) (ft_bundles sample_features) =
    [''PSQ'', ''QUEEN_NEAR_TO_KING'', ''ROOK_NEAR_TO_KING'', ''TWO_BISHOPS'', ''PAWN_ISOLATED'', ''PAWN_DOUBLE'', ''PAWN_PASSED'',
     ''PAWN_CANDIDATE'', ''PAWN_OPEN'', ''PAWN_PROTECTED'', ''PAWN_BACKWARD'', ''KING_PAWN'', ''ROOK_OPEN_COL'',
     ''ROOK_SEMI_OPEN_COL'', ''QUEEN_OPEN_COL'', ''QUEEN_SEMI_OPEN_COL'']"
  by code_simp

lemma sample_fillWeights: "\<exists>w. fillWeights sample_features = Some w"
proof -
  note n = sample_names [unfolded sample_features_def features.simps list.map list.inject]
  have "find_bundle sample_features nm = (case map_of (zip (map (\<lambda>b. formatName (bundle_name b)) (ft_bundles sample_features))
      (ft_bundles sample_features)) nm of Some b \<Rightarrow> Some b | None \<Rightarrow> None)" for nm
  proof -
    have "find (\<lambda>b. f b = nm) bs = (case map_of (zip (map f bs) bs) nm of Some b \<Rightarrow> Some b | None \<Rightarrow> None)"
      for f :: "feature_bundle \<Rightarrow> string" and bs by (induction bs) auto
    then show ?thesis by (simp add: find_bundle_def)
  qed
  then have f: "find_bundle sample_features nm = map_of (zip [''PSQ'', ''QUEEN_NEAR_TO_KING'', ''ROOK_NEAR_TO_KING'', ''TWO_BISHOPS'',
     ''PAWN_ISOLATED'', ''PAWN_DOUBLE'', ''PAWN_PASSED'', ''PAWN_CANDIDATE'', ''PAWN_OPEN'', ''PAWN_PROTECTED'', ''PAWN_BACKWARD'',
     ''KING_PAWN'', ''ROOK_OPEN_COL'', ''ROOK_SEMI_OPEN_COL'', ''QUEEN_OPEN_COL'', ''QUEEN_SEMI_OPEN_COL''] (ft_bundles sample_features)) nm" for nm
    unfolding sample_names by (simp split: option.split)
  have s: "find_bundle sample_features ''PSQ'' = Some (PsqBundle sample_psq)"
    "\<exists>k. find_bundle sample_features ''KING_PAWN'' = Some (KingPawnBundle k)"
    "list_all (\<lambda>nm. \<exists>s. find_bundle sample_features nm = Some (SingleBundle s)) ITEM_NAMES"
    unfolding f by (simp_all add: sample_features_def sample_single_def ITEM_NAMES_def)
  obtain k where k: "find_bundle sample_features ''KING_PAWN'' = Some (KingPawnBundle k)" using s(2) by blast
  have "list_all (\<lambda>nm. single_item wv sample_features nm \<noteq> None) ITEM_NAMES" for wv
    using s(3) unfolding list_all_iff by (metis (no_types, lifting) feature_bundle.simps(17) option.case(2) option.discI single_item_def)
  then show ?thesis by (simp add: fillWeights_def Let_def s(1) k)
qed

section \<open>Properties\<close>

text \<open>C33: a feature set that was loaded from JSON is saved to JSON that loads as the same set, and its names
  come in the order of the features, so the assertions of \<^verbatim>\<open>names()\<close> hold.\<close>

theorem features_survive_saving:
  assumes "features_load j = Inr f"
  shows "features_load (features_save f) = Inr f \<and> (\<exists>ns. features_names f = Some ns \<and> map fn_offset ns = [0..<ft_count f])"
  using features_load_save features_names_ok features_load_ok [OF assms] by blast

theorem features_saving_witness: "features_load (features_save sample_features) = Inr sample_features"
  using features_survive_saving [OF sample_load] by blast

text \<open>C34: the weights of a loaded feature set are one vector: extracting what was applied gives it back,
  applying what was extracted changes nothing, and \<^verbatim>\<open>apply\<close> panics only for a vector of another length.\<close>

theorem features_weights_roundtrip:
  assumes "features_load j = Inr f" "list_all weight_range ws"
  shows "(case features_apply ws f of None \<Rightarrow> length ws \<noteq> ft_count f | Some f' \<Rightarrow> features_extract f' = ws) \<and>
    features_apply (features_extract f) f = Some f"
proof -
  note ok = features_load_ok [OF assms(1)]
  show ?thesis
  proof (cases "length ws = ft_count f")
    case True
    then show ?thesis using features_apply_ok [OF ok True assms(2)] features_apply_extract [OF ok] by auto
  next
    case False
    then show ?thesis using features_apply_extract [OF ok] by (simp add: features_apply_def)
  qed
qed

theorem features_weights_witness: "features_apply (features_extract sample_features) sample_features = Some sample_features"
  using features_weights_roundtrip [OF sample_load, of "[]"] by simp

text \<open>C30: with the weights generated from a loaded feature set (none beyond 16383), the tag updated by a move is
  the tag computed from the next position: the assertion of \<^verbatim>\<open>MoveMakeGuard\<close> holds.\<close>

theorem tag_update_is_recomputation:
  assumes "features_load j = Inr f" "small_weights f" "fillWeights f = Some w" "position_ok b"
    "isWellFormed m (side b)" "isMoveValid b m \<or> m = move_null" "tag_isValid w tg b"
  shows "tag_isValid w (tag_updated w tg b m) (fst (moveMake z b m))"
proof -
  have t: "tg = tag_from w b" using assms(7) by (cases tg; cases "tag_from w b") (simp add: tag_isValid_def)
  have "tag_updated w tg b m = tag_from w (fst (moveMake z b m))"
  proof (cases "m = move_null")
    case True
    then show ?thesis by (simp add: t tag_updated_def move_null_def mkMove_def tag_from_sum cells_moveMake move_cells_def Let_def)
  next
    case False
    then have "pseudo_legal b m" using assms(5,6) valid_iff_pseudo_legal [OF assms(4)] by blast
    then show ?thesis using tag_updated_next [OF fillWeights_ok [OF features_load_ok [OF assms(1)] assms(2,3)] assms(4)] by (simp add: t)
  qed
  then show ?thesis by (simp add: tag_isValid_def)
qed

theorem tag_update_witness:
  "\<exists>w. fillWeights sample_features = Some w \<and>
     tag_isValid w (tag_updated w (tag_from w sample_board) sample_board (mkMove PawnDoubleMove 52 36 0))
       (fst (moveMake sample_zobrist sample_board (mkMove PawnDoubleMove 52 36 0)))"
proof -
  obtain w where w: "fillWeights sample_features = Some w" using sample_fillWeights by blast
  have m: "isWellFormed (mkMove PawnDoubleMove 52 36 0) (side sample_board)" "isMoveValid sample_board (mkMove PawnDoubleMove 52 36 0)"
    using valid_iff_pseudo_legal [OF sample_position(1)] sample_pseudo by blast+
  have "tag_isValid w (tag_from w sample_board) sample_board" by (simp add: tag_isValid_def)
  then show ?thesis
    using tag_update_is_recomputation [OF sample_load sample_features_small w sample_position(1) m(1) disjI1 [OF m(2)]] w by blast
qed

text \<open>The scores of a list of positions, evaluated one after another with one cache.\<close>

fun eval_all :: "score_weights \<Rightarrow> pawn_cache \<Rightarrow> (board \<times> eval_tag) list \<Rightarrow> score list" where
  "eval_all w c [] = []"
| "eval_all w c ((b, tg) # rest) = (let (r, c') = evalForCur w c b tg in r # eval_all w c' rest)"

text \<open>C31: the pawn cache does not change a score: however many positions were evaluated before, each one gets the
  score of an evaluation without a cache, if the hash of the pawns tells the positions' pawns apart.\<close>

theorem pawn_cache_is_transparent:
  assumes "hash_separates (fst ` set bts)"
  shows "eval_all w (newPawnCache PAWN_CACHE_SIZE) bts = map (\<lambda>(b, tg). applyColor (evalUncached w b tg) (side b)) bts"
proof -
  have "eval_all w c xs = map (\<lambda>(b, tg). applyColor (evalUncached w b tg) (side b)) xs"
    if "cache_ok w (fst ` set bts) c" "set xs \<subseteq> set bts" for c xs
    using that
  proof (induction xs arbitrary: c)
    case (Cons x xs)
    obtain b tg where x: "x = (b, tg)" by (cases x)
    have b: "b \<in> fst ` set bts" using Cons.prems(2) x by force
    show ?case
      using Cons.IH [OF evalForWhite_cached(2) [OF Cons.prems(1) assms b, of tg]] evalForWhite_cached(1) [OF Cons.prems(1) assms b, of tg] Cons.prems(2)
      by (simp add: x evalForCur_def split_beta)
  qed simp
  then show ?thesis using newPawnCache_ok [of 18] by (simp add: PAWN_CACHE_SIZE_def)
qed

theorem pawn_cache_witness:
  "\<forall>w tg. eval_all w (newPawnCache PAWN_CACHE_SIZE) [(sample_board, tg), (sample_board, tg)] =
     [applyColor (evalUncached w sample_board tg) White, applyColor (evalUncached w sample_board tg) White]"
proof (intro allI)
  fix w :: score_weights and tg :: eval_tag
  have "hash_separates (fst ` set [(sample_board, tg), (sample_board, tg)])" by (simp add: hash_separates_def same_pawns_def)
  from pawn_cache_is_transparent [OF this, of w] show "eval_all w (newPawnCache PAWN_CACHE_SIZE) [(sample_board, tg), (sample_board, tg)] =
     [applyColor (evalUncached w sample_board tg) White, applyColor (evalUncached w sample_board tg) White]" by (simp add: sample_views)
qed

text \<open>C32: on a board whose bitboards agree with its cells the loop over the pawns counts exactly the isolated,
  doubled, open, passed and candidate pawns of a side, and the king zone sums the costs of the distances.\<close>

theorem pawn_counters_count:
  assumes "bb_ok b" "isCoord i"
  shows "(let k = count_pawns C (pieceBB b (makeCell C Pawn)) (pieceBB b (makeCell (invert C) Pawn)) in
      pc_isolated k = int (card {s \<in> pawns_of b C. is_isolated b C s}) \<and>
      pc_double k = int (card {s \<in> pawns_of b C. is_doubled b C s}) \<and>
      pc_open k = int (card {s \<in> pawns_of b C. is_open b C s}) \<and>
      pc_passed k = int (card {s \<in> pawns_of b C. is_passed b C s}) \<and>
      pc_candidate k = int (card {s \<in> pawns_of b C. is_candidate b C s})) \<and>
    nearCount i bb = (\<Sum>s \<in> squares bb. zone_cost (kingDistance i s))"
  using count_pawns_correct [OF assms(1)] nearCount_sum [OF assms(2)] by (simp add: Let_def del: makeCell_values)

theorem pawn_counters_witness:
  "pc_isolated (count_pawns White (pieceBB sample_board (makeCell White Pawn)) (pieceBB sample_board (makeCell (invert White) Pawn))) =
     int (card {s \<in> pawns_of sample_board White. is_isolated sample_board White s})"
  using pawn_counters_count [OF position_okD(1) [OF sample_position(1)], of 60 White] isCoord_def [of 60] by (simp add: Let_def del: makeCell_values)

end
