(* ===== verification/Limits.thy ===== *)
theory Limits
  imports Search "HOL-Library.Signed_Division"
begin

text \<open>
  The limits of a search (\<^verbatim>\<open>src/src/search/private/limits.h\<close>, \<^verbatim>\<open>limits.cpp\<close>) and positions with the moves
  that lead to them (\<^verbatim>\<open>types.h\<close>, \<^verbatim>\<open>types.cpp\<close>). A duration in milliseconds is an \<open>int\<close> that stands for a
  signed 64-bit number; an addition that would overflow, like a failed assertion, has no result.
\<close>

section \<open>Time control\<close>

type_synonym milliseconds = int

definition MILLISECONDS_MAX :: milliseconds where "MILLISECONDS_MAX = 2 ^ 63 - 1"

definition MOVES_INFINITE :: u32 where "MOVES_INFINITE = - 1"

record time_control_side =
  tcs_time :: milliseconds
  tcs_inc :: milliseconds

definition new_time_control_side :: time_control_side where
  "new_time_control_side = \<lparr>tcs_time = MILLISECONDS_MAX, tcs_inc = 0\<rparr>"

record time_control =
  tc_white :: time_control_side
  tc_black :: time_control_side
  tc_movesToGo :: u32

definition new_time_control :: time_control where
  "new_time_control = \<lparr>tc_white = new_time_control_side, tc_black = new_time_control_side, tc_movesToGo = MOVES_INFINITE\<rparr>"

definition tc_side :: "time_control \<Rightarrow> color \<Rightarrow> time_control_side" where
  "tc_side tc color = (if color = White then tc_white tc else tc_black tc)"

section \<open>Limits\<close>

definition DEPTH_UNLIMITED :: nat where "DEPTH_UNLIMITED = 2 ^ 64 - 1"
definition NODES_UNLIMITED :: u64 where "NODES_UNLIMITED = - 1"
definition TIME_UNLIMITED :: milliseconds where "TIME_UNLIMITED = MILLISECONDS_MAX"

record search_limits =
  lim_depth :: nat
  lim_nodes :: u64
  lim_time :: milliseconds
  lim_timeControl :: time_control

definition withInfiniteTime :: search_limits where
  "withInfiniteTime = \<lparr>lim_depth = DEPTH_UNLIMITED, lim_nodes = NODES_UNLIMITED, lim_time = TIME_UNLIMITED,
     lim_timeControl = new_time_control\<rparr>"

definition withFixedDepth :: "nat \<Rightarrow> search_limits" where
  "withFixedDepth depth = \<lparr>lim_depth = depth, lim_nodes = NODES_UNLIMITED, lim_time = TIME_UNLIMITED,
     lim_timeControl = new_time_control\<rparr>"

definition withFixedNodes :: "u64 \<Rightarrow> search_limits" where
  "withFixedNodes nodes = \<lparr>lim_depth = DEPTH_UNLIMITED, lim_nodes = nodes, lim_time = TIME_UNLIMITED,
     lim_timeControl = new_time_control\<rparr>"

definition withFixedTime :: "milliseconds \<Rightarrow> search_limits" where
  "withFixedTime time = \<lparr>lim_depth = DEPTH_UNLIMITED, lim_nodes = NODES_UNLIMITED, lim_time = time,
     lim_timeControl = new_time_control\<rparr>"

section \<open>Time to think on a move\<close>

definition HARD_TIME_MARGIN_PER_MOVE :: milliseconds where "HARD_TIME_MARGIN_PER_MOVE = 3"
definition HARD_TIME_MARGIN :: milliseconds where "HARD_TIME_MARGIN = 250"
definition SOFT_TIME_MARGIN_PER_MOVE :: milliseconds where "SOFT_TIME_MARGIN_PER_MOVE = 5"
definition SOFT_TIME_MARGIN :: milliseconds where "SOFT_TIME_MARGIN = 350"
definition MIN_TIME_MARGIN :: milliseconds where "MIN_TIME_MARGIN = 20"
definition MAX_MOVES_LEFT :: int where "MAX_MOVES_LEFT = 50"
definition MAX_MOVES_TO_GO :: int where "MAX_MOVES_TO_GO = 1000"

lemmas margin_consts = HARD_TIME_MARGIN_PER_MOVE_def HARD_TIME_MARGIN_def SOFT_TIME_MARGIN_PER_MOVE_def
  SOFT_TIME_MARGIN_def MIN_TIME_MARGIN_def MAX_MOVES_LEFT_def MAX_MOVES_TO_GO_def

definition ms_add :: "milliseconds \<Rightarrow> milliseconds \<Rightarrow> milliseconds option" where
  "ms_add a b = (if - (2 ^ 63) \<le> a + b \<and> a + b \<le> MILLISECONDS_MAX then Some (a + b) else None)"

definition doCalculateMaxTime :: "board \<Rightarrow> milliseconds \<Rightarrow> int \<Rightarrow> milliseconds \<Rightarrow> milliseconds option" where
  "doCalculateMaxTime b totalTime movesToGo margin =
     (let movesLeft = min MAX_MOVES_LEFT movesToGo
      in if \<not> movesLeft > 0 then None
         else let movesLeft' = (if moveNumber b < 10 then movesLeft * 2 else movesLeft)
              in Some (max 2 ((totalTime - margin) sdiv (movesLeft' + 1))))"

definition calculateMaxTime :: "board \<Rightarrow> time_control \<Rightarrow> milliseconds option" where
  "calculateMaxTime b tc =
     (let time0 = tcs_time (tc_side tc (side b)); inc = tcs_inc (tc_side tc (side b));
          movesToGo = (if tc_movesToGo tc = MOVES_INFINITE then MAX_MOVES_TO_GO else min MAX_MOVES_TO_GO (uint (tc_movesToGo tc)));
          totalTime = (if time0 = MILLISECONDS_MAX then 3600000 else time0);
          hardMargin = min HARD_TIME_MARGIN (MIN_TIME_MARGIN + movesToGo * HARD_TIME_MARGIN_PER_MOVE);
          softMargin = min SOFT_TIME_MARGIN (MIN_TIME_MARGIN + movesToGo * SOFT_TIME_MARGIN_PER_MOVE)
      in if totalTime \<le> hardMargin then Some 1
         else if totalTime \<le> softMargin then Some 2
         else Option.bind (doCalculateMaxTime b totalTime movesToGo softMargin) (\<lambda>t.
           map_option (\<lambda>time. max (min time (totalTime - hardMargin)) 2) (ms_add t inc)))"

definition withTimeControl :: "board \<Rightarrow> time_control \<Rightarrow> search_limits option" where
  "withTimeControl b tc = map_option (\<lambda>maxTime. \<lparr>lim_depth = DEPTH_UNLIMITED, lim_nodes = NODES_UNLIMITED,
     lim_time = maxTime, lim_timeControl = tc\<rparr>) (calculateMaxTime b tc)"

section \<open>Positions with their moves\<close>

record game_position =
  pos_first :: board
  pos_moves :: "move list"
  pos_last :: board

definition position_from :: "zobrist \<Rightarrow> board \<Rightarrow> move list \<Rightarrow> game_position" where
  "position_from z b ms = \<lparr>pos_first = b, pos_moves = ms, pos_last = fold (\<lambda>m b. fst (moveMake z b m)) ms b\<rparr>"

text \<open>The result is absent for \<^verbatim>\<open>COMMON_PREFIX_NONE\<close>.\<close>

fun common_moves :: "nat \<Rightarrow> move list \<Rightarrow> move list \<Rightarrow> nat" where
  "common_moves idx (m1 # ms1) (m2 # ms2) = (if \<not> move_eq m1 m2 then idx else common_moves (Suc idx) ms1 ms2)"
| "common_moves idx _ _ = idx"

definition commonPrefix :: "game_position \<Rightarrow> game_position \<Rightarrow> nat option" where
  "commonPrefix p1 p2 = (if \<not> board_eq (pos_first p1) (pos_first p2) then None else Some (common_moves 0 (pos_moves p1) (pos_moves p2)))"

section \<open>Lemmas\<close>

text \<open>With some time left the engine never plans to use it up.\<close>

lemma calculateMaxTime_ok:
  assumes "tc_movesToGo tc \<noteq> 0" "tcs_time (tc_side tc (side b)) \<le> MILLISECONDS_MAX"
    "0 \<le> tcs_inc (tc_side tc (side b))" "tcs_inc (tc_side tc (side b)) < 2 ^ 62"
  shows "\<exists>t. calculateMaxTime b tc = Some t \<and> 1 \<le> t \<and>
    (2 \<le> tcs_time (tc_side tc (side b)) \<longrightarrow> t < tcs_time (tc_side tc (side b))) \<and>
    (350 < tcs_time (tc_side tc (side b)) \<longrightarrow> t \<le> tcs_time (tc_side tc (side b)) - min 250 (20 + 3 * uint (tc_movesToGo tc)))"
proof -
  define time0 where "time0 = tcs_time (tc_side tc (side b))"
  define inc where "inc = tcs_inc (tc_side tc (side b))"
  define mtg where "mtg = (if tc_movesToGo tc = MOVES_INFINITE then 1000 else min 1000 (uint (tc_movesToGo tc)))"
  define total where "total = (if time0 = MILLISECONDS_MAX then 3600000 else time0)"
  define hard where "hard = min 250 (20 + mtg * 3)"
  define soft where "soft = min 350 (20 + mtg * 5)"
  have u: "0 < uint (tc_movesToGo tc)" by (metis assms(1) less_le uint_0_iff unsigned_greater_eq)
  have m: "1 \<le> mtg" "mtg \<le> 1000" using u by (auto simp: mtg_def)
  have inf: "uint MOVES_INFINITE = 4294967295" by (simp add: MOVES_INFINITE_def uint_word_ariths(4) [where a = 1 for a] unsigned_minus_1_eq_mask mask_eq_exp_minus_1)
  have h: "hard = min 250 (20 + 3 * uint (tc_movesToGo tc))" using inf by (auto simp: hard_def mtg_def min_def)
  have total: "total \<le> time0" "time0 \<le> 3600000 \<Longrightarrow> total = time0" "time0 > 3600000 \<Longrightarrow> total \<ge> 3600000"
    "total \<le> MILLISECONDS_MAX"
    using assms(2) by (auto simp: total_def MILLISECONDS_MAX_def time0_def)
  have hs: "23 \<le> hard" "hard \<le> 250" "hard + 2 \<le> soft" "soft \<le> 350" using m by (auto simp: hard_def soft_def min_def)
  have eq: "calculateMaxTime b tc = (if total \<le> hard then Some 1 else if total \<le> soft then Some 2
      else Option.bind (doCalculateMaxTime b total mtg soft) (\<lambda>t. map_option (\<lambda>time. max (min time (total - hard)) 2) (ms_add t inc)))"
    by (simp only: calculateMaxTime_def Let_def margin_consts time0_def inc_def mtg_def total_def hard_def soft_def)
  show ?thesis
  proof (cases "total \<le> soft")
    case True
    then have "time0 \<le> 3600000" using total(3) hs by linarith
    then have "total = time0" by (rule total(2))
    then show ?thesis using True hs unfolding eq time0_def [symmetric] by auto
  next
    case False
    obtain d where d: "doCalculateMaxTime b total mtg soft = Some (max 2 ((total - soft) sdiv d))" "d \<ge> 2"
      using m by (cases "moveNumber b < 10") (simp_all add: doCalculateMaxTime_def Let_def margin_consts)
    have q: "(total - soft) sdiv d = (total - soft) div d" using False d(2) by (simp add: signed_divide_int_def)
    have "(total - soft) div d \<le> (total - soft) div 2" using d(2) False by (intro zdiv_mono2) auto
    then have le: "(total - soft) div d \<le> 2 ^ 62" "0 \<le> (total - soft) div d"
      using total(4) False hs d(2) by (auto simp: MILLISECONDS_MAX_def pos_imp_zdiv_nonneg_iff)
    have a: "ms_add (max 2 ((total - soft) div d)) inc = Some (max 2 ((total - soft) div d) + inc)"
      using le assms(3,4) by (auto simp: ms_add_def inc_def MILLISECONDS_MAX_def max_def)
    have t: "calculateMaxTime b tc = Some (max (min (max 2 ((total - soft) div d) + inc) (total - hard)) 2)"
      unfolding eq using False hs by (simp add: d q a)
    show ?thesis unfolding t h [symmetric] time0_def [symmetric] using False hs total(1) by (auto simp: max_def min_def)
  qed
qed

lemma calculateMaxTime_zero_moves:
  assumes "tc_movesToGo tc = 0" "20 < tcs_time (tc_side tc (side b))"
  shows "calculateMaxTime b tc = None"
  using assms by (simp add: calculateMaxTime_def Let_def margin_consts doCalculateMaxTime_def MOVES_INFINITE_def)

lemma common_moves_take:
  "common_moves idx ms1 ms2 = idx + n \<Longrightarrow> n \<le> length ms1 \<and> n \<le> length ms2 \<and> list_all2 move_eq (take n ms1) (take n ms2) \<and>
    (n < length ms1 \<and> n < length ms2 \<longrightarrow> \<not> move_eq (ms1 ! n) (ms2 ! n))"
proof (induction idx ms1 ms2 arbitrary: n rule: common_moves.induct)
  case (1 idx m1 ms1 m2 ms2)
  have ge: "common_moves i xs ys \<ge> i" for i and xs ys :: "move list" by (induction i xs ys rule: common_moves.induct) auto
  show ?case
  proof (cases "move_eq m1 m2")
    case True
    then have c: "common_moves (Suc idx) ms1 ms2 = idx + n" using "1.prems" by simp
    then obtain k where n: "n = Suc k" using ge [of "Suc idx" ms1 ms2] by (cases n) auto
    show ?thesis using "1.IH" [of k] True c by (simp add: n)
  qed (use "1.prems" in auto)
qed auto

end
