(* ===== verification/Jobs.thy ===== *)
theory Jobs
  imports Limits
begin

text \<open>
  The threads of a search: the jobs (\<^verbatim>\<open>Job::run\<close> of \<^verbatim>\<open>src/src/search/private/job.cpp\<close>), the main thread
  that waits for them (\<^verbatim>\<open>MainThread\<close> of \<^verbatim>\<open>job_runner.cpp\<close>), the thread of the user interface that may
  call \<^verbatim>\<open>stop()\<close>, and the communicator they share. A step of the relation is one access to shared data by
  one thread: an atomic load or exchange, taking or releasing the lock, sleeping on the condition
  variable, a notification. Accesses to atomics are sequentially consistent in the model.
\<close>

section \<open>The communicator\<close>

datatype job_event = Timeout | Stopped | NewLines

datatype thread_id = ApiThread | MainThread | JobThread nat

record search_result =
  sr_depth :: nat
  sr_pv :: "move list"
  sr_cost :: position_cost
  sr_bound :: PositionCostBound

text \<open>\<open>cm_lock\<close> is the owner of the mutex. Times are milliseconds.\<close>

record communicator =
  cm_depth :: nat
  cm_stopped :: bool
  cm_startTime :: int
  cm_limits :: search_limits
  cm_lock :: "thread_id option"
  cm_lines :: "search_result list"

definition comm_reset :: "search_limits \<Rightarrow> int \<Rightarrow> communicator \<Rightarrow> communicator" where
  "comm_reset limits now c = c\<lparr>cm_depth := 1, cm_stopped := False, cm_startTime := now, cm_limits := limits, cm_lines := []\<rparr>"

definition finishDepth :: "nat \<Rightarrow> communicator \<Rightarrow> bool \<times> communicator" where
  "finishDepth depth c = (if cm_depth c = depth then (True, c\<lparr>cm_depth := depth + 1\<rparr>) else (False, c))"

definition checkEventUnlocked :: "communicator \<Rightarrow> job_event" where
  "checkEventUnlocked c = (if cm_lines c \<noteq> [] then NewLines else if cm_stopped c then Stopped else Timeout)"

definition timedOut :: "communicator \<Rightarrow> int \<Rightarrow> bool" where
  "timedOut c now \<longleftrightarrow> lim_time (cm_limits c) \<noteq> TIME_UNLIMITED \<and> now - cm_startTime c \<ge> lim_time (cm_limits c)"

abbreviation lock_by :: "thread_id \<Rightarrow> communicator \<Rightarrow> communicator" where
  "lock_by t c \<equiv> c\<lparr>cm_lock := Some t\<rparr>"

abbreviation unlock :: "communicator \<Rightarrow> communicator" where
  "unlock c \<equiv> c\<lparr>cm_lock := None\<rparr>"

text \<open>
  A call of \<^verbatim>\<open>stop()\<close> by a thread: the exchange, the lock, the unlock, the notification. The result is the
  communicator, where the call is now (absent when it returned) and whether all waiting threads are
  notified; there is none while the lock is taken.
\<close>

datatype stop_pc = StopExchange | StopLock | StopUnlock | StopNotify

fun stop_next :: "thread_id \<Rightarrow> communicator \<Rightarrow> stop_pc \<Rightarrow> (communicator \<times> stop_pc option \<times> bool) option" where
  "stop_next t c StopExchange =
     (if cm_stopped c then Some (c, None, False) else Some (c\<lparr>cm_stopped := True\<rparr>, Some StopLock, False))"
| "stop_next t c StopLock = (if cm_lock c = None then Some (lock_by t c, Some StopUnlock, False) else None)"
| "stop_next t c StopUnlock = Some (unlock c, Some StopNotify, False)"
| "stop_next t c StopNotify = Some (c, None, True)"

text \<open>A call of \<^verbatim>\<open>addLine\<close> in the same way.\<close>

datatype add_pc = AddLock | AddPush | AddUnlock | AddNotify

fun add_next :: "thread_id \<Rightarrow> search_result \<Rightarrow> communicator \<Rightarrow> add_pc \<Rightarrow> (communicator \<times> add_pc option \<times> bool) option" where
  "add_next t line c AddLock = (if cm_lock c = None then Some (lock_by t c, Some AddPush, False) else None)"
| "add_next t line c AddPush = Some (c\<lparr>cm_lines := cm_lines c @ [line]\<rparr>, Some AddUnlock, False)"
| "add_next t line c AddUnlock = Some (unlock c, Some AddNotify, False)"
| "add_next t line c AddNotify = Some (c, None, True)"

section \<open>Jobs\<close>

text \<open>
  Where a job is. In \<open>Searching d n ok\<close> it is in \<^verbatim>\<open>Searcher::run(d)\<close> between two calls of \<^verbatim>\<open>mustStop()\<close>, of
  which at most \<open>n\<close> are left; \<open>ok\<close> tells that none has returned true so far. In \<open>Polling\<close> the call has read
  \<^verbatim>\<open>stopped_\<close> as false; in \<open>PollStopping\<close> it is in \<^verbatim>\<open>stop()\<close>, called by \<^verbatim>\<open>checkTimeout()\<close>.
\<close>

datatype job_pc =
    NextDepth nat
  | Searching nat nat bool
  | Polling nat nat bool
  | PollStopping nat nat bool stop_pc
  | Returned nat bool score move
  | Finishing nat bool score move
  | Unwinding nat bool score move
  | Adding bool search_result add_pc
  | RunStopping stop_pc
  | JobDone

record job_state =
  jb_pc :: job_pc
  jb_counter :: nat

text \<open>
  What is fixed for a search: the position, the number of jobs, and for a job and a depth a bound on the
  calls of \<^verbatim>\<open>mustStop()\<close> of that search.
\<close>

record job_system =
  js_zobrist :: zobrist
  js_board :: board
  js_jobs :: nat
  js_polls :: "nat \<Rightarrow> nat \<Rightarrow> nat"

text \<open>The record of searches that ran to their end is kept beside the state, to state where lines come from.\<close>

datatype job_effect = Quiet | Notify | Completed nat score move

inductive job_step :: "job_system \<Rightarrow> nat \<Rightarrow> communicator \<Rightarrow> job_state \<Rightarrow> communicator \<Rightarrow> job_state \<Rightarrow> job_effect \<Rightarrow> bool"
  for sys i c jb where
  Depth_begin: "jb_pc jb = NextDepth d \<Longrightarrow> d \<le> min (lim_depth (cm_limits c)) MAX_DEPTH \<Longrightarrow>
    job_step sys i c jb c (jb\<lparr>jb_pc := Searching d (js_polls sys i d) True\<rparr>) Quiet"
| Depth_limit: "jb_pc jb = NextDepth d \<Longrightarrow> \<not> d \<le> min (lim_depth (cm_limits c)) MAX_DEPTH \<Longrightarrow>
    job_step sys i c jb c (jb\<lparr>jb_pc := RunStopping StopExchange\<rparr>) Quiet"
| Poll_stopped: "jb_pc jb = Searching d (Suc n) ok \<Longrightarrow> cm_stopped c \<Longrightarrow>
    job_step sys i c jb c (jb\<lparr>jb_pc := Searching d n False\<rparr>) Quiet"
| Poll_on: "jb_pc jb = Searching d (Suc n) ok \<Longrightarrow> \<not> cm_stopped c \<Longrightarrow>
    job_step sys i c jb c \<lparr>jb_pc = Polling d n ok, jb_counter = jb_counter jb + 1\<rparr> Quiet"
| Poll_timeout: "jb_pc jb = Polling d n ok \<Longrightarrow> jb_counter jb mod 1024 = 0 \<Longrightarrow> timedOut c now \<Longrightarrow>
    job_step sys i c jb c (jb\<lparr>jb_pc := PollStopping d n ok StopExchange\<rparr>) Quiet"
| Poll_in_time: "jb_pc jb = Polling d n ok \<Longrightarrow> jb_counter jb mod 1024 = 0 \<Longrightarrow> \<not> timedOut c now \<Longrightarrow>
    job_step sys i c jb c (jb\<lparr>jb_pc := Searching d n ok\<rparr>) Quiet"
| Poll_depth: "jb_pc jb = Polling d n ok \<Longrightarrow> jb_counter jb mod 1024 \<noteq> 0 \<Longrightarrow>
    job_step sys i c jb c (jb\<lparr>jb_pc := Searching d n (ok \<and> cm_depth c = d)\<rparr>) Quiet"
| Poll_stopping: "jb_pc jb = PollStopping d n ok p \<Longrightarrow> stop_next (JobThread i) c p = Some (c', Some p', b) \<Longrightarrow>
    job_step sys i c jb c' (jb\<lparr>jb_pc := PollStopping d n ok p'\<rparr>) (if b then Notify else Quiet)"
| Poll_end: "jb_pc jb = PollStopping d n ok p \<Longrightarrow> stop_next (JobThread i) c p = Some (c', None, b) \<Longrightarrow>
    job_step sys i c jb c' (jb\<lparr>jb_pc := Searching d n False\<rparr>) (if b then Notify else Quiet)"
| Search_end: "jb_pc jb = Searching d n ok \<Longrightarrow>
    job_step sys i c jb c (jb\<lparr>jb_pc := Returned d ok sc bestMove\<rparr>) (if ok then Completed d sc bestMove else Quiet)"
| Run_stopped: "jb_pc jb = Returned d ok sc bestMove \<Longrightarrow> cm_stopped c \<Longrightarrow>
    job_step sys i c jb c (jb\<lparr>jb_pc := JobDone\<rparr>) Quiet"
| Run_on: "jb_pc jb = Returned d ok sc bestMove \<Longrightarrow> \<not> cm_stopped c \<Longrightarrow>
    job_step sys i c jb c (jb\<lparr>jb_pc := Finishing d ok sc bestMove\<rparr>) Quiet"
| Finish_first: "jb_pc jb = Finishing d ok sc bestMove \<Longrightarrow> finishDepth d c = (True, c') \<Longrightarrow>
    job_step sys i c jb c' (jb\<lparr>jb_pc := Unwinding d ok sc bestMove\<rparr>) Quiet"
| Finish_late: "jb_pc jb = Finishing d ok sc bestMove \<Longrightarrow> finishDepth d c = (False, c') \<Longrightarrow>
    job_step sys i c jb c' (jb\<lparr>jb_pc := NextDepth (d + 1)\<rparr>) Quiet"
| Unwind: "jb_pc jb = Unwinding d ok sc bestMove \<Longrightarrow> unwindPv (js_zobrist sys) ld n (js_board sys) bestMove = Some pv \<Longrightarrow>
    job_step sys i c jb c (jb\<lparr>jb_pc := Adding ok \<lparr>sr_depth = d, sr_pv = pv, sr_cost = scoreToPositionCost sc, sr_bound = Exact\<rparr> AddLock\<rparr>) Quiet"
| Add_line: "jb_pc jb = Adding ok line p \<Longrightarrow> add_next (JobThread i) line c p = Some (c', Some p', b) \<Longrightarrow>
    job_step sys i c jb c' (jb\<lparr>jb_pc := Adding ok line p'\<rparr>) (if b then Notify else Quiet)"
| Add_end: "jb_pc jb = Adding ok line p \<Longrightarrow> add_next (JobThread i) line c p = Some (c', None, b) \<Longrightarrow>
    job_step sys i c jb c' (jb\<lparr>jb_pc := NextDepth (sr_depth line + 1)\<rparr>) (if b then Notify else Quiet)"
| Run_stopping: "jb_pc jb = RunStopping p \<Longrightarrow> stop_next (JobThread i) c p = Some (c', Some p', b) \<Longrightarrow>
    job_step sys i c jb c' (jb\<lparr>jb_pc := RunStopping p'\<rparr>) (if b then Notify else Quiet)"
| Run_end: "jb_pc jb = RunStopping p \<Longrightarrow> stop_next (JobThread i) c p = Some (c', None, b) \<Longrightarrow>
    job_step sys i c jb c' (jb\<lparr>jb_pc := JobDone\<rparr>) (if b then Notify else Quiet)"

section \<open>The main thread\<close>

datatype main_pc =
    Waiting
  | Checking
  | GoingToSleep
  | Sleeping
  | Woken
  | Rechecking
  | Event job_event
  | ExtractLock
  | Extracting
  | Handling "search_result list"
  | CheckingLimits
  | MainStopping stop_pc
  | Joining
  | FinishingSearch
  | MainDone

text \<open>\<open>mn_sent\<close> and \<open>mn_finished\<close> are the results and the best move that were sent to the server.\<close>

record main_state =
  mn_pc :: main_pc
  mn_bestDepth :: nat
  mn_bestMove :: move
  mn_sent :: "search_result list"
  mn_finished :: "move list"

definition handle_line :: "search_result \<Rightarrow> main_state \<Rightarrow> main_state" where
  "handle_line line m =
     (let m' = m\<lparr>mn_sent := mn_sent m @ [line]\<rparr>
      in if sr_depth line > mn_bestDepth m' \<and> sr_pv line \<noteq> []
         then m'\<lparr>mn_bestDepth := sr_depth line, mn_bestMove := sr_pv line ! 0\<rparr> else m')"

definition main_mustStop :: "search_limits \<Rightarrow> int \<Rightarrow> u64 \<Rightarrow> int \<Rightarrow> bool" where
  "main_mustStop limits startTime nodes now \<longleftrightarrow>
     nodes > lim_nodes limits \<or> (lim_time limits \<noteq> TIME_UNLIMITED \<and> now - startTime > lim_time limits)"

definition pickRandomMove :: "(move list \<Rightarrow> move list) \<Rightarrow> board \<Rightarrow> move" where
  "pickRandomMove shuffle b =
     (case find (isMoveLegal b) (shuffle (genAllMoves (newMoveGen b))) of Some m \<Rightarrow> m | None \<Rightarrow> move_null)"

definition finishSearch :: "(move list \<Rightarrow> move list) \<Rightarrow> board \<Rightarrow> main_state \<Rightarrow> main_state" where
  "finishSearch shuffle b m =
     (let m' = (if move_eq (mn_bestMove m) move_null then m\<lparr>mn_bestMove := pickRandomMove shuffle b\<rparr> else m)
      in m'\<lparr>mn_finished := mn_finished m' @ [mn_bestMove m']\<rparr>)"

text \<open>\<open>alone\<close> tells that all jobs have returned. The flag of the result tells whether threads are notified.\<close>

inductive main_step :: "job_system \<Rightarrow> bool \<Rightarrow> communicator \<Rightarrow> main_state \<Rightarrow> communicator \<Rightarrow> main_state \<Rightarrow> bool \<Rightarrow> bool"
  for sys alone c m where
  Wait_lock: "mn_pc m = Waiting \<Longrightarrow> cm_lock c = None \<Longrightarrow> main_step sys alone c m (lock_by MainThread c) (m\<lparr>mn_pc := Checking\<rparr>) False"
| Wait_event: "mn_pc m = Checking \<Longrightarrow> checkEventUnlocked c = e \<Longrightarrow> e \<noteq> Timeout \<Longrightarrow>
    main_step sys alone c m (unlock c) (m\<lparr>mn_pc := Event e\<rparr>) False"
| Wait_none: "mn_pc m = Checking \<Longrightarrow> checkEventUnlocked c = Timeout \<Longrightarrow>
    main_step sys alone c m c (m\<lparr>mn_pc := GoingToSleep\<rparr>) False"
| Wait_sleep: "mn_pc m = GoingToSleep \<Longrightarrow> main_step sys alone c m (unlock c) (m\<lparr>mn_pc := Sleeping\<rparr>) False"
| Wait_timeout: "mn_pc m = Sleeping \<Longrightarrow> main_step sys alone c m c (m\<lparr>mn_pc := Woken\<rparr>) False"
| Wait_relock: "mn_pc m = Woken \<Longrightarrow> cm_lock c = None \<Longrightarrow> main_step sys alone c m (lock_by MainThread c) (m\<lparr>mn_pc := Rechecking\<rparr>) False"
| Wait_return: "mn_pc m = Rechecking \<Longrightarrow>
    main_step sys alone c m (unlock c) (m\<lparr>mn_pc := Event (checkEventUnlocked c)\<rparr>) False"
| Loop_break: "mn_pc m = Event Stopped \<Longrightarrow> main_step sys alone c m c (m\<lparr>mn_pc := Joining\<rparr>) False"
| Loop_lines: "mn_pc m = Event NewLines \<Longrightarrow> main_step sys alone c m c (m\<lparr>mn_pc := ExtractLock\<rparr>) False"
| Loop_timeout: "mn_pc m = Event Timeout \<Longrightarrow> main_step sys alone c m c (m\<lparr>mn_pc := CheckingLimits\<rparr>) False"
| Extract_lock: "mn_pc m = ExtractLock \<Longrightarrow> cm_lock c = None \<Longrightarrow>
    main_step sys alone c m (lock_by MainThread c) (m\<lparr>mn_pc := Extracting\<rparr>) False"
| Extract: "mn_pc m = Extracting \<Longrightarrow>
    main_step sys alone c m (c\<lparr>cm_lines := [], cm_lock := None\<rparr>) (m\<lparr>mn_pc := Handling (cm_lines c)\<rparr>) False"
| Handle: "mn_pc m = Handling lines \<Longrightarrow> mset ls = mset lines \<Longrightarrow> sorted (map sr_depth ls) \<Longrightarrow>
    main_step sys alone c m c ((fold handle_line ls m)\<lparr>mn_pc := CheckingLimits\<rparr>) False"
| Limits_over: "mn_pc m = CheckingLimits \<Longrightarrow> main_mustStop (cm_limits c) (cm_startTime c) nodes now \<Longrightarrow>
    main_step sys alone c m c (m\<lparr>mn_pc := MainStopping StopExchange\<rparr>) False"
| Limits_ok: "mn_pc m = CheckingLimits \<Longrightarrow> \<not> main_mustStop (cm_limits c) (cm_startTime c) nodes now \<Longrightarrow>
    main_step sys alone c m c (m\<lparr>mn_pc := Waiting\<rparr>) False"
| Main_stopping: "mn_pc m = MainStopping p \<Longrightarrow> stop_next MainThread c p = Some (c', Some p', b) \<Longrightarrow>
    main_step sys alone c m c' (m\<lparr>mn_pc := MainStopping p'\<rparr>) b"
| Main_stop_end: "mn_pc m = MainStopping p \<Longrightarrow> stop_next MainThread c p = Some (c', None, b) \<Longrightarrow>
    main_step sys alone c m c' (m\<lparr>mn_pc := Waiting\<rparr>) b"
| Join: "mn_pc m = Joining \<Longrightarrow> alone \<Longrightarrow> main_step sys alone c m c (m\<lparr>mn_pc := FinishingSearch\<rparr>) False"
| Finish: "mn_pc m = FinishingSearch \<Longrightarrow> (\<And>ms. mset (shuffle ms) = mset ms) \<Longrightarrow>
    main_step sys alone c m c ((finishSearch shuffle (js_board sys) m)\<lparr>mn_pc := MainDone\<rparr>) False"

section \<open>All threads together\<close>

text \<open>The user interface may call \<^verbatim>\<open>stop()\<close> as often as it likes; the number counts the calls to come.\<close>

datatype api_pc = ApiIdle nat | ApiStopping nat stop_pc

record job_world =
  jw_comm :: communicator
  jw_jobs :: "job_state list"
  jw_main :: main_state
  jw_api :: api_pc
  jw_completed :: "(nat \<times> nat \<times> score \<times> move) set"

definition wake :: "main_state \<Rightarrow> main_state" where
  "wake m = (if mn_pc m = Sleeping then m\<lparr>mn_pc := Woken\<rparr> else m)"

definition all_done :: "job_world \<Rightarrow> bool" where
  "all_done w \<longleftrightarrow> list_all (\<lambda>jb. jb_pc jb = JobDone) (jw_jobs w)"

fun job_effects :: "nat \<Rightarrow> job_effect \<Rightarrow> job_world \<Rightarrow> job_world" where
  "job_effects i Quiet w = w"
| "job_effects i Notify w = w\<lparr>jw_main := wake (jw_main w)\<rparr>"
| "job_effects i (Completed d sc mv) w = w\<lparr>jw_completed := insert (i, d, sc, mv) (jw_completed w)\<rparr>"

inductive search_step :: "job_system \<Rightarrow> job_world \<Rightarrow> job_world \<Rightarrow> bool" for sys w where
  Job: "i < length (jw_jobs w) \<Longrightarrow> job_step sys i (jw_comm w) (jw_jobs w ! i) c jb e \<Longrightarrow>
    search_step sys w (job_effects i e (w\<lparr>jw_comm := c, jw_jobs := (jw_jobs w)[i := jb]\<rparr>))"
| Main: "main_step sys (all_done w) (jw_comm w) (jw_main w) c m b \<Longrightarrow>
    search_step sys w (w\<lparr>jw_comm := c, jw_main := (if b then wake m else m)\<rparr>)"
| Api_call: "jw_api w = ApiIdle (Suc k) \<Longrightarrow> search_step sys w (w\<lparr>jw_api := ApiStopping k StopExchange\<rparr>)"
| Api_stopping: "jw_api w = ApiStopping k p \<Longrightarrow> stop_next ApiThread (jw_comm w) p = Some (c, Some p', b) \<Longrightarrow>
    search_step sys w (w\<lparr>jw_comm := c, jw_api := ApiStopping k p', jw_main := (if b then wake (jw_main w) else jw_main w)\<rparr>)"
| Api_return: "jw_api w = ApiStopping k p \<Longrightarrow> stop_next ApiThread (jw_comm w) p = Some (c, None, b) \<Longrightarrow>
    search_step sys w (w\<lparr>jw_comm := c, jw_api := ApiIdle k, jw_main := (if b then wake (jw_main w) else jw_main w)\<rparr>)"

definition new_communicator :: communicator where
  "new_communicator = \<lparr>cm_depth = 1, cm_stopped = False, cm_startTime = 0, cm_limits = withInfiniteTime,
     cm_lock = None, cm_lines = []\<rparr>"

definition search_start :: "job_system \<Rightarrow> search_limits \<Rightarrow> int \<Rightarrow> nat \<Rightarrow> job_world" where
  "search_start sys limits now calls =
     \<lparr>jw_comm = comm_reset limits now new_communicator,
      jw_jobs = replicate (js_jobs sys) \<lparr>jb_pc = NextDepth 1, jb_counter = 0\<rparr>,
      jw_main = \<lparr>mn_pc = Waiting, mn_bestDepth = 0, mn_bestMove = move_null, mn_sent = [], mn_finished = []\<rparr>,
      jw_api = ApiIdle calls, jw_completed = {}\<rparr>"

inductive search_reachable :: "job_system \<Rightarrow> search_limits \<Rightarrow> int \<Rightarrow> nat \<Rightarrow> job_world \<Rightarrow> bool" for sys limits now calls where
  Start: "search_reachable sys limits now calls (search_start sys limits now calls)"
| Step: "search_reachable sys limits now calls w \<Longrightarrow> search_step sys w w' \<Longrightarrow> search_reachable sys limits now calls w'"

end
