(* ===== verification/Jobs_Locks.thy ===== *)
theory Jobs_Locks
  imports Jobs
begin

text \<open>
  The mutex of the communicator is held by at most one thread, and a main thread that sleeps although
  there are lines or the search was stopped is about to be notified.
\<close>

section \<open>Calls of stop and addLine\<close>

lemma stop_nextE:
  assumes "stop_next t c p = Some (c', q, b)"
  obtains "p = StopExchange" "cm_stopped c" "c' = c" "q = None" "\<not> b"
  | "p = StopExchange" "\<not> cm_stopped c" "c' = c\<lparr>cm_stopped := True\<rparr>" "q = Some StopLock" "\<not> b"
  | "p = StopLock" "cm_lock c = None" "c' = lock_by t c" "q = Some StopUnlock" "\<not> b"
  | "p = StopUnlock" "c' = unlock c" "q = Some StopNotify" "\<not> b"
  | "p = StopNotify" "c' = c" "q = None" "b"
  using assms by (cases p) (auto split: if_splits)

lemma add_nextE:
  assumes "add_next t line c p = Some (c', q, b)"
  obtains "p = AddLock" "cm_lock c = None" "c' = lock_by t c" "q = Some AddPush" "\<not> b"
  | "p = AddPush" "c' = c\<lparr>cm_lines := cm_lines c @ [line]\<rparr>" "q = Some AddUnlock" "\<not> b"
  | "p = AddUnlock" "c' = unlock c" "q = Some AddNotify" "\<not> b"
  | "p = AddNotify" "c' = c" "q = None" "b"
  using assms by (cases p) (auto split: if_splits)

lemma finishDepth_iff:
  "finishDepth d c = (r, c') \<longleftrightarrow> (if cm_depth c = d then r \<and> c' = c\<lparr>cm_depth := d + 1\<rparr> else \<not> r \<and> c' = c)"
  by (auto simp: finishDepth_def)

section \<open>Who holds the lock\<close>

fun stop_holds :: "stop_pc \<Rightarrow> bool" where
  "stop_holds StopUnlock \<longleftrightarrow> True"
| "stop_holds _ \<longleftrightarrow> False"

fun job_holds :: "job_pc \<Rightarrow> bool" where
  "job_holds (PollStopping d n ok p) \<longleftrightarrow> stop_holds p"
| "job_holds (RunStopping p) \<longleftrightarrow> stop_holds p"
| "job_holds (Adding ok line p) \<longleftrightarrow> p = AddPush \<or> p = AddUnlock"
| "job_holds _ \<longleftrightarrow> False"

fun main_holds :: "main_pc \<Rightarrow> bool" where
  "main_holds Checking \<longleftrightarrow> True"
| "main_holds GoingToSleep \<longleftrightarrow> True"
| "main_holds Rechecking \<longleftrightarrow> True"
| "main_holds Extracting \<longleftrightarrow> True"
| "main_holds (MainStopping p) \<longleftrightarrow> stop_holds p"
| "main_holds _ \<longleftrightarrow> False"

fun api_holds :: "api_pc \<Rightarrow> bool" where
  "api_holds (ApiIdle k) \<longleftrightarrow> False"
| "api_holds (ApiStopping k p) \<longleftrightarrow> stop_holds p"

definition holds :: "job_world \<Rightarrow> thread_id \<Rightarrow> bool" where
  "holds w t = (case t of ApiThread \<Rightarrow> api_holds (jw_api w) | MainThread \<Rightarrow> main_holds (mn_pc (jw_main w))
     | JobThread i \<Rightarrow> i < length (jw_jobs w) \<and> job_holds (jb_pc (jw_jobs w ! i)))"

definition lock_ok :: "job_world \<Rightarrow> bool" where
  "lock_ok w \<longleftrightarrow> (\<forall>t. cm_lock (jw_comm w) = Some t \<longleftrightarrow> holds w t)"

text \<open>A thread's step moves the lock only from nobody to itself or back, and keeps in step with its position.\<close>

definition own_lock :: "thread_id \<Rightarrow> bool \<Rightarrow> bool \<Rightarrow> communicator \<Rightarrow> communicator \<Rightarrow> bool" where
  "own_lock t h h' c c' \<longleftrightarrow> (h = h' \<and> cm_lock c' = cm_lock c) \<or> (\<not> h \<and> h' \<and> cm_lock c = None \<and> cm_lock c' = Some t) \<or>
     (h \<and> \<not> h' \<and> cm_lock c' = None)"

lemma stop_own_lock:
  "stop_next t c p = Some (c', Some p', b) \<Longrightarrow> own_lock t (stop_holds p) (stop_holds p') c c'"
  "stop_next t c p = Some (c', None, b) \<Longrightarrow> own_lock t (stop_holds p) False c c'"
  by (auto elim!: stop_nextE simp: own_lock_def)

lemma job_own_lock:
  "job_step sys i c jb c' jb' e \<Longrightarrow> own_lock (JobThread i) (job_holds (jb_pc jb)) (job_holds (jb_pc jb')) c c'"
  by (erule job_step.cases) (auto simp: stop_own_lock finishDepth_iff own_lock_def elim!: stop_nextE add_nextE split: if_splits)

lemma fold_handle_line_pc [simp]: "mn_pc (fold handle_line ls m) = mn_pc m" "mn_finished (fold handle_line ls m) = mn_finished m"
  by (induction ls arbitrary: m) (simp_all add: handle_line_def Let_def)

lemma finishSearch_sel [simp]: "mn_pc (finishSearch shuffle b m) = mn_pc m" "mn_sent (finishSearch shuffle b m) = mn_sent m"
  by (simp_all add: finishSearch_def Let_def)

lemma main_own_lock:
  "main_step sys alone c m c' m' b \<Longrightarrow> own_lock MainThread (main_holds (mn_pc m)) (main_holds (mn_pc m')) c c'"
  by (erule main_step.cases) (auto simp: stop_own_lock own_lock_def elim!: stop_nextE)

lemma wake_sel [simp]:
  "mn_bestDepth (wake m) = mn_bestDepth m" "mn_bestMove (wake m) = mn_bestMove m" "mn_sent (wake m) = mn_sent m"
  "mn_finished (wake m) = mn_finished m" "mn_pc (wake m) \<noteq> Sleeping"
  "mn_pc (wake m) = (if mn_pc m = Sleeping then Woken else mn_pc m)"
  by (simp_all add: wake_def)

lemma main_holds_wake [simp]: "main_holds (mn_pc (wake m)) = main_holds (mn_pc m)"
  by (simp add: wake_def)

lemma job_effects_sel [simp]:
  "jw_comm (job_effects i e w) = jw_comm w" "jw_jobs (job_effects i e w) = jw_jobs w" "jw_api (job_effects i e w) = jw_api w"
  "jw_main (job_effects i e w) = (if e = Notify then wake (jw_main w) else jw_main w)"
  "jw_completed (job_effects i e w) = (case e of Completed d sc mv \<Rightarrow> insert (i, d, sc, mv) (jw_completed w) | _ \<Rightarrow> jw_completed w)"
  by (cases e; simp)+

lemma lock_step:
  assumes "lock_ok w" "own_lock t (holds w t) (holds w' t) (jw_comm w) (jw_comm w')" "\<And>u. u \<noteq> t \<Longrightarrow> holds w' u = holds w u"
  shows "lock_ok w'"
  unfolding lock_ok_def
proof
  fix u
  have l: "cm_lock (jw_comm w) = Some v \<longleftrightarrow> holds w v" for v using assms(1) by (simp add: lock_ok_def)
  show "cm_lock (jw_comm w') = Some u \<longleftrightarrow> holds w' u"
    using assms(2) assms(3) [of u] l [of t] l [of u] unfolding own_lock_def by (cases "u = t") auto
qed

lemma lock_ok_step: "lock_ok w \<Longrightarrow> search_step sys w w' \<Longrightarrow> lock_ok w'"
proof (erule search_step.cases)
  fix i c jb e
  assume w: "lock_ok w" and i: "i < length (jw_jobs w)" "job_step sys i (jw_comm w) (jw_jobs w ! i) c jb e"
    and w': "w' = job_effects i e (w\<lparr>jw_comm := c, jw_jobs := (jw_jobs w)[i := jb]\<rparr>)"
  show "lock_ok w'"
    by (rule lock_step [OF w, of "JobThread i"])
       (use job_own_lock [OF i(2)] i(1) in \<open>auto simp: w' holds_def nth_list_update split: thread_id.splits\<close>)
next
  fix c m b
  assume w: "lock_ok w" and m: "main_step sys (all_done w) (jw_comm w) (jw_main w) c m b"
    and w': "w' = w\<lparr>jw_comm := c, jw_main := if b then wake m else m\<rparr>"
  show "lock_ok w'"
    by (rule lock_step [OF w, of MainThread]) (use main_own_lock [OF m] in \<open>auto simp: w' holds_def simp del: wake_sel(6) split: thread_id.splits\<close>)
next
  fix k
  assume w: "lock_ok w" and k: "jw_api w = ApiIdle (Suc k)" and w': "w' = w\<lparr>jw_api := ApiStopping k StopExchange\<rparr>"
  show "lock_ok w'"
    by (rule lock_step [OF w, of ApiThread]) (auto simp: w' k holds_def own_lock_def split: thread_id.splits)
next
  fix k p c p' b
  assume w: "lock_ok w" and k: "jw_api w = ApiStopping k p" and s: "stop_next ApiThread (jw_comm w) p = Some (c, Some p', b)"
    and w': "w' = w\<lparr>jw_comm := c, jw_api := ApiStopping k p', jw_main := if b then wake (jw_main w) else jw_main w\<rparr>"
  show "lock_ok w'"
    by (rule lock_step [OF w, of ApiThread]) (use stop_own_lock(1) [OF s] in \<open>auto simp: w' k holds_def simp del: wake_sel(6) split: thread_id.splits\<close>)
next
  fix k p c b
  assume w: "lock_ok w" and k: "jw_api w = ApiStopping k p" and s: "stop_next ApiThread (jw_comm w) p = Some (c, None, b)"
    and w': "w' = w\<lparr>jw_comm := c, jw_api := ApiIdle k, jw_main := if b then wake (jw_main w) else jw_main w\<rparr>"
  show "lock_ok w'"
    by (rule lock_step [OF w, of ApiThread]) (use stop_own_lock(2) [OF s] in \<open>auto simp: w' k holds_def simp del: wake_sel(6) split: thread_id.splits\<close>)
qed

lemma search_start_sel [simp]:
  "jw_comm (search_start sys limits now calls) = \<lparr>cm_depth = 1, cm_stopped = False, cm_startTime = now, cm_limits = limits,
     cm_lock = None, cm_lines = []\<rparr>"
  "jw_jobs (search_start sys limits now calls) = replicate (js_jobs sys) \<lparr>jb_pc = NextDepth 1, jb_counter = 0\<rparr>"
  "jw_main (search_start sys limits now calls) =
     \<lparr>mn_pc = Waiting, mn_bestDepth = 0, mn_bestMove = move_null, mn_sent = [], mn_finished = []\<rparr>"
  "jw_api (search_start sys limits now calls) = ApiIdle calls" "jw_completed (search_start sys limits now calls) = {}"
  by (simp_all add: search_start_def comm_reset_def new_communicator_def)

lemma lock_ok_reachable: "search_reachable sys limits now calls w \<Longrightarrow> lock_ok w"
proof (induction rule: search_reachable.induct)
  case Start
  then show ?case by (auto simp: lock_ok_def holds_def split: thread_id.splits)
next
  case (Step w w')
  show ?case by (rule lock_ok_step [OF Step.IH Step.hyps(2)])
qed

section \<open>No lost wakeups\<close>

fun stop_at :: "job_pc \<Rightarrow> stop_pc option" where
  "stop_at (PollStopping d n ok p) = Some p"
| "stop_at (RunStopping p) = Some p"
| "stop_at _ = None"

fun add_at :: "job_pc \<Rightarrow> add_pc option" where
  "add_at (Adding ok line p) = Some p"
| "add_at _ = None"

definition stop_call :: "job_world \<Rightarrow> stop_pc \<Rightarrow> bool" where
  "stop_call w p \<longleftrightarrow> (\<exists>i < length (jw_jobs w). stop_at (jb_pc (jw_jobs w ! i)) = Some p) \<or> (\<exists>k. jw_api w = ApiStopping k p)"

definition add_call :: "job_world \<Rightarrow> add_pc \<Rightarrow> bool" where
  "add_call w p \<longleftrightarrow> (\<exists>i < length (jw_jobs w). add_at (jb_pc (jw_jobs w ! i)) = Some p)"

text \<open>A thread other than the main one is between its change and its \<^verbatim>\<open>notify_all()\<close>.\<close>

definition notify_pending :: "job_world \<Rightarrow> bool" where
  "notify_pending w \<longleftrightarrow> stop_call w StopLock \<or> stop_call w StopUnlock \<or> stop_call w StopNotify \<or> add_call w AddUnlock \<or> add_call w AddNotify"

definition wake_ok :: "job_world \<Rightarrow> bool" where
  "wake_ok w \<longleftrightarrow>
     (mn_pc (jw_main w) = GoingToSleep \<longrightarrow> cm_lines (jw_comm w) = [] \<and> (cm_stopped (jw_comm w) \<longrightarrow> stop_call w StopLock)) \<and>
     (mn_pc (jw_main w) = Sleeping \<longrightarrow> cm_lines (jw_comm w) \<noteq> [] \<or> cm_stopped (jw_comm w) \<longrightarrow> notify_pending w)"


fun stop_pending :: "stop_pc \<Rightarrow> bool" where
  "stop_pending StopExchange \<longleftrightarrow> False"
| "stop_pending _ \<longleftrightarrow> True"

fun job_pending :: "job_pc \<Rightarrow> bool" where
  "job_pending (PollStopping d n ok p) \<longleftrightarrow> stop_pending p"
| "job_pending (RunStopping p) \<longleftrightarrow> stop_pending p"
| "job_pending (Adding ok line p) \<longleftrightarrow> p = AddUnlock \<or> p = AddNotify"
| "job_pending _ \<longleftrightarrow> False"

fun api_pending :: "api_pc \<Rightarrow> bool" where
  "api_pending (ApiIdle k) \<longleftrightarrow> False"
| "api_pending (ApiStopping k p) \<longleftrightarrow> stop_pending p"

lemma stop_pending_iff: "stop_pending p \<longleftrightarrow> p = StopLock \<or> p = StopUnlock \<or> p = StopNotify"
  by (cases p) auto

lemma notify_pending_iff:
  "notify_pending w \<longleftrightarrow> (\<exists>i < length (jw_jobs w). job_pending (jb_pc (jw_jobs w ! i))) \<or> api_pending (jw_api w)"
proof -
  have j: "job_pending pc \<longleftrightarrow> stop_at pc = Some StopLock \<or> stop_at pc = Some StopUnlock \<or> stop_at pc = Some StopNotify \<or>
      add_at pc = Some AddUnlock \<or> add_at pc = Some AddNotify" for pc
    by (cases pc) (auto simp: stop_pending_iff)
  have a: "api_pending pc \<longleftrightarrow> (\<exists>k. pc = ApiStopping k StopLock) \<or> (\<exists>k. pc = ApiStopping k StopUnlock) \<or> (\<exists>k. pc = ApiStopping k StopNotify)" for pc
    by (cases pc) (auto simp: stop_pending_iff)
  show ?thesis unfolding notify_pending_def stop_call_def add_call_def j a by blast
qed

lemma stop_changes:
  assumes "stop_next t c p = Some (c', q, b)"
  shows "cm_lines c' = cm_lines c" "cm_stopped c \<Longrightarrow> cm_stopped c'" "cm_stopped c' \<Longrightarrow> \<not> cm_stopped c \<Longrightarrow> q = Some StopLock"
    "\<not> b \<Longrightarrow> stop_pending p \<Longrightarrow> \<exists>p'. q = Some p' \<and> stop_pending p'" "p = StopLock \<Longrightarrow> cm_lock c = None"
    "cm_depth c' = cm_depth c" "cm_limits c' = cm_limits c" "cm_startTime c' = cm_startTime c"
    "q = None \<Longrightarrow> p = StopExchange \<Longrightarrow> cm_stopped c"
  using assms by (auto elim!: stop_nextE split: if_splits)

lemma add_changes:
  assumes "add_next t line c p = Some (c', q, b)"
  shows "cm_stopped c' = cm_stopped c" "cm_lines c' \<noteq> cm_lines c \<Longrightarrow> p = AddPush \<and> q = Some AddUnlock"
    "p = AddUnlock \<Longrightarrow> q = Some AddNotify" "p = AddNotify \<Longrightarrow> b" "cm_depth c' = cm_depth c"
    "cm_limits c' = cm_limits c" "cm_startTime c' = cm_startTime c" "p = AddLock \<Longrightarrow> cm_lock c = None"
  using assms by (auto elim!: add_nextE split: if_splits)

lemma ex_update_other:
  "k < length xs \<Longrightarrow> P (xs ! k) \<Longrightarrow> \<not> P (xs ! i) \<Longrightarrow> \<exists>k < length xs. P (xs[i := y] ! k)"
  by (metis nth_list_update_neq)

lemma ex_update_kept:
  "k < length xs \<Longrightarrow> P (xs ! k) \<Longrightarrow> (P (xs ! i) \<Longrightarrow> P y) \<Longrightarrow> \<exists>k < length xs. P (xs[i := y] ! k)"
  by (rule exI [of _ k], cases "k = i") auto

lemma job_pending_step:
  assumes "job_step sys i c jb c' jb' e" "e \<noteq> Notify"
  shows "job_pending (jb_pc jb) \<Longrightarrow> job_pending (jb_pc jb')"
    "cm_lines c' \<noteq> cm_lines c \<or> cm_stopped c' \<noteq> cm_stopped c \<Longrightarrow> job_pending (jb_pc jb')"
  using assms by (auto elim!: job_step.cases stop_nextE add_nextE simp: finishDepth_iff split: if_splits)

lemma job_blocked_step:
  assumes "job_step sys i c jb c' jb' e" "cm_lock c = Some t" "\<not> job_holds (jb_pc jb)"
  shows "cm_lines c' = cm_lines c" "stop_at (jb_pc jb) \<noteq> Some StopLock"
    "cm_stopped c' \<noteq> cm_stopped c \<Longrightarrow> stop_at (jb_pc jb') = Some StopLock"
  using assms by (auto elim!: job_step.cases stop_nextE add_nextE simp: finishDepth_iff split: if_splits)

lemma wake_pc: "mn_pc (wake m) = GoingToSleep \<longleftrightarrow> mn_pc m = GoingToSleep"
  by (simp add: wake_def)

lemma wake_ok_job:
  assumes w: "wake_ok w" and l: "lock_ok w" and i: "i < length (jw_jobs w)"
    and j: "job_step sys i (jw_comm w) (jw_jobs w ! i) c jb e"
    and w': "w' = job_effects i e (w\<lparr>jw_comm := c, jw_jobs := (jw_jobs w)[i := jb]\<rparr>)"
  shows "wake_ok w'"
  unfolding wake_ok_def
proof (intro conjI impI)
  assume g: "mn_pc (jw_main w') = GoingToSleep"
  then have g0: "mn_pc (jw_main w) = GoingToSleep" by (simp add: w' wake_def split: if_splits)
  then have o: "cm_lock (jw_comm w) = Some MainThread" using l by (simp add: lock_ok_def holds_def)
  then have n: "\<not> job_holds (jb_pc (jw_jobs w ! i))" using l i by (force simp: lock_ok_def holds_def)
  note b = job_blocked_step [OF j o n]
  show "cm_lines (jw_comm w') = []" using w g0 b(1) by (simp add: w' wake_ok_def)
  show "stop_call w' StopLock" if s: "cm_stopped (jw_comm w')"
  proof (cases "cm_stopped (jw_comm w)")
    case True
    then have "stop_call w StopLock" using w g0 by (simp add: wake_ok_def)
    then show ?thesis using b(2) ex_update_other [of _ "jw_jobs w" "\<lambda>x. stop_at (jb_pc x) = Some StopLock" i jb]
      by (auto simp: stop_call_def w')
  next
    case False
    then show ?thesis using b(3) s i by (auto simp: stop_call_def w' nth_list_update)
  qed
next
  assume g: "mn_pc (jw_main w') = Sleeping" and c: "cm_lines (jw_comm w') \<noteq> [] \<or> cm_stopped (jw_comm w')"
  have e: "e \<noteq> Notify" using g by (auto simp: w' split: if_splits)
  then have g0: "mn_pc (jw_main w) = Sleeping" using g by (simp add: w')
  note b = job_pending_step [OF j e]
  show "notify_pending w'"
  proof (cases "cm_lines c \<noteq> cm_lines (jw_comm w) \<or> cm_stopped c \<noteq> cm_stopped (jw_comm w)")
    case True
    then show ?thesis using b(2) i by (auto simp: notify_pending_iff w' nth_list_update)
  next
    case False
    then have "notify_pending w" using w g0 c by (auto simp: wake_ok_def w')
    then show ?thesis using b(1) ex_update_kept [of _ "jw_jobs w" "\<lambda>x. job_pending (jb_pc x)" i jb]
      by (auto simp: notify_pending_iff w')
  qed
qed

lemma main_wakes_nobody: "main_step sys alone c m c' m' True \<Longrightarrow> mn_pc m' = Waiting"
  by (erule main_step.cases) (auto elim!: stop_nextE)

lemma main_sleep_step:
  assumes "main_step sys alone c m c' m' b"
  shows "mn_pc m' = GoingToSleep \<Longrightarrow> mn_pc m = Checking \<and> c' = c \<and> cm_lines c = [] \<and> \<not> cm_stopped c"
    "mn_pc m' = Sleeping \<Longrightarrow> mn_pc m = GoingToSleep \<and> c' = unlock c"
  using assms by (auto elim!: main_step.cases stop_nextE simp: checkEventUnlocked_def split: if_splits)

lemma wake_ok_main:
  assumes w: "wake_ok w" and m: "main_step sys (all_done w) (jw_comm w) (jw_main w) c m b"
    and w': "w' = w\<lparr>jw_comm := c, jw_main := if b then wake m else m\<rparr>"
  shows "wake_ok w'"
proof (cases b)
  case True
  then show ?thesis using main_wakes_nobody m by (simp add: wake_ok_def w' wake_def)
next
  case False
  have c: "stop_call w' p = stop_call w p" "notify_pending w' = notify_pending w" for p
    by (simp_all add: stop_call_def w' notify_pending_iff)
  show ?thesis using main_sleep_step [OF m] w False by (auto simp: wake_ok_def c) (auto simp: w' notify_pending_def)
qed

lemma wake_ok_api:
  assumes w: "wake_ok w" and l: "lock_ok w" and k: "jw_api w = ApiStopping k p" and s: "stop_next ApiThread (jw_comm w) p = Some (c, q, b)"
    and w': "w' = w\<lparr>jw_comm := c, jw_api := (case q of None \<Rightarrow> ApiIdle k | Some p' \<Rightarrow> ApiStopping k p'),
      jw_main := if b then wake (jw_main w) else jw_main w\<rparr>"
  shows "wake_ok w'"
  unfolding wake_ok_def
proof (intro conjI impI)
  note ch = stop_changes [OF s]
  assume "mn_pc (jw_main w') = GoingToSleep"
  then have g0: "mn_pc (jw_main w) = GoingToSleep" by (simp add: w' wake_def split: if_splits)
  then have o: "cm_lock (jw_comm w) = Some MainThread" using l by (simp add: lock_ok_def holds_def)
  show "cm_lines (jw_comm w') = []" using w g0 ch(1) by (simp add: w' wake_ok_def)
  show "stop_call w' StopLock" if st: "cm_stopped (jw_comm w')"
  proof (cases "cm_stopped (jw_comm w)")
    case True
    then have "stop_call w StopLock" using w g0 by (simp add: wake_ok_def)
    then show ?thesis using ch(5) o k by (auto simp: stop_call_def w')
  next
    case False
    then show ?thesis using ch(3) st by (auto simp: stop_call_def w')
  qed
next
  note ch = stop_changes [OF s]
  assume g: "mn_pc (jw_main w') = Sleeping" and c: "cm_lines (jw_comm w') \<noteq> [] \<or> cm_stopped (jw_comm w')"
  have b: "\<not> b" using g by (auto simp: w' split: if_splits)
  then have g0: "mn_pc (jw_main w) = Sleeping" using g by (simp add: w')
  show "notify_pending w'"
  proof (cases "cm_stopped c \<and> \<not> cm_stopped (jw_comm w)")
    case True
    then show ?thesis using ch(3) by (simp add: notify_pending_iff w')
  next
    case False
    then have "notify_pending w" using w g0 c ch(1,2) by (auto simp: wake_ok_def w')
    then show ?thesis using ch(4) [OF b] k by (auto simp: notify_pending_iff w')
  qed
qed

lemma wake_ok_step: "wake_ok w \<Longrightarrow> lock_ok w \<Longrightarrow> search_step sys w w' \<Longrightarrow> wake_ok w'"
proof (erule search_step.cases)
  fix k assume w: "wake_ok w" "jw_api w = ApiIdle (Suc k)" "w' = w\<lparr>jw_api := ApiStopping k StopExchange\<rparr>"
  have "stop_call w' p = stop_call w p" if "p = StopLock" for p using w that by (auto simp: stop_call_def)
  moreover have "notify_pending w' = notify_pending w" using w by (simp add: notify_pending_iff)
  ultimately show "wake_ok w'" using w by (simp add: wake_ok_def)
next
  fix k p c p' b
  assume "wake_ok w" "lock_ok w" "jw_api w = ApiStopping k p" "stop_next ApiThread (jw_comm w) p = Some (c, Some p', b)"
    "w' = w\<lparr>jw_comm := c, jw_api := ApiStopping k p', jw_main := if b then wake (jw_main w) else jw_main w\<rparr>"
  then show "wake_ok w'" using wake_ok_api [of w k p c "Some p'" b w'] by simp
next
  fix k p c b
  assume "wake_ok w" "lock_ok w" "jw_api w = ApiStopping k p" "stop_next ApiThread (jw_comm w) p = Some (c, None, b)"
    "w' = w\<lparr>jw_comm := c, jw_api := ApiIdle k, jw_main := if b then wake (jw_main w) else jw_main w\<rparr>"
  then show "wake_ok w'" using wake_ok_api [of w k p c None b w'] by simp
qed (auto intro: wake_ok_job wake_ok_main)

lemma wake_ok_reachable: "search_reachable sys limits now calls w \<Longrightarrow> wake_ok w"
proof (induction rule: search_reachable.induct)
  case Start
  then show ?case by (simp add: wake_ok_def)
next
  case (Step w w')
  show ?case by (rule wake_ok_step [OF Step.IH lock_ok_reachable [OF Step.hyps(1)] Step.hyps(2)])
qed

end
