(* ===== verification/Jobs_Lines.thy ===== *)
theory Jobs_Lines
  imports Search Jobs_Locks
begin

text \<open>
  Reading the principal variation back from the table ends, whatever the table answers: every move that
  is added leads to a position whose hash was not seen before.
\<close>

lemma unwindPv_prefix: "unwind_loop z ld n b reps pv = Some r \<Longrightarrow> \<exists>ms. r = pv @ ms"
proof (induction n arbitrary: b reps pv)
  case (Suc n)
  from Suc.prems show ?case
    by (auto simp: Let_def split: if_splits Option.bind_splits prod.splits dest!: Suc.IH)
qed simp

lemma unwindPv_head: "unwindPv z ld n b m = Some pv \<Longrightarrow> pv \<noteq> [] \<and> hd pv = m"
  by (auto simp: unwindPv_def Let_def split: Option.bind_splits dest!: unwindPv_prefix)

definition room :: "rep_table \<Rightarrow> nat" where
  "room reps = card (UNIV - rep_set reps) + (2 ^ 62 - rep_buckets reps)"

lemma room_decreases:
  assumes "rep_inv t'" "rep_set t \<subseteq> rep_set t'" "rep_buckets t \<le> rep_buckets t'"
    "rep_set t' \<noteq> rep_set t \<or> rep_buckets t < rep_buckets t'"
  shows "room t' < room t"
proof -
  obtain k where k: "k \<le> 62" "rep_buckets t' = 2 ^ k" using assms(1) by (auto simp: rep_inv_def)
  have b: "rep_buckets t' \<le> 2 ^ 62" unfolding k(2) by (rule power_increasing) (use k(1) in auto)
  have le: "card (UNIV - rep_set t') \<le> card (UNIV - rep_set t)" by (intro card_mono) (use assms(2) in auto)
  show ?thesis
  proof (cases "rep_set t' = rep_set t")
    case True
    then show ?thesis using assms(4) b by (simp add: room_def)
  next
    case False
    then have "UNIV - rep_set t' \<subset> UNIV - rep_set t" using assms(2) by auto
    then have "card (UNIV - rep_set t') < card (UNIV - rep_set t)" by (intro psubset_card_mono) auto
    then show ?thesis using assms(3) by (simp add: room_def)
  qed
qed

lemma unwind_loop_ends: "rep_inv reps \<Longrightarrow> \<exists>n r. unwind_loop z ld n b reps pv = Some r"
proof (induction "room reps" arbitrary: b reps pv rule: less_induct)
  case less
  define data where "data = ld (hash b)"
  show ?case
  proof (cases "\<not> td_isValid data \<or> move_eq (td_move data) move_null \<or> td_bound data \<noteq> boundVal Exact")
    case True
    then have "unwind_loop z ld (Suc 0) b reps pv = Some pv" by (simp add: data_def)
    then show ?thesis by blast
  next
    case False
    define b' where "b' = fst (moveMake z b (td_move data))"
    obtain fresh t where t: "rep_insert reps (hash b') = Some (fresh, t)" "rep_inv t" "rep_set reps \<subseteq> rep_set t"
        "rep_buckets reps \<le> rep_buckets t" "fresh \<longrightarrow> rep_set t \<noteq> rep_set reps \<or> rep_buckets reps < rep_buckets t"
      using rep_insert_any [OF less.prems, of "hash b'"] by (elim exE conjE) (rule that)
    have step: "unwind_loop z ld (Suc n) b reps pv = (if \<not> fresh then Some pv else unwind_loop z ld n b' t (pv @ [td_move data]))" for n
      using False t(1) unfolding unwind_loop.simps Let_def data_def [symmetric] b'_def [symmetric] by simp
    show ?thesis
    proof (cases fresh)
      case True
      have "room t < room reps" by (rule room_decreases) (use t True in auto)
      then obtain n r where "unwind_loop z ld n b' t (pv @ [td_move data]) = Some r" using less.hyps [OF _ t(2)] by blast
      then have "unwind_loop z ld (Suc n) b reps pv = Some r" using step [of n] True by simp
      then show ?thesis by blast
    next
      case False
      then have "unwind_loop z ld (Suc 0) b reps pv = Some pv" using step [of 0] by simp
      then show ?thesis by blast
    qed
  qed
qed

lemma unwindPv_ends: "\<exists>n pv. unwindPv z ld n b m = Some pv"
proof -
  obtain f1 t1 where 1: "rep_insert rep_empty (hash b) = Some (f1, t1)" "rep_inv t1"
    using rep_insert_any [OF conjunct1 [OF rep_empty_ok], of "hash b"] by blast
  obtain f2 t2 where 2: "rep_insert t1 (hash (fst (moveMake z b m))) = Some (f2, t2)" "rep_inv t2"
    using rep_insert_any [OF 1(2), of "hash (fst (moveMake z b m))"] by blast
  obtain n r where "unwind_loop z ld n (fst (moveMake z b m)) t2 [m] = Some r" using unwind_loop_ends [OF 2(2)] by blast
  then have "unwindPv z ld n b m = Some r" by (simp add: unwindPv_def Let_def 1 2)
  then show ?thesis by blast
qed

text \<open>
  Where lines come from: each depth is reported by one job, after a search of that depth that ran to its
  end, and the main thread keeps the first move of the deepest line it has sent.
\<close>

section \<open>A job and its depth\<close>

type_synonym completions = "(nat \<times> nat \<times> score \<times> move) set"

definition line_from :: "completions \<Rightarrow> nat \<Rightarrow> search_result \<Rightarrow> bool" where
  "line_from comps i line \<longleftrightarrow> (\<exists>sc m. (i, sr_depth line, sc, m) \<in> comps \<and> sr_pv line \<noteq> [] \<and> hd (sr_pv line) = m \<and>
     sr_cost line = scoreToPositionCost sc \<and> sr_bound line = Exact)"

definition good_line :: "completions \<Rightarrow> search_result \<Rightarrow> bool" where
  "good_line comps line \<longleftrightarrow> sr_depth line \<ge> 1 \<and> (\<exists>i. line_from comps i line)"

fun job_ok :: "completions \<Rightarrow> communicator \<Rightarrow> nat \<Rightarrow> job_pc \<Rightarrow> bool" where
  "job_ok comps c i (NextDepth d) \<longleftrightarrow> 1 \<le> d \<and> d \<le> cm_depth c"
| "job_ok comps c i (Searching d n ok) \<longleftrightarrow> 1 \<le> d \<and> d \<le> cm_depth c \<and> (\<not> ok \<longrightarrow> cm_stopped c \<or> d < cm_depth c)"
| "job_ok comps c i (Polling d n ok) \<longleftrightarrow> 1 \<le> d \<and> d \<le> cm_depth c \<and> (\<not> ok \<longrightarrow> cm_stopped c \<or> d < cm_depth c)"
| "job_ok comps c i (PollStopping d n ok p) \<longleftrightarrow> 1 \<le> d \<and> d \<le> cm_depth c \<and> (p \<noteq> StopExchange \<longrightarrow> cm_stopped c)"
| "job_ok comps c i (Returned d ok sc m) \<longleftrightarrow> 1 \<le> d \<and> d \<le> cm_depth c \<and>
     (if ok then (i, d, sc, m) \<in> comps else cm_stopped c \<or> d < cm_depth c)"
| "job_ok comps c i (Finishing d ok sc m) \<longleftrightarrow> 1 \<le> d \<and> d \<le> cm_depth c \<and> (if ok then (i, d, sc, m) \<in> comps else d < cm_depth c)"
| "job_ok comps c i (Unwinding d ok sc m) \<longleftrightarrow> 1 \<le> d \<and> d < cm_depth c \<and> ok \<and> (i, d, sc, m) \<in> comps"
| "job_ok comps c i (Adding ok line p) \<longleftrightarrow> 1 \<le> sr_depth line \<and> sr_depth line < cm_depth c \<and> ok \<and> line_from comps i line"
| "job_ok comps c i (RunStopping p) \<longleftrightarrow> (p \<noteq> StopExchange \<longrightarrow> cm_stopped c)"
| "job_ok comps c i JobDone \<longleftrightarrow> cm_stopped c"

text \<open>What any thread may do to the shared data, seen by the others.\<close>

definition comm_grows :: "communicator \<Rightarrow> communicator \<Rightarrow> bool" where
  "comm_grows c c' \<longleftrightarrow> cm_depth c \<le> cm_depth c' \<and> (cm_stopped c \<longrightarrow> cm_stopped c') \<and> cm_limits c' = cm_limits c"

lemma stop_grows: "stop_next t c p = Some (c', q, b) \<Longrightarrow> comm_grows c c'"
  by (auto simp: comm_grows_def stop_changes)

lemma job_grows: "job_step sys i c jb c' jb' e \<Longrightarrow> comm_grows c c'"
  by (erule job_step.cases) (auto simp: finishDepth_iff stop_grows comm_grows_def add_changes dest: stop_changes split: if_splits)

lemma main_grows: "main_step sys alone c m c' m' b \<Longrightarrow> comm_grows c c'"
  by (erule main_step.cases) (auto simp: stop_grows comm_grows_def dest: stop_changes)

lemma job_ok_mono: "job_ok comps c i pc \<Longrightarrow> comm_grows c c' \<Longrightarrow> comps \<subseteq> comps' \<Longrightarrow> job_ok comps' c' i pc"
  by (cases pc) (auto simp: comm_grows_def line_from_def split: if_splits)

fun comps_after :: "nat \<Rightarrow> job_effect \<Rightarrow> completions \<Rightarrow> completions" where
  "comps_after i (Completed d sc m) comps = insert (i, d, sc, m) comps"
| "comps_after i _ comps = comps"

lemma job_effects_completed: "jw_completed (job_effects i e w) = comps_after i e (jw_completed w)"
  by (cases e) simp_all

lemma job_ok_step:
  assumes "job_step sys i c jb c' jb' e" "job_ok comps c i (jb_pc jb)"
  shows "job_ok (comps_after i e comps) c' i (jb_pc jb')"
  using assms
  by (auto elim!: job_step.cases stop_nextE add_nextE simp: finishDepth_iff line_from_def dest!: unwindPv_head split: if_splits)

section \<open>Each depth is reported once\<close>

text \<open>The depths whose lines are on their way to the server.\<close>

fun job_claim :: "job_pc \<Rightarrow> nat multiset" where
  "job_claim (Unwinding d ok sc m) = {#d#}"
| "job_claim (Adding ok line p) = (if p = AddLock \<or> p = AddPush then {#sr_depth line#} else {#})"
| "job_claim _ = {#}"

fun main_lines :: "main_pc \<Rightarrow> search_result list" where
  "main_lines (Handling lines) = lines"
| "main_lines _ = []"

definition claims :: "job_world \<Rightarrow> nat multiset" where
  "claims w = mset (map sr_depth (cm_lines (jw_comm w))) + mset (map sr_depth (mn_sent (jw_main w))) +
     mset (map sr_depth (main_lines (mn_pc (jw_main w)))) + (\<Sum>jb \<leftarrow> jw_jobs w. job_claim (jb_pc jb))"

lemma sum_list_update_claim:
  "i < length xs \<Longrightarrow> sum_list (map f (xs[i := y])) + f (xs ! i) = sum_list (map f xs) + (f y :: nat multiset)"
proof (induction xs arbitrary: i)
  case (Cons x xs)
  then show ?case by (cases i) (simp_all add: ac_simps)
qed simp

lemma job_claim_step:
  assumes "job_step sys i c jb c' jb' e"
  shows "mset (map sr_depth (cm_lines c')) + job_claim (jb_pc jb') + mset [1..<cm_depth c] =
    mset (map sr_depth (cm_lines c)) + job_claim (jb_pc jb) + mset [1..<cm_depth c'] \<or> cm_depth c = 0"
  using assms
  by (auto elim!: job_step.cases stop_nextE add_nextE simp: finishDepth_iff upt_Suc simp del: mset_upt split: if_splits)

lemma handle_line_sent: "mn_sent (fold handle_line ls m) = mn_sent m @ ls"
  by (induction ls arbitrary: m) (simp_all add: handle_line_def Let_def)

lemma main_claim_step:
  assumes "main_step sys alone c m c' m' b"
  shows "mset (cm_lines c') + mset (mn_sent m') + mset (main_lines (mn_pc m')) =
    mset (cm_lines c) + mset (mn_sent m) + mset (main_lines (mn_pc m)) \<and> cm_depth c' = cm_depth c"
  using assms by (auto elim!: main_step.cases stop_nextE simp: handle_line_sent)

section \<open>The invariant\<close>

definition best_ok :: "main_state \<Rightarrow> bool" where
  "best_ok m \<longleftrightarrow> (if mn_sent m = [] then mn_bestDepth m = 0 \<and> mn_bestMove m = move_null
     else (\<exists>line \<in> set (mn_sent m). mn_bestDepth m = sr_depth line \<and> mn_bestMove m = hd (sr_pv line)) \<and>
       (\<forall>line \<in> set (mn_sent m). sr_depth line \<le> mn_bestDepth m))"

definition lines_ok :: "job_world \<Rightarrow> bool" where
  "lines_ok w \<longleftrightarrow> 1 \<le> cm_depth (jw_comm w) \<and> claims w = mset [1..<cm_depth (jw_comm w)] \<and>
     (\<forall>i < length (jw_jobs w). job_ok (jw_completed w) (jw_comm w) i (jb_pc (jw_jobs w ! i))) \<and>
     (\<forall>line \<in> set (cm_lines (jw_comm w)) \<union> set (mn_sent (jw_main w)) \<union> set (main_lines (mn_pc (jw_main w))).
        good_line (jw_completed w) line) \<and>
     (mn_pc (jw_main w) \<noteq> MainDone \<longrightarrow> best_ok (jw_main w) \<and> mn_finished (jw_main w) = [])"

lemma good_line_mono: "good_line comps line \<Longrightarrow> comps \<subseteq> comps' \<Longrightarrow> good_line comps' line"
  by (auto simp: good_line_def line_from_def)

lemma comps_after_mono: "comps \<subseteq> comps_after i e comps"
  by (cases e) auto

lemma job_adds_good:
  assumes "job_step sys i c jb c' jb' e" "job_ok comps c i (jb_pc jb)" "line \<in> set (cm_lines c')"
  shows "line \<in> set (cm_lines c) \<or> good_line comps line"
  using assms by (auto elim!: job_step.cases stop_nextE add_nextE simp: finishDepth_iff good_line_def split: if_splits)

lemma lines_ok_job:
  assumes w: "lines_ok w" and i: "i < length (jw_jobs w)"
    and j: "job_step sys i (jw_comm w) (jw_jobs w ! i) c jb e"
    and w': "w' = job_effects i e (w\<lparr>jw_comm := c, jw_jobs := (jw_jobs w)[i := jb]\<rparr>)"
  shows "lines_ok w'"
proof -
  have d: "1 \<le> cm_depth (jw_comm w)" and cl: "claims w = mset [1..<cm_depth (jw_comm w)]"
    and ok: "\<And>k. k < length (jw_jobs w) \<Longrightarrow> job_ok (jw_completed w) (jw_comm w) k (jb_pc (jw_jobs w ! k))"
    using w by (auto simp: lines_ok_def)
  have g: "comm_grows (jw_comm w) c" by (rule job_grows [OF j])
  have comp: "jw_completed w' = comps_after i e (jw_completed w)" "jw_comm w' = c" "jw_jobs w' = (jw_jobs w)[i := jb]"
    by (simp_all add: w' job_effects_completed del: job_effects_sel(5))
  have main: "mn_pc (jw_main w') = MainDone \<longleftrightarrow> mn_pc (jw_main w) = MainDone" "mn_sent (jw_main w') = mn_sent (jw_main w)"
    "main_lines (mn_pc (jw_main w')) = main_lines (mn_pc (jw_main w))" "best_ok (jw_main w') = best_ok (jw_main w)"
    "mn_finished (jw_main w') = mn_finished (jw_main w)"
    by (auto simp: w' best_ok_def)
  have "claims w' + job_claim (jb_pc (jw_jobs w ! i)) + mset (map sr_depth (cm_lines (jw_comm w))) =
      claims w + job_claim (jb_pc jb) + mset (map sr_depth (cm_lines c))"
    using sum_list_update_claim [OF i, of "\<lambda>jb. job_claim (jb_pc jb)" jb] by (simp add: claims_def comp main ac_simps)
  then have "claims w' = mset [1..<cm_depth c]"
    using job_claim_step [OF j] d cl by (auto simp: ac_simps)
  moreover have "job_ok (jw_completed w') c k (jb_pc (jw_jobs w' ! k))" if "k < length (jw_jobs w')" for k
  proof (cases "k = i")
    case True
    then show ?thesis using job_ok_step [OF j ok [OF i]] i by (simp add: comp)
  next
    case False
    then show ?thesis using that job_ok_mono [OF ok g comps_after_mono, of k i e] by (simp add: comp)
  qed
  moreover have "good_line (jw_completed w') line"
    if "line \<in> set (cm_lines c) \<union> set (mn_sent (jw_main w)) \<union> set (main_lines (mn_pc (jw_main w)))" for line
  proof -
    have "good_line (jw_completed w) line" using that job_adds_good [OF j ok [OF i]] w by (auto simp: lines_ok_def)
    then show ?thesis unfolding comp by (rule good_line_mono [OF _ comps_after_mono])
  qed
  ultimately show ?thesis using w g d by (auto simp: lines_ok_def comp main comm_grows_def)
qed

lemma best_ok_handle:
  assumes "best_ok m" "sr_depth line \<ge> 1" "sr_pv line \<noteq> []"
  shows "best_ok (handle_line line m)"
proof (cases "sr_depth line > mn_bestDepth m")
  case True
  then show ?thesis
    using assms by (auto simp: best_ok_def handle_line_def Let_def hd_conv_nth split: if_splits intro: less_imp_le le_less_trans)
next
  case False
  then show ?thesis using assms by (auto simp: best_ok_def handle_line_def Let_def split: if_splits)
qed

lemma best_ok_fold: "best_ok m \<Longrightarrow> (\<And>l. l \<in> set ls \<Longrightarrow> sr_depth l \<ge> 1 \<and> sr_pv l \<noteq> []) \<Longrightarrow> best_ok (fold handle_line ls m)"
  by (induction ls arbitrary: m) (simp_all add: best_ok_handle)

lemma good_lineD: "good_line comps line \<Longrightarrow> sr_depth line \<ge> 1 \<and> sr_pv line \<noteq> []"
  by (auto simp: good_line_def line_from_def)

lemma best_ok_pc [simp]: "best_ok (m\<lparr>mn_pc := pc\<rparr>) = best_ok m" "best_ok (wake m) = best_ok m"
  by (simp_all add: best_ok_def)

lemma best_ok_main:
  assumes "main_step sys alone c m c' m' b" "mn_pc m' \<noteq> MainDone" "best_ok m" "mn_finished m = []"
    "\<And>line. line \<in> set (main_lines (mn_pc m)) \<Longrightarrow> good_line comps line"
  shows "best_ok m' \<and> mn_finished m' = []"
  using assms
proof (induction rule: main_step.cases)
  case (Handle lines ls)
  then have "\<And>l. l \<in> set ls \<Longrightarrow> good_line comps l" by (metis main_lines.simps(1) mset_eq_setD)
  then have "best_ok (fold handle_line ls m)" using best_ok_fold [OF \<open>best_ok m\<close>] good_lineD by blast
  then show ?case using Handle by simp
qed (auto simp: best_ok_def)

lemma lines_ok_main:
  assumes w: "lines_ok w" and m: "main_step sys (all_done w) (jw_comm w) (jw_main w) c m b"
    and w': "w' = w\<lparr>jw_comm := c, jw_main := if b then wake m else m\<rparr>"
  shows "lines_ok w'"
proof -
  note s = main_claim_step [OF m]
  have g: "comm_grows (jw_comm w) c" by (rule main_grows [OF m])
  have main: "mn_pc (jw_main w') = MainDone \<longleftrightarrow> mn_pc m = MainDone" "mn_sent (jw_main w') = mn_sent m"
    "main_lines (mn_pc (jw_main w')) = main_lines (mn_pc m)" "best_ok (jw_main w') = best_ok m"
    "mn_finished (jw_main w') = mn_finished m"
    by (auto simp: w')
  have "image_mset sr_depth (mset (cm_lines c) + mset (mn_sent m) + mset (main_lines (mn_pc m))) =
      image_mset sr_depth (mset (cm_lines (jw_comm w)) + mset (mn_sent (jw_main w)) + mset (main_lines (mn_pc (jw_main w))))"
    using s by simp
  then have "claims w' = claims w" by (simp add: claims_def main) (simp add: w')
  moreover have "set (cm_lines c) \<union> set (mn_sent m) \<union> set (main_lines (mn_pc m)) =
      set (cm_lines (jw_comm w)) \<union> set (mn_sent (jw_main w)) \<union> set (main_lines (mn_pc (jw_main w)))"
    using arg_cong [OF conjunct1 [OF s], of set_mset] by (simp add: Un_assoc)
  moreover have "best_ok m \<and> mn_finished m = []" if "mn_pc m \<noteq> MainDone"
    by (rule best_ok_main [OF m that, of "jw_completed w"]) (use w m in \<open>auto simp: lines_ok_def elim: main_step.cases\<close>)
  moreover have "job_ok (jw_completed w) c i (jb_pc (jw_jobs w ! i))" if "i < length (jw_jobs w)" for i
    using job_ok_mono [OF _ g subset_refl] w that by (auto simp: lines_ok_def)
  ultimately show ?thesis using w s by (auto simp: lines_ok_def main) (auto simp: w')
qed

lemma lines_ok_api:
  assumes w: "lines_ok w" and s: "stop_next ApiThread (jw_comm w) p = Some (c, q, b)"
    and w': "w' = w\<lparr>jw_comm := c, jw_api := a, jw_main := if b then wake (jw_main w) else jw_main w\<rparr>"
  shows "lines_ok w'"
proof -
  note ch = stop_changes [OF s]
  have main: "mn_pc (jw_main w') = MainDone \<longleftrightarrow> mn_pc (jw_main w) = MainDone" "mn_sent (jw_main w') = mn_sent (jw_main w)"
    "main_lines (mn_pc (jw_main w')) = main_lines (mn_pc (jw_main w))" "best_ok (jw_main w') = best_ok (jw_main w)"
    "mn_finished (jw_main w') = mn_finished (jw_main w)"
    by (auto simp: w')
  have "claims w' = claims w" by (simp add: claims_def main) (simp add: w' ch)
  moreover have "job_ok (jw_completed w) c i (jb_pc (jw_jobs w ! i))" if "i < length (jw_jobs w)" for i
    using job_ok_mono [OF _ stop_grows [OF s] subset_refl] w that by (auto simp: lines_ok_def)
  ultimately show ?thesis using w ch(1,6) by (auto simp: lines_ok_def main) (auto simp: w')
qed

lemma lines_ok_step: "lines_ok w \<Longrightarrow> search_step sys w w' \<Longrightarrow> lines_ok w'"
proof (erule search_step.cases)
  fix k assume "lines_ok w" "w' = w\<lparr>jw_api := ApiStopping k StopExchange\<rparr>"
  then show "lines_ok w'" by (simp add: lines_ok_def claims_def)
qed (blast intro: lines_ok_job lines_ok_main lines_ok_api)+

lemma no_claims: "sum_list (replicate n {#}) = ({#} :: nat multiset)"
  by (induction n) simp_all

lemma lines_ok_reachable: "search_reachable sys limits now calls w \<Longrightarrow> lines_ok w"
proof (induction rule: search_reachable.induct)
  case Start
  then show ?case by (simp add: lines_ok_def claims_def best_ok_def no_claims map_replicate_const [symmetric])
next
  case (Step w w')
  show ?case by (rule lines_ok_step [OF Step.IH Step.hyps(2)])
qed

end
