(* ===== verification/Jobs_Ends.thy ===== *)
theory Jobs_Ends
  imports Jobs_Lines
begin

text \<open>
  After \<^verbatim>\<open>stop()\<close> every run of the threads ends: a number that every step lowers bounds it. A run that
  cannot go on has sent its best move.
\<close>

section \<open>What is left to do\<close>

fun stop_cost :: "stop_pc \<Rightarrow> nat" where
  "stop_cost StopExchange = 4"
| "stop_cost StopLock = 3"
| "stop_cost StopUnlock = 2"
| "stop_cost StopNotify = 1"

fun add_cost :: "add_pc \<Rightarrow> nat" where
  "add_cost AddLock = 4"
| "add_cost AddPush = 3"
| "add_cost AddUnlock = 2"
| "add_cost AddNotify = 1"

definition depth_cost :: "job_system \<Rightarrow> nat \<Rightarrow> nat \<Rightarrow> nat" where
  "depth_cost sys i d = 10 + 7 * js_polls sys i d"

fun job_cost :: "job_system \<Rightarrow> nat \<Rightarrow> job_pc \<Rightarrow> nat" where
  "job_cost sys i (NextDepth d) = depth_cost sys i d"
| "job_cost sys i (Searching d n ok) = 2 + 7 * n"
| "job_cost sys i (Polling d n ok) = 8 + 7 * n"
| "job_cost sys i (PollStopping d n ok p) = 2 + 7 * n + stop_cost p"
| "job_cost sys i (Returned d ok sc m) = 1"
| "job_cost sys i (Finishing d ok sc m) = 6 + depth_cost sys i (d + 1)"
| "job_cost sys i (Unwinding d ok sc m) = 5 + depth_cost sys i (d + 1)"
| "job_cost sys i (Adding ok line p) = add_cost p + depth_cost sys i (sr_depth line + 1)"
| "job_cost sys i (RunStopping p) = stop_cost p"
| "job_cost sys i JobDone = 0"

text \<open>Lines that a job may still add before it looks at the stop flag again.\<close>

fun job_lines :: "job_pc \<Rightarrow> nat" where
  "job_lines (Finishing d ok sc m) = 1"
| "job_lines (Unwinding d ok sc m) = 1"
| "job_lines (Adding ok line p) = (if p = AddLock \<or> p = AddPush then 1 else 0)"
| "job_lines _ = 0"

fun main_cost :: "main_pc \<Rightarrow> nat" where
  "main_cost MainDone = 0"
| "main_cost FinishingSearch = 1"
| "main_cost Joining = 2"
| "main_cost (Event Stopped) = 3"
| "main_cost Extracting = 8"
| "main_cost ExtractLock = 9"
| "main_cost (Event NewLines) = 10"
| "main_cost Checking = 11"
| "main_cost Waiting = 12"
| "main_cost (MainStopping p) = 12 + stop_cost p"
| "main_cost Rechecking = 16"
| "main_cost Woken = 17"
| "main_cost Sleeping = 18"
| "main_cost CheckingLimits = 18"
| "main_cost (Handling lines) = 19"
| "main_cost GoingToSleep = 19"
| "main_cost (Event Timeout) = 19"

fun api_cost :: "api_pc \<Rightarrow> nat" where
  "api_cost (ApiIdle k) = 6 * k"
| "api_cost (ApiStopping k p) = 6 * k + 1 + stop_cost p"

definition jobs_cost :: "job_system \<Rightarrow> job_state list \<Rightarrow> nat" where
  "jobs_cost sys jobs = (\<Sum>i < length jobs. job_cost sys i (jb_pc (jobs ! i)) + 20 * job_lines (jb_pc (jobs ! i)))"

definition work_left :: "job_system \<Rightarrow> job_world \<Rightarrow> nat" where
  "work_left sys w = jobs_cost sys (jw_jobs w) + 20 * length (cm_lines (jw_comm w)) + main_cost (mn_pc (jw_main w)) + api_cost (jw_api w)"

section \<open>Every step lowers it\<close>

lemma stop_cost_step:
  "stop_next t c p = Some (c', Some p', b) \<Longrightarrow> stop_cost p' < stop_cost p" "0 < stop_cost p" "stop_cost p \<le> 4"
  by (auto elim!: stop_nextE) (cases p; simp)+

lemma add_cost_step: "add_next t line c p = Some (c', Some p', b) \<Longrightarrow> add_cost p' < add_cost p" "0 < add_cost p"
  by (auto elim!: add_nextE) (cases p; simp)

lemma job_cost_step:
  assumes "job_step sys i c jb c' jb' e" "cm_stopped c"
  shows "job_cost sys i (jb_pc jb') + 20 * job_lines (jb_pc jb') + 20 * length (cm_lines c') <
    job_cost sys i (jb_pc jb) + 20 * job_lines (jb_pc jb) + 20 * length (cm_lines c)"
  using assms by (auto elim!: job_step.cases stop_nextE add_nextE simp: finishDepth_iff depth_cost_def split: if_splits)

lemma main_cost_step:
  assumes "main_step sys alone c m c' m' b" "cm_stopped c" "mn_pc m \<in> {Event NewLines, ExtractLock, Extracting} \<longrightarrow> cm_lines c \<noteq> []"
  shows "main_cost (mn_pc m') + 20 * length (cm_lines c') < main_cost (mn_pc m) + 20 * length (cm_lines c)"
  using assms(1)
proof cases
  case Extract
  then have "1 \<le> length (cm_lines c)" using assms(3) by (cases "cm_lines c") auto
  then show ?thesis using Extract by simp
qed (use assms(2) stop_cost_step in \<open>auto elim!: stop_nextE simp: checkEventUnlocked_def split: if_splits\<close>)

lemma jobs_cost_update:
  assumes "i < length jobs"
  shows "jobs_cost sys (jobs[i := jb]) + (job_cost sys i (jb_pc (jobs ! i)) + 20 * job_lines (jb_pc (jobs ! i))) =
    jobs_cost sys jobs + (job_cost sys i (jb_pc jb) + 20 * job_lines (jb_pc jb))"
proof -
  have i: "i \<in> {..<length jobs}" using assms by simp
  have "(\<Sum>k \<in> {..<length jobs} - {i}. job_cost sys k (jb_pc (jobs[i := jb] ! k)) + 20 * job_lines (jb_pc (jobs[i := jb] ! k))) =
      (\<Sum>k \<in> {..<length jobs} - {i}. job_cost sys k (jb_pc (jobs ! k)) + 20 * job_lines (jb_pc (jobs ! k)))"
    by (intro sum.cong) auto
  then show ?thesis using i by (simp add: jobs_cost_def sum.remove [OF _ i])
qed

lemma main_cost_wake: "main_cost (mn_pc (wake m)) \<le> main_cost (mn_pc m)"
  by (simp add: wake_def)

definition extract_ok :: "job_world \<Rightarrow> bool" where
  "extract_ok w \<longleftrightarrow> (mn_pc (jw_main w) \<in> {Event NewLines, ExtractLock, Extracting} \<longrightarrow> cm_lines (jw_comm w) \<noteq> [])"

lemma work_left_step:
  assumes s: "search_step sys w w'" and st: "cm_stopped (jw_comm w)" and x: "extract_ok w"
  shows "work_left sys w' < work_left sys w"
  using s
proof cases
  case (Job i c jb e)
  have "main_cost (mn_pc (jw_main w')) \<le> main_cost (mn_pc (jw_main w))" using main_cost_wake by (simp add: Job(1) del: wake_sel(6))
  then show ?thesis
    using job_cost_step [OF Job(3) st] jobs_cost_update [OF Job(2), of sys jb] by (simp add: work_left_def Job(1))
next
  case (Main c m b)
  have "main_cost (mn_pc (jw_main w')) \<le> main_cost (mn_pc m)" using main_cost_wake [of m] by (simp add: Main(1) del: wake_sel(6))
  then show ?thesis using main_cost_step [OF Main(2) st] x by (simp add: work_left_def Main(1) extract_ok_def del: wake_sel(6))
next
  case (Api_call k)
  then show ?thesis by (simp add: work_left_def)
next
  case (Api_stopping k p c p' b)
  then show ?thesis
    using stop_changes(1) [OF Api_stopping(3)] stop_cost_step(1) [OF Api_stopping(3)] main_cost_wake [of "jw_main w"]
    by (auto simp: work_left_def simp del: wake_sel(6))
next
  case (Api_return k p c b)
  then show ?thesis
    using stop_changes(1) [OF Api_return(3)] stop_cost_step(2) [of p] main_cost_wake [of "jw_main w"]
    by (auto simp: work_left_def simp del: wake_sel(6))
qed

section \<open>Invariants of a run\<close>

lemma job_keeps_lines: "job_step sys i c jb c' jb' e \<Longrightarrow> cm_lines c \<noteq> [] \<Longrightarrow> cm_lines c' \<noteq> []"
  by (auto elim!: job_step.cases stop_nextE add_nextE simp: finishDepth_iff split: if_splits)

lemma main_extract_step:
  "main_step sys alone c m c' m' b \<Longrightarrow> mn_pc m \<in> {Event NewLines, ExtractLock, Extracting} \<longrightarrow> cm_lines c \<noteq> [] \<Longrightarrow>
   mn_pc m' \<in> {Event NewLines, ExtractLock, Extracting} \<longrightarrow> cm_lines c' \<noteq> []"
  by (auto elim!: main_step.cases stop_nextE simp: checkEventUnlocked_def split: if_splits)

lemma wake_extract: "mn_pc (wake m) \<in> {Event NewLines, ExtractLock, Extracting} \<longleftrightarrow> mn_pc m \<in> {Event NewLines, ExtractLock, Extracting}"
  by (simp add: wake_def)

lemma extract_ok_step: "extract_ok w \<Longrightarrow> search_step sys w w' \<Longrightarrow> extract_ok w'"
  by (erule search_step.cases)
     (use job_keeps_lines main_extract_step in \<open>auto simp: extract_ok_def stop_changes wake_def split: if_splits\<close>)

lemma extract_ok_reachable: "search_reachable sys limits now calls w \<Longrightarrow> extract_ok w"
proof (induction rule: search_reachable.induct)
  case Start
  then show ?case by (simp add: extract_ok_def)
next
  case (Step w w')
  show ?case by (rule extract_ok_step [OF Step.IH Step.hyps(2)])
qed

lemma step_keeps_stopped: "search_step sys w w' \<Longrightarrow> cm_stopped (jw_comm w) \<Longrightarrow> cm_stopped (jw_comm w')"
  by (erule search_step.cases) (auto dest: job_grows main_grows stop_changes(2) simp: comm_grows_def)

lemma run_bounded:
  "(search_step sys ^^ n) w w' \<Longrightarrow> cm_stopped (jw_comm w) \<Longrightarrow> extract_ok w \<Longrightarrow>
   n + work_left sys w' \<le> work_left sys w \<and> cm_stopped (jw_comm w') \<and> extract_ok w'"
proof (induction n arbitrary: w')
  case (Suc n)
  then obtain v where v: "(search_step sys ^^ n) w v" "search_step sys v w'" by auto
  then have v2: "n + work_left sys v \<le> work_left sys w" "cm_stopped (jw_comm v)" "extract_ok v" using Suc by auto
  have "work_left sys w' < work_left sys v" by (rule work_left_step [OF v(2) v2(2,3)])
  then show ?case using v2 step_keeps_stopped [OF v(2)] extract_ok_step [OF _ v(2)] by auto
qed auto

lemma reachable_run: "search_reachable sys limits now calls w \<Longrightarrow> (search_step sys ^^ n) w w' \<Longrightarrow> search_reachable sys limits now calls w'"
  by (induction n arbitrary: w') (auto intro: search_reachable.Step)

section \<open>No thread is stuck\<close>

lemma stop_next_free: "cm_lock c = None \<or> stop_holds p \<Longrightarrow> \<exists>c' q b. stop_next t c p = Some (c', q, b)"
  by (cases p) auto

lemma add_next_free: "cm_lock c = None \<or> p = AddPush \<or> p = AddUnlock \<Longrightarrow> \<exists>c' q b. add_next t line c p = Some (c', q, b)"
  by (cases p) auto

lemma job_can_step:
  assumes "jb_pc jb \<noteq> JobDone" "cm_lock c = None \<or> job_holds (jb_pc jb)"
  shows "\<exists>c' jb' e. job_step sys i c jb c' jb' e"
proof (cases "jb_pc jb")
  case (NextDepth d)
  then show ?thesis by (cases "d \<le> min (lim_depth (cm_limits c)) MAX_DEPTH") (blast intro: job_step.intros)+
next
  case (Searching d n ok)
  then show ?thesis by (blast intro: job_step.Search_end)
next
  case (Polling d n ok)
  then show ?thesis
    by (cases "jb_counter jb mod 1024 = 0"; cases "timedOut c 0") (blast intro: job_step.intros)+
next
  case (PollStopping d n ok p)
  then obtain c' q b where s: "stop_next (JobThread i) c p = Some (c', q, b)" using stop_next_free [where c = c and p = p and t = "JobThread i"] assms(2) by auto
  show ?thesis by (cases q) (use PollStopping s in \<open>blast intro: job_step.Poll_stopping job_step.Poll_end\<close>)+
next
  case (Returned d ok sc m)
  then show ?thesis by (cases "cm_stopped c") (blast intro: job_step.intros)+
next
  case (Finishing d ok sc m)
  have "(\<exists>c'. finishDepth d c = (True, c')) \<or> (\<exists>c'. finishDepth d c = (False, c'))" by (simp add: finishDepth_def)
  then show ?thesis using Finishing by (blast intro: job_step.Finish_first job_step.Finish_late)
next
  case (Unwinding d ok sc m)
  obtain n pv where "unwindPv (js_zobrist sys) (\<lambda>_. td_zero) n (js_board sys) m = Some pv" using unwindPv_ends by blast
  then show ?thesis using Unwinding by (blast intro: job_step.Unwind)
next
  case (Adding ok line p)
  then obtain c' q b where s: "add_next (JobThread i) line c p = Some (c', q, b)" using add_next_free [where c = c and p = p and t = "JobThread i" and line = line] assms(2) by auto
  show ?thesis by (cases q) (use Adding s in \<open>blast intro: job_step.Add_line job_step.Add_end\<close>)+
next
  case (RunStopping p)
  then obtain c' q b where s: "stop_next (JobThread i) c p = Some (c', q, b)" using stop_next_free [where c = c and p = p and t = "JobThread i"] assms(2) by auto
  show ?thesis by (cases q) (use RunStopping s in \<open>blast intro: job_step.Run_stopping job_step.Run_end\<close>)+
qed (use assms in simp)

lemma main_can_step:
  assumes "mn_pc m \<noteq> MainDone" "mn_pc m = Joining \<longrightarrow> alone" "cm_lock c = None \<or> main_holds (mn_pc m)"
  shows "\<exists>c' m' b. main_step sys alone c m c' m' b"
proof (cases "mn_pc m")
  case Checking
  then show ?thesis by (cases "checkEventUnlocked c = Timeout") (blast intro: main_step.intros)+
next
  case (Event e)
  then show ?thesis by (cases e) (blast intro: main_step.intros)+
next
  case (Handling lines)
  have "mset (sort_key sr_depth lines) = mset lines" "sorted (map sr_depth (sort_key sr_depth lines))" by simp_all
  then show ?thesis using main_step.Handle [OF Handling] by blast
next
  case CheckingLimits
  then show ?thesis by (cases "main_mustStop (cm_limits c) (cm_startTime c) 0 0") (blast intro: main_step.intros)+
next
  case (MainStopping p)
  then obtain c' q b where s: "stop_next MainThread c p = Some (c', q, b)" using stop_next_free [where c = c and p = p and t = MainThread] assms(3) by auto
  show ?thesis by (cases q) (use MainStopping s in \<open>blast intro: main_step.Main_stopping main_step.Main_stop_end\<close>)+
next
  case FinishingSearch
  then show ?thesis using main_step.Finish [of m "\<lambda>ms. ms"] by blast
qed (use assms in \<open>(simp; fail) | (simp; blast intro: main_step.intros)\<close>)+

lemma progress:
  assumes l: "lock_ok w" and m: "mn_pc (jw_main w) \<noteq> MainDone"
  shows "\<exists>w'. search_step sys w w'"
proof (cases "cm_lock (jw_comm w)")
  case None
  show ?thesis
  proof (cases "mn_pc (jw_main w) = Joining \<and> \<not> all_done w")
    case True
    then obtain i where i: "i < length (jw_jobs w)" "jb_pc (jw_jobs w ! i) \<noteq> JobDone"
      by (auto simp: all_done_def list_all_length)
    then show ?thesis using job_can_step [OF i(2), of "jw_comm w" sys i] None by (blast intro: search_step.Job)
  next
    case False
    then show ?thesis using main_can_step [OF m, of "all_done w" "jw_comm w" sys] None by (blast intro: search_step.Main)
  qed
next
  case (Some t)
  then have h: "holds w t" using l by (metis lock_ok_def)
  show ?thesis
  proof (cases t)
    case ApiThread
    then obtain k where "jw_api w = ApiStopping k StopUnlock"
      using h by (cases "jw_api w") (auto simp: holds_def elim: stop_holds.elims)
    then show ?thesis using search_step.Api_stopping [of w k StopUnlock] by auto
  next
    case MainThread
    then have "main_holds (mn_pc (jw_main w))" using h by (simp add: holds_def)
    moreover from this have "mn_pc (jw_main w) \<noteq> Joining" by auto
    ultimately show ?thesis using main_can_step [OF m, of "all_done w" "jw_comm w" sys] by (blast intro: search_step.Main)
  next
    case (JobThread i)
    then have i: "i < length (jw_jobs w)" "job_holds (jb_pc (jw_jobs w ! i))" using h by (simp_all add: holds_def)
    then have "jb_pc (jw_jobs w ! i) \<noteq> JobDone" by auto
    then show ?thesis using job_can_step [of "jw_jobs w ! i" "jw_comm w" sys i] i by (blast intro: search_step.Job)
  qed
qed

section \<open>The end of the search\<close>

definition done_ok :: "job_system \<Rightarrow> job_world \<Rightarrow> bool" where
  "done_ok sys w \<longleftrightarrow> (mn_pc (jw_main w) = MainDone \<longrightarrow>
     (\<exists>shuffle best. (\<forall>ms. mset (shuffle ms) = mset ms) \<and> best_ok ((jw_main w)\<lparr>mn_bestMove := best\<rparr>) \<and>
        mn_finished (jw_main w) = [if move_eq best move_null then pickRandomMove shuffle (js_board sys) else best]))"

lemma done_ok_main:
  assumes m: "main_step sys alone c m c' m' b" and l: "mn_pc m \<noteq> MainDone \<longrightarrow> best_ok m \<and> mn_finished m = []" and d: "mn_pc m' = MainDone"
  shows "\<exists>shuffle best. (\<forall>ms. mset (shuffle ms) = mset ms) \<and> best_ok (m'\<lparr>mn_bestMove := best\<rparr>) \<and>
        mn_finished m' = [if move_eq best move_null then pickRandomMove shuffle (js_board sys) else best]"
  using m
proof cases
  case (Finish shuffle)
  have b: "best_ok m" "mn_finished m = []" using l Finish by auto
  have "best_ok (m'\<lparr>mn_bestMove := mn_bestMove m\<rparr>)" using b(1) by (simp add: Finish finishSearch_def Let_def best_ok_def)
  moreover have "mn_finished m' = [if move_eq (mn_bestMove m) move_null then pickRandomMove shuffle (js_board sys) else mn_bestMove m]"
    using b(2) by (simp add: Finish finishSearch_def Let_def)
  ultimately show ?thesis using Finish(5) by blast
qed (use d in auto)

lemma wake_done: "mn_pc m = MainDone \<Longrightarrow> wake m = m"
  by (simp add: wake_def)

lemma done_ok_same:
  assumes "mn_pc (jw_main w') = MainDone \<Longrightarrow> jw_main w' = jw_main w" "done_ok sys w"
  shows "done_ok sys w'"
proof (cases "mn_pc (jw_main w') = MainDone")
  case True
  then show ?thesis using assms(2) unfolding done_ok_def assms(1) [OF True] by (simp only: simp_thms)
qed (simp add: done_ok_def)

lemma done_ok_step:
  assumes "search_step sys w w'" "lines_ok w" "done_ok sys w"
  shows "done_ok sys w'"
  using assms(1)
proof cases
  case (Job i c jb e)
  then have "mn_pc (jw_main w') = MainDone \<Longrightarrow> jw_main w' = jw_main w" by (auto simp: wake_def split: if_splits)
  then show ?thesis using assms(3) by (rule done_ok_same)
next
  case (Main c m b)
  then have e: "mn_pc (jw_main w') = MainDone \<Longrightarrow> jw_main w' = m" by (auto simp: wake_def split: if_splits)
  have l: "mn_pc (jw_main w) \<noteq> MainDone \<longrightarrow> best_ok (jw_main w) \<and> mn_finished (jw_main w) = []" using assms(2) by (simp add: lines_ok_def)
  show ?thesis
  proof (cases "mn_pc (jw_main w') = MainDone")
    case True
    then have "mn_pc m = MainDone" using e by simp
    then show ?thesis unfolding done_ok_def e [OF True] by (intro impI done_ok_main [OF Main(2) l])
  qed (simp add: done_ok_def)
next
  case (Api_stopping k p c p' b)
  then have "mn_pc (jw_main w') = MainDone \<Longrightarrow> jw_main w' = jw_main w" by (auto simp: wake_def split: if_splits)
  then show ?thesis using assms(3) by (rule done_ok_same)
next
  case (Api_return k p c b)
  then have "mn_pc (jw_main w') = MainDone \<Longrightarrow> jw_main w' = jw_main w" by (auto simp: wake_def split: if_splits)
  then show ?thesis using assms(3) by (rule done_ok_same)
qed (use assms(3) in \<open>simp add: done_ok_def\<close>)

lemma done_ok_reachable: "search_reachable sys limits now calls w \<Longrightarrow> done_ok sys w"
proof (induction rule: search_reachable.induct)
  case Start
  then show ?case by (simp add: done_ok_def)
next
  case (Step w w')
  show ?case by (rule done_ok_step [OF Step.hyps(2) lines_ok_reachable [OF Step.hyps(1)] Step.IH])
qed

end
