(* ===== verification/Job_Runner.thy ===== *)
theory Job_Runner
  imports Jobs_Ends Evaluate Trans_Resize
begin

text \<open>
  The runner of searches (\<^verbatim>\<open>src/src/search/private/job_runner.h\<close>, \<^verbatim>\<open>job_runner.cpp\<close>): its configuration, which
  is applied at once between searches and put off while one runs, and the start of a search. What the
  memory of a new transposition table holds is an argument; a failed assertion and a size for which the
  resize never ends are \<open>None\<close>.
\<close>

section \<open>State\<close>

definition DEFAULT_NUM_JOBS :: nat where "DEFAULT_NUM_JOBS = 1"

record job_runner =
  jr_comm :: communicator
  jr_tt :: trans_table
  jr_evaluators :: "pawn_cache list"
  jr_debugMode :: bool
  jr_canApplyConfig :: bool
  jr_lastPosition :: "game_position option"
  jr_hashSize :: nat
  jr_numJobs :: nat
  jr_needClearHash :: bool
  jr_needNewGame :: bool

definition new_runner :: "tt_entry list \<Rightarrow> job_runner option" where
  "new_runner mem = map_option (\<lambda>tt. \<lparr>jr_comm = new_communicator, jr_tt = tt,
     jr_evaluators = replicate DEFAULT_NUM_JOBS (newPawnCache PAWN_CACHE_SIZE), jr_debugMode = False, jr_canApplyConfig = True,
     jr_lastPosition = None, jr_hashSize = DEFAULT_SIZE, jr_numJobs = DEFAULT_NUM_JOBS, jr_needClearHash = False,
     jr_needNewGame = False\<rparr>) (newTranspositionTable mem)"

text \<open>\<^verbatim>\<open>std::vector::resize\<close> drops evaluators at the end or adds new ones there.\<close>

definition resize_evaluators :: "nat \<Rightarrow> pawn_cache list \<Rightarrow> pawn_cache list" where
  "resize_evaluators n es = take n es @ replicate (n - length es) (newPawnCache PAWN_CACHE_SIZE)"

section \<open>Configuration\<close>

definition apply_numJobs :: "job_runner \<Rightarrow> job_runner" where
  "apply_numJobs r = (if length (jr_evaluators r) \<noteq> jr_numJobs r
     then r\<lparr>jr_evaluators := resize_evaluators (jr_numJobs r) (jr_evaluators r)\<rparr> else r)"

definition apply_hash :: "tt_entry list \<Rightarrow> job_runner \<Rightarrow> job_runner option" where
  "apply_hash mem r =
     (if jr_needClearHash r \<or> sizeBytes (jr_tt r) \<noteq> jr_hashSize r
      then let r1 = (if jr_needClearHash r then r\<lparr>jr_lastPosition := None\<rparr> else r)
        in map_option (\<lambda>tt. r1\<lparr>jr_tt := tt, jr_needClearHash := False, jr_hashSize := sizeBytes tt\<rparr>)
          (tt_resize mem (jr_tt r1) (of_nat (jr_hashSize r1)) (jr_needClearHash r1) (jr_numJobs r1))
      else Some r)"

definition apply_newGame :: "job_runner \<Rightarrow> job_runner" where
  "apply_newGame r =
     (if jr_needNewGame r
      then let r1 = r\<lparr>jr_needNewGame := False\<rparr>
        in (if jr_lastPosition r1 \<noteq> None then r1\<lparr>jr_lastPosition := None, jr_tt := resetEpoch (jr_tt r1)\<rparr> else r1)
      else r)"

definition tryApplyConfigUnlocked :: "tt_entry list \<Rightarrow> job_runner \<Rightarrow> job_runner option" where
  "tryApplyConfigUnlocked mem r =
     (if \<not> jr_canApplyConfig r then Some r else map_option apply_newGame (apply_hash mem (apply_numJobs r)))"

definition clearHash :: "tt_entry list \<Rightarrow> job_runner \<Rightarrow> job_runner option" where
  "clearHash mem r = tryApplyConfigUnlocked mem (r\<lparr>jr_needClearHash := True\<rparr>)"

definition newGame :: "tt_entry list \<Rightarrow> job_runner \<Rightarrow> job_runner option" where
  "newGame mem r = tryApplyConfigUnlocked mem (r\<lparr>jr_needNewGame := True\<rparr>)"

definition setHashSize :: "tt_entry list \<Rightarrow> nat \<Rightarrow> job_runner \<Rightarrow> job_runner option" where
  "setHashSize mem sz r = tryApplyConfigUnlocked mem (r\<lparr>jr_hashSize := sz\<rparr>)"

definition setNumJobs :: "tt_entry list \<Rightarrow> nat \<Rightarrow> job_runner \<Rightarrow> job_runner option" where
  "setNumJobs mem jobs r = tryApplyConfigUnlocked mem (r\<lparr>jr_numJobs := jobs\<rparr>)"

definition setDebugMode :: "bool \<Rightarrow> job_runner \<Rightarrow> job_runner" where
  "setDebugMode enable r = r\<lparr>jr_debugMode := enable\<rparr>"

definition disableReconfiguration :: "job_runner \<Rightarrow> job_runner" where
  "disableReconfiguration r = r\<lparr>jr_canApplyConfig := False\<rparr>"

definition enableReconfiguration :: "tt_entry list \<Rightarrow> job_runner \<Rightarrow> job_runner option" where
  "enableReconfiguration mem r = tryApplyConfigUnlocked mem (r\<lparr>jr_canApplyConfig := True\<rparr>)"

section \<open>Starting a search\<close>

definition setPosition :: "game_position \<Rightarrow> job_runner \<Rightarrow> job_runner" where
  "setPosition position r =
     (case jr_lastPosition r of
        None \<Rightarrow> r\<lparr>jr_lastPosition := Some position\<rparr>
      | Some lastPosition \<Rightarrow>
          let tt = (case commonPrefix lastPosition position of
                Some common \<Rightarrow>
                  let diff = nat \<bar>int common - int (length (pos_moves lastPosition))\<bar> + nat \<bar>int common - int (length (pos_moves position))\<bar>
                  in if diff = 0 then jr_tt r else if diff \<le> 5 then growEpoch (jr_tt r) (of_nat diff) else resetEpoch (jr_tt r)
              | None \<Rightarrow> resetEpoch (jr_tt r))
          in r\<lparr>jr_tt := tt, jr_lastPosition := Some position\<rparr>)"

text \<open>
  \<^verbatim>\<open>start\<close>, once the previous main thread was joined: the runner, and the number of jobs the new main
  thread is created with.
\<close>

definition runner_start :: "game_position \<Rightarrow> search_limits \<Rightarrow> int \<Rightarrow> job_runner \<Rightarrow> job_runner \<times> nat" where
  "runner_start position limits now r =
     (let r1 = r\<lparr>jr_comm := comm_reset limits now (jr_comm r)\<rparr>; r2 = setPosition position r1 in (r2, jr_numJobs r2))"

text \<open>The main thread begins with \<open>disableReconfiguration\<close>; then it creates the jobs.\<close>

definition createJobsAndThreads :: "nat \<Rightarrow> job_runner \<Rightarrow> job_state list option" where
  "createJobsAndThreads jobCount r =
     (if length (jr_evaluators r) = jobCount then Some (replicate jobCount \<lparr>jb_pc = NextDepth 1, jb_counter = 0\<rparr>) else None)"

text \<open>The world of \<open>Jobs\<close> in which the threads run.\<close>

definition runner_world :: "nat \<Rightarrow> job_runner \<Rightarrow> nat \<Rightarrow> job_world option" where
  "runner_world jobCount r calls = map_option (\<lambda>jobs. \<lparr>jw_comm = jr_comm r, jw_jobs = jobs,
     jw_main = \<lparr>mn_pc = Waiting, mn_bestDepth = 0, mn_bestMove = move_null, mn_sent = [], mn_finished = []\<rparr>,
     jw_api = ApiIdle calls, jw_completed = {}\<rparr>) (createJobsAndThreads jobCount r)"

definition STATS_UPDATE_INTERVAL :: int where "STATS_UPDATE_INTERVAL = 3000000"
definition THREAD_TICK_INTERVAL :: int where "THREAD_TICK_INTERVAL = 30000"

text \<open>In microseconds, for limits whose product with 1000 does not overflow.\<close>

definition calcSleepTime :: "search_limits \<Rightarrow> int \<Rightarrow> int" where
  "calcSleepTime limits timePassed =
     (if lim_time limits = TIME_UNLIMITED then THREAD_TICK_INTERVAL
      else let timeLeft = lim_time limits * 1000 - timePassed; delay = min (timeLeft + 100) THREAD_TICK_INTERVAL in max delay 100)"

section \<open>The calls of the user interface\<close>

datatype config_op = SetHashSize nat | SetNumJobs nat | ClearHash | NewGame

fun config_step :: "tt_entry list \<Rightarrow> config_op \<Rightarrow> job_runner \<Rightarrow> job_runner option" where
  "config_step mem (SetHashSize sz) r = setHashSize mem sz r"
| "config_step mem (SetNumJobs n) r = setNumJobs mem n r"
| "config_step mem ClearHash r = clearHash mem r"
| "config_step mem NewGame r = newGame mem r"

fun config_steps :: "tt_entry list \<Rightarrow> config_op list \<Rightarrow> job_runner \<Rightarrow> job_runner option" where
  "config_steps mem [] r = Some r"
| "config_steps mem (x # xs) r = Option.bind (config_step mem x r) (config_steps mem xs)"

section \<open>Configuration is applied or put off\<close>

text \<open>Between searches what is configured is in force.\<close>

definition applied :: "job_runner \<Rightarrow> bool" where
  "applied r \<longleftrightarrow> length (jr_evaluators r) = jr_numJobs r \<and> sizeBytes (jr_tt r) = jr_hashSize r \<and>
     \<not> jr_needClearHash r \<and> \<not> jr_needNewGame r"

definition runner_ok :: "job_runner \<Rightarrow> bool" where
  "runner_ok r \<longleftrightarrow> jr_canApplyConfig r \<longrightarrow> applied r"

lemma length_resize_evaluators [simp]: "length (resize_evaluators n es) = n"
  by (simp add: resize_evaluators_def)

lemma try_applied:
  assumes "tryApplyConfigUnlocked mem r = Some r'" "jr_canApplyConfig r"
  shows "applied r'" "jr_canApplyConfig r'" "jr_numJobs r' = jr_numJobs r"
  using assms
  by (auto simp: tryApplyConfigUnlocked_def apply_hash_def apply_numJobs_def apply_newGame_def applied_def Let_def
      sizeBytes_def resetEpoch_def split: if_splits)

lemma try_deferred: "\<not> jr_canApplyConfig r \<Longrightarrow> tryApplyConfigUnlocked mem r = Some r"
  by (simp add: tryApplyConfigUnlocked_def)

lemmas config_defs = setHashSize_def setNumJobs_def clearHash_def newGame_def

lemma config_step_applied:
  assumes "config_step mem x r = Some r'" "jr_canApplyConfig r"
  shows "applied r' \<and> jr_canApplyConfig r'"
  by (cases x) (use assms in \<open>auto simp: config_defs intro: try_applied\<close>)

lemma config_step_deferred:
  assumes "\<not> jr_canApplyConfig r"
  shows "\<exists>r'. config_step mem x r = Some r' \<and> \<not> jr_canApplyConfig r' \<and> jr_evaluators r' = jr_evaluators r \<and> jr_tt r' = jr_tt r \<and>
    jr_lastPosition r' = jr_lastPosition r"
  by (cases x) (use assms in \<open>simp_all add: config_defs try_deferred\<close>)

lemma config_steps_applied:
  "config_steps mem xs r = Some r' \<Longrightarrow> jr_canApplyConfig r \<Longrightarrow> applied r \<Longrightarrow> applied r' \<and> jr_canApplyConfig r'"
proof (induction xs arbitrary: r)
  case (Cons x xs)
  then show ?case using config_step_applied by (auto split: Option.bind_splits)
qed simp

lemma config_steps_deferred:
  "\<not> jr_canApplyConfig r \<Longrightarrow> \<exists>r'. config_steps mem xs r = Some r' \<and> \<not> jr_canApplyConfig r' \<and>
    jr_evaluators r' = jr_evaluators r \<and> jr_tt r' = jr_tt r \<and> jr_lastPosition r' = jr_lastPosition r"
proof (induction xs arbitrary: r)
  case (Cons x xs)
  then show ?case using config_step_deferred [OF Cons.prems, of mem x] by fastforce
qed simp

text \<open>The request that makes a resize loop is a table of 2 to the 63 bytes; others are carried out.\<close>

lemma enable_carried_out:
  assumes "tt_wf (jr_tt r)" "0 < jr_numJobs r" "jr_hashSize r < 2 ^ 63" "jr_hashSize r < 2 ^ 20 \<or> jr_hashSize r \<le> length mem * ENTRY_BYTES"
    "2 ^ 16 \<le> length mem"
  shows "\<exists>r'. enableReconfiguration mem r = Some r' \<and> applied r' \<and> tt_wf (jr_tt r') \<and> jr_numJobs r' = jr_numJobs r \<and>
    jr_hashSize r' \<le> max (jr_hashSize r) (2 ^ 20)"
proof -
  let ?r = "apply_numJobs (r\<lparr>jr_canApplyConfig := True\<rparr>)"
  have f: "jr_tt ?r = jr_tt r" "jr_hashSize ?r = jr_hashSize r" "jr_numJobs ?r = jr_numJobs r" "jr_needClearHash ?r = jr_needClearHash r"
    by (simp_all add: apply_numJobs_def)
  have u: "unat (of_nat (jr_hashSize r) :: u64) = jr_hashSize r" using assms(3) by (simp add: unat_of_nat take_bit_nat_eq_self)
  then obtain k where k: "new_size (of_nat (jr_hashSize r)) = Some (2 ^ k)" "2 ^ k * 16 \<le> max (jr_hashSize r) (2 ^ 20)"
    using new_size_power [of "of_nat (jr_hashSize r)"] assms(3) by auto
  have "2 ^ k * 16 \<le> length mem * 16" using k(2) assms(4,5) by (auto simp: ENTRY_BYTES_def max_def split: if_splits)
  then have m: "2 ^ k \<le> length mem" by simp
  obtain tt where tt: "tt_resize mem (jr_tt r) (of_nat (jr_hashSize r)) (jr_needClearHash r) (jr_numJobs r) = Some tt" "tt_wf tt"
      "tt_size tt = 2 ^ k"
    using resize_spec [OF assms(1,2) k(1) m, of "jr_needClearHash r"] by (elim exE conjE) (rule that)
  have "sizeBytes tt \<le> max (jr_hashSize r) (2 ^ 20)" using k(2) tt(3) by (simp add: sizeBytes_def ENTRY_BYTES_def)
  then have "\<exists>r'. apply_hash mem ?r = Some r' \<and> tt_wf (jr_tt r') \<and> jr_hashSize r' \<le> max (jr_hashSize r) (2 ^ 20)"
    using tt assms(1) by (auto simp: apply_hash_def Let_def f)
  then obtain r1 where r1: "apply_hash mem ?r = Some r1" "tt_wf (jr_tt r1)" "jr_hashSize r1 \<le> max (jr_hashSize r) (2 ^ 20)" by blast
  have e: "enableReconfiguration mem r = Some (apply_newGame r1)"
    by (simp add: enableReconfiguration_def tryApplyConfigUnlocked_def r1(1))
  have "tt_wf (jr_tt (apply_newGame r1))"
    using r1(2) by (simp add: apply_newGame_def Let_def resetEpoch_def tt_wf_def tt_ok_def)
  moreover have "jr_hashSize (apply_newGame r1) \<le> max (jr_hashSize r) (2 ^ 20)" using r1(3) by (simp add: apply_newGame_def Let_def)
  ultimately show ?thesis
    using e try_applied [of mem "r\<lparr>jr_canApplyConfig := True\<rparr>"] by (auto simp: enableReconfiguration_def)
qed

lemma setPosition_sel [simp]:
  "jr_numJobs (setPosition p r) = jr_numJobs r" "jr_evaluators (setPosition p r) = jr_evaluators r"
  "jr_hashSize (setPosition p r) = jr_hashSize r" "jr_needClearHash (setPosition p r) = jr_needClearHash r"
  "jr_needNewGame (setPosition p r) = jr_needNewGame r" "jr_canApplyConfig (setPosition p r) = jr_canApplyConfig r"
  "jr_comm (setPosition p r) = jr_comm r" "jr_lastPosition (setPosition p r) = Some p"
  by (simp_all add: setPosition_def Let_def split: option.split)

lemma applied_start: "applied r \<Longrightarrow> applied (fst (runner_start p limits now r))"
  by (auto simp: applied_def runner_start_def Let_def setPosition_def sizeBytes_def growEpoch_def resetEpoch_def split: option.split)

section \<open>The random move\<close>

lemma pickRandomMove_in:
  assumes "mset (shuffle (genAllMoves (newMoveGen b))) = mset (genAllMoves (newMoveGen b))"
  shows "(\<exists>m \<in> set (genAllMoves (newMoveGen b)). isMoveLegal b m) \<Longrightarrow>
      pickRandomMove shuffle b \<in> set (genAllMoves (newMoveGen b)) \<and> isMoveLegal b (pickRandomMove shuffle b)"
    "\<not> (\<exists>m \<in> set (genAllMoves (newMoveGen b)). isMoveLegal b m) \<Longrightarrow> pickRandomMove shuffle b = move_null"
proof -
  have s: "set (shuffle (genAllMoves (newMoveGen b))) = set (genAllMoves (newMoveGen b))" using mset_eq_setD [OF assms] .
  show "pickRandomMove shuffle b \<in> set (genAllMoves (newMoveGen b)) \<and> isMoveLegal b (pickRandomMove shuffle b)"
    if h: "\<exists>m \<in> set (genAllMoves (newMoveGen b)). isMoveLegal b m"
  proof (cases "find (isMoveLegal b) (shuffle (genAllMoves (newMoveGen b)))")
    case None
    then show ?thesis using h s by (auto simp: find_None_iff)
  next
    case (Some m)
    then have "m \<in> set (shuffle (genAllMoves (newMoveGen b)))" "isMoveLegal b m" by (auto simp: find_Some_iff)
    then show ?thesis using s Some by (simp add: pickRandomMove_def)
  qed
  show "pickRandomMove shuffle b = move_null" if "\<not> (\<exists>m \<in> set (genAllMoves (newMoveGen b)). isMoveLegal b m)"
  proof -
    have "find (isMoveLegal b) (shuffle (genAllMoves (newMoveGen b))) = None" using that s by (auto simp: find_None_iff)
    then show ?thesis by (simp add: pickRandomMove_def)
  qed
qed

end
