(* ===== verification/Job_Properties.thy ===== *)
theory Job_Properties
  imports Job_Runner Movegen_Properties
begin

text \<open>The properties of limits, of the threads of a search and of the runner, with their witnesses.\<close>

section \<open>A search to apply them to\<close>

definition sample_system :: job_system where
  "sample_system = \<lparr>js_zobrist = sample_zobrist, js_board = sample_board, js_jobs = 2, js_polls = (\<lambda>i d. 5)\<rparr>"

definition sample_world :: "nat \<Rightarrow> bool \<Rightarrow> job_pc \<Rightarrow> api_pc \<Rightarrow> completions \<Rightarrow> job_world" where
  "sample_world depth stopped pc api comps = \<lparr>jw_comm = \<lparr>cm_depth = depth, cm_stopped = stopped, cm_startTime = 0,
       cm_limits = withFixedDepth 3, cm_lock = None, cm_lines = []\<rparr>,
     jw_jobs = [\<lparr>jb_pc = pc, jb_counter = 0\<rparr>, \<lparr>jb_pc = NextDepth 1, jb_counter = 0\<rparr>],
     jw_main = \<lparr>mn_pc = Waiting, mn_bestDepth = 0, mn_bestMove = move_null, mn_sent = [], mn_finished = []\<rparr>,
     jw_api = api, jw_completed = comps\<rparr>"

abbreviation sample_reachable :: "job_world \<Rightarrow> bool" where
  "sample_reachable \<equiv> search_reachable sample_system (withFixedDepth 3) 0 1"

lemma sample_start: "sample_reachable (sample_world 1 False (NextDepth 1) (ApiIdle 1) {})"
proof -
  have "search_start sample_system (withFixedDepth 3) 0 1 = sample_world 1 False (NextDepth 1) (ApiIdle 1) {}"
    by (simp add: sample_system_def sample_world_def search_start_def comm_reset_def new_communicator_def numeral_2_eq_2)
  then show ?thesis using search_reachable.Start [of sample_system "withFixedDepth 3" 0 1] by simp
qed

text \<open>The user interface has called \<^verbatim>\<open>stop()\<close>, which has set the flag.\<close>

definition sample_stopped :: job_world where
  "sample_stopped = sample_world 1 True (NextDepth 1) (ApiStopping 0 StopLock) {}"

lemma sample_stopped_reachable: "sample_reachable sample_stopped"
proof -
  have "search_step sample_system (sample_world 1 False (NextDepth 1) (ApiIdle 1) {})
      (sample_world 1 False (NextDepth 1) (ApiStopping 0 StopExchange) {})"
    using search_step.Api_call [of "sample_world 1 False (NextDepth 1) (ApiIdle 1) {}" 0] by (simp add: sample_world_def)
  moreover have "search_step sample_system (sample_world 1 False (NextDepth 1) (ApiStopping 0 StopExchange) {}) sample_stopped"
    using search_step.Api_stopping [of "sample_world 1 False (NextDepth 1) (ApiStopping 0 StopExchange) {}" 0 StopExchange
        "jw_comm sample_stopped" StopLock False]
    by (simp add: sample_stopped_def sample_world_def)
  ultimately show ?thesis by (blast intro: search_reachable.Step sample_start)
qed

text \<open>The first job has ended its search of depth 1 and has moved all jobs on.\<close>

abbreviation sample_best :: move where
  "sample_best \<equiv> mkMove PawnDoubleMove 52 36 0"

definition sample_finished :: job_world where
  "sample_finished = sample_world 2 False (Unwinding 1 True 7 sample_best) (ApiIdle 1) {(0, 1, 7, sample_best)}"

lemma sample_job_step:
  assumes "job_step sample_system 0 (jw_comm (sample_world d st pc a comps)) \<lparr>jb_pc = pc, jb_counter = 0\<rparr>
      (jw_comm (sample_world d' st pc a comps)) \<lparr>jb_pc = pc', jb_counter = 0\<rparr> e" "e \<noteq> Notify"
    "sample_reachable (sample_world d st pc a comps)"
  shows "sample_reachable (sample_world d' st pc' a (comps_after 0 e comps))"
proof -
  have "search_step sample_system (sample_world d st pc a comps) (sample_world d' st pc' a (comps_after 0 e comps))"
    using search_step.Job [of 0 "sample_world d st pc a comps" sample_system "jw_comm (sample_world d' st pc a comps)"
        "\<lparr>jb_pc = pc', jb_counter = 0\<rparr>" e] assms(1,2)
    by (cases e) (simp_all add: sample_world_def)
  then show ?thesis by (rule search_reachable.Step [OF assms(3)])
qed

lemma sample_finished_reachable: "sample_reachable sample_finished"
proof -
  note sel = sample_world_def withFixedDepth_def MAX_DEPTH_def sample_system_def finishDepth_def
  have 1: "sample_reachable (sample_world 1 False (Searching 1 5 True) (ApiIdle 1) {})"
    using sample_job_step [OF _ _ sample_start, of 1 "Searching 1 5 True" Quiet]
      job_step.Depth_begin [of "\<lparr>jb_pc = NextDepth 1, jb_counter = 0\<rparr>" 1 _ sample_system 0]
    by (simp add: sel)
  have 2: "sample_reachable (sample_world 1 False (Returned 1 True 7 sample_best) (ApiIdle 1) {(0, 1, 7, sample_best)})"
    using sample_job_step [OF _ _ 1, of 1 "Returned 1 True 7 sample_best" "Completed 1 7 sample_best"]
      job_step.Search_end [of "\<lparr>jb_pc = Searching 1 5 True, jb_counter = 0\<rparr>" 1 5 True sample_system 0 _ 7 sample_best]
    by (simp add: sample_world_def)
  have 3: "sample_reachable (sample_world 1 False (Finishing 1 True 7 sample_best) (ApiIdle 1) {(0, 1, 7, sample_best)})"
    using sample_job_step [OF _ _ 2, of 1 "Finishing 1 True 7 sample_best" Quiet]
      job_step.Run_on [of "\<lparr>jb_pc = Returned 1 True 7 sample_best, jb_counter = 0\<rparr>" 1 True 7 sample_best _ sample_system 0]
    by (simp add: sample_world_def)
  show ?thesis
    using sample_job_step [OF _ _ 3, of 2 "Unwinding 1 True 7 sample_best" Quiet]
      job_step.Finish_first [of "\<lparr>jb_pc = Finishing 1 True 7 sample_best, jb_counter = 0\<rparr>" 1 True 7 sample_best _ _ sample_system 0]
    by (simp add: sample_world_def sample_finished_def finishDepth_def)
qed

section \<open>Properties\<close>

text \<open>C12: at most one thread holds the mutex of the communicator, and a main thread that sleeps although there
  are new lines or the search was stopped is going to be notified: another thread is between its change and
  its \<^verbatim>\<open>notify_all()\<close>. So no wakeup is lost, as the comment in \<^verbatim>\<open>stop()\<close> claims of its lock and unlock.\<close>

theorem no_lost_wakeup:
  assumes "search_reachable sys limits now calls w"
  shows "(\<forall>t. cm_lock (jw_comm w) = Some t \<longleftrightarrow> holds w t) \<and>
    (mn_pc (jw_main w) = Sleeping \<and> (cm_lines (jw_comm w) \<noteq> [] \<or> cm_stopped (jw_comm w)) \<longrightarrow> notify_pending w)"
  using lock_ok_reachable [OF assms] wake_ok_reachable [OF assms] by (simp add: lock_ok_def wake_ok_def)

theorem no_lost_wakeup_witness: "\<not> holds sample_stopped MainThread \<and> cm_lock (jw_comm sample_stopped) = None"
proof -
  have "cm_lock (jw_comm sample_stopped) = None" by (simp add: sample_stopped_def sample_world_def)
  then show ?thesis using no_lost_wakeup [OF sample_stopped_reachable] by auto
qed

text \<open>C11: however the threads interleave, each depth below the current one is reported by exactly one job: its line is
  on its way from that job, waits in the communicator, or was sent, and what was sent comes from searches
  of that depth that ran to their end, none that \<^verbatim>\<open>mustStop()\<close> cut short.\<close>

theorem each_depth_reported_once:
  assumes "search_reachable sys limits now calls w"
  shows "claims w = mset [1..<cm_depth (jw_comm w)] \<and> distinct (map sr_depth (mn_sent (jw_main w))) \<and>
    (\<forall>line \<in> set (mn_sent (jw_main w)). 1 \<le> sr_depth line \<and> sr_depth line < cm_depth (jw_comm w) \<and> sr_bound line = Exact \<and>
      (\<exists>i sc. (i, sr_depth line, sc, hd (sr_pv line)) \<in> jw_completed w \<and> sr_cost line = scoreToPositionCost sc))"
proof -
  have ok: "lines_ok w" by (rule lines_ok_reachable [OF assms])
  then have c: "claims w = mset [1..<cm_depth (jw_comm w)]" by (simp add: lines_ok_def)
  have "mset (map sr_depth (mn_sent (jw_main w))) \<subseteq># claims w" by (simp add: claims_def)
  then have s: "mset (map sr_depth (mn_sent (jw_main w))) \<subseteq># mset [1..<cm_depth (jw_comm w)]" by (simp add: c)
  obtain r where "mset [1..<cm_depth (jw_comm w)] = mset (map sr_depth (mn_sent (jw_main w)) @ r)"
    using s by (metis mset_append mset_subset_eq_exists_conv ex_mset)
  then have "distinct (map sr_depth (mn_sent (jw_main w)))" by (metis distinct_append distinct_upt mset_eq_imp_distinct_iff)
  moreover have "sr_depth line < cm_depth (jw_comm w)" if "line \<in> set (mn_sent (jw_main w))" for line
    using set_mset_mono [OF s] that by auto
  moreover have "good_line (jw_completed w) line" if "line \<in> set (mn_sent (jw_main w))" for line
    using ok that by (simp add: lines_ok_def)
  ultimately show ?thesis using c unfolding good_line_def line_from_def by blast
qed

theorem each_depth_reported_witness: "claims sample_finished = {#1#}"
proof -
  have "[1..<2] = [1 :: nat]" by (simp add: upt_rec)
  then show ?thesis using each_depth_reported_once [OF sample_finished_reachable] by (simp add: sample_finished_def sample_world_def)
qed







text \<open>The time the engine plans for a move is at least a millisecond, it is less than the time on the clock, and with
  more than 350 milliseconds left it keeps the hard margin; only a time control of zero moves fails.\<close>

theorem thinking_time:
  assumes "tcs_time (tc_side tc (side b)) \<le> MILLISECONDS_MAX" "0 \<le> tcs_inc (tc_side tc (side b))"
    "tcs_inc (tc_side tc (side b)) < 2 ^ 62" "2 \<le> tcs_time (tc_side tc (side b))"
  shows "case withTimeControl b tc of
      None \<Rightarrow> tc_movesToGo tc = 0
    | Some limits \<Rightarrow> 1 \<le> lim_time limits \<and> lim_time limits < tcs_time (tc_side tc (side b)) \<and>
        lim_time limits \<noteq> TIME_UNLIMITED \<and> (tc_movesToGo tc \<noteq> 0 \<and> 350 < tcs_time (tc_side tc (side b)) \<longrightarrow>
          lim_time limits \<le> tcs_time (tc_side tc (side b)) - min 250 (20 + 3 * uint (tc_movesToGo tc)))"
proof (cases "tc_movesToGo tc = 0")
  case False
  obtain t where t: "calculateMaxTime b tc = Some t" "1 \<le> t" "t < tcs_time (tc_side tc (side b))"
      "350 < tcs_time (tc_side tc (side b)) \<longrightarrow> t \<le> tcs_time (tc_side tc (side b)) - min 250 (20 + 3 * uint (tc_movesToGo tc))"
    using calculateMaxTime_ok [OF False assms(1-3)] assms(4) by blast
  then have "t \<noteq> TIME_UNLIMITED" using assms(1) by (auto simp: TIME_UNLIMITED_def)
  then show ?thesis using t by (simp add: withTimeControl_def)
next
  case True
  show ?thesis
  proof (cases "20 < tcs_time (tc_side tc (side b))")
    case big: True
    then show ?thesis using calculateMaxTime_zero_moves [OF True] True by (simp add: withTimeControl_def)
  next
    case False
    then have "calculateMaxTime b tc = Some 1"
      using True assms(4) by (simp add: calculateMaxTime_def Let_def margin_consts MOVES_INFINITE_def MILLISECONDS_MAX_def)
    then show ?thesis using assms(4) True by (simp add: withTimeControl_def TIME_UNLIMITED_def MILLISECONDS_MAX_def)
  qed
qed

theorem thinking_time_witness:
  "(case withTimeControl sample_board (new_time_control\<lparr>tc_white := \<lparr>tcs_time = 60000, tcs_inc = 1000\<rparr>\<rparr>) of
      None \<Rightarrow> False | Some limits \<Rightarrow> 1 \<le> lim_time limits \<and> lim_time limits \<le> 59750)"
proof -
  let ?tc = "new_time_control\<lparr>tc_white := \<lparr>tcs_time = 60000, tcs_inc = 1000\<rparr>\<rparr>"
  have s: "tc_side ?tc (side sample_board) = \<lparr>tcs_time = 60000, tcs_inc = 1000\<rparr>" by (simp add: tc_side_def sample_views)
  have m: "tc_movesToGo ?tc = - 1" "(- 1 :: u32) \<noteq> 0" "uint (- 1 :: u32) = 4294967295"
    by (simp_all add: new_time_control_def MOVES_INFINITE_def unsigned_minus_1_eq_mask mask_eq_exp_minus_1)
  show ?thesis using thinking_time [of ?tc sample_board] unfolding s m(1) using m(2,3)
    by (simp add: MILLISECONDS_MAX_def split: option.splits)
qed




end
