(* ===== verification/Options.thy ===== *)
theory Options
  imports Str_Words "HOL-Library.AList" "HOL-Library.Char_ord" "HOL-Library.List_Lexorder"
begin

text \<open>
  Results of calls between engine and user interface (\<^verbatim>\<open>src/src/bot_api/api_base.h\<close>, \<^verbatim>\<open>connector.h\<close>,
  \<^verbatim>\<open>strutil.cpp\<close>) and the options of an engine (\<^verbatim>\<open>bot_api/options.h\<close>, \<^verbatim>\<open>options.cpp\<close>). The engine is told of
  each change by an observer that works on its own state; the storage is the pair of the values and that
  state. A hash table is the list of its entries in the order an iteration visits them. A panic, and an
  observer that does not return, is \<open>None\<close>.
\<close>

section \<open>Results of calls\<close>

datatype ApiResult = Api_Ok | NotSupported | InvalidArgument | UnexpectedCall | ApiError | Api_IOError | Api_RuntimeError

datatype PollResult = Poll_Ok | NoData | Shutdown | Poll_IOError | Poll_RuntimeError

fun apiResultToStr :: "ApiResult \<Rightarrow> string" where
  "apiResultToStr Api_Ok = ''Ok''"
| "apiResultToStr NotSupported = ''Command not supported''"
| "apiResultToStr InvalidArgument = ''Invalid parameters given''"
| "apiResultToStr UnexpectedCall = ''Unexpected command''"
| "apiResultToStr ApiError = ''Internal error''"
| "apiResultToStr Api_IOError = ''Input/output error''"
| "apiResultToStr Api_RuntimeError = ''Unknown error''"

fun pollResultToStr :: "PollResult \<Rightarrow> string" where
  "pollResultToStr Poll_Ok = ''Ok''"
| "pollResultToStr NoData = ''No data received''"
| "pollResultToStr Shutdown = ''Shutdown''"
| "pollResultToStr Poll_IOError = ''Input/output error''"
| "pollResultToStr Poll_RuntimeError = ''Unknown error''"

type_synonym 's api = "'s \<Rightarrow> (ApiResult \<times> 's) option"

section \<open>Types and values of options\<close>

datatype OptionType = Type_Bool | Type_Int | Type_String | Type_Enum | Type_Action | Type_None

fun optionTypeVal :: "OptionType \<Rightarrow> int" where
  "optionTypeVal Type_Bool = 0"
| "optionTypeVal Type_Int = 1"
| "optionTypeVal Type_String = 2"
| "optionTypeVal Type_Enum = 3"
| "optionTypeVal Type_Action = 4"
| "optionTypeVal Type_None = 255"

instantiation OptionType :: linorder
begin

definition less_eq_OptionType :: "OptionType \<Rightarrow> OptionType \<Rightarrow> bool" where
  "less_eq_OptionType a b \<longleftrightarrow> optionTypeVal a \<le> optionTypeVal b"

definition less_OptionType :: "OptionType \<Rightarrow> OptionType \<Rightarrow> bool" where
  "less_OptionType a b \<longleftrightarrow> optionTypeVal a < optionTypeVal b"

instance
proof
  fix a b :: OptionType
  show "a \<le> b \<Longrightarrow> b \<le> a \<Longrightarrow> a = b" by (cases a; cases b) (simp_all add: less_eq_OptionType_def)
qed (auto simp: less_eq_OptionType_def less_OptionType_def)

end

record int_option =
  io_min :: int
  io_value :: int
  io_max :: int

record enum_option =
  eo_items :: "string list"
  eo_index :: nat

datatype opt_value = BoolOption bool | IntOption int_option | StringOption string | EnumOption enum_option | ActionOption

fun opt_type :: "opt_value \<Rightarrow> OptionType" where
  "opt_type (BoolOption _) = Type_Bool"
| "opt_type (IntOption _) = Type_Int"
| "opt_type (StringOption _) = Type_String"
| "opt_type (EnumOption _) = Type_Enum"
| "opt_type ActionOption = Type_Action"

text \<open>\<^verbatim>\<open>std::get_if\<close> at each alternative.\<close>

fun if_bool :: "opt_value \<Rightarrow> bool option" where "if_bool (BoolOption v) = Some v" | "if_bool _ = None"
fun if_int :: "opt_value \<Rightarrow> int_option option" where "if_int (IntOption v) = Some v" | "if_int _ = None"
fun if_string :: "opt_value \<Rightarrow> string option" where "if_string (StringOption v) = Some v" | "if_string _ = None"
fun if_enum :: "opt_value \<Rightarrow> enum_option option" where "if_enum (EnumOption v) = Some v" | "if_enum _ = None"
fun if_action :: "opt_value \<Rightarrow> unit option" where "if_action ActionOption = Some ()" | "if_action _ = None"

type_synonym opt_values = "(string \<times> opt_value) list"

record 's option_observer =
  ob_setBool :: "string \<Rightarrow> bool \<Rightarrow> 's api"
  ob_setInt :: "string \<Rightarrow> int \<Rightarrow> 's api"
  ob_setEnum :: "string \<Rightarrow> nat \<Rightarrow> 's api"
  ob_setString :: "string \<Rightarrow> string \<Rightarrow> 's api"
  ob_triggerAction :: "string \<Rightarrow> 's api"

section \<open>The storage\<close>

definition opts_type :: "opt_values \<Rightarrow> string \<Rightarrow> OptionType" where
  "opts_type vals key = (case map_of vals key of None \<Rightarrow> Type_None | Some v \<Rightarrow> opt_type v)"

definition opts_has :: "opt_values \<Rightarrow> string \<Rightarrow> bool" where
  "opts_has vals key \<longleftrightarrow> opts_type vals key \<noteq> Type_None"

definition opts_list :: "opt_values \<Rightarrow> (string \<times> OptionType) list" where
  "opts_list vals = map (\<lambda>(key, v). (key, opt_type v)) vals"

definition getT :: "(opt_value \<Rightarrow> 'o option) \<Rightarrow> opt_values \<Rightarrow> string \<Rightarrow> 'o option" where
  "getT get_if vals key = Option.bind (map_of vals key) get_if"

definition getBool :: "opt_values \<Rightarrow> string \<Rightarrow> bool option" where "getBool = getT if_bool"
definition getInt :: "opt_values \<Rightarrow> string \<Rightarrow> int_option option" where "getInt = getT if_int"
definition getEnum :: "opt_values \<Rightarrow> string \<Rightarrow> enum_option option" where "getEnum = getT if_enum"
definition getString :: "opt_values \<Rightarrow> string \<Rightarrow> string option" where "getString = getT if_string"

text \<open>
  \<open>setT\<close> validates the request, asks the observer when there is one, and only then writes through the
  pointer it looked up first.
\<close>

definition setT :: "(opt_value \<Rightarrow> 'o option) \<Rightarrow> ('o \<Rightarrow> bool) \<Rightarrow> 's api option \<Rightarrow> ('o \<Rightarrow> opt_value) \<Rightarrow> string \<Rightarrow> (opt_values \<times> 's) api" where
  "setT get_if validate observe assign key st =
     (case st of (vals, s) \<Rightarrow>
        (case getT get_if vals key of
           None \<Rightarrow> Some (InvalidArgument, st)
         | Some opt \<Rightarrow>
             if \<not> validate opt then Some (InvalidArgument, st)
             else (case observe of
                 None \<Rightarrow> Some (Api_Ok, (AList.update key (assign opt) vals, s))
               | Some f \<Rightarrow> map_option (\<lambda>(res, s').
                   if res \<noteq> Api_Ok then (res, (vals, s')) else (Api_Ok, (AList.update key (assign opt) vals, s'))) (f s))))"

definition setBool :: "'s option_observer option \<Rightarrow> string \<Rightarrow> bool \<Rightarrow> (opt_values \<times> 's) api" where
  "setBool obs key val = setT if_bool (\<lambda>_. True) (map_option (\<lambda>ob. ob_setBool ob key val) obs) (\<lambda>_. BoolOption val) key"

definition setEnum :: "'s option_observer option \<Rightarrow> string \<Rightarrow> nat \<Rightarrow> (opt_values \<times> 's) api" where
  "setEnum obs key index =
     setT if_enum (\<lambda>opt. index < length (eo_items opt)) (map_option (\<lambda>ob. ob_setEnum ob key index) obs)
       (\<lambda>opt. EnumOption (opt\<lparr>eo_index := index\<rparr>)) key"

definition setInt :: "'s option_observer option \<Rightarrow> string \<Rightarrow> int \<Rightarrow> (opt_values \<times> 's) api" where
  "setInt obs key val =
     setT if_int (\<lambda>opt. io_min opt \<le> val \<and> val \<le> io_max opt) (map_option (\<lambda>ob. ob_setInt ob key val) obs)
       (\<lambda>opt. IntOption (opt\<lparr>io_value := val\<rparr>)) key"

definition setString :: "'s option_observer option \<Rightarrow> string \<Rightarrow> string \<Rightarrow> (opt_values \<times> 's) api" where
  "setString obs key val = setT if_string (\<lambda>_. True) (map_option (\<lambda>ob. ob_setString ob key val) obs) (\<lambda>_. StringOption val) key"

text \<open>\<^verbatim>\<open>std::find\<close>: the distance to the first equal element, or to the end.\<close>

fun find_index :: "'a \<Rightarrow> 'a list \<Rightarrow> nat" where
  "find_index v [] = 0"
| "find_index v (x # xs) = (if x = v then 0 else Suc (find_index v xs))"

definition setEnum_item :: "'s option_observer option \<Rightarrow> string \<Rightarrow> string \<Rightarrow> (opt_values \<times> 's) api" where
  "setEnum_item obs key val st =
     (case st of (vals, s) \<Rightarrow>
        (case getT if_enum vals key of
           None \<Rightarrow> Some (InvalidArgument, st)
         | Some opt \<Rightarrow>
             let index = find_index val (eo_items opt)
             in if index = length (eo_items opt) then Some (InvalidArgument, st)
                else let vals' = AList.update key (EnumOption (opt\<lparr>eo_index := index\<rparr>)) vals
                  in (case obs of
                      None \<Rightarrow> Some (Api_Ok, (vals', s))
                    | Some ob \<Rightarrow> map_option (\<lambda>(res, s'). if res \<noteq> Api_Ok then (res, (vals, s')) else (Api_Ok, (vals', s')))
                        (ob_setEnum ob key index s))))"

definition triggerAction :: "'s option_observer option \<Rightarrow> string \<Rightarrow> (opt_values \<times> 's) api" where
  "triggerAction obs key st =
     (case st of (vals, s) \<Rightarrow>
        (case getT if_action vals key of
           None \<Rightarrow> Some (InvalidArgument, st)
         | Some _ \<Rightarrow>
             (case obs of
                None \<Rightarrow> Some (Api_Ok, st)
              | Some ob \<Rightarrow> map_option (\<lambda>(res, s'). (res, (vals, s'))) (ob_triggerAction ob key s))))"

section \<open>The builder\<close>

definition isOptionNameValid :: "string \<Rightarrow> bool" where
  "isOptionNameValid s =
     (if s = [] \<or> s ! 0 = CHR '' '' \<or> s ! (length s - 1) = CHR '' '' then False
      else if list_ex (\<lambda>c. (of_char c :: int) < 32 \<or> (of_char c :: int) > 126) s then False
      else \<not> list_ex (\<lambda>i. s ! (i - 1) = CHR '' '' \<and> s ! i = CHR '' '') [1..<length s])"

definition hasRepetitions :: "'a::linorder list \<Rightarrow> bool" where
  "hasRepetitions vec = (let v = sort vec in list_ex (\<lambda>i. v ! (i - 1) = v ! i) [1..<length v])"

text \<open>Where the hash table puts a new entry is not specified; here it comes first.\<close>

definition addT :: "string \<Rightarrow> opt_value \<Rightarrow> opt_values \<Rightarrow> opt_values option" where
  "addT key t vals =
     (if \<not> isOptionNameValid key then None
      else if map_of vals key \<noteq> None then None
      else Some ((key, t) # vals))"

definition addBool :: "string \<Rightarrow> bool \<Rightarrow> opt_values \<Rightarrow> opt_values option" where
  "addBool key val = addT key (BoolOption val)"

definition addEnum :: "string \<Rightarrow> string list \<Rightarrow> nat \<Rightarrow> opt_values \<Rightarrow> opt_values option" where
  "addEnum key items index vals =
     (if index \<ge> length items then None
      else if list_ex (\<lambda>item. \<not> isOptionNameValid item) items then None
      else if hasRepetitions items then None
      else addT key (EnumOption \<lparr>eo_items = items, eo_index = index\<rparr>) vals)"

definition addInt :: "string \<Rightarrow> int \<Rightarrow> int \<Rightarrow> int \<Rightarrow> opt_values \<Rightarrow> opt_values option" where
  "addInt key mn val mx vals =
     (if val < mn \<or> val > mx then None else addT key (IntOption \<lparr>io_min = mn, io_value = val, io_max = mx\<rparr>) vals)"

definition addString :: "string \<Rightarrow> string \<Rightarrow> opt_values \<Rightarrow> opt_values option" where
  "addString key val = addT key (StringOption val)"

definition addAction :: "string \<Rightarrow> opt_values \<Rightarrow> opt_values option" where
  "addAction key = addT key ActionOption"

text \<open>
  Laws of the options: what the builder makes is well-formed, and a call that sets an option keeps it so,
  changes nothing but that option, and changes nothing at all unless the engine agreed.
\<close>

section \<open>Well-formed storage\<close>

fun opt_ok :: "opt_value \<Rightarrow> bool" where
  "opt_ok (IntOption i) \<longleftrightarrow> io_min i \<le> io_value i \<and> io_value i \<le> io_max i"
| "opt_ok (EnumOption e) \<longleftrightarrow> eo_index e < length (eo_items e) \<and> distinct (eo_items e) \<and> list_all isOptionNameValid (eo_items e)"
| "opt_ok _ \<longleftrightarrow> True"

definition opts_ok :: "opt_values \<Rightarrow> bool" where
  "opts_ok vals \<longleftrightarrow> distinct (map fst vals) \<and> list_all (\<lambda>(key, v). isOptionNameValid key \<and> opt_ok v) vals"

text \<open>What a client can rely on: all of an option but its current value.\<close>

fun opt_shape :: "opt_value \<Rightarrow> opt_value" where
  "opt_shape (BoolOption _) = BoolOption False"
| "opt_shape (IntOption i) = IntOption (i\<lparr>io_value := 0\<rparr>)"
| "opt_shape (StringOption _) = StringOption []"
| "opt_shape (EnumOption e) = EnumOption (e\<lparr>eo_index := 0\<rparr>)"
| "opt_shape ActionOption = ActionOption"

lemma opt_type_shape: "opt_type (opt_shape v) = opt_type v"
  by (cases v) auto

section \<open>The builder\<close>

lemma adjacent_iff: "list_ex (\<lambda>i. P (s ! (i - 1)) (s ! i)) [1..<length s] \<longleftrightarrow> (\<exists>i. Suc i < length s \<and> P (s ! i) (s ! Suc i))"
proof -
  have "(\<exists>i \<in> set [1..<length s]. P (s ! (i - 1)) (s ! i)) \<longleftrightarrow> (\<exists>i. Suc i < length s \<and> P (s ! i) (s ! Suc i))"
  proof
    assume "\<exists>i \<in> set [1..<length s]. P (s ! (i - 1)) (s ! i)"
    then obtain i where i: "1 \<le> i" "i < length s" "P (s ! (i - 1)) (s ! i)" by auto
    then show "\<exists>i. Suc i < length s \<and> P (s ! i) (s ! Suc i)" by (intro exI [of _ "i - 1"]) simp
  next
    assume "\<exists>i. Suc i < length s \<and> P (s ! i) (s ! Suc i)"
    then obtain i where i: "Suc i < length s" "P (s ! i) (s ! Suc i)" by blast
    then show "\<exists>i \<in> set [1..<length s]. P (s ! (i - 1)) (s ! i)" by (intro bexI [of _ "Suc i"]) simp_all
  qed
  then show ?thesis by (simp add: list_ex_iff)
qed

lemma sorted_adjacent_distinct:
  assumes "sorted v" "\<not> (\<exists>i. Suc i < length v \<and> v ! i = v ! Suc i)"
  shows "distinct v"
proof -
  have lt: "v ! i < v ! Suc i" if "Suc i < length v" for i
    using assms that sorted_nth_mono [of v i "Suc i"] by (metis le_neq_trans lessI less_imp_le)
  have "sorted_wrt (<) v"
    unfolding sorted_wrt_iff_nth_less
  proof (intro allI impI)
    fix i j assume "i < j" "j < length v"
    then show "v ! i < v ! j"
    proof (induction j)
      case (Suc j)
      then show ?case using lt [of j] by (cases "i = j") auto
    qed simp
  qed
  then show ?thesis by (simp add: strict_sorted_iff)
qed

lemma hasRepetitions_iff: "hasRepetitions v \<longleftrightarrow> \<not> distinct v"
proof -
  have "hasRepetitions v \<longleftrightarrow> (\<exists>i. Suc i < length (sort v) \<and> sort v ! i = sort v ! Suc i)"
    unfolding hasRepetitions_def Let_def by (rule adjacent_iff)
  also have "\<dots> \<longleftrightarrow> \<not> distinct (sort v)"
    using sorted_adjacent_distinct [of "sort v"] by (metis Suc_lessD lessI nat_neq_iff nth_eq_iff_index_eq sorted_sort)
  finally show ?thesis by simp
qed

lemma addT_ok: "addT key t vals = Some vals' \<Longrightarrow> opts_ok vals \<Longrightarrow> opt_ok t \<Longrightarrow> opts_ok vals'"
  by (auto simp: addT_def opts_ok_def map_of_eq_None_iff split: if_splits)

lemma add_ok:
  assumes "opts_ok vals"
  shows "addBool key bv vals = Some vals' \<Longrightarrow> opts_ok vals'"
    "addEnum key items index vals = Some vals' \<Longrightarrow> opts_ok vals'"
    "addInt key mn val mx vals = Some vals' \<Longrightarrow> opts_ok vals'"
    "addString key str vals = Some vals' \<Longrightarrow> opts_ok vals'"
    "addAction key vals = Some vals' \<Longrightarrow> opts_ok vals'"
  using assms
  by (auto simp: addBool_def addEnum_def addInt_def addString_def addAction_def hasRepetitions_iff list_all_iff list_ex_iff
      intro: addT_ok split: if_splits)

section \<open>Setting an option\<close>

text \<open>Replacing the value of a present key by one of the same shape.\<close>

lemma map_of_update [simp]: "map_of (AList.update k v al) = (map_of al)(k \<mapsto> v)"
  by (simp add: AList.update_conv')

lemma map_update_shape:
  "map_of vals key = Some v \<Longrightarrow> f v' = f v \<Longrightarrow>
    map (\<lambda>(k, v). (k, f v)) (AList.update key v' vals) = map (\<lambda>(k, v). (k, f v)) vals"
  by (induction vals) auto

lemma update_ok:
  assumes "opts_ok vals" "map_of vals key = Some v" "opt_ok v'"
  shows "opts_ok (AList.update key v' vals)"
proof -
  have k: "map fst (AList.update key v' vals) = map fst vals"
    using assms(2) by (auto simp: AList.update_keys dest: map_of_SomeD intro: rev_image_eqI)
  have "isOptionNameValid k \<and> opt_ok w" if "(k, w) \<in> set (AList.update key v' vals)" for k w
  proof -
    have d: "distinct (map fst (AList.update key v' vals))" using assms(1) by (simp add: k opts_ok_def)
    have "map_of (AList.update key v' vals) k = Some w" using d that by (rule map_of_is_SomeI)
    then have "(k = key \<and> w = v') \<or> map_of vals k = Some w" by (auto split: if_splits)
    then have "(k = key \<and> w = v') \<or> (k, w) \<in> set vals" using map_of_SomeD by metis
    moreover have "(key, v) \<in> set vals" using assms(2) by (rule map_of_SomeD)
    ultimately show ?thesis using assms(1,3) by (auto simp: opts_ok_def list_all_iff)
  qed
  then show ?thesis using assms(1) k by (auto simp: opts_ok_def list_all_iff)
qed

text \<open>The contract of every call that sets an option: \<open>v\<close> is what the option holds if it succeeds.\<close>

definition set_contract :: "string \<Rightarrow> opt_values \<Rightarrow> ApiResult \<Rightarrow> opt_values \<Rightarrow> opt_value \<Rightarrow> bool" where
  "set_contract key vals res vals' v \<longleftrightarrow>
     (opts_ok vals \<longrightarrow> opts_ok vals') \<and>
     map (\<lambda>(k, v). (k, opt_shape v)) vals' = map (\<lambda>(k, v). (k, opt_shape v)) vals \<and>
     (if res = Api_Ok then map_of vals' = (map_of vals)(key \<mapsto> v) else vals' = vals)"

lemma contract_refused [simp]: "res \<noteq> Api_Ok \<Longrightarrow> set_contract key vals res vals v"
  by (simp add: set_contract_def)

lemma contract_update:
  assumes "map_of vals key = Some v" "opt_shape v' = opt_shape v" "opts_ok vals \<Longrightarrow> opt_ok v'"
  shows "set_contract key vals Api_Ok (AList.update key v' vals) v'"
  using assms map_update_shape [of vals key v opt_shape v'] update_ok [of vals key v v'] by (simp add: set_contract_def)

lemma opts_ok_lookup: "opts_ok vals \<Longrightarrow> map_of vals key = Some v \<Longrightarrow> isOptionNameValid key \<and> opt_ok v"
  by (auto simp: opts_ok_def list_all_iff dest!: map_of_SomeD)

lemma setT_contract:
  assumes "setT get_if validate observe assign key (vals, s) = Some (res, (vals', s'))"
    and "\<And>v opt. map_of vals key = Some v \<Longrightarrow> get_if v = Some opt \<Longrightarrow> validate opt \<Longrightarrow>
      opt_shape (assign opt) = opt_shape v \<and> (opts_ok vals \<longrightarrow> opt_ok (assign opt)) \<and> assign opt = w"
  shows "set_contract key vals res vals' w"
proof (cases "getT get_if vals key")
  case None
  then show ?thesis using assms(1) by (simp add: setT_def)
next
  case (Some opt)
  then obtain v where v: "map_of vals key = Some v" "get_if v = Some opt" by (auto simp: getT_def bind_eq_Some_conv)
  show ?thesis
  proof (cases "validate opt")
    case True
    have "set_contract key vals Api_Ok (AList.update key (assign opt) vals) w"
      using assms(2) [OF v True] by (auto intro!: contract_update [OF v(1)])
    then show ?thesis using assms(1) Some True by (auto simp: setT_def split: option.splits if_splits)
  qed (use assms(1) Some in \<open>auto simp: setT_def split: option.splits\<close>)
qed

lemma if_Some:
  "if_bool v = Some ob \<longleftrightarrow> v = BoolOption ob" "if_int v = Some oi \<longleftrightarrow> v = IntOption oi"
  "if_string v = Some os \<longleftrightarrow> v = StringOption os" "if_enum v = Some oe \<longleftrightarrow> v = EnumOption oe"
  "if_action v = Some u \<longleftrightarrow> v = ActionOption"
  by (cases v; simp)+

lemma setBool_contract: "setBool obs key val (vals, s) = Some (res, (vals', s')) \<Longrightarrow> set_contract key vals res vals' (BoolOption val)"
  unfolding setBool_def by (erule setT_contract) (auto simp: if_Some)

lemma setString_contract: "setString obs key val (vals, s) = Some (res, (vals', s')) \<Longrightarrow> set_contract key vals res vals' (StringOption val)"
  unfolding setString_def by (erule setT_contract) (auto simp: if_Some)

lemma setInt_contract:
  "setInt obs key val (vals, s) = Some (res, (vals', s')) \<Longrightarrow>
    set_contract key vals res vals' (IntOption (the (getInt vals key)\<lparr>io_value := val\<rparr>))"
  unfolding setInt_def by (erule setT_contract) (auto simp: if_Some getInt_def getT_def)

lemma setEnum_contract:
  "setEnum obs key index (vals, s) = Some (res, (vals', s')) \<Longrightarrow>
    set_contract key vals res vals' (EnumOption (the (getEnum vals key)\<lparr>eo_index := index\<rparr>))"
  unfolding setEnum_def by (erule setT_contract) (auto simp: if_Some getEnum_def getT_def dest: opts_ok_lookup)

lemma find_index_le: "find_index v xs \<le> length xs"
  by (induction xs) auto

lemma find_index_nth: "find_index v xs < length xs \<Longrightarrow> xs ! find_index v xs = v"
  by (induction xs) auto

lemma find_index_mem: "find_index v xs < length xs \<longleftrightarrow> v \<in> set xs"
  by (induction xs) auto

lemma find_index_at: "distinct xs \<Longrightarrow> i < length xs \<Longrightarrow> find_index (xs ! i) xs = i"
  using find_index_nth [of "xs ! i" xs] by (simp add: find_index_mem nth_eq_iff_index_eq)

text \<open>Setting an enumeration by the text of an item is setting it by the position of that item.\<close>

lemma setEnum_item_eq:
  "setEnum_item obs key val (vals, s) =
     (case getEnum vals key of
        None \<Rightarrow> Some (InvalidArgument, (vals, s))
      | Some opt \<Rightarrow> setEnum obs key (find_index val (eo_items opt)) (vals, s))"
  using find_index_le [of val]
  by (auto simp: setEnum_item_def setEnum_def setT_def getEnum_def Let_def split: option.splits) (metis le_neq_implies_less)+

end
