(* ===== verification/Uci_Escape.thy ===== *)
theory Uci_Escape
  imports Options
begin

text \<open>
  Names of options in the protocol (\<^verbatim>\<open>src/src/bot_api/clients/private/uci_option_escape.cpp\<close>): words that
  the protocol reserves get an underscore more, and lose it again when they are read.
\<close>

section \<open>Escaping\<close>

text \<open>The text a \<^verbatim>\<open>c_str\<close> pointer stands for ends at the first zero byte.\<close>

definition c_str :: "string \<Rightarrow> string" where
  "c_str s = takeWhile (\<lambda>c. c \<noteq> CHR 0x00) s"

function transform_loop :: "(string \<Rightarrow> string) \<Rightarrow> string \<Rightarrow> string \<Rightarrow> string" where
  "transform_loop transform result str =
     (case scanTokenStart str of
        [] \<Rightarrow> result
      | c # rest \<Rightarrow>
          let left = c # rest; right = scanTokenEnd left;
              result1 = (if result \<noteq> [] then result @ '' '' else result)
          in transform_loop transform (result1 @ transform (token left right)) right)"
  by auto

termination
proof (relation "measure (\<lambda>(_, _, str). length str)")
  fix transform :: "string \<Rightarrow> string" and result str c rest left right result1
  assume s: "scanTokenStart str = c # rest" and l: "left = c # rest" and n: "right = scanTokenEnd left"
  have "length right \<le> length rest"
    using scanTokenStart_hd [OF s] length_scanTokenEnd [of rest] by (simp add: n l)
  then show "((transform, result1 @ transform (token left right), right), transform, result, str) \<in> measure (\<lambda>(_, _, str). length str)"
    using length_scanTokenStart [of str] by (simp add: s)
qed simp

declare transform_loop.simps [simp del]

definition transformTokens :: "(string \<Rightarrow> string) \<Rightarrow> string \<Rightarrow> string" where
  "transformTokens transform name = (if name = [] then [] else transform_loop transform [] (c_str name))"

definition BAD_WORDS :: "string list" where
  "BAD_WORDS = [''name'', ''value'', ''val'']"

definition isBadToken :: "string \<Rightarrow> bool" where
  "isBadToken str = (let rest = dropWhile (\<lambda>c. c = CHR ''_'') str in list_ex (\<lambda>badWord. rest = badWord) BAD_WORDS)"

definition escape_token :: "string \<Rightarrow> string" where
  "escape_token str = (if isBadToken str then ''_'' else []) @ str"

definition unescape_token :: "string \<Rightarrow> string" where
  "unescape_token str = (if isBadToken str \<and> str ! 0 = CHR ''_'' then drop 1 str else str)"

definition uciNameEscape :: "string \<Rightarrow> string" where
  "uciNameEscape name = transformTokens escape_token name"

definition uciNameUnescape :: "string \<Rightarrow> string" where
  "uciNameUnescape name = transformTokens unescape_token name"

definition uciOptionNameEscape :: "string \<Rightarrow> string" where "uciOptionNameEscape name = uciNameEscape name"
definition uciOptionNameUnescape :: "string \<Rightarrow> string" where "uciOptionNameUnescape name = uciNameUnescape name"
definition uciEnumNameEscape :: "string \<Rightarrow> string" where "uciEnumNameEscape item = uciNameEscape item"
definition uciEnumNameUnescape :: "string \<Rightarrow> string" where "uciEnumNameUnescape item = uciNameUnescape item"

section \<open>Words joined by single spaces\<close>

fun join_words :: "string list \<Rightarrow> string" where
  "join_words [] = []"
| "join_words [w] = w"
| "join_words (w # v # ws) = w @ '' '' @ join_words (v # ws)"

definition join_to :: "string \<Rightarrow> string list \<Rightarrow> string" where
  "join_to result ws = (if result = [] then join_words ws else if ws = [] then result else result @ '' '' @ join_words ws)"

lemma join_words_Cons: "join_words (w # ws) = (if ws = [] then w else w @ '' '' @ join_words ws)"
  by (cases ws) auto

lemma join_words_snoc: "join_words (ws @ [w]) = (if ws = [] then w else join_words ws @ '' '' @ w)"
  by (induction ws rule: join_words.induct) auto

lemma join_words_Nil: "join_words ws = [] \<longleftrightarrow> ws = [] \<or> ws = [[]]"
  by (induction ws rule: join_words.induct) auto

lemma split_loop_rec:
  "split_loop s = (case scanTokenStart s of [] \<Rightarrow> [] | c # rest \<Rightarrow> token (c # rest) (scanTokenEnd (c # rest)) # split_loop (scanTokenEnd (c # rest)))"
  by (subst split_loop.simps) (simp only: Let_def)

lemma transform_loop_eq:
  assumes t: "\<And>w. w \<noteq> [] \<Longrightarrow> t w \<noteq> []"
  shows "transform_loop t result s = join_to result (map t (split_loop s))"
proof (induction s arbitrary: result rule: split_loop.induct)
  case (1 s)
  show ?case
  proof (cases "scanTokenStart s")
    case Nil
    then show ?thesis by (subst transform_loop.simps, subst split_loop_rec) (simp add: join_to_def)
  next
    case (Cons c rest)
    let ?w = "token (c # rest) (scanTokenEnd (c # rest))"
    have "?w \<noteq> []" unfolding token_scanTokenEnd using scanTokenStart_hd [OF Cons] by simp
    then have ne: "t ?w \<noteq> []" by (rule t)
    have "transform_loop t result s = join_to ((if result \<noteq> [] then result @ '' '' else result) @ t ?w) (map t (split_loop (scanTokenEnd (c # rest))))"
      using "1.IH" [OF Cons refl] by (subst transform_loop.simps) (simp add: Cons Let_def)
    also have "\<dots> = join_to result (t ?w # map t (split_loop (scanTokenEnd (c # rest))))"
      using ne by (auto simp: join_to_def join_words_Cons)
    also have "\<dots> = join_to result (map t (split_loop s))" by (subst split_loop_rec [of s]) (simp add: Cons)
    finally show ?thesis .
  qed
qed

lemma transformTokens_eq:
  assumes "\<And>w. w \<noteq> [] \<Longrightarrow> t w \<noteq> []"
  shows "transformTokens t s = join_words (map t (split_loop (c_str s)))"
  by (simp add: transformTokens_def transform_loop_eq [OF assms] join_to_def c_str_def split_loop_Nil)

section \<open>Tokens\<close>

lemma bad_cases: "isBadToken w \<longleftrightarrow> dropWhile (\<lambda>c. c = CHR ''_'') w \<in> {''name'', ''value'', ''val''}"
  by (auto simp: isBadToken_def BAD_WORDS_def Let_def)

lemma unescape_escape: "unescape_token (escape_token w) = w"
  by (auto simp: unescape_token_def escape_token_def bad_cases)

lemma escape_nonempty: "w \<noteq> [] \<Longrightarrow> escape_token w \<noteq> []"
  by (auto simp: escape_token_def)

lemma unescape_nonempty: "w \<noteq> [] \<Longrightarrow> unescape_token w \<noteq> []"
  by (cases w) (auto simp: unescape_token_def bad_cases)

lemma escape_not_reserved: "escape_token w \<noteq> ''name'' \<and> escape_token w \<noteq> ''value'' \<and> escape_token w \<noteq> ''val''"
  by (auto simp: escape_token_def bad_cases)

lemma word_ok_escape: "word_ok w \<Longrightarrow> word_ok (escape_token w)"
  by (auto simp: word_ok_def escape_token_def isSpace_def)

lemma split_join:
  assumes "list_all word_ok ws"
  shows "split_loop (join_words ws) = ws"
  using assms
proof (induction ws rule: join_words.induct)
  case 1
  then show ?case by (simp add: split_loop_Nil)
next
  case (2 w)
  then obtain c w' where w: "w = c # w'" "\<not> isSpace c" "\<forall>x\<in>set w'. \<not> isSpace x"
    by (cases w) (auto simp: word_ok_def list_all_iff)
  then have "takeWhile (\<lambda>c. \<not> isSpace c) (c # w') = c # w'" "dropWhile (\<lambda>c. \<not> isSpace c) w' = []"
    by (simp_all add: takeWhile_eq_all_conv dropWhile_eq_Nil_conv)
  then have "split_loop (c # w') = (c # w') # split_loop []" using split_loop_Cons [OF w(2), of w'] by (simp only:)
  then show ?case by (simp add: w(1) split_loop_Nil)
next
  case (3 w v ws)
  have "blank '' ''" by (simp add: blank_def isSpace_def)
  then show ?case using 3 split_loop_word [of w "'' ''" "join_words (v # ws)"] by simp
qed

section \<open>Valid names\<close>

definition printable :: "char \<Rightarrow> bool" where
  "printable c \<longleftrightarrow> 32 \<le> (of_char c :: int) \<and> (of_char c :: int) \<le> 126"

lemma printable_facts: "printable c \<Longrightarrow> isSpace c \<longleftrightarrow> c = CHR '' ''" "printable c \<Longrightarrow> c \<noteq> CHR 0x00"
  by (auto simp: printable_def isSpace_def)

lemma isOptionNameValid_iff:
  "isOptionNameValid s \<longleftrightarrow> s \<noteq> [] \<and> hd s \<noteq> CHR '' '' \<and> List.last s \<noteq> CHR '' '' \<and> list_all printable s \<and>
     (\<forall>i. Suc i < length s \<longrightarrow> \<not> (s ! i = CHR '' '' \<and> s ! Suc i = CHR '' ''))"
  using adjacent_iff [of "\<lambda>a b. a = CHR '' '' \<and> b = CHR '' ''" s]
  by (cases "s = []") (auto simp: isOptionNameValid_def hd_conv_nth last_conv_nth list_ex_iff list_all_iff printable_def not_le not_less)

lemma valid_tail:
  assumes "isOptionNameValid (w @ '' '' @ s)"
  shows "isOptionNameValid s"
proof -
  have v: "List.last (w @ '' '' @ s) \<noteq> CHR '' ''" "list_all printable (w @ '' '' @ s)"
    and n: "\<And>i. Suc i < length (w @ '' '' @ s) \<Longrightarrow> \<not> ((w @ '' '' @ s) ! i = CHR '' '' \<and> (w @ '' '' @ s) ! Suc i = CHR '' '')"
    using assms unfolding isOptionNameValid_iff by blast+
  have ne: "s \<noteq> []" using v(1) by auto
  then have "hd s \<noteq> CHR '' ''" using n [of "length w"] by (auto simp: nth_append hd_conv_nth)
  moreover have "\<not> (s ! i = CHR '' '' \<and> s ! Suc i = CHR '' '')" if "Suc i < length s" for i
    using n [of "length w + Suc i"] that by (simp add: nth_append)
  ultimately show ?thesis using v ne by (auto simp: isOptionNameValid_iff)
qed

lemma join_split_valid: "isOptionNameValid s \<Longrightarrow> join_words (split_loop s) = s"
proof (induction "length s" arbitrary: s rule: less_induct)
  case less
  let ?w = "takeWhile (\<lambda>c. \<not> isSpace c) s" let ?r = "dropWhile (\<lambda>c. \<not> isSpace c) s"
  have v: "s \<noteq> []" "hd s \<noteq> CHR '' ''" "list_all printable s" using less.prems by (auto simp: isOptionNameValid_iff)
  then obtain c t where s: "s = c # t" "\<not> isSpace c" by (cases s) (auto simp: printable_facts)
  have sp: "split_loop s = ?w # split_loop ?r" using split_loop_Cons [OF s(2), of t] s by simp
  have e: "s = ?w @ ?r" by simp
  show ?case
  proof (cases ?r)
    case Nil
    then have "split_loop s = [s]" using e sp by (simp only: Nil split_loop_Nil list.pred_inject append_Nil2)
    then show ?thesis by simp
  next
    case (Cons d u)
    have "isSpace d" using hd_dropWhile [of "\<lambda>c. \<not> isSpace c" s] Cons by simp
    moreover have "printable d" using v(3) e Cons by (metis list.pred_inject(2) list_all_append)
    ultimately have d: "d = CHR '' ''" by (simp add: printable_facts)
    have su: "s = ?w @ '' '' @ u" using e Cons d by simp
    then have vu: "isOptionNameValid u" using less.prems valid_tail by metis
    have "length u < length s" using arg_cong [OF su, of length] by simp
    then have ih: "join_words (split_loop u) = u" using less.hyps vu by blast
    have "split_loop ?r = split_loop u"
      using split_loop_space [of ?r] split_loop_space [of u] Cons d by (simp add: isSpace_def)
    moreover have "split_loop u \<noteq> []" using ih vu by (auto simp: isOptionNameValid_iff)
    ultimately show ?thesis using sp ih su by (simp add: join_words_Cons)
  qed
qed

lemma c_str_valid: "isOptionNameValid s \<Longrightarrow> c_str s = s"
  by (auto simp: c_str_def isOptionNameValid_iff list_all_iff takeWhile_eq_all_conv printable_facts)

lemma escape_eq: "isOptionNameValid s \<Longrightarrow> uciNameEscape s = join_words (map escape_token (split_loop s))"
  by (simp add: uciNameEscape_def transformTokens_eq escape_nonempty c_str_valid)

lemma words_of: "list_all word_ok (split_loop s)"
  using split_loop_tokens by blast

lemma escaped_words: "list_all word_ok (map escape_token (split_loop s))"
  using words_of [of s] by (auto simp: list_all_iff word_ok_escape)

text \<open>The escaped name has no character but those of the name and underscores.\<close>

lemma set_join_words: "set (join_words ws) \<subseteq> {CHR '' ''} \<union> \<Union> (set ` set ws)"
  by (induction ws rule: join_words.induct) auto

lemma split_loop_set: "set (concat (split_loop s)) \<subseteq> set s"
  using split_loop_tokens [of s] by auto

lemma escaped_printable:
  assumes "isOptionNameValid s"
  shows "list_all printable (uciNameEscape s)"
proof -
  have "set (escape_token w) \<subseteq> insert (CHR ''_'') (set w)" for w by (auto simp: escape_token_def)
  then have "\<Union> (set ` set (map escape_token (split_loop s))) \<subseteq> insert (CHR ''_'') (set (concat (split_loop s)))" by auto
  then have "set (uciNameEscape s) \<subseteq> {CHR '' '', CHR ''_''} \<union> set s"
    unfolding escape_eq [OF assms] using set_join_words [of "map escape_token (split_loop s)"] split_loop_set [of s] by blast
  then show ?thesis using assms by (auto simp: isOptionNameValid_iff list_all_iff printable_def)
qed

lemma unescape_of_escape:
  assumes "isOptionNameValid s"
  shows "uciNameUnescape (uciNameEscape s) = s"
proof -
  have c: "c_str (uciNameEscape s) = uciNameEscape s"
    using escaped_printable [OF assms] by (auto simp: c_str_def takeWhile_eq_all_conv list_all_iff printable_facts)
  have "uciNameUnescape (uciNameEscape s) = join_words (map unescape_token (split_loop (uciNameEscape s)))"
    by (simp add: uciNameUnescape_def transformTokens_eq unescape_nonempty c)
  also have "\<dots> = join_words (split_loop s)"
    by (simp add: escape_eq [OF assms] split_join [OF escaped_words] unescape_escape o_def)
  finally show ?thesis using join_split_valid [OF assms] by simp
qed

end
