(* ===== verification/Client.thy ===== *)
theory Client
  imports Uci_Escape Limits
begin

text \<open>
  The interface of an engine (\<^verbatim>\<open>src/src/bot_api/client.h\<close>) and the connection that polls the user
  interface (\<^verbatim>\<open>connection.cpp\<close>). An implementation of the abstract class \<^verbatim>\<open>Client\<close> is a record of
  operations on its state; \<open>None\<close> is a failed assertion or a call that does not return.
\<close>

section \<open>Engines\<close>

text \<open>The virtual functions of \<^verbatim>\<open>Options\<close>.\<close>

record 'c options_api =
  op_type :: "'c \<Rightarrow> string \<Rightarrow> OptionType"
  op_list :: "'c \<Rightarrow> (string \<times> OptionType) list"
  op_getBool :: "'c \<Rightarrow> string \<Rightarrow> bool option"
  op_getInt :: "'c \<Rightarrow> string \<Rightarrow> int_option option"
  op_getEnum :: "'c \<Rightarrow> string \<Rightarrow> enum_option option"
  op_getString :: "'c \<Rightarrow> string \<Rightarrow> string option"
  op_setBool :: "string \<Rightarrow> bool \<Rightarrow> 'c api"
  op_setInt :: "string \<Rightarrow> int \<Rightarrow> 'c api"
  op_setEnum :: "string \<Rightarrow> nat \<Rightarrow> 'c api"
  op_setEnum_item :: "string \<Rightarrow> string \<Rightarrow> 'c api"
  op_setString :: "string \<Rightarrow> string \<Rightarrow> 'c api"
  op_triggerAction :: "string \<Rightarrow> 'c api"

text \<open>\<^verbatim>\<open>OptionStorage\<close> implements them; \<^verbatim>\<open>SyncOptionStorage\<close> does the same with a lock held.\<close>

definition option_storage :: "'s option_observer option \<Rightarrow> (opt_values \<times> 's) options_api" where
  "option_storage obs = \<lparr>op_type = \<lambda>st. opts_type (fst st), op_list = \<lambda>st. opts_list (fst st),
     op_getBool = \<lambda>st. getBool (fst st), op_getInt = \<lambda>st. getInt (fst st),
     op_getEnum = \<lambda>st. getEnum (fst st), op_getString = \<lambda>st. getString (fst st),
     op_setBool = setBool obs, op_setInt = setInt obs, op_setEnum = setEnum obs,
     op_setEnum_item = setEnum_item obs, op_setString = setString obs, op_triggerAction = triggerAction obs\<rparr>"

record 'c client =
  cl_name :: "'c \<Rightarrow> string"
  cl_author :: "'c \<Rightarrow> string"
  cl_options :: "'c options_api"
  cl_enterDebugMode :: "'c \<Rightarrow> 'c option"
  cl_leaveDebugMode :: "'c \<Rightarrow> 'c option"
  cl_newGame :: "'c api"
  cl_setPosition :: "board \<Rightarrow> move list \<Rightarrow> 'c api"
  cl_searchInfinite :: "'c api"
  cl_searchFixedDepth :: "nat \<Rightarrow> 'c api"
  cl_searchFixedNodes :: "u64 \<Rightarrow> 'c api"
  cl_searchFixedTime :: "milliseconds \<Rightarrow> 'c api"
  cl_searchTimeControl :: "time_control \<Rightarrow> 'c api"
  cl_stopSearch :: "'c api"
  cl_reportError :: "string \<Rightarrow> 'c api"
  cl_connect :: "'c api"
  cl_disconnect :: "'c \<Rightarrow> 'c option"

section \<open>The poll loop\<close>

text \<open>\<open>others k\<close> is what the other threads do to the state before the poll with the number \<open>k\<close>.\<close>

partial_function (option) runPollLoop ::
    "('u \<Rightarrow> (PollResult \<times> 'u) option) \<Rightarrow> (nat \<Rightarrow> 'u \<Rightarrow> 'u) \<Rightarrow> nat \<Rightarrow> 'u \<Rightarrow> (PollResult \<times> 'u) option" where
  "runPollLoop poll others k u =
     Option.bind (poll (others k u)) (\<lambda>(result, u').
       if result = Shutdown then Some (Poll_Ok, u')
       else if result \<noteq> Poll_Ok \<and> result \<noteq> NoData then Some (result, u')
       else runPollLoop poll others (Suc k) u')"

text \<open>
  The two sides of a connection: \<open>Inr\<close> of the two states, or \<open>Inl\<close> of the failed result after both
  calls to \<^verbatim>\<open>disconnect\<close>.
\<close>

definition clientSide ::
    "'c client \<Rightarrow> ('u \<Rightarrow> (ApiResult \<times> 'u) option) \<Rightarrow> ('u \<Rightarrow> 'u option) \<Rightarrow> 'c \<Rightarrow> 'u \<Rightarrow> ((ApiResult + unit) \<times> 'c \<times> 'u) option" where
  "clientSide cl server_connect server_disconnect c u =
     Option.bind (cl_connect cl c) (\<lambda>(result, c1).
       if result \<noteq> Api_Ok then map_option (\<lambda>c2. (Inl result, c2, u)) (cl_disconnect cl c1)
       else Option.bind (server_connect u) (\<lambda>(result, u1).
         if result \<noteq> Api_Ok
         then Option.bind (cl_disconnect cl c1) (\<lambda>c2. map_option (\<lambda>u2. (Inl result, c2, u2)) (server_disconnect u1))
         else Some (Inr (), c1, u1)))"

definition serverSide ::
    "('c \<Rightarrow> (ApiResult \<times> 'c) option) \<Rightarrow> ('c \<Rightarrow> 'c option) \<Rightarrow> ('s \<Rightarrow> (ApiResult \<times> 's) option) \<Rightarrow> ('s \<Rightarrow> 's option) \<Rightarrow>
      'c \<Rightarrow> 's \<Rightarrow> ((ApiResult + unit) \<times> 'c \<times> 's) option" where
  "serverSide client_connect client_disconnect server_connect server_disconnect c s =
     Option.bind (server_connect s) (\<lambda>(result, s1).
       if result \<noteq> Api_Ok then map_option (\<lambda>s2. (Inl result, c, s2)) (server_disconnect s1)
       else Option.bind (client_connect c) (\<lambda>(result, c1).
         if result \<noteq> Api_Ok
         then Option.bind (server_disconnect s1) (\<lambda>s2. map_option (\<lambda>c2. (Inl result, c2, s2)) (client_disconnect c1))
         else Some (Inr (), c1, s1)))"

text \<open>The destructor of a connection that has both sides.\<close>

definition close_connection :: "('c \<Rightarrow> 'c option) \<Rightarrow> ('s \<Rightarrow> 's option) \<Rightarrow> 'c \<times> 's \<Rightarrow> ('c \<times> 's) option" where
  "close_connection client_disconnect server_disconnect st =
     (case st of (c, s) \<Rightarrow> Option.bind (client_disconnect c) (\<lambda>c1. map_option (Pair c1) (server_disconnect s)))"

end
