(* ===== verification/Uci.thy ===== *)
theory Uci
  imports Client Jobs Movegen Board_Text "HOL-Library.Product_Lexorder"
begin

text \<open>
  The user interface over the UCI protocol (\<^verbatim>\<open>UciServerConnector\<close> of \<^verbatim>\<open>src/src/bot_api/clients/uci.cpp\<close>). The
  mutex makes each function of it atomic. A stream of tokens is the text that is left to read; the log is
  not modelled. \<^verbatim>\<open>calcNodesPerSecond\<close> computes with floating-point numbers and is the argument \<open>nps\<close>;
  times of the clock are nanoseconds.
\<close>

section \<open>Streams\<close>

text \<open>An output stream holds the pieces written to it; after \<open>os_room\<close> more pieces the device fails for good.\<close>

record ostream =
  os_pieces :: "string list"
  os_room :: "nat option"

definition stream_put :: "string \<Rightarrow> ostream \<Rightarrow> bool \<times> ostream" where
  "stream_put s os = (case os_room os of
     None \<Rightarrow> (True, os\<lparr>os_pieces := os_pieces os @ [s]\<rparr>)
   | Some 0 \<Rightarrow> (False, os)
   | Some (Suc n) \<Rightarrow> (True, os\<lparr>os_pieces := os_pieces os @ [s], os_room := Some n\<rparr>))"

text \<open>\<^verbatim>\<open>isspace\<close> of the standard library, and \<^verbatim>\<open>stream >> token\<close>.\<close>

definition stream_space :: "char \<Rightarrow> bool" where
  "stream_space c \<longleftrightarrow> c = CHR '' '' \<or> (9 \<le> charVal c \<and> charVal c \<le> 13)"

definition read_token :: "string \<Rightarrow> (string \<times> string) option" where
  "read_token s =
     (let str = dropWhile stream_space s
      in if str = [] then None
         else Some (takeWhile (\<lambda>c. \<not> stream_space c) str, dropWhile (\<lambda>c. \<not> stream_space c) str))"

definition endl :: string where "endl = [CHR 0x0A]"

lemma read_token_shorter:
  assumes "read_token s = Some (tok, rest)"
  shows "length rest < length s"
proof -
  let ?str = "dropWhile stream_space s"
  have h: "?str \<noteq> []" "rest = dropWhile (\<lambda>c. \<not> stream_space c) ?str"
    using assms by (auto simp: read_token_def Let_def split: if_splits)
  then obtain c str where c: "?str = c # str" by (cases ?str) auto
  then have "\<not> stream_space c" using hd_dropWhile [of stream_space s] h(1) by simp
  then have "length rest \<le> length str" using h(2) c length_dropWhile_le [of "\<lambda>c. \<not> stream_space c" str] by simp
  also have "\<dots> < length s" using c length_dropWhile_le [of stream_space s] by simp
  finally show ?thesis .
qed

section \<open>State\<close>

record 'c uci =
  uc_searchStarted :: bool
  uc_debugEnabled :: bool
  uc_searchStartTime :: int
  uc_connected :: bool
  uc_client :: 'c
  uc_in :: string
  uc_in_error :: bool
  uc_out :: ostream

text \<open>\<open>uc_in_error\<close>: the device fails, instead of ending, after the text \<open>uc_in\<close>.\<close>

definition UciServerConnector :: "string \<Rightarrow> bool \<Rightarrow> ostream \<Rightarrow> 'c \<Rightarrow> 'c uci" where
  "UciServerConnector inp in_error out c = \<lparr>uc_searchStarted = False, uc_debugEnabled = False, uc_searchStartTime = 0,
     uc_connected = False, uc_client = c, uc_in = inp, uc_in_error = in_error, uc_out = out\<rparr>"

definition uci_connect :: "'c uci \<Rightarrow> (ApiResult \<times> 'c uci) option" where
  "uci_connect u = (if uc_connected u then None else Some (Api_Ok, u\<lparr>uc_connected := True\<rparr>))"

definition uci_disconnect :: "'c uci \<Rightarrow> 'c uci option" where
  "uci_disconnect u = (if \<not> uc_connected u then None else Some (u\<lparr>uc_connected := False\<rparr>))"

definition print :: "string \<Rightarrow> 'c uci \<Rightarrow> bool \<times> 'c uci" where
  "print s u = (case stream_put s (uc_out u) of (ok, out) \<Rightarrow> (ok, u\<lparr>uc_out := out\<rparr>))"

text \<open>A sequence of checked writes stops at the first that fails.\<close>

fun print_all :: "string list \<Rightarrow> 'c uci \<Rightarrow> bool \<times> 'c uci" where
  "print_all [] u = (True, u)"
| "print_all (s # ss) u = (case print s u of (ok, u') \<Rightarrow> if \<not> ok then (False, u') else print_all ss u')"

definition check_io :: "bool \<times> 'c uci \<Rightarrow> ApiResult \<times> 'c uci" where
  "check_io r = (if fst r then Api_Ok else Api_IOError, snd r)"

definition check_poll_io :: "bool \<times> 'c uci \<Rightarrow> PollResult \<times> 'c uci" where
  "check_poll_io r = (if fst r then Poll_Ok else Poll_IOError, snd r)"

section \<open>Calls from the engine\<close>

definition ensureClient :: "'c uci \<Rightarrow> 'a \<Rightarrow> 'a option" where
  "ensureClient u r = (if uc_connected u then Some r else None)"

text \<open>A call that is only allowed during a search.\<close>

definition during_search :: "'c uci \<Rightarrow> ApiResult \<times> 'c uci \<Rightarrow> (ApiResult \<times> 'c uci) option" where
  "during_search u r = ensureClient u (if \<not> uc_searchStarted u then (UnexpectedCall, u) else r)"

definition uci_finishSearch :: "move \<Rightarrow> 'c uci \<Rightarrow> (ApiResult \<times> 'c uci) option" where
  "uci_finishSearch bestMove u = during_search u
     (case print (''bestmove '' @ moveToStr bestMove @ endl) u of (ok, u') \<Rightarrow>
        if \<not> ok then (Api_IOError, u') else (Api_Ok, u'\<lparr>uc_searchStarted := False\<rparr>))"

definition sendString :: "string \<Rightarrow> 'c uci \<Rightarrow> (ApiResult \<times> 'c uci) option" where
  "sendString str u = ensureClient u (check_io (print (''info string '' @ sanitizeEol str @ endl) u))"

text \<open>The time of the search in milliseconds.\<close>

definition getSearchTime :: "int \<Rightarrow> 'c uci \<Rightarrow> int" where
  "getSearchTime now u = now - uc_searchStartTime u"

definition nodes_pieces :: "(u64 \<Rightarrow> int \<Rightarrow> u64 option) \<Rightarrow> u64 \<Rightarrow> int \<Rightarrow> string list" where
  "nodes_pieces nps nodes time = (case nps nodes time of None \<Rightarrow> [] | Some n \<Rightarrow> ['' nps '' @ to_chars (unat n)])"

definition result_pieces :: "(u64 \<Rightarrow> int \<Rightarrow> u64 option) \<Rightarrow> search_result \<Rightarrow> u64 \<Rightarrow> int \<Rightarrow> string list" where
  "result_pieces nps result nodes time =
     [''info depth '' @ to_chars (sr_depth result) @ '' time '' @ to_chars (nat (time div 1000000))] @
     (if nodes \<noteq> 0 then ('' nodes '' @ to_chars (unat nodes)) # nodes_pieces nps nodes time else []) @
     (if sr_pv result \<noteq> [] then '' pv'' # map (\<lambda>m. '' '' @ moveToStr m) (sr_pv result) else []) @
     (case cost_type (sr_cost result) of
        Centipawns \<Rightarrow> ['' score cp '' @ int_chars (sr_cost result)]
      | Checkmate \<Rightarrow> ['' score mate '' @ int_chars (cost_get_checkMate (sr_cost result))]) @
     (case sr_bound result of Exact \<Rightarrow> [] | Lowerbound \<Rightarrow> ['' lowerbound''] | Upperbound \<Rightarrow> ['' upperbound'']) @
     [endl]"

definition uci_sendResult :: "(u64 \<Rightarrow> int \<Rightarrow> u64 option) \<Rightarrow> int \<Rightarrow> search_result \<Rightarrow> u64 \<Rightarrow> 'c uci \<Rightarrow> (ApiResult \<times> 'c uci) option" where
  "uci_sendResult nps now result nodes u =
     during_search u (check_io (print_all (result_pieces nps result nodes (getSearchTime now u)) u))"

definition sendNodeCount :: "(u64 \<Rightarrow> int \<Rightarrow> u64 option) \<Rightarrow> int \<Rightarrow> u64 \<Rightarrow> 'c uci \<Rightarrow> (ApiResult \<times> 'c uci) option" where
  "sendNodeCount nps now nodes u =
     (let time = getSearchTime now u
      in during_search u (check_io (print_all
        ([''info time '' @ to_chars (nat (time div 1000000)) @ '' nodes '' @ to_chars (unat nodes)] @
         nodes_pieces nps nodes time @ [endl]) u)))"

definition sendHashHits :: "u64 \<Rightarrow> 'c uci \<Rightarrow> (ApiResult \<times> 'c uci) option" where
  "sendHashHits hits u = during_search u
     (if uc_debugEnabled u then check_io (print (''info string Hash table hits: '' @ to_chars (unat hits) @ endl) u)
      else (Api_Ok, u))"

definition sendHashFull :: "u16 \<Rightarrow> 'c uci \<Rightarrow> (ApiResult \<times> 'c uci) option" where
  "sendHashFull hashFull u = during_search u
     (if uint hashFull > 1000 then (InvalidArgument, u)
      else check_io (print (''info hashfull '' @ to_chars (unat hashFull) @ endl) u))"

definition sendCurrMove :: "move \<Rightarrow> u64 \<Rightarrow> 'c uci \<Rightarrow> (ApiResult \<times> 'c uci) option" where
  "sendCurrMove m number u = during_search u (check_io (print_all
     ([''info currmove '' @ moveToStr m] @
      (if number \<noteq> 0 then ['' currmovenumber '' @ to_chars (unat number)] else []) @ [endl]) u))"

definition reportError :: "string \<Rightarrow> 'c uci \<Rightarrow> (ApiResult \<times> 'c uci) option" where
  "reportError message u = ensureClient u (check_io (print (''info string UCI client error: '' @ sanitizeEol message @ endl) u))"

section \<open>Reading numbers\<close>

text \<open>\<^verbatim>\<open>std::from_chars\<close> for a signed type takes a minus sign before the digits.\<close>

definition valueFromStr_int64 :: "string \<Rightarrow> int option" where
  "valueFromStr_int64 str = (case str of
     [] \<Rightarrow> None
   | c # ds \<Rightarrow> (if c = CHR ''-'' then map_option (\<lambda>v. - int v) (valueFromStr (2 ^ 63 + 1) ds)
                else map_option int (valueFromStr (2 ^ 63) str)))"

definition tryReadInt :: "nat \<Rightarrow> string \<Rightarrow> nat option \<times> string" where
  "tryReadInt bound stream = (case read_token stream of
     None \<Rightarrow> (None, [])
   | Some (tok, rest) \<Rightarrow> (valueFromStr bound tok, rest))"

definition MAX_ALLOWED_TIME_MSEC :: nat where "MAX_ALLOWED_TIME_MSEC = 2000000000000"

definition tryReadMsec :: "string \<Rightarrow> milliseconds option \<times> string" where
  "tryReadMsec stream = (case tryReadInt (2 ^ 64) stream of
     (None, rest) \<Rightarrow> (None, rest)
   | (Some val, rest) \<Rightarrow> (if val > MAX_ALLOWED_TIME_MSEC then None else Some (int val), rest))"

text \<open>Tokens up to the end or to the word that stops it, joined by single spaces.\<close>

function collect_tokens :: "string option \<Rightarrow> string \<Rightarrow> string \<Rightarrow> string \<times> string" where
  "collect_tokens stop acc s =
     (case read_token s of
        None \<Rightarrow> (acc, [])
      | Some (tok, rest) \<Rightarrow>
          if stop = Some tok then (acc, rest)
          else collect_tokens stop ((if acc \<noteq> [] then acc @ '' '' else acc) @ tok) rest)"
  by auto
termination by (relation "measure (\<lambda>(_, _, s). length s)") (auto dest: read_token_shorter)

declare collect_tokens.simps [simp del]

section \<open>The command \<open>go\<close>\<close>

datatype search_request = Infinite | FixedDepth nat | FixedNodes u64 | FixedTime milliseconds | TimeControl time_control

definition subcommands :: "string list" where
  "subcommands = [''searchmoves'', ''ponder'', ''wtime'', ''btime'', ''winc'', ''binc'', ''movestogo'', ''depth'',
     ''nodes'', ''mate'', ''movetime'', ''infinite'']"

text \<open>The token read last, empty at the end of the line.\<close>

function skip_searchmoves :: "string \<Rightarrow> string \<times> string" where
  "skip_searchmoves s =
     (case read_token s of
        None \<Rightarrow> ([], [])
      | Some (tok, rest) \<Rightarrow> if tok \<in> set subcommands then (tok, rest) else skip_searchmoves rest)"
  by auto
termination by (relation "measure length") (auto dest: read_token_shorter)

declare skip_searchmoves.simps [simp del]

text \<open>What one turn of the loop does with a token: go on, start a search, or leave the loop.\<close>

datatype go_turn = Again bool time_control string | Start search_request | LeaveLoop

definition go_time :: "(milliseconds \<Rightarrow> time_control \<Rightarrow> time_control) \<Rightarrow> bool \<Rightarrow> time_control \<Rightarrow> string \<Rightarrow> go_turn" where
  "go_time set_time has tc s = (case tryReadMsec s of
     (None, rest) \<Rightarrow> Again has tc rest
   | (Some v, rest) \<Rightarrow> Again True (set_time v tc) rest)"

definition go_turn :: "bool \<Rightarrow> time_control \<Rightarrow> string \<Rightarrow> string \<Rightarrow> go_turn" where
  "go_turn has tc tok s =
     (if tok = ''searchmoves'' then Again has tc s
      else if tok = ''ponder'' then Again has tc s
      else if tok = ''wtime'' then go_time (\<lambda>v tc. tc\<lparr>tc_white := (tc_white tc)\<lparr>tcs_time := v\<rparr>\<rparr>) has tc s
      else if tok = ''btime'' then go_time (\<lambda>v tc. tc\<lparr>tc_black := (tc_black tc)\<lparr>tcs_time := v\<rparr>\<rparr>) has tc s
      else if tok = ''winc'' then go_time (\<lambda>v tc. tc\<lparr>tc_white := (tc_white tc)\<lparr>tcs_inc := v\<rparr>\<rparr>) has tc s
      else if tok = ''binc'' then go_time (\<lambda>v tc. tc\<lparr>tc_black := (tc_black tc)\<lparr>tcs_inc := v\<rparr>\<rparr>) has tc s
      else if tok = ''movestogo'' then
        (case tryReadInt (2 ^ 32) s of
           (None, rest) \<Rightarrow> Again has tc rest
         | (Some v, rest) \<Rightarrow> Again True (tc\<lparr>tc_movesToGo := (if v = 0 then MOVES_INFINITE else of_nat v)\<rparr>) rest)
      else if tok = ''depth'' then
        (case tryReadInt (2 ^ 64) s of (None, rest) \<Rightarrow> Again has tc rest | (Some v, rest) \<Rightarrow> Start (FixedDepth v))
      else if tok = ''nodes'' then
        (case tryReadInt (2 ^ 64) s of (None, rest) \<Rightarrow> Again has tc rest | (Some v, rest) \<Rightarrow> Start (FixedNodes (of_nat v)))
      else if tok = ''mate'' then Again has tc (case read_token s of None \<Rightarrow> [] | Some (_, rest) \<Rightarrow> rest)
      else if tok = ''movetime'' then
        (case tryReadMsec s of (None, rest) \<Rightarrow> Again has tc rest | (Some v, rest) \<Rightarrow> Start (FixedTime v))
      else if tok = ''infinite'' then Start Infinite
      else if tok = [] then LeaveLoop
      else Again has tc s)"

definition go_end :: "bool \<Rightarrow> time_control \<Rightarrow> search_request" where
  "go_end has tc = (if \<not> has then Infinite else TimeControl tc)"

lemma tryReadInt_shorter: "tryReadInt b s = (r, rest) \<Longrightarrow> length rest \<le> length s"
  by (auto simp: tryReadInt_def split: option.splits dest!: read_token_shorter)

lemma tryReadMsec_shorter: "tryReadMsec s = (r, rest) \<Longrightarrow> length rest \<le> length s"
  by (auto simp: tryReadMsec_def split: prod.splits option.splits dest!: tryReadInt_shorter)

lemma go_turn_shorter: "go_turn has tc tok s = Again has' tc' rest \<Longrightarrow> length rest \<le> length s"
  by (auto simp: go_turn_def go_time_def split: if_splits prod.splits option.splits
      dest!: tryReadInt_shorter tryReadMsec_shorter read_token_shorter)

lemma skip_searchmoves_shorter: "length (snd (skip_searchmoves s)) \<le> length s"
proof (induction s rule: skip_searchmoves.induct)
  case (1 s)
  then show ?case
    by (subst skip_searchmoves.simps) (fastforce split: option.splits dest: read_token_shorter)
qed

definition go_token :: "string \<Rightarrow> string \<Rightarrow> string \<times> string" where
  "go_token tok rest = (if tok = ''searchmoves'' then skip_searchmoves rest else (tok, rest))"

lemma go_step_shorter:
  assumes "read_token s = Some (tok0, rest0)" "(tok, rest) = go_token tok0 rest0" "go_turn has tc tok rest = Again has' tc' s'"
  shows "length s' < length s"
proof -
  have "length rest \<le> length rest0"
    using assms(2) skip_searchmoves_shorter [of rest0] by (metis eq_snd_iff go_token_def order_refl)
  then show ?thesis using go_turn_shorter [OF assms(3)] read_token_shorter [OF assms(1)] by simp
qed

function go_loop :: "bool \<Rightarrow> time_control \<Rightarrow> string \<Rightarrow> search_request" where
  "go_loop has tc s =
     (case read_token s of
        None \<Rightarrow> go_end has tc
      | Some (tok0, rest0) \<Rightarrow>
          case go_token tok0 rest0 of (tok, rest) \<Rightarrow>
            case go_turn has tc tok rest of
              Start request \<Rightarrow> request
            | LeaveLoop \<Rightarrow> go_end has tc
            | Again has' tc' s' \<Rightarrow> go_loop has' tc' s')"
  by auto

termination by (relation "measure (\<lambda>(_, _, s). length s)") (auto dest: go_step_shorter)

declare go_loop.simps [simp del]

definition start_request :: "'c client \<Rightarrow> search_request \<Rightarrow> 'c api" where
  "start_request cl request = (case request of
     Infinite \<Rightarrow> cl_searchInfinite cl
   | FixedDepth depth \<Rightarrow> cl_searchFixedDepth cl depth
   | FixedNodes nodes \<Rightarrow> cl_searchFixedNodes cl nodes
   | FixedTime time \<Rightarrow> cl_searchFixedTime cl time
   | TimeControl tc \<Rightarrow> cl_searchTimeControl cl tc)"

definition doStartSearch :: "int \<Rightarrow> ApiResult \<Rightarrow> 'c uci \<Rightarrow> PollResult \<times> 'c uci" where
  "doStartSearch now searchStartResult u =
     (if searchStartResult \<noteq> Api_Ok
      then check_poll_io (print_all [''info string Cannot start search: '' @ apiResultToStr searchStartResult @ endl,
        ''bestmove 0000'' @ endl] u)
      else (Poll_Ok, u\<lparr>uc_searchStarted := True, uc_searchStartTime := now\<rparr>))"

definition processUciGo :: "'c client \<Rightarrow> int \<Rightarrow> string \<Rightarrow> 'c uci \<Rightarrow> (PollResult \<times> 'c uci) option" where
  "processUciGo cl now tokens u =
     (if uc_searchStarted u then Some (NoData, u)
      else map_option (\<lambda>(res, c). doStartSearch now res (u\<lparr>uc_client := c\<rparr>))
        (start_request cl (go_loop False new_time_control tokens) (uc_client u)))"

section \<open>The other commands\<close>

text \<open>\<^verbatim>\<open>checkClient\<close> reports a failure to the log; the command succeeds all the same.\<close>

definition call_client :: "'c api \<Rightarrow> 'c uci \<Rightarrow> (PollResult \<times> 'c uci) option" where
  "call_client f u = map_option (\<lambda>(res, c). (Poll_Ok, u\<lparr>uc_client := c\<rparr>)) (f (uc_client u))"

function play_tokens :: "zobrist \<Rightarrow> board \<Rightarrow> move list \<Rightarrow> string \<Rightarrow> move list option" where
  "play_tokens z dstBoard moves s =
     (case read_token s of
        None \<Rightarrow> Some moves
      | Some (tok, rest) \<Rightarrow>
          let m = moveParse (c_str tok) dstBoard
          in if \<not> isWellFormed m (side dstBoard) \<or> \<not> isMoveValid dstBoard m \<or> \<not> isMoveLegal dstBoard m then None
             else play_tokens z (fst (moveMake z dstBoard m)) (moves @ [m]) rest)"
  by auto
termination by (relation "measure (\<lambda>(_, _, _, s). length s)") (auto dest: read_token_shorter)

declare play_tokens.simps [simp del]

text \<open>The board described by \<open>startpos\<close> or \<open>fen\<close>; \<open>Some None\<close> when it is refused.\<close>

definition position_board :: "zobrist \<Rightarrow> board \<Rightarrow> string \<Rightarrow> string \<Rightarrow> board option option" where
  "position_board z b0 positionType fenString =
     (if positionType = ''startpos'' then Some (Some (setInitialPosition z b0))
      else map_option (\<lambda>(parseRes, b).
        if parseRes \<noteq> Fen_Ok then None
        else (case validate z b of (validateRes, b') \<Rightarrow> if validateRes \<noteq> Validate_Ok then None else Some b'))
        (setFromFen z b0 (c_str fenString)))"

definition processUciPosition :: "zobrist \<Rightarrow> board \<Rightarrow> 'c client \<Rightarrow> string \<Rightarrow> 'c uci \<Rightarrow> (PollResult \<times> 'c uci) option" where
  "processUciPosition z b0 cl tokens u =
     (case read_token tokens of
        None \<Rightarrow> Some (NoData, u)
      | Some (positionType, rest) \<Rightarrow>
          if positionType \<noteq> ''startpos'' \<and> positionType \<noteq> ''fen'' then Some (NoData, u)
          else (case collect_tokens (Some ''moves'') [] rest of (fenString, rest') \<Rightarrow>
            Option.bind (position_board z b0 positionType fenString) (\<lambda>parsed. case parsed of
                None \<Rightarrow> Some (NoData, u)
              | Some b \<Rightarrow> (case play_tokens z b [] rest' of
                  None \<Rightarrow> Some (NoData, u)
                | Some moves \<Rightarrow> call_client (cl_setPosition cl b moves) u))))"

text \<open>The pieces written for an option; a getter that finds nothing, or an index out of range, is \<open>None\<close>.\<close>

definition option_pieces :: "'c options_api \<Rightarrow> 'c \<Rightarrow> string \<times> OptionType \<Rightarrow> string list option" where
  "option_pieces opts c k =
     (case k of (key, t) \<Rightarrow> map_option (\<lambda>ps. (''option name '' @ uciOptionNameEscape key @ '' type'') # ps) (case t of
        Type_Bool \<Rightarrow> map_option (\<lambda>v. ['' check default '' @ (if v then ''true'' else ''false'') @ endl]) (op_getBool opts c key)
      | Type_Enum \<Rightarrow> Option.bind (op_getEnum opts c key) (\<lambda>opt.
          if \<not> eo_index opt < length (eo_items opt) then None
          else Some (['' combo default '' @ uciEnumNameEscape (eo_items opt ! eo_index opt)] @
            map (\<lambda>item. '' val '' @ uciEnumNameEscape item) (eo_items opt) @ [endl]))
      | Type_Int \<Rightarrow> map_option (\<lambda>opt. ['' spin default '' @ int_chars (io_value opt) @ '' min '' @ int_chars (io_min opt) @
          '' max '' @ int_chars (io_max opt) @ endl]) (op_getInt opts c key)
      | Type_String \<Rightarrow> map_option (\<lambda>v. let val = sanitizeEol v
          in ['' string default '' @ (if scanTokenStart (c_str val) = [] then ''<empty>'' else val) @ endl]) (op_getString opts c key)
      | Type_Action \<Rightarrow> Some ['' button'' @ endl]
      | Type_None \<Rightarrow> None))"

fun list_pieces :: "'c options_api \<Rightarrow> 'c \<Rightarrow> (string \<times> OptionType) list \<Rightarrow> string list option" where
  "list_pieces opts c [] = Some []"
| "list_pieces opts c (k # ks) = Option.bind (option_pieces opts c k) (\<lambda>ps. map_option (\<lambda>qs. ps @ qs) (list_pieces opts c ks))"

definition listOptions :: "'c client \<Rightarrow> 'c uci \<Rightarrow> (PollResult \<times> 'c uci) option" where
  "listOptions cl u = map_option (\<lambda>ps. check_poll_io (print_all ps u))
     (list_pieces (cl_options cl) (uc_client u) (sort (op_list (cl_options cl) (uc_client u))))"

text \<open>The name and the text after the word \<open>value\<close>; absent when the line ends before a name.\<close>

definition read_option_name :: "string \<Rightarrow> (string \<times> string) option" where
  "read_option_name tokens = map_option (\<lambda>(tok, rest).
     case collect_tokens (Some ''value'') (if tok \<noteq> ''name'' then tok else []) rest of
       (name, rest') \<Rightarrow> (uciOptionNameUnescape name, rest')) (read_token tokens)"

definition read_option_value :: "OptionType \<Rightarrow> string \<Rightarrow> string" where
  "read_option_value t tokens =
     (if t = Type_String then trim (takeWhile (\<lambda>c. c \<noteq> CHR 0x0A) tokens)
      else if t = Type_Enum then fst (collect_tokens None [] tokens)
      else if t \<noteq> Type_Action then (case read_token tokens of None \<Rightarrow> [] | Some (tok, _) \<Rightarrow> tok)
      else [])"

definition processUciSetOption :: "'c client \<Rightarrow> string \<Rightarrow> 'c uci \<Rightarrow> (PollResult \<times> 'c uci) option" where
  "processUciSetOption cl tokens u =
     (case read_option_name tokens of
        None \<Rightarrow> Some (NoData, u)
      | Some (name, rest) \<Rightarrow>
          let opts = cl_options cl; t = op_type opts (uc_client u) name; val = read_option_value t rest
          in (case t of
                Type_None \<Rightarrow> Some (NoData, u)
              | Type_Bool \<Rightarrow>
                  if val = ''0'' \<or> val = ''false'' then call_client (op_setBool opts name False) u
                  else if val = ''1'' \<or> val = ''true'' then call_client (op_setBool opts name True) u
                  else Some (NoData, u)
              | Type_Int \<Rightarrow> (case valueFromStr_int64 val of
                    None \<Rightarrow> Some (NoData, u)
                  | Some result \<Rightarrow> call_client (op_setInt opts name result) u)
              | Type_String \<Rightarrow> call_client (op_setString opts name (if val = ''<empty>'' then [] else val)) u
              | Type_Enum \<Rightarrow> call_client (op_setEnum_item opts name (uciEnumNameUnescape val)) u
              | Type_Action \<Rightarrow> call_client (op_triggerAction opts name) u))"

definition uci_debug :: "'c client \<Rightarrow> string \<Rightarrow> 'c uci \<Rightarrow> (PollResult \<times> 'c uci) option" where
  "uci_debug cl tokens u =
     (let val = (case read_token tokens of None \<Rightarrow> [] | Some (tok, _) \<Rightarrow> tok); newDebugEnabled = (val = ''on'')
      in if val \<noteq> ''on'' \<and> val \<noteq> ''off'' then Some (NoData, u)
         else if uc_debugEnabled u = newDebugEnabled then Some (NoData, u)
         else map_option (\<lambda>c. (Poll_Ok, u\<lparr>uc_client := c, uc_debugEnabled := newDebugEnabled\<rparr>))
           (if newDebugEnabled then cl_enterDebugMode cl (uc_client u) else cl_leaveDebugMode cl (uc_client u)))"

definition uci_hello :: "'c client \<Rightarrow> 'c uci \<Rightarrow> (PollResult \<times> 'c uci) option" where
  "uci_hello cl u =
     (case print_all [''id name '' @ sanitizeEol (cl_name cl (uc_client u)) @ endl,
        ''id author '' @ sanitizeEol (cl_author cl (uc_client u)) @ endl] u of (ok, u1) \<Rightarrow>
        if \<not> ok then Some (Poll_IOError, u1)
        else map_option (\<lambda>(res, u2). if res \<noteq> Poll_Ok then (res, u2) else check_poll_io (print (''uciok'' @ endl) u2))
          (listOptions cl u1))"

function processUciCommand :: "zobrist \<Rightarrow> board \<Rightarrow> 'c client \<Rightarrow> int \<Rightarrow> string \<Rightarrow> 'c uci \<Rightarrow> (PollResult \<times> 'c uci) option" where
  "processUciCommand z b0 cl now tokens u =
     (case read_token tokens of
        None \<Rightarrow> Some (NoData, u)
      | Some (command, rest) \<Rightarrow>
          if command = ''uci'' then uci_hello cl u
          else if command = ''debug'' then uci_debug cl rest u
          else if command = ''isready'' then Some (check_poll_io (print (''readyok'' @ endl) u))
          else if command = ''setoption'' then processUciSetOption cl rest u
          else if command = ''register'' then Some (NoData, u)
          else if command = ''ucinewgame'' then call_client (cl_newGame cl) u
          else if command = ''position'' then processUciPosition z b0 cl rest u
          else if command = ''go'' then processUciGo cl now rest u
          else if command = ''stop'' then
            (if \<not> uc_searchStarted u then Some (NoData, u) else call_client (cl_stopSearch cl) u)
          else if command = ''ponderhit'' then Some (NoData, u)
          else if command = ''quit'' then Some (Shutdown, u)
          else processUciCommand z b0 cl now rest u)"
  by auto
termination by (relation "measure (\<lambda>(_, _, _, _, tokens, _). length tokens)") (auto dest: read_token_shorter)

declare processUciCommand.simps [simp del]

section \<open>Polling\<close>

text \<open>A line that is not terminated is not processed: \<^verbatim>\<open>std::getline\<close> meets the end of the input in it.\<close>

definition uci_poll :: "zobrist \<Rightarrow> board \<Rightarrow> 'c client \<Rightarrow> int \<Rightarrow> 'c uci \<Rightarrow> (PollResult \<times> 'c uci) option" where
  "uci_poll z b0 cl now u =
     (if \<not> uc_connected u then None
      else let cmdLine = takeWhile (\<lambda>c. c \<noteq> CHR 0x0A) (uc_in u); rest = dropWhile (\<lambda>c. c \<noteq> CHR 0x0A) (uc_in u);
               u1 = u\<lparr>uc_in := drop 1 rest\<rparr>
        in if rest = [] then Some (if uc_in_error u then Poll_IOError else Shutdown, u1)
           else if cmdLine = [] then Some (NoData, u1)
           else if cmdLine = ''how to draw an owl'' \<or> cmdLine = ''how to draw owl'' then
             Some (check_poll_io (print_all [''1) Draw circles'' @ endl, ''2) Draw the rest of the owl'' @ endl] u1))
           else processUciCommand z b0 cl now cmdLine u1)"

end
