(* ===== verification/Uci_Setoption.thy ===== *)
theory Uci_Setoption
  imports Uci
begin

text \<open>
  Reading commands: tokens of a line, and the names and values of options as the interface announces
  them. A line that sets an option by its announced name reaches that option with the value that was meant.
\<close>

section \<open>Tokens of a stream\<close>

definition plain :: "string \<Rightarrow> bool" where
  "plain w \<longleftrightarrow> w \<noteq> [] \<and> list_all (\<lambda>c. \<not> stream_space c) w"

lemma stream_space_blank [simp]: "stream_space (CHR '' '')"
  by (simp add: stream_space_def)

lemma read_token_Nil [simp]: "read_token [] = None"
  by (simp add: read_token_def)

lemma read_token_blank [simp]: "read_token (CHR '' '' # s) = read_token s"
  by (simp add: read_token_def)

lemma read_token_plain:
  assumes "plain w" "r = [] \<or> stream_space (hd r)"
  shows "read_token (w @ r) = Some (w, r)"
proof -
  have w: "\<forall>c\<in>set w. \<not> stream_space c" "w \<noteq> []" using assms(1) by (auto simp: plain_def list_all_iff)
  then have "dropWhile stream_space (w @ r) = w @ r" by (cases w) auto
  moreover have "takeWhile (\<lambda>c. \<not> stream_space c) r = []" "dropWhile (\<lambda>c. \<not> stream_space c) r = r" using assms(2) by (cases r; simp)+
  ultimately show ?thesis using w by (simp add: read_token_def takeWhile_append2 dropWhile_append2)
qed

lemma read_token_last: "plain w \<Longrightarrow> read_token w = Some (w, [])"
  using read_token_plain [of w "[]"] by simp

text \<open>Words with a space before each.\<close>

definition spaced :: "string list \<Rightarrow> string" where
  "spaced ws = concat (map (\<lambda>w. CHR '' '' # w) ws)"

lemma spaced_simps [simp]: "spaced [] = []" "spaced (w # ws) = CHR '' '' # w @ spaced ws"
  by (simp_all add: spaced_def)

lemma spaced_join: "ws \<noteq> [] \<Longrightarrow> CHR '' '' # join_words ws = spaced ws"
  by (induction ws rule: join_words.induct) auto

lemma spaced_hd: "spaced ws = [] \<or> stream_space (hd (spaced ws))"
  by (cases ws) simp_all

lemma join_to_snoc: "w \<noteq> [] \<Longrightarrow> join_to ((if acc \<noteq> [] then acc @ '' '' else acc) @ w) ws = join_to acc (w # ws)"
  by (auto simp: join_to_def join_words_Cons)

lemma collect_spaced:
  assumes "list_all plain ws" "\<forall>w\<in>set ws. stop \<noteq> Some w"
  shows "collect_tokens stop acc (spaced ws) = (join_to acc ws, [])"
  using assms
proof (induction ws arbitrary: acc)
  case Nil
  then show ?case by (subst collect_tokens.simps) (simp add: join_to_def)
next
  case (Cons w ws)
  have "read_token (spaced (w # ws)) = Some (w, spaced ws)"
    using Cons.prems read_token_plain [of w "spaced ws"] spaced_hd [of ws] by simp
  moreover have "w \<noteq> []" using Cons.prems by (simp add: plain_def)
  ultimately show ?case using Cons by (subst collect_tokens.simps) (simp add: join_to_snoc del: spaced_simps)
qed

lemma collect_spaced_stop:
  assumes "list_all plain ws" "w0 \<notin> set ws" "plain w0" "r = [] \<or> stream_space (hd r)"
  shows "collect_tokens (Some w0) acc (spaced ws @ CHR '' '' # w0 @ r) = (join_to acc ws, r)"
  using assms(1,2)
proof (induction ws arbitrary: acc)
  case Nil
  then show ?case by (subst collect_tokens.simps) (simp add: join_to_def read_token_plain [OF assms(3,4)])
next
  case (Cons w ws)
  have "stream_space (hd (spaced ws @ CHR '' '' # w0 @ r))" by (cases ws) simp_all
  then have "read_token (spaced (w # ws) @ CHR '' '' # w0 @ r) = Some (w, spaced ws @ CHR '' '' # w0 @ r)"
    using Cons.prems read_token_plain [of w "spaced ws @ CHR '' '' # w0 @ r"] by simp
  moreover have "w \<noteq> []" using Cons.prems by (simp add: plain_def)
  ultimately show ?case using Cons by (subst collect_tokens.simps) (simp add: join_to_snoc del: spaced_simps)
qed

section \<open>Names\<close>

lemma plain_printable: "word_ok w \<Longrightarrow> list_all printable w \<Longrightarrow> plain w"
proof -
  have "\<not> stream_space c" if "printable c" "\<not> isSpace c" for c
    using that by (auto simp: printable_def isSpace_def stream_space_def charVal_def Let_def split: if_splits)
  then show "word_ok w \<Longrightarrow> list_all printable w \<Longrightarrow> plain w" by (auto simp: word_ok_def plain_def list_all_iff)
qed

lemma split_words_valid:
  assumes "isOptionNameValid s" "w \<in> set (split_loop s)"
  shows "plain w" "plain (escape_token w)"
proof -
  have p: "list_all printable w" using assms split_loop_set [of s] by (auto simp: isOptionNameValid_iff list_all_iff)
  have o: "word_ok w" using words_of [of s] assms(2) by (simp add: list_all_iff)
  show "plain w" using o p by (rule plain_printable)
  have "list_all printable (escape_token w)" using p by (auto simp: escape_token_def printable_def)
  then show "plain (escape_token w)" using word_ok_escape [OF o] by (intro plain_printable)
qed

lemma split_nonempty: "isOptionNameValid s \<Longrightarrow> split_loop s \<noteq> []"
  using join_split_valid [of s] by (auto simp: isOptionNameValid_iff)

text \<open>An escaped name after a space, as the words it consists of.\<close>

definition name_words :: "string \<Rightarrow> string list" where
  "name_words name = map escape_token (split_loop name)"

lemma name_words:
  assumes "isOptionNameValid name"
  shows "list_all plain (name_words name)" "''value'' \<notin> set (name_words name)" "''name'' \<notin> set (name_words name)"
    "CHR '' '' # uciNameEscape name = spaced (name_words name)" "join_words (name_words name) = uciNameEscape name"
  using split_words_valid [OF assms] escape_not_reserved split_nonempty [OF assms]
  by (auto simp: name_words_def list_all_iff escape_eq [OF assms] spaced_join) metis+

lemma read_name:
  assumes "isOptionNameValid name"
  shows "r = [] \<or> stream_space (hd r) \<Longrightarrow> read_option_name ('' name '' @ uciOptionNameEscape name @ '' value'' @ r) = Some (name, r)"
    "read_option_name ('' name '' @ uciOptionNameEscape name) = Some (name, [])"
proof -
  note w = name_words [OF assms]
  have n: "plain ''name''" "plain ''value''" by (simp_all add: plain_def stream_space_def charVal_def Let_def)
  have j: "join_to [] (name_words name) = uciNameEscape name" by (simp add: join_to_def w)
  have u: "uciOptionNameUnescape (uciNameEscape name) = name" using unescape_of_escape [OF assms] by (simp add: uciOptionNameUnescape_def)
  have eq: "'' name '' @ uciOptionNameEscape name @ '' value'' @ r = CHR '' '' # ''name'' @ (spaced (name_words name) @ CHR '' '' # ''value'' @ r)"
    unfolding w(4) [symmetric] by (simp add: uciOptionNameEscape_def)
  have t: "read_token (''name'' @ (spaced (name_words name) @ CHR '' '' # ''value'' @ r)) = Some (''name'', spaced (name_words name) @ CHR '' '' # ''value'' @ r)"
    by (rule read_token_plain [OF n(1)]) (cases "name_words name"; simp)
  show "read_option_name ('' name '' @ uciOptionNameEscape name @ '' value'' @ r) = Some (name, r)" if "r = [] \<or> stream_space (hd r)"
    unfolding eq read_option_name_def read_token_blank t using collect_spaced_stop [OF w(1,2) n(2) that, of "[]"] by (simp add: j u)
  have eq2: "'' name '' @ uciOptionNameEscape name = CHR '' '' # ''name'' @ spaced (name_words name)"
    unfolding w(4) [symmetric] by (simp add: uciOptionNameEscape_def)
  have t2: "read_token (''name'' @ spaced (name_words name)) = Some (''name'', spaced (name_words name))"
    by (rule read_token_plain [OF n(1) spaced_hd])
  have "\<forall>x\<in>set (name_words name). Some ''value'' \<noteq> Some x" using w(2) by auto
  then have c: "collect_tokens (Some ''value'') [] (spaced (name_words name)) = (join_to [] (name_words name), [])"
    by (rule collect_spaced [OF w(1)])
  show "read_option_name ('' name '' @ uciOptionNameEscape name) = Some (name, [])"
    unfolding eq2 read_option_name_def read_token_blank t2 by (simp add: c j u)
qed

section \<open>Values\<close>

lemma valueFromStr_int_chars:
  assumes "- (2 ^ 63) \<le> i" "i < 2 ^ 63"
  shows "valueFromStr_int64 (int_chars i) = Some i"
proof (cases "i < 0")
  case True
  then have "valueFromStr (2 ^ 63 + 1) (to_chars (nat (- i))) = Some (nat (- i))"
    using assms by (intro valueFromStr_to_chars) (simp add: nat_less_iff)
  then show ?thesis using True by (simp add: valueFromStr_int64_def int_chars_def)
next
  case False
  have v: "valueFromStr (2 ^ 63) (to_chars (nat i)) = Some (nat i)" using assms by (intro valueFromStr_to_chars) (simp add: nat_less_iff)
  obtain c ds where c: "to_chars (nat i) = c # ds" by (cases "to_chars (nat i)") auto
  then have "c \<noteq> CHR ''-''" using to_chars_digits [of "nat i"] by simp
  then show ?thesis using False v by (simp add: valueFromStr_int64_def int_chars_def c)
qed

lemma plain_int_chars: "plain (int_chars i)"
proof -
  have "\<not> stream_space c" if "isDigit c" for c
    using that by (auto simp: isDigit_def stream_space_def charVal_def Let_def split: if_splits)
  then have "list_all (\<lambda>c. \<not> stream_space c) (to_chars n)" for n
    using to_chars_digits [of n] by (auto simp: list_all_iff)
  then show ?thesis by (simp add: int_chars_def plain_def stream_space_def charVal_def Let_def)
qed

lemma value_word: "plain w \<Longrightarrow> t \<notin> {Type_String, Type_Enum, Type_Action} \<Longrightarrow> read_option_value t (CHR '' '' # w) = w"
  by (simp add: read_option_value_def read_token_last)

lemma value_enum:
  assumes "isOptionNameValid item"
  shows "uciEnumNameUnescape (read_option_value Type_Enum (CHR '' '' # uciEnumNameEscape item)) = item"
  using collect_spaced [OF name_words(1) [OF assms], of None "[]"] unescape_of_escape [OF assms]
  by (simp add: read_option_value_def uciEnumNameUnescape_def uciEnumNameEscape_def name_words [OF assms] join_to_def)

lemma value_string:
  assumes "trim v = v" "CHR 0x0A \<notin> set v"
  shows "read_option_value Type_String (CHR '' '' # v) = v"
proof -
  have w: "takeWhile (\<lambda>c. c \<noteq> CHR 0x0A) v = v" using assms(2) by (auto simp: takeWhile_eq_all_conv)
  have "trim (CHR '' '' # v) = trim v" by (simp add: trim_eq isSpace_def)
  then show ?thesis using assms(1) by (simp add: read_option_value_def w)
qed

lemma setoption_command:
  "processUciCommand z b0 cl now (''setoption'' @ CHR '' '' # r) u = processUciSetOption cl (CHR '' '' # r) u"
proof -
  have "read_token (''setoption'' @ CHR '' '' # r) = Some (''setoption'', CHR '' '' # r)"
    by (rule read_token_plain) (simp_all add: plain_def stream_space_def charVal_def Let_def)
  then show ?thesis by (subst processUciCommand.simps) (simp del: append.simps)
qed

end
