(* ===== verification/Uci_Game.thy ===== *)
theory Uci_Game
  imports Uci_Setoption Search_Properties Text_Properties
begin

text \<open>
  The command \<open>position\<close>: what reaches the engine is a position of a game with a line of legal moves, and
  a position written in the notation with its moves is read back as it was.
\<close>

section \<open>Lines of legal moves\<close>

fun legal_line :: "zobrist \<Rightarrow> board \<Rightarrow> move list \<Rightarrow> bool" where
  "legal_line z b [] \<longleftrightarrow> True"
| "legal_line z b (m # ms) \<longleftrightarrow> isWellFormed m (side b) \<and> isMoveValid b m \<and> isMoveLegal b m \<and> legal_line z (fst (moveMake z b m)) ms"

lemma legal_line_append:
  "legal_line z b (ms @ ns) \<longleftrightarrow> legal_line z b ms \<and> legal_line z (fold (\<lambda>m b. fst (moveMake z b m)) ms b) ns"
  by (induction ms arbitrary: b) auto

lemma legal_move_playable:
  assumes "zobrist_ok z" "playable z b" "isWellFormed m (side b)" "isMoveValid b m" "isMoveLegal b m"
  shows "pseudo_legal b m" "playable z (fst (moveMake z b m))"
proof -
  note p = playableD [OF assms(2)]
  show ps: "pseudo_legal b m" using valid_iff_pseudo_legal [OF p(2), of m] assms(3,4) by blast
  obtain k where k: "one_king b (side b) k" using p(5) by blast
  show "playable z (fst (moveMake z b m))"
    using legal_iff_wasMoveLegal [OF assms(1) p(1) k ps] assms(5) by (intro playable_make [OF assms(1,2) ps]) blast
qed

lemma legal_line_playable:
  "zobrist_ok z \<Longrightarrow> playable z b \<Longrightarrow> legal_line z b ms \<Longrightarrow> playable z (fold (\<lambda>m b. fst (moveMake z b m)) ms b)"
  by (induction ms arbitrary: b) (auto intro: legal_move_playable)

lemma play_tokens_legal:
  "play_tokens z b ms s = Some ms' \<Longrightarrow> \<exists>ns. ms' = ms @ ns \<and> legal_line z b ns"
proof (induction z b ms s rule: play_tokens.induct)
  case (1 z b ms s)
  show ?case
  proof (cases "read_token s")
    case None
    then show ?thesis using "1.prems" by (subst (asm) play_tokens.simps) (auto intro: exI [of _ "[]"])
  next
    case (Some x)
    obtain tok rest where x: "x = (tok, rest)" by fastforce
    let ?m = "moveParse (c_str tok) b"
    have ok: "isWellFormed ?m (side b)" "isMoveValid b ?m" "isMoveLegal b ?m"
      and p: "play_tokens z (fst (moveMake z b ?m)) (ms @ [?m]) rest = Some ms'"
      using "1.prems" by (subst (asm) play_tokens.simps, auto simp: Some x Let_def split: if_splits)+
    have "\<exists>ns. ms' = (ms @ [?m]) @ ns \<and> legal_line z (fst (moveMake z b ?m)) ns"
      using "1.IH" [OF Some x [symmetric] refl] ok p by blast
    then show ?thesis using ok by (auto intro: exI [of _ "?m # ns" for ns])
  qed
qed

section \<open>The board described\<close>

lemma valid_playable:
  assumes "consistent z b" "valid_position b"
  shows "playable z b"
proof -
  have k: "\<forall>C. \<exists>k. one_king b C k" using assms(2) by (simp add: valid_position_def)
  have bb: "bb_ok b" using assms(1) by (simp add: consistent_def)
  have "wasMoveLegal b" unfolding wasMoveLegal_kings [OF bb k] using assms(2) by (auto simp: valid_position_def)
  then show ?thesis using assms(1) k by (simp add: playable_def)
qed

lemma position_board_playable:
  assumes "length (cells b0) = 64" "playable z (setInitialPosition z b0)"
  shows "\<exists>r. position_board z b0 ty fen = Some r \<and> (\<forall>b. r = Some b \<longrightarrow> playable z b)"
proof -
  obtain res b where f: "setFromFen z b0 (c_str fen) = Some (res, b)"
    using setFromFen_total [OF assms(1), of z "c_str fen"] by auto
  have "playable z b'" if ok: "res = Fen_Ok" "validate z b = (Validate_Ok, b')" for b'
  proof -
    have c: "consistent z b" using setFromFen_consistent_eq [OF assms(1), of z "c_str fen"] f ok(1) by auto
    have l: "length (cells b) = 64" using consistent_position [OF c] by (simp add: position_ok_def board_shape_def)
    have v: "valid_position (update z b)" using validate_iff [OF l, of z] ok(2) by simp
    have b': "b' = update z b" using ok(2) by (auto simp: validate_def Let_def split: if_splits)
    have "board_shape b" using c by (simp add: consistent_def)
    then have "consistent z (update z b)" by (rule update_consistent)
    then show ?thesis using v b' by (simp add: valid_playable)
  qed
  then show ?thesis using assms(2) f by (auto simp: position_board_def split: prod.splits)
qed

section \<open>The initial position\<close>

lemma initial_playable: "playable z (setInitialPosition z b0)"
proof -
  let ?b = "setInitialPosition z b0"
  have c: "cells ?b = cells sample_board" "side ?b = side sample_board"
    by (simp_all add: initial_essential sample_views)
  then have at: "cellAt ?b s = cellAt sample_board s" for s by (simp add: cellAt_def)
  have bb: "bb_ok ?b" "bb_ok sample_board" using initial_consistent [of z b0] playableD(3) [OF sample_playable] by (simp_all add: consistent_def)
  have k: "one_king ?b C k \<longleftrightarrow> one_king sample_board C k" for C k by (simp add: one_king_def at)
  have a: "attacker (bbAll ?b) ?b C s k \<longleftrightarrow> attacker (bbAll sample_board) sample_board C s k" for C s k
    using bb_ok_unique [OF bb c(1)] by (simp add: attacker_def at)
  have ks: "\<forall>C. \<exists>k. one_king sample_board C k" using sample_playable by (simp add: playable_def)
  have "wasMoveLegal sample_board" using sample_playable by (simp add: playable_def)
  then have "wasMoveLegal ?b"
    using wasMoveLegal_kings [OF bb(1)] wasMoveLegal_kings [OF bb(2) ks] ks by (simp add: k a c)
  then show ?thesis using initial_consistent ks by (simp add: playable_def k)
qed

lemma position_command:
  assumes "zobrist_ok z" "length (cells b0) = 64"
  shows "processUciPosition z b0 cl tokens u = Some (NoData, u) \<or>
    (\<exists>b ms. processUciPosition z b0 cl tokens u = call_client (cl_setPosition cl b ms) u \<and> playable z b \<and> legal_line z b ms)"
proof (cases "read_token tokens")
  case None
  then show ?thesis by (simp add: processUciPosition_def)
next
  case (Some x)
  obtain ty rest where x: "x = (ty, rest)" by fastforce
  obtain fen rest' where c: "collect_tokens (Some ''moves'') [] rest = (fen, rest')" by fastforce
  obtain r where r: "position_board z b0 ty fen = Some r" "\<forall>b. r = Some b \<longrightarrow> playable z b"
    using position_board_playable [OF assms(2) initial_playable, of z ty fen] by blast
  show ?thesis
  proof (cases r)
    case None
    then show ?thesis by (simp add: processUciPosition_def Some x c r(1))
  next
    case b: (Some b)
    show ?thesis
    proof (cases "play_tokens z b [] rest'")
      case None
      then show ?thesis by (simp add: processUciPosition_def Some x c r(1) b)
    next
      case ms: (Some ms)
      have "legal_line z b ms" using play_tokens_legal [OF ms] by auto
      then show ?thesis using r(2) b ms by (auto simp: processUciPosition_def Some x c r(1) intro!: exI [of _ b] exI [of _ ms])
    qed
  qed
qed

section \<open>Reading back a written position\<close>

text \<open>A word of the notation: it has no space, no zero byte and no letter m.\<close>

definition fen_char :: "char \<Rightarrow> bool" where
  "fen_char c \<longleftrightarrow> \<not> stream_space c \<and> c \<noteq> CHR 0x00 \<and> c \<noteq> CHR ''m''"

lemma fen_char_cell: "fen_char (cellToChar v)"
proof -
  have "list_all (\<lambda>v. fen_char (cellToChar v)) [0..15]" by code_simp
  then have "0 \<le> v \<Longrightarrow> v \<le> 15 \<Longrightarrow> ?thesis" by (rule list_all_uptoD)
  moreover have "fen_char (CHR ''?'')" by code_simp
  ultimately show ?thesis by (cases "0 \<le> v \<and> v \<le> 15") (auto simp: cellToChar_def)
qed

lemma fen_char_digit: "0 \<le> e \<Longrightarrow> e \<le> 8 \<Longrightarrow> fen_char (fen_digit e)"
proof -
  have "list_all (\<lambda>e. fen_char (fen_digit e)) [0..8]" by code_simp
  then show "0 \<le> e \<Longrightarrow> e \<le> 8 \<Longrightarrow> fen_char (fen_digit e)" by (rule list_all_uptoD)
qed

lemma fen_char_row: "0 \<le> e \<Longrightarrow> e \<le> j \<Longrightarrow> j \<le> 8 \<Longrightarrow> list_all fen_char (row_chars b i j e)"
proof (induction "nat (8 - j)" arbitrary: j e)
  case 0
  then show ?case by (subst row_chars.simps) (auto simp: fen_char_digit)
next
  case (Suc n)
  have "list_all fen_char (row_chars b i (j + 1) (e + 1))" "list_all fen_char (row_chars b i (j + 1) 0)"
    using Suc(1) [of "j + 1" "e + 1"] Suc(1) [of "j + 1" 0] Suc(2-) by auto
  then show ?case using Suc(2-) by (subst row_chars.simps) (auto simp: fen_char_digit fen_char_cell)
qed

lemma fen_char_rows: "list_all fen_char (foldl (fen_row b) [] [0..7])"
proof -
  have "fen_char (CHR ''/'')" by code_simp
  then show ?thesis unfolding fen_rows using fen_char_row [of 0 0 b] by (auto simp: list_all_iff)
qed

lemma fen_char_to_chars: "list_all fen_char (to_chars n)"
proof -
  have "fen_char c" if "isDigit c" for c
    using that by (auto simp: isDigit_def fen_char_def stream_space_def charVal_def Let_def split: if_splits)
  then show ?thesis using to_chars_digits [of n] by (auto simp: list_all_iff)
qed

lemma fen_char_sub: "0 \<le> y \<Longrightarrow> y \<le> 7 \<Longrightarrow> fen_char (ySubToChar y) \<and> fen_char (xSubToChar y)"
proof -
  have "list_all (\<lambda>y. fen_char (ySubToChar y) \<and> fen_char (xSubToChar y)) [0..7]" by code_simp
  then show "0 \<le> y \<Longrightarrow> y \<le> 7 \<Longrightarrow> fen_char (ySubToChar y) \<and> fen_char (xSubToChar y)" by (rule list_all_uptoD)
qed

lemma fen_chars: "fen_char (CHR ''-'')" "fen_char (CHR ''K'')" "fen_char (CHR ''Q'')" "fen_char (CHR ''k'')" "fen_char (CHR ''q'')"
    "fen_char (CHR ''w'')" "fen_char (CHR ''b'')" "fen_char (CHR ''3'')" "fen_char (CHR ''6'')" "fen_char (CHR ''p'')"
    "fen_char (CHR ''n'')" "fen_char (CHR ''r'')" "fen_char (CHR ''0'')"
  by code_simp+

definition fen_words :: "board \<Rightarrow> string list" where
  "fen_words b = [foldl (fen_row b) [] [0..7], if side b = White then ''w'' else ''b'', fen_castling b, fen_enpassant b,
     to_chars (unat (moveCounter b)), to_chars (unat (moveNumber b))]"

lemma asFen_words: "asFen b = join_words (fen_words b)"
  by (simp add: asFen_def fen_words_def)

lemma coord_range: "0 \<le> coordY c \<and> coordY c \<le> 7" if "isCoord c" for c
  using that by (auto simp: coordY_def isCoord_def)

lemma row_nonempty: "j \<le> 7 \<Longrightarrow> row_chars b i j e \<noteq> []" if "0 \<le> e"
  using that
proof (induction b i j e rule: row_chars.induct)
  case (1 b i j e)
  show ?case
  proof (cases "cellAt b (makeCoord i j) = EMPTY_CELL")
    case True
    then show ?thesis using 1 by (cases "j + 1 \<le> 7"; subst row_chars.simps) (auto simp: row_chars.simps [of b i "j + 1" "e + 1"])
  qed (use 1 in \<open>subst row_chars.simps, simp\<close>)
qed

lemma fen_words_chars:
  assumes "enpassantCoord b \<noteq> INVALID_COORD \<Longrightarrow> isCoord (enpassantCoord b)"
  shows "list_all (list_all fen_char) (fen_words b)"
  using fen_char_rows [of b] fen_char_to_chars fen_chars coord_range [OF assms] fen_char_sub
  by (simp add: fen_words_def fen_castling_def fen_enpassant_def)

lemma fen_castling_nonempty:
  assumes "board_shape b"
  shows "fen_castling b \<noteq> []"
proof
  assume n: "fen_castling b = []"
  have c: "castling b AND Castling_All = castling b" using assms by (simp add: board_shape_def)
  have b: "\<not> bit (castling b) (kbit C)" "\<not> bit (castling b) (qbit C)" for C
    using n by (cases C; simp add: fen_castling_def split: if_splits)+
  have "castling b = 0" using b by (intro castling_eqI [OF c]) simp_all
  then show False using n by (simp add: fen_castling_def isAnyCastling_def castling_has_def Castling_None_def)
qed

lemma fen_words_nonempty:
  assumes "board_shape b"
  shows "[] \<notin> set (fen_words b)"
proof -
  have "foldl (fen_row b) [] [0..7] \<noteq> []" unfolding fen_rows using row_nonempty [of 0 0 b 0] by simp
  then show ?thesis using fen_castling_nonempty [OF assms] to_chars_nonempty
    by (auto simp: fen_words_def fen_enpassant_def simp del: to_chars_nonempty dest: sym)
qed

lemma fen_words_plain:
  assumes "board_shape b"
  shows "list_all plain (fen_words b)" "''moves'' \<notin> set (fen_words b)" "c_str (asFen b) = asFen b"
proof -
  have "list_all (list_all fen_char) (fen_words b)"
    by (rule fen_words_chars) (use assms in \<open>auto simp: board_shape_def\<close>)
  then have w: "list_all fen_char w" "w \<noteq> []" if "w \<in> set (fen_words b)" for w
    using that fen_words_nonempty [OF assms] by (auto simp: list_all_iff)
  then show "list_all plain (fen_words b)" by (auto simp: list_all_iff plain_def fen_char_def)
  show "''moves'' \<notin> set (fen_words b)" using w(1) [of "''moves''"] by (auto simp: fen_char_def)
  have "CHR 0x00 \<notin> set (asFen b)"
    using set_join_words [of "fen_words b"] w(1) by (auto simp: asFen_words list_all_iff fen_char_def)
  then show "c_str (asFen b) = asFen b" by (auto simp: c_str_def takeWhile_eq_all_conv)
qed

lemma plain_moveToStr:
  assumes "isCoord (src m)" "isCoord (dst m)"
  shows "list_all fen_char (moveToStr m)" "plain (moveToStr m)" "c_str (moveToStr m) = moveToStr m"
proof -
  have x: "0 \<le> coordX c \<and> coordX c \<le> 7" if "isCoord c" for c
    using that by (auto simp: coordX_def isCoord_def drop_bit_eq_div)
  have p: "fen_char (''pknbrq'' ! nat (pieceVal P))" for P using fen_chars by (cases P) simp_all
  show f: "list_all fen_char (moveToStr m)"
    using fen_char_sub coord_range x assms fen_chars p by (simp add: moveToStr_def)
  have "moveToStr m \<noteq> []" by (simp add: moveToStr_def)
  then show "plain (moveToStr m)" using f by (simp add: plain_def list_all_iff fen_char_def)
  show "c_str (moveToStr m) = moveToStr m" using f by (auto simp: c_str_def takeWhile_eq_all_conv list_all_iff fen_char_def)
qed

lemma play_tokens_written:
  "zobrist_ok z \<Longrightarrow> playable z b \<Longrightarrow> legal_line z b ms \<Longrightarrow> list_all (\<lambda>m. tag m = 0) ms \<Longrightarrow>
    play_tokens z b acc (spaced (map moveToStr ms)) = Some (acc @ ms)"
proof (induction ms arbitrary: b acc)
  case Nil
  then show ?case by (subst play_tokens.simps) simp
next
  case (Cons m ms)
  have l: "isWellFormed m (side b)" "isMoveValid b m" "isMoveLegal b m" using Cons.prems(3) by simp_all
  note p = legal_move_playable [OF Cons.prems(1,2) l]
  have m: "moveParse (moveToStr m) b = m"
    using playableD(1) [OF Cons.prems(2)] p(1) Cons.prems(4) by (intro moveParse_moveToStr_eq) simp_all
  have c: "isCoord (src m)" "isCoord (dst m)" using pseudo_coords [OF p(1)] by simp_all
  have "read_token (spaced (map moveToStr (m # ms))) = Some (moveToStr m, spaced (map moveToStr ms))"
    using read_token_plain [OF plain_moveToStr(2) [OF c] spaced_hd] by simp
  moreover have "play_tokens z (fst (moveMake z b m)) (acc @ [m]) (spaced (map moveToStr ms)) = Some ((acc @ [m]) @ ms)"
    using Cons.IH [OF Cons.prems(1) p(2)] Cons.prems by simp
  ultimately show ?case
    by (subst play_tokens.simps) (simp add: plain_moveToStr(3) [OF c] m l Let_def del: spaced_simps list.map)
qed

lemma position_written:
  assumes "zobrist_ok z" "consistent z b" "valid_position b" "unused b = 0" "length (cells b0) = 64"
    and "legal_line z b ms" "list_all (\<lambda>m. tag m = 0) ms"
  shows "processUciPosition z b0 cl ('' fen '' @ asFen b @ (if ms = [] then [] else '' moves'' @ spaced (map moveToStr ms))) u =
    call_client (cl_setPosition cl b ms) u"
proof -
  have sh: "board_shape b" using assms(2) by (simp add: consistent_def)
  note w = fen_words_plain [OF sh]
  have pl: "playable z b" using assms(2,3) by (rule valid_playable)
  have wm: "plain ''fen''" "plain ''moves''" by (simp_all add: plain_def stream_space_def charVal_def Let_def)
  have sp: "CHR '' '' # asFen b = spaced (fen_words b)" unfolding asFen_words by (rule spaced_join) (simp add: fen_words_def)
  let ?t = "if ms = [] then [] else CHR '' '' # ''moves'' @ spaced (map moveToStr ms)"
  have eq: "'' fen '' @ asFen b @ (if ms = [] then [] else '' moves'' @ spaced (map moveToStr ms)) =
      CHR '' '' # ''fen'' @ spaced (fen_words b) @ ?t"
    unfolding sp [symmetric] by simp
  have r: "read_token (''fen'' @ spaced (fen_words b) @ ?t) = Some (''fen'', spaced (fen_words b) @ ?t)"
    by (rule read_token_plain [OF wm(1)]) (simp add: fen_words_def)
  have j: "join_to [] (fen_words b) = asFen b" by (simp add: join_to_def asFen_words)
  have c: "\<exists>r. collect_tokens (Some ''moves'') [] (spaced (fen_words b) @ ?t) = (asFen b, r) \<and> play_tokens z b [] r = Some ms"
  proof (cases "ms = []")
    case True
    have "\<forall>w\<in>set (fen_words b). Some ''moves'' \<noteq> Some w" using w(2) by auto
    from collect_spaced [OF w(1) this, of "[]"] have "collect_tokens (Some ''moves'') [] (spaced (fen_words b)) = (asFen b, [])" by (simp add: j)
    moreover have "play_tokens z b [] [] = Some []" by (subst play_tokens.simps) simp
    ultimately show ?thesis using True by simp
  next
    case False
    have "collect_tokens (Some ''moves'') [] (spaced (fen_words b) @ CHR '' '' # ''moves'' @ spaced (map moveToStr ms)) =
        (asFen b, spaced (map moveToStr ms))"
      using collect_spaced_stop [OF w(1,2) wm(2) spaced_hd, of "[]"] by (simp only: j)
    then show ?thesis using False play_tokens_written [OF assms(1) pl assms(6,7), of "[]"] by (simp only: if_False append_Nil) blast
  qed
  have v: "validate z b = (Validate_Ok, b)"
  proof -
    have l: "length (cells b) = 64" using sh by (simp add: board_shape_def)
    have u: "update z b = b" by (rule update_id [OF assms(2)])
    have "fst (validate z b) = Validate_Ok" using validate_iff [OF l, of z] sh assms(3) u by simp
    then show ?thesis by (auto simp: validate_def Let_def u split: if_splits)
  qed
  have pb: "position_board z b0 ''fen'' (asFen b) = Some (Some b)"
    using setFromFen_asFen_eq [OF assms(2,4,5)] by (simp add: position_board_def w(3) v)
  obtain r where cr: "collect_tokens (Some ''moves'') [] (spaced (fen_words b) @ ?t) = (asFen b, r)" "play_tokens z b [] r = Some ms"
    using c by blast
  show ?thesis unfolding eq processUciPosition_def read_token_blank r option.case prod.case cr(1) pb by (simp add: cr(2))
qed

end
