(* ===== verification/Uci_Protocol.thy ===== *)
theory Uci_Protocol
  imports Uci_Game
begin

text \<open>
  The protocol as a whole: the commands a line of input stands for, the searches requested and the moves
  reported, and the poll loop, which ends with the input for every engine that returns from its calls.
\<close>

section \<open>The command of a line\<close>

definition known_commands :: "string list" where
  "known_commands = [''uci'', ''debug'', ''isready'', ''setoption'', ''register'', ''ucinewgame'', ''position'', ''go'', ''stop'',
     ''ponderhit'', ''quit'']"

function first_command :: "string \<Rightarrow> (string \<times> string) option" where
  "first_command s = (case read_token s of
     None \<Rightarrow> None
   | Some (tok, rest) \<Rightarrow> if tok \<in> set known_commands then Some (tok, rest) else first_command rest)"
  by auto
termination by (relation "measure length") (auto dest: read_token_shorter)

declare first_command.simps [simp del]

definition dispatch :: "zobrist \<Rightarrow> board \<Rightarrow> 'c client \<Rightarrow> int \<Rightarrow> string \<Rightarrow> string \<Rightarrow> 'c uci \<Rightarrow> (PollResult \<times> 'c uci) option" where
  "dispatch z b0 cl now command rest u =
     (if command = ''uci'' then uci_hello cl u
      else if command = ''debug'' then uci_debug cl rest u
      else if command = ''isready'' then Some (check_poll_io (print (''readyok'' @ endl) u))
      else if command = ''setoption'' then processUciSetOption cl rest u
      else if command = ''ucinewgame'' then call_client (cl_newGame cl) u
      else if command = ''position'' then processUciPosition z b0 cl rest u
      else if command = ''go'' then processUciGo cl now rest u
      else if command = ''stop'' then (if \<not> uc_searchStarted u then Some (NoData, u) else call_client (cl_stopSearch cl) u)
      else if command = ''quit'' then Some (Shutdown, u)
      else Some (NoData, u))"

lemma processUciCommand_dispatch:
  "processUciCommand z b0 cl now s u = (case first_command s of None \<Rightarrow> Some (NoData, u) | Some (command, rest) \<Rightarrow> dispatch z b0 cl now command rest u)"
proof (induction s rule: first_command.induct)
  case (1 s)
  show ?case
  proof (cases "read_token s")
    case None
    then show ?thesis by (subst processUciCommand.simps, subst first_command.simps) simp
  next
    case (Some x)
    obtain tok rest where x: "x = (tok, rest)" by fastforce
    show ?thesis
    proof (cases "tok \<in> set known_commands")
      case True
      then show ?thesis
        by (subst processUciCommand.simps, subst first_command.simps) (auto simp: Some x dispatch_def known_commands_def)
    next
      case False
      then show ?thesis using "1.IH" [OF Some x [symmetric]]
        by (subst processUciCommand.simps, subst first_command.simps) (simp add: Some x known_commands_def)
    qed
  qed
qed

section \<open>Writing\<close>

definition healthy :: "'c uci \<Rightarrow> bool" where
  "healthy u \<longleftrightarrow> os_room (uc_out u) = None"

definition with_pieces :: "'c uci \<Rightarrow> string list \<Rightarrow> nat option \<Rightarrow> 'c uci" where
  "with_pieces u ps room = u\<lparr>uc_out := \<lparr>os_pieces = os_pieces (uc_out u) @ ps, os_room = room\<rparr>\<rparr>"

lemma with_pieces_sel [simp]:
  "uc_searchStarted (with_pieces u ps r) = uc_searchStarted u" "uc_client (with_pieces u ps r) = uc_client u"
  "uc_connected (with_pieces u ps r) = uc_connected u" "uc_in (with_pieces u ps r) = uc_in u" "uc_in_error (with_pieces u ps r) = uc_in_error u"
  "os_pieces (uc_out (with_pieces u ps r)) = os_pieces (uc_out u) @ ps" "os_room (uc_out (with_pieces u ps r)) = r"
  by (simp_all add: with_pieces_def)

lemma printing_cases:
  obtains (ok) r where "print s u = (True, with_pieces u [s] r)" "healthy u \<longleftrightarrow> r = None"
  | (failed) "print s u = (False, u)" "\<not> healthy u"
proof (cases "os_room (uc_out u)")
  case None
  then show ?thesis using ok [of None] by (simp add: print_def stream_put_def with_pieces_def healthy_def)
next
  case (Some n)
  show ?thesis
  proof (cases n)
    case 0
    then show ?thesis using failed Some by (simp add: print_def stream_put_def healthy_def)
  next
    case (Suc k)
    then show ?thesis using ok [of "Some k"] Some by (simp add: print_def stream_put_def healthy_def with_pieces_def)
  qed
qed

lemma with_pieces_append: "with_pieces (with_pieces u ps r) qs r' = with_pieces u (ps @ qs) r'"
  by (simp add: with_pieces_def)

lemma with_pieces_Nil: "with_pieces u [] (os_room (uc_out u)) = u"
  by (simp add: with_pieces_def)

text \<open>A sequence of writes leaves a prefix of the pieces, all of them when it succeeds, as it does on a healthy device.\<close>

lemma print_all_prefix:
  "\<exists>k r ok. print_all ps u = (ok, with_pieces u (take k ps) r) \<and> (healthy u \<longleftrightarrow> r = None) \<and> (healthy u \<longrightarrow> ok) \<and> (ok \<longrightarrow> k = length ps)"
proof (induction ps arbitrary: u)
  case Nil
  show ?case by (rule exI [of _ 0], rule exI [of _ "os_room (uc_out u)"], rule exI [of _ True]) (simp add: with_pieces_Nil healthy_def)
next
  case (Cons s ps)
  show ?case
  proof (cases rule: printing_cases [of s u])
    case (ok r)
    obtain k r' ok' where k: "print_all ps (with_pieces u [s] r) = (ok', with_pieces (with_pieces u [s] r) (take k ps) r')"
        "healthy (with_pieces u [s] r) \<longleftrightarrow> r' = None" "healthy (with_pieces u [s] r) \<longrightarrow> ok'" "ok' \<longrightarrow> k = length ps"
      using Cons by blast
    have h: "healthy (with_pieces u [s] r) \<longleftrightarrow> healthy u" using ok(2) by (simp add: healthy_def)
    show ?thesis
      by (rule exI [of _ "Suc k"], rule exI [of _ r'], rule exI [of _ ok']) (use ok k h in \<open>simp add: with_pieces_append\<close>)
  next
    case failed
    then show ?thesis
      by (intro exI [of _ 0] exI [of _ "os_room (uc_out u)"] exI [of _ False]) (simp add: with_pieces_Nil healthy_def)
  qed
qed

section \<open>Moves reported\<close>

definition bestmoves :: "'c uci \<Rightarrow> nat" where
  "bestmoves u = length (filter (\<lambda>s. startsWith s ''bestmove'') (os_pieces (uc_out u)))"

definition running :: "'c uci \<Rightarrow> nat" where
  "running u = (if uc_searchStarted u then 1 else 0)"

text \<open>What a call does that neither starts nor finishes a search.\<close>

definition quiet :: "'c uci \<Rightarrow> 'c uci \<Rightarrow> bool" where
  "quiet u u' \<longleftrightarrow> bestmoves u' = bestmoves u \<and> running u' = running u \<and> (healthy u' \<longleftrightarrow> healthy u)"

lemma quiet_refl [simp]: "quiet u u"
  by (simp add: quiet_def)

lemma quiet_trans: "quiet u v \<Longrightarrow> quiet v w \<Longrightarrow> quiet u w"
  by (simp add: quiet_def)

lemma quiet_update [simp]:
  "quiet u (u\<lparr>uc_client := c\<rparr>)" "quiet u (u\<lparr>uc_in := i\<rparr>)" "quiet u (u\<lparr>uc_debugEnabled := d\<rparr>)"
  "quiet u (u\<lparr>uc_client := c, uc_debugEnabled := d\<rparr>)"
  by (simp_all add: quiet_def bestmoves_def running_def healthy_def)

lemma print_all_quiet:
  assumes "\<forall>s\<in>set ps. \<not> startsWith s ''bestmove''"
  shows "quiet u (snd (print_all ps u))"
proof -
  obtain k r ok where k: "print_all ps u = (ok, with_pieces u (take k ps) r)" "healthy u \<longleftrightarrow> r = None"
    using print_all_prefix [of ps u] by blast
  have "filter (\<lambda>s. startsWith s ''bestmove'') (take k ps) = []"
    using assms by (auto simp: filter_empty_conv dest: in_set_takeD)
  then show ?thesis using k(2) by (simp add: quiet_def k(1) bestmoves_def running_def healthy_def)
qed

lemma print_single: "print s u = print_all [s] u"
  by (simp split: prod.split)

lemma not_bestmove:
  "\<not> startsWith (CHR ''i'' # s) ''bestmove''" "\<not> startsWith (CHR '' '' # s) ''bestmove''" "\<not> startsWith (CHR ''o'' # s) ''bestmove''"
  "\<not> startsWith (CHR ''r'' # s) ''bestmove''" "\<not> startsWith (CHR ''u'' # s) ''bestmove''" "\<not> startsWith (CHR ''1'' # s) ''bestmove''"
  "\<not> startsWith (CHR ''2'' # s) ''bestmove''" "\<not> startsWith [CHR 0x0A] ''bestmove''"
  by (simp_all add: startsWith_def)

lemma check_snd [simp]: "snd (check_io r) = snd r" "snd (check_poll_io r) = snd r"
  by (simp_all add: check_io_def check_poll_io_def)

section \<open>Commands that report no move\<close>

lemma print_quiet: "\<not> startsWith s ''bestmove'' \<Longrightarrow> quiet u (snd (print s u))"
  unfolding print_single by (rule print_all_quiet) simp

lemma option_pieces_quiet: "option_pieces opts c k = Some ps \<Longrightarrow> \<forall>s\<in>set ps. \<not> startsWith s ''bestmove''"
  by (cases k) (auto simp: option_pieces_def endl_def not_bestmove bind_eq_Some_conv Let_def split: OptionType.splits if_splits)

lemma list_pieces_quiet: "list_pieces opts c ks = Some ps \<Longrightarrow> \<forall>s\<in>set ps. \<not> startsWith s ''bestmove''"
  by (induction ks arbitrary: ps) (auto simp: bind_eq_Some_conv dest!: option_pieces_quiet)

lemma listOptions_quiet: "listOptions cl u = Some (res, u') \<Longrightarrow> quiet u u'"
  unfolding listOptions_def by (elim map_option_eq_Some [THEN iffD1, THEN exE]) (auto simp: check_poll_io_def intro!: print_all_quiet list_pieces_quiet)

lemma hello_quiet:
  assumes "uci_hello cl u = Some (res, u')"
  shows "quiet u u'"
proof -
  let ?ps = "[''id name '' @ sanitizeEol (cl_name cl (uc_client u)) @ endl, ''id author '' @ sanitizeEol (cl_author cl (uc_client u)) @ endl]"
  obtain ok u1 where 1: "print_all ?ps u = (ok, u1)" by fastforce
  have q1: "quiet u u1" using print_all_quiet [of ?ps u] 1 by (simp add: not_bestmove)
  have q3: "quiet u2 (snd (print (''uciok'' @ endl) u2))" for u2 :: "'a uci" by (rule print_quiet) (simp add: not_bestmove)
  show ?thesis
  proof (cases ok)
    case True
    then obtain r2 u2 where 2: "listOptions cl u1 = Some (r2, u2)" "(res, u') = (if r2 \<noteq> Poll_Ok then (r2, u2) else check_poll_io (print (''uciok'' @ endl) u2))"
      using assms unfolding uci_hello_def 1 by auto
    have "quiet u1 u2" using 2(1) by (rule listOptions_quiet)
    moreover have "quiet u2 u'"
      using arg_cong [OF 2(2), of snd] q3 [of u2] by (cases "r2 \<noteq> Poll_Ok") simp_all
    ultimately show ?thesis using q1 quiet_trans by blast
  next
    case False
    then have "u' = u1" using assms unfolding uci_hello_def 1 by simp
    then show ?thesis using q1 by simp
  qed
qed

lemma call_client_quiet: "call_client f u = Some (res, u') \<Longrightarrow> quiet u u'"
  by (auto simp: call_client_def)

lemma debug_quiet: "uci_debug cl rest u = Some (res, u') \<Longrightarrow> quiet u u'"
  by (auto simp: uci_debug_def Let_def split: if_split_asm)

lemma setoption_quiet: "processUciSetOption cl tokens u = Some (res, u') \<Longrightarrow> quiet u u'"
  by (auto simp: processUciSetOption_def Let_def dest: call_client_quiet split: option.splits OptionType.splits if_splits)

lemma position_quiet: "processUciPosition z b0 cl tokens u = Some (res, u') \<Longrightarrow> quiet u u'"
  by (auto simp: processUciPosition_def dest: call_client_quiet split: option.split_asm if_split_asm prod.split_asm Option.bind_split_asm)

lemma dispatch_quiet:
  assumes "dispatch z b0 cl now command rest u = Some (res, u')" "command \<noteq> ''go''"
  shows "quiet u u'"
proof -
  have "quiet u (snd (check_poll_io (print (''readyok'' @ endl) u)))" unfolding check_snd by (rule print_quiet) (simp add: not_bestmove)
  then have r: "check_poll_io (print (''readyok'' @ endl) u) = (res, u') \<Longrightarrow> quiet u u'" by (metis snd_conv)
  show ?thesis
    using assms unfolding dispatch_def
    by (auto dest: hello_quiet debug_quiet setoption_quiet call_client_quiet position_quiet intro: r split: if_split_asm)
qed

section \<open>Commands that do\<close>

text \<open>\<open>balanced k u u'\<close>: from \<open>u\<close> to \<open>u'\<close> there were \<open>k\<close> searches to answer; none is answered twice.\<close>

definition balanced :: "nat \<Rightarrow> 'c uci \<Rightarrow> 'c uci \<Rightarrow> bool" where
  "balanced k u u' \<longleftrightarrow> bestmoves u' + running u' \<le> bestmoves u + running u + k \<and> (healthy u' \<longleftrightarrow> healthy u) \<and>
     (healthy u \<longrightarrow> bestmoves u' + running u' = bestmoves u + running u + k)"

lemma quiet_balanced: "quiet u u' \<Longrightarrow> balanced 0 u u'"
  by (simp add: quiet_def balanced_def)

lemma bestmoves_with [simp]:
  "bestmoves (with_pieces u ps r) = bestmoves u + length (filter (\<lambda>s. startsWith s ''bestmove'') ps)"
  "running (with_pieces u ps r) = running u" "healthy (with_pieces u ps r) \<longleftrightarrow> r = None"
  by (simp_all add: bestmoves_def running_def healthy_def)

lemma go_balanced:
  assumes "processUciGo cl now tokens u = Some (res, u')"
  shows "balanced (if uc_searchStarted u then 0 else 1) u u'"
proof (cases "uc_searchStarted u")
  case True
  then show ?thesis using assms by (simp add: processUciGo_def quiet_balanced)
next
  case False
  then obtain r c where rc: "start_request cl (go_loop False new_time_control tokens) (uc_client u) = Some (r, c)"
      "(res, u') = doStartSearch now r (u\<lparr>uc_client := c\<rparr>)"
    using assms by (auto simp: processUciGo_def)
  let ?u = "u\<lparr>uc_client := c\<rparr>"
  have u: "bestmoves ?u = bestmoves u" "running ?u = 0" "running u = 0" "healthy ?u \<longleftrightarrow> healthy u"
    using False by (simp_all add: bestmoves_def running_def healthy_def)
  show ?thesis
  proof (cases "r = Api_Ok")
    case True
    then have "u' = ?u\<lparr>uc_searchStarted := True, uc_searchStartTime := now\<rparr>" using rc(2) by (simp add: doStartSearch_def)
    then have "bestmoves u' = bestmoves ?u" "running u' = 1" "healthy u' \<longleftrightarrow> healthy ?u"
      by (simp_all add: bestmoves_def running_def healthy_def)
    then show ?thesis using u False by (simp add: balanced_def)
  next
    case r: False
    let ?ps = "[''info string Cannot start search: '' @ apiResultToStr r @ endl, ''bestmove 0000'' @ endl]"
    obtain k rm ok where k: "print_all ?ps ?u = (ok, with_pieces ?u (take k ?ps) rm)" "healthy ?u \<longleftrightarrow> rm = None"
        "healthy ?u \<longrightarrow> ok" "ok \<longrightarrow> k = length ?ps"
      using print_all_prefix [of ?ps ?u] by blast
    have u': "u' = with_pieces ?u (take k ?ps) rm"
      using arg_cong [OF rc(2), of snd] r by (simp only: doStartSearch_def k(1) check_snd if_True snd_conv simp_thms)
    have f: "filter (\<lambda>s. startsWith s ''bestmove'') ?ps = [''bestmove 0000'' @ endl]"
      by (simp add: not_bestmove startsWith_def)
    have "length (filter (\<lambda>s. startsWith s ''bestmove'') (take k ?ps)) \<le> length (filter (\<lambda>s. startsWith s ''bestmove'') ?ps)"
      by (metis append_take_drop_id filter_append le_add1 length_append)
    then have le: "length (filter (\<lambda>s. startsWith s ''bestmove'') (take k ?ps)) \<le> 1" unfolding f by simp
    have "healthy u \<longrightarrow> take k ?ps = ?ps" using k(3,4) u(4) by simp
    then have eq: "healthy u \<longrightarrow> length (filter (\<lambda>s. startsWith s ''bestmove'') (take k ?ps)) = 1" using f by (metis length_Cons list.size(3) One_nat_def)
    show ?thesis unfolding balanced_def u' bestmoves_with using u False le eq k(2) by simp
  qed
qed

lemma finishSearch_balanced:
  assumes "uci_finishSearch m u = Some (res, u')"
  shows "balanced 0 u u'"
proof (cases "uc_searchStarted u")
  case True
  let ?s = "''bestmove '' @ moveToStr m @ endl"
  have s: "startsWith ?s ''bestmove''" by (simp add: startsWith_def)
  have r: "Some (res, u') = Some (case print ?s u of (ok, u1) \<Rightarrow> if \<not> ok then (Api_IOError, u1) else (Api_Ok, u1\<lparr>uc_searchStarted := False\<rparr>))"
    using assms True unfolding uci_finishSearch_def during_search_def ensureClient_def by (simp split: if_splits)
  show ?thesis
  proof (cases rule: printing_cases [of ?s u])
    case (ok rm)
    let ?w = "with_pieces u [?s] rm"
    have u': "u' = ?w\<lparr>uc_searchStarted := False\<rparr>" using r unfolding ok(1) by simp
    have "bestmoves u' = bestmoves ?w" "running u' = 0" "healthy u' \<longleftrightarrow> healthy ?w"
      by (simp_all add: u' bestmoves_def running_def healthy_def)
    moreover have "bestmoves ?w = bestmoves u + 1" unfolding bestmoves_with using s by simp
    ultimately show ?thesis using True ok(2) by (simp add: balanced_def running_def)
  next
    case failed
    then show ?thesis using r by (simp add: balanced_def)
  qed
next
  case False
  then show ?thesis using assms by (simp add: uci_finishSearch_def during_search_def ensureClient_def quiet_balanced split: if_splits)
qed

section \<open>Runs of the interface\<close>

datatype server_call = FinishSearch move | SendString string | SendResult search_result u64 | SendNodeCount u64 |
  SendHashHits u64 | SendHashFull u16 | SendCurrMove move u64 | ReportError string

fun server_step :: "(u64 \<Rightarrow> int \<Rightarrow> u64 option) \<Rightarrow> int \<Rightarrow> server_call \<Rightarrow> 'c uci \<Rightarrow> (ApiResult \<times> 'c uci) option" where
  "server_step nps now (FinishSearch m) u = uci_finishSearch m u"
| "server_step nps now (SendString str) u = sendString str u"
| "server_step nps now (SendResult r nodes) u = uci_sendResult nps now r nodes u"
| "server_step nps now (SendNodeCount nodes) u = sendNodeCount nps now nodes u"
| "server_step nps now (SendHashHits hits) u = sendHashHits hits u"
| "server_step nps now (SendHashFull hashFull) u = sendHashFull hashFull u"
| "server_step nps now (SendCurrMove m number) u = sendCurrMove m number u"
| "server_step nps now (ReportError message) u = reportError message u"

text \<open>The command of the next complete line of the input.\<close>

definition next_command :: "'c uci \<Rightarrow> string option" where
  "next_command u = (if dropWhile (\<lambda>c. c \<noteq> CHR 0x0A) (uc_in u) = [] then None
     else map_option fst (first_command (takeWhile (\<lambda>c. c \<noteq> CHR 0x0A) (uc_in u))))"

definition asks_search :: "'c uci \<Rightarrow> bool" where
  "asks_search u \<longleftrightarrow> next_command u = Some ''go'' \<and> \<not> uc_searchStarted u"

text \<open>
  Runs: lines are polled, the engine calls the interface, its threads change its own state. The number
  counts the searches asked for: \<open>go\<close> commands read while no search runs.
\<close>

inductive uci_run :: "zobrist \<Rightarrow> board \<Rightarrow> 'c client \<Rightarrow> (u64 \<Rightarrow> int \<Rightarrow> u64 option) \<Rightarrow> 'c uci \<Rightarrow> nat \<Rightarrow> 'c uci \<Rightarrow> bool"
  for z b0 cl nps u0 where
  begins: "uci_run z b0 cl nps u0 0 u0"
| polls: "uci_run z b0 cl nps u0 n u \<Longrightarrow> uci_poll z b0 cl now u = Some (res, u') \<Longrightarrow>
    uci_run z b0 cl nps u0 (if asks_search u then Suc n else n) u'"
| calls: "uci_run z b0 cl nps u0 n u \<Longrightarrow> server_step nps now c u = Some (result, u') \<Longrightarrow> uci_run z b0 cl nps u0 n u'"
| engine: "uci_run z b0 cl nps u0 n u \<Longrightarrow> uci_run z b0 cl nps u0 n (u\<lparr>uc_client := s\<rparr>)"

inductive_cases uci_runE: "uci_run z b0 cl nps u0 n u"

lemma result_pieces_quiet: "\<forall>s\<in>set (result_pieces nps r nodes time). \<not> startsWith s ''bestmove''"
  by (auto simp: result_pieces_def nodes_pieces_def endl_def not_bestmove split: option.splits PositionCostType.splits PositionCostBound.splits)

lemma check_quiet: "quiet u (snd r) \<Longrightarrow> check_io r = (res, u') \<Longrightarrow> quiet u u'"
  by (auto simp: check_io_def)

lemma server_step_balanced:
  assumes "server_step nps now c u = Some (res, u')"
  shows "balanced 0 u u'"
proof -
  have n: "\<forall>s\<in>set (nodes_pieces nps nodes time). \<not> startsWith s ''bestmove''" for nodes time
    by (auto simp: nodes_pieces_def not_bestmove split: option.splits)
  note ds = during_search_def ensureClient_def
  note p = check_quiet [OF print_all_quiet, rotated] check_quiet [OF print_quiet, rotated]
  show ?thesis
  proof (cases c)
    case (FinishSearch m)
    then show ?thesis using assms finishSearch_balanced by simp
  next
    case (SendString x)
    then show ?thesis using assms
      by (auto simp: sendString_def ds not_bestmove intro!: quiet_balanced elim!: p split: if_split_asm)
  next
    case (SendResult r nodes)
    then show ?thesis using assms result_pieces_quiet
      by (auto simp: uci_sendResult_def ds intro!: quiet_balanced elim!: p split: if_split_asm)
  next
    case (SendNodeCount nodes)
    then show ?thesis using assms n
      by (auto simp: sendNodeCount_def ds not_bestmove endl_def Let_def intro!: quiet_balanced elim!: p split: if_split_asm simp del: print_all.simps)
  next
    case (SendHashHits hits)
    then show ?thesis using assms
      by (auto simp: sendHashHits_def ds not_bestmove intro!: quiet_balanced elim!: p split: if_split_asm)
  next
    case (SendHashFull h)
    then show ?thesis using assms
      by (auto simp: sendHashFull_def ds not_bestmove intro!: quiet_balanced elim!: p split: if_split_asm)
  next
    case (SendCurrMove m k)
    then show ?thesis using assms
      by (auto simp: sendCurrMove_def ds not_bestmove endl_def intro!: quiet_balanced elim!: p split: if_split_asm simp del: print_all.simps)
  next
    case (ReportError x)
    then show ?thesis using assms
      by (auto simp: reportError_def ds not_bestmove intro!: quiet_balanced elim!: p split: if_split_asm)
  qed
qed

lemma dispatch_balanced:
  assumes "dispatch z b0 cl now command rest u = Some (res, u')"
  shows "balanced (if command = ''go'' \<and> \<not> uc_searchStarted u then 1 else 0) u u'"
proof (cases "command = ''go''")
  case True
  then have "processUciGo cl now rest u = Some (res, u')" using assms by (simp add: dispatch_def)
  then have "balanced (if uc_searchStarted u then 0 else 1) u u'" by (rule go_balanced)
  then show ?thesis using True by (cases "uc_searchStarted u") simp_all
qed (use dispatch_quiet [OF assms] quiet_balanced in simp)

lemma poll_balanced:
  assumes "uci_poll z b0 cl now u = Some (res, u')"
  shows "balanced (if asks_search u then 1 else 0) u u'"
proof -
  let ?line = "takeWhile (\<lambda>c. c \<noteq> CHR 0x0A) (uc_in u)" and ?rest = "dropWhile (\<lambda>c. c \<noteq> CHR 0x0A) (uc_in u)"
  let ?u = "u\<lparr>uc_in := drop 1 ?rest\<rparr>"
  have q: "quiet u ?u" by simp
  have tr: "balanced k ?u u' \<Longrightarrow> balanced k u u'" for k using q by (simp add: quiet_def balanced_def)
  have owl: "first_command ''how to draw an owl'' = None" "first_command ''how to draw owl'' = None" "first_command [] = None"
    by code_simp+
  have c: "uc_connected u" using assms by (simp add: uci_poll_def split: if_splits)
  consider (no_line) "?rest = []" | (empty) "?rest \<noteq> []" "?line = []"
    | (owl) "?rest \<noteq> []" "?line = ''how to draw an owl'' \<or> ?line = ''how to draw owl''"
    | (line) "?rest \<noteq> []" "?line \<noteq> []" "\<not> (?line = ''how to draw an owl'' \<or> ?line = ''how to draw owl'')" by blast
  then show ?thesis
  proof cases
    case no_line
    then have "u' = ?u" using assms c by (simp add: uci_poll_def Let_def)
    moreover have "\<not> asks_search u" using no_line by (simp add: asks_search_def next_command_def)
    ultimately show ?thesis using quiet_balanced [OF q] by simp
  next
    case empty
    then have "(NoData, ?u) = (res, u')"
      using assms unfolding uci_poll_def Let_def using c by (simp only: if_False if_True not_True_eq_False option.inject refl)
    then have "u' = ?u" by simp
    moreover have "\<not> asks_search u" using empty owl by (simp add: asks_search_def next_command_def)
    ultimately show ?thesis using quiet_balanced [OF q] by simp
  next
    case owl': owl
    let ?ps = "[''1) Draw circles'' @ endl, ''2) Draw the rest of the owl'' @ endl]"
    have ne: "?line \<noteq> []" using owl'(2) by (auto simp del: takeWhile_eq_Nil_iff)
    have "(res, u') = check_poll_io (print_all ?ps ?u)"
      using assms unfolding uci_poll_def Let_def using c owl' ne by (simp only: if_False if_True not_True_eq_False option.inject)
    then have "u' = snd (print_all ?ps ?u)" by (metis check_snd(2) snd_conv)
    moreover have "quiet ?u (snd (print_all ?ps ?u))" by (rule print_all_quiet) (simp add: not_bestmove)
    ultimately have "quiet u u'" using q quiet_trans by blast
    moreover have "\<not> asks_search u" using owl'(2) owl by (auto simp: asks_search_def next_command_def simp del: takeWhile_eq_Nil_iff)
    ultimately show ?thesis using quiet_balanced by simp
  next
    case line
    have p: "processUciCommand z b0 cl now ?line ?u = Some (res, u')"
      using assms unfolding uci_poll_def Let_def using c line by (simp only: if_False if_True not_True_eq_False simp_thms)
    show ?thesis
    proof (cases "first_command ?line")
      case None
      then have "u' = ?u" using p by (simp add: processUciCommand_dispatch)
      moreover have "\<not> asks_search u" using None by (simp add: asks_search_def next_command_def)
      ultimately show ?thesis using quiet_balanced [OF q] by simp
    next
      case (Some x)
      obtain command rest where x: "x = (command, rest)" by fastforce
      have "dispatch z b0 cl now command rest ?u = Some (res, u')" using p by (simp add: processUciCommand_dispatch Some x)
      then have "balanced (if command = ''go'' \<and> \<not> uc_searchStarted ?u then 1 else 0) u u'" by (intro tr dispatch_balanced)
      moreover have "asks_search u \<longleftrightarrow> command = ''go'' \<and> \<not> uc_searchStarted ?u"
        using Some x line(1) by (auto simp: asks_search_def next_command_def)
      ultimately show ?thesis by (simp only:)
    qed
  qed
qed

lemma run_balanced: "uci_run z b0 cl nps u0 n u \<Longrightarrow> balanced n u0 u"
proof (induction rule: uci_run.induct)
  case begins
  then show ?case by (simp add: balanced_def)
next
  case (polls n u now res u')
  then show ?case using poll_balanced [OF polls(2)] by (auto simp: balanced_def split: if_splits)
next
  case (calls n u now c result u')
  then show ?case using server_step_balanced [OF calls(2)] by (auto simp: balanced_def)
next
  case (engine n u s)
  then show ?case using quiet_update(1) [of u s] by (auto simp: balanced_def quiet_def)
qed

end
