(* ===== verification/Uci_Loop.thy ===== *)
theory Uci_Loop
  imports Uci_Protocol
begin

text \<open>
  What the interface asks of an engine, as a locale: from a ready state every call with the arguments the
  interface can pass returns. Then every poll returns, and the poll loop ends with the input.
\<close>

section \<open>Requests\<close>

text \<open>The time controls a line can describe: what is not given is unlimited or nothing, and the moves to go are never zero.\<close>

definition side_ok :: "time_control_side \<Rightarrow> bool" where
  "side_ok t \<longleftrightarrow> 0 \<le> tcs_time t \<and> (tcs_time t \<le> 2000000000000 \<or> tcs_time t = MILLISECONDS_MAX) \<and>
     0 \<le> tcs_inc t \<and> tcs_inc t \<le> 2000000000000"

definition control_ok :: "time_control \<Rightarrow> bool" where
  "control_ok tc \<longleftrightarrow> side_ok (tc_white tc) \<and> side_ok (tc_black tc) \<and> tc_movesToGo tc \<noteq> 0"

fun request_ok :: "search_request \<Rightarrow> bool" where
  "request_ok Infinite \<longleftrightarrow> True"
| "request_ok (FixedDepth d) \<longleftrightarrow> d < 2 ^ 64"
| "request_ok (FixedNodes n) \<longleftrightarrow> True"
| "request_ok (FixedTime t) \<longleftrightarrow> 0 \<le> t \<and> t \<le> 2000000000000"
| "request_ok (TimeControl tc) \<longleftrightarrow> control_ok tc"

lemma new_control_ok: "control_ok new_time_control"
  by (simp add: control_ok_def side_ok_def new_time_control_def new_time_control_side_def MOVES_INFINITE_def MILLISECONDS_MAX_def)

lemma valueFromStr_bound: "valueFromStr b s = Some v \<Longrightarrow> v < b"
  by (auto simp: valueFromStr_def from_chars_def Let_def split: option.splits list.splits if_splits)

lemma tryReadInt_bound: "tryReadInt b s = (Some v, rest) \<Longrightarrow> v < b"
  by (auto simp: tryReadInt_def split: option.splits dest: valueFromStr_bound)

lemma tryReadMsec_bound: "tryReadMsec s = (Some v, rest) \<Longrightarrow> 0 \<le> v \<and> v \<le> 2000000000000"
  by (auto simp: tryReadMsec_def MAX_ALLOWED_TIME_MSEC_def split: prod.splits option.splits if_splits)

lemma of_nat_u32_nonzero:
  assumes "0 < v" "v < 2 ^ 32"
  shows "(of_nat v :: u32) \<noteq> 0"
proof -
  have "unat (of_nat v :: u32) = v" using assms(2) by (simp add: unat_of_nat take_bit_nat_eq_self)
  then show ?thesis using assms(1) by auto
qed

lemma control_updates:
  assumes "control_ok tc" "0 \<le> v" "v \<le> 2000000000000"
  shows "control_ok (tc\<lparr>tc_white := (tc_white tc)\<lparr>tcs_time := v\<rparr>\<rparr>)" "control_ok (tc\<lparr>tc_black := (tc_black tc)\<lparr>tcs_time := v\<rparr>\<rparr>)"
    "control_ok (tc\<lparr>tc_white := (tc_white tc)\<lparr>tcs_inc := v\<rparr>\<rparr>)" "control_ok (tc\<lparr>tc_black := (tc_black tc)\<lparr>tcs_inc := v\<rparr>\<rparr>)"
  using assms by (simp_all add: control_ok_def side_ok_def)

text \<open>What a turn of the loop can be.\<close>

definition turn_ok :: "time_control \<Rightarrow> go_turn \<Rightarrow> bool" where
  "turn_ok tc r \<longleftrightarrow> control_ok tc \<longrightarrow> (case r of Again has' tc' rest \<Rightarrow> control_ok tc' | Start request \<Rightarrow> request_ok request | LeaveLoop \<Rightarrow> True)"

lemma turn_again: "turn_ok tc (Again has tc s)" "turn_ok tc LeaveLoop" "turn_ok tc (Start Infinite)"
  by (simp_all add: turn_ok_def)

lemma turn_time: "(\<And>v. control_ok tc \<Longrightarrow> 0 \<le> v \<Longrightarrow> v \<le> 2000000000000 \<Longrightarrow> control_ok (f v tc)) \<Longrightarrow> turn_ok tc (go_time f has tc s)"
  by (auto simp: turn_ok_def go_time_def split: prod.split option.split dest!: tryReadMsec_bound)

lemma turn_int:
  assumes "\<And>v rest. v < bound \<Longrightarrow> turn_ok tc (f v rest)"
  shows "turn_ok tc (case tryReadInt bound s of (None, rest) \<Rightarrow> Again has tc rest | (Some v, rest) \<Rightarrow> f v rest)"
  using assms by (auto simp: turn_again split: prod.split option.split dest!: tryReadInt_bound)

lemma turn_msec: "turn_ok tc (case tryReadMsec s of (None, rest) \<Rightarrow> Again has tc rest | (Some v, rest) \<Rightarrow> Start (FixedTime v))"
  by (auto simp: turn_ok_def split: prod.split option.split dest!: tryReadMsec_bound)

lemma turn_moves: "v < 2 ^ 32 \<Longrightarrow> turn_ok tc (Again True (tc\<lparr>tc_movesToGo := (if v = 0 then MOVES_INFINITE else of_nat v)\<rparr>) rest)"
  using of_nat_u32_nonzero [of v] by (simp add: turn_ok_def control_ok_def MOVES_INFINITE_def)

lemma turn_start: "v < 2 ^ 64 \<Longrightarrow> turn_ok tc (Start (FixedDepth v))" "turn_ok tc (Start (FixedNodes n))"
  by (simp_all add: turn_ok_def)

lemma go_turn_ok: "turn_ok tc (go_turn has tc tok s)"
  unfolding go_turn_def
  by (intro if_split [where P = "turn_ok tc", THEN iffD2] conjI impI turn_again turn_time control_updates turn_int turn_msec
      turn_moves turn_start)

lemma go_loop_ok: "control_ok tc \<Longrightarrow> request_ok (go_loop has tc s)"
proof (induction has tc s rule: go_loop.induct)
  case (1 has tc s)
  have e: "request_ok (go_end has tc)" using "1.prems" by (simp add: go_end_def)
  show ?case
  proof (cases "read_token s")
    case None
    then show ?thesis using e by (subst go_loop.simps) simp
  next
    case (Some x)
    obtain tok0 rest0 where x: "x = (tok0, rest0)" by fastforce
    obtain tok rest where g: "go_token tok0 rest0 = (tok, rest)" by fastforce
    show ?thesis
    proof (cases "go_turn has tc tok rest")
      case (Again has' tc' s')
      have "request_ok (go_loop has' tc' s')"
        using "1.IH" [OF Some x [symmetric] g [symmetric] Again] go_turn_ok [of tc has tok rest] "1.prems" by (simp add: turn_ok_def Again)
      then show ?thesis by (subst go_loop.simps) (simp add: Some x g Again)
    next
      case (Start r)
      then show ?thesis using go_turn_ok [of tc has tok rest] "1.prems" by (subst go_loop.simps) (simp add: Some x g turn_ok_def)
    next
      case LeaveLoop
      then show ?thesis using e by (subst go_loop.simps) (simp add: Some x g)
    qed
  qed
qed

section \<open>Engines that return\<close>

text \<open>A call returns in a state from which other threads may have to act before the next call.\<close>

definition returns :: "('c \<Rightarrow> bool) \<Rightarrow> ('c \<Rightarrow> bool) \<Rightarrow> 'c api \<Rightarrow> bool" where
  "returns ready reached f \<longleftrightarrow> (\<forall>c. ready c \<longrightarrow> (\<exists>r c'. f c = Some (r, c') \<and> reached c'))"

locale returning_engine =
  fixes z :: zobrist and cl :: "'c client" and ready reached :: "'c \<Rightarrow> bool"
  assumes hash_ok: "ready c \<Longrightarrow> zobrist_ok z"
    and ready_reached: "ready c \<Longrightarrow> reached c"
    and debug_mode: "ready c \<Longrightarrow> (\<exists>c'. cl_enterDebugMode cl c = Some c' \<and> reached c') \<and> (\<exists>c'. cl_leaveDebugMode cl c = Some c' \<and> reached c')"
    and new_game: "returns ready reached (cl_newGame cl)"
    and position: "playable z b \<Longrightarrow> legal_line z b ms \<Longrightarrow> returns ready reached (cl_setPosition cl b ms)"
    and search: "request_ok r \<Longrightarrow> returns ready reached (start_request cl r)"
    and stop: "returns ready reached (cl_stopSearch cl)"
    and options: "returns ready reached (op_setBool (cl_options cl) key bv)" "returns ready reached (op_setInt (cl_options cl) key iv)"
      "returns ready reached (op_setString (cl_options cl) key sv)" "returns ready reached (op_setEnum_item (cl_options cl) key sv)"
      "returns ready reached (op_triggerAction (cl_options cl) key)"
    and listed: "ready c \<Longrightarrow> k \<in> set (op_list (cl_options cl) c) \<Longrightarrow> \<exists>ps. option_pieces (cl_options cl) c k = Some ps"
begin

text \<open>A poll keeps the connection; what it leaves of the input is shorter, or it was the last.\<close>

definition polled :: "'c uci \<Rightarrow> 'c uci \<Rightarrow> bool" where
  "polled u u' \<longleftrightarrow> reached (uc_client u') \<and> uc_connected u' = uc_connected u \<and> uc_in u' = uc_in u"

lemma call_returns: "returns ready reached f \<Longrightarrow> ready (uc_client u) \<Longrightarrow> \<exists>res u'. call_client f u = Some (res, u') \<and> polled u u'"
  by (fastforce simp: returns_def call_client_def polled_def)

lemma polled_refl: "ready (uc_client u) \<Longrightarrow> polled u u"
  using ready_reached by (simp add: polled_def)

lemma print_polled: "ready (uc_client u) \<Longrightarrow> polled u (snd (print_all ps u))"
proof -
  obtain k r ok where "print_all ps u = (ok, with_pieces u (take k ps) r)" using print_all_prefix [of ps u] by blast
  then show "ready (uc_client u) \<Longrightarrow> polled u (snd (print_all ps u))" using ready_reached by (simp add: polled_def)
qed

lemma print_client: "uc_client (snd (print_all ps u)) = uc_client u" "uc_connected (snd (print_all ps u)) = uc_connected u"
    "uc_in (snd (print_all ps u)) = uc_in u"
proof -
  obtain k r ok where "print_all ps u = (ok, with_pieces u (take k ps) r)" using print_all_prefix [of ps u] by blast
  then show "uc_client (snd (print_all ps u)) = uc_client u" "uc_connected (snd (print_all ps u)) = uc_connected u"
    "uc_in (snd (print_all ps u)) = uc_in u" by simp_all
qed

lemma listing_returns: "ready c \<Longrightarrow> set ks \<subseteq> set (op_list (cl_options cl) c) \<Longrightarrow> \<exists>ps. list_pieces (cl_options cl) c ks = Some ps"
proof (induction ks)
  case (Cons k ks)
  then show ?case using listed [OF Cons.prems(1), of k] by fastforce
qed simp

lemma listOptions_returns:
  assumes "ready (uc_client u)"
  shows "\<exists>res u'. listOptions cl u = Some (res, u') \<and> polled u u'"
proof -
  obtain ps where "list_pieces (cl_options cl) (uc_client u) (sort (op_list (cl_options cl) (uc_client u))) = Some ps"
    using listing_returns [OF assms, of "sort (op_list (cl_options cl) (uc_client u))"] by auto
  then show ?thesis using print_polled [OF assms, of ps] by (simp add: listOptions_def check_poll_io_def)
qed

lemma hello_returns:
  assumes "ready (uc_client u)"
  shows "\<exists>res u'. uci_hello cl u = Some (res, u') \<and> polled u u'"
proof -
  let ?ps = "[''id name '' @ sanitizeEol (cl_name cl (uc_client u)) @ endl, ''id author '' @ sanitizeEol (cl_author cl (uc_client u)) @ endl]"
  obtain ok u1 where 1: "print_all ?ps u = (ok, u1)" by fastforce
  have u1: "uc_client u1 = uc_client u" "uc_connected u1 = uc_connected u" "uc_in u1 = uc_in u" using print_client [of ?ps u] 1 by simp_all
  then have g: "ready (uc_client u1)" using assms by simp
  obtain r2 u2 where 2: "listOptions cl u1 = Some (r2, u2)" "polled u1 u2" using listOptions_returns [OF g] by blast
  have p: "polled u (snd (print (''uciok'' @ endl) u2))"
    using 2(2) u1 print_client [of "[''uciok'' @ endl]" u2] unfolding print_single by (simp add: polled_def)
  have q: "polled u u2" "polled u u1" using 2(2) u1 ready_reached [OF g] by (simp_all add: polled_def)
  show ?thesis
    unfolding uci_hello_def 1 using 2(1) p q by (auto simp: check_poll_io_def)
qed

lemma go_returns:
  assumes "ready (uc_client u)"
  shows "\<exists>res u'. processUciGo cl now tokens u = Some (res, u') \<and> polled u u'"
proof (cases "uc_searchStarted u")
  case True
  then show ?thesis using polled_refl [OF assms] by (simp add: processUciGo_def)
next
  case False
  obtain r c where rc: "start_request cl (go_loop False new_time_control tokens) (uc_client u) = Some (r, c)" "reached c"
    using search [OF go_loop_ok [OF new_control_ok]] assms by (fastforce simp: returns_def)
  let ?u = "u\<lparr>uc_client := c\<rparr>"
  have "polled u (snd (doStartSearch now r ?u))"
    using rc(2) print_client [of "[''info string Cannot start search: '' @ apiResultToStr r @ endl, ''bestmove 0000'' @ endl]" ?u]
    by (simp add: doStartSearch_def polled_def del: print_all.simps)
  then show ?thesis using False rc(1) by (cases "doStartSearch now r ?u") (simp add: processUciGo_def)
qed

lemma setoption_returns:
  assumes "ready (uc_client u)"
  shows "\<exists>res u'. processUciSetOption cl tokens u = Some (res, u') \<and> polled u u'"
  using call_returns [OF _ assms] options polled_refl [OF assms]
  by (auto simp: processUciSetOption_def Let_def split: option.split OptionType.split)

lemma position_returns:
  assumes "ready (uc_client u)" "length (cells b0) = 64"
  shows "\<exists>res u'. processUciPosition z b0 cl tokens u = Some (res, u') \<and> polled u u'"
  using position_command [OF hash_ok [OF assms(1)] assms(2), of cl tokens u] call_returns [OF position assms(1)] polled_refl [OF assms(1)] by metis

lemma debug_returns:
  assumes "ready (uc_client u)"
  shows "\<exists>res u'. uci_debug cl rest u = Some (res, u') \<and> polled u u'"
proof -
  obtain c1 c2 where "cl_enterDebugMode cl (uc_client u) = Some c1" "reached c1" "cl_leaveDebugMode cl (uc_client u) = Some c2" "reached c2"
    using debug_mode [OF assms] by blast
  then show ?thesis using polled_refl [OF assms] by (simp add: uci_debug_def Let_def polled_def)
qed

lemma command_returns:
  assumes "ready (uc_client u)" "length (cells b0) = 64"
  shows "\<exists>res u'. processUciCommand z b0 cl now s u = Some (res, u') \<and> polled u u'"
proof (cases "first_command s")
  case None
  then show ?thesis using polled_refl [OF assms(1)] by (simp add: processUciCommand_dispatch)
next
  case (Some x)
  obtain command rest where x: "x = (command, rest)" by fastforce
  have r: "\<exists>res u'. Some (check_poll_io (print (''readyok'' @ endl) u)) = Some (res, u') \<and> polled u u'"
    using print_polled [OF assms(1), of "[''readyok'' @ endl]"] unfolding print_single by (simp add: check_poll_io_def del: print_all.simps)
  note all = debug_returns [OF assms(1)] r hello_returns [OF assms(1)] go_returns [OF assms(1)] setoption_returns [OF assms(1)] position_returns [OF assms]
    call_returns [OF new_game assms(1)] call_returns [OF stop assms(1)] polled_refl [OF assms(1)]
  show ?thesis unfolding processUciCommand_dispatch Some x option.case prod.case dispatch_def
    by (simp only: all split: if_split, simp add: all)
qed

text \<open>The end of the input, or a line less.\<close>

lemma poll_returns:
  assumes "ready (uc_client u)" "uc_connected u" "length (cells b0) = 64"
  shows "\<exists>res u'. uci_poll z b0 cl now u = Some (res, u') \<and> reached (uc_client u') \<and> uc_connected u' \<and>
    (length (uc_in u') < length (uc_in u) \<or> res = Shutdown \<or> res = Poll_IOError)"
proof -
  let ?line = "takeWhile (\<lambda>c. c \<noteq> CHR 0x0A) (uc_in u)" and ?rest = "dropWhile (\<lambda>c. c \<noteq> CHR 0x0A) (uc_in u)"
  let ?u = "u\<lparr>uc_in := drop 1 ?rest\<rparr>"
  have g: "ready (uc_client ?u)" using assms(1) by simp
  have p: "\<exists>res u'. r = Some (res, u') \<and> reached (uc_client u') \<and> uc_connected u' \<and>
      (length (uc_in u') < length (uc_in u) \<or> res = Shutdown \<or> res = Poll_IOError)"
    if "\<exists>res u'. r = Some (res, u') \<and> polled ?u u'" "?rest \<noteq> []" for r
  proof -
    from that(1) obtain res u' where "r = Some (res, u')" "polled ?u u'" by (elim exE conjE)
    moreover have "length (drop 1 ?rest) < length (uc_in u)"
      using that(2) length_dropWhile_le [of "\<lambda>c. c \<noteq> CHR 0x0A" "uc_in u"] by (cases ?rest) simp_all
    ultimately show ?thesis using assms(2) by (auto simp: polled_def)
  qed
  have owl: "\<exists>res u'. Some (check_poll_io (print_all ps ?u)) = Some (res, u') \<and> polled ?u u'" for ps
    using print_polled [OF g, of ps] by (simp add: check_poll_io_def)
  have nd: "\<exists>res u'. Some (NoData, ?u) = Some (res, u') \<and> polled ?u u'" using polled_refl [OF g] by blast
  show ?thesis
  proof (cases "?rest = []")
    case True
    then show ?thesis using assms(2) ready_reached [OF assms(1)] by (simp add: uci_poll_def Let_def)
  next
    case False
    have eq: "uci_poll z b0 cl now u = (if ?line = [] then Some (NoData, ?u)
        else if ?line = ''how to draw an owl'' \<or> ?line = ''how to draw owl''
          then Some (check_poll_io (print_all [''1) Draw circles'' @ endl, ''2) Draw the rest of the owl'' @ endl] ?u))
        else processUciCommand z b0 cl now ?line ?u)"
      unfolding uci_poll_def Let_def using assms(2) False by (simp only: if_False not_True_eq_False)
    show ?thesis unfolding eq
      by (rule p [OF _ False]) (simp only: nd owl command_returns [OF g assms(3)] split: if_split, blast)
  qed
qed

text \<open>The other threads bring the state the last call left back to a good one.\<close>

lemma loop_returns:
  assumes "length (cells b0) = 64" "reached (uc_client u)" "uc_connected u"
    and others: "\<And>k u. reached (uc_client u) \<Longrightarrow> uc_connected u \<Longrightarrow>
      ready (uc_client (others k u)) \<and> uc_connected (others k u) \<and> uc_in (others k u) = uc_in u"
  shows "\<exists>res u'. runPollLoop (\<lambda>u. uci_poll z b0 cl (now u) u) others k u = Some (res, u') \<and> (res = Poll_Ok \<or> res = Poll_IOError \<or> res = Poll_RuntimeError)"
  using assms(2,3)
proof (induction "length (uc_in u)" arbitrary: k u rule: less_induct)
  case less
  let ?u = "others k u"
  have o: "ready (uc_client ?u)" "uc_connected ?u" "uc_in ?u = uc_in u" using others [OF less.prems] by blast+
  obtain res u' where p: "uci_poll z b0 cl (now ?u) ?u = Some (res, u')" "reached (uc_client u')" "uc_connected u'"
      "length (uc_in u') < length (uc_in u) \<or> res = Shutdown \<or> res = Poll_IOError"
    using poll_returns [OF o(1,2) assms(1), of "now ?u"] unfolding o(3) by blast
  show ?case
  proof (cases "res = Poll_Ok \<or> res = NoData")
    case True
    then have "length (uc_in u') < length (uc_in u)" using p(4) by auto
    then obtain res' u'' where "runPollLoop (\<lambda>u. uci_poll z b0 cl (now u) u) others (Suc k) u' = Some (res', u'')"
        "res' = Poll_Ok \<or> res' = Poll_IOError \<or> res' = Poll_RuntimeError"
      using less.hyps [of u' "Suc k"] p(2,3) by blast
    then show ?thesis using True by (subst runPollLoop.simps) (auto simp: p(1))
  next
    case False
    then show ?thesis by (subst runPollLoop.simps) (cases res; simp add: p(1))
  qed
qed

end

end
