(* ===== verification/Engine.thy ===== *)
theory Engine
  imports Uci_Loop Job_Runner
begin

text \<open>
  The engine behind the interface (\<^verbatim>\<open>src/src/search/search.cpp\<close>): its options, the position to search and
  the runner, as an implementation of \<^verbatim>\<open>Client\<close>. The main thread of a search is in one of four phases; the
  parts of its work that change the configuration are steps of their own.
\<close>

section \<open>State\<close>

text \<open>\<open>Created n\<close>: a thread for \<open>n\<close> jobs exists and has not run yet.\<close>

datatype main_thread = NoThread | Created nat | Running | Ended

record engine_core =
  en_runner :: "job_runner option"
  en_position :: game_position
  en_thread :: main_thread
  en_server :: bool

type_synonym engine = "opt_values \<times> engine_core"

text \<open>
  What is not under the control of the engine: the hash keys, what uninitialised memory holds, the clock, and the
  version and processor that the build writes into the program.
\<close>

record engine_env =
  ee_zobrist :: zobrist
  ee_mem :: "tt_entry list"
  ee_board :: board
  ee_now :: milliseconds
  ee_version :: string
  ee_arch :: string

definition engine_name :: "engine_env \<Rightarrow> string" where
  "engine_name env =
     (let rawVersion = ee_version env;
          version = (if rawVersion = ''unknown'' \<or> startsWith rawVersion ''v'' then rawVersion else ''v0.0-g'' @ rawVersion)
      in ''SoFCheck ['' @ version @ '' '' @ ee_arch env @ '']'')"

section \<open>Options\<close>

text \<open>Access to the runner, which exists only while a server is connected.\<close>

definition with_runner :: "(job_runner \<Rightarrow> job_runner option) \<Rightarrow> engine_core \<Rightarrow> engine_core option" where
  "with_runner f e = Option.bind (en_runner e) (\<lambda>r. map_option (\<lambda>r'. e\<lparr>en_runner := Some r'\<rparr>) (f r))"

definition succeed :: "(engine_core \<Rightarrow> engine_core option) \<Rightarrow> engine_core api" where
  "succeed f e = map_option (Pair Api_Ok) (f e)"

definition engine_setInt :: "engine_env \<Rightarrow> string \<Rightarrow> int \<Rightarrow> engine_core api" where
  "engine_setInt env key val e =
     (if key = ''Hash'' then
        if val \<le> 0 then Some (InvalidArgument, e) else succeed (with_runner (setHashSize (ee_mem env) (nat (push_bit 20 val)))) e
      else if key = ''Threads'' then
        if val \<le> 0 then Some (InvalidArgument, e) else succeed (with_runner (setNumJobs (ee_mem env) (nat val))) e
      else Some (Api_Ok, e))"

definition engine_triggerAction :: "engine_env \<Rightarrow> string \<Rightarrow> engine_core api" where
  "engine_triggerAction env key e = (if key = ''Clear hash'' then succeed (with_runner (clearHash (ee_mem env))) e else Some (Api_Ok, e))"

definition engine_observer :: "engine_env \<Rightarrow> engine_core option_observer" where
  "engine_observer env = \<lparr>ob_setBool = (\<lambda>_ _ e. Some (Api_Ok, e)), ob_setInt = engine_setInt env,
     ob_setEnum = (\<lambda>_ _ e. Some (Api_Ok, e)), ob_setString = (\<lambda>_ _ e. Some (Api_Ok, e)),
     ob_triggerAction = engine_triggerAction env\<rparr>"

definition makeOptions :: "opt_values option" where
  "makeOptions = Option.bind (addInt ''Hash'' 1 (int (DEFAULT_SIZE div 2 ^ 20)) 131072 [])
     (\<lambda>o1. Option.bind (addInt ''Threads'' 1 (int DEFAULT_NUM_JOBS) 512 o1) (addAction ''Clear hash''))"

section \<open>The main thread\<close>

definition main_begins :: "engine_core \<Rightarrow> engine_core option" where
  "main_begins e = (case en_thread e of
     Created n \<Rightarrow> map_option (\<lambda>e'. e'\<lparr>en_thread := Running\<rparr>) (with_runner (\<lambda>r. let r' = disableReconfiguration r
       in map_option (\<lambda>_. r') (createJobsAndThreads n r')) e)
   | _ \<Rightarrow> Some e)"

definition main_ends :: "engine_env \<Rightarrow> engine_core \<Rightarrow> engine_core option" where
  "main_ends env e = (case en_thread e of
     Running \<Rightarrow> map_option (\<lambda>e'. e'\<lparr>en_thread := Ended\<rparr>) (with_runner (enableReconfiguration (ee_mem env)) e)
   | _ \<Rightarrow> Some e)"

definition runner_stop :: "job_runner \<Rightarrow> job_runner" where
  "runner_stop r = r\<lparr>jr_comm := (jr_comm r)\<lparr>cm_stopped := True\<rparr>\<rparr>"

text \<open>\<^verbatim>\<open>JobRunner::join\<close>: stop the search and wait for the rest of the main thread.\<close>

definition engine_join :: "engine_env \<Rightarrow> engine_core \<Rightarrow> engine_core option" where
  "engine_join env e = (case en_thread e of
     NoThread \<Rightarrow> Some e
   | _ \<Rightarrow> Option.bind (with_runner (\<lambda>r. Some (runner_stop r)) e) (\<lambda>e1.
       Option.bind (main_begins e1) (\<lambda>e2. map_option (\<lambda>e3. e3\<lparr>en_thread := NoThread\<rparr>) (main_ends env e2))))"

definition engine_doSearch :: "engine_env \<Rightarrow> search_limits \<Rightarrow> engine_core \<Rightarrow> engine_core option" where
  "engine_doSearch env limits e = Option.bind (engine_join env e) (\<lambda>e1. Option.bind (en_runner e1) (\<lambda>r.
     case runner_start (en_position e1) limits (ee_now env) r of (r', n) \<Rightarrow> Some (e1\<lparr>en_runner := Some r', en_thread := Created n\<rparr>)))"

section \<open>The engine as a client\<close>

definition on_core :: "(engine_core \<Rightarrow> engine_core option) \<Rightarrow> engine api" where
  "on_core f = (\<lambda>(vals, e). map_option (\<lambda>e'. (Api_Ok, (vals, e'))) (f e))"

definition engine_connect :: "engine_env \<Rightarrow> engine_core \<Rightarrow> engine_core option" where
  "engine_connect env e = map_option (\<lambda>r. e\<lparr>en_server := True, en_runner := Some r\<rparr>) (new_runner (ee_mem env))"

definition engine_disconnect :: "engine_env \<Rightarrow> engine_core \<Rightarrow> engine_core option" where
  "engine_disconnect env e = Option.bind (with_runner Some e) (\<lambda>e0.
     map_option (\<lambda>e1. e1\<lparr>en_runner := None, en_server := False\<rparr>) (engine_join env e0))"

definition request_limits :: "board \<Rightarrow> search_request \<Rightarrow> search_limits option" where
  "request_limits b request = (case request of
     Infinite \<Rightarrow> Some withInfiniteTime
   | FixedDepth depth \<Rightarrow> Some (withFixedDepth depth)
   | FixedNodes nodes \<Rightarrow> Some (withFixedNodes nodes)
   | FixedTime time \<Rightarrow> Some (withFixedTime time)
   | TimeControl tc \<Rightarrow> withTimeControl b tc)"

definition engine_search :: "engine_env \<Rightarrow> search_request \<Rightarrow> engine api" where
  "engine_search env request = on_core (\<lambda>e. Option.bind (request_limits (pos_last (en_position e)) request) (\<lambda>limits. engine_doSearch env limits e))"

definition engine_client :: "engine_env \<Rightarrow> engine client" where
  "engine_client env = \<lparr>cl_name = \<lambda>_. engine_name env, cl_author = \<lambda>_. ''Alexander Kernozhitsky'',
     cl_options = option_storage (Some (engine_observer env)),
     cl_enterDebugMode = \<lambda>c. map_option snd (on_core (with_runner (\<lambda>r. Some (setDebugMode True r))) c),
     cl_leaveDebugMode = \<lambda>c. map_option snd (on_core (with_runner (\<lambda>r. Some (setDebugMode False r))) c),
     cl_newGame = on_core (with_runner (newGame (ee_mem env))),
     cl_setPosition = \<lambda>b ms. on_core (\<lambda>e. Some (e\<lparr>en_position := position_from (ee_zobrist env) b ms\<rparr>)),
     cl_searchInfinite = engine_search env Infinite,
     cl_searchFixedDepth = \<lambda>depth. engine_search env (FixedDepth depth),
     cl_searchFixedNodes = \<lambda>nodes. engine_search env (FixedNodes nodes),
     cl_searchFixedTime = \<lambda>time. engine_search env (FixedTime time),
     cl_searchTimeControl = \<lambda>tc. engine_search env (TimeControl tc),
     cl_stopSearch = on_core (with_runner (\<lambda>r. Some (runner_stop r))),
     cl_reportError = \<lambda>_ c. Some (Api_Ok, c),
     cl_connect = on_core (engine_connect env),
     cl_disconnect = \<lambda>c. map_option snd (on_core (engine_disconnect env) c)\<rparr>"

definition new_engine :: "engine_env \<Rightarrow> engine option" where
  "new_engine env = map_option (\<lambda>vals. (vals, \<lparr>en_runner = None,
     en_position = position_from (ee_zobrist env) (initialPosition (ee_zobrist env) (ee_board env)) [], en_thread = NoThread,
     en_server = False\<rparr>)) makeOptions"

lemma start_request_engine: "start_request (engine_client env) r = engine_search env r"
  by (cases r) (simp_all add: start_request_def engine_client_def)

end
