(* ===== verification/Engine_Laws.thy ===== *)
theory Engine_Laws
  imports Engine
begin

text \<open>
  The engine keeps its options in range and in step with the runner, and returns from every call; the
  contract the interface asks for is interpreted on it.
\<close>

section \<open>The runner\<close>

definition env_ok :: "engine_env \<Rightarrow> bool" where
  "env_ok env \<longleftrightarrow> zobrist_ok (ee_zobrist env) \<and> length (cells (ee_board env)) = 64 \<and> 2 ^ 33 \<le> length (ee_mem env)"

definition sane :: "job_runner \<Rightarrow> bool" where
  "sane r \<longleftrightarrow> tt_wf (jr_tt r) \<and> 0 < jr_numJobs r \<and> jr_hashSize r \<le> 2 ^ 37"

lemma enable_sane:
  assumes "env_ok env" "sane r"
  shows "\<exists>r'. enableReconfiguration (ee_mem env) r = Some r' \<and> sane r' \<and> applied r' \<and> jr_canApplyConfig r' \<and> jr_numJobs r' = jr_numJobs r"
proof -
  have m: "2 ^ 37 \<le> length (ee_mem env) * ENTRY_BYTES" "2 ^ 16 \<le> length (ee_mem env)" using assms(1) by (simp_all add: env_ok_def ENTRY_BYTES_def)
  have h: "jr_hashSize r < 2 ^ 63" "jr_hashSize r < 2 ^ 20 \<or> jr_hashSize r \<le> length (ee_mem env) * ENTRY_BYTES"
    using assms(2) m(1) by (simp_all add: sane_def)
  have w: "tt_wf (jr_tt r)" "0 < jr_numJobs r" using assms(2) by (simp_all add: sane_def)
  obtain r' where r': "enableReconfiguration (ee_mem env) r = Some r'" "applied r'" "tt_wf (jr_tt r')" "jr_numJobs r' = jr_numJobs r"
      "jr_hashSize r' \<le> max (jr_hashSize r) (2 ^ 20)"
    using enable_carried_out [OF w h m(2)] by (elim exE conjE) (rule that)
  moreover have "jr_canApplyConfig r'" using try_applied(2) [of "ee_mem env" "r\<lparr>jr_canApplyConfig := True\<rparr>"] r'(1) by (simp add: enableReconfiguration_def)
  moreover have "jr_hashSize r' \<le> 2 ^ 37" using r'(5) assms(2) by (auto simp: sane_def max_def split: if_splits)
  ultimately show ?thesis using assms(2) by (auto simp: sane_def)
qed

text \<open>What a request for a change of the configuration asks for.\<close>

fun asked_jobs :: "config_op \<Rightarrow> job_runner \<Rightarrow> nat" where
  "asked_jobs (SetNumJobs n) r = n"
| "asked_jobs _ r = jr_numJobs r"

fun op_ok :: "config_op \<Rightarrow> bool" where
  "op_ok (SetHashSize sz) \<longleftrightarrow> sz \<le> 2 ^ 37"
| "op_ok (SetNumJobs n) \<longleftrightarrow> 0 < n"
| "op_ok _ \<longleftrightarrow> True"

lemma config_sane:
  assumes "env_ok env" "sane r" "op_ok x"
  shows "\<exists>r'. config_step (ee_mem env) x r = Some r' \<and> sane r' \<and> (jr_canApplyConfig r' \<longleftrightarrow> jr_canApplyConfig r) \<and>
    (jr_canApplyConfig r \<longrightarrow> applied r') \<and> jr_numJobs r' = asked_jobs x r"
proof -
  obtain r0 where r0: "config_step (ee_mem env) x r = tryApplyConfigUnlocked (ee_mem env) r0" "sane r0"
      "jr_canApplyConfig r0 = jr_canApplyConfig r" "jr_numJobs r0 = asked_jobs x r"
  proof (cases x)
    case (SetHashSize sz)
    then show thesis using that [of "r\<lparr>jr_hashSize := sz\<rparr>"] assms(2,3) by (simp add: config_defs sane_def)
  next
    case (SetNumJobs n)
    then show thesis using that [of "r\<lparr>jr_numJobs := n\<rparr>"] assms(2,3) by (simp add: config_defs sane_def)
  next
    case ClearHash
    then show thesis using that [of "r\<lparr>jr_needClearHash := True\<rparr>"] assms(2) by (simp add: config_defs sane_def)
  next
    case NewGame
    then show thesis using that [of "r\<lparr>jr_needNewGame := True\<rparr>"] assms(2) by (simp add: config_defs sane_def)
  qed
  show ?thesis
  proof (cases "jr_canApplyConfig r")
    case True
    then have "r0\<lparr>jr_canApplyConfig := True\<rparr> = r0" using r0(3) by simp
    then have "tryApplyConfigUnlocked (ee_mem env) r0 = enableReconfiguration (ee_mem env) r0" by (simp add: enableReconfiguration_def)
    then show ?thesis using enable_sane [OF assms(1) r0(2)] True unfolding r0(1,4) by auto
  next
    case False
    then show ?thesis using r0 by (simp add: try_deferred)
  qed
qed

section \<open>The engine\<close>

fun phase_ok :: "main_thread \<Rightarrow> job_runner \<Rightarrow> bool" where
  "phase_ok Running r \<longleftrightarrow> \<not> jr_canApplyConfig r"
| "phase_ok (Created k) r \<longleftrightarrow> jr_canApplyConfig r \<and> applied r \<and> length (jr_evaluators r) = k"
| "phase_ok _ r \<longleftrightarrow> jr_canApplyConfig r \<and> applied r"

definition core_ok :: "engine_env \<Rightarrow> nat \<Rightarrow> engine_core \<Rightarrow> bool" where
  "core_ok env n e \<longleftrightarrow> env_ok env \<and> playable (ee_zobrist env) (pos_last (en_position e)) \<and>
     (\<exists>r. en_runner e = Some r \<and> sane r \<and> jr_numJobs r = n \<and> phase_ok (en_thread e) r)"

definition engine_opts :: "int \<Rightarrow> int \<Rightarrow> opt_values" where
  "engine_opts t h = [(''Clear hash'', ActionOption), (''Threads'', IntOption \<lparr>io_min = 1, io_value = t, io_max = 512\<rparr>),
     (''Hash'', IntOption \<lparr>io_min = 1, io_value = h, io_max = 131072\<rparr>)]"

text \<open>The options are in their ranges, and the number of threads shown is the number configured.\<close>

definition engine_ok :: "engine_env \<Rightarrow> engine \<Rightarrow> bool" where
  "engine_ok env c \<longleftrightarrow> (\<exists>t h. fst c = engine_opts t h \<and> 1 \<le> t \<and> t \<le> 512 \<and> 1 \<le> h \<and> h \<le> 131072 \<and> core_ok env (nat t) (snd c))"

definition waiting :: "main_thread \<Rightarrow> bool" where
  "waiting t \<longleftrightarrow> (\<exists>n. t = Created n)"

definition engine_ready :: "engine_env \<Rightarrow> engine \<Rightarrow> bool" where
  "engine_ready env c \<longleftrightarrow> engine_ok env c \<and> \<not> waiting (en_thread (snd c))"

lemma core_runner:
  assumes "core_ok env n e" "\<And>r. en_runner e = Some r \<Longrightarrow> sane r \<Longrightarrow> jr_numJobs r = n \<Longrightarrow> phase_ok (en_thread e) r \<Longrightarrow>
      \<exists>r'. f r = Some r' \<and> sane r' \<and> jr_numJobs r' = n' \<and> phase_ok (en_thread e) r'"
  shows "\<exists>e'. with_runner f e = Some e' \<and> core_ok env n' e' \<and> en_thread e' = en_thread e"
proof -
  obtain r where r: "en_runner e = Some r" "sane r" "jr_numJobs r = n" "phase_ok (en_thread e) r" using assms(1) by (auto simp: core_ok_def)
  obtain r' where "f r = Some r'" "sane r'" "jr_numJobs r' = n'" "phase_ok (en_thread e) r'" using assms(2) [OF r] by blast
  then show ?thesis using assms(1) r(1) by (simp add: with_runner_def core_ok_def)
qed

lemma core_config:
  assumes "core_ok env n e" "\<not> waiting (en_thread e)" "op_ok x"
  shows "\<exists>e'. with_runner (config_step (ee_mem env) x) e = Some e' \<and>
    core_ok env (case x of SetNumJobs k \<Rightarrow> k | _ \<Rightarrow> n) e' \<and> en_thread e' = en_thread e"
proof (rule core_runner [OF assms(1)])
  fix r assume r: "sane r" "jr_numJobs r = n" "phase_ok (en_thread e) r"
  have env: "env_ok env" using assms(1) by (simp add: core_ok_def)
  obtain r' where r': "config_step (ee_mem env) x r = Some r'" "sane r'" "jr_canApplyConfig r' \<longleftrightarrow> jr_canApplyConfig r"
      "jr_canApplyConfig r \<longrightarrow> applied r'" "jr_numJobs r' = asked_jobs x r"
    using config_sane [OF env r(1) assms(3)] by blast
  have "phase_ok (en_thread e) r'" using r(3) r'(3,4) assms(2) by (cases "en_thread e") (auto simp: waiting_def)
  moreover have "asked_jobs x r = (case x of SetNumJobs k \<Rightarrow> k | _ \<Rightarrow> n)" using r(2) by (cases x) simp_all
  ultimately show "\<exists>r'. config_step (ee_mem env) x r = Some r' \<and> sane r' \<and> jr_numJobs r' = (case x of SetNumJobs k \<Rightarrow> k | _ \<Rightarrow> n) \<and> phase_ok (en_thread e) r'"
    using r' by auto
qed

lemma runner_stop_sel [simp]:
  "sane (runner_stop r) = sane r" "jr_numJobs (runner_stop r) = jr_numJobs r" "phase_ok t (runner_stop r) = phase_ok t r"
  by (cases t; simp add: runner_stop_def sane_def applied_def)+

lemma setDebugMode_sel [simp]:
  "sane (setDebugMode b r) = sane r" "jr_numJobs (setDebugMode b r) = jr_numJobs r" "phase_ok t (setDebugMode b r) = phase_ok t r"
  by (cases t; simp add: setDebugMode_def sane_def applied_def)+

section \<open>The main thread\<close>

lemma main_begins_ok:
  assumes "core_ok env n e"
  shows "\<exists>e'. main_begins e = Some e' \<and> core_ok env n e' \<and> \<not> waiting (en_thread e')"
proof (cases "en_thread e")
  case (Created k)
  obtain r where r: "en_runner e = Some r" "sane r" "jr_numJobs r = n" "phase_ok (Created k) r" using assms Created by (auto simp: core_ok_def)
  then show ?thesis using assms Created
    by (auto simp: main_begins_def with_runner_def Let_def createJobsAndThreads_def disableReconfiguration_def core_ok_def sane_def waiting_def)
qed (use assms in \<open>simp_all add: main_begins_def waiting_def\<close>)

lemma main_ends_ok:
  assumes "core_ok env n e" "\<not> waiting (en_thread e)"
  shows "\<exists>e'. main_ends env e = Some e' \<and> core_ok env n e' \<and> (en_thread e' = NoThread \<or> en_thread e' = Ended)"
proof (cases "en_thread e")
  case Running
  obtain r where r: "en_runner e = Some r" "sane r" "jr_numJobs r = n" using assms(1) by (auto simp: core_ok_def)
  have "env_ok env" using assms(1) by (simp add: core_ok_def)
  then obtain r' where "enableReconfiguration (ee_mem env) r = Some r'" "sane r'" "applied r'" "jr_canApplyConfig r'" "jr_numJobs r' = n"
    using enable_sane [OF _ r(2)] r(3) by blast
  then show ?thesis using assms(1) Running r(1) by (simp add: main_ends_def with_runner_def core_ok_def)
qed (use assms in \<open>auto simp: main_ends_def waiting_def\<close>)

lemma join_ok:
  assumes "core_ok env n e"
  shows "\<exists>e'. engine_join env e = Some e' \<and> core_ok env n e' \<and> en_thread e' = NoThread"
proof (cases "en_thread e = NoThread")
  case True
  then show ?thesis using assms by (simp add: engine_join_def)
next
  case False
  obtain e1 where e1: "with_runner (\<lambda>r. Some (runner_stop r)) e = Some e1" "core_ok env n e1"
    using core_runner [OF assms, of "\<lambda>r. Some (runner_stop r)" n] by auto
  obtain e2 where e2: "main_begins e1 = Some e2" "core_ok env n e2" "\<not> waiting (en_thread e2)" using main_begins_ok [OF e1(2)] by blast
  obtain e3 where e3: "main_ends env e2 = Some e3" "core_ok env n e3" "en_thread e3 = NoThread \<or> en_thread e3 = Ended"
    using main_ends_ok [OF e2(2,3)] by blast
  have "engine_join env e = Some (e3\<lparr>en_thread := NoThread\<rparr>)"
    using False e1(1) e2(1) e3(1) by (cases "en_thread e") (simp_all add: engine_join_def)
  moreover have "core_ok env n (e3\<lparr>en_thread := NoThread\<rparr>)" using e3(2,3) by (auto simp: core_ok_def)
  ultimately show ?thesis by simp
qed

lemma epochs_wf [simp]: "tt_wf (resetEpoch t) = tt_wf t" "tt_wf (growEpoch t d) = tt_wf t"
  by (simp_all add: tt_wf_def tt_ok_def resetEpoch_def growEpoch_def)

lemma setPosition_wf: "tt_wf (jr_tt r) \<Longrightarrow> tt_wf (jr_tt (setPosition p r))"
  by (auto simp: setPosition_def Let_def split: option.split)

lemma engine_doSearch_ok:
  assumes "core_ok env n e"
  shows "\<exists>e'. engine_doSearch env limits e = Some e' \<and> core_ok env n e'"
proof -
  obtain e1 where e1: "engine_join env e = Some e1" "core_ok env n e1" "en_thread e1 = NoThread" using join_ok [OF assms] by blast
  obtain r where r: "en_runner e1 = Some r" "sane r" "jr_numJobs r = n" "applied r" "jr_canApplyConfig r" using e1(2,3) by (auto simp: core_ok_def)
  obtain r' k where s: "runner_start (en_position e1) limits (ee_now env) r = (r', k)" by fastforce
  have "applied r'" using applied_start [OF r(4), of "en_position e1" limits "ee_now env"] s by simp
  moreover have "k = n" "jr_numJobs r' = n" "jr_canApplyConfig r'" "sane r'"
    using s r setPosition_wf [of "r\<lparr>jr_comm := comm_reset limits (ee_now env) (jr_comm r)\<rparr>" "en_position e1"]
    by (auto simp: runner_start_def Let_def sane_def)
  ultimately have "core_ok env n (e1\<lparr>en_runner := Some r', en_thread := Created k\<rparr>)"
    using e1(2) by (simp add: core_ok_def applied_def)
  then show ?thesis using e1(1) r(1) s by (simp add: engine_doSearch_def)
qed

section \<open>Calls\<close>

lemma on_core_ok:
  assumes "engine_ok env c" "\<And>n. core_ok env n (snd c) \<Longrightarrow> \<exists>e'. f (snd c) = Some e' \<and> core_ok env n e'"
  shows "\<exists>c'. on_core f c = Some (Api_Ok, c') \<and> engine_ok env c'"
  using assms by (cases c) (fastforce simp: engine_ok_def on_core_def)

lemma on_core_returns:
  assumes "\<And>n e. core_ok env n e \<Longrightarrow> \<not> waiting (en_thread e) \<Longrightarrow> \<exists>e'. f e = Some e' \<and> core_ok env n e'"
  shows "returns (engine_ready env) (engine_ok env) (on_core f)"
  unfolding returns_def engine_ready_def using on_core_ok assms by blast

lemma limits_exist:
  assumes "request_ok r"
  shows "\<exists>limits. request_limits b r = Some limits \<and> (case r of TimeControl tc \<Rightarrow> 1 \<le> lim_time limits | _ \<Rightarrow> True)"
proof (cases r)
  case (TimeControl tc)
  have s: "side_ok (tc_side tc (side b))" "tc_movesToGo tc \<noteq> 0" using assms TimeControl by (simp_all add: control_ok_def tc_side_def)
  have "tcs_time (tc_side tc (side b)) \<le> MILLISECONDS_MAX" "0 \<le> tcs_inc (tc_side tc (side b))" "tcs_inc (tc_side tc (side b)) < 2 ^ 62"
    using s(1) by (auto simp: side_ok_def MILLISECONDS_MAX_def)
  then obtain t where "calculateMaxTime b tc = Some t" "1 \<le> t" using calculateMaxTime_ok [of tc b] s(2) by blast
  then show ?thesis using TimeControl by (simp add: request_limits_def withTimeControl_def)
qed (simp_all add: request_limits_def)

lemma search_returns:
  assumes "request_ok r"
  shows "returns (engine_ready env) (engine_ok env) (engine_search env r)"
  unfolding engine_search_def
proof (rule on_core_returns)
  fix n e assume e: "core_ok env n e"
  obtain limits where "request_limits (pos_last (en_position e)) r = Some limits" using limits_exist [OF assms] by blast
  then show "\<exists>e'. Option.bind (request_limits (pos_last (en_position e)) r) (\<lambda>limits. engine_doSearch env limits e) = Some e' \<and> core_ok env n e'"
    using engine_doSearch_ok [OF e] by simp
qed

text \<open>The options: only the two numbers can be set, and the action triggered.\<close>

lemma engine_opts_get:
  "getT if_bool (engine_opts t h) key = None" "getT if_string (engine_opts t h) key = None" "getT if_enum (engine_opts t h) key = None"
  "getT if_int (engine_opts t h) key = (if key = ''Threads'' then Some \<lparr>io_min = 1, io_value = t, io_max = 512\<rparr>
     else if key = ''Hash'' then Some \<lparr>io_min = 1, io_value = h, io_max = 131072\<rparr> else None)"
  "getT if_action (engine_opts t h) key = (if key = ''Clear hash'' then Some () else None)"
  by (simp_all add: getT_def engine_opts_def)

lemma engine_opts_update:
  "AList.update ''Threads'' (IntOption \<lparr>io_min = 1, io_value = v, io_max = 512\<rparr>) (engine_opts t h) = engine_opts v h"
  "AList.update ''Hash'' (IntOption \<lparr>io_min = 1, io_value = v, io_max = 131072\<rparr>) (engine_opts t h) = engine_opts t v"
  by (simp_all add: engine_opts_def)

lemma engine_config:
  assumes "core_ok env n e" "\<not> waiting (en_thread e)" "op_ok x"
  shows "\<exists>e'. with_runner (config_step (ee_mem env) x) e = Some e' \<and> core_ok env (case x of SetNumJobs k \<Rightarrow> k | _ \<Rightarrow> n) e'"
  using core_config [OF assms] by blast

lemma config_runner: "setHashSize mem sz = config_step mem (SetHashSize sz)" "setNumJobs mem k = config_step mem (SetNumJobs k)"
    "clearHash mem = config_step mem ClearHash" "newGame mem = config_step mem NewGame"
  by (simp_all add: fun_eq_iff)

lemma setInt_returns: "returns (engine_ready env) (engine_ok env) (setInt (Some (engine_observer env)) key v)"
  unfolding returns_def
proof (intro allI impI)
  fix c assume c: "engine_ready env c"
  then obtain t h where o: "fst c = engine_opts t h" "1 \<le> t" "t \<le> 512" "1 \<le> h" "h \<le> 131072" "core_ok env (nat t) (snd c)"
      and w: "\<not> waiting (en_thread (snd c))" by (auto simp: engine_ready_def engine_ok_def)
  obtain e where e: "c = (engine_opts t h, e)" using o(1) by (cases c) simp
  have same: "engine_ok env c" using c by (simp add: engine_ready_def)
  note step = setInt_def setT_def engine_opts_get engine_observer_def engine_setInt_def e
  consider (threads) "key = ''Threads''" "1 \<le> v" "v \<le> 512" | (hash) "key = ''Hash''" "1 \<le> v" "v \<le> 131072"
    | (other) "\<not> (key = ''Threads'' \<and> 1 \<le> v \<and> v \<le> 512)" "\<not> (key = ''Hash'' \<and> 1 \<le> v \<and> v \<le> 131072)" by blast
  then show "\<exists>r c'. setInt (Some (engine_observer env)) key v c = Some (r, c') \<and> engine_ok env c'"
  proof cases
    case threads
    obtain e' where e': "with_runner (config_step (ee_mem env) (SetNumJobs (nat v))) e = Some e'" "core_ok env (nat v) e'"
      using engine_config [OF o(6) w, of "SetNumJobs (nat v)"] threads(2) by (auto simp: e)
    have "setInt (Some (engine_observer env)) key v c = Some (Api_Ok, (engine_opts v h, e'))"
      using threads e'(1) by (simp add: step succeed_def config_runner engine_opts_update)
    moreover have "engine_ok env (engine_opts v h, e')" using threads o(4,5) e'(2) by (auto simp: engine_ok_def)
    ultimately show ?thesis by blast
  next
    case hash
    have sz: "nat (push_bit 20 v) \<le> 2 ^ 37" using hash by (simp add: push_bit_eq_mult nat_le_iff)
    obtain e' where e': "with_runner (config_step (ee_mem env) (SetHashSize (nat (push_bit 20 v)))) e = Some e'" "core_ok env (nat t) e'"
      using engine_config [OF o(6) w, of "SetHashSize (nat (push_bit 20 v))"] sz by (auto simp: e)
    have "setInt (Some (engine_observer env)) key v c = Some (Api_Ok, (engine_opts t v, e'))"
      using hash e'(1) by (simp add: step succeed_def config_runner engine_opts_update)
    moreover have "engine_ok env (engine_opts t v, e')" using hash o(2,3) e'(2) by (auto simp: engine_ok_def)
    ultimately show ?thesis by blast
  next
    case other
    then have "setInt (Some (engine_observer env)) key v c = Some (InvalidArgument, c)" by (auto simp: step)
    then show ?thesis using same by blast
  qed
qed

lemma action_returns: "returns (engine_ready env) (engine_ok env) (triggerAction (Some (engine_observer env)) key)"
  unfolding returns_def
proof (intro allI impI)
  fix c assume c: "engine_ready env c"
  then obtain t h where o: "fst c = engine_opts t h" "1 \<le> t" "t \<le> 512" "1 \<le> h" "h \<le> 131072" "core_ok env (nat t) (snd c)"
      and w: "\<not> waiting (en_thread (snd c))" by (auto simp: engine_ready_def engine_ok_def)
  obtain e where e: "c = (engine_opts t h, e)" using o(1) by (cases c) simp
  have same: "engine_ok env c" using c by (simp add: engine_ready_def)
  obtain e' where e': "with_runner (config_step (ee_mem env) ClearHash) e = Some e'" "core_ok env (nat t) e'"
    using engine_config [OF o(6) w, of ClearHash] by (auto simp: e)
  have "engine_ok env (engine_opts t h, e')" using o e'(2) by (auto simp: engine_ok_def)
  then show "\<exists>r c'. triggerAction (Some (engine_observer env)) key c = Some (r, c') \<and> engine_ok env c'"
    using e'(1) same by (simp add: triggerAction_def engine_opts_get engine_observer_def engine_triggerAction_def e succeed_def config_runner)
qed

lemma unset_refused:
  assumes "fst c = engine_opts t h"
  shows "setBool obs key bv c = Some (InvalidArgument, c)" "setString obs key sv c = Some (InvalidArgument, c)"
    "setEnum_item obs key sv c = Some (InvalidArgument, c)"
  using assms by (cases c; simp add: setBool_def setString_def setEnum_item_def setT_def engine_opts_get)+

lemma unset_returns:
  "returns (engine_ready env) (engine_ok env) (setBool (Some (engine_observer env)) key bv)"
  "returns (engine_ready env) (engine_ok env) (setString (Some (engine_observer env)) key sv)"
  "returns (engine_ready env) (engine_ok env) (setEnum_item (Some (engine_observer env)) key sv)"
proof -
  have "engine_ready env c \<Longrightarrow> engine_ok env c \<and> (\<exists>t h. fst c = engine_opts t h)" for c by (auto simp: engine_ready_def engine_ok_def)
  then show "returns (engine_ready env) (engine_ok env) (setBool (Some (engine_observer env)) key bv)"
    "returns (engine_ready env) (engine_ok env) (setString (Some (engine_observer env)) key sv)"
    "returns (engine_ready env) (engine_ok env) (setEnum_item (Some (engine_observer env)) key sv)"
    using unset_refused unfolding returns_def by metis+
qed

lemma listed_options:
  assumes "engine_ready env c" "k \<in> set (opts_list (fst c))"
  shows "\<exists>ps. option_pieces (option_storage (Some (engine_observer env))) c k = Some ps"
proof -
  obtain t h where o: "fst c = engine_opts t h" using assms(1) by (auto simp: engine_ready_def engine_ok_def)
  then have "k \<in> {(''Clear hash'', Type_Action), (''Threads'', Type_Int), (''Hash'', Type_Int)}"
    using assms(2) by (auto simp: opts_list_def engine_opts_def)
  then show ?thesis by (auto simp: option_pieces_def option_storage_def getInt_def o engine_opts_get)
qed

lemma snd_returns: "returns P Q f \<Longrightarrow> P c \<Longrightarrow> \<exists>c'. map_option snd (f c) = Some c' \<and> Q c'"
  by (fastforce simp: returns_def)

lemma debug_core_returns: "returns (engine_ready env) (engine_ok env) (on_core (with_runner (\<lambda>r. Some (setDebugMode b r))))"
  by (rule on_core_returns) (use core_runner [of env _ _ "\<lambda>r. Some (setDebugMode b r)"] in fastforce)

interpretation eng: returning_engine "ee_zobrist env" "engine_client env" "engine_ready env" "engine_ok env" for env
proof
  show "engine_ready env c \<Longrightarrow> zobrist_ok (ee_zobrist env)" for c by (auto simp: engine_ready_def engine_ok_def core_ok_def env_ok_def)
  show "engine_ready env c \<Longrightarrow> engine_ok env c" for c by (simp add: engine_ready_def)
  show "engine_ready env c \<Longrightarrow> (\<exists>c'. cl_enterDebugMode (engine_client env) c = Some c' \<and> engine_ok env c') \<and>
      (\<exists>c'. cl_leaveDebugMode (engine_client env) c = Some c' \<and> engine_ok env c')" for c
    using snd_returns [OF debug_core_returns] by (simp add: engine_client_def)
  show "returns (engine_ready env) (engine_ok env) (cl_newGame (engine_client env))"
    unfolding engine_client_def client.simps config_runner
    by (rule on_core_returns) (use engine_config [of env _ _ NewGame] in fastforce)
  show "returns (engine_ready env) (engine_ok env) (cl_setPosition (engine_client env) b ms)"
    if "playable (ee_zobrist env) b" "legal_line (ee_zobrist env) b ms" for b ms
    unfolding engine_client_def client.simps
    by (rule on_core_returns) (use that legal_line_playable in \<open>auto simp: core_ok_def env_ok_def position_from_def\<close>)
  show "returns (engine_ready env) (engine_ok env) (start_request (engine_client env) r)" if "request_ok r" for r
    unfolding start_request_engine by (rule search_returns [OF that])
  show "returns (engine_ready env) (engine_ok env) (cl_stopSearch (engine_client env))"
    unfolding engine_client_def client.simps
    by (rule on_core_returns) (use core_runner [of env _ _ "\<lambda>r. Some (runner_stop r)"] in fastforce)
  show "returns (engine_ready env) (engine_ok env) (op_setBool (cl_options (engine_client env)) key bv)"
    "returns (engine_ready env) (engine_ok env) (op_setInt (cl_options (engine_client env)) key iv)"
    "returns (engine_ready env) (engine_ok env) (op_setString (cl_options (engine_client env)) key sv)"
    "returns (engine_ready env) (engine_ok env) (op_setEnum_item (cl_options (engine_client env)) key sv)"
    "returns (engine_ready env) (engine_ok env) (op_triggerAction (cl_options (engine_client env)) key)" for key bv iv sv
    by (simp_all add: engine_client_def option_storage_def unset_returns setInt_returns action_returns)
  show "engine_ready env c \<Longrightarrow> k \<in> set (op_list (cl_options (engine_client env)) c) \<Longrightarrow>
      \<exists>ps. option_pieces (cl_options (engine_client env)) c k = Some ps" for c k
    using listed_options by (simp add: engine_client_def option_storage_def)
qed

section \<open>A new engine\<close>

lemma makeOptions_eq: "makeOptions = Some (engine_opts 1 32)"
proof -
  have v: "isOptionNameValid ''Hash''" "isOptionNameValid ''Threads''" "isOptionNameValid ''Clear hash''" by code_simp+
  have d: "DEFAULT_SIZE div 2 ^ 20 = 32" by (simp add: DEFAULT_SIZE_def)
  show ?thesis unfolding makeOptions_def d by (simp add: addInt_def addAction_def addT_def v DEFAULT_NUM_JOBS_def engine_opts_def)
qed

lemma new_runner_ok:
  assumes "env_ok env"
  shows "\<exists>r. new_runner (ee_mem env) = Some r \<and> sane r \<and> jr_numJobs r = 1 \<and> jr_canApplyConfig r \<and> applied r"
proof -
  let ?t = "\<lparr>tt_size = 2 ^ 21, tt_table = take (2 ^ 21) (ee_mem env), tt_epoch = 0\<rparr>"
  have "tt_ok ?t" using assms unfolding tt_ok_def env_ok_def by (intro conjI exI [of _ 21]) auto
  from clear_wf [OF _ this, of 1] obtain t where t: "tt_clear ?t 1 = Some t" "tt_wf t" "tt_size t = 2 ^ 21" by auto
  have "newTranspositionTable (ee_mem env) = Some t"
    using t(1) by (simp add: newTranspositionTable_def DEFAULT_SIZE_def ENTRY_BYTES_def)
  then show ?thesis using t
    by (simp add: new_runner_def sane_def applied_def sizeBytes_def ENTRY_BYTES_def DEFAULT_SIZE_def DEFAULT_NUM_JOBS_def)
qed

lemma new_engine_connects:
  assumes "env_ok env"
  shows "\<exists>c c'. new_engine env = Some c \<and> cl_connect (engine_client env) c = Some (Api_Ok, c') \<and> engine_ok env c'"
proof -
  let ?p = "position_from (ee_zobrist env) (initialPosition (ee_zobrist env) (ee_board env)) []"
  let ?e = "\<lparr>en_runner = None, en_position = ?p, en_thread = NoThread, en_server = False\<rparr>"
  obtain r where r: "new_runner (ee_mem env) = Some r" "sane r" "jr_numJobs r = 1" "jr_canApplyConfig r" "applied r"
    using new_runner_ok [OF assms] by blast
  have "playable (ee_zobrist env) (pos_last ?p)" using initial_playable by (simp add: position_from_def initialPosition_def)
  then have "engine_ok env (engine_opts 1 32, ?e\<lparr>en_server := True, en_runner := Some r\<rparr>)"
    using r assms unfolding engine_ok_def by (intro exI [of _ 1] exI [of _ 32]) (simp add: core_ok_def)
  then show ?thesis using r(1) by (simp add: new_engine_def makeOptions_eq engine_client_def on_core_def engine_connect_def)
qed

end
