(* ===== verification/Uci_Properties.thy ===== *)
theory Uci_Properties
  imports Engine_Laws
begin

text \<open>The properties of the interface: options, commands, the protocol of searches, and the engine behind it.\<close>

section \<open>Concrete states\<close>



text \<open>An engine without an observer, whose state is the values of its options; it accepts everything.\<close>

definition sample_options :: opt_values where
  "sample_options = [(''Skill value'', EnumOption \<lparr>eo_items = [''low'', ''high val''], eo_index = 0\<rparr>),
     (''Hash'', IntOption \<lparr>io_min = 1, io_value = 32, io_max = 64\<rparr>)]"

definition sample_client :: "(opt_values \<times> nat) client" where
  "sample_client = \<lparr>cl_name = \<lambda>_. ''sample'', cl_author = \<lambda>_. ''nobody'', cl_options = option_storage None,
     cl_enterDebugMode = Some, cl_leaveDebugMode = Some, cl_newGame = \<lambda>c. Some (Api_Ok, c),
     cl_setPosition = \<lambda>b ms c. Some (Api_Ok, (fst c, length ms)), cl_searchInfinite = \<lambda>c. Some (Api_Ok, c),
     cl_searchFixedDepth = \<lambda>d c. Some (NotSupported, c), cl_searchFixedNodes = \<lambda>n c. Some (NotSupported, c),
     cl_searchFixedTime = \<lambda>t c. Some (NotSupported, c), cl_searchTimeControl = \<lambda>tc c. Some (Api_Ok, c),
     cl_stopSearch = \<lambda>c. Some (Api_Ok, c), cl_reportError = \<lambda>m c. Some (Api_Ok, c), cl_connect = \<lambda>c. Some (Api_Ok, c),
     cl_disconnect = Some\<rparr>"

definition sample_uci :: "string \<Rightarrow> (opt_values \<times> nat) uci" where
  "sample_uci inp = (UciServerConnector inp False \<lparr>os_pieces = [], os_room = None\<rparr> (sample_options, 0))\<lparr>uc_connected := True\<rparr>"

section \<open>Options\<close>

text \<open>C20: a call that sets an option keeps the storage well-formed (numbers within their bounds, enumerations at an item)
  and the shape of every option; if it succeeds exactly that option has the value, else no option has changed.\<close>

theorem option_setters_contract:
  "(setBool obs key b (vals, s) = Some (res, (vals', s')) \<longrightarrow> set_contract key vals res vals' (BoolOption b)) \<and>
   (setString obs key str (vals, s) = Some (res, (vals', s')) \<longrightarrow> set_contract key vals res vals' (StringOption str)) \<and>
   (setInt obs key i (vals, s) = Some (res, (vals', s')) \<longrightarrow>
      set_contract key vals res vals' (IntOption (the (getInt vals key)\<lparr>io_value := i\<rparr>))) \<and>
   (setEnum obs key n (vals, s) = Some (res, (vals', s')) \<longrightarrow>
      set_contract key vals res vals' (EnumOption (the (getEnum vals key)\<lparr>eo_index := n\<rparr>)))"
  by (intro conjI impI; erule setBool_contract setString_contract setInt_contract setEnum_contract)

lemma sample_options_ok: "opts_ok sample_options"
proof -
  have "isOptionNameValid ''Skill value''" "isOptionNameValid ''Hash''" "isOptionNameValid ''low''" "isOptionNameValid ''high val''"
    by code_simp+
  then show ?thesis by (simp add: opts_ok_def sample_options_def)
qed

theorem option_setters_witness:
  "\<exists>vals'. setInt None ''Hash'' 64 (sample_options, ()) = Some (Api_Ok, (vals', ())) \<and> opts_ok vals' \<and>
     setInt None ''Hash'' 65 (sample_options, ()) = Some (InvalidArgument, (sample_options, ()))"
proof -
  have s: "setInt None ''Hash'' 64 (sample_options, ()) = Some (Api_Ok, ([(''Skill value'', EnumOption \<lparr>eo_items = [''low'', ''high val''], eo_index = 0\<rparr>),
     (''Hash'', IntOption \<lparr>io_min = 1, io_value = 64, io_max = 64\<rparr>)], ()))"
    by (simp add: setInt_def setT_def getT_def sample_options_def)
  have "setInt None ''Hash'' 65 (sample_options, ()) = Some (InvalidArgument, (sample_options, ()))"
    by (simp add: setInt_def setT_def getT_def sample_options_def)
  then show ?thesis
    using s option_setters_contract [of None "''Hash''" False sample_options "()" Api_Ok _ "()" "[]" 64 0] sample_options_ok
    by (auto simp: set_contract_def)
qed

text \<open>C14: an option announced by its escaped name is reached by that name: the line that sets it, with a decimal number, a
  boolean, an announced item or a text, is exactly that call of the engine, also when the words of the protocol occur in the name.\<close>

theorem setoption_reaches_option:
  assumes "isOptionNameValid name"
  shows "(op_type (cl_options cl) (uc_client u) name = Type_Int \<longrightarrow> - (2 ^ 63) \<le> i \<and> i < 2 ^ 63 \<longrightarrow>
      processUciCommand z b0 cl now (''setoption name '' @ uciOptionNameEscape name @ '' value '' @ int_chars i) u =
        call_client (op_setInt (cl_options cl) name i) u) \<and>
    (op_type (cl_options cl) (uc_client u) name = Type_Bool \<longrightarrow>
      processUciCommand z b0 cl now (''setoption name '' @ uciOptionNameEscape name @ '' value '' @ (if b then ''true'' else ''false'')) u =
        call_client (op_setBool (cl_options cl) name b) u) \<and>
    (op_type (cl_options cl) (uc_client u) name = Type_Enum \<longrightarrow> isOptionNameValid item \<longrightarrow>
      processUciCommand z b0 cl now (''setoption name '' @ uciOptionNameEscape name @ '' value '' @ uciEnumNameEscape item) u =
        call_client (op_setEnum_item (cl_options cl) name item) u) \<and>
    (op_type (cl_options cl) (uc_client u) name = Type_String \<longrightarrow> trim str = str \<and> CHR 0x0A \<notin> set str \<and> str \<noteq> ''<empty>'' \<longrightarrow>
      processUciCommand z b0 cl now (''setoption name '' @ uciOptionNameEscape name @ '' value '' @ str) u =
        call_client (op_setString (cl_options cl) name str) u) \<and>
    (op_type (cl_options cl) (uc_client u) name = Type_Action \<longrightarrow>
      processUciCommand z b0 cl now (''setoption name '' @ uciOptionNameEscape name) u =
        call_client (op_triggerAction (cl_options cl) name) u)"
proof -
  have line: "processUciCommand z b0 cl now (''setoption name '' @ uciOptionNameEscape name @ '' value '' @ v) u =
      processUciSetOption cl ('' name '' @ uciOptionNameEscape name @ '' value'' @ CHR '' '' # v) u" for v
    using setoption_command [of z b0 cl now "''name '' @ uciOptionNameEscape name @ '' value '' @ v" u] by simp
  have action: "processUciCommand z b0 cl now (''setoption name '' @ uciOptionNameEscape name) u =
      processUciSetOption cl ('' name '' @ uciOptionNameEscape name) u"
    using setoption_command [of z b0 cl now "''name '' @ uciOptionNameEscape name" u] by simp
  have name: "read_option_name ('' name '' @ uciOptionNameEscape name @ '' value'' @ CHR '' '' # v) = Some (name, CHR '' '' # v)" for v
    by (rule read_name(1) [OF assms]) simp
  have bools: "plain (if b then ''true'' else ''false'')" by (simp add: plain_def stream_space_def charVal_def Let_def)
  show ?thesis
    unfolding line action
    using value_word [OF plain_int_chars, of Type_Int i] value_word [OF bools, of Type_Bool] value_enum [of item] value_string [of str]
      valueFromStr_int_chars [of i] read_name(2) [OF assms]
    by (simp add: processUciSetOption_def name Let_def del: append.simps)
qed

theorem setoption_witness:
  "processUciCommand sample_zobrist blank_board sample_client 0 (''setoption name '' @ uciOptionNameEscape ''Hash'' @ '' value '' @ int_chars 64) (sample_uci []) =
     call_client (op_setInt (cl_options sample_client) ''Hash'' 64) (sample_uci []) \<and>
   processUciCommand sample_zobrist blank_board sample_client 0 (''setoption name '' @ uciOptionNameEscape ''Skill value'' @ '' value '' @ uciEnumNameEscape ''high val'') (sample_uci []) =
     call_client (op_setEnum_item (cl_options sample_client) ''Skill value'' ''high val'') (sample_uci [])"
proof -
  have v: "isOptionNameValid ''Skill value''" "isOptionNameValid ''Hash''" "isOptionNameValid ''high val''" by code_simp+
  have t: "op_type (cl_options sample_client) (uc_client (sample_uci [])) ''Hash'' = Type_Int"
    "op_type (cl_options sample_client) (uc_client (sample_uci [])) ''Skill value'' = Type_Enum"
    by (simp_all add: sample_client_def option_storage_def sample_uci_def UciServerConnector_def opts_type_def sample_options_def)
  have "- (2 ^ 63) \<le> (64 :: int)" "(64 :: int) < 2 ^ 63" by simp_all
  then show ?thesis
    using setoption_reaches_option [OF v(2), of sample_client "sample_uci []" 64 sample_zobrist blank_board 0 False "[]" "[]"]
      setoption_reaches_option [OF v(1), of sample_client "sample_uci []" 64 sample_zobrist blank_board 0 False "''high val''" "[]"] t v(3)
    by blast
qed

section \<open>Positions\<close>

text \<open>A position written in the notation, followed by legal moves, reaches the engine as that position with those moves.\<close>

theorem position_is_read_back:
  assumes "zobrist_ok z" "consistent z b" "valid_position b" "unused b = 0" "length (cells b0) = 64"
    and "legal_line z b ms" "list_all (\<lambda>m. tag m = 0) ms"
  shows "processUciPosition z b0 cl ('' fen '' @ asFen b @ (if ms = [] then [] else '' moves'' @ spaced (map moveToStr ms))) u =
    call_client (cl_setPosition cl b ms) u"
  by (rule position_written [OF assms])

lemma sample_valid_position: "valid_position sample_board"
proof -
  have at: "cellAt sample_board c = initial_cells ! nat c" for c by (simp add: cellAt_def sample_views)
  have "list_all (\<lambda>C. list_all (\<lambda>P. list_all (\<lambda>c. initial_cells ! nat c = makeCell C P \<longrightarrow>
      (if C = White then 48 \<le> c else c \<le> 15) \<and> (P = Pawn \<longrightarrow> coordX c \<noteq> 0 \<and> coordX c \<noteq> 7)) [0..63])
      [Pawn, King, Knight, Bishop, Rook, Queen]) [White, Black]" by code_simp
  then have L: "list_all (\<lambda>c. initial_cells ! nat c = makeCell C P \<longrightarrow>
      (if C = White then 48 \<le> c else c \<le> 15) \<and> (P = Pawn \<longrightarrow> coordX c \<noteq> 0 \<and> coordX c \<noteq> 7)) [0..63]" for C P
    by (cases C; cases P) (simp_all only: list.pred_inject(2))
  have n: "card (pieces_of sample_board C) \<le> 16" for C
  proof -
    have "pieces_of sample_board C \<subseteq> (if C = White then {48..63} else {0..15})"
      using list_all_coordD [OF L, of _ C] by (fastforce simp: pieces_of_def at isCoord_def split: if_splits)
    then have "card (pieces_of sample_board C) \<le> card (if C = White then {48..63 :: int} else {0..15})" by (intro card_mono) auto
    then show ?thesis by (simp split: if_splits)
  qed
  have p: "coordX c \<noteq> 0 \<and> coordX c \<noteq> 7" if "isCoord c" "cellAt sample_board c = makeCell C Pawn" for c C
    using list_all_coordD [OF L that(1), of C Pawn] that(2) by (simp only: at simp_thms)
  note s = playableD [OF sample_playable]
  have k: "\<forall>C. \<exists>k. one_king sample_board C k" using s(5) by blast
  show ?thesis
    unfolding valid_position_def using n p k wasMoveLegal_kings [OF s(3) k] s(6) by blast
qed

theorem position_read_back_witness:
  "processUciPosition sample_zobrist blank_board sample_client ('' fen '' @ asFen sample_board @ '' moves'' @ spaced [''e2e4'']) (sample_uci []) =
     call_client (cl_setPosition sample_client sample_board [mkMove PawnDoubleMove 52 36 0]) (sample_uci [])"
proof -
  let ?m = "mkMove PawnDoubleMove 52 36 0"
  have l: "legal_line sample_zobrist sample_board [?m]"
    using legal_iff_wasMoveLegal [OF sample_ok sample_king sample_pseudo] sample_double_legal
      valid_iff_pseudo_legal [OF sample_position(1), of ?m] sample_pseudo by simp
  have t: "list_all (\<lambda>m. tag m = 0) [?m]" by (simp add: mkMove_def)
  have s: "map moveToStr [?m] = [''e2e4'']" by code_simp
  show ?thesis
    using position_is_read_back [OF sample_ok sample_valid_position sample_unused blank_length l t, of sample_client "sample_uci []"]
    unfolding s by (simp del: spaced_simps append.simps)
qed

text \<open>C15: whatever follows the word \<open>position\<close>, either nothing happens or the engine gets a position of a game (consistent, one king a
  side, the side that moved not in check) with a line of moves each of which is legal where it is made.\<close>

theorem position_is_of_a_game:
  assumes "zobrist_ok z" "length (cells b0) = 64"
  shows "processUciPosition z b0 cl tokens u = Some (NoData, u) \<or>
    (\<exists>b ms. processUciPosition z b0 cl tokens u = call_client (cl_setPosition cl b ms) u \<and> playable z b \<and> legal_line z b ms \<and>
       (\<forall>n. playable z (fold (\<lambda>m b. fst (moveMake z b m)) (take n ms) b)))"
  using position_command [OF assms, of cl tokens u]
proof (elim disjE exE conjE)
  fix b ms assume h: "processUciPosition z b0 cl tokens u = call_client (cl_setPosition cl b ms) u" "playable z b" "legal_line z b ms"
  have "legal_line z b (take n ms)" for n using h(3) legal_line_append [of z b "take n ms" "drop n ms"] by simp
  then show ?thesis using h legal_line_playable [OF assms(1) h(2)] by blast
qed simp

theorem position_of_a_game_witness:
  "processUciPosition sample_zobrist blank_board sample_client ''fen 8/8 moves a1a2'' (sample_uci []) \<noteq> None"
proof -
  have "call_client (cl_setPosition sample_client b ms) (sample_uci []) \<noteq> None" for b ms
    by (simp add: call_client_def sample_client_def)
  then show ?thesis
    using position_is_of_a_game [OF sample_ok(1) blank_length, of sample_client "''fen 8/8 moves a1a2''" "sample_uci []"] by auto
qed

section \<open>Searches\<close>


text \<open>C16: in every run of the interface, however lines, calls of the engine and its own activity interleave, no more moves are
  reported than searches were asked for; as long as the output works there is one \<open>bestmove\<close> for every \<open>go\<close> that was read
  while no search ran, but for the search that still runs.\<close>

theorem one_bestmove_each:
  assumes "uci_run z b0 cl nps (UciServerConnector inp in_error \<lparr>os_pieces = [], os_room = left\<rparr> c\<lparr>uc_connected := True\<rparr>) n u"
  shows "bestmoves u + running u \<le> n \<and> (left = None \<longrightarrow> bestmoves u + running u = n)"
  using run_balanced [OF assms] by (simp add: balanced_def bestmoves_def running_def healthy_def UciServerConnector_def)

theorem one_bestmove_witness:
  "\<exists>u. uci_run sample_zobrist blank_board sample_client (\<lambda>_ _. None)
      (UciServerConnector (''go infinite'' @ [CHR 0x0A]) False \<lparr>os_pieces = [], os_room = None\<rparr> (sample_options, 0)\<lparr>uc_connected := True\<rparr>) 1 u \<and>
    bestmoves u = 1 \<and> running u = 0"
proof -
  let ?u0 = "UciServerConnector (''go infinite'' @ [CHR 0x0A]) False \<lparr>os_pieces = [], os_room = None\<rparr> (sample_options, 0 :: nat)\<lparr>uc_connected := True\<rparr>"
  let ?run = "uci_run sample_zobrist blank_board sample_client (\<lambda>_ _. None) ?u0"
  have c: "first_command ''go infinite'' = Some (''go'', '' infinite'')" by code_simp
  have g: "go_loop False new_time_control '' infinite'' = Infinite" by code_simp
  have a: "asks_search ?u0" by (simp add: asks_search_def next_command_def UciServerConnector_def c)
  obtain u1 where u1: "uci_poll sample_zobrist blank_board sample_client 0 ?u0 = Some (Poll_Ok, u1)" "uc_searchStarted u1" "uc_connected u1" "healthy u1"
    by (simp add: uci_poll_def UciServerConnector_def processUciCommand_dispatch c dispatch_def processUciGo_def g start_request_def sample_client_def
        doStartSearch_def healthy_def)
  have r1: "?run 1 u1" using uci_run.polls [OF uci_run.begins u1(1)] a by simp
  obtain u2 where u2: "uci_finishSearch move_null u1 = Some (Api_Ok, u2)" "\<not> uc_searchStarted u2"
    using u1(2-4) by (auto simp: uci_finishSearch_def during_search_def ensureClient_def print_def stream_put_def healthy_def)
  have r2: "?run 1 u2" by (rule uci_run.calls [OF r1, where c = "FinishSearch move_null" and now = 0]) (simp add: u2(1))
  have "running u2 = 0" using u2(2) by (simp add: running_def)
  moreover have "bestmoves u2 + running u2 = 1" using one_bestmove_each [OF r2] by blast
  ultimately show ?thesis using r2 by (intro exI [of _ u2]) simp
qed

section \<open>The engine\<close>







end
