(* ===== verification/Game_Set.thy ===== *)
theory Game_Set
  imports Uci_Game
begin

text \<open>
  The files of games of \<^verbatim>\<open>gameset\<close>: the commands a line can hold and how they are written
  (\<^verbatim>\<open>types.cpp\<close>), and the reader that turns the lines of a stream into games (\<^verbatim>\<open>reader.cpp\<close>). The stream is the
  text that is still to be read. A function of the reader gives \<open>None\<close> when it would ask for the
  lowest bit of zero, which \<^verbatim>\<open>getLowest\<close> leaves undefined: the king of a side that has none.
\<close>

section \<open>Commands and games\<close>

datatype Winner = Winner_Unknown | Winner_White | Winner_Black | Winner_Draw

definition winnerFromChar :: "char \<Rightarrow> Winner option" where
  "winnerFromChar ch =
     (if ch = CHR ''?'' then Some Winner_Unknown
      else if ch = CHR ''W'' then Some Winner_White
      else if ch = CHR ''B'' then Some Winner_Black
      else if ch = CHR ''D'' then Some Winner_Draw
      else None)"

fun winnerToChar :: "Winner \<Rightarrow> char" where
  "winnerToChar Winner_Unknown = CHR ''?''"
| "winnerToChar Winner_White = CHR ''W''"
| "winnerToChar Winner_Black = CHR ''B''"
| "winnerToChar Winner_Draw = CHR ''D''"

record GameCommand =
  gc_winner :: Winner
  gc_label :: "string option"

datatype AnyCommand = AnyGame GameCommand | AnyTitle string | AnyBoard board | AnyMoves "move list"

datatype InnerCommand = InnerBoard board | InnerMoves "move list"

datatype SplitCommand = SplitGame GameCommand | SplitMetadata string | SplitInner InnerCommand

fun commandSplit :: "AnyCommand \<Rightarrow> SplitCommand" where
  "commandSplit (AnyGame c) = SplitGame c"
| "commandSplit (AnyTitle t) = SplitMetadata t"
| "commandSplit (AnyBoard b) = SplitInner (InnerBoard b)"
| "commandSplit (AnyMoves ms) = SplitInner (InnerMoves ms)"

text \<open>The stream written to is the list of the characters added to it.\<close>

definition game_command_write :: "GameCommand \<Rightarrow> string" where
  "game_command_write c = ''game '' @ [winnerToChar (gc_winner c)] @ '' '' @
     (case gc_label c of None \<Rightarrow> ''-'' | Some l \<Rightarrow> l) @ endl"

definition title_command_write :: "string \<Rightarrow> string" where
  "title_command_write title = ''title '' @ title @ endl"

definition INITIAL_POSITION_FEN :: string where
  "INITIAL_POSITION_FEN = ''rnbqkbnr/pppppppp/8/8/8/8/PPPPPPPP/RNBQKBNR w KQkq - 0 1''"

definition board_command_write :: "board \<Rightarrow> string" where
  "board_command_write b =
     (let fen = asFen b in if fen = INITIAL_POSITION_FEN then ''start'' @ endl else ''board '' @ fen @ endl)"

definition moves_command_write :: "move list \<Rightarrow> string" where
  "moves_command_write moves = foldl (\<lambda>out m. out @ '' '' @ moveToStr m) ''moves'' moves @ endl"

fun commandWrite_any :: "AnyCommand \<Rightarrow> string" where
  "commandWrite_any (AnyGame c) = game_command_write c"
| "commandWrite_any (AnyTitle t) = title_command_write t"
| "commandWrite_any (AnyBoard b) = board_command_write b"
| "commandWrite_any (AnyMoves ms) = moves_command_write ms"

fun commandWrite :: "InnerCommand \<Rightarrow> string" where
  "commandWrite (InnerBoard b) = board_command_write b"
| "commandWrite (InnerMoves ms) = moves_command_write ms"

record Game =
  gm_header :: GameCommand
  gm_title :: "string option"
  gm_commands :: "InnerCommand list"

definition new_game :: "GameCommand \<Rightarrow> Game" where
  "new_game header = \<lparr>gm_header = header, gm_title = None, gm_commands = []\<rparr>"

fun is_board_command :: "InnerCommand \<Rightarrow> bool" where
  "is_board_command (InnerBoard _) = True"
| "is_board_command (InnerMoves _) = False"

definition isCanonical :: "Game \<Rightarrow> bool" where
  "isCanonical g =
     (if gm_commands g = [] then False
      else foldl (\<lambda>boardCount c. if is_board_command c then boardCount + 1 else boardCount) (0 :: nat) (gm_commands g) = 1)"

definition game_apply :: "string \<Rightarrow> Game \<Rightarrow> Game" where
  "game_apply title g = g\<lparr>gm_title := Some title\<rparr>"

definition game_push :: "InnerCommand \<Rightarrow> Game \<Rightarrow> Game" where
  "game_push c g = g\<lparr>gm_commands := gm_commands g @ [c]\<rparr>"

definition game_write :: "Game \<Rightarrow> string" where
  "game_write g = game_command_write (gm_header g) @
     (case gm_title g of None \<Rightarrow> [] | Some t \<Rightarrow> title_command_write t) @
     concat (map commandWrite (gm_commands g)) @ endl"

section \<open>The reader\<close>

definition Options_None :: "32 word" where "Options_None = 0"
definition CaptureBoards :: "32 word" where "CaptureBoards = 1"

datatype ReadStatus = EndOfStream | ReadError

record read_error =
  re_status :: ReadStatus
  re_line :: nat
  re_message :: string

definition endOfStream :: read_error where
  "endOfStream = \<lparr>re_status = EndOfStream, re_line = 0, re_message = []\<rparr>"

text \<open>\<open>gr_fresh\<close> is the content of an uninitialised board, \<open>gr_zobrist\<close> the tables of the hash keys.\<close>

record GameReader =
  gr_in :: string
  gr_options :: "32 word"
  gr_line :: nat
  gr_lastCommand :: "read_error + AnyCommand"
  gr_lastBoard :: "board option"
  gr_capturedBoards :: "board list"
  gr_zobrist :: zobrist
  gr_fresh :: board

definition read_failure :: "GameReader \<Rightarrow> string \<Rightarrow> read_error" where
  "read_failure r message = \<lparr>re_status = ReadError, re_line = gr_line r, re_message = message\<rparr>"

definition canCaptureBoards :: "GameReader \<Rightarrow> bool" where
  "canCaptureBoards r \<longleftrightarrow> gr_options r AND CaptureBoards \<noteq> Options_None"

definition capturedBoards :: "GameReader \<Rightarrow> board list option" where
  "capturedBoards r = (if canCaptureBoards r then Some (gr_capturedBoards r) else None)"

definition capture :: "board \<Rightarrow> GameReader \<Rightarrow> GameReader" where
  "capture b r = (if canCaptureBoards r then r\<lparr>gr_capturedBoards := gr_capturedBoards r @ [b]\<rparr> else r)"

text \<open>\<^verbatim>\<open>std::getline\<close> takes the last line whether or not a newline ends it, and fails on an empty rest.\<close>

definition readLine :: "GameReader \<Rightarrow> string option \<times> GameReader" where
  "readLine r =
     (if gr_in r = [] then (None, r)
      else (Some (takeWhile (\<lambda>c. c \<noteq> CHR 0x0A) (gr_in r)),
            r\<lparr>gr_in := drop 1 (dropWhile (\<lambda>c. c \<noteq> CHR 0x0A) (gr_in r)), gr_line := gr_line r + 1\<rparr>))"

type_synonym read_step = "(read_error + AnyCommand) option \<times> GameReader"

definition read_fail :: "GameReader \<Rightarrow> string \<Rightarrow> read_step" where
  "read_fail r message = (Some (Inl (read_failure r message)), r)"

definition read_game :: "string \<Rightarrow> GameReader \<Rightarrow> read_step" where
  "read_game winnerBegin r =
     (let winnerEnd = scanTokenEnd winnerBegin;
          labelBegin = scanTokenStart winnerEnd;
          labelEnd = scanTokenEnd labelBegin
      in if length winnerBegin \<noteq> length winnerEnd + 1 then read_fail r ''Winner must be a single character''
         else if labelBegin = labelEnd then read_fail r ''Label must be non-empty''
         else (case winnerFromChar (hd winnerBegin) of
             None \<Rightarrow> read_fail r ''Invalid winner character''
           | Some w \<Rightarrow>
               let label = token labelBegin labelEnd
               in (Some (Inr (AnyGame \<lparr>gc_winner = w, gc_label = (if label = ''-'' then None else Some label)\<rparr>)),
                   r\<lparr>gr_lastBoard := None\<rparr>)))"

definition read_position :: "board \<Rightarrow> GameReader \<Rightarrow> read_step" where
  "read_position b r = (Some (Inr (AnyBoard b)), capture b (r\<lparr>gr_lastBoard := Some b\<rparr>))"

definition read_board :: "string \<Rightarrow> GameReader \<Rightarrow> read_step option" where
  "read_board fen r = map_option (\<lambda>result. case result of
       Inl e \<Rightarrow> read_fail r (''Error parsing FEN: '' @ fenParseResultToStr e)
     | Inr b \<Rightarrow> read_position b r) (fromFen (gr_zobrist r) (gr_fresh r) fen)"

definition no_king :: "board \<Rightarrow> bool" where
  "no_king b \<longleftrightarrow> pieceBB b (makeCell (side b) King) = 0"

fun read_moves :: "board \<Rightarrow> string list \<Rightarrow> move list \<Rightarrow> GameReader \<Rightarrow> read_step option" where
  "read_moves b [] moves r = Some (Some (Inr (AnyMoves moves)), r\<lparr>gr_lastBoard := Some b\<rparr>)"
| "read_moves b (srcMove # rest) moves r =
     (let m = moveParse srcMove b; r' = r\<lparr>gr_lastBoard := Some b\<rparr>;
          illegal = Some (read_fail r' (''Move #'' @ to_chars (length moves + 1) @ '' is illegal''))
      in if \<not> isWellFormed m (side b) \<or> \<not> isMoveValid b m then illegal
         else if no_king b then None
         else if \<not> isMoveLegal b m then illegal
         else let b' = fst (moveMake (gr_zobrist r) b m)
              in read_moves b' rest (moves @ [m]) (capture b' r'))"

definition read_command_line :: "string \<Rightarrow> GameReader \<Rightarrow> read_step option" where
  "read_command_line line r =
     (let nameBegin = c_str line;
          nameEnd = scanTokenEnd nameBegin;
          name = token nameBegin nameEnd;
          bodyBegin = scanTokenStart nameEnd;
          body = drop (length nameBegin - length bodyBegin) line
      in if name = ''game'' then Some (read_game bodyBegin r)
         else if name = ''title'' then Some (Some (Inr (AnyTitle body)), r)
         else if name = ''start'' then Some (read_position (initialPosition (gr_zobrist r) (gr_fresh r)) r)
         else if name = ''board'' then read_board bodyBegin r
         else if name = ''moves''
         then (case gr_lastBoard r of
             None \<Rightarrow> Some (read_fail r ''No preceding boards found'')
           | Some b \<Rightarrow>
               if body = [] then Some (read_fail r ''No moves specified'')
               else read_moves b (split bodyBegin) [] r)
         else Some (None, r))"

definition tryReadCommand :: "GameReader \<Rightarrow> read_step option" where
  "tryReadCommand r = (case readLine r of
     (None, r') \<Rightarrow> Some (Some (Inl endOfStream), r')
   | (Some maybeLine, r') \<Rightarrow>
       let line = trim maybeLine
       in if line = [] \<or> hd line = CHR ''#'' then Some (None, r') else read_command_line line r')"

text \<open>Each line that is read shortens the stream.\<close>

lemma capture_stream: "gr_in (capture b r) = gr_in r"
  by (simp add: capture_def)

lemma read_moves_stream: "read_moves b ts ms r = Some (c, r') \<Longrightarrow> gr_in r' = gr_in r"
  by (induction b ts ms r rule: read_moves.induct) (auto simp: Let_def read_fail_def capture_stream split: if_splits)

lemma read_fail_stream: "gr_in (snd (read_fail r msg)) = gr_in r"
  by (simp add: read_fail_def)

lemma read_game_stream: "gr_in (snd (read_game s r)) = gr_in r"
  by (auto simp: read_game_def Let_def read_fail_stream split: option.split)

lemma read_position_stream: "gr_in (snd (read_position b r)) = gr_in r"
  by (simp add: read_position_def capture_stream)

lemma read_board_stream: "read_board fen r = Some x \<Longrightarrow> gr_in (snd x) = gr_in r"
  unfolding read_board_def by (elim map_option_eq_Some [THEN iffD1, elim_format] exE conjE)
    (auto simp: read_fail_stream read_position_stream split: sum.splits)

lemmas read_streams = read_fail_stream read_game_stream read_position_stream

lemma read_command_line_stream:
  assumes "read_command_line line r = Some x"
  shows "gr_in (snd x) = gr_in r"
proof -
  have m: "gr_in (snd x) = gr_in r" if "read_moves b ts ms r = Some x" for b ts ms
    using read_moves_stream [of b ts ms r "fst x" "snd x"] that by simp
  let ?n = "token (c_str line) (scanTokenEnd (c_str line))"
  consider "?n = ''game''" | "?n = ''title''" | "?n = ''start''" | "?n = ''board''" | "?n = ''moves''"
    | "?n \<noteq> ''game''" "?n \<noteq> ''title''" "?n \<noteq> ''start''" "?n \<noteq> ''board''" "?n \<noteq> ''moves''" by blast
  then show ?thesis
  proof cases
    case 5
    then show ?thesis using assms by (auto simp: read_command_line_def Let_def read_streams split: option.splits if_splits dest: m)
  qed (use assms in \<open>auto simp: read_command_line_def Let_def read_streams dest: read_board_stream\<close>)
qed

lemma tryReadCommand_stream:
  assumes "tryReadCommand r = Some (c, r')"
  shows "gr_in r = [] \<Longrightarrow> c = Some (Inl endOfStream) \<and> r' = r" "gr_in r \<noteq> [] \<Longrightarrow> length (gr_in r') < length (gr_in r)"
proof -
  show "gr_in r = [] \<Longrightarrow> c = Some (Inl endOfStream) \<and> r' = r" using assms by (simp add: tryReadCommand_def readLine_def)
  assume n: "gr_in r \<noteq> []"
  let ?d = "dropWhile (\<lambda>c. c \<noteq> CHR 0x0A) (gr_in r)"
  have "length ?d \<le> length (gr_in r)" by (rule length_dropWhile_le)
  moreover have "0 < length (gr_in r)" using n by simp
  ultimately have l: "length (drop 1 ?d) < length (gr_in r)" unfolding length_drop by linarith
  have "gr_in r' = drop 1 ?d"
  proof (cases "trim (takeWhile (\<lambda>c. c \<noteq> CHR 0x0A) (gr_in r)) = [] \<or> hd (trim (takeWhile (\<lambda>c. c \<noteq> CHR 0x0A) (gr_in r))) = CHR ''#''")
    case True
    then show ?thesis using assms n by (auto simp: tryReadCommand_def readLine_def Let_def)
  next
    case False
    then have "read_command_line (trim (takeWhile (\<lambda>c. c \<noteq> CHR 0x0A) (gr_in r)))
        (r\<lparr>gr_in := drop 1 ?d, gr_line := gr_line r + 1\<rparr>) = Some (c, r')"
      using assms n by (simp add: tryReadCommand_def readLine_def Let_def)
    then show ?thesis by (auto dest: read_command_line_stream)
  qed
  then show "length (gr_in r') < length (gr_in r)" using l by simp
qed

function readCommand :: "GameReader \<Rightarrow> ((read_error + AnyCommand) \<times> GameReader) option" where
  "readCommand r = (case tryReadCommand r of
     None \<Rightarrow> None
   | Some (None, r') \<Rightarrow> readCommand r'
   | Some (Some result, r') \<Rightarrow> Some (result, r'))"
  by auto
termination
  by (relation "measure (\<lambda>r. length (gr_in r))") (auto dest: tryReadCommand_stream)

declare readCommand.simps [simp del]

definition game_reader :: "string \<Rightarrow> 32 word \<Rightarrow> zobrist \<Rightarrow> board \<Rightarrow> GameReader option" where
  "game_reader inp options z b0 = map_option (\<lambda>(result, r). r\<lparr>gr_lastCommand := result\<rparr>)
     (readCommand \<lparr>gr_in = inp, gr_options = options, gr_line = 0, gr_lastCommand = Inl endOfStream, gr_lastBoard = None,
        gr_capturedBoards = [], gr_zobrist = z, gr_fresh = b0\<rparr>)"

lemma readCommand_stream:
  "readCommand r = Some (c, r') \<Longrightarrow> c = Inl endOfStream \<and> gr_in r' = [] \<or> length (gr_in r') < length (gr_in r)"
proof (induction r rule: readCommand.induct)
  case (1 r)
  obtain t r1 where t: "tryReadCommand r = Some (t, r1)" using 1(2) by (subst (asm) readCommand.simps) (auto split: option.splits)
  show ?case
  proof (cases t)
    case None
    have "readCommand r1 = Some (c, r')" using 1(2) t None by (subst (asm) readCommand.simps) simp
    then show ?thesis using 1(1) [of "(None, r1)" None r1] t None tryReadCommand_stream [OF t] by fastforce
  next
    case (Some x)
    have "c = x" "r' = r1" using 1(2) t Some by (subst (asm) readCommand.simps, simp)+
    then show ?thesis using t Some tryReadCommand_stream [OF t] by (cases "gr_in r = []") auto
  qed
qed

function game_loop :: "Game \<Rightarrow> GameReader \<Rightarrow> ((read_error + Game) \<times> GameReader) option" where
  "game_loop game r = (case readCommand r of
     None \<Rightarrow> None
   | Some (Inl e, r') \<Rightarrow>
       let r'' = r'\<lparr>gr_lastCommand := Inl e\<rparr>
       in if re_status e = EndOfStream then Some (Inr game, r'') else Some (Inl e, r'')
   | Some (Inr command, r') \<Rightarrow>
       (case commandSplit command of
          SplitGame c \<Rightarrow> Some (Inr game, r'\<lparr>gr_lastCommand := Inr (AnyGame c)\<rparr>)
        | SplitMetadata title \<Rightarrow> game_loop (game_apply title game) r'
        | SplitInner c \<Rightarrow> game_loop (game_push c game) r'))"
  by pat_completeness auto
termination
  by (relation "measure (\<lambda>(_, r). length (gr_in r))") (auto dest: readCommand_stream)

declare game_loop.simps [simp del]

definition nextGame :: "GameReader \<Rightarrow> ((read_error + Game) \<times> GameReader) option" where
  "nextGame r = (case gr_lastCommand r of
     Inl e \<Rightarrow> Some (Inl e, r)
   | Inr (AnyGame gameCommand) \<Rightarrow> game_loop (new_game gameCommand) (r\<lparr>gr_capturedBoards := []\<rparr>)
   | Inr _ \<Rightarrow> Some (Inl (read_failure r ''First command must be \"game\"''), r))"

definition lineCount :: "GameReader \<Rightarrow> nat" where
  "lineCount r = gr_line r"

end
