(* ===== verification/Game_Set_Laws.thy ===== *)
theory Game_Set_Laws
  imports Game_Set
begin

text \<open>
  What the reader of game files promises: the commands of a game it returns form lines of legal moves from
  consistent boards, and the boards it captured are the positions of those lines in order.
\<close>

section \<open>The positions of a game\<close>

fun line_boards :: "zobrist \<Rightarrow> board \<Rightarrow> move list \<Rightarrow> board list" where
  "line_boards z b [] = []"
| "line_boards z b (m # ms) = (let b' = fst (moveMake z b m) in b' # line_boards z b' ms)"

definition line_end :: "zobrist \<Rightarrow> board \<Rightarrow> move list \<Rightarrow> board" where
  "line_end z b ms = fold (\<lambda>m b. fst (moveMake z b m)) ms b"

fun after_command :: "zobrist \<Rightarrow> board option \<Rightarrow> InnerCommand \<Rightarrow> board option" where
  "after_command z lb (InnerBoard b) = Some b"
| "after_command z lb (InnerMoves ms) = map_option (\<lambda>b. line_end z b ms) lb"

fun command_boards :: "zobrist \<Rightarrow> board option \<Rightarrow> InnerCommand \<Rightarrow> board list" where
  "command_boards z lb (InnerBoard b) = [b]"
| "command_boards z lb (InnerMoves ms) = (case lb of None \<Rightarrow> [] | Some b \<Rightarrow> line_boards z b ms)"

fun command_legal :: "zobrist \<Rightarrow> board option \<Rightarrow> InnerCommand \<Rightarrow> bool" where
  "command_legal z lb (InnerBoard b) = consistent z b"
| "command_legal z lb (InnerMoves ms) = (case lb of None \<Rightarrow> False | Some b \<Rightarrow> legal_line z b ms)"

fun game_boards :: "zobrist \<Rightarrow> board option \<Rightarrow> InnerCommand list \<Rightarrow> board list" where
  "game_boards z lb [] = []"
| "game_boards z lb (c # cs) = command_boards z lb c @ game_boards z (after_command z lb c) cs"

fun game_legal :: "zobrist \<Rightarrow> board option \<Rightarrow> InnerCommand list \<Rightarrow> bool" where
  "game_legal z lb [] = True"
| "game_legal z lb (c # cs) \<longleftrightarrow> command_legal z lb c \<and> game_legal z (after_command z lb c) cs"

section \<open>What a command read does to the reader\<close>

definition captured :: "GameReader \<Rightarrow> board list \<Rightarrow> board list" where
  "captured r bs = (if canCaptureBoards r then gr_capturedBoards r @ bs else gr_capturedBoards r)"

lemma captured_Nil [simp]: "captured r [] = gr_capturedBoards r"
  by (simp add: captured_def)

text \<open>What the functions that read never change.\<close>

definition same_setting :: "GameReader \<Rightarrow> GameReader \<Rightarrow> bool" where
  "same_setting r r' \<longleftrightarrow> gr_options r' = gr_options r \<and> gr_zobrist r' = gr_zobrist r \<and> gr_fresh r' = gr_fresh r"

lemma same_setting_refl [simp]: "same_setting r r"
  by (simp add: same_setting_def)

lemma same_setting_trans: "same_setting r r1 \<Longrightarrow> same_setting r1 r2 \<Longrightarrow> same_setting r r2"
  by (simp add: same_setting_def)

lemma same_setting_captures: "same_setting r r' \<Longrightarrow> canCaptureBoards r' = canCaptureBoards r"
  by (simp add: same_setting_def canCaptureBoards_def)

lemma capture_views [simp]:
  "gr_lastBoard (capture b r) = gr_lastBoard r" "gr_lastCommand (capture b r) = gr_lastCommand r"
  "gr_options (capture b r) = gr_options r" "gr_zobrist (capture b r) = gr_zobrist r" "gr_fresh (capture b r) = gr_fresh r"
  "canCaptureBoards (capture b r) = canCaptureBoards r" "gr_capturedBoards (capture b r) = captured r [b]"
  by (simp_all add: capture_def canCaptureBoards_def captured_def)

lemma canCapture_update [simp]:
  "canCaptureBoards (r\<lparr>gr_lastBoard := x\<rparr>) = canCaptureBoards r" "canCaptureBoards (r\<lparr>gr_lastCommand := y\<rparr>) = canCaptureBoards r"
  "canCaptureBoards (r\<lparr>gr_in := s, gr_line := n\<rparr>) = canCaptureBoards r" "canCaptureBoards (r\<lparr>gr_capturedBoards := bs\<rparr>) = canCaptureBoards r"
  by (simp_all add: canCaptureBoards_def)

text \<open>The effect of a command on the board and on the boards captured.\<close>

fun command_effect :: "AnyCommand \<Rightarrow> GameReader \<Rightarrow> GameReader \<Rightarrow> bool" where
  "command_effect (AnyGame c) r r' \<longleftrightarrow> gr_lastBoard r' = None \<and> gr_capturedBoards r' = gr_capturedBoards r"
| "command_effect (AnyTitle t) r r' \<longleftrightarrow> gr_lastBoard r' = gr_lastBoard r \<and> gr_capturedBoards r' = gr_capturedBoards r"
| "command_effect (AnyBoard b) r r' \<longleftrightarrow> consistent (gr_zobrist r) b \<and> gr_lastBoard r' = Some b \<and> gr_capturedBoards r' = captured r [b]"
| "command_effect (AnyMoves ms) r r' \<longleftrightarrow> (\<exists>b. gr_lastBoard r = Some b \<and> legal_line (gr_zobrist r) b ms \<and>
     gr_lastBoard r' = Some (line_end (gr_zobrist r) b ms) \<and> gr_capturedBoards r' = captured r (line_boards (gr_zobrist r) b ms))"

lemma read_moves_effect:
  "read_moves b ts ms r = Some (x, r') \<Longrightarrow> same_setting r r' \<and> (\<exists>e. x = Some (Inl e) \<and> re_status e = ReadError) \<or> same_setting r r' \<and>
    (\<exists>ns. x = Some (Inr (AnyMoves (ms @ ns))) \<and> legal_line (gr_zobrist r) b ns \<and>
     gr_lastBoard r' = Some (line_end (gr_zobrist r) b ns) \<and> gr_capturedBoards r' = captured r (line_boards (gr_zobrist r) b ns))"
proof (induction b ts ms r rule: read_moves.induct)
  case (1 b ms r)
  then show ?case by (auto simp: same_setting_def line_end_def intro!: exI [of _ "[]"])
next
  case (2 b t ts ms r)
  let ?m = "moveParse t b"
  let ?b' = "fst (moveMake (gr_zobrist r) b ?m)" and ?r1 = "r\<lparr>gr_lastBoard := Some b\<rparr>"
  show ?case
  proof (cases "isWellFormed ?m (side b) \<and> isMoveValid b ?m \<and> \<not> no_king b \<and> isMoveLegal b ?m")
    case True
    then have n: "read_moves ?b' ts (ms @ [?m]) (capture ?b' ?r1) = Some (x, r')" using 2(2) by (simp add: Let_def)
    have s: "same_setting r (capture ?b' ?r1)" "gr_zobrist (capture ?b' ?r1) = gr_zobrist r" by (simp_all add: same_setting_def)
    have c: "captured (capture ?b' ?r1) bs = captured r (?b' # bs)" for bs by (simp add: captured_def)
    note ih = 2(1) [OF refl refl refl, of ?b']
    have "same_setting (capture ?b' ?r1) r' \<and> (\<exists>e. x = Some (Inl e) \<and> re_status e = ReadError) \<or> same_setting (capture ?b' ?r1) r' \<and>
      (\<exists>ns. x = Some (Inr (AnyMoves ((ms @ [?m]) @ ns))) \<and> legal_line (gr_zobrist (capture ?b' ?r1)) ?b' ns \<and>
       gr_lastBoard r' = Some (line_end (gr_zobrist (capture ?b' ?r1)) ?b' ns) \<and>
       gr_capturedBoards r' = captured (capture ?b' ?r1) (line_boards (gr_zobrist (capture ?b' ?r1)) ?b' ns))"
      by (rule ih) (use True n in simp_all)
    then show ?thesis
    proof (elim disjE conjE exE, goal_cases)
      case (1 e)
      then show ?case using same_setting_trans [OF s(1)] by blast
    next
      case (2 ns)
      have "x = Some (Inr (AnyMoves (ms @ (?m # ns))))" using 2(2) by simp
      moreover have "legal_line (gr_zobrist r) b (?m # ns)" using 2(3) True s(2) by simp
      moreover have "gr_lastBoard r' = Some (line_end (gr_zobrist r) b (?m # ns))" using 2(4) s(2) by (simp add: line_end_def)
      moreover have "gr_capturedBoards r' = captured r (line_boards (gr_zobrist r) b (?m # ns))" using 2(5) s(2) c by (simp add: Let_def)
      ultimately show ?case using same_setting_trans [OF s(1) 2(1)] by blast
    qed
  next
    case False
    then show ?thesis using 2(2) by (auto simp: Let_def read_fail_def read_failure_def same_setting_def split: if_splits)
  qed
qed

text \<open>A line leaves the reader with a command whose effect it had, with an error, or as it was.\<close>

definition line_effect :: "GameReader \<Rightarrow> read_step \<Rightarrow> bool" where
  "line_effect r x \<longleftrightarrow> same_setting r (snd x) \<and> (fst x = None \<longrightarrow> gr_lastBoard (snd x) = gr_lastBoard r \<and>
     gr_capturedBoards (snd x) = gr_capturedBoards r) \<and>
     (\<forall>e. fst x = Some (Inl e) \<longrightarrow> re_status e = EndOfStream \<longrightarrow> gr_capturedBoards (snd x) = gr_capturedBoards r) \<and>
     (\<forall>c. fst x = Some (Inr c) \<longrightarrow> command_effect c r (snd x))"

lemma line_effects:
  "line_effect r (read_fail r msg)" "line_effect r (read_game s r)" "line_effect r (Some (Inr (AnyTitle t)), r)" "line_effect r (None, r)"
  "consistent (gr_zobrist r) b \<Longrightarrow> line_effect r (read_position b r)"
proof -
  show f: "line_effect r (read_fail r msg)" for msg by (simp add: line_effect_def read_fail_def read_failure_def)
  show "line_effect r (Some (Inr (AnyTitle t)), r)" "line_effect r (None, r)" by (simp_all add: line_effect_def)
  show "line_effect r (read_game s r)"
    using f by (auto simp: read_game_def Let_def split: option.split) (auto simp: line_effect_def same_setting_def)
  show "consistent (gr_zobrist r) b \<Longrightarrow> line_effect r (read_position b r)"
    by (auto simp: line_effect_def read_position_def same_setting_def captured_def)
qed

lemma read_board_effect:
  assumes "length (cells (gr_fresh r)) = 64" "read_board fen r = Some x"
  shows "line_effect r x"
proof -
  obtain res b where f: "setFromFen (gr_zobrist r) (gr_fresh r) fen = Some (res, b)" "res = Fen_Ok \<longrightarrow> consistent (gr_zobrist r) b"
    using setFromFen_total [OF assms(1), of "gr_zobrist r" fen] setFromFen_consistent_eq [OF assms(1), of "gr_zobrist r" fen] by auto
  show ?thesis
    using assms(2) f by (cases "res = Fen_Ok") (auto simp: read_board_def fromFen_def line_effects)
qed

lemma read_command_line_effect:
  assumes "length (cells (gr_fresh r)) = 64" "read_command_line line r = Some x"
  shows "line_effect r x"
proof -
  have m: "line_effect r x" if "read_moves b ts [] r = Some x" "gr_lastBoard r = Some b" for b ts
    using read_moves_effect [of b ts "[]" r "fst x" "snd x"] that by (auto simp: line_effect_def)
  let ?n = "token (c_str line) (scanTokenEnd (c_str line))"
  consider "?n = ''game''" | "?n = ''title''" | "?n = ''start''" | "?n = ''board''" | "?n = ''moves''"
    | "?n \<noteq> ''game''" "?n \<noteq> ''title''" "?n \<noteq> ''start''" "?n \<noteq> ''board''" "?n \<noteq> ''moves''" by blast
  then show ?thesis
  proof cases
    case 5
    then show ?thesis using assms(2) by (auto simp: read_command_line_def Let_def line_effects split: option.splits if_splits dest: m)
  qed (use assms initial_consistent in \<open>auto simp: read_command_line_def Let_def line_effects initialPosition_def dest: read_board_effect\<close>)
qed

definition reader_ok :: "GameReader \<Rightarrow> bool" where
  "reader_ok r \<longleftrightarrow> length (cells (gr_fresh r)) = 64 \<and> (\<forall>c. gr_lastCommand r = Inr (AnyGame c) \<longrightarrow> gr_lastBoard r = None)"

lemma try_effect:
  assumes "length (cells (gr_fresh r)) = 64" "tryReadCommand r = Some x"
  shows "line_effect r x"
proof -
  have l: "line_effect (r\<lparr>gr_in := s, gr_line := n\<rparr>) y \<longleftrightarrow> line_effect r y" for s n y
  proof -
    have "command_effect c (r\<lparr>gr_in := s, gr_line := n\<rparr>) r' \<longleftrightarrow> command_effect c r r'" for c r'
      by (cases c) (simp_all add: captured_def)
    then show ?thesis by (simp add: line_effect_def same_setting_def)
  qed
  let ?l = "trim (takeWhile (\<lambda>c. c \<noteq> CHR 0x0A) (gr_in r))"
  let ?r = "r\<lparr>gr_in := drop 1 (dropWhile (\<lambda>c. c \<noteq> CHR 0x0A) (gr_in r)), gr_line := gr_line r + 1\<rparr>"
  consider "gr_in r = []" | "gr_in r \<noteq> []" "?l = [] \<or> hd ?l = CHR ''#''" | "gr_in r \<noteq> []" "\<not> (?l = [] \<or> hd ?l = CHR ''#'')" by blast
  then show ?thesis
  proof cases
    case 1
    then show ?thesis using assms(2) by (auto simp: tryReadCommand_def readLine_def line_effect_def)
  next
    case 2
    then have "x = (None, ?r)" using assms(2) by (auto simp: tryReadCommand_def readLine_def Let_def)
    then show ?thesis by (simp add: line_effect_def same_setting_def)
  next
    case 3
    then have "read_command_line ?l ?r = Some x" using assms(2) by (simp add: tryReadCommand_def readLine_def Let_def)
    then show ?thesis using read_command_line_effect [of ?r ?l x] assms(1) l by simp
  qed
qed

lemma readCommand_effect:
  "readCommand r = Some (x, r') \<Longrightarrow> length (cells (gr_fresh r)) = 64 \<Longrightarrow>
    same_setting r r' \<and> (\<forall>e. x = Inl e \<longrightarrow> re_status e = EndOfStream \<longrightarrow> gr_capturedBoards r' = gr_capturedBoards r) \<and>
    (\<forall>c. x = Inr c \<longrightarrow> command_effect c r r')"
proof (induction r rule: readCommand.induct)
  case (1 r)
  obtain t r1 where t: "tryReadCommand r = Some (t, r1)" using 1(2) by (subst (asm) readCommand.simps) (auto split: option.splits)
  note e = try_effect [OF 1(3) t, unfolded line_effect_def fst_conv snd_conv]
  show ?case
  proof (cases t)
    case None
    have "readCommand r1 = Some (x, r')" using 1(2) t None by (subst (asm) readCommand.simps) simp
    moreover have "length (cells (gr_fresh r1)) = 64" using e 1(3) by (simp add: same_setting_def)
    ultimately have ih: "same_setting r1 r'" "\<forall>e. x = Inl e \<longrightarrow> re_status e = EndOfStream \<longrightarrow> gr_capturedBoards r' = gr_capturedBoards r1"
      "\<forall>c. x = Inr c \<longrightarrow> command_effect c r1 r'" using 1(1) [of "(None, r1)" None r1] t None by blast+
    have "command_effect c r1 r' \<Longrightarrow> command_effect c r r'" for c
      using e None same_setting_captures [of r r1] by (cases c) (auto simp: same_setting_def captured_def)
    then show ?thesis using ih e None same_setting_trans [of r r1 r'] by auto
  next
    case (Some y)
    have "x = y" "r' = r1" using 1(2) t Some by (subst (asm) readCommand.simps, simp)+
    then show ?thesis using e Some by blast
  qed
qed

section \<open>The games read\<close>

lemma game_loop_effect:
  "game_loop g r = Some (x, r') \<Longrightarrow> length (cells (gr_fresh r)) = 64 \<Longrightarrow> same_setting r r' \<and> reader_ok r' \<and>
    (\<forall>g'. x = Inr g' \<longrightarrow> (\<exists>cs. gm_commands g' = gm_commands g @ cs \<and> gm_header g' = gm_header g \<and>
      game_legal (gr_zobrist r) (gr_lastBoard r) cs \<and> gr_capturedBoards r' = captured r (game_boards (gr_zobrist r) (gr_lastBoard r) cs)))"
proof (induction g r rule: game_loop.induct)
  case (1 g r)
  obtain c r1 where c: "readCommand r = Some (c, r1)" using 1(3) by (subst (asm) game_loop.simps) (auto split: option.splits)
  note e = readCommand_effect [OF c 1(4)]
  have l: "length (cells (gr_fresh r1)) = 64" using e 1(4) by (simp add: same_setting_def)
  have cap: "canCaptureBoards r1 = canCaptureBoards r" "gr_zobrist r1 = gr_zobrist r" "gr_fresh r1 = gr_fresh r"
    using e same_setting_captures [of r r1] by (simp_all add: same_setting_def)
  have inner: "?case"
    if n: "game_loop (game_push i g) r1 = Some (x, r')" and sp: "c = Inr cmd" "commandSplit cmd = SplitInner i"
      and ce: "command_legal (gr_zobrist r) (gr_lastBoard r) i" "gr_lastBoard r1 = after_command (gr_zobrist r) (gr_lastBoard r) i"
        "gr_capturedBoards r1 = captured r (command_boards (gr_zobrist r) (gr_lastBoard r) i)" for cmd i
  proof -
    note ih = 1(2) [OF c refl sp n l]
    have "captured r1 bs = captured r (command_boards (gr_zobrist r) (gr_lastBoard r) i @ bs)" for bs
      using ce(3) cap(1) by (simp add: captured_def)
    then show ?thesis using ih e ce(1,2) cap same_setting_trans [of r r1 r']
      by (fastforce simp: game_push_def intro: exI [of _ "i # cs" for cs])
  qed
  show ?case
  proof (cases c)
    case (Inl er)
    then show ?thesis using 1(3) c e l by (subst (asm) game_loop.simps) (auto simp: Let_def same_setting_def reader_ok_def split: if_splits)
  next
    case (Inr cmd)
    show ?thesis
    proof (cases cmd)
      case (AnyGame gc)
      then have "x = Inr g" "r' = r1\<lparr>gr_lastCommand := Inr (AnyGame gc)\<rparr>" using 1(3) c Inr by (subst (asm) game_loop.simps, simp)+
      then show ?thesis using e l Inr AnyGame by (auto simp: same_setting_def reader_ok_def intro!: exI [of _ "[]"])
    next
      case (AnyTitle t)
      have "game_loop (game_apply t g) r1 = Some (x, r')" using 1(3) c Inr AnyTitle by (subst (asm) game_loop.simps) simp
      then have "same_setting r1 r' \<and> reader_ok r' \<and>
    (\<forall>g'. x = Inr g' \<longrightarrow> (\<exists>cs. gm_commands g' = gm_commands (game_apply t g) @ cs \<and> gm_header g' = gm_header (game_apply t g) \<and>
      game_legal (gr_zobrist r1) (gr_lastBoard r1) cs \<and> gr_capturedBoards r' = captured r1 (game_boards (gr_zobrist r1) (gr_lastBoard r1) cs)))"
        using 1(1) [OF c refl Inr, of t] l AnyTitle by simp
      moreover have "gr_lastBoard r1 = gr_lastBoard r" "\<And>bs. captured r1 bs = captured r bs"
        using e Inr AnyTitle cap(1) by (auto simp: captured_def)
      ultimately show ?thesis using e cap same_setting_trans [of r r1 r'] by (simp add: game_apply_def)
    next
      case (AnyBoard b)
      show ?thesis
        by (rule inner [of "InnerBoard b" cmd]) (use 1(3) c Inr AnyBoard e in \<open>subst (asm) game_loop.simps, auto\<close>)
    next
      case (AnyMoves ms)
      show ?thesis
        by (rule inner [of "InnerMoves ms" cmd]) (use 1(3) c Inr AnyMoves e in \<open>subst (asm) game_loop.simps, auto\<close>)
    qed
  qed
qed

lemma nextGame_effect:
  assumes "reader_ok r" "nextGame r = Some (x, r')"
  shows "same_setting r r' \<and> reader_ok r' \<and> (\<forall>g. x = Inr g \<longrightarrow> game_legal (gr_zobrist r) None (gm_commands g) \<and>
    (canCaptureBoards r \<longrightarrow> gr_capturedBoards r' = game_boards (gr_zobrist r) None (gm_commands g)))"
proof (cases "\<exists>c. gr_lastCommand r = Inr (AnyGame c)")
  case True
  then obtain c where c: "gr_lastCommand r = Inr (AnyGame c)" by blast
  have n: "gr_lastBoard r = None" "length (cells (gr_fresh r)) = 64" using assms(1) c by (simp_all add: reader_ok_def)
  have "game_loop (new_game c) (r\<lparr>gr_capturedBoards := []\<rparr>) = Some (x, r')" using assms(2) c by (simp add: nextGame_def)
  note e = game_loop_effect [OF this]
  have same: "same_setting (r\<lparr>gr_capturedBoards := []\<rparr>) r' \<longleftrightarrow> same_setting r r'" by (simp add: same_setting_def)
  have "captured (r\<lparr>gr_capturedBoards := []\<rparr>) bs = (if canCaptureBoards r then bs else [])" for bs by (simp add: captured_def)
  then show ?thesis using e n unfolding same by (fastforce simp: new_game_def)
next
  case False
  then have "\<exists>e. nextGame r = Some (Inl e, r)" by (auto simp: nextGame_def split: sum.split AnyCommand.split)
  then show ?thesis using assms by auto
qed

lemma game_reader_ok:
  assumes "length (cells b0) = 64" "game_reader inp options z b0 = Some r"
  shows "reader_ok r" "gr_zobrist r = z" "gr_options r = options"
proof -
  let ?r = "\<lparr>gr_in = inp, gr_options = options, gr_line = 0, gr_lastCommand = Inl endOfStream, gr_lastBoard = None,
        gr_capturedBoards = [], gr_zobrist = z, gr_fresh = b0\<rparr>"
  obtain x r1 where x: "readCommand ?r = Some (x, r1)" "r = r1\<lparr>gr_lastCommand := x\<rparr>" using assms(2) by (auto simp: game_reader_def)
  note e = readCommand_effect [OF x(1)]
  show "reader_ok r" "gr_zobrist r = z" "gr_options r = options"
    using e x(2) assms(1) by (auto simp: same_setting_def reader_ok_def)
qed

text \<open>
  A file of games that was written is read back: the reader returns the games in their order, then the end of
  the stream.
\<close>

section \<open>Games that can be written\<close>

text \<open>A label is one word other than the dash that stands for none; a title has neither a line end nor blanks around it; moves are
  legal where they are made.\<close>

definition label_writable :: "string option \<Rightarrow> bool" where
  "label_writable l = (case l of None \<Rightarrow> True | Some w \<Rightarrow> word_ok w \<and> CHR 0x00 \<notin> set w \<and> w \<noteq> ''-'')"

definition title_writable :: "string \<Rightarrow> bool" where
  "title_writable t \<longleftrightarrow> CHR 0x0A \<notin> set t \<and> (t = [] \<or> \<not> isSpace (hd t) \<and> \<not> isSpace (last t))"

fun command_writable :: "zobrist \<Rightarrow> board option \<Rightarrow> InnerCommand \<Rightarrow> bool" where
  "command_writable z lb (InnerBoard b) \<longleftrightarrow> consistent z b \<and> unused b = 0"
| "command_writable z lb (InnerMoves ms) \<longleftrightarrow> ms \<noteq> [] \<and> list_all (\<lambda>m. tag m = 0) ms \<and>
     (case lb of None \<Rightarrow> False | Some b \<Rightarrow> playable z b \<and> legal_line z b ms)"

fun commands_writable :: "zobrist \<Rightarrow> board option \<Rightarrow> InnerCommand list \<Rightarrow> bool" where
  "commands_writable z lb [] = True"
| "commands_writable z lb (c # cs) \<longleftrightarrow> command_writable z lb c \<and> commands_writable z (after_command z lb c) cs"

definition game_writable :: "zobrist \<Rightarrow> Game \<Rightarrow> bool" where
  "game_writable z g \<longleftrightarrow> label_writable (gc_label (gm_header g)) \<and> (case gm_title g of None \<Rightarrow> True | Some t \<Rightarrow> title_writable t) \<and>
     commands_writable z None (gm_commands g)"

text \<open>The games the reader returns before the end of the stream.\<close>

fun gives_games :: "GameReader \<Rightarrow> Game list \<Rightarrow> bool" where
  "gives_games r [] = (case nextGame r of Some (Inl e, _) \<Rightarrow> e = endOfStream | _ \<Rightarrow> False)"
| "gives_games r (g # gs) = (case nextGame r of Some (Inr g', r') \<Rightarrow> g' = g \<and> gives_games r' gs | _ \<Rightarrow> False)"

section \<open>Reading one line\<close>

lemma trim_id:
  assumes "l \<noteq> []" "\<not> isSpace (hd l)" "\<not> isSpace (last l)"
  shows "trim l = l"
proof -
  have "dropWhile isSpace l = l" using assms by (cases l) auto
  moreover have "dropWhile isSpace (rev l) = rev l" using assms by (cases l rule: rev_cases) auto
  ultimately show ?thesis by (simp add: trim_eq)
qed

lemma line_split:
  assumes "CHR 0x0A \<notin> set l"
  shows "takeWhile (\<lambda>c. c \<noteq> CHR 0x0A) (l @ endl @ s) = l" "drop 1 (dropWhile (\<lambda>c. c \<noteq> CHR 0x0A) (l @ endl @ s)) = s"
  using assms by (induction l) (auto simp: endl_def)

abbreviation next_line :: "GameReader \<Rightarrow> string \<Rightarrow> GameReader" where
  "next_line r s \<equiv> r\<lparr>gr_in := s, gr_line := gr_line r + 1\<rparr>"

lemma readCommand_line:
  assumes "gr_in r = l @ endl @ s" "CHR 0x0A \<notin> set l" "trim l \<noteq> []" "hd (trim l) \<noteq> CHR ''#''" "length (cells (gr_fresh r)) = 64"
    and "read_command_line (trim l) (next_line r s) = Some (Some (Inr c), r')"
  shows "readCommand r = Some (Inr c, r') \<and> gr_in r' = s \<and> same_setting r r' \<and> command_effect c r r'"
proof -
  have "gr_in r \<noteq> []" using assms(1) by (simp add: endl_def)
  then have "tryReadCommand r = Some (Some (Inr c), r')"
    unfolding tryReadCommand_def readLine_def using assms(3,4,6) line_split [OF assms(2), of s] by (simp add: assms(1) endl_def)
  then have c: "readCommand r = Some (Inr c, r')" by (subst readCommand.simps) simp
  show ?thesis using c readCommand_effect [OF c assms(5)] read_command_line_stream [OF assms(6)] by simp
qed

lemma readCommand_blank:
  assumes "gr_in r = endl @ s"
  shows "readCommand r = readCommand (next_line r s)"
proof -
  have "tryReadCommand r = Some (None, next_line r s)"
    using line_split [of "[]" s] by (simp add: tryReadCommand_def readLine_def assms trim_eq endl_def)
  then show ?thesis by (subst readCommand.simps) simp
qed

lemma readCommand_end: "gr_in r = [] \<Longrightarrow> readCommand r = Some (Inl endOfStream, r)"
  by (subst readCommand.simps) (simp add: tryReadCommand_def readLine_def)

lemma command_words:
  assumes "word_ok name" "CHR 0x00 \<notin> set name"
  shows "c_str (name @ CHR '' '' # rest) = name @ CHR '' '' # c_str rest"
    "token (name @ CHR '' '' # rest) (scanTokenEnd (name @ CHR '' '' # rest)) = name"
    "scanTokenStart (scanTokenEnd (name @ CHR '' '' # rest)) = scanTokenStart rest"
proof -
  show "c_str (name @ CHR '' '' # rest) = name @ CHR '' '' # c_str rest"
    using assms(2) by (induction name) (auto simp: c_str_def)
  have n: "\<not> isSpace c" if "c \<in> set name" for c using assms(1) that by (auto simp: word_ok_def list_all_iff)
  have e: "scanTokenEnd (name @ CHR '' '' # rest) = CHR '' '' # rest" using n by (induction name) (auto simp: isSpace_def)
  show "token (name @ CHR '' '' # rest) (scanTokenEnd (name @ CHR '' '' # rest)) = name" unfolding e by (simp add: token_def)
  show "scanTokenStart (scanTokenEnd (name @ CHR '' '' # rest)) = scanTokenStart rest" unfolding e by (simp add: isSpace_def)
qed

lemma command_names: "word_ok ''game''" "word_ok ''title''" "word_ok ''board''" "word_ok ''moves''" "word_ok ''start''"
  by (simp_all add: word_ok_def isSpace_def)

section \<open>Reading the header and the title\<close>

lemma c_str_id: "CHR 0x00 \<notin> set s \<Longrightarrow> c_str s = s"
  by (auto simp: c_str_def takeWhile_eq_all_conv)

lemma winner_read: "winnerFromChar (winnerToChar w) = Some w" "\<not> isSpace (winnerToChar w)" "winnerToChar w \<noteq> CHR 0x00"
    "winnerToChar w \<noteq> CHR 0x0A"
  by (cases w; simp add: winnerFromChar_def isSpace_def)+

definition label_text :: "string option \<Rightarrow> string" where
  "label_text l = (case l of None \<Rightarrow> ''-'' | Some w \<Rightarrow> w)"

lemma label_text:
  assumes "label_writable l"
  shows "word_ok (label_text l)" "CHR 0x00 \<notin> set (label_text l)" "(if label_text l = ''-'' then None else Some (label_text l)) = l"
  using assms by (auto simp: label_text_def label_writable_def word_ok_def isSpace_def split: option.splits)

lemma word_ends:
  assumes "word_ok w"
  shows "w \<noteq> []" "\<not> isSpace (hd w)" "\<not> isSpace (last w)" "CHR 0x0A \<notin> set w" "scanTokenStart w = w" "scanTokenEnd w = []" "token w [] = w"
proof -
  show n: "w \<noteq> []" using assms by (simp add: word_ok_def)
  have s: "\<not> isSpace c" if "c \<in> set w" for c using assms that by (auto simp: word_ok_def list_all_iff)
  show "\<not> isSpace (hd w)" "\<not> isSpace (last w)" using s n by simp_all
  then show "scanTokenStart w = w" using n by (cases w) auto
  show "CHR 0x0A \<notin> set w" using s [of "CHR 0x0A"] by (auto simp: isSpace_def)
  show "scanTokenEnd w = []" using s by (auto simp: scanTokenEnd_eq)
  show "token w [] = w" by (simp add: token_def)
qed

lemma read_header:
  assumes "gr_in r = game_command_write c @ s" "label_writable (gc_label c)" "length (cells (gr_fresh r)) = 64"
  shows "\<exists>r'. readCommand r = Some (Inr (AnyGame c), r') \<and> gr_in r' = s \<and> same_setting r r' \<and> gr_lastBoard r' = None"
proof -
  let ?l = "label_text (gc_label c)" and ?w = "winnerToChar (gc_winner c)"
  let ?line = "''game'' @ CHR '' '' # (?w # CHR '' '' # ?l)"
  note l = label_text [OF assms(2)] and w = word_ends [OF label_text(1) [OF assms(2)]]
  have line: "gr_in r = ?line @ endl @ s" unfolding assms(1) game_command_write_def label_text_def by simp
  have t: "trim ?line = ?line" by (rule trim_id) (use w in \<open>simp_all add: isSpace_def\<close>)
  have cs: "c_str (?w # CHR '' '' # ?l) = ?w # CHR '' '' # ?l" by (rule c_str_id) (use l(2) winner_read(3) [of "gc_winner c", symmetric] in simp)
  have nl: "CHR 0x0A \<notin> set ?line" using w(4) winner_read(4) [of "gc_winner c"] by auto
  have g: "read_game (?w # CHR '' '' # ?l) r' = (Some (Inr (AnyGame c)), r'\<lparr>gr_lastBoard := None\<rparr>)" for r'
    unfolding read_game_def using w l(3) winner_read [of "gc_winner c"] by (simp add: Let_def isSpace_def)
  have "scanTokenStart (?w # CHR '' '' # ?l) = ?w # CHR '' '' # ?l" using winner_read(2) by simp
  then have rc: "read_command_line (trim ?line) (next_line r s) = Some (Some (Inr (AnyGame c)), (next_line r s)\<lparr>gr_lastBoard := None\<rparr>)"
    unfolding t read_command_line_def Let_def command_words(1) [OF command_names(1), simplified] 
    using command_words [OF command_names(1), of "?w # CHR '' '' # ?l"] g cs by simp
  have "trim ?line \<noteq> []" "hd (trim ?line) \<noteq> CHR ''#''" unfolding t by simp_all
  from readCommand_line [OF line nl this assms(3) rc] show ?thesis by auto
qed

lemma scanTokenStart_word: "s = [] \<or> \<not> isSpace (hd s) \<Longrightarrow> scanTokenStart s = s"
  by (cases s) auto

lemma c_str_hd: "s \<noteq> [] \<Longrightarrow> c_str s = [] \<or> hd (c_str s) = hd s"
  by (cases s) (auto simp: c_str_def)

lemma read_title:
  assumes "gr_in r = title_command_write t @ s" "title_writable t" "length (cells (gr_fresh r)) = 64"
  shows "\<exists>r'. readCommand r = Some (Inr (AnyTitle t), r') \<and> gr_in r' = s \<and> same_setting r r' \<and> gr_lastBoard r' = gr_lastBoard r"
proof -
  let ?line = "''title'' @ CHR '' '' # t"
  have line: "gr_in r = ?line @ endl @ s" unfolding assms(1) title_command_write_def by simp
  have nl: "CHR 0x0A \<notin> set ?line" using assms(2) by (simp add: title_writable_def)
  have rc: "read_command_line (trim ?line) (next_line r s) = Some (Some (Inr (AnyTitle t)), next_line r s)"
  proof (cases "t = []")
    case True
    have "trim ?line = ''title''" unfolding True by (simp add: trim_eq isSpace_def)
    then show ?thesis unfolding True by (simp add: read_command_line_def Let_def c_str_def token_def isSpace_def)
  next
    case False
    have e: "\<not> isSpace (hd t)" "\<not> isSpace (last t)" using assms(2) False by (simp_all add: title_writable_def)
    have tr: "trim ?line = ?line" by (rule trim_id) (use False e in \<open>simp_all add: isSpace_def\<close>)
    have "scanTokenStart (c_str t) = c_str t" using e(1) c_str_hd [OF False] by (intro scanTokenStart_word) auto
    moreover have "length (''title'' @ CHR '' '' # c_str t) - length (c_str t) = 6" by simp
    ultimately show ?thesis
      unfolding tr read_command_line_def Let_def using command_words [OF command_names(2)]  by simp
  qed
  have "trim ?line \<noteq> []" "hd (trim ?line) \<noteq> CHR ''#''" by (auto simp: trim_eq isSpace_def hd_rev dropWhile_append last_append)
  from readCommand_line [OF line nl this assms(3) rc] show ?thesis by auto
qed

section \<open>Reading a board\<close>

lemma unused_update: "board_shape b \<Longrightarrow> unused (update z b) = unused b"
proof -
  assume "board_shape b"
  then have sa: "board_shape (update_castling (update_enpassant b))" by (intro update_castling_shape update_enpassant_shape)
  show ?thesis unfolding update_eq update_hash_eq
    by (simp, subst update_bitboards_eq(2) [OF sa], simp, subst update_castling_eq, simp)
qed

lemma asFen_cong:
  assumes "cells b = cells c" "side b = side c" "castling b = castling c" "enpassantCoord b = enpassantCoord c"
    "moveCounter b = moveCounter c" "moveNumber b = moveNumber c"
  shows "asFen b = asFen c"
proof -
  have a: "cellAt b x = cellAt c x" for x using assms(1) by (simp add: cellAt_def)
  have "fen_cell b = fen_cell c" by (intro ext) (simp only: fen_cell_def a)
  then have "fen_row b = fen_row c" by (intro ext) (simp only: fen_row_def)
  moreover have "fen_castling b = fen_castling c" "fen_enpassant b = fen_enpassant c"
    using assms by (simp_all add: fen_castling_def fen_enpassant_def isAnyCastling_def isKingsideCastling_def isQueensideCastling_def)
  ultimately show ?thesis using assms by (simp add: asFen_def)
qed

lemma initial_castling: "castling (setInitialPosition z b0) = Castling_All"
proof -
  let ?b = "b0\<lparr>cells := initial_cells, castling := Castling_All, side := White,
     enpassantCoord := INVALID_COORD, moveCounter := 0, moveNumber := 1, unused := 0\<rparr>"
  note e = update_essential [OF initial_shape [of b0], of z]
  have c: "list_all (\<lambda>C. initial_cells ! nat (castlingOffset C + 4) = makeCell C King \<and>
      initial_cells ! nat (castlingOffset C + 7) = makeCell C Rook \<and> initial_cells ! nat (castlingOffset C) = makeCell C Rook) [White, Black]"
    by code_simp
  then have c: "initial_cells ! nat (castlingOffset C + 4) = makeCell C King \<and>
      initial_cells ! nat (castlingOffset C + 7) = makeCell C Rook \<and> initial_cells ! nat (castlingOffset C) = makeCell C Rook" for C
    by (cases C) (simp_all only: list.pred_inject simp_thms)
  have f: "bit Castling_All (kbit C)" "bit Castling_All (qbit C)" for C
    by (simp_all add: bit_All kbit_def qbit_def)
  have k: "bit (castling (update z ?b)) (kbit C)" "bit (castling (update z ?b)) (qbit C)" for C
    unfolding isCastling_bits [symmetric] e(6,7) using f [of C] c [of C] by (simp_all add: cellAt_def)
  have "castling (update z ?b) = Castling_All"
  proof (rule castling_eqI)
    show "castling (update z ?b) AND Castling_All = castling (update z ?b)"
      using initial_consistent [of z b0, unfolded initial_update] by (simp add: consistent_def board_shape_def)
  qed (simp_all add: k f)
  then show ?thesis unfolding initial_update .
qed

lemma initial_fen: "asFen (initialPosition z b0) = INITIAL_POSITION_FEN" "unused (initialPosition z b0) = 0"
proof -
  let ?b = "b0\<lparr>cells := initial_cells, castling := Castling_All, side := White,
     enpassantCoord := INVALID_COORD, moveCounter := 0, moveNumber := 1, unused := 0\<rparr>"
  have i: "initialPosition z b0 = update z ?b" by (simp add: initialPosition_def initial_update)
  show "unused (initialPosition z b0) = 0" unfolding i using unused_update [OF initial_shape] by simp
  let ?c = "blank_board\<lparr>cells := initial_cells, castling := Castling_All\<rparr>"
  have "asFen (initialPosition z b0) = asFen ?c"
  proof (rule asFen_cong)
    show "castling (initialPosition z b0) = castling ?c" using initial_castling by (simp add: initialPosition_def)
    show "enpassantCoord (initialPosition z b0) = enpassantCoord ?c" by (simp add: initialPosition_def initial_essential blank_board_def)
  qed (simp_all add: initialPosition_def initial_essential blank_board_def, simp_all add: initial_update update_essential [OF initial_shape])
  moreover have "asFen ?c = INITIAL_POSITION_FEN" by code_simp
  ultimately show "asFen (initialPosition z b0) = INITIAL_POSITION_FEN" by simp
qed

lemma initial_fen_unique:
  assumes "consistent z b" "unused b = 0" "asFen b = INITIAL_POSITION_FEN" "length (cells b0) = 64"
  shows "b = initialPosition z b0"
proof -
  have "consistent z (initialPosition z b0)" using initial_consistent by (simp add: initialPosition_def)
  from setFromFen_asFen_eq [OF this initial_fen(2) assms(4)] setFromFen_asFen_eq [OF assms(1,2,4)]
  show ?thesis by (simp add: assms(3) initial_fen(1))
qed

lemma fen_ends:
  assumes "board_shape b"
  shows "asFen b \<noteq> []" "\<not> isSpace (hd (asFen b))" "\<not> isSpace (last (asFen b))" "CHR 0x0A \<notin> set (asFen b)" "c_str (asFen b) = asFen b"
proof -
  have w: "list_all (list_all fen_char) (fen_words b)"
    by (rule fen_words_chars) (use assms in \<open>auto simp: board_shape_def\<close>)
  have sp: "isSpace c \<Longrightarrow> stream_space c" for c by (auto simp: isSpace_def stream_space_def charVal_def)
  then have f: "\<not> isSpace c" if "fen_char c" for c using that by (auto simp: fen_char_def)
  have r: "foldl (fen_row b) [] [0..7] \<noteq> []" using fen_words_nonempty [OF assms] by (auto simp: fen_words_def)
  show "asFen b \<noteq> []" by (simp add: asFen_def)
  show "\<not> isSpace (hd (asFen b))"
    using r fen_char_rows [of b] f by (simp add: asFen_def hd_append list_all_iff)
  show "\<not> isSpace (last (asFen b))" using fen_char_to_chars [of "unat (moveNumber b)"] f by (simp add: asFen_def list_all_iff)
  have "\<not> fen_char (CHR 0x0A)" by code_simp
  then show "CHR 0x0A \<notin> set (asFen b)" using w set_join_words [of "fen_words b"] by (auto simp: asFen_words list_all_iff)
  show "c_str (asFen b) = asFen b" by (rule fen_words_plain(3) [OF assms])
qed

lemma read_board_written:
  assumes "gr_in r = board_command_write b @ s" "consistent (gr_zobrist r) b" "unused b = 0" "length (cells (gr_fresh r)) = 64"
  shows "\<exists>r'. readCommand r = Some (Inr (AnyBoard b), r') \<and> gr_in r' = s \<and> same_setting r r' \<and> gr_lastBoard r' = Some b"
proof (cases "asFen b = INITIAL_POSITION_FEN")
  case True
  have line: "gr_in r = ''start'' @ endl @ s" using assms(1) True by (simp add: board_command_write_def)
  have t: "trim ''start'' = ''start''" by (rule trim_id) (simp_all add: isSpace_def)
  have "read_command_line (trim ''start'') (next_line r s) = Some (read_position b (next_line r s))"
    unfolding t initial_fen_unique [OF assms(2,3) True assms(4)]
    by (simp add: read_command_line_def Let_def c_str_def token_def isSpace_def)
  from readCommand_line [OF line _ _ _ assms(4) this [unfolded read_position_def]]
  show ?thesis using assms(2) by (auto simp: t)
next
  case False
  have sh: "board_shape b" using assms(2) by (simp add: consistent_def)
  note e = fen_ends [OF sh]
  let ?line = "''board'' @ CHR '' '' # asFen b"
  have line: "gr_in r = ?line @ endl @ s" using assms(1) False by (simp add: board_command_write_def Let_def)
  have t: "trim ?line = ?line" by (rule trim_id) (use e in \<open>simp_all add: isSpace_def\<close>)
  have nl: "CHR 0x0A \<notin> set ?line" using e(4) by simp
  have "read_board (asFen b) (next_line r s) = Some (read_position b (next_line r s))"
    using setFromFen_asFen_eq [OF assms(2,3,4)] by (simp add: read_board_def fromFen_def)
  then have "read_command_line (trim ?line) (next_line r s) = Some (read_position b (next_line r s))"
    unfolding t read_command_line_def Let_def
    using command_words [OF command_names(3), of "asFen b"] e(5) scanTokenStart_word [of "asFen b"] e(2) by simp
  from readCommand_line [OF line nl _ _ assms(4) this [unfolded read_position_def]]
  show ?thesis using t by auto
qed

section \<open>Reading moves\<close>

lemma playable_has_king:
  assumes "playable z b"
  shows "\<not> no_king b"
proof -
  note p = playableD [OF assms]
  obtain k where k: "one_king b (side b) k" using p(5) by blast
  have "bit (pieceBB b (makeCell (side b) King)) (nat k)"
    using k bit_pieceBB [OF p(3)] by (simp add: one_king_def)
  then show ?thesis by (auto simp: no_king_def)
qed

lemma read_moves_written:
  "zobrist_ok (gr_zobrist r) \<Longrightarrow> playable (gr_zobrist r) b \<Longrightarrow> legal_line (gr_zobrist r) b ms \<Longrightarrow> list_all (\<lambda>m. tag m = 0) ms \<Longrightarrow>
    \<exists>r'. read_moves b (map moveToStr ms) acc r = Some (Some (Inr (AnyMoves (acc @ ms))), r')"
proof (induction ms arbitrary: b acc r)
  case Nil
  then show ?case by simp
next
  case (Cons m ms)
  let ?b' = "fst (moveMake (gr_zobrist r) b m)" and ?r = "r\<lparr>gr_lastBoard := Some b\<rparr>"
  have l: "isWellFormed m (side b)" "isMoveValid b m" "isMoveLegal b m" using Cons.prems(3) by simp_all
  note p = legal_move_playable [OF Cons.prems(1,2) l]
  have m: "moveParse (moveToStr m) b = m"
    using playableD(1) [OF Cons.prems(2)] p(1) Cons.prems(4) by (intro moveParse_moveToStr_eq) simp_all
  have "gr_zobrist (capture ?b' ?r) = gr_zobrist r" by simp
  then obtain r' where "read_moves ?b' (map moveToStr ms) (acc @ [m]) (capture ?b' ?r) = Some (Some (Inr (AnyMoves ((acc @ [m]) @ ms))), r')"
    using Cons.IH [of "capture ?b' ?r" ?b' "acc @ [m]"] Cons.prems p(2) by auto
  then show ?case using m l playable_has_king [OF Cons.prems(2)] by (simp add: Let_def)
qed

lemma split_spaced: "list_all word_ok ws \<Longrightarrow> split_loop (spaced ws) = ws"
proof (induction ws)
  case Nil
  then show ?case by (simp add: split_loop_Nil)
next
  case (Cons w ws)
  have w: "word_ok w" "list_all word_ok ws" using Cons.prems by simp_all
  have "split_loop (spaced (w # ws)) = split_loop (w @ spaced ws)"
    using split_loop_space [of "spaced (w # ws)"] split_loop_space [of "w @ spaced ws"] by (simp add: isSpace_def)
  also have "\<dots> = w # split_loop (spaced ws)"
  proof (cases ws)
    case Nil
    have "split_loop (w @ '' '' @ []) = w # split_loop []" by (rule split_loop_word) (use w in \<open>simp_all add: blank_def isSpace_def\<close>)
    moreover obtain c w' where cw: "w = c # w'" "\<not> isSpace c" "\<forall>c\<in>set w'. \<not> isSpace c" using w(1) by (cases w) (auto simp: word_ok_def list_all_iff)
    moreover have "split_loop w = [w]"
      using split_loop_Cons [OF cw(2), of w'] cw by (simp add: takeWhile_eq_all_conv [THEN iffD2] dropWhile_eq_Nil_conv [THEN iffD2] split_loop_Nil)
    ultimately show ?thesis using Nil by (simp add: split_loop_Nil)
  next
    case (Cons v vs)
    have "split_loop (w @ '' '' @ (v @ spaced vs)) = w # split_loop (v @ spaced vs)"
      by (rule split_loop_word) (use w in \<open>simp_all add: blank_def isSpace_def\<close>)
    moreover have "split_loop (spaced (v # vs)) = split_loop (v @ spaced vs)"
      using split_loop_space [of "spaced (v # vs)"] split_loop_space [of "v @ spaced vs"] by (simp add: isSpace_def)
    ultimately show ?thesis using Cons by simp
  qed
  finally show ?case using Cons.IH w(2) by simp
qed

lemma moves_text: "moves_command_write ms = ''moves'' @ spaced (map moveToStr ms) @ endl"
proof -
  have "foldl (\<lambda>out m. out @ '' '' @ moveToStr m) out ms = out @ spaced (map moveToStr ms)" for out
    by (induction ms arbitrary: out) simp_all
  then show ?thesis by (simp add: moves_command_write_def)
qed

lemma move_word:
  assumes "isCoord (src m)" "isCoord (dst m)"
  shows "word_ok (moveToStr m)" "CHR 0x00 \<notin> set (moveToStr m)" "CHR 0x0A \<notin> set (moveToStr m)"
proof -
  have sp: "isSpace c \<Longrightarrow> stream_space c" for c by (auto simp: isSpace_def stream_space_def charVal_def)
  show "word_ok (moveToStr m)" using plain_moveToStr(2) [OF assms] sp by (auto simp: word_ok_def plain_def list_all_iff)
  have "\<not> fen_char (CHR 0x00)" "\<not> fen_char (CHR 0x0A)" by code_simp+
  then show "CHR 0x00 \<notin> set (moveToStr m)" "CHR 0x0A \<notin> set (moveToStr m)"
    using plain_moveToStr(1) [OF assms] by (auto simp: list_all_iff)
qed

lemma legal_line_words:
  "zobrist_ok z \<Longrightarrow> playable z b \<Longrightarrow> legal_line z b ms \<Longrightarrow>
    list_all (\<lambda>w. word_ok w \<and> CHR 0x00 \<notin> set w \<and> CHR 0x0A \<notin> set w) (map moveToStr ms)"
proof (induction ms arbitrary: b)
  case (Cons m ms)
  have l: "isWellFormed m (side b)" "isMoveValid b m" "isMoveLegal b m" using Cons.prems(3) by simp_all
  note p = legal_move_playable [OF Cons.prems(1,2) l]
  then show ?case using Cons.IH [OF Cons.prems(1) p(2)] Cons.prems(3) move_word pseudo_coords [OF p(1)] by simp
qed simp

lemma set_spaced: "set (spaced ws) \<subseteq> {CHR '' ''} \<union> \<Union>(set ` set ws)"
  by (induction ws) auto

lemma last_spaced: "list_all word_ok ws \<Longrightarrow> ws \<noteq> [] \<Longrightarrow> spaced ws \<noteq> [] \<and> \<not> isSpace (last (spaced ws))"
proof (induction ws)
  case (Cons w ws)
  then show ?case using word_ends [of w] by (cases ws) auto
qed simp

lemma read_moves_line:
  assumes "gr_in r = moves_command_write ms @ s" "ms \<noteq> []" "list_all (\<lambda>m. tag m = 0) ms" "gr_lastBoard r = Some b"
    and "playable (gr_zobrist r) b" "legal_line (gr_zobrist r) b ms" "zobrist_ok (gr_zobrist r)" "length (cells (gr_fresh r)) = 64"
  shows "\<exists>r'. readCommand r = Some (Inr (AnyMoves ms), r') \<and> gr_in r' = s \<and> same_setting r r' \<and>
    gr_lastBoard r' = Some (line_end (gr_zobrist r) b ms)"
proof -
  note ws = legal_line_words [OF assms(7,5,6)]
  have wok: "list_all word_ok (map moveToStr ms)" using ws by (auto simp: list_all_iff)
  obtain w rest where w: "spaced (map moveToStr ms) = CHR '' '' # w" by (cases ms) (use assms(2) in auto)
  let ?line = "''moves'' @ CHR '' '' # w"
  have line: "gr_in r = ?line @ endl @ s" unfolding assms(1) moves_text w by simp
  have z: "CHR 0x00 \<notin> set w" "CHR 0x0A \<notin> set w"
    using set_spaced [of "map moveToStr ms"] ws unfolding w by (auto simp: list_all_iff)
  have n: "CHR 0x0A \<notin> set ?line" using z(2) by simp
  have lst: "w \<noteq> []" "\<not> isSpace (last w)"
    using last_spaced [OF wok] assms(2) word_ends(1) [of "moveToStr (hd ms)"] wok w
    by (auto simp: isSpace_def neq_Nil_conv split: if_splits)
  have t: "trim ?line = ?line" by (rule trim_id) (use lst in \<open>simp_all add: isSpace_def\<close>)
  have sp: "split (scanTokenStart w) = map moveToStr ms"
    using split_spaced [OF wok] split_loop_space [of w] split_loop_space [of "CHR '' '' # w"] by (simp add: split_def w isSpace_def)
  obtain r' where m: "read_moves b (map moveToStr ms) [] (next_line r s) = Some (Some (Inr (AnyMoves ms)), r')"
    using read_moves_written [of "next_line r s" b ms "[]"] assms(3,5,6,7) by auto
  have body: "drop (length (''moves'' @ CHR '' '' # w) - length (scanTokenStart w)) (''moves'' @ CHR '' '' # w) \<noteq> []"
  proof -
    have "scanTokenStart w \<noteq> []" using split_loop_Nil [of "scanTokenStart w"] sp assms(2) by (auto simp: split_def)
    then have "0 < length (scanTokenStart w)" by simp
    moreover have "0 < length (''moves'' @ CHR '' '' # w)" by simp
    ultimately show ?thesis unfolding drop_eq_Nil by linarith
  qed
  have "read_command_line (trim ?line) (next_line r s) = Some (Some (Inr (AnyMoves ms)), r')"
    unfolding t read_command_line_def Let_def command_words(1) [OF command_names(4), simplified] 
    using command_words [OF command_names(4), of w] c_str_id [OF z(1)] body m sp assms(4) by simp
  from readCommand_line [OF line n _ _ assms(8) this] show ?thesis using t assms(4) by auto
qed

section \<open>Reading games\<close>

lemma read_inner:
  assumes "gr_in r = commandWrite c @ s" "command_writable (gr_zobrist r) (gr_lastBoard r) c" "zobrist_ok (gr_zobrist r)"
    "length (cells (gr_fresh r)) = 64"
  shows "\<exists>r'. game_loop g r = game_loop (game_push c g) r' \<and> gr_in r' = s \<and> same_setting r r' \<and>
    gr_lastBoard r' = after_command (gr_zobrist r) (gr_lastBoard r) c"
proof (cases c)
  case (InnerBoard b)
  obtain r' where "readCommand r = Some (Inr (AnyBoard b), r')" "gr_in r' = s" "same_setting r r'" "gr_lastBoard r' = Some b"
    using read_board_written [of r b s] assms InnerBoard by auto
  then show ?thesis using InnerBoard by (subst game_loop.simps) auto
next
  case (InnerMoves ms)
  obtain b where b: "gr_lastBoard r = Some b" using assms(2) InnerMoves by (auto split: option.splits)
  obtain r' where "readCommand r = Some (Inr (AnyMoves ms), r')" "gr_in r' = s" "same_setting r r'"
      "gr_lastBoard r' = Some (line_end (gr_zobrist r) b ms)"
    using read_moves_line [of r ms s b] assms InnerMoves b by auto
  then show ?thesis using InnerMoves b by (subst game_loop.simps) auto
qed

lemma read_inners:
  "gr_in r = concat (map commandWrite cs) @ s \<Longrightarrow> commands_writable (gr_zobrist r) (gr_lastBoard r) cs \<Longrightarrow> zobrist_ok (gr_zobrist r) \<Longrightarrow>
    length (cells (gr_fresh r)) = 64 \<Longrightarrow>
    \<exists>r'. game_loop g r = game_loop (g\<lparr>gm_commands := gm_commands g @ cs\<rparr>) r' \<and> gr_in r' = s \<and> same_setting r r'"
proof (induction cs arbitrary: g r)
  case Nil
  then show ?case by (auto intro!: exI [of _ r])
next
  case (Cons c cs)
  obtain r1 where r1: "game_loop g r = game_loop (game_push c g) r1" "gr_in r1 = concat (map commandWrite cs) @ s" "same_setting r r1"
      "gr_lastBoard r1 = after_command (gr_zobrist r) (gr_lastBoard r) c"
    using read_inner [of r c "concat (map commandWrite cs) @ s" g] Cons.prems by auto
  have "gr_zobrist r1 = gr_zobrist r" "gr_fresh r1 = gr_fresh r" using r1(3) by (simp_all add: same_setting_def)
  then obtain r2 where "game_loop (game_push c g) r1 = game_loop ((game_push c g)\<lparr>gm_commands := gm_commands (game_push c g) @ cs\<rparr>) r2"
      "gr_in r2 = s" "same_setting r1 r2"
    using Cons.IH [of r1 "game_push c g"] Cons.prems r1(2,4) by auto
  then show ?case using r1(1) same_setting_trans [OF r1(3)] by (auto simp: game_push_def intro!: exI [of _ r2])
qed

text \<open>The text of a game after its header.\<close>

definition body_text :: "Game \<Rightarrow> string" where
  "body_text g = (case gm_title g of None \<Rightarrow> [] | Some t \<Rightarrow> title_command_write t) @ concat (map commandWrite (gm_commands g)) @ endl"

lemma game_write_body: "game_write g = game_command_write (gm_header g) @ body_text g"
  by (simp add: game_write_def body_text_def)

text \<open>A reader that has the games \<open>gs\<close> before it: the header of the first is read.\<close>

definition before_games :: "GameReader \<Rightarrow> Game list \<Rightarrow> bool" where
  "before_games r gs \<longleftrightarrow> zobrist_ok (gr_zobrist r) \<and> length (cells (gr_fresh r)) = 64 \<and> list_all (game_writable (gr_zobrist r)) gs \<and>
     (case gs of [] \<Rightarrow> gr_lastCommand r = Inl endOfStream
      | g # gs' \<Rightarrow> gr_lastCommand r = Inr (AnyGame (gm_header g)) \<and> gr_lastBoard r = None \<and>
          gr_in r = body_text g @ concat (map game_write gs'))"

lemma read_next_header:
  assumes "gr_in r = concat (map game_write gs)" "list_all (game_writable (gr_zobrist r)) gs" "zobrist_ok (gr_zobrist r)"
    "length (cells (gr_fresh r)) = 64"
  shows "\<exists>c r'. readCommand r = Some (c, r') \<and> before_games (r'\<lparr>gr_lastCommand := c\<rparr>) gs \<and> same_setting r r' \<and>
    (case gs of [] \<Rightarrow> c = Inl endOfStream | g # _ \<Rightarrow> c = Inr (AnyGame (gm_header g)))"
proof (cases gs)
  case Nil
  then show ?thesis using readCommand_end [of r] assms by (simp add: before_games_def)
next
  case (Cons g gs')
  have "gr_in r = game_command_write (gm_header g) @ body_text g @ concat (map game_write gs')"
    using assms(1) Cons by (simp add: game_write_body)
  moreover have "label_writable (gc_label (gm_header g))" using assms(2) Cons by (simp add: game_writable_def)
  ultimately obtain r' where "readCommand r = Some (Inr (AnyGame (gm_header g)), r')" "gr_in r' = body_text g @ concat (map game_write gs')"
      "same_setting r r'" "gr_lastBoard r' = None"
    using read_header assms(4) by blast
  then show ?thesis using assms(2-4) Cons by (simp add: before_games_def same_setting_def)
qed

lemma next_game_written:
  assumes "before_games r (g # gs)"
  shows "\<exists>r'. nextGame r = Some (Inr g, r') \<and> before_games r' gs"
proof -
  let ?s = "concat (map game_write gs)"
  have b: "zobrist_ok (gr_zobrist r)" "length (cells (gr_fresh r)) = 64" "list_all (game_writable (gr_zobrist r)) (g # gs)"
    "gr_lastCommand r = Inr (AnyGame (gm_header g))" "gr_lastBoard r = None" "gr_in r = body_text g @ ?s"
    using assms by (simp_all add: before_games_def)
  let ?h = "new_game (gm_header g)" and ?r = "r\<lparr>gr_capturedBoards := []\<rparr>"
  have gw: "commands_writable (gr_zobrist r) None (gm_commands g)" "case gm_title g of None \<Rightarrow> True | Some t \<Rightarrow> title_writable t"
    using b(3) by (simp_all add: game_writable_def)
  obtain r1 where r1: "game_loop ?h ?r = game_loop (?h\<lparr>gm_title := gm_title g\<rparr>) r1"
      "gr_in r1 = concat (map commandWrite (gm_commands g)) @ endl @ ?s" "same_setting r r1" "gr_lastBoard r1 = None"
  proof (cases "gm_title g")
    case None
    show thesis by (rule that [of ?r]) (use None b in \<open>simp_all add: new_game_def body_text_def same_setting_def\<close>)
  next
    case (Some t)
    obtain r1 where "readCommand ?r = Some (Inr (AnyTitle t), r1)" "gr_in r1 = concat (map commandWrite (gm_commands g)) @ endl @ ?s"
        "same_setting ?r r1" "gr_lastBoard r1 = gr_lastBoard ?r"
      using read_title [of ?r t "concat (map commandWrite (gm_commands g)) @ endl @ ?s"] Some b gw(2) by (auto simp: body_text_def)
    then show thesis
      by (intro that [of r1]) (use Some b in \<open>simp_all add: same_setting_def, subst game_loop.simps, simp add: game_apply_def\<close>)
  qed
  have same1: "gr_zobrist r1 = gr_zobrist r" "gr_fresh r1 = gr_fresh r" using r1(3) by (simp_all add: same_setting_def)
  have g: "(?h\<lparr>gm_title := gm_title g\<rparr>)\<lparr>gm_commands := gm_commands (?h\<lparr>gm_title := gm_title g\<rparr>) @ gm_commands g\<rparr> = g" by (simp add: new_game_def)
  obtain r2 where r2: "game_loop (?h\<lparr>gm_title := gm_title g\<rparr>) r1 = game_loop g r2" "gr_in r2 = endl @ ?s" "same_setting r1 r2"
    using read_inners [of r1 "gm_commands g" "endl @ ?s" "?h\<lparr>gm_title := gm_title g\<rparr>", unfolded g] r1(2,4) gw(1) b(1,2) same1 by auto
  have same2: "gr_zobrist (next_line r2 ?s) = gr_zobrist r" "gr_fresh (next_line r2 ?s) = gr_fresh r"
    using r2(3) same1 by (simp_all add: same_setting_def)
  obtain c r3 where r3: "readCommand (next_line r2 ?s) = Some (c, r3)" "before_games (r3\<lparr>gr_lastCommand := c\<rparr>) gs"
      "case gs of [] \<Rightarrow> c = Inl endOfStream | g # _ \<Rightarrow> c = Inr (AnyGame (gm_header g))"
    using read_next_header [of "next_line r2 ?s" gs] b(1-3) same2 by auto
  have "game_loop g r2 = Some (Inr g, r3\<lparr>gr_lastCommand := c\<rparr>)"
    using r3(1,3) readCommand_blank [OF r2(2)] by (subst game_loop.simps) (auto simp: endOfStream_def split: list.splits)
  then show ?thesis using r3(2) r2(1) r1(1) b(4) by (auto simp: nextGame_def)
qed

lemma games_given: "before_games r gs \<Longrightarrow> gives_games r gs"
proof (induction gs arbitrary: r)
  case Nil
  then show ?case by (simp add: before_games_def nextGame_def)
next
  case (Cons g gs)
  obtain r' where "nextGame r = Some (Inr g, r')" "before_games r' gs" using next_game_written [OF Cons.prems] by blast
  then show ?case using Cons.IH by simp
qed

lemma games_read_back:
  assumes "zobrist_ok z" "length (cells b0) = 64" "list_all (game_writable z) gs"
  shows "\<exists>r. game_reader (concat (map game_write gs)) options z b0 = Some r \<and> gives_games r gs"
proof -
  let ?r = "\<lparr>gr_in = concat (map game_write gs), gr_options = options, gr_line = 0, gr_lastCommand = Inl endOfStream, gr_lastBoard = None,
        gr_capturedBoards = [], gr_zobrist = z, gr_fresh = b0\<rparr>"
  obtain c r' where "readCommand ?r = Some (c, r')" "before_games (r'\<lparr>gr_lastCommand := c\<rparr>) gs"
    using read_next_header [of ?r gs] assms by auto
  then show ?thesis using games_given by (simp add: game_reader_def)
qed

end
