(* ===== verification/Buf_Writer.thy ===== *)
theory Buf_Writer
  imports Str_Lemmas
begin

text \<open>
  The buffered writer of \<^verbatim>\<open>ioutil\<close> over its interface of writers. The buffer is memory of a fixed size with a
  position; a copy that would leave it and a panic are \<open>None\<close>. What was written to a buffered writer is
  what its writer received followed by what is in the buffer.
\<close>

section \<open>Writers\<close>

type_synonym IOError = string

type_synonym 'w writer = "string \<Rightarrow> 'w \<Rightarrow> IOError option \<times> 'w"

definition string_write :: "string writer" where
  "string_write data str = (None, str @ data)"

text \<open>A stream takes characters until it fails: \<open>room\<close> more, if it is bounded.\<close>

record out_stream =
  st_text :: string
  st_room :: "nat option"

definition ostream_write :: "out_stream writer" where
  "ostream_write data out = (case st_room out of
     None \<Rightarrow> (None, out\<lparr>st_text := st_text out @ data\<rparr>)
   | Some n \<Rightarrow> if length data \<le> n then (None, out\<lparr>st_text := st_text out @ data, st_room := Some (n - length data)\<rparr>)
               else (Some ''Write error'', out\<lparr>st_text := st_text out @ take n data, st_room := Some 0\<rparr>))"

section \<open>The buffered writer\<close>

definition BUFFER_SIZE :: nat where "BUFFER_SIZE = 8192"

record 'w buf_writer =
  bw_writer :: 'w
  bw_buffer :: string
  bw_pos :: nat

definition BufWriter :: "'w \<Rightarrow> string \<Rightarrow> 'w buf_writer" where
  "BufWriter w memory = \<lparr>bw_writer = w, bw_buffer = memory, bw_pos = 0\<rparr>"

definition doWrite :: "'w writer \<Rightarrow> string \<Rightarrow> 'w buf_writer \<Rightarrow> 'w buf_writer option" where
  "doWrite write_to data bw = (case write_to data (bw_writer bw) of
     (None, w) \<Rightarrow> Some (bw\<lparr>bw_writer := w\<rparr>)
   | (Some _, _) \<Rightarrow> None)"

definition flush :: "'w writer \<Rightarrow> 'w buf_writer \<Rightarrow> 'w buf_writer option" where
  "flush write_to bw = map_option (\<lambda>bw'. bw'\<lparr>bw_pos := 0\<rparr>) (doWrite write_to (take (bw_pos bw) (bw_buffer bw)) bw)"

definition copy_in :: "nat \<Rightarrow> string \<Rightarrow> 'w buf_writer \<Rightarrow> 'w buf_writer option" where
  "copy_in pos data bw =
     (if pos + length data \<le> length (bw_buffer bw)
      then Some (bw\<lparr>bw_buffer := take pos (bw_buffer bw) @ data @ drop (pos + length data) (bw_buffer bw)\<rparr>) else None)"

definition writeStr :: "'w writer \<Rightarrow> string \<Rightarrow> 'w buf_writer \<Rightarrow> 'w buf_writer option" where
  "writeStr write_to value bw =
     (if length value \<ge> BUFFER_SIZE then Option.bind (flush write_to bw) (doWrite write_to value)
      else if bw_pos bw + length value \<ge> BUFFER_SIZE
      then (let splitPos = BUFFER_SIZE - bw_pos bw
            in Option.bind (copy_in (bw_pos bw) (take splitPos value) bw) (\<lambda>bw1.
               Option.bind (flush write_to (bw1\<lparr>bw_pos := BUFFER_SIZE\<rparr>)) (\<lambda>bw2.
               map_option (\<lambda>bw3. bw3\<lparr>bw_pos := length value - splitPos\<rparr>) (copy_in 0 (drop splitPos value) bw2))))
      else map_option (\<lambda>bw'. bw'\<lparr>bw_pos := bw_pos bw + length value\<rparr>) (copy_in (bw_pos bw) value bw))"

text \<open>\<^verbatim>\<open>std::to_chars\<close> into the buffer: \<open>None\<close> when the digits do not fit, the buffer being then unspecified from the position on
  (\<open>junk\<close>).\<close>

definition put_int :: "int \<Rightarrow> 'w buf_writer \<Rightarrow> 'w buf_writer option" where
  "put_int value bw =
     (if bw_pos bw + length (int_chars value) \<le> BUFFER_SIZE
      then map_option (\<lambda>bw'. bw'\<lparr>bw_pos := bw_pos bw + length (int_chars value)\<rparr>) (copy_in (bw_pos bw) (int_chars value) bw)
      else None)"

definition writeInt :: "'w writer \<Rightarrow> string \<Rightarrow> int \<Rightarrow> 'w buf_writer \<Rightarrow> 'w buf_writer option" where
  "writeInt write_to junk value bw = (case put_int value bw of
     Some bw' \<Rightarrow> Some bw'
   | None \<Rightarrow> Option.bind (flush write_to (bw\<lparr>bw_buffer := take (bw_pos bw) (bw_buffer bw) @ take (length (bw_buffer bw) - bw_pos bw) junk @
         drop (bw_pos bw + length (take (length (bw_buffer bw) - bw_pos bw) junk)) (bw_buffer bw)\<rparr>)) (put_int value))"

section \<open>What has been written\<close>

definition buffered :: "'w buf_writer \<Rightarrow> string" where
  "buffered bw = take (bw_pos bw) (bw_buffer bw)"

definition buf_ok :: "'w buf_writer \<Rightarrow> bool" where
  "buf_ok bw \<longleftrightarrow> length (bw_buffer bw) = BUFFER_SIZE \<and> bw_pos bw \<le> BUFFER_SIZE"

text \<open>The contract of a writer that works: what it holds grows by what it is given.\<close>

locale working_writer =
  fixes write_to :: "'w writer" and text_of :: "'w \<Rightarrow> string" and works :: "'w \<Rightarrow> bool"
  assumes writes: "works w \<Longrightarrow> \<exists>w'. write_to data w = (None, w') \<and> works w' \<and> text_of w' = text_of w @ data"
begin

definition written :: "'w buf_writer \<Rightarrow> string \<Rightarrow> bool" where
  "written bw s \<longleftrightarrow> buf_ok bw \<and> works (bw_writer bw) \<and> text_of (bw_writer bw) @ buffered bw = s"

lemma fresh_buffer: "works w \<Longrightarrow> length memory = BUFFER_SIZE \<Longrightarrow> written (BufWriter w memory) (text_of w)"
  by (simp add: written_def buf_ok_def BufWriter_def buffered_def)

lemma direct_write:
  assumes "written bw s" "bw_pos bw = 0"
  shows "\<exists>bw'. doWrite write_to data bw = Some bw' \<and> written bw' (s @ data) \<and> bw_pos bw' = 0"
proof -
  obtain w' where "write_to data (bw_writer bw) = (None, w')" "works w'" "text_of w' = text_of (bw_writer bw) @ data"
    using assms(1) writes [of "bw_writer bw" data] by (auto simp: written_def)
  then show ?thesis using assms by (auto simp: doWrite_def written_def buf_ok_def buffered_def)
qed

lemma flushed:
  assumes "written bw s"
  shows "\<exists>bw'. flush write_to bw = Some bw' \<and> written bw' s \<and> bw_pos bw' = 0 \<and> text_of (bw_writer bw') = s"
proof -
  obtain w' where "write_to (buffered bw) (bw_writer bw) = (None, w')" "works w'" "text_of w' = text_of (bw_writer bw) @ buffered bw"
    using assms writes [of "bw_writer bw" "buffered bw"] by (auto simp: written_def)
  then show ?thesis using assms by (auto simp: flush_def doWrite_def written_def buf_ok_def buffered_def)
qed

lemma copied:
  assumes "written bw s" "bw_pos bw + length data \<le> BUFFER_SIZE"
  shows "\<exists>bw'. copy_in (bw_pos bw) data bw = Some bw' \<and> written (bw'\<lparr>bw_pos := bw_pos bw + length data\<rparr>) (s @ data)"
proof -
  have l: "length (take (bw_pos bw) (bw_buffer bw)) = bw_pos bw" using assms by (simp add: written_def buf_ok_def)
  have "take (bw_pos bw + length data) (take (bw_pos bw) (bw_buffer bw) @ data @ d) = take (bw_pos bw) (bw_buffer bw) @ data" for d
    unfolding take_append l by simp
  then show ?thesis using assms by (simp add: copy_in_def written_def buf_ok_def buffered_def)
qed

lemma string_written:
  assumes "written bw s"
  shows "\<exists>bw'. writeStr write_to value bw = Some bw' \<and> written bw' (s @ value)"
proof -
  have p: "bw_pos bw \<le> BUFFER_SIZE" using assms by (simp add: written_def buf_ok_def)
  consider "length value \<ge> BUFFER_SIZE" | "length value < BUFFER_SIZE" "bw_pos bw + length value \<ge> BUFFER_SIZE"
    | "length value < BUFFER_SIZE" "bw_pos bw + length value < BUFFER_SIZE" by linarith
  then show ?thesis
  proof cases
    case 1
    obtain bw1 where "flush write_to bw = Some bw1" "written bw1 s" "bw_pos bw1 = 0" using flushed [OF assms] by blast
    then show ?thesis using 1 direct_write [of bw1 s "value"] by (auto simp: writeStr_def)
  next
    case 2
    let ?n = "BUFFER_SIZE - bw_pos bw"
    obtain bw1 where bw1: "copy_in (bw_pos bw) (take ?n value) bw = Some bw1" "written (bw1\<lparr>bw_pos := BUFFER_SIZE\<rparr>) (s @ take ?n value)"
    proof -
      have n: "length (take ?n value) = ?n" "bw_pos bw + ?n = BUFFER_SIZE" using 2 p by simp_all
      then show thesis using copied [OF assms, of "take ?n value"] that unfolding n by auto
    qed
    obtain bw2 where bw2: "flush write_to (bw1\<lparr>bw_pos := BUFFER_SIZE\<rparr>) = Some bw2" "written bw2 (s @ take ?n value)" "bw_pos bw2 = 0"
      using flushed [OF bw1(2)] by blast
    obtain bw3 where "copy_in 0 (drop ?n value) bw2 = Some bw3" "written (bw3\<lparr>bw_pos := length value - ?n\<rparr>) (s @ value)"
    proof -
      have n: "length (drop ?n value) = length value - ?n" "length value - ?n \<le> BUFFER_SIZE" using 2(1) by simp_all
      then show thesis using copied [OF bw2(2), of "drop ?n value"] that unfolding bw2(3) n(1) by auto
    qed
    then show ?thesis using 2 bw1(1) bw2(1) by (simp add: writeStr_def Let_def)
  next
    case 3
    then show ?thesis using copied [OF assms, of "value"] by (auto simp: writeStr_def)
  qed
qed

lemma int_put:
  assumes "written bw s" "bw_pos bw + length (int_chars v) \<le> BUFFER_SIZE"
  shows "\<exists>bw'. put_int v bw = Some bw' \<and> written bw' (s @ int_chars v)"
  using copied [OF assms] assms(2) by (auto simp: put_int_def)

lemma int_written:
  assumes "written bw s" "length (int_chars v) \<le> BUFFER_SIZE"
  shows "\<exists>bw'. writeInt write_to junk v bw = Some bw' \<and> written bw' (s @ int_chars v)"
proof (cases "bw_pos bw + length (int_chars v) \<le> BUFFER_SIZE")
  case True
  then obtain bw' where "put_int v bw = Some bw'" "written bw' (s @ int_chars v)" using int_put [OF assms(1)] by blast
  then show ?thesis by (simp add: writeInt_def)
next
  case False
  let ?bw = "bw\<lparr>bw_buffer := take (bw_pos bw) (bw_buffer bw) @ take (length (bw_buffer bw) - bw_pos bw) junk @
         drop (bw_pos bw + length (take (length (bw_buffer bw) - bw_pos bw) junk)) (bw_buffer bw)\<rparr>"
  have "written ?bw s" using assms(1) by (auto simp: written_def buf_ok_def buffered_def min_def)
  then obtain bw1 where bw1: "flush write_to ?bw = Some bw1" "written bw1 s" "bw_pos bw1 = 0" using flushed by blast
  have "put_int v bw = None" using False by (simp add: put_int_def)
  then show ?thesis using bw1 int_put [OF bw1(2), of v] assms(2) by (auto simp: writeInt_def)
qed

end

interpretation sw: working_writer string_write "\<lambda>s. s" "\<lambda>_. True"
  by unfold_locales (simp add: string_write_def)

interpretation ow: working_writer ostream_write st_text "\<lambda>out. st_room out = None"
  by unfold_locales (simp add: ostream_write_def)

text \<open>The digits of a 64-bit integer, signed or not, always fit.\<close>

lemma length_digits: "n < 10 ^ k \<Longrightarrow> 0 < k \<Longrightarrow> length (to_chars n) \<le> k"
proof (induction n arbitrary: k rule: to_chars.induct)
  case (1 n)
  show ?case
  proof (cases "n < 10")
    case True
    then show ?thesis using 1(3) by (subst to_chars.simps) simp
  next
    case False
    then obtain k' where k: "k = Suc k'" "0 < k'" using 1(2,3) by (cases k; cases "k - 1") auto
    have "n div 10 < 10 ^ k'" using 1(2) k by (simp add: less_mult_imp_div_less)
    then show ?thesis using 1(1) [OF False, of k'] k False by (subst to_chars.simps) simp
  qed
qed

lemma length_int_chars: "- (2 ^ 63) \<le> v \<Longrightarrow> v < 2 ^ 64 \<Longrightarrow> length (int_chars v) \<le> BUFFER_SIZE"
proof -
  assume v: "- (2 ^ 63) \<le> v" "v < 2 ^ 64"
  have "nat v < 10 ^ 20" "nat (- v) < 10 ^ 20" using v by auto
  then have "length (to_chars (nat v)) \<le> 20" "length (to_chars (nat (- v))) \<le> 20" by (auto intro: length_digits)
  then show ?thesis by (simp add: int_chars_def BUFFER_SIZE_def)
qed

end
