(* ===== verification/Dataset.thy ===== *)
theory Dataset
  imports Game_Set_Laws Buf_Writer
begin

text \<open>
  The program \<^verbatim>\<open>make_dataset\<close>: the games of a file are read, the boards worth learning from are chosen
  (\<open>GameConsumer\<close>), perhaps sampled at random (\<open>BoardSampler\<close>) and handed in batches to the threads that
  compute their coefficients (\<open>FeatureExtractor\<close>). \<open>None\<close> is an access outside a vector, a failed assertion, a panic,
  or an operation that the source leaves undefined. The random numbers of \<^verbatim>\<open>std::mt19937_64\<close> are a sequence \<open>rng\<close>, and
  \<^verbatim>\<open>std::shuffle\<close> is a parameter.
\<close>

record RichBoard =
  rb_winner :: Winner
  rb_gameId :: u64
  rb_boardsTotal :: nat
  rb_boardsLeft :: nat
  rb_board :: board

text \<open>The virtual functions of \<^verbatim>\<open>BoardConsumer\<close>.\<close>

record 'c BoardConsumer =
  bc_consume :: "RichBoard \<Rightarrow> 'c \<Rightarrow> 'c option"
  bc_finish :: "'c \<Rightarrow> 'c option"

section \<open>Batches\<close>

definition BATCH_SIZE :: nat where "BATCH_SIZE = 64"

text \<open>\<open>fe_boards\<close> and \<open>fe_strings\<close>: what was pushed into the two queues by this thread.\<close>

record FeatureExtractor =
  fe_batch :: "RichBoard list"
  fe_boards :: "RichBoard list list"
  fe_strings :: "string list"
  fe_closed :: bool

definition drainBatch :: "FeatureExtractor \<Rightarrow> FeatureExtractor" where
  "drainBatch fe = (if fe_batch fe \<noteq> [] then fe\<lparr>fe_boards := fe_boards fe @ [fe_batch fe], fe_batch := []\<rparr> else fe)"

definition putHeader :: "string list \<Rightarrow> FeatureExtractor \<Rightarrow> FeatureExtractor" where
  "putHeader names fe = fe\<lparr>fe_strings := fe_strings fe @
     [foldl (\<lambda>result nm. result @ '','' @ nm) ''winner,game_id,board_total,board_left'' names @ endl]\<rparr>"

definition new_extractor :: "string list \<Rightarrow> FeatureExtractor" where
  "new_extractor names = drainBatch (putHeader names \<lparr>fe_batch = [], fe_boards = [], fe_strings = [], fe_closed = False\<rparr>)"

definition extractor_consume :: "RichBoard \<Rightarrow> FeatureExtractor \<Rightarrow> FeatureExtractor option" where
  "extractor_consume b fe =
     (let fe' = fe\<lparr>fe_batch := fe_batch fe @ [b]\<rparr>
      in Some (if length (fe_batch fe') = BATCH_SIZE then drainBatch fe' else fe'))"

definition extractor_finish :: "FeatureExtractor \<Rightarrow> FeatureExtractor option" where
  "extractor_finish fe = Some ((drainBatch fe)\<lparr>fe_closed := True\<rparr>)"

definition extractor :: "FeatureExtractor BoardConsumer" where
  "extractor = \<lparr>bc_consume = extractor_consume, bc_finish = extractor_finish\<rparr>"

section \<open>Lines of the table\<close>

fun winnerToNumber :: "Winner \<Rightarrow> string option" where
  "winnerToNumber Winner_Black = Some ''0.0''"
| "winnerToNumber Winner_White = Some ''1.0''"
| "winnerToNumber Winner_Draw = Some ''0.5''"
| "winnerToNumber Winner_Unknown = None"

definition writeLine :: "'w writer \<Rightarrow> string \<Rightarrow> RichBoard \<Rightarrow> int list \<Rightarrow> 'w buf_writer \<Rightarrow> 'w buf_writer option" where
  "writeLine write_to junk b coefs buf0 =
     (let str = (\<lambda>s buf. Option.bind buf (writeStr write_to s));
          num = (\<lambda>n buf. Option.bind buf (writeInt write_to junk n))
      in str endl (foldl (\<lambda>buf c. num c (str '','' buf))
          (num (int (rb_boardsLeft b)) (str '','' (num (int (rb_boardsTotal b)) (str '','' (num (uint (rb_gameId b)) (str '',''
            (Option.bind (winnerToNumber (rb_winner b)) (\<lambda>s. writeStr write_to s buf0))))))))
          coefs))"

section \<open>Sampling\<close>

record 'c BoardSampler =
  bs_sampleSize :: "u64 option"
  bs_sample :: "RichBoard list"
  bs_random :: nat
  bs_consumer :: 'c
  bs_count :: u64

definition new_sampler :: "'c \<Rightarrow> u64 option \<Rightarrow> 'c BoardSampler" where
  "new_sampler c sampleSize = \<lparr>bs_sampleSize = sampleSize, bs_sample = [], bs_random = 0, bs_consumer = c, bs_count = 0\<rparr>"

definition sampler_forward :: "'c BoardConsumer \<Rightarrow> RichBoard \<Rightarrow> 'c BoardSampler \<Rightarrow> 'c BoardSampler option" where
  "sampler_forward bc b bs = map_option (\<lambda>c. bs\<lparr>bs_consumer := c\<rparr>) (bc_consume bc b (bs_consumer bs))"

definition sampler_consume :: "(nat \<Rightarrow> u64) \<Rightarrow> 'c BoardConsumer \<Rightarrow> RichBoard \<Rightarrow> 'c BoardSampler \<Rightarrow> 'c BoardSampler option" where
  "sampler_consume rng bc b bs0 =
     (let bs = bs0\<lparr>bs_count := bs_count bs0 + 1\<rparr>
      in (case bs_sampleSize bs of
           None \<Rightarrow> sampler_forward bc b bs
         | Some sz \<Rightarrow>
             if bs_count bs \<le> sz then Some (bs\<lparr>bs_sample := bs_sample bs @ [b]\<rparr>)
             else if bs_count bs = 0 then None
             else let bs1 = bs\<lparr>bs_random := bs_random bs + 1\<rparr>
                  in if rng (bs_random bs) mod bs_count bs < sz
                     then if sz = 0 then None
                          else let idx = unat (rng (bs_random bs1) mod sz); bs2 = bs1\<lparr>bs_random := bs_random bs1 + 1\<rparr>
                               in if idx < length (bs_sample bs2) then Some (bs2\<lparr>bs_sample := (bs_sample bs2)[idx := b]\<rparr>) else None
                     else Some bs1))"

fun forward_all :: "'c BoardConsumer \<Rightarrow> RichBoard list \<Rightarrow> 'c BoardSampler \<Rightarrow> 'c BoardSampler option" where
  "forward_all bc [] bs = Some bs"
| "forward_all bc (b # rest) bs = Option.bind (sampler_forward bc b bs) (forward_all bc rest)"

definition sampler_finish :: "(RichBoard list \<Rightarrow> RichBoard list) \<Rightarrow> 'c BoardConsumer \<Rightarrow> 'c BoardSampler \<Rightarrow> 'c BoardSampler option" where
  "sampler_finish shuffle bc bs =
     Option.bind
       (if bs_sampleSize bs \<noteq> None
        then (let sample = shuffle (bs_sample bs) in forward_all bc sample (bs\<lparr>bs_sample := sample\<rparr>)) else Some bs)
       (\<lambda>bs'. map_option (\<lambda>c. bs'\<lparr>bs_consumer := c\<rparr>) (bc_finish bc (bs_consumer bs')))"

definition sampler :: "(nat \<Rightarrow> u64) \<Rightarrow> (RichBoard list \<Rightarrow> RichBoard list) \<Rightarrow> 'c BoardConsumer \<Rightarrow> 'c BoardSampler BoardConsumer" where
  "sampler rng shuffle bc = \<lparr>bc_consume = sampler_consume rng bc, bc_finish = sampler_finish shuffle bc\<rparr>"

section \<open>Choosing the boards of a game\<close>

record 'c GameConsumer =
  gs_consumer :: 'c
  gs_count :: u64
  gs_filterBoards :: bool

definition checked_isCheck :: "board \<Rightarrow> bool option" where
  "checked_isCheck b = (if no_king b then None else Some (isCheck b))"

text \<open>\<open>Some False\<close> where the loop goes on with the next index.\<close>

definition keep_board :: "bool \<Rightarrow> board list \<Rightarrow> move list \<Rightarrow> nat \<Rightarrow> bool option" where
  "keep_board filterBoards boards moves idx =
     (if \<not> filterBoards then Some True
      else if idx < 5 then Some False
      else if idx - 1 \<ge> length moves then None
      else if isMoveCapture (boards ! (idx - 1)) (moves ! (idx - 1)) \<or> isMoveKindPromote (kind (moves ! (idx - 1))) then Some False
      else Option.bind (checked_isCheck (boards ! idx)) (\<lambda>c. if c then Some False
        else map_option Not (checked_isCheck (boards ! (idx - 1)))))"

fun board_loop :: "'c BoardConsumer \<Rightarrow> bool \<Rightarrow> Winner \<Rightarrow> u64 \<Rightarrow> board list \<Rightarrow> move list \<Rightarrow> nat list \<Rightarrow> 'c \<Rightarrow> 'c option" where
  "board_loop bc f w gid boards moves [] c = Some c"
| "board_loop bc f w gid boards moves (idx # rest) c =
     Option.bind (keep_board f boards moves idx) (\<lambda>keep.
       if keep
       then Option.bind (bc_consume bc \<lparr>rb_winner = w, rb_gameId = gid, rb_boardsTotal = length boards,
           rb_boardsLeft = length boards - idx - 1, rb_board = boards ! idx\<rparr> c) (board_loop bc f w gid boards moves rest)
       else board_loop bc f w gid boards moves rest c)"

fun command_moves :: "InnerCommand \<Rightarrow> move list" where
  "command_moves (InnerBoard _) = []"
| "command_moves (InnerMoves ms) = ms"

definition consume_game :: "'c BoardConsumer \<Rightarrow> Game \<Rightarrow> board list \<Rightarrow> 'c GameConsumer \<Rightarrow> (string option \<times> 'c GameConsumer) option" where
  "consume_game bc game boards gc =
     (if \<not> isCanonical game then Some (Some ''The game is not canonical'', gc)
      else if gc_winner (gm_header game) = Winner_Unknown then Some (Some ''Games without winners are not supported'', gc)
      else let gc1 = gc\<lparr>gs_count := gs_count gc + 1\<rparr>;
               moves = foldl (\<lambda>ms c. ms @ command_moves c) [] (gm_commands game)
           in map_option (\<lambda>c. (None, gc1\<lparr>gs_consumer := c\<rparr>))
                (board_loop bc (gs_filterBoards gc) (gc_winner (gm_header game)) (gs_count gc1) boards moves [0..<length boards] (gs_consumer gc1)))"

definition finish_games :: "'c BoardConsumer \<Rightarrow> string option \<Rightarrow> 'c GameConsumer \<Rightarrow> (string option \<times> 'c GameConsumer) option" where
  "finish_games bc result gc = map_option (\<lambda>c. (result, gc\<lparr>gs_consumer := c\<rparr>)) (bc_finish bc (gs_consumer gc))"

definition line_message :: "nat \<Rightarrow> string \<Rightarrow> string" where
  "line_message line message = ''Line '' @ to_chars line @ '': '' @ message"

section \<open>Processing a file\<close>

text \<open>What a reader can still return.\<close>

definition reader_left :: "GameReader \<Rightarrow> nat" where
  "reader_left r = length (gr_in r) + (case gr_lastCommand r of Inl _ \<Rightarrow> 0 | Inr _ \<Rightarrow> 1)"

lemma game_loop_left:
  "game_loop g r = Some (Inr g', r') \<Longrightarrow> reader_left r' \<le> length (gr_in r)"
proof (induction g r rule: game_loop.induct)
  case (1 g r)
  obtain c r1 where c: "readCommand r = Some (c, r1)" using 1(3) by (subst (asm) game_loop.simps) (auto split: option.splits)
  show ?case
  proof (cases c)
    case (Inl e)
    then show ?thesis using 1(3) c readCommand_stream [OF c]
      by (subst (asm) game_loop.simps) (auto simp: reader_left_def Let_def split: if_splits)
  next
    case (Inr cmd)
    have l: "length (gr_in r1) < length (gr_in r)" using readCommand_stream [OF c] Inr by auto
    show ?thesis
    proof (cases "commandSplit cmd")
      case (SplitGame gc)
      then show ?thesis using 1(3) c Inr l by (subst (asm) game_loop.simps) (auto simp: reader_left_def)
    next
      case (SplitMetadata t)
      have "game_loop (game_apply t g) r1 = Some (Inr g', r')" using 1(3) c Inr SplitMetadata by (subst (asm) game_loop.simps) simp
      then show ?thesis using 1(1) [OF c refl Inr SplitMetadata] l by simp
    next
      case (SplitInner i)
      have "game_loop (game_push i g) r1 = Some (Inr g', r')" using 1(3) c Inr SplitInner by (subst (asm) game_loop.simps) simp
      then show ?thesis using 1(2) [OF c refl Inr SplitInner] l by simp
    qed
  qed
qed

lemma nextGame_left: "nextGame r = Some (Inr g, r') \<Longrightarrow> reader_left r' < reader_left r"
  by (auto simp: nextGame_def reader_left_def [of r] dest!: game_loop_left split: sum.splits AnyCommand.splits)

function process_games :: "'c BoardConsumer \<Rightarrow> GameReader \<Rightarrow> 'c GameConsumer \<Rightarrow> (string option \<times> 'c GameConsumer) option" where
  "process_games bc reader gc =
     (let line = lineCount reader
      in (case nextGame reader of
           None \<Rightarrow> None
         | Some (Inl e, _) \<Rightarrow> finish_games bc (if re_status e = EndOfStream then None else Some (line_message (re_line e) (re_message e))) gc
         | Some (Inr game, reader') \<Rightarrow>
             (case Option.bind (capturedBoards reader') (\<lambda>boards. consume_game bc game boards gc) of
                None \<Rightarrow> None
              | Some (None, gc') \<Rightarrow> process_games bc reader' gc'
              | Some (Some message, gc') \<Rightarrow> finish_games bc (Some (line_message line message)) gc')))"
  by auto
termination
  by (relation "measure (\<lambda>(_, r, _). reader_left r)") (auto dest: nextGame_left)

declare process_games.simps [simp del]

definition processGameSet :: "zobrist \<Rightarrow> board \<Rightarrow> 'c BoardConsumer \<Rightarrow> string \<Rightarrow> 'c GameConsumer \<Rightarrow> (string option \<times> 'c GameConsumer) option" where
  "processGameSet z b0 bc inp gc = Option.bind (game_reader inp CaptureBoards z b0) (\<lambda>reader. process_games bc reader gc)"

text \<open>\<^verbatim>\<open>run\<close>: the exit code, and the extractor behind the sampler when all is done.\<close>

definition dataset_run :: "zobrist \<Rightarrow> board \<Rightarrow> (nat \<Rightarrow> u64) \<Rightarrow> (RichBoard list \<Rightarrow> RichBoard list) \<Rightarrow> string list \<Rightarrow> u64 option \<Rightarrow> bool \<Rightarrow> string \<Rightarrow>
    (int \<times> FeatureExtractor) option" where
  "dataset_run z b0 rng shuffle names sampleSize filterBoards inp =
     map_option (\<lambda>(result, gc). (if result = None then 0 else 1, bs_consumer (gs_consumer gc)))
       (processGameSet z b0 (sampler rng shuffle extractor) inp
          \<lparr>gs_consumer = new_sampler (new_extractor names) sampleSize, gs_count = 0, gs_filterBoards = filterBoards\<rparr>)"

end
