(* ===== verification/Dataset_Laws.thy ===== *)
theory Dataset_Laws
  imports Dataset
begin

text \<open>
  The table of a file of games: the boards of a canonical game that was read match its moves, so that the choice
  of boards stays inside the vectors; the boards chosen reach the batches in their order; and a sample of bounded
  size has as many boards as it can.
\<close>

section \<open>The boards of a canonical game\<close>

lemma length_line_boards: "length (line_boards z b ms) = length ms"
  by (induction ms arbitrary: b) (simp_all add: Let_def)

lemma length_game_boards:
  "game_legal z lb cs \<Longrightarrow> length (game_boards z lb cs) = length (filter is_board_command cs) + length (concat (map command_moves cs))"
proof (induction cs arbitrary: lb)
  case (Cons c cs)
  then show ?case by (cases c) (auto simp: length_line_boards split: option.splits)
qed simp

lemma canonical_count:
  assumes "isCanonical g"
  shows "length (filter is_board_command (gm_commands g)) = 1"
proof -
  have "foldl (\<lambda>n c. if is_board_command c then n + 1 else n) k cs = k + length (filter is_board_command cs)" for k cs
    by (induction cs arbitrary: k) auto
  then show ?thesis using assms by (simp add: isCanonical_def split: if_splits)
qed

definition game_moves :: "Game \<Rightarrow> move list" where
  "game_moves g = concat (map command_moves (gm_commands g))"

lemma foldl_moves: "foldl (\<lambda>ms c. ms @ command_moves c) [] cs = concat (map command_moves cs)"
proof -
  have "foldl (\<lambda>ms c. ms @ command_moves c) acc cs = acc @ concat (map command_moves cs)" for acc
    by (induction cs arbitrary: acc) simp_all
  then show ?thesis by simp
qed

lemma canonical_aligned:
  assumes "game_legal z None (gm_commands g)" "isCanonical g"
  shows "length (game_boards z None (gm_commands g)) = length (game_moves g) + 1"
  using length_game_boards [OF assms(1)] canonical_count [OF assms(2)] by (simp add: game_moves_def)

lemma keep_board_total:
  assumes "length bs \<le> length ms + 1" "\<forall>b\<in>set bs. \<not> no_king b" "idx < length bs"
  shows "\<exists>k. keep_board f bs ms idx = Some k"
proof -
  have "bs ! idx \<in> set bs" "bs ! (idx - 1) \<in> set bs" using assms(3) by (auto intro: nth_mem)
  then show ?thesis using assms by (auto simp: keep_board_def checked_isCheck_def)
qed

definition board_rows :: "bool \<Rightarrow> Winner \<Rightarrow> u64 \<Rightarrow> board list \<Rightarrow> move list \<Rightarrow> nat list \<Rightarrow> RichBoard list" where
  "board_rows f w gid bs ms idxs = map (\<lambda>idx. \<lparr>rb_winner = w, rb_gameId = gid, rb_boardsTotal = length bs,
     rb_boardsLeft = length bs - idx - 1, rb_board = bs ! idx\<rparr>) (filter (\<lambda>idx. keep_board f bs ms idx = Some True) idxs)"

definition game_rows :: "zobrist \<Rightarrow> bool \<Rightarrow> u64 \<Rightarrow> Game \<Rightarrow> RichBoard list" where
  "game_rows z f gid g = (let bs = game_boards z None (gm_commands g)
     in board_rows f (gc_winner (gm_header g)) gid bs (game_moves g) [0..<length bs])"

fun dataset_rows :: "zobrist \<Rightarrow> bool \<Rightarrow> u64 \<Rightarrow> Game list \<Rightarrow> RichBoard list" where
  "dataset_rows z f gid [] = []"
| "dataset_rows z f gid (g # gs) = game_rows z f (gid + 1) g @ dataset_rows z f (gid + 1) gs"

text \<open>Games that can be learnt from.\<close>

definition instructive :: "zobrist \<Rightarrow> Game \<Rightarrow> bool" where
  "instructive z g \<longleftrightarrow> isCanonical g \<and> gc_winner (gm_header g) \<noteq> Winner_Unknown \<and>
     list_all (\<lambda>b. \<not> no_king b) (game_boards z None (gm_commands g))"

section \<open>Consumers of boards\<close>

text \<open>\<open>holds c rows\<close>: the consumer has taken the boards \<open>rows\<close>; \<open>final c rows\<close>: it has then been finished.\<close>

locale board_sink =
  fixes bc :: "'c BoardConsumer" and holds final :: "'c \<Rightarrow> RichBoard list \<Rightarrow> bool"
  assumes takes: "holds c rows \<Longrightarrow> \<exists>c'. bc_consume bc b c = Some c' \<and> holds c' (rows @ [b])"
    and ends: "holds c rows \<Longrightarrow> \<exists>c'. bc_finish bc c = Some c' \<and> final c' rows"
begin

lemma takes_boards:
  assumes "length bs \<le> length ms + 1" "\<forall>b\<in>set bs. \<not> no_king b"
  shows "\<forall>i\<in>set idxs. i < length bs \<Longrightarrow> holds c rows \<Longrightarrow>
    \<exists>c'. board_loop bc f w gid bs ms idxs c = Some c' \<and> holds c' (rows @ board_rows f w gid bs ms idxs)"
proof (induction idxs arbitrary: c rows)
  case Nil
  then show ?case by (simp add: board_rows_def)
next
  case (Cons i idxs)
  let ?b = "\<lparr>rb_winner = w, rb_gameId = gid, rb_boardsTotal = length bs, rb_boardsLeft = length bs - i - 1, rb_board = bs ! i\<rparr>"
  obtain k where k: "keep_board f bs ms i = Some k" using keep_board_total [OF assms, of i f] Cons.prems(1) by auto
  show ?case
  proof (cases k)
    case True
    obtain c1 where c1: "bc_consume bc ?b c = Some c1" "holds c1 (rows @ [?b])" using takes [OF Cons.prems(2)] by blast
    obtain c2 where "board_loop bc f w gid bs ms idxs c1 = Some c2" "holds c2 ((rows @ [?b]) @ board_rows f w gid bs ms idxs)"
      using Cons.IH [OF _ c1(2)] Cons.prems(1) by auto
    then show ?thesis using k True c1(1) by (simp add: board_rows_def)
  next
    case False
    then show ?thesis using Cons.IH [OF _ Cons.prems(2)] Cons.prems(1) k by (simp add: board_rows_def)
  qed
qed

lemma takes_game:
  assumes "game_legal z None (gm_commands g)" "list_all (\<lambda>b. \<not> no_king b) (game_boards z None (gm_commands g))" "holds (gs_consumer gc) rows"
  shows "\<exists>res gc'. consume_game bc g (game_boards z None (gm_commands g)) gc = Some (res, gc') \<and> gs_filterBoards gc' = gs_filterBoards gc \<and>
    (res = None \<longleftrightarrow> instructive z g) \<and> (if res = None
      then gs_count gc' = gs_count gc + 1 \<and> holds (gs_consumer gc') (rows @ game_rows z (gs_filterBoards gc) (gs_count gc + 1) g) else gc' = gc)"
proof (cases "instructive z g")
  case True
  let ?bs = "game_boards z None (gm_commands g)"
  have c: "isCanonical g" "gc_winner (gm_header g) \<noteq> Winner_Unknown" using True by (simp_all add: instructive_def)
  obtain c' where "board_loop bc (gs_filterBoards gc) (gc_winner (gm_header g)) (gs_count gc + 1) ?bs (game_moves g) [0..<length ?bs] (gs_consumer gc) = Some c'"
      "holds c' (rows @ game_rows z (gs_filterBoards gc) (gs_count gc + 1) g)"
  proof -
    have "length ?bs \<le> length (game_moves g) + 1" using canonical_aligned [OF assms(1) c(1)] by simp
    moreover have "\<forall>b\<in>set ?bs. \<not> no_king b" using assms(2) by (simp add: list_all_iff)
    moreover have "\<forall>i\<in>set [0..<length ?bs]. i < length ?bs" by simp
    ultimately show thesis using takes_boards [OF _ _ _ assms(3)] that unfolding game_rows_def Let_def by blast
  qed
  then show ?thesis using c True by (simp add: consume_game_def foldl_moves game_moves_def Let_def)
next
  case False
  then show ?thesis using assms(2) by (auto simp: instructive_def consume_game_def)
qed

lemma takes_games:
  "before_games r gs \<Longrightarrow> canCaptureBoards r \<Longrightarrow> list_all (instructive (gr_zobrist r)) gs \<Longrightarrow> holds (gs_consumer gc) rows \<Longrightarrow>
    \<exists>gc'. process_games bc r gc = Some (None, gc') \<and>
      final (gs_consumer gc') (rows @ dataset_rows (gr_zobrist r) (gs_filterBoards gc) (gs_count gc) gs)"
proof (induction gs arbitrary: r gc rows)
  case Nil
  then have "nextGame r = Some (Inl endOfStream, r)" by (simp add: before_games_def nextGame_def)
  moreover obtain c where "bc_finish bc (gs_consumer gc) = Some c" "final c rows" using ends [OF Nil.prems(4)] by blast
  ultimately show ?case by (subst process_games.simps) (simp add: finish_games_def endOfStream_def)
next
  case (Cons g gs)
  obtain r' where r': "nextGame r = Some (Inr g, r')" "before_games r' gs" using next_game_written [OF Cons.prems(1)] by blast
  have "reader_ok r" using Cons.prems(1) by (simp add: before_games_def reader_ok_def)
  note e = nextGame_effect [OF this r'(1)]
  let ?bs = "game_boards (gr_zobrist r) None (gm_commands g)"
  have z: "gr_zobrist r' = gr_zobrist r" "canCaptureBoards r'" "capturedBoards r' = Some ?bs"
    using e Cons.prems(2) same_setting_captures [of r r'] by (simp_all add: same_setting_def capturedBoards_def)
  have i: "instructive (gr_zobrist r) g" "list_all (instructive (gr_zobrist r)) gs" using Cons.prems(3) by simp_all
  obtain gc1 where gc1: "consume_game bc g ?bs gc = Some (None, gc1)" "gs_filterBoards gc1 = gs_filterBoards gc" "gs_count gc1 = gs_count gc + 1"
      "holds (gs_consumer gc1) (rows @ game_rows (gr_zobrist r) (gs_filterBoards gc) (gs_count gc + 1) g)"
    using takes_game [of "gr_zobrist r" g gc rows] e i(1) Cons.prems(4) by (auto simp: instructive_def)
  show ?case using Cons.IH [OF r'(2) z(2) _ gc1(4)] i(2) z(1,3) r'(1) gc1(1-3) by (subst process_games.simps) simp
qed

lemma reads_games:
  assumes "zobrist_ok z" "length (cells b0) = 64" "list_all (game_writable z) gs" "list_all (instructive z) gs" "holds (gs_consumer gc) []"
  shows "\<exists>gc'. processGameSet z b0 bc (concat (map game_write gs)) gc = Some (None, gc') \<and>
    final (gs_consumer gc') (dataset_rows z (gs_filterBoards gc) (gs_count gc) gs)"
proof -
  let ?r = "\<lparr>gr_in = concat (map game_write gs), gr_options = CaptureBoards, gr_line = 0, gr_lastCommand = Inl endOfStream, gr_lastBoard = None,
        gr_capturedBoards = [], gr_zobrist = z, gr_fresh = b0\<rparr>"
  obtain c r' where r': "readCommand ?r = Some (c, r')" "before_games (r'\<lparr>gr_lastCommand := c\<rparr>) gs" "same_setting ?r r'"
    using read_next_header [of ?r gs] assms by auto
  have "canCaptureBoards ?r" by (simp add: canCaptureBoards_def CaptureBoards_def Options_None_def)
  then show ?thesis
    using takes_games [OF r'(2), of gc "[]"] r'(1,3) assms same_setting_captures [OF r'(3)]
    by (simp add: processGameSet_def game_reader_def same_setting_def)
qed

end

section \<open>Batches\<close>

definition batched :: "FeatureExtractor \<Rightarrow> RichBoard list \<Rightarrow> bool" where
  "batched fe rows \<longleftrightarrow> concat (fe_boards fe) @ fe_batch fe = rows \<and> length (fe_batch fe) < BATCH_SIZE \<and>
     list_all (\<lambda>b. length b = BATCH_SIZE) (fe_boards fe) \<and> \<not> fe_closed fe"

definition drained :: "FeatureExtractor \<Rightarrow> RichBoard list \<Rightarrow> bool" where
  "drained fe rows \<longleftrightarrow> concat (fe_boards fe) = rows \<and> fe_batch fe = [] \<and> list_all (\<lambda>b. b \<noteq> [] \<and> length b \<le> BATCH_SIZE) (fe_boards fe) \<and> fe_closed fe"

lemma extractor_takes: "batched fe rows \<Longrightarrow> \<exists>fe'. extractor_consume b fe = Some fe' \<and> batched fe' (rows @ [b])"
  by (auto simp: batched_def extractor_consume_def drainBatch_def Let_def BATCH_SIZE_def)

lemma extractor_ends: "batched fe rows \<Longrightarrow> \<exists>fe'. extractor_finish fe = Some fe' \<and> drained fe' rows"
  by (auto simp: batched_def drained_def extractor_finish_def drainBatch_def BATCH_SIZE_def list_all_iff)

lemma new_extractor_batched: "batched (new_extractor names) []"
  by (simp add: new_extractor_def putHeader_def drainBatch_def batched_def BATCH_SIZE_def)

interpretation ex: board_sink extractor batched drained
  by unfold_locales (simp_all add: extractor_def extractor_takes extractor_ends)

section \<open>Samples\<close>

definition passed :: "FeatureExtractor BoardSampler \<Rightarrow> RichBoard list \<Rightarrow> bool" where
  "passed bs rows \<longleftrightarrow> bs_sampleSize bs = None \<and> batched (bs_consumer bs) rows"

interpretation pass: board_sink "sampler rng shuffle extractor" passed "\<lambda>bs rows. drained (bs_consumer bs) rows" for rng shuffle
proof unfold_locales
  fix bs rows b assume "passed bs rows"
  then show "\<exists>c'. bc_consume (sampler rng shuffle extractor) b bs = Some c' \<and> passed c' (rows @ [b])"
    using extractor_takes [of "bs_consumer bs" rows b]
    by (auto simp: passed_def sampler_def sampler_consume_def sampler_forward_def extractor_def Let_def)
next
  fix bs rows assume "passed bs rows"
  then show "\<exists>c'. bc_finish (sampler rng shuffle extractor) bs = Some c' \<and> drained (bs_consumer c') rows"
    using extractor_ends [of "bs_consumer bs" rows]
    by (auto simp: passed_def sampler_def sampler_finish_def extractor_def)
qed

text \<open>\<open>sample_of sz rows sample\<close>: boards of \<open>rows\<close>, as many as there are up to \<open>sz\<close>.\<close>

definition sample_length :: "nat \<Rightarrow> nat \<Rightarrow> nat \<Rightarrow> nat \<Rightarrow> bool" where
  "sample_length N sz n len \<longleftrightarrow> min (n mod N) sz \<le> len \<and> (n < N \<longrightarrow> len = min n sz)"

lemma sample_length_Suc:
  assumes "sample_length N sz n len" "0 < N"
  shows "Suc n mod N \<le> sz \<Longrightarrow> sample_length N sz (Suc n) (Suc len)"
    "sz < Suc n mod N \<Longrightarrow> sample_length N sz (Suc n) len" "sz < Suc n mod N \<Longrightarrow> sz \<le> len"
  using assms by (auto simp: sample_length_def mod_Suc split: if_splits)

definition sample_of :: "nat \<Rightarrow> RichBoard list \<Rightarrow> RichBoard list \<Rightarrow> bool" where
  "sample_of sz rows sample \<longleftrightarrow> set sample \<subseteq> set rows \<and> sample_length (2 ^ 64) sz (length rows) (length sample)"

definition sampled :: "u64 \<Rightarrow> FeatureExtractor BoardSampler \<Rightarrow> RichBoard list \<Rightarrow> bool" where
  "sampled sz bs rows \<longleftrightarrow> bs_sampleSize bs = Some sz \<and> bs_count bs = of_nat (length rows) \<and> sample_of (unat sz) rows (bs_sample bs) \<and>
     batched (bs_consumer bs) []"

lemma sampled_takes:
  assumes "sampled sz bs rows"
  shows "\<exists>bs'. sampler_consume rng extractor b bs = Some bs' \<and> sampled sz bs' (rows @ [b])"
proof -
  have i: "bs_sampleSize bs = Some sz" "bs_count bs = of_nat (length rows)" "set (bs_sample bs) \<subseteq> set rows"
    "sample_length (2 ^ 64) (unat sz) (length rows) (length (bs_sample bs))" "batched (bs_consumer bs) []"
    using assms by (simp_all add: sampled_def sample_of_def)
  let ?n = "bs_count bs + 1"
  have n: "?n = of_nat (length (rows @ [b]))" using i(2) by simp
  have u: "unat ?n = Suc (length rows) mod 2 ^ 64" unfolding n by (simp only: unat_of_nat length_append_singleton) simp
  note len = sample_length_Suc [OF i(4)]
  show ?thesis
  proof (cases "?n \<le> sz")
    case True
    then have "Suc (length rows) mod 2 ^ 64 \<le> unat sz" unfolding u [symmetric] by (simp add: word_le_nat_alt)
    then have "sample_of (unat sz) (rows @ [b]) (bs_sample bs @ [b])" using i(3) len(1) by (auto simp: sample_of_def)
    moreover have "sampler_consume rng extractor b bs = Some (bs\<lparr>bs_count := ?n, bs_sample := bs_sample bs @ [b]\<rparr>)"
      using True i(1) by (simp add: sampler_consume_def Let_def)
    ultimately show ?thesis using i(1,5) n by (simp add: sampled_def)
  next
    case False
    then have gt: "unat sz < Suc (length rows) mod 2 ^ 64" unfolding u [symmetric] by (simp add: word_le_nat_alt)
    then have nz: "?n \<noteq> 0" unfolding u [symmetric] by auto
    have keep: "sample_of (unat sz) (rows @ [b]) s" if "set s \<subseteq> insert b (set (bs_sample bs))" "length s = length (bs_sample bs)" for s
      using i(3) len(2) gt that by (auto simp: sample_of_def)
    have idx: "unat (x mod sz) < length (bs_sample bs)" if "sz \<noteq> 0" for x :: u64
    proof -
      have "x mod sz < sz" using that by (simp add: word_mod_less_divisor word_gt_0)
      then show ?thesis using len(3) gt by (simp add: word_less_nat_alt)
    qed
    have up: "set ((bs_sample bs)[k := b]) \<subseteq> insert b (set (bs_sample bs))" for k by (rule set_update_subset_insert)
    let ?r = "bs_random bs"
    show ?thesis
    proof (cases "rng ?r mod ?n < sz")
      case True
      then have sz: "sz \<noteq> 0" by auto
      let ?k = "unat (rng (?r + 1) mod sz)"
      have "sampler_consume rng extractor b bs = Some (bs\<lparr>bs_count := ?n, bs_random := ?r + 1 + 1, bs_sample := (bs_sample bs)[?k := b]\<rparr>)"
        using False nz True sz idx [OF sz] i(1) by (simp add: sampler_consume_def Let_def)
      then show ?thesis using i(1,5) n keep [OF up, of ?k] by (simp add: sampled_def)
    next
      case no: False
      have "sampler_consume rng extractor b bs = Some (bs\<lparr>bs_count := ?n, bs_random := ?r + 1\<rparr>)"
        using False nz no i(1) by (simp add: sampler_consume_def Let_def)
      then show ?thesis using i(1,5) n keep [of "bs_sample bs"] by (auto simp: sampled_def)
    qed
  qed
qed

lemma forwards:
  assumes "batched (bs_consumer bs) rows"
  shows "\<exists>bs'. forward_all extractor bl bs = Some bs' \<and> batched (bs_consumer bs') (rows @ bl)"
  using assms
proof (induction bl arbitrary: bs rows)
  case (Cons b bl)
  obtain fe where "extractor_consume b (bs_consumer bs) = Some fe" "batched fe (rows @ [b])" using extractor_takes [OF Cons.prems] by blast
  then show ?case using Cons.IH [of "bs\<lparr>bs_consumer := fe\<rparr>" "rows @ [b]"] by (simp add: sampler_forward_def extractor_def)
qed simp

definition sampled_out :: "(RichBoard list \<Rightarrow> RichBoard list) \<Rightarrow> u64 \<Rightarrow> FeatureExtractor BoardSampler \<Rightarrow> RichBoard list \<Rightarrow> bool" where
  "sampled_out shuffle sz bs rows \<longleftrightarrow> (\<exists>sample. sample_of (unat sz) rows sample \<and> drained (bs_consumer bs) (shuffle sample))"

lemma sampled_ends:
  assumes "sampled sz bs rows"
  shows "\<exists>bs'. sampler_finish shuffle extractor bs = Some bs' \<and> sampled_out shuffle sz bs' rows"
proof -
  have i: "bs_sampleSize bs = Some sz" "sample_of (unat sz) rows (bs_sample bs)" "batched (bs_consumer bs) []"
    using assms by (simp_all add: sampled_def)
  let ?s = "shuffle (bs_sample bs)"
  obtain bs1 where bs1: "forward_all extractor ?s (bs\<lparr>bs_sample := ?s\<rparr>) = Some bs1" "batched (bs_consumer bs1) ?s"
    using forwards [of "bs\<lparr>bs_sample := ?s\<rparr>" "[]" ?s] i(3) by auto
  obtain fe where "extractor_finish (bs_consumer bs1) = Some fe" "drained fe ?s" using extractor_ends [OF bs1(2)] by blast
  then show ?thesis using bs1(1) i(1,2) by (auto simp: sampler_finish_def Let_def extractor_def sampled_out_def)
qed

interpretation samp: board_sink "sampler rng shuffle extractor" "sampled sz" "sampled_out shuffle sz" for rng shuffle sz
  by unfold_locales (simp_all add: sampler_def sampled_takes sampled_ends)

section \<open>Lines\<close>

definition line_text :: "string \<Rightarrow> RichBoard \<Rightarrow> int list \<Rightarrow> string" where
  "line_text w b coefs = w @ '','' @ int_chars (uint (rb_gameId b)) @ '','' @ int_chars (int (rb_boardsTotal b)) @ '','' @
     int_chars (int (rb_boardsLeft b)) @ concat (map (\<lambda>c. '','' @ int_chars c) coefs) @ endl"

definition int64 :: "int \<Rightarrow> bool" where
  "int64 v \<longleftrightarrow> - (2 ^ 63) \<le> v \<and> v < 2 ^ 64"

context working_writer begin

definition has_text :: "'w buf_writer option \<Rightarrow> string \<Rightarrow> bool" where
  "has_text buf s \<longleftrightarrow> (\<exists>bw. buf = Some bw \<and> written bw s)"

lemma has_text_str: "has_text buf s \<Longrightarrow> has_text (Option.bind buf (writeStr write_to v)) (s @ v)"
  using string_written by (fastforce simp: has_text_def)

lemma has_text_int: "has_text buf s \<Longrightarrow> int64 v \<Longrightarrow> has_text (Option.bind buf (writeInt write_to junk v)) (s @ int_chars v)"
  using int_written length_int_chars by (fastforce simp: has_text_def int64_def)

lemma has_text_coefs:
  "has_text buf s \<Longrightarrow> list_all int64 coefs \<Longrightarrow>
    has_text (foldl (\<lambda>buf c. Option.bind (Option.bind buf (writeStr write_to '','')) (writeInt write_to junk c)) buf coefs)
      (s @ concat (map (\<lambda>c. '','' @ int_chars c) coefs))"
proof (induction coefs arbitrary: buf s)
  case (Cons c coefs)
  have "has_text (Option.bind (Option.bind buf (writeStr write_to '','')) (writeInt write_to junk c)) ((s @ '','') @ int_chars c)"
    using Cons.prems by (intro has_text_int has_text_str) simp_all
  from Cons.IH [OF this] Cons.prems show ?case by simp
qed simp

lemma line_written:
  assumes "written bw s" "winnerToNumber (rb_winner b) = Some w" "int64 (int (rb_boardsTotal b))" "int64 (int (rb_boardsLeft b))" "list_all int64 coefs"
  shows "has_text (writeLine write_to junk b coefs bw) (s @ line_text w b coefs)"
proof -
  have u: "int64 (uint (rb_gameId b))" using uint_lt2p [of "rb_gameId b"] order_trans [OF _ uint_ge_0 [of "rb_gameId b"], of "- (2 ^ 63)"] by (simp add: int64_def)
  have "has_text (Some bw) s" using assms(1) by (simp add: has_text_def)
  then have "has_text (Option.bind (Some bw) (writeStr write_to w)) (s @ w)" by (rule has_text_str)
  then have "has_text (Option.bind (winnerToNumber (rb_winner b)) (\<lambda>s. writeStr write_to s bw)) (s @ w)" using assms(2) by simp
  note 1 = has_text_int [OF has_text_str [OF this, of "'',''"] u, of junk]
  note 2 = has_text_int [OF has_text_str [OF 1, of "'',''"] assms(3), of junk]
  note 3 = has_text_int [OF has_text_str [OF 2, of "'',''"] assms(4), of junk]
  note 4 = has_text_str [OF has_text_coefs [OF 3 assms(5), of junk], of endl]
  show ?thesis using 4 unfolding writeLine_def Let_def line_text_def by (simp only: append_assoc)
qed

end

section \<open>Whole runs\<close>

lemma new_sampler_start:
  "passed (new_sampler (new_extractor names) None) []" "sampled sz (new_sampler (new_extractor names) (Some sz)) []"
  by (simp_all add: passed_def sampled_def new_sampler_def new_extractor_batched sample_of_def sample_length_def)

lemma dataset_run_all:
  assumes "zobrist_ok z" "length (cells b0) = 64" "list_all (game_writable z) gs" "list_all (instructive z) gs"
  shows "\<exists>fe. dataset_run z b0 rng shuffle names None f (concat (map game_write gs)) = Some (0, fe) \<and> drained fe (dataset_rows z f 0 gs)"
  using pass.reads_games [OF assms, of "\<lparr>gs_consumer = new_sampler (new_extractor names) None, gs_count = 0, gs_filterBoards = f\<rparr>" rng shuffle]
    new_sampler_start(1) by (auto simp: dataset_run_def)

lemma dataset_run_sample:
  assumes "zobrist_ok z" "length (cells b0) = 64" "list_all (game_writable z) gs" "list_all (instructive z) gs"
    and "\<And>xs. mset (shuffle xs) = mset xs"
  shows "\<exists>fe rows. dataset_run z b0 rng shuffle names (Some sz) f (concat (map game_write gs)) = Some (0, fe) \<and>
    drained fe rows \<and> sample_of (unat sz) (dataset_rows z f 0 gs) rows"
proof -
  obtain gc' where g: "processGameSet z b0 (sampler rng shuffle extractor) (concat (map game_write gs))
        \<lparr>gs_consumer = new_sampler (new_extractor names) (Some sz), gs_count = 0, gs_filterBoards = f\<rparr> = Some (None, gc')"
      "sampled_out shuffle sz (gs_consumer gc') (dataset_rows z f 0 gs)"
    using samp.reads_games [OF assms(1-4), of sz "\<lparr>gs_consumer = new_sampler (new_extractor names) (Some sz), gs_count = 0, gs_filterBoards = f\<rparr>" rng shuffle]
      new_sampler_start(2) by auto
  obtain sample where s: "sample_of (unat sz) (dataset_rows z f 0 gs) sample" "drained (bs_consumer (gs_consumer gc')) (shuffle sample)"
    using g(2) by (auto simp: sampled_out_def)
  have "set (shuffle sample) = set sample" "length (shuffle sample) = length sample"
    using assms(5) [of sample] by (metis set_mset_mset, metis size_mset)
  then have "sample_of (unat sz) (dataset_rows z f 0 gs) (shuffle sample)" using s(1) by (simp add: sample_of_def)
  then show ?thesis using g(1) s(2) by (auto simp: dataset_run_def)
qed

end
