(* ===== verification/Containers.thy ===== *)
theory Containers
  imports Prelude
begin

text \<open>
  The vectors of \<^verbatim>\<open>valarray.h\<close> and \<^verbatim>\<open>smallvec.h\<close>. A sparse array keeps index-value pairs that are only appended, and is compacted
  when there are three times as many of them as places; what it stands for is the dense vector \<open>take_dense\<close>. The
  values are those of any commutative ring: the source instantiates the template with machine integers.
  A function that would access a place outside a vector is \<open>None\<close>.
\<close>

section \<open>Dense arrays of a fixed size\<close>

definition fixed_zeroed :: "nat \<Rightarrow> 'a::comm_ring_1 list" where
  "fixed_zeroed n = replicate n 0"

definition fixed_add :: "'a::comm_ring_1 list \<Rightarrow> 'a list \<Rightarrow> 'a list" where
  "fixed_add a b = foldl (\<lambda>d i. d[i := d ! i + b ! i]) a [0..<length a]"

definition fixed_sub :: "'a::comm_ring_1 list \<Rightarrow> 'a list \<Rightarrow> 'a list" where
  "fixed_sub a b = foldl (\<lambda>d i. d[i := d ! i - b ! i]) a [0..<length a]"

definition fixed_scale :: "'a::comm_ring_1 \<Rightarrow> 'a list \<Rightarrow> 'a list" where
  "fixed_scale x a = foldl (\<lambda>d i. d[i := d ! i * x]) a [0..<length a]"

definition fixed_neg :: "'a::comm_ring_1 list \<Rightarrow> 'a list" where
  "fixed_neg a = foldl (\<lambda>d i. d[i := - (d ! i)]) a [0..<length a]"

section \<open>Sparse arrays\<close>

record 'a SparseValArray =
  sp_storage :: "(nat \<times> 'a) list"
  sp_size :: nat

definition new_sparse :: "nat \<Rightarrow> 'a SparseValArray" where
  "new_sparse n = \<lparr>sp_storage = [], sp_size = n\<rparr>"

definition dense_add :: "'a::comm_ring_1 list option \<Rightarrow> nat \<times> 'a \<Rightarrow> 'a list option" where
  "dense_add result kv = Option.bind result (\<lambda>r. if fst kv < length r then Some (r[fst kv := r ! fst kv + snd kv]) else None)"

definition take_dense :: "'a::comm_ring_1 SparseValArray \<Rightarrow> 'a list option" where
  "take_dense a = foldl dense_add (Some (replicate (sp_size a) 0)) (sp_storage a)"

definition compactify :: "'a::comm_ring_1 SparseValArray \<Rightarrow> 'a SparseValArray option" where
  "compactify a = map_option (\<lambda>vec. a\<lparr>sp_storage :=
     foldl (\<lambda>st idx. if vec ! idx \<noteq> 0 then st @ [(idx, vec ! idx)] else st) [] [0..<sp_size a]\<rparr>) (take_dense a)"

definition tryCompactify :: "'a::comm_ring_1 SparseValArray \<Rightarrow> 'a SparseValArray option" where
  "tryCompactify a = (if length (sp_storage a) > 3 * sp_size a then compactify a else Some a)"

definition sparse_add :: "nat \<Rightarrow> 'a::comm_ring_1 \<Rightarrow> 'a SparseValArray \<Rightarrow> 'a SparseValArray option" where
  "sparse_add idx v a = tryCompactify (a\<lparr>sp_storage := sp_storage a @ [(idx, v)]\<rparr>)"

definition sparse_copy :: "'a SparseValArray \<Rightarrow> 'a SparseValArray" where
  "sparse_copy other = \<lparr>sp_storage = foldl (\<lambda>st it. st @ [it]) [] (sp_storage other), sp_size = sp_size other\<rparr>"

definition sparse_neg :: "'a::comm_ring_1 SparseValArray \<Rightarrow> 'a SparseValArray" where
  "sparse_neg a = a\<lparr>sp_storage := map (\<lambda>(k, v). (k, - v)) (sp_storage a)\<rparr>"

text \<open>The right operand is another array than the left one.\<close>

definition sparse_plus :: "'a::comm_ring_1 SparseValArray \<Rightarrow> 'a SparseValArray \<Rightarrow> 'a SparseValArray option" where
  "sparse_plus a other = tryCompactify (a\<lparr>sp_storage := foldl (\<lambda>st it. st @ [it]) (sp_storage a) (sp_storage other)\<rparr>)"

definition sparse_minus :: "'a::comm_ring_1 SparseValArray \<Rightarrow> 'a SparseValArray \<Rightarrow> 'a SparseValArray option" where
  "sparse_minus a other = sparse_plus a (sparse_neg other)"

definition sparse_scale :: "'a::comm_ring_1 \<Rightarrow> 'a SparseValArray \<Rightarrow> 'a SparseValArray" where
  "sparse_scale x a = a\<lparr>sp_storage := map (\<lambda>(k, v). (k, v * x)) (sp_storage a)\<rparr>"

definition sparse_eq :: "'a::comm_ring_1 SparseValArray \<Rightarrow> 'a SparseValArray \<Rightarrow> bool option" where
  "sparse_eq a other = Option.bind (take_dense a) (\<lambda>x. map_option (\<lambda>y. x = y) (take_dense other))"

section \<open>Small vectors\<close>

record 'a SmallVector =
  sv_data :: "'a list"
  sv_size :: nat

text \<open>The capacity is the length of the array.\<close>

definition small_push :: "'a \<Rightarrow> 'a SmallVector \<Rightarrow> 'a SmallVector option" where
  "small_push item v = (if sv_size v \<noteq> length (sv_data v)
     then Some (v\<lparr>sv_data := (sv_data v)[sv_size v := item], sv_size := sv_size v + 1\<rparr>) else None)"

definition small_pop :: "'a SmallVector \<Rightarrow> 'a SmallVector" where
  "small_pop v = v\<lparr>sv_size := sv_size v - 1\<rparr>"

definition small_clear :: "'a SmallVector \<Rightarrow> 'a SmallVector" where
  "small_clear v = v\<lparr>sv_size := 0\<rparr>"

definition small_items :: "'a SmallVector \<Rightarrow> 'a list" where
  "small_items v = take (sv_size v) (sv_data v)"

definition small_eq :: "'a SmallVector \<Rightarrow> 'a SmallVector \<Rightarrow> bool" where
  "small_eq a b \<longleftrightarrow> small_items a = small_items b"

lemma small_push_items:
  "sv_size v \<le> length (sv_data v) \<Longrightarrow> small_push x v = (if length (small_items v) = length (sv_data v) then None
     else Some (v\<lparr>sv_data := (sv_data v)[sv_size v := x], sv_size := sv_size v + 1\<rparr>))"
  "small_push x v = Some v' \<Longrightarrow> sv_size v \<le> length (sv_data v) \<Longrightarrow> small_items v' = small_items v @ [x] \<and> sv_size v' \<le> length (sv_data v')"
  "small_push x v = Some v' \<Longrightarrow> sv_size v \<le> length (sv_data v) \<Longrightarrow> small_items (small_pop v') = small_items v"
  by (auto simp: small_push_def small_items_def small_pop_def min_def take_Suc_conv_app_nth split: if_splits)

section \<open>What the operations compute\<close>

lemma foldl_pointwise:
  "length d = n \<Longrightarrow> m \<le> n \<Longrightarrow> foldl (\<lambda>d i. d[i := f (d ! i) i]) d [0..<m] = map (\<lambda>i. if i < m then f (d ! i) i else d ! i) [0..<n]"
proof (induction m)
  case 0
  then show ?case by (auto intro: nth_equalityI)
next
  case (Suc m)
  then have "foldl (\<lambda>d i. d[i := f (d ! i) i]) d [0..<Suc m] =
      (map (\<lambda>i. if i < m then f (d ! i) i else d ! i) [0..<n])[m := f (d ! m) m]" by simp
  also have "\<dots> = map (\<lambda>i. if i < Suc m then f (d ! i) i else d ! i) [0..<n]"
    by (rule nth_equalityI) (use Suc.prems in \<open>auto simp: nth_list_update less_Suc_eq\<close>)
  finally show ?case .
qed

lemma fixed_pointwise:
  "fixed_add a b = map (\<lambda>i. a ! i + b ! i) [0..<length a]" "fixed_sub a b = map (\<lambda>i. a ! i - b ! i) [0..<length a]"
  "fixed_scale x a = map (\<lambda>v. v * x) a" "fixed_neg a = map uminus a"
proof -
  have l: "foldl (\<lambda>d i. d[i := f (d ! i) i]) a [0..<length a] = map (\<lambda>i. f (a ! i) i) [0..<length a]" for f :: "'a \<Rightarrow> nat \<Rightarrow> 'a"
    unfolding foldl_pointwise [OF refl order_refl] by (rule map_cong) auto
  have e: "map (\<lambda>i. g (a ! i)) [0..<length a] = map g a" for g :: "'a \<Rightarrow> 'a"
    by (rule nth_equalityI) simp_all
  show "fixed_add a b = map (\<lambda>i. a ! i + b ! i) [0..<length a]" "fixed_sub a b = map (\<lambda>i. a ! i - b ! i) [0..<length a]"
    unfolding fixed_add_def fixed_sub_def using l [of "\<lambda>v i. v + b ! i"] l [of "\<lambda>v i. v - b ! i"] by simp_all
  show "fixed_scale x a = map (\<lambda>v. v * x) a" "fixed_neg a = map uminus a"
    unfolding fixed_scale_def fixed_neg_def using l [of "\<lambda>v i. v * x"] l [of "\<lambda>v i. - v"] e [of "\<lambda>v. v * x"] e [of uminus] by simp_all
qed

text \<open>The pairs stand for the function that sums the values at each index.\<close>

fun sum_at :: "(nat \<times> 'a::comm_ring_1) list \<Rightarrow> nat \<Rightarrow> 'a" where
  "sum_at [] i = 0"
| "sum_at ((k, v) # st) i = (if k = i then v else 0) + sum_at st i"

definition sparse_ok :: "'a SparseValArray \<Rightarrow> bool" where
  "sparse_ok a \<longleftrightarrow> (\<forall>(k, v)\<in>set (sp_storage a). k < sp_size a)"

lemma sum_at_append: "sum_at (s @ t) i = sum_at s i + sum_at t i"
  by (induction s i rule: sum_at.induct) (simp_all add: add.assoc)

lemma foldl_dense_add:
  "\<forall>(k, v)\<in>set st. k < length r \<Longrightarrow> foldl dense_add (Some r) st = Some (map (\<lambda>i. r ! i + sum_at st i) [0..<length r])"
proof (induction st arbitrary: r)
  case Nil
  then show ?case by (simp add: map_nth)
next
  case (Cons kv st)
  obtain k v where kv: "kv = (k, v)" "k < length r" using Cons.prems by (cases kv) auto
  have "foldl dense_add (Some r) (kv # st) = Some (map (\<lambda>i. r[k := r ! k + v] ! i + sum_at st i) [0..<length r])"
  proof -
    have "dense_add (Some r) kv = Some (r[k := r ! k + v])" using kv by (simp add: dense_add_def)
    then show ?thesis using Cons.IH [of "r[k := r ! k + v]"] Cons.prems kv by simp
  qed
  also have "map (\<lambda>i. r[k := r ! k + v] ! i + sum_at st i) [0..<length r] = map (\<lambda>i. r ! i + sum_at (kv # st) i) [0..<length r]"
    using kv by (auto simp: nth_list_update add.assoc)
  finally show ?case .
qed

lemma take_dense_eq: "sparse_ok a \<Longrightarrow> take_dense a = Some (map (sum_at (sp_storage a)) [0..<sp_size a])"
  using foldl_dense_add [of "sp_storage a" "replicate (sp_size a) 0"] by (simp add: take_dense_def sparse_ok_def)

lemma compact_storage:
  "foldl (\<lambda>st idx. if g idx \<noteq> 0 then st @ [(idx, g idx)] else st) s is = s @ map (\<lambda>i. (i, g i)) (filter (\<lambda>i. g i \<noteq> 0) is)"
  by (induction "is" arbitrary: s) simp_all

lemma sum_at_diag: "distinct is \<Longrightarrow> sum_at (map (\<lambda>i. (i, g i)) is) j = (if j \<in> set is then g j else 0)"
  by (induction "is") auto

lemma compactify_ok:
  assumes "sparse_ok a"
  shows "\<exists>a'. compactify a = Some a' \<and> sparse_ok a' \<and> sp_size a' = sp_size a \<and> take_dense a' = take_dense a \<and> length (sp_storage a') \<le> sp_size a"
proof -
  let ?g = "\<lambda>i. map (sum_at (sp_storage a)) [0..<sp_size a] ! i"
  let ?st = "map (\<lambda>i. (i, ?g i)) (filter (\<lambda>i. ?g i \<noteq> 0) [0..<sp_size a])"
  have c: "compactify a = Some (a\<lparr>sp_storage := ?st\<rparr>)"
    using take_dense_eq [OF assms] compact_storage [of ?g "[]" "[0..<sp_size a]"] by (simp add: compactify_def)
  have ok: "sparse_ok (a\<lparr>sp_storage := ?st\<rparr>)" by (auto simp: sparse_ok_def)
  have "sum_at ?st j = sum_at (sp_storage a) j" if "j < sp_size a" for j
    using sum_at_diag [of "filter (\<lambda>i. ?g i \<noteq> 0) [0..<sp_size a]" ?g j] that by auto
  then have "take_dense (a\<lparr>sp_storage := ?st\<rparr>) = take_dense a" unfolding take_dense_eq [OF ok] take_dense_eq [OF assms] by simp
  moreover have "length ?st \<le> sp_size a" using length_filter_le [of _ "[0..<sp_size a]"] by simp
  ultimately show ?thesis using c ok by simp
qed

lemma tryCompactify_ok:
  assumes "sparse_ok a"
  shows "\<exists>a'. tryCompactify a = Some a' \<and> sparse_ok a' \<and> sp_size a' = sp_size a \<and> take_dense a' = take_dense a \<and>
    length (sp_storage a') \<le> 3 * sp_size a"
  using compactify_ok [OF assms] assms by (cases "length (sp_storage a) > 3 * sp_size a") (force simp: tryCompactify_def)+

text \<open>Every operation keeps the pairs in range and computes on the sums what it computes on dense vectors.\<close>

definition represents :: "'a::comm_ring_1 SparseValArray \<Rightarrow> 'a list \<Rightarrow> bool" where
  "represents a d \<longleftrightarrow> sparse_ok a \<and> sp_size a = length d \<and> take_dense a = Some d"

lemma represents_iff: "represents a d \<longleftrightarrow> sparse_ok a \<and> d = map (sum_at (sp_storage a)) [0..<sp_size a]"
  using take_dense_eq [of a] by (auto simp: represents_def)

lemma represents_compact:
  assumes "represents a d"
  shows "\<exists>a'. tryCompactify a = Some a' \<and> represents a' d \<and> length (sp_storage a') \<le> 3 * length d"
  using tryCompactify_ok [of a] assms by (auto simp: represents_def)

lemma sum_at_map: "(\<And>v w. f (v + w) = f v + f w) \<Longrightarrow> f 0 = 0 \<Longrightarrow> sum_at (map (\<lambda>(k, v). (k, f v)) st) i = f (sum_at st i)"
  for f :: "'a::comm_ring_1 \<Rightarrow> 'a"
  by (induction st i rule: sum_at.induct) simp_all

lemma foldl_snoc: "foldl (\<lambda>st it. st @ [it]) s t = s @ t"
  by (induction t arbitrary: s) simp_all

lemma represents_append:
  assumes "represents a d" "\<forall>(k, v)\<in>set st. k < length d" "map (\<lambda>i. d ! i + sum_at st i) [0..<length d] = e"
  shows "represents (a\<lparr>sp_storage := sp_storage a @ st\<rparr>) e"
proof -
  have ok: "sparse_ok a" "d = map (sum_at (sp_storage a)) [0..<sp_size a]" using assms(1) by (auto simp: represents_iff)
  have l: "length d = sp_size a" by (subst ok(2)) simp
  have "e = map (sum_at (sp_storage a @ st)) [0..<sp_size a]"
    unfolding assms(3) [symmetric] l by (rule map_cong) (auto simp: sum_at_append, subst ok(2), simp)
  moreover have "sparse_ok (a\<lparr>sp_storage := sp_storage a @ st\<rparr>)" using ok(1) assms(2) l by (auto simp: sparse_ok_def)
  ultimately show ?thesis by (simp add: represents_iff)
qed

lemma sparse_add_dense:
  assumes "represents a d" "idx < length d"
  shows "\<exists>a'. sparse_add idx v a = Some a' \<and> represents a' (d[idx := d ! idx + v]) \<and> length (sp_storage a') \<le> 3 * length d"
proof -
  have "map (\<lambda>i. d ! i + sum_at [(idx, v)] i) [0..<length d] = d[idx := d ! idx + v]"
    by (rule nth_equalityI) (auto simp: nth_list_update)
  from represents_compact [OF represents_append [OF assms(1) _ this]] show ?thesis using assms(2) by (simp add: sparse_add_def)
qed

lemma sparse_map_dense:
  assumes "represents a d"
  shows "represents (sparse_neg a) (fixed_neg d)" "represents (sparse_scale x a) (fixed_scale x d)" "represents (sparse_copy a) d"
proof -
  have ok: "sparse_ok a" "d = map (sum_at (sp_storage a)) [0..<sp_size a]" using assms by (auto simp: represents_iff)
  have m: "sparse_ok (a\<lparr>sp_storage := map (\<lambda>(k, v). (k, f v)) (sp_storage a)\<rparr>)" for f using ok(1) by (auto simp: sparse_ok_def)
  show "represents (sparse_neg a) (fixed_neg d)"
    using m [of uminus] sum_at_map [of uminus "sp_storage a"] ok(2) by (simp add: represents_iff sparse_neg_def fixed_pointwise)
  show "represents (sparse_scale x a) (fixed_scale x d)"
    using m [of "\<lambda>v. v * x"] sum_at_map [of "\<lambda>v. v * x" "sp_storage a"] ok(2)
    by (simp add: represents_iff sparse_scale_def fixed_pointwise distrib_right)
  show "represents (sparse_copy a) d" using ok by (simp add: represents_iff sparse_copy_def foldl_snoc sparse_ok_def)
qed

lemma sparse_plus_dense:
  assumes "represents a d" "represents b e" "length e = length d"
  shows "\<exists>a'. sparse_plus a b = Some a' \<and> represents a' (fixed_add d e) \<and> length (sp_storage a') \<le> 3 * length d"
proof -
  have b: "sparse_ok b" "e = map (sum_at (sp_storage b)) [0..<sp_size b]" using assms(2) by (auto simp: represents_iff)
  have l: "sp_size b = length d" using assms(2,3) by (simp add: represents_def)
  have "map (\<lambda>i. d ! i + sum_at (sp_storage b) i) [0..<length d] = fixed_add d e"
    unfolding fixed_pointwise by (rule map_cong) (auto simp: b(2) l)
  moreover have "\<forall>(k, v)\<in>set (sp_storage b). k < length d" using b(1) l by (simp add: sparse_ok_def)
  ultimately show ?thesis
    using represents_compact [OF represents_append [OF assms(1)], of "sp_storage b" "fixed_add d e"]
    by (simp add: sparse_plus_def foldl_snoc fixed_pointwise)
qed

lemma sparse_minus_dense:
  assumes "represents a d" "represents b e" "length e = length d"
  shows "\<exists>a'. sparse_minus a b = Some a' \<and> represents a' (fixed_sub d e) \<and> length (sp_storage a') \<le> 3 * length d"
proof -
  have "fixed_add d (fixed_neg e) = fixed_sub d e" unfolding fixed_pointwise by (rule map_cong) (auto simp: assms(3))
  moreover have "length (fixed_neg e) = length d" using assms(3) by (simp add: fixed_pointwise)
  ultimately show ?thesis using sparse_plus_dense [OF assms(1) sparse_map_dense(1) [OF assms(2)]] by (simp add: sparse_minus_def)
qed

lemma sparse_eq_dense: "represents a d \<Longrightarrow> represents b e \<Longrightarrow> sparse_eq a b = Some (d = e)"
  by (simp add: sparse_eq_def represents_def)

lemma new_sparse_dense: "represents (new_sparse n) (fixed_zeroed n)"
  by (auto simp: represents_iff new_sparse_def sparse_ok_def fixed_zeroed_def intro: nth_equalityI)

text \<open>
  The bounded queue between threads of \<^verbatim>\<open>queue.h\<close>. What a thread does while it holds the mutex is one step; the
  notifications follow as steps of their own, between which other threads run. A thread that waits on an event
  is woken by a notification or without a reason, as \<^verbatim>\<open>std::condition_variable\<close> allows, and tests its condition again.
\<close>

section \<open>The operations under the mutex\<close>

record 'a BlockingQueue =
  bq_queue :: "'a list"
  bq_size :: nat
  bq_closed :: bool

definition new_queue :: "nat \<Rightarrow> 'a BlockingQueue" where
  "new_queue n = \<lparr>bq_queue = [], bq_size = n, bq_closed = False\<rparr>"

definition isQueueFull :: "'a BlockingQueue \<Rightarrow> bool" where
  "isQueueFull q \<longleftrightarrow> length (bq_queue q) = bq_size q"

datatype notification = EmptyOne | FullOne | EmptyAll | FullAll

text \<open>\<open>None\<close>: the condition does not hold and the thread waits. Otherwise the result, the queue and the notifications to send.\<close>

definition queue_push :: "'a \<Rightarrow> 'a BlockingQueue \<Rightarrow> (bool \<times> 'a BlockingQueue \<times> notification list) option" where
  "queue_push v q =
     (if \<not> (bq_closed q \<or> \<not> isQueueFull q) then None
      else if bq_closed q then Some (False, q, [])
      else Some (True, q\<lparr>bq_queue := bq_queue q @ [v]\<rparr>, [EmptyOne, FullOne]))"

definition queue_pop :: "'a BlockingQueue \<Rightarrow> ('a option \<times> 'a BlockingQueue \<times> notification list) option" where
  "queue_pop q =
     (if \<not> (bq_closed q \<or> bq_queue q \<noteq> []) then None
      else if bq_queue q = [] \<and> bq_closed q then Some (None, q, [])
      else Some (Some (hd (bq_queue q)), q\<lparr>bq_queue := tl (bq_queue q)\<rparr>, [EmptyOne, FullOne]))"

definition queue_close :: "'a BlockingQueue \<Rightarrow> 'a BlockingQueue \<times> notification list" where
  "queue_close q = (if bq_closed q then (q, []) else (q\<lparr>bq_closed := True\<rparr>, [EmptyAll, FullAll]))"

section \<open>Threads\<close>

datatype 'a queue_pc = Outside | Pushing 'a | WaitFull 'a | Popping | WaitEmpty | Closing | Notifying "notification list"

text \<open>\<open>qs_pushed\<close> and \<open>qs_popped\<close> record what went in and came out.\<close>

record 'a queue_state =
  qs_queue :: "'a BlockingQueue"
  qs_pc :: "nat \<Rightarrow> 'a queue_pc"
  qs_pushed :: "'a list"
  qs_popped :: "'a list"

definition queue_start :: "nat \<Rightarrow> 'a queue_state" where
  "queue_start n = \<lparr>qs_queue = new_queue n, qs_pc = (\<lambda>_. Outside), qs_pushed = [], qs_popped = []\<rparr>"

abbreviation at_pc :: "'a queue_state \<Rightarrow> nat \<Rightarrow> 'a queue_pc \<Rightarrow> 'a queue_state" where
  "at_pc s t p \<equiv> s\<lparr>qs_pc := (qs_pc s)(t := p)\<rparr>"

definition notes_pc :: "notification list \<Rightarrow> 'a queue_pc" where
  "notes_pc ns = (if ns = [] then Outside else Notifying ns)"

definition wake_empty :: "'a queue_pc \<Rightarrow> 'a queue_pc" where
  "wake_empty p = (if p = WaitEmpty then Popping else p)"

definition wake_full :: "'a queue_pc \<Rightarrow> 'a queue_pc" where
  "wake_full p = (case p of WaitFull v \<Rightarrow> Pushing v | _ \<Rightarrow> p)"

inductive queue_step :: "'a queue_state \<Rightarrow> 'a queue_state \<Rightarrow> bool" where
  calls_push: "qs_pc s t = Outside \<Longrightarrow> queue_step s (at_pc s t (Pushing v))"
| calls_pop: "qs_pc s t = Outside \<Longrightarrow> queue_step s (at_pc s t Popping)"
| calls_close: "qs_pc s t = Outside \<Longrightarrow> queue_step s (at_pc s t Closing)"
| push_waits: "qs_pc s t = Pushing v \<Longrightarrow> queue_push v (qs_queue s) = None \<Longrightarrow> queue_step s (at_pc s t (WaitFull v))"
| pushes: "qs_pc s t = Pushing v \<Longrightarrow> queue_push v (qs_queue s) = Some (ok, q, ns) \<Longrightarrow>
    queue_step s (at_pc (s\<lparr>qs_queue := q, qs_pushed := qs_pushed s @ (if ok then [v] else [])\<rparr>) t (notes_pc ns))"
| pop_waits: "qs_pc s t = Popping \<Longrightarrow> queue_pop (qs_queue s) = None \<Longrightarrow> queue_step s (at_pc s t WaitEmpty)"
| pops: "qs_pc s t = Popping \<Longrightarrow> queue_pop (qs_queue s) = Some (r, q, ns) \<Longrightarrow>
    queue_step s (at_pc (s\<lparr>qs_queue := q, qs_popped := qs_popped s @ (case r of None \<Rightarrow> [] | Some v \<Rightarrow> [v])\<rparr>) t (notes_pc ns))"
| closes: "qs_pc s t = Closing \<Longrightarrow> queue_close (qs_queue s) = (q, ns) \<Longrightarrow> queue_step s (at_pc (s\<lparr>qs_queue := q\<rparr>) t (notes_pc ns))"
| empty_one: "qs_pc s t = Notifying (EmptyOne # ns) \<Longrightarrow> qs_pc s u = WaitEmpty \<Longrightarrow>
    queue_step s (at_pc (at_pc s u Popping) t (notes_pc ns))"
| empty_none: "qs_pc s t = Notifying (EmptyOne # ns) \<Longrightarrow> \<forall>u. qs_pc s u \<noteq> WaitEmpty \<Longrightarrow> queue_step s (at_pc s t (notes_pc ns))"
| full_one: "qs_pc s t = Notifying (FullOne # ns) \<Longrightarrow> qs_pc s u = WaitFull v \<Longrightarrow>
    queue_step s (at_pc (at_pc s u (Pushing v)) t (notes_pc ns))"
| full_none: "qs_pc s t = Notifying (FullOne # ns) \<Longrightarrow> \<forall>u v. qs_pc s u \<noteq> WaitFull v \<Longrightarrow> queue_step s (at_pc s t (notes_pc ns))"
| empty_all: "qs_pc s t = Notifying (EmptyAll # ns) \<Longrightarrow> queue_step s (at_pc (s\<lparr>qs_pc := wake_empty \<circ> qs_pc s\<rparr>) t (notes_pc ns))"
| full_all: "qs_pc s t = Notifying (FullAll # ns) \<Longrightarrow> queue_step s (at_pc (s\<lparr>qs_pc := wake_full \<circ> qs_pc s\<rparr>) t (notes_pc ns))"
| spurious_empty: "qs_pc s t = WaitEmpty \<Longrightarrow> queue_step s (at_pc s t Popping)"
| spurious_full: "qs_pc s t = WaitFull v \<Longrightarrow> queue_step s (at_pc s t (Pushing v))"

inductive queue_reachable :: "nat \<Rightarrow> 'a queue_state \<Rightarrow> bool" for n where
  starts: "queue_reachable n (queue_start n)"
| runs: "queue_reachable n s \<Longrightarrow> queue_step s s' \<Longrightarrow> queue_reachable n s'"

section \<open>Nothing is lost and the order is kept\<close>

definition fifo :: "nat \<Rightarrow> 'a queue_state \<Rightarrow> bool" where
  "fifo n s \<longleftrightarrow> qs_pushed s = qs_popped s @ bq_queue (qs_queue s) \<and> bq_size (qs_queue s) = n \<and> length (bq_queue (qs_queue s)) \<le> n"

lemma queue_push_fifo:
  assumes "queue_push v q = Some (ok, q', ns)"
  shows "bq_queue q' = bq_queue q @ (if ok then [v] else [])" "bq_size q' = bq_size q" "bq_closed q' = bq_closed q"
    "ok \<Longrightarrow> length (bq_queue q) \<noteq> bq_size q" "ns = (if ok then [EmptyOne, FullOne] else [])" "\<not> ok \<Longrightarrow> bq_closed q"
  using assms by (auto simp: queue_push_def isQueueFull_def split: if_splits)

lemma queue_pop_fifo:
  assumes "queue_pop q = Some (r, q', ns)"
  shows "bq_queue q = (case r of None \<Rightarrow> [] | Some v \<Rightarrow> [v]) @ bq_queue q'" "bq_size q' = bq_size q" "bq_closed q' = bq_closed q"
    "ns = (if r = None then [] else [EmptyOne, FullOne])" "r = None \<Longrightarrow> bq_queue q' = [] \<and> bq_closed q'"
  using assms by (auto simp: queue_pop_def split: if_splits)

lemma queue_step_fifo: "queue_step s s' \<Longrightarrow> fifo n s \<Longrightarrow> fifo n s'"
proof (induction rule: queue_step.induct)
  case (pushes s t v ok q ns)
  then show ?case using queue_push_fifo [OF pushes(2)] by (auto simp: fifo_def)
next
  case (pops s t r q ns)
  then show ?case using queue_pop_fifo [OF pops(2)] by (auto simp: fifo_def)
next
  case (closes s t q ns)
  then show ?case by (auto simp: fifo_def queue_close_def split: if_splits)
qed (simp_all add: fifo_def)

lemma queue_fifo: "queue_reachable n s \<Longrightarrow> fifo n s"
proof (induction rule: queue_reachable.induct)
  case starts
  then show ?case by (simp add: fifo_def queue_start_def new_queue_def)
qed (rule queue_step_fifo)

section \<open>No wake-up is lost\<close>

definition sends :: "notification \<Rightarrow> 'a queue_pc \<Rightarrow> bool" where
  "sends x p \<longleftrightarrow> (\<exists>ns. p = Notifying ns \<and> x \<in> set ns)"

definition stirs_empty :: "'a queue_pc \<Rightarrow> bool" where
  "stirs_empty p \<longleftrightarrow> p = Popping \<or> sends EmptyOne p \<or> sends EmptyAll p"

definition stirs_full :: "'a queue_pc \<Rightarrow> bool" where
  "stirs_full p \<longleftrightarrow> (\<exists>v. p = Pushing v) \<or> sends FullOne p \<or> sends FullAll p"

definition waits_full :: "'a queue_pc \<Rightarrow> bool" where
  "waits_full p \<longleftrightarrow> (\<exists>v. p = WaitFull v)"

text \<open>While \<open>C\<close> holds and a thread waits (\<open>W\<close>), another one is about to wake it or to test the condition itself (\<open>A\<close>).\<close>

definition watched :: "('a queue_pc \<Rightarrow> bool) \<Rightarrow> ('a queue_pc \<Rightarrow> bool) \<Rightarrow> bool \<Rightarrow> (nat \<Rightarrow> 'a queue_pc) \<Rightarrow> bool" where
  "watched W A C pc \<longleftrightarrow> (C \<and> (\<exists>u. W (pc u)) \<longrightarrow> (\<exists>u. A (pc u)))"

lemma watched_upd:
  "watched W A C pc \<Longrightarrow> A p \<or> \<not> C' \<or> (\<not> A (pc t) \<and> \<not> W p \<and> (C' \<longrightarrow> C)) \<Longrightarrow> watched W A C' (pc(t := p))"
  by (auto simp: watched_def split: if_splits)

lemma watched_map:
  "watched W A C pc \<Longrightarrow> (\<And>p. W (f p) \<Longrightarrow> W p) \<Longrightarrow> (\<And>p. A p \<Longrightarrow> A (f p)) \<Longrightarrow> watched W A C (f \<circ> pc)"
  by (auto simp: watched_def)

lemma watched_none: "(\<And>u. \<not> W (pc u)) \<Longrightarrow> watched W A C pc"
  by (simp add: watched_def)

definition wakeups_ok :: "'a queue_state \<Rightarrow> bool" where
  "wakeups_ok s \<longleftrightarrow>
     watched (\<lambda>p. p = WaitEmpty) (sends EmptyAll) (bq_closed (qs_queue s)) (qs_pc s) \<and>
     watched (\<lambda>p. p = WaitEmpty) stirs_empty (bq_queue (qs_queue s) \<noteq> []) (qs_pc s) \<and>
     watched waits_full (sends FullAll) (bq_closed (qs_queue s)) (qs_pc s) \<and>
     watched waits_full stirs_full (\<not> isQueueFull (qs_queue s)) (qs_pc s)"

lemma pc_facts [simp]:
  "\<not> sends x Outside" "\<not> sends x (Pushing v)" "\<not> sends x (WaitFull v)" "\<not> sends x Popping" "\<not> sends x WaitEmpty" "\<not> sends x Closing"
  "sends x (Notifying ns) \<longleftrightarrow> x \<in> set ns" "sends x (notes_pc ns) \<longleftrightarrow> x \<in> set ns"
  "notes_pc ns \<noteq> WaitEmpty" "\<not> waits_full (notes_pc ns)" "notes_pc ns \<noteq> Popping" "notes_pc ns \<noteq> Pushing v" "notes_pc ns \<noteq> WaitFull v"
  "waits_full (WaitFull v)" "\<not> waits_full Outside" "\<not> waits_full (Pushing v)" "\<not> waits_full Popping" "\<not> waits_full WaitEmpty"
  "\<not> waits_full Closing" "\<not> waits_full (Notifying ns)"
  by (auto simp: sends_def notes_pc_def waits_full_def)

lemma wake_facts:
  "wake_empty p \<noteq> WaitEmpty" "\<not> waits_full (wake_full p)" "wake_full p = WaitEmpty \<longleftrightarrow> p = WaitEmpty" "waits_full (wake_empty p) \<longleftrightarrow> waits_full p"
  "sends x (wake_empty p) \<longleftrightarrow> sends x p" "sends x (wake_full p) \<longleftrightarrow> sends x p" "stirs_empty p \<Longrightarrow> stirs_empty (wake_full p)"
  "stirs_full p \<Longrightarrow> stirs_full (wake_empty p)" "wake_empty (Notifying ns) = Notifying ns" "wake_full (Notifying ns) = Notifying ns"
  by (cases p; simp add: wake_empty_def wake_full_def stirs_empty_def stirs_full_def)+

lemma wakeups_okD:
  assumes "wakeups_ok s"
  shows "watched (\<lambda>p. p = WaitEmpty) (sends EmptyAll) (bq_closed (qs_queue s)) (qs_pc s)"
    "watched (\<lambda>p. p = WaitEmpty) stirs_empty (bq_queue (qs_queue s) \<noteq> []) (qs_pc s)"
    "watched waits_full (sends FullAll) (bq_closed (qs_queue s)) (qs_pc s)"
    "watched waits_full stirs_full (\<not> isQueueFull (qs_queue s)) (qs_pc s)"
  using assms by (simp_all add: wakeups_ok_def)

text \<open>Woken by a notification: a thread \<open>u\<close> tests its condition again, and \<open>t\<close> goes on with the rest of its notifications.\<close>

lemma watched_woken:
  assumes "watched W A C pc" "u \<noteq> t" "A p \<or> \<not> A (pc u) \<and> \<not> W p" "A q \<or> A p \<or> (\<not> A (pc t) \<and> \<not> W q)"
  shows "watched W A C (pc(u := p, t := q))"
proof (cases "A p \<or> A q")
  case True
  then have "\<exists>x. A ((pc(u := p, t := q)) x)" using assms(2) by (metis fun_upd_apply)
  then show ?thesis by (simp add: watched_def)
next
  case False
  then have "watched W A C (pc(u := p))" using assms(3) False by (intro watched_upd [OF assms(1)]) auto
  then show ?thesis by (rule watched_upd) (use False assms(2,4) in auto)
qed

lemma step_wakeups: "queue_step (s :: 'a queue_state) s' \<Longrightarrow> wakeups_ok s \<Longrightarrow> wakeups_ok s'"
proof (induction rule: queue_step.induct)
  case (calls_push s t v)
  note w = wakeups_okD [OF calls_push(2)]
  show ?case unfolding wakeups_ok_def
    by (simp, intro conjI w [THEN watched_upd]) (use calls_push in \<open>simp_all add: stirs_empty_def stirs_full_def\<close>)
next
  case (calls_pop s t)
  note w = wakeups_okD [OF calls_pop(2)]
  show ?case unfolding wakeups_ok_def
    by (simp, intro conjI w [THEN watched_upd]) (use calls_pop in \<open>simp_all add: stirs_empty_def stirs_full_def\<close>)
next
  case (calls_close s t)
  note w = wakeups_okD [OF calls_close(2)]
  show ?case unfolding wakeups_ok_def
    by (simp, intro conjI w [THEN watched_upd]) (use calls_close in \<open>simp_all add: stirs_empty_def stirs_full_def\<close>)
next
  case (push_waits s t v)
  note w = wakeups_okD [OF push_waits(3)]
  have "\<not> bq_closed (qs_queue s)" "isQueueFull (qs_queue s)" using push_waits(2) by (auto simp: queue_push_def split: if_splits)
  then show ?case unfolding wakeups_ok_def
    by (simp, intro conjI w [THEN watched_upd]) (use push_waits in \<open>simp_all add: stirs_empty_def stirs_full_def\<close>)
next
  case (pushes s t v ok q ns)
  note w = wakeups_okD [OF pushes(3)] and q = queue_push_fifo [OF pushes(2)]
  have c: "ok \<Longrightarrow> \<not> bq_closed (qs_queue s)" using pushes(2) by (auto simp: queue_push_def split: if_splits)
  have st: "stirs_empty (notes_pc [EmptyOne, FullOne] :: 'a queue_pc)" "stirs_full (notes_pc [EmptyOne, FullOne] :: 'a queue_pc)"
      "\<not> stirs_empty (Pushing v)"
    by (simp_all add: stirs_empty_def stirs_full_def)
  show ?case
  proof (cases ok)
    case True
    then show ?thesis unfolding wakeups_ok_def
      by (simp, intro conjI w [THEN watched_upd]) (use True st c q in simp_all)
  next
    case False
    then have "q = qs_queue s" "ns = []" using pushes(2) by (auto simp: queue_push_def split: if_splits)
    moreover have "bq_closed (qs_queue s)" using q(6) False by simp
    moreover have "watched waits_full (sends FullAll) True ((qs_pc s)(t := Outside))"
      using w(3) \<open>bq_closed (qs_queue s)\<close> pushes(1) by (intro watched_upd [where C = "bq_closed (qs_queue s)"]) simp_all
    then have "watched waits_full stirs_full (\<not> isQueueFull (qs_queue s)) ((qs_pc s)(t := Outside))"
      unfolding watched_def stirs_full_def by blast
    moreover have "watched (\<lambda>p. p = WaitEmpty) (sends EmptyAll) (bq_closed (qs_queue s)) ((qs_pc s)(t := Outside))"
      "watched (\<lambda>p. p = WaitEmpty) stirs_empty (bq_queue (qs_queue s) \<noteq> []) ((qs_pc s)(t := Outside))"
      by (intro w(1,2) [THEN watched_upd], use st pushes(1) in simp_all)+
    ultimately show ?thesis unfolding wakeups_ok_def
      using \<open>watched waits_full (sends FullAll) True ((qs_pc s)(t := Outside))\<close> by (simp add: notes_pc_def)
  qed
next
  case (pop_waits s t)
  note w = wakeups_okD [OF pop_waits(3)]
  have "\<not> bq_closed (qs_queue s)" "bq_queue (qs_queue s) = []" using pop_waits(2) by (auto simp: queue_pop_def split: if_splits)
  then show ?case unfolding wakeups_ok_def
    by (simp, intro conjI w [THEN watched_upd]) (use pop_waits in \<open>simp_all add: stirs_empty_def stirs_full_def\<close>)
next
  case (pops s t r q ns)
  note w = wakeups_okD [OF pops(3)] and q = queue_pop_fifo [OF pops(2)]
  show ?case unfolding wakeups_ok_def
    by (simp, intro conjI w [THEN watched_upd])
      (use pops q in \<open>auto simp: stirs_empty_def stirs_full_def isQueueFull_def split: if_splits option.splits\<close>)
next
  case (closes s t q ns)
  note w = wakeups_okD [OF closes(3)]
  have "bq_queue q = bq_queue (qs_queue s)" "bq_size q = bq_size (qs_queue s)"
      "q = qs_queue s \<and> ns = [] \<or> ns = [EmptyAll, FullAll]" using closes(2) by (auto simp: queue_close_def split: if_splits)
  then show ?case unfolding wakeups_ok_def
    by (simp, intro conjI w [THEN watched_upd]) (use closes in \<open>auto simp: stirs_empty_def stirs_full_def isQueueFull_def\<close>)
next
  case (empty_one s t ns u)
  note w = wakeups_okD [OF empty_one(3)]
  have "u \<noteq> t" using empty_one(1,2) by auto
  then show ?case unfolding wakeups_ok_def
    by (simp, intro conjI w [THEN watched_woken]) (use empty_one in \<open>auto simp: stirs_empty_def stirs_full_def\<close>)
next
  case (empty_none s t ns)
  note w = wakeups_okD [OF empty_none(3)]
  have "watched (\<lambda>p. p = WaitEmpty) A C ((qs_pc s)(t := notes_pc ns))" for A C by (rule watched_none) (use empty_none in simp)
  then show ?case unfolding wakeups_ok_def
    by (simp, intro conjI w(3,4) [THEN watched_upd]) (use empty_none in \<open>auto simp: stirs_full_def\<close>)
next
  case (full_one s t ns u v)
  note w = wakeups_okD [OF full_one(3)]
  have "u \<noteq> t" using full_one(1,2) by auto
  then show ?case unfolding wakeups_ok_def
    by (simp, intro conjI w [THEN watched_woken]) (use full_one in \<open>auto simp: stirs_empty_def stirs_full_def\<close>)
next
  case (full_none s t ns)
  note w = wakeups_okD [OF full_none(3)]
  have "watched waits_full A C ((qs_pc s)(t := notes_pc ns))" for A C by (rule watched_none) (use full_none in \<open>auto simp: waits_full_def\<close>)
  then show ?case unfolding wakeups_ok_def
    by (simp, intro conjI w(1,2) [THEN watched_upd]) (use full_none in \<open>auto simp: stirs_empty_def\<close>)
next
  case (empty_all s t ns)
  note w = wakeups_okD [OF empty_all(2)]
  have m: "watched waits_full (sends FullAll) (bq_closed (qs_queue s)) (wake_empty \<circ> qs_pc s)"
    "watched waits_full stirs_full (\<not> isQueueFull (qs_queue s)) (wake_empty \<circ> qs_pc s)"
    using w(3,4) by (auto intro!: watched_map simp: wake_facts)
  have "watched (\<lambda>p. p = WaitEmpty) A C ((wake_empty \<circ> qs_pc s)(t := notes_pc ns))" for A C by (rule watched_none) (simp add: wake_facts)
  then show ?case unfolding wakeups_ok_def
    by (simp, intro conjI m [THEN watched_upd]) (use empty_all in \<open>auto simp: stirs_full_def wake_facts\<close>)
next
  case (full_all s t ns)
  note w = wakeups_okD [OF full_all(2)]
  have m: "watched (\<lambda>p. p = WaitEmpty) (sends EmptyAll) (bq_closed (qs_queue s)) (wake_full \<circ> qs_pc s)"
    "watched (\<lambda>p. p = WaitEmpty) stirs_empty (bq_queue (qs_queue s) \<noteq> []) (wake_full \<circ> qs_pc s)"
    using w(1,2) by (auto intro!: watched_map simp: wake_facts)
  have "watched waits_full A C ((wake_full \<circ> qs_pc s)(t := notes_pc ns))" for A C by (rule watched_none) (simp add: wake_facts)
  then show ?case unfolding wakeups_ok_def
    by (simp, intro conjI m [THEN watched_upd]) (use full_all in \<open>auto simp: stirs_empty_def wake_facts\<close>)
next
  case (spurious_empty s t)
  note w = wakeups_okD [OF spurious_empty(2)]
  show ?case unfolding wakeups_ok_def
    by (simp, intro conjI w [THEN watched_upd]) (use spurious_empty in \<open>simp_all add: stirs_empty_def stirs_full_def\<close>)
next
  case (spurious_full s t v)
  note w = wakeups_okD [OF spurious_full(2)]
  show ?case unfolding wakeups_ok_def
    by (simp, intro conjI w [THEN watched_upd]) (use spurious_full in \<open>simp_all add: stirs_empty_def stirs_full_def\<close>)
qed

lemma reachable_wakeups: "queue_reachable n s \<Longrightarrow> wakeups_ok s"
proof (induction rule: queue_reachable.induct)
  case starts
  then show ?case by (simp add: wakeups_ok_def watched_def queue_start_def waits_full_def)
qed (rule step_wakeups)

text \<open>A thread at rest is outside or waits; when all are, only those wait that must.\<close>

definition at_rest :: "'a queue_pc \<Rightarrow> bool" where
  "at_rest p \<longleftrightarrow> p = Outside \<or> p = WaitEmpty \<or> waits_full p"

lemma stirring_not_at_rest: "stirs_empty p \<Longrightarrow> \<not> at_rest p" "stirs_full p \<Longrightarrow> \<not> at_rest p" "sends x p \<Longrightarrow> \<not> at_rest p"
  by (auto simp: stirs_empty_def stirs_full_def at_rest_def sends_def waits_full_def)

lemma waits_justified:
  assumes "queue_reachable n s" "\<forall>t. at_rest (qs_pc s t)"
  shows "qs_pc s t = WaitEmpty \<Longrightarrow> bq_queue (qs_queue s) = [] \<and> \<not> bq_closed (qs_queue s)"
    "waits_full (qs_pc s t) \<Longrightarrow> length (bq_queue (qs_queue s)) = n \<and> \<not> bq_closed (qs_queue s)"
proof -
  note w = wakeups_okD [OF reachable_wakeups [OF assms(1)], unfolded watched_def]
  have f: "bq_size (qs_queue s) = n" using queue_fifo [OF assms(1)] by (simp add: fifo_def)
  show "qs_pc s t = WaitEmpty \<Longrightarrow> bq_queue (qs_queue s) = [] \<and> \<not> bq_closed (qs_queue s)"
    using w(1,2) assms(2) stirring_not_at_rest by metis
  show "waits_full (qs_pc s t) \<Longrightarrow> length (bq_queue (qs_queue s)) = n \<and> \<not> bq_closed (qs_queue s)"
    using w(3,4) assms(2) stirring_not_at_rest f unfolding isQueueFull_def by metis
qed

text \<open>A thread that is not at rest can go on.\<close>

lemma notes_left: "queue_step s s' \<Longrightarrow> \<forall>t. qs_pc s t \<noteq> Notifying [] \<Longrightarrow> \<forall>t. qs_pc s' t \<noteq> Notifying []"
  by (induction rule: queue_step.induct) (auto simp: notes_pc_def wake_empty_def wake_full_def split: queue_pc.split)

lemma restless_steps:
  assumes "queue_reachable n s" "\<not> at_rest (qs_pc s t)"
  shows "\<exists>s'. queue_step s s'"
proof (cases "qs_pc s t")
  case (Pushing v)
  then show ?thesis by (cases "queue_push v (qs_queue s)") (auto intro: push_waits pushes)
next
  case Popping
  then show ?thesis by (cases "queue_pop (qs_queue s)") (auto intro: pop_waits pops)
next
  case Closing
  then show ?thesis by (cases "queue_close (qs_queue s)") (auto intro: closes)
next
  case (Notifying ns)
  have "\<forall>t. qs_pc s t \<noteq> Notifying []"
    using assms(1) by (induction rule: queue_reachable.induct) (simp_all add: queue_start_def notes_left)
  then obtain x xs where "qs_pc s t = Notifying (x # xs)" using Notifying by (cases ns) auto
  then show ?thesis by (cases x) (metis empty_one empty_none, metis full_one full_none, metis empty_all, metis full_all)
qed (use assms in \<open>simp_all add: at_rest_def\<close>)

end
