(* ===== verification/Game_Properties.thy ===== *)
theory Game_Properties
  imports Dataset_Laws Containers Uci_Properties
begin

text \<open>The properties of the game files, of the table of boards made from them, and of the queue and the writer it goes through.\<close>

section \<open>A game\<close>

definition sample_double_move :: move where "sample_double_move = mkMove PawnDoubleMove 52 36 0"

definition sample_game :: Game where
  "sample_game = \<lparr>gm_header = \<lparr>gc_winner = Winner_White, gc_label = Some ''G1''\<rparr>, gm_title = Some ''A short game'',
     gm_commands = [InnerBoard sample_board, InnerMoves [sample_double_move]]\<rparr>"

lemma sample_legal_line: "legal_line sample_zobrist sample_board [sample_double_move]"
  using legal_iff_wasMoveLegal [OF sample_ok sample_king sample_pseudo] sample_double_legal
    valid_iff_pseudo_legal [OF sample_position(1), of "mkMove PawnDoubleMove 52 36 0"] sample_pseudo by (simp add: sample_double_move_def)

lemma sample_game_writable: "game_writable sample_zobrist sample_game"
  using sample_ok sample_unused sample_playable sample_legal_line
  by (simp add: game_writable_def sample_game_def label_writable_def title_writable_def word_ok_def isSpace_def sample_double_move_def mkMove_def)

lemma sample_game_instructive: "instructive sample_zobrist sample_game"
proof -
  have m: "isWellFormed sample_double_move (side sample_board)" "isMoveValid sample_board sample_double_move" "isMoveLegal sample_board sample_double_move"
    using sample_legal_line by simp_all
  have "playable sample_zobrist (fst (moveMake sample_zobrist sample_board sample_double_move))"
    by (rule legal_move_playable(2) [OF sample_ok(1) sample_playable m])
  then show ?thesis
    using playable_has_king sample_playable by (auto simp: instructive_def isCanonical_def sample_game_def Let_def)
qed

section \<open>Game files\<close>

text \<open>C36: games written to a file one after another are read back: the reader returns them all, in their order and unchanged, and
  then the end of the stream.\<close>

theorem game_files_read_back:
  assumes "zobrist_ok z" "length (cells b0) = 64" "list_all (game_writable z) gs"
  shows "\<exists>r. game_reader (concat (map game_write gs)) options z b0 = Some r \<and> gives_games r gs"
  by (rule games_read_back [OF assms])

theorem game_files_witness:
  "\<exists>r. game_reader (game_write sample_game @ game_write sample_game) CaptureBoards sample_zobrist blank_board = Some r \<and>
     gives_games r [sample_game, sample_game]"
  using game_files_read_back [OF sample_ok(1) blank_length, of "[sample_game, sample_game]" CaptureBoards] sample_game_writable by simp

text \<open>C37: whatever the file holds, the moves of a game that the reader returns are legal one after another from the boards before
  them, the boards are consistent, and the boards captured are the positions of the game in order; the reader is then as ready as before.\<close>

theorem games_read_are_legal:
  assumes "reader_ok r" "nextGame r = Some (Inr g, r')"
  shows "reader_ok r' \<and> game_legal (gr_zobrist r) None (gm_commands g) \<and>
    (canCaptureBoards r \<longrightarrow> capturedBoards r' = Some (game_boards (gr_zobrist r) None (gm_commands g)))"
  using nextGame_effect [OF assms] same_setting_captures [of r r'] by (simp add: capturedBoards_def)

theorem games_read_witness:
  "\<exists>r r'. game_reader (game_write sample_game) CaptureBoards sample_zobrist blank_board = Some r \<and> nextGame r = Some (Inr sample_game, r') \<and>
     capturedBoards r' = Some [sample_board, fst (moveMake sample_zobrist sample_board sample_double_move)]"
proof -
  obtain r where r: "game_reader (game_write sample_game) CaptureBoards sample_zobrist blank_board = Some r" "gives_games r [sample_game]"
    using games_read_back [OF sample_ok(1) blank_length, of "[sample_game]" CaptureBoards] sample_game_writable by auto
  obtain r' where r': "nextGame r = Some (Inr sample_game, r')" using r(2) unfolding gives_games.simps(2) by (auto simp del: gives_games.simps split: option.splits sum.splits) (metis sumE)
  note ok = game_reader_ok [OF blank_length r(1)]
  have "canCaptureBoards r" using ok(3) by (simp add: canCaptureBoards_def CaptureBoards_def Options_None_def)
  then have "capturedBoards r' = Some (game_boards sample_zobrist None (gm_commands sample_game))"
    using games_read_are_legal [OF ok(1) r'] ok(2) by simp
  then show ?thesis using r(1) r' by (auto simp: sample_game_def Let_def)
qed

text \<open>A board without kings is accepted by the reader; the first move from it then asks for the king of the side to move.\<close>

lemma reader_needs_king:
  assumes "isWellFormed (moveParse t b) (side b)" "isMoveValid b (moveParse t b)" "no_king b"
  shows "read_moves b (t # ts) ms r = None"
  using assms by (simp add: Let_def)

section \<open>The table of boards\<close>

text \<open>C38: a file of canonical games with winners is turned into the table of all the boards that the choice keeps, each with the
  winner, the number of its game and its place in it; no access leaves a vector, and the boards reach the threads in their order, in
  batches of at most 64, the exit code being zero.\<close>

theorem dataset_is_complete:
  assumes "zobrist_ok z" "length (cells b0) = 64" "list_all (game_writable z) gs" "list_all (instructive z) gs"
  shows "\<exists>fe. dataset_run z b0 rng shuffle names None f (concat (map game_write gs)) = Some (0, fe) \<and> drained fe (dataset_rows z f 0 gs)"
  by (rule dataset_run_all [OF assms])

theorem dataset_witness:
  "\<exists>fe. dataset_run sample_zobrist blank_board of_nat rev [] None False (game_write sample_game) = Some (0, fe) \<and>
     map rb_boardsLeft (concat (fe_boards fe)) = [1, 0]"
proof -
  have g: "list_all (game_writable sample_zobrist) [sample_game]" "list_all (instructive sample_zobrist) [sample_game]"
    using sample_game_writable sample_game_instructive by simp_all
  have "map rb_boardsLeft (dataset_rows sample_zobrist False 0 [sample_game]) = [1, 0]"
    by (simp add: game_rows_def board_rows_def keep_board_def Let_def sample_game_def)
  then show ?thesis
    using dataset_is_complete [OF sample_ok(1) blank_length g, of of_nat rev "[]" False] by (fastforce simp: drained_def)
qed

text \<open>With a bound on their number the boards are a sample of that table, of as many boards as the bound or the table allows.\<close>

theorem sample_is_full:
  assumes "zobrist_ok z" "length (cells b0) = 64" "list_all (game_writable z) gs" "list_all (instructive z) gs"
    and "\<And>xs. mset (shuffle xs) = mset xs" "length (dataset_rows z f 0 gs) < 2 ^ 64"
  shows "\<exists>fe rows. dataset_run z b0 rng shuffle names (Some sz) f (concat (map game_write gs)) = Some (0, fe) \<and> drained fe rows \<and>
    set rows \<subseteq> set (dataset_rows z f 0 gs) \<and> length rows = min (length (dataset_rows z f 0 gs)) (unat sz)"
  using dataset_run_sample [OF assms(1-5), of rng names sz f] assms(6) by (auto simp: sample_of_def sample_length_def)

text \<open>C40: the line of a board, put through the buffer into a stream without a limit, is the text of its fields: after a flush the
  stream has grown by exactly that.\<close>

theorem line_reaches_stream:
  assumes "buf_ok bw" "st_room (bw_writer bw) = None" "winnerToNumber (rb_winner b) = Some w"
    and "int64 (int (rb_boardsTotal b))" "int64 (int (rb_boardsLeft b))" "list_all int64 coefs"
  shows "\<exists>bw1 bw2. writeLine ostream_write junk b coefs bw = Some bw1 \<and> flush ostream_write bw1 = Some bw2 \<and>
    st_text (bw_writer bw2) = st_text (bw_writer bw) @ buffered bw @ line_text w b coefs \<and> buf_ok bw2"
proof -
  have "ow.written bw (st_text (bw_writer bw) @ buffered bw)" using assms(1,2) by (simp add: ow.written_def)
  from ow.line_written [OF this assms(3-6), of junk]
  obtain bw1 where "writeLine ostream_write junk b coefs bw = Some bw1"
      "ow.written bw1 (st_text (bw_writer bw) @ buffered bw @ line_text w b coefs)" by (auto simp: ow.has_text_def)
  then show ?thesis using ow.flushed [of bw1] by (auto simp: ow.written_def)
qed

theorem line_reaches_witness:
  "\<exists>bw1 bw2. writeLine ostream_write [] \<lparr>rb_winner = Winner_Draw, rb_gameId = 3, rb_boardsTotal = 9, rb_boardsLeft = 2, rb_board = blank_board\<rparr> [1, -1]
      (BufWriter \<lparr>st_text = ''x'', st_room = None\<rparr> (replicate 8192 (CHR '' ''))) = Some bw1 \<and>
    flush ostream_write bw1 = Some bw2 \<and> st_text (bw_writer bw2) = ''x0.5,'' @ int_chars 3 @ '','' @ int_chars 9 @ '','' @ int_chars 2 @
      '','' @ int_chars 1 @ '','' @ int_chars (-1) @ endl"
proof -
  let ?bw = "BufWriter \<lparr>st_text = ''x'', st_room = None\<rparr> (replicate 8192 (CHR '' ''))"
  have "buf_ok ?bw" "st_room (bw_writer ?bw) = None" "buffered ?bw = []"
    by (simp_all add: buf_ok_def BufWriter_def BUFFER_SIZE_def buffered_def)
  then show ?thesis
    using line_reaches_stream [of ?bw "\<lparr>rb_winner = Winner_Draw, rb_gameId = 3, rb_boardsTotal = 9, rb_boardsLeft = 2, rb_board = blank_board\<rparr>"
        "''0.5''" "[1, -1]" "[]"]
    by (auto simp: int64_def line_text_def BufWriter_def)
qed

section \<open>The queue\<close>

text \<open>C39: in every state the threads can bring the bounded queue into, what was popped and what is in the queue are what was pushed, in
  order, and the bound holds; no wake-up is lost: while a thread waits although its condition holds, some thread can go on.\<close>

theorem queue_waits_end:
  assumes "queue_reachable n s"
  shows "qs_pushed s = qs_popped s @ bq_queue (qs_queue s) \<and> length (bq_queue (qs_queue s)) \<le> n \<and>
    (\<forall>t. qs_pc s t = WaitEmpty \<and> (bq_queue (qs_queue s) \<noteq> [] \<or> bq_closed (qs_queue s)) \<or>
         waits_full (qs_pc s t) \<and> (length (bq_queue (qs_queue s)) < n \<or> bq_closed (qs_queue s)) \<longrightarrow>
       (\<exists>u s'. \<not> at_rest (qs_pc s u) \<and> queue_step s s'))"
proof -
  have "\<exists>u. \<not> at_rest (qs_pc s u)"
    if "qs_pc s t = WaitEmpty \<and> (bq_queue (qs_queue s) \<noteq> [] \<or> bq_closed (qs_queue s)) \<or>
         waits_full (qs_pc s t) \<and> (length (bq_queue (qs_queue s)) < n \<or> bq_closed (qs_queue s))" for t
    using waits_justified [OF assms, of t] that by auto
  then show ?thesis using queue_fifo [OF assms] restless_steps [OF assms] by (simp add: fifo_def) blast
qed

theorem queue_waits_witness:
  "\<exists>s :: nat queue_state. queue_reachable 1 s \<and> qs_pc s 0 = WaitEmpty \<and> bq_queue (qs_queue s) = [7] \<and>
     (\<exists>u s'. \<not> at_rest (qs_pc s u) \<and> queue_step s s')"
proof -
  let ?s0 = "queue_start 1 :: nat queue_state"
  let ?s1 = "at_pc ?s0 0 Popping"
  let ?s2 = "at_pc ?s1 0 WaitEmpty"
  let ?s3 = "at_pc ?s2 1 (Pushing 7)"
  let ?q = "(qs_queue ?s3)\<lparr>bq_queue := [7]\<rparr>"
  let ?s4 = "at_pc (?s3\<lparr>qs_queue := ?q, qs_pushed := [7]\<rparr>) 1 (notes_pc [EmptyOne, FullOne])"
  have "queue_step ?s0 ?s1" by (rule calls_pop) (simp add: queue_start_def)
  moreover have "queue_step ?s1 ?s2" by (rule pop_waits) (simp_all add: queue_start_def queue_pop_def new_queue_def)
  moreover have "queue_step ?s2 ?s3" by (rule calls_push) (simp add: queue_start_def)
  moreover have "queue_step ?s3 ?s4"
    using pushes [of ?s3 1 7 True ?q "[EmptyOne, FullOne]"] by (simp add: queue_start_def queue_push_def new_queue_def isQueueFull_def)
  ultimately have r: "queue_reachable 1 ?s4" by (meson starts runs)
  have f: "qs_pc ?s4 0 = WaitEmpty" "bq_queue (qs_queue ?s4) = [7]" by simp_all
  have "\<exists>u s'. \<not> at_rest (qs_pc ?s4 u) \<and> queue_step ?s4 s'"
    using queue_waits_end [OF r, THEN conjunct2, THEN conjunct2, THEN spec, of 0] f by simp
  then show ?thesis using r f by (intro exI [of _ ?s4] conjI)
qed

end
