(* ===== verification/Spec2Isabelle.thy ===== *)
theory Spec2Isabelle
  imports Core_Properties Movegen_Properties Text_Properties Search_Properties Eval_Properties Job_Properties Uci_Properties Game_Properties
begin

text \<open>
  SoFCheck, a UCI chess engine: a model of its core and the theorems that make it correct.

  \<^bold>\<open>Parts of the program.\<close> \<^verbatim>\<open>src/src/core\<close> keeps a position: 64 cells, side, castling, en passant
  square, counters, a Zobrist hash and bitboards kept in step with the cells; it makes, unmakes and
  generates moves, with magic bitboards for sliding pieces, and reads and writes FEN and moves.
  \<^verbatim>\<open>src/src/search\<close> searches from a position: \<^verbatim>\<open>Job\<close>s run an alpha-beta search with iterative deepening
  over a shared lock-free transposition table, a repetition table each, killers and history; a move
  picker orders the moves. \<^verbatim>\<open>JobRunner\<close> starts the jobs and a main thread that waits for them and reports to the
  server. \<^verbatim>\<open>src/src/bot_api\<close> connects the engine to the user: options, the UCI server that reads commands and writes
  answers, and the poll loop. \<^verbatim>\<open>src/src/gameset\<close> reads and writes files of games, from which the program
  \<^verbatim>\<open>make_dataset\<close> makes a table of boards to tune the evaluation. \<^verbatim>\<open>src/src/eval\<close> scores positions, \<^verbatim>\<open>src/src/util\<close> has bit tricks and strings.

  \<^bold>\<open>Theories.\<close>
  \<^item> \<open>Prelude\<close>: words, lists and named collections shared by all. \<open>Util_Bit\<close>: \<^verbatim>\<open>util/bit.h\<close>.
  \<^item> \<open>Core_Types\<close>, \<open>Geometry\<close>: \<^verbatim>\<open>core/types.h\<close>, \<^verbatim>\<open>core/bitboard.h\<close>, the constant tables and pawn shifts.
    A coordinate is an \<open>int\<close> 0 to 63, a cell an \<open>int\<close> 0 to 14, a bitboard a 64-bit word.
  \<^item> \<open>Near_Attacks\<close>: the generators of the king, knight, pawn and between tables (\<^verbatim>\<open>gen/core\<close>).
  \<^item> \<open>Magic\<close>, \<open>Magic_Regions\<close>, \<open>Magic_Lookup\<close>: magic masks, the shared lookup tables, their filling and
    lookup (\<^verbatim>\<open>core/private/magic.cpp\<close>). The magic constants are an argument with the hypothesis
    that the search for them promises (no destructive collision).
  \<^item> \<open>Board\<close>, \<open>Initial_Position\<close>, \<open>Board_Text\<close>, \<open>Fen_Roundtrip\<close>, \<open>Fen_Valid\<close>: \<^verbatim>\<open>core/board.cpp\<close>, with
    \<open>consistent\<close> (hash and bitboards are those of the cells) as the invariant. The Zobrist table is an argument.
  \<^item> \<open>Move\<close> and \<open>Move_*\<close>: \<^verbatim>\<open>core/move.cpp\<close>, make and unmake, texts of moves.
  \<^item> \<open>Movegen\<close> and \<open>Movegen_*\<close>: \<^verbatim>\<open>core/movegen.cpp\<close> against the rules of chess (\<open>pseudo_legal\<close>).
  \<^item> \<open>Str_*\<close>, \<open>Core_Str\<close>: \<^verbatim>\<open>util/strutil\<close>, \<^verbatim>\<open>util/math.h\<close>, \<^verbatim>\<open>core/strutil\<close>, \<^verbatim>\<open>core/move_parser\<close>.
  \<^item> \<open>Score\<close>: \<^verbatim>\<open>eval/score.h\<close> and the costs of \<^verbatim>\<open>bot_api/types.h\<close>; an \<^verbatim>\<open>int16_t\<close> is an \<open>int\<close> and
    \<open>to_i16\<close> wraps around where the code converts.
  \<^item> \<open>Repetition\<close>, \<open>Trans_Table\<close>, \<open>Trans_Lemmas\<close>, \<open>Trans_Resize\<close>, \<open>Trans_Threads\<close>: the tables of the
    search; \<open>Trans_Threads\<close> has the atomic steps of threads that load and store without locks.
  \<^item> \<open>Move_Picker\<close>, \<open>Picker_Moves\<close>: \<^verbatim>\<open>search/private/move_picker\<close>; \<^verbatim>\<open>std::sort\<close> is any
    function that satisfies the locale \<open>sorter\<close>.
  \<^item> \<open>Playable\<close>: positions that games reach. \<open>Search\<close>: \<^verbatim>\<open>search/private/job.cpp\<close>. \<open>Quiescence\<close>: its
    quiescence search against negamax over captures and promotions.
  \<^item> \<open>Features\<close>, \<open>Feature_*\<close>: \<^verbatim>\<open>eval/feat\<close>, feature sets and their JSON. \<open>Eval_Tables\<close>: \<^verbatim>\<open>gen/eval\<close>, the
    bitboards and weights of the evaluation. \<open>Evaluate\<close>, \<open>Eval_Lemmas\<close>, \<open>Eval_Correct\<close>, \<open>Eval_Pawns\<close>:
    \<^verbatim>\<open>eval/evaluate.cpp\<close> with its tags and the pawn cache (\<^verbatim>\<open>eval/private/cache.h\<close>, \<^verbatim>\<open>util/hash.h\<close>).
  \<^item> \<open>Limits\<close>: \<^verbatim>\<open>search/private/limits.cpp\<close>, \<^verbatim>\<open>types.cpp\<close>.
    \<open>Jobs\<close>: the steps of the jobs, the main thread and the caller of \<^verbatim>\<open>stop()\<close> as a relation on a world with the
    communicator (lock, condition variable, atomics), one access to shared data a step; \<open>Jobs_Locks\<close>, \<open>Jobs_Lines\<close>,
    \<open>Jobs_Ends\<close>: its invariants, the reading of principal variations from the table, and a measure of the work left after a stop. \<open>Job_Runner\<close>: configuration, start of a search.
  \<^item> \<open>Options\<close>: \<^verbatim>\<open>bot_api/options.cpp\<close>. \<open>Client\<close>: \<^verbatim>\<open>client.h\<close> as a record of operations, \<^verbatim>\<open>connection.cpp\<close>.
    \<open>Uci_Escape\<close>, \<open>Uci\<close>: \<^verbatim>\<open>bot_api/clients\<close>. \<open>Uci_Setoption\<close>, \<open>Uci_Game\<close>, \<open>Uci_Protocol\<close>, \<open>Uci_Loop\<close>: reading options,
    positions, whole runs, and the locale \<open>returning_engine\<close> with what the interface asks of an engine.
    \<open>Engine\<close>, \<open>Engine_Laws\<close>: \<^verbatim>\<open>search/search.cpp\<close> as a client, on which the locale is interpreted.
  \<^item> \<open>Game_Set\<close>, \<open>Game_Set_Laws\<close>: \<^verbatim>\<open>gameset/types.cpp\<close>, \<^verbatim>\<open>reader.cpp\<close>; a stream is the text that is left. \<open>Dataset\<close>,
    \<open>Dataset_Laws\<close>: \<^verbatim>\<open>eval/feat/bin/make_dataset.cpp\<close>, with the consumers of boards as a record of operations and the locale
    \<open>board_sink\<close> interpreted on each of them. \<open>Buf_Writer\<close>: \<^verbatim>\<open>util/ioutil\<close>, the locale \<open>working_writer\<close>. \<open>Containers\<close>: \<^verbatim>\<open>util/valarray.h\<close>,
    \<^verbatim>\<open>smallvec.h\<close>, and \<^verbatim>\<open>queue.h\<close> with the steps of the threads that use it.
  \<^item> \<open>*_Properties\<close>: the properties with their witnesses on concrete positions.

  \<^bold>\<open>How state and errors are modelled.\<close> Structs are records, passed along and returned updated; templates
  over a colour take it as an argument. A panic, a failed assertion or an access out of range is \<open>None\<close>
  or a constructor of an error type. Loops whose end is not structural are \<open>function\<close> with a termination
  proof, \<open>partial_function (option)\<close> where they may not return (\<open>new_size_loop\<close>, \<open>wrap_loop\<close>), or take a bound
  (\<open>q_loop\<close>, \<open>quiescenseSearch\<close>, \<open>move_loop\<close>, \<open>search\<close>); the theorem on the quiescence search shows
  that a bound that suffices exists on every position of a game, as captures and promotions lower the material.
  Threads are relations on a shared state, with memory that is sequentially consistent. The poll loop is a
  \<open>partial_function (option)\<close>; it is shown to return for every input.

  \<^bold>\<open>What the theorems show.\<close> Core: incremental updates equal recomputation, unmake undoes make, lookups
  equal the rays, the generator yields exactly the legal moves, FEN and moves survive printing and reading.
  Tables: a load returns stored data even while other threads write, a resize keeps entries, the repetition table
  is a set. Search: the picker yields each pseudo-legal move once, positions stay
  legal, the quiescence search is negamax and leaves its state unchanged, also when stopped.
  Threads: a search that was stopped ends, each depth is reported once, no wakeup is lost, changes of the
  configuration wait for the end of the search. Interface: options are set by the names they are announced with, the
  engine only gets legal lines of moves, positions are read back as written, every search is answered by one
  \<open>bestmove\<close>, every \<open>go\<close> has limits, the poll loop ends with its input and no call of the engine fails an assertion as long
  as a created main thread runs before the next line. Evaluation: the incremental tag equals the recomputed one, the pawn cache is transparent, feature sets survive
  saving and loading. Game files: games are read back as written, what is read is legal, and the table of boards is complete; the
  queue keeps the order and loses no wakeup, and the buffered writer writes what it is given.

  \<^bold>\<open>Not modelled.\<close> Code that prints generated C++ sources; the random search for magic numbers; prefetching;
  diagnostics compiled out by default; the statistics printed in debug mode, nodes per second and the log, which only
  feed output; streams, clocks and the scheduler themselves (what they answer is an argument); the second
  score type of the evaluation, vectors of coefficients (so the thread that computes the coefficients of a batch is left out, the line
  it writes is not); the other command line tools, tests, and the JSON library, which is third-party.
\<close>

end
